(* ===== verification/Prelude.thy ===== *)
theory Prelude
  imports Main "HOL-Library.Word"
begin

text \<open>
  Shared vocabulary of the development.  Kernel code is translated into functions from a
  state to an \<open>outcome\<close>: a C function either returns, or it stops the machine with
  \<open>panic\<close>, or it runs into behaviour the C code does not define (a null or out-of-range
  pointer), or it spins for ever on a lock another CPU holds, or it gives up the CPU in
  \<open>sched\<close>.  The combinator \<open>bnd\<close> sequences two pieces of code.  The rest of the theory
  holds the generic facts on lists, words and byte sequences that the components share.
\<close>

type_synonym byte = "8 word"
type_synonym addr = "32 word"

text \<open>A string literal of the source, without its final NUL.\<close>

definition bytes_of :: "string \<Rightarrow> byte list" where
  "bytes_of cs = map of_char cs"

named_theorems ok_iff \<open>inversion rules for outcomes that return\<close>
named_theorems lock_simps \<open>symbolic evaluation of acquire and release\<close>

section \<open>Outcomes of kernel code\<close>

datatype ('a, 's) outcome =
    Ok 'a 's            \<comment> \<open>the function returned a value and left a state\<close>
  | Panic string        \<comment> \<open>panic(msg): the machine stops\<close>
  | Fault               \<comment> \<open>null or wild pointer, array index out of range\<close>
  | Spin                \<comment> \<open>busy-waits for a spin lock held elsewhere\<close>
  | Slept 's            \<comment> \<open>switched to the scheduler in this state\<close>

definition bnd ::
    "('a, 's) outcome \<Rightarrow> ('a \<Rightarrow> 's \<Rightarrow> ('b, 's) outcome) \<Rightarrow> ('b, 's) outcome" where
  "bnd m f = (case m of Ok x s \<Rightarrow> f x s | Panic e \<Rightarrow> Panic e | Fault \<Rightarrow> Fault | Spin \<Rightarrow> Spin
              | Slept s \<Rightarrow> Slept s)"

lemma bnd_simps [simp]:
  "bnd (Ok x s) f = f x s"
  "bnd (Panic e) f = Panic e"
  "bnd Fault f = Fault"
  "bnd Spin f = Spin"
  "bnd (Slept s) f = Slept s"
  by (simp_all add: bnd_def)

lemma bnd_cong [fundef_cong]:
  "m = m' \<Longrightarrow> (\<And>x s. m' = Ok x s \<Longrightarrow> f x s = f' x s) \<Longrightarrow> bnd m f = bnd m' f'"
  by (cases m') auto

lemma bnd_eq_Ok [ok_iff]: "bnd m f = Ok y t \<longleftrightarrow> (\<exists>x s. m = Ok x s \<and> f x s = Ok y t)"
  by (cases m) auto

lemma bnd_eq_Panic: "bnd m f = Panic e \<longleftrightarrow> m = Panic e \<or> (\<exists>x s. m = Ok x s \<and> f x s = Panic e)"
  by (cases m) auto

lemma bnd_assoc: "bnd (bnd m f) g = bnd m (\<lambda>x s. bnd (f x s) g)"
  by (cases m) auto

lemma bnd_Ok_right [simp]: "bnd m Ok = m"
  by (cases m) auto

lemma if_eq_Ok [ok_iff]:
  "(if b then m else n) = Ok y t \<longleftrightarrow> (b \<and> m = Ok y t) \<or> (\<not> b \<and> n = Ok y t)"
  by simp

text \<open>Code that works on one field of a larger state, given how to read and write the field.\<close>

definition focus ::
    "('s \<Rightarrow> 'f) \<Rightarrow> ('f \<Rightarrow> 's \<Rightarrow> 's) \<Rightarrow> ('f \<Rightarrow> ('a, 'f) outcome) \<Rightarrow> 's \<Rightarrow> ('a, 's) outcome" where
  "focus get put op s = (case op (get s) of Ok x f \<Rightarrow> Ok x (put f s) | Panic e \<Rightarrow> Panic e
     | Fault \<Rightarrow> Fault | Spin \<Rightarrow> Spin | Slept f \<Rightarrow> Slept (put f s))"

section \<open>Searching a table\<close>

text \<open>\<open>for(p = tab; p < &tab[N]; p++) if(P(p)) goto found;\<close>: the first index that satisfies
  the test.\<close>

primrec first_idx :: "('a \<Rightarrow> bool) \<Rightarrow> 'a list \<Rightarrow> nat option" where
  "first_idx P [] = None"
| "first_idx P (x # xs) = (if P x then Some 0 else map_option Suc (first_idx P xs))"

lemma first_idx_None: "first_idx P xs = None \<longleftrightarrow> (\<forall>x \<in> set xs. \<not> P x)"
  by (induction xs) auto

lemma first_idx_Some:
  "first_idx P xs = Some i \<longleftrightarrow> i < length xs \<and> P (xs ! i) \<and> (\<forall>j < i. \<not> P (xs ! j))"
proof (induction xs arbitrary: i)
  case (Cons x xs)
  show ?case
  proof (cases i)
    case (Suc k)
    have "(\<forall>j < Suc k. \<not> P ((x # xs) ! j)) \<longleftrightarrow> \<not> P x \<and> (\<forall>j < k. \<not> P (xs ! j))"
      by (simp add: All_less_Suc2)
    with Suc Cons.IH[of k] show ?thesis by auto
  qed auto
qed simp

lemma first_idx_SomeD:
  "first_idx P xs = Some i \<Longrightarrow> i < length xs"
  "first_idx P xs = Some i \<Longrightarrow> P (xs ! i)"
  by (simp_all add: first_idx_Some)

lemma first_idx_exists:
  assumes "i < length xs" and "P (xs ! i)"
  shows "\<exists>j. first_idx P xs = Some j \<and> j \<le> i"
proof (cases "first_idx P xs")
  case None
  with assms show ?thesis by (auto simp: first_idx_None)
next
  case (Some j)
  then have "\<not> i < j" using assms(2) by (auto simp: first_idx_Some)
  with Some show ?thesis by auto
qed

lemma first_idx_map: "first_idx P (map f xs) = first_idx (\<lambda>x. P (f x)) xs"
  by (induction xs) auto

section \<open>Lists updated at an index\<close>

lemma map_update_keep: "f y = f (xs ! i) \<Longrightarrow> map f (xs[i := y]) = map f xs"
  by (cases "i < length xs") (simp_all add: map_update list_update_same_conv list_update_beyond)

lemma list_all_update: "list_all P xs \<Longrightarrow> P y \<Longrightarrow> list_all P (xs[i := y])"
  using set_update_subset_insert[of xs i y] by (auto simp: list_all_iff)

section \<open>Machine integers\<close>

text \<open>C's \<open>int\<close> operators on 32-bit values that may wrap.\<close>

definition s_lt :: "32 word \<Rightarrow> 32 word \<Rightarrow> bool" where
  "s_lt a b = (sint a < sint b)"

definition s_le :: "32 word \<Rightarrow> 32 word \<Rightarrow> bool" where
  "s_le a b = (sint a \<le> sint b)"

lemma sint_eq_unat: 
  fixes x :: "32 word"
  assumes "unat x < 2 ^ 31" shows "sint x = int (unat x)"
proof -
  have "int (unat x) < int (2 ^ 31)" using assms by (simp only: of_nat_less_iff)
  then have "uint x < 2 ^ 31" by (simp only: of_nat_unat of_nat_power of_nat_numeral)
  moreover have "0 \<le> uint x" by (rule uint_ge_0)
  ultimately have "signed_take_bit 31 (uint x) = uint x"
    by (intro signed_take_bit_int_eq_self) linarith+
  then show ?thesis
    by (simp add: sint_uint)
qed
lemma unat_lt32: "unat (x :: 32 word) < 2 ^ 32"
  using unsigned_less[of x, where ?'a = nat] by simp

lemma unat_of_nat32: "k < 2 ^ 32 \<Longrightarrow> unat (of_nat k :: 32 word) = k"
  by (simp add: unat_of_nat take_bit_nat_eq_self)

lemma unat_pred: "y \<noteq> 0 \<Longrightarrow> unat (y - 1 :: 32 word) = unat y - 1"
  by (simp add: unat_gt_0 unat_minus_one)

lemma unat_less_Suc: 
  "unat (y :: 32 word) < Suc k \<longleftrightarrow> y = 0 \<or> (y \<noteq> 0 \<and> unat (y - 1) < k)"
proof (cases "y = 0")
  case False
  then have "0 < unat y" by (simp add: unat_gt_0)
  with False show ?thesis by (auto simp: unat_pred) 
qed simp

lemma word_lt_4: "unat (y :: 32 word) < 4 \<longleftrightarrow> y = 0 \<or> y = 1 \<or> y = 2 \<or> y = 3"
proof -
  have "unat y < 4 \<longleftrightarrow> unat y = 0 \<or> unat y = 1 \<or> unat y = 2 \<or> unat y = 3" by auto
  also have "\<dots> \<longleftrightarrow> y = 0 \<or> y = 1 \<or> y = 2 \<or> y = 3"
    by (simp add: word_unat_eq_iff)
  finally show ?thesis .
qed

lemma unat_minus_4: "unat (y - 4 :: 32 word) = (if unat y < 4 then unat y + (2 ^ 32 - 4) else unat y - 4)"
  by (simp add: unat_sub_if')

text \<open>The sign of a C integer.\<close>

lemma s_neg_iff: "s_lt n 0 \<longleftrightarrow> 2 ^ 31 \<le> unat n"
proof (cases "unat n < 2 ^ 31")
  case True
  then show ?thesis using sint_eq_unat[OF True] by (simp add: s_lt_def)
next
  case False
  then have "int (2 ^ 31) \<le> int (unat n)" by (simp only: of_nat_le_iff not_less)
  then have "2 ^ 31 \<le> uint n" by simp
  then have "signed_take_bit 31 (uint n) \<le> uint n - 2 ^ Suc 31" by (rule signed_take_bit_int_less_eq)
  moreover have "uint n < 2 ^ Suc 31" using uint_lt2p[of n] by simp
  ultimately have "signed_take_bit 31 (uint n) < 0" by linarith
  then have "sint n < 0" by (simp add: sint_uint)
  with False show ?thesis by (simp add: s_lt_def)
qed

end
