(* ===== verification/CString.thy ===== *)
theory CString
  imports Prelude
begin

text \<open>
  The memory and string routines of \<open>string.c\<close> and the string routines of \<open>ulib.c\<close>.
  \<open>memset\<close>, \<open>memmove\<close> and \<open>memcmp\<close> work on a memory (a map from 32-bit addresses to bytes), so
  that overlapping ranges and the wrap-around of pointers are visible.  The string routines
  read a byte sequence (what a \<open>char*\<close> points at, by offset) and return the bytes they store:
  a structure's array and a memory range are both such sequences.  A loop that only ends at a
  NUL byte is a \<open>partial_function\<close> into \<open>option\<close>.
\<close>

unbundle bit_operations_syntax

type_synonym memory = "addr \<Rightarrow> byte"
type_synonym bseq = "nat \<Rightarrow> byte"

text \<open>The array of a structure as a sequence and back.\<close>

abbreviation seq_of :: "byte list \<Rightarrow> bseq" where
  "seq_of xs \<equiv> (\<lambda>i. xs ! i)"

definition arr_of :: "nat \<Rightarrow> bseq \<Rightarrow> byte list" where
  "arr_of k f = map f [0..<k]"

section \<open>Filling memory\<close>

text \<open>\<open>rep stosb\<close> and \<open>rep stosl\<close> of x86.h.\<close>

fun stosb :: "addr \<Rightarrow> byte \<Rightarrow> nat \<Rightarrow> memory \<Rightarrow> memory" where
  "stosb a c 0 m = m"
| "stosb a c (Suc k) m = stosb (a + 1) c k (m(a := c))"

definition byte_of :: "32 word \<Rightarrow> nat \<Rightarrow> byte" where
  "byte_of w i = ucast (drop_bit (8 * i) w)"

definition store32 :: "addr \<Rightarrow> 32 word \<Rightarrow> memory \<Rightarrow> memory" where
  "store32 a w m = m(a := byte_of w 0, a + 1 := byte_of w 1, a + 2 := byte_of w 2,
                     a + 3 := byte_of w 3)"

definition load32 :: "memory \<Rightarrow> addr \<Rightarrow> 32 word" where
  "load32 m a = ucast (m a) OR push_bit 8 (ucast (m (a + 1))) OR push_bit 16 (ucast (m (a + 2)))
                OR push_bit 24 (ucast (m (a + 3)))"

fun stosl :: "addr \<Rightarrow> 32 word \<Rightarrow> nat \<Rightarrow> memory \<Rightarrow> memory" where
  "stosl a w 0 m = m"
| "stosl a w (Suc k) m = stosl (a + 4) w k (store32 a w m)"

definition memset :: "addr \<Rightarrow> 32 word \<Rightarrow> 32 word \<Rightarrow> memory \<Rightarrow> memory" where
  "memset dst c n m =
     (if dst mod 4 = 0 \<and> n mod 4 = 0
      then let c = c AND 0xFF in
        stosl dst (push_bit 24 c OR push_bit 16 c OR push_bit 8 c OR c) (unat (n div 4)) m
      else stosb dst (ucast c) (unat n) m)"

section \<open>Copying and comparing memory\<close>

fun copy_up :: "addr \<Rightarrow> addr \<Rightarrow> nat \<Rightarrow> memory \<Rightarrow> memory" where
  "copy_up d s 0 m = m"
| "copy_up d s (Suc k) m = copy_up (d + 1) (s + 1) k (m(d := m s))"

fun copy_down :: "addr \<Rightarrow> addr \<Rightarrow> nat \<Rightarrow> memory \<Rightarrow> memory" where
  "copy_down d s 0 m = m"
| "copy_down d s (Suc k) m = copy_down (d - 1) (s - 1) k (m(d - 1 := m (s - 1)))"

definition memmove :: "addr \<Rightarrow> addr \<Rightarrow> 32 word \<Rightarrow> memory \<Rightarrow> memory" where
  "memmove dst src n m =
     (if src < dst \<and> src + n > dst
      then copy_down (dst + n) (src + n) (unat n) m
      else copy_up dst src (unat n) m)"

definition memcpy :: "addr \<Rightarrow> addr \<Rightarrow> 32 word \<Rightarrow> memory \<Rightarrow> memory" where
  "memcpy dst src n m = memmove dst src n m"

fun memcmp_loop :: "bseq \<Rightarrow> bseq \<Rightarrow> nat \<Rightarrow> nat \<Rightarrow> int" where
  "memcmp_loop s1 s2 i 0 = 0"
| "memcmp_loop s1 s2 i (Suc k) =
     (if s1 i \<noteq> s2 i then uint (s1 i) - uint (s2 i) else memcmp_loop s1 s2 (Suc i) k)"

definition memcmp :: "bseq \<Rightarrow> bseq \<Rightarrow> 32 word \<Rightarrow> int" where
  "memcmp v1 v2 n = memcmp_loop v1 v2 0 (unat n)"

section \<open>Strings\<close>

fun strncmp_loop :: "bseq \<Rightarrow> bseq \<Rightarrow> nat \<Rightarrow> nat \<Rightarrow> int" where
  "strncmp_loop p q i 0 = 0"
| "strncmp_loop p q i (Suc k) =
     (if p i \<noteq> 0 \<and> p i = q i then strncmp_loop p q (Suc i) k
      else uint (p i) - uint (q i))"

definition strncmp :: "bseq \<Rightarrow> bseq \<Rightarrow> 32 word \<Rightarrow> int" where
  "strncmp p q n = strncmp_loop p q 0 (unat n)"

text \<open>The bytes \<open>strncpy(s, t, n)\<close> stores at \<open>s\<close>, in order.\<close>

fun strncpy_loop :: "bseq \<Rightarrow> nat \<Rightarrow> nat \<Rightarrow> byte list" where
  "strncpy_loop t i 0 = []"
| "strncpy_loop t i (Suc k) =
     (if t i \<noteq> 0 then t i # strncpy_loop t (Suc i) k else 0 # replicate k 0)"

definition strncpy :: "bseq \<Rightarrow> 32 word \<Rightarrow> byte list" where
  "strncpy t n = strncpy_loop t 0 (nat (sint n))"

text \<open>The bytes \<open>safestrcpy(s, t, n)\<close> stores at \<open>s\<close>: the loop \<open>while(--n > 0 && (*s++ = *t++) != 0)\<close>
  has \<open>k\<close> iterations left, then \<open>*s = 0\<close>.\<close>

fun safestrcpy_loop :: "bseq \<Rightarrow> nat \<Rightarrow> nat \<Rightarrow> byte list" where
  "safestrcpy_loop t i 0 = [0]"
| "safestrcpy_loop t i (Suc k) =
     (if t i \<noteq> 0 then t i # safestrcpy_loop t (Suc i) k else [0, 0])"

definition safestrcpy :: "bseq \<Rightarrow> 32 word \<Rightarrow> byte list" where
  "safestrcpy t n = (if sint n \<le> 0 then [] else safestrcpy_loop t 0 (nat (sint n) - 1))"

text \<open>Storing the bytes over the beginning of an array.\<close>

definition over :: "byte list \<Rightarrow> byte list \<Rightarrow> byte list" where
  "over arr xs = xs @ drop (length xs) arr"

partial_function (option) strlen_from :: "bseq \<Rightarrow> nat \<Rightarrow> nat option" where
  "strlen_from s n = (if s n = 0 then Some n else strlen_from s (Suc n))"

definition strlen :: "bseq \<Rightarrow> nat option" where
  "strlen s = strlen_from s 0"

section \<open>ulib.c\<close>

partial_function (option) strcpy_from :: "bseq \<Rightarrow> nat \<Rightarrow> byte list \<Rightarrow> byte list option" where
  "strcpy_from t i out =
     (if t i = 0 then Some (out @ [0]) else strcpy_from t (Suc i) (out @ [t i]))"

definition strcpy :: "bseq \<Rightarrow> byte list option" where
  "strcpy t = strcpy_from t 0 []"

partial_function (option) strcmp_from :: "bseq \<Rightarrow> bseq \<Rightarrow> nat \<Rightarrow> int option" where
  "strcmp_from p q i =
     (if p i \<noteq> 0 \<and> p i = q i then strcmp_from p q (Suc i) else Some (uint (p i) - uint (q i)))"

definition strcmp :: "bseq \<Rightarrow> bseq \<Rightarrow> int option" where
  "strcmp p q = strcmp_from p q 0"

text \<open>\<open>strchr\<close>: \<open>Some None\<close> is the null result, \<open>Some (Some i)\<close> the pointer \<open>s + i\<close>.\<close>

partial_function (option) strchr_from :: "bseq \<Rightarrow> byte \<Rightarrow> nat \<Rightarrow> nat option option" where
  "strchr_from s c i =
     (if s i = 0 then Some None
      else if s i = c then Some (Some i)
      else strchr_from s c (Suc i))"

definition strchr :: "bseq \<Rightarrow> byte \<Rightarrow> nat option option" where
  "strchr s c = strchr_from s c 0"

text \<open>\<open>atoi\<close>: the digits are read as a 32-bit \<open>int\<close> that wraps.\<close>

partial_function (option) atoi_from :: "bseq \<Rightarrow> nat \<Rightarrow> 32 word \<Rightarrow> 32 word option" where
  "atoi_from s i n =
     (if 48 \<le> s i \<and> s i \<le> 57 then atoi_from s (Suc i) (n * 10 + ucast (s i) - 48) else Some n)"

definition atoi :: "bseq \<Rightarrow> 32 word option" where
  "atoi s = atoi_from s 0 0"

text \<open>\<open>memset\<close> and \<open>memmove\<close> of the user library: no word store, no overlap test.\<close>

definition u_memset :: "addr \<Rightarrow> 32 word \<Rightarrow> 32 word \<Rightarrow> memory \<Rightarrow> memory" where
  "u_memset dst c n m = stosb dst (ucast c) (unat n) m"

definition u_memmove :: "addr \<Rightarrow> addr \<Rightarrow> 32 word \<Rightarrow> memory \<Rightarrow> memory" where
  "u_memmove dst src n m = copy_up dst src (nat (sint n)) m"

section \<open>Correctness of the memory routines\<close>

lemma stosb_spec:
  "k \<le> 2 ^ 32 \<Longrightarrow> stosb a c k m x = (if unat (x - a) < k then c else m x)"
proof (induction k arbitrary: a m)
  case (Suc k)
  have "unat (x - a) < Suc k \<longleftrightarrow> x = a \<or> unat (x - (a + 1)) < k"
    using unat_less_Suc[of "x - a" k] Suc.prems  by (auto simp: diff_diff_eq)
  with Suc show ?case by auto
qed simp

lemma store32_spec: "store32 a w m x = (if unat (x - a) < 4 then byte_of w (unat (x - a)) else m x)"
proof -
  have "x = a \<longleftrightarrow> x - a = 0" "x = a + 1 \<longleftrightarrow> x - a = 1" "x = a + 2 \<longleftrightarrow> x - a = 2" "x = a + 3 \<longleftrightarrow> x - a = 3"
    by (simp_all add: diff_eq_eq add.commute)
  then show ?thesis
    by (simp only: store32_def fun_upd_apply word_lt_4) auto
qed

lemma stosl_spec:
  "4 * k \<le> 2 ^ 32 \<Longrightarrow>
   stosl a w k m x = (if unat (x - a) < 4 * k then byte_of w (unat (x - a) mod 4) else m x)"
proof (induction k arbitrary: a m)
  case (Suc k)
  have off: "unat (x - (a + 4)) = (if unat (x - a) < 4 then unat (x - a) + (2 ^ 32 - 4) else unat (x - a) - 4)"
    using unat_minus_4[of "x - a"] by (simp add: diff_diff_eq)
  have "4 \<le> n \<Longrightarrow> (n - 4) mod 4 = n mod 4" for n :: nat by (simp add: le_mod_geq)
  then show ?case using Suc by (auto simp: off store32_spec)
qed simp

lemma splat_byte:
  fixes c :: "32 word"
  assumes "i < 4"
  shows "byte_of (push_bit 24 (c AND 0xFF) OR push_bit 16 (c AND 0xFF) OR push_bit 8 (c AND 0xFF) OR (c AND 0xFF)) i
    = ucast c"
proof -
  have m: "c AND 0xFF = take_bit 8 c" by (simp add: take_bit_eq_mask mask_eq_decr_exp)
  consider "i = 0" | "i = 1" | "i = 2" | "i = 3" using assms by linarith
  then show ?thesis
    unfolding byte_of_def m by cases (auto intro!: bit_word_eqI simp: bit_simps)
qed

lemma memset_spec:
  "memset dst c n m x = (if unat (x - dst) < unat n then ucast c else m x)"
proof (cases "dst mod 4 = 0 \<and> n mod 4 = 0")
  case True
  then have "unat n mod 4 = 0" by (simp flip: unat_0_iff add: unat_mod)
  then have "4 * (unat n div 4) = unat n" by presburger
  then have n: "4 * unat (n div 4) = unat n" by (simp add: unat_div)
  have "memset dst c n m x = (if unat (x - dst) < unat n
      then byte_of (push_bit 24 (c AND 0xFF) OR push_bit 16 (c AND 0xFF) OR push_bit 8 (c AND 0xFF)
                    OR (c AND 0xFF)) (unat (x - dst) mod 4) else m x)"
    unfolding memset_def Let_def if_P[OF True]
    using stosl_spec[of "unat (n div 4)" dst _ m x] unat_lt32[of n] by (simp only: n)
  then show ?thesis by (simp only: splat_byte mod_less_divisor zero_less_numeral)
next
  case False
  then show ?thesis using unat_lt32[of n] by (auto simp: memset_def stosb_spec)
qed

lemma copy_up_spec:
  "k \<le> 2 ^ 32 \<Longrightarrow> (\<And>i j. i < j \<Longrightarrow> j < k \<Longrightarrow> d + of_nat i \<noteq> s + of_nat j) \<Longrightarrow>
   copy_up d s k m x = (if unat (x - d) < k then m (s + (x - d)) else m x)"
proof (induction k arbitrary: d s m)
  case (Suc k)
  have sep: "(d + 1) + of_nat i \<noteq> (s + 1) + of_nat j" if "i < j" "j < k" for i j
    using Suc.prems(2)[of "Suc i" "Suc j"] that by (simp add: algebra_simps)
  have sep0: "d \<noteq> s + of_nat j" if "0 < j" "j < Suc k" for j
    using Suc.prems(2)[of 0 j] that by simp
  have ih: "copy_up (d + 1) (s + 1) k (m(d := m s)) x =
      (if unat (x - d - 1) < k then (m(d := m s)) (s + (x - d)) else (m(d := m s)) x)"
    using Suc.IH[of "d + 1" "s + 1", OF _ sep] Suc.prems(1) by (simp add: diff_diff_eq)
  show ?case
  proof (cases "x = d")
    case True
    then show ?thesis using ih Suc.prems(1) by simp
  next
    case False
    then have off: "unat (x - d) = Suc (unat (x - d - 1))"
      using unat_pred[of "x - d"] unat_gt_0[of "x - d"] by simp
    then have "d \<noteq> s + (x - d)" if "unat (x - d - 1) < k"
      using sep0[of "unat (x - d)"] that by simp
    with ih False off show ?thesis by auto
  qed
qed simp

lemma copy_down_spec:
  "k \<le> 2 ^ 32 \<Longrightarrow> (\<And>i j. i < j \<Longrightarrow> j < k \<Longrightarrow> d + of_nat j \<noteq> s + of_nat i) \<Longrightarrow>
   copy_down (d + of_nat k) (s + of_nat k) k m x = (if unat (x - d) < k then m (s + (x - d)) else m x)"
proof (induction k arbitrary: m)
  case (Suc k)
  let ?m = "m(d + of_nat k := m (s + of_nat k))"
  have "copy_down (d + of_nat (Suc k)) (s + of_nat (Suc k)) (Suc k) m x
      = copy_down (d + of_nat k) (s + of_nat k) k ?m x"
    by (simp add: add.commute add.left_commute)
  also have "\<dots> = (if unat (x - d) < k then ?m (s + (x - d)) else ?m x)"
    using Suc by simp
  finally have eq: "copy_down (d + of_nat (Suc k)) (s + of_nat (Suc k)) (Suc k) m x
      = (if unat (x - d) < k then ?m (s + (x - d)) else ?m x)" .
  have "d + of_nat k \<noteq> s + (x - d)" if "unat (x - d) < k"
    using Suc.prems(2)[of "unat (x - d)" k] that by simp
  moreover have "x = d + of_nat k \<longleftrightarrow> unat (x - d) = k"
  proof
    assume "x = d + of_nat k"
    then have "x - d = of_nat k" by simp
    then show "unat (x - d) = k" using Suc.prems(1) by (simp add: unat_of_nat32)
  next
    assume "unat (x - d) = k"
    then have "of_nat k = x - d" by auto
    then show "x = d + of_nat k" by simp
  qed
  ultimately show ?case using eq by (auto simp: less_Suc_eq)
qed simp


lemma memmove_spec:
  assumes "unat src + unat n < 2 ^ 32" and "unat dst + unat n < 2 ^ 32"
  shows "memmove dst src n m x = (if unat (x - dst) < unat n then m (src + (x - dst)) else m x)"
proof (cases "src < dst \<and> src + n > dst")
  case True
  have "dst + of_nat j \<noteq> src + of_nat i" if "i < j" "j < unat n" for i j
  proof -
    have "unat (dst + of_nat j) = unat dst + j" "unat (src + of_nat i) = unat src + i"
      using assms that unat_lt32[of n] by (simp_all add: unat_word_ariths unat_of_nat32)
    moreover have "unat src < unat dst" using True by (simp add: word_less_nat_alt)
    ultimately show ?thesis using that by (intro notI) (drule arg_cong[of _ _ unat], simp)
  qed
  with True show ?thesis
    using copy_down_spec[of "unat n" dst src m x] unat_lt32[of n] by (simp add: memmove_def)
next
  case False
  have "dst + of_nat i \<noteq> src + of_nat j" if "i < j" "j < unat n" for i j
  proof -
    have u: "unat (dst + of_nat i) = unat dst + i" "unat (src + of_nat j) = unat src + j"
      using assms that unat_lt32[of n] by (simp_all add: unat_word_ariths unat_of_nat32)
    have "unat dst \<le> unat src \<or> unat src + unat n \<le> unat dst"
      using False assms(1) by (auto simp: word_less_nat_alt unat_word_ariths not_less)
    then show ?thesis using u that by (intro notI) (drule arg_cong[of _ _ unat], auto)
  qed
  with False show ?thesis
    using copy_up_spec[of "unat n" dst src m x] unat_lt32[of n] by (auto simp: memmove_def)
qed

lemma bit_byte_of: "bit (byte_of w i) n \<longleftrightarrow> n < 8 \<and> bit w (8 * i + n)"
  by (auto simp: byte_of_def bit_simps)

lemma bit_load32:
  assumes "n < 32"
  shows "bit (load32 m a) n = bit (m (a + of_nat (n div 8))) (n mod 8)"
proof -
  have hi: "\<not> bit b k" if "8 \<le> k" for b :: byte and k
    using that bit_imp_le_length[of b k] by auto
  consider "n < 8" | "8 \<le> n" "n < 16" | "16 \<le> n" "n < 24" | "24 \<le> n" "n < 32"
    using assms by linarith
  then show ?thesis
  proof cases
    case 1
    then show ?thesis by (simp add: load32_def bit_simps)
  next
    case 2
    then have "n div 8 = 1" "n mod 8 = n - 8" by (auto simp: div_nat_eqI mod_nat_eqI)
    with 2 show ?thesis by (auto simp: load32_def bit_simps hi)
  next
    case 3
    then have "n div 8 = 2" "n mod 8 = n - 16" by (auto simp: div_nat_eqI mod_nat_eqI)
    with 3 show ?thesis by (auto simp: load32_def bit_simps hi)
  next
    case 4
    then have "n div 8 = 3" "n mod 8 = n - 24" by (auto simp: div_nat_eqI mod_nat_eqI)
    with 4 show ?thesis by (auto simp: load32_def bit_simps hi)
  qed
qed

lemma load32_store32 [simp]: "load32 (store32 a w m) a = w"
proof (rule bit_word_eqI)
  fix n assume "n < LENGTH(32)"
  then have n: "n < 32" "n div 8 < 4" by auto
  then have "unat (of_nat (n div 8) :: 32 word) = n div 8" by (simp add: unat_of_nat32)
  with n show "bit (load32 (store32 a w m) a) n = bit w n"
    by (simp add: bit_load32 store32_spec bit_byte_of)
qed

lemma load32_cong:
  assumes "\<And>i. i < 4 \<Longrightarrow> m (a + of_nat i) = m' (a + of_nat i)"
  shows "load32 m a = load32 m' a"
  using assms[of 0] assms[of 1] assms[of 2] assms[of 3] by (simp add: load32_def)

lemma load32_store32_other:
  assumes "4 \<le> unat (b - a)" "4 \<le> unat (a - b)"
  shows "load32 (store32 a w m) b = load32 m b"
proof (rule load32_cong)
  fix i :: nat assume i: "i < 4"
  have "0 < unat (b - a)" using assms(1) by simp
  then have "unat (0 - (b - a)) = 2 ^ 32 - unat (b - a)"
    by (subst unat_sub_if') simp
  then have "unat (a - b) = 2 ^ 32 - unat (b - a)" by simp
  then have "unat (b - a) + i < 2 ^ 32" using assms(2) i by simp
  then have "unat ((b - a) + of_nat i) = unat (b - a) + i"
    using i by (simp add: unat_word_ariths unat_of_nat32)
  then have "4 \<le> unat (b + of_nat i - a)" using assms(1) by (simp add: algebra_simps)
  then show "store32 a w m (b + of_nat i) = m (b + of_nat i)" by (simp add: store32_spec)
qed

section \<open>Correctness of the string routines\<close>

text \<open>The string in the first \<open>k\<close> bytes of a sequence: the bytes before the first NUL.\<close>

definition cstr_from :: "bseq \<Rightarrow> nat \<Rightarrow> nat \<Rightarrow> byte list" where
  "cstr_from s i k = takeWhile (\<lambda>c. c \<noteq> 0) (map s [i..<i + k])"

abbreviation cstr :: "bseq \<Rightarrow> nat \<Rightarrow> byte list" where
  "cstr s k \<equiv> cstr_from s 0 k"

lemma cstr_from_simps [simp]:
  "cstr_from s i 0 = []"
  "cstr_from s i (Suc k) = (if s i = 0 then [] else s i # cstr_from s (Suc i) k)"
  by (simp_all add: cstr_from_def upt_conv_Cons del: upt_Suc)

lemma length_cstr_from: "length (cstr_from s i k) \<le> k"
  by (induction k arbitrary: i) auto

lemma strncmp_loop_0: "strncmp_loop p q i k = 0 \<longleftrightarrow> cstr_from p i k = cstr_from q i k"
  by (induction k arbitrary: i) (auto simp: uint_0_iff word_uint_eq_iff[symmetric])

lemma strncpy_loop_eq:
  "strncpy_loop t i k = cstr_from t i k @ replicate (k - length (cstr_from t i k)) 0"
  by (induction k arbitrary: i) (auto simp: )

lemma safestrcpy_loop_eq:
  "safestrcpy_loop t i k =
     cstr_from t i k @ (if length (cstr_from t i k) < k then [0, 0] else [0])"
  by (induction k arbitrary: i) auto

lemma cstr_seq_of_append:
  assumes "0 \<notin> set xs" "length xs \<le> k" "length xs < k \<longrightarrow> ys \<noteq> [] \<and> hd ys = 0"
  shows "cstr (seq_of (xs @ ys)) k = xs"
proof -
  have gen: "cstr_from (seq_of (zs @ xs @ ys)) (length zs) k = xs" for zs
    using assms
  proof (induction xs arbitrary: zs k)
    case Nil
    then show ?case by (cases k) (auto simp: nth_append hd_conv_nth)
  next
    case (Cons x xs)
    then obtain k' where k: "k = Suc k'" by (cases k) auto
    have "cstr_from (seq_of ((zs @ [x]) @ xs @ ys)) (length (zs @ [x])) k' = xs"
      by (rule Cons.IH) (use Cons.prems k in auto)
    then show ?case using Cons.prems k by (simp add: nth_append)
  qed
  show ?thesis using gen[of "[]"] by simp
qed

end
