(* ===== verification/Spinlock.thy ===== *)
theory Spinlock
  imports Prelude
begin

text \<open>
  The per-CPU interrupt bookkeeping and the spin locks of \<open>spinlock.c\<close>, with \<open>mycpu\<close>,
  \<open>cpuid\<close> and \<open>myproc\<close> of \<open>proc.c\<close>.  The state is the \<open>machine\<close>: the \<open>cpus\<close> array, the
  registers of the CPU that executes (its local APIC id and the interrupt flag), and the
  spin locks.  Locks are named by \<open>lockid\<close>, one constructor per lock object of the kernel.
  The \<open>pcs\<close> array of a lock (a call trace for the debugger) is left out.

  The lemmas at the end let later theories evaluate a critical section symbolically:
  \<open>hold L m\<close> is the machine in which the executing CPU has just taken the free lock \<open>L\<close>, and
  \<open>touch m\<close> is what a balanced acquire/release pair leaves behind.
\<close>

section \<open>State\<close>

datatype lockid =
    PtableLk | KmemLk | BcacheLk | LogLk | IcacheLk | FtableLk | IdeLk | TicksLk | ConsLk
  | PipeLk addr        \<comment> \<open>the lock field of the pipe at this address\<close>
  | BufLk nat          \<comment> \<open>the spin lock inside the sleep lock of a buffer\<close>
  | InodeLk nat        \<comment> \<open>the spin lock inside the sleep lock of an inode\<close>

record spinlock =
  locked :: bool
  lk_name :: string
  lk_cpu :: "nat option"

record cpu =
  apicid :: byte
  ts_ss0 :: "16 word"      \<comment> \<open>the three fields of the task state that the kernel sets\<close>
  ts_esp0 :: "32 word"
  ts_iomb :: "16 word"
  ncli :: int
  intena :: bool
  cpu_proc :: "nat option"

record machine =
  cpus :: "cpu list"
  ncpu :: nat
  lapicid :: byte      \<comment> \<open>local APIC id of the executing CPU\<close>
  if_flag :: bool      \<comment> \<open>FL\_IF in its eflags register\<close>
  locks :: "lockid \<Rightarrow> spinlock"

section \<open>Operations\<close>

definition cli :: "machine \<Rightarrow> machine" where
  "cli m = m\<lparr>if_flag := False\<rparr>"

definition sti :: "machine \<Rightarrow> machine" where
  "sti m = m\<lparr>if_flag := True\<rparr>"

definition upd_cpu :: "nat \<Rightarrow> (cpu \<Rightarrow> cpu) \<Rightarrow> machine \<Rightarrow> machine" where
  "upd_cpu c f m = m\<lparr>cpus := (cpus m)[c := f (cpus m ! c)]\<rparr>"

definition mycpu :: "machine \<Rightarrow> (nat, machine) outcome" where
  "mycpu m =
     (if if_flag m then Panic (''mycpu called with interrupts enabled'' @ [CHR 0x0A])
      else case first_idx (\<lambda>c. apicid c = lapicid m) (take (ncpu m) (cpus m)) of
             Some i \<Rightarrow> Ok i m
           | None \<Rightarrow> Panic (''unknown apicid'' @ [CHR 0x0A]))"

definition cpuid :: "machine \<Rightarrow> (nat, machine) outcome" where
  "cpuid m = mycpu m"

definition pushcli :: "machine \<Rightarrow> (unit, machine) outcome" where
  "pushcli m =
     (let eflags = if_flag m; m = cli m in
      bnd (mycpu m) (\<lambda>c m.
        let m = (if ncli (cpus m ! c) = 0 then upd_cpu c (\<lambda>k. k\<lparr>intena := eflags\<rparr>) m else m)
        in Ok () (upd_cpu c (\<lambda>k. k\<lparr>ncli := ncli k + 1\<rparr>) m)))"

definition popcli :: "machine \<Rightarrow> (unit, machine) outcome" where
  "popcli m =
     (if if_flag m then Panic ''popcli - interruptible''
      else bnd (mycpu m) (\<lambda>c m.
        let m = upd_cpu c (\<lambda>k. k\<lparr>ncli := ncli k - 1\<rparr>) m in
        if ncli (cpus m ! c) < 0 then Panic ''popcli''
        else if ncli (cpus m ! c) = 0 \<and> intena (cpus m ! c) then Ok () (sti m)
        else Ok () m))"

definition initlock :: "lockid \<Rightarrow> string \<Rightarrow> machine \<Rightarrow> machine" where
  "initlock L name m =
     m\<lparr>locks := (locks m)(L := \<lparr>locked = False, lk_name = name, lk_cpu = None\<rparr>)\<rparr>"

definition holding :: "lockid \<Rightarrow> machine \<Rightarrow> (bool, machine) outcome" where
  "holding L m =
     bnd (pushcli m) (\<lambda>_ m.
     bnd (mycpu m) (\<lambda>c m.
       let r = (locked (locks m L) \<and> lk_cpu (locks m L) = Some c) in
       bnd (popcli m) (\<lambda>_ m. Ok r m)))"

definition acquire :: "lockid \<Rightarrow> machine \<Rightarrow> (unit, machine) outcome" where
  "acquire L m =
     bnd (pushcli m) (\<lambda>_ m.
     bnd (holding L m) (\<lambda>h m.
       if h then Panic ''acquire''
       else if locked (locks m L) then Spin
       else let m = m\<lparr>locks := (locks m)(L := (locks m L)\<lparr>locked := True\<rparr>)\<rparr> in
         bnd (mycpu m) (\<lambda>c m.
           Ok () (m\<lparr>locks := (locks m)(L := (locks m L)\<lparr>lk_cpu := Some c\<rparr>)\<rparr>))))"

definition release :: "lockid \<Rightarrow> machine \<Rightarrow> (unit, machine) outcome" where
  "release L m =
     bnd (holding L m) (\<lambda>h m.
       if \<not> h then Panic ''release''
       else popcli (m\<lparr>locks := (locks m)(L := (locks m L)\<lparr>lk_cpu := None, locked := False\<rparr>)\<rparr>))"

definition myproc :: "machine \<Rightarrow> (nat option, machine) outcome" where
  "myproc m =
     bnd (pushcli m) (\<lambda>_ m.
     bnd (mycpu m) (\<lambda>c m.
       let p = cpu_proc (cpus m ! c) in
       bnd (popcli m) (\<lambda>_ m. Ok p m)))"

section \<open>Symbolic evaluation of critical sections\<close>

definition cpu_ix :: "machine \<Rightarrow> nat option" where
  "cpu_ix m = first_idx (\<lambda>c. apicid c = lapicid m) (take (ncpu m) (cpus m))"

definition this_cpu :: "machine \<Rightarrow> nat" where
  "this_cpu m = the (cpu_ix m)"

abbreviation curcpu :: "machine \<Rightarrow> cpu" where
  "curcpu m \<equiv> cpus m ! this_cpu m"

text \<open>The executing CPU is known, and interrupts are off while its nesting depth is positive.\<close>

definition mach_ok :: "machine \<Rightarrow> bool" where
  "mach_ok m \<longleftrightarrow> cpu_ix m \<noteq> None \<and> 0 \<le> ncli (curcpu m)
     \<and> (0 < ncli (curcpu m) \<longrightarrow> \<not> if_flag m)"

definition lk_free :: "lockid \<Rightarrow> machine \<Rightarrow> bool" where
  "lk_free L m \<longleftrightarrow> \<not> locked (locks m L) \<and> lk_cpu (locks m L) = None"

definition touch :: "machine \<Rightarrow> machine" where
  "touch m = (if ncli (curcpu m) = 0
              then upd_cpu (this_cpu m) (\<lambda>k. k\<lparr>intena := if_flag m\<rparr>) m else m)"

definition push :: "machine \<Rightarrow> machine" where
  "push m = cli (upd_cpu (this_cpu m) (\<lambda>k. k\<lparr>ncli := ncli k + 1\<rparr>) (touch m))"

definition hold :: "lockid \<Rightarrow> machine \<Rightarrow> machine" where
  "hold L m = (push m)\<lparr>locks := (locks m)(L := (locks m L)\<lparr>locked := True,
                                              lk_cpu := Some (this_cpu m)\<rparr>)\<rparr>"

lemma cpu_ix_lt: "cpu_ix m = Some c \<Longrightarrow> c < length (cpus m)"
  by (auto simp: cpu_ix_def dest: first_idx_SomeD(1))

lemma mach_ok_lt: "mach_ok m \<Longrightarrow> this_cpu m < length (cpus m)"
  by (auto simp: mach_ok_def this_cpu_def dest: cpu_ix_lt)


lemma cpu_ix_alt: "cpu_ix m = first_idx (\<lambda>a. a = lapicid m) (take (ncpu m) (map apicid (cpus m)))"
  by (simp add: cpu_ix_def first_idx_map take_map)

lemma cpu_ix_upd_cpu [simp]:
  "(\<And>k. apicid (f k) = apicid k) \<Longrightarrow> cpu_ix (upd_cpu c f m) = cpu_ix m"
  by (simp add: cpu_ix_alt upd_cpu_def map_update_keep)

lemma this_cpu_upd_cpu [simp]:
  "(\<And>k. apicid (f k) = apicid k) \<Longrightarrow> this_cpu (upd_cpu c f m) = this_cpu m"
  by (simp add: this_cpu_def)

lemma cpu_ix_frame [simp]:
  "cpu_ix (m\<lparr>if_flag := b\<rparr>) = cpu_ix m" "cpu_ix (m\<lparr>locks := l\<rparr>) = cpu_ix m"
  "this_cpu (m\<lparr>if_flag := b\<rparr>) = this_cpu m" "this_cpu (m\<lparr>locks := l\<rparr>) = this_cpu m"
  by (simp_all add: cpu_ix_def this_cpu_def)

lemma upd_cpu_frame [simp]:
  "locks (upd_cpu c f m) = locks m" "if_flag (upd_cpu c f m) = if_flag m"
  "ncpu (upd_cpu c f m) = ncpu m" "lapicid (upd_cpu c f m) = lapicid m"
  "length (cpus (upd_cpu c f m)) = length (cpus m)"
  by (simp_all add: upd_cpu_def)

lemma cpus_upd_cpu [simp]: "c < length (cpus m) \<Longrightarrow> cpus (upd_cpu c f m) ! c = f (cpus m ! c)"
  by (simp add: upd_cpu_def)

lemma upd_cpu_twice: "upd_cpu c f (upd_cpu c g m) = upd_cpu c (\<lambda>k. f (g k)) m"
  by (cases "c < length (cpus m)") (simp_all add: upd_cpu_def list_update_beyond)

lemma upd_cpu_id: "f (cpus m ! c) = cpus m ! c \<Longrightarrow> upd_cpu c f m = m"
  by (simp add: upd_cpu_def)

lemma upd_cpu_flag [simp]: "upd_cpu c f (m\<lparr>if_flag := b\<rparr>) = (upd_cpu c f m)\<lparr>if_flag := b\<rparr>"
  "upd_cpu c f (m\<lparr>locks := l\<rparr>) = (upd_cpu c f m)\<lparr>locks := l\<rparr>"
  by (simp_all add: upd_cpu_def)

lemma mycpu_ok: "cpu_ix m \<noteq> None \<Longrightarrow> \<not> if_flag m \<Longrightarrow> mycpu m = Ok (this_cpu m) m"
  by (auto simp: mycpu_def cpu_ix_def this_cpu_def)

lemma mach_ok_frame [simp]: "mach_ok (m\<lparr>locks := l\<rparr>) = mach_ok m"
  by (simp add: mach_ok_def)

lemma this_cpu_touch [simp]: "this_cpu (touch m) = this_cpu m" "cpu_ix (touch m) = cpu_ix m"
  by (simp_all add: touch_def)

lemma this_cpu_push [simp]: "this_cpu (push m) = this_cpu m" "cpu_ix (push m) = cpu_ix m"
  by (simp_all add: push_def cli_def)

lemma this_cpu_hold [simp]: "this_cpu (hold L m) = this_cpu m" "cpu_ix (hold L m) = cpu_ix m"
  by (simp_all add: hold_def)

lemma touch_frame [simp]:
  "locks (touch m) = locks m" "if_flag (touch m) = if_flag m" "length (cpus (touch m)) = length (cpus m)"
  "touch (m\<lparr>locks := l\<rparr>) = (touch m)\<lparr>locks := l\<rparr>"
  by (simp_all add: touch_def)

lemma push_frame [simp]:
  "locks (push m) = locks m" "if_flag (push m) = False"
  "push (m\<lparr>locks := l\<rparr>) = (push m)\<lparr>locks := l\<rparr>" "length (cpus (push m)) = length (cpus m)"
  by (simp_all add: push_def cli_def)

lemma curcpu_touch:
  "this_cpu m < length (cpus m) \<Longrightarrow>
   cpus (touch m) ! this_cpu m = (curcpu m)\<lparr>intena := (if ncli (curcpu m) = 0 then if_flag m
                                                        else intena (curcpu m))\<rparr>"
  by (simp add: touch_def)

lemma curcpu_push:
  "this_cpu m < length (cpus m) \<Longrightarrow>
   cpus (push m) ! this_cpu m = (curcpu m)\<lparr>ncli := ncli (curcpu m) + 1,
      intena := (if ncli (curcpu m) = 0 then if_flag m else intena (curcpu m))\<rparr>"
  by (simp add: push_def cli_def curcpu_touch)

lemma mach_ok_touch [simp]: "mach_ok (touch m) = mach_ok m"
proof (cases "cpu_ix m")
  case (Some c)
  then have "this_cpu m < length (cpus m)" by (auto simp: this_cpu_def dest: cpu_ix_lt)
  then show ?thesis by (simp add: mach_ok_def curcpu_touch)
qed (simp add: mach_ok_def)

lemma mach_ok_push [simp]: "mach_ok m \<Longrightarrow> mach_ok (push m)"
  using mach_ok_lt[of m] by (simp add: mach_ok_def curcpu_push)

lemma mach_ok_hold [simp]: "mach_ok m \<Longrightarrow> mach_ok (hold L m)"
  by (simp add: hold_def)

lemma touch_push [simp]: "mach_ok m \<Longrightarrow> touch (push m) = push m"
  using mach_ok_lt[of m] by (simp add: touch_def[of "push m"] curcpu_push mach_ok_def)

lemma touch_hold [simp]: "mach_ok m \<Longrightarrow> touch (hold L m) = hold L m"
  by (simp add: hold_def)

lemma touch_touch [simp]: "mach_ok m \<Longrightarrow> touch (touch m) = touch m"
  using mach_ok_lt[of m]
  by (simp add: touch_def[of "touch m"] curcpu_touch) (simp add: touch_def upd_cpu_twice)

lemma push_touch [simp]: "mach_ok m \<Longrightarrow> push (touch m) = push m"
  by (simp add: push_def)

lemma hold_touch [simp]: "mach_ok m \<Longrightarrow> hold L (touch m) = hold L m"
  by (simp add: hold_def)

lemma hold_commute: "mach_ok m \<Longrightarrow> L \<noteq> L' \<Longrightarrow> hold L (hold L' m) = hold L' (hold L m)"
  by (simp add: hold_def fun_upd_twist)

lemma lk_free_simps [simp]:
  "lk_free L (touch m) = lk_free L m"
  "lk_free L' (hold L m) \<longleftrightarrow> L' \<noteq> L \<and> lk_free L' m"
  by (auto simp: lk_free_def hold_def)

lemma pushcli_ok [lock_simps]:
  assumes "mach_ok m"
  shows "pushcli m = Ok () (push m)"
proof -
  have ix: "cpu_ix m \<noteq> None" using assms by (simp add: mach_ok_def)
  show ?thesis
    using mach_ok_lt[OF assms]
    by (simp add: pushcli_def push_def touch_def cli_def mycpu_ok[OF _] ix Let_def)
qed

lemma popcli_push:
  assumes "mach_ok m"
  shows "popcli ((push m)\<lparr>locks := l\<rparr>) = Ok () ((touch m)\<lparr>locks := l\<rparr>)"
proof -
  have lt: "this_cpu m < length (cpus m)" by (rule mach_ok_lt[OF assms])
  have ok: "cpu_ix m \<noteq> None" "0 \<le> ncli (curcpu m)" "0 < ncli (curcpu m) \<Longrightarrow> \<not> if_flag m"
    using assms by (auto simp: mach_ok_def)
  have down: "upd_cpu (this_cpu m) (\<lambda>k. k\<lparr>ncli := ncli k - 1\<rparr>) (push m) = (touch m)\<lparr>if_flag := False\<rparr>"
    by (simp add: push_def cli_def upd_cpu_twice upd_cpu_id)
  have "if_flag (touch m) = if_flag m" by simp
  then have flag: "(touch m)\<lparr>if_flag := b, locks := l\<rparr> = (touch m)\<lparr>locks := l\<rparr>" if "if_flag m = b" for b
    using that by (cases "touch m") simp
  show ?thesis
    using ok lt by (cases "ncli (curcpu m) = 0 \<and> if_flag m")
      (auto simp: popcli_def mycpu_ok down sti_def Let_def curcpu_touch flag)
qed

lemma same_locks:
  "(push m)\<lparr>locks := locks m\<rparr> = push m" "(touch m)\<lparr>locks := locks m\<rparr> = touch m"
  by (rule machine.equality; simp)+

lemma popcli_push_same: "mach_ok m \<Longrightarrow> popcli (push m) = Ok () (touch m)"
  using popcli_push[of m "locks m"] by (simp add: same_locks)

lemma holding_ok [lock_simps]:
  assumes "mach_ok m"
  shows "holding L m = Ok (locked (locks m L) \<and> lk_cpu (locks m L) = Some (this_cpu m)) (touch m)"
proof -
  have "popcli (push m) = Ok () (touch m)" by (rule popcli_push_same[OF assms])
  moreover have "cpu_ix m \<noteq> None" using assms by (simp add: mach_ok_def)
  ultimately show ?thesis
    by (simp add: holding_def pushcli_ok assms mycpu_ok Let_def)
qed

lemma acquire_ok [lock_simps]:
  assumes "mach_ok m" "lk_free L m"
  shows "acquire L m = Ok () (hold L m)"
proof -
  have "cpu_ix m \<noteq> None" using assms by (simp add: mach_ok_def)
  with assms show ?thesis
    by (simp add: acquire_def pushcli_ok holding_ok lk_free_def mycpu_ok Let_def hold_def)
qed

lemma release_ok [lock_simps]:
  assumes "mach_ok m" "lk_free L m"
  shows "release L (hold L m) = Ok () (touch m)"
proof -
  have same: "(locks m L)\<lparr>lk_cpu := None, locked := False\<rparr> = locks m L"
    using assms(2) by (intro spinlock.equality) (auto simp: lk_free_def)
  show ?thesis
    using assms(1)
    by (simp add: release_def holding_ok hold_def same same_locks popcli_push_same)
qed

lemma acquire_held:
  assumes "mach_ok m" "locked (locks m L)" "lk_cpu (locks m L) = Some (this_cpu m)"
  shows "acquire L m = Panic ''acquire''"
  using assms by (simp add: acquire_def pushcli_ok holding_ok)

lemma myproc_ok [lock_simps]:
  assumes "mach_ok m"
  shows "myproc m = Ok (cpu_proc (curcpu m)) (touch m)"
proof -
  have "popcli (push m) = Ok () (touch m)" by (rule popcli_push_same[OF assms])
  moreover have "cpu_ix m \<noteq> None" using assms by (simp add: mach_ok_def)
  ultimately show ?thesis
    using mach_ok_lt[OF assms]
    by (simp add: myproc_def pushcli_ok assms mycpu_ok Let_def curcpu_push)
qed

lemma cpu_proc_keep [simp]:
  "mach_ok m \<Longrightarrow> cpu_proc (cpus (touch m) ! this_cpu m) = cpu_proc (curcpu m)"
  "mach_ok m \<Longrightarrow> cpu_proc (cpus (push m) ! this_cpu m) = cpu_proc (curcpu m)"
  "mach_ok m \<Longrightarrow> cpu_proc (cpus (hold L m) ! this_cpu m) = cpu_proc (curcpu m)"
  by (auto simp: curcpu_touch curcpu_push hold_def mach_ok_lt)

section \<open>Other fields of the executing CPU\<close>

text \<open>Updates of other fields of the executing CPU commute with the nesting count.\<close>

definition cpu_neutral :: "(cpu \<Rightarrow> cpu) \<Rightarrow> bool" where
  "cpu_neutral f \<longleftrightarrow> (\<forall>k. apicid (f k) = apicid k \<and> ncli (f k) = ncli k \<and> intena (f k) = intena k)
     \<and> (\<forall>k n. f (k\<lparr>ncli := n\<rparr>) = (f k)\<lparr>ncli := n\<rparr>) \<and> (\<forall>k b. f (k\<lparr>intena := b\<rparr>) = (f k)\<lparr>intena := b\<rparr>)"

lemma cpu_neutral_intros [simp]:
  "cpu_neutral (\<lambda>k. k\<lparr>cpu_proc := p\<rparr>)"
  "cpu_neutral (\<lambda>k. k\<lparr>ts_ss0 := a, ts_esp0 := b, ts_iomb := c\<rparr>)"
  by (simp_all add: cpu_neutral_def)

lemma cpu_neutralD:
  assumes "cpu_neutral f"
  shows "apicid (f k) = apicid k" "ncli (f k) = ncli k" "intena (f k) = intena k"
    "f (k\<lparr>ncli := n\<rparr>) = (f k)\<lparr>ncli := n\<rparr>" "f (k\<lparr>intena := b\<rparr>) = (f k)\<lparr>intena := b\<rparr>"
  using assms by (simp_all add: cpu_neutral_def)

lemma upd_cpu_neutral [simp]:
  assumes "cpu_neutral f"
  shows "cpu_ix (upd_cpu c f m) = cpu_ix m" "this_cpu (upd_cpu c f m) = this_cpu m"
    "mach_ok (upd_cpu c f m) = mach_ok m"
proof -
  note n = cpu_neutralD[OF assms]
  show ix: "cpu_ix (upd_cpu c f m) = cpu_ix m" "this_cpu (upd_cpu c f m) = this_cpu m" by (simp_all add: n)
  have "ncli (cpus (upd_cpu c f m) ! this_cpu m) = ncli (curcpu m)"
    by (cases "c < length (cpus m)"; cases "c = this_cpu m") (simp_all add: upd_cpu_def n list_update_beyond)
  then show "mach_ok (upd_cpu c f m) = mach_ok m" by (simp add: mach_ok_def ix)
qed

lemma touch_upd_cpu:
  assumes "cpu_neutral f" "mach_ok m"
  shows "touch (upd_cpu (this_cpu m) f m) = upd_cpu (this_cpu m) f (touch m)"
  using mach_ok_lt[OF assms(2)] cpu_neutralD[OF assms(1)] assms(1)
  by (simp add: touch_def upd_cpu_twice)

lemma push_upd_cpu:
  assumes "cpu_neutral f" "mach_ok m"
  shows "push (upd_cpu (this_cpu m) f m) = upd_cpu (this_cpu m) f (push m)"
  using mach_ok_lt[OF assms(2)] cpu_neutralD[OF assms(1)] assms
  by (simp add: push_def cli_def touch_upd_cpu upd_cpu_twice)

lemma hold_upd_cpu:
  assumes "cpu_neutral f" "mach_ok m"
  shows "hold L (upd_cpu (this_cpu m) f m) = upd_cpu (this_cpu m) f (hold L m)"
  using assms by (simp add: hold_def push_upd_cpu)

lemma popcli_upd_push:
  assumes "cpu_neutral f" "mach_ok m"
  shows "popcli (upd_cpu (this_cpu m) f (push m)) = Ok () (upd_cpu (this_cpu m) f (touch m))"
  using popcli_push_same[of "upd_cpu (this_cpu m) f m"] assms by (simp add: push_upd_cpu touch_upd_cpu)

lemma lk_free_upd_cpu [simp]: "lk_free L (upd_cpu c f m) = lk_free L m"
  by (simp add: lk_free_def)

lemma curcpu_upd [simp]:
  "mach_ok m \<Longrightarrow> cpus (upd_cpu (this_cpu m) f m) ! this_cpu m = f (curcpu m)"
  by (simp add: mach_ok_lt)

lemma sti_frame [simp]:
  "this_cpu (sti m) = this_cpu m" "cpu_ix (sti m) = cpu_ix m" "cpus (sti m) = cpus m" "locks (sti m) = locks m"
  "lk_free L (sti m) = lk_free L m"
  by (simp_all add: sti_def lk_free_def)

lemma mach_ok_sti: "mach_ok m \<Longrightarrow> ncli (curcpu m) = 0 \<Longrightarrow> mach_ok (sti m)"
  by (simp add: mach_ok_def sti_def)

lemma held_ncli [simp]: "mach_ok m \<Longrightarrow> ncli (cpus (hold L m) ! this_cpu m) = ncli (curcpu m) + 1"
  by (simp add: hold_def curcpu_push mach_ok_lt)

lemma length_cpus_hold [simp]: "length (cpus (hold L m)) = length (cpus m)"
  by (simp add: hold_def)

lemma held_flag [simp]: "if_flag (hold L m) = False"
  by (simp add: hold_def)

lemma held_lock [simp]:
  "locked (locks (hold L m) L)" "lk_cpu (locks (hold L m) L) = Some (this_cpu m)"
  by (simp_all add: hold_def)

lemma ncli_touch [simp]: "mach_ok m \<Longrightarrow> ncli (cpus (touch m) ! this_cpu m) = ncli (curcpu m)"
  by (simp add: curcpu_touch mach_ok_lt)

lemma hold_set_intena:
  assumes "mach_ok m" "ncli (curcpu m) = 0"
  shows "upd_cpu (this_cpu m) (\<lambda>k. k\<lparr>intena := b\<rparr>) (hold L m) = hold L (m\<lparr>if_flag := b\<rparr>)"
proof -
  have "(\<lambda>k :: cpu. k\<lparr>ncli := ncli k + 1, intena := b\<rparr>) = (\<lambda>k. k\<lparr>intena := b, ncli := ncli k + 1\<rparr>)"
    by (rule ext) simp
  then show ?thesis using assms by (simp add: hold_def push_def touch_def cli_def upd_cpu_twice)
qed

lemma mach_ok_flag: "mach_ok m \<Longrightarrow> ncli (curcpu m) = 0 \<Longrightarrow> mach_ok (m\<lparr>if_flag := b\<rparr>)"
  by (simp add: mach_ok_def)

lemma lk_free_flag [simp]: "lk_free L (m\<lparr>if_flag := b\<rparr>) = lk_free L m"
  by (simp add: lk_free_def)

end
