(* ===== verification/Kernel_State.thy ===== *)
theory Kernel_State
  imports Spinlock
begin

text \<open>
  The data of the kernel: the structures of \<open>proc.h\<close>, \<open>x86.h\<close>, \<open>sleeplock.h\<close>, \<open>buf.h\<close>,
  \<open>fs.h\<close>, \<open>file.h\<close>, \<open>pstat.h\<close> and the global variables of the C files, gathered in one record
  \<open>kernel\<close>.  Pointers into the static tables (\<open>ptable.proc\<close>, \<open>bcache.buf\<close>, \<open>icache.inode\<close>,
  \<open>ftable.file\<close>) are indices, null is \<open>None\<close>.  Pages handed out by \<open>kalloc\<close> are addressed
  by 32-bit words: their bytes are in \<open>mem\<close>, and the trap frames, contexts and pipes that live
  in such pages are in typed maps indexed by the address of the structure.
  Spin locks live in the machine (theory \<open>Spinlock\<close>).
\<close>

section \<open>Constants (param.h, mmu.h, memlayout.h, fs.h)\<close>

abbreviation (input) NPROC :: nat where "NPROC \<equiv> 64"
abbreviation (input) NOFILE :: nat where "NOFILE \<equiv> 16"
abbreviation (input) NFILE :: nat where "NFILE \<equiv> 100"
abbreviation (input) NINODE :: nat where "NINODE \<equiv> 50"
abbreviation (input) MAXOPBLOCKS :: nat where "MAXOPBLOCKS \<equiv> 10"
abbreviation (input) LOGSIZE :: nat where "LOGSIZE \<equiv> 30"
abbreviation (input) NBUF :: nat where "NBUF \<equiv> 30"
abbreviation (input) BSIZE :: nat where "BSIZE \<equiv> 512"
abbreviation (input) NDIRECT :: nat where "NDIRECT \<equiv> 12"
abbreviation (input) PIPESIZE :: nat where "PIPESIZE \<equiv> 512"
abbreviation (input) PGSIZE :: addr where "PGSIZE \<equiv> 4096"
abbreviation (input) KSTACKSIZE :: addr where "KSTACKSIZE \<equiv> 4096"
abbreviation (input) KERNBASE :: addr where "KERNBASE \<equiv> 0x80000000"
abbreviation (input) PHYSTOP :: addr where "PHYSTOP \<equiv> 0xE000000"

abbreviation (input) EXTMEM :: addr where "EXTMEM \<equiv> 0x100000"
abbreviation (input) DEVSPACE :: addr where "DEVSPACE \<equiv> 0xFE000000"
abbreviation (input) KERNLINK :: addr where "KERNLINK \<equiv> 0x80100000"

definition V2P :: "addr \<Rightarrow> addr" where
  "V2P a = a - KERNBASE"

definition P2V :: "addr \<Rightarrow> addr" where
  "P2V a = a + KERNBASE"

section \<open>Processes (proc.h, x86.h)\<close>

datatype procstate = UNUSED | EMBRYO | SLEEPING | RUNNABLE | RUNNING | ZOMBIE

text \<open>Sleep channels: the addresses that the kernel passes to \<open>sleep\<close> and \<open>wakeup\<close>.\<close>

datatype chan =
    ChProc nat          \<comment> \<open>a struct proc, in \<open>wait\<close> and \<open>exit\<close>\<close>
  | ChTicks             \<comment> \<open>\<open>&ticks\<close>\<close>
  | ChLog               \<comment> \<open>\<open>&log\<close>\<close>
  | ChPipeRead addr     \<comment> \<open>\<open>&p->nread\<close>\<close>
  | ChPipeWrite addr    \<comment> \<open>\<open>&p->nwrite\<close>\<close>
  | ChBufLock nat       \<comment> \<open>the sleep lock of a buffer\<close>
  | ChInodeLock nat     \<comment> \<open>the sleep lock of an inode\<close>
  | ChBuf nat           \<comment> \<open>a buffer, in the disk driver\<close>
  | ChInput             \<comment> \<open>\<open>&input.r\<close>\<close>

record trapframe =
  tf_edi :: "32 word"
  tf_esi :: "32 word"
  tf_ebp :: "32 word"
  tf_oesp :: "32 word"
  tf_ebx :: "32 word"
  tf_edx :: "32 word"
  tf_ecx :: "32 word"
  tf_eax :: "32 word"
  tf_gs :: "16 word"
  tf_fs :: "16 word"
  tf_es :: "16 word"
  tf_ds :: "16 word"
  tf_trapno :: "32 word"
  tf_err :: "32 word"
  tf_eip :: "32 word"
  tf_cs :: "16 word"
  tf_eflags :: "32 word"
  tf_esp :: "32 word"
  tf_ss :: "16 word"

record kcontext =
  cx_edi :: "32 word"
  cx_esi :: "32 word"
  cx_ebx :: "32 word"
  cx_ebp :: "32 word"
  cx_eip :: "32 word"

record proc =
  sz :: "32 word"
  pgdir :: addr
  kstack :: addr
  pstate :: procstate
  pid :: "32 word"
  parent :: "nat option"
  tf :: addr
  ctx :: addr
  chan :: "chan option"
  killed :: bool
  ofile :: "nat option list"
  cwd :: "nat option"
  pname :: "byte list"
  tickets :: "32 word"
  pticks :: "32 word"

section \<open>Sleep locks, buffers, log (sleeplock.h, buf.h, log.c)\<close>

record sleeplock =
  sl_locked :: bool
  sl_name :: string
  sl_pid :: "32 word"

type_synonym block = "byte list"

text \<open>The flag bits \<open>B_VALID\<close> and \<open>B_DIRTY\<close> are two booleans; \<open>prev\<close> and \<open>next\<close> are buffer
  indices, \<open>NBUF\<close> standing for \<open>&bcache.head\<close>.\<close>

record buf =
  b_valid :: bool
  b_dirty :: bool
  b_dev :: "32 word"
  b_blockno :: "32 word"
  b_lock :: sleeplock
  b_refcnt :: "32 word"
  b_prev :: nat
  b_next :: nat
  b_data :: block

record log =
  l_start :: "32 word"
  l_size :: "32 word"
  l_outstanding :: "32 word"
  l_committing :: bool
  l_dev :: "32 word"
  lh_n :: "32 word"
  lh_block :: "32 word list"

section \<open>File system and files (fs.h, file.h, pipe.c)\<close>

record superblock =
  sb_size :: "32 word"
  sb_nblocks :: "32 word"
  sb_ninodes :: "32 word"
  sb_nlog :: "32 word"
  sb_logstart :: "32 word"
  sb_inodestart :: "32 word"
  sb_bmapstart :: "32 word"

record inode =
  i_dev :: "32 word"
  i_inum :: "32 word"
  i_ref :: "32 word"
  i_lock :: sleeplock
  i_valid :: bool
  i_type :: "16 word"
  i_major :: "16 word"
  i_minor :: "16 word"
  i_nlink :: "16 word"
  i_size :: "32 word"
  i_addrs :: "32 word list"

datatype filetype = FD_NONE | FD_PIPE | FD_INODE

record kfile =
  f_type :: filetype
  f_ref :: "32 word"
  f_readable :: bool
  f_writable :: bool
  f_pipe :: addr
  f_ip :: "nat option"
  f_off :: "32 word"

record pipe =
  p_data :: "byte list"
  nread :: "32 word"
  nwrite :: "32 word"
  readopen :: bool
  writeopen :: bool

text \<open>The console (console.c): the line buffer \<open>input\<close>, and the entries of \<open>devsw\<close>; the only
  device with read and write routines is the console.\<close>

record inputbuf =
  in_buf :: "byte list"
  in_r :: "32 word"
  in_w :: "32 word"
  in_e :: "32 word"

datatype devops = ConsoleOps

section \<open>The kernel\<close>

record kernel =
  mach :: machine
  mem :: "addr \<Rightarrow> byte"          \<comment> \<open>memory, at kernel virtual addresses\<close>
  kdata :: addr                      \<comment> \<open>\<open>data\<close>: end of the kernel's read-only part\<close>
  a_forkret :: addr                  \<comment> \<open>the addresses of \<open>forkret\<close> and \<open>trapret\<close>\<close>
  a_trapret :: addr
  kend :: addr                       \<comment> \<open>\<open>end\<close>: first address after the kernel image\<close>
  use_lock :: bool                   \<comment> \<open>\<open>kmem.use_lock\<close>\<close>
  freelist :: addr                   \<comment> \<open>\<open>kmem.freelist\<close>\<close>
  rseed :: "32 word"
  procs :: "proc list"               \<comment> \<open>\<open>ptable.proc\<close>\<close>
  initproc :: "nat option"
  nextpid :: "32 word"
  tfs :: "addr \<Rightarrow> trapframe"
  ctxs :: "addr \<Rightarrow> kcontext"
  uticks :: "32 word"                \<comment> \<open>\<open>ticks\<close> of trap.c\<close>
  cr3 :: addr                        \<comment> \<open>page table register of the executing CPU\<close>
  kpgdir :: addr
  bufs :: "buf list"                 \<comment> \<open>\<open>bcache.buf\<close>\<close>
  head_prev :: nat                   \<comment> \<open>\<open>bcache.head.prev\<close>\<close>
  head_next :: nat                   \<comment> \<open>\<open>bcache.head.next\<close>\<close>
  disk :: "block list"               \<comment> \<open>the blocks of disk 1\<close>
  dwrites :: "(nat \<times> block) list"    \<comment> \<open>history: the block writes the disk has performed\<close>
  logs :: log                        \<comment> \<open>\<open>log\<close> of log.c\<close>
  fsb :: superblock                  \<comment> \<open>\<open>sb\<close> of fs.c\<close>
  inodes :: "inode list"             \<comment> \<open>\<open>icache.inode\<close>\<close>
  files :: "kfile list"               \<comment> \<open>\<open>ftable.file\<close>\<close>
  pipes :: "addr \<Rightarrow> pipe"
  devsw :: "nat \<Rightarrow> devops option"
  input :: inputbuf
  cons_locking :: bool               \<comment> \<open>\<open>cons.locking\<close>\<close>
  panicked :: bool
  uart :: bool                       \<comment> \<open>a serial port was found\<close>
  uart_out :: "byte list"            \<comment> \<open>history: bytes given to \<open>uartputc\<close>\<close>
  crt :: "nat \<Rightarrow> 16 word"            \<comment> \<open>CGA memory, by cell\<close>
  crt_pos :: "16 word"               \<comment> \<open>cursor registers 14 and 15 of the CGA controller\<close>
  forkret_first :: bool              \<comment> \<open>\<open>first\<close> of \<open>forkret\<close>\<close>

type_synonym 'a kres = "('a, kernel) outcome"

section \<open>Machine operations on the kernel\<close>

definition on_mach :: "(machine \<Rightarrow> ('a, machine) outcome) \<Rightarrow> kernel \<Rightarrow> 'a kres" where
  "on_mach op s = (case op (mach s) of Ok x m \<Rightarrow> Ok x (s\<lparr>mach := m\<rparr>) | Panic e \<Rightarrow> Panic e
     | Fault \<Rightarrow> Fault | Spin \<Rightarrow> Spin | Slept m \<Rightarrow> Slept (s\<lparr>mach := m\<rparr>))"

definition kacquire :: "lockid \<Rightarrow> kernel \<Rightarrow> unit kres" where
  "kacquire L = on_mach (acquire L)"

definition krelease :: "lockid \<Rightarrow> kernel \<Rightarrow> unit kres" where
  "krelease L = on_mach (release L)"

definition kmyproc :: "kernel \<Rightarrow> nat option kres" where
  "kmyproc = on_mach myproc"

text \<open>\<open>myproc()\<close> where the C code dereferences the result at once.\<close>

definition curproc :: "kernel \<Rightarrow> nat kres" where
  "curproc s = bnd (kmyproc s) (\<lambda>p s. case p of Some i \<Rightarrow> Ok i s | None \<Rightarrow> Fault)"

definition upd_proc :: "nat \<Rightarrow> (proc \<Rightarrow> proc) \<Rightarrow> kernel \<Rightarrow> kernel" where
  "upd_proc i f s = s\<lparr>procs := (procs s)[i := f (procs s ! i)]\<rparr>"

lemma kacquire_ok [lock_simps]:
  "mach_ok (mach s) \<Longrightarrow> lk_free L (mach s) \<Longrightarrow> kacquire L s = Ok () (s\<lparr>mach := hold L (mach s)\<rparr>)"
  by (simp add: kacquire_def on_mach_def acquire_ok)

lemma krelease_ok [lock_simps]:
  "mach s = hold L m \<Longrightarrow> mach_ok m \<Longrightarrow> lk_free L m \<Longrightarrow> krelease L s = Ok () (s\<lparr>mach := touch m\<rparr>)"
  by (simp add: krelease_def on_mach_def release_ok)

lemma kmyproc_ok [lock_simps]:
  "mach_ok (mach s) \<Longrightarrow>
   kmyproc s = Ok (cpu_proc (curcpu (mach s))) (s\<lparr>mach := touch (mach s)\<rparr>)"
  by (simp add: kmyproc_def on_mach_def myproc_ok)

lemma on_mach_OkD: "on_mach op s = Ok x s' \<Longrightarrow> \<exists>m. s' = s\<lparr>mach := m\<rparr> \<and> op (mach s) = Ok x m"
  by (auto simp: on_mach_def split: outcome.splits)

lemma klock_OkD:
  "kacquire L s = Ok x s' \<Longrightarrow> \<exists>m. s' = s\<lparr>mach := m\<rparr>"
  "krelease L s = Ok x s' \<Longrightarrow> \<exists>m. s' = s\<lparr>mach := m\<rparr>"
  "kmyproc s = Ok p s' \<Longrightarrow> \<exists>m. s' = s\<lparr>mach := m\<rparr>"
  by (auto simp: kacquire_def krelease_def kmyproc_def dest: on_mach_OkD)

text \<open>The process the executing CPU runs.\<close>

definition running :: "kernel \<Rightarrow> nat option" where
  "running s = cpu_proc (curcpu (mach s))"

lemma running_simps [simp]:
  "mach_ok (mach s) \<Longrightarrow> running (s\<lparr>mach := touch (mach s)\<rparr>) = running s"
  "mach_ok (mach s) \<Longrightarrow> running (s\<lparr>mach := hold L (mach s)\<rparr>) = running s"
  by (simp_all add: running_def)

lemma curproc_ok [lock_simps]:
  "mach_ok (mach s) \<Longrightarrow> running s = Some i \<Longrightarrow> curproc s = Ok i (s\<lparr>mach := touch (mach s)\<rparr>)"
  by (simp add: curproc_def kmyproc_ok running_def)

lemma mach_upd_proc [simp]: "mach (upd_proc i f s) = mach s"
  by (simp add: upd_proc_def)

lemma length_upd_proc [simp]: "length (procs (upd_proc i f s)) = length (procs s)"
  by (simp add: upd_proc_def)


lemma running_upd_proc [simp]: "running (upd_proc i f s) = running s"
  by (simp add: running_def)

section \<open>The data at boot\<close>

text \<open>The static data before \<open>main\<close> runs, on a machine with one CPU: zero, except for the
  variables with an initialiser.  Concrete instances of the theorems start from here.\<close>

definition cpu0 :: cpu where
  "cpu0 = \<lparr>apicid = 0, ts_ss0 = 0, ts_esp0 = 0, ts_iomb = 0, ncli = 0, intena = False, cpu_proc = None\<rparr>"

definition machine0 :: machine where
  "machine0 = \<lparr>cpus = [cpu0], ncpu = 1, lapicid = 0, if_flag = False,
               locks = (\<lambda>_. \<lparr>locked = False, lk_name = [], lk_cpu = None\<rparr>)\<rparr>"

definition proc0 :: proc where
  "proc0 = \<lparr>sz = 0, pgdir = 0, kstack = 0, pstate = UNUSED, pid = 0, parent = None, tf = 0, ctx = 0,
            chan = None, killed = False, ofile = replicate NOFILE None, cwd = None,
            pname = replicate 16 0, tickets = 0, pticks = 0\<rparr>"

definition sleeplock0 :: sleeplock where
  "sleeplock0 = \<lparr>sl_locked = False, sl_name = [], sl_pid = 0\<rparr>"

definition trapframe0 :: trapframe where
  "trapframe0 = \<lparr>tf_edi = 0, tf_esi = 0, tf_ebp = 0, tf_oesp = 0, tf_ebx = 0, tf_edx = 0, tf_ecx = 0,
     tf_eax = 0, tf_gs = 0, tf_fs = 0, tf_es = 0, tf_ds = 0, tf_trapno = 0, tf_err = 0, tf_eip = 0,
     tf_cs = 0, tf_eflags = 0, tf_esp = 0, tf_ss = 0\<rparr>"

definition kcontext0 :: kcontext where
  "kcontext0 = \<lparr>cx_edi = 0, cx_esi = 0, cx_ebx = 0, cx_ebp = 0, cx_eip = 0\<rparr>"

definition boot_kernel :: kernel where
  "boot_kernel = \<lparr>mach = machine0, mem = (\<lambda>_. 0), kdata = 0x80108000,
     a_forkret = 0x80103000, a_trapret = 0x80105000, kend = 0x80115000, use_lock = False, freelist = 0,
     rseed = 1898888478, procs = replicate NPROC proc0, initproc = None, nextpid = 1,
     tfs = (\<lambda>_. trapframe0), ctxs = (\<lambda>_. kcontext0), uticks = 0, cr3 = 0, kpgdir = 0,
     bufs = replicate NBUF \<lparr>b_valid = False, b_dirty = False, b_dev = 0, b_blockno = 0,
       b_lock = sleeplock0, b_refcnt = 0, b_prev = 0, b_next = 0, b_data = replicate BSIZE 0\<rparr>,
     head_prev = 0, head_next = 0, disk = [], dwrites = [],
     logs = \<lparr>l_start = 0, l_size = 0, l_outstanding = 0, l_committing = False, l_dev = 0, lh_n = 0,
       lh_block = replicate LOGSIZE 0\<rparr>,
     fsb = \<lparr>sb_size = 0, sb_nblocks = 0, sb_ninodes = 0, sb_nlog = 0, sb_logstart = 0,
       sb_inodestart = 0, sb_bmapstart = 0\<rparr>,
     inodes = replicate NINODE \<lparr>i_dev = 0, i_inum = 0, i_ref = 0, i_lock = sleeplock0,
       i_valid = False, i_type = 0, i_major = 0, i_minor = 0, i_nlink = 0, i_size = 0,
       i_addrs = replicate 13 0\<rparr>,
     files = replicate NFILE \<lparr>f_type = FD_NONE, f_ref = 0, f_readable = False, f_writable = False,
       f_pipe = 0, f_ip = None, f_off = 0\<rparr>,
     pipes = (\<lambda>_. \<lparr>p_data = replicate PIPESIZE 0, nread = 0, nwrite = 0, readopen = False,
       writeopen = False\<rparr>),
     devsw = (\<lambda>_. None), input = \<lparr>in_buf = replicate 128 0, in_r = 0, in_w = 0, in_e = 0\<rparr>,
     cons_locking = False, panicked = False, uart = False, uart_out = [], crt = (\<lambda>_. 0), crt_pos = 0,
     forkret_first = True\<rparr>"

lemma machine0_ok [simp]: "mach_ok machine0" "lk_free L machine0"
  "this_cpu machine0 = 0" "cpus machine0 = [cpu0]"
  by (simp_all add: machine0_def cpu0_def mach_ok_def cpu_ix_def this_cpu_def lk_free_def)

lemma boot_kernel_mach [simp]: "mach boot_kernel = machine0"
  by (simp add: boot_kernel_def)

end
