(* ===== verification/Kalloc.thy ===== *)
theory Kalloc
  imports Kernel_State CString
begin

text \<open>
  The physical page allocator of \<open>kalloc.c\<close>.  The free list is a chain of page addresses
  threaded through the first word of each free page, exactly as \<open>struct run\<close> overlays it; the
  list of free pages is recovered by \<open>fchain\<close>.  The locale \<open>page_allocator\<close> is what the rest of
  the kernel relies on, \<open>interpretation kpages\<close> discharges it for \<open>kalloc\<close> and \<open>kfree\<close>.
\<close>

section \<open>Operations\<close>

definition PGROUNDUP :: "addr \<Rightarrow> addr" where
  "PGROUNDUP a = (a + PGSIZE - 1) AND NOT (PGSIZE - 1)"

definition PGROUNDDOWN :: "addr \<Rightarrow> addr" where
  "PGROUNDDOWN a = a AND NOT (PGSIZE - 1)"

definition kfree :: "addr \<Rightarrow> kernel \<Rightarrow> unit kres" where
  "kfree v s =
     (if v mod PGSIZE \<noteq> 0 \<or> v < kend s \<or> V2P v \<ge> PHYSTOP then Panic ''kfree''
      else
        let s = s\<lparr>mem := memset v 1 PGSIZE (mem s)\<rparr> in
        bnd (if use_lock s then kacquire KmemLk s else Ok () s) (\<lambda>_ s.
          let s = s\<lparr>mem := store32 v (freelist s) (mem s), freelist := v\<rparr> in
          if use_lock s then krelease KmemLk s else Ok () s))"

definition kalloc :: "kernel \<Rightarrow> addr kres" where
  "kalloc s =
     bnd (if use_lock s then kacquire KmemLk s else Ok () s) (\<lambda>_ s.
       let r = freelist s;
           s = (if r \<noteq> 0 then s\<lparr>freelist := load32 (mem s) r\<rparr> else s) in
       bnd (if use_lock s then krelease KmemLk s else Ok () s) (\<lambda>_ s. Ok r s))"

lemma kfree_range: "kfree v s = Ok x s' \<Longrightarrow> unat v < 0x8E000000"
proof -
  assume "kfree v s = Ok x s'"
  then have "V2P v < PHYSTOP" by (auto simp: kfree_def not_le split: if_splits)
  then have "unat (v - KERNBASE) < 0xE000000" by (simp add: V2P_def word_less_nat_alt)
  then show ?thesis by (simp add: unat_sub_if' split: if_splits)
qed

function freerange_from :: "addr \<Rightarrow> addr \<Rightarrow> kernel \<Rightarrow> unit kres" where
  "freerange_from p vend s =
     (if p + PGSIZE \<le> vend
      then bnd (kfree p s) (\<lambda>_ s. freerange_from (p + PGSIZE) vend s)
      else Ok () s)"
  by pat_completeness auto
termination
proof (relation "measure (\<lambda>(p, vend, s). 2 ^ 32 - unat p)", goal_cases)
  case (2 p vend s x s')
  then have "unat p < 0x8E000000" by (auto dest: kfree_range)
  then have "unat (p + PGSIZE) = unat p + 4096" by (simp add: unat_word_ariths)
  with \<open>unat p < 0x8E000000\<close> show ?case by simp
qed simp

declare freerange_from.simps [simp del]

definition freerange :: "addr \<Rightarrow> addr \<Rightarrow> kernel \<Rightarrow> unit kres" where
  "freerange vstart vend s = freerange_from (PGROUNDUP vstart) vend s"

definition kinit1 :: "addr \<Rightarrow> addr \<Rightarrow> kernel \<Rightarrow> unit kres" where
  "kinit1 vstart vend s =
     freerange vstart vend (s\<lparr>mach := initlock KmemLk ''kmem'' (mach s), use_lock := False\<rparr>)"

definition kinit2 :: "addr \<Rightarrow> addr \<Rightarrow> kernel \<Rightarrow> unit kres" where
  "kinit2 vstart vend s = bnd (freerange vstart vend s) (\<lambda>_ s. Ok () (s\<lparr>use_lock := True\<rparr>))"

section \<open>The free list\<close>

fun fchain :: "memory \<Rightarrow> addr \<Rightarrow> addr list \<Rightarrow> bool" where
  "fchain m a [] \<longleftrightarrow> a = 0"
| "fchain m a (x # xs) \<longleftrightarrow> a = x \<and> x \<noteq> 0 \<and> fchain m (load32 m x) xs"

definition page_ok :: "kernel \<Rightarrow> addr \<Rightarrow> bool" where
  "page_ok s v \<longleftrightarrow> v mod PGSIZE = 0 \<and> kend s \<le> v \<and> V2P v < PHYSTOP"

text \<open>\<open>kmem_inv s xs\<close>: the free pages of the state are \<open>xs\<close>, in list order, and the allocator's
  lock can be taken.\<close>

definition kmem_inv :: "kernel \<Rightarrow> addr list \<Rightarrow> bool" where
  "kmem_inv s xs \<longleftrightarrow> fchain (mem s) (freelist s) xs \<and> distinct xs \<and> list_all (page_ok s) xs
     \<and> mach_ok (mach s) \<and> lk_free KmemLk (mach s)"

lemma fchain_cong: "(\<And>x. x \<in> set xs \<Longrightarrow> load32 m x = load32 m' x) \<Longrightarrow> fchain m a xs = fchain m' a xs"
  by (induction xs arbitrary: a) auto

lemma page_nonzero: "page_ok s v \<Longrightarrow> v \<noteq> 0"
  by (auto simp: page_ok_def V2P_def)

lemma page_offset:
  fixes a b :: addr
  assumes "a mod PGSIZE = 0" "b mod PGSIZE = 0" "a \<noteq> b" "i < 4096"
  shows "4096 \<le> unat (b + of_nat i - a)"
proof -
  have "4096 dvd unat a" "4096 dvd unat b"
    using assms(1,2) by (simp_all flip: unat_0_iff add: unat_mod dvd_eq_mod_eq_0)
  then have "4096 dvd unat (b - a)"
    by (auto simp: unat_sub_if' intro!: dvd_diff_nat dvd_add)
  then obtain k where k: "unat (b - a) = 4096 * k" by (auto elim: dvdE)
  moreover have "unat (b - a) \<noteq> 0" using assms(3) by (simp add: unat_0_iff)
  moreover have "unat (b - a) < 2 ^ 32" by (rule unat_lt32)
  ultimately have r: "4096 \<le> unat (b - a)" "unat (b - a) \<le> 2 ^ 32 - 4096"
    by auto
  then have "unat ((b - a) + of_nat i) = unat (b - a) + i"
    using assms(4) by (simp add: unat_word_ariths unat_of_nat32)
  then show ?thesis using r by (simp add: algebra_simps)
qed

abbreviation kmem_mach :: "kernel \<Rightarrow> machine" where
  "kmem_mach s \<equiv> (if use_lock s then touch (mach s) else mach s)"

lemma kfree_ok:
  assumes "page_ok s v" "mach_ok (mach s)" "lk_free KmemLk (mach s)"
  shows "kfree v s = Ok () (s\<lparr>mem := store32 v (freelist s) (memset v 1 PGSIZE (mem s)),
                             freelist := v, mach := kmem_mach s\<rparr>)"
  using assms by (auto simp: kfree_def page_ok_def lock_simps Let_def not_le[symmetric])

lemma kalloc_ok:
  assumes "mach_ok (mach s)" "lk_free KmemLk (mach s)"
  shows "kalloc s = Ok (freelist s)
     (s\<lparr>freelist := (if freelist s \<noteq> 0 then load32 (mem s) (freelist s) else 0), mach := kmem_mach s\<rparr>)"
  using assms by (auto simp: kalloc_def lock_simps Let_def)

text \<open>A page's bytes after \<open>kfree\<close>, and that no other byte changes.\<close>

lemma kfree_mem_other:
  "4096 \<le> unat (x - v) \<Longrightarrow> store32 v w (memset v 1 PGSIZE m) x = m x"
  by (simp add: store32_spec memset_spec)

lemma kfree_mem_junk:
  "4 \<le> unat (x - v) \<Longrightarrow> unat (x - v) < 4096 \<Longrightarrow> store32 v w (memset v 1 PGSIZE m) x = 1"
  by (simp add: store32_spec memset_spec)

lemma kfree_inv:
  assumes inv: "kmem_inv s xs" and v: "page_ok s v" "v \<notin> set xs"
  shows "\<exists>s'. kfree v s = Ok () s' \<and> kmem_inv s' (v # xs) \<and> kend s' = kend s"
proof -
  let ?m = "store32 v (freelist s) (memset v 1 PGSIZE (mem s))"
  have keep: "load32 ?m x = load32 (mem s) x" if "x \<in> set xs" for x
  proof (rule load32_cong)
    fix i :: nat assume "i < 4"
    moreover have "x mod PGSIZE = 0" using inv that by (auto simp: kmem_inv_def list_all_iff page_ok_def)
    moreover have "x \<noteq> v" using v(2) that by auto
    ultimately have "4096 \<le> unat (x + of_nat i - v)"
      using page_offset[of v x i] v(1) by (simp add: page_ok_def)
    then show "?m (x + of_nat i) = mem s (x + of_nat i)" by (rule kfree_mem_other)
  qed
  have "fchain ?m v (v # xs)"
    using inv v(1) fchain_cong[of xs ?m "mem s"] keep by (simp add: kmem_inv_def page_nonzero)
  then show ?thesis
    using inv v by (auto simp: kfree_ok kmem_inv_def page_ok_def list_all_iff)
qed

lemma kalloc_inv:
  assumes inv: "kmem_inv s xs"
  shows "\<exists>s'. kalloc s = Ok (case xs of [] \<Rightarrow> 0 | x # _ \<Rightarrow> x) s' \<and> kmem_inv s' (tl xs)
     \<and> kend s' = kend s \<and> mem s' = mem s"
  using inv by (cases xs) (auto simp: kalloc_ok kmem_inv_def page_ok_def list_all_iff)

lemma page_ok_cong: "kend s' = kend s \<Longrightarrow> page_ok s' = page_ok s"
  by (auto simp: fun_eq_iff page_ok_def)

section \<open>The interface\<close>

locale page_allocator =
  fixes alloc :: "'s \<Rightarrow> (addr, 's) outcome"
    and free :: "addr \<Rightarrow> 's \<Rightarrow> (unit, 's) outcome"
    and inv :: "'s \<Rightarrow> addr list \<Rightarrow> bool"
    and valid :: "'s \<Rightarrow> addr \<Rightarrow> bool"
  assumes alloc_page: "inv s (x # xs) \<Longrightarrow> \<exists>s'. alloc s = Ok x s' \<and> inv s' xs \<and> valid s' = valid s"
    and alloc_none: "inv s [] \<Longrightarrow> \<exists>s'. alloc s = Ok 0 s' \<and> inv s' []"
    and free_page: "inv s xs \<Longrightarrow> valid s v \<Longrightarrow> v \<notin> set xs \<Longrightarrow>
          \<exists>s'. free v s = Ok () s' \<and> inv s' (v # xs) \<and> valid s' = valid s"
    and inv_distinct: "inv s xs \<Longrightarrow> distinct xs"
    and inv_valid: "inv s xs \<Longrightarrow> x \<in> set xs \<Longrightarrow> valid s x"
    and valid_nonzero: "valid s x \<Longrightarrow> x \<noteq> 0"

primrec repeat_alloc :: "('s \<Rightarrow> (addr, 's) outcome) \<Rightarrow> nat \<Rightarrow> 's \<Rightarrow> (addr list, 's) outcome" where
  "repeat_alloc a 0 s = Ok [] s"
| "repeat_alloc a (Suc n) s = bnd (a s) (\<lambda>v s. bnd (repeat_alloc a n s) (\<lambda>vs s. Ok (v # vs) s))"

primrec free_all :: "(addr \<Rightarrow> 's \<Rightarrow> (unit, 's) outcome) \<Rightarrow> addr list \<Rightarrow> 's \<Rightarrow> (unit, 's) outcome" where
  "free_all f [] s = Ok () s"
| "free_all f (v # vs) s = bnd (f v s) (\<lambda>_ s. free_all f vs s)"

context page_allocator
begin

lemma repeat_alloc_take:
  "inv s xs \<Longrightarrow> n \<le> length xs \<Longrightarrow>
   \<exists>s'. repeat_alloc alloc n s = Ok (take n xs) s' \<and> inv s' (drop n xs) \<and> valid s' = valid s"
proof (induction n arbitrary: s xs)
  case (Suc n)
  then obtain x ys where xs: "xs = x # ys" by (cases xs) auto
  obtain t where t: "alloc s = Ok x t" "inv t ys" "valid t = valid s"
    using alloc_page Suc.prems(1) unfolding xs by blast
  moreover obtain s' where "repeat_alloc alloc n t = Ok (take n ys) s'" "inv s' (drop n ys)"
      "valid s' = valid t"
    using Suc.IH[OF t(2)] Suc.prems(2) xs by auto
  ultimately show ?case by (auto simp: xs)
qed auto

lemma free_all_rev:
  "inv s xs \<Longrightarrow> distinct vs \<Longrightarrow> set vs \<inter> set xs = {} \<Longrightarrow> \<forall>v \<in> set vs. valid s v \<Longrightarrow>
   \<exists>s'. free_all free vs s = Ok () s' \<and> inv s' (rev vs @ xs) \<and> valid s' = valid s"
proof (induction vs arbitrary: s xs)
  case (Cons v vs)
  obtain t where t: "free v s = Ok () t" "inv t (v # xs)" "valid t = valid s"
    using free_page[OF Cons.prems(1), of v] Cons.prems by auto
  then obtain s' where "free_all free vs t = Ok () s'" "inv s' (rev vs @ v # xs)" "valid s' = valid t"
    using Cons.IH[OF t(2)] Cons.prems by auto
  with t show ?case by simp
qed auto

lemma alloc_free_balance:
  assumes "inv s xs" "n \<le> length xs"
  shows "\<exists>vs s' s''. repeat_alloc alloc n s = Ok vs s' \<and> distinct vs \<and> length vs = n \<and> 0 \<notin> set vs
      \<and> free_all free vs s' = Ok () s'' \<and> inv s'' (rev (take n xs) @ drop n xs)"
proof -
  obtain s' where s': "repeat_alloc alloc n s = Ok (take n xs) s'" "inv s' (drop n xs)" "valid s' = valid s"
    using repeat_alloc_take[OF assms] by blast
  have d: "distinct (take n xs)" "set (take n xs) \<inter> set (drop n xs) = {}"
    using inv_distinct[OF assms(1)] by (auto simp: set_take_disj_set_drop_if_distinct)
  have v: "valid s x" if "x \<in> set (take n xs)" for x
    using inv_valid[OF assms(1)] that by (meson in_set_takeD)
  obtain s'' where "free_all free (take n xs) s' = Ok () s''" "inv s'' (rev (take n xs) @ drop n xs)"
    using free_all_rev[OF s'(2) d] v s'(3) by auto
  moreover have "0 \<notin> set (take n xs)" using v valid_nonzero by blast
  ultimately show ?thesis using s'(1) d(1) assms(2) by fastforce
qed

end

interpretation kpages: page_allocator kalloc kfree kmem_inv page_ok
proof
  fix s x xs assume "kmem_inv s (x # xs)"
  from kalloc_inv[OF this] show "\<exists>s'. kalloc s = Ok x s' \<and> kmem_inv s' xs \<and> page_ok s' = page_ok s"
    by (auto dest: page_ok_cong)
next
  fix s assume "kmem_inv s []"
  from kalloc_inv[OF this] show "\<exists>s'. kalloc s = Ok 0 s' \<and> kmem_inv s' []" by auto
next
  fix s xs v assume "kmem_inv s xs" "page_ok s v" "v \<notin> set xs"
  from kfree_inv[OF this] show "\<exists>s'. kfree v s = Ok () s' \<and> kmem_inv s' (v # xs) \<and> page_ok s' = page_ok s"
    by (auto dest: page_ok_cong)
qed (auto simp: kmem_inv_def list_all_iff page_nonzero)

section \<open>Initialisation\<close>

text \<open>The pages that lie entirely in \<open>[p, vend)\<close>.\<close>

definition pages_in :: "addr \<Rightarrow> addr \<Rightarrow> addr list" where
  "pages_in p vend = map (\<lambda>i. p + of_nat (4096 * i)) [0..<(unat vend - unat p) div 4096]"

lemma pages_in_rec:
  assumes "unat vend < 0x8E001000"
  shows "pages_in p vend = (if unat p + 4096 \<le> unat vend then p # pages_in (p + PGSIZE) vend else [])"
proof (cases "unat p + 4096 \<le> unat vend")
  case True
  then have up: "unat (p + PGSIZE) = unat p + 4096"
    using assms by (simp add: unat_word_ariths)
  have "(unat vend - unat p) div 4096 = Suc ((unat vend - unat (p + PGSIZE)) div 4096)"
    using True unfolding up by (simp add: le_div_geq)
  then show ?thesis
    using True by (simp add: pages_in_def map_upt_Suc algebra_simps del: upt_Suc)
qed (simp add: pages_in_def)

lemma freerange_from_eq:
  assumes "unat vend < 0x8E001000" "unat p < 0x8F000000"
  shows "freerange_from p vend s = free_all kfree (pages_in p vend) s"
  using assms(2)
proof (induction "length (pages_in p vend)" arbitrary: p s)
  case 0
  then have "\<not> unat p + 4096 \<le> unat vend" using pages_in_rec[OF assms(1), of p] by auto
  moreover have "unat (p + PGSIZE) = unat p + 4096" using 0 by (simp add: unat_word_ariths)
  ultimately show ?case
    using 0 by (simp add: freerange_from.simps[of p] word_le_nat_alt)
next
  case (Suc n)
  then have le: "unat p + 4096 \<le> unat vend" using pages_in_rec[OF assms(1), of p] by (auto split: if_splits)
  have up: "unat (p + PGSIZE) = unat p + 4096" using Suc by (simp add: unat_word_ariths)
  have pi: "pages_in p vend = p # pages_in (p + PGSIZE) vend"
    using pages_in_rec[OF assms(1), of p] le by simp
  have ih: "freerange_from (p + PGSIZE) vend t = free_all kfree (pages_in (p + PGSIZE) vend) t" for t
    using Suc.hyps(1)[of "p + PGSIZE" t] Suc.hyps(2) le up assms(1) by (simp add: pi)
  show ?case using le up by (simp add: freerange_from.simps[of p] pi word_le_nat_alt ext[OF ih])
qed

lemma pages_in_distinct:
  assumes "unat vend < 0x8E001000" shows "distinct (pages_in p vend)"
proof -
  have "i = j" if "i < (unat vend - unat p) div 4096" "j < (unat vend - unat p) div 4096"
      "(of_nat (4096 * i) :: addr) = of_nat (4096 * j)" for i j
  proof -
    have "4096 * k < 2 ^ 32" if "k < (unat vend - unat p) div 4096" for k
      using that assms by simp
    note b = this[OF that(1)] this[OF that(2)]
    then have "4096 * i = 4096 * j" using b that(3) by (metis unat_of_nat32)
    then show ?thesis by simp
  qed
  then show ?thesis by (auto simp: pages_in_def distinct_map inj_on_def)
qed

lemma pages_in_valid:
  assumes "unat vend \<le> 0x8E000000" "p mod PGSIZE = 0" "KERNBASE \<le> kend s" "kend s \<le> p" "v \<in> set (pages_in p vend)"
  shows "page_ok s v"
proof -
  obtain i where i: "i < (unat vend - unat p) div 4096" "v = p + of_nat (4096 * i)"
    using assms(5) by (auto simp: pages_in_def)
  have lt: "unat p + 4096 * i < unat vend"
    using i(1) by linarith
  have u: "unat v = unat p + 4096 * i"
    using lt assms(1) unat_of_nat32[of "4096 * i"] by (simp add: i(2) unat_word_ariths)
  have "0x80000000 \<le> unat p" using assms(3,4) by (auto simp: word_le_nat_alt)
  have "unat p mod 4096 = 0" using assms(2) by (simp flip: unat_0_iff add: unat_mod)
  then have "unat v mod 4096 = 0" using u by simp
  then have "v mod PGSIZE = 0" by (simp flip: unat_0_iff add: unat_mod)
  moreover have "kend s \<le> v" using assms(4) u by (simp add: word_le_nat_alt)
  moreover have "V2P v < PHYSTOP"
    using u lt assms(1) \<open>0x80000000 \<le> unat p\<close> by (simp add: V2P_def word_less_nat_alt unat_sub_if')
  ultimately show ?thesis by (simp add: page_ok_def)
qed

lemma PGROUNDUP_aligned: "PGROUNDUP a mod PGSIZE = 0"
proof -
  have "PGSIZE = 2 ^ 12" by simp
  have "take_bit 12 (PGROUNDUP a) = 0"
    by (rule bit_word_eqI) (auto simp: PGROUNDUP_def bit_simps)
  then show ?thesis by (simp add: take_bit_eq_mod)
qed
lemma kfree_kend: "kfree v s = Ok x s' \<Longrightarrow> kend s' = kend s"
  by (auto simp: kfree_def ok_iff Let_def split: if_splits dest!: klock_OkD)

lemma free_all_kend: "free_all kfree vs s = Ok x s' \<Longrightarrow> kend s' = kend s"
  by (induction vs arbitrary: s) (auto simp: ok_iff dest: kfree_kend)

lemma freerange_pages:
  assumes "kmem_inv s xs" "KERNBASE \<le> kend s" "kend s \<le> PGROUNDUP vstart" "unat vend \<le> 0x8E000000"
    "PGROUNDUP vstart mod PGSIZE = 0" "unat (PGROUNDUP vstart) < 0x8F000000"
    "set xs \<inter> set (pages_in (PGROUNDUP vstart) vend) = {}"
  shows "\<exists>s'. freerange vstart vend s = Ok () s' \<and>
     kmem_inv s' (rev (pages_in (PGROUNDUP vstart) vend) @ xs) \<and> kend s' = kend s"
proof -
  have "\<exists>s'. free_all kfree (pages_in (PGROUNDUP vstart) vend) s = Ok () s' \<and>
      kmem_inv s' (rev (pages_in (PGROUNDUP vstart) vend) @ xs) \<and> page_ok s' = page_ok s"
    using assms pages_in_valid[OF assms(4,5,2,3)]
    by (intro kpages.free_all_rev) (auto simp: pages_in_distinct)
  then show ?thesis using assms by (auto simp: freerange_def freerange_from_eq dest: free_all_kend)
qed
lemma pages_in_cover:
  assumes "unat vend \<le> 0x8E000000" "p mod PGSIZE = 0" "vend mod PGSIZE = 0" "v mod PGSIZE = 0" "p \<le> v" "v < vend"
  shows "v \<in> set (pages_in p vend)"
proof -
  have "4096 dvd unat p" "4096 dvd unat v" "4096 dvd unat vend"
    using assms(2-4) by (simp_all flip: unat_0_iff add: unat_mod dvd_eq_mod_eq_0)
  then obtain a b c where abc: "unat p = 4096 * a" "unat v = 4096 * b" "unat vend = 4096 * c" by (auto elim!: dvdE)
  have ab: "a \<le> b" "b < c" using assms(5,6) abc by (auto simp: word_le_nat_alt word_less_nat_alt)
  have "unat vend - unat p = 4096 * (c - a)" using abc by (simp add: diff_mult_distrib2)
  then have "(unat vend - unat p) div 4096 = c - a" by simp
  moreover have "v = p + of_nat (4096 * (b - a))"
  proof -
    have "4096 * (b - a) < 2 ^ 32" using ab abc(3) unat_lt32[of vend] by simp
    then have "unat (p + of_nat (4096 * (b - a))) = unat v"
      using abc ab unat_lt32[of v] by (simp add: unat_word_ariths unat_of_nat32 del: of_nat_mult)
    then show ?thesis by (metis word_unat_eq_iff)
  qed
  ultimately show ?thesis using ab by (auto simp: pages_in_def intro!: image_eqI[of _ _ "b - a"])
qed

lemma pages_in_ge: 
  assumes "v \<in> set (pages_in p vend)" "unat vend \<le> 0x8E000000" shows "p \<le> v" "v < vend"
proof -
  obtain i where i: "i < (unat vend - unat p) div 4096" "v = p + of_nat (4096 * i)"
    using assms(1) by (auto simp: pages_in_def)
  have lt: "unat p + 4096 * i < unat vend" using i(1) by linarith
  have "unat v = unat p + 4096 * i"
    using lt assms(2) unat_of_nat32[of "4096 * i"] by (simp add: i(2) unat_word_ariths)
  then show "p \<le> v" "v < vend" using lt by (simp_all add: word_le_nat_alt word_less_nat_alt)
qed

lemma and_not_4095: "x AND - 4096 = push_bit 12 (drop_bit 12 (x :: addr))"
proof -
  have "- 4096 = NOT (mask 12 :: addr)" by (simp add: mask_eq_exp_minus_1)
  show ?thesis unfolding \<open>- 4096 = _\<close> by (rule bit_word_eqI) (auto simp: bit_simps)
qed

lemma PGROUNDUP_ge:
  assumes "unat a \<le> 0x8E000000" shows "a \<le> PGROUNDUP a" "unat (PGROUNDUP a) < unat a + 4096"
proof -
  have u: "unat (a + 4095) = unat a + 4095" using assms by (simp add: unat_word_ariths)
  have m: "PGROUNDUP a = (a + 4095) - take_bit 12 (a + 4095)"
  proof -
    have "PGROUNDUP a = push_bit 12 (drop_bit 12 (a + 4095))"
      by (simp add: PGROUNDUP_def and_not_4095 add.commute)
    then show ?thesis using bits_ident[of 12 "a + 4095"] by (simp add: eq_diff_eq)
  qed
  have "PGROUNDUP a + take_bit 12 (a+4095) = a + 4095" by (simp add: m)
  have t: "unat (take_bit 12 (a + 4095)) = unat (a + 4095) mod 4096" by (simp add: unat_mod take_bit_eq_mod)
  have "unat (PGROUNDUP a) = unat (a + 4095) - unat (a + 4095) mod 4096"
    unfolding m using t by (simp add: unat_sub_if' )
  then show "a \<le> PGROUNDUP a" "unat (PGROUNDUP a) < unat a + 4096"
    using u by (simp_all add: word_le_nat_alt)
qed

lemma PGROUNDUP_least:
  assumes "unat a \<le> 0x8E000000" "v mod PGSIZE = 0" "a \<le> v" shows "PGROUNDUP a \<le> v"
proof -
  have "4096 dvd unat v" "4096 dvd unat (PGROUNDUP a)"
    using assms(2) PGROUNDUP_aligned[of a] by (simp_all flip: unat_0_iff add: unat_mod dvd_eq_mod_eq_0)
  then obtain b c where "unat v = 4096 * b" "unat (PGROUNDUP a) = 4096 * c" by (auto elim!: dvdE)
  then show ?thesis using PGROUNDUP_ge(2)[OF assms(1)] assms(3) by (simp add: word_le_nat_alt)
qed

text \<open>(C16) Booting the allocator: started with an empty free list and the bounds that
  \<open>main\<close> passes, \<open>kinit1\<close> followed by \<open>kinit2\<close> returns with locking switched on and
  with a well-formed free list that holds every page between the end of the kernel
  image and \<open>PHYSTOP\<close>, each exactly once.\<close>

theorem kinit_all_pages:
  assumes "0x80000000 \<le> kend s" "kend s \<le> 0x80400000" "freelist s = 0" "mach_ok (mach s)"
  shows "\<exists>s' xs. bnd (kinit1 (kend s) 0x80400000 s) (\<lambda>_. kinit2 0x80400000 (P2V PHYSTOP)) = Ok () s'
     \<and> use_lock s' \<and> kmem_inv s' xs \<and> set xs = {v. page_ok s v}"
proof -
  let ?s0 = "s\<lparr>mach := initlock KmemLk ''kmem'' (mach s), use_lock := False\<rparr>"
  let ?p = "PGROUNDUP (kend s)" and ?q = "0x80400000 :: addr" and ?e = "0x8E000000 :: addr"
  have qe: "PGROUNDUP ?q = ?q" "P2V PHYSTOP = ?e" by (simp_all add: PGROUNDUP_def P2V_def)
  have i0: "kmem_inv ?s0 []" using assms by (simp add: kmem_inv_def lk_free_def initlock_def)
  have ke: "unat (kend s) \<le> 0x80400000" using assms(2) by (simp add: word_le_nat_alt)
  have p: "kend s \<le> ?p" "unat ?p < unat (kend s) + 4096" using ke PGROUNDUP_ge[of "kend s"] by auto
  obtain s1 where s1: "freerange (kend s) ?q ?s0 = Ok () s1" "kmem_inv s1 (rev (pages_in ?p ?q) @ [])"
      "kend s1 = kend s"
    using freerange_pages[OF i0, of "kend s" ?q] assms p ke PGROUNDUP_aligned by auto
  have dis: "set (pages_in ?p ?q) \<inter> set (pages_in ?q ?e) = {}"
    using pages_in_ge(2)[of _ ?p ?q] pages_in_ge(1)[of _ ?q ?e] by force
  obtain s2 where s2: "freerange ?q ?e s1 = Ok () s2" 
      "kmem_inv s2 (rev (pages_in ?q ?e) @ rev (pages_in ?p ?q))" "kend s2 = kend s"
    using freerange_pages[OF s1(2), of ?q ?e] assms s1(3) qe dis by auto
  have "set (pages_in ?q ?e) \<union> set (pages_in ?p ?q) = {v. page_ok s v}"
  proof (intro equalityI subsetI)
    fix v assume "v \<in> set (pages_in ?q ?e) \<union> set (pages_in ?p ?q)"
    then show "v \<in> {v. page_ok s v}"
      using s2(2,3) by (auto simp: kmem_inv_def list_all_iff page_ok_def)
  next
    fix v assume "v \<in> {v. page_ok s v}"
    then have v: "v mod PGSIZE = 0" "kend s \<le> v" "v < ?e"
      using assms(1) by (auto simp: page_ok_def V2P_def word_le_nat_alt word_less_nat_alt unat_sub_if' split: if_splits)
    have "?p \<le> v" using v ke PGROUNDUP_least[of "kend s" v] by simp
    then show "v \<in> set (pages_in ?q ?e) \<union> set (pages_in ?p ?q)"
      using pages_in_cover[of ?e ?q v] pages_in_cover[of ?q ?p v] v PGROUNDUP_aligned[of "kend s"]
      by (cases "?q \<le> v") auto
  qed
  moreover have "kmem_inv (s2\<lparr>use_lock := True\<rparr>) (rev (pages_in ?q ?e) @ rev (pages_in ?p ?q))"
    using s2(2) by (simp add: kmem_inv_def list_all_iff page_ok_def)
  ultimately show ?thesis using s1(1) s2(1) qe
    by (intro exI[of _ "s2\<lparr>use_lock := True\<rparr>"] exI[of _ "rev (pages_in ?q ?e) @ rev (pages_in ?p ?q)"])
      (simp add: kinit1_def kinit2_def)
qed

theorem kinit_all_pages_witness:
  "\<exists>s' xs. bnd (kinit1 (kend boot_kernel) 0x80400000 boot_kernel) (\<lambda>_. kinit2 0x80400000 (P2V PHYSTOP)) = Ok () s'
     \<and> use_lock s' \<and> kmem_inv s' xs \<and> set xs = {v. page_ok boot_kernel v}"
  by (rule kinit_all_pages) (simp_all, simp_all add: boot_kernel_def)

end
