(* ===== verification/Cprintf.thy ===== *)
theory Cprintf
  imports Kernel_State CString
begin

text \<open>
  Output: the serial port and screen routines of \<open>uart.c\<close> and \<open>console.c\<close>
  (\<open>uartputc\<close>, \<open>cgaputc\<close>, \<open>consputc\<close>), and the formatted printers, \<open>cprintf\<close> of
  \<open>console.c\<close> and \<open>printf\<close> of \<open>printf.c\<close>.  Variadic arguments are a list of \<open>parg\<close>: a word,
  or the bytes that a string pointer points at (null is \<open>PNull\<close>).  A conversion that finds no
  argument, or one of the wrong kind, reads memory the caller did not provide and is a fault.
\<close>

section \<open>Characters on the serial port and on the screen\<close>

definition uartputc :: "32 word \<Rightarrow> kernel \<Rightarrow> kernel" where
  "uartputc c s = (if \<not> uart s then s else s\<lparr>uart_out := uart_out s @ [ucast c]\<rparr>)"

text \<open>The second half of \<open>cgaputc\<close>: check the new position, scroll, move the cursor.\<close>

definition cga_advance :: "(nat \<Rightarrow> 16 word) \<Rightarrow> nat \<Rightarrow> kernel \<Rightarrow> unit kres" where
  "cga_advance cells pos s =
     (if pos > 25 * 80 then Panic ''pos under/overflow''
      else if pos div 80 \<ge> 24 then
        let cells = (\<lambda>i. if i < 23 * 80 then cells (i + 80) else cells i);
            pos = pos - 80;
            cells = (\<lambda>i. if pos \<le> i \<and> i < pos + (24 * 80 - pos) then 0 else cells i)
        in Ok () (s\<lparr>crt_pos := of_nat pos, crt := cells(pos := 0x0720)\<rparr>)
      else Ok () (s\<lparr>crt_pos := of_nat pos, crt := cells(pos := 0x0720)\<rparr>))"

definition cgaputc :: "32 word \<Rightarrow> kernel \<Rightarrow> unit kres" where
  "cgaputc c s =
     (let pos = unat (crt_pos s) in
      if c = 10 then cga_advance (crt s) (pos + (80 - pos mod 80)) s
      else if c = 0x100 then cga_advance (crt s) (if pos > 0 then pos - 1 else pos) s
      else cga_advance ((crt s)(pos := ucast ((c AND 0xFF) OR 0x0700))) (pos + 1) s)"

definition consputc :: "32 word \<Rightarrow> kernel \<Rightarrow> unit kres" where
  "consputc c s =
     (if panicked s then Spin
      else
        let s = (if c = 0x100 then uartputc 8 (uartputc 32 (uartputc 8 s)) else uartputc c s)
        in cgaputc c s)"

primrec consputs :: "32 word list \<Rightarrow> kernel \<Rightarrow> unit kres" where
  "consputs [] s = Ok () s"
| "consputs (c # cs) s = bnd (consputc c s) (\<lambda>_ s. consputs cs s)"

section \<open>Numbers\<close>

definition digits :: "byte list" where
  "digits = bytes_of ''0123456789abcdef''"

text \<open>The \<open>do\<close> loop of \<open>printint\<close> in the kernel.\<close>

partial_function (option) digit_loop :: "32 word \<Rightarrow> 32 word \<Rightarrow> byte list \<Rightarrow> byte list option" where
  "digit_loop x base buf =
     (let buf = buf @ [digits ! unat (x mod base)]; x = x div base in
      if x \<noteq> 0 then digit_loop x base buf else Some buf)"

text \<open>\<open>if(sign && (sign = xx < 0)) x = -xx; else x = xx;\<close> and the rest of the function up to the output.\<close>

definition printint_buf :: "32 word \<Rightarrow> 32 word \<Rightarrow> bool \<Rightarrow> byte list option" where
  "printint_buf xx base sign =
     (let (sign, x) = (if sign then let sign = s_lt xx 0 in (sign, if sign then - xx else xx) else (sign, xx)) in
      case digit_loop x base [] of
        None \<Rightarrow> None
      | Some buf \<Rightarrow> Some (if sign then buf @ [45] else buf))"

definition printint :: "32 word \<Rightarrow> 32 word \<Rightarrow> bool \<Rightarrow> kernel \<Rightarrow> unit kres" where
  "printint xx base sign s =
     (case printint_buf xx base sign of
        None \<Rightarrow> Spin
      | Some buf \<Rightarrow> if length buf > 16 then Fault else consputs (map ucast (rev buf)) s)"

text \<open>The user library has its own digits, loop and treatment of the sign.\<close>

definition u_digits :: "byte list" where
  "u_digits = bytes_of ''0123456789ABCDEF''"

partial_function (option) u_digit_loop :: "32 word \<Rightarrow> 32 word \<Rightarrow> byte list \<Rightarrow> byte list option" where
  "u_digit_loop x base buf =
     (let buf = buf @ [u_digits ! unat (x mod base)]; x = x div base in
      if x \<noteq> 0 then u_digit_loop x base buf else Some buf)"

definition u_printint :: "32 word \<Rightarrow> 32 word \<Rightarrow> bool \<Rightarrow> byte list \<Rightarrow> (unit, byte list) outcome" where
  "u_printint xx base sg out =
     (let (neg, x) = (if sg \<and> s_lt xx 0 then (True, - xx) else (False, xx)) in
      case u_digit_loop x base [] of
        None \<Rightarrow> Spin
      | Some buf \<Rightarrow>
          let buf = (if neg then buf @ [45] else buf) in
          if length buf > 16 then Fault else Ok () (out @ rev buf))"

section \<open>Formatted output\<close>

datatype parg = PInt "32 word" | PStr "byte list" | PNull

definition null_str :: "byte list" where
  "null_str = bytes_of ''(null)''"

fun cprintf_loop :: "byte list \<Rightarrow> parg list \<Rightarrow> kernel \<Rightarrow> unit kres" where
  "cprintf_loop [] args s = Ok () s"
| "cprintf_loop (c # fmt) args s =
     (if c \<noteq> 37 then bnd (consputc (ucast c) s) (\<lambda>_ s. cprintf_loop fmt args s)
      else case fmt of
        [] \<Rightarrow> Ok () s
      | c # fmt \<Rightarrow>
          if c = 100 then (case args of PInt w # args \<Rightarrow>
              bnd (printint w 10 True s) (\<lambda>_ s. cprintf_loop fmt args s) | _ \<Rightarrow> Fault)
          else if c = 120 \<or> c = 112 then (case args of PInt w # args \<Rightarrow>
              bnd (printint w 16 False s) (\<lambda>_ s. cprintf_loop fmt args s) | _ \<Rightarrow> Fault)
          else if c = 115 then (case args of
              PStr b # args \<Rightarrow> bnd (consputs (map ucast b) s) (\<lambda>_ s. cprintf_loop fmt args s)
            | PNull # args \<Rightarrow> bnd (consputs (map ucast null_str) s) (\<lambda>_ s. cprintf_loop fmt args s)
            | _ \<Rightarrow> Fault)
          else if c = 37 then bnd (consputc 37 s) (\<lambda>_ s. cprintf_loop fmt args s)
          else bnd (consputc 37 s) (\<lambda>_ s. bnd (consputc (ucast c) s) (\<lambda>_ s. cprintf_loop fmt args s)))"

definition cprintf :: "byte list option \<Rightarrow> parg list \<Rightarrow> kernel \<Rightarrow> unit kres" where
  "cprintf fmt args s =
     (let locking = cons_locking s in
      bnd (if locking then kacquire ConsLk s else Ok () s) (\<lambda>_ s.
      case fmt of None \<Rightarrow> Panic ''null fmt''
      | Some fmt \<Rightarrow>
        bnd (cprintf_loop fmt args s) (\<lambda>_ s.
          if locking then krelease ConsLk s else Ok () s)))"

text \<open>\<open>printf\<close> of the user library: the bytes it writes to the file descriptor, one \<open>write\<close> call
  each; \<open>pct\<close> is \<open>state == '%'\<close>.\<close>

fun printf_loop :: "bool \<Rightarrow> byte list \<Rightarrow> parg list \<Rightarrow> byte list \<Rightarrow> (unit, byte list) outcome" where
  "printf_loop pct [] args out = Ok () out"
| "printf_loop pct (c # fmt) args out =
     (if \<not> pct then
        (if c = 37 then printf_loop True fmt args out else printf_loop False fmt args (out @ [c]))
      else if c = 100 then (case args of PInt w # args \<Rightarrow>
          bnd (u_printint w 10 True out) (\<lambda>_ out. printf_loop False fmt args out) | _ \<Rightarrow> Fault)
      else if c = 120 \<or> c = 112 then (case args of PInt w # args \<Rightarrow>
          bnd (u_printint w 16 False out) (\<lambda>_ out. printf_loop False fmt args out) | _ \<Rightarrow> Fault)
      else if c = 115 then (case args of
          PStr b # args \<Rightarrow> printf_loop False fmt args (out @ b)
        | PNull # args \<Rightarrow> printf_loop False fmt args (out @ null_str)
        | _ \<Rightarrow> Fault)
      else if c = 99 then (case args of PInt w # args \<Rightarrow>
          printf_loop False fmt args (out @ [ucast w]) | _ \<Rightarrow> Fault)
      else if c = 37 then printf_loop False fmt args (out @ [c])
      else printf_loop False fmt args (out @ [37, c]))"

definition printf :: "byte list \<Rightarrow> parg list \<Rightarrow> byte list \<Rightarrow> (unit, byte list) outcome" where
  "printf fmt args out = printf_loop False fmt args out"

function dg :: "byte list \<Rightarrow> nat \<Rightarrow> nat \<Rightarrow> byte list" where
  "dg ds b n = ds ! (n mod b) # (if b < 2 \<or> n div b = 0 then [] else dg ds b (n div b))"
  by pat_completeness auto
termination
proof (relation "measure (\<lambda>(ds, b, n). n)", goal_cases)
  case (2 ds b n)
  then have "0 < n" by (auto intro!: gr_zeroI)
  then show ?case using 2 by (simp add: div_less_dividend)
qed simp

declare dg.simps [simp del]
declare digit_loop.simps [code] u_digit_loop.simps [code]

lemma word_div_less:
  assumes "2 \<le> unat b" "x div b \<noteq> 0"
  shows "unat (x div b) < unat (x :: 32 word)"
proof -
  have "x \<noteq> 0" using assms(2) by auto
  then have "0 < unat x" by (simp add: unat_gt_0)
  then show ?thesis using assms(1) by (simp add: unat_div div_less_dividend)
qed

lemma digit_loop_dg:
  assumes "2 \<le> unat b"
  shows "digit_loop x b buf = Some (buf @ dg digits (unat b) (unat x))"
proof (induction "unat x" arbitrary: x buf rule: less_induct)
  case less
  then show ?case
    using word_div_less[OF assms, of x] assms
    by (subst digit_loop.simps, subst dg.simps) (auto simp: Let_def unat_div unat_mod simp flip: unat_0_iff)
qed

lemma u_digit_loop_dg:
  assumes "2 \<le> unat b"
  shows "u_digit_loop x b buf = Some (buf @ dg u_digits (unat b) (unat x))"
proof (induction "unat x" arbitrary: x buf rule: less_induct)
  case less
  then show ?case
    using word_div_less[OF assms, of x] assms
    by (subst u_digit_loop.simps, subst dg.simps) (auto simp: Let_def unat_div unat_mod simp flip: unat_0_iff)
qed

lemma length_dg: "2 \<le> b \<Longrightarrow> n < b ^ k \<Longrightarrow> 0 < k \<Longrightarrow> length (dg ds b n) \<le> k"
proof (induction ds b n arbitrary: k rule: dg.induct)
  case (1 ds b n)
  then obtain j where k: "k = Suc j" by (cases k) auto
  show ?case
  proof (cases "n div b = 0")
    case False
    then have "n div b < b ^ j" "0 < j"
      using 1(2-) k by (auto simp: less_mult_imp_div_less mult.commute intro!: gr_zeroI)
    then show ?thesis using 1 k False by (subst dg.simps) auto
  qed (use k in \<open>subst dg.simps, simp\<close>)
qed

lemma less_10_cases: "k < 10 \<Longrightarrow> k \<in> {0, 1, 2, 3, 4, 5, 6, 7, 8, 9 :: nat}"
  by auto

lemma digit_byte: "k < 10 \<Longrightarrow> digits ! k \<in> {48..57}"
  by (drule less_10_cases) (auto simp: digits_def bytes_of_def)

lemma dg_10: "set (dg digits 10 n) \<subseteq> {48..57}"
proof (induction n rule: less_induct)
  case (less n)
  have "digits ! (n mod 10) \<in> {48..57}" by (rule digit_byte) simp
  then show ?case using less[of "n div 10"] by (subst dg.simps) (auto split: if_splits)
qed
lemma digit_val: "k < 10 \<Longrightarrow> (ucast (digits ! k) :: 32 word) - 48 = of_nat k"
  by (drule less_10_cases) (auto simp: digits_def bytes_of_def)

abbreviation dstep :: "byte \<Rightarrow> 32 word \<Rightarrow> 32 word" where
  "dstep d n \<equiv> n * 10 + ucast d - 48"

lemma dg_val: "foldr dstep (dg digits 10 n) 0 = of_nat n"
proof (induction n rule: less_induct)
  case (less n)
  have "foldr dstep (dg digits 10 n) 0 = of_nat (n div 10) * 10 + of_nat (n mod 10)"
    using less[of "n div 10"] digit_val[of "n mod 10"] 
    by (subst dg.simps) (auto simp: diff_eq_eq add_diff_eq[symmetric])
  also have "\<dots> = of_nat (n div 10 * 10 + n mod 10)" by (simp only: of_nat_add of_nat_mult of_nat_numeral)
  finally show ?case by simp
qed

lemma atoi_from_digits:
  "set ds \<subseteq> {48..57} \<Longrightarrow> (\<And>j. j < length ds \<Longrightarrow> s (i + j) = ds ! j) \<Longrightarrow> s (i + length ds) = 0 \<Longrightarrow>
   atoi_from s i n = Some (fold dstep ds n)"
proof (induction ds arbitrary: i n)
  case (Cons d ds)
  have "s i = d" using Cons.prems(2)[of 0] by simp
  moreover have "atoi_from s (Suc i) (dstep d n) = Some (fold dstep ds (dstep d n))"
  proof (rule Cons.IH)
    fix j assume "j < length ds"
    then show "s (Suc i + j) = ds ! j" using Cons.prems(2)[of "Suc j"] by simp
  qed (use Cons.prems in auto)
  ultimately show ?case using Cons.prems(1) by (subst atoi_from.simps) auto
qed (simp add: atoi_from.simps)


lemma atoi_dg: "atoi (seq_of (rev (dg digits 10 (unat x)) @ [0])) = Some x"
proof -
  have "atoi (seq_of (rev (dg digits 10 (unat x)) @ [0])) = Some (fold dstep (rev (dg digits 10 (unat x))) 0)"
    unfolding atoi_def by (rule atoi_from_digits) (use dg_10 in \<open>auto simp: nth_append\<close>)
  then show ?thesis by (simp add: dg_val flip: foldr_conv_fold)
qed

lemma length_dg_10: "length (dg ds 10 (unat (x :: 32 word))) \<le> 10"
  using unat_lt32[of x] by (intro length_dg) simp_all

lemma length_dg_16: "length (dg ds 16 (unat (x :: 32 word))) \<le> 8"
  using unat_lt32[of x] by (intro length_dg) simp_all

text \<open>\<open>printint\<close> in base 10 ends for every \<open>int\<close>, never needs more than 11 of the 16 bytes of its
  buffer, and prints a numeral that \<open>atoi\<close> reads back: the value itself, or a minus sign followed
  by the negated value (also for the most negative \<open>int\<close>).\<close>

theorem printint_atoi:
  "\<exists>buf. printint_buf xx 10 True = Some buf \<and> length buf \<le> 11 \<and>
     (if s_lt xx 0 then hd (rev buf) = 45 \<and> atoi (seq_of (tl (rev buf) @ [0])) = Some (- xx)
      else atoi (seq_of (rev buf @ [0])) = Some xx)"
  using length_dg_10[of digits xx] length_dg_10[of digits "- xx"]
  by (auto simp: printint_buf_def digit_loop_dg atoi_dg Let_def)

section \<open>What reaches the serial port\<close>

text \<open>The cursor stays above the last line, so that \<open>cgaputc\<close> does not stop the machine and
  only writes cells of the screen.\<close>

definition crt_ok :: "kernel \<Rightarrow> bool" where
  "crt_ok s \<longleftrightarrow> unat (crt_pos s) < 24 * 80"

lemma cga_advance_ok:
  assumes "pos \<le> 24 * 80" "\<And>i. 25 * 80 \<le> i \<Longrightarrow> cells i = crt s i"
  shows "\<exists>s'. cga_advance cells pos s = Ok () s' \<and> s' = s\<lparr>crt_pos := crt_pos s', crt := crt s'\<rparr>
     \<and> crt_ok s' \<and> (\<forall>i \<ge> 25 * 80. crt s' i = crt s i)"
proof -
  have u: "unat (of_nat n :: 16 word) = n" if "n < 1920" for n
    using that by (simp add: unat_of_nat take_bit_nat_eq_self)
  show ?thesis
  proof (cases "pos = 24 * 80")
    case True
    then show ?thesis using assms u[of 1840] by (simp add: cga_advance_def Let_def crt_ok_def)
  next
    case False
    then have "pos div 80 < 24" using assms(1) by simp
    with False show ?thesis using assms u[of pos] by (simp add: cga_advance_def crt_ok_def)
  qed
qed

lemma cgaputc_ok:
  assumes "crt_ok s"
  shows "\<exists>s'. cgaputc c s = Ok () s' \<and> s' = s\<lparr>crt_pos := crt_pos s', crt := crt s'\<rparr>
     \<and> crt_ok s' \<and> (\<forall>i \<ge> 25 * 80. crt s' i = crt s i)"
proof -
  have lt: "unat (crt_pos s) < 24 * 80" using assms by (simp add: crt_ok_def)
  have "unat (crt_pos s) + (80 - unat (crt_pos s) mod 80) \<le> 24 * 80"
  proof -
    have "unat (crt_pos s) div 80 < 24" using lt by simp
    moreover have "unat (crt_pos s) = 80 * (unat (crt_pos s) div 80) + unat (crt_pos s) mod 80" by simp
    ultimately show ?thesis by linarith
  qed
  then show ?thesis
    using lt unfolding cgaputc_def Let_def
    by (simp only: split: if_split) (intro conjI impI cga_advance_ok; simp)
qed

text \<open>\<open>emits s bs s'\<close>: the bytes \<open>bs\<close> went to the serial port, if there is one, and the screen was
  updated; nothing else changed.\<close>

definition emits :: "kernel \<Rightarrow> byte list \<Rightarrow> kernel \<Rightarrow> bool" where
  "emits s bs s' \<longleftrightarrow> unat (crt_pos s') < 24 * 80 \<and>
     s' = s\<lparr>uart_out := uart_out s @ (if uart s then bs else []), crt_pos := crt_pos s', crt := crt s'\<rparr>"

lemma emits_trans:
  assumes "emits s bs t" "emits t cs u" shows "emits s (bs @ cs) u"
proof -
  have t: "t = s\<lparr>uart_out := uart_out s @ (if uart s then bs else []), crt_pos := crt_pos t, crt := crt t\<rparr>"
    and u: "u = t\<lparr>uart_out := uart_out t @ (if uart t then cs else []), crt_pos := crt_pos u, crt := crt u\<rparr>"
    and "unat (crt_pos u) < 24 * 80"
    using assms by (simp_all add: emits_def)
  have "uart t = uart s" "uart_out t = uart_out s @ (if uart s then bs else [])"
    by (subst t, simp)+
  moreover have "t\<lparr>uart_out := x, crt_pos := p, crt := f\<rparr> = s\<lparr>uart_out := x, crt_pos := p, crt := f\<rparr>" for x p f
    by (subst t) simp
  ultimately have "u = s\<lparr>uart_out := uart_out s @ (if uart s then bs @ cs else []), crt_pos := crt_pos u, crt := crt u\<rparr>"
    using u by (simp split: if_splits)
  then show ?thesis using \<open>unat (crt_pos u) < 24 * 80\<close> by (simp add: emits_def)
qed

lemma emits_same:
  assumes "emits s bs t"
  shows "panicked t = panicked s" "crt_ok t" "cons_locking t = cons_locking s" "mach t = mach s" "uart t = uart s"
    "uart_out t = uart_out s @ (if uart s then bs else [])"
proof -
  have t: "t = s\<lparr>uart_out := uart_out s @ (if uart s then bs else []), crt_pos := crt_pos t, crt := crt t\<rparr>"
    and "crt_ok t"
    using assms by (simp_all add: emits_def crt_ok_def)
  then show "crt_ok t" by simp
  show "panicked t = panicked s" "cons_locking t = cons_locking s" "mach t = mach s" "uart t = uart s"
    "uart_out t = uart_out s @ (if uart s then bs else [])"
    by (subst t, simp)+
qed

lemma emits_refl: "crt_ok s \<Longrightarrow> emits s [] s"
  by (simp add: emits_def crt_ok_def)

lemma consputc_ok:
  assumes "crt_ok s" "\<not> panicked s" "c \<noteq> 0x100"
  shows "\<exists>s'. consputc c s = Ok () s' \<and> emits s [ucast c] s'"
proof -
  have "crt_ok (uartputc c s)" using assms(1) by (simp add: crt_ok_def uartputc_def)
  from cgaputc_ok[OF this, of c] obtain s' where s': "cgaputc c (uartputc c s) = Ok () s'"
    "s' = (uartputc c s)\<lparr>crt_pos := crt_pos s', crt := crt s'\<rparr>" "crt_ok s'" by blast
  moreover have "emits s [ucast c] s'"
    unfolding emits_def using s'(2,3) by (simp add: uartputc_def crt_ok_def split: if_splits)
  ultimately show ?thesis using assms by (simp add: consputc_def)
qed

lemma ucast_neq_100: "(ucast (b :: byte) :: 32 word) \<noteq> 0x100"
proof
  assume "ucast b = (0x100 :: 32 word)"
  then have "unat (ucast b :: 32 word) = 256" by simp
  moreover have "unat b < 2 ^ 8" using unsigned_less[of b, where ?'a = nat] by simp
  ultimately have "unat b = 256" by (simp add: unsigned_ucast_eq take_bit_nat_def)
  moreover have "unat b < 256" using unsigned_less[of b, where ?'a = nat] by simp
  ultimately show False by simp
qed

lemma ucast_ucast_byte [simp]: "ucast (ucast (b :: byte) :: 32 word) = b"
  by (rule bit_word_eqI) (simp add: bit_simps)

lemma consputs_ok:
  assumes "crt_ok s" "\<not> panicked s"
  shows "\<exists>s'. consputs (map ucast bs) s = Ok () s' \<and> emits s bs s'"
  using assms
proof (induction bs arbitrary: s)
  case (Cons b bs)
  obtain t where t: "consputc (ucast b) s = Ok () t" "emits s [b] t"
    using consputc_ok[OF Cons.prems, of "ucast b"] ucast_neq_100 by auto
  then obtain u where "consputs (map ucast bs) t = Ok () u" "emits t bs u"
    using Cons.IH[of t] Cons.prems emits_same[OF t(2)] by auto
  with t show ?case using emits_trans by fastforce
qed (use emits_refl in auto)


lemma printint_ok:
  assumes "crt_ok s" "\<not> panicked s" "printint_buf w b sg = Some buf" "length buf \<le> 16"
  shows "\<exists>s'. printint w b sg s = Ok () s' \<and> emits s (rev buf) s'"
  using consputs_ok[OF assms(1,2), of "rev buf"] assms(3,4) by (simp add: printint_def)

lemma printint_buf_10: "\<exists>buf. printint_buf w 10 sg = Some buf \<and> length buf \<le> 16"
  using length_dg_10[of digits w] length_dg_10[of digits "- w"]
  by (simp add: printint_buf_def digit_loop_dg Let_def)

lemma dg_same: "dg u_digits 10 n = dg digits 10 n"
proof (induction n rule: less_induct)
  case (less n)
  have "u_digits ! (n mod 10) = digits ! (n mod 10)"
    using less_10_cases[of "n mod 10"] by (auto simp: digits_def u_digits_def bytes_of_def)
  then show ?case using less by (subst (1 2) dg.simps) simp
qed

text \<open>In base 10 the two \<open>printint\<close> functions produce the same bytes.\<close>

lemma u_printint_same: "printint_buf w 10 sg = Some buf \<Longrightarrow> u_printint w 10 sg out = Ok () (out @ rev buf)"
  using length_dg_10[of digits w] length_dg_10[of digits "- w"]
  by (auto simp: printint_buf_def u_printint_def digit_loop_dg u_digit_loop_dg dg_same Let_def split: if_splits)

lemma u_printint_acc:
  "u_printint w b sg (out @ out') = (case u_printint w b sg out' of Ok x r \<Rightarrow> Ok x (out @ r)
     | Panic e \<Rightarrow> Panic e | Fault \<Rightarrow> Fault | Spin \<Rightarrow> Spin | Slept r \<Rightarrow> Slept (out @ r))"
  by (auto simp: u_printint_def Let_def split: option.split)

text \<open>The format strings both printers treat alike: no hexadecimal (the two use different letters)
  and no \<open>%c\<close> (unknown to \<open>cprintf\<close>).\<close>

fun common_fmt :: "byte list \<Rightarrow> bool" where
  "common_fmt [] = True"
| "common_fmt [c] = True"
| "common_fmt (c # d # fmt) =
     (if c = 37 then d \<notin> {120, 112, 99} \<and> common_fmt fmt else common_fmt (d # fmt))"

lemma printf_loop_acc:
  "printf_loop pct fmt args (out @ out') = (case printf_loop pct fmt args out' of Ok x r \<Rightarrow> Ok x (out @ r)
     | Panic e \<Rightarrow> Panic e | Fault \<Rightarrow> Fault | Spin \<Rightarrow> Spin | Slept r \<Rightarrow> Slept (out @ r))"
  by (induction fmt arbitrary: pct args out') (auto simp: u_printint_acc split: list.split parg.split outcome.split)

lemma printf_loop_new:
  assumes "printf_loop pct fmt args out = Ok () out'"
  shows "\<exists>new. out' = out @ new \<and> printf_loop pct fmt args [] = Ok () new"
  using assms printf_loop_acc[of pct fmt args out "[]"] by (auto split: outcome.splits)

lemma cprintf_then:
  assumes "\<exists>t. m = Ok () t \<and> emits s bs t" "\<not> panicked s"
    and "\<And>t. crt_ok t \<Longrightarrow> \<not> panicked t \<Longrightarrow> \<exists>u. rest t = Ok () u \<and> emits t new u"
  shows "\<exists>u. bnd m (\<lambda>_ s. rest s) = Ok () u \<and> emits s (bs @ new) u"
proof -
  obtain t where t: "m = Ok () t" "emits s bs t" using assms(1) by blast
  then obtain u where "rest t = Ok () u" "emits t new u"
    using assms(3)[of t] emits_same(1,2)[OF t(2)] assms(2) by blast
  with t show ?thesis using emits_trans by auto
qed

lemma cprintf_loop_printf:
  assumes "printf_loop False fmt args [] = Ok () out" "common_fmt fmt" "crt_ok s" "\<not> panicked s"
  shows "\<exists>s'. cprintf_loop fmt args s = Ok () s' \<and> emits s out s'"
  using assms
proof (induction "length fmt" arbitrary: fmt args s out rule: less_induct)
  case less
  have put: "\<exists>t. consputc (ucast c) s = Ok () t \<and> emits s [c] t" for c :: byte
    using consputc_ok[OF less.prems(3,4), of "ucast c"] ucast_neq_100[of c] by simp
  have put37: "\<exists>t. consputc 37 s = Ok () t \<and> emits s [37] t"
    using consputc_ok[OF less.prems(3,4), of 37] by simp
  note puts = consputs_ok[OF less.prems(3,4)]
  show ?case
  proof (cases fmt)
    case Nil
    then show ?thesis using less.prems emits_refl by auto
  next
    case (Cons c fmt')
    show ?thesis
    proof (cases "c = 37")
      case False
      then obtain new where new: "out = [c] @ new" "printf_loop False fmt' args [] = Ok () new"
        using less.prems(1) Cons printf_loop_new[of False fmt' args "[c]"] by auto
      have "common_fmt fmt'" using less.prems(2) False Cons by (cases fmt') auto
      then show ?thesis
        using cprintf_then[OF put less.prems(4), where rest = "cprintf_loop fmt' args" and new = new]
          less.hyps[of fmt'] new False Cons by simp
    next
      case pct: True
      show ?thesis
      proof (cases fmt')
        case Nil
        then show ?thesis using less.prems pct Cons emits_refl by auto
      next
        case (Cons d f)
        then have cf: "common_fmt f" "d \<noteq> 120" "d \<noteq> 112" "d \<noteq> 99" and len: "length f < length fmt"
          and po: "printf_loop True (d # f) args [] = Ok () out"
          using less.prems(1,2) pct \<open>fmt = c # fmt'\<close> by auto
        have rest: "\<exists>u. cprintf_loop f a t = Ok () u \<and> emits t new u"
          if "printf_loop False f a [] = Ok () new" "crt_ok t" "\<not> panicked t" for a t new
          using less.hyps[OF len that(1) cf(1) that(2,3)] .
        note step = cprintf_then[OF _ less.prems(4) rest]
        consider (d) "d = 100" | (s) "d = 115" | (p) "d = 37" | (other) "d \<noteq> 100" "d \<noteq> 115" "d \<noteq> 37" by auto
        then show ?thesis
        proof cases
          case d
          obtain w a where a: "args = PInt w # a" 
            using po d by (auto split: list.splits parg.splits)
          obtain buf where buf: "printint_buf w 10 True = Some buf" "length buf \<le> 16"
            using printint_buf_10 by blast
          then obtain new where "out = rev buf @ new" "printf_loop False f a [] = Ok () new"
            using po d a printf_loop_new[of False f a "rev buf"] by (auto simp: u_printint_same[OF buf(1)])
          then show ?thesis
            using step[OF printint_ok[OF less.prems(3,4) buf]] a d Cons pct \<open>fmt = c # fmt'\<close> by simp
        next
          case s
          obtain b a where a: "args = PStr b # a \<or> args = PNull # a \<and> b = null_str"
            using po s by (auto split: list.splits parg.splits)
          then obtain new where "out = b @ new" "printf_loop False f a [] = Ok () new"
            using po s printf_loop_new[of False f a b] by auto
          then show ?thesis
            using step[OF puts[of b]] a s Cons pct \<open>fmt = c # fmt'\<close> by auto
        next
          case p
          then obtain new where "out = [37] @ new" "printf_loop False f args [] = Ok () new"
            using po printf_loop_new[of False f args "[37]"] by auto
          then show ?thesis using step[OF put37] p Cons pct \<open>fmt = c # fmt'\<close> by simp
        next
          case other
          then obtain new where new: "out = [37] @ [d] @ new" "printf_loop False f args [] = Ok () new"
            using po cf printf_loop_new[of False f args "[37, d]"] by auto
          have "\<exists>u. bnd (consputc (ucast d) t) (\<lambda>_ s. cprintf_loop f args s) = Ok () u \<and> emits t ([d] @ new) u"
            if "crt_ok t" "\<not> panicked t" for t
            using cprintf_then[OF _ that(2) rest[OF new(2)], of "consputc (ucast d) t" "[d]"]
              consputc_ok[OF that, of "ucast d"] ucast_neq_100[of d] by simp
          then show ?thesis
            using cprintf_then[OF put37 less.prems(4)] other cf Cons pct new(1) \<open>fmt = c # fmt'\<close> by simp
        qed
      qed
    qed
  qed
qed

text \<open>(C22) On formats without \<open>%x\<close>, \<open>%p\<close> and \<open>%c\<close>, \<open>cprintf\<close> of the kernel prints what \<open>printf\<close> of the user library prints: whatever bytes
  \<open>printf\<close> writes, \<open>cprintf\<close>, which takes and releases the console lock, sends exactly these bytes to the serial port; it changes nothing
  else but the screen, and cannot stop on the screen's position check.  (The two differ on the excluded conversions: hexadecimal digits are
  lower case in the kernel and upper case in the library, and \<open>cprintf\<close> does not know \<open>%c\<close>.)\<close>

theorem cprintf_printf:
  assumes "printf fmt args [] = Ok () out" "common_fmt fmt"
    and "crt_ok s" "\<not> panicked s" "uart s" "mach_ok (mach s)" "lk_free ConsLk (mach s)"
  shows "\<exists>s'. cprintf (Some fmt) args s = Ok () s' \<and> crt_ok s'
     \<and> s' = s\<lparr>uart_out := uart_out s @ out, crt_pos := crt_pos s', crt := crt s', mach := (if cons_locking s then touch (mach s) else mach s)\<rparr>"
proof (cases "cons_locking s")
  case True
  let ?s = "s\<lparr>mach := hold ConsLk (mach s)\<rparr>"
  have "\<exists>s'. cprintf_loop fmt args ?s = Ok () s' \<and> emits ?s out s'"
    using assms by (intro cprintf_loop_printf) (simp_all add: printf_def crt_ok_def)
  then obtain t where t: "cprintf_loop fmt args ?s = Ok () t" "emits ?s out t" by blast
  then obtain p c where e: "t = s\<lparr>mach := hold ConsLk (mach s), uart_out := uart_out s @ out, crt_pos := p, crt := c\<rparr>"
    using assms(5) by (auto simp: emits_def)
  have "cprintf (Some fmt) args s = Ok () (t\<lparr>mach := touch (mach s)\<rparr>)"
    using t(1) True assms emits_same[OF t(2)] by (simp add: cprintf_def lock_simps)
  then show ?thesis using True emits_same(2)[OF t(2)] by (simp add: e crt_ok_def)
next
  case False
  obtain t where t: "cprintf_loop fmt args s = Ok () t" "emits s out t"
    using cprintf_loop_printf[of fmt args out s] assms by (auto simp: printf_def)
  then obtain p c where e: "t = s\<lparr>uart_out := uart_out s @ out, crt_pos := p, crt := c\<rparr>" using assms(5) by (auto simp: emits_def)
  then show ?thesis using t(1) False emits_same(2)[OF t(2)] by (simp add: cprintf_def)
qed

theorem cprintf_printf_witness:
  "\<exists>s'. cprintf (Some [37, 100, 10]) [PInt (- 42)] (boot_kernel\<lparr>uart := True, cons_locking := True\<rparr>) = Ok () s'
     \<and> uart_out s' = [45, 52, 50, 10]"
proof -
  let ?s = "boot_kernel\<lparr>uart := True, cons_locking := True\<rparr>"
  have "printf [37, 100, 10] [PInt (- 42)] [] = Ok () [45, 52, 50, 10]"
    by (simp add: printf_def u_printint_def u_digits_def bytes_of_def s_lt_def u_digit_loop.simps)
  from cprintf_printf[OF this, of ?s] obtain s' where s': "cprintf (Some [37, 100, 10]) [PInt (- 42)] ?s = Ok () s'"
    "s' = ?s\<lparr>uart_out := uart_out ?s @ [45, 52, 50, 10], crt_pos := crt_pos s', crt := crt s', mach := (if cons_locking ?s then touch (mach ?s) else mach ?s)\<rparr>"
    by (auto simp: crt_ok_def boot_kernel_def)
  have "uart_out s' = uart_out ?s @ [45, 52, 50, 10]" by (subst s'(2)) simp
  then show ?thesis using s'(1) by (simp add: boot_kernel_def)
qed

end
