(* ===== verification/Vm.thy ===== *)
theory Vm
  imports Kalloc Cprintf
begin

text \<open>
  Page tables: \<open>vm.c\<close>.  Page directories and page tables are pages of \<open>mem\<close>; an entry is the
  32-bit word at its address, so a \<open>pde_t*\<close> or \<open>pte_t*\<close> is an address and \<open>0\<close> is null.
  \<open>loaduvm\<close>, which reads a file, is in theory \<open>Exec\<close>; the segment descriptors are not modelled.
\<close>

section \<open>Entries (mmu.h)\<close>

definition PDX :: "addr \<Rightarrow> addr" where
  "PDX va = drop_bit 22 va AND 0x3FF"

definition PTX :: "addr \<Rightarrow> addr" where
  "PTX va = drop_bit 12 va AND 0x3FF"

definition PGADDR :: "addr \<Rightarrow> addr \<Rightarrow> addr \<Rightarrow> addr" where
  "PGADDR d t x = push_bit 22 d OR push_bit 12 t OR x"

abbreviation (input) PTE_P :: "32 word" where "PTE_P \<equiv> 1"
abbreviation (input) PTE_W :: "32 word" where "PTE_W \<equiv> 2"
abbreviation (input) PTE_U :: "32 word" where "PTE_U \<equiv> 4"

definition PTE_ADDR :: "32 word \<Rightarrow> addr" where
  "PTE_ADDR pte = pte AND NOT 0xFFF"

definition PTE_FLAGS :: "32 word \<Rightarrow> 32 word" where
  "PTE_FLAGS pte = pte AND 0xFFF"

section \<open>Walking and mapping\<close>

definition walkpgdir :: "addr \<Rightarrow> addr \<Rightarrow> bool \<Rightarrow> kernel \<Rightarrow> addr kres" where
  "walkpgdir pd va alloc s =
     (let pde = pd + 4 * PDX va; e = load32 (mem s) pde in
      if e AND PTE_P \<noteq> 0 then Ok (P2V (PTE_ADDR e) + 4 * PTX va) s
      else if \<not> alloc then Ok 0 s
      else bnd (kalloc s) (\<lambda>pgtab s.
        if pgtab = 0 then Ok 0 s
        else let m = memset pgtab 0 PGSIZE (mem s);
                 m = store32 pde (V2P pgtab OR PTE_P OR PTE_W OR PTE_U) m
             in Ok (pgtab + 4 * PTX va) (s\<lparr>mem := m\<rparr>)))"

text \<open>The loop of \<open>mappages\<close>.  Both \<open>a\<close> and \<open>last\<close> are page aligned, so the test \<open>a == last\<close>
  succeeds before the distance drops below a page; the guard makes the recursion total.\<close>

function mappages_loop :: "addr \<Rightarrow> addr \<Rightarrow> addr \<Rightarrow> addr \<Rightarrow> 32 word \<Rightarrow> kernel \<Rightarrow> 32 word kres" where
  "mappages_loop pd a last_a pa perm s =
     bnd (walkpgdir pd a True s) (\<lambda>pte s.
       if pte = 0 then Ok (- 1) s
       else if load32 (mem s) pte AND PTE_P \<noteq> 0 then Panic ''remap''
       else
         let s = s\<lparr>mem := store32 pte (pa OR perm OR PTE_P) (mem s)\<rparr> in
         if a = last_a then Ok 0 s
         else if last_a - a < PGSIZE then Spin
         else mappages_loop pd (a + PGSIZE) last_a (pa + PGSIZE) perm s)"
  by pat_completeness auto
termination
proof (relation "measure (\<lambda>(pd, a, l, pa, perm, s). unat (l - a))", goal_cases)
  case (2 pd a l pa perm s pte s' s'')
  then have "4096 \<le> unat (l - a)" by (simp add: word_less_nat_alt)
  then have "unat (l - a - 4096) = unat (l - a) - 4096" by (simp add: unat_sub_if')
  then show ?case using \<open>4096 \<le> unat (l - a)\<close> by (simp add: diff_diff_eq)
qed simp

declare mappages_loop.simps [simp del]

definition mappages :: "addr \<Rightarrow> addr \<Rightarrow> 32 word \<Rightarrow> addr \<Rightarrow> 32 word \<Rightarrow> kernel \<Rightarrow> 32 word kres" where
  "mappages pd va n pa perm s =
     mappages_loop pd (PGROUNDDOWN va) (PGROUNDDOWN (va + n - 1)) pa perm s"

section \<open>Freeing address spaces\<close>

text \<open>The loop variable could only wrap around for an \<open>oldsz\<close> in the last page of the address
  space, where the loop does not end; no caller passes more than \<open>KERNBASE\<close>.\<close>

function deallocuvm_loop :: "addr \<Rightarrow> addr \<Rightarrow> 32 word \<Rightarrow> kernel \<Rightarrow> unit kres" where
  "deallocuvm_loop pd a oldsz s =
     (if \<not> a < oldsz then Ok () s
      else bnd (walkpgdir pd a False s) (\<lambda>pte s.
        let a' = (if pte = 0 then PGADDR (PDX a + 1) 0 0 - PGSIZE else a) + PGSIZE in
        bnd (if pte = 0 \<or> load32 (mem s) pte AND PTE_P = 0 then Ok () s
             else let pa = PTE_ADDR (load32 (mem s) pte) in
               if pa = 0 then Panic ''kfree''
               else bnd (kfree (P2V pa) s) (\<lambda>_ s. Ok () (s\<lparr>mem := store32 pte 0 (mem s)\<rparr>)))
          (\<lambda>_ s. if a' \<le> a then Spin else deallocuvm_loop pd a' oldsz s)))"
  by pat_completeness auto
termination
proof (relation "measure (\<lambda>(pd, a, oldsz, s). 2 ^ 32 - unat a)", goal_cases)
  case (2 pd a oldsz s pte s' a' x s'')
  then have "unat a < unat a'" by (simp add: word_less_nat_alt not_le)
  then show ?case using unat_lt32[of a'] by simp
qed simp

declare deallocuvm_loop.simps [simp del]

definition deallocuvm :: "addr \<Rightarrow> 32 word \<Rightarrow> 32 word \<Rightarrow> kernel \<Rightarrow> 32 word kres" where
  "deallocuvm pd oldsz newsz s =
     (if newsz \<ge> oldsz then Ok oldsz s
      else bnd (deallocuvm_loop pd (PGROUNDUP newsz) oldsz s) (\<lambda>_ s. Ok newsz s))"

text \<open>\<open>for(i = 0; i < NPDENTRIES; i++)\<close> of \<open>freevm\<close>, over the remaining indices.\<close>

primrec freevm_tables :: "addr \<Rightarrow> nat list \<Rightarrow> kernel \<Rightarrow> unit kres" where
  "freevm_tables pd [] s = Ok () s"
| "freevm_tables pd (i # is) s =
     (let e = load32 (mem s) (pd + 4 * of_nat i) in
      bnd (if e AND PTE_P \<noteq> 0 then kfree (P2V (PTE_ADDR e)) s else Ok () s)
        (\<lambda>_ s. freevm_tables pd is s))"

definition freevm :: "addr \<Rightarrow> kernel \<Rightarrow> unit kres" where
  "freevm pd s =
     (if pd = 0 then Panic ''freevm: no pgdir''
      else bnd (deallocuvm pd KERNBASE 0 s) (\<lambda>_ s.
           bnd (freevm_tables pd [0..<1024] s) (\<lambda>_ s.
           kfree pd s)))"

section \<open>The kernel part of an address space\<close>

definition kmap :: "kernel \<Rightarrow> (addr \<times> addr \<times> addr \<times> 32 word) list" where
  "kmap s = [(KERNBASE, 0, EXTMEM, PTE_W),
             (KERNLINK, V2P KERNLINK, V2P (kdata s), 0),
             (kdata s, V2P (kdata s), PHYSTOP, PTE_W),
             (DEVSPACE, DEVSPACE, 0, PTE_W)]"

primrec setupkvm_loop ::
    "addr \<Rightarrow> (addr \<times> addr \<times> addr \<times> 32 word) list \<Rightarrow> kernel \<Rightarrow> addr kres" where
  "setupkvm_loop pd [] s = Ok pd s"
| "setupkvm_loop pd (k # ks) s =
     (case k of (virt, phys_start, phys_end, perm) \<Rightarrow>
        bnd (mappages pd virt (phys_end - phys_start) phys_start perm s) (\<lambda>r s.
          if s_lt r 0 then bnd (freevm pd s) (\<lambda>_ s. Ok 0 s)
          else setupkvm_loop pd ks s))"

definition setupkvm :: "kernel \<Rightarrow> addr kres" where
  "setupkvm s =
     bnd (kalloc s) (\<lambda>pd s.
       if pd = 0 then Ok 0 s
       else let s = s\<lparr>mem := memset pd 0 PGSIZE (mem s)\<rparr> in
         if P2V PHYSTOP > DEVSPACE then Panic ''PHYSTOP too high''
         else setupkvm_loop pd (kmap s) s)"

definition switchkvm :: "kernel \<Rightarrow> kernel" where
  "switchkvm s = s\<lparr>cr3 := V2P (kpgdir s)\<rparr>"

definition kvmalloc :: "kernel \<Rightarrow> unit kres" where
  "kvmalloc s = bnd (setupkvm s) (\<lambda>pd s. Ok () (switchkvm (s\<lparr>kpgdir := pd\<rparr>)))"

text \<open>\<open>switchuvm\<close>; \<open>None\<close> is the null process.\<close>

definition switchuvm :: "nat option \<Rightarrow> kernel \<Rightarrow> unit kres" where
  "switchuvm p s =
     (case p of None \<Rightarrow> Panic ''switchuvm: no process''
      | Some i \<Rightarrow>
        if \<not> i < length (procs s) then Fault
        else if kstack (procs s ! i) = 0 then Panic ''switchuvm: no kstack''
        else if pgdir (procs s ! i) = 0 then Panic ''switchuvm: no pgdir''
        else
          bnd (on_mach pushcli s) (\<lambda>_ s.
          bnd (on_mach mycpu s) (\<lambda>c s.
            let s = s\<lparr>mach := upd_cpu c (\<lambda>k. k\<lparr>ts_ss0 := push_bit 3 2,
                       ts_esp0 := kstack (procs s ! i) + KSTACKSIZE, ts_iomb := 0xFFFF\<rparr>) (mach s),
                     cr3 := V2P (pgdir (procs s ! i))\<rparr>
            in on_mach popcli s)))"

section \<open>User memory\<close>

text \<open>\<open>inituvm\<close>; \<open>init\<close> are the bytes of the program text.\<close>

primrec store_bytes :: "addr \<Rightarrow> byte list \<Rightarrow> memory \<Rightarrow> memory" where
  "store_bytes a [] m = m"
| "store_bytes a (b # bs) m = store_bytes (a + 1) bs (m(a := b))"

definition inituvm :: "addr \<Rightarrow> byte list \<Rightarrow> kernel \<Rightarrow> unit kres" where
  "inituvm pd init s =
     (if length init \<ge> 4096 then Panic ''inituvm: more than a page''
      else bnd (kalloc s) (\<lambda>pg s.
        let s = s\<lparr>mem := memset pg 0 PGSIZE (mem s)\<rparr> in
        bnd (mappages pd 0 PGSIZE (V2P pg) (PTE_W OR PTE_U) s) (\<lambda>_ s.
          Ok () (s\<lparr>mem := store_bytes pg init (mem s)\<rparr>))))"

function allocuvm_loop :: "addr \<Rightarrow> 32 word \<Rightarrow> 32 word \<Rightarrow> 32 word \<Rightarrow> kernel \<Rightarrow> 32 word kres" where
  "allocuvm_loop pd a oldsz newsz s =
     (if \<not> a < newsz then Ok newsz s
      else bnd (kalloc s) (\<lambda>pg s.
        if pg = 0 then
          bnd (cprintf (Some (bytes_of ''allocuvm out of memory'' @ [10])) [] s) (\<lambda>_ s.
          bnd (deallocuvm pd newsz oldsz s) (\<lambda>_ s. Ok 0 s))
        else
          let s = s\<lparr>mem := memset pg 0 PGSIZE (mem s)\<rparr> in
          bnd (mappages pd a PGSIZE (V2P pg) (PTE_W OR PTE_U) s) (\<lambda>r s.
            if s_lt r 0 then
              bnd (cprintf (Some (bytes_of ''allocuvm out of memory (2)'' @ [10])) [] s) (\<lambda>_ s.
              bnd (deallocuvm pd newsz oldsz s) (\<lambda>_ s.
              bnd (kfree pg s) (\<lambda>_ s. Ok 0 s)))
            else if a + PGSIZE \<le> a then Spin
            else allocuvm_loop pd (a + PGSIZE) oldsz newsz s)))"
  by pat_completeness auto
termination
proof (relation "measure (\<lambda>(pd, a, oldsz, newsz, s). 2 ^ 32 - unat a)", goal_cases)
  case (2 pd a oldsz newsz s pg s' r x s'')
  then have "unat a < unat (a + 4096)" by (simp add: word_less_nat_alt not_le)
  then show ?case using unat_lt32[of "a + 4096"] by simp
qed simp

declare allocuvm_loop.simps [simp del]

definition allocuvm :: "addr \<Rightarrow> 32 word \<Rightarrow> 32 word \<Rightarrow> kernel \<Rightarrow> 32 word kres" where
  "allocuvm pd oldsz newsz s =
     (if newsz \<ge> KERNBASE then Ok 0 s
      else if newsz < oldsz then Ok oldsz s
      else allocuvm_loop pd (PGROUNDUP oldsz) oldsz newsz s)"

definition clearpteu :: "addr \<Rightarrow> addr \<Rightarrow> kernel \<Rightarrow> unit kres" where
  "clearpteu pd uva s =
     bnd (walkpgdir pd uva False s) (\<lambda>pte s.
       if pte = 0 then Panic ''clearpteu''
       else Ok () (s\<lparr>mem := store32 pte (load32 (mem s) pte AND NOT PTE_U) (mem s)\<rparr>))"

function copyuvm_loop :: "addr \<Rightarrow> addr \<Rightarrow> 32 word \<Rightarrow> 32 word \<Rightarrow> kernel \<Rightarrow> addr kres" where
  "copyuvm_loop pd d i len s =
     (if \<not> i < len then Ok d s
      else bnd (walkpgdir pd i False s) (\<lambda>pte s.
        if pte = 0 then Panic ''copyuvm: pte should exist''
        else let e = load32 (mem s) pte in
        if e AND PTE_P = 0 then Panic ''copyuvm: page not present''
        else bnd (kalloc s) (\<lambda>pg s.
          if pg = 0 then bnd (freevm d s) (\<lambda>_ s. Ok 0 s)
          else
            let s = s\<lparr>mem := memmove pg (P2V (PTE_ADDR e)) PGSIZE (mem s)\<rparr> in
            bnd (mappages d i PGSIZE (V2P pg) (PTE_FLAGS e) s) (\<lambda>r s.
              if s_lt r 0 then
                bnd (kfree pg s) (\<lambda>_ s. bnd (freevm d s) (\<lambda>_ s. Ok 0 s))
              else if i + PGSIZE \<le> i then Spin
              else copyuvm_loop pd d (i + PGSIZE) len s))))"
  by pat_completeness auto
termination
proof (relation "measure (\<lambda>(pd, d, i, len, s). 2 ^ 32 - unat i)", goal_cases)
  case prems: (2 pd d i)
  then have "unat i < unat (i + 4096)" by (simp add: word_less_nat_alt not_le)
  then show ?case using unat_lt32[of "i + 4096"] by simp
qed simp

declare copyuvm_loop.simps [simp del]

definition copyuvm :: "addr \<Rightarrow> 32 word \<Rightarrow> kernel \<Rightarrow> addr kres" where
  "copyuvm pd len s =
     bnd (setupkvm s) (\<lambda>d s. if d = 0 then Ok 0 s else copyuvm_loop pd d 0 len s)"

text \<open>\<open>uva2ka\<close> does not test the pointer that \<open>walkpgdir\<close> returns: it reads the entry at address
  0, in user space, when there is no page table.\<close>

definition uva2ka :: "addr \<Rightarrow> addr \<Rightarrow> kernel \<Rightarrow> addr kres" where
  "uva2ka pd uva s =
     bnd (walkpgdir pd uva False s) (\<lambda>pte s.
       if pte = 0 then Fault
       else let e = load32 (mem s) pte in
       if e AND PTE_P = 0 then Ok 0 s
       else if e AND PTE_U = 0 then Ok 0 s
       else Ok (P2V (PTE_ADDR e)) s)"

text \<open>\<open>copyout\<close>; the source is given by its bytes.\<close>

lemma page_part: "va - PGROUNDDOWN va = take_bit 12 va"
proof -
  have "PGROUNDDOWN va = push_bit 12 (drop_bit 12 va)"
    by (simp add: PGROUNDDOWN_def and_not_4095)
  then show ?thesis using bits_ident[of 12 va] by (simp add: diff_eq_eq add.commute)
qed

lemma page_part_less: "unat (va - PGROUNDDOWN va) < 4096"
  by (simp add: page_part take_bit_eq_mod unat_mod)

function copyout :: "addr \<Rightarrow> addr \<Rightarrow> byte list \<Rightarrow> kernel \<Rightarrow> 32 word kres" where
  "copyout pd va buf s =
     (if buf = [] then Ok 0 s
      else
        let va0 = PGROUNDDOWN va in
        bnd (uva2ka pd va0 s) (\<lambda>pa0 s.
          if pa0 = 0 then Ok (- 1) s
          else
            let n = min (unat (PGSIZE - (va - va0))) (length buf);
                s = s\<lparr>mem := store_bytes (pa0 + (va - va0)) (take n buf) (mem s)\<rparr>
            in copyout pd (va0 + PGSIZE) (drop n buf) s))"
  by pat_completeness auto

termination
proof (relation "measure (\<lambda>(pd, va, buf, s). length buf)", goal_cases)
  case (2 pd va buf s)
  have "0 < unat (PGSIZE - (va - PGROUNDDOWN va))"
    using page_part_less[of va] by (simp add: unat_sub_if')
  then show ?case using 2 by simp
qed simp

declare copyout.simps [simp del]

section \<open>switchuvm\<close>

definition load_tss :: "addr \<Rightarrow> machine \<Rightarrow> machine" where
  "load_tss ks m = upd_cpu (this_cpu m) (\<lambda>k. k\<lparr>ts_ss0 := push_bit 3 2, ts_esp0 := ks, ts_iomb := 0xFFFF\<rparr>) m"

lemma switchuvm_ok:
  assumes "mach_ok (mach s)" "i < length (procs s)" "kstack (procs s ! i) \<noteq> 0" "pgdir (procs s ! i) \<noteq> 0"
  shows "switchuvm (Some i) s = Ok () (s\<lparr>mach := load_tss (kstack (procs s ! i) + KSTACKSIZE) (touch (mach s)),
            cr3 := V2P (pgdir (procs s ! i))\<rparr>)"
proof -
  have "cpu_ix (mach s) \<noteq> None" using assms by (simp add: mach_ok_def)
  then show ?thesis
    using assms by (simp add: switchuvm_def on_mach_def pushcli_ok mycpu_ok Let_def popcli_upd_push load_tss_def)
qed

end
