(* ===== verification/Proc.thy ===== *)
theory Proc
  imports Vm
begin

text \<open>
  Processes and the lottery scheduler: \<open>proc.c\<close> without the functions that need the file
  system (\<open>userinit\<close>, \<open>fork\<close>, \<open>exit\<close>, \<open>wait\<close>, \<open>growproc\<close>: theory \<open>Proc_Life\<close>).

  A context switch ends the C function that performs it as far as its caller can see: \<open>sched\<close>
  gives \<open>Slept s\<close>, with \<open>s\<close> the state the scheduler finds.  What the function does when the
  process is switched to again is a second definition (\<open>sched_back\<close>, \<open>yield_back\<close>,
  \<open>sleep_back\<close>), which takes the local variables that are live across the switch.  In the same
  way \<open>scheduler_pick\<close> is the body of the scheduler's loop up to \<open>swtch\<close>, and \<open>scheduler_back\<close>
  the rest of it.
\<close>

section \<open>Pseudo-random numbers\<close>

definition random :: "kernel \<Rightarrow> 32 word \<times> kernel" where
  "random s = (let r = (rseed s * 1103515245 + 12345) AND (push_bit 31 1 - 1) in (r, s\<lparr>rseed := r\<rparr>))"

section \<open>Allocation of a process slot\<close>

definition pinit :: "kernel \<Rightarrow> kernel" where
  "pinit s = s\<lparr>mach := initlock PtableLk ''ptable'' (mach s)\<rparr>"

text \<open>The second half of \<open>allocproc\<close>: the kernel stack of slot \<open>i\<close>, with room for the trap frame
  (76 bytes), the return address and the context (20 bytes).\<close>

definition alloc_kstack :: "nat \<Rightarrow> kernel \<Rightarrow> nat option kres" where
  "alloc_kstack i s =
     bnd (kalloc s) (\<lambda>k s.
       let s = upd_proc i (\<lambda>p. p\<lparr>kstack := k\<rparr>) s in
       if k = 0 then Ok None (upd_proc i (\<lambda>p. p\<lparr>pstate := UNUSED\<rparr>) s)
       else
         let sp = k + KSTACKSIZE - 76;
             s = upd_proc i (\<lambda>p. p\<lparr>tf := sp\<rparr>) s;
             sp = sp - 4;
             s = s\<lparr>mem := store32 sp (a_trapret s) (mem s)\<rparr>;
             sp = sp - 20;
             s = upd_proc i (\<lambda>p. p\<lparr>ctx := sp\<rparr>) s
         in Ok (Some i) (s\<lparr>ctxs := (ctxs s)(sp := kcontext0\<lparr>cx_eip := a_forkret s\<rparr>)\<rparr>))"

definition allocproc :: "kernel \<Rightarrow> nat option kres" where
  "allocproc s =
     bnd (kacquire PtableLk s) (\<lambda>_ s.
     case first_idx (\<lambda>p. pstate p = UNUSED) (procs s) of
       None \<Rightarrow> bnd (krelease PtableLk s) (\<lambda>_ s. Ok None s)
     | Some i \<Rightarrow>
         let s = upd_proc i (\<lambda>p. p\<lparr>pstate := EMBRYO, pid := nextpid s\<rparr>) s;
             s = s\<lparr>nextpid := nextpid s + 1\<rparr>
         in bnd (krelease PtableLk s) (\<lambda>_ s. alloc_kstack i s))"

section \<open>Switching\<close>

definition sched :: "kernel \<Rightarrow> unit kres" where
  "sched s =
     bnd (kmyproc s) (\<lambda>p s.
     bnd (on_mach (holding PtableLk) s) (\<lambda>h s.
       if \<not> h then Panic ''sched ptable.lock''
       else bnd (on_mach mycpu s) (\<lambda>c s.
       if ncli (cpus (mach s) ! c) \<noteq> 1 then Panic ''sched locks''
       else case p of None \<Rightarrow> Fault
       | Some i \<Rightarrow>
         if pstate (procs s ! i) = RUNNING then Panic ''sched running''
         else if if_flag (mach s) then Panic ''sched interruptible''
         else Slept s)))"

text \<open>After the switch back; \<open>ie\<close> is the local variable \<open>intena\<close>.\<close>

definition sched_back :: "bool \<Rightarrow> kernel \<Rightarrow> unit kres" where
  "sched_back ie s =
     bnd (on_mach mycpu s) (\<lambda>c s. Ok () (s\<lparr>mach := upd_cpu c (\<lambda>k. k\<lparr>intena := ie\<rparr>) (mach s)\<rparr>))"

definition yield :: "kernel \<Rightarrow> unit kres" where
  "yield s =
     bnd (kacquire PtableLk s) (\<lambda>_ s.
     bnd (curproc s) (\<lambda>i s.
     bnd (sched (upd_proc i (\<lambda>p. p\<lparr>pstate := RUNNABLE\<rparr>) s)) (\<lambda>_ s.
     krelease PtableLk s)))"

definition yield_back :: "bool \<Rightarrow> kernel \<Rightarrow> unit kres" where
  "yield_back ie s = bnd (sched_back ie s) (\<lambda>_ s. krelease PtableLk s)"

text \<open>\<open>sleep\<close>: the lock is \<open>None\<close> for a null pointer.\<close>

definition sleep_tail :: "nat \<Rightarrow> lockid \<Rightarrow> kernel \<Rightarrow> unit kres" where
  "sleep_tail i lk s =
     (let s = upd_proc i (\<lambda>p. p\<lparr>chan := None\<rparr>) s in
      if lk \<noteq> PtableLk then bnd (krelease PtableLk s) (\<lambda>_ s. kacquire lk s) else Ok () s)"

text \<open>The code of \<open>sleep\<close> up to the switch, and that of \<open>wakeup\<close>, are lists of atomic steps, so that theory \<open>Smp\<close> can interleave them with
  the steps of other processors; \<open>run_steps\<close> executes such a list on one of them.\<close>

primrec run_steps :: "(kernel \<Rightarrow> unit kres) list \<Rightarrow> kernel \<Rightarrow> unit kres" where
  "run_steps [] s = Ok () s"
| "run_steps (f # fs) s = bnd (f s) (\<lambda>_ s. run_steps fs s)"

definition sleep_steps :: "nat \<Rightarrow> chan \<Rightarrow> lockid \<Rightarrow> (kernel \<Rightarrow> unit kres) list" where
  "sleep_steps i ch lk =
     (if lk \<noteq> PtableLk then [kacquire PtableLk, krelease lk] else []) @
     [\<lambda>s. Ok () (upd_proc i (\<lambda>p. p\<lparr>chan := Some ch\<rparr>) s),
      \<lambda>s. Ok () (upd_proc i (\<lambda>p. p\<lparr>pstate := SLEEPING\<rparr>) s),
      sched]"

definition sleep :: "chan \<Rightarrow> lockid option \<Rightarrow> kernel \<Rightarrow> unit kres" where
  "sleep ch lk s =
     bnd (kmyproc s) (\<lambda>p s.
     case p of None \<Rightarrow> Panic ''sleep''
     | Some i \<Rightarrow>
     case lk of None \<Rightarrow> Panic ''sleep without lk''
     | Some lk \<Rightarrow>
       bnd (run_steps (sleep_steps i ch lk) s) (\<lambda>_ s. sleep_tail i lk s))"

definition sleep_back :: "nat \<Rightarrow> lockid \<Rightarrow> bool \<Rightarrow> kernel \<Rightarrow> unit kres" where
  "sleep_back i lk ie s = bnd (sched_back ie s) (\<lambda>_ s. sleep_tail i lk s)"

text \<open>A null channel is \<open>None\<close>: \<open>exit\<close> passes the parent pointer.\<close>

definition wakeup1 :: "chan option \<Rightarrow> kernel \<Rightarrow> kernel" where
  "wakeup1 ch s = s\<lparr>procs := map (\<lambda>p. if pstate p = SLEEPING \<and> chan p = ch
                                    then p\<lparr>pstate := RUNNABLE\<rparr> else p) (procs s)\<rparr>"

definition wakeup_steps :: "chan \<Rightarrow> (kernel \<Rightarrow> unit kres) list" where
  "wakeup_steps ch = [kacquire PtableLk, \<lambda>s. Ok () (wakeup1 (Some ch) s), krelease PtableLk]"

definition wakeup :: "chan \<Rightarrow> kernel \<Rightarrow> unit kres" where
  "wakeup ch s = run_steps (wakeup_steps ch) s"

lemma wakeup_alt: "wakeup ch s = bnd (kacquire PtableLk s) (\<lambda>_ s. krelease PtableLk (wakeup1 (Some ch) s))"
  by (simp add: wakeup_def wakeup_steps_def bnd_Ok_right)

definition kill :: "32 word \<Rightarrow> kernel \<Rightarrow> 32 word kres" where
  "kill pd s =
     bnd (kacquire PtableLk s) (\<lambda>_ s.
     case first_idx (\<lambda>p. pid p = pd) (procs s) of
       Some i \<Rightarrow>
         let s = upd_proc i (\<lambda>p. p\<lparr>killed := True\<rparr>) s;
             s = (if pstate (procs s ! i) = SLEEPING
                  then upd_proc i (\<lambda>p. p\<lparr>pstate := RUNNABLE\<rparr>) s else s)
         in bnd (krelease PtableLk s) (\<lambda>_ s. Ok 0 s)
     | None \<Rightarrow> bnd (krelease PtableLk s) (\<lambda>_ s. Ok (- 1) s))"

section \<open>The scheduler\<close>

primrec total_tickets :: "proc list \<Rightarrow> 32 word \<Rightarrow> 32 word" where
  "total_tickets [] t = t"
| "total_tickets (p # ps) t = (if pstate p \<noteq> RUNNABLE then total_tickets ps t
                               else total_tickets ps (t + tickets p))"

text \<open>The second scan: the offset of the first process at which the running count exceeds the
  winner; \<open>length ps\<close>, a pointer past the table, if there is none.\<close>

primrec draw :: "32 word \<Rightarrow> proc list \<Rightarrow> 32 word \<Rightarrow> nat" where
  "draw winner [] counter = 0"
| "draw winner (p # ps) counter =
     (if pstate p \<noteq> RUNNABLE then Suc (draw winner ps counter)
      else let counter = counter + tickets p in
           if s_lt winner counter then 0 else Suc (draw winner ps counter))"

definition set_cpu_proc :: "nat option \<Rightarrow> nat \<Rightarrow> kernel \<Rightarrow> kernel" where
  "set_cpu_proc p c s = s\<lparr>mach := upd_cpu c (\<lambda>k. k\<lparr>cpu_proc := p\<rparr>) (mach s)\<rparr>"

text \<open>\<open>scheduler\<close> before its loop.\<close>

definition scheduler_enter :: "kernel \<Rightarrow> nat kres" where
  "scheduler_enter s = bnd (on_mach mycpu s) (\<lambda>c s. Ok c (set_cpu_proc None c s))"

text \<open>One round up to \<open>swtch\<close> on CPU \<open>c\<close>: \<open>None\<close> when there is nothing to run (the lock has been
  released), \<open>Some i\<close> when CPU \<open>c\<close> switches to process \<open>i\<close>, holding \<open>ptable.lock\<close>.  A draw that
  falls past the table is a wild pointer.\<close>

definition scheduler_pick :: "nat \<Rightarrow> kernel \<Rightarrow> nat option kres" where
  "scheduler_pick c s =
     (let s = s\<lparr>mach := sti (mach s)\<rparr> in
      bnd (kacquire PtableLk s) (\<lambda>_ s.
        let total = total_tickets (procs s) 0 in
        if s_le total 0 then bnd (krelease PtableLk s) (\<lambda>_ s. Ok None s)
        else
          let (r, s) = random s;
              winner = r mod total;
              i = draw winner (procs s) 0
          in if i \<ge> length (procs s) then Fault
             else let s = set_cpu_proc (Some i) c s in
               bnd (switchuvm (Some i) s) (\<lambda>_ s.
               Ok (Some i) (upd_proc i (\<lambda>p. p\<lparr>pstate := RUNNING\<rparr>) s))))"

definition scheduler_back :: "nat \<Rightarrow> nat \<Rightarrow> kernel \<Rightarrow> unit kres" where
  "scheduler_back c i s =
     (let s = switchkvm s;
          s = set_cpu_proc None c s;
          s = upd_proc i (\<lambda>p. p\<lparr>pticks := pticks p + 1\<rparr>) s
      in krelease PtableLk s)"

section \<open>Tickets and process information\<close>

definition setTicket :: "32 word \<Rightarrow> 32 word \<Rightarrow> kernel \<Rightarrow> 32 word \<times> kernel" where
  "setTicket pd n s =
     (case first_idx (\<lambda>p. pid p = pd) (procs s) of
        Some i \<Rightarrow> (0, upd_proc i (\<lambda>p. p\<lparr>tickets := n\<rparr>) s)
      | None \<Rightarrow> (- 1, s))"

record pstat =
  ps_inuse :: "32 word"
  ps_tickets :: "32 word"
  ps_pid :: "32 word"
  ps_ticks :: "32 word"
  ps_name :: "byte list"
  ps_state :: byte

definition state_letter :: "procstate \<Rightarrow> byte" where
  "state_letter st = (case st of UNUSED \<Rightarrow> of_char CHR ''U'' | EMBRYO \<Rightarrow> of_char CHR ''E''
     | SLEEPING \<Rightarrow> of_char CHR ''S'' | RUNNABLE \<Rightarrow> of_char CHR ''A'' | RUNNING \<Rightarrow> of_char CHR ''R''
     | ZOMBIE \<Rightarrow> of_char CHR ''Z'')"

text \<open>One entry of the table, given what it held before.\<close>

definition fill_entry :: "proc \<Rightarrow> pstat \<Rightarrow> pstat" where
  "fill_entry p e =
     (if pstate p = UNUSED then e\<lparr>ps_inuse := 0\<rparr>
      else e\<lparr>ps_inuse := 1, ps_tickets := tickets p, ps_pid := pid p, ps_ticks := pticks p,
             ps_name := over (ps_name e) (safestrcpy (seq_of (pname p)) 16),
             ps_state := state_letter (pstate p)\<rparr>)"

definition fillpstat :: "pstat list \<Rightarrow> kernel \<Rightarrow> pstat list" where
  "fillpstat tab s = map2 fill_entry (procs s) tab"

definition state_name :: "procstate \<Rightarrow> byte list" where
  "state_name st = bytes_of (case st of UNUSED \<Rightarrow> ''unused'' | EMBRYO \<Rightarrow> ''embryo''
     | SLEEPING \<Rightarrow> ''sleep '' | RUNNABLE \<Rightarrow> ''runble'' | RUNNING \<Rightarrow> ''run   '' | ZOMBIE \<Rightarrow> ''zombie'')"

text \<open>\<open>getcallerpcs\<close> of spinlock.c follows at most ten saved frame pointers, \<open>v\<close> being the
  address of the first argument.\<close>

primrec callerpcs :: "memory \<Rightarrow> nat \<Rightarrow> addr \<Rightarrow> 32 word list" where
  "callerpcs m 0 ebp = []"
| "callerpcs m (Suc n) ebp =
     (if ebp = 0 \<or> ebp < KERNBASE \<or> ebp = 0xFFFFFFFF then replicate (Suc n) 0
      else load32 m (ebp + 4) # callerpcs m n (load32 m ebp))"

definition getcallerpcs :: "addr \<Rightarrow> kernel \<Rightarrow> 32 word list" where
  "getcallerpcs v s = callerpcs (mem s) 10 (v - 8)"

primrec print_pcs :: "32 word list \<Rightarrow> kernel \<Rightarrow> unit kres" where
  "print_pcs [] s = Ok () s"
| "print_pcs (pc # pcs) s =
     (if pc = 0 then Ok () s
      else bnd (cprintf (Some (bytes_of '' %p'')) [PInt pc] s) (\<lambda>_ s. print_pcs pcs s))"

primrec procdump_loop :: "proc list \<Rightarrow> kernel \<Rightarrow> unit kres" where
  "procdump_loop [] s = Ok () s"
| "procdump_loop (p # ps) s =
     (if pstate p = UNUSED then procdump_loop ps s
      else if 0 \<notin> set (pname p) then Fault
      else
        bnd (cprintf (Some (bytes_of ''%d %s %s''))
               [PInt (pid p), PStr (state_name (pstate p)), PStr (takeWhile (\<lambda>b. b \<noteq> 0) (pname p))] s) (\<lambda>_ s.
        bnd (if pstate p = SLEEPING
             then print_pcs (getcallerpcs (cx_ebp (ctxs s (ctx p)) + 8) s) s else Ok () s) (\<lambda>_ s.
        bnd (cprintf (Some [10]) [] s) (\<lambda>_ s. procdump_loop ps s))))"

definition procdump :: "kernel \<Rightarrow> unit kres" where
  "procdump s = procdump_loop (procs s) s"

section \<open>The context switch protocol\<close>

lemma sched_ok:
  assumes "mach s = hold PtableLk m" "mach_ok m" "ncli (curcpu m) = 0" "running s = Some i"
    "pstate (procs s ! i) \<noteq> RUNNING"
  shows "sched s = Slept s"
proof -
  have "cpu_ix m \<noteq> None" using assms(2) by (simp add: mach_ok_def)
  moreover have "s\<lparr>mach := mach s\<rparr> = s" by simp
  ultimately show ?thesis
    using assms by (simp add: sched_def kmyproc_ok on_mach_def holding_ok mycpu_ok running_def)
qed

text \<open>What \<open>sched\<close> rejects: a process that still runs, or that holds another lock.\<close>

lemma sched_other_lock:
  assumes "mach s = hold PtableLk m" "mach_ok m" "ncli (curcpu m) \<noteq> 0"
  shows "sched s = Panic ''sched locks''"
proof -
  have "cpu_ix m \<noteq> None" using assms(2) by (simp add: mach_ok_def)
  then show ?thesis
    using assms by (simp add: sched_def kmyproc_ok on_mach_def holding_ok mycpu_ok)
qed

lemma yield_ok:
  assumes "mach_ok (mach s)" "ncli (curcpu (mach s)) = 0" "lk_free PtableLk (mach s)"
    "running s = Some i" "i < length (procs s)"
  shows "yield s = Slept (upd_proc i (\<lambda>p. p\<lparr>pstate := RUNNABLE\<rparr>) (s\<lparr>mach := hold PtableLk (mach s)\<rparr>))"
proof -
  have "curproc (s\<lparr>mach := hold PtableLk (mach s)\<rparr>) = Ok i (s\<lparr>mach := hold PtableLk (mach s)\<rparr>)"
    using assms curproc_ok[of "s\<lparr>mach := hold PtableLk (mach s)\<rparr>" i] by simp
  moreover have "sched (upd_proc i (\<lambda>p. p\<lparr>pstate := RUNNABLE\<rparr>) (s\<lparr>mach := hold PtableLk (mach s)\<rparr>)) =
      Slept (upd_proc i (\<lambda>p. p\<lparr>pstate := RUNNABLE\<rparr>) (s\<lparr>mach := hold PtableLk (mach s)\<rparr>))"
    using assms by (intro sched_ok[where m = "mach s" and i = i]) (simp_all add: upd_proc_def running_def)
  ultimately show ?thesis using assms by (simp add: yield_def kacquire_ok)
qed

lemma scheduler_back_ok:
  assumes "mach s = hold PtableLk m" "mach_ok m" "lk_free PtableLk m"
  shows "scheduler_back (this_cpu m) i s = Ok () (upd_proc i (\<lambda>p. p\<lparr>pticks := pticks p + 1\<rparr>)
     (s\<lparr>cr3 := V2P (kpgdir s), mach := touch (upd_cpu (this_cpu m) (\<lambda>k. k\<lparr>cpu_proc := None\<rparr>) m)\<rparr>))"
proof -
  let ?m = "upd_cpu (this_cpu m) (\<lambda>k. k\<lparr>cpu_proc := None\<rparr>) m"
  have h: "upd_cpu (this_cpu m) (\<lambda>k. k\<lparr>cpu_proc := None\<rparr>) (mach s) = hold PtableLk ?m"
    using assms by (simp add: hold_upd_cpu)
  let ?t = "upd_proc i (\<lambda>p. p\<lparr>pticks := pticks p + 1\<rparr>) (s\<lparr>cr3 := V2P (kpgdir s), mach := hold PtableLk ?m\<rparr>)"
  have "krelease PtableLk ?t = Ok () (?t\<lparr>mach := touch ?m\<rparr>)"
    using assms(2,3) by (intro krelease_ok) simp_all
  then show ?thesis
    using h by (simp add: scheduler_back_def Let_def set_cpu_proc_def upd_proc_def switchkvm_def)
qed

text \<open>\<open>yield\<close> hands \<open>ptable.lock\<close> over to the scheduler: the process switches away holding the
  lock, and the scheduler, continuing after its \<open>swtch\<close>, releases it.  Afterwards the process is
  \<open>RUNNABLE\<close> with one more tick, no other slot has changed, the CPU runs no process and has the
  kernel page table, the lock is free, and nesting depth and interrupt flag are as before.\<close>

theorem yield_hand_over:
  assumes "mach_ok (mach s)" "ncli (curcpu (mach s)) = 0" "lk_free PtableLk (mach s)"
    "running s = Some i" "i < length (procs s)"
  shows "\<exists>s1 s2. yield s = Slept s1 \<and> scheduler_back (this_cpu (mach s)) i s1 = Ok () s2
     \<and> procs s2 = (procs s)[i := (procs s ! i)\<lparr>pstate := RUNNABLE, pticks := pticks (procs s ! i) + 1\<rparr>]
     \<and> running s2 = None \<and> cr3 s2 = V2P (kpgdir s)
     \<and> mach_ok (mach s2) \<and> ncli (curcpu (mach s2)) = 0 \<and> lk_free PtableLk (mach s2)
     \<and> if_flag (mach s2) = if_flag (mach s)"
  using yield_ok[OF assms] assms mach_ok_lt[OF assms(1)]
    scheduler_back_ok[of "upd_proc i (\<lambda>p. p\<lparr>pstate := RUNNABLE\<rparr>) (s\<lparr>mach := hold PtableLk (mach s)\<rparr>)" "mach s" i]
  by (simp add: upd_proc_def running_def touch_upd_cpu)

lemma sleep_ok:
  assumes "mach s = hold L m" "mach_ok m" "ncli (curcpu m) = 0" "lk_free L m" "lk_free PtableLk m"
    "running s = Some i" "i < length (procs s)"
  shows "sleep ch (Some L) s =
     Slept (upd_proc i (\<lambda>p. p\<lparr>chan := Some ch, pstate := SLEEPING\<rparr>) (s\<lparr>mach := hold PtableLk m\<rparr>))"
proof -
  let ?f = "\<lambda>p. p\<lparr>chan := Some ch, pstate := SLEEPING\<rparr>"
  have two: "upd_proc i (\<lambda>p. p\<lparr>pstate := SLEEPING\<rparr>) (upd_proc i (\<lambda>p. p\<lparr>chan := Some ch\<rparr>) t) = upd_proc i ?f t" for t
    by (cases "i < length (procs t)") (simp_all add: upd_proc_def list_update_beyond)
  have my: "kmyproc s = Ok (Some i) s"
    using assms by (simp add: kmyproc_ok running_def)
  have run: "running (s\<lparr>mach := hold PtableLk m\<rparr>) = Some i"
    using assms by (simp add: running_def)
  then have sc: "sched (upd_proc i ?f (s\<lparr>mach := hold PtableLk m\<rparr>)) = Slept (upd_proc i ?f (s\<lparr>mach := hold PtableLk m\<rparr>))"
    using assms by (intro sched_ok[where m = m and i = i]) (simp_all add: upd_proc_def running_def)
  show ?thesis
  proof (cases "L = PtableLk")
    case True
    then have "s = s\<lparr>mach := hold PtableLk m\<rparr>" using assms(1) by simp
    then show ?thesis using sc my True by (simp add: sleep_def sleep_steps_def two)
  next
    case False
    have "kacquire PtableLk s = Ok () (s\<lparr>mach := hold L (hold PtableLk m)\<rparr>)"
      using assms False hold_commute[of m L PtableLk] by (simp add: kacquire_ok)
    moreover have "krelease L (s\<lparr>mach := hold L (hold PtableLk m)\<rparr>) = Ok () (s\<lparr>mach := hold PtableLk m\<rparr>)"
      using krelease_ok[of "s\<lparr>mach := hold L (hold PtableLk m)\<rparr>" L "hold PtableLk m"] assms False by simp
    ultimately show ?thesis using sc my False by (simp add: sleep_def sleep_steps_def two)
  qed
qed

lemma sched_back_ok:
  assumes "mach s = hold PtableLk m" "mach_ok m" "ncli (curcpu m) = 0"
  shows "sched_back b s = Ok () (s\<lparr>mach := hold PtableLk (m\<lparr>if_flag := b\<rparr>)\<rparr>)"
proof -
  have "cpu_ix m \<noteq> None" using assms(2) by (simp add: mach_ok_def)
  then show ?thesis using assms by (simp add: sched_back_def on_mach_def mycpu_ok hold_set_intena)
qed

lemma yield_back_ok:
  assumes "mach s = hold PtableLk m" "mach_ok m" "ncli (curcpu m) = 0" "lk_free PtableLk m"
  shows "yield_back b s = Ok () (s\<lparr>mach := touch (m\<lparr>if_flag := b\<rparr>)\<rparr>)"
  using assms krelease_ok[of "s\<lparr>mach := hold PtableLk (m\<lparr>if_flag := b\<rparr>)\<rparr>" PtableLk "m\<lparr>if_flag := b\<rparr>"]
  by (simp add: yield_back_def sched_back_ok mach_ok_flag)

lemma sleep_back_ok:
  assumes "mach s = hold PtableLk m" "mach_ok m" "ncli (curcpu m) = 0" "lk_free PtableLk m" "lk_free L m"
  shows "sleep_back i L b s = Ok () (upd_proc i (\<lambda>p. p\<lparr>chan := None\<rparr>) (s\<lparr>mach := hold L (m\<lparr>if_flag := b\<rparr>)\<rparr>))"
proof (cases "L = PtableLk")
  case True
  then show ?thesis using assms by (simp add: sleep_back_def sched_back_ok sleep_tail_def)
next
  case False
  let ?t = "upd_proc i (\<lambda>p. p\<lparr>chan := None\<rparr>) (s\<lparr>mach := hold PtableLk (m\<lparr>if_flag := b\<rparr>)\<rparr>)"
  have "krelease PtableLk ?t = Ok () (?t\<lparr>mach := touch (m\<lparr>if_flag := b\<rparr>)\<rparr>)"
    using assms by (intro krelease_ok) (simp_all add: mach_ok_flag)
  then show ?thesis using False assms mach_ok_flag[OF assms(2,3), of b]
    by (simp add: sleep_back_def sched_back_ok sleep_tail_def Let_def kacquire_ok upd_proc_def)
qed

text \<open>The whole course on one processor: \<open>sleep\<close>, the scheduler, then a \<open>wakeup\<close>.  That no \<open>wakeup\<close> of another processor is lost is shown
  in theory \<open>Smp\<close>.\<close>

lemma sleep_then_wakeup:
  assumes "mach s = hold L m" "mach_ok m" "ncli (curcpu m) = 0" "lk_free L m" "lk_free PtableLk m"
    "running s = Some i" "i < length (procs s)"
  shows "\<exists>s1 s2 s3. sleep ch (Some L) s = Slept s1
     \<and> scheduler_back (this_cpu m) i s1 = Ok () s2
     \<and> pstate (procs s2 ! i) = SLEEPING \<and> chan (procs s2 ! i) = Some ch
     \<and> lk_free L (mach s2) \<and> lk_free PtableLk (mach s2)
     \<and> wakeup ch s2 = Ok () s3 \<and> pstate (procs s3 ! i) = RUNNABLE \<and> chan (procs s3 ! i) = Some ch"
proof -
  let ?s1 = "upd_proc i (\<lambda>p. p\<lparr>chan := Some ch, pstate := SLEEPING\<rparr>) (s\<lparr>mach := hold PtableLk m\<rparr>)"
  obtain s2 where s2: "scheduler_back (this_cpu m) i ?s1 = Ok () s2"
    and p2: "s2 = upd_proc i (\<lambda>p. p\<lparr>pticks := pticks p + 1\<rparr>)
     (?s1\<lparr>cr3 := V2P (kpgdir ?s1), mach := touch (upd_cpu (this_cpu m) (\<lambda>k. k\<lparr>cpu_proc := None\<rparr>) m)\<rparr>)"
    using scheduler_back_ok[of ?s1 m i] assms by simp
  have m2: "mach_ok (mach s2)" "lk_free PtableLk (mach s2)" "lk_free L (mach s2)"
    using assms by (simp_all add: p2)
  have "krelease PtableLk (wakeup1 (Some ch) (s2\<lparr>mach := hold PtableLk (mach s2)\<rparr>)) =
      Ok () (wakeup1 (Some ch) (s2\<lparr>mach := touch (mach s2)\<rparr>))"
    using krelease_ok[of "wakeup1 (Some ch) (s2\<lparr>mach := hold PtableLk (mach s2)\<rparr>)" PtableLk "mach s2"] m2
    by (simp add: wakeup1_def)
  then have s3: "wakeup ch s2 = Ok () (wakeup1 (Some ch) (s2\<lparr>mach := touch (mach s2)\<rparr>))"
    using m2 by (simp add: wakeup_alt kacquire_ok)
  have q: "i < length (procs s2)" "pstate (procs s2 ! i) = SLEEPING" "chan (procs s2 ! i) = Some ch"
    using assms(7) by (simp_all add: p2 upd_proc_def)
  then show ?thesis
    using sleep_ok[OF assms] s2 m2 s3 by (auto simp: wakeup1_def)
qed

text \<open>One process that runs on the boot CPU, in kernel mode with interrupts on.\<close>

definition one_running :: kernel where
  "one_running = boot_kernel\<lparr>procs := proc0\<lparr>pstate := RUNNING, pid := 1\<rparr> # replicate 63 proc0,
     mach := machine0\<lparr>cpus := [cpu0\<lparr>cpu_proc := Some 0\<rparr>], if_flag := True\<rparr>\<rparr>"

lemma one_running_simps [simp]:
  "mach_ok (mach one_running)" "ncli (cpus (mach one_running) ! 0) = 0" "lk_free L (mach one_running)"
  "running one_running = Some 0" "length (procs one_running) = 64" "this_cpu (mach one_running) = 0"
  by (simp_all add: one_running_def machine0_def cpu0_def mach_ok_def cpu_ix_def this_cpu_def lk_free_def
      running_def)

theorem yield_hand_over_witness:
  "\<exists>s1 s2. yield one_running = Slept s1 \<and> scheduler_back 0 0 s1 = Ok () s2 \<and> lk_free PtableLk (mach s2)
     \<and> pstate (procs s2 ! 0) = RUNNABLE"
  using yield_hand_over[of one_running 0] by auto

lemma sleep_then_wakeup_demo:
  "\<exists>s1 s2 s3. sleep ChTicks (Some TicksLk) (one_running\<lparr>mach := hold TicksLk (mach one_running)\<rparr>) = Slept s1
     \<and> scheduler_back 0 0 s1 = Ok () s2 \<and> wakeup ChTicks s2 = Ok () s3 \<and> pstate (procs s3 ! 0) = RUNNABLE"
  using sleep_then_wakeup[of "one_running\<lparr>mach := hold TicksLk (mach one_running)\<rparr>" TicksLk "mach one_running" 0 ChTicks]
  by auto

end
