(* ===== verification/Lottery.thy ===== *)
theory Lottery
  imports Proc
begin

text \<open>
  The lottery scheduler of \<open>proc.c\<close> is fair.  \<open>share p\<close> is the number of tickets a process
  takes part with, \<open>stake\<close> their sum.  A draw selects process \<open>i\<close> for exactly \<open>share\<close> of the
  ticket numbers; the generator \<open>random\<close> runs through all values below \<open>2^31\<close> before it
  repeats one (the multiplier is 1 modulo 4 and the increment is odd); so over one period
  each runnable process wins in proportion to its tickets.  All of this holds as long as the
  tickets of the runnable processes sum to less than \<open>2^31\<close>; the last section shows what
  happens otherwise.
\<close>

section \<open>One draw\<close>

definition share :: "proc \<Rightarrow> nat" where
  "share p = (if pstate p = RUNNABLE then unat (tickets p) else 0)"

definition stake :: "proc list \<Rightarrow> nat" where
  "stake ps = sum_list (map share ps)"

lemma stake_simps [simp]: "stake [] = 0" "stake (p # ps) = share p + stake ps"
  by (simp_all add: stake_def)

lemma unat_add_small:
  "unat (a :: 32 word) + unat b < 2 ^ 31 \<Longrightarrow> unat (a + b) = unat a + unat b"
  by (simp add: unat_word_ariths)

lemma total_tickets_stake:
  "unat t + stake ps < 2 ^ 31 \<Longrightarrow> unat (total_tickets ps t) = unat t + stake ps"
proof (induction ps arbitrary: t)
  case (Cons p ps)
  show ?case
  proof (cases "pstate p = RUNNABLE")
    case True
    then have "unat (t + tickets p) = unat t + unat (tickets p)"
      using Cons.prems by (intro unat_add_small) (simp add: share_def)
    then show ?thesis using True Cons.IH[of "t + tickets p"] Cons.prems by (simp add: share_def)
  qed (use Cons in \<open>simp add: share_def\<close>)
qed simp

lemma sint_neg: "2 ^ 31 \<le> unat (x :: 32 word) \<Longrightarrow> sint x < 0"
proof -
  assume "2 ^ 31 \<le> unat x"
  then have "unat x div 2 ^ 31 = 1" using unat_lt32[of x] by (intro div_nat_eqI) simp_all
  then have "bit (unat x) 31" by (simp add: bit_iff_odd)
  then have "bit x (LENGTH(32) - Suc 0)" by (simp add: bit_unsigned_iff)
  then show ?thesis by (simp only: bit_last_iff)
qed

lemma s_lt_unat: "unat a < 2 ^ 31 \<Longrightarrow> unat b < 2 ^ 31 \<Longrightarrow> s_lt a b \<longleftrightarrow> unat a < unat b"
  by (simp only: s_lt_def sint_eq_unat of_nat_less_iff)

lemma draw_interval:
  "unat c \<le> unat w \<Longrightarrow> unat w < unat c + stake ps \<Longrightarrow> unat c + stake ps < 2 ^ 31 \<Longrightarrow>
   draw w ps c < length ps \<and> pstate (ps ! draw w ps c) = RUNNABLE \<and>
   unat c + stake (take (draw w ps c) ps) \<le> unat w \<and>
   unat w < unat c + stake (take (Suc (draw w ps c)) ps)"
proof (induction ps arbitrary: c)
  case (Cons p ps)
  have u: "unat (c + tickets p) = unat c + unat (tickets p)" if "pstate p = RUNNABLE"
    using that Cons.prems by (intro unat_add_small) (simp add: share_def)
  have lt: "s_lt w (c + tickets p) \<longleftrightarrow> unat w < unat c + unat (tickets p)" if "pstate p = RUNNABLE"
    using that u Cons.prems by (subst s_lt_unat) (simp_all add: share_def)
  consider (skip) "pstate p \<noteq> RUNNABLE"
    | (hit) "pstate p = RUNNABLE" "unat w < unat c + unat (tickets p)"
    | (miss) "pstate p = RUNNABLE" "unat c + unat (tickets p) \<le> unat w" by linarith
  then show ?case
  proof cases
    case skip
    then show ?thesis using Cons.IH[of c] Cons.prems by (simp add: share_def)
  next
    case hit
    then show ?thesis using lt Cons.prems by (simp add: share_def Let_def)
  next
    case miss
    then show ?thesis using lt u Cons.IH[of "c + tickets p"] Cons.prems by (simp add: share_def Let_def)
  qed
qed simp

lemma stake_take_mono: "i \<le> j \<Longrightarrow> stake (take i ps) \<le> stake (take j ps)"
  using take_add[of i "j - i" ps] by (simp add: stake_def)

lemma stake_take_Suc: "i < length ps \<Longrightarrow> stake (take (Suc i) ps) = stake (take i ps) + share (ps ! i)"
  by (simp add: stake_def take_Suc_conv_app_nth)

lemma draw_iff:
  assumes "unat w < stake ps" "stake ps < 2 ^ 31" "i < length ps"
  shows "draw w ps 0 = i \<longleftrightarrow> stake (take i ps) \<le> unat w \<and> unat w < stake (take i ps) + share (ps ! i)"
proof -
  let ?j = "draw w ps 0"
  have j: "?j < length ps" "stake (take ?j ps) \<le> unat w" "unat w < stake (take (Suc ?j) ps)"
    using draw_interval[of 0 w ps] assms by simp_all
  have i: "stake (take i ps) + share (ps ! i) = stake (take (Suc i) ps)"
    using stake_take_Suc[OF assms(3)] by simp
  show ?thesis
  proof
    assume "?j = i" then show "stake (take i ps) \<le> unat w \<and> unat w < stake (take i ps) + share (ps ! i)"
      using j i by simp
  next
    assume a: "stake (take i ps) \<le> unat w \<and> unat w < stake (take i ps) + share (ps ! i)"
    show "?j = i"
    proof (rule ccontr)
      assume "?j \<noteq> i"
      then consider "Suc ?j \<le> i" | "Suc i \<le> ?j" by linarith
      then show False
      proof cases
        case 1 then show False using stake_take_mono[OF 1, of ps] j a by simp
      next
        case 2 then show False using stake_take_mono[OF 2, of ps] j a i by simp
      qed
    qed
  qed
qed

lemma draw_set:
  assumes "stake ps < 2 ^ 31" "i < length ps"
  shows "{w. w < stake ps \<and> draw (of_nat w) ps 0 = i} = {stake (take i ps)..<stake (take i ps) + share (ps ! i)}"
proof -
  have le: "stake (take i ps) + share (ps ! i) \<le> stake ps"
    using stake_take_Suc[OF assms(2)] stake_take_mono[of "Suc i" "length ps" ps] assms(2) by simp
  have "draw (of_nat w) ps 0 = i \<longleftrightarrow> stake (take i ps) \<le> w \<and> w < stake (take i ps) + share (ps ! i)"
    if "w < stake ps" for w
  proof -
    have "unat (of_nat w :: 32 word) = w" using that assms(1) by (intro unat_of_nat32) simp
    then show ?thesis using draw_iff[of "of_nat w" ps i] that assms by simp
  qed
  then have "{w. w < stake ps \<and> draw (of_nat w) ps 0 = i} =
      {w. w < stake ps \<and> stake (take i ps) \<le> w \<and> w < stake (take i ps) + share (ps ! i)}"
    by (intro Collect_cong conj_cong) simp_all
  also have "\<dots> = {stake (take i ps)..<stake (take i ps) + share (ps ! i)}" using le by auto
  finally show ?thesis .
qed

text \<open>The second scan of \<open>scheduler\<close> is a lottery: of the ticket numbers
  below \<open>totalTickets\<close>, the number of those for which process \<open>i\<close> is selected is its number
  of tickets if it is runnable, and zero otherwise.\<close>

theorem lottery_share:
  assumes "stake ps < 2 ^ 31" "i < length ps"
  shows "card {w. w < unat (total_tickets ps 0) \<and> draw (of_nat w) ps 0 = i} = share (ps ! i)"
  using total_tickets_stake[of 0 ps] assms draw_set[OF assms] by simp

section \<open>The generator\<close>

text \<open>Partial sums of the powers of the multiplier.\<close>

definition gsum :: "nat \<Rightarrow> nat \<Rightarrow> nat" where
  "gsum a n = (\<Sum>i<n. a ^ i)"

lemma gsum_double: "gsum a (2 * n) = gsum a n * (1 + a ^ n)"
proof -
  have "gsum a (2 * n) = (\<Sum>i<n. a ^ i) + (\<Sum>i = n..<n + n. a ^ i)"
    by (simp add: gsum_def mult_2 lessThan_atLeast0 sum.atLeastLessThan_concat)
  also have "(\<Sum>i = n..<n + n. a ^ i) = (\<Sum>i<n. a ^ (i + n))"
    using sum.shift_bounds_nat_ivl[of "\<lambda>i. a ^ i" 0 n n] by (simp add: lessThan_atLeast0)
  also have "\<dots> = a ^ n * (\<Sum>i<n. a ^ i)" by (simp add: power_add sum_distrib_left mult.commute)
  finally show ?thesis by (simp add: gsum_def algebra_simps)
qed

lemma gsum_rec: "gsum a (Suc n) = 1 + a * gsum a n"
  by (simp add: gsum_def sum.lessThan_Suc_shift sum_distrib_left del: sum.lessThan_Suc)

lemma gsum_odd: "odd a \<Longrightarrow> odd (gsum a n) = odd n"
  by (induction n) (auto simp: gsum_def)

lemma one_plus_power: "a mod 4 = 1 \<Longrightarrow> \<exists>k. 1 + a ^ n = 2 * (2 * k + 1)" for a :: nat
proof -
  assume "a mod 4 = 1"
  then have "a ^ n mod 4 = 1" by (metis power_mod power_one mod_less one_less_numeral_iff semiring_norm(76) numeral_One mod_mod_trivial)
  then have "1 + a ^ n = 2 * (2 * (a ^ n div 4) + 1)" using div_mult_mod_eq[of "a ^ n" 4] by simp
  then show ?thesis ..
qed

lemma gsum_dvd:
  assumes "a mod 4 = 1"
  shows "2 ^ k dvd gsum a n \<longleftrightarrow> 2 ^ k dvd n"
proof (induction k arbitrary: n)
  case (Suc k)
  have "odd a" using assms by presburger
  show ?case
  proof (cases "even n")
    case True
    then obtain m where n: "n = 2 * m" by (elim evenE)
    obtain j where j: "1 + a ^ m = 2 * (2 * j + 1)" using one_plus_power[OF assms] by blast
    have g: "gsum a n = 2 * (gsum a m * (2 * j + 1))"
      unfolding n gsum_double j by (simp add: algebra_simps)
    have "coprime (2 ^ k) (2 * j + 1)" by simp
    then have "2 ^ k dvd gsum a m * (2 * j + 1) \<longleftrightarrow> 2 ^ k dvd gsum a m"
      by (rule coprime_dvd_mult_left_iff)
    moreover have "2 ^ Suc k dvd gsum a n \<longleftrightarrow> 2 ^ k dvd gsum a m * (2 * j + 1)"
      unfolding g power_Suc by (rule nat_mult_dvd_cancel1) simp
    ultimately show ?thesis using Suc.IH[of m] by (simp add: n)
  next
    case False
    then have "odd (gsum a n)" using gsum_odd[OF \<open>odd a\<close>] by simp
    then show ?thesis using False by (auto dest: dvd_mult_left)
  qed
qed simp


text \<open>The seed after \<open>n\<close> calls of \<open>random\<close>.\<close>

definition seed_after :: "nat \<Rightarrow> kernel \<Rightarrow> 32 word" where
  "seed_after n s = rseed (((\<lambda>s. snd (random s)) ^^ n) s)"

lemma random_fst: "fst (random s) = rseed (snd (random s))"
  by (simp add: random_def Let_def)

lemma random_unat: "unat (fst (random s)) = (unat (rseed s) * 1103515245 + 12345) mod 2 ^ 31"
proof -
  have "push_bit 31 1 - 1 = (mask 31 :: 32 word)" by (simp add: mask_eq_exp_minus_1)
  then have "fst (random s) = take_bit 31 (rseed s * 1103515245 + 12345)"
    by (simp add: random_def Let_def take_bit_eq_mask)
  also have "unat \<dots> = unat (rseed s * 1103515245 + 12345) mod 2 ^ 31"
    by (simp add: take_bit_eq_mod unat_mod)
  also have "\<dots> = (unat (rseed s) * 1103515245 + 12345) mod 2 ^ 31"
    by (simp add: unat_word_ariths mod_mod_cancel mod_simps)
  finally show ?thesis .
qed

text \<open>A linear congruential sequence in closed form, and when two of its elements agree.\<close>

lemma lcg_closed:
  fixes x :: "nat \<Rightarrow> nat"
  assumes "\<And>n. x (Suc n) mod M = (x n * a + c) mod M"
  shows "x n mod M = (a ^ n * x 0 + c * gsum a n) mod M"
proof (induction n)
  case 0
  then show ?case by (simp add: gsum_def)
next
  case (Suc n)
  have "x (Suc n) mod M = ((x n mod M) * a + c) mod M"
    unfolding assms by (metis mod_add_left_eq mod_mult_left_eq)
  also have "\<dots> = ((a ^ n * x 0 + c * gsum a n) * a + c) mod M"
    unfolding Suc by (metis mod_add_left_eq mod_mult_left_eq)
  also have "(a ^ n * x 0 + c * gsum a n) * a + c = a ^ Suc n * x 0 + c * gsum a (Suc n)"
    by (simp add: gsum_rec algebra_simps)
  finally show ?case .
qed

lemma gsum_power: "1 + b * gsum (Suc b) n = Suc b ^ n"
  by (induction n) (auto simp: gsum_def algebra_simps)

lemma lcg_period:
  fixes x :: "nat \<Rightarrow> nat"
  assumes step: "\<And>n. x (Suc n) mod 2 ^ k = (x n * a + c) mod 2 ^ k"
    and a: "a mod 4 = 1" and c: "odd c" and eq: "x (i + n) mod 2 ^ k = x i mod 2 ^ k"
  shows "2 ^ k dvd n"
proof -
  obtain b where b: "a = Suc b" using a by (cases a) auto
  have "even b" using a unfolding b by presburger
  have "x (i + n) mod 2 ^ k = (a ^ n * x i + c * gsum a n) mod 2 ^ k"
    using lcg_closed[of "\<lambda>n. x (i + n)" "2 ^ k" a c n] step by simp
  also have "a ^ n * x i + c * gsum a n = x i + gsum a n * (b * x i + c)"
    unfolding b gsum_power[symmetric] by (simp add: algebra_simps)
  finally have "(x i + gsum a n * (b * x i + c)) mod 2 ^ k = x i mod 2 ^ k" using eq by simp
  then have "2 ^ k dvd gsum a n * (b * x i + c)"
    by (metis add_diff_cancel_left' le_add1 mod_eq_dvd_iff_nat)
  moreover have "odd (b * x i + c)" using \<open>even b\<close> c by simp
  then have "coprime (2 ^ k) (b * x i + c)" by simp
  ultimately have "2 ^ k dvd gsum a n" using coprime_dvd_mult_left_iff by blast
  then show ?thesis using gsum_dvd[OF a] by simp
qed

lemma seed_after_step:
  "unat (seed_after (Suc n) s) = (unat (seed_after n s) * 1103515245 + 12345) mod 2 ^ 31"
  using random_unat[of "((\<lambda>s. snd (random s)) ^^ n) s"] by (simp add: seed_after_def random_fst)

lemma seed_after_Suc_shift: "seed_after (Suc k) s = seed_after k (snd (random s))"
  by (simp add: seed_after_def funpow_Suc_right del: funpow.simps)

lemma seed_after_less: "unat (rseed s) < 2 ^ 31 \<Longrightarrow> unat (seed_after n s) < 2 ^ 31"
  by (cases n) (simp add: seed_after_def, simp add: seed_after_step)

lemma seed_after_inj:
  assumes "unat (rseed s) < 2 ^ 31"
  shows "inj_on (\<lambda>n. unat (seed_after n s)) {..<2 ^ 31}"
proof (rule linorder_inj_onI)
  fix i j :: nat
  assume ij: "i < j" "i \<in> {..<2 ^ 31}" "j \<in> {..<2 ^ 31}"
  show "unat (seed_after i s) \<noteq> unat (seed_after j s)"
  proof
    assume eq: "unat (seed_after i s) = unat (seed_after j s)"
    have "2 ^ 31 dvd j - i"
    proof (rule lcg_period[where x = "\<lambda>n. unat (seed_after n s)" and i = i and a = 1103515245 and c = 12345])
      show "unat (seed_after (Suc n) s) mod 2 ^ 31 = (unat (seed_after n s) * 1103515245 + 12345) mod 2 ^ 31" for n
        unfolding seed_after_step by (rule mod_mod_trivial)
      show "unat (seed_after (i + (j - i)) s) mod 2 ^ 31 = unat (seed_after i s) mod 2 ^ 31"
        using ij(1) eq by simp
    qed simp_all
    then have "2 ^ 31 \<le> j - i" using ij(1) by (intro dvd_imp_le) simp_all
    then show False using ij by simp
  qed
qed auto

lemma seed_after_bij:
  assumes "unat (rseed s) < 2 ^ 31"
  shows "bij_betw (\<lambda>n. unat (seed_after n s)) {..<2 ^ 31} {..<2 ^ 31}"
proof -
  let ?f = "\<lambda>n. unat (seed_after n s)"
  have "?f ` {..<2 ^ 31} = {..<2 ^ 31}"
  proof (rule card_subset_eq)
    show "?f ` {..<2 ^ 31} \<subseteq> {..<2 ^ 31}" using seed_after_less[OF assms] by auto
    show "card (?f ` {..<2 ^ 31}) = card {..<2 ^ 31 :: nat}"
      using card_image[OF seed_after_inj[OF assms]] .
  qed simp
  then show ?thesis using seed_after_inj[OF assms] by (simp add: bij_betw_def)
qed

section \<open>Fairness over a period\<close>

lemma residue_card:
  fixes M T w :: nat
  assumes "w < T"
  shows "M div T \<le> card {r. r < M \<and> r mod T = w}" "card {r. r < M \<and> r mod T = w} \<le> M div T + 1"
proof -
  let ?f = "\<lambda>q. q * T + w"
  have im: "{r. r < M \<and> r mod T = w} = ?f ` {q. q * T + w < M}"
  proof (intro equalityI subsetI)
    fix r assume "r \<in> {r. r < M \<and> r mod T = w}"
    then have "r = r div T * T + w" "r < M" using div_mult_mod_eq[of r T] by auto
    then show "r \<in> ?f ` {q. q * T + w < M}" by (intro image_eqI[of _ _ "r div T"]) auto
  qed (use assms in auto)
  have inj: "inj_on ?f A" for A using assms by (auto simp: inj_on_def)
  have lo: "{..<M div T} \<subseteq> {q. q * T + w < M}"
  proof
    fix q assume "q \<in> {..<M div T}"
    then have "Suc q * T \<le> M div T * T" by (intro mult_le_mono1) simp
    also have "\<dots> \<le> M" by simp
    finally show "q \<in> {q. q * T + w < M}" using assms by simp
  qed
  have hi: "{q. q * T + w < M} \<subseteq> {..M div T}"
  proof
    fix q assume "q \<in> {q. q * T + w < M}"
    then have "q * T \<le> M" by simp
    then have "q \<le> M div T" using assms by (simp add: less_eq_div_iff_mult_less_eq)
    then show "q \<in> {..M div T}" by simp
  qed
  have fin: "finite {q. q * T + w < M}" using hi finite_subset by blast
  show "M div T \<le> card {r. r < M \<and> r mod T = w}"
    using card_mono[OF fin lo] card_image[OF inj] by (simp add: im)
  show "card {r. r < M \<and> r mod T = w} \<le> M div T + 1"
    using card_mono[OF _ hi] card_image[OF inj] by (simp add: im)
qed

lemma interval_card:
  fixes M T lo n :: nat
  assumes "lo + n \<le> T"
  defines "S \<equiv> {r. r < M \<and> lo \<le> r mod T \<and> r mod T < lo + n}"
  shows "n * (M div T) \<le> card S" "card S \<le> n * (M div T + 1)"
proof -
  have S: "S = (\<Union>w\<in>{lo..<lo + n}. {r. r < M \<and> r mod T = w})" by (auto simp: S_def)
  have c: "card S = (\<Sum>w\<in>{lo..<lo + n}. card {r. r < M \<and> r mod T = w})"
    unfolding S by (rule card_UN_disjoint) auto
  have b: "M div T \<le> card {r. r < M \<and> r mod T = w}" "card {r. r < M \<and> r mod T = w} \<le> M div T + 1"
    if "w \<in> {lo..<lo + n}" for w
    using that assms(1) residue_card[of w T M] by simp_all
  show "n * (M div T) \<le> card S"
    unfolding c using sum_bounded_below[of "{lo..<lo + n}" "M div T" "\<lambda>w. card {r. r < M \<and> r mod T = w}"] b by simp
  show "card S \<le> n * (M div T + 1)"
    unfolding c using sum_bounded_above[of "{lo..<lo + n}" "\<lambda>w. card {r. r < M \<and> r mod T = w}" "M div T + 1"] b by simp
qed

definition wins :: "proc list \<Rightarrow> nat \<Rightarrow> nat \<Rightarrow> kernel \<Rightarrow> nat" where
  "wins ps i n s = card {k. k < n \<and> draw (seed_after (Suc k) s mod total_tickets ps 0) ps 0 = i}"


lemma card_bij_pred:
  fixes M :: nat
  assumes "bij_betw f {..<M} {..<M}"
  shows "card {k. k < M \<and> P (f k)} = card {r. r < M \<and> P r}"
proof -
  have im: "f ` {..<M} = {..<M}" and inj: "inj_on f {..<M}" using assms by (simp_all add: bij_betw_def)
  have "{r. r < M \<and> P r} = {r \<in> f ` {..<M}. P r}" unfolding im by auto
  also have "\<dots> = f ` {k. k < M \<and> P (f k)}" by auto
  finally have eq: "{r. r < M \<and> P r} = f ` {k. k < M \<and> P (f k)}" .
  have "inj_on f {k. k < M \<and> P (f k)}" by (rule inj_on_subset[OF inj]) auto
  then show ?thesis unfolding eq by (simp add: card_image)
qed

text \<open>(C2) \<open>random\<close> has full period: from a seed below \<open>2^31\<close> (such as the initial one, or any
  seed after the first call), \<open>2^31\<close> consecutive results are the numbers below \<open>2^31\<close>, each once.\<close>

theorem random_full_period:
  assumes "unat (rseed s) < 2 ^ 31"
  shows "bij_betw (\<lambda>n. unat (fst (random (((\<lambda>s. snd (random s)) ^^ n) s)))) {..<2 ^ 31} {..<2 ^ 31}"
proof -
  have "unat (rseed (snd (random s))) < 2 ^ 31" using random_unat[of s] random_fst[of s] by simp
  from seed_after_bij[OF this] show ?thesis
    unfolding seed_after_Suc_shift[symmetric] by (simp add: random_fst seed_after_def)
qed

theorem random_full_period_witness:
  "bij_betw (\<lambda>n. unat (fst (random (((\<lambda>s. snd (random s)) ^^ n) boot_kernel)))) {..<2 ^ 31} {..<2 ^ 31}"
  by (rule random_full_period) (simp add: boot_kernel_def)

text \<open>(C1) Fairness: if the set of runnable processes and their tickets do not
  change, then in \<open>2^31\<close> consecutive draws (one period of \<open>random\<close>, from any seed) process \<open>i\<close>
  wins between \<open>t * floor(2^31 / T)\<close> and \<open>t * (floor(2^31 / T) + 1)\<close> times, where \<open>t\<close> are its
  tickets and \<open>T\<close> those of all runnable processes.\<close>

theorem lottery_fair:
  assumes "stake ps < 2 ^ 31" "0 < stake ps" "i < length ps"
  shows "share (ps ! i) * (2 ^ 31 div stake ps) \<le> wins ps i (2 ^ 31) s
     \<and> wins ps i (2 ^ 31) s \<le> share (ps ! i) * (2 ^ 31 div stake ps + 1)"
proof -
  let ?t = "snd (random s)" and ?lo = "stake (take i ps)"
  have r: "unat (rseed ?t) < 2 ^ 31" using random_unat[of s] random_fst[of s] by simp
  have T: "unat (total_tickets ps 0) = stake ps" using total_tickets_stake[of 0 ps] assms by simp
  have "draw (x mod total_tickets ps 0) ps 0 = i \<longleftrightarrow>
     ?lo \<le> unat x mod stake ps \<and> unat x mod stake ps < ?lo + share (ps ! i)" for x
    using assms T by (subst draw_iff) (simp_all add: unat_mod)
  then have w: "wins ps i (2 ^ 31) s = card {k. k < 2 ^ 31 \<and> ?lo \<le> unat (seed_after k ?t) mod stake ps
      \<and> unat (seed_after k ?t) mod stake ps < ?lo + share (ps ! i)}" (is "_ = card ?K")
    by (simp only: wins_def seed_after_Suc_shift)
  let ?R = "{r. r < 2 ^ 31 \<and> ?lo \<le> r mod stake ps \<and> r mod stake ps < ?lo + share (ps ! i)}"
  have eq: "wins ps i (2 ^ 31) s = card ?R"
    unfolding w by (rule card_bij_pred[OF seed_after_bij[OF r]])
  have le: "?lo + share (ps ! i) \<le> stake ps"
    using stake_take_Suc[OF assms(3)] stake_take_mono[of "Suc i" "length ps" ps] assms(3) by simp
  show ?thesis unfolding eq using interval_card[OF le, of "2 ^ 31"] by simp
qed

text \<open>(C3) A round of \<open>scheduler\<close> with tickets in play selects a runnable process (never
  a pointer past the table): the one the drawn ticket belongs to, when the tickets of the
  runnable processes are numbered in the order of the table.  That process becomes
  \<open>RUNNING\<close> and nothing else changes in the table, the CPU points to it, its page table is
  loaded, and \<open>ptable.lock\<close> is held across the switch.\<close>

theorem scheduler_picks:
  assumes "mach_ok (mach s)" "ncli (curcpu (mach s)) = 0" "lk_free PtableLk (mach s)"
    and "0 < stake (procs s)" "stake (procs s) < 2 ^ 31"
    and stacks: "\<forall>p \<in> set (procs s). pstate p = RUNNABLE \<longrightarrow> kstack p \<noteq> 0 \<and> pgdir p \<noteq> 0"
  shows "\<exists>i s'. scheduler_pick (this_cpu (mach s)) s = Ok (Some i) s' \<and> i < length (procs s)
     \<and> pstate (procs s ! i) = RUNNABLE \<and> procs s' = (procs s)[i := (procs s ! i)\<lparr>pstate := RUNNING\<rparr>]
     \<and> stake (take i (procs s)) \<le> unat (fst (random s)) mod stake (procs s)
     \<and> unat (fst (random s)) mod stake (procs s) < stake (take (Suc i) (procs s))
     \<and> rseed s' = fst (random s) \<and> running s' = Some i \<and> cr3 s' = V2P (pgdir (procs s ! i))
     \<and> holding PtableLk (mach s') = Ok True (mach s')"
proof -
  let ?m = "sti (mach s)" and ?T = "total_tickets (procs s) 0"
  let ?h = "hold PtableLk ?m"
  have m: "mach_ok ?m" "lk_free PtableLk ?m" using assms mach_ok_sti by simp_all
  have T: "unat ?T = stake (procs s)" using total_tickets_stake[of 0 "procs s"] assms by simp
  then have pos: "\<not> s_le ?T 0" using assms(4,5) by (simp only: s_le_def sint_eq_unat) simp
  define r where "r = fst (random s)"
  define i where "i = draw (r mod ?T) (procs s) 0"
  have w: "unat (r mod ?T) = unat r mod stake (procs s)" using T by (simp add: unat_mod)
  then have "unat (r mod ?T) < stake (procs s)" using assms(4) by simp
  then have i: "i < length (procs s)" "pstate (procs s ! i) = RUNNABLE"
    and own: "stake (take i (procs s)) \<le> unat r mod stake (procs s)" "unat r mod stake (procs s) < stake (take (Suc i) (procs s))"
    using draw_interval[of 0 "r mod ?T" "procs s"] assms(5) by (simp_all add: i_def flip: w)
  from i have ks: "kstack (procs s ! i) \<noteq> 0" "pgdir (procs s ! i) \<noteq> 0" using stacks nth_mem by blast+
  let ?M = "upd_cpu (this_cpu (mach s)) (\<lambda>k. k\<lparr>cpu_proc := Some i\<rparr>) ?h"
  have M: "mach_ok ?M" "touch ?M = ?M" "this_cpu ?M = this_cpu (mach s)"
    using m touch_upd_cpu[of "\<lambda>k. k\<lparr>cpu_proc := Some i\<rparr>" "hold PtableLk ?m"] by simp_all
  let ?s = "s\<lparr>rseed := r, mach := ?M\<rparr>"
  let ?s' = "upd_proc i (\<lambda>p. p\<lparr>pstate := RUNNING\<rparr>)
     (?s\<lparr>mach := load_tss (kstack (procs s ! i) + 4096) ?M, cr3 := V2P (pgdir (procs s ! i))\<rparr>)"
  have rnd: "random (s\<lparr>mach := x\<rparr>) = (r, s\<lparr>mach := x, rseed := r\<rparr>)" for x
    by (simp add: random_def r_def Let_def)
  have sw: "switchuvm (Some i) ?s = Ok () (?s\<lparr>mach := load_tss (kstack (procs s ! i) + 4096) ?M,
        cr3 := V2P (pgdir (procs s ! i))\<rparr>)"
    using switchuvm_ok[of ?s i] M(1,2) i ks by simp
  have ex: "scheduler_pick (this_cpu (mach s)) s = Ok (Some i) ?s'"
    using m pos i(1) sw
    by (simp add: scheduler_pick_def kacquire_ok Let_def rnd set_cpu_proc_def i_def[symmetric])
  have run: "running ?s' = Some i"
    using m M(1,3) mach_ok_lt[OF assms(1)] by (simp add: running_def upd_proc_def load_tss_def)
  have hol: "holding PtableLk (mach ?s') = Ok True (mach ?s')"
  proof -
    have "mach_ok (mach ?s')" "touch (mach ?s') = mach ?s'"
      using M(1,2) touch_upd_cpu[of "\<lambda>k. k\<lparr>ts_ss0 := push_bit 3 2, ts_esp0 := kstack (procs s ! i) + 4096, ts_iomb := 0xFFFF\<rparr>" ?M]
      by (simp_all add: load_tss_def)
    moreover have "locked (locks (mach ?s') PtableLk)" "lk_cpu (locks (mach ?s') PtableLk) = Some (this_cpu (mach ?s'))"
      using m by (simp_all add: load_tss_def)
    ultimately show ?thesis by (simp add: holding_ok)
  qed
  show ?thesis
    using ex i run hol own[unfolded r_def] by (intro exI[of _ i] exI[of _ ?s']) (simp add: upd_proc_def r_def)
qed


lemma stake_append [simp]: "stake (ps @ qs) = stake ps + stake qs"
  by (simp add: stake_def)

lemma stake_unused [simp]: "stake (replicate n proc0) = 0"
  by (induction n) (simp_all add: share_def proc0_def)

text \<open>A table with two runnable processes, of 10 and 30 tickets, and a sleeping one.\<close>

definition sample_procs :: "proc list" where
  "sample_procs = [proc0\<lparr>pstate := RUNNABLE, pid := 1, kstack := 0x80200000, pgdir := 0x80201000, tickets := 10\<rparr>,
     proc0\<lparr>pstate := SLEEPING, pid := 2, kstack := 0x80202000, pgdir := 0x80203000, tickets := 50\<rparr>,
     proc0\<lparr>pstate := RUNNABLE, pid := 3, kstack := 0x80204000, pgdir := 0x80205000, tickets := 30\<rparr>]
     @ replicate 61 proc0"

lemma sample_stake [simp]: "stake sample_procs = 40"
  by (simp add: sample_procs_def share_def)

lemma sample_share [simp]: "share (sample_procs ! 2) = 30" "length sample_procs = 64"
  by (simp_all add: sample_procs_def share_def)

theorem lottery_share_witness:
  "card {w. w < unat (total_tickets sample_procs 0) \<and> draw (of_nat w) sample_procs 0 = 2} = 30"
  using lottery_share[of sample_procs 2] by simp

theorem lottery_fair_witness:
  "30 * 53687091 \<le> wins sample_procs 2 (2 ^ 31) boot_kernel
   \<and> wins sample_procs 2 (2 ^ 31) boot_kernel \<le> 30 * 53687092"
  using lottery_fair[of sample_procs 2 boot_kernel] by simp

theorem scheduler_picks_witness:
  "\<exists>i s'. scheduler_pick 0 (boot_kernel\<lparr>procs := sample_procs\<rparr>) = Ok (Some i) s'
     \<and> pstate (procs s' ! i) = RUNNING \<and> running s' = Some i"
proof -
  have "\<forall>p \<in> set sample_procs. pstate p = RUNNABLE \<longrightarrow> kstack p \<noteq> 0 \<and> pgdir p \<noteq> 0"
    by (simp add: sample_procs_def proc0_def)
  then show ?thesis
    using scheduler_picks[of "boot_kernel\<lparr>procs := sample_procs\<rparr>"]
    by (auto simp: cpu0_def)
qed

section \<open>Too many tickets\<close>

text \<open>(C15) \<open>settickets\<close> puts no upper bound on the tickets, and their sum is a 32-bit \<open>int\<close> that wraps around.  Whenever the sum modulo \<open>2^32\<close> is
  zero or not below \<open>2^31\<close>, as for sums from \<open>2^31\<close> to \<open>2^32\<close>, it is not positive as an \<open>int\<close>: every round of \<open>scheduler\<close> then releases the lock and runs
  nothing, although processes are runnable.\<close>

theorem lottery_overflow_idles:
  assumes "mach_ok (mach s)" "ncli (curcpu (mach s)) = 0" "lk_free PtableLk (mach s)"
    and "0 < stake (procs s)" "stake (procs s) mod 2 ^ 32 = 0 \<or> 2 ^ 31 \<le> stake (procs s) mod 2 ^ 32"
  shows "\<exists>s'. scheduler_pick c s = Ok None s' \<and> procs s' = procs s \<and> rseed s' = rseed s
     \<and> lk_free PtableLk (mach s')"
proof -
  have "unat (total_tickets ps t) = (unat t + stake ps) mod 2 ^ 32" for t ps
  proof (induction ps arbitrary: t)
    case Nil
    then show ?case using unat_lt32[of t] by simp
  qed (simp add: share_def unat_word_ariths mod_simps add.assoc)
  from this[of "procs s" 0] have u: "unat (total_tickets (procs s) 0) = stake (procs s) mod 2 ^ 32" by simp
  have "s_le (total_tickets (procs s) 0) 0"
  proof (cases "stake (procs s) mod 2 ^ 32 = 0")
    case True
    then have "total_tickets (procs s) 0 = 0" using u by (simp add: unat_eq_0)
    then show ?thesis by (simp add: s_le_def)
  next
    case False
    then have "sint (total_tickets (procs s) 0) < 0" using u assms(5) by (intro sint_neg) simp
    then show ?thesis by (simp add: s_le_def)
  qed
  then show ?thesis
    using assms mach_ok_sti[OF assms(1,2)]
    by (simp add: scheduler_pick_def kacquire_ok krelease_ok Let_def)
qed

theorem lottery_overflow_idles_witness:
  "\<exists>s'. scheduler_pick 0 (boot_kernel\<lparr>procs := map (\<lambda>p. p\<lparr>tickets := 0x40000000\<rparr>) sample_procs\<rparr>) = Ok None s'"
proof -
  have "stake (map (\<lambda>p. p\<lparr>tickets := 0x40000000\<rparr>) sample_procs) = 2 ^ 31"
    by (simp add: sample_procs_def share_def proc0_def stake_def sum_list_replicate)
  then show ?thesis
    using lottery_overflow_idles[of "boot_kernel\<lparr>procs := map (\<lambda>p. p\<lparr>tickets := 0x40000000\<rparr>) sample_procs\<rparr>" 0]
    by (auto simp: cpu0_def)
qed

end
