(* ===== verification/Sleeplock.thy ===== *)
theory Sleeplock
  imports Proc
begin

text \<open>
  Sleep locks: \<open>sleeplock.c\<close>.  A sleep lock lives in a buffer or in an inode and is named by
  \<open>slid\<close>; the spin lock inside it and the channel its waiters sleep on are \<open>sl_spin\<close> and
  \<open>sl_chan\<close>.  When the lock is taken, \<open>acquiresleep\<close> goes to sleep; when the process is
  switched to again it continues with \<open>acquiresleep_back\<close>, which tests the lock again.

  The predicate \<open>quiet\<close> holds of a state in which no spin lock is held: the code of the buffer
  cache, the log and the file system starts and ends there.
\<close>

datatype slid = BufSl nat | InodeSl nat

fun sl_spin :: "slid \<Rightarrow> lockid" where
  "sl_spin (BufSl i) = BufLk i"
| "sl_spin (InodeSl i) = InodeLk i"

fun sl_chan :: "slid \<Rightarrow> chan" where
  "sl_chan (BufSl i) = ChBufLock i"
| "sl_chan (InodeSl i) = ChInodeLock i"

fun sl_get :: "slid \<Rightarrow> kernel \<Rightarrow> sleeplock" where
  "sl_get (BufSl i) s = b_lock (bufs s ! i)"
| "sl_get (InodeSl i) s = i_lock (inodes s ! i)"

fun sl_put :: "slid \<Rightarrow> sleeplock \<Rightarrow> kernel \<Rightarrow> kernel" where
  "sl_put (BufSl i) l s = s\<lparr>bufs := (bufs s)[i := (bufs s ! i)\<lparr>b_lock := l\<rparr>]\<rparr>"
| "sl_put (InodeSl i) l s = s\<lparr>inodes := (inodes s)[i := (inodes s ! i)\<lparr>i_lock := l\<rparr>]\<rparr>"

definition initsleeplock :: "slid \<Rightarrow> string \<Rightarrow> kernel \<Rightarrow> kernel" where
  "initsleeplock l name s =
     sl_put l \<lparr>sl_locked = False, sl_name = name, sl_pid = 0\<rparr>
       (s\<lparr>mach := initlock (sl_spin l) ''sleep lock'' (mach s)\<rparr>)"

text \<open>From the test of the loop on.\<close>

definition acquiresleep_test :: "slid \<Rightarrow> kernel \<Rightarrow> unit kres" where
  "acquiresleep_test l s =
     (if sl_locked (sl_get l s) then sleep (sl_chan l) (Some (sl_spin l)) s
      else
        let s = sl_put l ((sl_get l s)\<lparr>sl_locked := True\<rparr>) s in
        bnd (curproc s) (\<lambda>i s.
          krelease (sl_spin l) (sl_put l ((sl_get l s)\<lparr>sl_pid := pid (procs s ! i)\<rparr>) s)))"

definition acquiresleep :: "slid \<Rightarrow> kernel \<Rightarrow> unit kres" where
  "acquiresleep l s = bnd (kacquire (sl_spin l) s) (\<lambda>_ s. acquiresleep_test l s)"

definition acquiresleep_back :: "slid \<Rightarrow> nat \<Rightarrow> bool \<Rightarrow> kernel \<Rightarrow> unit kres" where
  "acquiresleep_back l i ie s = bnd (sleep_back i (sl_spin l) ie s) (\<lambda>_ s. acquiresleep_test l s)"

definition releasesleep :: "slid \<Rightarrow> kernel \<Rightarrow> unit kres" where
  "releasesleep l s =
     bnd (kacquire (sl_spin l) s) (\<lambda>_ s.
     bnd (wakeup (sl_chan l) (sl_put l ((sl_get l s)\<lparr>sl_locked := False, sl_pid := 0\<rparr>) s)) (\<lambda>_ s.
     krelease (sl_spin l) s))"

definition holdingsleep :: "slid \<Rightarrow> kernel \<Rightarrow> bool kres" where
  "holdingsleep l s =
     bnd (kacquire (sl_spin l) s) (\<lambda>_ s.
     bnd (if sl_locked (sl_get l s)
          then bnd (curproc s) (\<lambda>i s. Ok (sl_pid (sl_get l s) = pid (procs s ! i)) s)
          else Ok False s) (\<lambda>r s.
     bnd (krelease (sl_spin l) s) (\<lambda>_ s. Ok r s)))"

section \<open>Code that runs with no spin lock held\<close>

definition quiet :: "kernel \<Rightarrow> bool" where
  "quiet s \<longleftrightarrow> mach_ok (mach s) \<and> touch (mach s) = mach s \<and> (\<forall>L. lk_free L (mach s))"

lemma quietD:
  assumes "quiet s"
  shows "mach_ok (mach s)" "touch (mach s) = mach s" "lk_free L (mach s)"
  using assms by (simp_all add: quiet_def)

lemma quiet_cong: "mach t = mach s \<Longrightarrow> quiet t = quiet s"
  by (simp add: quiet_def)

lemma kacquire_quiet [lock_simps]: "quiet s \<Longrightarrow> kacquire L s = Ok () (s\<lparr>mach := hold L (mach s)\<rparr>)"
  by (simp add: kacquire_ok quietD)

lemma krelease_quiet [lock_simps]:
  assumes "mach s = hold L m" "mach_ok m" "touch m = m" "lk_free L m"
  shows "krelease L s = Ok () (s\<lparr>mach := m\<rparr>)"
  using krelease_ok[OF assms(1,2,4)] assms(3) by simp

lemma sl_put_frame [simp]:
  "mach (sl_put l x s) = mach s" "procs (sl_put l x s) = procs s" "running (sl_put l x s) = running s"
  by (cases l; simp add: running_def)+

lemma sl_put_mach [simp]: "(sl_put l x s)\<lparr>mach := m\<rparr> = sl_put l x (s\<lparr>mach := m\<rparr>)"
  by (cases l) simp_all

lemma sl_get_mach [simp]: "sl_get l (s\<lparr>mach := m\<rparr>) = sl_get l s"
  by (cases l) simp_all

definition sl_valid :: "slid \<Rightarrow> kernel \<Rightarrow> bool" where
  "sl_valid l s = (case l of BufSl i \<Rightarrow> i < length (bufs s) | InodeSl i \<Rightarrow> i < length (inodes s))"

lemma sl_get_put [simp]: "sl_valid l s \<Longrightarrow> sl_get l (sl_put l x s) = x"
  by (cases l) (simp_all add: sl_valid_def)

lemma sl_put_put [simp]: "sl_put l y (sl_put l x s) = sl_put l y s"
proof (cases l)
  case (BufSl i)
  then show ?thesis by (cases "i < length (bufs s)") (simp_all add: list_update_beyond)
next
  case (InodeSl i)
  then show ?thesis by (cases "i < length (inodes s)") (simp_all add: list_update_beyond)
qed

lemma acquiresleep_ok:
  assumes "quiet s" "running s = Some i" "\<not> sl_locked (sl_get l s)" "sl_valid l s"
  shows "acquiresleep l s =
     Ok () (sl_put l ((sl_get l s)\<lparr>sl_locked := True, sl_pid := pid (procs s ! i)\<rparr>) s)"
proof -
  note q = quietD[OF assms(1)]
  let ?t = "sl_put l ((sl_get l s)\<lparr>sl_locked := True\<rparr>) (s\<lparr>mach := hold (sl_spin l) (mach s)\<rparr>)"
  have run: "running (s\<lparr>mach := hold (sl_spin l) (mach s)\<rparr>) = Some i" using assms(2) q by simp
  have cp: "curproc ?t = Ok i ?t"
    using curproc_ok[of ?t i] run q by simp
  have v: "sl_valid l (s\<lparr>mach := hold (sl_spin l) (mach s)\<rparr>)" using assms(4) by (simp add: sl_valid_def split: slid.splits)
  show ?thesis
    using assms q cp v krelease_quiet[where m = "mach s"]
    by (simp add: acquiresleep_def kacquire_quiet acquiresleep_test_def Let_def)
qed

lemma wakeup_held:
  assumes "mach_ok (mach s)" "lk_free PtableLk (mach s)" "touch (mach s) = mach s"
  shows "wakeup ch s = Ok () (wakeup1 (Some ch) s)"
proof -
  have "krelease PtableLk (wakeup1 (Some ch) (s\<lparr>mach := hold PtableLk (mach s)\<rparr>)) = Ok () (wakeup1 (Some ch) s)"
    using assms krelease_quiet[where m = "mach s" and L = PtableLk and s = "wakeup1 (Some ch) (s\<lparr>mach := hold PtableLk (mach s)\<rparr>)"]
    by (simp add: wakeup1_def)
  then show ?thesis using assms by (simp add: wakeup_alt kacquire_ok)
qed

lemma wakeup1_frame [simp]:
  "mach (wakeup1 ch s) = mach s" "bufs (wakeup1 ch s) = bufs s" "inodes (wakeup1 ch s) = inodes s"
  "disk (wakeup1 ch s) = disk s" "running (wakeup1 ch s) = running s" "sl_get l (wakeup1 ch s) = sl_get l s"
  by (cases l; simp add: wakeup1_def running_def)+

lemma releasesleep_ok:
  assumes "quiet s"
  shows "releasesleep l s =
     Ok () (wakeup1 (Some (sl_chan l)) (sl_put l ((sl_get l s)\<lparr>sl_locked := False, sl_pid := 0\<rparr>) s))"
proof -
  note q = quietD[OF assms]
  let ?t = "sl_put l ((sl_get l s)\<lparr>sl_locked := False, sl_pid := 0\<rparr>) (s\<lparr>mach := hold (sl_spin l) (mach s)\<rparr>)"
  have ne: "PtableLk \<noteq> sl_spin l" by (cases l) simp_all
  have w: "wakeup (sl_chan l) ?t = Ok () (wakeup1 (Some (sl_chan l)) ?t)"
    using q ne by (intro wakeup_held) simp_all
  have "krelease (sl_spin l) (wakeup1 (Some (sl_chan l)) ?t) = Ok () ((wakeup1 (Some (sl_chan l)) ?t)\<lparr>mach := mach s\<rparr>)"
    using q by (intro krelease_quiet) simp_all
  moreover have "(wakeup1 (Some (sl_chan l)) ?t)\<lparr>mach := mach s\<rparr> =
      wakeup1 (Some (sl_chan l)) (sl_put l ((sl_get l s)\<lparr>sl_locked := False, sl_pid := 0\<rparr>) s)"
    by (cases l) (simp_all add: wakeup1_def)
  ultimately show ?thesis using assms w by (simp add: releasesleep_def kacquire_quiet)
qed

lemma holdingsleep_ok:
  assumes "quiet s" "running s = Some i"
  shows "holdingsleep l s = Ok (sl_locked (sl_get l s) \<and> sl_pid (sl_get l s) = pid (procs s ! i)) s"
proof -
  note q = quietD[OF assms(1)]
  let ?t = "s\<lparr>mach := hold (sl_spin l) (mach s)\<rparr>"
  have cp: "curproc ?t = Ok i ?t"
    using curproc_ok[of ?t i] assms(2) q by simp
  have "krelease (sl_spin l) ?t = Ok () s"
    using krelease_quiet[of ?t "sl_spin l" "mach s"] q by simp
  then show ?thesis
    using assms cp by (simp add: holdingsleep_def kacquire_quiet)
qed

text \<open>A process that runs in kernel mode, just after its last lock was released.\<close>

definition calm :: kernel where
  "calm = one_running\<lparr>mach := (mach one_running)\<lparr>cpus := [cpu0\<lparr>cpu_proc := Some 0, intena := True\<rparr>]\<rparr>\<rparr>"

lemma calm_mach: "this_cpu (mach calm) = 0" "mach_ok (mach calm)" "touch (mach calm) = mach calm" "lk_free L (mach calm)"
  by (simp_all add: calm_def one_running_def machine0_def cpu0_def mach_ok_def cpu_ix_def this_cpu_def lk_free_def
      touch_def upd_cpu_def)

lemma calm_simps [simp]:
  "quiet calm" "running calm = Some 0" "this_cpu (mach calm) = 0" "ncli (cpus (mach calm) ! 0) = 0"
  "length (procs calm) = 64" "pstate (procs calm ! 0) = RUNNING" "\<not> killed (procs calm ! 0)" "pid (procs calm ! 0) = 1"
proof -
  show "quiet calm" by (simp add: quiet_def calm_mach)
  show "this_cpu (mach calm) = 0" by (rule calm_mach)
  then show "running calm = Some 0" "ncli (cpus (mach calm) ! 0) = 0"
    by (simp_all add: running_def calm_def cpu0_def)
qed (simp_all add: calm_def one_running_def proc0_def)

lemma quiet_frame: "mach t = mach calm \<Longrightarrow> quiet t \<and> running t = Some 0"
  using quiet_cong[of t calm] by (simp add: running_def) (metis calm_simps(2,3) running_def)

end
