(* ===== verification/Bio.thy ===== *)
theory Bio
  imports Sleeplock
begin

text \<open>
  The buffer cache, \<open>bio.c\<close>, on the memory disk of \<open>memide.c\<close>.  Buffers are indices into
  \<open>bufs\<close>; \<open>NBUF\<close> stands for \<open>&bcache.head\<close>.  The list through \<open>prev\<close> and \<open>next\<close> is kept as
  pointers and abstracted to the list of buffers in most-recently-used order by \<open>mru\<close>.
  A walk along the list is bounded by \<open>NBUF + 1\<close> steps, which is enough for a well-formed list;
  a longer walk is one that never meets the head (\<open>Spin\<close>).
\<close>

section \<open>The list of buffers\<close>

definition nextof :: "kernel \<Rightarrow> nat \<Rightarrow> nat" where
  "nextof s b = (if b = NBUF then head_next s else b_next (bufs s ! b))"

definition prevof :: "kernel \<Rightarrow> nat \<Rightarrow> nat" where
  "prevof s b = (if b = NBUF then head_prev s else b_prev (bufs s ! b))"

definition upd_buf :: "nat \<Rightarrow> (buf \<Rightarrow> buf) \<Rightarrow> kernel \<Rightarrow> kernel" where
  "upd_buf i f s = s\<lparr>bufs := (bufs s)[i := f (bufs s ! i)]\<rparr>"

definition set_next :: "nat \<Rightarrow> nat \<Rightarrow> kernel \<Rightarrow> kernel" where
  "set_next b v s = (if b = NBUF then s\<lparr>head_next := v\<rparr> else upd_buf b (\<lambda>k. k\<lparr>b_next := v\<rparr>) s)"

definition set_prev :: "nat \<Rightarrow> nat \<Rightarrow> kernel \<Rightarrow> kernel" where
  "set_prev b v s = (if b = NBUF then s\<lparr>head_prev := v\<rparr> else upd_buf b (\<lambda>k. k\<lparr>b_prev := v\<rparr>) s)"

text \<open>The two statements that link \<open>b\<close>, whose own fields are set already, after the head.\<close>

definition link_front :: "nat \<Rightarrow> kernel \<Rightarrow> kernel" where
  "link_front b s =
     (let s = set_next b (head_next s) s;
          s = set_prev b NBUF s;
          s = set_prev (head_next s) b s
      in set_next NBUF b s)"

definition binit_step :: "nat \<Rightarrow> kernel \<Rightarrow> kernel" where
  "binit_step b s =
     (let s = set_next b (head_next s) s;
          s = set_prev b NBUF s;
          s = initsleeplock (BufSl b) ''buffer'' s;
          s = set_prev (head_next s) b s
      in set_next NBUF b s)"

definition binit :: "kernel \<Rightarrow> kernel" where
  "binit s =
     (let s = s\<lparr>mach := initlock BcacheLk ''bcache'' (mach s), head_prev := NBUF, head_next := NBUF\<rparr>
      in fold binit_step [0..<NBUF] s)"

text \<open>Walking from \<open>b\<close> along \<open>nx\<close> to the first buffer that satisfies \<open>P\<close>: \<open>None\<close> when the bound
  is exhausted, \<open>Some None\<close> when the walk reaches the head.\<close>

primrec walk_list :: "(nat \<Rightarrow> nat) \<Rightarrow> (nat \<Rightarrow> bool) \<Rightarrow> nat \<Rightarrow> nat \<Rightarrow> nat option option" where
  "walk_list nx P 0 b = None"
| "walk_list nx P (Suc n) b =
     (if b = NBUF then Some None else if P b then Some (Some b) else walk_list nx P n (nx b))"

section \<open>The disk (memide.c)\<close>

definition ideinit :: "block list \<Rightarrow> kernel \<Rightarrow> kernel" where
  "ideinit img s = s\<lparr>disk := img\<rparr>"

definition iderw :: "nat \<Rightarrow> kernel \<Rightarrow> unit kres" where
  "iderw i s =
     bnd (holdingsleep (BufSl i) s) (\<lambda>h s.
       let b = bufs s ! i; n = unat (b_blockno b) in
       if \<not> h then Panic ''iderw: buf not locked''
       else if b_valid b \<and> \<not> b_dirty b then Panic ''iderw: nothing to do''
       else if b_dev b \<noteq> 1 then Panic ''iderw: request not for disk 1''
       else if n \<ge> length (disk s) then Panic ''iderw: block out of range''
       else if b_dirty b
         then Ok () ((upd_buf i (\<lambda>b. b\<lparr>b_dirty := False, b_valid := True\<rparr>) s)
                     \<lparr>disk := (disk s)[n := b_data b], dwrites := dwrites s @ [(n, b_data b)]\<rparr>)
         else Ok () (upd_buf i (\<lambda>b. b\<lparr>b_data := disk s ! n, b_valid := True\<rparr>) s))"

section \<open>Operations\<close>

definition bget :: "32 word \<Rightarrow> 32 word \<Rightarrow> kernel \<Rightarrow> nat kres" where
  "bget dev blockno s =
     bnd (kacquire BcacheLk s) (\<lambda>_ s.
     case walk_list (nextof s) (\<lambda>b. b_dev (bufs s ! b) = dev \<and> b_blockno (bufs s ! b) = blockno)
            (NBUF + 1) (head_next s) of
       None \<Rightarrow> Spin
     | Some (Some b) \<Rightarrow>
         bnd (krelease BcacheLk (upd_buf b (\<lambda>k. k\<lparr>b_refcnt := b_refcnt k + 1\<rparr>) s)) (\<lambda>_ s.
         bnd (acquiresleep (BufSl b) s) (\<lambda>_ s. Ok b s))
     | Some None \<Rightarrow>
       (case walk_list (prevof s) (\<lambda>b. b_refcnt (bufs s ! b) = 0 \<and> \<not> b_dirty (bufs s ! b))
               (NBUF + 1) (head_prev s) of
          None \<Rightarrow> Spin
        | Some (Some b) \<Rightarrow>
            bnd (krelease BcacheLk (upd_buf b (\<lambda>k. k\<lparr>b_dev := dev, b_blockno := blockno,
                   b_valid := False, b_dirty := False, b_refcnt := 1\<rparr>) s)) (\<lambda>_ s.
            bnd (acquiresleep (BufSl b) s) (\<lambda>_ s. Ok b s))
        | Some None \<Rightarrow> Panic ''bget: no buffers''))"

definition bread :: "32 word \<Rightarrow> 32 word \<Rightarrow> kernel \<Rightarrow> nat kres" where
  "bread dev blockno s =
     bnd (bget dev blockno s) (\<lambda>b s.
       if \<not> b_valid (bufs s ! b) then bnd (iderw b s) (\<lambda>_ s. Ok b s) else Ok b s)"

definition bwrite :: "nat \<Rightarrow> kernel \<Rightarrow> unit kres" where
  "bwrite b s =
     bnd (holdingsleep (BufSl b) s) (\<lambda>h s.
       if \<not> h then Panic ''bwrite''
       else iderw b (upd_buf b (\<lambda>k. k\<lparr>b_dirty := True\<rparr>) s))"

definition brelse :: "nat \<Rightarrow> kernel \<Rightarrow> unit kres" where
  "brelse b s =
     bnd (holdingsleep (BufSl b) s) (\<lambda>h s.
       if \<not> h then Panic ''brelse''
       else bnd (releasesleep (BufSl b) s) (\<lambda>_ s.
       bnd (kacquire BcacheLk s) (\<lambda>_ s.
         let s = upd_buf b (\<lambda>k. k\<lparr>b_refcnt := b_refcnt k - 1\<rparr>) s;
             s = (if b_refcnt (bufs s ! b) = 0
                  then
                    let s = set_prev (nextof s b) (prevof s b) s;
                        s = set_next (prevof s b) (nextof s b) s
                    in link_front b s
                  else s)
         in krelease BcacheLk s)))"

end
