(* ===== verification/Log.thy ===== *)
theory Log
  imports Bio
begin

text \<open>
  The write-ahead log, \<open>log.c\<close>, and \<open>readsb\<close> of \<open>fs.c\<close>, which \<open>initlog\<close> calls.  The header
  block is read and written as bytes: \<open>n\<close> at offset 0 and \<open>block[i]\<close> at offset \<open>4 + 4 i\<close>.  An
  index outside \<open>log.lh.block\<close> is a fault.
\<close>

section \<open>Integers in a block\<close>

definition get32 :: "block \<Rightarrow> nat \<Rightarrow> 32 word" where
  "get32 blk off = load32 (\<lambda>a. blk ! (off + unat a)) 0"

definition put32 :: "block \<Rightarrow> nat \<Rightarrow> 32 word \<Rightarrow> block" where
  "put32 blk off v = blk[off := byte_of v 0, off + 1 := byte_of v 1, off + 2 := byte_of v 2,
                         off + 3 := byte_of v 3]"

definition readsb :: "32 word \<Rightarrow> kernel \<Rightarrow> superblock kres" where
  "readsb dev s =
     bnd (bread dev 1 s) (\<lambda>b s.
       let d = b_data (bufs s ! b);
           sb = \<lparr>sb_size = get32 d 0, sb_nblocks = get32 d 4, sb_ninodes = get32 d 8,
                 sb_nlog = get32 d 12, sb_logstart = get32 d 16, sb_inodestart = get32 d 20,
                 sb_bmapstart = get32 d 24\<rparr>
       in bnd (brelse b s) (\<lambda>_ s. Ok sb s))"

section \<open>The log\<close>

definition upd_log :: "(log \<Rightarrow> log) \<Rightarrow> kernel \<Rightarrow> kernel" where
  "upd_log f s = s\<lparr>logs := f (logs s)\<rparr>"

definition log_n :: "kernel \<Rightarrow> nat" where
  "log_n s = nat (sint (lh_n (logs s)))"

text \<open>The body of the loop of \<open>install_trans\<close> for the remaining values of \<open>tail\<close>.\<close>

primrec install_trans_loop :: "nat list \<Rightarrow> kernel \<Rightarrow> unit kres" where
  "install_trans_loop [] s = Ok () s"
| "install_trans_loop (t # ts) s =
     bnd (bread (l_dev (logs s)) (l_start (logs s) + of_nat t + 1) s) (\<lambda>lbuf s.
     if t \<ge> length (lh_block (logs s)) then Fault else
     bnd (bread (l_dev (logs s)) (lh_block (logs s) ! t) s) (\<lambda>dbuf s.
     bnd (bwrite dbuf (upd_buf dbuf (\<lambda>b. b\<lparr>b_data := b_data (bufs s ! lbuf)\<rparr>) s)) (\<lambda>_ s.
     bnd (brelse lbuf s) (\<lambda>_ s.
     bnd (brelse dbuf s) (\<lambda>_ s. install_trans_loop ts s)))))"

definition install_trans :: "kernel \<Rightarrow> unit kres" where
  "install_trans s = install_trans_loop [0..<log_n s] s"

definition read_head :: "kernel \<Rightarrow> unit kres" where
  "read_head s =
     bnd (bread (l_dev (logs s)) (l_start (logs s)) s) (\<lambda>b s.
       let d = b_data (bufs s ! b); n = get32 d 0 in
       if nat (sint n) > length (lh_block (logs s)) then Fault
       else
         let s = upd_log (\<lambda>l. l\<lparr>lh_n := n, lh_block := map (\<lambda>i. get32 d (4 + 4 * i)) [0..<nat (sint n)]
                                @ drop (nat (sint n)) (lh_block l)\<rparr>) s
         in brelse b s)"

definition header_bytes :: "32 word \<Rightarrow> 32 word list \<Rightarrow> block \<Rightarrow> block" where
  "header_bytes n bs d = fold (\<lambda>i d. put32 d (4 + 4 * i) (bs ! i)) [0..<nat (sint n)] (put32 d 0 n)"

definition write_head :: "kernel \<Rightarrow> unit kres" where
  "write_head s =
     bnd (bread (l_dev (logs s)) (l_start (logs s)) s) (\<lambda>b s.
       if log_n s > length (lh_block (logs s)) then Fault
       else bnd (bwrite b (upd_buf b (\<lambda>k. k\<lparr>b_data := header_bytes (lh_n (logs s)) (lh_block (logs s)) (b_data k)\<rparr>) s))
         (\<lambda>_ s. brelse b s))"

definition recover_from_log :: "kernel \<Rightarrow> unit kres" where
  "recover_from_log s =
     bnd (read_head s) (\<lambda>_ s.
     bnd (install_trans s) (\<lambda>_ s.
     write_head (upd_log (\<lambda>l. l\<lparr>lh_n := 0\<rparr>) s)))"

text \<open>\<open>sizeof(struct logheader)\<close> is \<open>4 + 4 * LOGSIZE\<close>.\<close>

definition initlog :: "32 word \<Rightarrow> kernel \<Rightarrow> unit kres" where
  "initlog dev s =
     (if 4 + 4 * LOGSIZE \<ge> BSIZE then Panic ''initlog: too big logheader''
      else
        bnd (readsb dev (s\<lparr>mach := initlock LogLk ''log'' (mach s)\<rparr>)) (\<lambda>sb s.
        recover_from_log (upd_log (\<lambda>l. l\<lparr>l_start := sb_logstart sb, l_size := sb_nlog sb, l_dev := dev\<rparr>) s)))"

section \<open>Transactions\<close>

text \<open>One turn of the loop of \<open>begin_op\<close>, with \<open>log.lock\<close> held; woken up, the process continues
  with \<open>begin_op_back\<close>.\<close>

definition begin_op_test :: "kernel \<Rightarrow> unit kres" where
  "begin_op_test s =
     (if l_committing (logs s) then sleep ChLog (Some LogLk) s
      else if s_lt (of_nat LOGSIZE) (lh_n (logs s) + (l_outstanding (logs s) + 1) * of_nat MAXOPBLOCKS)
      then sleep ChLog (Some LogLk) s
      else krelease LogLk (upd_log (\<lambda>l. l\<lparr>l_outstanding := l_outstanding l + 1\<rparr>) s))"

definition begin_op :: "kernel \<Rightarrow> unit kres" where
  "begin_op s = bnd (kacquire LogLk s) (\<lambda>_ s. begin_op_test s)"

definition begin_op_back :: "nat \<Rightarrow> bool \<Rightarrow> kernel \<Rightarrow> unit kres" where
  "begin_op_back i ie s = bnd (sleep_back i LogLk ie s) (\<lambda>_ s. begin_op_test s)"

primrec write_log_loop :: "nat list \<Rightarrow> kernel \<Rightarrow> unit kres" where
  "write_log_loop [] s = Ok () s"
| "write_log_loop (t # ts) s =
     bnd (bread (l_dev (logs s)) (l_start (logs s) + of_nat t + 1) s) (\<lambda>to s.
     if t \<ge> length (lh_block (logs s)) then Fault else
     bnd (bread (l_dev (logs s)) (lh_block (logs s) ! t) s) (\<lambda>frm s.
     bnd (bwrite to (upd_buf to (\<lambda>b. b\<lparr>b_data := b_data (bufs s ! frm)\<rparr>) s)) (\<lambda>_ s.
     bnd (brelse frm s) (\<lambda>_ s.
     bnd (brelse to s) (\<lambda>_ s. write_log_loop ts s)))))"

definition write_log :: "kernel \<Rightarrow> unit kres" where
  "write_log s = write_log_loop [0..<log_n s] s"

definition commit :: "kernel \<Rightarrow> unit kres" where
  "commit s =
     (if s_lt 0 (lh_n (logs s)) then
        bnd (write_log s) (\<lambda>_ s.
        bnd (write_head s) (\<lambda>_ s.
        bnd (install_trans s) (\<lambda>_ s.
        write_head (upd_log (\<lambda>l. l\<lparr>lh_n := 0\<rparr>) s))))
      else Ok () s)"

definition end_op :: "kernel \<Rightarrow> unit kres" where
  "end_op s =
     bnd (kacquire LogLk s) (\<lambda>_ s.
       let s = upd_log (\<lambda>l. l\<lparr>l_outstanding := l_outstanding l - 1\<rparr>) s in
       if l_committing (logs s) then Panic ''log.committing''
       else
         let do_commit = (l_outstanding (logs s) = 0) in
         bnd (if do_commit then Ok () (upd_log (\<lambda>l. l\<lparr>l_committing := True\<rparr>) s)
              else wakeup ChLog s) (\<lambda>_ s.
         bnd (krelease LogLk s) (\<lambda>_ s.
           if do_commit then
             bnd (commit s) (\<lambda>_ s.
             bnd (kacquire LogLk s) (\<lambda>_ s.
             bnd (wakeup ChLog (upd_log (\<lambda>l. l\<lparr>l_committing := False\<rparr>) s)) (\<lambda>_ s.
             krelease LogLk s)))
           else Ok () s)))"

definition log_write :: "nat \<Rightarrow> kernel \<Rightarrow> unit kres" where
  "log_write b s =
     (if s_le (of_nat LOGSIZE) (lh_n (logs s)) \<or> s_le (l_size (logs s) - 1) (lh_n (logs s))
      then Panic ''too big a transaction''
      else if s_lt (l_outstanding (logs s)) 1 then Panic ''log_write outside of trans''
      else
        bnd (kacquire LogLk s) (\<lambda>_ s.
          let bn = b_blockno (bufs s ! b);
              i = (case first_idx (\<lambda>x. x = bn) (take (log_n s) (lh_block (logs s))) of
                     Some i \<Rightarrow> i | None \<Rightarrow> log_n s);
              s = upd_log (\<lambda>l. l\<lparr>lh_block := (lh_block l)[i := bn]\<rparr>) s;
              s = (if of_nat i = lh_n (logs s) then upd_log (\<lambda>l. l\<lparr>lh_n := lh_n l + 1\<rparr>) s else s);
              s = upd_buf b (\<lambda>k. k\<lparr>b_dirty := True\<rparr>) s
          in krelease LogLk s))"

end
