(* ===== verification/Inode.thy ===== *)
theory Inode
  imports Log
begin

text \<open>
  The first half of \<open>fs.c\<close>: allocation of disk blocks, the inode cache, and the block map of an
  inode.  An inode pointer is an index into \<open>inodes\<close>, \<open>None\<close> the null pointer where the code
  tests for it.  On disk an inode has 64 bytes: \<open>type\<close>, \<open>major\<close>, \<open>minor\<close>, \<open>nlink\<close> (16 bits each),
  \<open>size\<close> and 13 block addresses.
\<close>

abbreviation (input) NINDIRECT :: nat where "NINDIRECT \<equiv> 128"
abbreviation (input) MAXFILE :: nat where "MAXFILE \<equiv> 140"
abbreviation (input) IPB :: "32 word" where "IPB \<equiv> 8"
abbreviation (input) BPB :: "32 word" where "BPB \<equiv> 4096"
abbreviation (input) DIRSIZ :: nat where "DIRSIZ \<equiv> 14"
abbreviation (input) T_DIR :: "16 word" where "T_DIR \<equiv> 1"
abbreviation (input) T_FILE :: "16 word" where "T_FILE \<equiv> 2"
abbreviation (input) T_DEV :: "16 word" where "T_DEV \<equiv> 3"

definition get16 :: "block \<Rightarrow> nat \<Rightarrow> 16 word" where
  "get16 blk off = ucast (blk ! off) OR push_bit 8 (ucast (blk ! (off + 1)))"

definition put16 :: "block \<Rightarrow> nat \<Rightarrow> 16 word \<Rightarrow> block" where
  "put16 blk off v = blk[off := ucast v, off + 1 := ucast (drop_bit 8 v)]"

definition IBLOCK :: "32 word \<Rightarrow> kernel \<Rightarrow> 32 word" where
  "IBLOCK i s = i div IPB + sb_inodestart (fsb s)"

definition BBLOCK :: "32 word \<Rightarrow> kernel \<Rightarrow> 32 word" where
  "BBLOCK b s = b div BPB + sb_bmapstart (fsb s)"

section \<open>Disk blocks\<close>

definition bzero :: "32 word \<Rightarrow> 32 word \<Rightarrow> kernel \<Rightarrow> unit kres" where
  "bzero dev bno s =
     bnd (bread dev bno s) (\<lambda>b s.
     bnd (log_write b (upd_buf b (\<lambda>k. k\<lparr>b_data := replicate BSIZE 0\<rparr>) s)) (\<lambda>_ s.
     brelse b s))"

definition bit_clear :: "block \<Rightarrow> nat \<Rightarrow> bool" where
  "bit_clear d bi = (d ! (bi div 8) AND push_bit (bi mod 8) 1 = 0)"

definition set_bit_at :: "block \<Rightarrow> nat \<Rightarrow> block" where
  "set_bit_at d bi = d[bi div 8 := d ! (bi div 8) OR push_bit (bi mod 8) 1]"

definition clear_bit_at :: "block \<Rightarrow> nat \<Rightarrow> block" where
  "clear_bit_at d bi = d[bi div 8 := d ! (bi div 8) AND NOT (push_bit (bi mod 8) 1)]"

text \<open>The loop of \<open>balloc\<close> from block \<open>b\<close> on; \<open>b + BPB\<close> only wraps for a disk of almost
  \<open>2^32\<close> blocks.\<close>

function balloc_from :: "32 word \<Rightarrow> 32 word \<Rightarrow> kernel \<Rightarrow> 32 word kres" where
  "balloc_from dev b s =
     (if \<not> b < sb_size (fsb s) then Panic ''balloc: out of blocks''
      else bnd (bread dev (BBLOCK b s) s) (\<lambda>bp s.
        case first_idx (bit_clear (b_data (bufs s ! bp))) [0..<min 4096 (unat (sb_size (fsb s)) - unat b)] of
          Some bi \<Rightarrow>
            bnd (log_write bp (upd_buf bp (\<lambda>k. k\<lparr>b_data := set_bit_at (b_data k) bi\<rparr>) s)) (\<lambda>_ s.
            bnd (brelse bp s) (\<lambda>_ s.
            bnd (bzero dev (b + of_nat bi) s) (\<lambda>_ s. Ok (b + of_nat bi) s)))
        | None \<Rightarrow>
            bnd (brelse bp s) (\<lambda>_ s.
              if b + BPB \<le> b then Spin else balloc_from dev (b + BPB) s)))"
  by pat_completeness auto
termination
proof (relation "measure (\<lambda>(dev, b, s). 2 ^ 32 - unat b)", goal_cases)
  case prems: (2 dev b)
  then have "unat b < unat (b + 4096)" by (simp add: word_less_nat_alt not_le)
  then show ?case using unat_lt32[of "b + 4096"] by simp
qed simp

declare balloc_from.simps [simp del]

definition balloc :: "32 word \<Rightarrow> kernel \<Rightarrow> 32 word kres" where
  "balloc dev s = balloc_from dev 0 s"

definition bfree :: "32 word \<Rightarrow> 32 word \<Rightarrow> kernel \<Rightarrow> unit kres" where
  "bfree dev b s =
     bnd (readsb dev s) (\<lambda>sb s.
     let s = s\<lparr>fsb := sb\<rparr> in
     bnd (bread dev (BBLOCK b s) s) (\<lambda>bp s.
       let bi = unat (b mod BPB) in
       if bit_clear (b_data (bufs s ! bp)) bi then Panic ''freeing free block''
       else bnd (log_write bp (upd_buf bp (\<lambda>k. k\<lparr>b_data := clear_bit_at (b_data k) bi\<rparr>) s)) (\<lambda>_ s.
       brelse bp s)))"

section \<open>The inode cache\<close>

definition upd_inode :: "nat \<Rightarrow> (inode \<Rightarrow> inode) \<Rightarrow> kernel \<Rightarrow> kernel" where
  "upd_inode i f s = s\<lparr>inodes := (inodes s)[i := f (inodes s ! i)]\<rparr>"

definition iinit :: "32 word \<Rightarrow> kernel \<Rightarrow> unit kres" where
  "iinit dev s =
     (let s = s\<lparr>mach := initlock IcacheLk ''icache'' (mach s)\<rparr>;
          s = fold (\<lambda>i s. initsleeplock (InodeSl i) ''inode'' s) [0..<NINODE] s
      in bnd (readsb dev s) (\<lambda>sb s.
         cprintf (Some (bytes_of
           ''sb: size %d nblocks %d ninodes %d nlog %d logstart %d inodestart %d bmap start %d'' @ [10]))
           [PInt (sb_size sb), PInt (sb_nblocks sb), PInt (sb_ninodes sb), PInt (sb_nlog sb),
            PInt (sb_logstart sb), PInt (sb_inodestart sb), PInt (sb_bmapstart sb)] (s\<lparr>fsb := sb\<rparr>)))"

definition iget :: "32 word \<Rightarrow> 32 word \<Rightarrow> kernel \<Rightarrow> nat kres" where
  "iget dev inum s =
     bnd (kacquire IcacheLk s) (\<lambda>_ s.
     case first_idx (\<lambda>ip. s_lt 0 (i_ref ip) \<and> i_dev ip = dev \<and> i_inum ip = inum) (inodes s) of
       Some i \<Rightarrow>
         bnd (krelease IcacheLk (upd_inode i (\<lambda>ip. ip\<lparr>i_ref := i_ref ip + 1\<rparr>) s)) (\<lambda>_ s. Ok i s)
     | None \<Rightarrow>
       (case first_idx (\<lambda>ip. i_ref ip = 0) (inodes s) of
          None \<Rightarrow> Panic ''iget: no inodes''
        | Some i \<Rightarrow>
            bnd (krelease IcacheLk (upd_inode i (\<lambda>ip. ip\<lparr>i_dev := dev, i_inum := inum, i_ref := 1,
                   i_valid := False\<rparr>) s)) (\<lambda>_ s. Ok i s)))"

text \<open>The fields of the inode at slot \<open>k\<close> of an inode block.\<close>

definition read_dinode :: "block \<Rightarrow> nat \<Rightarrow> inode \<Rightarrow> inode" where
  "read_dinode d k ip =
     ip\<lparr>i_type := get16 d (64 * k), i_major := get16 d (64 * k + 2), i_minor := get16 d (64 * k + 4),
        i_nlink := get16 d (64 * k + 6), i_size := get32 d (64 * k + 8),
        i_addrs := map (\<lambda>j. get32 d (64 * k + 12 + 4 * j)) [0..<13]\<rparr>"

definition write_dinode :: "block \<Rightarrow> nat \<Rightarrow> inode \<Rightarrow> block" where
  "write_dinode d k ip =
     (let d = put16 d (64 * k) (i_type ip);
          d = put16 d (64 * k + 2) (i_major ip);
          d = put16 d (64 * k + 4) (i_minor ip);
          d = put16 d (64 * k + 6) (i_nlink ip);
          d = put32 d (64 * k + 8) (i_size ip)
      in fold (\<lambda>j d. put32 d (64 * k + 12 + 4 * j) (i_addrs ip ! j)) [0..<13] d)"

text \<open>The loop of \<open>ialloc\<close>; \<open>n\<close> counts the inode numbers left.\<close>

primrec ialloc_from :: "nat \<Rightarrow> 32 word \<Rightarrow> 16 word \<Rightarrow> 32 word \<Rightarrow> kernel \<Rightarrow> nat kres" where
  "ialloc_from 0 dev ty inum s = Panic ''ialloc: no inodes''"
| "ialloc_from (Suc n) dev ty inum s =
     bnd (bread dev (IBLOCK inum s) s) (\<lambda>bp s.
       let k = unat (inum mod IPB) in
       if get16 (b_data (bufs s ! bp)) (64 * k) = 0 then
         bnd (log_write bp (upd_buf bp (\<lambda>b. b\<lparr>b_data := put16 (take (64 * k) (b_data b) @ replicate 64 0
                  @ drop (64 * k + 64) (b_data b)) (64 * k) ty\<rparr>) s)) (\<lambda>_ s.
         bnd (brelse bp s) (\<lambda>_ s. iget dev inum s))
       else bnd (brelse bp s) (\<lambda>_ s. ialloc_from n dev ty (inum + 1) s))"

definition ialloc :: "32 word \<Rightarrow> 16 word \<Rightarrow> kernel \<Rightarrow> nat kres" where
  "ialloc dev ty s = ialloc_from (unat (sb_ninodes (fsb s)) - 1) dev ty 1 s"

definition iupdate :: "nat \<Rightarrow> kernel \<Rightarrow> unit kres" where
  "iupdate ip s =
     bnd (bread (i_dev (inodes s ! ip)) (IBLOCK (i_inum (inodes s ! ip)) s) s) (\<lambda>bp s.
     bnd (log_write bp (upd_buf bp (\<lambda>b. b\<lparr>b_data :=
            write_dinode (b_data b) (unat (i_inum (inodes s ! ip) mod IPB)) (inodes s ! ip)\<rparr>) s)) (\<lambda>_ s.
     brelse bp s))"

definition idup :: "nat \<Rightarrow> kernel \<Rightarrow> nat kres" where
  "idup ip s =
     bnd (kacquire IcacheLk s) (\<lambda>_ s.
     bnd (krelease IcacheLk (upd_inode ip (\<lambda>k. k\<lparr>i_ref := i_ref k + 1\<rparr>) s)) (\<lambda>_ s. Ok ip s))"

definition ilock :: "nat option \<Rightarrow> kernel \<Rightarrow> unit kres" where
  "ilock p s =
     (case p of None \<Rightarrow> Panic ''ilock''
      | Some ip \<Rightarrow>
        if s_lt (i_ref (inodes s ! ip)) 1 then Panic ''ilock''
        else bnd (acquiresleep (InodeSl ip) s) (\<lambda>_ s.
          if i_valid (inodes s ! ip) then Ok () s
          else bnd (bread (i_dev (inodes s ! ip)) (IBLOCK (i_inum (inodes s ! ip)) s) s) (\<lambda>bp s.
            let s = upd_inode ip (read_dinode (b_data (bufs s ! bp)) (unat (i_inum (inodes s ! ip) mod IPB))) s
            in bnd (brelse bp s) (\<lambda>_ s.
              let s = upd_inode ip (\<lambda>k. k\<lparr>i_valid := True\<rparr>) s in
              if i_type (inodes s ! ip) = 0 then Panic ''ilock: no type'' else Ok () s))))"

definition iunlock :: "nat option \<Rightarrow> kernel \<Rightarrow> unit kres" where
  "iunlock p s =
     (case p of None \<Rightarrow> Panic ''iunlock''
      | Some ip \<Rightarrow>
        bnd (holdingsleep (InodeSl ip) s) (\<lambda>h s.
          if \<not> h \<or> s_lt (i_ref (inodes s ! ip)) 1 then Panic ''iunlock''
          else releasesleep (InodeSl ip) s))"

section \<open>The blocks of an inode\<close>

definition bmap :: "nat \<Rightarrow> 32 word \<Rightarrow> kernel \<Rightarrow> 32 word kres" where
  "bmap ip bn s =
     (if bn < of_nat NDIRECT then
        let a = i_addrs (inodes s ! ip) ! unat bn in
        if a = 0 then
          bnd (balloc (i_dev (inodes s ! ip)) s) (\<lambda>a s.
            Ok a (upd_inode ip (\<lambda>k. k\<lparr>i_addrs := (i_addrs k)[unat bn := a]\<rparr>) s))
        else Ok a s
      else
        let bn = bn - of_nat NDIRECT in
        if bn < of_nat NINDIRECT then
          let a = i_addrs (inodes s ! ip) ! NDIRECT in
          bnd (if a = 0 then
                 bnd (balloc (i_dev (inodes s ! ip)) s) (\<lambda>a s.
                   Ok a (upd_inode ip (\<lambda>k. k\<lparr>i_addrs := (i_addrs k)[NDIRECT := a]\<rparr>) s))
               else Ok a s) (\<lambda>a s.
          bnd (bread (i_dev (inodes s ! ip)) a s) (\<lambda>bp s.
            let e = get32 (b_data (bufs s ! bp)) (4 * unat bn) in
            bnd (if e = 0 then
                   bnd (balloc (i_dev (inodes s ! ip)) s) (\<lambda>e s.
                   bnd (log_write bp (upd_buf bp (\<lambda>b. b\<lparr>b_data := put32 (b_data b) (4 * unat bn) e\<rparr>) s)) (\<lambda>_ s.
                   Ok e s))
                 else Ok e s) (\<lambda>e s.
            bnd (brelse bp s) (\<lambda>_ s. Ok e s))))
        else Panic ''bmap: out of range'')"

primrec itrunc_direct :: "nat list \<Rightarrow> nat \<Rightarrow> kernel \<Rightarrow> unit kres" where
  "itrunc_direct [] ip s = Ok () s"
| "itrunc_direct (i # is) ip s =
     (let a = i_addrs (inodes s ! ip) ! i in
      bnd (if a \<noteq> 0 then
             bnd (bfree (i_dev (inodes s ! ip)) a s) (\<lambda>_ s.
               Ok () (upd_inode ip (\<lambda>k. k\<lparr>i_addrs := (i_addrs k)[i := 0]\<rparr>) s))
           else Ok () s) (\<lambda>_ s. itrunc_direct is ip s))"

primrec itrunc_indirect :: "nat list \<Rightarrow> nat \<Rightarrow> nat \<Rightarrow> kernel \<Rightarrow> unit kres" where
  "itrunc_indirect [] bp ip s = Ok () s"
| "itrunc_indirect (j # js) bp ip s =
     (let a = get32 (b_data (bufs s ! bp)) (4 * j) in
      bnd (if a \<noteq> 0 then bfree (i_dev (inodes s ! ip)) a s else Ok () s) (\<lambda>_ s.
      itrunc_indirect js bp ip s))"

definition itrunc :: "nat \<Rightarrow> kernel \<Rightarrow> unit kres" where
  "itrunc ip s =
     bnd (itrunc_direct [0..<NDIRECT] ip s) (\<lambda>_ s.
     let a = i_addrs (inodes s ! ip) ! NDIRECT in
     bnd (if a \<noteq> 0 then
            bnd (bread (i_dev (inodes s ! ip)) a s) (\<lambda>bp s.
            bnd (itrunc_indirect [0..<NINDIRECT] bp ip s) (\<lambda>_ s.
            bnd (brelse bp s) (\<lambda>_ s.
            bnd (bfree (i_dev (inodes s ! ip)) (i_addrs (inodes s ! ip) ! NDIRECT) s) (\<lambda>_ s.
              Ok () (upd_inode ip (\<lambda>k. k\<lparr>i_addrs := (i_addrs k)[NDIRECT := 0]\<rparr>) s)))))
          else Ok () s) (\<lambda>_ s.
     iupdate ip (upd_inode ip (\<lambda>k. k\<lparr>i_size := 0\<rparr>) s)))"

definition iput :: "nat \<Rightarrow> kernel \<Rightarrow> unit kres" where
  "iput ip s =
     bnd (acquiresleep (InodeSl ip) s) (\<lambda>_ s.
     bnd (if i_valid (inodes s ! ip) \<and> i_nlink (inodes s ! ip) = 0 then
            bnd (kacquire IcacheLk s) (\<lambda>_ s.
            let r = i_ref (inodes s ! ip) in
            bnd (krelease IcacheLk s) (\<lambda>_ s.
              if r = 1 then
                bnd (itrunc ip s) (\<lambda>_ s.
                bnd (iupdate ip (upd_inode ip (\<lambda>k. k\<lparr>i_type := 0\<rparr>) s)) (\<lambda>_ s.
                  Ok () (upd_inode ip (\<lambda>k. k\<lparr>i_valid := False\<rparr>) s)))
              else Ok () s))
          else Ok () s) (\<lambda>_ s.
     bnd (releasesleep (InodeSl ip) s) (\<lambda>_ s.
     bnd (kacquire IcacheLk s) (\<lambda>_ s.
     krelease IcacheLk (upd_inode ip (\<lambda>k. k\<lparr>i_ref := i_ref k - 1\<rparr>) s)))))"

definition iunlockput :: "nat \<Rightarrow> kernel \<Rightarrow> unit kres" where
  "iunlockput ip s = bnd (iunlock (Some ip) s) (\<lambda>_ s. iput ip s)"

record stat =
  st_type :: "16 word"
  st_dev :: "32 word"
  st_ino :: "32 word"
  st_nlink :: "16 word"
  st_size :: "32 word"

definition stati :: "nat \<Rightarrow> kernel \<Rightarrow> stat" where
  "stati ip s = (let k = inodes s ! ip in
     \<lparr>st_type = i_type k, st_dev = i_dev k, st_ino = i_inum k, st_nlink = i_nlink k, st_size = i_size k\<rparr>)"

end
