(* ===== verification/Console.thy ===== *)
theory Console
  imports Inode
begin

text \<open>
  Console input and the console device, \<open>console.c\<close>.  The keyboard or serial interrupt hands
  \<open>consoleintr\<close> a function that returns the pending characters one by one and then a negative
  number; here it is the list of these characters.  A read returns the bytes it stores at \<open>dst\<close>
  together with its result.
\<close>

abbreviation (input) INPUT_BUF :: nat where "INPUT_BUF \<equiv> 128"

definition upd_input :: "(inputbuf \<Rightarrow> inputbuf) \<Rightarrow> kernel \<Rightarrow> kernel" where
  "upd_input f s = s\<lparr>input := f (input s)\<rparr>"

text \<open>\<open>input.buf[i % INPUT_BUF]\<close>\<close>

definition in_at :: "kernel \<Rightarrow> 32 word \<Rightarrow> byte" where
  "in_at s i = in_buf (input s) ! (unat i mod INPUT_BUF)"

section \<open>Line editing\<close>

text \<open>Control-U: delete back to the start of the line; \<open>n\<close> is the number of characters between
  \<open>w\<close> and \<open>e\<close>.\<close>

primrec kill_line :: "nat \<Rightarrow> kernel \<Rightarrow> unit kres" where
  "kill_line 0 s = Ok () s"
| "kill_line (Suc n) s =
     (if in_at s (in_e (input s) - 1) \<noteq> 10 then
        bnd (consputc 0x100 (upd_input (\<lambda>b. b\<lparr>in_e := in_e b - 1\<rparr>) s)) (\<lambda>_ s. kill_line n s)
      else Ok () s)"

text \<open>The default case of the switch.\<close>

definition type_char :: "32 word \<Rightarrow> kernel \<Rightarrow> unit kres" where
  "type_char c s =
     (if c \<noteq> 0 \<and> in_e (input s) - in_r (input s) < of_nat INPUT_BUF then
        let c = (if c = 13 then 10 else c);
            s = upd_input (\<lambda>b. b\<lparr>in_buf := (in_buf b)[unat (in_e b) mod INPUT_BUF := ucast c],
                                 in_e := in_e b + 1\<rparr>) s
        in bnd (consputc c s) (\<lambda>_ s.
          if c = 10 \<or> c = 4 \<or> in_e (input s) = in_r (input s) + of_nat INPUT_BUF
          then wakeup ChInput (upd_input (\<lambda>b. b\<lparr>in_w := in_e b\<rparr>) s)
          else Ok () s)
      else Ok () s)"

definition console_char :: "32 word \<Rightarrow> kernel \<Rightarrow> unit kres" where
  "console_char c s =
     (if c = 16 then Ok () s
      else if c = 21 then kill_line (unat (in_e (input s) - in_w (input s))) s
      else if c = 8 \<or> c = 0x7F then
        (if in_e (input s) \<noteq> in_w (input s)
         then consputc 0x100 (upd_input (\<lambda>b. b\<lparr>in_e := in_e b - 1\<rparr>) s) else Ok () s)
      else type_char c s)"

primrec console_chars :: "32 word list \<Rightarrow> kernel \<Rightarrow> unit kres" where
  "console_chars [] s = Ok () s"
| "console_chars (c # cs) s = bnd (console_char c s) (\<lambda>_ s. console_chars cs s)"

definition consoleintr :: "32 word list \<Rightarrow> kernel \<Rightarrow> unit kres" where
  "consoleintr cs s =
     bnd (kacquire ConsLk s) (\<lambda>_ s.
     bnd (console_chars cs s) (\<lambda>_ s.
     bnd (krelease ConsLk s) (\<lambda>_ s.
     if 16 \<in> set cs then procdump s else Ok () s)))"

section \<open>The device\<close>

definition consoleread_end :: "nat \<Rightarrow> byte list \<Rightarrow> kernel \<Rightarrow> (32 word \<times> byte list) kres" where
  "consoleread_end ip acc s =
     bnd (krelease ConsLk s) (\<lambda>_ s.
     bnd (ilock (Some ip) s) (\<lambda>_ s. Ok (of_nat (length acc), acc) s))"

text \<open>The loop with \<open>k\<close> bytes still wanted and \<open>acc\<close> stored; the result \<open>target - n\<close> is the
  number of bytes stored.  When the line buffer is empty the process sleeps and continues with
  \<open>consoleread_back\<close>.\<close>

primrec consoleread_loop ::
    "nat \<Rightarrow> nat \<Rightarrow> nat \<Rightarrow> byte list \<Rightarrow> kernel \<Rightarrow> (32 word \<times> byte list) kres" where
  "consoleread_loop 0 ip target acc s = consoleread_end ip acc s"
| "consoleread_loop (Suc k) ip target acc s =
     (if in_r (input s) = in_w (input s) then
        bnd (curproc s) (\<lambda>i s.
          if killed (procs s ! i) then
            bnd (krelease ConsLk s) (\<lambda>_ s.
            bnd (ilock (Some ip) s) (\<lambda>_ s. Ok (- 1, acc) s))
          else bnd (sleep ChInput (Some ConsLk) s) (\<lambda>_ s. Ok (0, acc) s))
      else
        let c = in_at s (in_r (input s));
            s' = upd_input (\<lambda>b. b\<lparr>in_r := in_r b + 1\<rparr>) s
        in if c = 4 then consoleread_end ip acc (if Suc k < target then s else s')
           else if c = 10 then consoleread_end ip (acc @ [c]) s'
           else consoleread_loop k ip target (acc @ [c]) s')"

definition consoleread_back ::
    "nat \<Rightarrow> bool \<Rightarrow> nat \<Rightarrow> nat \<Rightarrow> nat \<Rightarrow> byte list \<Rightarrow> kernel \<Rightarrow> (32 word \<times> byte list) kres" where
  "consoleread_back i ie k ip target acc s =
     bnd (sleep_back i ConsLk ie s) (\<lambda>_ s. consoleread_loop k ip target acc s)"

definition consoleread :: "nat \<Rightarrow> 32 word \<Rightarrow> kernel \<Rightarrow> (32 word \<times> byte list) kres" where
  "consoleread ip n s =
     bnd (iunlock (Some ip) s) (\<lambda>_ s.
     bnd (kacquire ConsLk s) (\<lambda>_ s. consoleread_loop (nat (sint n)) ip (nat (sint n)) [] s))"

text \<open>\<open>buf\<close> are the bytes to write.\<close>

definition consolewrite :: "nat \<Rightarrow> byte list \<Rightarrow> kernel \<Rightarrow> 32 word kres" where
  "consolewrite ip buf s =
     bnd (iunlock (Some ip) s) (\<lambda>_ s.
     bnd (kacquire ConsLk s) (\<lambda>_ s.
     bnd (consputs (map ucast buf) s) (\<lambda>_ s.
     bnd (krelease ConsLk s) (\<lambda>_ s.
     bnd (ilock (Some ip) s) (\<lambda>_ s. Ok (of_nat (length buf)) s)))))"

definition consoleinit :: "kernel \<Rightarrow> kernel" where
  "consoleinit s =
     s\<lparr>mach := initlock ConsLk ''console'' (mach s), devsw := (devsw s)(1 := Some ConsoleOps),
       cons_locking := True\<rparr>"

end
