(* ===== verification/Fs.thy ===== *)
theory Fs
  imports Console
begin

text \<open>
  The second half of \<open>fs.c\<close>: file content, directories and path names.  \<open>readi\<close> returns the bytes
  it stores at \<open>dst\<close>, \<open>writei\<close> is given the bytes found at \<open>src\<close>; the device routines are
  those of theory \<open>Console\<close>.  Path and name strings are byte lists without the final NUL; the
  buffer that \<open>skipelem\<close> fills has \<open>DIRSIZ\<close> bytes.
\<close>

section \<open>Content\<close>

definition dev_ops :: "nat \<Rightarrow> kernel \<Rightarrow> devops option" where
  "dev_ops ip s =
     (let major = i_major (inodes s ! ip) in
      if sint major < 0 \<or> sint major \<ge> 10 then None else devsw s (unat major))"

text \<open>The loop of \<open>readi\<close>, with \<open>n - tot\<close> bytes left.\<close>

function readi_loop :: "nat \<Rightarrow> 32 word \<Rightarrow> 32 word \<Rightarrow> byte list \<Rightarrow> kernel \<Rightarrow> byte list kres" where
  "readi_loop ip off left acc s =
     (if left = 0 then Ok acc s
      else bnd (bmap ip (off div of_nat BSIZE) s) (\<lambda>a s.
        bnd (bread (i_dev (inodes s ! ip)) a s) (\<lambda>bp s.
          let m = min left (of_nat BSIZE - off mod of_nat BSIZE);
              bytes = take (unat m) (drop (unat (off mod of_nat BSIZE)) (b_data (bufs s ! bp)))
          in bnd (brelse bp s) (\<lambda>_ s. readi_loop ip (off + m) (left - m) (acc @ bytes) s))))"
  by pat_completeness auto

lemma chunk_pos: "left \<noteq> 0 \<Longrightarrow> 0 < min left (512 - off mod (512 :: 32 word))"
proof -
  assume l: "left \<noteq> 0"
  have "unat (off mod 512) < 512" by (simp add: unat_mod)
  then have "unat (512 - off mod 512) = 512 - unat (off mod 512)" by (simp add: unat_sub_if')
  then have "0 < unat (512 - off mod 512)" using \<open>unat (off mod 512) < 512\<close> by simp
  then have "0 < 512 - off mod 512" by (simp add: word_less_nat_alt)
  then show ?thesis using l by (simp add: min_def word_gt_0)
qed

lemma chunk_less:
  assumes "left \<noteq> 0" shows "unat (left - min left (512 - off mod (512 :: 32 word))) < unat left"
proof -
  let ?m = "min left (512 - off mod 512)"
  have "?m \<le> left" by simp
  then have "unat (left - ?m) = unat left - unat ?m" by (rule unat_sub)
  moreover have "0 < unat ?m" using chunk_pos[OF assms, of off] by (simp add: word_less_nat_alt)
  moreover have "unat ?m \<le> unat left" using \<open>?m \<le> left\<close> by (simp add: word_le_nat_alt)
  ultimately show ?thesis by linarith
qed

termination readi_loop
  by (relation "measure (\<lambda>(ip, off, left, acc, s). unat left)") (simp_all add: chunk_less)

declare readi_loop.simps [simp del]

definition readi :: "nat \<Rightarrow> 32 word \<Rightarrow> 32 word \<Rightarrow> kernel \<Rightarrow> (32 word \<times> byte list) kres" where
  "readi ip off n s =
     (if i_type (inodes s ! ip) = T_DEV then
        case dev_ops ip s of None \<Rightarrow> Ok (- 1, []) s | Some ConsoleOps \<Rightarrow> consoleread ip n s
      else
        let fsize = i_size (inodes s ! ip) in
        if off > fsize \<or> off + n < off then Ok (- 1, []) s
        else
          let n = (if off + n > fsize then fsize - off else n) in
          bnd (readi_loop ip off n [] s) (\<lambda>bytes s. Ok (n, bytes) s))"

function writei_loop :: "nat \<Rightarrow> 32 word \<Rightarrow> 32 word \<Rightarrow> byte list \<Rightarrow> kernel \<Rightarrow> 32 word kres" where
  "writei_loop ip off left src s =
     (if left = 0 then Ok off s
      else bnd (bmap ip (off div of_nat BSIZE) s) (\<lambda>a s.
        bnd (bread (i_dev (inodes s ! ip)) a s) (\<lambda>bp s.
          let m = min left (of_nat BSIZE - off mod of_nat BSIZE);
              o1 = unat (off mod of_nat BSIZE);
              s = upd_buf bp (\<lambda>b. b\<lparr>b_data := take o1 (b_data b) @ take (unat m) src
                                              @ drop (o1 + unat m) (b_data b)\<rparr>) s
          in bnd (log_write bp s) (\<lambda>_ s.
             bnd (brelse bp s) (\<lambda>_ s. writei_loop ip (off + m) (left - m) (drop (unat m) src) s)))))"
  by pat_completeness auto
termination
  by (relation "measure (\<lambda>(ip, off, left, src, s). unat left)") (simp_all add: chunk_less)

declare writei_loop.simps [simp del]

definition writei :: "nat \<Rightarrow> byte list \<Rightarrow> 32 word \<Rightarrow> 32 word \<Rightarrow> kernel \<Rightarrow> 32 word kres" where
  "writei ip src off n s =
     (if i_type (inodes s ! ip) = T_DEV then
        case dev_ops ip s of None \<Rightarrow> Ok (- 1) s | Some ConsoleOps \<Rightarrow> consolewrite ip (take (nat (sint n)) src) s
      else if off > i_size (inodes s ! ip) \<or> off + n < off then Ok (- 1) s
      else if off + n > of_nat (MAXFILE * BSIZE) then Ok (- 1) s
      else bnd (writei_loop ip off n src s) (\<lambda>off s.
        if n > 0 \<and> off > i_size (inodes s ! ip)
        then bnd (iupdate ip (upd_inode ip (\<lambda>k. k\<lparr>i_size := off\<rparr>) s)) (\<lambda>_ s. Ok n s)
        else Ok n s))"

section \<open>Directories\<close>

definition namecmp :: "byte list \<Rightarrow> byte list \<Rightarrow> int" where
  "namecmp a b = strncmp (seq_of a) (seq_of b) (of_nat DIRSIZ)"

text \<open>A directory entry is 16 bytes: the inode number (16 bits) and the name.\<close>

function dirlookup_from :: "nat \<Rightarrow> byte list \<Rightarrow> 32 word \<Rightarrow> kernel \<Rightarrow> (nat \<times> 32 word) option kres" where
  "dirlookup_from dp name off s =
     (if \<not> off < i_size (inodes s ! dp) then Ok None s
      else bnd (readi dp off 16 s) (\<lambda>r s.
        if fst r \<noteq> 16 then Panic ''dirlookup read''
        else
          let inum = get16 (snd r) 0 in
          if inum \<noteq> 0 \<and> namecmp name (drop 2 (snd r)) = 0 then
            bnd (iget (i_dev (inodes s ! dp)) (ucast inum) s) (\<lambda>ip s. Ok (Some (ip, off)) s)
          else if off + 16 \<le> off then Spin
          else dirlookup_from dp name (off + 16) s))"
  by pat_completeness auto
termination
proof (relation "measure (\<lambda>(dp, name, off, s). 2 ^ 32 - unat off)", goal_cases)
  case prems: (2 dp name off)
  then have "unat off < unat (off + 16)" by (simp add: word_less_nat_alt not_le)
  then show ?case using unat_lt32[of "off + 16"] by simp
qed simp

declare dirlookup_from.simps [simp del]

text \<open>\<open>dirlookup\<close>: the inode and the offset of the entry (what \<open>*poff\<close> is set to).\<close>

definition dirlookup :: "nat \<Rightarrow> byte list \<Rightarrow> kernel \<Rightarrow> (nat \<times> 32 word) option kres" where
  "dirlookup dp name s =
     (if i_type (inodes s ! dp) \<noteq> T_DIR then Panic ''dirlookup not DIR''
      else dirlookup_from dp name 0 s)"

function empty_dirent :: "nat \<Rightarrow> 32 word \<Rightarrow> kernel \<Rightarrow> 32 word kres" where
  "empty_dirent dp off s =
     (if \<not> off < i_size (inodes s ! dp) then Ok off s
      else bnd (readi dp off 16 s) (\<lambda>r s.
        if fst r \<noteq> 16 then Panic ''dirlink read''
        else if get16 (snd r) 0 = 0 then Ok off s
        else if off + 16 \<le> off then Spin
        else empty_dirent dp (off + 16) s))"
  by pat_completeness auto
termination
proof (relation "measure (\<lambda>(dp, off, s). 2 ^ 32 - unat off)", goal_cases)
  case prems: (2 dp off)
  then have "unat off < unat (off + 16)" by (simp add: word_less_nat_alt not_le)
  then show ?case using unat_lt32[of "off + 16"] by simp
qed simp

declare empty_dirent.simps [simp del]

definition dirent_bytes :: "16 word \<Rightarrow> byte list \<Rightarrow> byte list" where
  "dirent_bytes inum name = [ucast inum, ucast (drop_bit 8 inum)] @ strncpy (seq_of name) (of_nat DIRSIZ)"

definition dirlink :: "nat \<Rightarrow> byte list \<Rightarrow> 32 word \<Rightarrow> kernel \<Rightarrow> 32 word kres" where
  "dirlink dp name inum s =
     bnd (dirlookup dp name s) (\<lambda>r s.
       case r of Some (ip, _) \<Rightarrow> bnd (iput ip s) (\<lambda>_ s. Ok (- 1) s)
       | None \<Rightarrow>
         bnd (empty_dirent dp 0 s) (\<lambda>off s.
         bnd (writei dp (dirent_bytes (ucast inum) name) off 16 s) (\<lambda>r s.
           if r \<noteq> 16 then Panic ''dirlink'' else Ok 0 s)))"

section \<open>Paths\<close>

abbreviation (input) slash :: byte where "slash \<equiv> 47"

text \<open>\<open>skipelem path name\<close>: the rest of the path and the new contents of the name buffer.\<close>

definition skipelem :: "byte list \<Rightarrow> byte list \<Rightarrow> (byte list \<times> byte list) option" where
  "skipelem path name =
     (let path = dropWhile (\<lambda>c. c = slash) path in
      if path = [] then None
      else
        let e = takeWhile (\<lambda>c. c \<noteq> slash) path;
            path = dropWhile (\<lambda>c. c \<noteq> slash) path;
            name = (if length e \<ge> DIRSIZ then over name (take DIRSIZ e) else over name (e @ [0]))
        in Some (dropWhile (\<lambda>c. c = slash) path, name))"

lemma skipelem_shorter: "skipelem path name = Some (rest, name') \<Longrightarrow> length rest < length path"
proof -
  assume a: "skipelem path name = Some (rest, name')"
  let ?p = "dropWhile (\<lambda>c. c = slash) path"
  have ne: "?p \<noteq> []" and r: "rest = dropWhile (\<lambda>c. c = slash) (dropWhile (\<lambda>c. c \<noteq> slash) ?p)"
    using a by (auto simp: skipelem_def Let_def split: if_splits)
  have "hd ?p \<noteq> slash" using ne hd_dropWhile by blast
  then obtain x xs where "?p = x # xs" "x \<noteq> slash" using ne by (cases ?p) auto
  then have "length rest \<le> length xs"
    using r by (simp add: le_trans[OF length_dropWhile_le length_dropWhile_le])
  also have "\<dots> < length ?p" using \<open>?p = x # xs\<close> by simp
  also have "\<dots> \<le> length path" by (rule length_dropWhile_le)
  finally show ?thesis .
qed

function namex_loop :: "nat \<Rightarrow> byte list \<Rightarrow> bool \<Rightarrow> byte list \<Rightarrow> kernel \<Rightarrow> (nat option \<times> byte list) kres" where
  "namex_loop ip path par name s =
     (case skipelem path name of
        None \<Rightarrow>
          if par then bnd (iput ip s) (\<lambda>_ s. Ok (None, name) s) else Ok (Some ip, name) s
      | Some (path, name) \<Rightarrow>
          bnd (ilock (Some ip) s) (\<lambda>_ s.
            if i_type (inodes s ! ip) \<noteq> T_DIR then bnd (iunlockput ip s) (\<lambda>_ s. Ok (None, name) s)
            else if par \<and> path = [] then bnd (iunlock (Some ip) s) (\<lambda>_ s. Ok (Some ip, name) s)
            else bnd (dirlookup ip name s) (\<lambda>r s.
              case r of
                None \<Rightarrow> bnd (iunlockput ip s) (\<lambda>_ s. Ok (None, name) s)
              | Some (nxt, _) \<Rightarrow> bnd (iunlockput ip s) (\<lambda>_ s. namex_loop nxt path par name s))))"
  by pat_completeness auto
termination
  by (relation "measure (\<lambda>(ip, path, par, name, s). length path)") (auto simp: skipelem_shorter)

declare namex_loop.simps [simp del]

definition namex :: "byte list \<Rightarrow> bool \<Rightarrow> byte list \<Rightarrow> kernel \<Rightarrow> (nat option \<times> byte list) kres" where
  "namex path par name s =
     bnd (if path \<noteq> [] \<and> hd path = slash then iget 1 1 s
          else bnd (curproc s) (\<lambda>i s. case cwd (procs s ! i) of None \<Rightarrow> Fault | Some d \<Rightarrow> idup d s))
       (\<lambda>ip s. namex_loop ip path par name s)"

definition namei :: "byte list \<Rightarrow> kernel \<Rightarrow> nat option kres" where
  "namei path s = bnd (namex path False (replicate DIRSIZ 0) s) (\<lambda>r s. Ok (fst r) s)"

definition nameiparent :: "byte list \<Rightarrow> byte list \<Rightarrow> kernel \<Rightarrow> (nat option \<times> byte list) kres" where
  "nameiparent path name s = namex path True name s"

end
