(* ===== verification/Ring.thy ===== *)
theory Ring
  imports Prelude
begin

text \<open>
  Ring buffers with free-running 32-bit counters, as pipes and the console input use them: slot
  \<open>i mod N\<close> of the array belongs to counter value \<open>i\<close>, the counters wrap around at \<open>2^32\<close>, and
  \<open>N\<close> divides \<open>2^32\<close> so that the slots continue seamlessly.  \<open>ring_cont\<close> is the queue such a
  buffer represents.  The locale \<open>byte_fifo\<close> is the interface of a bounded queue of bytes.
\<close>

section \<open>Counters and slots\<close>

definition ring_cont :: "nat \<Rightarrow> 'a list \<Rightarrow> 32 word \<Rightarrow> 32 word \<Rightarrow> 'a list" where
  "ring_cont N d r w = map (\<lambda>k. d ! ((unat r + k) mod N)) [0..<unat (w - r)]"

definition ring_size :: "nat \<Rightarrow> bool" where
  "ring_size N \<longleftrightarrow> 0 < N \<and> N dvd 2 ^ 32 \<and> N < 2 ^ 32"

lemma length_ring_cont [simp]: "length (ring_cont N d r w) = unat (w - r)"
  by (simp add: ring_cont_def)

lemma unat_succ: "unat (x :: 32 word) < 2 ^ 32 - 1 \<Longrightarrow> unat (x + 1) = unat x + 1"
  by (simp add: unat_word_ariths take_bit_nat_eq_self unat_add_lem[THEN iffD1])

lemma slot_wrap:
  assumes "ring_size N"
  shows "unat ((x :: 32 word) + 1) mod N = (unat x + 1) mod N"
proof -
  have "unat (x + 1) = (unat x + 1) mod 2 ^ 32"
    by (simp add: unat_word_ariths take_bit_eq_mod)
  then show ?thesis
    using assms by (simp add: ring_size_def mod_mod_cancel)
qed

lemma slot_of_nat:
  assumes "ring_size N"
  shows "unat ((x :: 32 word) + of_nat k) mod N = (unat x + k) mod N"
proof (induction k)
  case (Suc k)
  have "unat (x + of_nat (Suc k)) mod N = (unat ((x + of_nat k) + 1)) mod N" by (simp add: ac_simps)
  also have "\<dots> = (unat (x + of_nat k) + 1) mod N" by (rule slot_wrap[OF assms])
  also have "\<dots> = (unat (x + of_nat k) mod N + 1) mod N" by (simp only: mod_add_left_eq)
  also have "\<dots> = (unat x + Suc k) mod N" unfolding Suc by (simp add: mod_simps)
  finally show ?case .
qed simp

lemma counter_split: "(w :: 32 word) = r + of_nat (unat (w - r))"
  by simp

lemma ring_put:
  assumes "ring_size N" "length d = N" "unat (w - r) < N"
  shows "ring_cont N (d[unat w mod N := b]) r (w + 1) = ring_cont N d r w @ [b]"
proof -
  let ?n = "unat (w - r)"
  have n: "unat (w + 1 - r) = Suc ?n"
    using assms unat_succ[of "w - r"] by (simp add: ring_size_def algebra_simps)
  have sl: "unat w mod N = (unat r + ?n) mod N"
    using slot_of_nat[OF assms(1), of r ?n] by simp
  have other: "(unat r + k) mod N \<noteq> (unat r + ?n) mod N" if "k < ?n" for k
  proof
    assume "(unat r + k) mod N = (unat r + ?n) mod N"
    then have "N dvd (unat r + ?n) - (unat r + k)"
      using that by (metis mod_eq_dvd_iff_nat add_le_cancel_left less_imp_le)
    then have "N dvd ?n - k" by simp
    then show False using that assms(3) by (auto dest: dvd_imp_le)
  qed
  have sN: "unat w mod N < length d" using assms by (simp add: ring_size_def)
  have "map (\<lambda>k. d[unat w mod N := b] ! ((unat r + k) mod N)) [0..<?n] = map (\<lambda>k. d ! ((unat r + k) mod N)) [0..<?n]"
    using other by (intro map_cong refl) (metis sl nth_list_update_neq atLeastLessThan_iff set_upt)
  then show ?thesis using sN by (simp add: ring_cont_def n sl[symmetric])
qed

lemma ring_get:
  assumes "ring_size N" "w \<noteq> r"
  shows "ring_cont N d r w = d ! (unat r mod N) # ring_cont N d (r + 1) w"
proof -
  have pos: "0 < unat (w - r)" using assms(2) by (simp add: unat_gt_0)
  have n: "unat (w - (r + 1)) = unat (w - r) - 1"
    using unat_pred[of "w - r"] assms(2) by (simp add: algebra_simps)
  have sl: "(unat (r + 1) + k) mod N = (unat r + Suc k) mod N" for k
    by (metis slot_wrap[OF assms(1)] mod_add_left_eq add_Suc_right add_Suc_shift Suc_eq_plus1)
  have "[0..<unat (w - r)] = 0 # map Suc [0..<unat (w - r) - 1]"
    using pos by (metis Suc_pred' map_Suc_upt upt_conv_Cons)
  then show ?thesis by (simp add: ring_cont_def n sl o_def del: upt_Suc)
qed

lemma ring_unput:
  assumes "w \<noteq> r"
  shows "ring_cont N d r (w - 1) = butlast (ring_cont N d r w)"
proof -
  have pos: "0 < unat (w - r)" using assms by (simp add: unat_gt_0)
  have n: "unat (w - 1 - r) = unat (w - r) - 1"
    using unat_pred[of "w - r"] assms by (simp add: algebra_simps)
  have "butlast [0..<unat (w - r)] = [0..<unat (w - r) - 1]"
    using pos by (metis Suc_pred' butlast_snoc upt_Suc_append zero_le)
  then show ?thesis by (simp add: ring_cont_def n map_butlast[symmetric])
qed

lemma ring_empty [simp]: "ring_cont N d r r = []"
  by (simp add: ring_cont_def)

section \<open>Bounded queues of bytes\<close>

text \<open>Taking \<open>k\<close> bytes, one at a time.\<close>

primrec gets :: "('q \<Rightarrow> byte \<times> 'q) \<Rightarrow> nat \<Rightarrow> 'q \<Rightarrow> byte list \<times> 'q" where
  "gets get 0 q = ([], q)"
| "gets get (Suc k) q = (let (b, q) = get q; (bs, q) = gets get k q in (b # bs, q))"

locale byte_fifo =
  fixes ok :: "'q \<Rightarrow> bool" and cont :: "'q \<Rightarrow> byte list" and cap :: nat
    and put :: "byte \<Rightarrow> 'q \<Rightarrow> 'q" and get :: "'q \<Rightarrow> byte \<times> 'q"
  assumes cont_le: "ok q \<Longrightarrow> length (cont q) \<le> cap"
    and put_law: "ok q \<Longrightarrow> length (cont q) < cap \<Longrightarrow> ok (put b q) \<and> cont (put b q) = cont q @ [b]"
    and get_law: "ok q \<Longrightarrow> cont q \<noteq> [] \<Longrightarrow>
          ok (snd (get q)) \<and> cont q = fst (get q) # cont (snd (get q))"
begin

lemma puts:
  assumes "ok q" "length (cont q) + length bs \<le> cap"
  shows "ok (fold put bs q) \<and> cont (fold put bs q) = cont q @ bs"
  using assms
proof (induction bs arbitrary: q)
  case (Cons b bs)
  then have "ok (put b q)" "cont (put b q) = cont q @ [b]" using put_law[of q b] by simp_all
  with Cons.prems Cons.IH[of "put b q"] show ?case by simp
qed simp

lemma gets_take:
  assumes "ok q" "k \<le> length (cont q)"
  shows "fst (gets get k q) = take k (cont q) \<and> ok (snd (gets get k q))
     \<and> cont (snd (gets get k q)) = drop k (cont q)"
  using assms
proof (induction k arbitrary: q)
  case (Suc k)
  obtain b q' where g: "get q = (b, q')" by fastforce
  have ne: "cont q \<noteq> []" using Suc.prems by auto
  then have "ok q'" "cont q = b # cont q'" using get_law[OF Suc.prems(1)] g by simp_all
  with Suc.prems Suc.IH[of q'] g show ?case by (simp add: case_prod_unfold Let_def)
qed simp

text \<open>What goes in comes out, in order.\<close>

lemma put_get_all:
  assumes "ok q" "cont q = []" "length bs \<le> cap"
  shows "fst (gets get (length bs) (fold put bs q)) = bs"
  using puts[OF assms(1), of bs] gets_take[of "fold put bs q" "length bs"] assms by simp

end

end
