(* ===== verification/Pipe.thy ===== *)
theory Pipe
  imports Sleeplock Ring
begin

text \<open>
  Pipes: \<open>pipe.c\<close> without \<open>pipealloc\<close> (theory \<open>File\<close>).  A pipe is named by the address of the page
  it lives in.  \<open>pipewrite\<close> is given the bytes found at \<open>addr\<close>, \<open>piperead\<close> returns the bytes it
  stores there.  When the pipe is full (empty) the process sleeps; it continues with
  \<open>pipewrite_back\<close> (\<open>piperead_back\<close>), which is given the bytes not yet written.
\<close>

definition upd_pipe :: "addr \<Rightarrow> (pipe \<Rightarrow> pipe) \<Rightarrow> kernel \<Rightarrow> kernel" where
  "upd_pipe p f s = s\<lparr>pipes := (pipes s)(p := f (pipes s p))\<rparr>"

definition pipeclose :: "addr \<Rightarrow> bool \<Rightarrow> kernel \<Rightarrow> unit kres" where
  "pipeclose p writable s =
     bnd (kacquire (PipeLk p) s) (\<lambda>_ s.
     bnd (if writable then wakeup (ChPipeRead p) (upd_pipe p (\<lambda>k. k\<lparr>writeopen := False\<rparr>) s)
          else wakeup (ChPipeWrite p) (upd_pipe p (\<lambda>k. k\<lparr>readopen := False\<rparr>) s)) (\<lambda>_ s.
     if \<not> readopen (pipes s p) \<and> \<not> writeopen (pipes s p)
     then bnd (krelease (PipeLk p) s) (\<lambda>_ s. kfree p s)
     else krelease (PipeLk p) s))"

text \<open>\<open>p->data[p->nwrite++ % PIPESIZE] = b\<close>, and reading a byte.\<close>

definition pipe_put :: "byte \<Rightarrow> pipe \<Rightarrow> pipe" where
  "pipe_put b k = k\<lparr>p_data := (p_data k)[unat (nwrite k) mod PIPESIZE := b], nwrite := nwrite k + 1\<rparr>"

definition pipe_get :: "pipe \<Rightarrow> byte \<times> pipe" where
  "pipe_get k = (p_data k ! (unat (nread k) mod PIPESIZE), k\<lparr>nread := nread k + 1\<rparr>)"

primrec pipewrite_loop :: "byte list \<Rightarrow> addr \<Rightarrow> 32 word \<Rightarrow> kernel \<Rightarrow> 32 word kres" where
  "pipewrite_loop [] p n s =
     bnd (wakeup (ChPipeRead p) s) (\<lambda>_ s.
     bnd (krelease (PipeLk p) s) (\<lambda>_ s. Ok n s))"
| "pipewrite_loop (b # bs) p n s =
     (if nwrite (pipes s p) = nread (pipes s p) + of_nat PIPESIZE then
        bnd (if \<not> readopen (pipes s p) then Ok True s
             else bnd (curproc s) (\<lambda>i s. Ok (killed (procs s ! i)) s)) (\<lambda>stop s.
          if stop then bnd (krelease (PipeLk p) s) (\<lambda>_ s. Ok (- 1) s)
          else bnd (wakeup (ChPipeRead p) s) (\<lambda>_ s.
               bnd (sleep (ChPipeWrite p) (Some (PipeLk p)) s) (\<lambda>_ s. Ok n s)))
      else pipewrite_loop bs p n (upd_pipe p (pipe_put b) s))"

definition pipewrite :: "addr \<Rightarrow> byte list \<Rightarrow> 32 word \<Rightarrow> kernel \<Rightarrow> 32 word kres" where
  "pipewrite p bs n s = bnd (kacquire (PipeLk p) s) (\<lambda>_ s. pipewrite_loop bs p n s)"

definition pipewrite_back :: "nat \<Rightarrow> bool \<Rightarrow> addr \<Rightarrow> byte list \<Rightarrow> 32 word \<Rightarrow> kernel \<Rightarrow> 32 word kres" where
  "pipewrite_back i ie p bs n s =
     bnd (sleep_back i (PipeLk p) ie s) (\<lambda>_ s. pipewrite_loop bs p n s)"

text \<open>The copy loop of \<open>piperead\<close>: at most \<open>k\<close> bytes.\<close>

primrec pipe_copy :: "nat \<Rightarrow> pipe \<Rightarrow> byte list \<times> pipe" where
  "pipe_copy 0 q = ([], q)"
| "pipe_copy (Suc k) q =
     (if nread q = nwrite q then ([], q)
      else let (b, q) = pipe_get q; (bs, q) = pipe_copy k q in (b # bs, q))"

definition piperead_test :: "addr \<Rightarrow> 32 word \<Rightarrow> kernel \<Rightarrow> (32 word \<times> byte list) kres" where
  "piperead_test p n s =
     (if nread (pipes s p) = nwrite (pipes s p) \<and> writeopen (pipes s p) then
        bnd (curproc s) (\<lambda>i s.
          if killed (procs s ! i) then bnd (krelease (PipeLk p) s) (\<lambda>_ s. Ok (- 1, []) s)
          else bnd (sleep (ChPipeRead p) (Some (PipeLk p)) s) (\<lambda>_ s. Ok (0, []) s))
      else
        let (bs, q) = pipe_copy (nat (sint n)) (pipes s p) in
        bnd (wakeup (ChPipeWrite p) (upd_pipe p (\<lambda>_. q) s)) (\<lambda>_ s.
        bnd (krelease (PipeLk p) s) (\<lambda>_ s. Ok (of_nat (length bs), bs) s)))"

definition piperead :: "addr \<Rightarrow> 32 word \<Rightarrow> kernel \<Rightarrow> (32 word \<times> byte list) kres" where
  "piperead p n s = bnd (kacquire (PipeLk p) s) (\<lambda>_ s. piperead_test p n s)"

definition piperead_back :: "nat \<Rightarrow> bool \<Rightarrow> addr \<Rightarrow> 32 word \<Rightarrow> kernel \<Rightarrow> (32 word \<times> byte list) kres" where
  "piperead_back i ie p n s = bnd (sleep_back i (PipeLk p) ie s) (\<lambda>_ s. piperead_test p n s)"

section \<open>A pipe is a bounded queue\<close>

definition pipe_ok :: "pipe \<Rightarrow> bool" where
  "pipe_ok q \<longleftrightarrow> length (p_data q) = PIPESIZE \<and> unat (nwrite q - nread q) \<le> PIPESIZE"

text \<open>The bytes in the pipe, the next one to be read first.\<close>

definition pipe_bytes :: "pipe \<Rightarrow> byte list" where
  "pipe_bytes q = ring_cont PIPESIZE (p_data q) (nread q) (nwrite q)"

lemma pipe_size [simp]: "ring_size 512"
  by (simp add: ring_size_def)

lemma pipe_full_iff: "nwrite q = nread q + 512 \<longleftrightarrow> length (pipe_bytes q) = 512"
proof
  assume "length (pipe_bytes q) = 512"
  then have "nwrite q - nread q = 512" by (simp add: pipe_bytes_def word_unat_eq_iff)
  then show "nwrite q = nread q + 512" by (simp add: algebra_simps)
qed (simp add: pipe_bytes_def)

lemma pipe_empty_iff: "nread q = nwrite q \<longleftrightarrow> pipe_bytes q = []"
proof
  assume "pipe_bytes q = []"
  then have "length (pipe_bytes q) = 0" by simp
  then have "nwrite q - nread q = 0" by (simp add: pipe_bytes_def unat_eq_0)
  then show "nread q = nwrite q" by simp
qed (simp add: pipe_bytes_def)

interpretation pq: byte_fifo pipe_ok pipe_bytes 512 pipe_put pipe_get
proof unfold_locales
  fix q :: pipe and b :: byte
  show "pipe_ok q \<Longrightarrow> length (pipe_bytes q) \<le> 512"
    by (simp add: pipe_ok_def pipe_bytes_def)
  show "pipe_ok (pipe_put b q) \<and> pipe_bytes (pipe_put b q) = pipe_bytes q @ [b]"
    if "pipe_ok q" "length (pipe_bytes q) < 512"
  proof -
    have len: "length (p_data q) = 512" "unat (nwrite q - nread q) < 512"
      using that by (simp_all add: pipe_ok_def pipe_bytes_def)
    have "pipe_bytes (pipe_put b q) = pipe_bytes q @ [b]"
      using ring_put[of 512 "p_data q"] len by (simp add: pipe_bytes_def pipe_put_def)
    moreover have "unat (nwrite q + 1 - nread q) = Suc (unat (nwrite q - nread q))"
      using unat_succ[of "nwrite q - nread q"] len by (simp add: algebra_simps)
    ultimately show ?thesis using len by (simp add: pipe_ok_def pipe_put_def)
  qed
  show "pipe_ok (snd (pipe_get q)) \<and> pipe_bytes q = fst (pipe_get q) # pipe_bytes (snd (pipe_get q))"
    if "pipe_ok q" "pipe_bytes q \<noteq> []"
  proof -
    have ne: "nwrite q \<noteq> nread q" using that(2) pipe_empty_iff[of q] by auto
    have "pipe_bytes q = fst (pipe_get q) # pipe_bytes (snd (pipe_get q))"
      using ring_get[of 512, OF _ ne] by (simp add: pipe_bytes_def pipe_get_def)
    moreover have "unat (nwrite q - (nread q + 1)) = unat (nwrite q - nread q) - 1"
      using unat_pred[of "nwrite q - nread q"] ne by (simp add: algebra_simps)
    ultimately show ?thesis using that(1) by (auto simp: pipe_ok_def pipe_get_def)
  qed
qed

lemma pipe_copy_gets:
  "pipe_ok q \<Longrightarrow> pipe_copy k q = gets pipe_get (min k (length (pipe_bytes q))) q"
proof (induction k arbitrary: q)
  case (Suc k)
  show ?case
  proof (cases "pipe_bytes q = []")
    case True
    then show ?thesis by (simp add: pipe_empty_iff)
  next
    case False
    obtain b q' where g: "pipe_get q = (b, q')" by fastforce
    have "pipe_ok q'" "pipe_bytes q = b # pipe_bytes q'" using pq.get_law[OF Suc.prems False] g by simp_all
    with Suc.IH[of q'] g False show ?thesis by (simp add: pipe_empty_iff Let_def)
  qed
qed simp

lemma pipe_copy_spec:
  assumes "pipe_ok q"
  shows "fst (pipe_copy k q) = take k (pipe_bytes q)" "pipe_ok (snd (pipe_copy k q))"
    "pipe_bytes (snd (pipe_copy k q)) = drop k (pipe_bytes q)"
  using pq.gets_take[OF assms, of "min k (length (pipe_bytes q))"] pipe_copy_gets[OF assms, of k]
  by (simp_all add: min_def split: if_splits)

section \<open>Whole calls\<close>

lemma upd_pipe_frame [simp]:
  "mach (upd_pipe p f s) = mach s" "procs (upd_pipe p f s) = procs s" "running (upd_pipe p f s) = running s"
  "pipes (upd_pipe p f s) p = f (pipes s p)" "q \<noteq> p \<Longrightarrow> pipes (upd_pipe p f s) q = pipes s q"
  by (simp_all add: upd_pipe_def running_def)

lemma upd_pipe_twice: "upd_pipe p f (upd_pipe p g s) = upd_pipe p (\<lambda>k. f (g k)) s"
  by (simp add: upd_pipe_def)

text \<open>While there is room the loop of \<open>pipewrite\<close> appends; \<open>pipe_sent\<close> is the state when it stops.\<close>

definition pipe_sent :: "addr \<Rightarrow> byte list \<Rightarrow> kernel \<Rightarrow> kernel" where
  "pipe_sent p bs s = upd_pipe p (fold pipe_put bs) s"

lemma pipe_sent_frame [simp]:
  "mach (pipe_sent p bs s) = mach s" "procs (pipe_sent p bs s) = procs s" "running (pipe_sent p bs s) = running s"
  by (simp_all add: pipe_sent_def)

lemma pipewrite_loop_append:
  assumes "pipe_ok (pipes s p)" "length (pipe_bytes (pipes s p)) + length bs \<le> 512"
  shows "pipewrite_loop (bs @ cs) p n s = pipewrite_loop cs p n (pipe_sent p bs s)"
  using assms
proof (induction bs arbitrary: s)
  case Nil
  then show ?case by (simp add: pipe_sent_def upd_pipe_def)
next
  case (Cons b bs)
  have nf: "nwrite (pipes s p) \<noteq> nread (pipes s p) + 512"
    using Cons.prems pipe_full_iff[of "pipes s p"] by auto
  have "pipe_ok (pipe_put b (pipes s p))" "pipe_bytes (pipe_put b (pipes s p)) = pipe_bytes (pipes s p) @ [b]"
    using pq.put_law[of "pipes s p" b] Cons.prems by simp_all
  with Cons.prems have "pipewrite_loop (bs @ cs) p n (upd_pipe p (pipe_put b) s)
      = pipewrite_loop cs p n (pipe_sent p bs (upd_pipe p (pipe_put b) s))"
    by (intro Cons.IH) simp_all
  with nf show ?case by (simp add: pipe_sent_def upd_pipe_twice o_def)
qed

lemma pipe_sent_bytes:
  assumes "pipe_ok (pipes s p)" "length (pipe_bytes (pipes s p)) + length bs \<le> 512"
  shows "pipe_ok (pipes (pipe_sent p bs s) p)" "pipe_bytes (pipes (pipe_sent p bs s) p) = pipe_bytes (pipes s p) @ bs"
  using pq.puts[OF assms] by (simp_all add: pipe_sent_def)

lemma pipe_sent_readopen: "readopen (pipes (pipe_sent p bs s) p) = readopen (pipes s p)"
proof -
  have "readopen (fold pipe_put bs k) = readopen k" for k
    by (induction bs arbitrary: k) (simp_all add: pipe_put_def)
  then show ?thesis by (simp add: pipe_sent_def)
qed

lemma wakeup1_pipes [simp]: "pipes (wakeup1 ch s) = pipes s"
  by (simp add: wakeup1_def)

lemma pipewrite_fits:
  assumes "quiet s" "pipe_ok (pipes s p)" "length (pipe_bytes (pipes s p)) + length bs \<le> 512"
  shows "pipewrite p bs n s = Ok n (wakeup1 (Some (ChPipeRead p)) (pipe_sent p bs s))"
proof -
  note q = quietD[OF assms(1)]
  let ?s = "s\<lparr>mach := hold (PipeLk p) (mach s)\<rparr>"
  let ?t = "wakeup1 (Some (ChPipeRead p)) (pipe_sent p bs ?s)"
  have "pipewrite p bs n s = pipewrite_loop [] p n (pipe_sent p bs ?s)"
    using pipewrite_loop_append[of ?s p bs "[]" n] assms by (simp add: pipewrite_def kacquire_quiet)
  moreover have "wakeup (ChPipeRead p) (pipe_sent p bs ?s) = Ok () ?t"
    using q by (intro wakeup_held) simp_all
  moreover have "krelease (PipeLk p) ?t = Ok () (?t\<lparr>mach := mach s\<rparr>)"
    using q by (intro krelease_quiet) simp_all
  ultimately show ?thesis by (simp add: wakeup1_def pipe_sent_def upd_pipe_def)
qed

lemma pipewrite_blocks:
  assumes "quiet s" "ncli (curcpu (mach s)) = 0" "running s = Some i" "i < length (procs s)"
    "pstate (procs s ! i) = RUNNING" "\<not> killed (procs s ! i)" "readopen (pipes s p)" "pipe_ok (pipes s p)"
    "bs = xs @ c # cs" "length (pipe_bytes (pipes s p)) + length xs = 512"
  shows "pipewrite p bs n s = Slept (upd_proc i (\<lambda>k. k\<lparr>chan := Some (ChPipeWrite p), pstate := SLEEPING\<rparr>)
     ((wakeup1 (Some (ChPipeRead p)) (pipe_sent p xs s))\<lparr>mach := hold PtableLk (mach s)\<rparr>))"
proof -
  note q = quietD[OF assms(1)]
  let ?s = "pipe_sent p xs (s\<lparr>mach := hold (PipeLk p) (mach s)\<rparr>)"
  let ?t = "wakeup1 (Some (ChPipeRead p)) ?s"
  have ro: "readopen (pipes ?s p) = readopen (pipes s p)" by (simp add: pipe_sent_readopen)
  have a: "pipewrite p bs n s = pipewrite_loop (c # cs) p n ?s"
    using pipewrite_loop_append[of "s\<lparr>mach := hold (PipeLk p) (mach s)\<rparr>" p xs "c # cs" n] assms
    by (simp add: pipewrite_def kacquire_quiet)
  have full: "nwrite (pipes ?s p) = nread (pipes ?s p) + 512"
    using pipe_sent_bytes(2)[of "s\<lparr>mach := hold (PipeLk p) (mach s)\<rparr>" p xs] assms by (simp add: pipe_full_iff)
  have run: "running ?s = Some i" using assms(3) q by simp
  then have cp: "curproc ?s = Ok i ?s" using curproc_ok[of ?s i] q by simp
  have w: "wakeup (ChPipeRead p) ?s = Ok () ?t" using q by (intro wakeup_held) simp_all
  have pr: "procs ?t ! i = procs s ! i" "length (procs ?t) = length (procs s)"
    using assms(4,5) by (simp_all add: wakeup1_def)
  have sl: "sleep (ChPipeWrite p) (Some (PipeLk p)) ?t =
      Slept (upd_proc i (\<lambda>k. k\<lparr>chan := Some (ChPipeWrite p), pstate := SLEEPING\<rparr>) (?t\<lparr>mach := hold PtableLk (mach s)\<rparr>))"
    using assms q run pr by (intro sleep_ok[where m = "mach s" and i = i]) simp_all
  show ?thesis
    using a full ro cp w sl assms(6,7) by (simp add: wakeup1_def pipe_sent_def upd_pipe_def)
qed

lemma piperead_data:
  assumes "quiet s" "pipe_ok (pipes s p)" "pipe_bytes (pipes s p) \<noteq> [] \<or> \<not> writeopen (pipes s p)"
  shows "piperead p n s =
     Ok (of_nat (length (take (nat (sint n)) (pipe_bytes (pipes s p)))), take (nat (sint n)) (pipe_bytes (pipes s p)))
        (wakeup1 (Some (ChPipeWrite p)) (upd_pipe p (\<lambda>_. snd (pipe_copy (nat (sint n)) (pipes s p))) s))"
proof -
  note q = quietD[OF assms(1)]
  let ?s = "s\<lparr>mach := hold (PipeLk p) (mach s)\<rparr>"
  let ?t = "upd_pipe p (\<lambda>_. snd (pipe_copy (nat (sint n)) (pipes s p))) ?s"
  obtain bs r where c: "pipe_copy (nat (sint n)) (pipes s p) = (bs, r)" by fastforce
  have bs: "bs = take (nat (sint n)) (pipe_bytes (pipes s p))" using pipe_copy_spec(1)[OF assms(2), of "nat (sint n)"] c by simp
  have w: "wakeup (ChPipeWrite p) ?t = Ok () (wakeup1 (Some (ChPipeWrite p)) ?t)"
    using q by (intro wakeup_held) simp_all
  have r: "krelease (PipeLk p) (wakeup1 (Some (ChPipeWrite p)) ?t) = Ok () ((wakeup1 (Some (ChPipeWrite p)) ?t)\<lparr>mach := mach s\<rparr>)"
    using q by (intro krelease_quiet) simp_all
  have ne: "\<not> (nread (pipes s p) = nwrite (pipes s p) \<and> writeopen (pipes s p))"
    using assms(3) by (auto simp: pipe_empty_iff)
  have "piperead p n s = Ok (of_nat (length bs), bs) ((wakeup1 (Some (ChPipeWrite p)) ?t)\<lparr>mach := mach s\<rparr>)"
    using c w r by (simp add: piperead_def kacquire_quiet[OF assms(1)] piperead_test_def if_not_P[OF ne])
  then show ?thesis using bs c by (simp add: wakeup1_def upd_pipe_def)
qed

text \<open>A write that fits is read back: with nothing in the pipe and at most 512 bytes to write,
  \<open>pipewrite\<close> returns without sleeping, and a following \<open>piperead\<close> for at least as many bytes
  returns exactly those bytes and leaves the pipe empty; no spin lock is held after either call.\<close>

theorem pipe_write_read:
  assumes "quiet s" "pipe_ok (pipes s p)" "pipe_bytes (pipes s p) = []" "bs \<noteq> []" "length bs \<le> PIPESIZE"
    "int (length bs) \<le> sint n"
  shows "\<exists>s1 s2. pipewrite p bs m s = Ok m s1 \<and> pipe_bytes (pipes s1 p) = bs
     \<and> piperead p n s1 = Ok (of_nat (length bs), bs) s2 \<and> pipe_bytes (pipes s2 p) = []
     \<and> mach s1 = mach s \<and> mach s2 = mach s"
proof -
  let ?s1 = "wakeup1 (Some (ChPipeRead p)) (pipe_sent p bs s)"
  have w: "pipewrite p bs m s = Ok m ?s1" using assms by (intro pipewrite_fits) simp_all
  have c: "pipe_ok (pipes ?s1 p)" "pipe_bytes (pipes ?s1 p) = bs"
    using pipe_sent_bytes[of s p bs] assms by simp_all
  have q: "quiet ?s1" using assms(1) quiet_cong[of ?s1 s] by simp
  have tk: "take (nat (sint n)) bs = bs" "drop (nat (sint n)) bs = []" using assms(6) by simp_all
  let ?s2 = "wakeup1 (Some (ChPipeWrite p)) (upd_pipe p (\<lambda>_. snd (pipe_copy (nat (sint n)) (pipes ?s1 p))) ?s1)"
  have "piperead p n ?s1 = Ok (of_nat (length bs), bs) ?s2"
    using piperead_data[OF q c(1), of n] assms(4) c(2) tk by simp
  moreover have "pipe_bytes (pipes ?s2 p) = []" using pipe_copy_spec(3)[OF c(1), of "nat (sint n)"] c(2) tk by simp
  ultimately show ?thesis using w c by auto
qed

text \<open>A write that does not fit loses nothing: \<open>pipewrite\<close> stores the part that fills the pipe,
  marks sleeping readers \<open>RUNNABLE\<close> and sleeps on the write channel with \<open>ptable.lock\<close> held; when
  the writer runs again and the rest fits, \<open>pipewrite_back\<close> appends exactly the rest.\<close>

theorem pipewrite_sleeps_resumes:
  assumes "quiet s" "ncli (curcpu (mach s)) = 0" "running s = Some i" "i < length (procs s)"
    "pstate (procs s ! i) = RUNNING" "\<not> killed (procs s ! i)" "readopen (pipes s p)" "pipe_ok (pipes s p)"
    "length (pipe_bytes (pipes s p)) + length xs = PIPESIZE" "cs \<noteq> []"
    and resumed: "mach t = hold PtableLk (mach s)" "pipe_ok (pipes t p)"
    "length (pipe_bytes (pipes t p)) + length cs \<le> PIPESIZE"
  shows "\<exists>s1 t1. pipewrite p (xs @ cs) n s = Slept s1
     \<and> pipe_bytes (pipes s1 p) = pipe_bytes (pipes s p) @ xs
     \<and> chan (procs s1 ! i) = Some (ChPipeWrite p) \<and> pstate (procs s1 ! i) = SLEEPING
     \<and> (\<forall>j < length (procs s). j \<noteq> i \<longrightarrow> pstate (procs s ! j) = SLEEPING \<longrightarrow> chan (procs s ! j) = Some (ChPipeRead p)
          \<longrightarrow> pstate (procs s1 ! j) = RUNNABLE)
     \<and> pipewrite_back i ie p cs n t = Ok n t1 \<and> pipe_bytes (pipes t1 p) = pipe_bytes (pipes t p) @ cs"
proof -
  note q = quietD[OF assms(1)]
  obtain c cs' where cs: "cs = c # cs'" using assms(10) by (cases cs) auto
  let ?s1 = "upd_proc i (\<lambda>k. k\<lparr>chan := Some (ChPipeWrite p), pstate := SLEEPING\<rparr>)
     ((wakeup1 (Some (ChPipeRead p)) (pipe_sent p xs s))\<lparr>mach := hold PtableLk (mach s)\<rparr>)"
  have w: "pipewrite p (xs @ cs) n s = Slept ?s1"
    using pipewrite_blocks[of s i p "xs @ cs" xs c cs' n] assms cs by simp
  have b1: "pipe_bytes (pipes ?s1 p) = pipe_bytes (pipes s p) @ xs"
    using pipe_sent_bytes(2)[of s p xs] assms by (simp add: upd_proc_def)
  have p1: "chan (procs ?s1 ! i) = Some (ChPipeWrite p)" "pstate (procs ?s1 ! i) = SLEEPING"
    "\<And>j. j < length (procs s) \<Longrightarrow> j \<noteq> i \<Longrightarrow> pstate (procs s ! j) = SLEEPING \<Longrightarrow> chan (procs s ! j) = Some (ChPipeRead p)
       \<Longrightarrow> pstate (procs ?s1 ! j) = RUNNABLE"
    using assms(4) by (simp_all add: upd_proc_def wakeup1_def)
  let ?m = "(mach s)\<lparr>if_flag := ie\<rparr>"
  have ok: "mach_ok ?m" "lk_free (PipeLk p) ?m" "lk_free PtableLk ?m"
    using q assms(2) by (simp_all add: mach_ok_flag)
  let ?t = "upd_proc i (\<lambda>p. p\<lparr>chan := None\<rparr>) (t\<lparr>mach := hold (PipeLk p) ?m\<rparr>)"
  have sb: "sleep_back i (PipeLk p) ie t = Ok () ?t"
    using sleep_back_ok[OF resumed(1), of "PipeLk p" i ie] q assms(2) by simp
  let ?u = "wakeup1 (Some (ChPipeRead p)) (pipe_sent p cs ?t)"
  have pt: "pipes ?t p = pipes t p" by (simp add: upd_proc_def)
  have l: "pipewrite_loop cs p n ?t = pipewrite_loop [] p n (pipe_sent p cs ?t)"
    using pipewrite_loop_append[of ?t p cs "[]" n] resumed pt by simp
  have wk: "wakeup (ChPipeRead p) (pipe_sent p cs ?t) = Ok () ?u"
    using ok by (intro wakeup_held) simp_all
  have rl: "krelease (PipeLk p) ?u = Ok () (?u\<lparr>mach := touch ?m\<rparr>)"
    using ok by (intro krelease_ok) simp_all
  have "pipewrite_back i ie p cs n t = Ok n (?u\<lparr>mach := touch ?m\<rparr>)"
    using sb l wk rl by (simp add: pipewrite_back_def)
  moreover have "pipe_bytes (pipes (?u\<lparr>mach := touch ?m\<rparr>) p) = pipe_bytes (pipes t p) @ cs"
    using pipe_sent_bytes(2)[of ?t p cs] resumed pt by simp
  ultimately show ?thesis using w b1 p1 by blast
qed

text \<open>The cases in which a call cannot go on.\<close>

lemma pipewrite_fails:
  assumes "quiet s" "running s = Some i" "killed (procs s ! i) \<or> \<not> readopen (pipes s p)" "pipe_ok (pipes s p)"
    "bs = xs @ c # cs" "length (pipe_bytes (pipes s p)) + length xs = 512"
  shows "pipewrite p bs n s = Ok (- 1) (pipe_sent p xs s)"
proof -
  note q = quietD[OF assms(1)]
  let ?s = "pipe_sent p xs (s\<lparr>mach := hold (PipeLk p) (mach s)\<rparr>)"
  have a: "pipewrite p bs n s = pipewrite_loop (c # cs) p n ?s"
    using pipewrite_loop_append[of "s\<lparr>mach := hold (PipeLk p) (mach s)\<rparr>" p xs "c # cs" n] assms
    by (simp add: pipewrite_def kacquire_quiet)
  have full: "nwrite (pipes ?s p) = nread (pipes ?s p) + 512"
    using pipe_sent_bytes(2)[of "s\<lparr>mach := hold (PipeLk p) (mach s)\<rparr>" p xs] assms by (simp add: pipe_full_iff)
  have run: "running ?s = Some i" using assms(2) q by simp
  then have cp: "curproc ?s = Ok i ?s" using curproc_ok[of ?s i] q by simp
  have r: "krelease (PipeLk p) ?s = Ok () (?s\<lparr>mach := mach s\<rparr>)" using q by (intro krelease_quiet) simp_all
  show ?thesis
    using a full cp r assms(3) pipe_sent_readopen[of p xs "s\<lparr>mach := hold (PipeLk p) (mach s)\<rparr>"] by (auto simp: pipe_sent_def upd_pipe_def)
qed

lemma piperead_empty:
  assumes "quiet s" "ncli (curcpu (mach s)) = 0" "running s = Some i" "i < length (procs s)" "pipe_bytes (pipes s p) = []" "writeopen (pipes s p)"
  shows "piperead p n s = (if killed (procs s ! i) then Ok (- 1, []) s
     else Slept (upd_proc i (\<lambda>k. k\<lparr>chan := Some (ChPipeRead p), pstate := SLEEPING\<rparr>) (s\<lparr>mach := hold PtableLk (mach s)\<rparr>)))"
proof -
  note q = quietD[OF assms(1)]
  let ?s = "s\<lparr>mach := hold (PipeLk p) (mach s)\<rparr>"
  have run: "running ?s = Some i" using assms(3) q by simp
  then have cp: "curproc ?s = Ok i ?s" using curproc_ok[of ?s i] q by simp
  have r: "krelease (PipeLk p) ?s = Ok () (?s\<lparr>mach := mach s\<rparr>)" using q by (intro krelease_quiet) simp_all
  have "sleep (ChPipeRead p) (Some (PipeLk p)) ?s = Slept (upd_proc i (\<lambda>k. k\<lparr>chan := Some (ChPipeRead p), pstate := SLEEPING\<rparr>) (?s\<lparr>mach := hold PtableLk (mach s)\<rparr>))"
    using q assms run by (intro sleep_ok) simp_all
  then show ?thesis using cp r assms(5,6) by (simp add: piperead_def kacquire_quiet[OF assms(1)] piperead_test_def pipe_empty_iff)
qed

section \<open>Any sequence of calls\<close>

text \<open>The operations on processes and locks do not touch the pipes, however they end.\<close>

definition keeps_pipes :: "kernel \<Rightarrow> 'a kres \<Rightarrow> bool" where
  "keeps_pipes s r = (case r of Ok x t \<Rightarrow> pipes t = pipes s | Slept t \<Rightarrow> pipes t = pipes s | _ \<Rightarrow> True)"

named_theorems keeps_intros

lemma keeps_Ok [keeps_intros]: "pipes t = pipes s \<Longrightarrow> keeps_pipes s (Ok x t)"
  by (simp add: keeps_pipes_def)

lemma keeps_cases [keeps_intros]:
  "keeps_pipes s (Panic e)" "keeps_pipes s Fault" "keeps_pipes s (Slept s)"
  "keeps_pipes s m \<Longrightarrow> keeps_pipes s m' \<Longrightarrow> keeps_pipes s (if b then m else m')"
  "keeps_pipes s m \<Longrightarrow> (\<And>i. keeps_pipes s (g i)) \<Longrightarrow> keeps_pipes s (case x of None \<Rightarrow> m | Some i \<Rightarrow> g i)"
  by (simp_all add: keeps_pipes_def split: option.split)

lemma keeps_bnd [keeps_intros]:
  assumes "keeps_pipes s m" "\<And>x t. pipes t = pipes s \<Longrightarrow> keeps_pipes t (f x t)"
  shows "keeps_pipes s (bnd m f)"
proof (cases m)
  case (Ok x t)
  then have "pipes t = pipes s" using assms(1) by (simp add: keeps_pipes_def)
  then show ?thesis using assms(2)[of t x] Ok by (auto simp: keeps_pipes_def split: outcome.splits)
qed (use assms(1) in \<open>auto simp: keeps_pipes_def\<close>)

lemma keeps_on_mach [keeps_intros]: "keeps_pipes s (on_mach op s)"
  by (simp add: keeps_pipes_def on_mach_def split: outcome.split)

lemma keeps_locks [keeps_intros]: "keeps_pipes s (kacquire L s)" "keeps_pipes s (krelease L s)" "keeps_pipes s (kmyproc s)" "keeps_pipes s (curproc s)"
  unfolding kacquire_def krelease_def kmyproc_def curproc_def
  by (intro keeps_intros; simp)+

lemma keeps_sched: "keeps_pipes s (sched s)"
  unfolding sched_def by (intro keeps_intros)

lemma pipes_upd_proc [simp]: "pipes (upd_proc i f s) = pipes s"
  by (simp add: upd_proc_def)

lemma keeps_from: "keeps_pipes t r \<Longrightarrow> pipes t = pipes s \<Longrightarrow> keeps_pipes s r"
  by (simp add: keeps_pipes_def split: outcome.splits)

lemma keeps_sleep_tail: "keeps_pipes s (sleep_tail i lk s)"
proof -
  let ?s = "upd_proc i (\<lambda>p. p\<lparr>chan := None\<rparr>) s"
  have "keeps_pipes ?s (if lk \<noteq> PtableLk then bnd (krelease PtableLk ?s) (\<lambda>_ s. kacquire lk s) else Ok () ?s)"
    by (simp add: keeps_intros)
  then show ?thesis unfolding sleep_tail_def Let_def by (rule keeps_from) simp
qed

lemma keeps_run_steps:
  assumes "\<And>f t. f \<in> set fs \<Longrightarrow> keeps_pipes t (f t)"
  shows "keeps_pipes s (run_steps fs s)"
  using assms by (induction fs arbitrary: s) (auto intro!: keeps_intros)

lemma keeps_upd: "keeps_pipes s (Ok () (upd_proc i f s))"
  by (simp add: keeps_pipes_def)

lemma keeps_sleep [keeps_intros]: "keeps_pipes s (sleep ch lk s)"
proof -
  have "keeps_pipes t (bnd (run_steps (sleep_steps i ch l) t) (\<lambda>_ s. sleep_tail i l s))" for t i l
    by (intro keeps_bnd keeps_run_steps keeps_sleep_tail) (auto simp: sleep_steps_def keeps_locks keeps_upd keeps_sched split: if_splits)
  then show ?thesis unfolding sleep_def
    by (intro keeps_bnd keeps_locks) (simp add: keeps_pipes_def split: option.split)
qed

lemma keeps_sleep_back [keeps_intros]: "keeps_pipes s (sleep_back i lk ie s)"
  unfolding sleep_back_def sched_back_def by (intro keeps_bnd keeps_on_mach keeps_sleep_tail) (simp add: keeps_pipes_def)

lemma keeps_wakeup [keeps_intros]: "keeps_pipes s (wakeup ch s)"
  unfolding wakeup_alt by (intro keeps_bnd keeps_locks) (rule keeps_from[OF keeps_locks(2)], simp)

text \<open>Only \<open>sleep\<close> gives up the processor.\<close>

lemma bnd_eq_Slept: "bnd m f = Slept t \<longleftrightarrow> m = Slept t \<or> (\<exists>x s. m = Ok x s \<and> f x s = Slept t)"
  by (cases m) auto

lemma machine_not_Slept: "mycpu m \<noteq> Slept t" "pushcli m \<noteq> Slept t" "popcli m \<noteq> Slept t" "holding L m \<noteq> Slept t" "acquire L m \<noteq> Slept t" "release L m \<noteq> Slept t"
proof -
  show m: "mycpu m \<noteq> Slept t" for m by (simp add: mycpu_def split: option.split)
  show pu: "pushcli m \<noteq> Slept t" for m by (simp add: pushcli_def Let_def bnd_eq_Slept m)
  show po: "popcli m \<noteq> Slept t" for m by (auto simp: popcli_def Let_def bnd_eq_Slept m split: if_splits)
  show h: "holding L m \<noteq> Slept t" for m by (simp add: holding_def Let_def bnd_eq_Slept m pu po)
  show "acquire L m \<noteq> Slept t" by (auto simp: acquire_def Let_def bnd_eq_Slept m pu h split: if_splits)
  show "release L m \<noteq> Slept t" by (auto simp: release_def Let_def bnd_eq_Slept po h split: if_splits)
qed

lemma locks_not_Slept: "kacquire L s \<noteq> Slept t" "krelease L s \<noteq> Slept t" "wakeup ch s \<noteq> Slept t"
proof -
  show a: "kacquire L s \<noteq> Slept t" for L s by (simp add: kacquire_def on_mach_def machine_not_Slept split: outcome.split)
  show r: "krelease L s \<noteq> Slept t" for L s by (simp add: krelease_def on_mach_def machine_not_Slept split: outcome.split)
  show "wakeup ch s \<noteq> Slept t" by (simp add: wakeup_alt bnd_eq_Slept a r)
qed

lemma sleep_not_Ok: "sleep ch lk s \<noteq> Ok x t"
proof -
  have "sched u \<noteq> Ok y v" for u y v by (auto simp: sched_def bnd_eq_Ok split: if_splits option.splits)
  then show ?thesis by (auto simp: sleep_def sleep_steps_def bnd_eq_Ok split: option.splits if_splits)
qed

text \<open>A writer stores a prefix of its bytes, and all of them if it returns their number.\<close>

definition pipe_stored :: "addr \<Rightarrow> byte list \<Rightarrow> nat \<Rightarrow> kernel \<Rightarrow> kernel \<Rightarrow> bool" where
  "pipe_stored p bs k s t \<longleftrightarrow> pipe_ok (pipes t p) \<and> k \<le> length bs \<and> pipe_bytes (pipes t p) = pipe_bytes (pipes s p) @ take k bs
     \<and> nwrite (pipes t p) = nwrite (pipes s p) + of_nat k"

lemma pipe_stored_0: "pipe_ok (pipes s p) \<Longrightarrow> pipes t = pipes s \<Longrightarrow> pipe_stored p bs 0 s t"
  by (simp add: pipe_stored_def)

lemma pipe_stored_Suc:
  assumes "pipe_stored p bs k (upd_pipe p (pipe_put b) s) t" "pipe_ok (pipes s p)" "nwrite (pipes s p) \<noteq> nread (pipes s p) + 512"
  shows "pipe_stored p (b # bs) (Suc k) s t"
proof -
  have "length (pipe_bytes (pipes s p)) < 512" using assms(2,3) pq.cont_le[of "pipes s p"] pipe_full_iff[of "pipes s p"] by simp
  then have "pipe_bytes (pipe_put b (pipes s p)) = pipe_bytes (pipes s p) @ [b]" using pq.put_law[OF assms(2)] by blast
  then show ?thesis using assms(1) by (simp add: pipe_stored_def) (simp add: pipe_put_def)
qed

lemma pipewrite_loop_stores:
  assumes "pipe_ok (pipes s p)" "pipewrite_loop bs p n s = Ok r t \<or> pipewrite_loop bs p n s = Slept t"
  shows "\<exists>k. pipe_stored p bs k s t \<and> (pipewrite_loop bs p n s = Ok r t \<longrightarrow> r = - 1 \<or> k = length bs)"
  using assms
proof (induction bs arbitrary: s)
  case Nil
  have "keeps_pipes s (pipewrite_loop [] p n s)" by (simp add: keeps_intros)
  then have "pipes t = pipes s" using Nil.prems(2) by (auto simp: keeps_pipes_def)
  then show ?case using pipe_stored_0[OF Nil.prems(1)] by auto
next
  case (Cons b bs)
  show ?case
  proof (cases "nwrite (pipes s p) = nread (pipes s p) + 512")
    case True
    have "keeps_pipes s (pipewrite_loop (b # bs) p n s)" using True by (simp add: keeps_intros)
    then have "pipes t = pipes s" using Cons.prems(2) by (auto simp: keeps_pipes_def)
    moreover have "pipewrite_loop (b # bs) p n s = Ok r t \<Longrightarrow> r = - 1" using True by (auto simp: bnd_eq_Ok sleep_not_Ok split: if_splits)
    ultimately show ?thesis using pipe_stored_0[OF Cons.prems(1)] by blast
  next
    case False
    have "pipe_ok (pipe_put b (pipes s p))"
      using pq.put_law[OF Cons.prems(1)] False pq.cont_le[OF Cons.prems(1)] pipe_full_iff[of "pipes s p"] by simp
    then have "\<exists>k. pipe_stored p bs k (upd_pipe p (pipe_put b) s) t \<and> (pipewrite_loop bs p n (upd_pipe p (pipe_put b) s) = Ok r t \<longrightarrow> r = - 1 \<or> k = length bs)"
      using Cons.prems(2) False by (intro Cons.IH) simp_all
    then show ?thesis using pipe_stored_Suc[OF _ Cons.prems(1) False] False by fastforce
  qed
qed

definition pipe_writes :: "addr \<Rightarrow> byte list \<Rightarrow> 32 word \<Rightarrow> kernel \<Rightarrow> 32 word kres \<Rightarrow> bool" where
  "pipe_writes p bs n s r \<longleftrightarrow> r = pipewrite p bs n s \<or> (\<exists>i ie. r = pipewrite_back i ie p bs n s)"

definition pipe_reads :: "addr \<Rightarrow> 32 word \<Rightarrow> kernel \<Rightarrow> (32 word \<times> byte list) kres \<Rightarrow> bool" where
  "pipe_reads p n s r \<longleftrightarrow> r = piperead p n s \<or> (\<exists>i ie. r = piperead_back i ie p n s)"

lemma writes_stores:
  assumes "pipe_writes p bs n s c" "pipe_ok (pipes s p)" "c = Ok r t \<or> c = Slept t"
  shows "\<exists>k. pipe_stored p bs k s t \<and> (c = Ok r t \<longrightarrow> r = - 1 \<or> k = length bs)"
proof -
  obtain m :: "unit kres" where c: "c = bnd m (\<lambda>_ s. pipewrite_loop bs p n s)" and m: "keeps_pipes s m"
    using assms(1) keeps_locks(1) keeps_sleep_back by (auto simp: pipe_writes_def pipewrite_def pipewrite_back_def)
  show ?thesis
  proof (cases m)
    case (Ok x u)
    then have u: "pipes u = pipes s" using m by (simp add: keeps_pipes_def)
    have "\<exists>k. pipe_stored p bs k u t \<and> (pipewrite_loop bs p n u = Ok r t \<longrightarrow> r = - 1 \<or> k = length bs)"
      using assms(2,3) c Ok u by (intro pipewrite_loop_stores) simp_all
    then show ?thesis using c Ok u by (simp add: pipe_stored_def)
  next
    case (Slept u)
    then show ?thesis using assms(2,3) c m pipe_stored_0[OF assms(2)] by (auto simp: keeps_pipes_def)
  qed (use assms(3) c in auto)
qed

lemma pipe_stored_count:
  assumes "pipe_stored p bs k s t"
  shows "unat (nwrite (pipes t p) - nwrite (pipes s p)) = k"
proof -
  have "length (pipe_bytes (pipes t p)) \<le> 512" using assms pq.cont_le[of "pipes t p"] unfolding pipe_stored_def by blast
  then have "k \<le> 512" using assms by (simp add: pipe_stored_def)
  then show ?thesis using assms by (simp add: pipe_stored_def unat_of_nat32)
qed

lemma piperead_test_takes:
  assumes "pipe_ok (pipes s p)" "piperead_test p n s = Ok (r, bs) t \<or> piperead_test p n s = Slept t \<and> bs = []"
  shows "pipe_ok (pipes t p) \<and> pipe_bytes (pipes s p) = bs @ pipe_bytes (pipes t p)"
proof (cases "nread (pipes s p) = nwrite (pipes s p) \<and> writeopen (pipes s p)")
  case True
  have "keeps_pipes s (piperead_test p n s)" using True by (simp add: piperead_test_def keeps_intros)
  moreover have "piperead_test p n s = Ok (r, bs) t \<Longrightarrow> bs = []" using True by (auto simp: piperead_test_def bnd_eq_Ok sleep_not_Ok split: if_splits)
  ultimately show ?thesis using assms by (auto simp: keeps_pipes_def)
next
  case False
  obtain cs q where c: "pipe_copy (nat (sint n)) (pipes s p) = (cs, q)" by fastforce
  let ?s = "upd_pipe p (\<lambda>_. q) s"
  have e: "piperead_test p n s = bnd (wakeup (ChPipeWrite p) ?s) (\<lambda>_ s. bnd (krelease (PipeLk p) s) (\<lambda>_ s. Ok (of_nat (length cs), cs) s))"
    unfolding piperead_test_def if_not_P[OF False] by (simp add: c)
  have "keeps_pipes ?s (piperead_test p n s)" unfolding e by (intro keeps_intros) simp_all
  moreover have ns: "piperead_test p n s \<noteq> Slept t" unfolding e by (simp add: bnd_eq_Slept locks_not_Slept)
  moreover have "piperead_test p n s = Ok (r, bs) t \<Longrightarrow> bs = cs" unfolding e by (auto simp: bnd_eq_Ok)
  ultimately have "pipes t p = q" "bs = cs" using assms(2) by (auto simp: keeps_pipes_def)
  then show ?thesis using pipe_copy_spec[OF assms(1), of "nat (sint n)"] c by simp
qed

lemma reads_takes:
  assumes "pipe_reads p n s c" "pipe_ok (pipes s p)" "c = Ok (r, bs) t \<or> c = Slept t \<and> bs = []"
  shows "pipe_ok (pipes t p) \<and> pipe_bytes (pipes s p) = bs @ pipe_bytes (pipes t p)"
proof -
  obtain m :: "unit kres" where c: "c = bnd m (\<lambda>_ s. piperead_test p n s)" and m: "keeps_pipes s m"
    using assms(1) keeps_locks(1) keeps_sleep_back by (auto simp: pipe_reads_def piperead_def piperead_back_def)
  show ?thesis
  proof (cases m)
    case (Ok x u)
    then have u: "pipes u = pipes s" using m by (simp add: keeps_pipes_def)
    then show ?thesis using piperead_test_takes[of u p n r bs t] assms(2,3) c Ok by simp
  next
    case (Slept u)
    then show ?thesis using assms(2,3) c m by (auto simp: keeps_pipes_def)
  qed (use assms(3) c in auto)
qed

text \<open>Histories of a pipe.  Each step is a call of \<open>pipewrite\<close> or \<open>piperead\<close> by any process, or the continuation of a call that slept, up to its return or the next sleep
  (these run under the lock of the pipe), or anything else that leaves the pipe alone.  \<open>ws\<close> are the bytes written
  so far: all bytes of a call that returns their number, and of a call that sleeps or fails those that \<open>nwrite\<close> has counted, the rest being
  left for the continuation.  \<open>rs\<close> are the bytes that the readers have returned.\<close>

inductive pipe_run :: "addr \<Rightarrow> kernel \<Rightarrow> byte list \<Rightarrow> byte list \<Rightarrow> kernel \<Rightarrow> bool" for p s0 where
  start: "pipe_run p s0 [] [] s0"
| other: "pipe_run p s0 ws rs s \<Longrightarrow> pipes t p = pipes s p \<Longrightarrow> pipe_run p s0 ws rs t"
| written: "pipe_run p s0 ws rs s \<Longrightarrow> pipe_writes p bs n s (Ok n t) \<Longrightarrow> n \<noteq> - 1 \<Longrightarrow> pipe_run p s0 (ws @ bs) rs t"
| partly: "pipe_run p s0 ws rs s \<Longrightarrow> pipe_writes p bs n s c \<Longrightarrow> c = Ok (- 1) t \<or> c = Slept t \<Longrightarrow>
     pipe_run p s0 (ws @ take (unat (nwrite (pipes t p) - nwrite (pipes s p))) bs) rs t"
| read: "pipe_run p s0 ws rs s \<Longrightarrow> pipe_reads p n s (Ok (r, bs) t) \<Longrightarrow> pipe_run p s0 ws (rs @ bs) t"
| waits: "pipe_run p s0 ws rs s \<Longrightarrow> pipe_reads p n s (Slept t) \<Longrightarrow> pipe_run p s0 ws rs t"

lemma pipe_run_inv:
  assumes "pipe_run p s0 ws rs s" "pipe_ok (pipes s0 p)"
  shows "pipe_ok (pipes s p) \<and> pipe_bytes (pipes s0 p) @ ws = rs @ pipe_bytes (pipes s p)"
  using assms
proof induction
  case (written ws rs s bs n t)
  then have "pipe_stored p bs (length bs) s t" using writes_stores[of p bs n s "Ok n t" n t] by auto
  then show ?case using written by (simp add: pipe_stored_def)
next
  case (partly ws rs s bs n c t)
  then obtain k where k: "pipe_stored p bs k s t" using writes_stores[of p bs n s c "- 1" t] by auto
  then have "pipe_bytes (pipes t p) = pipe_bytes (pipes s p) @ take k bs" "pipe_ok (pipes t p)" by (simp_all add: pipe_stored_def)
  then show ?case using partly pipe_stored_count[OF k] by simp
next
  case (read ws rs s n r bs t)
  then show ?case using reads_takes[of p n s "Ok (r, bs) t" r bs t] by simp
next
  case (waits ws rs s n t)
  then show ?case using reads_takes[of p n s "Slept t" 0 "[]" t] by simp
qed simp_all

text \<open>What a call that starts with no lock held does.\<close>

lemma pipewrite_cases:
  assumes "quiet s" "ncli (curcpu (mach s)) = 0" "running s = Some i" "i < length (procs s)" "pstate (procs s ! i) = RUNNING" "pipe_ok (pipes s p)"
  shows "\<exists>t. pipewrite p bs n s = (if length (pipe_bytes (pipes s p)) + length bs \<le> 512 then Ok n t
     else if readopen (pipes s p) \<and> \<not> killed (procs s ! i) then Slept t else Ok (- 1) t)"
proof (cases "length (pipe_bytes (pipes s p)) + length bs \<le> 512")
  case True
  then show ?thesis using pipewrite_fits[OF assms(1,6)] by auto
next
  case False
  define k where "k = 512 - length (pipe_bytes (pipes s p))"
  have k: "length (pipe_bytes (pipes s p)) + k = 512" "k < length bs" using False pq.cont_le[OF assms(6)] by (simp_all add: k_def)
  then have b: "bs = take k bs @ bs ! k # drop (Suc k) bs" "length (pipe_bytes (pipes s p)) + length (take k bs) = 512" by (simp_all add: id_take_nth_drop[symmetric])
  show ?thesis
    using pipewrite_blocks[OF assms(1-5) _ _ assms(6) b, of n] pipewrite_fails[OF assms(1,3) _ assms(6) b, of n] False by auto
qed

lemma piperead_cases:
  assumes "quiet s" "ncli (curcpu (mach s)) = 0" "running s = Some i" "i < length (procs s)" "pipe_ok (pipes s p)"
  shows "\<exists>t. piperead p n s = (if pipe_bytes (pipes s p) = [] \<and> writeopen (pipes s p) then if killed (procs s ! i) then Ok (- 1, []) t else Slept t
     else Ok (of_nat (length (take (nat (sint n)) (pipe_bytes (pipes s p)))), take (nat (sint n)) (pipe_bytes (pipes s p))) t)"
  using piperead_empty[OF assms(1-4), of p n] piperead_data[OF assms(1,5), of n] by auto

text \<open>(C23) A pipe is a bounded queue of bytes.  In every history of whole calls by any readers and writers, including calls that sleep in the middle and go on later, and across
  the wrap-around of the two counters at \<open>2^32\<close>, what was in the pipe followed by what was written is what was read followed by what is in the
  pipe, which never holds more than 512 bytes: nothing is lost, duplicated or reordered.  A call by a running process always ends: a write that
  fits returns its size, another one sleeps, or fails if the reading end is closed or the process killed; a read returns the bytes there are, at most
  as many as asked for, and sleeps, or fails for a killed process, only on an empty pipe whose writing end is open.\<close>

theorem pipe_stream:
  assumes "pipe_run p s0 ws rs s" "pipe_ok (pipes s0 p)"
  shows "pipe_bytes (pipes s0 p) @ ws = rs @ pipe_bytes (pipes s p) \<and> length (pipe_bytes (pipes s p)) \<le> PIPESIZE
     \<and> (quiet s \<and> ncli (curcpu (mach s)) = 0 \<and> running s = Some i \<and> i < length (procs s) \<and> pstate (procs s ! i) = RUNNING \<longrightarrow>
         (\<exists>t. pipewrite p bs n s = (if length (pipe_bytes (pipes s p)) + length bs \<le> 512 then Ok n t
            else if readopen (pipes s p) \<and> \<not> killed (procs s ! i) then Slept t else Ok (- 1) t))
       \<and> (\<exists>t. piperead p n s = (if pipe_bytes (pipes s p) = [] \<and> writeopen (pipes s p) then if killed (procs s ! i) then Ok (- 1, []) t else Slept t
            else Ok (of_nat (length (take (nat (sint n)) (pipe_bytes (pipes s p)))), take (nat (sint n)) (pipe_bytes (pipes s p))) t)))"
  using pipe_run_inv[OF assms] pq.cont_le[of "pipes s p"] pipewrite_cases[of s i p bs n] piperead_cases[of s i p n] by blast

text \<open>An empty pipe whose counters are about to wrap around.\<close>

definition pipe_wrap :: pipe where
  "pipe_wrap = \<lparr>p_data = replicate PIPESIZE 0, nread = 0xFFFFFFFF, nwrite = 0xFFFFFFFF, readopen = True,
                writeopen = True\<rparr>"


definition calm_pipe :: kernel where
  "calm_pipe = calm\<lparr>pipes := (\<lambda>_. pipe_wrap)\<rparr>"

lemma calm_pipe_simps [simp]:
  "quiet calm_pipe" "running calm_pipe = Some 0" "mach calm_pipe = mach calm" "procs calm_pipe = procs calm"
  "pipes calm_pipe p = pipe_wrap"
  using quiet_frame[of calm_pipe] by (simp_all add: calm_pipe_def)

lemma pipe_wrap_simps [simp]: "pipe_ok pipe_wrap" "pipe_bytes pipe_wrap = []" "readopen pipe_wrap"
  by (simp_all add: pipe_ok_def pipe_bytes_def) (simp_all add: pipe_wrap_def)

theorem pipe_write_read_witness:
  "\<exists>s1 s2. pipewrite 4096 [1, 2, 3] 3 calm_pipe = Ok 3 s1 \<and> piperead 4096 100 s1 = Ok (3, [1, 2, 3]) s2"
  using pipe_write_read[of calm_pipe 4096 "[1, 2, 3]" 100 3] by auto

theorem pipewrite_sleeps_resumes_witness:
  "\<exists>s1 t1. pipewrite 4096 (replicate 512 1 @ [2]) 513 calm_pipe = Slept s1
     \<and> pipe_bytes (pipes s1 4096) = replicate 512 1
     \<and> pipewrite_back 0 True 4096 [2] 513 (calm_pipe\<lparr>mach := hold PtableLk (mach calm)\<rparr>) = Ok 513 t1
     \<and> pipe_bytes (pipes t1 4096) = [2]"
  using pipewrite_sleeps_resumes[of calm_pipe 0 4096 "replicate 512 1" "[2]"
      "calm_pipe\<lparr>mach := hold PtableLk (mach calm)\<rparr>" 513 True] by auto

lemma pipe_history:
  "\<exists>t. pipe_run 4096 calm_pipe [7, 8] [7] t"
proof -
  obtain s1 where w: "pipewrite 4096 [7, 8] 2 calm_pipe = Ok 2 s1" "s1 = wakeup1 (Some (ChPipeRead 4096)) (pipe_sent 4096 [7, 8] calm_pipe)"
    using pipewrite_fits[of calm_pipe 4096 "[7, 8]" 2] by simp
  have r1: "pipe_run 4096 calm_pipe ([] @ [7, 8]) [] s1" by (rule pipe_run.written[OF pipe_run.start, where n = 2]) (use w(1) in \<open>simp_all add: pipe_writes_def\<close>)
  have b: "pipe_ok (pipes s1 4096)" "pipe_bytes (pipes s1 4096) = [7, 8]" using pipe_sent_bytes[of calm_pipe 4096 "[7, 8]"] by (simp_all add: w(2))
  have "quiet s1" using quiet_cong[of s1 calm_pipe] by (simp add: w(2))
  then obtain s2 where "piperead 4096 1 s1 = Ok (1, [7]) s2" using piperead_data[of s1 4096 1] b by auto
  then have "pipe_run 4096 calm_pipe ([] @ [7, 8]) ([] @ [7]) s2" by (intro pipe_run.read[OF r1, where n = 1 and r = 1]) (simp add: pipe_reads_def)
  then show ?thesis by auto
qed

theorem pipe_stream_witness: "\<exists>t. pipe_run 4096 calm_pipe [7, 8] [7] t \<and> pipe_bytes (pipes t 4096) = [8]"
proof -
  obtain t where t: "pipe_run 4096 calm_pipe [7, 8] [7] t" using pipe_history by blast
  from pipe_stream[OF t] have "pipe_bytes (pipes t 4096) = [8]" by simp
  then show ?thesis using t by blast
qed

end
