(* ===== verification/File.thy ===== *)
theory File
  imports Fs Pipe
begin

text \<open>
  Open files: \<open>file.c\<close>, and \<open>pipealloc\<close> of \<open>pipe.c\<close>.  A \<open>struct file*\<close> is an index into the file
  table.  A read returns the bytes it stores, a write is given the bytes.
\<close>

definition upd_file :: "nat \<Rightarrow> (kfile \<Rightarrow> kfile) \<Rightarrow> kernel \<Rightarrow> kernel" where
  "upd_file f g s = s\<lparr>files := (files s)[f := g (files s ! f)]\<rparr>"

definition fileinit :: "kernel \<Rightarrow> kernel" where
  "fileinit s = s\<lparr>mach := initlock FtableLk ''ftable'' (mach s)\<rparr>"

definition filealloc :: "kernel \<Rightarrow> nat option kres" where
  "filealloc s =
     bnd (kacquire FtableLk s) (\<lambda>_ s.
     case first_idx (\<lambda>f. f_ref f = 0) (files s) of
       Some f \<Rightarrow>
         bnd (krelease FtableLk (upd_file f (\<lambda>k. k\<lparr>f_ref := 1\<rparr>) s)) (\<lambda>_ s. Ok (Some f) s)
     | None \<Rightarrow> bnd (krelease FtableLk s) (\<lambda>_ s. Ok None s))"

definition filedup :: "nat \<Rightarrow> kernel \<Rightarrow> nat kres" where
  "filedup f s =
     bnd (kacquire FtableLk s) (\<lambda>_ s.
       if s_lt (f_ref (files s ! f)) 1 then Panic ''filedup''
       else bnd (krelease FtableLk (upd_file f (\<lambda>k. k\<lparr>f_ref := f_ref k + 1\<rparr>) s)) (\<lambda>_ s. Ok f s))"

definition fileclose :: "nat \<Rightarrow> kernel \<Rightarrow> unit kres" where
  "fileclose f s =
     bnd (kacquire FtableLk s) (\<lambda>_ s.
       if s_lt (f_ref (files s ! f)) 1 then Panic ''fileclose''
       else
         let s = upd_file f (\<lambda>k. k\<lparr>f_ref := f_ref k - 1\<rparr>) s in
         if s_lt 0 (f_ref (files s ! f)) then krelease FtableLk s
         else
           let ff = files s ! f in
           bnd (krelease FtableLk (upd_file f (\<lambda>k. k\<lparr>f_ref := 0, f_type := FD_NONE\<rparr>) s)) (\<lambda>_ s.
           case f_type ff of
             FD_PIPE \<Rightarrow> pipeclose (f_pipe ff) (f_writable ff) s
           | FD_INODE \<Rightarrow>
               bnd (begin_op s) (\<lambda>_ s.
               bnd (case f_ip ff of None \<Rightarrow> Fault | Some ip \<Rightarrow> iput ip s) (\<lambda>_ s. end_op s))
           | FD_NONE \<Rightarrow> Ok () s))"

definition close_opt :: "nat option \<Rightarrow> kernel \<Rightarrow> unit kres" where
  "close_opt f s = (case f of None \<Rightarrow> Ok () s | Some f \<Rightarrow> fileclose f s)"

definition pipealloc_bad :: "nat option \<Rightarrow> nat option \<Rightarrow> kernel \<Rightarrow> (nat \<times> nat) option kres" where
  "pipealloc_bad f0 f1 s = bnd (close_opt f0 s) (\<lambda>_ s. bnd (close_opt f1 s) (\<lambda>_ s. Ok None s))"

text \<open>\<open>pipealloc\<close>: \<open>None\<close> is the result -1, and otherwise the two files that \<open>*f0\<close> and \<open>*f1\<close> are
  set to.  At the label \<open>bad\<close> the pipe is always null: nothing fails after its allocation.\<close>

definition pipealloc :: "kernel \<Rightarrow> (nat \<times> nat) option kres" where
  "pipealloc s =
     bnd (filealloc s) (\<lambda>f0 s.
     case f0 of None \<Rightarrow> pipealloc_bad None None s
     | Some a \<Rightarrow>
     bnd (filealloc s) (\<lambda>f1 s.
     case f1 of None \<Rightarrow> pipealloc_bad f0 None s
     | Some b \<Rightarrow>
     bnd (kalloc s) (\<lambda>p s.
       if p = 0 then pipealloc_bad f0 f1 s
       else
         let s = upd_pipe p (\<lambda>k. k\<lparr>readopen := True, writeopen := True, nwrite := 0, nread := 0\<rparr>) s;
             s = s\<lparr>mach := initlock (PipeLk p) ''pipe'' (mach s)\<rparr>;
             s = upd_file a (\<lambda>k. k\<lparr>f_type := FD_PIPE, f_readable := True, f_writable := False, f_pipe := p\<rparr>) s;
             s = upd_file b (\<lambda>k. k\<lparr>f_type := FD_PIPE, f_readable := False, f_writable := True, f_pipe := p\<rparr>) s
         in Ok (Some (a, b)) s)))"

definition filestat :: "nat \<Rightarrow> kernel \<Rightarrow> stat option kres" where
  "filestat f s =
     (if f_type (files s ! f) = FD_INODE then
        bnd (ilock (f_ip (files s ! f)) s) (\<lambda>_ s.
          case f_ip (files s ! f) of None \<Rightarrow> Fault
          | Some ip \<Rightarrow>
            let st = stati ip s in bnd (iunlock (Some ip) s) (\<lambda>_ s. Ok (Some st) s))
      else Ok None s)"

definition fileread :: "nat \<Rightarrow> 32 word \<Rightarrow> kernel \<Rightarrow> (32 word \<times> byte list) kres" where
  "fileread f n s =
     (if \<not> f_readable (files s ! f) then Ok (- 1, []) s
      else case f_type (files s ! f) of
        FD_PIPE \<Rightarrow> piperead (f_pipe (files s ! f)) n s
      | FD_INODE \<Rightarrow>
          bnd (ilock (f_ip (files s ! f)) s) (\<lambda>_ s.
          case f_ip (files s ! f) of None \<Rightarrow> Fault
          | Some ip \<Rightarrow>
            bnd (readi ip (f_off (files s ! f)) n s) (\<lambda>r s.
              let s = (if s_lt 0 (fst r) then upd_file f (\<lambda>k. k\<lparr>f_off := f_off k + fst r\<rparr>) s else s)
              in bnd (iunlock (Some ip) s) (\<lambda>_ s. Ok r s)))
      | FD_NONE \<Rightarrow> Panic ''fileread'')"

abbreviation (input) WRITE_MAX :: nat where "WRITE_MAX \<equiv> 1536"

text \<open>One turn of the loop of \<open>filewrite\<close>, and the loop: \<open>i\<close> bytes are written, \<open>rest\<close> are not.\<close>

definition filewrite_chunk :: "nat \<Rightarrow> byte list \<Rightarrow> kernel \<Rightarrow> 32 word kres" where
  "filewrite_chunk f bs s =
     bnd (begin_op s) (\<lambda>_ s.
     bnd (ilock (f_ip (files s ! f)) s) (\<lambda>_ s.
     case f_ip (files s ! f) of None \<Rightarrow> Fault
     | Some ip \<Rightarrow>
       bnd (writei ip bs (f_off (files s ! f)) (of_nat (length bs)) s) (\<lambda>r s.
         let s = (if s_lt 0 r then upd_file f (\<lambda>k. k\<lparr>f_off := f_off k + r\<rparr>) s else s) in
         bnd (iunlock (Some ip) s) (\<lambda>_ s.
         bnd (end_op s) (\<lambda>_ s. Ok r s)))))"

function filewrite_loop :: "nat \<Rightarrow> byte list \<Rightarrow> 32 word \<Rightarrow> kernel \<Rightarrow> 32 word kres" where
  "filewrite_loop f rest n s =
     (if rest = [] then Ok n s
      else
        let bs = take WRITE_MAX rest in
        bnd (filewrite_chunk f bs s) (\<lambda>r s.
          if s_lt r 0 then Ok (- 1) s
          else if r \<noteq> of_nat (length bs) then Panic ''short filewrite''
          else filewrite_loop f (drop WRITE_MAX rest) n s))"
  by pat_completeness auto
termination
  by (relation "measure (\<lambda>(f, rest, n, s). length rest)") auto

declare filewrite_loop.simps [simp del]

definition filewrite :: "nat \<Rightarrow> byte list \<Rightarrow> 32 word \<Rightarrow> kernel \<Rightarrow> 32 word kres" where
  "filewrite f bs n s =
     (if \<not> f_writable (files s ! f) then Ok (- 1) s
      else case f_type (files s ! f) of
        FD_PIPE \<Rightarrow> pipewrite (f_pipe (files s ! f)) bs n s
      | FD_INODE \<Rightarrow> if s_lt n 0 then Ok (- 1) s else filewrite_loop f bs n s
      | FD_NONE \<Rightarrow> Panic ''filewrite'')"

end
