(* ===== verification/Uaccess.thy ===== *)
theory Uaccess
  imports Sleeplock
begin

text \<open>
  System call arguments, the first part of \<open>syscall.c\<close>.  When kernel code dereferences a user
  pointer, the address goes through the page table in \<open>cr3\<close>: \<open>mmu\<close> is the walk the processor
  makes (write protection applies to the kernel too, \<open>CR0_WP\<close> is set); an access that does not
  translate traps in kernel mode, which is a fault.  \<open>fetchstr\<close> and \<open>argstr\<close> return the bytes of the
  string instead of its address.
\<close>

section \<open>Access through the page table\<close>

definition mmu :: "bool \<Rightarrow> kernel \<Rightarrow> addr \<Rightarrow> addr option" where
  "mmu wr s va =
     (let pde = load32 (mem s) (P2V (PTE_ADDR (cr3 s)) + 4 * PDX va) in
      if pde AND PTE_P = 0 \<or> (wr \<and> pde AND PTE_W = 0) then None
      else
        let pte = load32 (mem s) (P2V (PTE_ADDR pde) + 4 * PTX va) in
        if pte AND PTE_P = 0 \<or> (wr \<and> pte AND PTE_W = 0) then None
        else Some (P2V (PTE_ADDR pte) + (va AND 0xFFF)))"

primrec load_user :: "nat \<Rightarrow> addr \<Rightarrow> kernel \<Rightarrow> byte list kres" where
  "load_user 0 va s = Ok [] s"
| "load_user (Suc n) va s =
     (case mmu False s va of None \<Rightarrow> Fault
      | Some a \<Rightarrow> bnd (load_user n (va + 1) s) (\<lambda>bs t. Ok (mem s a # bs) t))"

primrec store_user :: "addr \<Rightarrow> byte list \<Rightarrow> kernel \<Rightarrow> unit kres" where
  "store_user va [] s = Ok () s"
| "store_user va (b # bs) s =
     (case mmu True s va of None \<Rightarrow> Fault
      | Some a \<Rightarrow> store_user (va + 1) bs (s\<lparr>mem := (mem s)(a := b)\<rparr>))"

text \<open>The NUL-terminated string at \<open>va\<close>, without the NUL.\<close>

function ustr :: "addr \<Rightarrow> kernel \<Rightarrow> byte list kres" where
  "ustr va s =
     (case mmu False s va of None \<Rightarrow> Fault
      | Some a \<Rightarrow>
        if mem s a = 0 then Ok [] s
        else if va + 1 = 0 then Fault
        else bnd (ustr (va + 1) s) (\<lambda>bs t. Ok (mem s a # bs) t))"
  by pat_completeness auto
termination
proof (relation "measure (\<lambda>(va, s). 2 ^ 32 - unat va)", goal_cases)
  case (2 va s a)
  then have "unat (va + 1) = unat va + 1" by (metis unatSuc add.commute Suc_eq_plus1)
  then show ?case using unat_lt32[of va] by simp
qed simp

declare ustr.simps [simp del]

definition word_of_bytes :: "byte list \<Rightarrow> 32 word" where
  "word_of_bytes bs = load32 (\<lambda>a. bs ! unat a) 0"

definition bytes_of_word :: "32 word \<Rightarrow> byte list" where
  "bytes_of_word w = [byte_of w 0, byte_of w 1, byte_of w 2, byte_of w 3]"

section \<open>Arguments\<close>

text \<open>\<open>None\<close> is the result -1; \<open>Some\<close> carries what the out parameter is set to.\<close>

definition fetchint :: "addr \<Rightarrow> kernel \<Rightarrow> 32 word option kres" where
  "fetchint a s =
     bnd (curproc s) (\<lambda>i s.
       if a \<ge> sz (procs s ! i) \<or> a + 4 > sz (procs s ! i) then Ok None s
       else bnd (load_user 4 a s) (\<lambda>bs s. Ok (Some (word_of_bytes bs)) s))"

text \<open>The search for the NUL byte in the \<open>n\<close> bytes up to the end of the process.\<close>

primrec fetchstr_loop :: "nat \<Rightarrow> addr \<Rightarrow> kernel \<Rightarrow> byte list option kres" where
  "fetchstr_loop 0 p s = Ok None s"
| "fetchstr_loop (Suc n) p s =
     (case mmu False s p of None \<Rightarrow> Fault
      | Some a \<Rightarrow>
        if mem s a = 0 then Ok (Some []) s
        else bnd (fetchstr_loop n (p + 1) s) (\<lambda>r t. Ok (map_option (\<lambda>bs. mem s a # bs) r) t))"

definition fetchstr :: "addr \<Rightarrow> kernel \<Rightarrow> byte list option kres" where
  "fetchstr a s =
     bnd (curproc s) (\<lambda>i s.
       if a \<ge> sz (procs s ! i) then Ok None s
       else fetchstr_loop (unat (sz (procs s ! i)) - unat a) a s)"

definition argint :: "32 word \<Rightarrow> kernel \<Rightarrow> 32 word option kres" where
  "argint n s =
     bnd (curproc s) (\<lambda>i s. fetchint (tf_esp (tfs s (tf (procs s ! i))) + 4 + 4 * n) s)"

definition argptr :: "32 word \<Rightarrow> 32 word \<Rightarrow> kernel \<Rightarrow> addr option kres" where
  "argptr n len s =
     bnd (curproc s) (\<lambda>i s.
     bnd (argint n s) (\<lambda>r s.
     case r of None \<Rightarrow> Ok None s
     | Some a \<Rightarrow>
       if s_lt len 0 \<or> a \<ge> sz (procs s ! i) \<or> a + len > sz (procs s ! i) then Ok None s
       else Ok (Some a) s))"

definition argstr :: "32 word \<Rightarrow> kernel \<Rightarrow> byte list option kres" where
  "argstr n s =
     bnd (argint n s) (\<lambda>r s. case r of None \<Rightarrow> Ok None s | Some a \<Rightarrow> fetchstr a s)"

text \<open>\<open>if(m < 0) return -1;\<close> where \<open>m\<close> sets an out parameter.\<close>

definition need :: "'a option kres \<Rightarrow> ('a \<Rightarrow> kernel \<Rightarrow> 32 word kres) \<Rightarrow> 32 word kres" where
  "need m f = bnd m (\<lambda>r s. case r of None \<Rightarrow> Ok (- 1) s | Some x \<Rightarrow> f x s)"

section \<open>What the checks guarantee\<close>

lemma load_user_state: "load_user n va s = Ok bs t \<Longrightarrow> t = s \<and> length bs = n"
  by (induction n arbitrary: va s bs t) (auto simp: bnd_eq_Ok split: option.splits)

lemma curproc_OkD:
  assumes "mach_ok (mach s)" "running s = Some i" "curproc s = Ok j t"
  shows "j = i" "t = s\<lparr>mach := touch (mach s)\<rparr>"
  using assms by (simp_all add: curproc_ok)

text \<open>The argument functions only run the interrupt bookkeeping of \<open>myproc\<close>.\<close>

lemma fetchint_state:
  assumes "mach_ok (mach s)" "running s = Some i" "fetchint a s = Ok r t"
  shows "t = s\<lparr>mach := touch (mach s)\<rparr>"
  using assms by (auto simp: fetchint_def curproc_ok bnd_eq_Ok dest: load_user_state split: if_splits)

lemma argint_state:
  assumes "mach_ok (mach s)" "running s = Some i" "argint n s = Ok r t"
  shows "t = s\<lparr>mach := touch (mach s)\<rparr>"
proof -
  have "fetchint (tf_esp (tfs s (tf (procs s ! i))) + 4 + 4 * n) (s\<lparr>mach := touch (mach s)\<rparr>) = Ok r t"
    using assms by (simp add: argint_def curproc_ok)
  from fetchint_state[OF _ _ this, of i] show ?thesis using assms by simp
qed

lemma fits_no_wrap:
  fixes a n z :: "32 word"
  assumes "z \<le> 0x80000000" "\<not> s_lt n 0" "a < z" "a + n \<le> z"
  shows "unat a + unat n \<le> unat z"
proof -
  have n: "unat n < 2 ^ 31" using assms(2) by (simp add: s_neg_iff)
  have "unat a < 2 ^ 31" using assms(1,3) by (simp add: word_less_nat_alt word_le_nat_alt)
  then have "unat (a + n) = unat a + unat n" using n by (intro unat_add_lem[THEN iffD1]) simp
  then show ?thesis using assms(4) by (simp add: word_le_nat_alt)
qed

text \<open>(C28) A buffer that \<open>argptr\<close> accepts lies inside the process: no byte of the range \<open>a ..< a + len\<close>
  is at or above \<open>sz\<close>, although both comparisons are made on 32-bit numbers that can wrap around;
  the call changes nothing but the interrupt bookkeeping.\<close>

theorem argptr_bounds:
  assumes "mach_ok (mach s)" "running s = Some i" "sz (procs s ! i) \<le> KERNBASE"
    "argptr n len s = Ok (Some a) t"
  shows "unat a + unat len \<le> unat (sz (procs s ! i)) \<and> unat a < unat (sz (procs s ! i))
     \<and> t = s\<lparr>mach := touch (mach s)\<rparr>"
proof -
  let ?s = "s\<lparr>mach := touch (mach s)\<rparr>"
  obtain r u where u: "argint n ?s = Ok r u"
    and e: "(case r of None \<Rightarrow> Ok None u | Some a \<Rightarrow>
       if s_lt len 0 \<or> a \<ge> sz (procs u ! i) \<or> a + len > sz (procs u ! i) then Ok None u
       else Ok (Some a) u) = Ok (Some a) t"
    using assms by (auto simp: argptr_def curproc_ok bnd_eq_Ok)
  have "u = ?s" using argint_state[OF _ _ u, of i] assms by simp
  with e have c: "\<not> s_lt len 0" "a < sz (procs s ! i)" "a + len \<le> sz (procs s ! i)" "t = u"
    by (auto split: option.splits if_splits)
  with \<open>u = ?s\<close> c fits_no_wrap[OF assms(3) c(1-3)] show ?thesis by (simp add: word_less_nat_alt)
qed

lemma fetchstr_loop_spec:
  "fetchstr_loop n p s = Ok (Some bs) t \<Longrightarrow>
   t = s \<and> length bs < n \<and> 0 \<notin> set bs
   \<and> (\<forall>k \<le> length bs. \<exists>a. mmu False s (p + of_nat k) = Some a \<and> mem s a = (bs @ [0]) ! k)"
proof (induction n arbitrary: p bs)
  case (Suc n)
  obtain a where a: "mmu False s p = Some a" using Suc.prems by (auto split: option.splits)
  show ?case
  proof (cases "mem s a = 0")
    case True
    then show ?thesis using Suc.prems a by auto
  next
    case False
    then obtain r where r: "fetchstr_loop n (p + 1) s = Ok (Some r) t" "bs = mem s a # r"
      using Suc.prems a by (auto simp: bnd_eq_Ok)
    from Suc.IH[OF r(1)] have ih: "t = s" "length r < n" "0 \<notin> set r"
      "\<forall>k \<le> length r. \<exists>a. mmu False s (p + 1 + of_nat k) = Some a \<and> mem s a = (r @ [0]) ! k" by simp_all
    have "\<exists>a. mmu False s (p + of_nat k) = Some a \<and> mem s a = (bs @ [0]) ! k" if "k \<le> length bs" for k
    proof (cases k)
      case 0
      then show ?thesis using a r by simp
    next
      case (Suc j)
      then show ?thesis using ih(4) that r(2) by (auto simp: ac_simps)
    qed
    then show ?thesis using ih False r(2) by simp
  qed
qed simp

text \<open>A string that \<open>fetchstr\<close> accepts is NUL-terminated inside the process: the terminating
  byte, too, is below \<open>sz\<close>, and the bytes before it are not NUL.\<close>

theorem fetchstr_bounds:
  assumes "mach_ok (mach s)" "running s = Some i" "fetchstr a s = Ok (Some bs) t"
  shows "0 \<notin> set bs \<and> unat a + length bs < unat (sz (procs s ! i))
     \<and> (\<forall>k \<le> length bs. \<exists>pa. mmu False s (a + of_nat k) = Some pa \<and> mem s pa = (bs @ [0]) ! k)"
proof -
  let ?s = "s\<lparr>mach := touch (mach s)\<rparr>"
  have l: "fetchstr_loop (unat (sz (procs s ! i)) - unat a) a ?s = Ok (Some bs) t"
    using assms by (auto simp: fetchstr_def curproc_ok split: if_splits)
  have m: "mmu False ?s = mmu False s" by (simp add: mmu_def fun_eq_iff Let_def)
  show ?thesis using fetchstr_loop_spec[OF l] by (auto simp: m)
qed

text \<open>A process with one page, at physical address \<open>0x3000\<close>: its user stack pointer is \<open>0x100\<close>, its
  first argument is the number \<open>0x200\<close>, and the string at that address is ``a''.\<close>

definition user_demo :: kernel where
  "user_demo = calm\<lparr>procs := [proc0\<lparr>pstate := RUNNING, pid := 1, sz := 4096, pgdir := 0x80001000, tf := 0\<rparr>],
     cr3 := 0x1000, tfs := (\<lambda>_. trapframe0\<lparr>tf_esp := 0x100\<rparr>),
     mem := (store32 0x80001000 0x2007 (store32 0x80002000 0x3007 (store32 0x80003104 0x200 (\<lambda>_. 0))))
            (0x80003200 := 97)\<rparr>"

lemma user_demo_frame [simp]:
  "quiet user_demo" "running user_demo = Some 0" "mach user_demo = mach calm" "mach_ok (mach user_demo)"
  "sz (procs user_demo ! 0) = 4096" "pid (procs user_demo ! 0) = 1" "length (procs user_demo) = 1"
  using quiet_frame[of user_demo] by (simp_all add: user_demo_def quiet_def)

lemma user_demo_mmu:
  "mmu w user_demo 0x104 = Some 0x80003104" "mmu w user_demo 0x105 = Some 0x80003105"
  "mmu w user_demo 0x106 = Some 0x80003106" "mmu w user_demo 0x107 = Some 0x80003107"
  "mmu w user_demo 0x200 = Some 0x80003200" "mmu w user_demo 0x201 = Some 0x80003201"
  by (simp_all add: mmu_def user_demo_def load32_def store32_def byte_of_def PTE_ADDR_def PDX_def PTX_def P2V_def)

lemma user_demo_load: "load_user 4 0x104 user_demo = Ok [0, 2, 0, 0] user_demo"
proof -
  have "mem user_demo 0x80003104 = 0" "mem user_demo 0x80003105 = 2" "mem user_demo 0x80003106 = 0"
    "mem user_demo 0x80003107 = 0"
    by (simp_all add: user_demo_def store32_def byte_of_def)
  then show ?thesis by (simp add: numeral_eq_Suc user_demo_mmu)
qed

lemma user_demo_argint: "argint 0 user_demo = Ok (Some 0x200) user_demo"
proof -
  have cp: "curproc user_demo = Ok 0 user_demo"
    using curproc_ok[of user_demo 0] calm_mach by simp
  have esp: "tf_esp (tfs user_demo (tf (procs user_demo ! 0))) = 0x100" by (simp add: user_demo_def)
  show ?thesis
    using user_demo_load
    by (simp add: argint_def cp esp fetchint_def word_of_bytes_def load32_def)
qed

theorem argptr_bounds_witness:
  "argptr 0 16 user_demo = Ok (Some 0x200) user_demo \<and> unat (0x200 :: addr) + unat (16 :: 32 word) \<le> 4096"
proof -
  have cp: "curproc user_demo = Ok 0 user_demo"
    using curproc_ok[of user_demo 0] calm_mach by simp
  have "\<not> s_lt (16 :: 32 word) 0" by (simp add: s_neg_iff)
  then have a: "argptr 0 16 user_demo = Ok (Some 0x200) user_demo"
    by (simp add: argptr_def cp user_demo_argint)
  show ?thesis using argptr_bounds[OF _ _ _ a, of 0] a by simp
qed

theorem fetchstr_bounds_witness:
  "\<exists>bs. fetchstr 0x200 user_demo = Ok (Some bs) user_demo \<and> 0 \<notin> set bs \<and> 0x200 + length bs < 4096"
proof -
  have cp: "curproc user_demo = Ok 0 user_demo"
    using curproc_ok[of user_demo 0] calm_mach by simp
  have m: "mem user_demo 0x80003200 = 97" "mem user_demo 0x80003201 = 0"
    by (simp_all add: user_demo_def store32_def)
  have "fetchstr_loop (Suc (Suc n)) 0x200 user_demo = Ok (Some [97]) user_demo" for n
    by (simp add: user_demo_mmu m)
  from this[of 3582] have f: "fetchstr 0x200 user_demo = Ok (Some [97]) user_demo"
    by (simp add: fetchstr_def cp)
  show ?thesis using fetchstr_bounds[OF _ _ f, of 0] f by auto
qed

end
