(* ===== verification/Proc_Life.thy ===== *)
theory Proc_Life
  imports File Uaccess
begin

text \<open>
  The functions of \<open>proc.c\<close> that create and end processes.  The image of \<open>initcode\<close>, which the
  linker embeds, is an argument of \<open>userinit\<close>.
\<close>

definition userinit :: "byte list \<Rightarrow> kernel \<Rightarrow> unit kres" where
  "userinit initcode s =
     bnd (allocproc s) (\<lambda>p s.
     let s = s\<lparr>initproc := p\<rparr> in
     bnd (setupkvm s) (\<lambda>pd s.
     case p of None \<Rightarrow> Fault
     | Some i \<Rightarrow>
       let s = upd_proc i (\<lambda>p. p\<lparr>pgdir := pd\<rparr>) s in
       if pd = 0 then Panic ''userinit: out of memory?''
       else bnd (inituvm pd initcode s) (\<lambda>_ s.
         let s = upd_proc i (\<lambda>p. p\<lparr>sz := PGSIZE\<rparr>) s;
             a = tf (procs s ! i);
             s = s\<lparr>tfs := (tfs s)(a := trapframe0\<lparr>tf_cs := push_bit 3 3 OR 3, tf_ds := push_bit 3 4 OR 3,
                    tf_es := push_bit 3 4 OR 3, tf_ss := push_bit 3 4 OR 3, tf_eflags := 0x200,
                    tf_esp := PGSIZE, tf_eip := 0\<rparr>)\<rparr>;
             s = upd_proc i (\<lambda>p. p\<lparr>pticks := 0, tickets := 10\<rparr>) s;
             s = upd_proc i (\<lambda>p. p\<lparr>pname := over (pname p) (safestrcpy (seq_of (bytes_of ''initcode'' @ [0])) 16)\<rparr>) s
         in bnd (namei (bytes_of ''/'') s) (\<lambda>d s.
            let s = upd_proc i (\<lambda>p. p\<lparr>cwd := d\<rparr>) s in
            bnd (kacquire PtableLk s) (\<lambda>_ s.
            krelease PtableLk (upd_proc i (\<lambda>p. p\<lparr>pstate := RUNNABLE\<rparr>) s))))))"

definition growproc :: "32 word \<Rightarrow> kernel \<Rightarrow> 32 word kres" where
  "growproc n s =
     bnd (curproc s) (\<lambda>i s.
     let z = sz (procs s ! i);
         finish = (\<lambda>z s. bnd (switchuvm (Some i) (upd_proc i (\<lambda>p. p\<lparr>sz := z\<rparr>) s)) (\<lambda>_ s. Ok 0 s))
     in if s_lt 0 n then
          bnd (allocuvm (pgdir (procs s ! i)) z (z + n) s) (\<lambda>z s. if z = 0 then Ok (- 1) s else finish z s)
        else if s_lt n 0 then
          bnd (deallocuvm (pgdir (procs s ! i)) z (z + n) s) (\<lambda>z s. if z = 0 then Ok (- 1) s else finish z s)
        else finish z s)"

section \<open>fork\<close>

text \<open>The loop over the open files, at the remaining descriptors.\<close>

primrec fork_files :: "nat list \<Rightarrow> nat \<Rightarrow> nat \<Rightarrow> kernel \<Rightarrow> unit kres" where
  "fork_files [] i np s = Ok () s"
| "fork_files (fd # fds) i np s =
     bnd (case ofile (procs s ! i) ! fd of
            None \<Rightarrow> Ok () s
          | Some f \<Rightarrow> bnd (filedup f s) (\<lambda>g s.
              Ok () (upd_proc np (\<lambda>p. p\<lparr>ofile := (ofile p)[fd := Some g]\<rparr>) s))) (\<lambda>_ s.
     fork_files fds i np s)"

definition fork_tickets :: "32 word \<Rightarrow> 32 word" where
  "fork_tickets t = (if s_lt 10 t then t else 10)"

definition fork :: "kernel \<Rightarrow> 32 word kres" where
  "fork s =
     bnd (curproc s) (\<lambda>i s.
     bnd (allocproc s) (\<lambda>np s.
     case np of None \<Rightarrow> Ok (- 1) s
     | Some np \<Rightarrow>
       bnd (copyuvm (pgdir (procs s ! i)) (sz (procs s ! i)) s) (\<lambda>pd s.
         let s = upd_proc np (\<lambda>p. p\<lparr>pgdir := pd\<rparr>) s in
         if pd = 0 then
           bnd (kfree (kstack (procs s ! np)) s) (\<lambda>_ s.
             Ok (- 1) (upd_proc np (\<lambda>p. p\<lparr>kstack := 0, pstate := UNUSED\<rparr>) s))
         else
           let s = upd_proc np (\<lambda>p. p\<lparr>sz := sz (procs s ! i), parent := Some i\<rparr>) s;
               s = s\<lparr>tfs := (tfs s)(tf (procs s ! np) := tfs s (tf (procs s ! i)))\<rparr>;
               s = upd_proc np (\<lambda>p. p\<lparr>pticks := 0, tickets := fork_tickets (tickets (procs s ! i))\<rparr>) s;
               a = tf (procs s ! np);
               s = s\<lparr>tfs := (tfs s)(a := (tfs s a)\<lparr>tf_eax := 0\<rparr>)\<rparr>
           in bnd (fork_files [0..<NOFILE] i np s) (\<lambda>_ s.
              bnd (case cwd (procs s ! i) of None \<Rightarrow> Fault | Some d \<Rightarrow> idup d s) (\<lambda>d s.
              let s = upd_proc np (\<lambda>p. p\<lparr>cwd := Some d\<rparr>) s;
                  s = upd_proc np (\<lambda>p. p\<lparr>pname := over (pname p) (safestrcpy (seq_of (pname (procs s ! i))) 16)\<rparr>) s;
                  r = pid (procs s ! np)
              in bnd (kacquire PtableLk s) (\<lambda>_ s.
                 bnd (krelease PtableLk (upd_proc np (\<lambda>p. p\<lparr>pstate := RUNNABLE\<rparr>) s)) (\<lambda>_ s.
                 Ok r s)))))))"

section \<open>exit\<close>

primrec exit_files :: "nat list \<Rightarrow> nat \<Rightarrow> kernel \<Rightarrow> unit kres" where
  "exit_files [] i s = Ok () s"
| "exit_files (fd # fds) i s =
     bnd (case ofile (procs s ! i) ! fd of
            None \<Rightarrow> Ok () s
          | Some f \<Rightarrow> bnd (fileclose f s) (\<lambda>_ s.
              Ok () (upd_proc i (\<lambda>p. p\<lparr>ofile := (ofile p)[fd := None]\<rparr>) s))) (\<lambda>_ s.
     exit_files fds i s)"

text \<open>The loop that passes the children of \<open>i\<close> to init; \<open>js\<close> are the slots left.\<close>

primrec abandon :: "nat list \<Rightarrow> nat \<Rightarrow> kernel \<Rightarrow> kernel" where
  "abandon [] i s = s"
| "abandon (j # js) i s =
     (if parent (procs s ! j) = Some i then
        let s = upd_proc j (\<lambda>p. p\<lparr>parent := initproc s\<rparr>) s;
            s = (if pstate (procs s ! j) = ZOMBIE then wakeup1 (map_option ChProc (initproc s)) s else s)
        in abandon js i s
      else abandon js i s)"

text \<open>From the second \<open>acquire\<close> on: the process tells its parent and init, and becomes a zombie.\<close>

definition exit_final :: "nat \<Rightarrow> kernel \<Rightarrow> unit kres" where
  "exit_final i s =
     bnd (kacquire PtableLk s) (\<lambda>_ s.
       let s = wakeup1 (map_option ChProc (parent (procs s ! i))) s;
           s = abandon [0..<length (procs s)] i s;
           s = upd_proc i (\<lambda>p. p\<lparr>pstate := ZOMBIE\<rparr>) s
       in bnd (sched s) (\<lambda>_ s. Panic ''zombie exit''))"

text \<open>\<open>exit\<close> never returns: it ends in the scheduler.\<close>

definition exit :: "kernel \<Rightarrow> unit kres" where
  "exit s =
     bnd (curproc s) (\<lambda>i s.
     if initproc s = Some i then Panic ''init exiting''
     else
       bnd (exit_files [0..<NOFILE] i s) (\<lambda>_ s.
       bnd (begin_op s) (\<lambda>_ s.
       bnd (case cwd (procs s ! i) of None \<Rightarrow> Fault | Some d \<Rightarrow> iput d s) (\<lambda>_ s.
       bnd (end_op s) (\<lambda>_ s.
       exit_final i (upd_proc i (\<lambda>p. p\<lparr>cwd := None\<rparr>) s))))))"

section \<open>wait\<close>

text \<open>The body of the endless loop, with \<open>ptable.lock\<close> held: the scan stops at the first zombie
  child.\<close>

definition reap :: "nat \<Rightarrow> kernel \<Rightarrow> 32 word kres" where
  "reap j s =
     (let r = pid (procs s ! j) in
      bnd (kfree (kstack (procs s ! j)) s) (\<lambda>_ s.
      let s = upd_proc j (\<lambda>p. p\<lparr>kstack := 0\<rparr>) s in
      bnd (freevm (pgdir (procs s ! j)) s) (\<lambda>_ s.
      let s = upd_proc j (\<lambda>p. p\<lparr>pid := 0, parent := None, pname := (pname p)[0 := 0], killed := False,
                               pstate := UNUSED\<rparr>) s
      in bnd (krelease PtableLk s) (\<lambda>_ s. Ok r s))))"

definition wait_scan :: "nat \<Rightarrow> kernel \<Rightarrow> 32 word kres" where
  "wait_scan i s =
     (case first_idx (\<lambda>p. parent p = Some i \<and> pstate p = ZOMBIE) (procs s) of
        Some j \<Rightarrow> reap j s
      | None \<Rightarrow>
          if \<not> list_ex (\<lambda>p. parent p = Some i) (procs s) \<or> killed (procs s ! i)
          then bnd (krelease PtableLk s) (\<lambda>_ s. Ok (- 1) s)
          else bnd (sleep (ChProc i) (Some PtableLk) s) (\<lambda>_ s. Ok 0 s))"

definition wait :: "kernel \<Rightarrow> 32 word kres" where
  "wait s = bnd (curproc s) (\<lambda>i s. bnd (kacquire PtableLk s) (\<lambda>_ s. wait_scan i s))"

definition wait_back :: "nat \<Rightarrow> bool \<Rightarrow> kernel \<Rightarrow> 32 word kres" where
  "wait_back i ie s = bnd (sleep_back i PtableLk ie s) (\<lambda>_ s. wait_scan i s)"

section \<open>The first switch to a process\<close>

definition forkret :: "kernel \<Rightarrow> unit kres" where
  "forkret s =
     bnd (krelease PtableLk s) (\<lambda>_ s.
     if forkret_first s then
       bnd (iinit 1 (s\<lparr>forkret_first := False\<rparr>)) (\<lambda>_ s. initlog 1 s)
     else Ok () s)"

section \<open>kill\<close>

lemma upd_proc_same: "upd_proc i f (upd_proc i g s) = upd_proc i (\<lambda>p. f (g p)) s"
  by (cases "i < length (procs s)") (simp_all add: upd_proc_def list_update_beyond)

lemma kill_ok:
  assumes "quiet s"
  shows "kill pd s = (case first_idx (\<lambda>p. pid p = pd) (procs s) of
       None \<Rightarrow> Ok (- 1) s
     | Some i \<Rightarrow> Ok 0 (upd_proc i (\<lambda>p. p\<lparr>killed := True,
          pstate := (if pstate p = SLEEPING then RUNNABLE else pstate p)\<rparr>) s))"
proof (cases "first_idx (\<lambda>p. pid p = pd) (procs s)")
  case None
  have "krelease PtableLk (s\<lparr>mach := hold PtableLk (mach s)\<rparr>) = Ok () s"
    using krelease_quiet[of "s\<lparr>mach := hold PtableLk (mach s)\<rparr>" PtableLk "mach s"] quietD[OF assms] by simp
  then show ?thesis using None by (simp add: kill_def kacquire_quiet[OF assms])
next
  case (Some i)
  then have i: "i < length (procs s)" by (rule first_idx_SomeD)
  let ?f = "\<lambda>p. p\<lparr>killed := True, pstate := (if pstate p = SLEEPING then RUNNABLE else pstate p)\<rparr>"
  let ?t = "upd_proc i ?f (s\<lparr>mach := hold PtableLk (mach s)\<rparr>)"
  have "krelease PtableLk ?t = Ok () (?t\<lparr>mach := mach s\<rparr>)"
    using quietD[OF assms] by (intro krelease_quiet) simp_all
  moreover have "?t\<lparr>mach := mach s\<rparr> = upd_proc i ?f s" by (simp add: upd_proc_def)
  moreover have "(let s = upd_proc i (\<lambda>p. p\<lparr>killed := True\<rparr>) (s\<lparr>mach := hold PtableLk (mach s)\<rparr>) in
      if pstate (procs s ! i) = SLEEPING then upd_proc i (\<lambda>p. p\<lparr>pstate := RUNNABLE\<rparr>) s else s) = ?t"
    using i by (auto simp: Let_def upd_proc_def)
  ultimately show ?thesis using Some by (simp add: kill_def kacquire_quiet[OF assms] Let_def)
qed

lemma kalloc_procs: "kalloc s = Ok a t \<Longrightarrow> procs t = procs s"
  by (auto simp: kalloc_def bnd_eq_Ok Let_def dest!: klock_OkD split: if_splits)

lemma alloc_kstack_frame:
  assumes "alloc_kstack i s = Ok r t" "i < length (procs s)"
  shows "length (procs t) = length (procs s) \<and> (\<forall>j. pid (procs t ! j) = pid (procs s ! j)
     \<and> killed (procs t ! j) = killed (procs s ! j) \<and> parent (procs t ! j) = parent (procs s ! j))"
proof -
  obtain k u where k: "kalloc s = Ok k u" using assms by (auto simp: alloc_kstack_def bnd_eq_Ok)
  then have "procs u = procs s" by (rule kalloc_procs)
  with assms k show ?thesis
    by (auto simp: alloc_kstack_def Let_def upd_proc_def nth_list_update split: if_splits)
qed

lemma allocproc_ok:
  assumes "quiet s"
  shows "allocproc s = (case first_idx (\<lambda>p. pstate p = UNUSED) (procs s) of
       None \<Rightarrow> Ok None s
     | Some i \<Rightarrow> alloc_kstack i ((upd_proc i (\<lambda>p. p\<lparr>pstate := EMBRYO, pid := nextpid s\<rparr>) s)\<lparr>nextpid := nextpid s + 1\<rparr>))"
proof (cases "first_idx (\<lambda>p. pstate p = UNUSED) (procs s)")
  case None
  have "krelease PtableLk (s\<lparr>mach := hold PtableLk (mach s)\<rparr>) = Ok () s"
    using krelease_quiet[of "s\<lparr>mach := hold PtableLk (mach s)\<rparr>" PtableLk "mach s"] quietD[OF assms] by simp
  then show ?thesis using None by (simp add: allocproc_def kacquire_quiet[OF assms])
next
  case (Some i)
  let ?t = "(upd_proc i (\<lambda>p. p\<lparr>pstate := EMBRYO, pid := nextpid s\<rparr>) (s\<lparr>mach := hold PtableLk (mach s)\<rparr>))\<lparr>nextpid := nextpid s + 1\<rparr>"
  have "krelease PtableLk ?t = Ok () (?t\<lparr>mach := mach s\<rparr>)"
    using quietD[OF assms] by (intro krelease_quiet) (simp_all add: upd_proc_def)
  then show ?thesis using Some by (simp add: allocproc_def kacquire_quiet[OF assms] Let_def upd_proc_def)
qed

text \<open>(C40) \<open>kill(0)\<close> hits a free slot: \<open>wait\<close> resets the pid of a slot to 0 and \<open>kill\<close> does not look at
  the state, so the call succeeds although there is no such process; \<open>allocproc\<close> does not clear the
  flag, and when it hands out the slot the new process, with its fresh pid, is born killed.\<close>

theorem kill_zero_marks_free_slot:
  assumes "quiet s" "first_idx (\<lambda>p. pid p = 0) (procs s) = Some i"
    "first_idx (\<lambda>p. pstate p = UNUSED) (procs s) = Some i"
  shows "\<exists>s1. kill 0 s = Ok 0 s1 \<and> pstate (procs s1 ! i) = UNUSED
     \<and> (\<forall>r s2. allocproc s1 = Ok r s2 \<longrightarrow> killed (procs s2 ! i) \<and> pid (procs s2 ! i) = nextpid s)"
proof -
  let ?s1 = "upd_proc i (\<lambda>p. p\<lparr>killed := True, pstate := (if pstate p = SLEEPING then RUNNABLE else pstate p)\<rparr>) s"
  have i: "i < length (procs s)" "pstate (procs s ! i) = UNUSED" using first_idx_SomeD[OF assms(3)] by simp_all
  have k: "kill 0 s = Ok 0 ?s1" using kill_ok[OF assms(1), of 0] assms(2) by simp
  have same: "map pstate (procs ?s1) = map pstate (procs s)"
    using i by (simp add: upd_proc_def map_update list_update_same_conv)
  have f: "first_idx (\<lambda>p. pstate p = UNUSED) (procs ?s1) = Some i"
    using assms(3) first_idx_map[of "\<lambda>x. x = UNUSED" pstate "procs ?s1"]
      first_idx_map[of "\<lambda>x. x = UNUSED" pstate "procs s"] same by simp
  have q: "quiet ?s1" using assms(1) quiet_cong[of ?s1 s] by simp
  let ?t = "(upd_proc i (\<lambda>p. p\<lparr>pstate := EMBRYO, pid := nextpid ?s1\<rparr>) ?s1)\<lparr>nextpid := nextpid ?s1 + 1\<rparr>"
  have t: "killed (procs ?t ! i)" "pid (procs ?t ! i) = nextpid s" "i < length (procs ?t)"
    using i by (simp_all add: upd_proc_def)
  have "killed (procs s2 ! i) \<and> pid (procs s2 ! i) = nextpid s" if "allocproc ?s1 = Ok r s2" for r s2
  proof -
    have a: "alloc_kstack i ?t = Ok r s2" using that allocproc_ok[OF q] f by simp
    show ?thesis using alloc_kstack_frame[OF a t(3)] t(1,2) by simp
  qed
  moreover have "pstate (procs ?s1 ! i) = UNUSED" using i by (simp add: upd_proc_def)
  ultimately show ?thesis using k by blast
qed

theorem kill_zero_marks_free_slot_witness:
  "\<exists>s1. kill 0 calm = Ok 0 s1 \<and> pstate (procs s1 ! 1) = UNUSED
     \<and> (\<forall>r s2. allocproc s1 = Ok r s2 \<longrightarrow> killed (procs s2 ! 1) \<and> pid (procs s2 ! 1) = 1)"
proof -
  have "procs calm = proc0\<lparr>pstate := RUNNING, pid := 1\<rparr> # proc0 # replicate 62 proc0"
    by (simp add: calm_def one_running_def numeral_eq_Suc)
  then have "first_idx (\<lambda>p. pid p = 0) (procs calm) = Some 1" "first_idx (\<lambda>p. pstate p = UNUSED) (procs calm) = Some 1"
    by (simp_all add: proc0_def)
  moreover have "nextpid calm = 1" by (simp add: calm_def one_running_def boot_kernel_def)
  ultimately show ?thesis using kill_zero_marks_free_slot[of calm 1] by simp
qed

section \<open>Process identifiers\<close>

text \<open>The slots in use have different, positive pids below \<open>nextpid\<close>.\<close>

definition pids_ok :: "kernel \<Rightarrow> bool" where
  "pids_ok s \<longleftrightarrow> 0 < unat (nextpid s)
     \<and> (\<forall>i < length (procs s). pstate (procs s ! i) \<noteq> UNUSED \<longrightarrow>
          0 < unat (pid (procs s ! i)) \<and> unat (pid (procs s ! i)) < unat (nextpid s))
     \<and> (\<forall>i < length (procs s). \<forall>j < length (procs s). i \<noteq> j \<longrightarrow> pstate (procs s ! i) \<noteq> UNUSED \<longrightarrow>
          pstate (procs s ! j) \<noteq> UNUSED \<longrightarrow> pid (procs s ! i) \<noteq> pid (procs s ! j))"

lemma kalloc_nextpid: "kalloc s = Ok a t \<Longrightarrow> nextpid t = nextpid s"
  by (auto simp: kalloc_def bnd_eq_Ok Let_def dest!: klock_OkD split: if_splits)

lemma alloc_kstack_states:
  assumes "alloc_kstack i s = Ok r t" "i < length (procs s)"
  shows "nextpid t = nextpid s \<and> (\<forall>j. pstate (procs t ! j) = pstate (procs s ! j) \<or> j = i \<and> pstate (procs t ! j) = UNUSED)
     \<and> (r = None \<longrightarrow> pstate (procs t ! i) = UNUSED) \<and> (\<forall>k. r = Some k \<longrightarrow> k = i \<and> pstate (procs t ! i) = pstate (procs s ! i))"
proof -
  obtain k u where k: "kalloc s = Ok k u" using assms by (auto simp: alloc_kstack_def bnd_eq_Ok)
  then have "procs u = procs s" "nextpid u = nextpid s" by (auto dest: kalloc_procs kalloc_nextpid)
  with assms k show ?thesis
    by (auto simp: alloc_kstack_def Let_def upd_proc_def nth_list_update split: if_splits)
qed

text \<open>Process identifiers are unique: as long as \<open>nextpid\<close> has not wrapped around, \<open>allocproc\<close>
  gives a process a pid that no slot in use has, and keeps the invariant that the pids of the slots in
  use are distinct, positive and below \<open>nextpid\<close>, also when it runs out of memory for the stack.\<close>

theorem allocproc_fresh_pid:
  assumes "quiet s" "pids_ok s" "nextpid s \<noteq> - 1" "allocproc s = Ok r t"
  shows "pids_ok t \<and> (\<forall>i. r = Some i \<longrightarrow> i < length (procs s) \<and> pstate (procs s ! i) = UNUSED
     \<and> pstate (procs t ! i) = EMBRYO \<and> pid (procs t ! i) = nextpid s
     \<and> (\<forall>j < length (procs s). pstate (procs s ! j) \<noteq> UNUSED \<longrightarrow> pid (procs s ! j) \<noteq> pid (procs t ! i)))"
proof (cases "first_idx (\<lambda>p. pstate p = UNUSED) (procs s)")
  case None
  then show ?thesis using assms allocproc_ok[OF assms(1)] by simp
next
  case (Some i)
  let ?t = "(upd_proc i (\<lambda>p. p\<lparr>pstate := EMBRYO, pid := nextpid s\<rparr>) s)\<lparr>nextpid := nextpid s + 1\<rparr>"
  have i: "i < length (procs s)" "pstate (procs s ! i) = UNUSED" using first_idx_SomeD[OF Some] by simp_all
  have a: "alloc_kstack i ?t = Ok r t" using allocproc_ok[OF assms(1)] Some assms(4) by simp
  have it: "i < length (procs ?t)" using i by (simp add: upd_proc_def)
  note fr = alloc_kstack_frame[OF a it] and st = alloc_kstack_states[OF a it]
  have np: "unat (nextpid s + 1) = Suc (unat (nextpid s))"
    using assms(3) by (metis unatSuc add.commute diff_0 diff_eq_eq)
  have ne: "procs t ! j = procs t ! j \<and> pid (procs t ! j) = (if j = i then nextpid s else pid (procs s ! j))" if "j < length (procs s)" for j
    using fr that by (simp add: upd_proc_def nth_list_update)
  have us: "pstate (procs s ! j) \<noteq> UNUSED" if "j < length (procs s)" "j \<noteq> i" "pstate (procs t ! j) \<noteq> UNUSED" for j
  proof -
    have "pstate (procs t ! j) = pstate (procs ?t ! j)" using st that(2) by blast
    also have "\<dots> = pstate (procs s ! j)" using that(2) by (simp add: upd_proc_def)
    finally show ?thesis using that(3) by simp
  qed
  have low: "0 < unat (pid (procs s ! j)) \<and> unat (pid (procs s ! j)) < unat (nextpid s)"
    if "j < length (procs s)" "pstate (procs s ! j) \<noteq> UNUSED" for j
    using assms(2) that by (simp add: pids_ok_def)
  have pk: "pids_ok t"
    unfolding pids_ok_def
  proof (intro conjI allI impI)
    show "0 < unat (nextpid t)" using st np by simp
    fix j assume "j < length (procs t)" and u: "pstate (procs t ! j) \<noteq> UNUSED"
    then have j: "j < length (procs s)" using fr by simp
    show "0 < unat (pid (procs t ! j))" "unat (pid (procs t ! j)) < unat (nextpid t)"
      using ne[OF j] low[OF j us[OF j _ u]] assms(2) st np by (auto simp: pids_ok_def)
    fix k assume "k < length (procs t)" and jk: "j \<noteq> k" and v: "pstate (procs t ! k) \<noteq> UNUSED"
    then have k: "k < length (procs s)" using fr by simp
    show "pid (procs t ! j) \<noteq> pid (procs t ! k)"
    proof (cases "j = i \<or> k = i")
      case True
      then show ?thesis using ne[OF j] ne[OF k] low[OF j us[OF j _ u]] low[OF k us[OF k _ v]] jk by auto
    next
      case False
      then have "pid (procs s ! j) \<noteq> pid (procs s ! k)"
        using assms(2) j k jk us[OF j _ u] us[OF k _ v] by (simp add: pids_ok_def)
      then show ?thesis using ne[OF j] ne[OF k] False by simp
    qed
  qed
  have "pid (procs s ! j) \<noteq> nextpid s" if "j < length (procs s)" "pstate (procs s ! j) \<noteq> UNUSED" for j
    using low[OF that] by auto
  then show ?thesis using pk st i ne[OF i(1)] by (auto simp: upd_proc_def)
qed

definition alloc_demo :: kernel where
  "alloc_demo = calm\<lparr>nextpid := 2, freelist := 0x80200000\<rparr>"

theorem allocproc_fresh_pid_witness:
  "\<exists>t. allocproc alloc_demo = Ok (Some 1) t \<and> pids_ok t \<and> pid (procs t ! 1) = 2 \<and> pstate (procs t ! 1) = EMBRYO"
proof -
  have q: "quiet alloc_demo" using quiet_frame[of alloc_demo] by (simp add: alloc_demo_def)
  have ps: "procs alloc_demo = proc0\<lparr>pstate := RUNNING, pid := 1\<rparr> # proc0 # replicate 62 proc0"
    by (simp add: alloc_demo_def calm_def one_running_def numeral_eq_Suc)
  have np: "nextpid alloc_demo = 2" by (simp add: alloc_demo_def)
  have un: "pstate (procs alloc_demo ! j) = UNUSED" if "j < length (procs alloc_demo)" "j \<noteq> 0" for j
    using that by (cases j) (auto simp: ps nth_Cons' proc0_def)
  have ok: "pids_ok alloc_demo"
  proof -
    have only: "j = 0" if "j < length (procs alloc_demo)" "pstate (procs alloc_demo ! j) \<noteq> UNUSED" for j
      using un that by blast
    have "pid (procs alloc_demo ! 0) = 1" by (simp add: ps)
    then have one: "pid (procs alloc_demo ! j) = 1" if "j < length (procs alloc_demo)" "pstate (procs alloc_demo ! j) \<noteq> UNUSED" for j
      using only[OF that] by simp
    show ?thesis
      unfolding pids_ok_def
    proof (intro conjI allI impI)
      fix j k assume "j < length (procs alloc_demo)" "k < length (procs alloc_demo)" "j \<noteq> k"
        "pstate (procs alloc_demo ! j) \<noteq> UNUSED" "pstate (procs alloc_demo ! k) \<noteq> UNUSED"
      then show "pid (procs alloc_demo ! j) \<noteq> pid (procs alloc_demo ! k)" using only by metis
    qed (simp_all add: np one)
  qed
  have "first_idx (\<lambda>p. pstate p = UNUSED) (procs alloc_demo) = Some 1" by (simp add: ps proc0_def)
  moreover have "\<exists>t. alloc_kstack 1 u = Ok (Some 1) t" if "freelist u = 0x80200000" "\<not> use_lock u" for u
    using that by (simp add: alloc_kstack_def kalloc_def Let_def)
  ultimately obtain t where t: "allocproc alloc_demo = Ok (Some 1) t"
    using allocproc_ok[OF q] by (fastforce simp: alloc_demo_def upd_proc_def calm_def one_running_def boot_kernel_def)
  have "nextpid alloc_demo \<noteq> - 1" by (simp add: np)
  from allocproc_fresh_pid[OF q ok this t] show ?thesis using t np by auto
qed

section \<open>exit and wait\<close>

lemma wakeup1_procs: "procs (wakeup1 ch s) = map (\<lambda>p. if pstate p = SLEEPING \<and> chan p = ch then p\<lparr>pstate := RUNNABLE\<rparr> else p) (procs s)"
  by (simp add: wakeup1_def)

lemma wakeup1_nth:
  "j < length (procs s) \<Longrightarrow> procs (wakeup1 ch s) ! j =
     (if pstate (procs s ! j) = SLEEPING \<and> chan (procs s ! j) = ch then (procs s ! j)\<lparr>pstate := RUNNABLE\<rparr> else procs s ! j)"
  by (simp add: wakeup1_def)

lemma wakeup1_init [simp]: "initproc (wakeup1 ch s) = initproc s" "length (procs (wakeup1 ch s)) = length (procs s)"
  by (simp_all add: wakeup1_def)

text \<open>How the loop that passes on the children changes the table.\<close>

definition passed_on :: "nat \<Rightarrow> nat \<Rightarrow> nat set \<Rightarrow> kernel \<Rightarrow> kernel \<Rightarrow> bool" where
  "passed_on i k J s t \<longleftrightarrow> length (procs t) = length (procs s) \<and> initproc t = initproc s \<and> mach t = mach s
     \<and> (\<forall>j < length (procs s). chan (procs t ! j) = chan (procs s ! j) \<and> killed (procs t ! j) = killed (procs s ! j)
          \<and> parent (procs t ! j) = (if j \<in> J \<and> parent (procs s ! j) = Some i then Some k else parent (procs s ! j))
          \<and> (pstate (procs t ! j) = pstate (procs s ! j)
             \<or> pstate (procs s ! j) = SLEEPING \<and> chan (procs s ! j) = Some (ChProc k) \<and> pstate (procs t ! j) = RUNNABLE)
          \<and> ((\<exists>z \<in> J. parent (procs s ! z) = Some i \<and> pstate (procs s ! z) = ZOMBIE) \<longrightarrow>
              pstate (procs s ! j) = SLEEPING \<longrightarrow> chan (procs s ! j) = Some (ChProc k) \<longrightarrow> pstate (procs t ! j) = RUNNABLE))"

lemma abandon_passed_on:
  assumes "initproc s = Some k" "k \<noteq> i" "set js \<subseteq> {..<length (procs s)}" "distinct js"
  shows "passed_on i k (set js) s (abandon js i s)"
  using assms
proof (induction js arbitrary: s)
  case Nil
  then show ?case by (simp add: passed_on_def)
next
  case (Cons j js)
  have j: "j < length (procs s)" "j \<notin> set js" using Cons.prems by auto
  show ?case
  proof (cases "parent (procs s ! j) = Some i")
    case False
    then have "passed_on i k (set js) s (abandon js i s)" using Cons by simp
    moreover have "abandon (j # js) i s = abandon js i s" using False by simp
    ultimately show ?thesis using False by (auto simp: passed_on_def)
  next
    case True
    define u where "u = upd_proc j (\<lambda>p. p\<lparr>parent := initproc s\<rparr>) s"
    define w where "w = (if pstate (procs s ! j) = ZOMBIE then wakeup1 (Some (ChProc k)) u else u)"
    define r where "r = abandon js i w"
    have v: "abandon (j # js) i s = r"
      using True Cons.prems(1) j by (simp add: Let_def upd_proc_def u_def w_def r_def)
    have iv: "initproc w = Some k" "length (procs w) = length (procs s)" "mach w = mach s"
      using Cons.prems(1) by (simp_all add: upd_proc_def u_def w_def)
    have pu: "procs u ! l = (if l = j then (procs s ! j)\<lparr>parent := Some k\<rparr> else procs s ! l)" if "l < length (procs s)" for l
      using j Cons.prems(1) by (simp add: upd_proc_def u_def nth_list_update)
    have pv: "procs w ! l = (if pstate (procs s ! j) = ZOMBIE \<and> pstate (procs s ! l) = SLEEPING \<and> chan (procs s ! l) = Some (ChProc k)
        then (procs u ! l)\<lparr>pstate := RUNNABLE\<rparr> else procs u ! l)" if "l < length (procs s)" for l
      using that pu[OF that] wakeup1_nth[of l u "Some (ChProc k)"] by (auto simp: w_def u_def)
    have "passed_on i k (set js) w r"
      unfolding r_def using Cons.prems iv by (intro Cons.IH) auto
    note ih = this[unfolded passed_on_def]
    have "chan (procs r ! l) = chan (procs s ! l) \<and> killed (procs r ! l) = killed (procs s ! l)
          \<and> parent (procs r ! l) = (if l \<in> set (j # js) \<and> parent (procs s ! l) = Some i then Some k else parent (procs s ! l))
          \<and> (pstate (procs r ! l) = pstate (procs s ! l)
             \<or> pstate (procs s ! l) = SLEEPING \<and> chan (procs s ! l) = Some (ChProc k) \<and> pstate (procs r ! l) = RUNNABLE)
          \<and> ((\<exists>z \<in> set (j # js). parent (procs s ! z) = Some i \<and> pstate (procs s ! z) = ZOMBIE) \<longrightarrow>
              pstate (procs s ! l) = SLEEPING \<longrightarrow> chan (procs s ! l) = Some (ChProc k) \<longrightarrow> pstate (procs r ! l) = RUNNABLE)"
      if l: "l < length (procs s)" for l
    proof -
      have il: "chan (procs r ! l) = chan (procs w ! l)" "killed (procs r ! l) = killed (procs w ! l)"
        "parent (procs r ! l) = (if l \<in> set js \<and> parent (procs w ! l) = Some i then Some k else parent (procs w ! l))"
        "pstate (procs r ! l) = pstate (procs w ! l)
             \<or> pstate (procs w ! l) = SLEEPING \<and> chan (procs w ! l) = Some (ChProc k) \<and> pstate (procs r ! l) = RUNNABLE"
        "(\<exists>z \<in> set js. parent (procs w ! z) = Some i \<and> pstate (procs w ! z) = ZOMBIE) \<Longrightarrow>
              pstate (procs w ! l) = SLEEPING \<Longrightarrow> chan (procs w ! l) = Some (ChProc k) \<Longrightarrow> pstate (procs r ! l) = RUNNABLE"
        using ih l iv by auto
      have vl: "chan (procs w ! l) = chan (procs s ! l)" "killed (procs w ! l) = killed (procs s ! l)"
        "parent (procs w ! l) = (if l = j then Some k else parent (procs s ! l))"
        "pstate (procs w ! l) = (if pstate (procs s ! j) = ZOMBIE \<and> pstate (procs s ! l) = SLEEPING \<and> chan (procs s ! l) = Some (ChProc k)
           then RUNNABLE else pstate (procs s ! l))"
        using pv[OF l] pu[OF l] by auto
      have z: "(\<exists>z \<in> set js. parent (procs w ! z) = Some i \<and> pstate (procs w ! z) = ZOMBIE)"
        if "z \<in> set js" "parent (procs s ! z) = Some i" "pstate (procs s ! z) = ZOMBIE" for z
      proof -
        have "z < length (procs s)" "z \<noteq> j" using that(1) Cons.prems(3) j by auto
        then have "procs w ! z = procs s ! z" using pv[of z] pu[of z] that(3) by simp
        then show ?thesis using that by metis
      qed
      have pl: "parent (procs r ! l) = (if l \<in> set (j # js) \<and> parent (procs s ! l) = Some i then Some k else parent (procs s ! l))"
        using il(3) vl(3) True Cons.prems(2) by auto
      have sl: "pstate (procs r ! l) = pstate (procs s ! l)
             \<or> pstate (procs s ! l) = SLEEPING \<and> chan (procs s ! l) = Some (ChProc k) \<and> pstate (procs r ! l) = RUNNABLE"
        using il(4) vl(1,4) by (auto split: if_splits)
      have "pstate (procs r ! l) = RUNNABLE"
        if "\<exists>z \<in> set (j # js). parent (procs s ! z) = Some i \<and> pstate (procs s ! z) = ZOMBIE"
          "pstate (procs s ! l) = SLEEPING" "chan (procs s ! l) = Some (ChProc k)"
      proof (cases "pstate (procs s ! j) = ZOMBIE")
        case True
        then have "pstate (procs w ! l) = RUNNABLE" using vl(4) that by simp
        then show ?thesis using il(4) by simp
      next
        case False
        then have "\<exists>z \<in> set js. parent (procs w ! z) = Some i \<and> pstate (procs w ! z) = ZOMBIE" using that(1) z by auto
        then show ?thesis using il(5) vl(1,4) that False by simp
      qed
      then show ?thesis using il(1,2) vl(1,2) pl sl by simp
    qed
    moreover have "length (procs r) = length (procs s)" "initproc r = initproc s" "mach r = mach s"
      using ih iv Cons.prems(1) by simp_all
    ultimately show ?thesis unfolding v passed_on_def by blast
  qed
qed

lemma passed_onD:
  assumes "passed_on i k J s t"
  shows "length (procs t) = length (procs s)" "initproc t = initproc s" "mach t = mach s"
    "j < length (procs s) \<Longrightarrow> chan (procs t ! j) = chan (procs s ! j)"
    "j < length (procs s) \<Longrightarrow> parent (procs t ! j) = (if j \<in> J \<and> parent (procs s ! j) = Some i then Some k else parent (procs s ! j))"
    "j < length (procs s) \<Longrightarrow> pstate (procs t ! j) = pstate (procs s ! j)
       \<or> pstate (procs s ! j) = SLEEPING \<and> pstate (procs t ! j) = RUNNABLE"
    "j < length (procs s) \<Longrightarrow> z \<in> J \<Longrightarrow> parent (procs s ! z) = Some i \<Longrightarrow> pstate (procs s ! z) = ZOMBIE \<Longrightarrow>
       pstate (procs s ! j) = SLEEPING \<Longrightarrow> chan (procs s ! j) = Some (ChProc k) \<Longrightarrow> pstate (procs t ! j) = RUNNABLE"
  using assms by (auto simp: passed_on_def)

text \<open>(C25) No exit is lost.  A process that exits switches to the scheduler as a \<open>ZOMBIE\<close>, holding
  \<open>ptable.lock\<close>; its children belong to init; a parent that sleeps in \<open>wait\<close> has become \<open>RUNNABLE\<close>,
  and init too if it sleeps in \<open>wait\<close> and was given a zombie; and as long as the table is unchanged the
  parent's scan in \<open>wait\<close> finds a zombie child to reap instead of sleeping.\<close>

theorem exit_meets_wait:
  assumes "quiet s" "ncli (curcpu (mach s)) = 0" "running s = Some i" "i < length (procs s)"
    "pstate (procs s ! i) = RUNNING" "initproc s = Some k" "k \<noteq> i" "k < length (procs s)"
    "parent (procs s ! i) = Some p" "p \<noteq> i" "p < length (procs s)"
  shows "\<exists>t. exit_final i s = Slept t \<and> mach t = hold PtableLk (mach s) \<and> pstate (procs t ! i) = ZOMBIE
     \<and> (\<forall>j < length (procs s). parent (procs s ! j) = Some i \<longrightarrow> parent (procs t ! j) = Some k)
     \<and> (pstate (procs s ! p) = SLEEPING \<and> chan (procs s ! p) = Some (ChProc p) \<longrightarrow> pstate (procs t ! p) = RUNNABLE)
     \<and> (pstate (procs s ! k) = SLEEPING \<and> chan (procs s ! k) = Some (ChProc k)
          \<and> (\<exists>z < length (procs s). parent (procs s ! z) = Some i \<and> pstate (procs s ! z) = ZOMBIE)
          \<longrightarrow> pstate (procs t ! k) = RUNNABLE)
     \<and> (\<forall>u. procs u = procs t \<longrightarrow> (\<exists>j. wait_scan p u = reap j u \<and> parent (procs u ! j) = Some p \<and> pstate (procs u ! j) = ZOMBIE))"
proof -
  let ?s = "s\<lparr>mach := hold PtableLk (mach s)\<rparr>"
  let ?n = "length (procs s)"
  define a where "a = wakeup1 (Some (ChProc p)) ?s"
  define b where "b = abandon [0..<?n] i a"
  define t where "t = upd_proc i (\<lambda>q. q\<lparr>pstate := ZOMBIE\<rparr>) b"
  have la: "length (procs a) = ?n" "initproc a = Some k" "mach a = hold PtableLk (mach s)"
    using assms(6) by (simp_all add: a_def)
  have pa: "procs a ! j = (if pstate (procs s ! j) = SLEEPING \<and> chan (procs s ! j) = Some (ChProc p)
      then (procs s ! j)\<lparr>pstate := RUNNABLE\<rparr> else procs s ! j)" if "j < ?n" for j
    using that by (simp add: a_def wakeup1_nth)
  have "passed_on i k (set [0..<?n]) a b"
    unfolding b_def using la assms(7) by (intro abandon_passed_on) auto
  note ab = passed_onD[OF this, unfolded la]
  have pt: "procs t ! j = (if j = i then (procs b ! i)\<lparr>pstate := ZOMBIE\<rparr> else procs b ! j)" if "j < ?n" for j
    using that ab(1) by (simp add: t_def upd_proc_def nth_list_update)
  have lt: "length (procs t) = ?n" "mach t = hold PtableLk (mach s)" using ab by (simp_all add: t_def)
  have run: "running t = Some i" using assms(1,3) lt by (simp add: running_def quietD)
  have "sched t = Slept t"
    using lt run assms pt[of i] quietD[OF assms(1)] by (intro sched_ok[where m = "mach s" and i = i]) simp_all
  then have e: "exit_final i s = Slept t"
    using assms(9) by (simp add: exit_final_def kacquire_quiet[OF assms(1)] Let_def a_def b_def t_def)
  have par: "parent (procs t ! j) = (if parent (procs s ! j) = Some i then Some k else parent (procs s ! j))" if "j < ?n" for j
    using pt[OF that] ab(5)[of j] pa[OF that] that by (auto split: if_splits)
  have pi: "parent (procs t ! i) = Some p" "pstate (procs t ! i) = ZOMBIE"
    using par[of i] pt[of i] assms(4,9,10) by auto
  have wp: "pstate (procs t ! p) = RUNNABLE" if "pstate (procs s ! p) = SLEEPING" "chan (procs s ! p) = Some (ChProc p)"
    using that pt[of p] ab(6)[of p] pa[of p] assms(10,11) by auto
  have wk: "pstate (procs t ! k) = RUNNABLE"
    if "pstate (procs s ! k) = SLEEPING" "chan (procs s ! k) = Some (ChProc k)" "z < ?n"
      "parent (procs s ! z) = Some i" "pstate (procs s ! z) = ZOMBIE" for z
  proof -
    have z: "parent (procs a ! z) = Some i" "pstate (procs a ! z) = ZOMBIE" using pa[OF that(3)] that by auto
    have "pstate (procs b ! k) = RUNNABLE"
    proof (cases "k = p")
      case True
      then show ?thesis using ab(6)[of k] pa[of k] that assms(8) by auto
    next
      case False
      then have "pstate (procs a ! k) = SLEEPING" "chan (procs a ! k) = Some (ChProc k)"
        using pa[of k] that assms(8) by auto
      then show ?thesis using ab(7)[of k z] z that(3) assms(8) by auto
    qed
    then show ?thesis using pt[of k] assms(7,8) by simp
  qed
  have sc: "\<exists>j. wait_scan p u = reap j u \<and> parent (procs u ! j) = Some p \<and> pstate (procs u ! j) = ZOMBIE" if "procs u = procs t" for u
  proof -
    have "i < length (procs t)" using lt(1) assms(4) by simp
    then obtain j where "first_idx (\<lambda>q. parent q = Some p \<and> pstate q = ZOMBIE) (procs t) = Some j"
      using first_idx_exists[of i "procs t" "\<lambda>q. parent q = Some p \<and> pstate q = ZOMBIE"] pi by auto
    then have "first_idx (\<lambda>q. parent q = Some p \<and> pstate q = ZOMBIE) (procs u) = Some j" using that by simp
    then show ?thesis using first_idx_SomeD(2) by (fastforce simp: wait_scan_def)
  qed
  show ?thesis using e lt pi par wp wk sc by (intro exI[of _ t]) auto
qed

text \<open>Process 0, which is init, sleeps in \<open>wait\<close>; its child, process 1, runs.\<close>

definition exit_demo :: kernel where
  "exit_demo = calm\<lparr>procs := [proc0\<lparr>pstate := SLEEPING, pid := 1, chan := Some (ChProc 0)\<rparr>,
       proc0\<lparr>pstate := RUNNING, pid := 2, parent := Some 0\<rparr>], initproc := Some 0,
     mach := (mach calm)\<lparr>cpus := [cpu0\<lparr>cpu_proc := Some 1, intena := True\<rparr>]\<rparr>\<rparr>"

theorem exit_meets_wait_witness:
  "\<exists>t. exit_final 1 exit_demo = Slept t \<and> pstate (procs t ! 1) = ZOMBIE \<and> pstate (procs t ! 0) = RUNNABLE
     \<and> (\<exists>j. wait_scan 0 t = reap j t)"
proof -
  have m: "mach_ok (mach exit_demo)" "touch (mach exit_demo) = mach exit_demo" "lk_free L (mach exit_demo)"
    "this_cpu (mach exit_demo) = 0" for L
    by (simp_all add: exit_demo_def calm_def one_running_def machine0_def cpu0_def mach_ok_def cpu_ix_def this_cpu_def
        lk_free_def touch_def upd_cpu_def)
  then have "quiet exit_demo" by (simp add: quiet_def)
  moreover have "ncli (curcpu (mach exit_demo)) = 0" "running exit_demo = Some 1"
    unfolding running_def m(4) by (simp_all add: exit_demo_def cpu0_def)
  ultimately have "\<exists>t. exit_final 1 exit_demo = Slept t \<and> mach t = hold PtableLk (mach exit_demo) \<and> pstate (procs t ! 1) = ZOMBIE
     \<and> (\<forall>j < length (procs exit_demo). parent (procs exit_demo ! j) = Some 1 \<longrightarrow> parent (procs t ! j) = Some 0)
     \<and> (pstate (procs exit_demo ! 0) = SLEEPING \<and> chan (procs exit_demo ! 0) = Some (ChProc 0) \<longrightarrow> pstate (procs t ! 0) = RUNNABLE)
     \<and> (pstate (procs exit_demo ! 0) = SLEEPING \<and> chan (procs exit_demo ! 0) = Some (ChProc 0)
          \<and> (\<exists>z < length (procs exit_demo). parent (procs exit_demo ! z) = Some 1 \<and> pstate (procs exit_demo ! z) = ZOMBIE)
          \<longrightarrow> pstate (procs t ! 0) = RUNNABLE)
     \<and> (\<forall>u. procs u = procs t \<longrightarrow> (\<exists>j. wait_scan 0 u = reap j u \<and> parent (procs u ! j) = Some 0 \<and> pstate (procs u ! j) = ZOMBIE))"
    by (rule exit_meets_wait) (simp_all add: exit_demo_def)
  moreover have "pstate (procs exit_demo ! 0) = SLEEPING" "chan (procs exit_demo ! 0) = Some (ChProc 0)"
    by (simp_all add: exit_demo_def)
  ultimately show ?thesis by blast
qed

end
