(* ===== verification/Sysproc.thy ===== *)
theory Sysproc
  imports Proc_Life
begin

text \<open>
  The system calls of \<open>sysproc.c\<close>.  A call returns the value for \<open>eax\<close>.  \<open>sys_getpinfo\<close> fills a
  table in user memory: 64 entries of 36 bytes (four integers, the name, the state and three bytes
  of padding).
\<close>

definition sys_fork :: "kernel \<Rightarrow> 32 word kres" where
  "sys_fork s = fork s"

definition sys_exit :: "kernel \<Rightarrow> 32 word kres" where
  "sys_exit s = bnd (exit s) (\<lambda>_ s. Ok 0 s)"

definition sys_wait :: "kernel \<Rightarrow> 32 word kres" where
  "sys_wait s = wait s"

definition sys_kill :: "kernel \<Rightarrow> 32 word kres" where
  "sys_kill s = need (argint 0 s) (\<lambda>p s. kill p s)"

definition sys_getpid :: "kernel \<Rightarrow> 32 word kres" where
  "sys_getpid s = bnd (curproc s) (\<lambda>i s. Ok (pid (procs s ! i)) s)"

definition sys_sbrk :: "kernel \<Rightarrow> 32 word kres" where
  "sys_sbrk s =
     need (argint 0 s) (\<lambda>n s.
     bnd (curproc s) (\<lambda>i s.
       let a = sz (procs s ! i) in
       bnd (growproc n s) (\<lambda>r s. if s_lt r 0 then Ok (- 1) s else Ok a s)))"

text \<open>The loop test and what follows it; the difference of the ticks is compared as an unsigned
  number.  A process that is woken continues with \<open>sys_sleep_back\<close>.\<close>

definition sys_sleep_test :: "32 word \<Rightarrow> 32 word \<Rightarrow> kernel \<Rightarrow> 32 word kres" where
  "sys_sleep_test ticks0 n s =
     (if uticks s - ticks0 < n then
        bnd (curproc s) (\<lambda>i s.
          if killed (procs s ! i) then bnd (krelease TicksLk s) (\<lambda>_ s. Ok (- 1) s)
          else bnd (sleep ChTicks (Some TicksLk) s) (\<lambda>_ s. Ok 0 s))
      else bnd (krelease TicksLk s) (\<lambda>_ s. Ok 0 s))"

definition sys_sleep :: "kernel \<Rightarrow> 32 word kres" where
  "sys_sleep s =
     need (argint 0 s) (\<lambda>n s.
     bnd (kacquire TicksLk s) (\<lambda>_ s. sys_sleep_test (uticks s) n s))"

definition sys_sleep_back :: "nat \<Rightarrow> bool \<Rightarrow> 32 word \<Rightarrow> 32 word \<Rightarrow> kernel \<Rightarrow> 32 word kres" where
  "sys_sleep_back i ie ticks0 n s = bnd (sleep_back i TicksLk ie s) (\<lambda>_ s. sys_sleep_test ticks0 n s)"

definition sys_uptime :: "kernel \<Rightarrow> 32 word kres" where
  "sys_uptime s =
     bnd (kacquire TicksLk s) (\<lambda>_ s.
     let x = uticks s in bnd (krelease TicksLk s) (\<lambda>_ s. Ok x s))"

section \<open>getpinfo and settickets\<close>

definition pstat_of :: "byte list \<Rightarrow> pstat" where
  "pstat_of bs = \<lparr>ps_inuse = get32 bs 0, ps_tickets = get32 bs 4, ps_pid = get32 bs 8, ps_ticks = get32 bs 12,
     ps_name = take 16 (drop 16 bs), ps_state = bs ! 32\<rparr>"

definition pstat_bytes :: "pstat \<Rightarrow> byte list \<Rightarrow> byte list" where
  "pstat_bytes e old = bytes_of_word (ps_inuse e) @ bytes_of_word (ps_tickets e) @ bytes_of_word (ps_pid e)
     @ bytes_of_word (ps_ticks e) @ ps_name e @ [ps_state e] @ drop 33 old"

definition pstat_slot :: "byte list \<Rightarrow> nat \<Rightarrow> byte list" where
  "pstat_slot tab i = take 36 (drop (36 * i) tab)"

definition fill_table :: "byte list \<Rightarrow> kernel \<Rightarrow> byte list" where
  "fill_table tab s =
     concat (map2 pstat_bytes (fillpstat (map (\<lambda>i. pstat_of (pstat_slot tab i)) [0..<NPROC]) s)
               (map (pstat_slot tab) [0..<NPROC]))"

text \<open>The loop that prints the table at \<open>p\<close>, at the remaining slots.\<close>

primrec print_table :: "nat list \<Rightarrow> addr \<Rightarrow> kernel \<Rightarrow> unit kres" where
  "print_table [] p s = Ok () s"
| "print_table (i # is) p s =
     (let e = p + 36 * of_nat i in
      bnd (load_user 36 e s) (\<lambda>bs s.
        if ps_inuse (pstat_of bs) = 0 then print_table is p s
        else
          bnd (ustr (e + 32) s) (\<lambda>st s.
          bnd (ustr (e + 16) s) (\<lambda>nm s.
          bnd (cprintf (Some (bytes_of ''%d'' @ [9] @ bytes_of ''%d'' @ [9] @ bytes_of ''%d'' @ [9]
                 @ bytes_of ''%s'' @ [9] @ bytes_of ''%s'' @ [10]))
                 [PInt (ps_pid (pstat_of bs)), PInt (ps_tickets (pstat_of bs)), PInt (ps_ticks (pstat_of bs)),
                  PStr st, PStr nm] s) (\<lambda>_ s.
          print_table is p s)))))"

definition sys_getpinfo :: "kernel \<Rightarrow> 32 word kres" where
  "sys_getpinfo s =
     need (argptr 0 2304 s) (\<lambda>p s.
     bnd (load_user 2304 p s) (\<lambda>tab s.
     bnd (store_user p (fill_table tab s) s) (\<lambda>_ s.
     bnd (cprintf (Some (bytes_of ''PID'' @ [9] @ bytes_of ''TKTS'' @ [9] @ bytes_of ''TCKS'' @ [9]
            @ bytes_of ''STAT'' @ [9] @ bytes_of ''NAME'' @ [10])) [] s) (\<lambda>_ s.
     bnd (print_table [0..<NPROC] p s) (\<lambda>_ s. Ok 0 s)))))"

definition sys_settickets :: "kernel \<Rightarrow> 32 word kres" where
  "sys_settickets s =
     need (argint 0 s) (\<lambda>n s.
       if s_lt n 10 then Ok (- 1) s
       else bnd (sys_getpid s) (\<lambda>p s. Ok 0 (snd (setTicket p n s))))"

section \<open>What settickets accepts\<close>

text \<open>\<open>settickets(n)\<close> fails, without any effect, exactly when \<open>n\<close> is below 10 as a signed number;
  otherwise the calling process, and no other, has \<open>n\<close> tickets afterwards.  Together with \<open>fork\<close>, which gives
  a child the larger of 10 and its parent's number, no process has fewer than 10 tickets; there is no upper
  bound.\<close>

theorem settickets_effect:
  assumes "quiet s" "running s = Some i" "i < length (procs s)"
    "\<And>j. j < length (procs s) \<Longrightarrow> pid (procs s ! j) = pid (procs s ! i) \<Longrightarrow> j = i"
    "argint 0 s = Ok (Some n) s"
  shows "sys_settickets s = (if sint n < 10 then Ok (- 1) s
           else Ok 0 (s\<lparr>procs := (procs s)[i := (procs s ! i)\<lparr>tickets := n\<rparr>]\<rparr>))
     \<and> 10 \<le> sint (fork_tickets n) \<and> (10 \<le> sint n \<longrightarrow> fork_tickets n = n)"
proof -
  have cp: "curproc s = Ok i s" using curproc_ok[of s i] assms(2) quietD[OF assms(1)] by simp
  have "first_idx (\<lambda>p. pid p = pid (procs s ! i)) (procs s) = Some i"
    unfolding first_idx_Some using assms(3,4) by (metis less_trans less_irrefl)
  then have st: "setTicket (pid (procs s ! i)) n s = (0, s\<lparr>procs := (procs s)[i := (procs s ! i)\<lparr>tickets := n\<rparr>]\<rparr>)"
    by (simp add: setTicket_def upd_proc_def)
  have ten: "sint (10 :: 32 word) = 10" by simp
  have eq: "n = 10" if "sint n = 10" using that ten by (intro signed_word_eqI) simp
  show ?thesis
    using assms(5) cp st ten eq
    by (auto simp: sys_settickets_def need_def sys_getpid_def s_lt_def fork_tickets_def)
qed

theorem settickets_effect_witness:
  "\<exists>t. sys_settickets user_demo = Ok 0 t \<and> tickets (procs t ! 0) = 0x200"
proof -
  have "\<And>j. j < length (procs user_demo) \<Longrightarrow> pid (procs user_demo ! j) = pid (procs user_demo ! 0) \<Longrightarrow> j = 0" by simp
  moreover have "sint (0x200 :: 32 word) = 512" by simp
  ultimately show ?thesis using settickets_effect[of user_demo 0 "0x200"] user_demo_argint by simp
qed

end
