(* ===== verification/Exec.thy ===== *)
theory Exec
  imports Fs Uaccess
begin

text \<open>
  \<open>exec.c\<close>, and \<open>loaduvm\<close> of \<open>vm.c\<close>.  The path and the arguments are byte lists without the final
  NUL.  The ELF headers (\<open>elf.h\<close>) are read field by field from the bytes of the file.
\<close>

abbreviation (input) MAXARG :: nat where "MAXARG \<equiv> 32"

section \<open>Headers\<close>

record elfhdr =
  e_magic :: "32 word"
  e_entry :: "32 word"
  e_phoff :: "32 word"
  e_phnum :: "16 word"

definition elfhdr_of :: "byte list \<Rightarrow> elfhdr" where
  "elfhdr_of bs = \<lparr>e_magic = get32 bs 0, e_entry = get32 bs 24, e_phoff = get32 bs 28, e_phnum = get16 bs 44\<rparr>"

record proghdr =
  ph_type :: "32 word"
  ph_off :: "32 word"
  ph_vaddr :: "32 word"
  ph_filesz :: "32 word"
  ph_memsz :: "32 word"

definition proghdr_of :: "byte list \<Rightarrow> proghdr" where
  "proghdr_of bs = \<lparr>ph_type = get32 bs 0, ph_off = get32 bs 4, ph_vaddr = get32 bs 8,
     ph_filesz = get32 bs 16, ph_memsz = get32 bs 20\<rparr>"

section \<open>Loading\<close>

function loaduvm_loop :: "addr \<Rightarrow> addr \<Rightarrow> nat \<Rightarrow> 32 word \<Rightarrow> 32 word \<Rightarrow> 32 word \<Rightarrow> kernel \<Rightarrow> 32 word kres" where
  "loaduvm_loop pd a ip offset i len s =
     (if \<not> i < len then Ok 0 s
      else bnd (walkpgdir pd (a + i) False s) (\<lambda>pte s.
        if pte = 0 then Panic ''loaduvm: address should exist''
        else
          let pa = PTE_ADDR (load32 (mem s) pte);
              n = (if len - i < PGSIZE then len - i else PGSIZE)
          in bnd (readi ip (offset + i) n s) (\<lambda>r s.
            let s = s\<lparr>mem := store_bytes (P2V pa) (snd r) (mem s)\<rparr> in
            if fst r \<noteq> n then Ok (- 1) s
            else if i + PGSIZE \<le> i then Spin
            else loaduvm_loop pd a ip offset (i + PGSIZE) len s)))"
  by pat_completeness auto
termination
proof (relation "measure (\<lambda>(pd, a, ip, offset, i, len, s). 2 ^ 32 - unat i)", goal_cases)
  case prems: (2 pd a ip offset i)
  then have "unat i < unat (i + 4096)" by (simp add: word_less_nat_alt not_le)
  then show ?case using unat_lt32[of "i + 4096"] by simp
qed simp

declare loaduvm_loop.simps [simp del]

definition loaduvm :: "addr \<Rightarrow> addr \<Rightarrow> nat \<Rightarrow> 32 word \<Rightarrow> 32 word \<Rightarrow> kernel \<Rightarrow> 32 word kres" where
  "loaduvm pd a ip offset len s =
     (if a mod PGSIZE \<noteq> 0 then Panic ''loaduvm: addr must be page aligned''
      else loaduvm_loop pd a ip offset 0 len s)"

text \<open>The loop over the \<open>k\<close> program headers left, at file offset \<open>off\<close>.  The result is the new
  \<open>sz\<close>; \<open>None\<close> is a jump to \<open>bad\<close>.\<close>

primrec exec_load :: "nat \<Rightarrow> addr \<Rightarrow> nat \<Rightarrow> 32 word \<Rightarrow> 32 word \<Rightarrow> kernel \<Rightarrow> 32 word option kres" where
  "exec_load 0 pd ip off z s = Ok (Some z) s"
| "exec_load (Suc k) pd ip off z s =
     bnd (readi ip off 32 s) (\<lambda>r s.
       let ph = proghdr_of (snd r) in
       if fst r \<noteq> 32 then Ok None s
       else if ph_type ph \<noteq> 1 then exec_load k pd ip (off + 32) z s
       else if ph_memsz ph < ph_filesz ph then Ok None s
       else if ph_vaddr ph + ph_memsz ph < ph_vaddr ph then Ok None s
       else bnd (allocuvm pd z (ph_vaddr ph + ph_memsz ph) s) (\<lambda>z s.
         if z = 0 then Ok None s
         else if ph_vaddr ph mod PGSIZE \<noteq> 0 then Ok None s
         else bnd (loaduvm pd (ph_vaddr ph) ip (ph_off ph) (ph_filesz ph) s) (\<lambda>r s.
           if s_lt r 0 then Ok None s
           else exec_load k pd ip (off + 32) z s)))"

text \<open>The argument strings: the stack pointer and the pointers \<open>ustack[3..]\<close> after the loop.\<close>

primrec exec_args :: "byte list list \<Rightarrow> addr \<Rightarrow> addr \<Rightarrow> addr list \<Rightarrow> kernel \<Rightarrow> (addr \<times> addr list) option kres" where
  "exec_args [] pd sp ptrs s = Ok (Some (sp, ptrs)) s"
| "exec_args (arg # args) pd sp ptrs s =
     (if length ptrs \<ge> MAXARG then Ok None s
      else
        let sp = (sp - of_nat (length arg + 1)) AND NOT 3 in
        bnd (copyout pd sp (arg @ [0]) s) (\<lambda>r s.
          if s_lt r 0 then Ok None s
          else exec_args args pd sp (ptrs @ [sp]) s))"

text \<open>The label \<open>bad\<close>.\<close>

definition exec_bad :: "addr \<Rightarrow> nat option \<Rightarrow> kernel \<Rightarrow> 32 word kres" where
  "exec_bad pd ip s =
     bnd (if pd \<noteq> 0 then freevm pd s else Ok () s) (\<lambda>_ s.
     bnd (case ip of None \<Rightarrow> Ok () s
          | Some i \<Rightarrow> bnd (iunlockput i s) (\<lambda>_ s. end_op s)) (\<lambda>_ s.
     Ok (- 1) s))"

text \<open>The path after its last slash.\<close>

definition last_elem :: "byte list \<Rightarrow> byte list" where
  "last_elem path = rev (takeWhile (\<lambda>c. c \<noteq> slash) (rev path))"

text \<open>From the loaded image to the return: the stack, and the commitment to the new image.\<close>

definition exec_commit :: "nat \<Rightarrow> byte list \<Rightarrow> addr \<Rightarrow> 32 word \<Rightarrow> addr \<Rightarrow> 32 word \<Rightarrow> kernel \<Rightarrow> 32 word kres" where
  "exec_commit i path pd z sp entry s =
     (let s = upd_proc i (\<lambda>p. p\<lparr>pname := over (pname p) (safestrcpy (seq_of (last_elem path @ [0])) 16)\<rparr>) s;
          oldpgdir = pgdir (procs s ! i);
          s = upd_proc i (\<lambda>p. p\<lparr>pgdir := pd, sz := z\<rparr>) s;
          a = tf (procs s ! i);
          s = s\<lparr>tfs := (tfs s)(a := (tfs s a)\<lparr>tf_eip := entry, tf_esp := sp\<rparr>)\<rparr>
      in bnd (switchuvm (Some i) s) (\<lambda>_ s.
         bnd (freevm oldpgdir s) (\<lambda>_ s. Ok 0 s)))"

definition exec_stack ::
    "nat \<Rightarrow> byte list \<Rightarrow> byte list list \<Rightarrow> addr \<Rightarrow> 32 word \<Rightarrow> 32 word \<Rightarrow> kernel \<Rightarrow> 32 word kres" where
  "exec_stack i path argv pd z entry s =
     (let z = PGROUNDUP z in
      bnd (allocuvm pd z (z + 2 * PGSIZE) s) (\<lambda>z s.
        if z = 0 then exec_bad pd None s
        else
          bnd (clearpteu pd (z - 2 * PGSIZE) s) (\<lambda>_ s.
          bnd (exec_args argv pd z [] s) (\<lambda>r s.
          case r of None \<Rightarrow> exec_bad pd None s
          | Some (sp, ptrs) \<Rightarrow>
            let argc = of_nat (length ptrs);
                ustack = [0xFFFFFFFF, argc, sp - (argc + 1) * 4] @ ptrs @ [0];
                sp = sp - (3 + argc + 1) * 4
            in bnd (copyout pd sp (concat (map bytes_of_word ustack)) s) (\<lambda>r s.
              if s_lt r 0 then exec_bad pd None s
              else exec_commit i path pd z sp entry s)))))"

definition exec :: "byte list \<Rightarrow> byte list list \<Rightarrow> kernel \<Rightarrow> 32 word kres" where
  "exec path argv s =
     bnd (curproc s) (\<lambda>i s.
     bnd (begin_op s) (\<lambda>_ s.
     bnd (namei path s) (\<lambda>ip s.
     case ip of
       None \<Rightarrow>
         bnd (end_op s) (\<lambda>_ s.
         bnd (cprintf (Some (bytes_of ''exec: fail'' @ [10])) [] s) (\<lambda>_ s. Ok (- 1) s))
     | Some ip \<Rightarrow>
         bnd (ilock (Some ip) s) (\<lambda>_ s.
         bnd (readi ip 0 52 s) (\<lambda>r s.
           let elf = elfhdr_of (snd r) in
           if fst r \<noteq> 52 then exec_bad 0 (Some ip) s
           else if e_magic elf \<noteq> 0x464C457F then exec_bad 0 (Some ip) s
           else bnd (setupkvm s) (\<lambda>pd s.
             if pd = 0 then exec_bad 0 (Some ip) s
             else bnd (exec_load (unat (e_phnum elf)) pd ip (e_phoff elf) 0 s) (\<lambda>z s.
               case z of
                 None \<Rightarrow> exec_bad pd (Some ip) s
               | Some z \<Rightarrow>
                   bnd (iunlockput ip s) (\<lambda>_ s.
                   bnd (end_op s) (\<lambda>_ s.
                   exec_stack i path argv pd z (e_entry elf) s)))))))))"

end
