(* ===== verification/Sysfile.thy ===== *)
theory Sysfile
  imports Exec File
begin

text \<open>
  The system calls on files: \<open>sysfile.c\<close>.  Data that a call reads is stored in user memory through
  the page table, data to write is fetched from there.  In \<open>name\<close> buffers only the bytes up to the
  first NUL matter, so they start out as zeros.
\<close>

abbreviation (input) O_WRONLY :: "32 word" where "O_WRONLY \<equiv> 1"
abbreviation (input) O_RDWR :: "32 word" where "O_RDWR \<equiv> 2"
abbreviation (input) O_CREATE :: "32 word" where "O_CREATE \<equiv> 0x200"

section \<open>Descriptors\<close>

text \<open>\<open>argfd\<close>: the descriptor and the file.\<close>

definition argfd :: "32 word \<Rightarrow> kernel \<Rightarrow> (nat \<times> nat) option kres" where
  "argfd n s =
     bnd (argint n s) (\<lambda>r s.
     case r of None \<Rightarrow> Ok None s
     | Some fd \<Rightarrow>
       if s_lt fd 0 \<or> \<not> s_lt fd (of_nat NOFILE) then Ok None s
       else bnd (curproc s) (\<lambda>i s.
         Ok (map_option (\<lambda>f. (unat fd, f)) (ofile (procs s ! i) ! unat fd)) s))"

definition fdalloc :: "nat \<Rightarrow> kernel \<Rightarrow> nat option kres" where
  "fdalloc f s =
     bnd (curproc s) (\<lambda>i s.
     case first_idx (\<lambda>x. x = None) (take NOFILE (ofile (procs s ! i))) of
       Some fd \<Rightarrow> Ok (Some fd) (upd_proc i (\<lambda>p. p\<lparr>ofile := (ofile p)[fd := Some f]\<rparr>) s)
     | None \<Rightarrow> Ok None s)"

definition sys_dup :: "kernel \<Rightarrow> 32 word kres" where
  "sys_dup s =
     need (argfd 0 s) (\<lambda>(_, f) s.
     need (fdalloc f s) (\<lambda>fd s.
     bnd (filedup f s) (\<lambda>_ s. Ok (of_nat fd) s)))"

definition sys_read :: "kernel \<Rightarrow> 32 word kres" where
  "sys_read s =
     need (argfd 0 s) (\<lambda>(_, f) s.
     need (argint 2 s) (\<lambda>n s.
     need (argptr 1 n s) (\<lambda>p s.
     bnd (fileread f n s) (\<lambda>r s.
     bnd (store_user p (snd r) s) (\<lambda>_ s. Ok (fst r) s)))))"

definition sys_write :: "kernel \<Rightarrow> 32 word kres" where
  "sys_write s =
     need (argfd 0 s) (\<lambda>(_, f) s.
     need (argint 2 s) (\<lambda>n s.
     need (argptr 1 n s) (\<lambda>p s.
     bnd (if f_writable (files s ! f) then load_user (unat n) p s else Ok [] s) (\<lambda>bs s.
     filewrite f bs n s))))"

definition sys_close :: "kernel \<Rightarrow> 32 word kres" where
  "sys_close s =
     need (argfd 0 s) (\<lambda>(fd, f) s.
     bnd (curproc s) (\<lambda>i s.
     bnd (fileclose f (upd_proc i (\<lambda>p. p\<lparr>ofile := (ofile p)[fd := None]\<rparr>) s)) (\<lambda>_ s. Ok 0 s)))"

text \<open>\<open>struct stat\<close>: the type (16 bits, two bytes of padding left alone), the device, the inode
  number, the link count (16 bits, two bytes of padding) and the size.\<close>

definition store_stat :: "addr \<Rightarrow> stat \<Rightarrow> kernel \<Rightarrow> unit kres" where
  "store_stat p st s =
     bnd (store_user p [ucast (st_type st), ucast (drop_bit 8 (st_type st))] s) (\<lambda>_ s.
     bnd (store_user (p + 4) (bytes_of_word (st_dev st) @ bytes_of_word (st_ino st)
            @ [ucast (st_nlink st), ucast (drop_bit 8 (st_nlink st))]) s) (\<lambda>_ s.
     store_user (p + 16) (bytes_of_word (st_size st)) s))"

definition sys_fstat :: "kernel \<Rightarrow> 32 word kres" where
  "sys_fstat s =
     need (argfd 0 s) (\<lambda>(_, f) s.
     need (argptr 1 20 s) (\<lambda>p s.
     bnd (filestat f s) (\<lambda>st s.
     case st of None \<Rightarrow> Ok (- 1) s
     | Some st \<Rightarrow> bnd (store_stat p st s) (\<lambda>_ s. Ok 0 s))))"

section \<open>Links\<close>

definition end_fail :: "kernel \<Rightarrow> 32 word kres" where
  "end_fail s = bnd (end_op s) (\<lambda>_ s. Ok (- 1) s)"

definition link_bad :: "nat \<Rightarrow> kernel \<Rightarrow> 32 word kres" where
  "link_bad ip s =
     bnd (ilock (Some ip) s) (\<lambda>_ s.
     bnd (iupdate ip (upd_inode ip (\<lambda>k. k\<lparr>i_nlink := i_nlink k - 1\<rparr>) s)) (\<lambda>_ s.
     bnd (iunlockput ip s) (\<lambda>_ s. end_fail s)))"

definition sys_link :: "kernel \<Rightarrow> 32 word kres" where
  "sys_link s =
     need (argstr 0 s) (\<lambda>old s.
     need (argstr 1 s) (\<lambda>new s.
     bnd (begin_op s) (\<lambda>_ s.
     bnd (namei old s) (\<lambda>r s.
     case r of None \<Rightarrow> end_fail s
     | Some ip \<Rightarrow>
       bnd (ilock (Some ip) s) (\<lambda>_ s.
         if i_type (inodes s ! ip) = T_DIR then bnd (iunlockput ip s) (\<lambda>_ s. end_fail s)
         else
           bnd (iupdate ip (upd_inode ip (\<lambda>k. k\<lparr>i_nlink := i_nlink k + 1\<rparr>) s)) (\<lambda>_ s.
           bnd (iunlock (Some ip) s) (\<lambda>_ s.
           bnd (nameiparent new (replicate DIRSIZ 0) s) (\<lambda>(r, name) s.
           case r of None \<Rightarrow> link_bad ip s
           | Some dp \<Rightarrow>
             bnd (ilock (Some dp) s) (\<lambda>_ s.
             bnd (if i_dev (inodes s ! dp) \<noteq> i_dev (inodes s ! ip) then Ok (- 1) s
                  else dirlink dp name (i_inum (inodes s ! ip)) s) (\<lambda>r s.
               if s_lt r 0 then bnd (iunlockput dp s) (\<lambda>_ s. link_bad ip s)
               else bnd (iunlockput dp s) (\<lambda>_ s.
                    bnd (iput ip s) (\<lambda>_ s.
                    bnd (end_op s) (\<lambda>_ s. Ok 0 s)))))))))))))"

function isdirempty_from :: "nat \<Rightarrow> 32 word \<Rightarrow> kernel \<Rightarrow> bool kres" where
  "isdirempty_from dp off s =
     (if \<not> off < i_size (inodes s ! dp) then Ok True s
      else bnd (readi dp off 16 s) (\<lambda>r s.
        if fst r \<noteq> 16 then Panic ''isdirempty: readi''
        else if get16 (snd r) 0 \<noteq> 0 then Ok False s
        else if off + 16 \<le> off then Spin
        else isdirempty_from dp (off + 16) s))"
  by pat_completeness auto
termination
proof (relation "measure (\<lambda>(dp, off, s). 2 ^ 32 - unat off)", goal_cases)
  case prems: (2 dp off)
  then have "unat off < unat (off + 16)" by (simp add: word_less_nat_alt not_le)
  then show ?case using unat_lt32[of "off + 16"] by simp
qed simp

declare isdirempty_from.simps [simp del]

definition isdirempty :: "nat \<Rightarrow> kernel \<Rightarrow> bool kres" where
  "isdirempty dp s = isdirempty_from dp 32 s"

text \<open>\<open>sys_unlink\<close> after both inodes are locked, up to the return.\<close>

definition unlink_entry :: "nat \<Rightarrow> nat \<Rightarrow> 32 word \<Rightarrow> kernel \<Rightarrow> 32 word kres" where
  "unlink_entry dp ip off s =
     bnd (writei dp (replicate 16 0) off 16 s) (\<lambda>r s.
       if r \<noteq> 16 then Panic ''unlink: writei''
       else
         bnd (if i_type (inodes s ! ip) = T_DIR
              then iupdate dp (upd_inode dp (\<lambda>k. k\<lparr>i_nlink := i_nlink k - 1\<rparr>) s) else Ok () s) (\<lambda>_ s.
         bnd (iunlockput dp s) (\<lambda>_ s.
         bnd (iupdate ip (upd_inode ip (\<lambda>k. k\<lparr>i_nlink := i_nlink k - 1\<rparr>) s)) (\<lambda>_ s.
         bnd (iunlockput ip s) (\<lambda>_ s.
         bnd (end_op s) (\<lambda>_ s. Ok 0 s))))))"

definition sys_unlink :: "kernel \<Rightarrow> 32 word kres" where
  "sys_unlink s =
     need (argstr 0 s) (\<lambda>path s.
     bnd (begin_op s) (\<lambda>_ s.
     bnd (nameiparent path (replicate DIRSIZ 0) s) (\<lambda>(r, name) s.
     case r of None \<Rightarrow> end_fail s
     | Some dp \<Rightarrow>
       let bad = (\<lambda>s. bnd (iunlockput dp s) (\<lambda>_ s. end_fail s)) in
       bnd (ilock (Some dp) s) (\<lambda>_ s.
         if namecmp name (bytes_of ''.'' @ [0]) = 0 \<or> namecmp name (bytes_of ''..'' @ [0]) = 0 then bad s
         else bnd (dirlookup dp name s) (\<lambda>r s.
           case r of None \<Rightarrow> bad s
           | Some (ip, off) \<Rightarrow>
             bnd (ilock (Some ip) s) (\<lambda>_ s.
               if sint (i_nlink (inodes s ! ip)) < 1 then Panic ''unlink: nlink < 1''
               else bnd (if i_type (inodes s ! ip) = T_DIR then isdirempty ip s else Ok True s) (\<lambda>e s.
                 if \<not> e then bnd (iunlockput ip s) (\<lambda>_ s. bad s)
                 else unlink_entry dp ip off s)))))))"

section \<open>Creating and opening\<close>

text \<open>\<open>create\<close> when the name does not exist in the locked directory \<open>dp\<close>.\<close>

definition create_new :: "nat \<Rightarrow> byte list \<Rightarrow> 16 word \<Rightarrow> 16 word \<Rightarrow> 16 word \<Rightarrow> kernel \<Rightarrow> nat option kres" where
  "create_new dp name ty major minor s =
     bnd (ialloc (i_dev (inodes s ! dp)) ty s) (\<lambda>ip s.
     bnd (ilock (Some ip) s) (\<lambda>_ s.
     bnd (iupdate ip (upd_inode ip (\<lambda>k. k\<lparr>i_major := major, i_minor := minor, i_nlink := 1\<rparr>) s)) (\<lambda>_ s.
     bnd (if ty = T_DIR then
            bnd (iupdate dp (upd_inode dp (\<lambda>k. k\<lparr>i_nlink := i_nlink k + 1\<rparr>) s)) (\<lambda>_ s.
            bnd (dirlink ip (bytes_of ''.'' @ [0]) (i_inum (inodes s ! ip)) s) (\<lambda>r s.
              if s_lt r 0 then Panic ''create dots''
              else bnd (dirlink ip (bytes_of ''..'' @ [0]) (i_inum (inodes s ! dp)) s) (\<lambda>r s.
                if s_lt r 0 then Panic ''create dots'' else Ok () s)))
          else Ok () s) (\<lambda>_ s.
     bnd (dirlink dp name (i_inum (inodes s ! ip)) s) (\<lambda>r s.
       if s_lt r 0 then Panic ''create: dirlink''
       else bnd (iunlockput dp s) (\<lambda>_ s. Ok (Some ip) s))))))"

definition create :: "byte list \<Rightarrow> 16 word \<Rightarrow> 16 word \<Rightarrow> 16 word \<Rightarrow> kernel \<Rightarrow> nat option kres" where
  "create path ty major minor s =
     bnd (nameiparent path (replicate DIRSIZ 0) s) (\<lambda>(r, name) s.
     case r of None \<Rightarrow> Ok None s
     | Some dp \<Rightarrow>
       bnd (ilock (Some dp) s) (\<lambda>_ s.
       bnd (dirlookup dp name s) (\<lambda>r s.
       case r of
         Some (ip, _) \<Rightarrow>
           bnd (iunlockput dp s) (\<lambda>_ s.
           bnd (ilock (Some ip) s) (\<lambda>_ s.
             if ty = T_FILE \<and> i_type (inodes s ! ip) = T_FILE then Ok (Some ip) s
             else bnd (iunlockput ip s) (\<lambda>_ s. Ok None s)))
       | None \<Rightarrow> create_new dp name ty major minor s)))"

text \<open>\<open>sys_open\<close>: the locked inode that is opened, \<open>None\<close> when the call fails.\<close>

definition open_inode :: "byte list \<Rightarrow> 32 word \<Rightarrow> kernel \<Rightarrow> nat option kres" where
  "open_inode path omode s =
     (if omode AND O_CREATE \<noteq> 0 then
        bnd (create path T_FILE 0 0 s) (\<lambda>r s.
        case r of None \<Rightarrow> bnd (end_op s) (\<lambda>_ s. Ok None s) | Some ip \<Rightarrow> Ok (Some ip) s)
      else
        bnd (namei path s) (\<lambda>r s.
        case r of None \<Rightarrow> bnd (end_op s) (\<lambda>_ s. Ok None s)
        | Some ip \<Rightarrow>
          bnd (ilock (Some ip) s) (\<lambda>_ s.
            if i_type (inodes s ! ip) = T_DIR \<and> omode \<noteq> 0
            then bnd (iunlockput ip s) (\<lambda>_ s. bnd (end_op s) (\<lambda>_ s. Ok None s))
            else Ok (Some ip) s)))"

definition sys_open :: "kernel \<Rightarrow> 32 word kres" where
  "sys_open s =
     need (argstr 0 s) (\<lambda>path s.
     need (argint 1 s) (\<lambda>omode s.
     bnd (begin_op s) (\<lambda>_ s.
     need (open_inode path omode s) (\<lambda>ip s.
     bnd (filealloc s) (\<lambda>f s.
     bnd (case f of None \<Rightarrow> Ok None s | Some f \<Rightarrow> fdalloc f s) (\<lambda>fd s.
     case (f, fd) of
       (Some f, Some fd) \<Rightarrow>
         bnd (iunlock (Some ip) s) (\<lambda>_ s.
         bnd (end_op s) (\<lambda>_ s.
           Ok (of_nat fd) (upd_file f (\<lambda>k. k\<lparr>f_type := FD_INODE, f_ip := Some ip, f_off := 0,
             f_readable := (omode AND O_WRONLY = 0),
             f_writable := (omode AND O_WRONLY \<noteq> 0 \<or> omode AND O_RDWR \<noteq> 0)\<rparr>) s)))
     | _ \<Rightarrow>
         bnd (close_opt f s) (\<lambda>_ s.
         bnd (iunlockput ip s) (\<lambda>_ s. end_fail s))))))))"

definition sys_mkdir :: "kernel \<Rightarrow> 32 word kres" where
  "sys_mkdir s =
     bnd (begin_op s) (\<lambda>_ s.
     bnd (argstr 0 s) (\<lambda>path s.
     bnd (case path of None \<Rightarrow> Ok None s | Some path \<Rightarrow> create path T_DIR 0 0 s) (\<lambda>r s.
     case r of None \<Rightarrow> end_fail s
     | Some ip \<Rightarrow> bnd (iunlockput ip s) (\<lambda>_ s. bnd (end_op s) (\<lambda>_ s. Ok 0 s)))))"

definition sys_mknod :: "kernel \<Rightarrow> 32 word kres" where
  "sys_mknod s =
     bnd (begin_op s) (\<lambda>_ s.
     bnd (argstr 0 s) (\<lambda>path s.
     case path of None \<Rightarrow> end_fail s
     | Some path \<Rightarrow>
     bnd (argint 1 s) (\<lambda>major s.
     case major of None \<Rightarrow> end_fail s
     | Some major \<Rightarrow>
     bnd (argint 2 s) (\<lambda>minor s.
     case minor of None \<Rightarrow> end_fail s
     | Some minor \<Rightarrow>
     bnd (create path T_DEV (ucast major) (ucast minor) s) (\<lambda>r s.
     case r of None \<Rightarrow> end_fail s
     | Some ip \<Rightarrow> bnd (iunlockput ip s) (\<lambda>_ s. bnd (end_op s) (\<lambda>_ s. Ok 0 s)))))))"

definition sys_chdir :: "kernel \<Rightarrow> 32 word kres" where
  "sys_chdir s =
     bnd (curproc s) (\<lambda>i s.
     bnd (begin_op s) (\<lambda>_ s.
     bnd (argstr 0 s) (\<lambda>path s.
     bnd (case path of None \<Rightarrow> Ok None s | Some path \<Rightarrow> namei path s) (\<lambda>r s.
     case r of None \<Rightarrow> end_fail s
     | Some ip \<Rightarrow>
       bnd (ilock (Some ip) s) (\<lambda>_ s.
         if i_type (inodes s ! ip) \<noteq> T_DIR then bnd (iunlockput ip s) (\<lambda>_ s. end_fail s)
         else
           bnd (iunlock (Some ip) s) (\<lambda>_ s.
           bnd (case cwd (procs s ! i) of None \<Rightarrow> Fault | Some d \<Rightarrow> iput d s) (\<lambda>_ s.
           bnd (end_op s) (\<lambda>_ s.
             Ok 0 (upd_proc i (\<lambda>p. p\<lparr>cwd := Some ip\<rparr>) s)))))))))"

text \<open>The loop of \<open>sys_exec\<close> that fetches the arguments, with room for \<open>k\<close> more.\<close>

primrec fetch_argv :: "nat \<Rightarrow> addr \<Rightarrow> kernel \<Rightarrow> byte list list option kres" where
  "fetch_argv 0 ua s = Ok None s"
| "fetch_argv (Suc k) ua s =
     bnd (fetchint ua s) (\<lambda>r s.
     case r of None \<Rightarrow> Ok None s
     | Some uarg \<Rightarrow>
       if uarg = 0 then Ok (Some []) s
       else bnd (fetchstr uarg s) (\<lambda>r s.
         case r of None \<Rightarrow> Ok None s
         | Some arg \<Rightarrow>
           bnd (fetch_argv k (ua + 4) s) (\<lambda>r s. Ok (map_option (\<lambda>args. arg # args) r) s)))"

definition sys_exec :: "kernel \<Rightarrow> 32 word kres" where
  "sys_exec s =
     need (argstr 0 s) (\<lambda>path s.
     need (argint 1 s) (\<lambda>uargv s.
     need (fetch_argv MAXARG uargv s) (\<lambda>argv s. exec path argv s)))"

text \<open>\<open>sys_pipe\<close> after the pipe has been allocated.\<close>

definition pipe_fds :: "addr \<Rightarrow> nat \<Rightarrow> nat \<Rightarrow> kernel \<Rightarrow> 32 word kres" where
  "pipe_fds p rf wrf s =
     bnd (fdalloc rf s) (\<lambda>fd0 s.
     bnd (case fd0 of None \<Rightarrow> Ok None s | Some _ \<Rightarrow> fdalloc wrf s) (\<lambda>fd1 s.
     case (fd0, fd1) of
       (Some fd0, Some fd1) \<Rightarrow>
         bnd (store_user p (bytes_of_word (of_nat fd0)) s) (\<lambda>_ s.
         bnd (store_user (p + 4) (bytes_of_word (of_nat fd1)) s) (\<lambda>_ s. Ok 0 s))
     | _ \<Rightarrow>
         bnd (case fd0 of None \<Rightarrow> Ok () s
              | Some fd \<Rightarrow> bnd (curproc s) (\<lambda>i s.
                  Ok () (upd_proc i (\<lambda>p. p\<lparr>ofile := (ofile p)[fd := None]\<rparr>) s))) (\<lambda>_ s.
         bnd (fileclose rf s) (\<lambda>_ s.
         bnd (fileclose wrf s) (\<lambda>_ s. Ok (- 1) s)))))"

definition sys_pipe :: "kernel \<Rightarrow> 32 word kres" where
  "sys_pipe s =
     need (argptr 0 8 s) (\<lambda>p s.
     need (pipealloc s) (\<lambda>(rf, wrf) s. pipe_fds p rf wrf s))"

end
