(* ===== verification/Trap.thy ===== *)
theory Trap
  imports Sysproc Sysfile
begin

text \<open>
  The dispatch of system calls (\<open>syscall\<close> in \<open>syscall.c\<close>) and of traps (\<open>trap.c\<close>).  The descriptor
  table and the interrupt controller are not modelled; the characters that the keyboard or the
  serial port has ready and the fault address register are arguments of \<open>trap\<close>.
\<close>

section \<open>System calls\<close>

definition syscalls :: "(kernel \<Rightarrow> 32 word kres) list" where
  "syscalls = [sys_fork, sys_exit, sys_wait, sys_pipe, sys_read, sys_kill, sys_exec, sys_fstat, sys_chdir,
     sys_dup, sys_getpid, sys_sbrk, sys_sleep, sys_uptime, sys_open, sys_write, sys_mknod, sys_unlink,
     sys_link, sys_mkdir, sys_close, sys_getpinfo, sys_settickets]"

text \<open>Entry 0 of the table is null, so \<open>syscalls ! k\<close> is the call with number \<open>k + 1\<close>.\<close>

definition set_eax :: "nat \<Rightarrow> 32 word \<Rightarrow> kernel \<Rightarrow> kernel" where
  "set_eax i v s = (let a = tf (procs s ! i) in s\<lparr>tfs := (tfs s)(a := (tfs s a)\<lparr>tf_eax := v\<rparr>)\<rparr>)"

text \<open>\<open>curproc->tf->eax = syscalls[num]();\<close> where \<open>call\<close> is the system call or, for a process that slept in it and
  runs again, what is left of it, such as \<open>sys_sleep_back\<close>.\<close>

definition syscall_result :: "nat \<Rightarrow> (kernel \<Rightarrow> 32 word kres) \<Rightarrow> kernel \<Rightarrow> unit kres" where
  "syscall_result i call s = bnd (call s) (\<lambda>r s. Ok () (set_eax i r s))"

definition syscall :: "kernel \<Rightarrow> unit kres" where
  "syscall s =
     bnd (curproc s) (\<lambda>i s.
     let num = tf_eax (tfs s (tf (procs s ! i))) in
     if s_lt 0 num \<and> num < 24 then
       syscall_result i (syscalls ! (unat num - 1)) s
     else if 0 \<notin> set (pname (procs s ! i)) then Fault
     else
       bnd (cprintf (Some (bytes_of ''%d %s: unknown sys call %d'' @ [10]))
              [PInt (pid (procs s ! i)), PStr (takeWhile (\<lambda>b. b \<noteq> 0) (pname (procs s ! i))), PInt num] s) (\<lambda>_ s.
       Ok () (set_eax i (- 1) s)))"

section \<open>Traps\<close>

definition tvinit :: "kernel \<Rightarrow> kernel" where
  "tvinit s = s\<lparr>mach := initlock TicksLk ''time'' (mach s)\<rparr>"

definition user_mode :: "addr \<Rightarrow> kernel \<Rightarrow> bool" where
  "user_mode a s = (tf_cs (tfs s a) AND 3 = 3)"

text \<open>\<open>if(myproc() && myproc()->killed && (tf->cs&3) == DPL_USER) exit();\<close>\<close>

definition exit_if_killed :: "addr \<Rightarrow> kernel \<Rightarrow> unit kres" where
  "exit_if_killed a s =
     bnd (kmyproc s) (\<lambda>p s.
     case p of None \<Rightarrow> Ok () s
     | Some i \<Rightarrow> if killed (procs s ! i) \<and> user_mode a s then exit s else Ok () s)"

text \<open>The system call branch of \<open>trap\<close>.\<close>

definition kill_check :: "kernel \<Rightarrow> unit kres" where
  "kill_check s = bnd (curproc s) (\<lambda>i s. if killed (procs s ! i) then exit s else Ok () s)"

definition trap_syscall :: "addr \<Rightarrow> kernel \<Rightarrow> unit kres" where
  "trap_syscall a s =
     bnd (kill_check s) (\<lambda>_ s.
     bnd (curproc s) (\<lambda>i s.
     bnd (syscall (upd_proc i (\<lambda>p. p\<lparr>tf := a\<rparr>) s)) (\<lambda>_ s.
     kill_check s)))"

text \<open>When the process \<open>i\<close> that slept in the system call runs again: the rest of the call, the result in \<open>eax\<close> and
  the second check.\<close>

definition trap_syscall_back :: "nat \<Rightarrow> (kernel \<Rightarrow> 32 word kres) \<Rightarrow> kernel \<Rightarrow> unit kres" where
  "trap_syscall_back i rest s = bnd (syscall_result i rest s) (\<lambda>_ s. kill_check s)"

definition timer_tick :: "kernel \<Rightarrow> unit kres" where
  "timer_tick s =
     bnd (on_mach cpuid s) (\<lambda>c s.
       if c = 0 then
         bnd (kacquire TicksLk s) (\<lambda>_ s.
         bnd (wakeup ChTicks (s\<lparr>uticks := uticks s + 1\<rparr>)) (\<lambda>_ s.
         krelease TicksLk s))
       else Ok () s)"

text \<open>The \<open>default\<close> case.\<close>

definition trap_fault :: "addr \<Rightarrow> addr \<Rightarrow> kernel \<Rightarrow> unit kres" where
  "trap_fault a cr2 s =
     bnd (kmyproc s) (\<lambda>p s.
     case p of
       Some i \<Rightarrow>
         if tf_cs (tfs s a) AND 3 = 0 then
           bnd (on_mach cpuid s) (\<lambda>c s.
           bnd (cprintf (Some (bytes_of ''unexpected trap %d from cpu %d eip %x (cr2=0x%x)'' @ [10]))
             [PInt (tf_trapno (tfs s a)), PInt (of_nat c), PInt (tf_eip (tfs s a)), PInt cr2] s) (\<lambda>_ s.
           Panic ''trap''))
         else if 0 \<notin> set (pname (procs s ! i)) then Fault
         else
           bnd (on_mach cpuid s) (\<lambda>c s.
           bnd (cprintf (Some (bytes_of ''pid %d %s: trap %d err %d on cpu %d eip 0x%x addr 0x%x--kill proc'' @ [10]))
             [PInt (pid (procs s ! i)), PStr (takeWhile (\<lambda>b. b \<noteq> 0) (pname (procs s ! i))), PInt (tf_trapno (tfs s a)),
              PInt (tf_err (tfs s a)), PInt (of_nat c), PInt (tf_eip (tfs s a)), PInt cr2] s) (\<lambda>_ s.
           Ok () (upd_proc i (\<lambda>p. p\<lparr>killed := True\<rparr>) s)))
     | None \<Rightarrow>
         bnd (on_mach cpuid s) (\<lambda>c s.
         bnd (cprintf (Some (bytes_of ''unexpected trap %d from cpu %d eip %x (cr2=0x%x)'' @ [10]))
           [PInt (tf_trapno (tfs s a)), PInt (of_nat c), PInt (tf_eip (tfs s a)), PInt cr2] s) (\<lambda>_ s.
         Panic ''trap'')))"

text \<open>The \<open>switch\<close> statement; the trap numbers are 32 (timer), 33 (keyboard), 36 (serial port),
  39 and 63 (spurious), 46 and 47 (disk).\<close>

definition trap_dispatch :: "addr \<Rightarrow> addr \<Rightarrow> 32 word list \<Rightarrow> kernel \<Rightarrow> unit kres" where
  "trap_dispatch a cr2 chars s =
     (let t = tf_trapno (tfs s a) in
      if t = 32 then timer_tick s
      else if t = 46 then Ok () s
      else if t = 47 then Ok () s
      else if t = 33 then consoleintr chars s
      else if t = 36 then consoleintr chars s
      else if t = 39 \<or> t = 63 then
        bnd (on_mach cpuid s) (\<lambda>c s.
        cprintf (Some (bytes_of ''cpu%d: spurious interrupt at %x:%x'' @ [10]))
          [PInt (of_nat c), PInt (ucast (tf_cs (tfs s a))), PInt (tf_eip (tfs s a))] s)
      else trap_fault a cr2 s)"

definition trap :: "addr \<Rightarrow> addr \<Rightarrow> 32 word list \<Rightarrow> kernel \<Rightarrow> unit kres" where
  "trap a cr2 chars s =
     (if tf_trapno (tfs s a) = 64 then trap_syscall a s
      else
        bnd (trap_dispatch a cr2 chars s) (\<lambda>_ s.
        bnd (exit_if_killed a s) (\<lambda>_ s.
        bnd (kmyproc s) (\<lambda>p s.
        bnd (case p of None \<Rightarrow> Ok () s
             | Some i \<Rightarrow> if pstate (procs s ! i) = RUNNING \<and> tf_trapno (tfs s a) = 32 then yield s else Ok () s) (\<lambda>_ s.
        exit_if_killed a s)))))"

text \<open>When the process that yielded in \<open>trap\<close> runs again.\<close>

definition trap_back :: "addr \<Rightarrow> bool \<Rightarrow> kernel \<Rightarrow> unit kres" where
  "trap_back a ie s = bnd (yield_back ie s) (\<lambda>_ s. exit_if_killed a s)"

section \<open>A killed process does not return to user mode\<close>

lemma mycpu_OkD: "mycpu m = Ok c m' \<Longrightarrow> m' = m \<and> cpu_ix m = Some c"
  by (auto simp: mycpu_def cpu_ix_def split: if_splits option.splits)

lemma pushcli_OkD:
  assumes "pushcli m = Ok x m'"
  shows "this_cpu m' = this_cpu m \<and> cpu_proc (curcpu m') = cpu_proc (curcpu m) \<and> cpu_ix m' = cpu_ix m"
proof -
  obtain c where c: "cpu_ix (cli m) = Some c" using assms by (auto simp: pushcli_def Let_def bnd_eq_Ok dest!: mycpu_OkD)
  then have lt: "c < length (cpus m)" using cpu_ix_lt[OF c] by (simp add: cli_def)
  have "this_cpu m = c" "cpu_ix m = Some c" using c by (simp_all add: cli_def this_cpu_def)
  with assms lt show ?thesis
    by (auto simp: pushcli_def Let_def bnd_eq_Ok cli_def dest!: mycpu_OkD)
qed

lemma popcli_OkD:
  assumes "popcli m = Ok x m'"
  shows "this_cpu m' = this_cpu m \<and> cpu_proc (curcpu m') = cpu_proc (curcpu m) \<and> cpu_ix m' = cpu_ix m"
proof -
  obtain c where c: "cpu_ix m = Some c"
    using assms by (auto simp: popcli_def Let_def bnd_eq_Ok dest!: mycpu_OkD split: if_splits)
  then have lt: "c < length (cpus m)" by (rule cpu_ix_lt)
  have "this_cpu m = c" using c by (simp add: this_cpu_def)
  with assms lt c show ?thesis
    by (auto simp: popcli_def Let_def bnd_eq_Ok sti_def dest!: mycpu_OkD split: if_splits)
qed

lemma kmyproc_running:
  assumes "kmyproc s = Ok p t"
  shows "running t = p \<and> procs t = procs s \<and> tfs t = tfs s \<and> running s = p"
proof -
  obtain m where t: "t = s\<lparr>mach := m\<rparr>" and m: "myproc (mach s) = Ok p m"
    using assms on_mach_OkD[of myproc s p t] by (auto simp: kmyproc_def)
  obtain m1 c m2 where 1: "pushcli (mach s) = Ok () m1" and 2: "mycpu m1 = Ok c m2"
    and 3: "popcli m2 = Ok () m" and p: "p = cpu_proc (cpus m2 ! c)"
    using m by (auto simp: myproc_def bnd_eq_Ok Let_def)
  have "c = this_cpu m2" using mycpu_OkD[OF 2] by (simp add: this_cpu_def)
  then show ?thesis
    using pushcli_OkD[OF 1] mycpu_OkD[OF 2] popcli_OkD[OF 3] p by (simp add: t running_def) metis
qed

lemma curproc_running:
  assumes "curproc s = Ok i t"
  shows "running t = Some i \<and> procs t = procs s \<and> tfs t = tfs s \<and> running s = Some i"
  using assms kmyproc_running[of s "Some i" t]
  by (auto simp: curproc_def bnd_eq_Ok split: option.splits dest: kmyproc_running)

lemma exit_no_return: "exit s \<noteq> Ok x t"
  by (auto simp: exit_def exit_final_def bnd_eq_Ok Let_def split: if_splits)

lemma exit_if_killed_alive:
  assumes "exit_if_killed a s = Ok () t"
  shows "user_mode a t \<Longrightarrow> running t = Some i \<Longrightarrow> \<not> killed (procs t ! i)"
  using assms exit_no_return
  by (auto simp: exit_if_killed_def bnd_eq_Ok user_mode_def dest!: kmyproc_running split: option.splits if_splits)

lemma kill_check_alive:
  assumes "kill_check s = Ok () t" "running t = Some i"
  shows "\<not> killed (procs t ! i)"
  using assms exit_no_return
  by (auto simp: kill_check_def bnd_eq_Ok dest!: curproc_running split: if_splits)

lemma kill_check_killed:
  assumes "quiet s" "running s = Some i" "killed (procs s ! i)"
  shows "kill_check s = exit s"
  using assms by (simp add: kill_check_def curproc_ok quietD)

text \<open>The one way to user mode that does not pass these checks is the first return of a new process: \<open>forkret\<close> gives back the
  lock and goes on to \<open>trapret\<close>, whatever the flag says.\<close>

lemma forkret_unchecked:
  assumes "mach s = hold PtableLk m" "mach_ok m" "lk_free PtableLk m" "\<not> forkret_first s"
  shows "forkret s = Ok () (s\<lparr>mach := touch m\<rparr>)"
  using assms by (simp add: forkret_def krelease_ok)

text \<open>(C26) A trap does not take a killed process back to user mode.  The ways out of \<open>trap\<close> are its return at the end of a call, the return of
  a process that the timer made yield (\<open>trap_back\<close>), and the return of a process that slept in a system call, whatever was left of that call
  (\<open>trap_syscall_back\<close>).  Whenever one of them returns, from a system call or to a trap frame of user mode, the process that is running has not been killed; a
  killed process whose system call is over calls \<open>exit\<close>, which does not return.  This is about \<open>trap\<close>: the first entry of a new
  process into user mode is through \<open>forkret\<close>, which has no check.\<close>

theorem trap_return_alive:
  assumes "trap a cr2 chars s = Ok () t \<and> (tf_trapno (tfs s a) = 64 \<or> user_mode a t) \<or> trap_back a ie s = Ok () t \<and> user_mode a t
     \<or> trap_syscall_back j rest s = Ok () t" and "running t = Some i"
  shows "\<not> killed (procs t ! i) \<and> (\<forall>k call u r v. call u = Ok r v \<and> quiet v \<and> running v = Some k \<and> killed (procs v ! k)
     \<longrightarrow> trap_syscall_back k call u = exit (set_eax k r v) \<and> (\<forall>x w. exit (set_eax k r v) \<noteq> Ok x w))"
proof (intro conjI allI impI)
  consider u where "kill_check u = Ok () t" | u where "exit_if_killed a u = Ok () t" "user_mode a t"
    using assms(1) by (auto simp: trap_def trap_syscall_def trap_back_def trap_syscall_back_def bnd_eq_Ok split: if_splits)
  then show "\<not> killed (procs t ! i)" using kill_check_alive exit_if_killed_alive assms(2) by cases blast+
next
  fix k :: nat and call :: "kernel \<Rightarrow> 32 word kres" and u r v assume v: "call u = Ok r v \<and> quiet v \<and> running v = Some k \<and> killed (procs v ! k)"
  have m: "mach (set_eax k r v) = mach v" "procs (set_eax k r v) = procs v" by (simp_all add: set_eax_def Let_def)
  then have "kill_check (set_eax k r v) = exit (set_eax k r v)"
    using v by (intro kill_check_killed) (auto simp: quiet_def running_def)
  then show "trap_syscall_back k call u = exit (set_eax k r v)" using v by (simp add: trap_syscall_back_def syscall_result_def)
qed (rule exit_no_return)

text \<open>A disk interrupt in user mode.\<close>

definition trap_demo :: kernel where
  "trap_demo = calm\<lparr>tfs := (\<lambda>_. trapframe0\<lparr>tf_trapno := 46, tf_cs := 0x1B\<rparr>)\<rparr>"

theorem trap_return_alive_witness:
  "trap 0 0 [] trap_demo = Ok () trap_demo \<and> user_mode 0 trap_demo \<and> \<not> killed (procs trap_demo ! 0)"
proof -
  have q: "quiet trap_demo" "running trap_demo = Some 0" "mach trap_demo = mach calm"
    using quiet_frame[of trap_demo] by (simp_all add: trap_demo_def)
  have k: "kmyproc trap_demo = Ok (Some 0) trap_demo"
    using kmyproc_ok[of trap_demo] q calm_mach by (simp add: running_def)
  have p: "\<not> killed (procs trap_demo ! 0)" by (simp add: trap_demo_def)
  have tf: "tf_trapno (tfs trap_demo 0) = 46" by (simp add: trap_demo_def)
  have u: "user_mode 0 trap_demo" by (simp add: user_mode_def trap_demo_def)
  have "trap 0 0 [] trap_demo = Ok () trap_demo"
    by (simp add: trap_def tf trap_dispatch_def exit_if_killed_def k p)
  then show ?thesis using trap_return_alive[of 0 0 "[]" trap_demo trap_demo] u q by simp
qed

section \<open>Sleeping for a number of ticks\<close>

lemma timer_tick_ok:
  assumes "mach_ok (mach s)" "lk_free TicksLk (mach s)" "lk_free PtableLk (mach s)" "\<not> if_flag (mach s)"
    "this_cpu (mach s) = 0"
  shows "timer_tick s = Ok () (wakeup1 (Some ChTicks) (s\<lparr>uticks := uticks s + 1, mach := touch (mach s)\<rparr>))"
proof -
  have ix: "cpu_ix (mach s) \<noteq> None" using assms(1) by (simp add: mach_ok_def)
  have c: "on_mach cpuid s = Ok 0 s"
    using mycpu_ok[OF ix assms(4)] assms(5) by (simp add: on_mach_def cpuid_def)
  let ?t = "s\<lparr>mach := hold TicksLk (mach s), uticks := uticks s + 1\<rparr>"
  have w: "wakeup ChTicks ?t = Ok () (wakeup1 (Some ChTicks) ?t)"
    using assms by (intro wakeup_held) simp_all
  have "krelease TicksLk (wakeup1 (Some ChTicks) ?t) = Ok () ((wakeup1 (Some ChTicks) ?t)\<lparr>mach := touch (mach s)\<rparr>)"
    using assms by (intro krelease_ok) simp_all
  then show ?thesis using w c assms by (simp add: timer_tick_def kacquire_ok wakeup1_def)
qed

text \<open>Every clock tick on the first CPU advances \<open>ticks\<close> by one and makes every process that
  sleeps on it \<open>RUNNABLE\<close>; other processes keep their state.\<close>

theorem timer_tick_wakes:
  assumes "mach_ok (mach s)" "lk_free TicksLk (mach s)" "lk_free PtableLk (mach s)" "\<not> if_flag (mach s)"
    "this_cpu (mach s) = 0" "j < length (procs s)"
  shows "\<exists>t. timer_tick s = Ok () t \<and> uticks t = uticks s + 1
     \<and> pstate (procs t ! j) = (if pstate (procs s ! j) = SLEEPING \<and> chan (procs s ! j) = Some ChTicks then RUNNABLE
                                else pstate (procs s ! j))"
  using timer_tick_ok[OF assms(1-5)] assms(6) by (simp add: wakeup1_def)

lemma sys_sleep_test_ok:
  assumes "mach s = hold TicksLk m" "mach_ok m" "ncli (curcpu m) = 0" "lk_free TicksLk m" "lk_free PtableLk m"
    "running s = Some i" "i < length (procs s)" "\<not> killed (procs s ! i)"
  shows "sys_sleep_test t0 n s =
     (if uticks s - t0 < n then Slept (upd_proc i (\<lambda>p. p\<lparr>chan := Some ChTicks, pstate := SLEEPING\<rparr>) (s\<lparr>mach := hold PtableLk m\<rparr>))
      else Ok 0 (s\<lparr>mach := touch m\<rparr>))"
proof -
  have cp: "curproc s = Ok i s" using curproc_ok[of s i] assms by simp
  have "krelease TicksLk s = Ok () (s\<lparr>mach := touch m\<rparr>)" using assms by (intro krelease_ok) simp_all
  then show ?thesis
    using cp assms(8) sleep_ok[OF assms(1-3) _ _ assms(6,7)] assms(4,5) by (simp add: sys_sleep_test_def)
qed

lemma elapsed_less: "k < 2 ^ 32 \<Longrightarrow> (of_nat k :: 32 word) < n \<longleftrightarrow> k < unat n"
  by (simp add: word_less_nat_alt unat_of_nat32)

text \<open>(C36) \<open>sleep(n)\<close> sleeps for \<open>n\<close> ticks, \<open>n\<close> read as an unsigned number: a process that wakes up when
  \<open>k\<close> ticks have gone by since it called \<open>sleep\<close> returns 0 as soon as \<open>k\<close> has reached \<open>n\<close>, and until then goes
  back to sleep on \<open>ticks\<close> with \<open>ptable.lock\<close> held.  A negative argument therefore sleeps for more than
  \<open>2^31\<close> ticks.\<close>

theorem sys_sleep_duration:
  assumes "mach s = hold PtableLk m" "mach_ok m" "ncli (curcpu m) = 0" "lk_free TicksLk m" "lk_free PtableLk m"
    "running s = Some i" "i < length (procs s)" "\<not> killed (procs s ! i)"
    "uticks s = ticks0 + of_nat k" "k < 2 ^ 32"
  shows "(unat n \<le> k \<longrightarrow> (\<exists>t. sys_sleep_back i ie ticks0 n s = Ok 0 t \<and> lk_free TicksLk (mach t)))
     \<and> (k < unat n \<longrightarrow> (\<exists>t. sys_sleep_back i ie ticks0 n s = Slept t \<and> pstate (procs t ! i) = SLEEPING
          \<and> chan (procs t ! i) = Some ChTicks \<and> mach t = hold PtableLk (m\<lparr>if_flag := ie\<rparr>)))
     \<and> (s_lt n 0 \<longrightarrow> k < 2 ^ 31 \<longrightarrow> (\<exists>t. sys_sleep_back i ie ticks0 n s = Slept t))"
proof -
  let ?m = "m\<lparr>if_flag := ie\<rparr>"
  let ?t = "upd_proc i (\<lambda>p. p\<lparr>chan := None\<rparr>) (s\<lparr>mach := hold TicksLk ?m\<rparr>)"
  have ok: "mach_ok ?m" "lk_free TicksLk ?m" "lk_free PtableLk ?m" "ncli (curcpu ?m) = 0"
    using assms by (simp_all add: mach_ok_flag)
  have sb: "sleep_back i TicksLk ie s = Ok () ?t" using assms by (intro sleep_back_ok) simp_all
  have "running s = cpu_proc (curcpu m)" using assms(1,2) by (simp add: running_def)
  then have "running (s\<lparr>mach := ?m\<rparr>) = Some i" using assms(6) by (simp add: running_def)
  then have run: "running ?t = Some i" using running_simps(2)[of "s\<lparr>mach := ?m\<rparr>" TicksLk] ok by simp
  have i: "i < length (procs ?t)" "\<not> killed (procs ?t ! i)" using assms(7,8) by (simp_all add: upd_proc_def)
  have u: "uticks ?t - ticks0 = of_nat k" using assms(9) by (simp add: upd_proc_def)
  have e: "sys_sleep_back i ie ticks0 n s =
     (if k < unat n then Slept (upd_proc i (\<lambda>p. p\<lparr>chan := Some ChTicks, pstate := SLEEPING\<rparr>) (?t\<lparr>mach := hold PtableLk ?m\<rparr>))
      else Ok 0 (?t\<lparr>mach := touch ?m\<rparr>))"
    using sb sys_sleep_test_ok[where s = ?t and m = ?m and i = i and ?t0.0 = ticks0 and n = n] ok run i u elapsed_less[OF assms(10), of n]
    by (simp add: sys_sleep_back_def)
  then show ?thesis
    using ok assms(7) by (auto simp: upd_proc_def s_neg_iff)
qed

text \<open>The scheduler has just switched back to process 0.\<close>

definition resumed_demo :: kernel where
  "resumed_demo = calm\<lparr>mach := hold PtableLk (mach calm), uticks := 107\<rparr>"

theorem sys_sleep_duration_witness:
  "(\<exists>t. sys_sleep_back 0 True 100 7 resumed_demo = Ok 0 t) \<and> (\<exists>t. sys_sleep_back 0 True 100 8 resumed_demo = Slept t)
   \<and> (\<exists>t. sys_sleep_back 0 True 100 (- 1) resumed_demo = Slept t)"
proof -
  have h: "mach resumed_demo = hold PtableLk (mach calm)" "length (procs resumed_demo) = 64"
    "\<not> killed (procs resumed_demo ! 0)" "uticks resumed_demo = 100 + of_nat 7"
    by (simp_all add: resumed_demo_def)
  have r: "running resumed_demo = Some 0"
    using running_simps(2)[of calm PtableLk] calm_mach calm_simps(2) by (simp add: running_def h)
  have neg: "s_lt (- 1 :: 32 word) 0" by (simp add: s_lt_def)
  note d = sys_sleep_duration[OF h(1) calm_mach(2), of 0 100 7, unfolded h]
  show ?thesis using d[where n = 7 and ie = True] d[where n = 8 and ie = True] d[where n = "- 1" and ie = True] neg r h(3) calm_mach by auto
qed

theorem timer_tick_wakes_witness:
  "\<exists>t. timer_tick (boot_kernel\<lparr>procs := [proc0\<lparr>pstate := SLEEPING, chan := Some ChTicks\<rparr>]\<rparr>) = Ok () t
     \<and> uticks t = 1 \<and> pstate (procs t ! 0) = RUNNABLE"
proof -
  let ?s = "boot_kernel\<lparr>procs := [proc0\<lparr>pstate := SLEEPING, chan := Some ChTicks\<rparr>]\<rparr>"
  have m: "mach ?s = machine0" "uticks ?s = 0" by (simp_all add: boot_kernel_def)
  have "mach_ok machine0" "lk_free L machine0" "\<not> if_flag machine0" "this_cpu machine0 = 0" for L
    by (simp_all add: machine0_def lk_free_def this_cpu_def cpu_ix_def mach_ok_def cpu0_def)
  then show ?thesis using timer_tick_wakes[of ?s 0] m by simp
qed

end
