(* ===== verification/Bcache.thy ===== *)
theory Bcache
  imports Bio
begin

text \<open>
  The buffer cache of \<open>bio.c\<close> as the file system sees it: the list through \<open>prev\<close> and \<open>next\<close> is one ring of all
  buffers in the order of use; the exact effect of \<open>bget\<close>, \<open>bread\<close>, \<open>bwrite\<close> and \<open>brelse\<close> on a cache that satisfies the
  invariant \<open>bc_ok\<close>; and the view \<open>cval\<close> of the disk through the cache, on which the log is verified.
\<close>

section \<open>The doubly linked list\<close>

text \<open>\<open>chain nx pv a xs b\<close>: following \<open>nx\<close> from \<open>a\<close> visits \<open>xs\<close> and then \<open>b\<close>, and \<open>pv\<close> leads back.\<close>

primrec chain :: "(nat \<Rightarrow> nat) \<Rightarrow> (nat \<Rightarrow> nat) \<Rightarrow> nat \<Rightarrow> nat list \<Rightarrow> nat \<Rightarrow> bool" where
  "chain nx pv a [] b \<longleftrightarrow> nx a = b \<and> pv b = a"
| "chain nx pv a (x # xs) b \<longleftrightarrow> nx a = x \<and> pv x = a \<and> chain nx pv x xs b"

lemma chain_append: "chain nx pv a (xs @ y # ys) b \<longleftrightarrow> chain nx pv a xs y \<and> chain nx pv y ys b"
  by (induction xs arbitrary: a) auto

lemma chain_ends:
  "chain nx pv a xs b \<Longrightarrow> nx a = hd (xs @ [b])" "chain nx pv a xs b \<Longrightarrow> pv b = last (a # xs)"
  by (induction xs arbitrary: a) auto

lemma chain_nx_other: "k \<notin> set (a # xs) \<Longrightarrow> chain (nx(k := v)) pv a xs b = chain nx pv a xs b"
  by (induction xs arbitrary: a) auto

lemma chain_pv_other: "k \<notin> set (xs @ [b]) \<Longrightarrow> chain nx (pv(k := v)) a xs b = chain nx pv a xs b"
  by (induction xs arbitrary: a) auto

lemma chain_redirect:
  assumes "chain nx pv a xs b" "distinct (a # xs)" "c \<notin> set xs"
  shows "chain (nx(last (a # xs) := c)) (pv(c := last (a # xs))) a xs c"
  using assms
proof (induction xs arbitrary: a)
  case (Cons x xs)
  define l where "l = last (x # xs)"
  have ih: "chain (nx(l := c)) (pv(c := l)) x xs c"
    unfolding l_def by (rule Cons.IH) (use Cons.prems in auto)
  have "l \<in> set (x # xs)" unfolding l_def by (rule last_in_set) simp
  then have "l \<noteq> a" using Cons.prems(2) by auto
  moreover have "last (a # x # xs) = l" by (simp add: l_def)
  ultimately show ?case using ih Cons.prems by (simp only: chain.simps) simp
qed simp

lemma chain_unlink:
  assumes "chain nx pv a (xs @ y # ys) a" "distinct (a # xs @ y # ys)"
  shows "chain (nx(pv y := nx y)) (pv(nx y := pv y)) a (xs @ ys) a"
proof -
  have 1: "chain nx pv a xs y" and 2: "chain nx pv y ys a" using assms(1) by (simp_all add: chain_append)
  have p: "pv y = last (a # xs)" and n: "nx y = hd (ys @ [a])" using chain_ends[OF 1] chain_ends[OF 2] by simp_all
  show ?thesis
  proof (cases ys)
    case Nil
    then show ?thesis using chain_redirect[OF 1, of a] assms(2) n p by simp
  next
    case (Cons z zs)
    have "chain (nx(pv y := z)) (pv(z := pv y)) a xs z" using chain_redirect[OF 1, of z] assms(2) p Cons by auto
    moreover have "pv y \<notin> set (z # zs)" using assms(2) p Cons by (metis (no_types) Cons_eq_appendI Un_iff distinct_append
        disjoint_iff last_in_set list.distinct(1) list.set_intros(2) set_append distinct.simps(2))
    then have "chain (nx(pv y := z)) (pv(z := pv y)) z zs a = chain nx pv z zs a"
      using assms(2) Cons by (simp add: chain_nx_other chain_pv_other)
    ultimately show ?thesis using 2 Cons n by (simp add: chain_append)
  qed
qed

lemma chain_link:
  assumes "chain nx pv a ws a" "y \<notin> set (a # ws)" "distinct (a # ws)"
  shows "chain ((nx(y := nx a))(a := y)) ((pv(y := a))(nx a := y)) a (y # ws) a"
proof -
  have y: "nx a \<noteq> y" using chain_ends(1)[OF assms(1)] assms(2) by (cases ws) auto
  show ?thesis
  proof (cases ws)
    case Nil
    then show ?thesis using assms y by auto
  next
    case (Cons z zs)
    then have n: "nx a = z" "pv z = a" "chain nx pv z zs a" using assms(1) by simp_all
    have "chain ((nx(y := z))(a := y)) ((pv(y := a))(z := y)) z zs a = chain nx pv z zs a"
      using assms(2,3) Cons by (simp add: chain_nx_other chain_pv_other)
    then show ?thesis using n y assms(2,3) Cons by auto
  qed
qed

text \<open>Walks.\<close>

lemma chain_walk_next:
  assumes "chain nx pv a xs 30" "30 \<notin> set xs" "length xs < n"
  shows "walk_list nx P n (nx a) = Some (find P xs)"
  using assms
proof (induction xs arbitrary: a n)
  case Nil
  then show ?case by (cases n) simp_all
next
  case (Cons x xs)
  obtain m where n: "n = Suc m" "length xs < m" using Cons.prems(3) by (cases n) auto
  then show ?case using Cons.IH[of x m] Cons.prems by auto
qed

lemma chain_rev: "chain nx pv a xs b \<Longrightarrow> chain pv nx b (rev xs) a"
  by (induction xs arbitrary: a) (auto simp: chain_append)

section \<open>Most recently used order\<close>

text \<open>\<open>mru s xs\<close>: the list of buffers from \<open>head.next\<close> on is \<open>xs\<close>.\<close>

definition mru :: "kernel \<Rightarrow> nat list \<Rightarrow> bool" where
  "mru s xs \<longleftrightarrow> length (bufs s) = NBUF \<and> chain (nextof s) (prevof s) NBUF xs NBUF \<and> distinct xs \<and> set xs = {..<NBUF}"

lemma set_next_eq:
  assumes "length (bufs s) = 30" "b \<le> 30"
  shows "nextof (set_next b v s) = (nextof s)(b := v)" "prevof (set_next b v s) = prevof s"
    "length (bufs (set_next b v s)) = 30"
  using assms by (auto simp: nextof_def prevof_def set_next_def upd_buf_def fun_eq_iff nth_list_update)

lemma set_prev_eq:
  assumes "length (bufs s) = 30" "b \<le> 30"
  shows "prevof (set_prev b v s) = (prevof s)(b := v)" "nextof (set_prev b v s) = nextof s"
    "length (bufs (set_prev b v s)) = 30"
  using assms by (auto simp: nextof_def prevof_def set_prev_def upd_buf_def fun_eq_iff nth_list_update)

text \<open>The pointer part of \<open>brelse\<close>, and linking at the front as \<open>binit\<close> does it.\<close>

definition move_front :: "nat \<Rightarrow> kernel \<Rightarrow> kernel" where
  "move_front b s =
     (let s = set_prev (nextof s b) (prevof s b) s; s = set_next (prevof s b) (nextof s b) s in link_front b s)"

lemma chain_range:
  assumes "chain nx pv a xs c" "set xs \<subseteq> {..<30}" "a \<le> 30" "c \<le> 30"
  shows "x \<in> set (a # xs) \<Longrightarrow> nx x \<le> 30" "x \<in> set (xs @ [c]) \<Longrightarrow> pv x \<le> 30"
  using assms
proof (induction xs arbitrary: a)
  case (Cons y ys)
  { case 1 then show ?case using Cons.IH(1)[of y] by (auto simp: less_imp_le) }
  { case 2 then show ?case using Cons.IH(2)[of y] by (auto simp: less_imp_le) }
qed auto

lemma head_fields: "head_next s = nextof s 30" "head_prev s = prevof s 30"
  by (simp_all add: nextof_def prevof_def)

lemma link_front_chain:
  assumes "length (bufs s) = 30" "chain (nextof s) (prevof s) 30 ws 30" "b < 30" "b \<notin> set ws" "distinct ws" "set ws \<subseteq> {..<30}"
  shows "chain (nextof (link_front b s)) (prevof (link_front b s)) 30 (b # ws) 30" "length (bufs (link_front b s)) = 30"
proof -
  have n: "nextof s 30 \<le> 30" using chain_range(1)[OF assms(2), of 30] assms(6) by auto
  have nb: "nextof s 30 \<noteq> b" using chain_ends(1)[OF assms(2)] assms(3,4) by (cases ws) auto
  let ?s1 = "set_next b (nextof s 30) s" let ?s2 = "set_prev b 30 ?s1" let ?s3 = "set_prev (nextof s 30) b ?s2"
  have l1: "length (bufs ?s1) = 30" using assms by (simp add: set_next_eq)
  have l2: "length (bufs ?s2) = 30" using l1 assms by (simp add: set_prev_eq)
  have l3: "length (bufs ?s3) = 30" using l2 n by (simp add: set_prev_eq)
  have h: "nextof ?s2 30 = nextof s 30" using assms l1 by (simp add: set_next_eq set_prev_eq)
  have e: "link_front b s = set_next 30 b ?s3"
    using h by (simp add: link_front_def Let_def head_fields)
  have nx: "nextof (link_front b s) = ((nextof s)(b := nextof s 30))(30 := b)"
    using assms l1 l2 l3 n by (simp add: e set_next_eq set_prev_eq)
  have pv: "prevof (link_front b s) = ((prevof s)(b := 30))(nextof s 30 := b)"
    using assms l1 l2 l3 n by (simp add: e set_next_eq set_prev_eq)
  show "chain (nextof (link_front b s)) (prevof (link_front b s)) 30 (b # ws) 30"
    unfolding nx pv using assms by (intro chain_link) auto
  show "length (bufs (link_front b s)) = 30" using l3 by (simp add: e set_next_eq)
qed

lemma move_front_mru:
  assumes "mru s xs" "b < 30"
  shows "mru (move_front b s) (b # remove1 b xs)"
proof -
  have b: "b \<in> set xs" and d: "distinct xs" and st: "set xs = {..<30}" and l: "length (bufs s) = 30"
    and c: "chain (nextof s) (prevof s) 30 xs 30"
    using assms by (auto simp: mru_def)
  obtain as bs where x: "xs = as @ b # bs" using b by (auto dest: split_list)
  then have r: "remove1 b xs = as @ bs" using d by (simp add: remove1_append)
  have dd: "distinct (30 # as @ b # bs)" using d st x by auto
  have le: "nextof s b \<le> 30" "prevof s b \<le> 30" using chain_range[OF c] b st by auto
  have n: "nextof s b = hd (bs @ [30])" using c x by (metis chain_append chain_ends(1))
  have nb: "nextof s b \<noteq> b" using n dd by (cases bs) auto
  let ?s1 = "set_prev (nextof s b) (prevof s b) s" let ?s2 = "set_next (prevof ?s1 b) (nextof ?s1 b) ?s1"
  have 1: "prevof ?s1 = (prevof s)(nextof s b := prevof s b)" "nextof ?s1 = nextof s" "length (bufs ?s1) = 30"
    using l le by (simp_all add: set_prev_eq)
  have p1: "prevof ?s1 b = prevof s b" using 1 nb by simp
  have 2: "nextof ?s2 = (nextof s)(prevof s b := nextof s b)" "prevof ?s2 = (prevof s)(nextof s b := prevof s b)" "length (bufs ?s2) = 30"
    using 1 le p1 by (simp_all add: set_next_eq)
  have u: "chain (nextof ?s2) (prevof ?s2) 30 (as @ bs) 30"
    unfolding 2 using chain_unlink[of "nextof s" "prevof s" 30 as b bs] c x dd by simp
  have "move_front b s = link_front b ?s2" by (simp add: move_front_def Let_def)
  moreover have "set (as @ bs) \<subseteq> {..<30}" "b \<notin> set (as @ bs)" "distinct (as @ bs)" "set (b # as @ bs) = {..<30}"
    using dd st x by auto
  ultimately show ?thesis
    using link_front_chain[OF 2(3) u assms(2)] r unfolding mru_def by simp
qed

lemma initsleeplock_links:
  assumes "length (bufs s) = 30" "b < 30"
  shows "nextof (initsleeplock (BufSl b) nm s) = nextof s" "prevof (initsleeplock (BufSl b) nm s) = prevof s"
    "length (bufs (initsleeplock (BufSl b) nm s)) = 30"
  using assms by (auto simp: initsleeplock_def nextof_def prevof_def fun_eq_iff nth_list_update)

lemma binit_step_chain:
  assumes "length (bufs s) = 30" "chain (nextof s) (prevof s) 30 ws 30" "b < 30" "b \<notin> set ws" "distinct ws" "set ws \<subseteq> {..<30}"
  shows "chain (nextof (binit_step b s)) (prevof (binit_step b s)) 30 (b # ws) 30" "length (bufs (binit_step b s)) = 30"
proof -
  have n: "nextof s 30 \<le> 30" using chain_range(1)[OF assms(2), of 30] assms(6) by auto
  let ?s1 = "set_next b (nextof s 30) s" let ?s2 = "set_prev b 30 ?s1" let ?s3 = "initsleeplock (BufSl b) ''buffer'' ?s2"
  let ?s4 = "set_prev (nextof s 30) b ?s3"
  have l1: "length (bufs ?s1) = 30" using assms by (simp add: set_next_eq)
  have l2: "length (bufs ?s2) = 30" using l1 assms by (simp add: set_prev_eq)
  have l3: "length (bufs ?s3) = 30" "nextof ?s3 = nextof ?s2" "prevof ?s3 = prevof ?s2"
    using initsleeplock_links[OF l2 assms(3)] by simp_all
  have l4: "length (bufs ?s4) = 30" using l3 n by (simp add: set_prev_eq)
  have h: "nextof ?s3 30 = nextof s 30" using assms l1 l3 by (simp add: set_next_eq set_prev_eq)
  have e: "binit_step b s = set_next 30 b ?s4"
    using h by (simp add: binit_step_def Let_def head_fields)
  have nx: "nextof (binit_step b s) = ((nextof s)(b := nextof s 30))(30 := b)"
    using assms l1 l2 l3 l4 n by (simp add: e set_next_eq set_prev_eq)
  have pv: "prevof (binit_step b s) = ((prevof s)(b := 30))(nextof s 30 := b)"
    using assms l1 l2 l3 l4 n by (simp add: e set_next_eq set_prev_eq)
  show "chain (nextof (binit_step b s)) (prevof (binit_step b s)) 30 (b # ws) 30"
    unfolding nx pv using assms by (intro chain_link) auto
  show "length (bufs (binit_step b s)) = 30" using l4 by (simp add: e set_next_eq)
qed

lemma binit_chain:
  assumes "length (bufs s) = 30" "n \<le> 30"
  shows "chain (nextof (fold binit_step [0..<n] (s\<lparr>mach := m, head_prev := 30, head_next := 30\<rparr>)))
      (prevof (fold binit_step [0..<n] (s\<lparr>mach := m, head_prev := 30, head_next := 30\<rparr>))) 30 (rev [0..<n]) 30
    \<and> length (bufs (fold binit_step [0..<n] (s\<lparr>mach := m, head_prev := 30, head_next := 30\<rparr>))) = 30"
  using assms(2)
proof (induction n)
  case 0
  then show ?case using assms(1) by (simp add: nextof_def prevof_def)
next
  case (Suc n)
  let ?t = "fold binit_step [0..<n] (s\<lparr>mach := m, head_prev := 30, head_next := 30\<rparr>)"
  have "chain (nextof ?t) (prevof ?t) 30 (rev [0..<n]) 30" "length (bufs ?t) = 30" using Suc by simp_all
  moreover have "set (rev [0..<n]) \<subseteq> {..<30}" "n < 30" using Suc.prems by auto
  ultimately have "chain (nextof (binit_step n ?t)) (prevof (binit_step n ?t)) 30 (n # rev [0..<n]) 30"
    "length (bufs (binit_step n ?t)) = 30"
    using binit_step_chain[of ?t "rev [0..<n]" n] by simp_all
  then show ?case by (simp del: chain.simps)
qed

lemma binit_mru: "length (bufs s) = 30 \<Longrightarrow> mru (binit s) (rev [0..<30])"
  using binit_chain[of s 30] by (auto simp: binit_def mru_def Let_def)

section \<open>Exact effect of the operations\<close>

lemma upd_buf_frame [simp]:
  "mach (upd_buf b f s) = mach s" "procs (upd_buf b f s) = procs s" "running (upd_buf b f s) = running s"
  "disk (upd_buf b f s) = disk s" "dwrites (upd_buf b f s) = dwrites s" "logs (upd_buf b f s) = logs s"
  "length (bufs (upd_buf b f s)) = length (bufs s)" "(upd_buf b f s)\<lparr>mach := m\<rparr> = upd_buf b f (s\<lparr>mach := m\<rparr>)"
  "quiet (upd_buf b f s) = quiet s"
  by (simp_all add: upd_buf_def running_def quiet_def)

lemma bufs_upd_buf: "b < length (bufs s) \<Longrightarrow> bufs (upd_buf b f s) ! c = (if c = b then f (bufs s ! b) else bufs s ! c)"
  by (simp add: upd_buf_def nth_list_update)

lemma upd_buf_twice: "upd_buf b f (upd_buf b g s) = upd_buf b (\<lambda>k. f (g k)) s"
  by (cases "b < length (bufs s)") (simp_all add: upd_buf_def list_update_beyond)

lemma sl_put_buf: "sl_put (BufSl b) l s = upd_buf b (\<lambda>k. k\<lparr>b_lock := l\<rparr>) s"
  by (simp add: upd_buf_def)

lemma links_mach [simp]: "nextof (s\<lparr>mach := m\<rparr>) = nextof s" "prevof (s\<lparr>mach := m\<rparr>) = prevof s"
  by (simp_all add: nextof_def prevof_def fun_eq_iff)

lemma mru_keep:
  assumes "mru s xs" "length (bufs t) = 30" "head_next t = head_next s" "head_prev t = head_prev s"
    "\<And>b. b < 30 \<Longrightarrow> b_next (bufs t ! b) = b_next (bufs s ! b) \<and> b_prev (bufs t ! b) = b_prev (bufs s ! b)"
  shows "mru t xs"
proof -
  have c: "chain nx pv a ys c = chain nx' pv' a ys c"
    if "\<And>b. b \<in> set (a # ys) \<Longrightarrow> nx b = nx' b" "\<And>b. b \<in> set (ys @ [c]) \<Longrightarrow> pv b = pv' b" for nx nx' pv pv' a ys c
    using that by (induction ys arbitrary: a) auto
  have "nextof t b = nextof s b" "prevof t b = prevof s b" if "b \<le> 30" for b
    using assms(3,4,5) that by (auto simp: nextof_def prevof_def le_less)
  then show ?thesis using assms(1,2) c[of 30 xs "nextof s" "nextof t" 30 "prevof s" "prevof t"]
    unfolding mru_def by (metis insert_iff lessThan_iff less_imp_le list.set(2) order_refl set_append UnE empty_set singletonD list.simps(15))
qed

lemma mru_upd_buf:
  assumes "mru s xs" "\<And>k. b_next (f k) = b_next k \<and> b_prev (f k) = b_prev k"
  shows "mru (upd_buf b f s) xs"
proof (rule mru_keep[OF assms(1)])
  show l: "length (bufs (upd_buf b f s)) = 30" using assms(1) by (simp add: mru_def)
  fix c :: nat assume "c < 30"
  then show "b_next (bufs (upd_buf b f s) ! c) = b_next (bufs s ! c) \<and> b_prev (bufs (upd_buf b f s) ! c) = b_prev (bufs s ! c)"
    using l assms(2) by (cases "c = b") (simp_all add: upd_buf_def)
qed (simp_all add: upd_buf_def)

lemma mru_walk:
  assumes "mru s xs"
  shows "walk_list (nextof s) P 31 (head_next s) = Some (find P xs)"
    "walk_list (prevof s) P 31 (head_prev s) = Some (find P (rev xs))"
proof -
  have c: "chain (nextof s) (prevof s) 30 xs 30" "30 \<notin> set xs" "length xs < 31"
    using assms distinct_card[of xs] by (auto simp: mru_def)
  show "walk_list (nextof s) P 31 (head_next s) = Some (find P xs)"
    using chain_walk_next[OF c] by (simp add: head_fields)
  show "walk_list (prevof s) P 31 (head_prev s) = Some (find P (rev xs))"
    using chain_walk_next[OF chain_rev[OF c(1)]] c by (simp add: head_fields)
qed

text \<open>Taking the sleep lock of a buffer for the running process.\<close>

definition locked_by :: "32 word \<Rightarrow> buf \<Rightarrow> buf" where
  "locked_by p k = k\<lparr>b_lock := (b_lock k)\<lparr>sl_locked := True, sl_pid := p\<rparr>\<rparr>"

lemma acquire_buf:
  assumes "quiet s" "running s = Some i" "b < length (bufs s)" "\<not> sl_locked (b_lock (bufs s ! b))"
  shows "acquiresleep (BufSl b) s = Ok () (upd_buf b (locked_by (pid (procs s ! i))) s)"
proof -
  have "acquiresleep (BufSl b) s =
      Ok () (sl_put (BufSl b) ((sl_get (BufSl b) s)\<lparr>sl_locked := True, sl_pid := pid (procs s ! i)\<rparr>) s)"
    using assms by (intro acquiresleep_ok) (simp_all add: sl_valid_def)
  then show ?thesis by (simp add: upd_buf_def locked_by_def)
qed

definition wanted :: "32 word \<Rightarrow> 32 word \<Rightarrow> kernel \<Rightarrow> nat \<Rightarrow> bool" where
  "wanted dev n s b \<longleftrightarrow> b_dev (bufs s ! b) = dev \<and> b_blockno (bufs s ! b) = n"

definition reusable :: "kernel \<Rightarrow> nat \<Rightarrow> bool" where
  "reusable s b \<longleftrightarrow> b_refcnt (bufs s ! b) = 0 \<and> \<not> b_dirty (bufs s ! b)"

lemma release_upd:
  assumes "quiet s"
  shows "krelease L (upd_buf b f (s\<lparr>mach := hold L (mach s)\<rparr>)) = Ok () (upd_buf b f s)"
  using krelease_quiet[of "upd_buf b f (s\<lparr>mach := hold L (mach s)\<rparr>)" L "mach s"] quietD[OF assms] by simp

lemma bget_hit:
  assumes "quiet s" "running s = Some i" "mru s xs" "find (wanted dev n s) xs = Some b" "\<not> sl_locked (b_lock (bufs s ! b))"
  shows "bget dev n s = Ok b (upd_buf b (\<lambda>k. locked_by (pid (procs s ! i)) (k\<lparr>b_refcnt := b_refcnt k + 1\<rparr>)) s)"
proof -
  have b: "b < length (bufs s)" using assms(3,4) by (auto simp: mru_def find_Some_iff)
  have w: "walk_list (nextof s) (wanted dev n s) 31 (head_next s) = Some (Some b)" using mru_walk(1)[OF assms(3)] assms(4) by simp
  let ?t = "upd_buf b (\<lambda>k. k\<lparr>b_refcnt := b_refcnt k + 1\<rparr>) s"
  have a: "acquiresleep (BufSl b) ?t = Ok () (upd_buf b (locked_by (pid (procs s ! i))) ?t)"
    using acquire_buf[of ?t i b] assms b by (simp add: bufs_upd_buf)
  show ?thesis
    using w a release_upd[OF assms(1)]
    by (simp add: bget_def kacquire_quiet[OF assms(1)] wanted_def[abs_def] upd_buf_twice del: walk_list.simps)
qed

text \<open>The fresh buffer for block \<open>n\<close>.\<close>

definition assigned :: "32 word \<Rightarrow> 32 word \<Rightarrow> buf \<Rightarrow> buf" where
  "assigned dev n k = k\<lparr>b_dev := dev, b_blockno := n, b_valid := False, b_dirty := False, b_refcnt := 1\<rparr>"

lemma bget_evict:
  assumes "quiet s" "running s = Some i" "mru s xs" "find (wanted dev n s) xs = None" "find (reusable s) (rev xs) = Some b"
    "\<not> sl_locked (b_lock (bufs s ! b))"
  shows "bget dev n s = Ok b (upd_buf b (\<lambda>k. locked_by (pid (procs s ! i)) (assigned dev n k)) s)"
proof -
  have b: "b < length (bufs s)" using assms(3,5) by (auto simp: mru_def find_Some_iff rev_nth)
  have w: "walk_list (nextof s) (wanted dev n s) 31 (head_next s) = Some None" using mru_walk(1)[OF assms(3)] assms(4) by simp
  have v: "walk_list (prevof s) (reusable s) 31 (head_prev s) = Some (Some b)" using mru_walk(2)[OF assms(3)] assms(5) by simp
  let ?t = "upd_buf b (assigned dev n) s"
  have a: "acquiresleep (BufSl b) ?t = Ok () (upd_buf b (locked_by (pid (procs s ! i))) ?t)"
    using acquire_buf[of ?t i b] assms b by (simp add: bufs_upd_buf assigned_def)
  show ?thesis
    using w v a release_upd[OF assms(1), where f = "assigned dev n"]
    by (simp add: bget_def kacquire_quiet[OF assms(1)] wanted_def[abs_def] reusable_def[abs_def] upd_buf_twice assigned_def[abs_def]
        del: walk_list.simps)
qed

lemma bget_full:
  assumes "quiet s" "mru s xs" "find (wanted dev n s) xs = None" "find (reusable s) (rev xs) = None"
  shows "bget dev n s = Panic ''bget: no buffers''"
  using mru_walk[OF assms(2), of "wanted dev n s"] mru_walk[OF assms(2), of "reusable s"] assms(3,4)
  by (simp add: bget_def kacquire_quiet[OF assms(1)] wanted_def[abs_def] reusable_def[abs_def] del: walk_list.simps)

lemma iderw_read:
  assumes "quiet s" "running s = Some i" "sl_locked (b_lock (bufs s ! b))" "sl_pid (b_lock (bufs s ! b)) = pid (procs s ! i)"
    "\<not> b_valid (bufs s ! b)" "\<not> b_dirty (bufs s ! b)" "b_dev (bufs s ! b) = 1" "unat (b_blockno (bufs s ! b)) < length (disk s)"
  shows "iderw b s = Ok () (upd_buf b (\<lambda>k. k\<lparr>b_data := disk s ! unat (b_blockno (bufs s ! b)), b_valid := True\<rparr>) s)"
  using assms by (simp add: iderw_def holdingsleep_ok[OF assms(1,2)] Let_def)

lemma iderw_write:
  assumes "quiet s" "running s = Some i" "sl_locked (b_lock (bufs s ! b))" "sl_pid (b_lock (bufs s ! b)) = pid (procs s ! i)"
    "b_dirty (bufs s ! b)" "b_dev (bufs s ! b) = 1" "unat (b_blockno (bufs s ! b)) < length (disk s)"
  shows "iderw b s = Ok () ((upd_buf b (\<lambda>k. k\<lparr>b_dirty := False, b_valid := True\<rparr>) s)
     \<lparr>disk := (disk s)[unat (b_blockno (bufs s ! b)) := b_data (bufs s ! b)],
      dwrites := dwrites s @ [(unat (b_blockno (bufs s ! b)), b_data (bufs s ! b))]\<rparr>)"
  using assms by (simp add: iderw_def holdingsleep_ok[OF assms(1,2)] Let_def)

lemma bread_hit:
  assumes "quiet s" "running s = Some i" "mru s xs" "find (wanted dev n s) xs = Some b" "\<not> sl_locked (b_lock (bufs s ! b))"
    "b_valid (bufs s ! b)"
  shows "bread dev n s = Ok b (upd_buf b (\<lambda>k. locked_by (pid (procs s ! i)) (k\<lparr>b_refcnt := b_refcnt k + 1\<rparr>)) s)"
proof -
  have "b < length (bufs s)" using assms(3,4) by (auto simp: mru_def find_Some_iff)
  then show ?thesis using assms by (simp add: bread_def bget_hit bufs_upd_buf locked_by_def)
qed

text \<open>The buffer after block \<open>n\<close> has been read into it.\<close>

definition filled :: "32 word \<Rightarrow> 32 word \<Rightarrow> block \<Rightarrow> buf \<Rightarrow> buf" where
  "filled p n d k = k\<lparr>b_dev := 1, b_blockno := n, b_valid := True, b_dirty := False, b_refcnt := 1,
     b_lock := (b_lock k)\<lparr>sl_locked := True, sl_pid := p\<rparr>, b_data := d\<rparr>"

lemma bread_miss:
  assumes "quiet s" "running s = Some i" "mru s xs" "find (wanted 1 n s) xs = None" "find (reusable s) (rev xs) = Some b"
    "\<not> sl_locked (b_lock (bufs s ! b))" "unat n < length (disk s)"
  shows "bread 1 n s = Ok b (upd_buf b (filled (pid (procs s ! i)) n (disk s ! unat n)) s)"
proof -
  have b: "b < length (bufs s)" using assms(3,5) by (auto simp: mru_def find_Some_iff rev_nth)
  let ?t = "upd_buf b (\<lambda>k. locked_by (pid (procs s ! i)) (assigned 1 n k)) s"
  have t: "bufs ?t ! b = locked_by (pid (procs s ! i)) (assigned 1 n (bufs s ! b))" using b by (simp add: bufs_upd_buf)
  have "iderw b ?t = Ok () (upd_buf b (\<lambda>k. k\<lparr>b_data := disk s ! unat n, b_valid := True\<rparr>) ?t)"
    using iderw_read[of ?t i b] assms(1,2,7) t by (simp add: locked_by_def assigned_def)
  moreover have "\<not> b_valid (bufs ?t ! b)" unfolding t by (simp add: locked_by_def assigned_def)
  moreover have "(\<lambda>k. (locked_by (pid (procs s ! i)) (assigned 1 n k))\<lparr>b_data := disk s ! unat n, b_valid := True\<rparr>)
      = filled (pid (procs s ! i)) n (disk s ! unat n)"
    by (simp add: fun_eq_iff locked_by_def assigned_def filled_def)
  ultimately show ?thesis
    using assms by (simp add: bread_def bget_evict[OF assms(1-6)] upd_buf_twice)
qed

lemma bwrite_ok:
  assumes "quiet s" "running s = Some i" "b < length (bufs s)" "sl_locked (b_lock (bufs s ! b))"
    "sl_pid (b_lock (bufs s ! b)) = pid (procs s ! i)" "b_dev (bufs s ! b) = 1" "unat (b_blockno (bufs s ! b)) < length (disk s)"
  shows "bwrite b s = Ok () ((upd_buf b (\<lambda>k. k\<lparr>b_dirty := False, b_valid := True\<rparr>) s)
     \<lparr>disk := (disk s)[unat (b_blockno (bufs s ! b)) := b_data (bufs s ! b)],
      dwrites := dwrites s @ [(unat (b_blockno (bufs s ! b)), b_data (bufs s ! b))]\<rparr>)"
proof -
  let ?t = "upd_buf b (\<lambda>k. k\<lparr>b_dirty := True\<rparr>) s"
  have "bufs ?t ! b = (bufs s ! b)\<lparr>b_dirty := True\<rparr>" using assms(3) by (simp add: bufs_upd_buf)
  then show ?thesis
    using iderw_write[of ?t i b] assms by (simp add: bwrite_def holdingsleep_ok upd_buf_twice)
qed

lemma set_links_mach [simp]:
  "mach (set_next b v s) = mach s" "mach (set_prev b v s) = mach s"
  "(set_next b v s)\<lparr>mach := m\<rparr> = set_next b v (s\<lparr>mach := m\<rparr>)" "(set_prev b v s)\<lparr>mach := m\<rparr> = set_prev b v (s\<lparr>mach := m\<rparr>)"
  "head_next (s\<lparr>mach := m\<rparr>) = head_next s"
  by (simp_all add: set_next_def set_prev_def)

lemma set_prev_mach_links [simp]: "nextof (set_prev b v (s\<lparr>mach := m\<rparr>)) = nextof (set_prev b v s)"
  "prevof (set_prev b v (s\<lparr>mach := m\<rparr>)) = prevof (set_prev b v s)"
  by (metis links_mach set_links_mach(4))+

lemma head_next_mach [simp]:
  "head_next (set_next c w (set_prev b v (s\<lparr>mach := m\<rparr>))) = head_next (set_next c w (set_prev b v s))"
  "head_next (set_prev c w (set_next d u (s\<lparr>mach := m\<rparr>))) = head_next (set_prev c w (set_next d u s))"
  by (metis set_links_mach(3,4,5))+

lemma move_front_mach [simp]:
  "mach (move_front b s) = mach s" "(move_front b s)\<lparr>mach := m\<rparr> = move_front b (s\<lparr>mach := m\<rparr>)"
proof -
  have l: "mach (link_front b s) = mach s" "(link_front b s)\<lparr>mach := m\<rparr> = link_front b (s\<lparr>mach := m\<rparr>)" for s
  proof -
    show "mach (link_front b s) = mach s" by (simp add: link_front_def Let_def)
    have "head_next (set_prev b 30 (set_next b v (s\<lparr>mach := m\<rparr>))) = head_next (set_prev b 30 (set_next b v s))" for v
      by simp
    then show "(link_front b s)\<lparr>mach := m\<rparr> = link_front b (s\<lparr>mach := m\<rparr>)" by (simp add: link_front_def Let_def)
  qed
  show "mach (move_front b s) = mach s" by (simp add: move_front_def Let_def l)
  show "(move_front b s)\<lparr>mach := m\<rparr> = move_front b (s\<lparr>mach := m\<rparr>)" by (simp add: move_front_def Let_def l)
qed

lemma brelse_alt:
  "brelse b s =
     bnd (holdingsleep (BufSl b) s) (\<lambda>h s.
       if \<not> h then Panic ''brelse''
       else bnd (releasesleep (BufSl b) s) (\<lambda>_ s.
       bnd (kacquire BcacheLk s) (\<lambda>_ s.
         let s = upd_buf b (\<lambda>k. k\<lparr>b_refcnt := b_refcnt k - 1\<rparr>) s;
             s = (if b_refcnt (bufs s ! b) = 0 then move_front b s else s)
         in krelease BcacheLk s)))"
  by (simp only: brelse_def move_front_def)

lemma brelse_ok:
  assumes "quiet s" "running s = Some i" "b < length (bufs s)" "sl_locked (b_lock (bufs s ! b))"
    "sl_pid (b_lock (bufs s ! b)) = pid (procs s ! i)" "b_refcnt (bufs s ! b) = 1"
  shows "brelse b s = Ok () (move_front b (upd_buf b (\<lambda>k. k\<lparr>b_refcnt := 0\<rparr>)
     (wakeup1 (Some (ChBufLock b)) (upd_buf b (\<lambda>k. k\<lparr>b_lock := (b_lock k)\<lparr>sl_locked := False, sl_pid := 0\<rparr>\<rparr>) s))))"
proof -
  let ?r = "wakeup1 (Some (ChBufLock b)) (upd_buf b (\<lambda>k. k\<lparr>b_lock := (b_lock k)\<lparr>sl_locked := False, sl_pid := 0\<rparr>\<rparr>) s)"
  have rs: "releasesleep (BufSl b) s = Ok () ?r"
    using releasesleep_ok[OF assms(1), of "BufSl b"] by (simp add: upd_buf_def)
  have qr: "quiet ?r" using assms(1) quiet_cong[of ?r s] by simp
  have rb: "bufs (wakeup1 ch t) = bufs t" for ch t by simp
  let ?t = "upd_buf b (\<lambda>k. k\<lparr>b_refcnt := 0\<rparr>) (?r\<lparr>mach := hold BcacheLk (mach s)\<rparr>)"
  have dec: "upd_buf b (\<lambda>k. k\<lparr>b_refcnt := b_refcnt k - 1\<rparr>) (?r\<lparr>mach := hold BcacheLk (mach s)\<rparr>) = ?t"
    using assms(3,6) by (simp add: upd_buf_def)
  have z: "b_refcnt (bufs ?t ! b) = 0" using assms(3) by (simp add: bufs_upd_buf)
  have rl: "krelease BcacheLk (move_front b ?t) = Ok () ((move_front b ?t)\<lparr>mach := mach s\<rparr>)"
    using quietD[OF assms(1)] by (intro krelease_quiet) simp_all
  have fin: "(move_front b ?t)\<lparr>mach := mach s\<rparr> = move_front b (upd_buf b (\<lambda>k. k\<lparr>b_refcnt := 0\<rparr>) ?r)"
    by (simp add: upd_buf_def wakeup1_def)
  have acq: "kacquire BcacheLk ?r = Ok () (?r\<lparr>mach := hold BcacheLk (mach s)\<rparr>)"
    using kacquire_quiet[OF qr, of BcacheLk] by simp
  have "brelse b s = krelease BcacheLk (move_front b ?t)"
    unfolding brelse_alt using assms(4,5) z
    by (simp only: holdingsleep_ok[OF assms(1,2)] rs acq bnd_simps Let_def dec if_True if_False simp_thms sl_get.simps)
  then show ?thesis using rl fin by simp
qed

section \<open>The cache as a view of the disk\<close>

text \<open>What does not change when buffers are used: everything but the buffers, their list, the disk and
  the states of sleeping processes.\<close>

definition rest :: "kernel \<Rightarrow> kernel" where
  "rest s = s\<lparr>bufs := [], head_prev := 0, head_next := 0, disk := [], dwrites := [], procs := []\<rparr>"

definition frame :: "kernel \<Rightarrow> kernel \<Rightarrow> bool" where
  "frame s t \<longleftrightarrow> rest t = rest s \<and> map pid (procs t) = map pid (procs s)"

lemma frame_refl [simp]: "frame s s"
  by (simp add: frame_def)

lemma frame_trans: "frame s t \<Longrightarrow> frame t u \<Longrightarrow> frame s u"
  by (simp add: frame_def)

lemma frameD:
  assumes "frame s t"
  shows "mach t = mach s" "logs t = logs s" "running t = running s" "quiet t = quiet s" "fsb t = fsb s" "inodes t = inodes s"
    "length (procs t) = length (procs s)" "i < length (procs s) \<Longrightarrow> pid (procs t ! i) = pid (procs s ! i)"
proof -
  have r: "rest t = rest s" and p: "map pid (procs t) = map pid (procs s)" using assms by (auto simp: frame_def)
  have f: "mach x = mach (rest x)" "logs x = logs (rest x)" "fsb x = fsb (rest x)" "inodes x = inodes (rest x)" for x
    by (simp_all add: rest_def)
  show "mach t = mach s" "logs t = logs s" "fsb t = fsb s" "inodes t = inodes s"
    using f[of s] f[of t] r by simp_all
  then show "running t = running s" "quiet t = quiet s" by (simp_all add: running_def quiet_def)
  show l: "length (procs t) = length (procs s)" using p by (metis length_map)
  show "pid (procs t ! i) = pid (procs s ! i)" if "i < length (procs s)"
    using p l that by (metis nth_map)
qed

lemma frame_upd_buf [simp]: "frame s (upd_buf b f s)"
  by (simp add: frame_def rest_def upd_buf_def)

lemma frame_disk [simp]: "frame s (t\<lparr>disk := d, dwrites := w\<rparr>) = frame s t"
  by (simp add: frame_def rest_def)

lemma frame_move_front [simp]: "frame s (move_front b t) = frame s t"
proof -
  have 1: "rest (set_next b v s) = rest s" "procs (set_next b v s) = procs s"
    "rest (set_prev b v s) = rest s" "procs (set_prev b v s) = procs s" for b v s
    by (simp_all add: set_next_def set_prev_def rest_def upd_buf_def)
  have 2: "rest (link_front b s) = rest s" "procs (link_front b s) = procs s" for s
    by (simp_all add: link_front_def Let_def 1)
  have "rest (move_front b t) = rest t" "procs (move_front b t) = procs t"
    by (simp_all add: move_front_def Let_def 1 2)
  then show ?thesis by (simp add: frame_def)
qed

lemma frame_wakeup1 [simp]: "frame s (wakeup1 ch t) = frame s t"
proof -
  have "map pid (procs (wakeup1 ch t)) = map pid (procs t)"
    by (simp add: wakeup1_def)
  then show ?thesis by (simp add: frame_def) (simp add: rest_def wakeup1_def)
qed

text \<open>A state of the cache in which the running process, with pid \<open>p\<close>, has locked the buffers \<open>B\<close> and no
  other is in use.  A buffer with device 0 has never been assigned.\<close>

definition buf_ok :: "nat set \<Rightarrow> 32 word \<Rightarrow> block list \<Rightarrow> nat \<Rightarrow> buf \<Rightarrow> bool" where
  "buf_ok B p d b k \<longleftrightarrow> (b_dev k = 0 \<and> \<not> b_dirty k \<and> b \<notin> B \<or>
       b_dev k = 1 \<and> b_valid k \<and> unat (b_blockno k) < length d \<and> length (b_data k) = BSIZE
       \<and> (b \<notin> B \<longrightarrow> \<not> b_dirty k \<longrightarrow> b_data k = d ! unat (b_blockno k)))
     \<and> (if b \<in> B then sl_locked (b_lock k) \<and> sl_pid (b_lock k) = p \<and> b_refcnt k = 1
        else \<not> sl_locked (b_lock k) \<and> b_refcnt k = 0)"

definition bc_ok :: "nat set \<Rightarrow> kernel \<Rightarrow> bool" where
  "bc_ok B s \<longleftrightarrow> quiet s \<and> (\<exists>xs. mru s xs) \<and> (\<exists>i < length (procs s). running s = Some i \<and>
       (\<forall>b < NBUF. buf_ok B (pid (procs s ! i)) (disk s) b (bufs s ! b)))
     \<and> (\<forall>b < NBUF. \<forall>c < NBUF. b_dev (bufs s ! b) = 1 \<longrightarrow> b_dev (bufs s ! c) = 1 \<longrightarrow>
          b_blockno (bufs s ! b) = b_blockno (bufs s ! c) \<longrightarrow> b = c)
     \<and> (\<forall>x \<in> set (disk s). length x = BSIZE) \<and> B \<subseteq> {..<NBUF}"

text \<open>The buffer that caches a block, what the block holds as far as the kernel can see, and the blocks
  that are pinned.\<close>

definition cached :: "kernel \<Rightarrow> 32 word \<Rightarrow> nat option" where
  "cached s n = find (wanted 1 n s) [0..<NBUF]"

definition cval :: "kernel \<Rightarrow> 32 word \<Rightarrow> block" where
  "cval s n = (case cached s n of Some b \<Rightarrow> b_data (bufs s ! b) | None \<Rightarrow> disk s ! unat n)"

definition dirty :: "kernel \<Rightarrow> 32 word set" where
  "dirty s = {b_blockno (bufs s ! b) | b. b < NBUF \<and> b_dirty (bufs s ! b)}"

lemma bc_okE:
  assumes "bc_ok B s"
  obtains xs i where "quiet s" "mru s xs" "running s = Some i" "i < length (procs s)"
    "\<And>b. b < 30 \<Longrightarrow> buf_ok B (pid (procs s ! i)) (disk s) b (bufs s ! b)"
    "\<And>b c. b < 30 \<Longrightarrow> c < 30 \<Longrightarrow> b_dev (bufs s ! b) = 1 \<Longrightarrow> b_dev (bufs s ! c) = 1 \<Longrightarrow>
          b_blockno (bufs s ! b) = b_blockno (bufs s ! c) \<Longrightarrow> b = c"
    "\<And>x. x \<in> set (disk s) \<Longrightarrow> length x = 512" "B \<subseteq> {..<30}" "length (bufs s) = 30"
  using assms unfolding bc_ok_def mru_def by blast

lemma cached_Some:
  assumes "bc_ok B s"
  shows "cached s n = Some b \<longleftrightarrow> b < 30 \<and> wanted 1 n s b"
proof -
  have u: "\<And>b c. b < 30 \<Longrightarrow> c < 30 \<Longrightarrow> b_dev (bufs s ! b) = 1 \<Longrightarrow> b_dev (bufs s ! c) = 1 \<Longrightarrow>
          b_blockno (bufs s ! b) = b_blockno (bufs s ! c) \<Longrightarrow> b = c"
    using assms by (simp add: bc_ok_def)
  have w: "c = b" if "wanted 1 n s b" "wanted 1 n s c" "b < 30" "c < 30" for b c
    using u[OF that(4,3)] that(1,2) unfolding wanted_def by metis
  show ?thesis
  proof
    assume "cached s n = Some b"
    then show "b < 30 \<and> wanted 1 n s b" by (auto simp: cached_def find_Some_iff)
  next
    assume b: "b < 30 \<and> wanted 1 n s b"
    then obtain c where c: "find (wanted 1 n s) [0..<30] = Some c"
      by (cases "find (wanted 1 n s) [0..<30]") (auto simp: find_None_iff)
    then have "c < 30 \<and> wanted 1 n s c" by (auto simp: find_Some_iff)
    then show "cached s n = Some b" using w[of c b] b c by (simp add: cached_def)
  qed
qed

lemma cached_None: "cached s n = None \<longleftrightarrow> (\<forall>b < 30. \<not> wanted 1 n s b)"
  by (auto simp: cached_def find_None_iff)

lemma find_mru:
  assumes "bc_ok B s" "mru s xs"
  shows "find (wanted 1 n s) xs = cached s n"
proof (cases "cached s n")
  case None
  then have "find (wanted 1 n s) xs = None" using assms(2) by (auto simp: cached_None find_None_iff mru_def)
  then show ?thesis using None by simp
next
  case (Some b)
  then have b: "b < 30" "wanted 1 n s b" using cached_Some[OF assms(1)] by auto
  then have "b \<in> set xs" using assms(2) by (auto simp: mru_def)
  then obtain c where c: "find (wanted 1 n s) xs = Some c" using b by (cases "find (wanted 1 n s) xs") (auto simp: find_None_iff)
  then have "c < 30 \<and> wanted 1 n s c" using assms(2) by (auto simp: find_Some_iff mru_def)
  then show ?thesis using cached_Some[OF assms(1), of n c] c by simp
qed

text \<open>The list pointers play no role for these notions.\<close>

definition core :: "buf \<Rightarrow> buf" where
  "core k = k\<lparr>b_prev := 0, b_next := 0\<rparr>"

lemma core_fields:
  "b_dev (core k) = b_dev k" "b_blockno (core k) = b_blockno k" "b_data (core k) = b_data k" "b_dirty (core k) = b_dirty k"
  "b_valid (core k) = b_valid k" "b_lock (core k) = b_lock k" "b_refcnt (core k) = b_refcnt k"
  by (simp_all add: core_def)

lemma core_eqD:
  assumes "core k = core l"
  shows "b_dev k = b_dev l" "b_blockno k = b_blockno l" "b_data k = b_data l" "b_dirty k = b_dirty l"
    "b_valid k = b_valid l" "b_lock k = b_lock l" "b_refcnt k = b_refcnt l"
  using core_fields[of k] core_fields[of l] assms by simp_all

definition same_bufs :: "kernel \<Rightarrow> kernel \<Rightarrow> bool" where
  "same_bufs s t \<longleftrightarrow> (\<forall>b < NBUF. core (bufs t ! b) = core (bufs s ! b)) \<and> disk t = disk s"

lemma same_bufsD:
  assumes "same_bufs s t"
  shows "cached t n = cached s n" "cval t n = cval s n" "dirty t = dirty s" "disk t = disk s"
    "b < 30 \<Longrightarrow> buf_ok B p d b (bufs t ! b) = buf_ok B p d b (bufs s ! b)"
    "b < 30 \<Longrightarrow> b_dev (bufs t ! b) = b_dev (bufs s ! b)" "b < 30 \<Longrightarrow> b_blockno (bufs t ! b) = b_blockno (bufs s ! b)"
    "b < 30 \<Longrightarrow> b_data (bufs t ! b) = b_data (bufs s ! b)" "b < 30 \<Longrightarrow> b_dirty (bufs t ! b) = b_dirty (bufs s ! b)"
proof -
  have c: "core (bufs t ! b) = core (bufs s ! b)" if "b < 30" for b using assms that by (simp add: same_bufs_def)
  show d: "disk t = disk s" using assms by (simp add: same_bufs_def)
  note e = core_eqD[OF c]
  show "buf_ok B p d b (bufs t ! b) = buf_ok B p d b (bufs s ! b)" if "b < 30" using e[OF that] by (simp add: buf_ok_def)
  show "b < 30 \<Longrightarrow> b_dev (bufs t ! b) = b_dev (bufs s ! b)" "b < 30 \<Longrightarrow> b_blockno (bufs t ! b) = b_blockno (bufs s ! b)"
    "b < 30 \<Longrightarrow> b_data (bufs t ! b) = b_data (bufs s ! b)" "b < 30 \<Longrightarrow> b_dirty (bufs t ! b) = b_dirty (bufs s ! b)"
    using e by simp_all
  have "\<And>b. b \<in> set [0..<30] \<Longrightarrow> wanted 1 n t b = wanted 1 n s b" using e by (auto simp: wanted_def)
  then show ca: "cached t n = cached s n" unfolding cached_def by (intro find_cong) auto
  have "b < 30" if "cached s n = Some b" for b using that by (auto simp: cached_def find_Some_iff)
  then show "cval t n = cval s n" using ca d e by (auto simp: cval_def split: option.splits)
  show "dirty t = dirty s" using e by (auto simp: dirty_def) metis+
qed

section \<open>Contracts of the operations\<close>

lemma bc_okI:
  assumes "quiet s" "mru s xs" "running s = Some i" "i < length (procs s)"
    "\<And>b. b < 30 \<Longrightarrow> buf_ok B (pid (procs s ! i)) (disk s) b (bufs s ! b)"
    "\<And>b c. b < 30 \<Longrightarrow> c < 30 \<Longrightarrow> b_dev (bufs s ! b) = 1 \<Longrightarrow> b_dev (bufs s ! c) = 1 \<Longrightarrow>
          b_blockno (bufs s ! b) = b_blockno (bufs s ! c) \<Longrightarrow> b = c"
    "\<And>x. x \<in> set (disk s) \<Longrightarrow> length x = 512" "B \<subseteq> {..<30}"
  shows "bc_ok B s"
  using assms unfolding bc_ok_def by blast

text \<open>Reading a block that is in the cache, and one that is not.\<close>

lemma bread_cached:
  assumes ok: "bc_ok B s" and c: "cached s n = Some b" "b \<notin> B"
  shows "\<exists>t. bread 1 n s = Ok b t \<and> bc_ok (insert b B) t \<and> frame s t \<and> disk t = disk s \<and> dwrites t = dwrites s
     \<and> cval t = cval s \<and> dirty t = dirty s \<and> (\<forall>a. a \<noteq> b \<longrightarrow> bufs t ! a = bufs s ! a)
     \<and> b_dev (bufs t ! b) = 1 \<and> b_blockno (bufs t ! b) = n \<and> b_data (bufs t ! b) = cval s n \<and> b_dirty (bufs t ! b) = b_dirty (bufs s ! b)"
proof -
  obtain xs i where q: "quiet s" "mru s xs" "running s = Some i" "i < length (procs s)"
    and bo: "\<And>b. b < 30 \<Longrightarrow> buf_ok B (pid (procs s ! i)) (disk s) b (bufs s ! b)"
    and un: "\<And>b c. b < 30 \<Longrightarrow> c < 30 \<Longrightarrow> b_dev (bufs s ! b) = 1 \<Longrightarrow> b_dev (bufs s ! c) = 1 \<Longrightarrow>
          b_blockno (bufs s ! b) = b_blockno (bufs s ! c) \<Longrightarrow> b = c"
    and dl: "\<And>x. x \<in> set (disk s) \<Longrightarrow> length x = 512" and B: "B \<subseteq> {..<30}" and l: "length (bufs s) = 30"
    by (rule bc_okE[OF ok], rule that) assumption+
  have b: "b < 30" "b_dev (bufs s ! b) = 1" "b_blockno (bufs s ! b) = n"
    using c cached_Some[OF ok] by (auto simp: wanted_def)
  have k: "\<not> sl_locked (b_lock (bufs s ! b))" "b_valid (bufs s ! b)" "b_refcnt (bufs s ! b) = 0"
    using bo[OF b(1)] b c(2) by (auto simp: buf_ok_def)
  let ?f = "\<lambda>k. locked_by (pid (procs s ! i)) (k\<lparr>b_refcnt := b_refcnt k + 1\<rparr>)"
  define t where "t = upd_buf b ?f s"
  have tf: "quiet t = quiet s" "running t = running s" "procs t = procs s" "disk t = disk s" "dwrites t = dwrites s" "frame s t"
    by (simp_all add: t_def)
  have r: "bread 1 n s = Ok b t"
    using find_mru[OF ok q(2), of n] c k q unfolding t_def by (intro bread_hit) simp_all
  have nb: "bufs t ! a = (if a = b then ?f (bufs s ! b) else bufs s ! a)" for a
    using b l by (simp add: t_def bufs_upd_buf)
  have fl: "b_dev (bufs t ! a) = b_dev (bufs s ! a)" "b_blockno (bufs t ! a) = b_blockno (bufs s ! a)"
    "b_data (bufs t ! a) = b_data (bufs s ! a)" "b_dirty (bufs t ! a) = b_dirty (bufs s ! a)" for a
    by (simp_all add: nb locked_by_def)
  have m: "mru t xs" unfolding t_def by (rule mru_upd_buf[OF q(2)]) (simp add: locked_by_def)
  have w: "wanted 1 m t = wanted 1 m s" for m by (simp add: wanted_def fun_eq_iff fl)
  have "bc_ok (insert b B) t"
  proof (rule bc_okI[OF _ m])
    fix a :: nat assume a: "a < 30"
    show "buf_ok (insert b B) (pid (procs t ! i)) (disk t) a (bufs t ! a)"
      using bo[OF a] bo[OF b(1)] b k c(2) by (cases "a = b") (auto simp: nb buf_ok_def locked_by_def tf)
  next
    fix a e :: nat assume "a < 30" "e < 30" "b_dev (bufs t ! a) = 1" "b_dev (bufs t ! e) = 1"
      "b_blockno (bufs t ! a) = b_blockno (bufs t ! e)"
    then show "a = e" using un by (simp add: fl)
  qed (use q dl B b tf in auto)
  moreover have "cval t = cval s" by (simp add: fun_eq_iff cval_def cached_def w fl tf split: option.splits)
  moreover have "dirty t = dirty s" by (simp add: dirty_def fl)
  moreover have "cval s n = b_data (bufs s ! b)" using c by (simp add: cval_def tf)
  moreover have "\<forall>a. a \<noteq> b \<longrightarrow> bufs t ! a = bufs s ! a" using nb by simp
  ultimately show ?thesis using r fl[of b] b tf by (intro exI[of _ t]) simp
qed

lemma bread_uncached:
  assumes ok: "bc_ok B s" and c: "cached s n = None" and n: "unat n < length (disk s)"
    and fr: "e < 30" "e \<notin> B" "\<not> b_dirty (bufs s ! e)"
  shows "\<exists>b t. bread 1 n s = Ok b t \<and> b < 30 \<and> b \<notin> B \<and> \<not> b_dirty (bufs s ! b) \<and> bc_ok (insert b B) t \<and> frame s t
     \<and> disk t = disk s \<and> dwrites t = dwrites s
     \<and> cval t = cval s \<and> dirty t = dirty s \<and> (\<forall>a. a \<noteq> b \<longrightarrow> bufs t ! a = bufs s ! a)
     \<and> b_dev (bufs t ! b) = 1 \<and> b_blockno (bufs t ! b) = n \<and> b_data (bufs t ! b) = cval s n \<and> \<not> b_dirty (bufs t ! b)"
proof -
  obtain xs i where q: "quiet s" "mru s xs" "running s = Some i" "i < length (procs s)"
    and bo: "\<And>b. b < 30 \<Longrightarrow> buf_ok B (pid (procs s ! i)) (disk s) b (bufs s ! b)"
    and un: "\<And>b c. b < 30 \<Longrightarrow> c < 30 \<Longrightarrow> b_dev (bufs s ! b) = 1 \<Longrightarrow> b_dev (bufs s ! c) = 1 \<Longrightarrow>
          b_blockno (bufs s ! b) = b_blockno (bufs s ! c) \<Longrightarrow> b = c"
    and dl: "\<And>x. x \<in> set (disk s) \<Longrightarrow> length x = 512" and B: "B \<subseteq> {..<30}" and l: "length (bufs s) = 30"
    by (rule bc_okE[OF ok], rule that) assumption+
  have "reusable s e" using bo[OF fr(1)] fr by (auto simp: buf_ok_def reusable_def)
  moreover have "e \<in> set (rev xs)" using q(2) fr(1) by (auto simp: mru_def)
  ultimately obtain b where fb: "find (reusable s) (rev xs) = Some b"
    by (cases "find (reusable s) (rev xs)") (auto simp: find_None_iff)
  then have b: "b \<in> set xs" "reusable s b" by (metis find_Some_iff nth_mem set_rev)+
  then have b30: "b < 30" using q(2) by (auto simp: mru_def)
  have k: "b \<notin> B" "\<not> sl_locked (b_lock (bufs s ! b))" "\<not> b_dirty (bufs s ! b)"
    using bo[OF b30] b(2) by (auto simp: buf_ok_def reusable_def split: if_splits)
  let ?f = "filled (pid (procs s ! i)) n (disk s ! unat n)"
  define t where "t = upd_buf b ?f s"
  have tf: "quiet t = quiet s" "running t = running s" "procs t = procs s" "disk t = disk s" "dwrites t = dwrites s" "frame s t"
    by (simp_all add: t_def)
  have r: "bread 1 n s = Ok b t"
    using find_mru[OF ok q(2), of n] c k q fb n unfolding t_def by (intro bread_miss) simp_all
  have nb: "bufs t ! a = (if a = b then ?f (bufs s ! b) else bufs s ! a)" for a
    using b30 l by (simp add: t_def bufs_upd_buf)
  have m: "mru t xs" unfolding t_def by (rule mru_upd_buf[OF q(2)]) (simp add: filled_def)
  have nn: "length (disk s ! unat n) = 512" using dl n by simp
  have no: "a < 30 \<Longrightarrow> b_dev (bufs s ! a) = 1 \<Longrightarrow> b_blockno (bufs s ! a) \<noteq> n" for a
    using c by (auto simp: cached_None wanted_def)
  have ok': "bc_ok (insert b B) t"
  proof (rule bc_okI[OF _ m])
    fix a :: nat assume a: "a < 30"
    show "buf_ok (insert b B) (pid (procs t ! i)) (disk t) a (bufs t ! a)"
      using bo[OF a] k nn n by (cases "a = b") (auto simp: nb buf_ok_def filled_def tf)
  next
    fix a e :: nat assume ae: "a < 30" "e < 30" "b_dev (bufs t ! a) = 1" "b_dev (bufs t ! e) = 1"
      "b_blockno (bufs t ! a) = b_blockno (bufs t ! e)"
    show "a = e"
    proof (cases "a = b \<or> e = b")
      case True
      then show ?thesis using ae no[of a] no[of e] by (auto simp: nb filled_def split: if_splits)
    next
      case False
      then show ?thesis using ae un by (simp add: nb)
    qed
  qed (use q dl B b30 tf in auto)
  have cv: "cval t m = cval s m" for m
  proof (cases "m = n")
    case True
    have "cached t n = Some b" using cached_Some[OF ok', of n b] b30 by (simp add: wanted_def nb filled_def)
    then show ?thesis using True c by (simp add: cval_def nb filled_def tf)
  next
    case False
    show ?thesis
    proof (cases "cached s m")
      case None
      then have "cached t m = None" using False by (auto simp: cached_None wanted_def nb filled_def)
      then show ?thesis using None by (simp add: cval_def tf)
    next
      case (Some a)
      then have a: "a < 30" "b_dev (bufs s ! a) = 1" "b_blockno (bufs s ! a) = m" using cached_Some[OF ok] by (auto simp: wanted_def)
      show ?thesis
      proof (cases "a = b")
        case True
        then have "b_data (bufs s ! b) = disk s ! unat m" using bo[OF b30] a k by (auto simp: buf_ok_def)
        moreover have "cached t m = None"
        proof (rule ccontr)
          assume "cached t m \<noteq> None"
          then obtain d where d: "d < 30" "wanted 1 m t d" using cached_Some[OF ok'] by (meson not_None_eq)
          then have "d \<noteq> b" using False by (auto simp: wanted_def nb filled_def)
          then have "b_dev (bufs s ! d) = 1" "b_blockno (bufs s ! d) = m" using d by (auto simp: wanted_def nb)
          then show False using un[OF d(1) a(1)] a \<open>d \<noteq> b\<close> True by simp
        qed
        ultimately show ?thesis using Some True by (simp add: cval_def tf)
      next
        case nab: False
        then have "cached t m = Some a" using cached_Some[OF ok', of m a] a by (simp add: wanted_def nb)
        then show ?thesis using Some nab by (simp add: cval_def nb tf)
      qed
    qed
  qed
  have "dirty t = dirty s" using k(3) by (auto simp: dirty_def nb filled_def)
  moreover have "cval s n = disk s ! unat n" using c by (simp add: cval_def tf)
  ultimately show ?thesis using r b30 k ok' nb cv tf by (intro exI[of _ b] exI[of _ t]) (simp add: filled_def fun_eq_iff)
qed

text \<open>Changing the data of a locked buffer, with \<open>log_write\<close> or before \<open>bwrite\<close>.\<close>

lemma locked_buf:
  assumes ok: "bc_ok B s" and b: "b \<in> B"
  shows "b < 30" "b_dev (bufs s ! b) = 1" "unat (b_blockno (bufs s ! b)) < length (disk s)" "length (bufs s) = 30"
    "cached s (b_blockno (bufs s ! b)) = Some b" "cval s (b_blockno (bufs s ! b)) = b_data (bufs s ! b)"
    "b_valid (bufs s ! b)" "length (b_data (bufs s ! b)) = 512"
proof -
  obtain xs i where "quiet s" "mru s xs" "running s = Some i" "i < length (procs s)"
    and bo: "\<And>b. b < 30 \<Longrightarrow> buf_ok B (pid (procs s ! i)) (disk s) b (bufs s ! b)"
    and "\<And>b c. b < 30 \<Longrightarrow> c < 30 \<Longrightarrow> b_dev (bufs s ! b) = 1 \<Longrightarrow> b_dev (bufs s ! c) = 1 \<Longrightarrow>
          b_blockno (bufs s ! b) = b_blockno (bufs s ! c) \<Longrightarrow> b = c"
    and "\<And>x. x \<in> set (disk s) \<Longrightarrow> length x = 512" and B: "B \<subseteq> {..<30}" and l: "length (bufs s) = 30"
    by (rule bc_okE[OF ok], rule that) assumption+
  show 1: "b < 30" "length (bufs s) = 30" using b B l by auto
  show 2: "b_dev (bufs s ! b) = 1" "unat (b_blockno (bufs s ! b)) < length (disk s)" "b_valid (bufs s ! b)"
    "length (b_data (bufs s ! b)) = 512" using bo[OF 1(1)] b by (auto simp: buf_ok_def)
  show "cached s (b_blockno (bufs s ! b)) = Some b" using cached_Some[OF ok] 1 2 by (simp add: wanted_def)
  then show "cval s (b_blockno (bufs s ! b)) = b_data (bufs s ! b)" by (simp add: cval_def)
qed

lemma set_data:
  assumes ok: "bc_ok B s" and b: "b \<in> B" and d: "length d = 512"
  shows "bc_ok B (upd_buf b (\<lambda>k. k\<lparr>b_data := d\<rparr>) s)"
    "cval (upd_buf b (\<lambda>k. k\<lparr>b_data := d\<rparr>) s) = (cval s)(b_blockno (bufs s ! b) := d)"
    "dirty (upd_buf b (\<lambda>k. k\<lparr>b_data := d\<rparr>) s) = dirty s"
proof -
  obtain xs i where q: "quiet s" "mru s xs" "running s = Some i" "i < length (procs s)"
    and bo: "\<And>b. b < 30 \<Longrightarrow> buf_ok B (pid (procs s ! i)) (disk s) b (bufs s ! b)"
    and un: "\<And>b c. b < 30 \<Longrightarrow> c < 30 \<Longrightarrow> b_dev (bufs s ! b) = 1 \<Longrightarrow> b_dev (bufs s ! c) = 1 \<Longrightarrow>
          b_blockno (bufs s ! b) = b_blockno (bufs s ! c) \<Longrightarrow> b = c"
    and dl: "\<And>x. x \<in> set (disk s) \<Longrightarrow> length x = 512" and B: "B \<subseteq> {..<30}" and l: "length (bufs s) = 30"
    by (rule bc_okE[OF ok], rule that) assumption+
  note lb = locked_buf[OF ok b]
  define t where "t = upd_buf b (\<lambda>k. k\<lparr>b_data := d\<rparr>) s"
  have tf: "quiet t = quiet s" "running t = running s" "procs t = procs s" "disk t = disk s" by (simp_all add: t_def)
  have nb: "bufs t ! a = (if a = b then (bufs s ! b)\<lparr>b_data := d\<rparr> else bufs s ! a)" for a
    using lb by (simp add: t_def bufs_upd_buf)
  have m: "mru t xs" unfolding t_def by (rule mru_upd_buf[OF q(2)]) simp
  have fl: "b_dev (bufs t ! a) = b_dev (bufs s ! a)" "b_blockno (bufs t ! a) = b_blockno (bufs s ! a)"
    "b_dirty (bufs t ! a) = b_dirty (bufs s ! a)" for a by (simp_all add: nb)
  have w: "wanted 1 m t = wanted 1 m s" for m by (simp add: wanted_def fun_eq_iff fl)
  show "bc_ok B (upd_buf b (\<lambda>k. k\<lparr>b_data := d\<rparr>) s)" unfolding t_def[symmetric]
  proof (rule bc_okI[OF _ m])
    fix a :: nat assume a: "a < 30"
    show "buf_ok B (pid (procs t ! i)) (disk t) a (bufs t ! a)"
      using bo[OF a] b d by (cases "a = b") (auto simp: nb buf_ok_def tf)
  next
    fix a e :: nat assume "a < 30" "e < 30" "b_dev (bufs t ! a) = 1" "b_dev (bufs t ! e) = 1"
      "b_blockno (bufs t ! a) = b_blockno (bufs t ! e)"
    then show "a = e" using un by (simp add: fl)
  qed (use q dl B b tf in auto)
  show "dirty (upd_buf b (\<lambda>k. k\<lparr>b_data := d\<rparr>) s) = dirty s" unfolding t_def[symmetric] by (simp add: dirty_def fl)
  have "cval t m = (if m = b_blockno (bufs s ! b) then d else cval s m)" for m
  proof (cases "cached s m")
    case None
    then show ?thesis using lb(5) by (auto simp: cval_def cached_def w tf)
  next
    case (Some a)
    then have wa: "b_blockno (bufs s ! a) = m" using cached_Some[OF ok, of m a] by (simp add: wanted_def)
    have ct: "cached t m = Some a" using Some by (simp add: cached_def w)
    show ?thesis
    proof (cases "a = b")
      case True
      then show ?thesis using wa ct by (simp add: cval_def nb)
    next
      case False
      then have "m \<noteq> b_blockno (bufs s ! b)" using lb(5) Some by (metis option.inject)
      then show ?thesis using False ct Some by (simp add: cval_def nb)
    qed
  qed
  then show "cval (upd_buf b (\<lambda>k. k\<lparr>b_data := d\<rparr>) s) = (cval s)(b_blockno (bufs s ! b) := d)"
    unfolding t_def[symmetric] by (simp add: fun_eq_iff)
qed

lemma bwrite_bc:
  assumes ok: "bc_ok B s" and b: "b \<in> B"
  shows "\<exists>t. bwrite b s = Ok () t \<and> bc_ok B t \<and> frame s t
     \<and> disk t = (disk s)[unat (b_blockno (bufs s ! b)) := b_data (bufs s ! b)]
     \<and> dwrites t = dwrites s @ [(unat (b_blockno (bufs s ! b)), b_data (bufs s ! b))]
     \<and> (\<forall>m. unat m < length (disk s) \<longrightarrow> cval t m = cval s m) \<and> dirty t = dirty s - {b_blockno (bufs s ! b)} \<and> (\<forall>a. a \<noteq> b \<longrightarrow> bufs t ! a = bufs s ! a)
     \<and> b_blockno (bufs t ! b) = b_blockno (bufs s ! b) \<and> b_data (bufs t ! b) = b_data (bufs s ! b) \<and> \<not> b_dirty (bufs t ! b)"
proof -
  obtain xs i where q: "quiet s" "mru s xs" "running s = Some i" "i < length (procs s)"
    and bo: "\<And>b. b < 30 \<Longrightarrow> buf_ok B (pid (procs s ! i)) (disk s) b (bufs s ! b)"
    and un: "\<And>b c. b < 30 \<Longrightarrow> c < 30 \<Longrightarrow> b_dev (bufs s ! b) = 1 \<Longrightarrow> b_dev (bufs s ! c) = 1 \<Longrightarrow>
          b_blockno (bufs s ! b) = b_blockno (bufs s ! c) \<Longrightarrow> b = c"
    and dl: "\<And>x. x \<in> set (disk s) \<Longrightarrow> length x = 512" and B: "B \<subseteq> {..<30}" and l: "length (bufs s) = 30"
    by (rule bc_okE[OF ok], rule that) assumption+
  note lb = locked_buf[OF ok b]
  let ?n = "unat (b_blockno (bufs s ! b))"
  define t where "t = (upd_buf b (\<lambda>k. k\<lparr>b_dirty := False, b_valid := True\<rparr>) s)\<lparr>disk := (disk s)[?n := b_data (bufs s ! b)],
      dwrites := dwrites s @ [(?n, b_data (bufs s ! b))]\<rparr>"
  have tf: "quiet t = quiet s" "running t = running s" "procs t = procs s" "disk t = (disk s)[?n := b_data (bufs s ! b)]"
    "dwrites t = dwrites s @ [(?n, b_data (bufs s ! b))]" "frame s t"
    by (simp_all add: t_def) (simp_all add: quiet_def running_def upd_buf_def)
  have r: "bwrite b s = Ok () t"
    unfolding t_def using bo[OF lb(1)] b lb q by (intro bwrite_ok[where i = i]) (auto simp: buf_ok_def)
  have nb: "bufs t ! a = (if a = b then (bufs s ! b)\<lparr>b_dirty := False, b_valid := True\<rparr> else bufs s ! a)" for a
    using lb by (simp add: t_def bufs_upd_buf)
  have m: "mru t xs"
    by (rule mru_keep[OF q(2)]) (use lb in \<open>auto simp: nb\<close>, simp_all add: t_def upd_buf_def)
  have fl: "b_dev (bufs t ! a) = b_dev (bufs s ! a)" "b_blockno (bufs t ! a) = b_blockno (bufs s ! a)"
    "b_data (bufs t ! a) = b_data (bufs s ! a)" for a by (simp_all add: nb)
  have w: "wanted 1 m t = wanted 1 m s" for m by (simp add: wanted_def fun_eq_iff fl)
  have other: "b_blockno (bufs s ! a) \<noteq> b_blockno (bufs s ! b)" if "a < 30" "a \<noteq> b" "b_dev (bufs s ! a) = 1" for a
    using un[OF that(1) lb(1)] that lb(2) by auto
  have "bc_ok B t"
  proof (rule bc_okI[OF _ m])
    fix a :: nat assume a: "a < 30"
    show "buf_ok B (pid (procs t ! i)) (disk t) a (bufs t ! a)"
    proof (cases "a = b")
      case True
      then show ?thesis using bo[OF a] b by (auto simp: nb buf_ok_def tf)
    next
      case False
      then have "b_dev (bufs s ! a) = 1 \<Longrightarrow> unat (b_blockno (bufs s ! a)) \<noteq> ?n" using other[OF a] by (simp add: word_unat_eq_iff)
      then show ?thesis using bo[OF a] False by (auto simp: nb buf_ok_def tf nth_list_update)
    qed
  next
    fix a e :: nat assume "a < 30" "e < 30" "b_dev (bufs t ! a) = 1" "b_dev (bufs t ! e) = 1"
      "b_blockno (bufs t ! a) = b_blockno (bufs t ! e)"
    then show "a = e" using un by (simp add: fl)
  next
    fix x assume "x \<in> set (disk t)"
    then show "length x = 512" using dl lb(8) set_update_subset_insert[of "disk s" ?n "b_data (bufs s ! b)"] by (auto simp: tf)
  qed (use q B tf in auto)
  moreover have "cval t m = cval s m" if "unat m < length (disk s)" for m
  proof (cases "cached s m")
    case None
    then have "m \<noteq> b_blockno (bufs s ! b)" using lb(5) by auto
    then have "unat m \<noteq> ?n" by (simp add: word_unat_eq_iff)
    then show ?thesis using None by (simp add: cval_def cached_def w tf)
  qed (simp add: cval_def cached_def w fl)
  moreover have "dirty t = dirty s - {b_blockno (bufs s ! b)}"
  proof -
    have dd: "b_dev (bufs s ! a) = 1" if "a < 30" "b_dirty (bufs s ! a)" for a
      using bo[OF that(1)] that(2) by (auto simp: buf_ok_def)
    have "b_dirty (bufs t ! a) \<longleftrightarrow> a \<noteq> b \<and> b_dirty (bufs s ! a)" for a by (simp add: nb)
    then have "dirty t = {b_blockno (bufs s ! a) | a. a < 30 \<and> a \<noteq> b \<and> b_dirty (bufs s ! a)}"
      by (simp add: dirty_def fl)
    moreover have oth: "b_blockno (bufs s ! a) \<noteq> b_blockno (bufs s ! b)" if "a < 30" "a \<noteq> b" "b_dirty (bufs s ! a)" for a
      using other dd that by simp
    have "{b_blockno (bufs s ! a) | a. a < 30 \<and> a \<noteq> b \<and> b_dirty (bufs s ! a)}
        = {b_blockno (bufs s ! a) | a. a < 30 \<and> b_dirty (bufs s ! a)} - {b_blockno (bufs s ! b)}"
      by (rule set_eqI) (use oth in \<open>fastforce\<close>)
    ultimately show ?thesis by (simp add: dirty_def)
  qed
  ultimately show ?thesis using r tf fl[of b] nb by (intro exI[of _ t]) simp
qed

lemma core_update:
  assumes "\<And>k. core (f k) = core k" "b < length xs"
  shows "core (xs[c := f (xs ! c)] ! b) = core (xs ! b)"
  using assms by (cases "c = b") simp_all

lemma move_front_same:
  assumes "length (bufs s) = 30"
  shows "same_bufs s (move_front b s)" "dwrites (move_front b s) = dwrites s"
proof -
  have n: "same_bufs s (set_next c v s) \<and> length (bufs (set_next c v s)) = 30 \<and> dwrites (set_next c v s) = dwrites s"
    and p: "same_bufs s (set_prev c v s) \<and> length (bufs (set_prev c v s)) = 30 \<and> dwrites (set_prev c v s) = dwrites s"
    if "length (bufs s) = 30" for c v s
    using that core_update[of "\<lambda>k. k\<lparr>b_next := v\<rparr>" _ "bufs s" c] core_update[of "\<lambda>k. k\<lparr>b_prev := v\<rparr>" _ "bufs s" c]
    by (simp_all add: same_bufs_def set_next_def set_prev_def upd_buf_def) (simp_all add: core_def)
  define R where "R = (\<lambda>t. same_bufs s t \<and> length (bufs t) = 30 \<and> dwrites t = dwrites s)"
  have sn: "R (set_next c v t)" and sp: "R (set_prev c v t)" if "R t" for c v t
    using that n[of t c v] p[of t c v] by (simp_all add: R_def same_bufs_def)
  have "R s" using assms by (simp add: R_def same_bufs_def)
  then have "R (move_front b s)"
    unfolding move_front_def link_front_def Let_def by (intro sn sp)
  then show "same_bufs s (move_front b s)" "dwrites (move_front b s) = dwrites s" by (simp_all add: R_def)
qed

lemma brelse_bc:
  assumes ok: "bc_ok B s" and b: "b \<in> B"
    and co: "b_dirty (bufs s ! b) \<or> b_data (bufs s ! b) = disk s ! unat (b_blockno (bufs s ! b))"
  shows "\<exists>t. brelse b s = Ok () t \<and> bc_ok (B - {b}) t \<and> frame s t \<and> disk t = disk s \<and> dwrites t = dwrites s
     \<and> cval t = cval s \<and> dirty t = dirty s
     \<and> (\<forall>a < 30. b_blockno (bufs t ! a) = b_blockno (bufs s ! a) \<and> b_data (bufs t ! a) = b_data (bufs s ! a)
          \<and> b_dirty (bufs t ! a) = b_dirty (bufs s ! a)) \<and> (\<forall>xs. mru s xs \<longrightarrow> mru t (b # remove1 b xs))"
proof -
  obtain xs i where q: "quiet s" "mru s xs" "running s = Some i" "i < length (procs s)"
    and bo: "\<And>b. b < 30 \<Longrightarrow> buf_ok B (pid (procs s ! i)) (disk s) b (bufs s ! b)"
    and un: "\<And>b c. b < 30 \<Longrightarrow> c < 30 \<Longrightarrow> b_dev (bufs s ! b) = 1 \<Longrightarrow> b_dev (bufs s ! c) = 1 \<Longrightarrow>
          b_blockno (bufs s ! b) = b_blockno (bufs s ! c) \<Longrightarrow> b = c"
    and dl: "\<And>x. x \<in> set (disk s) \<Longrightarrow> length x = 512" and B: "B \<subseteq> {..<30}" and l: "length (bufs s) = 30"
    by (rule bc_okE[OF ok], rule that) assumption+
  note lb = locked_buf[OF ok b]
  define g where "g = (\<lambda>k :: buf. k\<lparr>b_lock := (b_lock k)\<lparr>sl_locked := False, sl_pid := 0\<rparr>, b_refcnt := 0\<rparr>)"
  define u where "u = upd_buf b (\<lambda>k. k\<lparr>b_refcnt := 0\<rparr>)
     (wakeup1 (Some (ChBufLock b)) (upd_buf b (\<lambda>k. k\<lparr>b_lock := (b_lock k)\<lparr>sl_locked := False, sl_pid := 0\<rparr>\<rparr>) s))"
  define t where "t = move_front b u"
  have ub: "bufs u = (bufs s)[b := g (bufs s ! b)]"
    using lb by (simp add: u_def upd_buf_def g_def)
  have uf: "disk u = disk s" "dwrites u = dwrites s" "frame s u" "length (bufs u) = 30" "head_next u = head_next s" "head_prev u = head_prev s"
    using lb by (simp_all add: u_def) (simp_all add: upd_buf_def wakeup1_def frame_def rest_def)
  have r: "brelse b s = Ok () t"
    unfolding t_def u_def using bo[OF lb(1)] b lb q by (intro brelse_ok[where i = i]) (auto simp: buf_ok_def)
  have sb: "same_bufs u t" "dwrites t = dwrites s" using move_front_same[of u b] uf by (simp_all add: t_def)
  have ft: "frame s t" using uf(3) by (simp add: t_def)
  have nu: "bufs u ! a = (if a = b then g (bufs s ! b) else bufs s ! a)" for a using lb by (simp add: ub nth_list_update)
  have fl: "b_dev (bufs u ! a) = b_dev (bufs s ! a)" "b_blockno (bufs u ! a) = b_blockno (bufs s ! a)"
    "b_data (bufs u ! a) = b_data (bufs s ! a)" "b_dirty (bufs u ! a) = b_dirty (bufs s ! a)"
    "b_next (bufs u ! a) = b_next (bufs s ! a)" "b_prev (bufs u ! a) = b_prev (bufs s ! a)" for a
    by (simp_all add: nu g_def)
  have mu: "mru u ys" if "mru s ys" for ys
    by (rule mru_keep[OF that]) (use uf fl in simp_all)
  have mt: "mru t (b # remove1 b ys)" if "mru s ys" for ys
    unfolding t_def by (rule move_front_mru[OF mu[OF that] lb(1)])
  have w: "wanted 1 m u = wanted 1 m s" for m by (simp add: wanted_def fun_eq_iff fl)
  have cu: "cval u = cval s" "dirty u = dirty s" by (simp_all add: fun_eq_iff cval_def cached_def w fl uf dirty_def split: option.splits)
  note fd = frameD[OF ft]
  have "bc_ok (B - {b}) t"
  proof (rule bc_okI[OF _ mt[OF q(2)]])
    fix a :: nat assume a: "a < 30"
    have "buf_ok (B - {b}) (pid (procs s ! i)) (disk s) a (bufs u ! a)"
      using bo[OF a] co b lb by (cases "a = b") (auto simp: nu buf_ok_def g_def)
    then show "buf_ok (B - {b}) (pid (procs t ! i)) (disk t) a (bufs t ! a)"
      using same_bufsD(4,5)[OF sb(1)] a uf fd(8)[OF q(4)] by simp
  next
    fix a e :: nat assume "a < 30" "e < 30" "b_dev (bufs t ! a) = 1" "b_dev (bufs t ! e) = 1"
      "b_blockno (bufs t ! a) = b_blockno (bufs t ! e)"
    then show "a = e" using un same_bufsD(6,7)[OF sb(1)] by (simp add: fl)
  qed (use q dl B b fd same_bufsD(4)[OF sb(1)] uf in auto)
  then show ?thesis
    using r ft sb same_bufsD[OF sb(1)] uf cu fl mt by (intro exI[of _ t]) (simp add: fun_eq_iff)
qed

text \<open>Reading a block, cached or not.\<close>

lemma bread_bc:
  assumes ok: "bc_ok B s" and n: "unat n < length (disk s)" and nB: "\<And>b. cached s n = Some b \<Longrightarrow> b \<notin> B"
    and fr: "cached s n \<noteq> None \<or> (\<exists>e < 30. e \<notin> B \<and> \<not> b_dirty (bufs s ! e))"
  shows "\<exists>b t. bread 1 n s = Ok b t \<and> b < 30 \<and> b \<notin> B \<and> bc_ok (insert b B) t \<and> frame s t
     \<and> disk t = disk s \<and> dwrites t = dwrites s
     \<and> cval t = cval s \<and> dirty t = dirty s \<and> (\<forall>a. a \<noteq> b \<longrightarrow> bufs t ! a = bufs s ! a)
     \<and> b_blockno (bufs t ! b) = n \<and> b_data (bufs t ! b) = cval s n \<and> (b_dirty (bufs t ! b) \<longleftrightarrow> n \<in> dirty s)"
proof -
  have "\<exists>b t. bread 1 n s = Ok b t \<and> b < 30 \<and> b \<notin> B \<and> bc_ok (insert b B) t \<and> frame s t
     \<and> disk t = disk s \<and> dwrites t = dwrites s
     \<and> cval t = cval s \<and> dirty t = dirty s \<and> (\<forall>a. a \<noteq> b \<longrightarrow> bufs t ! a = bufs s ! a)
     \<and> b_blockno (bufs t ! b) = n \<and> b_data (bufs t ! b) = cval s n"
  proof (cases "cached s n")
    case None
    then show ?thesis using bread_uncached[OF ok None n] fr by blast
  next
    case (Some b)
    then have "b < 30" using cached_Some[OF ok] by auto
    then show ?thesis using bread_cached[OF ok Some nB[OF Some]] nB[OF Some] by blast
  qed
  then obtain b t where t: "bread 1 n s = Ok b t" "b < 30" "b \<notin> B" "bc_ok (insert b B) t" "frame s t"
    "disk t = disk s" "dwrites t = dwrites s"
    "cval t = cval s" "dirty t = dirty s" "\<forall>a. a \<noteq> b \<longrightarrow> bufs t ! a = bufs s ! a"
    "b_blockno (bufs t ! b) = n" "b_data (bufs t ! b) = cval s n" by blast
  have "b_dirty (bufs t ! b) \<longleftrightarrow> n \<in> dirty t"
  proof
    assume "n \<in> dirty t"
    then obtain a where a: "a < 30" "b_dirty (bufs t ! a)" "b_blockno (bufs t ! a) = n" by (auto simp: dirty_def)
    have dv: "b_dev (bufs t ! a) = 1" using t(4) a(1,2) by (auto simp: bc_ok_def buf_ok_def)
    then have "cached t n = Some a" using cached_Some[OF t(4), of n a] a by (simp add: wanted_def)
    moreover have "cached t n = Some b" using locked_buf(5)[OF t(4), of b] t(11) by simp
    ultimately show "b_dirty (bufs t ! b)" using a by simp
  qed (use t in \<open>auto simp: dirty_def\<close>)
  then show ?thesis using t by (intro exI[of _ b] exI[of _ t]) simp
qed

section \<open>The cache at boot\<close>

text \<open>What \<open>binit\<close> keeps: unassigned buffers, of which the first \<open>k\<close> have a free sleep lock.\<close>

definition unassigned :: "nat \<Rightarrow> kernel \<Rightarrow> kernel \<Rightarrow> bool" where
  "unassigned k s0 s \<longleftrightarrow> length (bufs s) = 30 \<and> (\<forall>b < 30. b_dev (bufs s ! b) = 0 \<and> \<not> b_dirty (bufs s ! b)
     \<and> b_refcnt (bufs s ! b) = 0) \<and> (\<forall>b < k. \<not> sl_locked (b_lock (bufs s ! b)))
     \<and> quiet s \<and> running s = running s0 \<and> procs s = procs s0 \<and> disk s = disk s0 \<and> logs s = logs s0"

lemma quiet_initlock: "quiet s \<Longrightarrow> quiet (s\<lparr>mach := initlock L nm (mach s)\<rparr>)"
  by (auto simp: quiet_def initlock_def lk_free_def)

lemma running_initlock [simp]: "running (s\<lparr>mach := initlock L nm (mach s)\<rparr>) = running s"
  by (simp add: running_def initlock_def)

lemma unassigned_upd:
  assumes "unassigned k s0 s" "\<And>x. b_dev (f x) = b_dev x \<and> b_dirty (f x) = b_dirty x \<and> b_refcnt (f x) = b_refcnt x
      \<and> (sl_locked (b_lock (f x)) \<longrightarrow> sl_locked (b_lock x))"
  shows "unassigned k s0 (upd_buf b f s)"
proof -
  have "bufs (upd_buf b f s) ! c = bufs s ! c \<or> bufs (upd_buf b f s) ! c = f (bufs s ! c)" for c
    by (cases "c = b \<and> b < length (bufs s)") (auto simp: upd_buf_def nth_list_update list_update_beyond)
  then show ?thesis using assms unfolding unassigned_def by simp metis
qed

lemma unassigned_links:
  assumes "unassigned k s0 s"
  shows "unassigned k s0 (set_next b v s)" "unassigned k s0 (set_prev b v s)"
  using assms unassigned_upd[OF assms, of "\<lambda>x. x\<lparr>b_next := v\<rparr>" b] unassigned_upd[OF assms, of "\<lambda>x. x\<lparr>b_prev := v\<rparr>" b]
  by (simp_all add: set_next_def set_prev_def) (simp_all add: unassigned_def quiet_def running_def)

lemma unassigned_initsleep:
  assumes "unassigned k s0 s" "k < 30"
  shows "unassigned (Suc k) s0 (initsleeplock (BufSl k) nm s)"
proof -
  let ?u = "s\<lparr>mach := initlock (BufLk k) ''sleep lock'' (mach s)\<rparr>"
  have u: "unassigned k s0 ?u" using assms(1) quiet_initlock by (simp add: unassigned_def)
  have v: "unassigned k s0 (upd_buf k (\<lambda>x. x\<lparr>b_lock := \<lparr>sl_locked = False, sl_name = nm, sl_pid = 0\<rparr>\<rparr>) ?u)"
    by (rule unassigned_upd[OF u]) simp
  have e: "initsleeplock (BufSl k) nm s = upd_buf k (\<lambda>x. x\<lparr>b_lock := \<lparr>sl_locked = False, sl_name = nm, sl_pid = 0\<rparr>\<rparr>) ?u"
    by (simp add: initsleeplock_def upd_buf_def)
  have "\<not> sl_locked (b_lock (bufs (initsleeplock (BufSl k) nm s) ! k))"
    using assms by (simp add: e bufs_upd_buf unassigned_def)
  then show ?thesis using v unfolding e unassigned_def by (simp add: less_Suc_eq)
qed

lemma binit_unassigned:
  assumes "unassigned 0 s s"
  shows "unassigned 30 s (binit s)"
proof -
  let ?s0 = "s\<lparr>mach := initlock BcacheLk ''bcache'' (mach s), head_prev := 30, head_next := 30\<rparr>"
  have "quiet ?s0" using quiet_initlock[of s BcacheLk "''bcache''"] quiet_cong[of ?s0 "s\<lparr>mach := initlock BcacheLk ''bcache'' (mach s)\<rparr>"] assms
    by (simp add: unassigned_def)
  moreover have "running ?s0 = running s" by (simp add: running_def initlock_def)
  ultimately have 0: "unassigned 0 s ?s0" using assms by (simp add: unassigned_def)
  have "unassigned n s (fold binit_step [0..<n] ?s0)" if "n \<le> 30" for n
    using that
  proof (induction n)
    case (Suc n)
    then show ?case
      by (simp add: binit_step_def Let_def) (intro unassigned_links unassigned_initsleep, simp_all)
  qed (use 0 in simp)
  then show ?thesis by (simp add: binit_def Let_def)
qed

lemma bc_ok_start:
  assumes "unassigned 30 s0 s" "mru s xs" "running s0 = Some i" "i < length (procs s0)" "\<And>x. x \<in> set (disk s0) \<Longrightarrow> length x = 512"
  shows "bc_ok {} s" "cval s n = disk s ! unat n" "dirty s = {}"
proof -
  show "bc_ok {} s"
    by (rule bc_okI[OF _ assms(2)]) (use assms in \<open>auto simp: unassigned_def buf_ok_def\<close>)
  have "cached s n = None" using assms(1) by (simp add: cached_None wanted_def unassigned_def)
  then show "cval s n = disk s ! unat n" by (simp add: cval_def)
  show "dirty s = {}" using assms(1) by (auto simp: dirty_def unassigned_def)
qed

section \<open>The cache keeps the most recently used blocks\<close>

text \<open>The list through \<open>prev\<close> and \<open>next\<close> is the order of use: \<open>binit\<close> links all buffers into one
  doubly linked ring, and releasing the last reference to a buffer unlinks it and puts it first, so that
  the pointers again form one ring of all buffers, the others in their old order.\<close>

theorem brelse_most_recent:
  assumes "length (bufs s0) = NBUF" "bc_ok B s" "mru s xs" "b \<in> B"
    "b_dirty (bufs s ! b) \<or> b_data (bufs s ! b) = disk s ! unat (b_blockno (bufs s ! b))"
  shows "mru (binit s0) (rev [0..<NBUF])
     \<and> (\<exists>t. brelse b s = Ok () t \<and> mru t (b # remove1 b xs) \<and> bc_ok (B - {b}) t)"
  using binit_mru[OF assms(1)] brelse_bc[OF assms(2,4,5)] assms(3) by blast

text \<open>\<open>bget\<close> implements a least-recently-used cache: a block that is cached is found; otherwise the
  buffer reused is the last one in the order of use that is neither referenced nor dirty, and the block is
  assigned to it; when there is none, \<open>bget\<close> panics.\<close>

theorem bget_least_recent:
  assumes "bc_ok B s" "mru s xs" "\<And>b. cached s n = Some b \<Longrightarrow> b \<notin> B"
  shows "case cached s n of
       Some b \<Rightarrow> \<exists>t. bget 1 n s = Ok b t \<and> b_refcnt (bufs t ! b) = 1 \<and> mru t xs
     | None \<Rightarrow> (case find (\<lambda>b. b_refcnt (bufs s ! b) = 0 \<and> \<not> b_dirty (bufs s ! b)) (rev xs) of
           Some b \<Rightarrow> \<exists>t. bget 1 n s = Ok b t \<and> cached t n = Some b \<and> \<not> b_valid (bufs t ! b) \<and> mru t xs
         | None \<Rightarrow> bget 1 n s = Panic ''bget: no buffers'')"
proof -
  obtain ys i where q: "quiet s" "mru s ys" "running s = Some i" "i < length (procs s)"
    and bo: "\<And>b. b < 30 \<Longrightarrow> buf_ok B (pid (procs s ! i)) (disk s) b (bufs s ! b)"
    and un: "\<And>b c. b < 30 \<Longrightarrow> c < 30 \<Longrightarrow> b_dev (bufs s ! b) = 1 \<Longrightarrow> b_dev (bufs s ! c) = 1 \<Longrightarrow>
          b_blockno (bufs s ! b) = b_blockno (bufs s ! c) \<Longrightarrow> b = c"
    and dl: "\<And>x. x \<in> set (disk s) \<Longrightarrow> length x = 512" and B: "B \<subseteq> {..<30}" and l: "length (bufs s) = 30"
    by (rule bc_okE[OF assms(1)], rule that) assumption+
  have re: "(\<lambda>b. b_refcnt (bufs s ! b) = 0 \<and> \<not> b_dirty (bufs s ! b)) = reusable s" by (simp add: reusable_def fun_eq_iff)
  note fm = find_mru[OF assms(1,2), of n]
  show ?thesis
  proof (cases "cached s n")
    case (Some b)
    then have b: "b < 30" "b_dev (bufs s ! b) = 1" "b \<notin> B" using cached_Some[OF assms(1)] assms(3) by (auto simp: wanted_def)
    then have k: "\<not> sl_locked (b_lock (bufs s ! b))" "b_refcnt (bufs s ! b) = 0" using bo[OF b(1)] by (auto simp: buf_ok_def)
    let ?t = "upd_buf b (\<lambda>k. locked_by (pid (procs s ! i)) (k\<lparr>b_refcnt := b_refcnt k + 1\<rparr>)) s"
    have "bget 1 n s = Ok b ?t" using bget_hit[OF q(1,3) assms(2)] fm Some k by simp
    moreover have "mru ?t xs" by (rule mru_upd_buf[OF assms(2)]) (simp add: locked_by_def)
    moreover have "b_refcnt (bufs ?t ! b) = 1" using b l k by (simp add: bufs_upd_buf) (simp add: locked_by_def)
    ultimately show ?thesis using Some by auto
  next
    case None
    show ?thesis
    proof (cases "find (reusable s) (rev xs)")
      case N: None
      then show ?thesis using None bget_full[OF q(1) assms(2)] fm by (simp add: re)
    next
      case (Some b)
      then have b: "b \<in> set xs" "reusable s b" by (metis find_Some_iff nth_mem set_rev)+
      then have b30: "b < 30" using assms(2) by (auto simp: mru_def)
      have k: "\<not> sl_locked (b_lock (bufs s ! b))" using bo[OF b30] b(2) by (auto simp: buf_ok_def reusable_def split: if_splits)
      let ?t = "upd_buf b (\<lambda>k. locked_by (pid (procs s ! i)) (assigned 1 n k)) s"
      have nb: "bufs ?t ! a = (if a = b then locked_by (pid (procs s ! i)) (assigned 1 n (bufs s ! b)) else bufs s ! a)" for a
        using b30 l by (simp add: bufs_upd_buf)
      have "bget 1 n s = Ok b ?t" using bget_evict[OF q(1,3) assms(2) _ Some k] fm None by simp
      moreover have "mru ?t xs" by (rule mru_upd_buf[OF assms(2)]) (simp add: locked_by_def assigned_def)
      moreover have "\<not> b_valid (bufs ?t ! b)" unfolding nb by (simp add: locked_by_def assigned_def)
      moreover have "cached ?t n = Some b"
      proof -
        have "wanted 1 n ?t a \<longleftrightarrow> a = b" if "a < 30" for a
          using None that by (auto simp: cached_None wanted_def nb) (auto simp: locked_by_def assigned_def)
        then have "find (wanted 1 n ?t) [0..<30] = find (\<lambda>a. a = b) [0..<30]" by (intro find_cong) auto
        moreover have "find (\<lambda>a. a = b) [0..<30] = Some b"
          using b30 by (cases "find (\<lambda>a. a = b) [0..<30]") (auto simp: find_None_iff find_Some_iff)
        ultimately show ?thesis by (simp add: cached_def)
      qed
      ultimately show ?thesis using None Some by (simp add: re)
    qed
  qed
qed

text \<open>(C24) The cache is coherent: \<open>bread\<close> returns a locked buffer with the current contents of the block, which
  is what the cache holds for it and otherwise what is on disk; neither the contents of any block nor the
  disk nor the set of pinned blocks changes, even when another block is evicted, and the invariant (one buffer
  per block, clean buffers agree with the disk, the ring is intact) is kept.\<close>

theorem bread_coherent:
  assumes "bc_ok B s" "unat n < length (disk s)" "\<And>b. cached s n = Some b \<Longrightarrow> b \<notin> B"
    "cached s n \<noteq> None \<or> (\<exists>e < NBUF. e \<notin> B \<and> \<not> b_dirty (bufs s ! e))"
  shows "\<exists>b t. bread 1 n s = Ok b t \<and> b_blockno (bufs t ! b) = n \<and> b_data (bufs t ! b) = cval s n
     \<and> sl_locked (b_lock (bufs t ! b)) \<and> bc_ok (insert b B) t \<and> cval t = cval s \<and> dirty t = dirty s \<and> disk t = disk s"
proof -
  obtain b t where t: "bread 1 n s = Ok b t" "b < 30" "bc_ok (insert b B) t" "cval t = cval s" "dirty t = dirty s"
    "disk t = disk s" "b_blockno (bufs t ! b) = n" "b_data (bufs t ! b) = cval s n"
    using bread_bc[OF assms] by blast
  have "sl_locked (b_lock (bufs t ! b))" using t(2,3) by (auto simp: bc_ok_def buf_ok_def)
  then show ?thesis using t by blast
qed

text \<open>A kernel that has just booted on a given disk.\<close>

definition boot_on :: "block list \<Rightarrow> kernel" where
  "boot_on D = binit (calm\<lparr>disk := D\<rparr>)"

lemma boot_on_ok:
  assumes "\<And>x. x \<in> set D \<Longrightarrow> length x = 512"
  shows "bc_ok {} (boot_on D)" "mru (boot_on D) (rev [0..<30])" "cval (boot_on D) n = D ! unat n" "dirty (boot_on D) = {}"
    "disk (boot_on D) = D" "logs (boot_on D) = logs calm" "unassigned 30 (calm\<lparr>disk := D\<rparr>) (boot_on D)"
proof -
  let ?s = "calm\<lparr>disk := D\<rparr>"
  have f: "quiet ?s \<and> running ?s = Some 0" by (rule quiet_frame) simp
  have b: "bufs calm = bufs boot_kernel" by (simp add: calm_def one_running_def)
  have "unassigned 0 ?s ?s" using f by (simp add: unassigned_def b boot_kernel_def sleeplock0_def)
  then show u: "unassigned 30 ?s (boot_on D)" unfolding boot_on_def by (rule binit_unassigned)
  have l: "length (bufs ?s) = 30" by (simp add: b boot_kernel_def)
  show m: "mru (boot_on D) (rev [0..<30])" unfolding boot_on_def by (rule binit_mru[OF l])
  show d: "disk (boot_on D) = D" "logs (boot_on D) = logs calm" using u by (simp_all add: unassigned_def)
  show "bc_ok {} (boot_on D)" "cval (boot_on D) n = D ! unat n" "dirty (boot_on D) = {}"
    using bc_ok_start[OF u m, of 0] f assms d by simp_all
qed

definition cache_demo :: kernel where
  "cache_demo = boot_on (replicate 100 (replicate BSIZE 7))"

lemma cache_demo_ok:
  "bc_ok {} cache_demo" "mru cache_demo (rev [0..<30])" "cval cache_demo n = disk cache_demo ! unat n" "dirty cache_demo = {}"
  "disk cache_demo = replicate 100 (replicate 512 7)" "unassigned 30 (calm\<lparr>disk := replicate 100 (replicate 512 7)\<rparr>) cache_demo"
  using boot_on_ok[of "replicate 100 (replicate 512 7)"] by (simp_all add: cache_demo_def)

lemma cache_demo_empty: "\<exists>e<30. e \<notin> {} \<and> \<not> b_dirty (bufs cache_demo ! e)" "cached cache_demo 5 = None"
  using cache_demo_ok(6) by (auto simp: unassigned_def cached_None wanted_def intro!: exI[of _ 0])

lemma cache_demo_read: "\<exists>b t. bread 1 5 cache_demo = Ok b t \<and> b < 30 \<and> bc_ok {b} t \<and> disk t = disk cache_demo
   \<and> b_blockno (bufs t ! b) = 5 \<and> b_data (bufs t ! b) = replicate 512 7"
  using bread_bc[OF cache_demo_ok(1), of 5] cache_demo_empty by (fastforce simp: cache_demo_ok)

theorem bread_coherent_witness:
  "\<exists>b t. bread 1 5 cache_demo = Ok b t \<and> b_data (bufs t ! b) = replicate BSIZE 7"
  using bread_coherent[OF cache_demo_ok(1), of 5] cache_demo_empty by (fastforce simp: cache_demo_ok)

theorem bget_least_recent_witness:
  "\<exists>t. bget 1 5 cache_demo = Ok 0 t \<and> cached t 5 = Some 0"
proof -
  have u: "unassigned 30 (calm\<lparr>disk := replicate 100 (replicate 512 7)\<rparr>) cache_demo" by (rule cache_demo_ok)
  have "find (\<lambda>b. b_refcnt (bufs cache_demo ! b) = 0 \<and> \<not> b_dirty (bufs cache_demo ! b)) (rev (rev [0..<30])) = Some 0"
    using u by (simp add: unassigned_def upt_conv_Cons)
  then show ?thesis
    using bget_least_recent[OF cache_demo_ok(1,2), of 5] cache_demo_empty(2) by auto
qed

theorem brelse_most_recent_witness:
  "\<exists>b s t. bread 1 5 cache_demo = Ok b s \<and> brelse b s = Ok () t \<and> bc_ok {} t \<and> (\<exists>xs. mru t (b # xs))"
proof -
  obtain b s where s: "bread 1 5 cache_demo = Ok b s" "b < 30" "bc_ok {b} s" "disk s = disk cache_demo"
    "b_blockno (bufs s ! b) = 5" "b_data (bufs s ! b) = replicate 512 7" using cache_demo_read by blast
  obtain xs where xs: "mru s xs" using s(3) by (auto simp: bc_ok_def)
  have "b_data (bufs s ! b) = disk s ! unat (b_blockno (bufs s ! b))" using s by (simp add: cache_demo_ok)
  moreover have "length (bufs calm) = 30" by (simp add: calm_def one_running_def boot_kernel_def)
  ultimately show ?thesis using brelse_most_recent[of calm "{b}" s xs b] s xs by auto
qed

end
