(* ===== verification/Commit.thy ===== *)
theory Commit
  imports Log Bcache
begin

text \<open>
  The log on top of the buffer cache of \<open>Bcache\<close>: the exact effect of \<open>write_log\<close>, \<open>write_head\<close>, \<open>install_trans\<close>, \<open>commit\<close>,
  \<open>read_head\<close>, \<open>recover_from_log\<close>, \<open>begin_op\<close>, \<open>log_write\<close> and \<open>end_op\<close> on the disk, on the sequence of block writes
  (\<open>dwrites\<close>) and on the view of the disk through the cache (\<open>put_blocks\<close>), from states in which the log invariant
  \<open>log_ok\<close> holds.
\<close>

section \<open>Integers in a block\<close>

lemma length_put32 [simp]: "length (put32 d k v) = length d"
  by (simp add: put32_def)

lemma get32_put32 [simp]:
  assumes "k + 4 \<le> length d"
  shows "get32 (put32 d k v) k = v"
proof (rule bit_word_eqI)
  fix n assume "n < LENGTH(32)"
  then have n: "n < 32" "n div 8 < 4" by auto
  then have u: "unat (of_nat (n div 8) :: 32 word) = n div 8" by (simp add: unat_of_nat32)
  have "put32 d k v ! (k + i) = byte_of v i" if "i < 4" for i
    using that assms by (auto simp: put32_def nth_list_update less_Suc_eq numeral_eq_Suc)
  then show "bit (get32 (put32 d k v) k) n = bit v n"
    using n u by (simp add: get32_def bit_load32 bit_byte_of)
qed

lemma get32_cong:
  assumes "\<And>i. i < 4 \<Longrightarrow> d ! (k + i) = e ! (k + i)"
  shows "get32 d k = get32 e k"
  unfolding get32_def by (rule load32_cong) (simp add: assms unat_of_nat32)

lemma get32_put32_other:
  assumes "k + 4 \<le> j \<or> j + 4 \<le> k"
  shows "get32 (put32 d k v) j = get32 d j"
  by (rule get32_cong) (use assms in \<open>auto simp: put32_def nth_list_update_neq\<close>)

text \<open>The log header on disk: what \<open>write_head\<close> writes, \<open>read_head\<close> reads back.\<close>

lemma header_bytes_get:
  assumes "length d = 512" "nat (sint n) \<le> 30"
  shows "length (header_bytes n bs d) = 512" "get32 (header_bytes n bs d) 0 = n"
    "i < nat (sint n) \<Longrightarrow> get32 (header_bytes n bs d) (4 + 4 * i) = bs ! i"
proof -
  define F where "F = (\<lambda>i d. put32 d (4 + 4 * i) (bs ! i))"
  have l: "length (fold F xs d) = length d" for xs d by (induction xs arbitrary: d) (simp_all add: F_def)
  have o: "get32 (fold F xs d) j = get32 d j" if "\<And>i. i \<in> set xs \<Longrightarrow> j + 4 \<le> 4 + 4 * i \<or> 4 + 4 * i + 4 \<le> j" for xs d j
    using that
  proof (induction xs arbitrary: d)
    case (Cons x xs)
    have "get32 (F x d) j = get32 d j" unfolding F_def by (rule get32_put32_other) (use Cons.prems[of x] in auto)
    then show ?case using Cons by simp
  qed simp
  have h: "header_bytes n bs d = fold F [0..<nat (sint n)] (put32 d 0 n)" by (simp add: header_bytes_def F_def)
  show "length (header_bytes n bs d) = 512" by (simp add: h l assms)
  show "get32 (header_bytes n bs d) 0 = n" unfolding h using assms by (subst o) auto
  show "get32 (header_bytes n bs d) (4 + 4 * i) = bs ! i" if i: "i < nat (sint n)"
  proof -
    have "[0..<nat (sint n)] = [0..<i] @ i # [Suc i..<nat (sint n)]" using i upt_add_eq_append[of 0 i "nat (sint n) - i"] by (simp add: upt_conv_Cons)
    then have "header_bytes n bs d = fold F [Suc i..<nat (sint n)] (F i (fold F [0..<i] (put32 d 0 n)))" by (simp add: h)
    moreover have "get32 (fold F [Suc i..<nat (sint n)] e) (4 + 4 * i) = get32 e (4 + 4 * i)" for e by (rule o) auto
    moreover have "get32 (F i e) (4 + 4 * i) = bs ! i" if "length e = 512" for e
      unfolding F_def by (rule get32_put32) (use that i assms in auto)
    ultimately show ?thesis by (simp add: l assms)
  qed
qed

section \<open>Copying a block\<close>

lemma dirty_cached:
  assumes "bc_ok B s"
  shows "b < 30 \<Longrightarrow> b_dirty (bufs s ! b) \<Longrightarrow> b_dev (bufs s ! b) = 1" "n \<in> dirty s \<Longrightarrow> cached s n \<noteq> None"
    "n \<in> dirty s \<Longrightarrow> unat n < length (disk s)"
proof -
  have bo: "\<exists>p. buf_ok B p (disk s) b (bufs s ! b)" if "b < 30" for b using assms that by (auto simp: bc_ok_def)
  show 1: "b < 30 \<Longrightarrow> b_dirty (bufs s ! b) \<Longrightarrow> b_dev (bufs s ! b) = 1" for b using bo[of b] by (auto simp: buf_ok_def)
  show "n \<in> dirty s \<Longrightarrow> cached s n \<noteq> None" using 1 by (auto simp: dirty_def cached_None wanted_def)
  show "n \<in> dirty s \<Longrightarrow> unat n < length (disk s)" using bo by (force simp: dirty_def buf_ok_def)
qed

lemma free_buffer:
  assumes ok: "bc_ok B s" and c: "card B + card (dirty s) < 30"
  shows "\<exists>e < 30. e \<notin> B \<and> \<not> b_dirty (bufs s ! e)"
proof (rule ccontr)
  assume n: "\<not> ?thesis"
  define D where "D = {b. b < 30 \<and> b_dirty (bufs s ! b)}"
  have un: "\<And>b c. b < 30 \<Longrightarrow> c < 30 \<Longrightarrow> b_dev (bufs s ! b) = 1 \<Longrightarrow> b_dev (bufs s ! c) = 1 \<Longrightarrow>
          b_blockno (bufs s ! b) = b_blockno (bufs s ! c) \<Longrightarrow> b = c" and B: "B \<subseteq> {..<30}"
    using ok by (simp_all add: bc_ok_def)
  have "inj_on (\<lambda>b. b_blockno (bufs s ! b)) D" using un dirty_cached(1)[OF ok] by (auto simp: D_def inj_on_def)
  moreover have "(\<lambda>b. b_blockno (bufs s ! b)) ` D = dirty s" by (auto simp: D_def dirty_def)
  ultimately have d: "card D = card (dirty s)" by (metis card_image)
  have "{..<30} \<subseteq> B \<union> D" using n by (auto simp: D_def)
  then have "30 \<le> card (B \<union> D)" using card_mono[of "B \<union> D" "{..<30}"] finite_subset[OF B] by (simp add: D_def)
  then show False using card_Un_le[of B D] d c by simp
qed

lemma cval_clean:
  assumes ok: "bc_ok {} s" and "n \<notin> dirty s"
  shows "cval s n = disk s ! unat n"
proof (cases "cached s n")
  case (Some b)
  then have b: "b < 30" "b_dev (bufs s ! b) = 1" "b_blockno (bufs s ! b) = n" using cached_Some[OF ok] by (auto simp: wanted_def)
  then obtain p where "buf_ok {} p (disk s) b (bufs s ! b)" using ok by (auto simp: bc_ok_def)
  moreover have "\<not> b_dirty (bufs s ! b)" using assms(2) b by (auto simp: dirty_def)
  ultimately show ?thesis using Some b by (auto simp: cval_def buf_ok_def)
qed (simp add: cval_def)

lemma read_two:
  assumes ok: "bc_ok {} s" and xy: "x \<noteq> y" "unat x < length (disk s)" "unat y < length (disk s)"
    and c: "card (dirty s) < 30" "y \<in> dirty s \<or> card (dirty s) < 29"
  shows "\<exists>a b u t. bread 1 x s = Ok a u \<and> bread 1 y u = Ok b t \<and> a \<noteq> b \<and> bc_ok {a, b} t \<and> frame s u \<and> frame s t \<and> disk t = disk s
     \<and> dwrites t = dwrites s \<and> cval t = cval s \<and> dirty t = dirty s
     \<and> b_blockno (bufs t ! a) = x \<and> b_data (bufs t ! a) = cval s x
     \<and> b_blockno (bufs t ! b) = y \<and> b_data (bufs t ! b) = cval s y \<and> (b_dirty (bufs t ! a) \<longleftrightarrow> x \<in> dirty s) \<and> (b_dirty (bufs t ! b) \<longleftrightarrow> y \<in> dirty s)"
proof -
  have "\<exists>e < 30. e \<notin> {} \<and> \<not> b_dirty (bufs s ! e)" by (rule free_buffer[OF ok]) (use c in simp)
  then obtain a u where u: "bread 1 x s = Ok a u" "a < 30" "bc_ok {a} u" "frame s u"
     "disk u = disk s" "dwrites u = dwrites s" "cval u = cval s" "dirty u = dirty s"
     "b_blockno (bufs u ! a) = x" "b_data (bufs u ! a) = cval s x" "b_dirty (bufs u ! a) \<longleftrightarrow> x \<in> dirty s"
    using bread_bc[OF ok xy(2)] by auto
  have fr: "cached u y \<noteq> None \<or> (\<exists>e < 30. e \<notin> {a} \<and> \<not> b_dirty (bufs u ! e))"
    using c(2)
  proof
    assume "y \<in> dirty s"
    then show ?thesis using dirty_cached(2)[OF u(3)] u by simp
  next
    assume "card (dirty s) < 29"
    then show ?thesis using free_buffer[OF u(3)] u by simp
  qed
  have nb: "b \<notin> {a}" if "cached u y = Some b" for b
    using that cached_Some[OF u(3)] u xy(1) by (auto simp: wanted_def)
  have yu: "unat y < length (disk u)" using xy u by simp
  obtain b t where t: "bread 1 y u = Ok b t" "b < 30" "b \<notin> {a}" "bc_ok (insert b {a}) t" "frame u t" "disk t = disk u"
     "dwrites t = dwrites u" "cval t = cval u" "dirty t = dirty u" "\<forall>a'. a' \<noteq> b \<longrightarrow> bufs t ! a' = bufs u ! a'"
     "b_blockno (bufs t ! b) = y" "b_data (bufs t ! b) = cval u y" "b_dirty (bufs t ! b) \<longleftrightarrow> y \<in> dirty u"
    using bread_bc[OF u(3) yu nb fr] by blast
  have ba: "bufs t ! a = bufs u ! a" using t(3,10) by simp
  have "{a, b} = insert b {a}" by blast
  then show ?thesis
    using t u ba frame_trans[OF u(4) t(5)] by (intro exI[of _ a] exI[of _ b] exI[of _ u] exI[of _ t]) simp
qed

text \<open>Releasing two buffers that are clean or pinned.\<close>

lemma release_two:
  assumes ok: "bc_ok {a, b} s" and ab: "a \<noteq> b"
    and co: "\<And>c. c \<in> {a, b} \<Longrightarrow> b_dirty (bufs s ! c) \<or> b_data (bufs s ! c) = disk s ! unat (b_blockno (bufs s ! c))"
  shows "\<exists>u t. brelse a s = Ok () u \<and> brelse b u = Ok () t \<and> bc_ok {} t \<and> frame s u \<and> frame s t \<and> disk t = disk s \<and> dwrites t = dwrites s
    \<and> cval t = cval s \<and> dirty t = dirty s"
proof -
  obtain u where u: "brelse a s = Ok () u" "bc_ok ({a, b} - {a}) u" "frame s u" "disk u = disk s" "dwrites u = dwrites s"
     "cval u = cval s" "dirty u = dirty s"
     "\<forall>a < 30. b_blockno (bufs u ! a) = b_blockno (bufs s ! a) \<and> b_data (bufs u ! a) = b_data (bufs s ! a)
          \<and> b_dirty (bufs u ! a) = b_dirty (bufs s ! a)"
    using brelse_bc[OF ok _ co, of a] by auto
  have e: "{a, b} - {a} = {b}" using ab by auto
  have b: "b < 30" using locked_buf(1)[OF ok, of b] by simp
  have "b_dirty (bufs u ! b) \<or> b_data (bufs u ! b) = disk u ! unat (b_blockno (bufs u ! b))"
    using co[of b] u(4,8) b by simp
  then obtain t where t: "brelse b u = Ok () t" "bc_ok ({b} - {b}) t" "frame u t" "disk t = disk u" "dwrites t = dwrites u"
     "cval t = cval u" "dirty t = dirty u"
    using brelse_bc[of "{b}" u b] u(2) unfolding e by auto
  show ?thesis using u t frame_trans[OF u(3) t(3)] by (intro exI[of _ u] exI[of _ t]) simp
qed

text \<open>Writing new contents of a locked buffer through to the disk.\<close>

lemma write_data:
  assumes ok: "bc_ok B s" and b: "b \<in> B" and d: "length d = 512" and n: "b_blockno (bufs s ! b) = n"
  shows "\<exists>t. bwrite b (upd_buf b (\<lambda>k. k\<lparr>b_data := d\<rparr>) s) = Ok () t \<and> bc_ok B t \<and> frame s t
     \<and> disk t = (disk s)[unat n := d] \<and> dwrites t = dwrites s @ [(unat n, d)]
     \<and> (\<forall>m. unat m < length (disk s) \<longrightarrow> cval t m = ((cval s)(n := d)) m) \<and> dirty t = dirty s - {n}
     \<and> (\<forall>a. a \<noteq> b \<longrightarrow> bufs t ! a = bufs s ! a) \<and> b_blockno (bufs t ! b) = n \<and> b_data (bufs t ! b) = d"
proof -
  define u where "u = upd_buf b (\<lambda>k. k\<lparr>b_data := d\<rparr>) s"
  note sd = set_data[OF ok b d, folded u_def]
  have l: "b < length (bufs s)" using locked_buf(1,4)[OF ok b] by simp
  have bu: "bufs u ! a = (if a = b then (bufs s ! b)\<lparr>b_data := d\<rparr> else bufs s ! a)" for a
    using l by (simp add: u_def bufs_upd_buf)
  have f: "frame s u" "disk u = disk s" "dwrites u = dwrites s" by (simp_all add: u_def)
  have ub: "b_blockno (bufs u ! b) = n" "b_data (bufs u ! b) = d" by (simp_all add: bu n)
  obtain t where t: "bwrite b u = Ok () t" "bc_ok B t" "frame u t" "disk t = (disk u)[unat n := d]"
     "dwrites t = dwrites u @ [(unat n, d)]" "\<forall>m. unat m < length (disk u) \<longrightarrow> cval t m = cval u m" "dirty t = dirty u - {n}"
     "\<forall>a. a \<noteq> b \<longrightarrow> bufs t ! a = bufs u ! a" "b_blockno (bufs t ! b) = n" "b_data (bufs t ! b) = d"
    using bwrite_bc[OF sd(1) b] unfolding ub by blast
  have "\<forall>a. a \<noteq> b \<longrightarrow> bufs t ! a = bufs s ! a" using t(8) by (simp add: bu)
  moreover have "\<forall>m. unat m < length (disk s) \<longrightarrow> cval t m = ((cval s)(n := d)) m" using t(6) sd(2) f n by simp
  ultimately show ?thesis using t f frame_trans[OF f(1) t(3)] sd(3) unfolding u_def by auto
qed

text \<open>A sequence of block writes, on the disk and on the view through the cache.\<close>

definition apply_writes :: "(nat \<times> block) list \<Rightarrow> block list \<Rightarrow> block list" where
  "apply_writes ws d = fold (\<lambda>(n, x) d. d[n := x]) ws d"

primrec new_view :: "(32 word \<times> block) list \<Rightarrow> (32 word \<Rightarrow> block) \<Rightarrow> 32 word \<Rightarrow> block" where
  "new_view [] f m = f m"
| "new_view (w # ws) f m = new_view ws (f(fst w := snd w)) m"

definition put_blocks :: "(32 word \<times> block) list \<Rightarrow> kernel \<Rightarrow> kernel \<Rightarrow> bool" where
  "put_blocks ws s t \<longleftrightarrow> bc_ok {} t \<and> disk t = apply_writes (map (apfst unat) ws) (disk s) \<and> dwrites t = dwrites s @ map (apfst unat) ws
     \<and> (\<forall>m. unat m < length (disk s) \<longrightarrow> cval t m = new_view ws (cval s) m)
     \<and> dirty t = dirty s - fst ` set ws"

lemma length_apply_writes [simp]: "length (apply_writes ws d) = length d"
  unfolding apply_writes_def by (induction ws arbitrary: d) auto

lemma apply_writes_simps [simp]:
  "apply_writes [] d = d" "apply_writes ((n, x) # ws) d = apply_writes ws (d[n := x])"
  "apply_writes (ws @ vs) d = apply_writes vs (apply_writes ws d)"
  by (simp_all add: apply_writes_def)

lemma new_view_cong: "f m = g m \<Longrightarrow> new_view ws f m = new_view ws g m"
proof (induction ws arbitrary: f g)
  case (Cons w ws)
  show ?case unfolding new_view.simps by (rule Cons.IH) (simp add: Cons.prems)
qed simp

lemma new_view_append: "new_view (ws @ vs) f m = new_view vs (new_view ws f) m"
proof (induction ws arbitrary: f)
  case Nil
  show ?case unfolding append_Nil by (rule new_view_cong) simp
next
  case (Cons w ws)
  have "new_view vs (new_view (w # ws) f) m = new_view vs (new_view ws (f(fst w := snd w))) m" by (rule new_view_cong) simp
  then show ?case unfolding append_Cons new_view.simps Cons.IH by (rule sym)
qed

lemma put_blocks_trans:
  assumes "put_blocks ws s t" "put_blocks vs t u"
  shows "put_blocks (ws @ vs) s u"
proof -
  have "cval u m = new_view (ws @ vs) (cval s) m" if m: "unat m < length (disk s)" for m
  proof -
    have "cval t m = new_view ws (cval s) m" using assms(1) m by (simp add: put_blocks_def)
    moreover have "cval u m = new_view vs (cval t) m" using assms m by (simp add: put_blocks_def)
    ultimately show ?thesis using new_view_cong[of "cval t" m "new_view ws (cval s)" vs] by (simp add: new_view_append)
  qed
  moreover have "dirty u = dirty s - fst ` set (ws @ vs)" using assms by (auto simp: put_blocks_def)
  ultimately show ?thesis using assms unfolding put_blocks_def by simp
qed

lemma put_blocks_refl: "bc_ok {} s \<Longrightarrow> put_blocks [] s s"
  by (simp add: put_blocks_def)

lemma bread_length:
  assumes "bc_ok B s" "unat n < length (disk s)"
  shows "length (cval s n) = 512"
proof (cases "cached s n")
  case None
  then show ?thesis using assms by (simp add: cval_def bc_ok_def)
next
  case (Some b)
  then have b: "b < 30" "b_dev (bufs s ! b) = 1" using cached_Some[OF assms(1)] by (auto simp: wanted_def)
  then have "\<exists>p. buf_ok B p (disk s) b (bufs s ! b)" using assms(1) by (auto simp: bc_ok_def)
  then show ?thesis using b Some by (auto simp: cval_def buf_ok_def)
qed

text \<open>The two ways the log copies a block: into the buffer read first, and into the one read second.\<close>

lemma copy_block:
  assumes ok: "bc_ok {} s" and xy: "x \<noteq> y" "unat x < length (disk s)" "unat y < length (disk s)"
    and c: "card (dirty s) < 30" "y \<in> dirty s \<or> card (dirty s) < 29"
  shows "\<exists>a u b t v w z. bread 1 x s = Ok a u \<and> bread 1 y u = Ok b t
      \<and> bwrite a (upd_buf a (\<lambda>k. k\<lparr>b_data := b_data (bufs t ! b)\<rparr>) t) = Ok () v
      \<and> brelse b v = Ok () w \<and> brelse a w = Ok () z \<and> put_blocks [(x, cval s y)] s z
      \<and> frame s u \<and> frame s t \<and> frame s v \<and> frame s w \<and> frame s z" (is ?first)
    "\<exists>a u b t v w z. bread 1 x s = Ok a u \<and> bread 1 y u = Ok b t
      \<and> bwrite b (upd_buf b (\<lambda>k. k\<lparr>b_data := b_data (bufs t ! a)\<rparr>) t) = Ok () v
      \<and> brelse a v = Ok () w \<and> brelse b w = Ok () z \<and> put_blocks [(y, cval s x)] s z
      \<and> frame s u \<and> frame s t \<and> frame s v \<and> frame s w \<and> frame s z" (is ?second)
proof -
  obtain a b u t where r: "bread 1 x s = Ok a u" "bread 1 y u = Ok b t" "a \<noteq> b" "bc_ok {a, b} t" "frame s u" "frame s t"
     "disk t = disk s" "dwrites t = dwrites s" "cval t = cval s" "dirty t = dirty s"
     "b_blockno (bufs t ! a) = x" "b_data (bufs t ! a) = cval s x"
     "b_blockno (bufs t ! b) = y" "b_data (bufs t ! b) = cval s y" "b_dirty (bufs t ! a) \<longleftrightarrow> x \<in> dirty s" "b_dirty (bufs t ! b) \<longleftrightarrow> y \<in> dirty s"
    using read_two[OF assms] by (elim exE conjE) (rule that, assumption+)
  have uxy: "unat x \<noteq> unat y" using xy(1) by (simp add: word_unat_eq_iff)
  have d: "length (cval s x) = 512" "length (cval s y) = 512" using bread_length[OF ok] xy by simp_all
  have cl: "n \<notin> dirty s \<Longrightarrow> cval s n = disk s ! unat n" for n by (rule cval_clean[OF ok])
  show ?first
  proof -
    obtain v where v: "bwrite a (upd_buf a (\<lambda>k. k\<lparr>b_data := cval s y\<rparr>) t) = Ok () v" "bc_ok {a, b} v" "frame t v"
       "disk v = (disk t)[unat x := cval s y]" "dwrites v = dwrites t @ [(unat x, cval s y)]"
       "\<forall>m. unat m < length (disk t) \<longrightarrow> cval v m = ((cval t)(x := cval s y)) m" "dirty v = dirty t - {x}"
       "\<forall>a'. a' \<noteq> a \<longrightarrow> bufs v ! a' = bufs t ! a'" "b_blockno (bufs v ! a) = x" "b_data (bufs v ! a) = cval s y"
      using write_data[OF r(4) insertI1 d(2) r(11)] by (elim exE conjE) (rule that, assumption+)
    have bb: "bufs v ! b = bufs t ! b" using v(8) r(3) by auto
    have "b_data (bufs v ! a) = disk v ! unat (b_blockno (bufs v ! a))" using v(4,9,10) r(7) xy(2) by simp
    moreover have "b_dirty (bufs v ! b) \<or> b_data (bufs v ! b) = disk v ! unat (b_blockno (bufs v ! b))"
      unfolding bb r(13,14,16) v(4) r(7) using cl[of y] uxy by auto
    ultimately have "b_dirty (bufs v ! c) \<or> b_data (bufs v ! c) = disk v ! unat (b_blockno (bufs v ! c))" if "c \<in> {b, a}" for c
      using that by blast
    moreover have "{b, a} = {a, b}" by blast
    ultimately obtain w z where z: "brelse b v = Ok () w" "brelse a w = Ok () z" "bc_ok {} z" "frame v w" "frame v z" "disk z = disk v"
       "dwrites z = dwrites v" "cval z = cval v" "dirty z = dirty v"
      using release_two[of b a v] v(2) r(3) by metis
    have "put_blocks [(x, cval s y)] s z" using z(3,6-9) v(4-7) r(7-10) by (simp add: put_blocks_def)
    moreover have fr: "frame s v" "frame s w" "frame s z"
      using frame_trans[OF r(6) v(3)] frame_trans[OF _ z(4)] frame_trans[OF _ z(5)] by simp_all
    ultimately show ?thesis
      by (intro exI conjI) (rule r(1), rule r(2), rule v(1)[folded r(14)], rule z(1), rule z(2), assumption, (rule r(5,6) fr)+)
  qed
  show ?second
  proof -
    obtain v where v: "bwrite b (upd_buf b (\<lambda>k. k\<lparr>b_data := cval s x\<rparr>) t) = Ok () v" "bc_ok {a, b} v" "frame t v"
       "disk v = (disk t)[unat y := cval s x]" "dwrites v = dwrites t @ [(unat y, cval s x)]"
       "\<forall>m. unat m < length (disk t) \<longrightarrow> cval v m = ((cval t)(y := cval s x)) m" "dirty v = dirty t - {y}"
       "\<forall>a'. a' \<noteq> b \<longrightarrow> bufs v ! a' = bufs t ! a'" "b_blockno (bufs v ! b) = y" "b_data (bufs v ! b) = cval s x"
      using write_data[OF r(4) insertI2[OF singletonI] d(1) r(13)] by (elim exE conjE) (rule that, assumption+)
    have ba: "bufs v ! a = bufs t ! a" using v(8) r(3) by auto
    have "b_data (bufs v ! b) = disk v ! unat (b_blockno (bufs v ! b))" using v(4,9,10) r(7) xy(3) by simp
    moreover have "b_dirty (bufs v ! a) \<or> b_data (bufs v ! a) = disk v ! unat (b_blockno (bufs v ! a))"
      unfolding ba r(11,12,15) v(4) r(7) using cl[of x] uxy by auto
    ultimately have "b_dirty (bufs v ! c) \<or> b_data (bufs v ! c) = disk v ! unat (b_blockno (bufs v ! c))" if "c \<in> {a, b}" for c
      using that by blast
    then obtain w z where z: "brelse a v = Ok () w" "brelse b w = Ok () z" "bc_ok {} z" "frame v w" "frame v z" "disk z = disk v"
       "dwrites z = dwrites v" "cval z = cval v" "dirty z = dirty v"
      using release_two[OF v(2) r(3)] by metis
    have "put_blocks [(y, cval s x)] s z" using z(3,6-9) v(4-7) r(7-10) by (simp add: put_blocks_def)
    moreover have fr: "frame s v" "frame s w" "frame s z"
      using frame_trans[OF r(6) v(3)] frame_trans[OF _ z(4)] frame_trans[OF _ z(5)] by simp_all
    ultimately show ?thesis
      by (intro exI conjI) (rule r(1), rule r(2), rule v(1)[folded r(12)], rule z(1), rule z(2), assumption, (rule r(5,6) fr)+)
  qed
qed

section \<open>The parts of a commit\<close>

text \<open>The log lies on the disk, has room for the transaction, and the blocks logged are distinct blocks outside it.\<close>

definition log_area :: "kernel \<Rightarrow> nat set" where
  "log_area s = {unat (l_start (logs s))..<unat (l_start (logs s)) + unat (l_size (logs s))}"

definition logged :: "kernel \<Rightarrow> 32 word list" where
  "logged s = take (log_n s) (lh_block (logs s))"

definition log_geom :: "kernel \<Rightarrow> bool" where
  "log_geom s \<longleftrightarrow> l_dev (logs s) = 1 \<and> length (lh_block (logs s)) = LOGSIZE \<and> 0 \<le> sint (lh_n (logs s))
     \<and> log_n s < LOGSIZE \<and> log_n s < unat (l_size (logs s))
     \<and> unat (l_start (logs s)) + unat (l_size (logs s)) \<le> length (disk s) \<and> length (disk s) < 2 ^ 32
     \<and> distinct (logged s) \<and> (\<forall>x \<in> set (logged s). unat x < length (disk s) \<and> unat x \<notin> log_area s)"

definition logblk :: "kernel \<Rightarrow> nat \<Rightarrow> 32 word" where
  "logblk s i = l_start (logs s) + of_nat i + 1"

lemma log_frame:
  assumes "logs t = logs s" "length (disk t) = length (disk s)"
  shows "log_geom t = log_geom s" "logblk t = logblk s" "log_area t = log_area s" "log_n t = log_n s" "logged t = logged s"
  using assms by (auto simp: log_geom_def logblk_def log_area_def log_n_def logged_def fun_eq_iff)

lemma unat_logblk:
  assumes "log_geom s" "i < log_n s"
  shows "unat (logblk s i) = unat (l_start (logs s)) + i + 1" "unat (logblk s i) \<in> log_area s" "unat (logblk s i) < length (disk s)"
proof -
  have g: "i + 1 < unat (l_size (logs s))" "unat (l_start (logs s)) + unat (l_size (logs s)) \<le> length (disk s)" "length (disk s) < 2 ^ 32"
    using assms by (simp_all add: log_geom_def)
  have "logblk s i = of_nat (unat (l_start (logs s)) + i + 1)" by (simp add: logblk_def)
  moreover have "unat (l_start (logs s)) + i + 1 < 2 ^ 32" using g by simp
  ultimately show "unat (logblk s i) = unat (l_start (logs s)) + i + 1" by (simp only: unat_of_nat32)
  then show "unat (logblk s i) \<in> log_area s" "unat (logblk s i) < length (disk s)" using g by (simp_all add: log_area_def)
qed

lemma nth_logged:
  assumes "log_geom s" "i < log_n s"
  shows "lh_block (logs s) ! i \<in> set (logged s)" "i < length (lh_block (logs s))" "logged s ! i = lh_block (logs s) ! i"
    "length (logged s) = log_n s"
  using assms by (auto simp: log_geom_def logged_def in_set_conv_nth intro!: exI[of _ i])

lemma put_blocks_view:
  assumes "put_blocks ws s t" "n \<notin> fst ` set ws" "unat n < length (disk s)"
  shows "cval t n = cval s n"
proof -
  have "new_view ws f n = f n" for f using assms(2) by (induction ws arbitrary: f) auto
  then show ?thesis using assms(1,3) by (simp add: put_blocks_def)
qed

lemma write_log_loop_ok:
  assumes "bc_ok {} s" "log_geom s" "set ts \<subseteq> {..<log_n s}" "dirty s = set (logged s)"
  shows "\<exists>t. write_log_loop ts s = Ok () t \<and> frame s t \<and> put_blocks (map (\<lambda>i. (logblk s i, cval s (lh_block (logs s) ! i))) ts) s t"
  using assms
proof (induction ts arbitrary: s)
  case Nil
  then show ?case by (auto intro: put_blocks_refl)
next
  case (Cons i ts)
  let ?x = "logblk s i" and ?y = "lh_block (logs s) ! i"
  have i: "i < log_n s" using Cons.prems(3) by simp
  note lb = unat_logblk[OF Cons.prems(2) i] and nl = nth_logged[OF Cons.prems(2) i]
  have y: "unat ?y < length (disk s)" "unat ?y \<notin> log_area s" using nl(1) Cons.prems(2) by (auto simp: log_geom_def)
  have ne: "?x \<noteq> ?y" using lb(2) y(2) by auto
  have "card (dirty s) \<le> length (logged s)" unfolding Cons.prems(4) by (rule card_length)
  then have c: "card (dirty s) < 30" using nl(4) Cons.prems(2) by (simp add: log_geom_def)
  have yd: "?y \<in> dirty s \<or> card (dirty s) < 29" using nl(1) Cons.prems(4) by simp
  obtain a u b t v w z where r: "bread 1 ?x s = Ok a u" "bread 1 ?y u = Ok b t"
      "bwrite a (upd_buf a (\<lambda>k. k\<lparr>b_data := b_data (bufs t ! b)\<rparr>) t) = Ok () v"
      "brelse b v = Ok () w" "brelse a w = Ok () z" and pz: "put_blocks [(?x, cval s ?y)] s z"
      and fr: "frame s u" "frame s t" "frame s v" "frame s w" "frame s z"
    using copy_block(1)[OF Cons.prems(1) ne lb(3) y(1) c yd] by (elim exE conjE) (rule that, assumption+)
  have lg: "logs z = logs s" "logs u = logs s" using frameD(2)[OF fr(5)] frameD(2)[OF fr(1)] .
  have lz: "length (disk z) = length (disk s)" and zok: "bc_ok {} z" using pz by (simp_all add: put_blocks_def)
  note lf = log_frame[OF lg(1) lz]
  have dv: "l_dev (logs s) = 1" using Cons.prems(2) by (simp add: log_geom_def)
  have "dirty z = dirty s - {?x}" using pz by (simp add: put_blocks_def)
  moreover have "?x \<notin> set (logged s)" using Cons.prems(2) lb(2) unfolding log_geom_def by blast
  ultimately have dz: "dirty z = set (logged z)" using Cons.prems(4) lf(5) by simp
  obtain t' where t': "write_log_loop ts z = Ok () t'" "frame z t'"
      "put_blocks (map (\<lambda>i. (logblk z i, cval z (lh_block (logs z) ! i))) ts) z t'"
    using Cons.IH[of z] zok Cons.prems(2,3) lf dz by auto
  have "cval z (lh_block (logs s) ! j) = cval s (lh_block (logs s) ! j)" if "j \<in> set ts" for j
  proof (rule put_blocks_view[OF pz])
    have j: "lh_block (logs s) ! j \<in> set (logged s)" using Cons.prems(3) that by (intro nth_logged(1)[OF Cons.prems(2)]) auto
    then show "lh_block (logs s) ! j \<notin> fst ` set [(?x, cval s ?y)]" "unat (lh_block (logs s) ! j) < length (disk s)"
      using Cons.prems(2) lb(2) by (auto simp: log_geom_def)
  qed
  then have "map (\<lambda>i. (logblk z i, cval z (lh_block (logs z) ! i))) ts = map (\<lambda>i. (logblk s i, cval s (lh_block (logs s) ! i))) ts"
    (is "?l = ?r") using lf lg by simp
  then have "put_blocks (map (\<lambda>i. (logblk s i, cval s (lh_block (logs s) ! i))) (i # ts)) s t'"
    using put_blocks_trans[OF pz t'(3)] unfolding \<open>?l = ?r\<close> by simp
  moreover have "write_log_loop (i # ts) s = Ok () t'"
    using r t'(1) nl(2) lg dv by (simp add: logblk_def)
  ultimately show ?case using frame_trans[OF fr(5) t'(2)] by blast
qed

lemma install_trans_loop_ok:
  assumes "bc_ok {} s" "log_geom s" "set ts \<subseteq> {..<log_n s}" "distinct ts" "card (dirty s) < 30"
    "dirty s = {} \<or> (\<forall>i \<in> set ts. lh_block (logs s) ! i \<in> dirty s)"
  shows "\<exists>t. install_trans_loop ts s = Ok () t \<and> frame s t \<and> put_blocks (map (\<lambda>i. (lh_block (logs s) ! i, cval s (logblk s i))) ts) s t"
  using assms
proof (induction ts arbitrary: s)
  case Nil
  then show ?case by (auto intro: put_blocks_refl)
next
  case (Cons i ts)
  let ?x = "logblk s i" and ?y = "lh_block (logs s) ! i"
  have i: "i < log_n s" using Cons.prems(3) by simp
  note lb = unat_logblk[OF Cons.prems(2) i] and nl = nth_logged[OF Cons.prems(2) i]
  have y: "unat ?y < length (disk s)" "unat ?y \<notin> log_area s" using nl(1) Cons.prems(2) by (auto simp: log_geom_def)
  have ne: "?x \<noteq> ?y" using lb(2) y(2) by auto
  have yd: "?y \<in> dirty s \<or> card (dirty s) < 29" using Cons.prems(6) by auto
  obtain a u b t v w z where r: "bread 1 ?x s = Ok a u" "bread 1 ?y u = Ok b t"
      "bwrite b (upd_buf b (\<lambda>k. k\<lparr>b_data := b_data (bufs t ! a)\<rparr>) t) = Ok () v"
      "brelse a v = Ok () w" "brelse b w = Ok () z" and pz: "put_blocks [(?y, cval s ?x)] s z"
      and fr: "frame s u" "frame s t" "frame s v" "frame s w" "frame s z"
    using copy_block(2)[OF Cons.prems(1) ne lb(3) y(1) Cons.prems(5) yd] by (elim exE conjE) (rule that, assumption+)
  have lg: "logs z = logs s" "logs u = logs s" using frameD(2)[OF fr(5)] frameD(2)[OF fr(1)] .
  have lz: "length (disk z) = length (disk s)" and zok: "bc_ok {} z" using pz by (simp_all add: put_blocks_def)
  note lf = log_frame[OF lg(1) lz]
  have dv: "l_dev (logs s) = 1" using Cons.prems(2) by (simp add: log_geom_def)
  have dz: "dirty z = dirty s - {?y}" using pz by (simp add: put_blocks_def)
  have fd: "finite (dirty s)" by (simp add: dirty_def)
  have cz: "card (dirty z) < 30" unfolding dz using card_Diff1_le[of "dirty s" ?y] Cons.prems(5) by simp
  have other: "lh_block (logs s) ! j \<noteq> ?y" if "j \<in> set ts" for j
  proof -
    have "j < log_n s" "j \<noteq> i" using that Cons.prems(3,4) by auto
    then show ?thesis using Cons.prems(2) nth_eq_iff_index_eq[of "logged s" j i] nth_logged(3,4)[OF Cons.prems(2)] i
      by (simp add: log_geom_def)
  qed
  have d2: "dirty z = {} \<or> (\<forall>j \<in> set ts. lh_block (logs z) ! j \<in> dirty z)"
    using Cons.prems(6) other by (auto simp: dz lg)
  obtain t' where t': "install_trans_loop ts z = Ok () t'" "frame z t'"
      "put_blocks (map (\<lambda>i. (lh_block (logs z) ! i, cval z (logblk z i))) ts) z t'"
    using Cons.IH[of z] zok Cons.prems(2-4) lf cz d2 by auto
  have "cval z (logblk s j) = cval s (logblk s j)" if "j \<in> set ts" for j
  proof (rule put_blocks_view[OF pz])
    have j: "j < log_n s" using Cons.prems(3) that by auto
    show "logblk s j \<notin> fst ` set [(?y, cval s ?x)]" "unat (logblk s j) < length (disk s)"
      using unat_logblk[OF Cons.prems(2) j] y(2) by auto
  qed
  then have "map (\<lambda>i. (lh_block (logs z) ! i, cval z (logblk z i))) ts = map (\<lambda>i. (lh_block (logs s) ! i, cval s (logblk s i))) ts"
    (is "?l = ?r") using lf lg by simp
  then have "put_blocks (map (\<lambda>i. (lh_block (logs s) ! i, cval s (logblk s i))) (i # ts)) s t'"
    using put_blocks_trans[OF pz t'(3)] unfolding \<open>?l = ?r\<close> by simp
  moreover have "install_trans_loop (i # ts) s = Ok () t'"
    using r t'(1) nl(2) lg dv by (simp add: logblk_def)
  ultimately show ?case using frame_trans[OF fr(5) t'(2)] by blast
qed

lemma write_head_ok:
  assumes ok: "bc_ok {} s" and st: "unat (l_start (logs s)) < length (disk s)" "l_dev (logs s) = 1"
    and n: "log_n s \<le> length (lh_block (logs s))" "length (lh_block (logs s)) = 30" and c: "card (dirty s) < 30"
  shows "\<exists>t. write_head s = Ok () t \<and> frame s t
     \<and> put_blocks [(l_start (logs s), header_bytes (lh_n (logs s)) (lh_block (logs s)) (cval s (l_start (logs s))))] s t"
proof -
  let ?x = "l_start (logs s)" and ?d = "header_bytes (lh_n (logs s)) (lh_block (logs s)) (cval s (l_start (logs s)))"
  have "\<exists>e < 30. e \<notin> {} \<and> \<not> b_dirty (bufs s ! e)" by (rule free_buffer[OF ok]) (use c in simp)
  then obtain a u where u: "bread 1 ?x s = Ok a u" "a < 30" "bc_ok {a} u" "frame s u"
     "disk u = disk s" "dwrites u = dwrites s" "cval u = cval s" "dirty u = dirty s"
     "b_blockno (bufs u ! a) = ?x" "b_data (bufs u ! a) = cval s ?x"
    using bread_bc[OF ok st(1)] by auto
  have l: "length ?d = 512" by (rule header_bytes_get(1)) (use bread_length[OF ok st(1)] n in \<open>auto simp: log_n_def\<close>)
  obtain v where v: "bwrite a (upd_buf a (\<lambda>k. k\<lparr>b_data := ?d\<rparr>) u) = Ok () v" "bc_ok {a} v" "frame u v"
       "disk v = (disk u)[unat ?x := ?d]" "dwrites v = dwrites u @ [(unat ?x, ?d)]"
       "\<forall>m. unat m < length (disk u) \<longrightarrow> cval v m = ((cval u)(?x := ?d)) m" "dirty v = dirty u - {?x}"
       "b_blockno (bufs v ! a) = ?x" "b_data (bufs v ! a) = ?d"
    using write_data[OF u(3) insertI1 l u(9)] by (elim exE conjE) (rule that, assumption+)
  have e: "upd_buf a (\<lambda>k. k\<lparr>b_data := header_bytes (lh_n (logs s)) (lh_block (logs s)) (b_data k)\<rparr>) u = upd_buf a (\<lambda>k. k\<lparr>b_data := ?d\<rparr>) u"
    using u(10) by (simp add: upd_buf_def)
  have "b_data (bufs v ! a) = disk v ! unat (b_blockno (bufs v ! a))" using v(4,8,9) u(5) st by simp
  then obtain z where z: "brelse a v = Ok () z" "bc_ok ({a} - {a}) z" "frame v z" "disk z = disk v"
       "dwrites z = dwrites v" "cval z = cval v" "dirty z = dirty v"
    using brelse_bc[OF v(2) insertI1] by blast
  have "put_blocks [(?x, ?d)] s z" using z(2,4-7) v(4-7) u(5-8) by (simp add: put_blocks_def)
  moreover have "write_head s = Ok () z"
    using u(1) v(1) z(1) n st frameD(2)[OF u(4)] by (simp add: write_head_def e log_n_def)
  moreover have "frame s z" using frame_trans[OF u(4) frame_trans[OF v(3) z(3)]] .
  ultimately show ?thesis by blast
qed

lemma upd_log_view [simp]:
  "bc_ok B (upd_log f s) = bc_ok B s" "cval (upd_log f s) = cval s" "dirty (upd_log f s) = dirty s" "disk (upd_log f s) = disk s"
  "dwrites (upd_log f s) = dwrites s" "bufs (upd_log f s) = bufs s" "logs (upd_log f s) = f (logs s)" "quiet (upd_log f s) = quiet s"
  "procs (upd_log f s) = procs s" "rest (upd_log f s) = upd_log f (rest s)" "running (upd_log f s) = running s" "mach (upd_log f s) = mach s"
proof -
  let ?t = "upd_log f s"
  show f: "bufs ?t = bufs s" "disk ?t = disk s" "dwrites ?t = dwrites s" "procs ?t = procs s" "logs ?t = f (logs s)"
    "rest ?t = upd_log f (rest s)" "mach ?t = mach s"
    by (simp_all add: upd_log_def rest_def)
  have h: "head_next ?t = head_next s" "head_prev ?t = head_prev s" by (simp_all add: upd_log_def)
  show q: "quiet ?t = quiet s" "running ?t = running s" by (simp_all add: upd_log_def quiet_def running_def)
  have "nextof ?t = nextof s" "prevof ?t = prevof s" by (auto simp: nextof_def prevof_def fun_eq_iff f h)
  then have m: "mru ?t = mru s" by (intro ext) (simp add: mru_def f)
  have w: "wanted 1 n ?t = wanted 1 n s" for n by (intro ext) (simp add: wanted_def f)
  show "bc_ok B ?t = bc_ok B s" by (simp add: bc_ok_def m q f)
  show "cval ?t = cval s" by (intro ext) (simp add: cval_def cached_def w f split: option.split)
  show "dirty ?t = dirty s" by (simp add: dirty_def f)
qed

lemma put_blocks_upd_log: "bc_ok {} s \<Longrightarrow> put_blocks [] s (upd_log f s)"
  by (simp add: put_blocks_def)

lemma new_view_map:
  assumes "inj_on a (set ts)" "j \<in> set ts"
  shows "new_view (map (\<lambda>i. (a i, v i)) ts) f (a j) = v j"
proof -
  have n: "new_view ws f m = f m" if "m \<notin> fst ` set ws" for ws f m using that by (induction ws arbitrary: f) auto
  show ?thesis using assms
  proof (induction ts arbitrary: f)
    case (Cons i ts)
    show ?case
    proof (cases "j \<in> set ts")
      case True
      then show ?thesis using Cons by simp
    next
      case False
      then have "j = i" "a j \<notin> fst ` set (map (\<lambda>i. (a i, v i)) ts)" using Cons.prems by (auto simp: inj_on_def)
      then show ?thesis using n by simp
    qed
  qed simp
qed

definition commit_writes :: "kernel \<Rightarrow> (32 word \<times> block) list" where
  "commit_writes s =
     (let bs = lh_block (logs s); st = l_start (logs s); h = header_bytes (lh_n (logs s)) bs (cval s st) in
      map (\<lambda>i. (logblk s i, cval s (bs ! i))) [0..<log_n s] @ [(st, h)]
      @ map (\<lambda>i. (bs ! i, cval s (bs ! i))) [0..<log_n s] @ [(st, header_bytes 0 bs h)])"

lemma start_outside:
  assumes "log_geom s"
  shows "unat (l_start (logs s)) \<in> log_area s" "unat (l_start (logs s)) < length (disk s)" "l_start (logs s) \<notin> set (logged s)"
    "i < log_n s \<Longrightarrow> logblk s i \<noteq> l_start (logs s)"
proof -
  show 1: "unat (l_start (logs s)) \<in> log_area s" "unat (l_start (logs s)) < length (disk s)"
    using assms by (auto simp: log_geom_def log_area_def)
  show "l_start (logs s) \<notin> set (logged s)" using 1 assms unfolding log_geom_def by blast
  show "logblk s i \<noteq> l_start (logs s)" if "i < log_n s" using unat_logblk(1)[OF assms that] by auto
qed

lemma s_lt_log_n: "s_lt 0 (lh_n (logs s)) \<longleftrightarrow> 0 < log_n s"
  by (simp add: s_lt_def log_n_def)

lemma commit_ok:
  assumes ok: "bc_ok {} s" and g: "log_geom s" and d: "dirty s = set (logged s)" and n: "0 < log_n s"
  shows "\<exists>t. commit s = Ok () t \<and> rest t = rest (upd_log (\<lambda>l. l\<lparr>lh_n := 0\<rparr>) s) \<and> put_blocks (commit_writes s) s t"
proof -
  let ?bs = "lh_block (logs s)" and ?st = "l_start (logs s)" and ?N = "log_n s"
  let ?h = "header_bytes (lh_n (logs s)) ?bs (cval s ?st)"
  have gd: "l_dev (logs s) = 1" "length ?bs = 30" "?N < 30" using g by (simp_all add: log_geom_def)
  have nl: "length (logged s) = ?N" using nth_logged(4)[OF g n] .
  have "card (dirty s) \<le> ?N" unfolding d using card_length[of "logged s"] nl by simp
  then have c: "card (dirty s) < 30" using gd(3) by simp
  note so = start_outside[OF g]
  have sub: "set [0..<?N] \<subseteq> {..<?N}" by auto
  obtain t1 where t1: "write_log_loop [0..<?N] s = Ok () t1" "frame s t1" "put_blocks (map (\<lambda>i. (logblk s i, cval s (?bs ! i))) [0..<?N]) s t1"
    using write_log_loop_ok[OF ok g sub d] by blast
  have l1: "logs t1 = logs s" "length (disk t1) = length (disk s)" "bc_ok {} t1" using frameD(2)[OF t1(2)] t1(3) by (simp_all add: put_blocks_def)
  have "logblk s i \<notin> set (logged s)" if "i < ?N" for i using unat_logblk(2)[OF g that] g unfolding log_geom_def by blast
  then have d1: "dirty t1 = dirty s" using t1(3) d by (auto simp: put_blocks_def)
  have c1: "cval t1 ?st = cval s ?st"
  proof (rule put_blocks_view[OF t1(3) _ so(2)])
    show "?st \<notin> fst ` set (map (\<lambda>i. (logblk s i, cval s (?bs ! i))) [0..<?N])"
    proof
      assume "?st \<in> fst ` set (map (\<lambda>i. (logblk s i, cval s (?bs ! i))) [0..<?N])"
      then obtain i where "i < ?N" "?st = logblk s i" by auto
      then show False using so(4) by metis
    qed
  qed
  have v1: "cval t1 (logblk s i) = cval s (?bs ! i)" if i: "i < ?N" for i
  proof -
    have "inj_on (logblk s) (set [0..<?N])" by (rule inj_onI) (use unat_logblk(1)[OF g] in \<open>metis add_left_cancel add_right_cancel atLeastLessThan_iff set_upt\<close>)
    then show ?thesis using t1(3) unat_logblk(3)[OF g i] i new_view_map[of "logblk s" "[0..<?N]" i] by (simp add: put_blocks_def)
  qed
  obtain t2 where t2: "write_head t1 = Ok () t2" "frame t1 t2" "put_blocks [(?st, ?h)] t1 t2"
    using write_head_ok[OF l1(3)] l1 so gd c c1 d1 log_frame[OF l1(1,2)] by auto
  have l2: "logs t2 = logs s" "length (disk t2) = length (disk s)" "bc_ok {} t2" using frameD(2)[OF t2(2)] l1 t2(3) by (simp_all add: put_blocks_def)
  have d2: "dirty t2 = dirty s" using t2(3) d1 d so by (simp add: put_blocks_def)
  have v2: "cval t2 (logblk s i) = cval s (?bs ! i)" if i: "i < ?N" for i
    using put_blocks_view[OF t2(3), of "logblk s i"] so(4)[OF i] unat_logblk(3)[OF g i] v1[OF i] l1 by simp
  note lf = log_frame[OF l2(1,2)]
  obtain t3 where t3: "install_trans_loop [0..<?N] t2 = Ok () t3" "frame t2 t3"
      "put_blocks (map (\<lambda>i. (?bs ! i, cval t2 (logblk s i))) [0..<?N]) t2 t3"
  proof -
    have "log_geom t2" "set [0..<?N] \<subseteq> {..<log_n t2}" "card (dirty t2) < 30"
      "dirty t2 = {} \<or> (\<forall>i \<in> set [0..<?N]. lh_block (logs t2) ! i \<in> dirty t2)"
      using lf g d2 c d nth_logged(1)[OF g] l2(1) by auto
    from install_trans_loop_ok[OF l2(3) this(1,2) distinct_upt this(3,4)] that show ?thesis unfolding l2(1) lf(2) by blast
  qed
  have e3: "map (\<lambda>i. (?bs ! i, cval t2 (logblk s i))) [0..<?N] = map (\<lambda>i. (?bs ! i, cval s (?bs ! i))) [0..<?N]" using v2 by simp
  note p3 = t3(3)[unfolded e3]
  have l3: "logs t3 = logs s" "length (disk t3) = length (disk s)" "bc_ok {} t3" using frameD(2)[OF t3(2)] l2 t3(3) by (simp_all add: put_blocks_def)
  have "set (logged s) = (\<lambda>i. ?bs ! i) ` {..<?N}" using nth_image[of ?N ?bs] gd by (simp add: logged_def lessThan_atLeast0)
  then have d3: "dirty t3 = {}" using p3 d2 d by (simp add: put_blocks_def image_image lessThan_atLeast0)
  have v3: "cval t3 ?st = ?h"
  proof -
    have ni: "?st \<notin> (!) ?bs ` {0..<?N}" using so(3) \<open>set (logged s) = _\<close> by (simp add: lessThan_atLeast0)
    have "cval t3 ?st = cval t2 ?st" by (rule put_blocks_view[OF p3]) (use ni so l2 in auto)
    then show ?thesis using t2(3) so l1 by (simp add: put_blocks_def)
  qed
  let ?t3 = "upd_log (\<lambda>l. l\<lparr>lh_n := 0\<rparr>) t3"
  note pu = put_blocks_upd_log[OF l3(3), of "\<lambda>l. l\<lparr>lh_n := 0\<rparr>"]
  have u: "bc_ok {} ?t3" "disk ?t3 = disk t3" "dirty ?t3 = {}" "cval ?t3 ?st = ?h" "logs ?t3 = (logs s)\<lparr>lh_n := 0\<rparr>"
    using d3 v3 l3 by simp_all
  obtain t4 where t4: "write_head ?t3 = Ok () t4" "frame ?t3 t4" "put_blocks [(?st, header_bytes 0 ?bs ?h)] ?t3 t4"
    using write_head_ok[OF u(1)] u l3 so gd by (auto simp: log_n_def)
  have "commit s = Ok () t4"
    using t1(1) t2(1) t3(1) t4(1) n log_frame(4)[OF l2(1,2)] by (simp add: commit_def s_lt_log_n write_log_def install_trans_def)
  moreover have "put_blocks (commit_writes s) s t4"
    using put_blocks_trans[OF put_blocks_trans[OF put_blocks_trans[OF put_blocks_trans[OF t1(3) t2(3)] p3] pu] t4(3)]
    by (simp add: commit_writes_def Let_def)
  moreover have "rest t4 = rest (upd_log (\<lambda>l. l\<lparr>lh_n := 0\<rparr>) s)"
  proof -
    have "rest t3 = rest s" using t1(2) t2(2) t3(2) by (simp add: frame_def)
    then show ?thesis using t4(2) by (simp add: frame_def)
  qed
  ultimately show ?thesis by blast
qed

section \<open>Recovery\<close>

text \<open>What the log on a disk image holds: the number of blocks and the blocks of the header, and the writes that recovery
  makes from it.\<close>

definition header_n :: "nat \<Rightarrow> block list \<Rightarrow> nat" where
  "header_n st D = nat (sint (get32 (D ! st) 0))"

definition header_block :: "nat \<Rightarrow> block list \<Rightarrow> nat \<Rightarrow> 32 word" where
  "header_block st D i = get32 (D ! st) (4 + 4 * i)"

definition replay :: "nat \<Rightarrow> block list \<Rightarrow> (nat \<times> block) list" where
  "replay st D = map (\<lambda>i. (unat (header_block st D i), D ! (st + i + 1))) [0..<header_n st D]"

definition image_ok :: "nat \<Rightarrow> nat \<Rightarrow> block list \<Rightarrow> bool" where
  "image_ok st len D \<longleftrightarrow> 1 < st \<and> 0 \<le> sint (get32 (D ! st) 0) \<and> header_n st D < LOGSIZE \<and> header_n st D < len \<and> st + len \<le> length D
     \<and> length D < 2 ^ 32 \<and> (\<forall>x \<in> set D. length x = BSIZE) \<and> inj_on (header_block st D) {..<header_n st D}
     \<and> (\<forall>i < header_n st D. unat (header_block st D i) < length D \<and> unat (header_block st D i) \<notin> insert 1 {st..<st + len})"

lemma read_head_ok:
  assumes ok: "bc_ok {} s" and d: "dirty s = {}" and l: "l_dev (logs s) = 1" "length (lh_block (logs s)) = 30"
    and st: "st = unat (l_start (logs s))" and im: "image_ok st len (disk s)"
  shows "\<exists>t. read_head s = Ok () t \<and> put_blocks [] s t
     \<and> rest t = rest (upd_log (\<lambda>l. l\<lparr>lh_n := get32 (disk s ! st) 0,
          lh_block := map (header_block st (disk s)) [0..<header_n st (disk s)] @ drop (header_n st (disk s)) (lh_block l)\<rparr>) s)"
proof -
  let ?x = "l_start (logs s)"
  have x: "unat ?x < length (disk s)" "header_n st (disk s) < 30" using im by (auto simp: image_ok_def st)
  have cx: "cval s ?x = disk s ! st" using cval_clean[OF ok] d by (simp add: st)
  have "\<exists>e < 30. e \<notin> {} \<and> \<not> b_dirty (bufs s ! e)" by (rule free_buffer[OF ok]) (simp add: d)
  then obtain a u where u: "bread 1 ?x s = Ok a u" "a < 30" "bc_ok {a} u" "frame s u"
     "disk u = disk s" "dwrites u = dwrites s" "cval u = cval s" "dirty u = dirty s"
     "b_blockno (bufs u ! a) = ?x" "b_data (bufs u ! a) = cval s ?x"
    using bread_bc[OF ok x(1)] by auto
  have lu: "logs u = logs s" using frameD(2)[OF u(4)] .
  define f :: "log \<Rightarrow> log" where "f = (\<lambda>l. l\<lparr>lh_n := get32 (disk s ! st) 0,
          lh_block := map (header_block st (disk s)) [0..<header_n st (disk s)] @ drop (header_n st (disk s)) (lh_block l)\<rparr>)"
  have "b_data (bufs (upd_log f u) ! a) = disk (upd_log f u) ! unat (b_blockno (bufs (upd_log f u) ! a))" using u cx by (simp add: st)
  then obtain z where z: "brelse a (upd_log f u) = Ok () z" "bc_ok ({a} - {a}) z" "frame (upd_log f u) z" "disk z = disk u" "dwrites z = dwrites u"
     "cval z = cval u" "dirty z = dirty u"
    using brelse_bc[of "{a}" "upd_log f u" a] u(3) by auto
  have "read_head s = Ok () z"
    using u(1,10) z(1) x lu l cx by (simp add: read_head_def header_n_def[symmetric] header_block_def[symmetric] f_def Let_def)
  moreover have "put_blocks [] s z" using z u by (simp add: put_blocks_def)
  moreover have "rest z = rest (upd_log f s)" using z(3) u(4) by (simp add: frame_def)
  ultimately show ?thesis unfolding f_def by blast
qed

lemma logs_rest: "rest t = rest s \<Longrightarrow> logs t = logs s"
proof -
  have "logs x = logs (rest x)" for x by (simp add: rest_def)
  then show "rest t = rest s \<Longrightarrow> logs t = logs s" by metis
qed

lemma recover_ok:
  assumes ok: "bc_ok {} s" and d: "dirty s = {}" and l: "l_dev (logs s) = 1" "length (lh_block (logs s)) = 30"
    and st: "st = unat (l_start (logs s))" and im: "image_ok st (unat (l_size (logs s))) (disk s)"
  shows "\<exists>h bs t. recover_from_log s = Ok () t \<and> bc_ok {} t \<and> dirty t = {} \<and> rest t = rest (upd_log (\<lambda>l. l\<lparr>lh_n := 0, lh_block := bs\<rparr>) s) \<and> length bs = 30
     \<and> length h = 512 \<and> get32 h 0 = 0
     \<and> disk t = apply_writes (replay st (disk s) @ [(st, h)]) (disk s) \<and> dwrites t = dwrites s @ replay st (disk s) @ [(st, h)]"
proof -
  let ?N = "header_n st (disk s)" and ?D = "disk s"
  define bs where "bs = map (header_block st ?D) [0..<?N] @ drop ?N (lh_block (logs s))"
  obtain t1 where t1: "read_head s = Ok () t1" "put_blocks [] s t1" "rest t1 = rest (upd_log (\<lambda>l. l\<lparr>lh_n := get32 (?D ! st) 0,
          lh_block := map (header_block st ?D) [0..<?N] @ drop ?N (lh_block l)\<rparr>) s)"
    using read_head_ok[OF assms] by blast
  have l1: "logs t1 = (logs s)\<lparr>lh_n := get32 (?D ! st) 0, lh_block := bs\<rparr>" using logs_rest[OF t1(3)] by (simp add: bs_def)
  have lb: "length bs = 30" "\<And>i. i < ?N \<Longrightarrow> bs ! i = header_block st ?D i" using im l by (auto simp: bs_def image_ok_def nth_append)
  have n1: "log_n t1 = ?N" by (simp add: log_n_def l1 header_n_def)
  have "take ?N bs = map (header_block st ?D) [0..<?N]" by (simp add: bs_def)
  then have lg1: "logged t1 = map (header_block st ?D) [0..<?N]" by (simp add: logged_def n1 l1)
  have s1: "bc_ok {} t1" "disk t1 = ?D" "dwrites t1 = dwrites s" "dirty t1 = {}" using t1(2) d by (simp_all add: put_blocks_def)
  have g1: "log_geom t1"
    using im lb l unfolding log_geom_def n1 lg1 s1 by (auto simp: l1 image_ok_def st log_area_def distinct_map lessThan_atLeast0)
  have sub: "set [0..<?N] \<subseteq> {..<log_n t1}" by (simp add: n1 lessThan_atLeast0)
  have c1: "card (dirty t1) < 30" "dirty t1 = {} \<or> (\<forall>i \<in> set [0..<?N]. lh_block (logs t1) ! i \<in> dirty t1)" by (simp_all add: s1)
  obtain t2 where t2: "install_trans_loop [0..<?N] t1 = Ok () t2" "frame t1 t2"
      "put_blocks (map (\<lambda>i. (lh_block (logs t1) ! i, cval t1 (logblk t1 i))) [0..<?N]) t1 t2"
    using install_trans_loop_ok[OF s1(1) g1 sub distinct_upt c1] by blast
  have "cval t1 (logblk t1 i) = ?D ! (st + i + 1)" if "i < ?N" for i
    using cval_clean[OF s1(1)] unat_logblk(1)[OF g1] that by (simp add: s1 n1) (simp add: l1 st)
  then have rp: "map (apfst unat) (map (\<lambda>i. (lh_block (logs t1) ! i, cval t1 (logblk t1 i))) [0..<?N]) = replay st ?D"
    by (simp add: replay_def l1 lb(2))
  let ?t2 = "upd_log (\<lambda>l. l\<lparr>lh_n := 0\<rparr>) t2" and ?st = "l_start (logs s)"
  let ?h = "header_bytes 0 bs (cval ?t2 ?st)"
  have l2: "logs t2 = (logs s)\<lparr>lh_n := get32 (?D ! st) 0, lh_block := bs\<rparr>" using frameD(2)[OF t2(2)] l1 by simp
  have s2: "bc_ok {} ?t2" "length (disk ?t2) = length ?D" "dirty ?t2 = {}" using t2(3) s1 by (simp_all add: put_blocks_def)
  have sx: "unat ?st < length ?D" using im by (auto simp: image_ok_def st)
  obtain t3 where t3: "write_head ?t2 = Ok () t3" "frame ?t2 t3" "put_blocks [(?st, ?h)] ?t2 t3"
    using write_head_ok[OF s2(1)] l2 s2 l lb sx by (auto simp: log_n_def)
  have h: "length ?h = 512" "get32 ?h 0 = 0"
    using header_bytes_get(1,2)[of "cval ?t2 ?st" 0 bs] bread_length[OF s2(1), of ?st] sx s2(2) by simp_all
  have "recover_from_log s = Ok () t3"
    using t1(1) t2(1) t3(1) by (simp add: recover_from_log_def install_trans_def n1)
  moreover have "rest t3 = rest (upd_log (\<lambda>l. l\<lparr>lh_n := 0, lh_block := bs\<rparr>) s)"
    using t3(2) t2(2) t1(3) by (simp add: frame_def) (simp add: upd_log_def rest_def bs_def)
  moreover have "bc_ok {} t3" "dirty t3 = {}" "disk t3 = apply_writes (replay st ?D @ [(st, ?h)]) ?D"
    "dwrites t3 = dwrites s @ replay st ?D @ [(st, ?h)]"
    using t3(3) t2(3) s1 s2(3) rp by (simp_all add: put_blocks_def st del: map_map)
  ultimately show ?thesis using h lb(1) by blast
qed

section \<open>Transactions\<close>

text \<open>A critical section that leaves the machine alone.\<close>

lemma critical:
  assumes "quiet s" "\<And>m. g (s\<lparr>mach := m\<rparr>) = (g s)\<lparr>mach := m\<rparr>"
  shows "kacquire L s = Ok () (s\<lparr>mach := hold L (mach s)\<rparr>)" "krelease L (g (s\<lparr>mach := hold L (mach s)\<rparr>)) = Ok () (g s)"
proof -
  have m: "g s = (g s)\<lparr>mach := mach s\<rparr>" using assms(2)[of "mach s"] by simp
  show "kacquire L s = Ok () (s\<lparr>mach := hold L (mach s)\<rparr>)" using assms(1) by (rule kacquire_quiet)
  have "krelease L (g (s\<lparr>mach := hold L (mach s)\<rparr>)) = Ok () ((g (s\<lparr>mach := hold L (mach s)\<rparr>))\<lparr>mach := mach s\<rparr>)"
    by (rule krelease_quiet) (simp_all add: assms(2) quietD[OF assms(1)])
  then show "krelease L (g (s\<lparr>mach := hold L (mach s)\<rparr>)) = Ok () (g s)" using m by (simp add: assms(2))
qed

lemma upd_log_mach [simp]: "(upd_log f s)\<lparr>mach := m\<rparr> = upd_log f (s\<lparr>mach := m\<rparr>)"
  by (simp add: upd_log_def)

lemma begin_op_ok:
  assumes "quiet s" "\<not> l_committing (logs s)"
    "\<not> s_lt (of_nat LOGSIZE) (lh_n (logs s) + (l_outstanding (logs s) + 1) * of_nat MAXOPBLOCKS)"
  shows "begin_op s = Ok () (upd_log (\<lambda>l. l\<lparr>l_outstanding := l_outstanding l + 1\<rparr>) s)"
  using assms critical[of s "upd_log (\<lambda>l. l\<lparr>l_outstanding := l_outstanding l + 1\<rparr>)" LogLk]
  by (simp add: begin_op_def begin_op_test_def)

text \<open>The invariant between operations of a transaction: the dirty buffers are the logged blocks, and the log on disk is empty.\<close>

definition log_ok :: "kernel \<Rightarrow> bool" where
  "log_ok s \<longleftrightarrow> log_geom s \<and> dirty s = set (logged s) \<and> get32 (disk s ! unat (l_start (logs s))) 0 = 0
     \<and> \<not> l_committing (logs s)"

definition note_block :: "32 word \<Rightarrow> log \<Rightarrow> log" where
  "note_block n l =
     (if n \<in> set (take (nat (sint (lh_n l))) (lh_block l)) then l
      else l\<lparr>lh_block := (lh_block l)[nat (sint (lh_n l)) := n], lh_n := lh_n l + 1\<rparr>)"

lemma sint_nonneg:
  assumes "0 \<le> sint (n :: 32 word)"
  shows "sint n = int (unat n)" "nat (sint n) = unat n" "unat n < 2 ^ 31"
proof -
  show 1: "unat n < 2 ^ 31" using s_neg_iff[of n] assms by (simp add: s_lt_def)
  show "sint n = int (unat n)" "nat (sint n) = unat n" using sint_eq_unat[OF 1] by simp_all
qed

lemma log_write_ok:
  assumes q: "quiet s" and g: "log_geom s" and r: "log_n s + 1 < LOGSIZE" "log_n s + 1 < unat (l_size (logs s))"
    "unat (l_size (logs s)) < 2 ^ 31" and o: "\<not> s_lt (l_outstanding (logs s)) 1"
  shows "log_write b s = Ok () (upd_buf b (\<lambda>k. k\<lparr>b_dirty := True\<rparr>) (upd_log (note_block (b_blockno (bufs s ! b))) s))"
proof -
  let ?n = "b_blockno (bufs s ! b)" and ?N = "nat (sint (lh_n (logs s)))"
  have N: "?N < 30" "0 \<le> sint (lh_n (logs s))" using g by (simp_all add: log_geom_def log_n_def)
  note sn = sint_nonneg[OF N(2)]
  have "unat (l_size (logs s) - 1) = unat (l_size (logs s)) - 1" using r by (subst unat_minus_one) auto
  then have sz: "sint (l_size (logs s) - 1) = int (unat (l_size (logs s)) - 1)"
    using r sint_eq_unat[of "l_size (logs s) - 1"] by simp
  have sint30: "sint (of_nat LOGSIZE :: 32 word) = int LOGSIZE" by simp
  have nf: "\<not> (s_le (of_nat LOGSIZE) (lh_n (logs s)) \<or> s_le (l_size (logs s) - 1) (lh_n (logs s)))"
    using r unfolding s_le_def log_n_def sn sz sint30 of_nat_le_iff by linarith
  define f where "f = (\<lambda>s. upd_buf b (\<lambda>k. k\<lparr>b_dirty := True\<rparr>) (upd_log (note_block ?n) s))"
  have e: "(let bn = b_blockno (bufs t ! b);
              i = (case first_idx (\<lambda>x. x = bn) (take (log_n t) (lh_block (logs t))) of Some i \<Rightarrow> i | None \<Rightarrow> log_n t);
              s = upd_log (\<lambda>l. l\<lparr>lh_block := (lh_block l)[i := bn]\<rparr>) t;
              s = (if of_nat i = lh_n (logs s) then upd_log (\<lambda>l. l\<lparr>lh_n := lh_n l + 1\<rparr>) s else s);
              s = upd_buf b (\<lambda>k. k\<lparr>b_dirty := True\<rparr>) s in krelease LogLk s) = krelease LogLk (f t)"
    if t: "bufs t = bufs s" "logs t = logs s" for t
  proof (cases "first_idx (\<lambda>x. x = ?n) (take ?N (lh_block (logs s)))")
    case None
    then have "?n \<notin> set (take ?N (lh_block (logs s)))" by (auto simp: first_idx_None)
    moreover have "of_nat ?N = lh_n (logs s)" by (simp add: sn)
    ultimately show ?thesis using None by (simp add: f_def t log_n_def note_block_def upd_log_def)
  next
    case (Some i)
    then have i: "i < length (take ?N (lh_block (logs s)))" "take ?N (lh_block (logs s)) ! i = ?n" by (auto simp: first_idx_Some)
    then have "?n \<in> set (take ?N (lh_block (logs s)))" by (metis nth_mem)
    moreover have "lh_block (logs s) ! i = ?n" "i < ?N" using i by auto
    moreover from this have "unat (of_nat i :: 32 word) < unat (lh_n (logs s))" using unat_lt32[of "lh_n (logs s)"] by (simp add: sn unat_of_nat32)
    then have "of_nat i \<noteq> lh_n (logs s)" by auto
    moreover have "(lh_block (logs s))[i := ?n] = lh_block (logs s)" using \<open>lh_block (logs s) ! i = ?n\<close> by (metis list_update_id)
    ultimately show ?thesis using Some by (simp add: f_def t log_n_def note_block_def upd_log_def)
  qed
  have "f (s\<lparr>mach := m\<rparr>) = (f s)\<lparr>mach := m\<rparr>" for m by (simp add: f_def upd_buf_def upd_log_def)
  note c = critical[of s f LogLk, OF q this]
  show ?thesis unfolding log_write_def if_not_P[OF nf] if_not_P[OF o] c(1) bnd_simps
    by (subst e, simp, simp, unfold c(2)) (simp add: f_def)
qed


lemma set_dirty:
  assumes ok: "bc_ok B s" and b: "b \<in> B"
  shows "bc_ok B (upd_buf b (\<lambda>k. k\<lparr>b_dirty := True\<rparr>) s)" "cval (upd_buf b (\<lambda>k. k\<lparr>b_dirty := True\<rparr>) s) = cval s"
    "dirty (upd_buf b (\<lambda>k. k\<lparr>b_dirty := True\<rparr>) s) = insert (b_blockno (bufs s ! b)) (dirty s)"
proof -
  let ?t = "upd_buf b (\<lambda>k. k\<lparr>b_dirty := True\<rparr>) s"
  note lb = locked_buf[OF ok b]
  obtain xs i where q: "quiet s" "mru s xs" "running s = Some i" "i < length (procs s)"
    and bo: "\<And>b. b < 30 \<Longrightarrow> buf_ok B (pid (procs s ! i)) (disk s) b (bufs s ! b)"
    and un: "\<And>b c. b < 30 \<Longrightarrow> c < 30 \<Longrightarrow> b_dev (bufs s ! b) = 1 \<Longrightarrow> b_dev (bufs s ! c) = 1 \<Longrightarrow>
          b_blockno (bufs s ! b) = b_blockno (bufs s ! c) \<Longrightarrow> b = c"
    and dl: "\<And>x. x \<in> set (disk s) \<Longrightarrow> length x = 512" and B: "B \<subseteq> {..<30}" and l: "length (bufs s) = 30"
    by (rule bc_okE[OF ok], rule that) assumption+
  have nb: "bufs ?t ! a = (if a = b then (bufs s ! b)\<lparr>b_dirty := True\<rparr> else bufs s ! a)" for a using lb by (simp add: bufs_upd_buf)
  show "bc_ok B ?t"
  proof (rule bc_okI[OF _ mru_upd_buf[OF q(2)]])
    show "buf_ok B (pid (procs ?t ! i)) (disk ?t) a (bufs ?t ! a)" if "a < 30" for a
      using bo[OF that] b lb(2) by (auto simp: nb buf_ok_def)
    show "a = c" if "a < 30" "c < 30" "b_dev (bufs ?t ! a) = 1" "b_dev (bufs ?t ! c) = 1" "b_blockno (bufs ?t ! a) = b_blockno (bufs ?t ! c)" for a c
      using un[OF that(1,2)] that(3-5) by (auto simp: nb split: if_splits)
  qed (use q dl B in auto)
  have w: "wanted 1 n ?t = wanted 1 n s" for n by (auto simp: wanted_def nb fun_eq_iff)
  show "cval ?t = cval s" by (rule ext) (simp add: cval_def cached_def w nb split: option.split)
  show "dirty ?t = insert (b_blockno (bufs s ! b)) (dirty s)" using lb(1) by (auto simp: dirty_def nb split: if_splits)
qed

lemma log_n_note:
  assumes "0 \<le> sint (lh_n l)" "unat (lh_n l) < 30" "length (lh_block l) = 30"
  shows "take (nat (sint (lh_n (note_block n l)))) (lh_block (note_block n l))
       = (let bs = take (nat (sint (lh_n l))) (lh_block l) in if n \<in> set bs then bs else bs @ [n])"
    "0 \<le> sint (lh_n (note_block n l))" "nat (sint (lh_n (note_block n l))) \<le> nat (sint (lh_n l)) + 1"
    "length (lh_block (note_block n l)) = 30"
proof -
  note sn = sint_nonneg[OF assms(1)]
  have "unat (lh_n l + 1) = unat (lh_n l) + 1" using assms(2) by (simp add: unat_word_ariths)
  then have u: "sint (lh_n l + 1) = int (unat (lh_n l) + 1)" using assms(2) sint_eq_unat[of "lh_n l + 1"] by simp
  then have v: "nat (sint (lh_n l + 1)) = Suc (unat (lh_n l))" "0 \<le> sint (lh_n l + 1)" by linarith+
  show "take (nat (sint (lh_n (note_block n l)))) (lh_block (note_block n l))
       = (let bs = take (nat (sint (lh_n l))) (lh_block l) in if n \<in> set bs then bs else bs @ [n])"
    using assms(2,3) by (simp add: note_block_def sn(2) v Let_def take_Suc_conv_app_nth)
  show "0 \<le> sint (lh_n (note_block n l))" "nat (sint (lh_n (note_block n l))) \<le> nat (sint (lh_n l)) + 1"
    "length (lh_block (note_block n l)) = 30"
    using assms v by (simp_all add: note_block_def sn(2))
qed

lemma note_block_fields [simp]:
  "l_start (note_block n l) = l_start l" "l_size (note_block n l) = l_size l" "l_outstanding (note_block n l) = l_outstanding l"
  "l_committing (note_block n l) = l_committing l" "l_dev (note_block n l) = l_dev l"
  by (simp_all add: note_block_def)

lemma card_logged: "log_geom s \<Longrightarrow> card (set (logged s)) < 30"
  using card_length[of "logged s"] by (simp add: log_geom_def logged_def)

text \<open>A block in a locked buffer \<open>a\<close>, as \<open>bread\<close> returns it; nothing else has changed.\<close>

definition has_block :: "kernel \<Rightarrow> 32 word \<Rightarrow> nat \<Rightarrow> kernel \<Rightarrow> bool" where
  "has_block s n a u \<longleftrightarrow> bc_ok {a} u \<and> frame s u \<and> disk u = disk s \<and> dwrites u = dwrites s \<and> cval u = cval s \<and> dirty u = dirty s
     \<and> b_blockno (bufs u ! a) = n \<and> b_data (bufs u ! a) = cval s n \<and> (b_dirty (bufs u ! a) \<longleftrightarrow> n \<in> dirty s)"

lemma read_block:
  assumes ok: "bc_ok {} s" and c: "card (dirty s) < 30" and n: "unat n < length (disk s)"
  shows "\<exists>a u. bread 1 n s = Ok a u \<and> has_block s n a u"
proof -
  have "\<exists>e < 30. e \<notin> {} \<and> \<not> b_dirty (bufs s ! e)" by (rule free_buffer[OF ok]) (use c in simp)
  then show ?thesis using bread_bc[OF ok n] by (auto simp: has_block_def)
qed

lemma release_block:
  assumes ok: "bc_ok {} s" and h: "has_block s n a u"
  shows "\<exists>t. brelse a u = Ok () t \<and> frame s t \<and> put_blocks [] s t"
proof -
  have u: "bc_ok {a} u" "frame s u" "disk u = disk s" "dwrites u = dwrites s" "cval u = cval s" "dirty u = dirty s"
    using h by (simp_all add: has_block_def)
  have "b_dirty (bufs u ! a) \<or> b_data (bufs u ! a) = disk u ! unat (b_blockno (bufs u ! a))"
    using h cval_clean[OF ok, of n] by (auto simp: has_block_def)
  then obtain t where t: "brelse a u = Ok () t" "bc_ok ({a} - {a}) t" "frame u t" "disk t = disk u" "dwrites t = dwrites u" "cval t = cval u" "dirty t = dirty u"
    using brelse_bc[OF u(1) insertI1] by blast
  then show ?thesis using u frame_trans[OF u(2) t(3)] by (simp add: put_blocks_def)
qed

text \<open>Block \<open>n\<close> has new contents \<open>d\<close>, in the cache and in the log of the transaction, not yet on disk; and there is room for
  \<open>k\<close> more blocks in the transaction.\<close>

definition logged_to :: "32 word \<Rightarrow> block \<Rightarrow> kernel \<Rightarrow> kernel \<Rightarrow> bool" where
  "logged_to n d s t \<longleftrightarrow> bc_ok {} t \<and> log_ok t \<and> disk t = disk s \<and> dwrites t = dwrites s \<and> cval t = (cval s)(n := d)
     \<and> set (logged t) = insert n (set (logged s)) \<and> rest t = rest (upd_log (note_block n) s)"

definition room :: "nat \<Rightarrow> kernel \<Rightarrow> bool" where
  "room k s \<longleftrightarrow> log_n s + k < LOGSIZE \<and> log_n s + k < unat (l_size (logs s)) \<and> unat (l_size (logs s)) < 2 ^ 31
     \<and> \<not> s_lt (l_outstanding (logs s)) 1"

lemma log_okD:
  assumes "log_ok s"
  shows "log_geom s" "dirty s = set (logged s)" "card (dirty s) < 30" "0 \<le> sint (lh_n (logs s))" "unat (lh_n (logs s)) < 30"
    "length (lh_block (logs s)) = 30"
proof -
  show g: "log_geom s" "dirty s = set (logged s)" using assms by (simp_all add: log_ok_def)
  then show "card (dirty s) < 30" by (simp add: card_logged)
  show n: "0 \<le> sint (lh_n (logs s))" "length (lh_block (logs s)) = 30" using g by (simp_all add: log_geom_def)
  show "unat (lh_n (logs s)) < 30" using g sint_nonneg[OF n(1)] by (simp add: log_geom_def log_n_def)
qed

lemma log_block:
  assumes ok: "bc_ok {} s" and lg: "log_ok s" and r: "room (Suc k) s" and h: "has_block s n a u"
    and n: "unat n < length (disk s)" "unat n \<notin> log_area s" and d: "length d = 512"
  shows "\<exists>w t. log_write a (upd_buf a (\<lambda>k. k\<lparr>b_data := d\<rparr>) u) = Ok () w \<and> brelse a w = Ok () t \<and> logged_to n d s t"
proof -
  have g: "log_geom s" and ds: "dirty s = set (logged s)" and h0: "get32 (disk s ! unat (l_start (logs s))) 0 = 0" "\<not> l_committing (logs s)"
    using lg by (simp_all add: log_ok_def)
  have r: "log_n s + 1 < 30" "log_n s + 1 < unat (l_size (logs s))" "unat (l_size (logs s)) < 2 ^ 31" "\<not> s_lt (l_outstanding (logs s)) 1"
    using r by (simp_all add: room_def)
  have u: "bc_ok {a} u" "frame s u" "disk u = disk s" "dwrites u = dwrites s" "cval u = cval s" "dirty u = dirty s" "b_blockno (bufs u ! a) = n"
    using h by (simp_all add: has_block_def)
  have a: "a < 30" using locked_buf(1)[OF u(1)] by simp
  define v where "v = upd_buf a (\<lambda>k. k\<lparr>b_data := d\<rparr>) u"
  have v: "bc_ok {a} v" "cval v = (cval s)(n := d)" "dirty v = dirty s" using set_data[OF u(1) _ d, of a] u by (simp_all add: v_def)
  have fv: "frame s v" "disk v = disk s" "dwrites v = dwrites s" "b_blockno (bufs v ! a) = n"
    using u a locked_buf(4)[OF u(1), of a] by (simp_all add: v_def bufs_upd_buf frame_trans[OF u(2) frame_upd_buf])
  have lv: "logs v = logs s" "quiet v" using frameD(2,4)[OF fv(1)] ok by (auto simp: bc_ok_def)
  note lf = log_frame[OF lv(1), unfolded fv(2), OF refl]
  define w where "w = upd_buf a (\<lambda>k. k\<lparr>b_dirty := True\<rparr>) (upd_log (note_block n) v)"
  have lw: "log_write a v = Ok () w"
    using log_write_ok[OF lv(2), of a] lf g r lv(1) fv(4) by (simp add: w_def)
  have w: "bc_ok {a} w" "cval w = (cval s)(n := d)" "dirty w = insert n (dirty s)" "disk w = disk s" "dwrites w = dwrites s"
    using set_dirty[of "{a}" "upd_log (note_block n) v" a] v fv by (simp_all add: w_def)
  have wd: "b_dirty (bufs w ! a)" using locked_buf(4)[OF v(1), of a] a by (simp add: w_def bufs_upd_buf)
  obtain t where t: "brelse a w = Ok () t" "bc_ok ({a} - {a}) t" "frame w t" "disk t = disk w" "dwrites t = dwrites w" "cval t = cval w" "dirty t = dirty w"
    using brelse_bc[OF w(1) insertI1] wd by blast
  have "rest w = rest (upd_log (note_block n) v)" unfolding w_def by (simp add: rest_def upd_buf_def)
  then have rt: "rest t = rest (upd_log (note_block n) s)" using t(3) fv(1) by (simp add: frame_def)
  have lt: "logs t = note_block n (logs s)" using logs_rest[OF rt] by simp
  note ln = log_n_note[OF log_okD(4,5,6)[OF lg], of n]
  have gd: "logged t = (if n \<in> set (logged s) then logged s else logged s @ [n])" using ln(1) by (simp add: logged_def log_n_def lt Let_def)
  have area: "log_area t = log_area s" by (simp add: log_area_def lt)
  have dt: "disk t = disk s" using t(4) w(4) by simp
  have "log_geom t" unfolding log_geom_def area gd dt
    using g ln r n by (auto simp: log_geom_def lt log_n_def)
  moreover have ins: "set (logged t) = insert n (set (logged s))" using gd by auto
  ultimately have "log_ok t" using t w ds h0 by (simp add: log_ok_def lt)
  then have "logged_to n d s t" using t w rt ins by (simp add: logged_to_def)
  then show ?thesis using lw t(1) by (auto simp: v_def)
qed

lemma logged_toD:
  assumes "logged_to n d s t"
  shows "logs t = note_block n (logs s)" "fsb t = fsb s" "inodes t = inodes s" "log_area t = log_area s"
    "bc_ok {} t" "log_ok t" "disk t = disk s" "dwrites t = dwrites s" "cval t = (cval s)(n := d)"
proof -
  have r: "rest t = rest (upd_log (note_block n) s)" using assms by (simp add: logged_to_def)
  have f: "fsb x = fsb (rest x)" "inodes x = inodes (rest x)" for x by (simp_all add: rest_def)
  show "logs t = note_block n (logs s)" using logs_rest[OF r] by simp
  then show "log_area t = log_area s" by (simp add: log_area_def)
  have "fsb (upd_log g s) = fsb s" "inodes (upd_log g s) = inodes s" for g by (simp_all add: upd_log_def)
  then show "fsb t = fsb s" "inodes t = inodes s" using f[of t] f[of "upd_log (note_block n) s"] r by simp_all
qed (use assms in \<open>simp_all add: logged_to_def\<close>)

lemma room_after:
  assumes "logged_to n d s t" "log_ok s" "room (Suc k) s"
  shows "room k t"
proof -
  have l: "logs t = note_block n (logs s)" using logged_toD(1)[OF assms(1)] .
  have "log_n t \<le> log_n s + 1" using log_n_note(3)[OF log_okD(4,5,6)[OF assms(2)], of n] by (simp add: log_n_def l)
  then show ?thesis using assms(3) by (auto simp: room_def l)
qed

text \<open>The use of the log that \<open>log_write\<close> documents: read a block, modify it, log it, release it.\<close>

definition log_modify :: "32 word \<Rightarrow> (block \<Rightarrow> block) \<Rightarrow> kernel \<Rightarrow> unit kres" where
  "log_modify n f s =
     bnd (bread 1 n s) (\<lambda>b s.
     bnd (log_write b (upd_buf b (\<lambda>k. k\<lparr>b_data := f (b_data k)\<rparr>) s)) (\<lambda>_ s. brelse b s))"

lemma has_block_upd: "has_block s n a u \<Longrightarrow> upd_buf a (\<lambda>k. k\<lparr>b_data := f (b_data k)\<rparr>) u = upd_buf a (\<lambda>k. k\<lparr>b_data := f (cval s n)\<rparr>) u"
  by (simp add: has_block_def upd_buf_def)

lemma log_modify_ok:
  assumes "bc_ok {} s" "log_ok s" "room (Suc k) s" "unat n < length (disk s)" "unat n \<notin> log_area s" "length (f (cval s n)) = 512"
  shows "\<exists>t. log_modify n f s = Ok () t \<and> logged_to n (f (cval s n)) s t \<and> room k t"
proof -
  obtain a u where u: "bread 1 n s = Ok a u" "has_block s n a u" using read_block[OF assms(1) log_okD(3)[OF assms(2)] assms(4)] by blast
  obtain w t where t: "log_write a (upd_buf a (\<lambda>k. k\<lparr>b_data := f (cval s n)\<rparr>) u) = Ok () w" "brelse a w = Ok () t" "logged_to n (f (cval s n)) s t"
    using log_block[OF assms(1-3) u(2) assms(4-6)] by blast
  then show ?thesis using u(1) room_after[OF t(3) assms(2,3)] by (simp add: log_modify_def has_block_upd[OF u(2)])
qed

text \<open>Several updates of one transaction.\<close>

primrec log_updates :: "(32 word \<times> block) list \<Rightarrow> kernel \<Rightarrow> unit kres" where
  "log_updates [] s = Ok () s"
| "log_updates (u # us) s = bnd (log_modify (fst u) (\<lambda>_. snd u) s) (\<lambda>_ s. log_updates us s)"

lemma log_updates_ok:
  assumes "bc_ok {} s" "log_ok s" "room (length us) s"
    "\<forall>u \<in> set us. unat (fst u) < length (disk s) \<and> unat (fst u) \<notin> log_area s \<and> length (snd u) = 512"
  shows "\<exists>t. log_updates us s = Ok () t \<and> bc_ok {} t \<and> log_ok t \<and> disk t = disk s \<and> dwrites t = dwrites s
     \<and> cval t = new_view us (cval s) \<and> set (logged t) = fst ` set us \<union> set (logged s)
     \<and> (\<exists>bs k. rest t = rest (upd_log (\<lambda>l. l\<lparr>lh_n := k, lh_block := bs\<rparr>) s))"
  using assms
proof (induction us arbitrary: s)
  case Nil
  have "rest s = rest (upd_log (\<lambda>l. l\<lparr>lh_n := lh_n (logs s), lh_block := lh_block (logs s)\<rparr>) s)" by (simp add: upd_log_def rest_def)
  then show ?case using Nil by (auto simp: fun_eq_iff)
next
  case (Cons u us)
  obtain z where z: "log_modify (fst u) (\<lambda>_. snd u) s = Ok () z" "logged_to (fst u) (snd u) s z" "room (length us) z"
    using log_modify_ok[OF Cons.prems(1,2), of "length us" "fst u" "\<lambda>_. snd u"] Cons.prems(3,4) by auto
  note zd = logged_toD[OF z(2)]
  obtain t where t: "log_updates us z = Ok () t" "bc_ok {} t" "log_ok t" "disk t = disk z" "dwrites t = dwrites z"
     "cval t = new_view us (cval z)" "set (logged t) = fst ` set us \<union> set (logged z)"
     "\<exists>bs k. rest t = rest (upd_log (\<lambda>l. l\<lparr>lh_n := k, lh_block := bs\<rparr>) z)"
    using Cons.IH[OF zd(5,6) z(3)] Cons.prems(4) zd(4,7) by auto
  have rz: "rest z = rest (upd_log (note_block (fst u)) s)" "set (logged z) = insert (fst u) (set (logged s))" using z(2) by (simp_all add: logged_to_def)
  obtain bs k where "rest t = upd_log (\<lambda>l. l\<lparr>lh_n := k, lh_block := bs\<rparr>) (rest z)" using t(8) by auto
  then have "rest t = rest (upd_log (\<lambda>l. l\<lparr>lh_n := k, lh_block := bs\<rparr>) s)"
    unfolding rz(1) by (simp add: upd_log_def note_block_def rest_def)
  moreover have "cval t = new_view (u # us) (cval s)" unfolding t(6) zd(9) by (simp add: fun_eq_iff)
  ultimately show ?case using z(1) zd(7,8) t(1-5,7) rz(2) by auto
qed

lemma wakeup1_view [simp]:
  "bc_ok B (wakeup1 ch s) = bc_ok B s" "cval (wakeup1 ch s) = cval s" "dirty (wakeup1 ch s) = dirty s" "disk (wakeup1 ch s) = disk s"
  "dwrites (wakeup1 ch s) = dwrites s" "bufs (wakeup1 ch s) = bufs s" "logs (wakeup1 ch s) = logs s" "rest (wakeup1 ch s) = rest s"
proof -
  let ?t = "wakeup1 ch s"
  show f: "bufs ?t = bufs s" "disk ?t = disk s" "dwrites ?t = dwrites s" "logs ?t = logs s" "rest ?t = rest s"
    by (simp_all add: wakeup1_def rest_def)
  have h: "head_next ?t = head_next s" "head_prev ?t = head_prev s" "mach ?t = mach s" "length (procs ?t) = length (procs s)" by (simp_all add: wakeup1_def)
  have p: "pid (procs ?t ! i) = pid (procs s ! i)" if "i < length (procs s)" for i using that by (simp add: wakeup1_def)
  have q: "quiet ?t = quiet s" "running ?t = running s" by (simp_all add: h quiet_def running_def)
  have "nextof ?t = nextof s" "prevof ?t = prevof s" by (auto simp: nextof_def prevof_def fun_eq_iff f h)
  then have m: "mru ?t = mru s" by (intro ext) (simp add: mru_def f)
  have w: "wanted 1 n ?t = wanted 1 n s" for n by (intro ext) (simp add: wanted_def f)
  show "bc_ok B ?t = bc_ok B s" by (simp add: bc_ok_def m q f h p cong: conj_cong)
  show "cval ?t = cval s" by (intro ext) (simp add: cval_def cached_def w f split: option.split)
  show "dirty ?t = dirty s" by (simp add: dirty_def f)
qed

lemma bc_ok_quiet: "bc_ok B s \<Longrightarrow> quiet s"
  by (simp add: bc_ok_def)

definition tx_writes :: "kernel \<Rightarrow> (32 word \<times> block) list" where
  "tx_writes s = (if 0 < log_n s then commit_writes s else [])"

lemma commit_any:
  assumes ok: "bc_ok {} s" and g: "log_geom s" and d: "dirty s = set (logged s)"
  shows "\<exists>t. commit s = Ok () t \<and> rest t = rest (upd_log (\<lambda>l. l\<lparr>lh_n := 0\<rparr>) s) \<and> put_blocks (tx_writes s) s t"
proof (cases "0 < log_n s")
  case True
  then show ?thesis using commit_ok[OF assms] by (simp add: tx_writes_def)
next
  case False
  then have "sint (lh_n (logs s)) = 0" using g by (simp add: log_n_def log_geom_def)
  then have "lh_n (logs s) = 0" using sint_nonneg(2)[of "lh_n (logs s)"] by (simp add: unat_eq_zero)
  then have "upd_log (\<lambda>l. l\<lparr>lh_n := 0\<rparr>) s = s" by (simp add: upd_log_def)
  moreover have "commit s = Ok () s" using False by (simp add: commit_def s_lt_log_n)
  ultimately show ?thesis using False put_blocks_refl[OF ok] by (auto simp: tx_writes_def)
qed

lemma end_op_last:
  assumes ok: "bc_ok {} s" and lo: "log_ok s" and o: "l_outstanding (logs s) = 1"
  shows "\<exists>t. end_op s = Ok () t \<and> put_blocks (tx_writes s) s t
     \<and> rest t = rest (upd_log (\<lambda>l. l\<lparr>l_outstanding := 0, l_committing := False, lh_n := 0\<rparr>) s)"
proof -
  let ?f = "\<lambda>l. l\<lparr>l_outstanding := l_outstanding l - 1\<rparr>" and ?g = "\<lambda>l. l\<lparr>l_committing := True\<rparr>"
  define s1 where "s1 = upd_log ?g (upd_log ?f s)"
  note q = bc_ok_quiet[OF ok]
  have g: "log_geom s" and d: "dirty s = set (logged s)" and nc: "\<not> l_committing (logs s)" using lo by (simp_all add: log_ok_def)
  note c1 = critical[OF q, of "\<lambda>s. upd_log ?g (upd_log ?f s)" LogLk]
  have ok1: "bc_ok {} s1" "dirty s1 = dirty s" "disk s1 = disk s" "dwrites s1 = dwrites s" "cval s1 = cval s" using ok by (simp_all add: s1_def)
  have l1: "logs s1 = (logs s)\<lparr>l_outstanding := 0, l_committing := True\<rparr>" using o by (simp add: s1_def)
  have e: "log_geom s1 = log_geom s" "logged s1 = logged s" "tx_writes s1 = tx_writes s"
    using ok1 by (simp_all add: log_geom_def logged_def log_n_def log_area_def l1 tx_writes_def commit_writes_def logblk_def Let_def)
  obtain t1 where t1: "commit s1 = Ok () t1" "rest t1 = rest (upd_log (\<lambda>l. l\<lparr>lh_n := 0\<rparr>) s1)" "put_blocks (tx_writes s) s1 t1"
    using commit_any[OF ok1(1)] g d e ok1(2) by auto
  have ok2: "bc_ok {} t1" using t1(3) by (simp add: put_blocks_def)
  note q2 = bc_ok_quiet[OF ok2]
  let ?h = "\<lambda>l. l\<lparr>l_committing := False\<rparr>"
  have "wakeup1 (Some ChLog) (upd_log ?h (t1\<lparr>mach := m\<rparr>)) = (wakeup1 (Some ChLog) (upd_log ?h t1))\<lparr>mach := m\<rparr>" for m
    by (simp add: wakeup1_def upd_log_def)
  note c2 = critical[OF q2, of "\<lambda>s. wakeup1 (Some ChLog) (upd_log ?h s)" LogLk, OF this]
  have w: "wakeup ChLog (upd_log ?h (t1\<lparr>mach := hold LogLk (mach t1)\<rparr>)) = Ok () (wakeup1 (Some ChLog) (upd_log ?h (t1\<lparr>mach := hold LogLk (mach t1)\<rparr>)))"
    by (rule wakeup_held) (use quietD[OF q2] in simp_all)
  let ?t = "wakeup1 (Some ChLog) (upd_log ?h t1)"
  have "end_op s = Ok () ?t"
    using c1 c2 w nc o t1(1) by (simp add: end_op_def Let_def s1_def)
  moreover have "put_blocks (tx_writes s) s ?t" using t1(3) ok1 by (simp add: put_blocks_def)
  moreover have "rest ?t = rest (upd_log (\<lambda>l. l\<lparr>l_outstanding := 0, l_committing := False, lh_n := 0\<rparr>) s)"
    using t1(2) o by (simp add: s1_def) (simp add: upd_log_def rest_def)
  ultimately show ?thesis by blast
qed

end
