(* ===== verification/Crash.thy ===== *)
theory Crash
  imports Commit "HOL-Library.Sublist"
begin

text \<open>
  Crash safety of the write-ahead log: what a prefix of the block writes of a commit or of a recovery leaves on
  disk, and the theorems on transactions.  A block write is taken to be atomic, as the log assumes.
\<close>

section \<open>Disk images after a crash\<close>

text \<open>A crash leaves the disk as a prefix of the block writes has made it.  Two images that agree outside the log.\<close>

definition home_eq :: "nat \<Rightarrow> nat \<Rightarrow> block list \<Rightarrow> block list \<Rightarrow> bool" where
  "home_eq st len X Y \<longleftrightarrow> length X = length Y \<and> (\<forall>m < length X. m \<notin> {st..<st + len} \<longrightarrow> X ! m = Y ! m)"

lemma home_eq_trans: "home_eq st len X Y \<Longrightarrow> home_eq st len Y Z \<Longrightarrow> home_eq st len X Z"
  by (simp add: home_eq_def)

lemma apply_writes_nth:
  "m < length D \<Longrightarrow> apply_writes ws D ! m = (case map_of (rev ws) m of Some x \<Rightarrow> x | None \<Rightarrow> D ! m)"
proof (induction ws rule: rev_induct)
  case (snoc w ws)
  then show ?case by (cases w) (auto simp: nth_list_update)
qed simp

lemma apply_writes_other: "m < length D \<Longrightarrow> m \<notin> fst ` set ws \<Longrightarrow> apply_writes ws D ! m = D ! m"
  by (simp add: apply_writes_nth map_of_eq_None_iff[THEN iffD2])

lemma apply_writes_at:
  assumes "i < n" "inj_on a {..<n}" "a i < length D"
  shows "apply_writes (map (\<lambda>i. (a i, v i)) [0..<n]) D ! a i = v i"
proof -
  have "distinct (map fst (rev (map (\<lambda>i. (a i, v i)) [0..<n])))"
    using assms(2) by (simp add: distinct_map o_def rev_map[symmetric] lessThan_atLeast0)
  moreover have "(a i, v i) \<in> set (rev (map (\<lambda>i. (a i, v i)) [0..<n]))" using assms(1) by auto
  ultimately have "map_of (rev (map (\<lambda>i. (a i, v i)) [0..<n])) (a i) = Some (v i)" by (rule map_of_is_SomeI)
  then show ?thesis using assms(3) by (simp add: apply_writes_nth)
qed

lemma apply_writes_again:
  assumes "fst ` set vs \<subseteq> fst ` set ws"
  shows "apply_writes ws (apply_writes vs D) = apply_writes ws D"
proof (rule nth_equalityI)
  fix m assume m: "m < length (apply_writes ws (apply_writes vs D))"
  show "apply_writes ws (apply_writes vs D) ! m = apply_writes ws D ! m"
  proof (cases "m \<in> fst ` set ws")
    case True
    then have "map_of (rev ws) m \<noteq> None" by (simp add: map_of_eq_None_iff)
    then show ?thesis using m by (auto simp: apply_writes_nth)
  next
    case False
    then have "m \<notin> fst ` set vs" using assms by blast
    then show ?thesis using m False by (simp add: apply_writes_other)
  qed
qed simp

lemma home_eq_writes: "fst ` set ws \<subseteq> {st..<st + len} \<Longrightarrow> home_eq st len (apply_writes ws D) D"
  by (auto simp: home_eq_def intro!: apply_writes_other)

lemma home_eq_apply: "home_eq st len X Y \<Longrightarrow> home_eq st len (apply_writes ws X) (apply_writes ws Y)"
  by (auto simp: home_eq_def apply_writes_nth split: option.split)

lemma blocks_apply_writes:
  assumes "\<forall>x \<in> set D. length x = 512" "\<forall>w \<in> set ws. length (snd w) = 512"
  shows "\<forall>x \<in> set (apply_writes ws D). length x = 512"
  using assms
proof (induction ws arbitrary: D)
  case (Cons w ws)
  have "\<forall>x \<in> set (D[fst w := snd w]). length x = 512" using Cons.prems set_update_subset_insert[of D "fst w" "snd w"] by auto
  then have "\<forall>x \<in> set (apply_writes ws (D[fst w := snd w])). length x = 512" using Cons.prems by (intro Cons.IH) simp_all
  then show ?case by (cases w) simp
qed simp

text \<open>The image of a disk in which only blocks other than the header have changed, and of one whose header is empty.\<close>

lemma header_same: "D' ! st = D ! st \<Longrightarrow> header_n st D' = header_n st D \<and> header_block st D' = header_block st D"
  by (auto simp: header_n_def header_block_def)

lemma image_same:
  assumes "image_ok st len D" "D' ! st = D ! st" "length D' = length D" "\<forall>x \<in> set D'. length x = 512"
  shows "image_ok st len D'"
  using assms header_same[OF assms(2)] by (simp add: image_ok_def)

lemma image_empty:
  assumes "get32 (D ! st) 0 = 0" "1 < st" "0 < len" "st + len \<le> length D" "length D < 2 ^ 32" "\<forall>x \<in> set D. length x = 512"
  shows "image_ok st len D" "replay st D = []"
  using assms by (simp_all add: image_ok_def header_n_def replay_def)

lemma replay_props:
  assumes "image_ok st len D"
  shows "fst ` set (replay st D) \<inter> insert 1 {st..<st + len} = {}" "\<forall>w \<in> set (replay st D). length (snd w) = 512" "st < length D" "0 < len" "1 < st"
proof -
  show "st < length D" "0 < len" "1 < st" using assms by (auto simp: image_ok_def)
  show "fst ` set (replay st D) \<inter> insert 1 {st..<st + len} = {}" using assms by (auto simp: image_ok_def replay_def)
  have "length (D ! (st + i + 1)) = 512" if "i < header_n st D" for i
    using assms that by (auto simp: image_ok_def)
  then show "\<forall>w \<in> set (replay st D). length (snd w) = 512" by (auto simp: replay_def)
qed

lemma replay_crash:
  assumes im: "image_ok st len D" and p: "prefix ws (replay st D @ [(st, h)])" and h: "get32 h 0 = 0" "length h = 512"
  defines "D' \<equiv> apply_writes ws D"
  shows "image_ok st len D' \<and> D' ! 1 = D ! 1 \<and> home_eq st len (apply_writes (replay st D') D') (apply_writes (replay st D) D)"
proof -
  note rp = replay_props[OF im]
  have b: "\<forall>x \<in> set D. length x = 512" using im by (simp add: image_ok_def)
  have "1 \<notin> fst ` set ws" using set_mono_prefix[OF p] rp(1,5) by auto
  then have d1: "D' ! 1 = D ! 1" unfolding D'_def using rp(3,5) by (intro apply_writes_other) auto
  consider "ws = replay st D @ [(st, h)]" | "prefix ws (replay st D)" using p by auto
  then show ?thesis
  proof cases
    case 1
    have "\<forall>x \<in> set D'. length x = 512"
      unfolding D'_def by (rule blocks_apply_writes[OF b]) (use 1 rp h in auto)
    moreover have "D' ! st = h" using rp by (simp add: D'_def 1)
    ultimately have e: "image_ok st len D'" "replay st D' = []" using image_empty[of D' st len] h im by (simp_all add: image_ok_def D'_def)
    have "D' = apply_writes [(st, h)] (apply_writes (replay st D) D)" by (simp add: D'_def 1)
    then have "home_eq st len D' (apply_writes (replay st D) D)" using home_eq_writes[of "[(st, h)]" st len] rp(4) by simp
    then show ?thesis using e d1 by simp
  next
    case 2
    then have sub: "set ws \<subseteq> set (replay st D)" by (rule set_mono_prefix)
    have o: "m \<notin> fst ` set ws" if "m \<in> {st..<st + len}" for m using sub rp(1) that by blast
    have k: "D' ! m = D ! m" if "m \<in> {st..<st + len}" for m
    proof -
      have "m < length D" using im that by (auto simp: image_ok_def)
      then show ?thesis unfolding D'_def using o[OF that] by (rule apply_writes_other)
    qed
    have st: "D' ! st = D ! st" using k rp(4) by simp
    have "\<forall>x \<in> set D'. length x = 512" unfolding D'_def by (rule blocks_apply_writes[OF b]) (use sub rp in auto)
    then have i: "image_ok st len D'" using image_same[OF im st] by (simp add: D'_def)
    have "replay st D' = replay st D"
      unfolding replay_def using header_same[OF st] k im by (auto simp: image_ok_def)
    moreover have "apply_writes (replay st D) D' = apply_writes (replay st D) D"
      unfolding D'_def by (rule apply_writes_again) (use sub in auto)
    ultimately show ?thesis using i d1 by (simp add: home_eq_def)
  qed
qed

lemma commit_done:
  assumes "fst ` set L \<subseteq> {st..<st + len}" "0 < len" "st < length D"
  shows "home_eq st len (apply_writes (L @ [(st, h)] @ H @ [(st, h0)]) D) (apply_writes H D)"
    "apply_writes (L @ [(st, h)] @ H @ [(st, h0)]) D ! st = h0"
proof -
  have "home_eq st len (apply_writes (L @ [(st, h)]) D) D" by (rule home_eq_writes) (use assms in auto)
  then have f1: "home_eq st len (apply_writes H (apply_writes (L @ [(st, h)]) D)) (apply_writes H D)" by (rule home_eq_apply)
  have "home_eq st len (apply_writes (L @ [(st, h)] @ H @ [(st, h0)]) D) (apply_writes H (apply_writes (L @ [(st, h)]) D))"
    using home_eq_writes[of "[(st, h0)]" st len "apply_writes H (apply_writes (L @ [(st, h)]) D)"] assms(2) by simp
  then show "home_eq st len (apply_writes (L @ [(st, h)] @ H @ [(st, h0)]) D) (apply_writes H D)" using f1 by (rule home_eq_trans)
  show "apply_writes (L @ [(st, h)] @ H @ [(st, h0)]) D ! st = h0" using assms(3) by simp
qed

lemma commit_crash:
  assumes im: "image_ok st len D" "get32 (D ! st) 0 = 0"
    and N: "N < LOGSIZE" "N < len" and bl: "inj_on bl {..<N}" "\<And>i. i < N \<Longrightarrow> unat (bl i) < length D \<and> unat (bl i) \<notin> insert 1 {st..<st + len}"
    and v: "\<And>i. i < N \<Longrightarrow> length (v i) = 512" and h: "0 \<le> sint (get32 h 0)" "nat (sint (get32 h 0)) = N" "\<And>i. i < N \<Longrightarrow> get32 h (4 + 4 * i) = bl i" "length h = 512"
    and h0: "get32 h0 0 = 0" "length h0 = 512"
  defines "L \<equiv> map (\<lambda>i. (st + i + 1, v i)) [0..<N]" and "H \<equiv> map (\<lambda>i. (unat (bl i), v i)) [0..<N]"
  assumes p: "prefix ws (L @ [(st, h)] @ H @ [(st, h0)])"
  defines "D' \<equiv> apply_writes ws D"
  shows "image_ok st len D' \<and> D' ! 1 = D ! 1 \<and> (home_eq st len (apply_writes (replay st D') D') D \<or> home_eq st len (apply_writes (replay st D') D') (apply_writes H D))"
proof -
  have g: "st + len \<le> length D" "length D < 2 ^ 32" "1 < st" and b: "\<forall>x \<in> set D. length x = 512" using im by (simp_all add: image_ok_def)
  have LA: "fst ` set L \<subseteq> {st..<st + len}" "st \<notin> fst ` set L" using N by (auto simp: L_def)
  have HA: "fst ` set H \<inter> insert 1 {st..<st + len} = {}"
  proof (rule ccontr)
    assume "\<not> ?thesis"
    then obtain w where w: "w \<in> set H" "fst w \<in> insert 1 {st..<st + len}" by blast
    then obtain i where "i < N" "fst w = unat (bl i)" by (auto simp: H_def)
    then show False using bl(2) w(2) by metis
  qed
  have bs: "\<forall>w \<in> set L. length (snd w) = 512" "\<forall>w \<in> set H. length (snd w) = 512" using v by (auto simp: L_def H_def)
  have "1 \<notin> fst ` set L" "1 \<notin> fst ` set H" using HA LA(1) g(3) by auto
  then have "1 \<notin> fst ` set (L @ [(st, h)] @ H @ [(st, h0)])" using g(3) by (simp add: image_Un)
  then have "1 \<notin> fst ` set ws" using image_mono[OF set_mono_prefix[OF p], of fst] by blast
  then have d1: "D' ! 1 = D ! 1" unfolding D'_def using g by (intro apply_writes_other) auto
  consider "prefix ws L" | vs where "ws = L @ (st, h) # vs" "prefix vs H" | "ws = L @ (st, h) # H @ [(st, h0)]"
    using p by (auto simp: prefix_append prefix_Cons)
  then show ?thesis
  proof cases
    case 1
    then have sub: "set ws \<subseteq> set L" by (rule set_mono_prefix)
    have "st \<notin> fst ` set ws" using LA(2) sub by auto
    then have s: "D' ! st = D ! st" unfolding D'_def using g N by (intro apply_writes_other) auto
    have "\<forall>x \<in> set D'. length x = 512" unfolding D'_def by (rule blocks_apply_writes[OF b]) (use sub bs in auto)
    then have "image_ok st len D'" "replay st D' = []" using image_empty[of D' st len] s im g N by (simp_all add: D'_def)
    moreover have "home_eq st len D' D" unfolding D'_def by (rule home_eq_writes) (use LA sub in auto)
    ultimately show ?thesis using d1 by simp
  next
    case 2
    have sub: "set vs \<subseteq> set H" using 2(2) by (rule set_mono_prefix)
    have vo: "m \<notin> fst ` set vs" if "m \<in> {st..<st + len}" for m using sub HA that by blast
    define E where "E = apply_writes (L @ [(st, h)]) D"
    have D': "D' = apply_writes vs E" by (simp add: D'_def E_def 2)
    have lE: "length E = length D" and lD: "length D' = length D" by (simp_all add: E_def D'_def)
    have eq: "D' ! m = E ! m" if "m \<in> {st..<st + len}" for m unfolding D' using vo[OF that] g that lE by (intro apply_writes_other) auto
    have s: "D' ! st = h" using eq[of st] g N by (simp add: E_def)
    have lv: "D' ! (st + i + 1) = v i" if i: "i < N" for i
    proof -
      have "inj_on (\<lambda>i. st + i + 1) {..<N}" by (simp add: inj_on_def)
      then have "apply_writes L D ! (st + i + 1) = v i" unfolding L_def using i g N by (intro apply_writes_at[where a = "\<lambda>i. st + i + 1"]) auto
      then show ?thesis using eq[of "st + i + 1"] i N by (simp add: E_def)
    qed
    have hd: "header_n st D' = N" "\<And>i. i < N \<Longrightarrow> header_block st D' i = bl i" by (simp_all add: header_n_def header_block_def s h)
    have "\<forall>x \<in> set D'. length x = 512" unfolding D'_def by (rule blocks_apply_writes[OF b]) (use 2 sub bs h in auto)
    then have i: "image_ok st len D'"
      using g N bl(2) h(1) bl(1) lE unfolding image_ok_def hd(1) s by (auto simp: hd lD inj_on_def)
    have r: "replay st D' = H" using lv hd by (simp add: replay_def H_def)
    have "apply_writes H D' = apply_writes H E" unfolding D' by (rule apply_writes_again) (use sub in auto)
    moreover have "home_eq st len (apply_writes H E) (apply_writes H D)"
      unfolding E_def by (rule home_eq_apply, rule home_eq_writes) (use LA N in auto)
    ultimately show ?thesis using i r d1 by simp
  next
    case 3
    have "\<forall>x \<in> set D'. length x = 512" unfolding D'_def by (rule blocks_apply_writes[OF b]) (use 3 bs h h0 in auto)
    moreover have "D' ! st = h0" using g N by (simp add: D'_def 3)
    ultimately have e: "image_ok st len D'" "replay st D' = []" using image_empty[of D' st len] h0 g N by (simp_all add: D'_def)
    have "home_eq st len D' (apply_writes H D)" using commit_done(1)[OF LA(1), of D h H h0] N g by (simp add: D'_def 3)
    then show ?thesis using e d1 by simp
  qed
qed

section \<open>Crash safety\<close>

lemma initlock_view:
  assumes "bc_ok B s"
  shows "bc_ok B (s\<lparr>mach := initlock L nm (mach s)\<rparr>)" "cval (s\<lparr>mach := initlock L nm (mach s)\<rparr>) = cval s"
    "dirty (s\<lparr>mach := initlock L nm (mach s)\<rparr>) = dirty s"
proof -
  let ?t = "s\<lparr>mach := initlock L nm (mach s)\<rparr>"
  have q: "quiet ?t" "running ?t = running s" using quiet_initlock[OF bc_ok_quiet[OF assms]] by simp_all
  have "nextof ?t = nextof s" "prevof ?t = prevof s" by (auto simp: nextof_def prevof_def fun_eq_iff)
  then have m: "mru ?t = mru s" by (intro ext) (simp add: mru_def)
  have w: "wanted 1 n ?t = wanted 1 n s" for n by (intro ext) (simp add: wanted_def)
  show "bc_ok B ?t" using assms q unfolding bc_ok_def m by simp
  show "cval ?t = cval s" by (intro ext) (simp add: cval_def cached_def w split: option.split)
  show "dirty ?t = dirty s" by (simp add: dirty_def)
qed

lemma readsb_ok:
  assumes ok: "bc_ok {} s" and d: "dirty s = {}" and l: "1 < length (disk s)"
  shows "\<exists>sb t. readsb 1 s = Ok sb t \<and> sb_nlog sb = get32 (disk s ! 1) 12 \<and> sb_logstart sb = get32 (disk s ! 1) 16
     \<and> frame s t \<and> put_blocks [] s t"
proof -
  have x: "unat (1 :: 32 word) < length (disk s)" using l by simp
  have c: "cval s 1 = disk s ! 1" using cval_clean[OF ok, of 1] d by simp
  have "\<exists>e < 30. e \<notin> {} \<and> \<not> b_dirty (bufs s ! e)" by (rule free_buffer[OF ok]) (simp add: d)
  then obtain a u where u: "bread 1 1 s = Ok a u" "bc_ok {a} u" "frame s u"
     "disk u = disk s" "dwrites u = dwrites s" "cval u = cval s" "dirty u = dirty s"
     "b_blockno (bufs u ! a) = 1" "b_data (bufs u ! a) = cval s 1"
    using bread_bc[OF ok x] by auto
  have "b_data (bufs u ! a) = disk u ! unat (b_blockno (bufs u ! a))" using u c by simp
  then obtain z where z: "brelse a u = Ok () z" "bc_ok ({a} - {a}) z" "frame u z" "disk z = disk u" "dwrites z = dwrites u"
     "cval z = cval u" "dirty z = dirty u"
    using brelse_bc[OF u(2) insertI1] by blast
  have "put_blocks [] s z" using z u by (simp add: put_blocks_def)
  then show ?thesis using u(1,9) z(1) c frame_trans[OF u(3) z(3)] by (simp add: readsb_def Let_def)
qed

text \<open>A kernel that has just booted: nothing is cached that is not on disk.\<close>

definition booted :: "kernel \<Rightarrow> bool" where
  "booted s \<longleftrightarrow> bc_ok {} s \<and> dirty s = {} \<and> length (lh_block (logs s)) = LOGSIZE"

definition sb_log :: "block list \<Rightarrow> nat \<times> nat" where
  "sb_log D = (unat (get32 (D ! 1) 16), unat (get32 (D ! 1) 12))"

lemma initlog_ok:
  assumes b: "booted r" and sb: "sb_log (disk r) = (st, len)" and im: "image_ok st len (disk r)"
  shows "\<exists>h bs t. initlog 1 r = Ok () t \<and> bc_ok {} t \<and> dirty t = {} \<and> length h = 512 \<and> get32 h 0 = 0 \<and> length bs = 30
     \<and> disk t = apply_writes (replay st (disk r) @ [(st, h)]) (disk r) \<and> dwrites t = dwrites r @ replay st (disk r) @ [(st, h)]
     \<and> logs t = (logs r)\<lparr>l_start := get32 (disk r ! 1) 16, l_size := get32 (disk r ! 1) 12, l_dev := 1, lh_n := 0, lh_block := bs\<rparr> \<and> inodes t = inodes r \<and> fsb t = fsb r"
proof -
  have b3: "bc_ok {} r" "dirty r = {}" "length (lh_block (logs r)) = 30" using b by (simp_all add: booted_def)
  let ?s = "r\<lparr>mach := initlock LogLk ''log'' (mach r)\<rparr>"
  note iv = initlock_view[OF b3(1), of LogLk "''log''"]
  have "1 < length (disk ?s)" using im by (auto simp: image_ok_def)
  then obtain s1 t1 where t1: "readsb 1 ?s = Ok s1 t1" "sb_nlog s1 = get32 (disk r ! 1) 12" "sb_logstart s1 = get32 (disk r ! 1) 16"
     "frame ?s t1" "put_blocks [] ?s t1"
    using readsb_ok[of ?s] iv b3 by auto
  let ?f = "\<lambda>l. l\<lparr>l_start := sb_logstart s1, l_size := sb_nlog s1, l_dev := 1\<rparr>"
  have t: "bc_ok {} t1" "dirty t1 = {}" "disk t1 = disk r" "dwrites t1 = dwrites r" "logs t1 = logs r"
    using t1(5) iv b3 frameD(2)[OF t1(4)] by (simp_all add: put_blocks_def)
  let ?u = "upd_log ?f t1"
  have st: "st = unat (l_start (logs ?u))" "len = unat (l_size (logs ?u))" using sb t1 by (simp_all add: sb_log_def)
  obtain h bs z where z: "recover_from_log ?u = Ok () z" "bc_ok {} z" "dirty z = {}"
      "rest z = rest (upd_log (\<lambda>l. l\<lparr>lh_n := 0, lh_block := bs\<rparr>) ?u)" "length bs = 30" "length h = 512" "get32 h 0 = 0"
      "disk z = apply_writes (replay st (disk ?u) @ [(st, h)]) (disk ?u)" "dwrites z = dwrites ?u @ replay st (disk ?u) @ [(st, h)]"
    using recover_ok[of ?u st] st im t b3 by auto
  have "initlog 1 r = Ok () z" using t1(1) z(1) by (simp add: initlog_def)
  moreover have "logs z = (logs r)\<lparr>l_start := get32 (disk r ! 1) 16, l_size := get32 (disk r ! 1) 12, l_dev := 1, lh_n := 0, lh_block := bs\<rparr>"
    using logs_rest[OF z(4)] t t1 by simp
  moreover have "inodes z = inodes r" "fsb z = fsb r"
    using arg_cong[OF z(4), of inodes] arg_cong[OF z(4), of fsb] frameD(5,6)[OF t1(4)] by (simp_all add: rest_def upd_log_def)
  ultimately show ?thesis using z t by auto
qed

text \<open>A transaction as \<open>begin_op\<close>, several updates and \<open>end_op\<close>, started when no other is open.\<close>

definition transaction :: "(32 word \<times> block) list \<Rightarrow> kernel \<Rightarrow> unit kres" where
  "transaction us s = bnd (begin_op s) (\<lambda>_ s. bnd (log_updates us s) (\<lambda>_ s. end_op s))"

definition idle :: "kernel \<Rightarrow> bool" where
  "idle s \<longleftrightarrow> bc_ok {} s \<and> log_ok s \<and> lh_n (logs s) = 0 \<and> l_outstanding (logs s) = 0 \<and> 1 < unat (l_start (logs s))
     \<and> MAXOPBLOCKS < unat (l_size (logs s)) \<and> unat (l_size (logs s)) < 2 ^ 31
     \<and> sb_log (disk s) = (unat (l_start (logs s)), unat (l_size (logs s)))"

definition tx_ok :: "(32 word \<times> block) list \<Rightarrow> kernel \<Rightarrow> bool" where
  "tx_ok us s \<longleftrightarrow> length us \<le> MAXOPBLOCKS \<and>
     (\<forall>u \<in> set us. unat (fst u) < length (disk s) \<and> unat (fst u) \<notin> insert 1 (log_area s) \<and> length (snd u) = BSIZE)"

lemma new_view_disk:
  assumes "\<And>m. unat m < length D \<Longrightarrow> f m = D ! unat m" "unat n < length D"
  shows "new_view us f n = apply_writes (map (apfst unat) us) D ! unat n"
  using assms
proof (induction us arbitrary: f D)
  case (Cons u us)
  have e: "(f(fst u := snd u)) m = D[unat (fst u) := snd u] ! unat m" if "unat m < length (D[unat (fst u) := snd u])" for m
    using Cons.prems(1)[of m] that by (auto simp: nth_list_update word_unat_eq_iff)
  have "new_view us (f(fst u := snd u)) n = apply_writes (map (apfst unat) us) (D[unat (fst u) := snd u]) ! unat n"
    by (rule Cons.IH) (use e Cons.prems(2) in auto)
  then show ?case by (cases u) (simp only: new_view.simps list.map apfst_conv apply_writes_simps fst_conv snd_conv)
qed simp


text \<open>The state in which a transaction commits.\<close>

lemma tx_prepared:
  assumes i: "idle s" and t: "tx_ok us s"
  shows "\<exists>s2 t. transaction us s = Ok () t \<and> put_blocks (tx_writes s2) s2 t
     \<and> rest t = rest (upd_log (\<lambda>l. l\<lparr>l_outstanding := 0, l_committing := False, lh_n := 0\<rparr>) s2)
     \<and> bc_ok {} s2 \<and> log_ok s2 \<and> disk s2 = disk s \<and> dwrites s2 = dwrites s \<and> set (logged s2) = fst ` set us
     \<and> l_start (logs s2) = l_start (logs s) \<and> l_size (logs s2) = l_size (logs s)
     \<and> (\<forall>m. unat m < length (disk s) \<longrightarrow> cval s2 m = apply_writes (map (apfst unat) us) (disk s) ! unat m)"
proof -
  have ok: "bc_ok {} s" and lo: "log_ok s" and l: "lh_n (logs s) = 0" "l_outstanding (logs s) = 0" and z: "10 < unat (l_size (logs s))" "unat (l_size (logs s)) < 2 ^ 31"
    using i by (simp_all add: idle_def)
  let ?f = "\<lambda>l. l\<lparr>l_outstanding := l_outstanding l + 1\<rparr>"
  let ?s1 = "upd_log ?f s"
  have nc: "\<not> l_committing (logs s)" and n0: "log_n s = 0" "logged s = []" and ds: "dirty s = {}" using lo l by (simp_all add: log_ok_def log_n_def logged_def)
  have b: "begin_op s = Ok () ?s1" by (rule begin_op_ok[OF bc_ok_quiet[OF ok] nc]) (simp add: l s_lt_def)
  have lo1: "log_ok ?s1" and n1: "log_n ?s1 = 0" "logged ?s1 = []" and a1: "log_area ?s1 = log_area s"
    using lo n0 by (simp_all add: log_ok_def log_geom_def log_n_def logged_def log_area_def)
  have u: "length us \<le> 10" "\<forall>u \<in> set us. unat (fst u) < length (disk s) \<and> unat (fst u) \<notin> log_area s \<and> length (snd u) = 512"
    using t by (auto simp: tx_ok_def)
  have rm: "room (length us) ?s1" using n1 u(1) z l by (simp add: room_def s_lt_def)
  obtain s2 bs k where s2: "log_updates us ?s1 = Ok () s2" "bc_ok {} s2" "log_ok s2" "disk s2 = disk s" "dwrites s2 = dwrites s"
     "cval s2 = new_view us (cval s)" "set (logged s2) = fst ` set us" "rest s2 = rest (upd_log (\<lambda>l. l\<lparr>lh_n := k, lh_block := bs\<rparr>) ?s1)"
    using log_updates_ok[of ?s1 us] ok lo1 rm u a1 n1 by auto
  have l2: "logs s2 = (logs ?s1)\<lparr>lh_n := k, lh_block := bs\<rparr>" using logs_rest[OF s2(8)] by simp
  obtain t where t: "end_op s2 = Ok () t" "put_blocks (tx_writes s2) s2 t"
     "rest t = rest (upd_log (\<lambda>l. l\<lparr>l_outstanding := 0, l_committing := False, lh_n := 0\<rparr>) s2)"
    using end_op_last[OF s2(2,3)] l2 l by auto
  have "cval s m = disk s ! unat m" for m using cval_clean[OF ok] ds by simp
  then have "cval s2 m = apply_writes (map (apfst unat) us) (disk s) ! unat m" if "unat m < length (disk s)" for m
    unfolding s2(6) using that by (intro new_view_disk)
  moreover have "transaction us s = Ok () t" using b s2(1) t(1) by (simp add: transaction_def)
  ultimately show ?thesis using t s2 l2 by (intro exI[of _ s2] exI[of _ t]) simp
qed

text \<open>What commits, as the writes that the analysis of disk images is about.\<close>

lemma tx_crash:
  assumes ok: "bc_ok {} s2" and lo: "log_ok s2" and D: "disk s2 = D" and lg: "set (logged s2) = fst ` set us" and st: "1 < unat (l_start (logs s2))"
    and u: "\<forall>u \<in> set us. unat (fst u) < length D \<and> unat (fst u) \<notin> insert 1 (log_area s2) \<and> length (snd u) = 512"
    and cv: "\<forall>m. unat m < length D \<longrightarrow> cval s2 m = apply_writes (map (apfst unat) us) D ! unat m"
    and p: "prefix ws (map (apfst unat) (tx_writes s2))"
  defines "D' \<equiv> apply_writes ws D" and "a \<equiv> unat (l_start (logs s2))" and "len \<equiv> unat (l_size (logs s2))"
  shows "image_ok a len D' \<and> D' ! 1 = D ! 1 \<and> (home_eq a len (apply_writes (replay a D') D') D
       \<or> home_eq a len (apply_writes (replay a D') D') (apply_writes (map (apfst unat) us) D))"
    "ws = map (apfst unat) (tx_writes s2) \<Longrightarrow> home_eq a len D' (apply_writes (map (apfst unat) us) D) \<and> get32 (D' ! a) 0 = 0"
proof -
  have g: "log_geom s2" and h00: "get32 (D ! a) 0 = 0" using lo by (simp_all add: log_ok_def a_def D)
  let ?N = "log_n s2" and ?bs = "lh_block (logs s2)" and ?st = "l_start (logs s2)"
  have gg: "?N < 30" "?N < len" "a + len \<le> length D" "length D < 2 ^ 32" "length ?bs = 30" "0 \<le> sint (lh_n (logs s2))"
    and area: "log_area s2 = {a..<a + len}"
    using g by (simp_all add: log_geom_def log_area_def a_def len_def D)
  have D512: "\<forall>x \<in> set D. length x = 512" using ok by (auto simp: bc_ok_def D)
  have im: "image_ok a len D" using image_empty(1)[of D a len] h00 st gg D512 by (simp add: a_def)
  have fin: "(image_ok a len D' \<and> D' ! 1 = D ! 1 \<and> (home_eq a len (apply_writes (replay a D') D') D
       \<or> home_eq a len (apply_writes (replay a D') D') (apply_writes (map (apfst unat) us) D)))
     \<and> (ws = map (apfst unat) (tx_writes s2) \<longrightarrow> home_eq a len D' (apply_writes (map (apfst unat) us) D) \<and> get32 (D' ! a) 0 = 0)"
  proof (cases "0 < ?N")
    case False
    then have "logged s2 = []" "ws = []" using p by (simp_all add: logged_def tx_writes_def)
    then have "us = []" "D' = D" using lg by (simp_all add: D'_def)
    then show ?thesis using im h00 image_empty(2)[of D a len] st gg D512 by (simp add: home_eq_def a_def)
  next
    case True
    define v where "v = (\<lambda>i. cval s2 (?bs ! i))"
    define h where "h = header_bytes (lh_n (logs s2)) ?bs (cval s2 ?st)"
    define h0 where "h0 = header_bytes 0 ?bs h"
    define L where "L = map (\<lambda>i. (a + i + 1, v i)) [0..<?N]"
    define H where "H = map (\<lambda>i. (unat (?bs ! i), v i)) [0..<?N]"
    have W: "map (apfst unat) (tx_writes s2) = L @ [(a, h)] @ H @ [(a, h0)]"
      using True unat_logblk(1)[OF g] by (simp add: tx_writes_def commit_writes_def Let_def L_def H_def h_def h0_def v_def a_def)
    have nl: "?bs ! i \<in> set (logged s2)" "logged s2 ! i = ?bs ! i" if "i < ?N" for i using nth_logged[OF g that] by simp_all
    have rng: "unat (?bs ! i) < length D \<and> unat (?bs ! i) \<notin> insert 1 {a..<a + len}" if "i < ?N" for i
      using nl(1)[OF that] u lg area by auto
    have inj: "inj_on ((!) ?bs) {..<?N}"
    proof (rule inj_onI)
      fix i j assume ij: "i \<in> {..<?N}" "j \<in> {..<?N}" "?bs ! i = ?bs ! j"
      then have "logged s2 ! i = logged s2 ! j" "i < length (logged s2)" "j < length (logged s2)" using nl(2) nth_logged(4)[OF g] by auto
      then show "i = j" using g by (simp add: log_geom_def nth_eq_iff_index_eq)
    qed
    have v512: "length (v i) = 512" if "i < ?N" for i using bread_length[OF ok] rng[OF that] by (simp add: v_def D)
    have sl: "length (cval s2 ?st) = 512" using bread_length[OF ok, of ?st] gg by (simp add: D a_def)
    have hh: "length h = 512" "get32 h 0 = lh_n (logs s2)" "\<And>i. i < ?N \<Longrightarrow> get32 h (4 + 4 * i) = ?bs ! i"
      unfolding h_def by (rule header_bytes_get[OF sl]; use gg in \<open>simp add: log_n_def\<close>)+
    have h0: "length h0 = 512" "get32 h0 0 = 0" unfolding h0_def by (rule header_bytes_get[OF hh(1)]; simp)+
    have new: "apply_writes H D = apply_writes (map (apfst unat) us) D"
    proof (rule nth_equalityI)
      fix m assume m: "m < length (apply_writes H D)"
      have mm: "unat (of_nat m :: 32 word) = m" using m gg by (simp add: unat_of_nat32)
      show "apply_writes H D ! m = apply_writes (map (apfst unat) us) D ! m"
      proof (cases "\<exists>i < ?N. m = unat (?bs ! i)")
        case True
        then obtain i where i: "i < ?N" "m = unat (?bs ! i)" by blast
        have "inj_on (\<lambda>i. unat (?bs ! i)) {..<?N}" using inj by (auto simp: inj_on_def word_unat_eq_iff)
        then have "apply_writes H D ! m = v i" unfolding H_def i(2) using i rng by (intro apply_writes_at[where a = "\<lambda>i. unat (?bs ! i)"]) auto
        then show ?thesis using cv[rule_format, of "?bs ! i"] rng[OF i(1)] i(2) by (simp add: v_def)
      next
        case False
        have "m \<notin> fst ` set (map (apfst unat) us)"
        proof
          assume "m \<in> fst ` set (map (apfst unat) us)"
          then obtain x where x: "x \<in> set (logged s2)" "m = unat x" using lg by force
          then obtain i where "i < length (logged s2)" "x = logged s2 ! i" by (metis in_set_conv_nth)
          then show False using False x nl(2) nth_logged(4)[OF g True] by auto
        qed
        moreover have "m \<notin> fst ` set H" using False by (auto simp: H_def)
        ultimately show ?thesis using m by (simp add: apply_writes_other)
      qed
    qed simp
    have N30: "?N < LOGSIZE" using gg(1) by simp
    have sn: "nat (sint (get32 h 0)) = ?N" "0 \<le> sint (get32 h 0)" using hh(2) gg by (simp_all add: log_n_def)
    have p': "prefix ws (L @ [(a, h)] @ H @ [(a, h0)])" using p W by simp
    have cc: "image_ok a len D' \<and> D' ! 1 = D ! 1 \<and> (home_eq a len (apply_writes (replay a D') D') D
       \<or> home_eq a len (apply_writes (replay a D') D') (apply_writes H D))"
      unfolding D'_def H_def
      by (rule commit_crash[where bl = "(!) ?bs" and v = v and N = ?N and h = h and ?h0.0 = h0]; (fact im h00 inj N30 gg sn hh h0 p'[unfolded L_def H_def] | erule rng | erule v512 | erule hh(3)))
    have "fst ` set L \<subseteq> {a..<a + len}" using gg by (auto simp: L_def)
    note cd = commit_done[OF this, of D h H h0]
    show ?thesis using cc cd gg(1-3) new h0(2) W by (auto simp: D'_def)
  qed
  then show "image_ok a len D' \<and> D' ! 1 = D ! 1 \<and> (home_eq a len (apply_writes (replay a D') D') D
       \<or> home_eq a len (apply_writes (replay a D') D') (apply_writes (map (apfst unat) us) D))"
    "ws = map (apfst unat) (tx_writes s2) \<Longrightarrow> home_eq a len D' (apply_writes (map (apfst unat) us) D) \<and> get32 (D' ! a) 0 = 0"
    by blast+
qed

text \<open>The disk images that crashes can leave: after some of the writes of the transaction, and then, any number of times,
  after some of the writes of a recovery.\<close>

inductive crash_image :: "(32 word \<times> block) list \<Rightarrow> kernel \<Rightarrow> block list \<Rightarrow> bool" for us s where
  during: "transaction us s = Ok () t \<Longrightarrow> prefix (dwrites s @ ws) (dwrites t) \<Longrightarrow> crash_image us s (apply_writes ws (disk s))"
| again: "crash_image us s (disk r) \<Longrightarrow> booted r \<Longrightarrow> initlog 1 r = Ok () t \<Longrightarrow> prefix (dwrites r @ ws) (dwrites t) \<Longrightarrow>
     crash_image us s (apply_writes ws (disk r))"

lemma crash_image_inv:
  assumes "crash_image us s D" and i: "idle s" and tx: "tx_ok us s"
  defines "a \<equiv> unat (l_start (logs s))" and "len \<equiv> unat (l_size (logs s))"
  shows "image_ok a len D \<and> sb_log D = (a, len) \<and> length D = length (disk s) \<and> (home_eq a len (apply_writes (replay a D) D) (disk s)
     \<or> home_eq a len (apply_writes (replay a D) D) (apply_writes (map (apfst unat) us) (disk s)))"
  using assms(1)
proof induction
  case (during t ws)
  obtain s2 t' where s2: "transaction us s = Ok () t'" "put_blocks (tx_writes s2) s2 t'" "bc_ok {} s2" "log_ok s2" "disk s2 = disk s" "dwrites s2 = dwrites s"
      "set (logged s2) = fst ` set us" "l_start (logs s2) = l_start (logs s)" "l_size (logs s2) = l_size (logs s)"
      "\<forall>m. unat m < length (disk s) \<longrightarrow> cval s2 m = apply_writes (map (apfst unat) us) (disk s) ! unat m"
    using tx_prepared[OF i tx] by blast
  have p: "prefix ws (map (apfst unat) (tx_writes s2))" using during s2(1,2,6) by (simp add: put_blocks_def)
  have st: "1 < unat (l_start (logs s2))" "sb_log (disk s) = (a, len)" using i s2(8) by (simp_all add: idle_def a_def len_def)
  have ar: "log_area s2 = log_area s" using s2 by (simp add: log_area_def)
  have u: "\<forall>u \<in> set us. unat (fst u) < length (disk s) \<and> unat (fst u) \<notin> insert 1 (log_area s2) \<and> length (snd u) = 512"
    using tx by (simp add: tx_ok_def ar)
  show ?case using tx_crash(1)[OF s2(3,4,5,7) st(1) u s2(10) p] st(2) unfolding s2(8,9) a_def[symmetric] len_def[symmetric]
    by (simp add: sb_log_def)
next
  case (again r t ws)
  then obtain h bs t' where t': "initlog 1 r = Ok () t'" "length h = 512" "get32 h 0 = 0" "dwrites t' = dwrites r @ replay a (disk r) @ [(a, h)]"
    using initlog_ok[OF again(2)] by blast
  have p: "prefix ws (replay a (disk r) @ [(a, h)])" using again(4) t' again(3) by simp
  have im: "image_ok a len (disk r)" using again.IH by blast
  note rc = replay_crash[OF im p t'(3,2)]
  have "home_eq a len (apply_writes (replay a (apply_writes ws (disk r))) (apply_writes ws (disk r))) X"
    if "home_eq a len (apply_writes (replay a (disk r)) (disk r)) X" for X
    using rc that by (blast intro: home_eq_trans)
  then show ?case using again.IH rc unfolding sb_log_def by simp blast
qed

text \<open>(C4) A transaction is atomic with respect to crashes: whatever prefix of its block writes has reached the disk
  when the machine stops, and however often it stops again while the log is being recovered, the next
  \<open>initlog\<close> that completes leaves every block outside the log as it was before the transaction, or every block as
  the transaction has written it.\<close>

theorem transaction_crash_atomic:
  assumes "idle s" "tx_ok us s" "crash_image us s (disk r)" "booted r"
  shows "\<exists>t. initlog 1 r = Ok () t
     \<and> (home_eq (unat (l_start (logs s))) (unat (l_size (logs s))) (disk t) (disk s)
        \<or> home_eq (unat (l_start (logs s))) (unat (l_size (logs s))) (disk t) (apply_writes (map (apfst unat) us) (disk s)))"
proof -
  let ?a = "unat (l_start (logs s))" and ?l = "unat (l_size (logs s))"
  note inv = crash_image_inv[OF assms(3,1,2)]
  have im: "image_ok ?a ?l (disk r)" "sb_log (disk r) = (?a, ?l)" using inv by simp_all
  obtain h t where t: "initlog 1 r = Ok () t" "disk t = apply_writes (replay ?a (disk r) @ [(?a, h)]) (disk r)"
    using initlog_ok[OF assms(4) im(2,1)] by blast
  have "home_eq ?a ?l (disk t) (apply_writes (replay ?a (disk r)) (disk r))"
    unfolding t(2) using home_eq_writes[of "[(?a, h)]" ?a ?l] im(1) by (auto simp: image_ok_def)
  then show ?thesis using t(1) inv home_eq_trans by blast
qed

text \<open>(C5) A transaction of at most \<open>MAXOPBLOCKS\<close> block updates that starts when none is open returns, and when it
  has returned it is durable: every block outside the log holds on disk what the transaction wrote last, and
  otherwise what it held before; the log is empty again and its invariant holds.\<close>

theorem transaction_durable:
  assumes "idle s" "tx_ok us s"
  shows "\<exists>t. transaction us s = Ok () t \<and> idle t
     \<and> home_eq (unat (l_start (logs s))) (unat (l_size (logs s))) (disk t) (apply_writes (map (apfst unat) us) (disk s))"
proof -
  let ?a = "unat (l_start (logs s))" and ?l = "unat (l_size (logs s))"
  obtain s2 t where s2: "transaction us s = Ok () t" "put_blocks (tx_writes s2) s2 t"
      "rest t = rest (upd_log (\<lambda>l. l\<lparr>l_outstanding := 0, l_committing := False, lh_n := 0\<rparr>) s2)"
      "bc_ok {} s2" "log_ok s2" "disk s2 = disk s" "dwrites s2 = dwrites s"
      "set (logged s2) = fst ` set us" "l_start (logs s2) = l_start (logs s)" "l_size (logs s2) = l_size (logs s)"
      "\<forall>m. unat m < length (disk s) \<longrightarrow> cval s2 m = apply_writes (map (apfst unat) us) (disk s) ! unat m"
    using tx_prepared[OF assms] by blast
  have i: "1 < ?a" "sb_log (disk s) = (?a, ?l)" "MAXOPBLOCKS < ?l" "?l < 2 ^ 31" using assms(1) by (simp_all add: idle_def)
  have ar: "log_area s2 = log_area s" using s2 by (simp add: log_area_def)
  have u: "\<forall>u \<in> set us. unat (fst u) < length (disk s) \<and> unat (fst u) \<notin> insert 1 (log_area s2) \<and> length (snd u) = 512"
    using assms(2) by (simp add: tx_ok_def ar)
  have st: "1 < unat (l_start (logs s2))" using i s2(9) by simp
  note tc = tx_crash[OF s2(4,5,6,8) st u s2(11) prefix_order.refl, unfolded s2(9,10)]
  have dt: "disk t = apply_writes (map (apfst unat) (tx_writes s2)) (disk s)" using s2(2,6) by (simp add: put_blocks_def)
  have he: "home_eq ?a ?l (disk t) (apply_writes (map (apfst unat) us) (disk s))" "get32 (disk t ! ?a) 0 = 0" "disk t ! 1 = disk s ! 1"
    using tc(2)[OF refl] tc(1) unfolding dt by simp_all
  have lt: "logs t = (logs s2)\<lparr>l_outstanding := 0, l_committing := False, lh_n := 0\<rparr>" using logs_rest[OF s2(3)] by simp
  have g2: "log_geom s2" "dirty s2 = set (logged s2)" using s2(5) by (simp_all add: log_ok_def)
  have "set (logged s2) \<subseteq> fst ` set (tx_writes s2)"
  proof
    fix x assume x: "x \<in> set (logged s2)"
    then have n: "0 < log_n s2" by (cases "log_n s2") (simp_all add: logged_def)
    from x obtain k where "k < log_n s2" "x = lh_block (logs s2) ! k"
      using nth_logged(3,4)[OF g2(1)] n by (metis in_set_conv_nth)
    then show "x \<in> fst ` set (tx_writes s2)" using n by (force simp: tx_writes_def commit_writes_def Let_def image_iff)
  qed
  then have "dirty t = {}" using s2(2) g2(2) by (auto simp: put_blocks_def)
  moreover have "log_geom t" using g2(1) s2(6) dt by (simp add: log_geom_def lt log_n_def logged_def)
  ultimately have "idle t" using he i s2(2,9,10) by (simp add: idle_def log_ok_def lt logged_def log_n_def put_blocks_def sb_log_def)
  then show ?thesis using s2(1) he(1) by blast
qed

lemma initlog_idle:
  assumes "booted r" "sb_log (disk r) = (st, len)" "image_ok st len (disk r)" "MAXOPBLOCKS < len" "len < 2 ^ 31"
    "l_outstanding (logs r) = 0" "\<not> l_committing (logs r)"
  shows "\<exists>t. initlog 1 r = Ok () t \<and> idle t \<and> home_eq st len (disk t) (apply_writes (replay st (disk r)) (disk r))
     \<and> (\<forall>i < header_n st (disk r). disk t ! unat (header_block st (disk r) i) = disk r ! (st + i + 1))
     \<and> unat (l_start (logs t)) = st \<and> unat (l_size (logs t)) = len \<and> inodes t = inodes r \<and> fsb t = fsb r"
proof -
  let ?D = "disk r"
  obtain h bs t where t: "initlog 1 r = Ok () t" "bc_ok {} t" "dirty t = {}" "length h = 512" "get32 h 0 = 0" "length bs = 30"
     "disk t = apply_writes (replay st ?D @ [(st, h)]) ?D"
     "logs t = (logs r)\<lparr>l_start := get32 (?D ! 1) 16, l_size := get32 (?D ! 1) 12, l_dev := 1, lh_n := 0, lh_block := bs\<rparr>" "inodes t = inodes r \<and> fsb t = fsb r"
    using initlog_ok[OF assms(1-3)] by blast
  have sb: "unat (get32 (?D ! 1) 16) = st" "unat (get32 (?D ! 1) 12) = len" using assms(2) by (simp_all add: sb_log_def)
  note sb' = sb[unfolded One_nat_def]
  note rp = replay_props[OF assms(3)]
  have he: "home_eq st len (disk t) (apply_writes (replay st ?D) ?D)"
    unfolding t(7) using home_eq_writes[of "[(st, h)]" st len] rp(4) by simp
  have h0: "disk t ! st = h" "disk t ! 1 = ?D ! 1"
  proof -
    show "disk t ! st = h" using rp(3) by (simp add: t(7))
    have "1 \<notin> fst ` set (replay st ?D)" using rp(1) by auto
    then have "1 \<notin> fst ` set (replay st ?D @ [(st, h)])" using rp(5) by (simp add: image_Un)
    then show "disk t ! 1 = ?D ! 1" unfolding t(7) using rp(3,5) by (intro apply_writes_other) auto
  qed
  have "log_geom t" using t(6) assms(3,4) by (simp add: log_geom_def log_n_def logged_def t sb' image_ok_def)
  then have "idle t" using t h0 assms sb' rp(5) by (simp add: idle_def log_ok_def logged_def log_n_def sb_log_def)
  moreover have "disk t ! unat (header_block st ?D i) = ?D ! (st + i + 1)" if i: "i < header_n st ?D" for i
  proof -
    let ?m = "unat (header_block st ?D i)"
    have m: "?m < length ?D" "?m \<notin> {st..<st + len}" using assms(3) i by (auto simp: image_ok_def)
    have inj: "inj_on (\<lambda>i. unat (header_block st ?D i)) {..<header_n st ?D}" using assms(3) by (auto simp: image_ok_def inj_on_def word_unat_eq_iff)
    have "apply_writes (replay st ?D) ?D ! ?m = ?D ! (st + i + 1)"
      unfolding replay_def using i m(1) inj by (intro apply_writes_at[where a = "\<lambda>i. unat (header_block st ?D i)"])
    then show ?thesis using he m by (simp add: home_eq_def)
  qed
  ultimately show ?thesis using t(1,8,9) he sb by auto
qed

text \<open>(C6) Recovery at boot: on every disk whose log is well formed, \<open>initlog\<close> returns; every block that the log header
  names holds the contents of its log block, the other blocks outside the log are unchanged, the log is empty, and
  transactions can start.\<close>

theorem initlog_recovers:
  assumes "booted r" "sb_log (disk r) = (st, len)" "image_ok st len (disk r)" "MAXOPBLOCKS < len" "len < 2 ^ 31"
    "l_outstanding (logs r) = 0" "\<not> l_committing (logs r)"
  shows "\<exists>t. initlog 1 r = Ok () t \<and> idle t \<and> home_eq st len (disk t) (apply_writes (replay st (disk r)) (disk r))
     \<and> (\<forall>i < header_n st (disk r). disk t ! unat (header_block st (disk r) i) = disk r ! (st + i + 1))"
  using initlog_idle[OF assms] by blast

text \<open>A small disk: the log has 30 blocks from block 2 on, and is empty.\<close>

definition fs_demo :: "block list" where
  "fs_demo = (replicate 100 (replicate BSIZE 0))[1 := put32 (put32 (replicate BSIZE 0) 12 30) 16 2]"

lemma fs_demo_ok: "x \<in> set fs_demo \<Longrightarrow> length x = 512" "sb_log fs_demo = (2, 30)" "image_ok 2 30 fs_demo" "header_n 2 fs_demo = 0" "length fs_demo = 100"
proof -
  show l: "length x = 512" if "x \<in> set fs_demo" for x
  proof -
    have "x \<in> insert (put32 (put32 (replicate 512 0) 12 30) 16 2) (set (replicate 100 (replicate 512 0)))"
      using that set_update_subset_insert unfolding fs_demo_def by fastforce
    then show ?thesis by auto
  qed
  show n: "length fs_demo = 100" by (simp add: fs_demo_def)
  show "sb_log fs_demo = (2, 30)" by (simp add: sb_log_def fs_demo_def get32_put32_other)
  have z: "get32 (fs_demo ! 2) 0 = 0" by (simp add: fs_demo_def get32_def load32_def)
  then show "image_ok 2 30 fs_demo" "header_n 2 fs_demo = 0" using image_empty(1)[of fs_demo 2 30] l n by (simp_all add: header_n_def)
qed

lemma boot_on_booted:
  assumes "\<And>x. x \<in> set D \<Longrightarrow> length x = 512"
  shows "booted (boot_on D)" "disk (boot_on D) = D" "l_outstanding (logs (boot_on D)) = 0" "\<not> l_committing (logs (boot_on D))"
  using boot_on_ok[OF assms] by (simp_all add: booted_def) (simp_all add: calm_def one_running_def boot_kernel_def)

theorem initlog_recovers_witness:
  "\<exists>t. initlog 1 (boot_on fs_demo) = Ok () t \<and> idle t"
  using initlog_recovers[of "boot_on fs_demo" 2 30] boot_on_booted[of fs_demo] fs_demo_ok by auto

lemma log_demo: "\<exists>t. idle t \<and> length (disk t) = 100 \<and> unat (l_start (logs t)) = 2 \<and> unat (l_size (logs t)) = 30"
proof -
  note b = boot_on_booted[of fs_demo, OF fs_demo_ok(1)]
  obtain t where "idle t" "home_eq 2 30 (disk t) (apply_writes (replay 2 fs_demo) fs_demo)" "unat (l_start (logs t)) = 2" "unat (l_size (logs t)) = 30"
    using initlog_idle[OF b(1), of 2 30] b(2-4) fs_demo_ok by auto
  then show ?thesis using fs_demo_ok(5) by (auto simp: home_eq_def)
qed

definition tx_demo :: "(32 word \<times> block) list" where
  "tx_demo = [(50, replicate BSIZE 1), (51, replicate BSIZE 2)]"

lemma tx_demo_ok: "length (disk t) = 100 \<Longrightarrow> unat (l_start (logs t)) = 2 \<Longrightarrow> unat (l_size (logs t)) = 30 \<Longrightarrow> tx_ok tx_demo t"
  by (simp add: tx_ok_def tx_demo_def log_area_def)

theorem transaction_durable_witness:
  "\<exists>s t. idle s \<and> transaction tx_demo s = Ok () t \<and> disk t ! 50 = replicate BSIZE 1 \<and> disk t ! 51 = replicate BSIZE 2"
proof -
  obtain s where s: "idle s" "length (disk s) = 100" "unat (l_start (logs s)) = 2" "unat (l_size (logs s)) = 30" using log_demo by blast
  obtain t where t: "transaction tx_demo s = Ok () t" "home_eq 2 30 (disk t) (apply_writes (map (apfst unat) tx_demo) (disk s))"
    using transaction_durable[OF s(1) tx_demo_ok[OF s(2-4)]] s by auto
  have "apply_writes (map (apfst unat) tx_demo) (disk s) = (disk s)[50 := replicate 512 1, 51 := replicate 512 2]"
    by (simp add: tx_demo_def)
  then have "disk t ! 50 = replicate 512 1 \<and> disk t ! 51 = replicate 512 2" using t(2) s(2) by (simp add: home_eq_def)
  then show ?thesis using s t by auto
qed

text \<open>A crash after the third of the writes, when the header names both blocks and neither is installed.\<close>

theorem transaction_crash_atomic_witness:
  "\<exists>s ws D t. idle s \<and> length ws = 3 \<and> D = apply_writes ws (disk s) \<and> crash_image tx_demo s D
     \<and> initlog 1 (boot_on D) = Ok () t
     \<and> (home_eq 2 30 (disk t) (disk s) \<or> home_eq 2 30 (disk t) ((disk s)[50 := replicate BSIZE 1, 51 := replicate BSIZE 2]))"
proof -
  obtain s where s: "idle s" "length (disk s) = 100" "unat (l_start (logs s)) = 2" "unat (l_size (logs s)) = 30" using log_demo by blast
  have ok: "tx_ok tx_demo s" using tx_demo_ok s by blast
  obtain s2 t where t: "transaction tx_demo s = Ok () t" "put_blocks (tx_writes s2) s2 t" "dwrites s2 = dwrites s" "set (logged s2) = fst ` set tx_demo" "log_ok s2"
    using tx_prepared[OF s(1) ok] by blast
  have "card (set (logged s2)) = 2" unfolding t(4) by (simp add: tx_demo_def)
  moreover have "distinct (logged s2)" "length (logged s2) = log_n s2" using t(5) by (auto simp: log_ok_def log_geom_def logged_def)
  ultimately have n: "log_n s2 = 2" by (metis distinct_card)
  define ws where "ws = take 3 (map (apfst unat) (tx_writes s2))"
  have l: "length ws = 3" using n by (simp add: ws_def tx_writes_def commit_writes_def Let_def)
  have "prefix (dwrites s @ ws) (dwrites t)" using t(2,3) by (simp add: put_blocks_def ws_def take_is_prefix)
  then have c: "crash_image tx_demo s (apply_writes ws (disk s))" using t(1) by (intro crash_image.during)
  let ?D = "apply_writes ws (disk s)"
  have "image_ok 2 30 ?D" using crash_image_inv[OF c s(1) ok] s by simp
  then have b: "booted (boot_on ?D)" "disk (boot_on ?D) = ?D" by (intro boot_on_booted; simp add: image_ok_def)+
  have "apply_writes (map (apfst unat) tx_demo) (disk s) = (disk s)[50 := replicate 512 1, 51 := replicate 512 2]" by (simp add: tx_demo_def)
  then obtain u where "initlog 1 (boot_on ?D) = Ok () u"
      "home_eq 2 30 (disk u) (disk s) \<or> home_eq 2 30 (disk u) ((disk s)[50 := replicate 512 1, 51 := replicate 512 2])"
    using transaction_crash_atomic[OF s(1) ok, of "boot_on ?D"] b c s(3,4) by auto
  then show ?thesis using s(1) c l by auto
qed

text \<open>(C39) \<open>begin_op\<close> admits more than the log can take: with the log of \<open>mkfs\<close>, 30 blocks of which one is the header, it
  lets three operations run at once, each entitled to \<open>MAXOPBLOCKS\<close> blocks, 30 together, and makes a fourth one sleep; but
  \<open>log_write\<close> panics at the 30th block of a transaction.\<close>

theorem begin_op_overcommits:
  assumes "quiet s" "\<not> l_committing (logs s)" "lh_n (logs s) = 0" "l_size (logs s) = of_nat LOGSIZE" "ncli (curcpu (mach s)) = 0"
    "running s = Some i" "i < length (procs s)"
  shows "(l_outstanding (logs s) \<in> {0, 1, 2} \<longrightarrow> begin_op s = Ok () (upd_log (\<lambda>l. l\<lparr>l_outstanding := l_outstanding l + 1\<rparr>) s))
     \<and> (l_outstanding (logs s) = 3 \<longrightarrow> (\<exists>t. begin_op s = Slept t \<and> pstate (procs t ! i) = SLEEPING \<and> chan (procs t ! i) = Some ChLog))
     \<and> (\<forall>u b bs. logs u = (logs s)\<lparr>l_outstanding := 3, lh_n := 3 * of_nat MAXOPBLOCKS - 1, lh_block := bs\<rparr> \<longrightarrow>
          log_write b u = Panic ''too big a transaction'')"
proof (intro conjI impI allI)
  assume "l_outstanding (logs s) \<in> {0, 1, 2}"
  then show "begin_op s = Ok () (upd_log (\<lambda>l. l\<lparr>l_outstanding := l_outstanding l + 1\<rparr>) s)"
    using begin_op_ok[OF assms(1,2)] assms(3) by (auto simp: s_lt_def)
next
  assume o: "l_outstanding (logs s) = 3"
  let ?h = "s\<lparr>mach := hold LogLk (mach s)\<rparr>"
  have "sleep ChLog (Some LogLk) ?h = Slept (upd_proc i (\<lambda>p. p\<lparr>chan := Some ChLog, pstate := SLEEPING\<rparr>) (?h\<lparr>mach := hold PtableLk (mach s)\<rparr>))"
    using assms quietD[OF assms(1)] by (intro sleep_ok) simp_all
  then show "\<exists>t. begin_op s = Slept t \<and> pstate (procs t ! i) = SLEEPING \<and> chan (procs t ! i) = Some ChLog"
    using o assms kacquire_quiet[OF assms(1), of LogLk] by (simp add: begin_op_def begin_op_test_def s_lt_def upd_proc_def)
next
  fix u :: kernel and b bs assume "logs u = (logs s)\<lparr>l_outstanding := 3, lh_n := 3 * of_nat MAXOPBLOCKS - 1, lh_block := bs\<rparr>"
  then show "log_write b u = Panic ''too big a transaction''" using assms(4) by (simp add: log_write_def s_le_def)
qed

theorem begin_op_overcommits_witness:
  "\<exists>t. begin_op (upd_log (\<lambda>l. l\<lparr>l_size := 30, l_outstanding := 3\<rparr>) calm) = Slept t"
proof -
  have "\<not> l_committing (logs calm)" "lh_n (logs calm) = 0" by (simp_all add: calm_def one_running_def boot_kernel_def)
  then show ?thesis using begin_op_overcommits[of "upd_log (\<lambda>l. l\<lparr>l_size := 30, l_outstanding := 3\<rparr>) calm" 0] by auto
qed

end
