(* ===== verification/Content.thy ===== *)
theory Content imports Fs Crash
begin

text \<open>
  Files as byte arrays: the content of an inode is the concatenation of its blocks as the buffer cache
  and the log see them.  \<open>readi\<close> returns a slice of that array, \<open>writei\<close> overwrites
  one inside an open transaction, and the dinode codec round-trips.
\<close>

section \<open>Blocks of equal length\<close>

lemma concat_nth_drop:
  assumes "\<And>b. b \<in> set bs \<Longrightarrow> length b = c" "k < length bs" "j + m \<le> c"
  shows "take m (drop (c * k + j) (concat bs)) = take m (drop j (bs ! k))"
  using assms
proof (induction bs arbitrary: k)
  case (Cons b bs)
  have b: "length b = c" using Cons.prems(1) by simp
  show ?case
  proof (cases k)
    case 0
    then show ?thesis using b Cons.prems(3) by simp
  next
    case (Suc k')
    have "drop (c * k + j) (concat (b # bs)) = drop (c * k' + j) (concat bs)" using b Suc by (simp add: algebra_simps)
    then show ?thesis using Cons.IH[of k'] Cons.prems Suc by simp
  qed
qed simp

lemma length_concat_same: "(\<And>b. b \<in> set bs \<Longrightarrow> length b = c) \<Longrightarrow> length (concat bs) = c * length bs"
  by (induction bs) simp_all

lemma concat_update:
  assumes "\<And>b. b \<in> set bs \<Longrightarrow> length b = c" "k < length bs" "j + length xs \<le> c"
  shows "concat (bs[k := take j (bs ! k) @ xs @ drop (j + length xs) (bs ! k)])
       = take (c * k + j) (concat bs) @ xs @ drop (c * k + j + length xs) (concat bs)"
  using assms
proof (induction bs arbitrary: k)
  case (Cons b bs)
  have b: "length b = c" using Cons.prems(1) by simp
  show ?case
  proof (cases k)
    case 0
    then show ?thesis using b Cons.prems(3) by simp
  next
    case (Suc k')
    have t: "take (c * k + j) (concat (b # bs)) = b @ take (c * k' + j) (concat bs)"
      "drop (c * k + j + length xs) (concat (b # bs)) = drop (c * k' + j + length xs) (concat bs)"
      using b Suc by (simp_all add: algebra_simps)
    show ?thesis unfolding t using Cons.IH[of k'] Cons.prems Suc by simp
  qed
qed simp

section \<open>The blocks of a file\<close>

text \<open>Block \<open>k\<close> of an inode with addresses \<open>ad\<close>, and its bytes, in a view \<open>v\<close> of the disk.\<close>

definition fblk :: "(32 word \<Rightarrow> block) \<Rightarrow> 32 word list \<Rightarrow> nat \<Rightarrow> 32 word" where
  "fblk v ad k = (if k < NDIRECT then ad ! k else get32 (v (ad ! NDIRECT)) (4 * (k - NDIRECT)))"

definition content :: "nat \<Rightarrow> (32 word \<Rightarrow> block) \<Rightarrow> 32 word list \<Rightarrow> byte list" where
  "content K v ad = concat (map (\<lambda>k. v (fblk v ad k)) [0..<K])"

text \<open>The first \<open>K\<close> blocks are allocated.\<close>

definition allocated :: "nat \<Rightarrow> kernel \<Rightarrow> 32 word list \<Rightarrow> bool" where
  "allocated K s ad \<longleftrightarrow> length ad = 13 \<and> K \<le> MAXFILE \<and> (\<forall>k < K. fblk (cval s) ad k \<noteq> 0 \<and> unat (fblk (cval s) ad k) < length (disk s))
     \<and> (NDIRECT < K \<longrightarrow> ad ! NDIRECT \<noteq> 0 \<and> unat (ad ! NDIRECT) < length (disk s))"

lemma allocated_cong:
  assumes "put_blocks [] s t"
  shows "k < K \<Longrightarrow> allocated K s ad \<Longrightarrow> fblk (cval t) ad k = fblk (cval s) ad k" "allocated K s ad \<Longrightarrow> allocated K t ad"
    "allocated K s ad \<Longrightarrow> content K (cval t) ad = content K (cval s) ad"
proof -
  have v: "unat m < length (disk s) \<Longrightarrow> cval t m = cval s m" for m using put_blocks_view[OF assms, of m] by simp
  have d: "disk t = disk s" using assms by (simp add: put_blocks_def)
  have f: "fblk (cval t) ad k = fblk (cval s) ad k" if "k < K" "allocated K s ad" for k
    using that v[of "ad ! 12"] by (auto simp: fblk_def allocated_def)
  then show "k < K \<Longrightarrow> allocated K s ad \<Longrightarrow> fblk (cval t) ad k = fblk (cval s) ad k" .
  show "allocated K s ad \<Longrightarrow> allocated K t ad" using f by (simp add: allocated_def d)
  show "content K (cval t) ad = content K (cval s) ad" if a: "allocated K s ad"
  proof -
    have "cval t (fblk (cval t) ad k) = cval s (fblk (cval s) ad k)" if "k < K" for k
      using f[OF that a] v a that by (simp add: allocated_def)
    then show ?thesis unfolding content_def by (auto intro!: arg_cong[of _ _ concat])
  qed
qed

lemma bmap_allocated:
  assumes ok: "bc_ok {} s" and c: "card (dirty s) < 30" and a: "allocated K s (i_addrs (inodes s ! ip))" and k: "k < K" "unat bn = k"
    and dev: "i_dev (inodes s ! ip) = 1"
  shows "\<exists>t. bmap ip bn s = Ok (fblk (cval s) (i_addrs (inodes s ! ip)) k) t \<and> frame s t \<and> put_blocks [] s t"
proof (cases "k < 12")
  case True
  then have "bn < 12" using k(2) by (simp add: word_less_nat_alt)
  moreover have "i_addrs (inodes s ! ip) ! k \<noteq> 0" using a k True by (auto simp: allocated_def fblk_def)
  ultimately show ?thesis using True k put_blocks_refl[OF ok] by (auto simp: bmap_def fblk_def)
next
  case False
  let ?ad = "i_addrs (inodes s ! ip)"
  have K: "K \<le> 140" "?ad ! 12 \<noteq> 0" "unat (?ad ! 12) < length (disk s)" using a k False by (auto simp: allocated_def)
  have b: "\<not> bn < 12" "unat (bn - 12) = k - 12" using False k by (simp_all add: word_less_nat_alt unat_sub_if')
  then have b2: "bn - 12 < 128" using K k by (simp add: word_less_nat_alt)
  obtain p u where u: "bread 1 (?ad ! 12) s = Ok p u" "has_block s (?ad ! 12) p u" using read_block[OF ok c K(3)] by blast
  obtain t where t: "brelse p u = Ok () t" "frame s t" "put_blocks [] s t" using release_block[OF ok u(2)] by blast
  have e: "get32 (b_data (bufs u ! p)) (4 * (k - 12)) = fblk (cval s) ?ad k" using u(2) False by (simp add: has_block_def fblk_def)
  moreover have "fblk (cval s) ?ad k \<noteq> 0" using a k by (auto simp: allocated_def)
  ultimately have "bmap ip bn s = Ok (fblk (cval s) ?ad k) t"
    using b b2 K(2) u(1) t(1) dev by (simp add: bmap_def Let_def)
  then show ?thesis using t by blast
qed

section \<open>Reading\<close>

text \<open>The size of a step of the loops and what is left after it.\<close>

lemma chunk_unat:
  fixes off left :: "32 word"
  defines "m \<equiv> min left (512 - off mod 512)"
  assumes "unat off + unat left < 2 ^ 32"
  shows "unat m = min (unat left) (512 - unat off mod 512)" "unat (off + m) = unat off + unat m" "unat (left - m) = unat left - unat m"
    "unat (off div 512) = unat off div 512" "unat (off mod 512) = unat off mod 512"
proof -
  show o: "unat (off div 512) = unat off div 512" "unat (off mod 512) = unat off mod 512" by (simp_all add: unat_div unat_mod)
  have l: "unat off mod 512 < 512" by simp
  have "unat (512 - off mod 512) = 512 - unat off mod 512" using o l by (subst unat_sub) (simp_all add: word_le_nat_alt)
  then show m: "unat m = min (unat left) (512 - unat off mod 512)" by (simp add: m_def min_def word_le_nat_alt)
  then have "unat m \<le> unat left" by simp
  then show "unat (left - m) = unat left - unat m" by (simp add: unat_sub word_le_nat_alt)
  show "unat (off + m) = unat off + unat m" using assms(2) m by (simp add: unat_word_ariths)
qed

lemma content_blocks:
  assumes "bc_ok {} s" "allocated K s ad"
  shows "b \<in> set (map (\<lambda>k. cval s (fblk (cval s) ad k)) [0..<K]) \<Longrightarrow> length b = 512" "length (content K (cval s) ad) = 512 * K"
proof -
  have b: "length b = 512" if "b \<in> set (map (\<lambda>k. cval s (fblk (cval s) ad k)) [0..<K])" for b
    using that bread_length[OF assms(1)] assms(2) by (auto simp: allocated_def)
  then show "b \<in> set (map (\<lambda>k. cval s (fblk (cval s) ad k)) [0..<K]) \<Longrightarrow> length b = 512" .
  show "length (content K (cval s) ad) = 512 * K" unfolding content_def by (subst length_concat_same[where c = 512]) (use b in auto)
qed

lemma take_drop_split: "take a (drop p xs) @ take b (drop (p + a) xs) = take (a + b) (drop p xs)"
  by (simp add: take_add add.commute)

lemma readi_loop_ok:
  assumes "bc_ok {} s" "card (dirty s) < 30" "allocated K s (i_addrs (inodes s ! ip))" "i_dev (inodes s ! ip) = 1"
    "unat off + unat left \<le> 512 * K"
  shows "\<exists>t. readi_loop ip off left acc s = Ok (acc @ take (unat left) (drop (unat off) (content K (cval s) (i_addrs (inodes s ! ip))))) t
     \<and> frame s t \<and> put_blocks [] s t"
  using assms
proof (induction "unat left" arbitrary: off left acc s rule: less_induct)
  case less
  note IH = less(1) and prems = less(2-6)
  let ?ad = "i_addrs (inodes s ! ip)"
  show ?case
  proof (cases "left = 0")
    case True
    then show ?thesis using put_blocks_refl[OF prems(1)] by (simp add: readi_loop.simps)
  next
    case False
    have K: "K \<le> 140" using prems(3) by (simp add: allocated_def)
    define m where "m = min left (512 - off mod 512)"
    note cu = chunk_unat[of off left, folded m_def]
    have lt: "unat off + unat left < 2 ^ 32" using prems(5) K by simp
    note cu = cu[OF lt]
    have "0 < unat left" using False by (simp add: unat_gt_0)
    then have k: "unat (off div 512) < K" using cu(4) prems(5) by (simp add: div_less_iff_less_mult algebra_simps)
    let ?k = "unat (off div 512)"
    obtain s1 where s1: "bmap ip (off div 512) s = Ok (fblk (cval s) ?ad ?k) s1" "frame s s1" "put_blocks [] s s1"
      using bmap_allocated[OF prems(1-3) k refl prems(4)] by blast
    let ?b = "fblk (cval s) ?ad ?k"
    have ok1: "bc_ok {} s1" "disk s1 = disk s" "dirty s1 = dirty s" using s1(3) by (simp_all add: put_blocks_def)
    have in1: "inodes s1 = inodes s" using frameD(6)[OF s1(2)] .
    have br: "unat ?b < length (disk s)" using prems(3) k by (simp add: allocated_def)
    have cb: "cval s1 ?b = cval s ?b" using put_blocks_view[OF s1(3), of ?b] br by simp
    obtain p u where u: "bread 1 ?b s1 = Ok p u" "has_block s1 ?b p u" using read_block[OF ok1(1), of ?b] ok1 br prems(2) by auto
    obtain s2 where s2: "brelse p u = Ok () s2" "frame s1 s2" "put_blocks [] s1 s2" using release_block[OF ok1(1) u(2)] by blast
    have p2: "put_blocks [] s s2" "frame s s2" using put_blocks_trans[OF s1(3) s2(3)] frame_trans[OF s1(2) s2(2)] by simp_all
    have in2: "inodes s2 = inodes s" using frameD(6)[OF p2(2)] .
    have ok2: "bc_ok {} s2" "disk s2 = disk s" "dirty s2 = dirty s" using p2(1) by (simp_all add: put_blocks_def)
    define bytes where "bytes = take (unat m) (drop (unat (off mod 512)) (b_data (bufs u ! p)))"
    have dat: "b_data (bufs u ! p) = cval s ?b" using u(2) cb by (simp add: has_block_def)
    let ?bs = "map (\<lambda>k. cval s (fblk (cval s) ?ad k)) [0..<K]"
    have e: "512 * ?k + unat (off mod 512) = unat off" using cu(4,5) by simp
    have bm: "unat off mod 512 + unat m \<le> 512" using cu(1) mod_less_divisor[of 512 "unat off"] by simp
    have "take (unat m) (drop (512 * ?k + unat (off mod 512)) (concat ?bs)) = take (unat m) (drop (unat (off mod 512)) (?bs ! ?k))"
      by (rule concat_nth_drop) (use content_blocks(1)[OF prems(1,3)] k bm cu(5) in auto)
    then have eqb: "bytes = take (unat m) (drop (unat off) (content K (cval s) ?ad))"
      unfolding bytes_def dat using k by (simp add: content_def e)
    have al2: "allocated K s2 (i_addrs (inodes s2 ! ip))" unfolding in2 by (rule allocated_cong(2)[OF p2(1) prems(3)])
    have cc: "content K (cval s2) ?ad = content K (cval s) ?ad" by (rule allocated_cong(3)[OF p2(1) prems(3)])
    have "readi_loop ip off left acc s = readi_loop ip (off + m) (left - m) (acc @ bytes) s2"
      using False s1(1) u(1) s2(1) prems(4) in1 by (subst readi_loop.simps) (simp add: m_def bytes_def Let_def)
    moreover obtain t where t: "readi_loop ip (off + m) (left - m) (acc @ bytes) s2
         = Ok ((acc @ bytes) @ take (unat (left - m)) (drop (unat (off + m)) (content K (cval s2) (i_addrs (inodes s2 ! ip))))) t" "frame s2 t" "put_blocks [] s2 t"
    proof -
      have "unat (off + m) + unat (left - m) \<le> 512 * K" using cu prems(5) by simp
      moreover have "unat (left - m) < unat left" using chunk_less[OF False, of off] by (simp add: m_def)
      ultimately have "\<exists>t. readi_loop ip (off + m) (left - m) (acc @ bytes) s2
         = Ok ((acc @ bytes) @ take (unat (left - m)) (drop (unat (off + m)) (content K (cval s2) (i_addrs (inodes s2 ! ip))))) t \<and> frame s2 t \<and> put_blocks [] s2 t"
        using IH[of "left - m" s2 "off + m" "acc @ bytes"] ok2 al2 prems(2,4) in2 by simp
      then show ?thesis using that by blast
    qed
    moreover have "bytes @ take (unat (left - m)) (drop (unat (off + m)) (content K (cval s) ?ad)) = take (unat left) (drop (unat off) (content K (cval s) ?ad))"
      unfolding eqb cu(2,3) take_drop_split using cu(1) by simp
    ultimately show ?thesis using put_blocks_trans[OF p2(1) t(3)] frame_trans[OF p2(2) t(2)] by (simp add: in2 cc)
  qed
qed

lemma readi_ok:
  assumes "bc_ok {} s" "card (dirty s) < 30" "allocated K s (i_addrs (inodes s ! ip))" "i_dev (inodes s ! ip) = 1"
    "i_type (inodes s ! ip) \<noteq> T_DEV" "unat (i_size (inodes s ! ip)) \<le> 512 * K"
  defines "c \<equiv> take (unat (i_size (inodes s ! ip))) (content K (cval s) (i_addrs (inodes s ! ip)))"
  shows "if unat (i_size (inodes s ! ip)) < unat off \<or> 2 ^ 32 \<le> unat off + unat n then readi ip off n s = Ok (- 1, []) s
     else \<exists>t. readi ip off n s = Ok (of_nat (length (take (unat n) (drop (unat off) c))), take (unat n) (drop (unat off) c)) t \<and> frame s t \<and> put_blocks [] s t"
proof -
  let ?sz = "i_size (inodes s ! ip)" and ?c = "content K (cval s) (i_addrs (inodes s ! ip))"
  have w: "off + n < off \<longleftrightarrow> 2 ^ 32 \<le> unat off + unat n"
    using unat_lt32[of off] unat_lt32[of n] by (auto simp: word_less_nat_alt unat_plus_if')
  show ?thesis
  proof (cases "unat ?sz < unat off \<or> 2 ^ 32 \<le> unat off + unat n")
    case True
    then have "readi ip off n s = Ok (- 1, []) s" using assms(5) w by (auto simp: readi_def word_less_nat_alt)
    then show ?thesis using True by simp
  next
    case False
    then have o: "\<not> ?sz < off" "\<not> off + n < off" "unat (off + n) = unat off + unat n" using w by (auto simp: word_less_nat_alt unat_plus_if')
    define m where "m = (if ?sz < off + n then ?sz - off else n)"
    have um: "unat m = min (unat n) (unat ?sz - unat off)"
      using o False by (auto simp: m_def word_less_nat_alt unat_sub word_le_nat_alt not_less)
    have r: "unat off + unat m \<le> 512 * K" using um assms(6) False by auto
    obtain t where t: "readi_loop ip off m [] s = Ok (take (unat m) (drop (unat off) ?c)) t" "frame s t" "put_blocks [] s t"
      using readi_loop_ok[OF assms(1-4) r, of "[]"] by auto
    have eq: "take (unat m) (drop (unat off) ?c) = take (unat n) (drop (unat off) c)"
      unfolding c_def um by (simp add: drop_take)
    have len: "length (take (unat n) (drop (unat off) c)) = unat m"
      using content_blocks(2)[OF assms(1,3)] assms(6) um unfolding c_def by simp
    have "readi ip off n s = Ok (m, take (unat n) (drop (unat off) c)) t"
      using assms(5) o t(1) eq by (simp add: readi_def Let_def m_def[symmetric])
    then show ?thesis using False t(2,3) len by simp
  qed
qed

section \<open>Writing\<close>

lemma same_cache:
  assumes "bufs t = bufs s" "disk t = disk s" "procs t = procs s" "mach t = mach s" "head_next t = head_next s" "head_prev t = head_prev s"
  shows "bc_ok B t = bc_ok B s" "cval t = cval s" "dirty t = dirty s"
proof -
  have q: "quiet t = quiet s" "running t = running s" by (simp_all add: assms quiet_def running_def)
  have "nextof t = nextof s" "prevof t = prevof s" by (auto simp: nextof_def prevof_def fun_eq_iff assms)
  then have m: "mru t = mru s" by (intro ext) (simp add: mru_def assms)
  have w: "wanted 1 n t = wanted 1 n s" for n by (intro ext) (simp add: wanted_def assms)
  show "bc_ok B t = bc_ok B s" by (simp add: bc_ok_def m q assms)
  show "cval t = cval s" by (intro ext) (simp add: cval_def cached_def w assms split: option.split)
  show "dirty t = dirty s" by (simp add: dirty_def assms)
qed

lemma upd_inode_view [simp]:
  "bc_ok B (upd_inode ip f s) = bc_ok B s" "cval (upd_inode ip f s) = cval s" "dirty (upd_inode ip f s) = dirty s" "disk (upd_inode ip f s) = disk s"
  "dwrites (upd_inode ip f s) = dwrites s" "logs (upd_inode ip f s) = logs s" "fsb (upd_inode ip f s) = fsb s" "log_ok (upd_inode ip f s) = log_ok s"
  "log_area (upd_inode ip f s) = log_area s" "room k (upd_inode ip f s) = room k s" "IBLOCK i (upd_inode ip f s) = IBLOCK i s"
proof -
  let ?t = "upd_inode ip f s"
  have f: "bufs ?t = bufs s" "disk ?t = disk s" "procs ?t = procs s" "mach ?t = mach s" "head_next ?t = head_next s" "head_prev ?t = head_prev s"
    "dwrites ?t = dwrites s" "logs ?t = logs s" "fsb ?t = fsb s" by (simp_all add: upd_inode_def)
  note sc = same_cache[of ?t s, OF f(1-6)]
  show "bc_ok B ?t = bc_ok B s" "cval ?t = cval s" "dirty ?t = dirty s" by (rule sc)+
  show "disk ?t = disk s" "dwrites ?t = dwrites s" "logs ?t = logs s" "fsb ?t = fsb s" by (rule f)+
  show "log_ok ?t = log_ok s" "log_area ?t = log_area s" "room k ?t = room k s" "IBLOCK i ?t = IBLOCK i s"
    using sc(3) f by (simp_all add: log_ok_def log_geom_def logged_def log_n_def log_area_def room_def IBLOCK_def)
qed

text \<open>The blocks of a file, its indirect block and its inode's block are different blocks outside the log.\<close>

definition separate :: "nat \<Rightarrow> kernel \<Rightarrow> inode \<Rightarrow> bool" where
  "separate K s i \<longleftrightarrow> (let f = fblk (cval s) (i_addrs i); ib = IBLOCK (i_inum i) s; x = i_addrs i ! NDIRECT in
     inj_on f {..<K} \<and> (\<forall>k < K. unat (f k) \<notin> log_area s \<and> f k \<noteq> ib \<and> (NDIRECT < K \<longrightarrow> f k \<noteq> x))
     \<and> (NDIRECT < K \<longrightarrow> x \<noteq> ib) \<and> unat ib < length (disk s) \<and> unat ib \<notin> log_area s)"

lemma write_content:
  assumes a: "allocated K s ad" and k: "k < K" and i: "inj_on (fblk (cval s) ad) {..<K}" "\<And>j. j < K \<Longrightarrow> NDIRECT < K \<Longrightarrow> fblk (cval s) ad j \<noteq> ad ! NDIRECT"
    and v: "v' = (cval s)(fblk (cval s) ad k := d)"
  shows "j < K \<Longrightarrow> fblk v' ad j = fblk (cval s) ad j"
    "map (\<lambda>k. v' (fblk v' ad k)) [0..<K] = (map (\<lambda>k. cval s (fblk (cval s) ad k)) [0..<K])[k := d]"
proof -
  have f: "fblk v' ad j = fblk (cval s) ad j" if j: "j < K" for j
  proof (cases "j < 12")
    case False
    then have "fblk (cval s) ad k \<noteq> ad ! 12" using i(2)[OF k] j by simp
    then show ?thesis using False by (simp add: fblk_def v)
  qed (simp add: fblk_def)
  then show "j < K \<Longrightarrow> fblk v' ad j = fblk (cval s) ad j" .
  show "map (\<lambda>k. v' (fblk v' ad k)) [0..<K] = (map (\<lambda>k. cval s (fblk (cval s) ad k)) [0..<K])[k := d]"
  proof (rule nth_equalityI)
    fix j assume "j < length (map (\<lambda>k. v' (fblk v' ad k)) [0..<K])"
    then have j: "j < K" by simp
    have "fblk (cval s) ad j = fblk (cval s) ad k \<longleftrightarrow> j = k" using i(1) j k by (auto simp: inj_on_def)
    then show "map (\<lambda>k. v' (fblk v' ad k)) [0..<K] ! j = (map (\<lambda>k. cval s (fblk (cval s) ad k)) [0..<K])[k := d] ! j"
      using j f[OF j] k by (simp add: v nth_list_update)
  qed simp
qed

definition overwrite :: "nat \<Rightarrow> byte list \<Rightarrow> byte list \<Rightarrow> byte list" where
  "overwrite p xs c = take p c @ xs @ drop (p + length xs) c"

lemma overwrite_overwrite:
  "p + length xs \<le> length c \<Longrightarrow> overwrite (p + length xs) ys (overwrite p xs c) = overwrite p (xs @ ys) c"
  by (simp add: overwrite_def add.commute add.left_commute)

lemma overwrite_nil [simp]: "overwrite p [] c = c"
  by (simp add: overwrite_def)

lemma length_overwrite: "p + length xs \<le> length c \<Longrightarrow> length (overwrite p xs c) = length c"
  by (simp add: overwrite_def)

text \<open>A file of \<open>K\<close> blocks that can be written in the current transaction.\<close>

definition wfile :: "nat \<Rightarrow> kernel \<Rightarrow> nat \<Rightarrow> bool" where
  "wfile K s ip \<longleftrightarrow> bc_ok {} s \<and> log_ok s \<and> allocated K s (i_addrs (inodes s ! ip)) \<and> separate K s (inodes s ! ip) \<and> i_dev (inodes s ! ip) = 1"

definition kept :: "nat \<Rightarrow> kernel \<Rightarrow> nat \<Rightarrow> kernel \<Rightarrow> bool" where
  "kept K s ip t \<longleftrightarrow> wfile K t ip \<and> inodes t = inodes s \<and> fsb t = fsb s \<and> disk t = disk s \<and> dwrites t = dwrites s \<and> log_area t = log_area s
     \<and> (\<forall>x. unat x < length (disk s) \<longrightarrow> (\<forall>k < K. x \<noteq> fblk (cval s) (i_addrs (inodes s ! ip)) k) \<longrightarrow> cval t x = cval s x)
     \<and> (\<forall>k < K. fblk (cval t) (i_addrs (inodes s ! ip)) k = fblk (cval s) (i_addrs (inodes s ! ip)) k)"

lemma kept_trans: "kept K s ip t \<Longrightarrow> kept K t ip u \<Longrightarrow> kept K s ip u"
  unfolding kept_def by simp

lemma wfile_read:
  assumes "wfile K s ip" "frame s t" "put_blocks [] s t"
  shows "kept K s ip t" "room k t = room k s" "content K (cval t) (i_addrs (inodes s ! ip)) = content K (cval s) (i_addrs (inodes s ! ip))"
proof -
  have a: "allocated K s (i_addrs (inodes s ! ip))" and sp: "separate K s (inodes s ! ip)" and lo: "log_ok s" and dv: "i_dev (inodes s ! ip) = 1"
    using assms(1) by (simp_all add: wfile_def)
  note fr = frameD[OF assms(2)]
  have p: "bc_ok {} t" "disk t = disk s" "dwrites t = dwrites s" "dirty t = dirty s" using assms(3) by (simp_all add: put_blocks_def)
  note ac = allocated_cong[OF assms(3)]
  have f: "fblk (cval t) (i_addrs (inodes s ! ip)) k = fblk (cval s) (i_addrs (inodes s ! ip)) k" if "k < K" for k using ac(1)[OF that a] .
  have la: "log_area t = log_area s" using fr(2) by (simp add: log_area_def)
  have "separate K t (inodes s ! ip)" using sp f p(2) la fr(5) by (simp add: separate_def Let_def inj_on_def IBLOCK_def)
  moreover have "log_ok t" using lo p fr(2) by (simp add: log_ok_def log_geom_def logged_def log_n_def log_area_def)
  ultimately have "wfile K t ip" using ac(2)[OF a] p(1) dv fr(6) by (simp add: wfile_def)
  then show "kept K s ip t" using f p fr(5,6) la put_blocks_view[OF assms(3)] by (simp add: kept_def)
  show "room k t = room k s" using fr(2) by (simp add: room_def log_n_def)
  show "content K (cval t) (i_addrs (inodes s ! ip)) = content K (cval s) (i_addrs (inodes s ! ip))" by (rule ac(3)[OF a])
qed

lemma wfile_logged:
  assumes wf: "wfile K s ip" and k: "k < K" and lt: "logged_to (fblk (cval s) (i_addrs (inodes s ! ip)) k) d s t" and d: "length d = 512"
  shows "kept K s ip t" "content K (cval t) (i_addrs (inodes s ! ip)) = concat ((map (\<lambda>k. cval s (fblk (cval s) (i_addrs (inodes s ! ip)) k)) [0..<K])[k := d])"
proof -
  let ?ad = "i_addrs (inodes s ! ip)" and ?ib = "IBLOCK (i_inum (inodes s ! ip)) s"
  note l = logged_toD[OF lt]
  have a: "allocated K s ?ad" and sp: "separate K s (inodes s ! ip)" and dv: "i_dev (inodes s ! ip) = 1" using wf by (simp_all add: wfile_def)
  have inj: "inj_on (fblk (cval s) ?ad) {..<K}" and nx: "\<And>j. j < K \<Longrightarrow> 12 < K \<Longrightarrow> fblk (cval s) ?ad j \<noteq> ?ad ! 12"
    using sp by (simp_all add: separate_def Let_def)
  have wc1: "fblk (cval t) ?ad j = fblk (cval s) ?ad j" if "j < K" for j by (rule write_content(1)[OF a k inj _ l(9) that]) (rule nx)
  have wc2: "map (\<lambda>k. cval t (fblk (cval t) ?ad k)) [0..<K] = (map (\<lambda>k. cval s (fblk (cval s) ?ad k)) [0..<K])[k := d]"
    by (rule write_content(2)[OF a k inj _ l(9)]) (rule nx)
  have "allocated K t ?ad" using a wc1 l(7) by (simp add: allocated_def)
  moreover have "separate K t (inodes s ! ip)"
    using sp wc1 l(2,4,7) by (simp add: separate_def Let_def inj_on_def IBLOCK_def)
  ultimately have "wfile K t ip" using l(3,5,6) dv by (simp add: wfile_def)
  then show "kept K s ip t" using l k wc1 by (simp add: kept_def)
  show "content K (cval t) ?ad = concat ((map (\<lambda>k. cval s (fblk (cval s) ?ad k)) [0..<K])[k := d])"
    unfolding content_def wc2 ..
qed

text \<open>The number of blocks that \<open>l\<close> bytes from position \<open>p\<close> on lie in.\<close>

definition spans :: "nat \<Rightarrow> nat \<Rightarrow> nat" where
  "spans p l = (if l = 0 then 0 else (p mod 512 + l + 511) div 512)"

lemma spans_left:
  assumes "0 < l" "m = min l (512 - p mod 512)"
  shows "spans p l = Suc (spans (p + m) (l - m))"
proof -
  define q where "q = p mod 512"
  have q: "q < 512" "(p + m) mod 512 = (q + m) mod 512" by (simp_all add: q_def mod_add_left_eq)
  show ?thesis
  proof (cases "q + l \<le> 512")
    case True
    then have "(q + l + 511) div 512 = 1" using assms(1) by (simp add: div_nat_eqI)
    then show ?thesis using assms True q by (simp add: spans_def q_def[symmetric])
  next
    case False
    then have m: "q + m = 512" "m < l" using assms(2) q by (auto simp: q_def[symmetric])
    then have "q + l + 511 = 512 + (l - m + 511)" by simp
    then have "(q + l + 511) div 512 = Suc ((l - m + 511) div 512)" by simp
    then show ?thesis using q m by (simp add: spans_def q_def[symmetric])
  qed
qed

lemma writei_loop_ok:
  assumes "wfile K s ip" "unat off + unat left \<le> 512 * K" "unat left \<le> length src" "room (r + spans (unat off) (unat left)) s"
  shows "\<exists>t. writei_loop ip off left src s = Ok (off + left) t \<and> kept K s ip t \<and> room r t
     \<and> content K (cval t) (i_addrs (inodes s ! ip)) = overwrite (unat off) (take (unat left) src) (content K (cval s) (i_addrs (inodes s ! ip)))"
  using assms
proof (induction "unat left" arbitrary: off left src s rule: less_induct)
  case less
  note IH = less(1) and prems = less(2-5)
  let ?ad = "i_addrs (inodes s ! ip)"
  have ok: "bc_ok {} s" and lo: "log_ok s" and al: "allocated K s ?ad" and dv: "i_dev (inodes s ! ip) = 1"
    using prems(1) by (simp_all add: wfile_def)
  show ?case
  proof (cases "left = 0")
    case True
    then show ?thesis using prems by (simp add: writei_loop.simps kept_def spans_def)
  next
    case False
    have K: "K \<le> 140" using al by (simp add: allocated_def)
    define m where "m = min left (512 - off mod 512)"
    have lt: "unat off + unat left < 2 ^ 32" using prems(2) K by simp
    note cu = chunk_unat[of off left, folded m_def, OF lt]
    have l0: "0 < unat left" using False by (simp add: unat_gt_0)
    then have k: "unat (off div 512) < K" using cu(4) prems(2) by (simp add: div_less_iff_less_mult algebra_simps)
    let ?k = "unat (off div 512)"
    let ?b = "fblk (cval s) ?ad ?k"
    obtain s1 where s1: "bmap ip (off div 512) s = Ok ?b s1" "frame s s1" "put_blocks [] s s1"
      using bmap_allocated[OF ok log_okD(3)[OF lo] al k refl dv] by blast
    note k1 = wfile_read[OF prems(1) s1(2,3)]
    have w1: "wfile K s1 ip" "inodes s1 = inodes s" "disk s1 = disk s" "fblk (cval s1) ?ad ?k = ?b" using k1(1) k by (simp_all add: kept_def)
    have o1: "bc_ok {} s1" "log_ok s1" "allocated K s1 ?ad" "separate K s1 (inodes s ! ip)" using w1 by (simp_all add: wfile_def)
    have br: "unat ?b < length (disk s1)" "unat ?b \<notin> log_area s1"
      using o1(3,4) k w1(4) by (auto simp: allocated_def separate_def Let_def)
    obtain p u where u: "bread 1 ?b s1 = Ok p u" "has_block s1 ?b p u" using read_block[OF o1(1) log_okD(3)[OF o1(2)] br(1)] by blast
    let ?o = "unat (off mod 512)"
    define d where "d = take ?o (cval s1 ?b) @ take (unat m) src @ drop (?o + unat m) (cval s1 ?b)"
    have mo: "?o + unat m \<le> 512" using cu(1,5) mod_less_divisor[of 512 "unat off"] by simp
    have ml: "unat m \<le> unat left" "length (take (unat m) src) = unat m" using cu(1) prems(3) by simp_all
    have dl: "length d = 512" using bread_length[OF o1(1) br(1)] mo ml by (simp add: d_def)
    define r' where "r' = r + spans (unat (off + m)) (unat (left - m))"
    have "spans (unat off) (unat left) = Suc (spans (unat off + unat m) (unat left - unat m))" by (rule spans_left[OF l0 cu(1)])
    then have "r + spans (unat off) (unat left) = Suc r'" unfolding r'_def by (simp only: cu add_Suc_right)
    then have rm: "room (Suc r') s1" using prems(4) unfolding k1(2) by (simp only:)
    obtain w t where t: "log_write p (upd_buf p (\<lambda>k. k\<lparr>b_data := d\<rparr>) u) = Ok () w" "brelse p w = Ok () t" "logged_to ?b d s1 t"
      using log_block[OF o1(1,2) rm u(2) br dl] by blast
    have bl: "logged_to (fblk (cval s1) (i_addrs (inodes s1 ! ip)) ?k) d s1 t" using t(3) w1 by simp
    note wl = wfile_logged[OF w1(1) k bl dl]
    have kt: "kept K s ip t" by (rule kept_trans[OF k1(1) wl(1)])
    then have wt: "wfile K t ip" "inodes t = inodes s" by (simp_all add: kept_def)
    have rt: "room r' t" by (rule room_after[OF t(3) o1(2) rm])
    have ct: "content K (cval t) ?ad = overwrite (unat off) (take (unat m) src) (content K (cval s) ?ad)"
    proof -
      let ?bs = "map (\<lambda>k. cval s1 (fblk (cval s1) ?ad k)) [0..<K]"
      have e: "512 * ?k + ?o = unat off" using cu(4,5) by simp
      have bk: "?bs ! ?k = cval s1 ?b" using k w1(4) by simp
      have "concat (?bs[?k := take ?o (?bs ! ?k) @ take (unat m) src @ drop (?o + length (take (unat m) src)) (?bs ! ?k)])
          = take (512 * ?k + ?o) (concat ?bs) @ take (unat m) src @ drop (512 * ?k + ?o + length (take (unat m) src)) (concat ?bs)"
        by (rule concat_update) (use content_blocks(1)[OF o1(1,3)] k mo ml(2) in auto)
      then have "content K (cval t) ?ad = take (unat off) (concat ?bs) @ take (unat m) src @ drop (unat off + unat m) (concat ?bs)"
        using wl(2) w1(2) unfolding bk e ml(2) by (simp add: d_def)
      then show ?thesis using k1(3) ml(2) by (simp add: overwrite_def content_def)
    qed
    have up: "upd_buf p (\<lambda>b. b\<lparr>b_data := take ?o (b_data b) @ take (unat m) src @ drop (?o + unat m) (b_data b)\<rparr>) u = upd_buf p (\<lambda>k. k\<lparr>b_data := d\<rparr>) u"
      using has_block_upd[OF u(2), of "\<lambda>x. take ?o x @ take (unat m) src @ drop (?o + unat m) x"] by (simp add: d_def)
    have step: "writei_loop ip off left src s = writei_loop ip (off + m) (left - m) (drop (unat m) src) t"
      using False s1(1) u(1) t(1,2) dv w1(2) by (subst writei_loop.simps) (simp add: m_def[symmetric] Let_def up)
    have "\<exists>z. writei_loop ip (off + m) (left - m) (drop (unat m) src) t = Ok (off + m + (left - m)) z \<and> kept K t ip z \<and> room r z
       \<and> content K (cval z) (i_addrs (inodes t ! ip)) = overwrite (unat (off + m)) (take (unat (left - m)) (drop (unat m) src)) (content K (cval t) (i_addrs (inodes t ! ip)))"
    proof (rule IH)
      show "unat (left - m) < unat left" using chunk_less[OF False, of off] by (simp add: m_def)
      show "wfile K t ip" by (rule wt)
      show "unat (off + m) + unat (left - m) \<le> 512 * K" using cu prems(2) by simp
      show "unat (left - m) \<le> length (drop (unat m) src)" using cu(3) prems(3) by simp
      show "room (r + spans (unat (off + m)) (unat (left - m))) t" using rt by (simp add: r'_def)
    qed
    then obtain z where z: "writei_loop ip (off + m) (left - m) (drop (unat m) src) t = Ok (off + left) z" "kept K t ip z" "room r z"
       "content K (cval z) ?ad = overwrite (unat (off + m)) (take (unat (left - m)) (drop (unat m) src)) (content K (cval t) ?ad)"
      using wt(2) by auto
    have "overwrite (unat off + length (take (unat m) src)) (take (unat left - unat m) (drop (unat m) src)) (overwrite (unat off) (take (unat m) src) (content K (cval s) ?ad))
        = overwrite (unat off) (take (unat m) src @ take (unat left - unat m) (drop (unat m) src)) (content K (cval s) ?ad)"
      by (rule overwrite_overwrite) (use content_blocks(2)[OF ok al] ml prems(2) in simp)
    then have "content K (cval z) ?ad = overwrite (unat off) (take (unat left) src) (content K (cval s) ?ad)"
      unfolding z(4) ct cu(2,3) using ml by (simp add: take_add[symmetric])
    then show ?thesis using step z(1,3) kept_trans[OF kt z(2)] by auto
  qed
qed

section \<open>Inodes on disk\<close>

lemma length_put16 [simp]: "length (put16 d k v) = length d"
  by (simp add: put16_def)

lemma get16_put16 [simp]:
  assumes "k + 2 \<le> length d"
  shows "get16 (put16 d k v) k = v"
proof (rule bit_word_eqI)
  fix n assume n: "n < LENGTH(16)"
  have "bit (get16 (put16 d k v) k) n \<longleftrightarrow> bit (ucast v :: byte) n \<or> 8 \<le> n \<and> bit (ucast (drop_bit 8 v) :: byte) (n - 8)"
    using assms n by (auto simp: get16_def put16_def nth_list_update bit_simps)
  then show "bit (get16 (put16 d k v) k) n = bit v n" using n by (auto simp: bit_simps)
qed

lemma get_cong:
  assumes "\<And>i. lo \<le> i \<Longrightarrow> i < lo + c \<Longrightarrow> d ! i = e ! i"
  shows "lo \<le> k \<Longrightarrow> k + 2 \<le> lo + c \<Longrightarrow> get16 d k = get16 e k" "lo \<le> k \<Longrightarrow> k + 4 \<le> lo + c \<Longrightarrow> get32 d k = get32 e k"
proof -
  show "lo \<le> k \<Longrightarrow> k + 2 \<le> lo + c \<Longrightarrow> get16 d k = get16 e k" using assms[of k] assms[of "k + 1"] by (simp add: get16_def)
  show "lo \<le> k \<Longrightarrow> k + 4 \<le> lo + c \<Longrightarrow> get32 d k = get32 e k" by (rule get32_cong) (use assms in auto)
qed

lemma put_other:
  "j + 2 \<le> k \<or> k + 2 \<le> j \<Longrightarrow> get16 (put16 d k v) j = get16 d j" "j + 2 \<le> k \<or> k + 4 \<le> j \<Longrightarrow> get16 (put32 d k w) j = get16 d j"
  "j + 4 \<le> k \<or> k + 2 \<le> j \<Longrightarrow> get32 (put16 d k v) j = get32 d j"
  by (auto simp: get16_def put16_def put32_def nth_list_update_neq intro!: get32_cong)

lemma put_nth_other: "i < k \<or> k + 2 \<le> i \<Longrightarrow> put16 d k v ! i = d ! i" "i < k \<or> k + 4 \<le> i \<Longrightarrow> put32 d k w ! i = d ! i"
  by (auto simp: put16_def put32_def nth_list_update_neq)

text \<open>The loop that stores the addresses.\<close>

lemma put_addrs:
  fixes ad :: "32 word list"
  assumes "n \<le> 13" "b + 4 * n \<le> length d"
  defines "e \<equiv> fold (\<lambda>j d. put32 d (b + 4 * j) (ad ! j)) [0..<n] d"
  shows "length e = length d" "j < n \<Longrightarrow> get32 e (b + 4 * j) = ad ! j" "i < b \<or> b + 4 * n \<le> i \<Longrightarrow> e ! i = d ! i"
proof -
  have "length (fold (\<lambda>j d. put32 d (b + 4 * j) (ad ! j)) [0..<n] d) = length d
     \<and> (\<forall>j < n. get32 (fold (\<lambda>j d. put32 d (b + 4 * j) (ad ! j)) [0..<n] d) (b + 4 * j) = ad ! j)
     \<and> (\<forall>i. i < b \<or> b + 4 * n \<le> i \<longrightarrow> fold (\<lambda>j d. put32 d (b + 4 * j) (ad ! j)) [0..<n] d ! i = d ! i)" (is "?P n")
    using assms(1,2)
  proof (induction n)
    case (Suc n)
    then have IH: "?P n" by simp
    let ?e = "fold (\<lambda>j d. put32 d (b + 4 * j) (ad ! j)) [0..<n] d"
    have "get32 (put32 ?e (b + 4 * n) (ad ! n)) (b + 4 * j) = ad ! j" if "j < Suc n" for j
    proof (cases "j = n")
      case True
      then show ?thesis using IH Suc.prems(2) by simp
    next
      case False
      then show ?thesis using IH that by (subst get32_put32_other) auto
    qed
    then show ?case using IH by (simp add: put_nth_other)
  qed simp
  then show "length e = length d" "j < n \<Longrightarrow> get32 e (b + 4 * j) = ad ! j" "i < b \<or> b + 4 * n \<le> i \<Longrightarrow> e ! i = d ! i"
    unfolding e_def by blast+
qed

lemma write_dinode_fields:
  fixes ip :: inode
  assumes "length d = 512" "k < 8"
  defines "e \<equiv> write_dinode d k ip"
  shows "length e = 512" "get16 e (64 * k) = i_type ip" "get16 e (64 * k + 2) = i_major ip" "get16 e (64 * k + 4) = i_minor ip"
    "get16 e (64 * k + 6) = i_nlink ip" "get32 e (64 * k + 8) = i_size ip" "j < 13 \<Longrightarrow> get32 e (64 * k + 12 + 4 * j) = i_addrs ip ! j"
    "i < 64 * k \<or> 64 * k + 64 \<le> i \<Longrightarrow> e ! i = d ! i"
proof -
  define d1 where "d1 = put16 d (64 * k) (i_type ip)"
  define d2 where "d2 = put16 d1 (64 * k + 2) (i_major ip)"
  define d3 where "d3 = put16 d2 (64 * k + 4) (i_minor ip)"
  define d4 where "d4 = put16 d3 (64 * k + 6) (i_nlink ip)"
  define d5 where "d5 = put32 d4 (64 * k + 8) (i_size ip)"
  note ds = d1_def d2_def d3_def d4_def d5_def
  have l: "length d5 = 512" "64 * k + 12 + 4 * 13 \<le> length d5" using assms(1,2) by (simp_all add: ds)
  have e: "e = fold (\<lambda>j d. put32 d (64 * k + 12 + 4 * j) (i_addrs ip ! j)) [0..<13] d5"
    unfolding e_def write_dinode_def ds by (simp add: Let_def)
  note pa = put_addrs[where ad = "i_addrs ip", OF order.refl l(2), folded e]
  show "length e = 512" using pa(1) l by simp
  have keep: "get16 e j = get16 d5 j" if "j + 2 \<le> 64 * k + 12" for j
    by (rule get_cong(1)[of j 2]) (use pa(3) that in auto)
  have keep32: "get32 e j = get32 d5 j" if "j + 4 \<le> 64 * k + 12" for j
    by (rule get_cong(2)[of j 4]) (use pa(3) that in auto)
  show "get16 e (64 * k) = i_type ip" "get16 e (64 * k + 2) = i_major ip" "get16 e (64 * k + 4) = i_minor ip"
    "get16 e (64 * k + 6) = i_nlink ip" "get32 e (64 * k + 8) = i_size ip"
    using assms(1,2) by (simp_all add: keep keep32) (simp_all add: ds put_other)
  show "j < 13 \<Longrightarrow> get32 e (64 * k + 12 + 4 * j) = i_addrs ip ! j" using pa(2) by simp
  show "e ! i = d ! i" if "i < 64 * k \<or> 64 * k + 64 \<le> i"
  proof -
    have "e ! i = d5 ! i" using that by (intro pa(3)) auto
    then show ?thesis using that by (auto simp: ds put_nth_other)
  qed
qed

text \<open>What \<open>iupdate\<close> stores in an inode block, \<open>ilock\<close> reads back: all fields and the 13 addresses, for every slot of
  the block; the other seven inodes of the block are not touched.\<close>

theorem dinode_roundtrip:
  assumes "length d = BSIZE" "k < 8" "length (i_addrs ip) = 13" "j < 8"
  shows "read_dinode (write_dinode d k ip) j x = (if j = k
      then x\<lparr>i_type := i_type ip, i_major := i_major ip, i_minor := i_minor ip, i_nlink := i_nlink ip, i_size := i_size ip, i_addrs := i_addrs ip\<rparr>
      else read_dinode d j x)"
proof (cases "j = k")
  case True
  have l: "length d = 512" using assms(1) by simp
  have "map (\<lambda>j. get32 (write_dinode d k ip) (64 * k + 12 + 4 * j)) [0..<13] = map ((!) (i_addrs ip)) [0..<13]"
    using write_dinode_fields(7)[OF l assms(2)] by simp
  also have "\<dots> = i_addrs ip" using map_nth[of "i_addrs ip"] assms(3) by simp
  finally show ?thesis using True write_dinode_fields(2-6)[OF l assms(2), of ip] by (simp add: read_dinode_def)
next
  case False
  then have o: "i < 64 * k \<or> 64 * k + 64 \<le> i" if "64 * j \<le> i" "i < 64 * j + 64" for i using that by linarith
  have same: "write_dinode d k ip ! i = d ! i" if "64 * j \<le> i" "i < 64 * j + 64" for i
    using write_dinode_fields(8)[of d k i ip] assms(1,2) o[OF that] by simp
  note gc = get_cong[of "64 * j" 64, OF same]
  show ?thesis unfolding read_dinode_def using False by (simp add: gc)
qed

lemma iupdate_ok:
  assumes "bc_ok {} s" "log_ok s" "room (Suc k) s" "i_dev (inodes s ! ip) = 1"
    "unat (IBLOCK (i_inum (inodes s ! ip)) s) < length (disk s)" "unat (IBLOCK (i_inum (inodes s ! ip)) s) \<notin> log_area s"
  shows "\<exists>t. iupdate ip s = Ok () t \<and> room k t \<and> logged_to (IBLOCK (i_inum (inodes s ! ip)) s)
     (write_dinode (cval s (IBLOCK (i_inum (inodes s ! ip)) s)) (unat (i_inum (inodes s ! ip) mod 8)) (inodes s ! ip)) s t"
proof -
  let ?n = "IBLOCK (i_inum (inodes s ! ip)) s" and ?f = "\<lambda>d. write_dinode d (unat (i_inum (inodes s ! ip) mod 8)) (inodes s ! ip)"
  have "unat (i_inum (inodes s ! ip) mod 8) < 8" by (simp add: unat_mod)
  then have l: "length (?f (cval s ?n)) = 512" using write_dinode_fields(1) bread_length[OF assms(1,5)] by blast
  obtain t where t: "log_modify ?n ?f s = Ok () t" "logged_to ?n (?f (cval s ?n)) s t" "room k t"
    using log_modify_ok[where f = ?f, OF assms(1-3,5,6) l] by blast
  obtain a u where u: "bread 1 ?n s = Ok a u" "has_block s ?n a u" using read_block[OF assms(1) log_okD(3)[OF assms(2)] assms(5)] by blast
  have "inodes u = inodes s" using frameD(6)[of s u] u(2) by (simp add: has_block_def)
  then have "iupdate ip s = log_modify ?n ?f s" using u(1) assms(4) by (simp add: iupdate_def log_modify_def)
  then show ?thesis using t by auto
qed

lemma wfile_inode:
  assumes wf: "wfile K s ip" and lt: "logged_to (IBLOCK (i_inum (inodes s ! ip)) s) d s t"
  shows "wfile K t ip" "content K (cval t) (i_addrs (inodes s ! ip)) = content K (cval s) (i_addrs (inodes s ! ip))"
proof -
  let ?ad = "i_addrs (inodes s ! ip)" and ?ib = "IBLOCK (i_inum (inodes s ! ip)) s"
  note l = logged_toD[OF lt]
  have a: "allocated K s ?ad" and sp: "separate K s (inodes s ! ip)" and dv: "i_dev (inodes s ! ip) = 1" using wf by (simp_all add: wfile_def)
  have f: "fblk (cval t) ?ad k = fblk (cval s) ?ad k" if "k < K" for k
    using that sp by (simp add: fblk_def l(9) separate_def Let_def)
  have c: "cval t (fblk (cval t) ?ad k) = cval s (fblk (cval s) ?ad k)" if "k < K" for k
    using f[OF that] sp that by (simp add: l(9) separate_def Let_def)
  then have "map (\<lambda>k. cval t (fblk (cval t) ?ad k)) [0..<K] = map (\<lambda>k. cval s (fblk (cval s) ?ad k)) [0..<K]" by simp
  then show "content K (cval t) ?ad = content K (cval s) ?ad" unfolding content_def by (rule arg_cong)
  have "allocated K t ?ad" using a f l(7) by (simp add: allocated_def)
  moreover have "separate K t (inodes s ! ip)" using sp f l(2,4,7) by (simp add: separate_def Let_def inj_on_def IBLOCK_def)
  ultimately show "wfile K t ip" using l(3,5,6) dv by (simp add: wfile_def)
qed

text \<open>A change of the size in the inode cache.\<close>

lemma wfile_size:
  assumes "wfile K s ip" "ip < length (inodes s)"
  shows "wfile K (upd_inode ip (\<lambda>k. k\<lparr>i_size := n\<rparr>) s) ip" "inodes (upd_inode ip (\<lambda>k. k\<lparr>i_size := n\<rparr>) s) ! ip = (inodes s ! ip)\<lparr>i_size := n\<rparr>"
proof -
  show e: "inodes (upd_inode ip (\<lambda>k. k\<lparr>i_size := n\<rparr>) s) ! ip = (inodes s ! ip)\<lparr>i_size := n\<rparr>" using assms(2) by (simp add: upd_inode_def)
  show "wfile K (upd_inode ip (\<lambda>k. k\<lparr>i_size := n\<rparr>) s) ip"
    using assms(1) by (simp add: wfile_def e allocated_def separate_def Let_def)
qed

lemma writei_ok:
  assumes wf: "wfile K s ip" and ip: "ip < length (inodes s)" and ty: "i_type (inodes s ! ip) \<noteq> T_DEV"
    and off: "unat off \<le> unat (i_size (inodes s ! ip))" "unat off + unat n \<le> 512 * K" and src: "unat n \<le> length src"
    and rm: "room (Suc (r + spans (unat off) (unat n))) s"
  shows "\<exists>t. writei ip src off n s = Ok n t \<and> wfile K t ip \<and> room r t \<and> disk t = disk s
     \<and> inodes t = (inodes s)[ip := (inodes s ! ip)\<lparr>i_size := (if n > 0 \<and> off + n > i_size (inodes s ! ip) then off + n else i_size (inodes s ! ip))\<rparr>]
     \<and> content K (cval t) (i_addrs (inodes s ! ip)) = overwrite (unat off) (take (unat n) src) (content K (cval s) (i_addrs (inodes s ! ip)))"
proof -
  let ?i = "inodes s ! ip"
  have K: "K \<le> 140" using wf by (simp add: wfile_def allocated_def)
  have lt: "unat off + unat n < 2 ^ 32" using off(2) K by simp
  then have un: "unat (off + n) = unat off + unat n" by (simp add: unat_word_ariths)
  have guards: "\<not> (off > i_size ?i \<or> off + n < off)" "\<not> off + n > of_nat (140 * 512)"
    using off K un by (auto simp: word_less_nat_alt)
  have rm': "room ((Suc r) + spans (unat off) (unat n)) s" using rm by simp
  obtain t where t: "writei_loop ip off n src s = Ok (off + n) t" "kept K s ip t" "room (Suc r) t"
     "content K (cval t) (i_addrs ?i) = overwrite (unat off) (take (unat n) src) (content K (cval s) (i_addrs ?i))"
    using writei_loop_ok[OF wf off(2) src rm'] by blast
  have kt: "wfile K t ip" "inodes t = inodes s" "fsb t = fsb s" "disk t = disk s" "log_area t = log_area s" using t(2) by (simp_all add: kept_def)
  show ?thesis
  proof (cases "n > 0 \<and> off + n > i_size ?i")
    case False
    have r: "room r t" using t(3) by (simp add: room_def)
    have "writei ip src off n s = Ok n t" using ty guards t(1) False kt(2) by (auto simp: writei_def)
    moreover have "inodes t = (inodes s)[ip := ?i\<lparr>i_size := i_size ?i\<rparr>]" using kt(2) by simp
    ultimately show ?thesis using False kt r t(4) by auto
  next
    case True
    let ?t1 = "upd_inode ip (\<lambda>k. k\<lparr>i_size := off + n\<rparr>) t"
    have ipt: "ip < length (inodes t)" using ip kt(2) by simp
    note ws = wfile_size[OF kt(1) ipt, of "off + n"]
    have i1: "inodes ?t1 ! ip = ?i\<lparr>i_size := off + n\<rparr>" using ws(2) kt(2) by simp
    have w1: "bc_ok {} ?t1" "log_ok ?t1" "room (Suc r) ?t1" "i_dev (inodes ?t1 ! ip) = 1"
      "unat (IBLOCK (i_inum (inodes ?t1 ! ip)) ?t1) < length (disk ?t1)" "unat (IBLOCK (i_inum (inodes ?t1 ! ip)) ?t1) \<notin> log_area ?t1"
      using ws(1) t(3) by (simp_all add: wfile_def separate_def Let_def)
    obtain z where z: "iupdate ip ?t1 = Ok () z" "room r z" "logged_to (IBLOCK (i_inum (inodes ?t1 ! ip)) ?t1)
       (write_dinode (cval ?t1 (IBLOCK (i_inum (inodes ?t1 ! ip)) ?t1)) (unat (i_inum (inodes ?t1 ! ip) mod 8)) (inodes ?t1 ! ip)) ?t1 z"
      using iupdate_ok[OF w1] by blast
    note wi = wfile_inode[OF ws(1) z(3)] and zd = logged_toD[OF z(3)]
    have "writei ip src off n s = Ok n z" using ty guards t(1) True kt(2) z(1) by (simp add: writei_def)
    moreover have "inodes z = (inodes s)[ip := ?i\<lparr>i_size := off + n\<rparr>]" using zd(3) kt(2) by (simp add: upd_inode_def)
    moreover have "content K (cval z) (i_addrs ?i) = content K (cval t) (i_addrs ?i)" using wi(2) i1 by simp
    ultimately show ?thesis using True wi(1) z(2) t(4) zd(7) kt(4) by auto
  qed
qed

text \<open>(C7) A file is an array of bytes: writing \<open>n\<close> bytes at a position within the allocated blocks, inside a transaction with
  room for the blocks concerned, returns \<open>n\<close>; the contents are the old ones with these bytes replaced, across block
  boundaries and through the indirect block; the size grows to the end of the write and never shrinks; a following
  read at the same position returns the bytes written; and nothing has reached the home blocks on disk yet.\<close>

theorem writei_readi:
  assumes "wfile K s ip" "ip < length (inodes s)" "i_type (inodes s ! ip) \<noteq> T_DEV" "unat (i_size (inodes s ! ip)) \<le> 512 * K"
    "unat off \<le> unat (i_size (inodes s ! ip))" "unat off + unat n \<le> 512 * K" "unat n \<le> length src"
    "room (Suc (r + spans (unat off) (unat n))) s"
  shows "\<exists>t u. writei ip src off n s = Ok n t \<and> wfile K t ip \<and> room r t \<and> disk t = disk s
     \<and> content K (cval t) (i_addrs (inodes s ! ip)) = overwrite (unat off) (take (unat n) src) (content K (cval s) (i_addrs (inodes s ! ip)))
     \<and> unat (i_size (inodes t ! ip)) = max (unat (i_size (inodes s ! ip))) (unat off + unat n)
     \<and> readi ip off n t = Ok (n, take (unat n) src) u \<and> disk u = disk s"
proof -
  let ?i = "inodes s ! ip" and ?c = "content K (cval s) (i_addrs (inodes s ! ip))"
  have a: "bc_ok {} s" "allocated K s (i_addrs ?i)" "K \<le> 140" using assms(1) by (auto simp: wfile_def allocated_def)
  obtain t where t: "writei ip src off n s = Ok n t" "wfile K t ip" "room r t" "disk t = disk s"
     "inodes t = (inodes s)[ip := ?i\<lparr>i_size := (if n > 0 \<and> off + n > i_size ?i then off + n else i_size ?i)\<rparr>]"
     "content K (cval t) (i_addrs ?i) = overwrite (unat off) (take (unat n) src) ?c"
    using writei_ok[OF assms(1-3,5-8)] by blast
  define sz' where "sz' = (if n > 0 \<and> off + n > i_size ?i then off + n else i_size ?i)"
  have it: "inodes t ! ip = ?i\<lparr>i_size := sz'\<rparr>" using t(5) assms(2) by (simp add: sz'_def)
  have un: "unat (off + n) = unat off + unat n" using assms(6) a(3) by (simp add: unat_word_ariths)
  have sz: "unat sz' = max (unat (i_size ?i)) (unat off + unat n)"
  proof (cases "n = 0")
    case True
    then show ?thesis using assms(5) by (simp add: sz'_def)
  next
    case False
    then have "sz' = (if off + n > i_size ?i then off + n else i_size ?i)" by (simp add: sz'_def word_gt_0)
    then show ?thesis using un by (auto simp: word_less_nat_alt)
  qed
  have tt: "bc_ok {} t" "log_ok t" "allocated K t (i_addrs (inodes t ! ip))" "i_dev (inodes t ! ip) = 1" using t(2) by (simp_all add: wfile_def)
  have size: "unat (i_size (inodes t ! ip)) \<le> 512 * K" "i_type (inodes t ! ip) \<noteq> T_DEV" using it sz assms(3,4,6) by simp_all
  let ?ct = "take (unat (i_size (inodes t ! ip))) (content K (cval t) (i_addrs (inodes t ! ip)))"
  have lc: "length ?c = 512 * K" by (rule content_blocks(2)[OF a(1,2)])
  have bytes: "take (unat n) (drop (unat off) ?ct) = take (unat n) src"
  proof -
    have "drop (unat off) (overwrite (unat off) (take (unat n) src) ?c) = take (unat n) src @ drop (unat off + unat n) ?c"
      using lc assms(6,7) by (simp add: overwrite_def)
    then show ?thesis using sz it t(6) assms(7) by (simp add: drop_take)
  qed
  obtain u where u: "readi ip off n t = Ok (of_nat (length (take (unat n) (drop (unat off) ?ct))), take (unat n) (drop (unat off) ?ct)) u" "put_blocks [] t u"
    using readi_ok[OF tt(1) log_okD(3)[OF tt(2)] tt(3,4) size(2,1), of off n] it sz assms(6) a(3) by (auto split: if_splits)
  have "readi ip off n t = Ok (n, take (unat n) src) u" using u(1) unfolding bytes using assms(7) by simp
  moreover have "disk u = disk s" using u(2) t(4) by (simp add: put_blocks_def)
  ultimately show ?thesis using t(1-4,6) sz it by auto
qed

definition ino_demo :: inode where
  "ino_demo = \<lparr>i_dev = 1, i_inum = 5, i_ref = 1, i_lock = sleeplock0, i_valid = True, i_type = T_FILE, i_major = 0, i_minor = 0,
     i_nlink = 1, i_size = 0, i_addrs = [60, 61] @ replicate 11 0\<rparr>"

lemma file_demo: "\<exists>s. wfile 2 s 0 \<and> room 3 s \<and> inodes s = [ino_demo]"
proof -
  obtain s where s: "idle s" "length (disk s) = 100" "unat (l_start (logs s)) = 2" "unat (l_size (logs s)) = 30" using log_demo by blast
  define t where "t = (upd_log (\<lambda>l. l\<lparr>l_outstanding := 1\<rparr>) s)\<lparr>inodes := [ino_demo], fsb := (fsb s)\<lparr>sb_inodestart := 40\<rparr>\<rparr>"
  have l: "logs t = (logs s)\<lparr>l_outstanding := 1\<rparr>" "disk t = disk s" "inodes t = [ino_demo]" "sb_inodestart (fsb t) = 40"
    by (simp_all add: t_def)
  have sc: "bc_ok {} t = bc_ok {} s" "dirty t = dirty s"
    using same_cache[of t "upd_log (\<lambda>l. l\<lparr>l_outstanding := 1\<rparr>) s"] by (simp_all add: t_def)
  have ids: "bc_ok {} s" "log_ok s" "lh_n (logs s) = 0" using s(1) by (simp_all add: idle_def)
  have lo: "log_ok t" using ids(2) sc(2) by (simp add: log_ok_def log_geom_def logged_def log_n_def log_area_def l)
  have ar: "log_area t = {2..<32}" using s(3,4) by (simp add: log_area_def l)
  have f: "fblk v (i_addrs ino_demo) k = (if k = 0 then 60 else 61)" if "k < 2" for v k
    using that by (cases k) (auto simp: fblk_def ino_demo_def)
  have ib: "IBLOCK (i_inum ino_demo) t = 40" by (simp add: IBLOCK_def l ino_demo_def)
  have "allocated 2 t (i_addrs ino_demo)" using f s(2) by (simp add: allocated_def l) (simp add: ino_demo_def)
  moreover have "separate 2 t ino_demo" using f s(2) by (auto simp: separate_def Let_def ib ar l inj_on_def less_2_cases_iff)
  ultimately have "wfile 2 t 0" using ids(1) sc(1) lo by (simp add: wfile_def l) (simp add: ino_demo_def)
  moreover have "room 3 t" using s(4) ids(3) by (simp add: room_def l log_n_def s_lt_def)
  ultimately show ?thesis using l by auto
qed

theorem writei_readi_witness:
  "\<exists>s t u. wfile 2 s 0 \<and> writei 0 (replicate 600 9) 0 600 s = Ok 600 t \<and> readi 0 0 600 t = Ok (600, replicate 600 9) u"
proof -
  obtain s where s: "wfile 2 s 0" "room 3 s" "inodes s = [ino_demo]" using file_demo by blast
  have "Suc (0 + spans (unat (0 :: 32 word)) (unat (600 :: 32 word))) = 3" by (simp add: spans_def)
  moreover have "i_type ino_demo \<noteq> 3" "i_size ino_demo = 0" by (simp_all add: ino_demo_def)
  ultimately show ?thesis
    using writei_readi[of 2 s 0 0 600 "replicate 600 9" 0] s by (auto simp: numeral_3_eq_3)
qed

theorem dinode_roundtrip_witness:
  "read_dinode (write_dinode (replicate BSIZE 0) 5 ino_demo) 5 ino_demo = ino_demo"
  using dinode_roundtrip[of "replicate BSIZE 0" 5 ino_demo 5 ino_demo] by (simp add: ino_demo_def)

end
