(* ===== verification/Balloc.thy ===== *)
theory Balloc imports Content
begin

text \<open>
  The free-block bitmap behind \<open>balloc\<close> and \<open>bfree\<close> of \<open>fs.c\<close>: allocation takes
  the lowest free block, freeing gives back exactly one, both through the buffer cache and the log.
\<close>

section \<open>The free-block bitmap\<close>

lemma bit_clear_bit: "bit_clear d i \<longleftrightarrow> \<not> bit (d ! (i div 8)) (i mod 8)"
proof -
  have "(d ! (i div 8) AND push_bit (i mod 8) 1 = 0) \<longleftrightarrow> (\<forall>n. \<not> (bit (d ! (i div 8)) n \<and> n = i mod 8 \<and> n < 8))"
    by (auto simp: bit_eq_iff bit_simps)
  then show ?thesis by (auto simp: bit_clear_def)
qed

lemma set_bit_at_simps [simp]:
  "length (set_bit_at d i) = length d" "i div 8 < length d \<Longrightarrow> bit_clear (set_bit_at d i) j \<longleftrightarrow> bit_clear d j \<and> j \<noteq> i"
proof -
  show "length (set_bit_at d i) = length d" by (simp add: set_bit_at_def)
  assume l: "i div 8 < length d"
  have e: "j div 8 = i div 8 \<Longrightarrow> j mod 8 = i mod 8 \<Longrightarrow> j = i" by (metis div_mult_mod_eq)
  show "bit_clear (set_bit_at d i) j \<longleftrightarrow> bit_clear d j \<and> j \<noteq> i"
    using l e by (cases "j div 8 = i div 8") (auto simp: bit_clear_bit set_bit_at_def bit_simps)
qed

lemma clear_bit_at_simps [simp]:
  "length (clear_bit_at d i) = length d" "i div 8 < length d \<Longrightarrow> bit_clear (clear_bit_at d i) j \<longleftrightarrow> bit_clear d j \<or> j = i"
proof -
  show "length (clear_bit_at d i) = length d" by (simp add: clear_bit_at_def)
  assume l: "i div 8 < length d"
  have e: "j div 8 = i div 8 \<Longrightarrow> j mod 8 = i mod 8 \<Longrightarrow> j = i" by (metis div_mult_mod_eq)
  show "bit_clear (clear_bit_at d i) j \<longleftrightarrow> bit_clear d j \<or> j = i"
    using l e by (cases "j div 8 = i div 8") (auto simp: bit_clear_bit clear_bit_at_def bit_simps)
qed

text \<open>A block is free when its bit is clear; \<open>bmap_ok\<close> says where the bitmap lies and that the blocks of the file system are
  outside the log.\<close>

definition free_block :: "kernel \<Rightarrow> 32 word \<Rightarrow> bool" where
  "free_block s b \<longleftrightarrow> bit_clear (cval s (BBLOCK b s)) (unat (b mod BPB))"

definition bmap_ok :: "kernel \<Rightarrow> bool" where
  "bmap_ok s \<longleftrightarrow> bc_ok {} s \<and> log_ok s \<and> unat (sb_size (fsb s)) \<le> length (disk s) \<and> length (disk s) + 4096 < 2 ^ 32
     \<and> (\<forall>b < sb_size (fsb s). unat (BBLOCK b s) < length (disk s) \<and> unat (BBLOCK b s) \<notin> log_area s
          \<and> (free_block s b \<longrightarrow> unat b \<notin> log_area s \<and> (\<forall>c < sb_size (fsb s). b \<noteq> BBLOCK c s)))"

lemma first_idx_upt:
  "first_idx P [0..<n] = (if \<exists>i < n. P i then Some (LEAST i. i < n \<and> P i) else None)"
proof (cases "\<exists>i < n. P i")
  case False
  then have "first_idx P [0..<n] = None" unfolding first_idx_None by simp
  then show ?thesis unfolding if_not_P[OF False] .
next
  case True
  define l where "l = (LEAST i. i < n \<and> P i)"
  have l: "l < n \<and> P l" unfolding l_def by (rule LeastI_ex[of "\<lambda>i. i < n \<and> P i", OF True])
  have "\<not> P j" if "j < l" for j using not_less_Least[of j "\<lambda>i. i < n \<and> P i"] l that unfolding l_def[symmetric] by simp
  then have "first_idx P [0..<n] = Some l" unfolding first_idx_Some using l by simp
  then show ?thesis unfolding l_def if_P[OF True] .
qed

lemma bmap_ok_read:
  assumes "bmap_ok s" "frame s t" "put_blocks [] s t"
  shows "bmap_ok t" "b < sb_size (fsb s) \<Longrightarrow> free_block t b = free_block s b" "room k t = room k s"
proof -
  note fr = frameD[OF assms(2)]
  have p: "bc_ok {} t" "disk t = disk s" "dirty t = dirty s" using assms(3) by (simp_all add: put_blocks_def)
  have bb: "BBLOCK b t = BBLOCK b s" for b using fr(5) by (simp add: BBLOCK_def)
  have la: "log_area t = log_area s" using fr(2) by (simp add: log_area_def)
  have lo: "log_ok s" using assms(1) by (simp add: bmap_ok_def)
  have lt: "log_ok t" using lo p fr(2) by (simp add: log_ok_def log_geom_def logged_def log_n_def log_area_def)
  have f: "free_block t b = free_block s b" if "b < sb_size (fsb s)" for b
    using put_blocks_view[OF assms(3), of "BBLOCK b s"] assms(1) that by (simp add: free_block_def bb bmap_ok_def)
  then show "b < sb_size (fsb s) \<Longrightarrow> free_block t b = free_block s b" .
  show "bmap_ok t" using assms(1) p lt la bb f fr(5) by (simp add: bmap_ok_def)
  show "room k t = room k s" using fr(2) by (simp add: room_def log_n_def)
qed

lemma bmap_word:
  assumes "unat b mod 4096 = 0" "i < min 4096 (unat (N :: 32 word) - unat b)" "unat N < 2 ^ 32"
  shows "unat (b + of_nat i) = unat b + i" "b + of_nat i < N" "(b + of_nat i) div 4096 = b div 4096"
    "unat ((b + of_nat i) mod 4096) = i"
proof -
  have s: "unat b + i < unat N" using assms(2) by linarith
  then have "unat b + i < 2 ^ 32" using assms(3) by linarith
  moreover have "unat (of_nat i :: 32 word) = i" using assms(2) by (simp add: unat_of_nat)
  ultimately show u: "unat (b + of_nat i) = unat b + i" by (simp add: unat_word_ariths(1))
  then show "b + of_nat i < N" using s by (simp add: word_less_nat_alt)
  obtain q where q: "unat b = 4096 * q" using assms(1) by auto
  have "unat ((b + of_nat i) div 4096) = unat (b div 4096)" "unat ((b + of_nat i) mod 4096) = i"
    using assms(2) by (simp_all add: unat_div unat_mod u q)
  then show "(b + of_nat i) div 4096 = b div 4096" "unat ((b + of_nat i) mod 4096) = i" by (simp_all add: word_unat_eq_iff)
qed

definition taken :: "32 word \<Rightarrow> kernel \<Rightarrow> kernel \<Rightarrow> bool" where
  "taken m s t \<longleftrightarrow> bc_ok {} t \<and> log_ok t \<and> log_area t = log_area s \<and> disk t = disk s \<and> fsb t = fsb s \<and> inodes t = inodes s
     \<and> (\<forall>x. unat x < length (disk s) \<longrightarrow> cval t x =
          (if x = m then replicate BSIZE 0 else if x = BBLOCK m s then set_bit_at (cval s x) (unat (m mod BPB)) else cval s x))"

lemma taken_read:
  assumes "frame s t" "put_blocks [] s t" "taken m t u"
  shows "taken m s u"
proof -
  note fr = frameD[OF assms(1)]
  have "disk t = disk s" using assms(2) by (simp add: put_blocks_def)
  moreover have "log_area t = log_area s" using fr(2) by (simp add: log_area_def)
  moreover have "cval t x = cval s x" if "unat x < length (disk s)" for x by (rule put_blocks_view[OF assms(2) _ that]) simp
  ultimately show ?thesis using assms(3) fr(5,6) by (simp add: taken_def BBLOCK_def)
qed

lemma balloc_found:
  assumes ok: "bmap_ok s" and b: "b < sb_size (fsb s)" "unat b mod 4096 = 0" and r: "room (Suc (Suc k)) s"
    and i: "first_idx (bit_clear (cval s (BBLOCK b s))) [0..<min 4096 (unat (sb_size (fsb s)) - unat b)] = Some i"
  shows "\<exists>t. balloc_from 1 b s = Ok (b + of_nat i) t \<and> taken (b + of_nat i) s t \<and> room k t"
proof -
  let ?N = "sb_size (fsb s)" and ?n = "BBLOCK b s" and ?m = "b + of_nat i"
  have bc: "bc_ok {} s" "log_ok s" and N: "unat ?N \<le> length (disk s)" "unat ?N < 2 ^ 32" using ok by (auto simp: bmap_ok_def)
  have il: "i < min 4096 (unat ?N - unat b)" "bit_clear (cval s ?n) i" using i unfolding first_idx_Some by auto
  note w = bmap_word[OF b(2) il(1) N(2)]
  have nb: "BBLOCK ?m s = ?n" by (simp add: BBLOCK_def w(3))
  have fm: "free_block s ?m" using il(2) by (simp add: free_block_def nb w(4))
  have n: "unat ?n < length (disk s)" "unat ?n \<notin> log_area s" using ok b(1) by (auto simp: bmap_ok_def)
  have m: "unat ?m < length (disk s)" "unat ?m \<notin> log_area s" using ok w(2) fm N(1) unfolding bmap_ok_def by (auto simp: word_less_nat_alt)
  have l: "length (cval s ?n) = 512" by (rule bread_length[OF bc(1) n(1)])
  obtain a u where u: "bread 1 ?n s = Ok a u" "has_block s ?n a u" using read_block[OF bc(1) log_okD(3)[OF bc(2)] n(1)] by blast
  have du: "b_data (bufs u ! a) = cval s ?n" "fsb u = fsb s" using u(2) by (auto simp: has_block_def dest: frameD(5))
  obtain x t where t: "log_write a (upd_buf a (\<lambda>k. k\<lparr>b_data := set_bit_at (cval s ?n) i\<rparr>) u) = Ok () x" "brelse a x = Ok () t"
      "logged_to ?n (set_bit_at (cval s ?n) i) s t"
    using log_block[OF bc r u(2) n, of "set_bit_at (cval s ?n) i"] l by auto
  note td = logged_toD[OF t(3)]
  have "\<exists>z. log_modify ?m (\<lambda>_. replicate 512 0) t = Ok () z \<and> logged_to ?m (replicate 512 0) t z \<and> room k z"
    using log_modify_ok[OF td(5,6) room_after[OF t(3) bc(2) r], of ?m "\<lambda>_. replicate 512 0"] m td(4,7) by simp
  then obtain z where z: "log_modify ?m (\<lambda>_. replicate 512 0) t = Ok () z" "logged_to ?m (replicate 512 0) t z" "room k z" by blast
  note zd = logged_toD[OF z(2)]
  have "bzero 1 ?m t = Ok () z" using z(1) by (simp add: bzero_def log_modify_def)
  then have "balloc_from 1 b s = Ok ?m z"
    using u(1) t(1,2) b(1) i by (simp add: balloc_from.simps[of 1 b s] du has_block_upd[OF u(2), of "\<lambda>d. set_bit_at d i"])
  moreover have "taken ?m s z" using zd td by (simp add: taken_def nb w(4))
  ultimately show ?thesis using z(3) by blast
qed

lemma balloc_from_ok:
  assumes "bmap_ok s" "unat b mod 4096 = 0" "room (Suc (Suc k)) s" "\<forall>c < b. c < sb_size (fsb s) \<longrightarrow> \<not> free_block s c"
  shows "if \<exists>c < sb_size (fsb s). free_block s c
     then \<exists>m t. balloc_from 1 b s = Ok m t \<and> m < sb_size (fsb s) \<and> free_block s m \<and> (\<forall>c < m. \<not> free_block s c) \<and> taken m s t \<and> room k t
     else balloc_from 1 b s = Panic ''balloc: out of blocks''"
  using assms
proof (induction "2 ^ 32 - unat b" arbitrary: b s rule: less_induct)
  case less
  note IH = less(1) and ok = less(2) and b = less(3) and r = less(4) and lo = less(5)
  let ?N = "sb_size (fsb s)" and ?n = "BBLOCK b s"
  show ?case
  proof (cases "b < ?N")
    case False
    then have "\<not> (\<exists>c < ?N. free_block s c)" using lo by (meson not_le order.strict_trans2)
    then show ?thesis using False by (simp add: balloc_from.simps)
  next
    case True
    define L where "L = min 4096 (unat ?N - unat b)"
    have bc: "bc_ok {} s" "log_ok s" and N: "unat ?N < 2 ^ 32" "unat ?N + 4096 < 2 ^ 32" and n: "unat ?n < length (disk s)"
      using ok True by (auto simp: bmap_ok_def)
    have fb: "free_block s (b + of_nat i) \<longleftrightarrow> bit_clear (cval s ?n) i" "b + of_nat i < ?N" "unat (b + of_nat i) = unat b + i" if "i < L" for i
      using bmap_word[OF b that[unfolded L_def] N(1)] by (simp_all add: free_block_def BBLOCK_def)
    have cover: "\<exists>i < L. c = b + of_nat i" if "b \<le> c" "c < ?N" "unat c < unat b + 4096" for c
      using that by (intro exI[of _ "unat c - unat b"]) (auto simp: L_def word_le_nat_alt word_less_nat_alt)
    show ?thesis
    proof (cases "first_idx (bit_clear (cval s ?n)) [0..<L]")
      case (Some i)
      have i: "i < L" "bit_clear (cval s ?n) i" "\<forall>j < i. \<not> bit_clear (cval s ?n) j" using Some unfolding first_idx_Some by auto
      have le: "\<not> free_block s c" if "c < b + of_nat i" for c
      proof (cases "b \<le> c")
        case True
        have "unat c < unat b + i" using that fb(3)[OF i(1)] by (simp add: word_less_nat_alt)
        moreover have "c < ?N" using that fb(2)[OF i(1)] by simp
        ultimately show ?thesis using cover[OF True] i(1,3) fb by (auto simp: L_def)
      next
        case False
        then show ?thesis using lo \<open>b < ?N\<close> by simp
      qed
      have "\<exists>t. balloc_from 1 b s = Ok (b + of_nat i) t \<and> taken (b + of_nat i) s t \<and> room k t"
        by (rule balloc_found[OF ok True b r Some[unfolded L_def]])
      then show ?thesis using le fb(1,2)[OF i(1)] i(2) by auto
    next
      case None
      then have nf: "\<forall>i < L. \<not> bit_clear (cval s ?n) i" unfolding first_idx_None by simp
      obtain a u where u: "bread 1 ?n s = Ok a u" "has_block s ?n a u" using read_block[OF bc(1) log_okD(3)[OF bc(2)] n] by blast
      have du: "b_data (bufs u ! a) = cval s ?n" "fsb u = fsb s" using u(2) by (auto simp: has_block_def dest: frameD(5))
      obtain t where t: "brelse a u = Ok () t" "frame s t" "put_blocks [] s t" using release_block[OF bc(1) u(2)] by blast
      note bt = bmap_ok_read[OF ok t(2,3)] and ft = frameD(5)[OF t(2)]
      have bu: "unat (b + 4096) = unat b + 4096" using True N(2) by (simp add: unat_word_ariths word_less_nat_alt)
      have step: "balloc_from 1 b s = balloc_from 1 (b + 4096) t"
        using u(1) t(1) None True bu by (subst balloc_from.simps) (simp add: du L_def word_le_nat_alt)
      have lt: "\<forall>c < b + 4096. c < sb_size (fsb t) \<longrightarrow> \<not> free_block t c"
      proof (intro allI impI)
        fix c assume c: "c < b + 4096" "c < sb_size (fsb t)"
        then have "\<not> free_block s c"
        proof (cases "b \<le> c")
          case True
          then obtain i where "i < L" "c = b + of_nat i" using cover c bu ft by (auto simp: word_less_nat_alt)
          then show ?thesis using fb(1) nf by simp
        qed (use lo c ft in \<open>simp add: not_le\<close>)
        then show "\<not> free_block t c" using bt(2) c(2) ft by simp
      qed
      have "if \<exists>c < sb_size (fsb t). free_block t c
         then \<exists>m z. balloc_from 1 (b + 4096) t = Ok m z \<and> m < sb_size (fsb t) \<and> free_block t m \<and> (\<forall>c < m. \<not> free_block t c) \<and> taken m t z \<and> room k z
         else balloc_from 1 (b + 4096) t = Panic ''balloc: out of blocks''"
        by (rule IH) (use bt(1,3) b bu r lt N True in \<open>simp_all add: word_less_nat_alt\<close>)
      then show ?thesis unfolding step
        using bt(2) ft taken_read[OF t(2,3)] by (auto split: if_splits)
    qed
  qed
qed

lemma BBLOCK_eq: "BBLOCK b s = BBLOCK c s \<and> unat (b mod BPB) = unat (c mod BPB) \<longleftrightarrow> b = c"
proof
  assume a: "BBLOCK b s = BBLOCK c s \<and> unat (b mod BPB) = unat (c mod BPB)"
  then have "unat (b div 4096) = unat (c div 4096)" by (simp add: BBLOCK_def)
  then have "unat b div 4096 = unat c div 4096" "unat b mod 4096 = unat c mod 4096" using a by (simp_all add: unat_div unat_mod)
  then show "b = c" by (metis div_mult_mod_eq unsigned_word_eqI)
qed simp

lemma bpb_lt: "unat (b mod (4096 :: 32 word)) div 8 < 512"
  by (simp add: unat_mod div_less_iff_less_mult)

lemma taken_bitmap:
  assumes ok: "bmap_ok s" and m: "m < sb_size (fsb s)" "free_block s m" and t: "taken m s t"
  shows "c < sb_size (fsb s) \<Longrightarrow> free_block t c \<longleftrightarrow> free_block s c \<and> c \<noteq> m" "bmap_ok t"
proof -
  have td: "bc_ok {} t" "log_ok t" "log_area t = log_area s" "disk t = disk s" "fsb t = fsb s" using t by (simp_all add: taken_def)
  have bb: "BBLOCK c t = BBLOCK c s" for c by (simp add: BBLOCK_def td(5))
  have o: "unat (BBLOCK c s) < length (disk s)" "m \<noteq> BBLOCK c s" if "c < sb_size (fsb s)" for c using ok m that by (auto simp: bmap_ok_def)
  have l: "length (cval s (BBLOCK m s)) = 512" using bread_length[OF _ o(1)[OF m(1)]] ok by (auto simp: bmap_ok_def)
  have f: "free_block t c \<longleftrightarrow> free_block s c \<and> c \<noteq> m" if c: "c < sb_size (fsb s)" for c
  proof (cases "BBLOCK c s = BBLOCK m s")
    case True
    have "cval t (BBLOCK c s) = set_bit_at (cval s (BBLOCK m s)) (unat (m mod 4096))" using t o[OF c] True by (simp add: taken_def)
    moreover have "unat (c mod 4096) \<noteq> unat (m mod 4096) \<longleftrightarrow> c \<noteq> m" using BBLOCK_eq[of c s m] True by simp
    ultimately show ?thesis using set_bit_at_simps(2)[of "unat (m mod 4096)" "cval s (BBLOCK m s)"] bpb_lt[of m] l
      by (simp add: free_block_def bb True)
  next
    case False
    then show ?thesis using t o[OF c] by (auto simp: taken_def free_block_def bb)
  qed
  then show "c < sb_size (fsb s) \<Longrightarrow> free_block t c \<longleftrightarrow> free_block s c \<and> c \<noteq> m" .
  show "bmap_ok t" using ok td f bb by (simp add: bmap_ok_def)
qed

text \<open>(C13) \<open>balloc\<close> takes the free block with the lowest number, whatever bitmap block its bit is in: it returns that block, zeroed,
  its bit is now set, every other block of the file system keeps its state and its contents, and nothing
  is written to disk before the commit.  It panics exactly when no block is free.\<close>

theorem balloc_lowest:
  assumes "bmap_ok s" "room (Suc (Suc k)) s"
  shows "if \<exists>c < sb_size (fsb s). free_block s c
     then \<exists>m t. balloc 1 s = Ok m t \<and> m < sb_size (fsb s) \<and> free_block s m \<and> (\<forall>c < m. \<not> free_block s c)
       \<and> cval t m = replicate BSIZE 0 \<and> (\<forall>c < sb_size (fsb s). free_block t c \<longleftrightarrow> free_block s c \<and> c \<noteq> m)
       \<and> (\<forall>x. unat x < length (disk s) \<and> x \<noteq> m \<and> x \<noteq> BBLOCK m s \<longrightarrow> cval t x = cval s x)
       \<and> disk t = disk s \<and> bmap_ok t \<and> room k t
     else balloc 1 s = Panic ''balloc: out of blocks''"
proof (cases "\<exists>c < sb_size (fsb s). free_block s c")
  case True
  have "\<exists>m t. balloc_from 1 0 s = Ok m t \<and> m < sb_size (fsb s) \<and> free_block s m \<and> (\<forall>c < m. \<not> free_block s c) \<and> taken m s t \<and> room k t"
    using balloc_from_ok[OF assms(1) _ assms(2), of 0] True by simp
  then obtain m t where t: "balloc 1 s = Ok m t" "m < sb_size (fsb s)" "free_block s m" "\<forall>c < m. \<not> free_block s c" "taken m s t" "room k t"
    by (auto simp: balloc_def)
  have "unat m < length (disk s)" using t(2) assms(1) by (auto simp: bmap_ok_def word_less_nat_alt)
  then have "cval t m = replicate 512 0" "disk t = disk s"
      "\<forall>x. unat x < length (disk s) \<and> x \<noteq> m \<and> x \<noteq> BBLOCK m s \<longrightarrow> cval t x = cval s x" using t(5) by (simp_all add: taken_def)
  then show ?thesis using True t(1-4,6) taken_bitmap[OF assms(1) t(2,3,5)] by auto
next
  case False
  have "balloc 1 s = Panic ''balloc: out of blocks''" using balloc_from_ok[OF assms(1) _ assms(2), of 0] unfolding balloc_def if_not_P[OF False] by simp
  then show ?thesis unfolding if_not_P[OF False] .
qed

definition sb_of :: "block \<Rightarrow> superblock" where
  "sb_of d = \<lparr>sb_size = get32 d 0, sb_nblocks = get32 d 4, sb_ninodes = get32 d 8, sb_nlog = get32 d 12, sb_logstart = get32 d 16,
     sb_inodestart = get32 d 20, sb_bmapstart = get32 d 24\<rparr>"

lemma readsb_current:
  assumes "bc_ok {} s" "card (dirty s) < 30" "1 < length (disk s)"
  shows "\<exists>t. readsb 1 s = Ok (sb_of (cval s 1)) t \<and> frame s t \<and> put_blocks [] s t"
proof -
  obtain a u where u: "bread 1 1 s = Ok a u" "has_block s 1 a u" using read_block[OF assms(1,2), of 1] assms(3) by auto
  moreover have "b_data (bufs u ! a) = cval s 1" using u(2) by (simp add: has_block_def)
  ultimately show ?thesis using release_block[OF assms(1) u(2)] by (auto simp: readsb_def Let_def sb_of_def)
qed

text \<open>\<open>bfree\<close> makes exactly the given block free: its bit is cleared and no other bit, no other block of the disk image
  changes.  Freeing a block that is free already is caught: it panics.\<close>

theorem bfree_exact:
  assumes "bmap_ok s" "room (Suc k) s" "b < sb_size (fsb s)" "1 < length (disk s)" "sb_of (cval s 1) = fsb s"
  shows "if free_block s b then bfree 1 b s = Panic ''freeing free block''
     else \<exists>t. bfree 1 b s = Ok () t \<and> (\<forall>c < sb_size (fsb s). free_block t c \<longleftrightarrow> free_block s c \<or> c = b)
       \<and> (\<forall>x. unat x < length (disk s) \<and> x \<noteq> BBLOCK b s \<longrightarrow> cval t x = cval s x) \<and> disk t = disk s \<and> room k t"
proof -
  let ?n = "BBLOCK b s" and ?i = "unat (b mod 4096)"
  have bc: "bc_ok {} s" "log_ok s" using assms(1) by (auto simp: bmap_ok_def)
  obtain v where v: "readsb 1 s = Ok (fsb s) v" "frame s v" "put_blocks [] s v" using readsb_current[OF bc(1) log_okD(3)[OF bc(2)] assms(4)] assms(5) by auto
  note bv = bmap_ok_read[OF assms(1) v(2,3)] and fv = frameD(5)[OF v(2)]
  have dv: "disk v = disk s" "v\<lparr>fsb := fsb s\<rparr> = v" using v(3) fv by (simp_all add: put_blocks_def)
  have cv: "cval v x = cval s x" if "unat x < length (disk s)" for x by (rule put_blocks_view[OF v(3) _ that]) simp
  have vc: "bc_ok {} v" "log_ok v" "unat ?n < length (disk v)" "unat ?n \<notin> log_area v" "room (Suc k) v" and bb: "\<And>c. BBLOCK c v = BBLOCK c s"
    using bv assms(2,3) fv by (auto simp: bmap_ok_def BBLOCK_def)
  have l: "length (cval v ?n) = 512" by (rule bread_length[OF vc(1,3)])
  obtain a u where u: "bread 1 ?n v = Ok a u" "has_block v ?n a u" using read_block[OF vc(1) log_okD(3)[OF vc(2)] vc(3)] by blast
  have du: "b_data (bufs u ! a) = cval v ?n" using u(2) by (simp add: has_block_def)
  have cl: "bit_clear (cval v ?n) ?i \<longleftrightarrow> free_block s b" using bv(2)[OF assms(3)] by (simp add: free_block_def bb)
  show ?thesis
  proof (cases "free_block s b")
    case True
    then show ?thesis using v(1) u(1) cl by (simp add: bfree_def dv bb du)
  next
    case False
    obtain w t where t: "log_write a (upd_buf a (\<lambda>k. k\<lparr>b_data := clear_bit_at (cval v ?n) ?i\<rparr>) u) = Ok () w" "brelse a w = Ok () t"
        "logged_to ?n (clear_bit_at (cval v ?n) ?i) v t"
      using log_block[OF vc(1,2,5) u(2) vc(3,4), of "clear_bit_at (cval v ?n) ?i"] l by auto
    note td = logged_toD[OF t(3)]
    have "bfree 1 b s = Ok () t"
      using v(1) u(1) cl False t(1,2) by (simp add: bfree_def dv bb du has_block_upd[OF u(2), of "\<lambda>d. clear_bit_at d ?i"])
    moreover have "free_block t c \<longleftrightarrow> free_block s c \<or> c = b" if c: "c < sb_size (fsb s)" for c
    proof -
      have fc: "free_block t c = bit_clear (cval t (BBLOCK c s)) (unat (c mod 4096))" by (simp add: free_block_def BBLOCK_def td(2) fv)
      show ?thesis
      proof (cases "BBLOCK c s = ?n")
        case True
        have "unat (c mod 4096) = ?i \<longleftrightarrow> c = b" using BBLOCK_eq[of c s b] True by simp
        moreover have "bit_clear (cval v ?n) (unat (c mod 4096)) \<longleftrightarrow> free_block s c" using bv(2)[OF c] by (simp add: free_block_def bb True)
        ultimately show ?thesis using clear_bit_at_simps(2)[of ?i "cval v ?n"] bpb_lt[of b] l by (simp add: fc td(9) True)
      next
        case False
        have "bit_clear (cval v (BBLOCK c s)) (unat (c mod 4096)) \<longleftrightarrow> free_block s c" using bv(2)[OF c] by (simp add: free_block_def bb)
        then show ?thesis using False by (auto simp: fc td(9))
      qed
    qed
    moreover have "cval t x = cval s x" if "unat x < length (disk s)" "x \<noteq> ?n" for x using that cv td(9) by simp
    ultimately show ?thesis using False td(7) dv(1) room_after[OF t(3) vc(2,5)] by auto
  qed
qed

text \<open>A disk of 100 blocks with a log of 30, the bitmap in block 40 and the blocks below 60 in use.\<close>

definition map_demo :: block where
  "map_demo = replicate 7 255 @ [15] @ replicate 504 0"

definition img_demo :: "block list" where
  "img_demo = fs_demo[1 := put32 (put32 (fs_demo ! 1) 0 100) 24 40, 40 := map_demo]"

lemma map_demo_bits: "i < 100 \<Longrightarrow> bit_clear map_demo i \<longleftrightarrow> 60 \<le> i"
proof -
  have "\<forall>i \<in> set [0..<100]. bit_clear map_demo i \<longleftrightarrow> 60 \<le> i" unfolding bit_clear_def map_demo_def by code_simp
  then show "i < 100 \<Longrightarrow> bit_clear map_demo i \<longleftrightarrow> 60 \<le> i" by simp
qed

lemma img_demo_ok: "x \<in> set img_demo \<Longrightarrow> length x = 512" "sb_log img_demo = (2, 30)" "image_ok 2 30 img_demo" "length img_demo = 100"
  "replay 2 img_demo = []" "sb_size (sb_of (img_demo ! 1)) = 100" "sb_bmapstart (sb_of (img_demo ! 1)) = 40" "img_demo ! 40 = map_demo"
proof -
  note f = fs_demo_ok
  have f1: "length (fs_demo ! 1) = 512" using f(1)[of "fs_demo ! 1"] f(5) by simp
  have "set img_demo \<subseteq> {put32 (put32 (fs_demo ! 1) 0 100) 24 40, map_demo} \<union> set fs_demo" unfolding img_demo_def
    using set_update_subset_insert[of "fs_demo[1 := put32 (put32 (fs_demo ! 1) 0 100) 24 40]" 40 map_demo]
      set_update_subset_insert[of fs_demo 1 "put32 (put32 (fs_demo ! 1) 0 100) 24 40"] by blast
  then show l: "length x = 512" if "x \<in> set img_demo" for x using that f(1) f1 by (auto simp: map_demo_def)
  show n: "length img_demo = 100" by (simp add: img_demo_def f(5))
  have i1: "img_demo ! 1 = put32 (put32 (fs_demo ! 1) 0 100) 24 40" by (simp add: img_demo_def f(5))
  then show "sb_log img_demo = (2, 30)" using f(2) by (simp add: sb_log_def get32_put32_other)
  show "sb_size (sb_of (img_demo ! 1)) = 100" "sb_bmapstart (sb_of (img_demo ! 1)) = 40"
    unfolding i1 sb_of_def using f1 by (simp_all add: get32_put32_other)
  show "img_demo ! 40 = map_demo" by (simp add: img_demo_def f(5))
  have z: "get32 (img_demo ! 2) 0 = 0" by (simp add: img_demo_def f(5)) (simp add: fs_demo_def get32_def load32_def)
  show "image_ok 2 30 img_demo" "replay 2 img_demo = []" using image_empty[of img_demo 2 30] z l n by simp_all
qed

lemma bmap_demo: "\<exists>s. bmap_ok s \<and> room 2 s \<and> sb_of (cval s 1) = fsb s \<and> sb_size (fsb s) = 100 \<and> length (disk s) = 100
   \<and> (\<forall>c < 100. free_block s c \<longleftrightarrow> 60 \<le> c)"
proof -
  note b = boot_on_booted[of img_demo, OF img_demo_ok(1)]
  obtain t where t: "idle t" "home_eq 2 30 (disk t) img_demo" "unat (l_start (logs t)) = 2" "unat (l_size (logs t)) = 30"
    using initlog_idle[OF b(1), of 2 30] b(2-4) img_demo_ok by auto
  define s where "s = (upd_log (\<lambda>l. l\<lparr>l_outstanding := 1\<rparr>) t)\<lparr>fsb := sb_of (img_demo ! 1)\<rparr>"
  have l: "logs s = (logs t)\<lparr>l_outstanding := 1\<rparr>" "disk s = disk t" "fsb s = sb_of (img_demo ! 1)" by (simp_all add: s_def)
  have sc: "bc_ok {} s = bc_ok {} t" "cval s = cval t" "dirty s = dirty t" using same_cache[of s t] by (simp_all add: s_def upd_log_def)
  have ids: "bc_ok {} t" "log_ok t" "lh_n (logs t) = 0" using t(1) by (simp_all add: idle_def)
  have dt: "dirty t = {}" using ids(2,3) by (simp add: log_ok_def logged_def log_n_def)
  have lo: "log_ok s" using ids(2) sc(3) by (simp add: log_ok_def log_geom_def logged_def log_n_def log_area_def l)
  have ar: "log_area s = {2..<32}" using t(3,4) by (simp add: log_area_def l)
  have n: "length (disk s) = 100" using t(2) img_demo_ok(4) by (simp add: home_eq_def l)
  have cv: "cval s x = img_demo ! unat x" if "unat x < 100" "unat x \<notin> {2..<32}" for x
    using cval_clean[OF ids(1), of x] that t(2) img_demo_ok(4) by (simp add: sc dt home_eq_def)
  have bb: "BBLOCK c s = 40" "unat (c mod 4096) = unat c" if "c < 100" for c
  proof -
    have c: "unat c < 100" using that by (simp add: word_less_nat_alt)
    then show "unat (c mod 4096) = unat c" by (simp add: unat_mod)
    have "unat (c div 4096) = 0" using c by (simp add: unat_div)
    then show "BBLOCK c s = 40" using img_demo_ok(7) by (simp add: BBLOCK_def l unat_eq_0)
  qed
  have f: "free_block s c \<longleftrightarrow> 60 \<le> c" if "c < 100" for c
    using map_demo_bits[of "unat c"] that cv[of 40] img_demo_ok(8)
    by (simp add: free_block_def bb[OF that] word_less_nat_alt word_le_nat_alt)
  have "bmap_ok s" using ids(1) sc(1) lo n img_demo_ok(6) f bb by (auto simp: bmap_ok_def l(3) ar word_le_nat_alt)
  moreover have "room 2 s" using t(4) ids(3) by (simp add: room_def l log_n_def s_lt_def)
  ultimately show ?thesis using n f img_demo_ok(6) cv[of 1] by (intro exI[of _ s]) (simp add: l(3))
qed

theorem balloc_lowest_witness:
  "\<exists>s t. bmap_ok s \<and> room 2 s \<and> balloc 1 s = Ok 60 t \<and> cval t 60 = replicate BSIZE 0 \<and> (\<forall>c < 100. free_block t c \<longleftrightarrow> 60 < c)"
proof -
  obtain s where s: "bmap_ok s" "room 2 s" "sb_size (fsb s) = 100" "\<forall>c < 100. free_block s c \<longleftrightarrow> 60 \<le> c" using bmap_demo by blast
  have "\<exists>c < sb_size (fsb s). free_block s c" using s(3,4) by (intro exI[of _ 60]) simp
  then obtain m t where t: "balloc 1 s = Ok m t" "m < 100" "free_block s m" "\<forall>c < m. \<not> free_block s c" "cval t m = replicate BSIZE 0"
      "\<forall>c < 100. free_block t c \<longleftrightarrow> free_block s c \<and> c \<noteq> m"
    using balloc_lowest[of s 0] s(1-3) by (auto simp: numeral_2_eq_2)
  have "free_block s 60" using s(4) by simp
  then have "\<not> 60 < m" using t(4) by blast
  then have "m = 60" using t(2,3) s(4) by simp
  then show ?thesis using s t by (intro exI[of _ s] exI[of _ t]) auto
qed

theorem bfree_exact_witness:
  "\<exists>s t. bmap_ok s \<and> room 2 s \<and> bfree 1 59 s = Ok () t \<and> free_block t 59 \<and> \<not> free_block t 58 \<and> bfree 1 60 s = Panic ''freeing free block''"
proof -
  obtain s where s: "bmap_ok s" "room 2 s" "sb_of (cval s 1) = fsb s" "sb_size (fsb s) = 100" "length (disk s) = 100" "\<forall>c < 100. free_block s c \<longleftrightarrow> 60 \<le> c"
    using bmap_demo by blast
  then have f: "\<not> free_block s 59" "\<not> free_block s 58" "free_block s 60" by simp_all
  have r: "room (Suc (Suc 0)) s" using s(2) by (simp add: numeral_2_eq_2)
  have "bfree 1 60 s = Panic ''freeing free block''" using bfree_exact[OF s(1) r, of 60] s(3-5) f by simp
  moreover obtain t where "bfree 1 59 s = Ok () t" "\<forall>c < 100. free_block t c \<longleftrightarrow> free_block s c \<or> c = 59"
    using bfree_exact[OF s(1) r, of 59] s(3-5) f by auto
  ultimately show ?thesis using s(1,2) f by (intro exI[of _ s] exI[of _ t]) simp
qed

end
