(* ===== verification/Grep.thy ===== *)
theory Grep imports Prelude
begin

text \<open>
  The user program \<open>grep.c\<close>.  A \<open>char*\<close> that points into a NUL-terminated string is the list of
  the bytes before the NUL, so \<open>*text == 0\<close> is the empty list.  The reads of a file are
  the list of the byte strings that the successive calls of \<open>read\<close> return; the loop of
  \<open>grep\<close> ends at the first empty one.  The matcher is shown to decide the language of the
  pattern, and the buffer loop to print the matching lines.
\<close>

section \<open>The matcher\<close>

abbreviation (input) STAR :: byte where "STAR \<equiv> 42"
abbreviation (input) DOLLAR :: byte where "DOLLAR \<equiv> 36"
abbreviation (input) DOT :: byte where "DOT \<equiv> 46"
abbreviation (input) CARET :: byte where "CARET \<equiv> 94"
abbreviation (input) NL :: byte where "NL \<equiv> 10"

function matchhere :: "byte list \<Rightarrow> byte list \<Rightarrow> bool"
  and matchstar :: "byte \<Rightarrow> byte list \<Rightarrow> byte list \<Rightarrow> bool" where
  "matchhere re tx =
     (if re = [] then True
      else if tl re \<noteq> [] \<and> hd (tl re) = STAR then matchstar (hd re) (tl (tl re)) tx
      else if hd re = DOLLAR \<and> tl re = [] then tx = []
      else if tx \<noteq> [] \<and> (hd re = DOT \<or> hd re = hd tx) then matchhere (tl re) (tl tx)
      else False)"
| "matchstar c re tx =
     (if matchhere re tx then True
      else if tx \<noteq> [] \<and> (hd tx = c \<or> c = DOT) then matchstar c re (tl tx)
      else False)"
  by pat_completeness auto
termination
  by (relation "measure (case_sum (\<lambda>(re, tx). 2 * (length re + length tx)) (\<lambda>(c, re, tx). 2 * (length re + length tx) + 1))")
     (auto simp: neq_Nil_conv)

declare matchhere.simps [simp del] matchstar.simps [simp del]

text \<open>The \<open>do\<close> loop of \<open>match\<close> tries every suffix, the empty one included.\<close>

primrec match_from :: "byte list \<Rightarrow> byte list \<Rightarrow> bool" where
  "match_from re [] = matchhere re []"
| "match_from re (t # ts) = (if matchhere re (t # ts) then True else match_from re ts)"

definition match :: "byte list \<Rightarrow> byte list \<Rightarrow> bool" where
  "match re tx = (if re \<noteq> [] \<and> hd re = CARET then matchhere (tl re) tx else match_from re tx)"

section \<open>The buffer loop\<close>

text \<open>The inner loop on the bytes \<open>p\<close> up to the end of the buffer: \<open>strchr\<close> stops at the first NUL.
  The result is what is written and the \<open>p\<close> that is left.\<close>

function grep_scan :: "byte list \<Rightarrow> byte list \<Rightarrow> byte list \<times> byte list" where
  "grep_scan pat p =
     (case first_idx (\<lambda>b. b = NL) (takeWhile (\<lambda>b. b \<noteq> 0) p) of
        None \<Rightarrow> ([], p)
      | Some q \<Rightarrow>
          let out = (if match pat (take q p) then take (q + 1) p else []);
              (more, r) = grep_scan pat (drop (q + 1) p)
          in (out @ more, r))"
  by pat_completeness auto
termination
  by (relation "measure (length \<circ> snd)") (auto simp: first_idx_Some dest: order.strict_trans2[OF _ length_takeWhile_le])

declare grep_scan.simps [simp del]

text \<open>\<open>m\<close> bytes are left in the buffer from the reads before; a buffer without a complete line is
  dropped.\<close>

primrec grep_loop :: "byte list \<Rightarrow> byte list \<Rightarrow> byte list list \<Rightarrow> byte list" where
  "grep_loop pat left [] = []"
| "grep_loop pat left (r # rs) =
     (if r = [] then []
      else let buf = left @ r; (out, p) = grep_scan pat buf
           in out @ grep_loop pat (if length p = length buf then [] else p) rs)"

definition grep :: "byte list \<Rightarrow> byte list list \<Rightarrow> byte list" where
  "grep pat reads = grep_loop pat [] reads"

text \<open>\<open>main\<close>: what is written to descriptors 1 and 2, given what \<open>open\<close> finds under each name (the
  reads of the file, or nothing) and the reads of the standard input.\<close>

primrec grep_files :: "(byte list \<Rightarrow> byte list list option) \<Rightarrow> byte list \<Rightarrow> byte list list \<Rightarrow> byte list" where
  "grep_files fs pat [] = []"
| "grep_files fs pat (f # args) =
     (case fs f of
        None \<Rightarrow> bytes_of ''grep: cannot open '' @ f @ [NL]
      | Some reads \<Rightarrow> grep pat reads @ grep_files fs pat args)"

definition grep_main :: "(byte list \<Rightarrow> byte list list option) \<Rightarrow> byte list list \<Rightarrow> byte list list \<Rightarrow> byte list \<times> byte list" where
  "grep_main fs stdin argv =
     (if length argv \<le> 1 then ([], bytes_of ''usage: grep pattern [file ...]'' @ [NL])
      else if length argv \<le> 2 then (grep (argv ! 1) stdin, [])
      else (grep_files fs (argv ! 1) (drop 2 argv), []))"

section \<open>What the matcher decides\<close>

datatype item = One byte | Many byte

text \<open>The pattern as a list of items and whether it ends in the anchor \<open>$\<close>.\<close>

function items :: "byte list \<Rightarrow> item list \<times> bool" where
  "items re =
     (if re = [] then ([], False)
      else if tl re \<noteq> [] \<and> hd (tl re) = STAR then apfst (Cons (Many (hd re))) (items (tl (tl re)))
      else if re = [DOLLAR] then ([], True)
      else apfst (Cons (One (hd re))) (items (tl re)))"
  by pat_completeness auto
termination
  by (relation "measure length") (auto simp: neq_Nil_conv)

declare items.simps [simp del]

definition fits :: "byte \<Rightarrow> byte \<Rightarrow> bool" where
  "fits c t \<longleftrightarrow> c = DOT \<or> t = c"

primrec lang :: "item list \<Rightarrow> byte list set" where
  "lang [] = {[]}"
| "lang (i # is) = {u @ v |u v. v \<in> lang is \<and> (case i of One c \<Rightarrow> \<exists>t. u = [t] \<and> fits c t | Many c \<Rightarrow> \<forall>t \<in> set u. fits c t)}"

definition here :: "byte list \<Rightarrow> byte list \<Rightarrow> bool" where
  "here re tx \<longleftrightarrow> (\<exists>w post. tx = w @ post \<and> w \<in> lang (fst (items re)) \<and> (snd (items re) \<longrightarrow> post = []))"

lemma here_simps:
  "here [] tx"
  "here [DOLLAR] tx \<longleftrightarrow> tx = []"
  "c \<noteq> DOLLAR \<or> re \<noteq> [] \<Longrightarrow> re = [] \<or> hd re \<noteq> STAR \<Longrightarrow> here (c # re) tx \<longleftrightarrow> tx \<noteq> [] \<and> fits c (hd tx) \<and> here re (tl tx)"
proof -
  show "here [] tx" by (simp add: here_def items.simps)
  show "here [DOLLAR] tx \<longleftrightarrow> tx = []" by (auto simp: here_def items.simps)
  assume a: "c \<noteq> DOLLAR \<or> re \<noteq> []" "re = [] \<or> hd re \<noteq> STAR"
  have i: "items (c # re) = apfst (Cons (One c)) (items re)" using a by (subst items.simps) auto
  show "here (c # re) tx \<longleftrightarrow> tx \<noteq> [] \<and> fits c (hd tx) \<and> here re (tl tx)"
  proof (cases tx)
    case (Cons t ts)
    have "(\<exists>w post. t # ts = w @ post \<and> w \<in> lang (One c # fst (items re)) \<and> Q post) \<longleftrightarrow> fits c t \<and> (\<exists>w post. ts = w @ post \<and> w \<in> lang (fst (items re)) \<and> Q post)" for Q
      by auto (metis append_Cons append_Nil)+
    then show ?thesis by (simp add: here_def i Cons)
  qed (auto simp: here_def i)
qed

lemma here_star: "here (c # STAR # re) tx \<longleftrightarrow> here re tx \<or> tx \<noteq> [] \<and> fits c (hd tx) \<and> here (c # STAR # re) (tl tx)"
proof -
  have i: "items (c # STAR # re) = apfst (Cons (Many c)) (items re)" by (subst items.simps) simp
  have s: "(\<exists>w post. tx = w @ post \<and> w \<in> lang (Many c # is) \<and> Q post)
      \<longleftrightarrow> (\<exists>u t. tx = u @ t \<and> (\<forall>x \<in> set u. fits c x) \<and> (\<exists>w post. t = w @ post \<and> w \<in> lang is \<and> Q post))" (is "?A \<longleftrightarrow> ?B") for tx "is" Q
  proof
    assume ?A
    then obtain u v post where u: "tx = (u @ v) @ post" "\<forall>x \<in> set u. fits c x" "v \<in> lang is" "Q post" by auto
    then have "tx = u @ (v @ post)" by simp
    then show ?B using u(2-4) by blast
  next
    assume ?B
    then obtain u v post where u: "tx = u @ v @ post" "\<forall>x \<in> set u. fits c x" "v \<in> lang is" "Q post" by blast
    then have "u @ v \<in> lang (Many c # is)" "tx = (u @ v) @ post" by auto
    then show ?A using u(4) by blast
  qed
  have e: "here (c # STAR # re) tx \<longleftrightarrow> (\<exists>u t. tx = u @ t \<and> (\<forall>x \<in> set u. fits c x) \<and> here re t)" for tx
    using s[of tx "fst (items re)" "\<lambda>post. snd (items re) \<longrightarrow> post = []"] by (simp only: here_def i fst_apfst snd_apfst)
  show ?thesis
  proof
    assume "here (c # STAR # re) tx"
    then obtain u t where u: "tx = u @ t" "\<forall>x \<in> set u. fits c x" "here re t" unfolding e by blast
    show "here re tx \<or> tx \<noteq> [] \<and> fits c (hd tx) \<and> here (c # STAR # re) (tl tx)"
      using u unfolding e by (cases u) auto
  next
    assume "here re tx \<or> tx \<noteq> [] \<and> fits c (hd tx) \<and> here (c # STAR # re) (tl tx)"
    then show "here (c # STAR # re) tx"
    proof
      assume "here re tx"
      then show ?thesis unfolding e by (intro exI[of _ "[]"] exI[of _ tx]) simp
    next
      assume a: "tx \<noteq> [] \<and> fits c (hd tx) \<and> here (c # STAR # re) (tl tx)"
      then obtain u t where "tl tx = u @ t" "\<forall>x \<in> set u. fits c x" "here re t" unfolding e by blast
      then show ?thesis unfolding e using a by (intro exI[of _ "hd tx # u"] exI[of _ t]) (auto simp: neq_Nil_conv)
    qed
  qed
qed

lemma matchhere_here: "matchhere re tx \<longleftrightarrow> here re tx" "matchstar c re tx \<longleftrightarrow> here (c # STAR # re) tx"
proof (induction re tx and c re tx rule: matchhere_matchstar.induct)
  case (1 re tx)
  show ?case
  proof (cases re)
    case Nil
    then show ?thesis by (simp add: matchhere.simps here_simps)
  next
    case (Cons c r)
    show ?thesis
    proof (cases "r \<noteq> [] \<and> hd r = STAR")
      case True
      then obtain r' where "r = STAR # r'" by (cases r) auto
      then show ?thesis using 1(1) Cons by (simp add: matchhere.simps[of "c # 42 # r'" tx])
    next
      case False
      then show ?thesis using 1(2) Cons
        by (cases "c = DOLLAR \<and> r = []") (auto simp: matchhere.simps[of "c # r" tx] matchhere.simps[of "[36]"] here_simps fits_def)
    qed
  qed
next
  case (2 c re tx)
  then show ?case by (subst matchstar.simps, subst here_star) (auto simp: fits_def)
qed

lemma match_from_here: "match_from re tx \<longleftrightarrow> (\<exists>pre t. tx = pre @ t \<and> here re t)"
proof (induction tx)
  case (Cons a ts)
  have "(\<exists>pre t. a # ts = pre @ t \<and> here re t) \<longleftrightarrow> here re (a # ts) \<or> (\<exists>pre t. ts = pre @ t \<and> here re t)"
    by (metis append_Cons append_Nil Cons_eq_append_conv)
  then show ?case using Cons by (simp add: matchhere_here)
qed (simp add: matchhere_here)

text \<open>(C33) The matcher is total and decides the language of the pattern: \<open>match re tx\<close> holds exactly when some substring of
  the text is in the language of the items of \<open>re\<close>, at the beginning of the text when \<open>re\<close> starts with \<open>^\<close>
  and at its end when \<open>re\<close> ends in \<open>$\<close>.\<close>

theorem match_lang:
  "match re tx \<longleftrightarrow>
     (let bol = (re \<noteq> [] \<and> hd re = CARET); (is, eol) = items (if bol then tl re else re)
      in \<exists>pre w post. tx = pre @ w @ post \<and> w \<in> lang is \<and> (pre = [] \<or> \<not> bol) \<and> (post = [] \<or> \<not> eol))"
proof -
  have "match re tx \<longleftrightarrow> (let bol = (re \<noteq> [] \<and> hd re = CARET); re' = (if bol then tl re else re)
      in \<exists>pre t. tx = pre @ t \<and> here re' t \<and> (pre = [] \<or> \<not> bol))"
    by (auto simp: match_def matchhere_here match_from_here Let_def)
  then show ?thesis by (auto simp: here_def Let_def case_prod_beta)
qed

text \<open>The pattern \<open>a*b$\<close> in the text \<open>cab\<close>.\<close>

theorem match_lang_witness:
  "\<exists>pre w. [99, 97, 98] = pre @ w \<and> w \<in> lang [Many 97, One 98]"
proof -
  have m: "match [97, 42, 98, 36] [99, 97, 98]" by code_simp
  have i: "items [97, 42, 98, 36] = ([Many 97, One 98], True)" by code_simp
  show ?thesis using match_lang[of "[97, 42, 98, 36]" "[99, 97, 98]"] m by (simp add: i)
qed

section \<open>What is printed\<close>

text \<open>The complete lines of a text, each with its newline, and what follows the last of them.\<close>

function lines :: "byte list \<Rightarrow> byte list list \<times> byte list" where
  "lines p = (if NL \<in> set p
     then let n = length (takeWhile (\<lambda>b. b \<noteq> NL) p) in apfst (Cons (take (n + 1) p)) (lines (drop (n + 1) p))
     else ([], p))"
  by pat_completeness auto
termination
  by (relation "measure length") (auto intro!: diff_less dest: length_pos_if_in_set)

declare lines.simps [simp del]

definition matching :: "byte list \<Rightarrow> byte list list \<Rightarrow> byte list" where
  "matching pat ls = concat (filter (\<lambda>l. match pat (butlast l)) ls)"

lemma first_idx_takeWhile: "first_idx (\<lambda>b. b = x) p = (if x \<in> set p then Some (length (takeWhile (\<lambda>b. b \<noteq> x) p)) else None)"
  by (induction p) auto

lemma takeWhile_in: "x \<in> set p \<Longrightarrow> length (takeWhile (\<lambda>b. b \<noteq> x) p) < length p"
  by (induction p) auto

lemma grep_scan_lines:
  assumes "0 \<notin> set p"
  shows "grep_scan pat p = (matching pat (fst (lines p)), snd (lines p))"
  using assms
proof (induction p rule: lines.induct)
  case (1 p)
  let ?n = "length (takeWhile (\<lambda>b. b \<noteq> NL) p)"
  have t: "takeWhile (\<lambda>b. b \<noteq> 0) p = p" using 1(2) unfolding takeWhile_eq_all_conv by blast
  show ?case
  proof (cases "NL \<in> set p")
    case True
    have n: "?n < length p" by (rule takeWhile_in[OF True])
    have "0 \<notin> set (drop (?n + 1) p)" using 1(2) by (blast dest: in_set_dropD)
    then have g: "grep_scan pat (drop (?n + 1) p) = (matching pat (fst (lines (drop (?n + 1) p))), snd (lines (drop (?n + 1) p)))"
      using 1(1)[OF True refl] by blast
    have bl: "butlast (take (?n + 1) p) = take ?n p" using n by (simp add: butlast_take)
    have l: "lines p = (take (?n + 1) p # fst (lines (drop (?n + 1) p)), snd (lines (drop (?n + 1) p)))"
      using True by (subst lines.simps) (simp add: Let_def apfst_def map_prod_def split: prod.split)
    have "grep_scan pat p = ((if match pat (take ?n p) then take (?n + 1) p else []) @ matching pat (fst (lines (drop (?n + 1) p))), snd (lines (drop (?n + 1) p)))"
      by (subst grep_scan.simps) (simp only: t first_idx_takeWhile True if_True option.case Let_def g prod.case)
    then show ?thesis unfolding l by (simp add: matching_def bl[unfolded Suc_eq_plus1[symmetric]])
  next
    case False
    then show ?thesis by (subst grep_scan.simps) (simp add: t first_idx_takeWhile lines.simps matching_def)
  qed
qed

lemma lines_append:
  "lines (p @ r) = (fst (lines p) @ fst (lines (snd (lines p) @ r)), snd (lines (snd (lines p) @ r)))"
proof (induction p rule: lines.induct)
  case (1 p)
  let ?n = "length (takeWhile (\<lambda>b. b \<noteq> NL) p)"
  show ?case
  proof (cases "NL \<in> set p")
    case True
    have n: "?n < length p" by (rule takeWhile_in[OF True])
    have tw: "takeWhile (\<lambda>b. b \<noteq> NL) (p @ r) = takeWhile (\<lambda>b. b \<noteq> NL) p" using True by (auto simp: takeWhile_append1)
    have l: "lines p = (take (?n + 1) p # fst (lines (drop (?n + 1) p)), snd (lines (drop (?n + 1) p)))"
      using True by (subst lines.simps) (simp add: Let_def apfst_def map_prod_def split: prod.split)
    have "lines (p @ r) = apfst (Cons (take (?n + 1) p)) (lines (drop (?n + 1) p @ r))"
      using True n by (subst lines.simps) (simp add: tw Let_def)
    then show ?thesis using 1[OF True refl] unfolding l by (simp add: apfst_def map_prod_def split: prod.split)
  next
    case False
    then show ?thesis by (simp add: lines.simps[of p])
  qed
qed

lemma lines_rest: "NL \<in> set p \<Longrightarrow> length (snd (lines p)) < length p" "length (snd (lines p)) \<le> length p" "NL \<notin> set (snd (lines p))" "set (snd (lines p)) \<subseteq> set p"
proof -
  have "length (snd (lines p)) \<le> length p \<and> (NL \<in> set p \<longrightarrow> length (snd (lines p)) < length p) \<and> NL \<notin> set (snd (lines p)) \<and> set (snd (lines p)) \<subseteq> set p"
  proof (induction p rule: lines.induct)
    case (1 p)
    let ?n = "length (takeWhile (\<lambda>b. b \<noteq> NL) p)"
    show ?case
    proof (cases "NL \<in> set p")
      case True
      have l: "snd (lines p) = snd (lines (drop (?n + 1) p))" using True by (subst lines.simps) (simp add: Let_def)
      have "p \<noteq> []" using True by auto
      then have "length (drop (?n + 1) p) < length p" by simp
      then show ?thesis using 1[OF True refl] unfolding l by (meson order.strict_trans1 order.strict_implies_order subset_trans set_drop_subset)
    qed (simp add: lines.simps)
  qed
  then show "NL \<in> set p \<Longrightarrow> length (snd (lines p)) < length p" "length (snd (lines p)) \<le> length p" "NL \<notin> set (snd (lines p))" "set (snd (lines p)) \<subseteq> set p"
    by simp_all
qed

lemma grep_loop_lines:
  assumes "\<forall>r \<in> set rs. NL \<in> set r \<and> 0 \<notin> set r" "NL \<notin> set left" "0 \<notin> set left"
  shows "grep_loop pat left rs = matching pat (fst (lines (left @ concat rs)))"
  using assms
proof (induction rs arbitrary: left)
  case Nil
  then show ?case by (simp add: lines.simps matching_def)
next
  case (Cons r rs)
  let ?b = "left @ r"
  have b: "0 \<notin> set ?b" "NL \<in> set ?b" "r \<noteq> []" using Cons.prems by auto
  have ne: "length (snd (lines ?b)) \<noteq> length ?b" using lines_rest(1)[OF b(2)] by simp
  have "grep_loop pat left (r # rs) = matching pat (fst (lines ?b)) @ grep_loop pat (snd (lines ?b)) rs"
    using b ne by (simp add: grep_scan_lines[OF b(1)] Let_def)
  also have "grep_loop pat (snd (lines ?b)) rs = matching pat (fst (lines (snd (lines ?b) @ concat rs)))"
    using Cons.prems(1) lines_rest(3,4)[of ?b] b(1) by (intro Cons.IH) auto
  finally show ?case using lines_append[of ?b "concat rs"] by (simp add: matching_def)
qed

text \<open>(C34) When every read ends no line without one (each delivers at least one newline, as those of a file with lines of less than
  1023 bytes do), \<open>grep\<close> prints exactly the complete lines that match, in order, however the text is cut into reads,
  lines that span two reads included.\<close>

theorem grep_prints_matches:
  assumes "\<forall>r \<in> set reads. NL \<in> set r \<and> 0 \<notin> set r"
  shows "grep pat reads = matching pat (fst (lines (concat reads)))"
  using grep_loop_lines[OF assms, of "[]"] by (simp add: grep_def)

text \<open>(C35) A read without a newline is lost: when the buffer holds only a part of a line, as after a short read from a pipe, \<open>grep\<close>
  drops it instead of keeping it for the next read, so a line that arrives in pieces is matched and printed without
  its first piece.\<close>

theorem grep_drops_partial_line:
  assumes "NL \<notin> set a" "0 \<notin> set a" "a \<noteq> []"
  shows "grep pat (a # reads) = grep pat reads"
proof -
  have "lines a = ([], a)" using assms(1) by (simp add: lines.simps)
  then show ?thesis using assms(3) by (simp add: grep_def grep_scan_lines[OF assms(2)] matching_def)
qed

theorem grep_drops_partial_line_witness:
  "grep [97, 98, 99] [[97, 98], [99, 10]] = [] \<and> grep [97, 98, 99] [[97, 98, 99, 10]] = [97, 98, 99, 10]"
proof -
  have "grep [97, 98, 99] [[97, 98], [99, 10]] = grep [97, 98, 99] [[99, 10]]" by (rule grep_drops_partial_line) simp_all
  moreover have "grep [97, 98, 99] [[99, 10]] = []" "grep [97, 98, 99] [[97, 98, 99, 10]] = [97, 98, 99, 10]" by code_simp+
  ultimately show ?thesis by simp
qed

theorem grep_prints_matches_witness:
  "grep [97, 42, 98] [[97, 97, 98, 10, 99], [10, 98, 10, 98]] = [97, 97, 98, 10, 98, 10]"
proof -
  have "grep [97, 42, 98] [[97, 97, 98, 10, 99], [10, 98, 10, 98]]
      = matching [97, 42, 98] (fst (lines (concat [[97, 97, 98, 10, 99], [10, 98, 10, 98]])))"
    by (rule grep_prints_matches) simp
  moreover have "matching [97, 42, 98] (fst (lines (concat [[97, 97, 98, 10, 99], [10, 98, 10, 98]]))) = [97, 97, 98, 10, 98, 10]" by code_simp
  ultimately show ?thesis by simp
qed

end
