(* ===== verification/Sh.thy ===== *)
theory Sh imports Prelude
begin

text \<open>
  The shell, \<open>sh.c\<close>: its tokens, its recursive-descent parser, the NUL termination of the counted
  strings, and the commands it runs.  The line is the list of its bytes up to the NUL and a
  \<open>char*\<close> into it is a position; a parse function maps the cursor \<open>*ps\<close> to an outcome with the new
  cursor, \<open>panic\<close> of the shell being the outcome \<open>Panic\<close>.  The mutual recursion of the parser runs on fuel;
  \<open>parsecmd\<close> gives it four units for every byte of the line, which is shown to be enough.  \<open>malloc\<close>
  is taken to succeed.
\<close>

section \<open>Tokens\<close>

definition whitespace :: "byte list" where "whitespace = [32, 9, 13, 10, 11]"
definition symbols :: "byte list" where "symbols = [60, 124, 62, 38, 59, 40, 41]"

definition at :: "byte list \<Rightarrow> nat \<Rightarrow> byte" where
  "at b s = (if s < length b then b ! s else 0)"

function skipws :: "byte list \<Rightarrow> nat \<Rightarrow> nat" where
  "skipws b s = (if s < length b \<and> at b s \<in> set whitespace then skipws b (s + 1) else s)"
  by pat_completeness auto
termination by (relation "measure (\<lambda>(b, s). length b - s)") auto

function skipword :: "byte list \<Rightarrow> nat \<Rightarrow> nat" where
  "skipword b s = (if s < length b \<and> at b s \<notin> set whitespace \<and> at b s \<notin> set symbols then skipword b (s + 1) else s)"
  by pat_completeness auto
termination by (relation "measure (\<lambda>(b, s). length b - s)") auto

declare skipws.simps [simp del] skipword.simps [simp del]

text \<open>The token, where it begins and ends, and the new cursor.\<close>

definition gettoken :: "byte list \<Rightarrow> nat \<Rightarrow> byte \<times> nat \<times> nat \<times> nat" where
  "gettoken b s =
     (let q = skipws b s; c = at b q;
          (ret, eq) = (if c = 0 then (0, q)
             else if c \<in> set [124, 40, 41, 59, 38, 60] then (c, q + 1)
             else if c = 62 then if at b (q + 1) = 62 then (43, q + 2) else (c, q + 1)
             else (97, skipword b q))
      in (ret, q, eq, skipws b eq))"

definition peek :: "byte list \<Rightarrow> byte list \<Rightarrow> nat \<Rightarrow> bool \<times> nat" where
  "peek b toks s = (let s = skipws b s in (at b s \<noteq> 0 \<and> at b s \<in> set toks, s))"

section \<open>Commands\<close>

text \<open>The arrays \<open>argv\<close> and \<open>eargv\<close> are the lists of their entries before the null pointer.\<close>

datatype cmd =
    EXEC "nat list" "nat list"
  | REDIR cmd nat nat nat nat   \<comment> \<open>cmd, file, efile, mode, fd\<close>
  | PIPE cmd cmd
  | LIST cmd cmd
  | BACK cmd

text \<open>The constructors of the source, which allocate the node and fill it in.\<close>

abbreviation (input) execcmd :: cmd where "execcmd \<equiv> EXEC [] []"
abbreviation (input) redircmd :: "cmd \<Rightarrow> nat \<Rightarrow> nat \<Rightarrow> nat \<Rightarrow> nat \<Rightarrow> cmd" where "redircmd \<equiv> REDIR"
abbreviation (input) pipecmd :: "cmd \<Rightarrow> cmd \<Rightarrow> cmd" where "pipecmd \<equiv> PIPE"
abbreviation (input) listcmd :: "cmd \<Rightarrow> cmd \<Rightarrow> cmd" where "listcmd \<equiv> LIST"
abbreviation (input) backcmd :: "cmd \<Rightarrow> cmd" where "backcmd \<equiv> BACK"

abbreviation (input) MAXARGS :: nat where "MAXARGS \<equiv> 10"
abbreviation (input) O_RDONLY :: nat where "O_RDONLY \<equiv> 0"
abbreviation (input) O_WRONLY_CREATE :: nat where "O_WRONLY_CREATE \<equiv> 0x201"

section \<open>The parser\<close>

primrec parseredirs :: "nat \<Rightarrow> byte list \<Rightarrow> cmd \<Rightarrow> nat \<Rightarrow> (cmd, nat) outcome" where
  "parseredirs 0 b cmd s = Spin"
| "parseredirs (Suc k) b cmd s =
     (let (found, s) = peek b [60, 62] s in
      if \<not> found then Ok cmd s
      else let (tok, _, _, s) = gettoken b s;
               (ret, q, eq, s) = gettoken b s
           in if ret \<noteq> 97 then Panic ''missing file for redirection''
              else parseredirs k b
                (if tok = 60 then redircmd cmd q eq O_RDONLY 0
                 else if tok = 62 then redircmd cmd q eq O_WRONLY_CREATE 1
                 else if tok = 43 then redircmd cmd q eq O_WRONLY_CREATE 1
                 else cmd) s)"

text \<open>\<open>cmd->argv[argc] = q; cmd->eargv[argc] = eq\<close>, where \<open>cmd\<close> is the \<open>execcmd\<close> inside the redirections
  collected so far.\<close>

fun add_arg :: "nat \<Rightarrow> nat \<Rightarrow> cmd \<Rightarrow> cmd" where
  "add_arg q eq (EXEC argv eargv) = EXEC (argv @ [q]) (eargv @ [eq])"
| "add_arg q eq (REDIR c f ef m fd) = REDIR (add_arg q eq c) f ef m fd"
| "add_arg q eq c = c"

primrec parseargs :: "nat \<Rightarrow> byte list \<Rightarrow> nat \<Rightarrow> cmd \<Rightarrow> nat \<Rightarrow> (cmd, nat) outcome" where
  "parseargs 0 b argc ret s = Spin"
| "parseargs (Suc k) b argc ret s =
     (let (stop, s) = peek b [124, 41, 38, 59] s in
      if stop then Ok ret s
      else let (tok, q, eq, s) = gettoken b s in
        if tok = 0 then Ok ret s
        else if tok \<noteq> 97 then Panic ''syntax''
        else let ret = add_arg q eq ret; argc = argc + 1 in
          if argc \<ge> MAXARGS then Panic ''too many args''
          else bnd (parseredirs k b ret s) (\<lambda>ret s. parseargs k b argc ret s))"

primrec parseback :: "nat \<Rightarrow> byte list \<Rightarrow> cmd \<Rightarrow> nat \<Rightarrow> (cmd, nat) outcome" where
  "parseback 0 b cmd s = Spin"
| "parseback (Suc k) b cmd s =
     (let (found, s) = peek b [38] s in
      if found then let (_, _, _, s) = gettoken b s in parseback k b (backcmd cmd) s
      else Ok cmd s)"

function (sequential) parseline :: "nat \<Rightarrow> byte list \<Rightarrow> nat \<Rightarrow> (cmd, nat) outcome"
  and parsepipe :: "nat \<Rightarrow> byte list \<Rightarrow> nat \<Rightarrow> (cmd, nat) outcome"
  and parseblock :: "nat \<Rightarrow> byte list \<Rightarrow> nat \<Rightarrow> (cmd, nat) outcome"
  and parseexec :: "nat \<Rightarrow> byte list \<Rightarrow> nat \<Rightarrow> (cmd, nat) outcome" where
  "parseline 0 b s = Spin"
| "parseline (Suc k) b s =
     bnd (parsepipe k b s) (\<lambda>cmd s.
     bnd (parseback k b cmd s) (\<lambda>cmd s.
       let (found, s) = peek b [59] s in
       if found then let (_, _, _, s) = gettoken b s in
         bnd (parseline k b s) (\<lambda>right s. Ok (listcmd cmd right) s)
       else Ok cmd s))"
| "parsepipe 0 b s = Spin"
| "parsepipe (Suc k) b s =
     bnd (parseexec k b s) (\<lambda>cmd s.
       let (found, s) = peek b [124] s in
       if found then let (_, _, _, s) = gettoken b s in
         bnd (parsepipe k b s) (\<lambda>right s. Ok (pipecmd cmd right) s)
       else Ok cmd s)"
| "parseblock 0 b s = Spin"
| "parseblock (Suc k) b s =
     (let (found, s) = peek b [40] s in
      if \<not> found then Panic ''parseblock''
      else let (_, _, _, s) = gettoken b s in
        bnd (parseline k b s) (\<lambda>cmd s.
          let (found, s) = peek b [41] s in
          if \<not> found then Panic ''syntax - missing )''
          else let (_, _, _, s) = gettoken b s in parseredirs k b cmd s))"
| "parseexec 0 b s = Spin"
| "parseexec (Suc k) b s =
     (let (found, s) = peek b [40] s in
      if found then parseblock k b s
      else bnd (parseredirs k b execcmd s) (\<lambda>ret s. parseargs k b 0 ret s))"
  by pat_completeness auto
termination
  by (relation "measure (case_sum (case_sum fst fst) (case_sum fst fst))") auto

text \<open>\<open>nulterminate\<close> stores a NUL at the end of every counted string of the buffer.\<close>

primrec nulterminate :: "cmd \<Rightarrow> byte list \<Rightarrow> byte list" where
  "nulterminate (EXEC argv eargv) b = fold (\<lambda>e b. b[e := 0]) eargv b"
| "nulterminate (REDIR c f ef m fd) b = (nulterminate c b)[ef := 0]"
| "nulterminate (PIPE l r) b = nulterminate r (nulterminate l b)"
| "nulterminate (LIST l r) b = nulterminate r (nulterminate l b)"
| "nulterminate (BACK c) b = nulterminate c b"

text \<open>The result is the command and the buffer its pointers point into.\<close>

definition parsecmd :: "byte list \<Rightarrow> (cmd \<times> byte list, nat) outcome" where
  "parsecmd b =
     bnd (parseline (4 * length b + 4) b 0) (\<lambda>cmd s.
       let (_, s) = peek b [] s in
       if s \<noteq> length b then Panic ''syntax''
       else Ok (cmd, nulterminate cmd (b @ [0])) s)"

section \<open>The parser ends\<close>

lemma skipws_drop: "skipws b s = s + length (takeWhile (\<lambda>c. c \<in> set whitespace) (drop s b))"
proof (induction b s rule: skipws.induct)
  case (1 b s)
  show ?case
  proof (cases "s < length b")
    case True
    then have "drop s b = b ! s # drop (Suc s) b" by (simp add: Cons_nth_drop_Suc)
    then show ?thesis using 1 True by (subst skipws.simps) (simp add: at_def)
  qed (simp add: skipws.simps)
qed

lemma skipword_drop: "skipword b s = s + length (takeWhile (\<lambda>c. c \<notin> set whitespace \<and> c \<notin> set symbols) (drop s b))"
proof (induction b s rule: skipword.induct)
  case (1 b s)
  show ?case
  proof (cases "s < length b")
    case True
    then have "drop s b = b ! s # drop (Suc s) b" by (simp add: Cons_nth_drop_Suc)
    then show ?thesis using 1 True by (subst skipword.simps) (simp add: at_def)
  qed (simp add: skipword.simps)
qed

definition wordchar :: "byte \<Rightarrow> bool" where
  "wordchar c \<longleftrightarrow> c \<notin> set whitespace \<and> c \<notin> set symbols"

lemma skipws_props:
  "s \<le> skipws b s" "s \<le> length b \<Longrightarrow> skipws b s \<le> length b" "skipws b s < length b \<Longrightarrow> at b (skipws b s) \<notin> set whitespace"
  "at b s \<notin> set whitespace \<Longrightarrow> skipws b s = s"
proof -
  let ?W = "\<lambda>c. c \<in> set whitespace"
  have l: "length (takeWhile ?W (drop s b)) \<le> length b - s" using length_takeWhile_le[of ?W "drop s b"] by simp
  show "s \<le> skipws b s" by (simp add: skipws_drop)
  show "s \<le> length b \<Longrightarrow> skipws b s \<le> length b" using l by (simp add: skipws_drop)
  show "skipws b s < length b \<Longrightarrow> at b (skipws b s) \<notin> set whitespace"
    using nth_length_takeWhile[of ?W "drop s b"] by (simp add: skipws_drop at_def)
  show "at b s \<notin> set whitespace \<Longrightarrow> skipws b s = s" by (simp add: skipws.simps)
qed

lemma skipword_props:
  assumes "s \<le> length b"
  shows "s \<le> skipword b s" "skipword b s \<le> length b" "skipword b s < length b \<Longrightarrow> \<not> wordchar (b ! skipword b s)"
    "\<And>i. s \<le> i \<Longrightarrow> i < skipword b s \<Longrightarrow> wordchar (b ! i)" "s < length b \<Longrightarrow> wordchar (b ! s) \<Longrightarrow> s < skipword b s"
proof -
  let ?t = "takeWhile wordchar (drop s b)"
  have e: "skipword b s = s + length ?t" by (simp add: skipword_drop wordchar_def[abs_def])
  have l: "length ?t \<le> length b - s" using length_takeWhile_le[of wordchar "drop s b"] by simp
  show "s \<le> skipword b s" "skipword b s \<le> length b" using l assms by (simp_all add: e)
  show "skipword b s < length b \<Longrightarrow> \<not> wordchar (b ! skipword b s)"
    using nth_length_takeWhile[of wordchar "drop s b"] by (simp add: e)
  show "wordchar (b ! i)" if "s \<le> i" "i < skipword b s" for i
  proof -
    have "i - s < length ?t" using that by (simp add: e)
    then have "?t ! (i - s) \<in> set ?t" "?t ! (i - s) = drop s b ! (i - s)" by (blast intro: nth_mem, rule takeWhile_nth)
    then show ?thesis using that(1) assms by (auto dest: set_takeWhileD)
  qed
  show "s < skipword b s" if "s < length b" "wordchar (b ! s)"
    using that by (subst skipword.simps) (simp add: at_def wordchar_def skipword_drop)
qed

text \<open>A counted string of the line: the bytes from \<open>q\<close> up to \<open>e\<close>, a maximal word.\<close>

definition word_at :: "byte list \<Rightarrow> nat \<times> nat \<Rightarrow> bool" where
  "word_at b = (\<lambda>(q, e). q < e \<and> e \<le> length b \<and> (\<forall>i. q \<le> i \<and> i < e \<longrightarrow> wordchar (b ! i)) \<and> (e < length b \<longrightarrow> \<not> wordchar (b ! e)))"

primrec ranges :: "cmd \<Rightarrow> (nat \<times> nat) list" where
  "ranges (EXEC argv eargv) = zip argv eargv"
| "ranges (REDIR c f ef m fd) = ranges c @ [(f, ef)]"
| "ranges (PIPE l r) = ranges l @ ranges r"
| "ranges (LIST l r) = ranges l @ ranges r"
| "ranges (BACK c) = ranges c"

text \<open>The two arrays of an \<open>execcmd\<close> have the same length.\<close>

primrec even_args :: "cmd \<Rightarrow> bool" where
  "even_args (EXEC argv eargv) = (length argv = length eargv)"
| "even_args (REDIR c f ef m fd) = even_args c"
| "even_args (PIPE l r) = (even_args l \<and> even_args r)"
| "even_args (LIST l r) = (even_args l \<and> even_args r)"
| "even_args (BACK c) = even_args c"

definition cmd_ok :: "byte list \<Rightarrow> cmd \<Rightarrow> bool" where
  "cmd_ok b c \<longleftrightarrow> even_args c \<and> (\<forall>r \<in> set (ranges c). word_at b r)"

lemma cmd_ok_simps [simp]:
  "cmd_ok b (EXEC [] [])" "cmd_ok b (REDIR c f e m d) \<longleftrightarrow> cmd_ok b c \<and> word_at b (f, e)"
  "cmd_ok b (PIPE l r) \<longleftrightarrow> cmd_ok b l \<and> cmd_ok b r" "cmd_ok b (LIST l r) \<longleftrightarrow> cmd_ok b l \<and> cmd_ok b r" "cmd_ok b (BACK c) = cmd_ok b c"
  by (auto simp: cmd_ok_def)

lemma cmd_ok_add: "cmd_ok b c \<Longrightarrow> word_at b (q, e) \<Longrightarrow> cmd_ok b (add_arg q e c)"
  by (induction q e c rule: add_arg.induct) (auto simp: cmd_ok_def)

lemma gettoken_props:
  assumes "gettoken b s = (tok, q, e, s')" "s \<le> length b"
  shows "s \<le> q" "q \<le> e" "e \<le> s'" "s' \<le> length b" "tok \<noteq> 0 \<Longrightarrow> q < e" "tok = 97 \<Longrightarrow> word_at b (q, e)" "tok = 0 \<longleftrightarrow> at b q = 0" "q = skipws b s"
proof -
  show qe: "q = skipws b s" using assms(1) by (auto simp: gettoken_def Let_def split: if_splits)
  note k = skipws_props[where s = s and b = b]
  have ql: "q \<le> length b" "s \<le> q" using k(1,2) assms(2) qe by simp_all
  note w = skipword_props[OF ql(1)]
  have at0: "at b i \<noteq> 0 \<Longrightarrow> i < length b" for i by (auto simp: at_def split: if_splits)
  have wc: "wordchar (b ! q)" "q < length b" if "at b q \<notin> {0, 124, 40, 41, 59, 38, 60, 62}"
    using that k(3) qe at0[of q] by (auto simp: wordchar_def symbols_def at_def)
  have c: "e \<le> length b \<and> q \<le> e \<and> s' = skipws b e \<and> (tok \<noteq> 0 \<longrightarrow> q < e) \<and> (tok = 97 \<longrightarrow> word_at b (q, e)) \<and> (tok = 0 \<longleftrightarrow> at b q = 0)"
  proof (cases "at b q \<in> {0, 124, 40, 41, 59, 38, 60, 62}")
    case True
    then show ?thesis using assms(1) at0[of q] at0[of "q + 1"] ql qe by (auto simp: gettoken_def Let_def split: if_splits)
  next
    case False
    then have g: "tok = 97" "e = skipword b q" "s' = skipws b e" using assms(1) qe by (auto simp: gettoken_def Let_def)
    then show ?thesis using w wc[OF False] False by (auto simp: word_at_def)
  qed
  then show "q \<le> e" "e \<le> s'" "s' \<le> length b" "tok \<noteq> 0 \<Longrightarrow> q < e" "tok = 97 \<Longrightarrow> word_at b (q, e)" "tok = 0 \<longleftrightarrow> at b q = 0"
    using skipws_props(1,2)[of e b] by auto
  show "s \<le> q" using ql by simp
qed

lemma peek_props:
  assumes "peek b toks s = (found, s')" "s \<le> length b"
  shows "s \<le> s'" "s' \<le> length b" "found \<Longrightarrow> at b s' \<noteq> 0" "skipws b s' = s'"
proof -
  have e: "s' = skipws b s" "found \<longleftrightarrow> at b s' \<noteq> 0 \<and> at b s' \<in> set toks" using assms(1) by (auto simp: peek_def Let_def)
  show "s \<le> s'" "s' \<le> length b" "found \<Longrightarrow> at b s' \<noteq> 0" using e skipws_props(1,2)[of s b] assms(2) by auto
  show "skipws b s' = s'"
  proof (cases "s' < length b")
    case True
    then show ?thesis using skipws_props(3,4) e(1) by metis
  next
    case False
    then show ?thesis by (simp add: skipws.simps)
  qed
qed

text \<open>After a successful \<open>peek\<close>, \<open>gettoken\<close> consumes at least one byte.\<close>

lemma peek_gettoken:
  assumes "peek b toks s = (found, s1)" found "gettoken b s1 = (tok, q, e, s2)" "s \<le> length b"
  shows "s < s2" "s2 \<le> length b" "s1 < s2"
proof -
  note p = peek_props[OF assms(1,4)] and g = gettoken_props[OF assms(3)]
  have "tok \<noteq> 0" using g(7,8)[OF p(2)] p(3)[OF assms(2)] p(4) by simp
  then show "s < s2" "s2 \<le> length b" "s1 < s2" using p(1) g(1,3,4,5)[OF p(2)] by auto
qed

definition syntax_errors :: "string set" where
  "syntax_errors = {''syntax'', ''too many args'', ''missing file for redirection'', ''syntax - missing )''}"

definition ends :: "byte list \<Rightarrow> nat \<Rightarrow> (cmd, nat) outcome \<Rightarrow> bool" where
  "ends b s r = (case r of Ok c t \<Rightarrow> s \<le> t \<and> t \<le> length b \<and> cmd_ok b c | Panic e \<Rightarrow> e \<in> syntax_errors | _ \<Rightarrow> False)"

lemma ends_simps [simp]: "ends b s (Ok c t) \<longleftrightarrow> s \<le> t \<and> t \<le> length b \<and> cmd_ok b c" "ends b s (Panic e) \<longleftrightarrow> e \<in> syntax_errors"
  by (simp_all add: ends_def)

lemma ends_mono: "ends b t r \<Longrightarrow> s \<le> t \<Longrightarrow> ends b s r"
  by (cases r) (auto simp: ends_def)

lemma ends_bnd:
  assumes "ends b t m" "\<And>c u. t \<le> u \<Longrightarrow> u \<le> length b \<Longrightarrow> cmd_ok b c \<Longrightarrow> ends b s (f c u)"
  shows "ends b s (bnd m f)"
  using assms by (cases m) (auto simp: ends_def)

lemma parseredirs_ends:
  "s \<le> length b \<Longrightarrow> length b - s < k \<Longrightarrow> cmd_ok b c \<Longrightarrow> ends b s (parseredirs k b c s)"
proof (induction k arbitrary: c s)
  case (Suc k)
  obtain f s1 where p: "peek b [60, 62] s = (f, s1)" by fastforce
  obtain t1 q1 e1 s2 where g1: "gettoken b s1 = (t1, q1, e1, s2)" by (cases "gettoken b s1") auto
  obtain t2 q2 e2 s3 where g2: "gettoken b s2 = (t2, q2, e2, s3)" by (cases "gettoken b s2") auto
  note pp = peek_props[OF p Suc.prems(1)]
  show ?case
  proof (cases f)
    case True
    note pg = peek_gettoken[OF p True g1 Suc.prems(1)]
    note g = gettoken_props[OF g2 pg(2)]
    have i: "ends b s (parseredirs k b c' s3)" if "cmd_ok b c'" for c'
      by (rule ends_mono[OF Suc.IH[OF g(4) _ that]]) (use Suc.prems(2) pg g(1-4) in linarith)+
    show ?thesis using True Suc.prems(3) g(6) by (simp add: p g1 g2 i syntax_errors_def)
  qed (use pp Suc.prems in \<open>simp add: p\<close>)
qed simp

lemma parseback_ends:
  "s \<le> length b \<Longrightarrow> length b - s < k \<Longrightarrow> cmd_ok b c \<Longrightarrow> ends b s (parseback k b c s)"
proof (induction k arbitrary: c s)
  case (Suc k)
  obtain f s1 where p: "peek b [38] s = (f, s1)" by fastforce
  obtain t1 q1 e1 s2 where g1: "gettoken b s1 = (t1, q1, e1, s2)" by (cases "gettoken b s1") auto
  show ?case
  proof (cases f)
    case True
    note pg = peek_gettoken[OF p True g1 Suc.prems(1)]
    have "ends b s2 (parseback k b (BACK c) s2)" by (rule Suc.IH[OF pg(2)]) (use Suc.prems(2,3) pg(1,2) in auto)
    then have "ends b s (parseback k b (BACK c) s2)" by (rule ends_mono) (use pg(1) in simp)
    then show ?thesis using True by (simp add: p g1)
  qed (use peek_props[OF p Suc.prems(1)] Suc.prems in \<open>simp add: p\<close>)
qed simp

lemma parseargs_ends:
  "s \<le> length b \<Longrightarrow> length b - s < k \<Longrightarrow> cmd_ok b c \<Longrightarrow> ends b s (parseargs k b n c s)"
proof (induction k arbitrary: n c s)
  case (Suc k)
  obtain f s1 where p: "peek b [124, 41, 38, 59] s = (f, s1)" by fastforce
  obtain t1 q1 e1 s2 where g1: "gettoken b s1 = (t1, q1, e1, s2)" by (cases "gettoken b s1") auto
  note pp = peek_props[OF p Suc.prems(1)]
  note g = gettoken_props[OF g1 pp(2)]
  show ?case
  proof (cases "f \<or> t1 \<noteq> 97 \<or> MAXARGS \<le> n + 1")
    case True
    then show ?thesis using pp g(1-4) Suc.prems(3) by (auto simp: p g1 syntax_errors_def)
  next
    case False
    then have s2: "s < s2" "length b - s2 < k" using g(1-5) pp(1) Suc.prems(2) by auto
    have c: "cmd_ok b (add_arg q1 e1 c)" using cmd_ok_add[OF Suc.prems(3) g(6)] False by simp
    have "ends b s (bnd (parseredirs k b (add_arg q1 e1 c) s2) (\<lambda>ret s. parseargs k b (n + 1) ret s))"
    proof (rule ends_bnd[OF parseredirs_ends[OF g(4) s2(2) c]])
      fix d u assume u: "s2 \<le> u" "u \<le> length b" "cmd_ok b d"
      then show "ends b s (parseargs k b (n + 1) d u)" by (intro ends_mono[OF Suc.IH[OF u(2) _ u(3)]]) (use s2 in linarith)+
    qed
    then show ?thesis using False by (simp add: p g1)
  qed
qed simp

lemma parse_ends:
  "s \<le> length b \<Longrightarrow> 4 * (length b - s) + 4 \<le> k \<Longrightarrow> ends b s (parseline k b s)"
  "s \<le> length b \<Longrightarrow> 4 * (length b - s) + 3 \<le> k \<Longrightarrow> ends b s (parsepipe k b s)"
  "s \<le> length b \<Longrightarrow> fst (peek b [40] s) \<Longrightarrow> 4 * (length b - s) + 1 \<le> k \<Longrightarrow> ends b s (parseblock k b s)"
  "s \<le> length b \<Longrightarrow> 4 * (length b - s) + 2 \<le> k \<Longrightarrow> ends b s (parseexec k b s)"
proof (induction k arbitrary: s)
  case (Suc k)
  note line = Suc.IH(1) and pip = Suc.IH(2) and block = Suc.IH(3) and exec = Suc.IH(4)
  {
    case 1
    show ?case unfolding parseline.simps
    proof (rule ends_bnd[OF pip[OF 1(1)]], (use 1(2) in simp; fail), rule ends_bnd[OF parseback_ends], assumption)
      fix c u d v assume u: "s \<le> u" "u \<le> length b" and v: "u \<le> v" "v \<le> length b" and d: "cmd_ok b d"
      obtain f s1 where p: "peek b [59] v = (f, s1)" by fastforce
      obtain t1 q1 e1 s2 where g: "gettoken b s1 = (t1, q1, e1, s2)" by (cases "gettoken b s1") auto
      have "ends b s (bnd (parseline k b s2) (\<lambda>right s. Ok (LIST d right) s))" if f
        by (rule ends_bnd[OF line]) (use peek_gettoken[OF p that g v(2)] 1(2) u v d in auto)
      then show "ends b s (let (found, s) = peek b [59] v in if found then let (_, _, _, s) = gettoken b s in
         bnd (parseline k b s) (\<lambda>right s. Ok (LIST d right) s) else Ok d s)"
        using peek_props(1,2)[OF p v(2)] u v d by (auto simp: p g)
    qed (use 1(2) in auto)
  next
    case 2
    show ?case unfolding parsepipe.simps
    proof (rule ends_bnd[OF exec[OF 2(1)]])
      fix d v assume v: "s \<le> v" "v \<le> length b" and d: "cmd_ok b d"
      obtain f s1 where p: "peek b [124] v = (f, s1)" by fastforce
      obtain t1 q1 e1 s2 where g: "gettoken b s1 = (t1, q1, e1, s2)" by (cases "gettoken b s1") auto
      have "ends b s (bnd (parsepipe k b s2) (\<lambda>right s. Ok (PIPE d right) s))" if f
        by (rule ends_bnd[OF pip]) (use peek_gettoken[OF p that g v(2)] 2(2) v d in auto)
      then show "ends b s (let (found, s) = peek b [124] v in if found then let (_, _, _, s) = gettoken b s in
         bnd (parsepipe k b s) (\<lambda>right s. Ok (PIPE d right) s) else Ok d s)"
        using peek_props(1,2)[OF p v(2)] v d by (auto simp: p g)
    qed (use 2(2) in auto)
  next
    case 3
    obtain s1 where p: "peek b [40] s = (True, s1)" using 3(2) by (cases "peek b [40] s") auto
    obtain t1 q1 e1 s2 where g: "gettoken b s1 = (t1, q1, e1, s2)" by (cases "gettoken b s1") auto
    note pg = peek_gettoken[OF p TrueI g 3(1)]
    have "ends b s (bnd (parseline k b s2) (\<lambda>cmd s.
          let (found, s) = peek b [41] s in
          if \<not> found then Panic ''syntax - missing )''
          else let (_, _, _, s) = gettoken b s in parseredirs k b cmd s))"
    proof (rule ends_bnd[OF line[OF pg(2)]])
      fix d v assume v: "s2 \<le> v" "v \<le> length b" and d: "cmd_ok b d"
      obtain f u where p2: "peek b [41] v = (f, u)" by fastforce
      obtain t q e w where g2: "gettoken b u = (t, q, e, w)" by (cases "gettoken b u") auto
      have "ends b s (parseredirs k b d w)" if f
        by (rule ends_mono[OF parseredirs_ends]) (use peek_gettoken[OF p2 that g2 v(2)] pg 3(3) v d in auto)
      then show "ends b s (let (found, s) = peek b [41] v in if \<not> found then Panic ''syntax - missing )''
          else let (_, _, _, s) = gettoken b s in parseredirs k b d s)" by (auto simp: p2 g2 syntax_errors_def)
    qed (use 3(3) pg in auto)
    then show ?case by (simp add: p g)
  next
    case 4
    obtain f s1 where p: "peek b [40] s = (f, s1)" by fastforce
    note pp = peek_props[OF p 4(1)]
    show ?case
    proof (cases f)
      case True
      have "fst (peek b [40] s1)" using p pp(4) True by (auto simp: peek_def Let_def)
      then have "ends b s1 (parseblock k b s1)" by (intro block[OF pp(2)]) (use 4(2) pp(1) in auto)
      then have "ends b s (parseblock k b s1)" using pp(1) by (rule ends_mono)
      then show ?thesis using True by (simp add: p)
    next
      case False
      have "ends b s (bnd (parseredirs k b (EXEC [] []) s1) (\<lambda>ret s. parseargs k b 0 ret s))"
      proof (rule ends_bnd[OF parseredirs_ends[OF pp(2)]])
        fix d v assume "s1 \<le> v" "v \<le> length b" "cmd_ok b d"
        then show "ends b s (parseargs k b 0 d v)" by (intro ends_mono[OF parseargs_ends]) (use pp(1) 4(2) in auto)
      qed (use 4(2) pp(1) in auto)
      then show ?thesis using False by (simp add: p)
    qed
  }
qed auto

section \<open>The strings of a command\<close>

definition cstr :: "byte list \<Rightarrow> nat \<Rightarrow> byte list" where
  "cstr buf q = takeWhile (\<lambda>c. c \<noteq> 0) (drop q buf)"

lemma nulterminate_nth:
  assumes "even_args c"
  shows "length (nulterminate c b) = length b"
    "i < length b \<Longrightarrow> nulterminate c b ! i = (if i \<in> snd ` set (ranges c) then 0 else b ! i)"
proof -
  have f: "length (fold (\<lambda>e b. b[e := 0]) es b) = length b \<and>
      (i < length b \<longrightarrow> fold (\<lambda>e b. b[e := 0]) es b ! i = (if i \<in> set es then 0 else b ! i))" for es b and i :: nat
    by (induction es arbitrary: b) (auto simp: nth_list_update)
  have z: "length xs = length ys \<Longrightarrow> snd ` set (zip xs ys) = set ys" for xs ys :: "nat list"
    by (metis map_snd_zip set_map)
  have "length (nulterminate c b) = length b \<and> (i < length b \<longrightarrow> nulterminate c b ! i = (if i \<in> snd ` set (ranges c) then 0 else b ! i))"
    using assms
  proof (induction c arbitrary: b)
    case (EXEC argv eargv)
    then show ?case using f[of eargv b i] z[of argv eargv] by simp
  next
    case (REDIR c f e m d)
    have "length (nulterminate c b) = length b \<and> (i < length b \<longrightarrow> nulterminate c b ! i = (if i \<in> snd ` set (ranges c) then 0 else b ! i))"
      using REDIR by simp
    then show ?case by (cases "i = e") (auto simp: image_Un)
  qed (simp_all add: image_Un)
  then show "length (nulterminate c b) = length b"
    "i < length b \<Longrightarrow> nulterminate c b ! i = (if i \<in> snd ` set (ranges c) then 0 else b ! i)" by simp_all
qed

lemma cstr_word:
  assumes ok: "cmd_ok b c" and r: "(q, e) \<in> set (ranges c)" and nz: "0 \<notin> set b"
  shows "cstr (nulterminate c (b @ [0])) q = take (e - q) (drop q b)"
proof -
  let ?n = "nulterminate c (b @ [0])"
  have w: "\<And>r. r \<in> set (ranges c) \<Longrightarrow> word_at b r" and ev: "even_args c" using ok by (auto simp: cmd_ok_def)
  note nn = nulterminate_nth[OF ev, where b = "b @ [0]"]
  have qe: "q < e" "e \<le> length b" "\<And>i. q \<le> i \<Longrightarrow> i < e \<Longrightarrow> wordchar (b ! i)" using w[OF r] by (auto simp: word_at_def)
  have keep: "?n ! i = b ! i" if "q \<le> i" "i < e" for i
  proof -
    have "i \<notin> snd ` set (ranges c)"
    proof
      assume "i \<in> snd ` set (ranges c)"
      then obtain p where "(p, i) \<in> set (ranges c)" by auto
      then show False using w[of "(p, i)"] qe(3)[OF that] that qe(2) by (auto simp: word_at_def)
    qed
    then show ?thesis using nn(2)[of i] that qe(2) by (simp add: nth_append)
  qed
  have z: "?n ! e = 0" using nn(2)[of e] r qe(2) by force
  have ln: "length ?n = Suc (length b)" using nn(1) by simp
  have "drop q ?n = take (e - q) (drop q b) @ 0 # drop (Suc e) ?n"
  proof (rule nth_equalityI)
    show "length (drop q ?n) = length (take (e - q) (drop q b) @ 0 # drop (Suc e) ?n)" using qe ln by simp
    fix i assume i: "i < length (drop q ?n)"
    have lt: "length (take (e - q) (drop q b)) = e - q" using qe by simp
    consider "i < e - q" | "i = e - q" | "e - q < i" by linarith
    then show "drop q ?n ! i = (take (e - q) (drop q b) @ 0 # drop (Suc e) ?n) ! i"
    proof cases
      case 1
      then show ?thesis using keep[of "q + i"] qe ln i by (simp add: nth_append lt)
    next
      case 2
      then show ?thesis using z qe ln i by (simp add: nth_append lt)
    next
      case 3
      then obtain j where "i = Suc (e - q + j)" by (metis less_imp_Suc_add)
      then show ?thesis using qe(1,2) ln i by (auto simp: nth_append lt)
    qed
  qed
  moreover have "\<forall>x \<in> set (take (e - q) (drop q b)). x \<noteq> 0" using nz by (metis in_set_dropD in_set_takeD)
  ultimately show ?thesis by (simp add: cstr_def takeWhile_append)
qed

text \<open>(C31) The parser always ends: for every line \<open>parsecmd\<close> consumes the whole line and returns a command, or reports one of its four syntax
  errors (the check in \<open>parseblock\<close> never fires).  In the buffer of the result every argument and file name is a non-empty
  string that ends where its token ended: no terminating NUL of another token cuts it off.\<close>

theorem parsecmd_total:
  assumes "0 \<notin> set b"
  shows "case parsecmd b of
      Ok (cmd, buf) s \<Rightarrow> s = length b \<and> even_args cmd \<and> (\<forall>(q, e) \<in> set (ranges cmd). q < e \<and> e \<le> length b \<and> cstr buf q = take (e - q) (drop q b))
    | Panic msg \<Rightarrow> msg \<in> syntax_errors
    | _ \<Rightarrow> False"
proof -
  have e: "ends b 0 (parseline (4 * length b + 4) b 0)" by (rule parse_ends(1)) simp_all
  show ?thesis
  proof (cases "parseline (4 * length b + 4) b 0")
    case (Ok c s)
    then have c: "cmd_ok b c" using e by simp
    have "q < e \<and> e \<le> length b" if "(q, e) \<in> set (ranges c)" for q e using c that by (auto simp: cmd_ok_def word_at_def)
    then show ?thesis using Ok cstr_word[OF c _ assms] c
      by (auto simp: parsecmd_def syntax_errors_def peek_def Let_def cmd_ok_def)
  qed (use e in \<open>auto simp: parsecmd_def ends_def\<close>)
qed

theorem parsecmd_total_witness:
  "\<exists>cmd buf. parsecmd [97, 32, 98, 99, 60, 100] = Ok (cmd, buf) 6 \<and> ranges cmd = [(0, 1), (2, 4), (5, 6)] \<and> cstr buf 2 = [98, 99]"
proof -
  have p: "parsecmd [97, 32, 98, 99, 60, 100] = Ok (REDIR (EXEC [0, 2] [1, 4]) 5 6 0 0, [97, 0, 98, 99, 0, 100, 0]) 6" by code_simp
  have "0 \<notin> set [97, 32, 98, 99, 60, 100 :: byte]" by simp
  from parsecmd_total[OF this] show ?thesis by (simp add: p)
qed

section \<open>Printing and parsing\<close>

text \<open>A command with its strings, as \<open>runcmd\<close> sees it.\<close>

datatype scmd =
    SExec "byte list list"
  | SRedir scmd "byte list" nat nat
  | SPipe scmd scmd
  | SList scmd scmd
  | SBack scmd

primrec view :: "(nat \<times> nat \<Rightarrow> byte list) \<Rightarrow> cmd \<Rightarrow> scmd" where
  "view f (EXEC argv eargv) = SExec (map f (zip argv eargv))"
| "view f (REDIR c q e m d) = SRedir (view f c) (f (q, e)) m d"
| "view f (PIPE l r) = SPipe (view f l) (view f r)"
| "view f (LIST l r) = SList (view f l) (view f r)"
| "view f (BACK c) = SBack (view f c)"

lemma view_cong: "(\<And>r. r \<in> set (ranges c) \<Longrightarrow> f r = g r) \<Longrightarrow> view f c = view g c"
  by (induction c) auto

definition part :: "byte list \<Rightarrow> nat \<times> nat \<Rightarrow> byte list" where
  "part b = (\<lambda>(q, e). take (e - q) (drop q b))"

text \<open>A command as text, with parentheses where its level (0 a line, 1 the part before \<open>;\<close>, 2 a pipeline, 3 an operand of \<open>|\<close>)
  needs them.\<close>

definition paren :: "bool \<Rightarrow> byte list \<Rightarrow> byte list" where
  "paren p t = (if p then [40] @ t @ [41] else t)"

definition show_redir :: "byte list \<Rightarrow> nat \<Rightarrow> byte list" where
  "show_redir f d = (if d = 0 then 60 else 62) # f @ [32]"

primrec unparse :: "scmd \<Rightarrow> nat \<Rightarrow> byte list" where
  "unparse (SExec ws) lv = concat (map (\<lambda>w. w @ [32]) ws)"
| "unparse (SRedir c f m d) lv = unparse c 3 @ show_redir f d"
| "unparse (SPipe l r) lv = paren (2 < lv) (unparse l 3 @ [124] @ unparse r 2)"
| "unparse (SList l r) lv = paren (0 < lv) (unparse l 1 @ [59] @ unparse r 0)"
| "unparse (SBack c) lv = paren (1 < lv) (unparse c 1 @ [38])"

definition word_ok :: "byte list \<Rightarrow> bool" where
  "word_ok w \<longleftrightarrow> w \<noteq> [] \<and> (\<forall>c \<in> set w. wordchar c \<and> c \<noteq> 0)"

definition redir_ok :: "nat \<Rightarrow> nat \<Rightarrow> bool" where
  "redir_ok m d \<longleftrightarrow> (m, d) \<in> {(O_RDONLY, 0), (O_WRONLY_CREATE, 1)}"

primrec wf_cmd :: "scmd \<Rightarrow> bool" where
  "wf_cmd (SExec ws) = (length ws < MAXARGS \<and> list_all word_ok ws)"
| "wf_cmd (SRedir c f m d) = (wf_cmd c \<and> word_ok f \<and> redir_ok m d)"
| "wf_cmd (SPipe l r) = (wf_cmd l \<and> wf_cmd r)"
| "wf_cmd (SList l r) = (wf_cmd l \<and> wf_cmd r)"
| "wf_cmd (SBack c) = wf_cmd c"

text \<open>The next byte that is not white space.\<close>

abbreviation skips :: "byte list \<Rightarrow> byte list" where
  "skips r \<equiv> dropWhile (\<lambda>c. c \<in> set whitespace) r"

definition nxt :: "byte list \<Rightarrow> byte" where
  "nxt r = (case skips r of [] \<Rightarrow> 0 | c # _ \<Rightarrow> c)"

lemma drop_skipws: "s \<le> length b \<Longrightarrow> drop (skipws b s) b = skips (drop s b)"
  by (simp add: skipws_drop dropWhile_eq_drop add.commute)

lemma at_nxt: "s \<le> length b \<Longrightarrow> at b (skipws b s) = nxt (drop s b)"
proof -
  assume s: "s \<le> length b"
  have "at b i = (case drop i b of [] \<Rightarrow> 0 | c # _ \<Rightarrow> c)" for i
    by (cases "i < length b") (auto simp: at_def Cons_nth_drop_Suc[symmetric])
  then show ?thesis by (simp add: drop_skipws[OF s] nxt_def)
qed

lemma skips_idem [simp]: "skips (skips r) = skips r" "nxt (skips r) = nxt r"
  by (simp_all add: nxt_def)

lemma nxt_Cons: "c \<notin> set whitespace \<Longrightarrow> nxt (c # r) = c" "c \<in> set whitespace \<Longrightarrow> nxt (c # r) = nxt r"
  by (simp_all add: nxt_def)

lemma nxt_skips: "nxt r = c \<Longrightarrow> c \<noteq> 0 \<Longrightarrow> \<exists>t. skips r = c # t"
  by (auto simp: nxt_def split: list.splits)

lemma peek_nxt: "s \<le> length b \<Longrightarrow> peek b toks s = (nxt (drop s b) \<noteq> 0 \<and> nxt (drop s b) \<in> set toks, skipws b s)"
  by (simp add: peek_def Let_def at_nxt)

lemma gettoken_sym:
  assumes "s \<le> length b" "skips (drop s b) = c # r" "c \<in> set [124, 40, 41, 59, 38, 60] \<or> c = 62 \<and> (r = [] \<or> hd r \<noteq> 62)"
  shows "\<exists>q e t. gettoken b s = (c, q, e, t) \<and> s < t \<and> t \<le> length b \<and> drop t b = skips r"
proof -
  let ?q = "skipws b s"
  have d: "drop ?q b = c # r" using drop_skipws[OF assms(1)] assms(2) by simp
  have c: "at b ?q = c" using at_nxt[OF assms(1)] assms(2) by (simp add: nxt_def)
  have q: "?q < length b" "s \<le> ?q" using d skipws_props(1) by (auto simp: not_le intro: ccontr dest: drop_all)
  have dr: "drop (?q + 1) b = r" using d by (simp add: drop_Suc drop_tl)
  have a1: "at b (?q + 1) = (case r of [] \<Rightarrow> 0 | c # _ \<Rightarrow> c)"
    using dr q by (cases "?q + 1 < length b") (auto simp: at_def Cons_nth_drop_Suc[symmetric])
  have "gettoken b s = (c, ?q, ?q + 1, skipws b (?q + 1))"
    using assms(3) a1[unfolded Suc_eq_plus1[symmetric]] by (cases r) (auto simp: gettoken_def Let_def c)
  moreover have "drop (skipws b (?q + 1)) b = skips r" using drop_skipws[of "?q + 1" b] q dr by simp
  moreover have "?q + 1 \<le> skipws b (?q + 1)" "skipws b (?q + 1) \<le> length b" using skipws_props(1,2) q by auto
  ultimately show ?thesis using q by auto
qed

lemma word_at_symbols: "wordchar c \<Longrightarrow> c \<notin> {124, 40, 41, 59, 38, 60, 62}" "wordchar c \<Longrightarrow> c \<notin> set whitespace" "\<not> wordchar 32"
  by (auto simp: wordchar_def symbols_def whitespace_def)

lemma gettoken_word:
  assumes "s \<le> length b" "skips (drop s b) = w @ 32 # r" "word_ok w"
  shows "\<exists>q e t. gettoken b s = (97, q, e, t) \<and> s < t \<and> t \<le> length b \<and> drop t b = skips r \<and> part b (q, e) = w"
proof -
  let ?q = "skipws b s"
  have d: "drop ?q b = w @ 32 # r" using drop_skipws[OF assms(1)] assms(2) by simp
  obtain c w' where w: "w = c # w'" "wordchar c" "c \<noteq> 0" using assms(3) by (cases w) (auto simp: word_ok_def)
  have c: "at b ?q = c" using at_nxt[OF assms(1)] assms(2) w by (simp add: nxt_def)
  have q: "?q < length b" "s \<le> ?q" using d skipws_props(1) by (auto simp: not_le intro: ccontr dest: drop_all)
  have "takeWhile wordchar (w @ 32 # r) = w" using assms(3) word_at_symbols(3) by (auto simp: word_ok_def takeWhile_append)
  then have e: "skipword b ?q = ?q + length w" by (simp add: skipword_drop d wordchar_def[abs_def])
  have g: "gettoken b s = (97, ?q, ?q + length w, skipws b (?q + length w))"
    using word_at_symbols(1)[OF w(2)] w(3) by (simp add: gettoken_def Let_def c e)
  have dr: "drop (?q + length w) b = 32 # r" using d by (metis add.commute append_eq_conv_conj drop_drop)
  have ql: "?q + length w \<le> length b" using dr by (metis drop_all linorder_le_cases list.distinct(1))
  have "drop (skipws b (?q + length w)) b = skips r" using drop_skipws[OF ql] dr by (simp add: whitespace_def)
  moreover have "part b (?q, ?q + length w) = w" by (simp add: part_def d)
  moreover have "?q < ?q + length w" "?q + length w \<le> skipws b (?q + length w)" "skipws b (?q + length w) \<le> length b"
    using skipws_props(1,2) ql w(1) by auto
  then have "s < skipws b (?q + length w)" "skipws b (?q + length w) \<le> length b" using q(2) by linarith+
  ultimately show ?thesis using g by (intro exI[of _ ?q] exI[of _ "?q + length w"] exI[of _ "skipws b (?q + length w)"]) auto
qed

definition wrap :: "(byte list \<times> nat \<times> nat) list \<Rightarrow> scmd \<Rightarrow> scmd" where
  "wrap rs c = fold (\<lambda>(f, m, d) c. SRedir c f m d) rs c"

definition rtext :: "(byte list \<times> nat \<times> nat) list \<Rightarrow> byte list" where
  "rtext rs = concat (map (\<lambda>(f, m, d). show_redir f d) rs)"

abbreviation wtext :: "byte list list \<Rightarrow> byte list" where
  "wtext ws \<equiv> concat (map (\<lambda>w. w @ [32]) ws)"

abbreviation redirs_ok :: "(byte list \<times> nat \<times> nat) list \<Rightarrow> bool" where
  "redirs_ok rs \<equiv> \<forall>(f, m, d) \<in> set rs. word_ok f \<and> redir_ok m d"

lemma ws_symbols [simp]: "60 \<notin> set whitespace" "62 \<notin> set whitespace" "124 \<notin> set whitespace" "38 \<notin> set whitespace" "59 \<notin> set whitespace"
  "40 \<notin> set whitespace" "41 \<notin> set whitespace" "32 \<in> set whitespace"
  by (simp_all add: whitespace_def)

lemma skips_word: "word_ok w \<Longrightarrow> skips (w @ r) = w @ r"
  by (cases w) (auto simp: word_ok_def wordchar_def)

lemma nxt_simps [simp]: "nxt (60 # r) = 60" "nxt (62 # r) = 62" "nxt (124 # r) = 124" "nxt (38 # r) = 38"
  "nxt (59 # r) = 59" "nxt (40 # r) = 40" "nxt (41 # r) = 41"
  by (simp_all add: nxt_def)

lemma nxt_word: "word_ok w \<Longrightarrow> wordchar (nxt (w @ r)) \<and> nxt (w @ r) \<noteq> 0"
  using skips_word[of w r] by (cases w) (auto simp: nxt_def word_ok_def)

lemma nxt_skips_eq: "skips x = skips y \<Longrightarrow> nxt x = nxt y"
  by (simp add: nxt_def)

text \<open>The cursor \<open>s\<close> stands before the text \<open>r\<close>, white space aside.\<close>

definition before :: "byte list \<Rightarrow> nat \<Rightarrow> byte list \<Rightarrow> bool" where
  "before b s r \<longleftrightarrow> s \<le> length b \<and> skips (drop s b) = skips r"

lemma before_peek: "before b s r \<Longrightarrow> \<exists>t. peek b toks s = (nxt r \<noteq> 0 \<and> nxt r \<in> set toks, t) \<and> s \<le> t \<and> before b t r"
proof -
  assume b: "before b s r"
  then have s: "s \<le> length b" "nxt (drop s b) = nxt r" by (simp_all add: before_def nxt_def)
  have "before b (skipws b s) r" using b skipws_props(2)[OF s(1)] drop_skipws[OF s(1)] by (simp add: before_def)
  then show ?thesis using peek_nxt[OF s(1), of toks] skipws_props(1) s(2) by simp
qed

lemma before_sym:
  assumes "before b s (c # r)" "c \<in> set [124, 40, 41, 59, 38, 60] \<or> c = 62 \<and> (r = [] \<or> hd r \<noteq> 62)"
  shows "\<exists>q e t. gettoken b s = (c, q, e, t) \<and> s < t \<and> before b t r"
proof -
  have "skips (c # r) = c # r" using assms(2) by (auto simp: whitespace_def)
  then have "skips (drop s b) = c # r" "s \<le> length b" using assms(1) by (simp_all add: before_def)
  from gettoken_sym[OF this(2,1) assms(2)] show ?thesis by (auto simp: before_def)
qed

lemma before_word:
  assumes "before b s (w @ 32 # r)" "word_ok w"
  shows "\<exists>q e t. gettoken b s = (97, q, e, t) \<and> s < t \<and> before b t r \<and> part b (q, e) = w"
proof -
  have "skips (drop s b) = w @ 32 # r" "s \<le> length b" using assms skips_word[OF assms(2)] by (simp_all add: before_def)
  from gettoken_word[OF this(2,1) assms(2)] show ?thesis by (auto simp: before_def)
qed

text \<open>An outcome that reads a command \<open>c\<close> from the text before \<open>rest\<close>.\<close>

definition reads :: "byte list \<Rightarrow> nat \<Rightarrow> byte list \<Rightarrow> scmd \<Rightarrow> (cmd, nat) outcome \<Rightarrow> bool" where
  "reads b s rest c out \<longleftrightarrow> (\<exists>d t. out = Ok d t \<and> s \<le> t \<and> before b t rest \<and> view (part b) d = c)"

lemma reads_mono: "reads b t rest c out \<Longrightarrow> s \<le> t \<Longrightarrow> reads b s rest c out"
  by (auto simp: reads_def)

lemma before_length: "before b s r \<Longrightarrow> s \<le> length b"
  by (simp add: before_def)

lemma parseredirs_text:
  assumes "before b s (rtext rs @ rest)" "nxt rest \<notin> {60, 62}" "redirs_ok rs" "length b - s < k"
  shows "reads b s rest (wrap rs (view (part b) c)) (parseredirs k b c s)"
  using assms
proof (induction rs arbitrary: s k c)
  case Nil
  then obtain t where "peek b [60, 62] s = (False, t)" "s \<le> t" "before b t rest" using before_peek[of b s rest "[60, 62]"] by (auto simp: rtext_def)
  then show ?case using Nil(4) by (cases k) (auto simp: reads_def wrap_def)
next
  case (Cons r rs)
  obtain f m d where r: "r = (f, m, d)" by (cases r)
  let ?c = "if d = 0 then 60 else 62 :: byte" and ?more = "f @ 32 # rtext rs @ rest"
  have f: "word_ok f" "redir_ok m d" "redirs_ok rs" using Cons.prems(3) by (auto simp: r)
  have b0: "before b s (?c # ?more)" using Cons.prems(1) by (simp add: rtext_def r show_redir_def)
  obtain s1 where p: "peek b [60, 62] s = (True, s1)" "s \<le> s1" "before b s1 (?c # ?more)"
    using before_peek[OF b0, of "[60, 62]"] by (cases "d = 0") auto
  have "hd ?more \<noteq> 62" using f(1) word_at_symbols(1) by (cases f) (auto simp: word_ok_def)
  then have "?c \<in> set [124, 40, 41, 59, 38, 60] \<or> ?c = 62 \<and> (?more = [] \<or> hd ?more \<noteq> 62)" by simp
  then obtain q1 e1 s2 where g1: "gettoken b s1 = (?c, q1, e1, s2)" "s1 < s2" "before b s2 ?more"
    using before_sym[OF p(3)] by blast
  obtain q e s3 where g2: "gettoken b s2 = (97, q, e, s3)" "s2 < s3" "before b s3 (rtext rs @ rest)" "part b (q, e) = f"
    using before_word[OF g1(3) f(1)] by auto
  obtain k' where k: "k = Suc k'" "length b - s3 < k'" using Cons.prems(4) p(2) g1(2) g2(2) before_length[OF g2(3)] by (cases k) auto
  have "reads b s3 rest (wrap rs (view (part b) (REDIR c q e m d))) (parseredirs k' b (REDIR c q e m d) s3)"
    by (rule Cons.IH[OF g2(3) Cons.prems(2) f(3) k(2)])
  then have "reads b s rest (wrap rs (view (part b) (REDIR c q e m d))) (parseredirs k' b (REDIR c q e m d) s3)"
    by (rule reads_mono) (use p(2) g1(2) g2(2) in simp)
  moreover have "parseredirs k b c s = parseredirs k' b (REDIR c q e m d) s3"
    using f(2) g1(1) g2(1) by (auto simp: k(1) p(1) redir_ok_def)
  ultimately show ?case by (simp add: r wrap_def g2(4))
qed

abbreviation (input) stopE :: "byte set" where "stopE \<equiv> {0, 124, 41, 38, 59}"

lemma parseargs_stop:
  assumes "before b s rest" "nxt rest \<in> stopE"
  shows "reads b s rest (view (part b) c) (parseargs (Suc k) b n c s)"
proof -
  obtain t where p: "peek b [124, 41, 38, 59] s = (nxt rest \<noteq> 0, t)" "s \<le> t" "before b t rest"
    using before_peek[OF assms(1), of "[124, 41, 38, 59]"] assms(2) by auto
  show ?thesis
  proof (cases "nxt rest = 0")
    case True
    obtain tok q e u where g: "gettoken b t = (tok, q, e, u)" by (cases "gettoken b t") auto
    have "at b (skipws b t) = 0" using at_nxt[of t b] p(3) True by (simp add: before_def nxt_def)
    then have "tok = 0" "u = skipws b (skipws b t)" using g by (auto simp: gettoken_def Let_def)
    moreover have "before b (skipws b (skipws b t)) rest"
      using p(3) drop_skipws skipws_props(2) by (simp add: before_def)
    moreover have "s \<le> skipws b (skipws b t)" using p(2) skipws_props(1) by (meson order_trans)
    ultimately show ?thesis using True p g by (auto simp: reads_def)
  next
    case False
    then show ?thesis using p by (auto simp: reads_def)
  qed
qed

lemma parseargs_text:
  assumes "before b s (wtext ws @ rtext rs @ rest)" "nxt rest \<in> stopE" "redirs_ok rs" "list_all word_ok ws" "length b - s < k"
    "length av = length ev" "length av + length ws < MAXARGS" "ws = [] \<longrightarrow> rs = []"
  shows "reads b s rest (wrap rs (SExec (map (part b) (zip av ev) @ ws))) (parseargs k b (length av) (EXEC av ev) s)"
  using assms
proof (induction ws arbitrary: s k av ev)
  case Nil
  then show ?case using parseargs_stop[of b s rest "EXEC av ev" "k - 1"] by (cases k) (auto simp: wrap_def rtext_def)
next
  case (Cons w ws)
  have w: "word_ok w" "list_all word_ok ws" using Cons.prems(4) by simp_all
  have b0: "before b s (w @ 32 # wtext ws @ rtext rs @ rest)" using Cons.prems(1) by simp
  obtain s1 where p: "peek b [124, 41, 38, 59] s = (False, s1)" "s \<le> s1" "before b s1 (w @ 32 # wtext ws @ rtext rs @ rest)"
    using before_peek[OF b0, of "[124, 41, 38, 59]"] nxt_word[OF w(1)] word_at_symbols(1) by fastforce
  obtain q e s2 where g: "gettoken b s1 = (97, q, e, s2)" "s1 < s2" "before b s2 (wtext ws @ rtext rs @ rest)" "part b (q, e) = w"
    using before_word[OF p(3) w(1)] by auto
  obtain k' where k: "k = Suc k'" "length b - s2 < k'" using Cons.prems(5) p(2) g(2) before_length[OF g(3)] by (cases k) auto
  let ?c = "EXEC (av @ [q]) (ev @ [e])"
  have z: "map (part b) (zip (av @ [q]) (ev @ [e])) = map (part b) (zip av ev) @ [w]" using Cons.prems(6) g(4) by simp
  have step: "parseargs k b (length av) (EXEC av ev) s = bnd (parseredirs k' b ?c s2) (\<lambda>ret s. parseargs k' b (length av + 1) ret s)"
    using Cons.prems(7) by (simp add: k(1) p(1) g(1))
  show ?case
  proof (cases "ws = []")
    case True
    have "reads b s2 rest (wrap rs (view (part b) ?c)) (parseredirs k' b ?c s2)"
      by (rule parseredirs_text) (use g(3) True Cons.prems(2,3) k(2) in auto)
    then obtain d u where u: "parseredirs k' b ?c s2 = Ok d u" "s2 \<le> u" "before b u rest" "view (part b) d = wrap rs (view (part b) ?c)"
      by (auto simp: reads_def)
    have "reads b u rest (view (part b) d) (parseargs k' b (length av + 1) d u)"
      using parseargs_stop[OF u(3) Cons.prems(2), of d "k' - 1"] k(2) by (cases k') auto
    then show ?thesis using u step z True p(2) g(2) by (auto intro!: reads_mono[of b u _ _ _ s])
  next
    case False
    then have nx: "nxt (wtext ws @ rtext rs @ rest) \<notin> {60, 62}"
      using w(2) nxt_word word_at_symbols(1) by (cases ws) fastforce+
    have "reads b s2 (wtext ws @ rtext rs @ rest) (view (part b) ?c) (parseredirs k' b ?c s2)"
      using parseredirs_text[of b s2 "[]", OF _ nx _ k(2), of ?c] g(3) by (simp add: rtext_def wrap_def)
    moreover have "parseredirs k' b ?c s2 = Ok ?c (skipws b s2)"
    proof -
      have "peek b [60, 62] s2 = (False, skipws b s2)"
        using peek_nxt[OF before_length[OF g(3)], of "[60, 62]"] nx g(3) by (simp add: before_def nxt_def)
      then show ?thesis using k(2) by (cases k') auto
    qed
    ultimately have u: "s2 \<le> skipws b s2" "before b (skipws b s2) (wtext ws @ rtext rs @ rest)" by (auto simp: reads_def)
    have "reads b (skipws b s2) rest (wrap rs (SExec (map (part b) (zip (av @ [q]) (ev @ [e])) @ ws))) (parseargs k' b (length (av @ [q])) ?c (skipws b s2))"
      by (rule Cons.IH[OF u(2) Cons.prems(2,3) w(2)]) (use k(2) u(1) Cons.prems(6,7) False in auto)
    then show ?thesis using step \<open>parseredirs k' b ?c s2 = Ok ?c (skipws b s2)\<close> z p(2) g(2) u(1)
      by (auto intro!: reads_mono[of b "skipws b s2" _ _ _ s])
  qed
qed

lemma nxt_exec:
  assumes "list_all word_ok ws" "nxt rest \<in> stopE"
  shows "nxt (wtext ws @ rtext rs @ rest) \<noteq> 40" "ws \<noteq> [] \<Longrightarrow> nxt (wtext ws @ rtext rs @ rest) \<notin> {60, 62}"
proof -
  have "nxt (wtext ws @ rtext rs @ rest) \<noteq> 40 \<and> (ws \<noteq> [] \<longrightarrow> nxt (wtext ws @ rtext rs @ rest) \<notin> {60, 62})"
  proof (cases ws)
    case Nil
    then show ?thesis using assms(2) by (cases rs) (auto simp: rtext_def show_redir_def nxt_Cons split: if_splits)
  next
    case (Cons w ws')
    have "wordchar (nxt (w @ 32 # wtext ws' @ rtext rs @ rest))" using nxt_word assms(1) Cons by simp
    from word_at_symbols(1)[OF this] show ?thesis by (simp add: Cons)
  qed
  then show "nxt (wtext ws @ rtext rs @ rest) \<noteq> 40" "ws \<noteq> [] \<Longrightarrow> nxt (wtext ws @ rtext rs @ rest) \<notin> {60, 62}" by blast+
qed

lemma exec_text:
  assumes "before b s (wtext ws @ rtext rs @ rest)" "nxt rest \<in> stopE" "redirs_ok rs" "list_all word_ok ws" "length b - s + 2 \<le> k" "length ws < MAXARGS"
  shows "reads b s rest (wrap rs (SExec ws)) (parseexec k b s)"
proof -
  note nx = nxt_exec[OF assms(4,2), of rs]
  obtain s1 where p: "peek b [40] s = (False, s1)" "s \<le> s1" "before b s1 (wtext ws @ rtext rs @ rest)"
    using before_peek[OF assms(1), of "[40]"] nx(1) by auto
  obtain k' where k: "k = Suc k'" "length b - s1 < k'" using assms(5) p(2) by (cases k) auto
  have step: "parseexec k b s = bnd (parseredirs k' b (EXEC [] []) s1) (\<lambda>ret s. parseargs k' b 0 ret s)" by (simp add: k(1) p(1))
  show ?thesis
  proof (cases "ws = []")
    case True
    have "reads b s1 rest (wrap rs (view (part b) (EXEC [] []))) (parseredirs k' b (EXEC [] []) s1)"
      by (rule parseredirs_text) (use p(3) True assms(2,3) k(2) in auto)
    then obtain d u where u: "parseredirs k' b (EXEC [] []) s1 = Ok d u" "s1 \<le> u" "before b u rest" "view (part b) d = wrap rs (SExec [])"
      by (auto simp: reads_def)
    have "reads b u rest (view (part b) d) (parseargs k' b 0 d u)"
      using parseargs_stop[OF u(3) assms(2), of d "k' - 1" 0] k(2) by (cases k') auto
    then show ?thesis using u step True p(2) by (auto intro!: reads_mono[of b u _ _ _ s])
  next
    case False
    have pr: "parseredirs k' b (EXEC [] []) s1 = Ok (EXEC [] []) (skipws b s1)"
    proof -
      have "peek b [60, 62] s1 = (False, skipws b s1)"
        using peek_nxt[OF before_length[OF p(3)], of "[60, 62]"] nx(2)[OF False] p(3) by (simp add: before_def nxt_def)
      then show ?thesis using k(2) by (cases k') auto
    qed
    have u: "s1 \<le> skipws b s1" "before b (skipws b s1) (wtext ws @ rtext rs @ rest)"
      using p(3) skipws_props(1,2)[of s1 b] drop_skipws[of s1 b] by (auto simp: before_def)
    have "reads b (skipws b s1) rest (wrap rs (SExec (map (part b) (zip [] []) @ ws))) (parseargs k' b (length ([] :: nat list)) (EXEC [] []) (skipws b s1))"
      by (rule parseargs_text[OF u(2) assms(2-4)]) (use k(2) u(1) assms(6) False in auto)
    then show ?thesis using step pr p(2) u(1) by (auto intro!: reads_mono[of b "skipws b s1" _ _ _ s])
  qed
qed

text \<open>What it means for a parse function to read the commands of a level.\<close>

definition parses :: "(nat \<Rightarrow> byte list \<Rightarrow> nat \<Rightarrow> (cmd, nat) outcome) \<Rightarrow> nat \<Rightarrow> nat \<Rightarrow> byte set \<Rightarrow> byte list \<Rightarrow> scmd \<Rightarrow> bool" where
  "parses f j lv stop b c \<longleftrightarrow> (\<forall>k s rest. before b s (unparse c lv @ rest) \<and> nxt rest \<in> stop \<and> 4 * (length b - s) + j \<le> k \<longrightarrow> reads b s rest c (f k b s))"

lemma parsesI:
  assumes "\<And>k s rest. before b s (unparse c lv @ rest) \<Longrightarrow> nxt rest \<in> stop \<Longrightarrow> 4 * (length b - s) + j \<le> k \<Longrightarrow> reads b s rest c (f k b s)"
  shows "parses f j lv stop b c"
  using assms by (simp add: parses_def)

lemma parsesD:
  assumes "parses f j lv stop b c" "before b s (unparse c lv @ rest)" "nxt rest \<in> stop" "4 * (length b - s) + j \<le> k"
  obtains d t where "f k b s = Ok d t" "s \<le> t" "before b t rest" "view (part b) d = c"
proof -
  have "reads b s rest c (f k b s)" using assms unfolding parses_def by blast
  then show thesis using that unfolding reads_def by blast
qed

definition readback :: "nat \<Rightarrow> byte list \<Rightarrow> nat \<Rightarrow> (cmd, nat) outcome" where
  "readback k b s = bnd (parsepipe k b s) (parseback k b)"

abbreviation "readsE \<equiv> parses parseexec 2 3 {0, 124, 41, 38, 59}"
abbreviation "readsP \<equiv> parses parsepipe 3 2 {0, 41, 38, 59}"
abbreviation "readsB \<equiv> parses readback 3 1 {0, 41, 59}"
abbreviation "readsL \<equiv> parses parseline 4 0 {0, 41}"

lemma readsP_E:
  assumes e: "readsE b c" and u: "unparse c 2 = unparse c 3"
  shows "readsP b c"
proof (rule parsesI)
  fix k s rest assume a: "before b s (unparse c 2 @ rest)" "nxt rest \<in> {0, 41, 38, 59}" "4 * (length b - s) + 3 \<le> k"
  obtain k' where k: "k = Suc k'" using a(3) by (cases k) auto
  obtain d t where d: "parseexec k' b s = Ok d t" "s \<le> t" "before b t rest" "view (part b) d = c"
    by (rule parsesD[OF e, of s rest k']) (use a k u in auto)
  obtain v where "peek b [124] t = (False, v)" "t \<le> v" "before b v rest" using before_peek[OF d(3), of "[124]"] a(2) by auto
  then show "reads b s rest c (parsepipe k b s)" using d by (auto simp: k reads_def)
qed

lemma readsP_pipe:
  assumes l: "readsE b l" and r: "readsP b r"
  shows "readsP b (SPipe l r)"
proof (rule parsesI)
  fix k s rest assume a: "before b s (unparse (SPipe l r) 2 @ rest)" "nxt rest \<in> {0, 41, 38, 59}" "4 * (length b - s) + 3 \<le> k"
  obtain k' where k: "k = Suc k'" using a(3) by (cases k) auto
  obtain d t where d: "parseexec k' b s = Ok d t" "s \<le> t" "before b t (124 # unparse r 2 @ rest)" "view (part b) d = l"
    by (rule parsesD[OF l, of s "124 # unparse r 2 @ rest" k']) (use a k in \<open>auto simp: paren_def\<close>)
  obtain v where v: "peek b [124] t = (True, v)" "t \<le> v" "before b v (124 # unparse r 2 @ rest)" using before_peek[OF d(3), of "[124]"] by auto
  obtain q e w where w: "gettoken b v = (124, q, e, w)" "v < w" "before b w (unparse r 2 @ rest)" using before_sym[OF v(3)] by auto
  have lt: "s < w" "w \<le> length b" using d(2) v(2) w(2) before_length[OF w(3)] by simp_all
  obtain d2 t2 where "parsepipe k' b w = Ok d2 t2" "w \<le> t2" "before b t2 rest" "view (part b) d2 = r"
    by (rule parsesD[OF r w(3) a(2), of k']) (use a(3) k lt in auto)
  then show "reads b s rest (SPipe l r) (parsepipe k b s)" using d v w lt by (auto simp: k reads_def)
qed

lemma parseback_text:
  assumes "before b s (replicate n 38 @ rest)" "nxt rest \<noteq> 38" "length b - s < k"
  shows "reads b s rest ((SBack ^^ n) (view (part b) c)) (parseback k b c s)"
  using assms
proof (induction n arbitrary: s k c)
  case 0
  then obtain t where "peek b [38] s = (False, t)" "s \<le> t" "before b t rest" using before_peek[of b s rest "[38]"] by auto
  then show ?case using 0(3) by (cases k) (auto simp: reads_def)
next
  case (Suc n)
  obtain v where v: "peek b [38] s = (True, v)" "s \<le> v" "before b v (38 # replicate n 38 @ rest)"
    using before_peek[OF Suc.prems(1), of "[38]"] by auto
  obtain q e w where w: "gettoken b v = (38, q, e, w)" "v < w" "before b w (replicate n 38 @ rest)" using before_sym[OF v(3)] by auto
  obtain k' where k: "k = Suc k'" "length b - w < k'" using Suc.prems(3) v(2) w(2) before_length[OF w(3)] by (cases k) auto
  have "reads b w rest ((SBack ^^ n) (view (part b) (BACK c))) (parseback k' b (BACK c) w)" by (rule Suc.IH[OF w(3) Suc.prems(2) k(2)])
  then have "reads b s rest ((SBack ^^ n) (view (part b) (BACK c))) (parseback k' b (BACK c) w)" by (rule reads_mono) (use v w in simp)
  then show ?case by (simp add: k(1) v(1) w(1) funpow_swap1)
qed

lemma unparse_back: "unparse ((SBack ^^ n) c) 1 = unparse c 1 @ replicate n 38"
  by (induction n) (simp_all add: paren_def replicate_append_same)

lemma readsB_P:
  assumes p: "readsP b c" and u: "unparse c 1 = unparse c 2"
  shows "readsB b ((SBack ^^ n) c)"
proof (rule parsesI)
  fix k s rest assume a: "before b s (unparse ((SBack ^^ n) c) 1 @ rest)" "nxt rest \<in> {0, 41, 59}" "4 * (length b - s) + 3 \<le> k"
  have nx: "nxt (replicate n 38 @ rest) \<in> {0, 41, 38, 59}" using a(2) by (cases n) auto
  have "before b s (unparse c 2 @ replicate n 38 @ rest)" using a(1) unfolding unparse_back u by simp
  then obtain d t where d: "parsepipe k b s = Ok d t" "s \<le> t" "before b t (replicate n 38 @ rest)" "view (part b) d = c"
    by (rule parsesD[OF p _ nx a(3)])
  have "reads b t rest ((SBack ^^ n) (view (part b) d)) (parseback k b d t)"
    by (rule parseback_text[OF d(3)]) (use a d before_length[OF d(3)] in auto)
  then show "reads b s rest ((SBack ^^ n) c) (readback k b s)" using d by (auto simp: readback_def intro: reads_mono)
qed

lemma parseline_back:
  "parseline (Suc k) b s = bnd (readback k b s) (\<lambda>cmd s.
       let (found, s) = peek b [59] s in
       if found then let (_, _, _, s) = gettoken b s in
         bnd (parseline k b s) (\<lambda>right s. Ok (LIST cmd right) s)
       else Ok cmd s)"
  by (simp add: readback_def bnd_assoc)

lemma readsL_B:
  assumes e: "readsB b c" and u: "unparse c 0 = unparse c 1"
  shows "readsL b c"
proof (rule parsesI)
  fix k s rest assume a: "before b s (unparse c 0 @ rest)" "nxt rest \<in> {0, 41}" "4 * (length b - s) + 4 \<le> k"
  obtain k' where k: "k = Suc k'" using a(3) by (cases k) auto
  obtain d t where d: "readback k' b s = Ok d t" "s \<le> t" "before b t rest" "view (part b) d = c"
    by (rule parsesD[OF e, of s rest k']) (use a k u in auto)
  obtain v where "peek b [59] t = (False, v)" "t \<le> v" "before b v rest" using before_peek[OF d(3), of "[59]"] a(2) by auto
  then show "reads b s rest c (parseline k b s)" using d by (auto simp: k parseline_back reads_def simp del: parseline.simps)
qed

lemma readsL_list:
  assumes l: "readsB b l" and r: "readsL b r"
  shows "readsL b (SList l r)"
proof (rule parsesI)
  fix k s rest assume a: "before b s (unparse (SList l r) 0 @ rest)" "nxt rest \<in> {0, 41}" "4 * (length b - s) + 4 \<le> k"
  obtain k' where k: "k = Suc k'" using a(3) by (cases k) auto
  obtain d t where d: "readback k' b s = Ok d t" "s \<le> t" "before b t (59 # unparse r 0 @ rest)" "view (part b) d = l"
    by (rule parsesD[OF l, of s "59 # unparse r 0 @ rest" k']) (use a k in \<open>auto simp: paren_def\<close>)
  obtain v where v: "peek b [59] t = (True, v)" "t \<le> v" "before b v (59 # unparse r 0 @ rest)" using before_peek[OF d(3), of "[59]"] by auto
  obtain q e w where w: "gettoken b v = (59, q, e, w)" "v < w" "before b w (unparse r 0 @ rest)" using before_sym[OF v(3)] by auto
  have lt: "s < w" "w \<le> length b" using d(2) v(2) w(2) before_length[OF w(3)] by simp_all
  obtain d2 t2 where "parseline k' b w = Ok d2 t2" "w \<le> t2" "before b t2 rest" "view (part b) d2 = r"
    by (rule parsesD[OF r w(3) a(2), of k']) (use a(3) k lt in auto)
  then show "reads b s rest (SList l r) (parseline k b s)" using d v w lt by (auto simp: k parseline_back reads_def simp del: parseline.simps)
qed

lemma readsE_paren:
  assumes l: "readsL b c" and u: "unparse c 3 = [40] @ unparse c 0 @ [41]" and rs: "redirs_ok rs"
  shows "readsE b (wrap rs c)"
proof (rule parsesI)
  have uw: "unparse (wrap rs c) 3 = unparse c 3 @ rtext rs"
    by (induction rs rule: rev_induct) (auto simp: wrap_def rtext_def)
  fix k s rest assume a: "before b s (unparse (wrap rs c) 3 @ rest)" "nxt rest \<in> stopE" "4 * (length b - s) + 2 \<le> k"
  let ?r = "41 # rtext rs @ rest"
  have b0: "before b s (40 # unparse c 0 @ ?r)" using a(1) by (simp add: uw u)
  obtain v where v: "peek b [40] s = (True, v)" "s \<le> v" "before b v (40 # unparse c 0 @ ?r)" using before_peek[OF b0, of "[40]"] by auto
  obtain w where w: "peek b [40] v = (True, w)" "v \<le> w" "before b w (40 # unparse c 0 @ ?r)" using before_peek[OF v(3), of "[40]"] by auto
  obtain q e x where x: "gettoken b w = (40, q, e, x)" "w < x" "before b x (unparse c 0 @ ?r)" using before_sym[OF w(3)] by auto
  have lt: "s < x" "x \<le> length b" using v(2) w(2) x(2) before_length[OF x(3)] by simp_all
  obtain k' where k: "k = Suc (Suc k')" "4 * (length b - x) + 4 \<le> k'" using a(3) lt by (cases k; cases "k - 1") auto
  obtain d t where d: "parseline k' b x = Ok d t" "x \<le> t" "before b t ?r" "view (part b) d = c" by (rule parsesD[OF l x(3) _ k(2)]) auto
  obtain y where y: "peek b [41] t = (True, y)" "t \<le> y" "before b y ?r" using before_peek[OF d(3), of "[41]"] by auto
  obtain q2 e2 z where z: "gettoken b y = (41, q2, e2, z)" "y < z" "before b z (rtext rs @ rest)" using before_sym[OF y(3)] by auto
  have "reads b z rest (wrap rs (view (part b) d)) (parseredirs k' b d z)"
    by (rule parseredirs_text[OF z(3) _ rs]) (use a(2) k(2) d(2) y(2) z(2) in auto)
  then have "reads b s rest (wrap rs c) (parseredirs k' b d z)" unfolding d(4)[symmetric] by (rule reads_mono) (use lt d(2) y(2) z(2) in simp)
  then show "reads b s rest (wrap rs c) (parseexec k b s)" using d(1) by (simp add: k(1) v(1) w(1) x(1) y(1) z(1))
qed

lemma wrap_simps: "wrap [] c = c" "wrap (rs @ [(f, m, d)]) c = SRedir (wrap rs c) f m d"
  by (simp_all add: wrap_def)

lemma unwrap:
  "wf_cmd c \<Longrightarrow> \<exists>rs a. c = wrap rs a \<and> redirs_ok rs \<and> wf_cmd a \<and> (\<forall>x f m d. a \<noteq> SRedir x f m d) \<and> (a = c \<or> size a < size c)"
proof (induction c)
  case (SRedir c f m d)
  then obtain rs a where a: "c = wrap rs a" "redirs_ok rs" "wf_cmd a" "\<forall>x f m d. a \<noteq> SRedir x f m d" "a = c \<or> size a < size c" by auto
  then have "SRedir c f m d = wrap (rs @ [(f, m, d)]) a" "redirs_ok (rs @ [(f, m, d)])" "size a < size (SRedir c f m d)"
    using SRedir.prems by (auto simp: wrap_simps)
  then show ?case using a(3,4) by blast
qed (metis wrap_simps(1) empty_iff list.set(1) scmd.distinct)+

lemma unback: "\<exists>n a. c = (SBack ^^ n) a \<and> (\<forall>x. a \<noteq> SBack x) \<and> (wf_cmd c \<longrightarrow> wf_cmd a) \<and> (a = c \<or> size a < size c)"
proof (induction c)
  case (SBack c)
  then obtain n a where a: "c = (SBack ^^ n) a" "\<forall>x. a \<noteq> SBack x" "wf_cmd c \<longrightarrow> wf_cmd a" "a = c \<or> size a < size c" by auto
  then have "SBack c = (SBack ^^ Suc n) a" "size a < size (SBack c)" by auto
  then show ?case using a by (metis wf_cmd.simps(5))
qed (metis funpow_0 scmd.distinct)+

lemma all_levels: "wf_cmd c \<Longrightarrow> readsE b c \<and> readsP b c \<and> readsB b c \<and> readsL b c"
proof (induction c rule: measure_induct_rule[of size])
  case (less c)
  have lift: "readsP b c \<and> readsB b c \<and> readsL b c" if "readsE b c" "\<And>lv. unparse c lv = unparse c 3"
  proof -
    have p: "readsP b c" by (rule readsP_E[OF that(1) that(2)])
    have u: "unparse c 1 = unparse c 2" "unparse c 0 = unparse c 1" by (simp_all only: that(2)[of 0] that(2)[of 1] that(2)[of 2])
    have q: "readsB b c" using readsB_P[OF p u(1), of 0] by (simp only: funpow_0)
    show ?thesis using p q readsL_B[OF q u(2)] by blast
  qed
  show ?case
  proof (cases c)
    case (SExec ws)
    have "readsE b c"
    proof (rule parsesI)
      fix k s rest assume "before b s (unparse c 3 @ rest)" "nxt rest \<in> stopE" "4 * (length b - s) + 2 \<le> k"
      then show "reads b s rest c (parseexec k b s)" using exec_text[of b s ws "[]" rest k] less.prems SExec by (simp add: rtext_def wrap_simps)
    qed
    then show ?thesis using lift by (simp add: SExec)
  next
    case (SRedir d f m e)
    obtain rs a where a: "c = wrap rs a" "redirs_ok rs" "wf_cmd a" "\<forall>x f m d. a \<noteq> SRedir x f m d" "a = c \<or> size a < size c"
      using unwrap[OF less.prems] by blast
    have sa: "size a < size c" using a(4,5) SRedir by auto
    have uw: "unparse (wrap rs a) 3 = unparse a 3 @ rtext rs"
      by (induction rs rule: rev_induct) (auto simp: wrap_def rtext_def)
    have "readsE b c"
    proof (cases "\<exists>ws. a = SExec ws")
      case True
      then obtain ws where ws: "a = SExec ws" by blast
      show ?thesis
      proof (rule parsesI)
        fix k s rest assume "before b s (unparse c 3 @ rest)" "nxt rest \<in> stopE" "4 * (length b - s) + 2 \<le> k"
        then show "reads b s rest c (parseexec k b s)" using exec_text[of b s ws rs rest k] a uw ws by simp
      qed
    next
      case False
      then have "unparse a 3 = [40] @ unparse a 0 @ [41]" using a(4) by (cases a) (auto simp: paren_def)
      then show ?thesis using readsE_paren[OF _ _ a(2)] less.IH[OF sa a(3)] a(1) by blast
    qed
    then show ?thesis using lift by (simp add: SRedir)
  next
    case (SPipe l r)
    have "readsP b c" using readsP_pipe less SPipe by simp
    moreover then have "readsB b c" using readsB_P[of b c 0] by (simp add: SPipe paren_def)
    moreover then have "readsL b c" by (rule readsL_B) (simp add: SPipe paren_def)
    moreover then have "readsE b c" using readsE_paren[of b c "[]"] by (simp add: SPipe paren_def wrap_simps)
    ultimately show ?thesis by blast
  next
    case (SList l r)
    have "readsL b c" using readsL_list less SList by simp
    moreover then have "readsE b c" using readsE_paren[of b c "[]"] by (simp add: SList paren_def wrap_simps)
    moreover then have "readsP b c" by (rule readsP_E) (simp add: SList paren_def)
    moreover then have "readsB b c" using readsB_P[of b c 0] by (simp add: SList paren_def)
    ultimately show ?thesis by blast
  next
    case (SBack d)
    obtain n a where a: "c = (SBack ^^ n) a" "\<forall>x. a \<noteq> SBack x" "wf_cmd c \<longrightarrow> wf_cmd a" "a = c \<or> size a < size c"
      using unback[of c] by blast
    have sa: "size a < size c" "wf_cmd a" using a(2-4) SBack less.prems by auto
    have "unparse a 1 = unparse a 2" using a(2) by (cases a) (simp_all add: paren_def)
    then have "readsB b c" using readsB_P[of b a n] less.IH[OF sa] a(1) by blast
    moreover then have "readsL b c" by (rule readsL_B) (simp add: SBack paren_def)
    moreover then have "readsE b c" using readsE_paren[of b c "[]"] by (simp add: SBack paren_def wrap_simps)
    moreover then have "readsP b c" by (rule readsP_E) (simp add: SBack paren_def)
    ultimately show ?thesis by blast
  qed
qed

lemma unparse_nonzero: "wf_cmd c \<Longrightarrow> 0 \<notin> set (unparse c lv)"
  by (induction c arbitrary: lv) (auto simp: paren_def show_redir_def word_ok_def list_all_iff)

text \<open>(C30) The parser inverts the grammar: a command, printed with parentheses where the precedences of \<open>;\<close>, \<open>&\<close>, \<open>|\<close> and the redirections ask for them,
  is parsed back to the same command, whatever its nesting; the strings that \<open>runcmd\<close> will find in the buffer are the words that were printed.\<close>

theorem parse_unparse:
  assumes "wf_cmd c"
  shows "\<exists>cmd buf s. parsecmd (unparse c 0) = Ok (cmd, buf) s \<and> view (\<lambda>(q, e). cstr buf q) cmd = c"
proof -
  let ?b = "unparse c 0"
  have "readsL ?b c" using all_levels[OF assms] by blast
  moreover have "before ?b 0 (unparse c 0 @ [])" by (simp add: before_def)
  moreover have "nxt [] \<in> {0, 41}" by (simp add: nxt_def)
  ultimately obtain d t where d: "parseline (4 * length ?b + 4) ?b 0 = Ok d t" "before ?b t []" "view (part ?b) d = c"
    by (rule parsesD) auto
  have t: "t \<le> length ?b" "drop (skipws ?b t) ?b = []" using d(2) drop_skipws[of t ?b] by (auto simp: before_def)
  have sk: "skipws ?b t = length ?b" using t skipws_props(2)[OF t(1)] by simp
  have ok: "cmd_ok ?b d" using parse_ends(1)[of 0 ?b "4 * length ?b + 4"] d(1) by simp
  have "parsecmd ?b = Ok (d, nulterminate d (?b @ [0])) (length ?b)" using d(1) sk by (simp add: parsecmd_def peek_def Let_def)
  moreover have "view (\<lambda>(q, e). cstr (nulterminate d (?b @ [0])) q) d = view (part ?b) d"
    using cstr_word[OF ok _ unparse_nonzero[OF assms]] by (intro view_cong) (auto simp: part_def)
  ultimately show ?thesis using d(3) by auto
qed

text \<open>\<open>(ls -l|wc)>f; a&\<close>\<close>

theorem parse_unparse_witness:
  "\<exists>cmd buf s. parsecmd [40, 108, 115, 32, 45, 108, 32, 124, 119, 99, 32, 41, 62, 102, 32, 59, 97, 32, 38] = Ok (cmd, buf) s
     \<and> view (\<lambda>(q, e). cstr buf q) cmd = SList (SRedir (SPipe (SExec [[108, 115], [45, 108]]) (SExec [[119, 99]])) [102] O_WRONLY_CREATE 1) (SBack (SExec [[97]]))"
proof -
  let ?c = "SList (SRedir (SPipe (SExec [[108, 115], [45, 108]]) (SExec [[119, 99]])) [102] O_WRONLY_CREATE 1) (SBack (SExec [[97]]))"
  have "wf_cmd ?c" by (simp add: word_ok_def redir_ok_def wordchar_def whitespace_def symbols_def)
  moreover have "unparse ?c 0 = [40, 108, 115, 32, 45, 108, 32, 124, 119, 99, 32, 41, 62, 102, 32, 59, 97, 32, 38]"
    by (simp add: paren_def show_redir_def)
  ultimately show ?thesis using parse_unparse[of ?c] by simp
qed

section \<open>Running commands\<close>

text \<open>What a process of the shell does until it exits: the system calls it makes, with what it does for each result that
  the code looks at.  \<open>exec\<close> continues only if it fails; \<open>fork\<close> returns twice, or \<open>-1\<close>.\<close>

datatype prog =
    Exit
  | Close nat prog
  | Dup nat prog
  | Open "byte list" nat "int \<Rightarrow> prog"
  | Exec "byte list" "byte list list" prog
  | Pipe "int \<Rightarrow> nat \<Rightarrow> nat \<Rightarrow> prog"   \<comment> \<open>the result, p[0] and p[1]\<close>
  | Fork "int \<Rightarrow> prog"
  | Wait prog
  | Print "byte list" prog

definition panic :: "string \<Rightarrow> prog" where
  "panic s = Print (bytes_of s @ [10]) Exit"

definition fork1 :: "(int \<Rightarrow> prog) \<Rightarrow> prog" where
  "fork1 k = Fork (\<lambda>pid. if pid = -1 then panic ''fork'' else k pid)"

primrec runcmd :: "scmd \<Rightarrow> prog" where
  "runcmd (SExec argv) =
     (if argv = [] then Exit
      else Exec (hd argv) argv (Print (bytes_of ''exec '' @ hd argv @ bytes_of '' failed'' @ [10]) Exit))"
| "runcmd (SRedir c file mode fd) =
     Close fd (Open file mode (\<lambda>r.
       if r < 0 then Print (bytes_of ''open '' @ file @ bytes_of '' failed'' @ [10]) Exit
       else runcmd c))"
| "runcmd (SList l r) = fork1 (\<lambda>pid. if pid = 0 then runcmd l else Wait (runcmd r))"
| "runcmd (SPipe l r) =
     Pipe (\<lambda>res p0 p1.
       if res < 0 then panic ''pipe''
       else fork1 (\<lambda>pid.
         if pid = 0 then Close 1 (Dup p1 (Close p0 (Close p1 (runcmd l))))
         else fork1 (\<lambda>pid.
           if pid = 0 then Close 0 (Dup p0 (Close p0 (Close p1 (runcmd r))))
           else Close p0 (Close p1 (Wait (Wait Exit))))))"
| "runcmd (SBack c) = fork1 (\<lambda>pid. if pid = 0 then runcmd c else Exit)"

section \<open>Reading commands\<close>

text \<open>\<open>gets\<close> of \<open>ulib.c\<close>: it stores at most \<open>max - 1\<close> bytes of the input and stops after a newline or a carriage return.\<close>

fun gets_loop :: "nat \<Rightarrow> byte list \<Rightarrow> byte list \<times> byte list" where
  "gets_loop 0 inp = ([], inp)"
| "gets_loop (Suc k) [] = ([], [])"
| "gets_loop (Suc k) (c # inp) =
     (if c = 10 \<or> c = 13 then ([c], inp) else apfst (Cons c) (gets_loop k inp))"

definition gets :: "nat \<Rightarrow> byte list \<Rightarrow> byte list \<times> byte list" where
  "gets maxn inp = gets_loop (maxn - 1) inp"

text \<open>The command in the zeroed buffer is what \<open>gets\<close> stored up to the first NUL; an empty one is the end of the input.\<close>

definition getcmd :: "nat \<Rightarrow> byte list \<Rightarrow> (byte list \<times> byte list) option" where
  "getcmd nbuf inp =
     (let (line, rest) = gets nbuf inp; buf = takeWhile (\<lambda>c. c \<noteq> 0) line
      in if buf = [] then None else Some (buf, rest))"

datatype action = Chdir "byte list" | Run "(cmd \<times> byte list, nat) outcome"

definition shell_action :: "byte list \<Rightarrow> action" where
  "shell_action buf =
     (if take 3 buf = [99, 100, 32] then Chdir (drop 3 (butlast buf)) else Run (parsecmd buf))"

lemma getcmd_shorter: "getcmd n inp = Some (buf, rest) \<Longrightarrow> length rest < length inp"
proof -
  have "length (fst (gets_loop k inp)) + length (snd (gets_loop k inp)) = length inp" for k
    by (induction k inp rule: gets_loop.induct) auto
  note l = this[of "n - 1"]
  assume "getcmd n inp = Some (buf, rest)"
  then obtain ln where ln: "gets_loop (n - 1) inp = (ln, rest)" "takeWhile (\<lambda>c. c \<noteq> 0) ln \<noteq> []"
    by (cases "gets_loop (n - 1) inp") (auto simp: getcmd_def gets_def Let_def split: if_splits)
  then show "length rest < length inp" using l by (cases ln) auto
qed

function main_loop :: "byte list \<Rightarrow> action list" where
  "main_loop inp = (case getcmd 100 inp of None \<Rightarrow> [] | Some (buf, rest) \<Rightarrow> shell_action buf # main_loop rest)"
  by pat_completeness auto
termination by (relation "measure length") (auto dest: getcmd_shorter)

declare main_loop.simps [simp del]

section \<open>The descriptors of a command\<close>

text \<open>What a descriptor refers to; a table has one entry per descriptor, and \<open>open\<close>, \<open>dup\<close> and \<open>pipe\<close> take the lowest free
  one, as \<open>fdalloc\<close> of the kernel does.\<close>

datatype obj = Console | FileObj "byte list" nat | PipeR nat | PipeW nat

type_synonym fdtab = "obj option list"

definition fd_put :: "obj \<Rightarrow> fdtab \<Rightarrow> int \<times> fdtab" where
  "fd_put x fds = (case first_idx (\<lambda>f. f = None) fds of None \<Rightarrow> (-1, fds) | Some i \<Rightarrow> (int i, fds[i := Some x]))"

datatype event = Execs fdtab "byte list" "byte list list" | Waits fdtab

text \<open>The events of a process and its children when \<open>fork\<close>, \<open>exec\<close> and \<open>open\<close> succeed, the children's first; \<open>n\<close> numbers the pipes.\<close>

primrec events :: "prog \<Rightarrow> nat \<Rightarrow> fdtab \<Rightarrow> nat \<times> event list" where
  "events Exit n fds = (n, [])"
| "events (Close fd p) n fds = events p n (fds[fd := None])"
| "events (Dup fd p) n fds =
     (case (if fd < length fds then fds ! fd else None) of
        None \<Rightarrow> events p n fds
      | Some x \<Rightarrow> events p n (snd (fd_put x fds)))"
| "events (Open f m k) n fds = (let (r, fds) = fd_put (FileObj f m) fds in events (k r) n fds)"
| "events (Exec f args p) n fds = (n, [Execs fds f args])"
| "events (Pipe k) n fds =
     (let (p0, fds0) = fd_put (PipeR n) fds; (p1, fds1) = fd_put (PipeW n) fds0 in
      if p0 < 0 \<or> p1 < 0 then events (k (-1) 0 0) n fds
      else events (k 0 (nat p0) (nat p1)) (n + 1) fds1)"
| "events (Fork k) n fds =
     (let (n, es) = events (k 0) n fds; (n, fs) = events (k 1) n fds in (n, es @ fs))"
| "events (Wait p) n fds = (let (n, es) = events p n fds in (n, Waits fds # es))"
| "events (Print s p) n fds = events p n fds"

lemma filter_update_less: "i < length xs \<Longrightarrow> P (xs ! i) \<Longrightarrow> \<not> P y \<Longrightarrow> length (filter P (xs[i := y])) < length (filter P xs)"
proof (induction xs arbitrary: i)
  case (Cons x xs)
  then show ?case by (cases i) auto
qed simp

text \<open>\<open>main\<close> opens the console until descriptors 0, 1 and 2 are in use.\<close>

function open_console :: "fdtab \<Rightarrow> fdtab" where
  "open_console fds =
     (let (fd, fds') = fd_put Console fds in
      if fd < 0 then fds
      else if fd \<ge> 3 then fds'[nat fd := None]
      else open_console fds')"
  by pat_completeness auto
termination
proof (relation "measure (\<lambda>fds. length (filter (\<lambda>f. f = None) fds))")
  fix fds :: fdtab and x y z assume a: "x = fd_put Console fds" "(y, z) = x" "\<not> y < 0"
  then obtain i where i: "first_idx (\<lambda>f. f = None) fds = Some i" "z = fds[i := Some Console]"
    by (auto simp: fd_put_def split: option.splits)
  then have "i < length fds" "fds ! i = None" by (auto simp: first_idx_Some)
  then show "(z, fds) \<in> measure (\<lambda>fds. length (filter (\<lambda>f. f = None) fds))" using filter_update_less[of i fds "\<lambda>f. f = None"] i(2) by simp
qed simp

declare open_console.simps [simp del]

lemma fd_put_first: "i < length fds \<Longrightarrow> fds ! i = None \<Longrightarrow> \<forall>j < i. fds ! j \<noteq> None \<Longrightarrow> fd_put x fds = (int i, fds[i := Some x])"
proof -
  assume "i < length fds" "fds ! i = None" "\<forall>j < i. fds ! j \<noteq> None"
  then have "first_idx (\<lambda>f. f = None) fds = Some i" by (simp add: first_idx_Some)
  then show ?thesis by (simp add: fd_put_def)
qed

lemma open_console_std:
  assumes "3 < length fds" "i < 3"
  shows "open_console fds ! i \<noteq> None"
  using assms
proof (induction fds rule: open_console.induct)
  case (1 fds)
  show ?case
  proof (cases "first_idx (\<lambda>f. f = None) fds")
    case None
    then have "open_console fds = fds" by (simp add: open_console.simps fd_put_def)
    moreover have "fds ! i \<noteq> None" using None 1(2,3) nth_mem[of i fds] unfolding first_idx_None by force
    ultimately show ?thesis by simp
  next
    case (Some k)
    have k: "fd_put Console fds = (int k, fds[k := Some Console])" by (simp add: fd_put_def Some)
    show ?thesis
    proof (cases "3 \<le> k")
      case True
      then have "\<forall>j < 3. fds ! j \<noteq> None" using Some unfolding first_idx_Some by auto
      then show ?thesis using True 1(3) by (simp add: open_console.simps k)
    next
      case False
      have "open_console (fds[k := Some Console]) ! i \<noteq> None" by (rule 1(1)[OF k[symmetric] refl]) (use 1(2,3) False in auto)
      then show ?thesis using False by (subst open_console.simps) (simp add: k)
    qed
  qed
qed

lemma first_free:
  assumes "i < length fds" "fds ! i = None" "\<forall>j < i. fds ! j \<noteq> None"
  shows "snd (fd_put x fds) = fds[i := Some x]"
  using fd_put_first[OF assms] by simp

text \<open>(C32) The shell wires a pipeline correctly: the left command runs with its standard output replaced by the write end of a new pipe, the
  right one with its standard input replaced by the read end, and neither has any other descriptor of the pipe; the shell itself has
  closed both ends before it waits, so that the reader sees the end of the input when the writer is done.\<close>

theorem pipe_wiring:
  assumes "4 < length fds" "\<forall>i < 3. fds ! i \<noteq> None" "fds ! 3 = None" "fds ! 4 = None"
  shows "events (runcmd (SPipe l r)) n fds =
     (let (n1, es) = events (runcmd l) (n + 1) (fds[1 := Some (PipeW n)]);
          (n2, fs) = events (runcmd r) n1 (fds[0 := Some (PipeR n)])
      in (n2, es @ fs @ [Waits fds, Waits fds]))"
proof -
  have i: "fds ! 0 \<noteq> None" "fds ! 1 \<noteq> None" "fds ! 2 \<noteq> None" using assms(2) by simp_all
  have three: "(\<forall>j < 3. Q j) \<longleftrightarrow> Q 0 \<and> Q 1 \<and> Q 2" "(\<forall>j < 4. Q j) \<longleftrightarrow> Q 0 \<and> Q 1 \<and> Q 2 \<and> Q 3" for Q :: "nat \<Rightarrow> bool"
    by (auto simp: numeral_eq_Suc less_Suc_eq)
  define f where "f = fds[3 := Some (PipeR n), 4 := Some (PipeW n)]"
  have p0: "fd_put (PipeR n) fds = (3, fds[3 := Some (PipeR n)])" using fd_put_first[of 3 fds] assms i by (simp add: three)
  have p1: "fd_put (PipeW n) (fds[3 := Some (PipeR n)]) = (4, f)"
    using fd_put_first[of 4 "fds[3 := Some (PipeR n)]"] assms i by (simp add: three f_def)
  have f: "length f = length fds" "f ! 3 = Some (PipeR n)" "f ! 4 = Some (PipeW n)" "f ! 0 = fds ! 0" using assms by (simp_all add: f_def)
  have l: "snd (fd_put (PipeW n) (f[1 := None])) = f[1 := Some (PipeW n)]"
    using first_free[of 1 "f[1 := None]"] f i assms by simp
  have r: "snd (fd_put (PipeR n) (f[0 := None])) = f[0 := Some (PipeR n)]"
    using first_free[of 0 "f[0 := None]"] f(1) assms(1) by (cases fds) auto
  have c1: "f[i := x, 3 := None, 4 := None] = fds[i := x]" if "i < 3" for i x
  proof (rule nth_equalityI)
    fix j assume "j < length (f[i := x, 3 := None, 4 := None])"
    then show "f[i := x, 3 := None, 4 := None] ! j = fds[i := x] ! j"
      using assms(1,3,4) that by (cases "j = 3"; cases "j = 4"; cases "j = i") (simp_all add: f_def)
  qed (simp add: f_def)
  have "f[0 := fds ! 0] = f" "fds[0 := fds ! 0] = fds" using list_update_id[of f 0] f(4) by simp_all
  then have "f[3 := None, 4 := None] = fds" using c1[of 0 "fds ! 0"] by (simp only: zero_less_numeral)
  note cl = c1[of 1] c1[of 0] this
  show ?thesis
    using f assms(1) by (simp add: p0 p1 fork1_def l[unfolded One_nat_def] r cl[unfolded One_nat_def] Let_def split: prod.split)
qed

theorem pipe_wiring_witness:
  "snd (events (runcmd (SPipe (SExec [[97]]) (SExec [[98]]))) 0 ([Some Console, Some Console, Some Console] @ replicate 13 None))
   = [Execs ([Some Console, Some (PipeW 0), Some Console] @ replicate 13 None) [97] [[97]],
      Execs ([Some (PipeR 0), Some Console, Some Console] @ replicate 13 None) [98] [[98]],
      Waits ([Some Console, Some Console, Some Console] @ replicate 13 None), Waits ([Some Console, Some Console, Some Console] @ replicate 13 None)]"
proof -
  let ?f = "[Some Console, Some Console, Some Console] @ replicate 13 None"
  have "\<forall>i < 3. ?f ! i \<noteq> None" by (simp add: numeral_eq_Suc less_Suc_eq all_conj_distrib)
  then have "events (runcmd (SPipe (SExec [[97]]) (SExec [[98]]))) 0 ?f =
     (let (n1, es) = events (runcmd (SExec [[97]])) (0 + 1) (?f[1 := Some (PipeW 0)]);
          (n2, fs) = events (runcmd (SExec [[98]])) n1 (?f[0 := Some (PipeR 0)])
      in (n2, es @ fs @ [Waits ?f, Waits ?f]))"
    by (intro pipe_wiring) simp_all
  then show ?thesis by simp
qed

end
