(* ===== verification/Tty.thy ===== *)
theory Tty imports Console Ring
begin

text \<open>
  The line discipline of the console: \<open>consoleintr\<close> edits a line in a ring buffer and commits it
  at a newline, and \<open>consoleread\<close> takes committed bytes.  Both are shown to implement an editor on
  two lists, the committed bytes and the line being edited.
\<close>

section \<open>The two lists\<close>

definition committed :: "inputbuf \<Rightarrow> byte list" where
  "committed b = ring_cont INPUT_BUF (in_buf b) (in_r b) (in_w b)"

definition editing :: "inputbuf \<Rightarrow> byte list" where
  "editing b = ring_cont INPUT_BUF (in_buf b) (in_w b) (in_e b)"

definition in_ok :: "inputbuf \<Rightarrow> bool" where
  "in_ok b \<longleftrightarrow> length (in_buf b) = INPUT_BUF \<and> unat (in_e b - in_r b) = unat (in_w b - in_r b) + unat (in_e b - in_w b)
     \<and> unat (in_e b - in_r b) \<le> INPUT_BUF \<and> 10 \<notin> set (editing b)"

text \<open>What a typed character does to the committed bytes and the line.\<close>

definition edit :: "32 word \<Rightarrow> byte list \<times> byte list \<Rightarrow> byte list \<times> byte list" where
  "edit c = (\<lambda>(done, line).
     if c = 16 then (done, line)
     else if c = 21 then (done, [])
     else if c = 8 \<or> c = 0x7F then (done, butlast line)
     else if c = 0 \<or> length done + length line \<ge> INPUT_BUF then (done, line)
     else let c = (if c = 13 then 10 else c); line = line @ [ucast c] in
       if c = 10 \<or> c = 4 \<or> length done + length line = INPUT_BUF then (done @ line, []) else (done, line))"

text \<open>What a read of at most \<open>k\<close> bytes takes from the committed ones: up to a newline; up to a control-D, which is consumed
  only by a read that returns nothing.  Nothing (\<open>None\<close>) means that it has to wait.\<close>

fun cooked :: "nat \<Rightarrow> bool \<Rightarrow> byte list \<Rightarrow> (byte list \<times> byte list) option" where
  "cooked 0 first cs = Some ([], cs)"
| "cooked (Suc k) first [] = None"
| "cooked (Suc k) first (c # cs) =
     (if c = 4 then Some ([], if first then cs else c # cs)
      else if c = 10 then Some ([c], cs)
      else map_option (apfst (Cons c)) (cooked k False cs))"

definition both :: "inputbuf \<Rightarrow> byte list \<times> byte list" where
  "both b = (committed b, editing b)"

lemma ring128: "ring_size INPUT_BUF"
  by (simp add: ring_size_def)

lemma ring_split:
  assumes "ring_size N" "unat (e - r) = unat (w - r) + unat (e - w)"
  shows "ring_cont N d r e = ring_cont N d r w @ ring_cont N d w e"
proof -
  let ?m = "unat (w - r)" and ?n = "unat (e - w)"
  have "[0..<m + n] = [0..<m] @ map ((+) m) [0..<n]" for m n :: nat by (induction n) simp_all
  then have "[0..<unat (e - r)] = [0..<?m] @ map ((+) ?m) [0..<?n]" using assms(2) by (simp only:)
  moreover have "(unat w + k) mod N = (unat r + (?m + k)) mod N" for k
    using slot_of_nat[OF assms(1), of r ?m] by (metis add.assoc counter_split mod_add_left_eq)
  ultimately show ?thesis by (simp add: ring_cont_def o_def)
qed

lemma ring_last:
  assumes "ring_size N" "e \<noteq> w"
  shows "ring_cont N d w e \<noteq> []" "last (ring_cont N d w e) = d ! (unat (e - 1) mod N)"
proof -
  have p: "0 < unat (e - w)" using assms(2) by (simp add: unat_gt_0)
  then show "ring_cont N d w e \<noteq> []" by (simp add: ring_cont_def)
  have "e - 1 = w + of_nat (unat (e - w) - 1)" using p by (simp add: of_nat_diff)
  then have "unat (e - 1) mod N = (unat w + (unat (e - w) - 1)) mod N" using slot_of_nat[OF assms(1), of w "unat (e - w) - 1"] by simp
  then show "last (ring_cont N d w e) = d ! (unat (e - 1) mod N)" using p by (simp add: ring_cont_def last_map)
qed

lemma unput_ok:
  assumes "in_ok b" "in_e b \<noteq> in_w b"
  shows "in_ok (b\<lparr>in_e := in_e b - 1\<rparr>)" "both (b\<lparr>in_e := in_e b - 1\<rparr>) = (committed b, butlast (editing b))"
    "unat (in_e b - 1 - in_w b) = unat (in_e b - in_w b) - 1"
proof -
  have p: "0 < unat (in_e b - in_w b)" using assms(2) by (simp add: unat_gt_0)
  then have ne: "in_e b - in_w b \<noteq> 0" "in_e b - in_r b \<noteq> 0" using assms(1) by (auto simp: in_ok_def)
  have u: "unat (in_e b - 1 - in_w b) = unat (in_e b - in_w b) - 1" "unat (in_e b - 1 - in_r b) = unat (in_e b - in_r b) - 1"
    using unat_pred[OF ne(1)] unat_pred[OF ne(2)] by (simp_all add: algebra_simps)
  show "unat (in_e b - 1 - in_w b) = unat (in_e b - in_w b) - 1" by (rule u(1))
  have e: "editing (b\<lparr>in_e := in_e b - 1\<rparr>) = butlast (editing b)" using ring_unput[OF assms(2)] by (simp add: editing_def)
  show "both (b\<lparr>in_e := in_e b - 1\<rparr>) = (committed b, butlast (editing b))" using e by (simp add: both_def committed_def)
  show "in_ok (b\<lparr>in_e := in_e b - 1\<rparr>)" using assms(1) u p e by (auto simp: in_ok_def dest: in_set_butlastD)
qed

lemma put_ok:
  fixes x :: byte
  assumes "in_ok b" "unat (in_e b - in_r b) < INPUT_BUF"
  defines "b' \<equiv> b\<lparr>in_buf := (in_buf b)[unat (in_e b) mod INPUT_BUF := x], in_e := in_e b + 1\<rparr>"
  shows "committed b' = committed b" "editing b' = editing b @ [x]" "x \<noteq> 10 \<Longrightarrow> in_ok b'"
    "in_ok (b'\<lparr>in_w := in_e b'\<rparr>)" "both (b'\<lparr>in_w := in_e b'\<rparr>) = (committed b @ editing b @ [x], [])"
    "in_e b' = in_r b' + of_nat INPUT_BUF \<longleftrightarrow> length (committed b) + length (editing b @ [x]) = INPUT_BUF"
proof -
  have s: "unat (in_e b - in_r b) = unat (in_w b - in_r b) + unat (in_e b - in_w b)" "length (in_buf b) = 128" using assms(1) by (simp_all add: in_ok_def)
  have u: "unat (in_e b + 1 - in_r b) = unat (in_e b - in_r b) + 1" "unat (in_e b + 1 - in_w b) = unat (in_e b - in_w b) + 1"
    using unat_succ[of "in_e b - in_r b"] unat_succ[of "in_e b - in_w b"] assms(2) s(1) by (simp_all add: algebra_simps)
  let ?d = "(in_buf b)[unat (in_e b) mod INPUT_BUF := x]"
  have b': "in_buf b' = ?d" "in_e b' = in_e b + 1" "in_r b' = in_r b" "in_w b' = in_w b" by (simp_all add: b'_def)
  have r: "ring_cont INPUT_BUF ?d (in_r b) (in_e b + 1) = ring_cont INPUT_BUF (in_buf b) (in_r b) (in_e b) @ [x]"
    by (rule ring_put[OF ring128 s(2) assms(2)])
  moreover have "ring_cont INPUT_BUF ?d (in_r b) (in_e b + 1) = committed b' @ editing b'"
    using ring_split[OF ring128, of "in_e b + 1" "in_r b" "in_w b" ?d] s(1) u by (simp add: committed_def editing_def b')
  moreover have all: "ring_cont INPUT_BUF (in_buf b) (in_r b) (in_e b) = committed b @ editing b"
    using ring_split[OF ring128 s(1)] by (simp add: committed_def editing_def)
  moreover have "length (committed b') = length (committed b)" by (simp add: committed_def b')
  ultimately show c: "committed b' = committed b" "editing b' = editing b @ [x]" by simp_all
  then show "x \<noteq> 10 \<Longrightarrow> in_ok b'" using assms(1,2) u s by (simp add: in_ok_def b')
  have e: "editing (b'\<lparr>in_w := in_e b'\<rparr>) = []" by (simp add: editing_def)
  then show "in_ok (b'\<lparr>in_w := in_e b'\<rparr>)" using assms(2) u s by (simp add: in_ok_def b')
  show "both (b'\<lparr>in_w := in_e b'\<rparr>) = (committed b @ editing b @ [x], [])"
    using r all e by (simp add: both_def committed_def b')
  have l: "length (committed b) + length (editing b) = unat (in_e b - in_r b)" using s(1) by (simp add: committed_def editing_def)
  have "in_e b + 1 = in_r b + 128 \<longleftrightarrow> in_e b + 1 - in_r b = 128" by (simp add: algebra_simps)
  also have "\<dots> \<longleftrightarrow> unat (in_e b + 1 - in_r b) = 128" by (simp add: word_unat_eq_iff)
  finally show "in_e b' = in_r b' + of_nat INPUT_BUF \<longleftrightarrow> length (committed b) + length (editing b @ [x]) = INPUT_BUF"
    using u(1) l by (simp add: b')
qed

section \<open>Typing\<close>

lemma consputc_input:
  assumes "crt_ok s" "\<not> panicked s"
  shows "\<exists>t. consputc c s = Ok () t \<and> input t = input s \<and> mach t = mach s \<and> crt_ok t \<and> \<not> panicked t \<and> procs t = procs s"
proof (cases "c = 0x100")
  case True
  let ?u = "uartputc 8 (uartputc 32 (uartputc 8 s))"
  have u: "crt_ok ?u" "input ?u = input s" "mach ?u = mach s" "panicked ?u = panicked s"
    using assms(1) by (simp_all add: crt_ok_def uartputc_def)
  obtain t where t: "cgaputc c ?u = Ok () t" "t = ?u\<lparr>crt_pos := crt_pos t, crt := crt t\<rparr>" "crt_ok t" using cgaputc_ok[OF u(1), of c] by blast
  have "procs ?u = procs s" by (simp add: uartputc_def)
  then have "input t = input s" "mach t = mach s" "panicked t = panicked s" "procs t = procs s" using u by (subst t(2), simp)+
  then show ?thesis using t(1,3) True assms(2) by (simp add: consputc_def)
next
  case False
  obtain t where t: "consputc c s = Ok () t" "emits s [ucast c] t" using consputc_ok[OF assms False] by blast
  have e: "t = s\<lparr>uart_out := uart_out s @ (if uart s then [ucast c] else []), crt_pos := crt_pos t, crt := crt t\<rparr>"
    using t(2) by (simp add: emits_def)
  have "input t = input s" by (subst e) simp
  moreover have "procs t = procs s" by (subst e) simp
  ultimately show ?thesis using t emits_same[OF t(2)] assms(2) by auto
qed

definition tty :: "kernel \<Rightarrow> bool" where
  "tty s \<longleftrightarrow> crt_ok s \<and> \<not> panicked s \<and> in_ok (input s) \<and> mach_ok (mach s) \<and> lk_free PtableLk (mach s) \<and> touch (mach s) = mach s"

text \<open>The bytes \<open>ws\<close> that have been committed on the way from \<open>s\<close> to \<open>t\<close>; whoever sleeps on the input has been woken if there are any.\<close>

definition commits :: "kernel \<Rightarrow> byte list \<Rightarrow> kernel \<Rightarrow> bool" where
  "commits s ws t \<longleftrightarrow> committed (input t) = committed (input s) @ ws \<and> procs t = (if ws = [] then procs s else procs (wakeup1 (Some ChInput) s))"

lemma commits_trans: "commits s ws t \<Longrightarrow> commits t vs u \<Longrightarrow> commits s (ws @ vs) u"
  by (auto simp: commits_def wakeup1_def)

lemma kill_line_ok:
  assumes "tty s" "n = unat (in_e (input s) - in_w (input s))"
  shows "\<exists>t. kill_line n s = Ok () t \<and> both (input t) = (committed (input s), []) \<and> tty t \<and> mach t = mach s \<and> procs t = procs s"
  using assms
proof (induction n arbitrary: s)
  case 0
  then have "in_e (input s) = in_w (input s)" by (simp add: unat_eq_0)
  then have "editing (input s) = []" by (simp add: editing_def)
  then show ?case using 0 by (simp add: both_def)
next
  case (Suc n)
  have ok: "in_ok (input s)" using Suc.prems(1) by (simp add: tty_def)
  have ne: "in_e (input s) \<noteq> in_w (input s)" using Suc.prems(2) by auto
  note u = unput_ok[OF ok ne]
  note l = ring_last[OF ring128 ne, of "in_buf (input s)", folded editing_def]
  have n10: "in_at s (in_e (input s) - 1) \<noteq> 10" using ok l last_in_set by (fastforce simp: in_at_def in_ok_def)
  let ?s = "upd_input (\<lambda>b. b\<lparr>in_e := in_e b - 1\<rparr>) s"
  have s: "crt_ok ?s" "\<not> panicked ?s" "input ?s = (input s)\<lparr>in_e := in_e (input s) - 1\<rparr>" "mach ?s = mach s"
    using Suc.prems(1) by (simp_all add: tty_def upd_input_def crt_ok_def)
  obtain t where t: "consputc 0x100 ?s = Ok () t" "input t = input ?s" "mach t = mach ?s" "crt_ok t" "\<not> panicked t" "procs t = procs ?s"
    using consputc_input[OF s(1,2)] by blast
  have tt: "tty t" using Suc.prems(1) u(1) t s by (simp add: tty_def)
  have "n = unat (in_e (input t) - in_w (input t))" using u(3) Suc.prems(2) t(2) s(3) by simp
  then obtain v where "kill_line n t = Ok () v" "both (input v) = (committed (input t), [])" "tty v" "mach v = mach t" "procs v = procs t"
    using Suc.IH[OF tt] by blast
  moreover have "procs ?s = procs s" by (simp add: upd_input_def)
  ultimately show ?case using n10 t s by (simp add: committed_def)
qed

lemma type_char_ok:
  assumes "tty s" "c < 256"
  shows "\<exists>t ws. type_char c s = Ok () t \<and> tty t \<and> mach t = mach s \<and> commits s ws t \<and> both (input t) =
     (if c = 0 \<or> length (committed (input s)) + length (editing (input s)) \<ge> INPUT_BUF then both (input s)
      else let c = (if c = 13 then 10 else c); line = editing (input s) @ [ucast c] in
       if c = 10 \<or> c = 4 \<or> length (committed (input s)) + length line = INPUT_BUF then (committed (input s) @ line, []) else (committed (input s), line))"
proof -
  let ?b = "input s"
  have ok: "in_ok ?b" using assms(1) by (simp add: tty_def)
  have l: "length (committed ?b) + length (editing ?b) = unat (in_e ?b - in_r ?b)" using ok by (simp add: in_ok_def committed_def editing_def)
  show ?thesis
  proof (cases "c = 0 \<or> unat (in_e ?b - in_r ?b) \<ge> INPUT_BUF")
    case True
    then have "type_char c s = Ok () s" by (auto simp: type_char_def word_less_nat_alt)
    moreover have "commits s [] s" by (simp add: commits_def)
    ultimately show ?thesis using True assms(1) l by auto
  next
    case False
    then have lt: "unat (in_e ?b - in_r ?b) < INPUT_BUF" "c \<noteq> 0" by simp_all
    define d where "d = (if c = 13 then 10 else c)"
    let ?x = "ucast d :: byte"
    have d10: "?x = 10 \<longleftrightarrow> d = 10"
    proof -
      have "d < 256" using assms(2) by (auto simp: d_def)
      then have "unat ?x = unat d" by (simp add: unsigned_ucast_eq take_bit_nat_def word_less_nat_alt)
      then show ?thesis by (simp add: word_unat_eq_iff)
    qed
    let ?f = "\<lambda>b. b\<lparr>in_buf := (in_buf b)[unat (in_e b) mod INPUT_BUF := ?x], in_e := in_e b + 1\<rparr>"
    note p = put_ok[OF ok lt(1), of ?x]
    let ?s = "upd_input ?f s"
    have s: "crt_ok ?s" "\<not> panicked ?s" "input ?s = ?f ?b" "mach ?s = mach s"
      using assms(1) by (simp_all add: tty_def upd_input_def crt_ok_def)
    obtain t where t: "consputc d ?s = Ok () t" "input t = input ?s" "mach t = mach ?s" "crt_ok t" "\<not> panicked t" "procs t = procs ?s"
      using consputc_input[OF s(1,2)] by blast
    define P where "P \<longleftrightarrow> d = 10 \<or> d = 4 \<or> in_e (input t) = in_r (input t) + of_nat INPUT_BUF"
    have PI: "P \<longleftrightarrow> d = 10 \<or> d = 4 \<or> length (committed ?b) + length (editing ?b @ [?x]) = INPUT_BUF"
      using p(6) unfolding P_def t(2) s(3) by simp
    have tc: "type_char c s = (if P then wakeup ChInput (upd_input (\<lambda>b. b\<lparr>in_w := in_e b\<rparr>) t) else Ok () t)"
      using lt t(1) by (simp add: type_char_def d_def[symmetric] P_def word_less_nat_alt Let_def)
    have m: "mach_ok (mach s)" "lk_free PtableLk (mach s)" "touch (mach s) = mach s" using assms(1) by (simp_all add: tty_def)
    let ?w = "upd_input (\<lambda>b. b\<lparr>in_w := in_e b\<rparr>) t"
    have w: "wakeup ChInput ?w = Ok () (wakeup1 (Some ChInput) ?w)" by (rule wakeup_held) (use m t(3) s(4) in \<open>simp_all add: upd_input_def\<close>)
    have wv: "input (wakeup1 (Some ChInput) ?w) = (?f ?b)\<lparr>in_w := in_e (?f ?b)\<rparr>" "mach (wakeup1 (Some ChInput) ?w) = mach s"
      "crt_ok (wakeup1 (Some ChInput) ?w)" "\<not> panicked (wakeup1 (Some ChInput) ?w)"
      using t s by (simp_all add: wakeup1_def upd_input_def crt_ok_def)
    show ?thesis
    proof (cases P)
      case True
      have "tty (wakeup1 (Some ChInput) ?w)" unfolding tty_def wv(1,2) using wv(3,4) m p(4) by simp
      moreover have b: "both (input (wakeup1 (Some ChInput) ?w)) = (committed ?b @ editing ?b @ [?x], [])" unfolding wv(1) by (rule p(5))
      moreover have "procs ?w = procs s" using t(6) by (simp add: upd_input_def)
      then have "commits s (editing ?b @ [?x]) (wakeup1 (Some ChInput) ?w)" using b by (simp add: commits_def both_def wakeup1_def)
      ultimately show ?thesis using tc w True wv(2) PI lt l
        by (intro exI[of _ "wakeup1 (Some ChInput) ?w"] exI[of _ "editing ?b @ [?x]"]) (simp add: d_def[symmetric] Let_def)
    next
      case F: False
      then have "d \<noteq> 10" by (simp add: P_def)
      then have "tty t" using t s m p(3) d10 by (simp add: tty_def)
      moreover have "both (input t) = (committed ?b, editing ?b @ [?x])" unfolding t(2) s(3) both_def using p(1,2) by simp
      moreover from this have "commits s [] t" using t(6) by (simp add: commits_def both_def upd_input_def)
      ultimately show ?thesis using tc F t(3) s(4) PI lt l by (intro exI[of _ t] exI[of _ "[]"]) (simp add: d_def[symmetric] Let_def)
    qed
  qed
qed

lemma console_char_ok:
  assumes "tty s" "c < 256"
  shows "\<exists>t ws. console_char c s = Ok () t \<and> tty t \<and> mach t = mach s \<and> commits s ws t \<and> both (input t) = edit c (both (input s))"
proof -
  have ok: "in_ok (input s)" using assms(1) by (simp add: tty_def)
  consider "c = 16" | "c = 21" | "c = 8 \<or> c = 0x7F" | "c \<notin> {16, 21, 8, 0x7F}" by blast
  then show ?thesis
  proof cases
    case 1
    then show ?thesis using assms(1) by (auto simp: console_char_def edit_def both_def commits_def intro: exI[of _ "[]"])
  next
    case 2
    obtain t where "kill_line (unat (in_e (input s) - in_w (input s))) s = Ok () t" "both (input t) = (committed (input s), [])" "tty t" "mach t = mach s" "procs t = procs s"
      using kill_line_ok[OF assms(1) refl] by blast
    then show ?thesis using 2 by (intro exI[of _ t] exI[of _ "[]"]) (simp add: console_char_def edit_def both_def commits_def)
  next
    case 3
    show ?thesis
    proof (cases "in_e (input s) = in_w (input s)")
      case True
      then have "editing (input s) = []" by (simp add: editing_def)
      then show ?thesis using 3 True assms(1) by (intro exI[of _ s] exI[of _ "[]"]) (auto simp: console_char_def edit_def both_def commits_def)
    next
      case False
      note u = unput_ok[OF ok False]
      let ?s = "upd_input (\<lambda>b. b\<lparr>in_e := in_e b - 1\<rparr>) s"
      have s: "crt_ok ?s" "\<not> panicked ?s" "input ?s = (input s)\<lparr>in_e := in_e (input s) - 1\<rparr>" "mach ?s = mach s"
        using assms(1) by (simp_all add: tty_def upd_input_def crt_ok_def)
      obtain t where t: "consputc 0x100 ?s = Ok () t" "input t = input ?s" "mach t = mach ?s" "crt_ok t" "\<not> panicked t" "procs t = procs ?s"
        using consputc_input[OF s(1,2)] by blast
      have "console_char c s = Ok () t" using 3 False t(1) by (auto simp: console_char_def)
      moreover have "tty t" using assms(1) u(1) t s by (simp add: tty_def)
      moreover have "edit c (both (input s)) = (committed (input s), butlast (editing (input s)))" using 3 by (auto simp: edit_def both_def)
      moreover have "commits s [] t" using u(2) t(2,6) s(3) by (simp add: commits_def both_def upd_input_def)
      ultimately show ?thesis using u(2) t(2,3) s(3,4) by auto
    qed
  next
    case 4
    then show ?thesis using type_char_ok[OF assms] by (auto simp: console_char_def edit_def both_def)
  qed
qed

lemma console_chars_ok:
  assumes "tty s" "\<forall>c \<in> set cs. c < 256"
  shows "\<exists>t ws. console_chars cs s = Ok () t \<and> tty t \<and> mach t = mach s \<and> commits s ws t \<and> both (input t) = fold edit cs (both (input s))"
  using assms
proof (induction cs arbitrary: s)
  case Nil
  then show ?case by (intro exI[of _ s] exI[of _ "[]"]) (simp add: commits_def)
next
  case (Cons c cs)
  obtain t ws where t: "console_char c s = Ok () t" "tty t" "mach t = mach s" "commits s ws t" "both (input t) = edit c (both (input s))"
    using console_char_ok[of s c] Cons.prems by auto
  obtain u vs where "console_chars cs t = Ok () u" "tty u" "mach u = mach t" "commits t vs u" "both (input u) = fold edit cs (both (input t))"
    using Cons.IH[OF t(2)] Cons.prems(2) by auto
  then show ?case using t commits_trans[OF t(4)] by (intro exI[of _ u] exI[of _ "ws @ vs"]) simp
qed

section \<open>Reading\<close>

lemma take_ok:
  assumes "in_ok b" "in_r b \<noteq> in_w b"
  shows "in_ok (b\<lparr>in_r := in_r b + 1\<rparr>)" "committed b = in_buf b ! (unat (in_r b) mod INPUT_BUF) # committed (b\<lparr>in_r := in_r b + 1\<rparr>)"
    "editing (b\<lparr>in_r := in_r b + 1\<rparr>) = editing b"
proof -
  have "in_w b - in_r b \<noteq> 0" using assms(2) by simp
  then have "unat (in_w b - in_r b) \<noteq> 0" by (simp add: unat_eq_0)
  then have "unat (in_e b - in_r b) \<noteq> 0" using assms(1) by (simp add: in_ok_def)
  then have ne: "in_w b - in_r b \<noteq> 0" "in_e b - in_r b \<noteq> 0" using assms(2) by auto
  have u: "unat (in_w b - (in_r b + 1)) = unat (in_w b - in_r b) - 1" "unat (in_e b - (in_r b + 1)) = unat (in_e b - in_r b) - 1"
    using unat_pred[OF ne(1)] unat_pred[OF ne(2)] by (simp_all add: algebra_simps)
  have p: "0 < unat (in_w b - in_r b)" using ne(1) by (simp add: unat_gt_0)
  show e: "editing (b\<lparr>in_r := in_r b + 1\<rparr>) = editing b" by (simp add: editing_def)
  show "in_ok (b\<lparr>in_r := in_r b + 1\<rparr>)" using assms(1) u p e by (auto simp: in_ok_def)
  show "committed b = in_buf b ! (unat (in_r b) mod INPUT_BUF) # committed (b\<lparr>in_r := in_r b + 1\<rparr>)"
    using ring_get[OF ring128, of "in_w b" "in_r b" "in_buf b"] assms(2) by (simp add: committed_def)
qed

lemma consoleread_loop_ok:
  assumes "in_ok (input s)" "cooked k (k = target) (committed (input s)) = Some (bs, rest)" "k \<le> target"
  shows "\<exists>t. consoleread_loop k ip target acc s = consoleread_end ip (acc @ bs) t \<and> in_ok (input t)
     \<and> both (input t) = (rest, editing (input s)) \<and> t = s\<lparr>input := input t\<rparr>"
  using assms
proof (induction k arbitrary: s acc bs)
  case 0
  then show ?case by (auto simp: both_def)
next
  case (Suc k)
  let ?b = "input s"
  have ne: "in_r ?b \<noteq> in_w ?b" using Suc.prems(2) by (auto simp: committed_def)
  note tk = take_ok[OF Suc.prems(1) ne]
  let ?s = "upd_input (\<lambda>b. b\<lparr>in_r := in_r b + 1\<rparr>) s"
  let ?c = "in_at s (in_r ?b)"
  have s: "input ?s = ?b\<lparr>in_r := in_r ?b + 1\<rparr>" "?s = s\<lparr>input := input ?s\<rparr>" by (simp_all add: upd_input_def)
  have c: "committed ?b = ?c # committed (input ?s)" using tk(2) by (simp add: in_at_def s(1))
  consider "?c = 4" | "?c = 10" | "?c \<noteq> 4" "?c \<noteq> 10" by blast
  then show ?case
  proof cases
    case 1
    then have r: "bs = []" "rest = (if Suc k = target then committed (input ?s) else committed ?b)" using Suc.prems(2) c by (auto split: if_splits)
    let ?t = "if Suc k < target then s else ?s"
    have "consoleread_loop (Suc k) ip target acc s = consoleread_end ip (acc @ bs) ?t" using ne 1 r(1) by (simp add: Let_def)
    moreover have "in_ok (input ?t)" "both (input ?t) = (rest, editing ?b)" "?t = s\<lparr>input := input ?t\<rparr>"
      using r(2) Suc.prems(1,3) tk(1,3) s(1) by (auto simp: both_def upd_input_def)
    ultimately show ?thesis by blast
  next
    case 2
    then have r: "bs = [10]" "rest = committed (input ?s)" using Suc.prems(2) c by (auto split: if_splits)
    have "consoleread_loop (Suc k) ip target acc s = consoleread_end ip (acc @ bs) ?s" using ne 2 r(1) by (simp add: Let_def)
    moreover have "in_ok (input ?s)" "both (input ?s) = (rest, editing ?b)" using r(2) tk(1,3) s(1) by (simp_all add: both_def)
    ultimately show ?thesis using s(2) by blast
  next
    case 3
    have kt: "(k = target) = False" using Suc.prems(3) by simp
    obtain bs' where b: "bs = ?c # bs'" "cooked k (k = target) (committed (input ?s)) = Some (bs', rest)"
      using Suc.prems(2) c 3 unfolding kt by (auto simp: apfst_def map_prod_def split: prod.splits)
    have "\<exists>t. consoleread_loop k ip target (acc @ [?c]) ?s = consoleread_end ip ((acc @ [?c]) @ bs') t \<and> in_ok (input t)
       \<and> both (input t) = (rest, editing (input ?s)) \<and> t = ?s\<lparr>input := input t\<rparr>"
      by (rule Suc.IH[OF _ b(2)]) (use tk(1) s(1) Suc.prems(3) in auto)
    moreover have "?s\<lparr>input := b\<rparr> = s\<lparr>input := b\<rparr>" for b by (simp add: upd_input_def)
    ultimately show ?thesis using ne 3 b(1) tk(3) s(1) by (simp add: Let_def)
  qed
qed

lemma cooked_None: "cooked k first cs = None \<Longrightarrow> 0 < k"
  by (cases k) simp_all

text \<open>A read that finds too little goes to sleep with \<open>cons.lock\<close> released, having taken all there is.\<close>

lemma consoleread_loop_waits:
  assumes "in_ok (input s)" "cooked k (k = target) (committed (input s)) = None" "k \<le> target"
    "mach s = hold ConsLk m" "mach_ok m" "ncli (curcpu m) = 0" "lk_free ConsLk m" "lk_free PtableLk m" "running s = Some p" "p < length (procs s)" "\<not> killed (procs s ! p)"
  shows "\<exists>b. consoleread_loop k ip target acc s = Slept (upd_proc p (\<lambda>q. q\<lparr>chan := Some ChInput, pstate := SLEEPING\<rparr>) (s\<lparr>input := b, mach := hold PtableLk m\<rparr>))
     \<and> in_ok b \<and> both b = ([], editing (input s))"
  using assms
proof (induction k arbitrary: s acc)
  case 0
  then show ?case by simp
next
  case (Suc k)
  let ?b = "input s"
  show ?case
  proof (cases "in_r ?b = in_w ?b")
    case True
    then have "committed ?b = []" by (simp add: committed_def)
    moreover have "curproc s = Ok p s" using curproc_ok[of s p] Suc.prems by simp
    moreover note sleep_ok[OF Suc.prems(4-10), of ChInput]
    ultimately show ?thesis using True Suc.prems(1,11) by (intro exI[of _ ?b]) (simp add: both_def)
  next
    case False
    note tk = take_ok[OF Suc.prems(1) False]
    let ?s = "upd_input (\<lambda>b. b\<lparr>in_r := in_r b + 1\<rparr>) s"
    let ?c = "in_at s (in_r ?b)"
    have s: "input ?s = ?b\<lparr>in_r := in_r ?b + 1\<rparr>" "mach ?s = mach s" "running ?s = running s" "procs ?s = procs s" by (simp_all add: upd_input_def running_def)
    have c: "committed ?b = ?c # committed (input ?s)" using tk(2) by (simp add: in_at_def s)
    have kt: "(k = target) = False" using Suc.prems(3) by simp
    have n: "?c \<noteq> 4" "?c \<noteq> 10" "cooked k (k = target) (committed (input ?s)) = None" using Suc.prems(2) c unfolding kt by (auto split: if_splits)
    have "\<exists>b. consoleread_loop k ip target (acc @ [?c]) ?s = Slept (upd_proc p (\<lambda>q. q\<lparr>chan := Some ChInput, pstate := SLEEPING\<rparr>) (?s\<lparr>input := b, mach := hold PtableLk m\<rparr>))
       \<and> in_ok b \<and> both b = ([], editing (input ?s))"
      by (rule Suc.IH[OF _ n(3)]) (use tk(1) s Suc.prems in simp_all)
    moreover have "?s\<lparr>input := b, mach := hold PtableLk m\<rparr> = s\<lparr>input := b, mach := hold PtableLk m\<rparr>" for b by (simp add: upd_input_def)
    moreover have "editing (input ?s) = editing ?b" using tk(3) s(1) by simp
    ultimately show ?thesis using False n by (simp add: Let_def)
  qed
qed

text \<open>Process \<open>p\<close> runs with no lock held and \<open>ip\<close> is an inode in use that has been read from the disk.\<close>

definition reader :: "nat \<Rightarrow> nat \<Rightarrow> kernel \<Rightarrow> bool" where
  "reader p ip s \<longleftrightarrow> quiet s \<and> ncli (curcpu (mach s)) = 0 \<and> running s = Some p \<and> p < length (procs s) \<and> ip < length (inodes s)
     \<and> \<not> s_lt (i_ref (inodes s ! ip)) 1 \<and> i_valid (inodes s ! ip)"

definition ilocked :: "nat \<Rightarrow> nat \<Rightarrow> kernel \<Rightarrow> bool" where
  "ilocked p ip s \<longleftrightarrow> sl_locked (i_lock (inodes s ! ip)) \<and> sl_pid (i_lock (inodes s ! ip)) = pid (procs s ! p)"

lemma ilock_valid:
  assumes "reader p ip s" "\<not> sl_locked (i_lock (inodes s ! ip))"
  shows "\<exists>t. ilock (Some ip) s = Ok () t \<and> reader p ip t \<and> ilocked p ip t \<and> input t = input s"
proof -
  let ?t = "sl_put (InodeSl ip) ((sl_get (InodeSl ip) s)\<lparr>sl_locked := True, sl_pid := pid (procs s ! p)\<rparr>) s"
  have "acquiresleep (InodeSl ip) s = Ok () ?t"
    using assms by (intro acquiresleep_ok) (simp_all add: reader_def sl_valid_def)
  then have "ilock (Some ip) s = Ok () ?t" using assms(1) by (simp add: ilock_def reader_def)
  moreover have "reader p ip ?t" "ilocked p ip ?t" using assms(1) by (simp_all add: reader_def ilocked_def quiet_def running_def)
  ultimately show ?thesis by auto
qed

lemma iunlock_valid:
  assumes "reader p ip s" "ilocked p ip s"
  shows "\<exists>t. iunlock (Some ip) s = Ok () t \<and> reader p ip t \<and> \<not> sl_locked (i_lock (inodes t ! ip)) \<and> input t = input s \<and> mach t = mach s
     \<and> killed (procs t ! p) = killed (procs s ! p)"
proof -
  have q: "quiet s" "running s = Some p" using assms(1) by (simp_all add: reader_def)
  let ?t = "wakeup1 (Some (ChInodeLock ip)) (sl_put (InodeSl ip) ((sl_get (InodeSl ip) s)\<lparr>sl_locked := False, sl_pid := 0\<rparr>) s)"
  have "iunlock (Some ip) s = Ok () ?t"
    using holdingsleep_ok[OF q, of "InodeSl ip"] releasesleep_ok[OF q(1), of "InodeSl ip"] assms by (simp add: iunlock_def ilocked_def reader_def)
  moreover have "reader p ip ?t" "\<not> sl_locked (i_lock (inodes ?t ! ip))" "input ?t = input s" "killed (procs ?t ! p) = killed (procs s ! p)"
    using assms(1) by (simp_all add: reader_def quiet_def running_def wakeup1_def)
  ultimately show ?thesis by auto
qed

lemma consoleread_end_ok:
  assumes "mach s = hold ConsLk m" "mach_ok m" "lk_free ConsLk m" "reader p ip (s\<lparr>mach := touch m\<rparr>)" "\<not> sl_locked (i_lock (inodes s ! ip))"
  shows "\<exists>t. consoleread_end ip acc s = Ok (of_nat (length acc), acc) t \<and> reader p ip t \<and> ilocked p ip t \<and> input t = input s"
proof -
  have r: "krelease ConsLk s = Ok () (s\<lparr>mach := touch m\<rparr>)" by (rule krelease_ok[OF assms(1-3)])
  obtain t where "ilock (Some ip) (s\<lparr>mach := touch m\<rparr>) = Ok () t" "reader p ip t" "ilocked p ip t" "input t = input s"
    using ilock_valid[OF assms(4)] assms(5) by auto
  then show ?thesis using r by (auto simp: consoleread_end_def)
qed

lemma reader_cong:
  "mach t = mach s \<Longrightarrow> inodes t = inodes s \<Longrightarrow> length (procs t) = length (procs s) \<Longrightarrow> reader p ip t = reader p ip s"
  by (simp add: reader_def quiet_def running_def)

text \<open>The loop under \<open>cons.lock\<close>, for a reader whose bytes are there.\<close>

lemma consoleread_locked:
  assumes "mach s = hold ConsLk m" "mach_ok m" "lk_free ConsLk m" "reader p ip (s\<lparr>mach := touch m\<rparr>)" "\<not> sl_locked (i_lock (inodes s ! ip))"
    "in_ok (input s)" "cooked k (k = target) (committed (input s)) = Some (bs, rest)" "k \<le> target"
  shows "\<exists>t. consoleread_loop k ip target acc s = Ok (of_nat (length (acc @ bs)), acc @ bs) t \<and> reader p ip t \<and> ilocked p ip t \<and> in_ok (input t)
     \<and> both (input t) = (rest, editing (input s))"
proof -
  obtain v b where v: "consoleread_loop k ip target acc s = consoleread_end ip (acc @ bs) v" "in_ok b" "both b = (rest, editing (input s))" "v = s\<lparr>input := b\<rparr>"
    using consoleread_loop_ok[OF assms(6-8), of ip acc] by blast
  have "reader p ip (v\<lparr>mach := touch m\<rparr>) = reader p ip (s\<lparr>mach := touch m\<rparr>)" by (rule reader_cong) (simp_all add: v(4))
  then have "\<exists>t. consoleread_end ip (acc @ bs) v = Ok (of_nat (length (acc @ bs)), acc @ bs) t \<and> reader p ip t \<and> ilocked p ip t \<and> input t = input v"
    using assms by (intro consoleread_end_ok[where m = m]) (simp_all add: v(4))
  then show ?thesis using v by auto
qed

lemma consoleread_ok:
  assumes "reader p ip s" "ilocked p ip s" "in_ok (input s)" "cooked (nat (sint n)) True (committed (input s)) = Some (bs, rest)"
  shows "\<exists>t. consoleread ip n s = Ok (of_nat (length bs), bs) t \<and> reader p ip t \<and> ilocked p ip t \<and> in_ok (input t) \<and> both (input t) = (rest, editing (input s))"
proof -
  obtain a where a: "iunlock (Some ip) s = Ok () a" "reader p ip a" "\<not> sl_locked (i_lock (inodes a ! ip))" "input a = input s" "mach a = mach s"
    using iunlock_valid[OF assms(1,2)] by blast
  have q: "quiet a" using a(2) by (simp add: reader_def)
  let ?a = "a\<lparr>mach := hold ConsLk (mach a)\<rparr>"
  have "\<exists>t. consoleread_loop (nat (sint n)) ip (nat (sint n)) [] ?a = Ok (of_nat (length ([] @ bs)), [] @ bs) t \<and> reader p ip t \<and> ilocked p ip t \<and> in_ok (input t)
     \<and> both (input t) = (rest, editing (input ?a))"
    by (rule consoleread_locked[where m = "mach a"]) (use quietD[OF q] a(2-4) assms in simp_all)
  then show ?thesis using a kacquire_quiet[OF q] by (simp add: consoleread_def)
qed

lemma consoleread_waits:
  assumes "reader p ip s" "ilocked p ip s" "in_ok (input s)" "cooked (nat (sint n)) True (committed (input s)) = None" "\<not> killed (procs s ! p)"
  shows "\<exists>t. consoleread ip n s = Slept t \<and> pstate (procs t ! p) = SLEEPING \<and> chan (procs t ! p) = Some ChInput \<and> mach t = hold PtableLk (mach s)
     \<and> \<not> sl_locked (i_lock (inodes t ! ip)) \<and> both (input t) = ([], editing (input s))"
proof -
  obtain a where a: "iunlock (Some ip) s = Ok () a" "reader p ip a" "\<not> sl_locked (i_lock (inodes a ! ip))" "input a = input s" "mach a = mach s"
     "killed (procs a ! p) = killed (procs s ! p)"
    using iunlock_valid[OF assms(1,2)] by blast
  have q: "quiet a" using a(2) by (simp add: reader_def)
  note m = quietD[OF q]
  let ?a = "a\<lparr>mach := hold ConsLk (mach a)\<rparr>"
  have "running ?a = Some p" using a(2) m by (simp add: reader_def)
  then have "\<exists>b. consoleread_loop (nat (sint n)) ip (nat (sint n)) [] ?a
       = Slept (upd_proc p (\<lambda>q. q\<lparr>chan := Some ChInput, pstate := SLEEPING\<rparr>) (?a\<lparr>input := b, mach := hold PtableLk (mach a)\<rparr>)) \<and> in_ok b \<and> both b = ([], editing (input ?a))"
    by (intro consoleread_loop_waits) (use m a assms in \<open>simp_all add: reader_def\<close>)
  then obtain b where b: "consoleread ip n s = Slept (upd_proc p (\<lambda>q. q\<lparr>chan := Some ChInput, pstate := SLEEPING\<rparr>) (a\<lparr>input := b, mach := hold PtableLk (mach a)\<rparr>))"
     "both b = ([], editing (input s))"
    using a kacquire_quiet[OF q] by (auto simp: consoleread_def)
  have "p < length (procs a)" using a(2) by (simp add: reader_def)
  then show ?thesis using a(3,5) b by (simp add: upd_proc_def)
qed

text \<open>The same reader after it has been woken, with \<open>acc\<close> stored and \<open>k\<close> bytes to go.\<close>

lemma consoleread_back_ok:
  assumes "mach s = hold PtableLk m" "mach_ok m" "ncli (curcpu m) = 0" "\<forall>L. lk_free L m" "reader p ip (s\<lparr>mach := touch (m\<lparr>if_flag := ie\<rparr>)\<rparr>)"
    "\<not> sl_locked (i_lock (inodes s ! ip))" "in_ok (input s)" "cooked k (k = target) (committed (input s)) = Some (bs, rest)" "k \<le> target"
  shows "\<exists>t. consoleread_back p ie k ip target acc s = Ok (of_nat (length (acc @ bs)), acc @ bs) t \<and> ilocked p ip t \<and> both (input t) = (rest, editing (input s))"
proof -
  let ?m = "m\<lparr>if_flag := ie\<rparr>"
  let ?s = "upd_proc p (\<lambda>q. q\<lparr>chan := None\<rparr>) (s\<lparr>mach := hold ConsLk ?m\<rparr>)"
  have b: "sleep_back p ConsLk ie s = Ok () ?s" using assms(1-4) by (intro sleep_back_ok) simp_all
  have "reader p ip (?s\<lparr>mach := touch ?m\<rparr>) = reader p ip (s\<lparr>mach := touch ?m\<rparr>)" by (rule reader_cong) (simp_all add: upd_proc_def)
  then have "\<exists>t. consoleread_loop k ip target acc ?s = Ok (of_nat (length (acc @ bs)), acc @ bs) t \<and> reader p ip t \<and> ilocked p ip t \<and> in_ok (input t)
     \<and> both (input t) = (rest, editing (input ?s))"
    using assms by (intro consoleread_locked[where m = ?m]) (simp_all add: upd_proc_def mach_ok_flag)
  then show ?thesis using b by (auto simp: consoleread_back_def upd_proc_def)
qed

text \<open>(C29) The console is a line editor.  Whatever characters below 256 the interrupt delivers, the ring buffer, whose counters may wrap around,
  behaves as two lists: characters go to the line, backspace and control-U delete from the line only, and a newline, control-D or a
  full buffer commits it; the processes that sleep on the input are woken exactly when bytes were committed, and control-P prints the process list after the
  characters have been handled.  A process that reads the console through an inode it has locked takes the committed bytes up to a newline, a
  control-D or its size, at once or when it runs again after a sleep, and has the inode locked again; if they do not suffice it sleeps on the input, without the locks.\<close>

theorem console_line_editor:
  assumes "quiet s" "crt_ok s" "\<not> panicked s" "in_ok (input s)" "\<forall>c \<in> set cs. c < 256"
  shows "(\<exists>t ws. consoleintr cs s = (if 16 \<in> set cs then procdump t else Ok () t) \<and> quiet t \<and> in_ok (input t) \<and> both (input t) = fold edit cs (both (input s))
       \<and> committed (input t) = committed (input s) @ ws \<and> procs t = (if ws = [] then procs s else procs (wakeup1 (Some ChInput) s)))
     \<and> (\<forall>u p ip n. reader p ip u \<and> ilocked p ip u \<and> in_ok (input u) \<and> \<not> killed (procs u ! p) \<longrightarrow>
          (case cooked (nat (sint n)) True (committed (input u)) of
             Some (bs, rest) \<Rightarrow> \<exists>v. consoleread ip n u = Ok (of_nat (length bs), bs) v \<and> reader p ip v \<and> ilocked p ip v \<and> both (input v) = (rest, editing (input u))
           | None \<Rightarrow> \<exists>v. consoleread ip n u = Slept v \<and> pstate (procs v ! p) = SLEEPING \<and> chan (procs v ! p) = Some ChInput \<and> mach v = hold PtableLk (mach u)
               \<and> \<not> sl_locked (i_lock (inodes v ! ip)) \<and> both (input v) = ([], editing (input u))))
     \<and> (\<forall>u m p ip ie k target acc bs rest. mach u = hold PtableLk m \<and> mach_ok m \<and> ncli (curcpu m) = 0 \<and> (\<forall>L. lk_free L m)
          \<and> reader p ip (u\<lparr>mach := touch (m\<lparr>if_flag := ie\<rparr>)\<rparr>) \<and> \<not> sl_locked (i_lock (inodes u ! ip)) \<and> in_ok (input u) \<and> k \<le> target
          \<and> cooked k (k = target) (committed (input u)) = Some (bs, rest) \<longrightarrow>
          (\<exists>v. consoleread_back p ie k ip target acc u = Ok (of_nat (length (acc @ bs)), acc @ bs) v \<and> ilocked p ip v \<and> both (input v) = (rest, editing (input u))))"
proof (intro conjI allI impI)
  note q = quietD[OF assms(1)]
  let ?s = "s\<lparr>mach := hold ConsLk (mach s)\<rparr>"
  have a: "kacquire ConsLk s = Ok () ?s" by (rule kacquire_quiet[OF assms(1)])
  have "tty ?s" using assms(2-4) q by (simp add: tty_def crt_ok_def)
  then obtain t ws where t: "console_chars cs ?s = Ok () t" "tty t" "mach t = hold ConsLk (mach s)" "commits ?s ws t" "both (input t) = fold edit cs (both (input s))"
    using console_chars_ok[of ?s cs] assms(5) by auto
  have r: "krelease ConsLk t = Ok () (t\<lparr>mach := mach s\<rparr>)" by (rule krelease_quiet[OF t(3)]) (use q in simp_all)
  let ?t = "t\<lparr>mach := mach s\<rparr>"
  have "consoleintr cs s = (if 16 \<in> set cs then procdump ?t else Ok () ?t)" using a t(1) r by (simp add: consoleintr_def)
  moreover have "quiet ?t" "in_ok (input ?t)" using t(2) assms(1) by (simp_all add: tty_def quiet_def)
  moreover have "committed (input ?t) = committed (input s) @ ws" "procs ?t = (if ws = [] then procs s else procs (wakeup1 (Some ChInput) s))"
    using t(4) by (simp_all add: commits_def wakeup1_def)
  ultimately show "\<exists>t ws. consoleintr cs s = (if 16 \<in> set cs then procdump t else Ok () t) \<and> quiet t \<and> in_ok (input t) \<and> both (input t) = fold edit cs (both (input s))
       \<and> committed (input t) = committed (input s) @ ws \<and> procs t = (if ws = [] then procs s else procs (wakeup1 (Some ChInput) s))"
    using t(5) by (intro exI[of _ ?t] exI[of _ ws]) simp
next
  fix u p ip and n :: "32 word" assume u: "reader p ip u \<and> ilocked p ip u \<and> in_ok (input u) \<and> \<not> killed (procs u ! p)"
  then show "case cooked (nat (sint n)) True (committed (input u)) of
             Some (bs, rest) \<Rightarrow> \<exists>v. consoleread ip n u = Ok (of_nat (length bs), bs) v \<and> reader p ip v \<and> ilocked p ip v \<and> both (input v) = (rest, editing (input u))
           | None \<Rightarrow> \<exists>v. consoleread ip n u = Slept v \<and> pstate (procs v ! p) = SLEEPING \<and> chan (procs v ! p) = Some ChInput \<and> mach v = hold PtableLk (mach u)
               \<and> \<not> sl_locked (i_lock (inodes v ! ip)) \<and> both (input v) = ([], editing (input u))"
    using consoleread_ok[of p ip u n] consoleread_waits[of p ip u n] by (auto split: option.split)
qed (auto intro: consoleread_back_ok[simplified])

text \<open>Typing \<open>lz\<close>, backspace, \<open>s\<close> and a carriage return, and reading that line.\<close>

definition tty_demo :: "byte list \<Rightarrow> 32 word \<Rightarrow> kernel" where
  "tty_demo bs w = calm\<lparr>input := \<lparr>in_buf = bs @ replicate 100 0, in_r = 0, in_w = w, in_e = w\<rparr>,
     inodes := (inodes calm)[0 := (inodes calm ! 0)\<lparr>i_ref := 1, i_valid := True, i_lock := \<lparr>sl_locked = True, sl_name = ''inode'', sl_pid = pid (procs calm ! 0)\<rparr>\<rparr>]\<rparr>"

lemma tty_demo_simps:
  "mach (tty_demo bs w) = mach calm" "quiet (tty_demo bs w)" "crt_ok (tty_demo bs w)" "\<not> panicked (tty_demo bs w)" "\<not> killed (procs (tty_demo bs w) ! 0)"
  "reader 0 0 (tty_demo bs w)" "ilocked 0 0 (tty_demo bs w)"
proof -
  show m: "mach (tty_demo bs w) = mach calm" by (simp add: tty_demo_def)
  note q = quiet_frame[OF m]
  then show "quiet (tty_demo bs w)" by simp
  show "crt_ok (tty_demo bs w)" "\<not> panicked (tty_demo bs w)" "\<not> killed (procs (tty_demo bs w) ! 0)"
    by (simp_all add: tty_demo_def crt_ok_def calm_def one_running_def boot_kernel_def proc0_def)
  have l: "0 < length (inodes calm)" "0 < length (procs calm)" "ncli (curcpu (mach calm)) = 0"
    by (simp_all add: calm_def one_running_def boot_kernel_def machine0_def this_cpu_def cpu_ix_def cpu0_def)
  then have "inodes (tty_demo bs w) ! 0 = (inodes calm ! 0)\<lparr>i_ref := 1, i_valid := True, i_lock := \<lparr>sl_locked = True, sl_name = ''inode'', sl_pid = pid (procs calm ! 0)\<rparr>\<rparr>"
    "procs (tty_demo bs w) = procs calm" "0 < length (inodes (tty_demo bs w))"
    by (simp_all add: tty_demo_def)
  then show "reader 0 0 (tty_demo bs w)" "ilocked 0 0 (tty_demo bs w)"
    using q l by (simp_all add: reader_def ilocked_def m s_lt_def)
qed

theorem console_line_editor_witness:
  "(\<exists>t. consoleintr [108, 122, 8, 115, 13] (tty_demo (replicate 28 0) 0) = Ok () t \<and> committed (input t) = [108, 115, 10])
   \<and> (\<exists>u. consoleread 0 100 (tty_demo (108 # 115 # 10 # replicate 25 0) 3) = Ok (3, [108, 115, 10]) u \<and> committed (input u) = [])
   \<and> (\<exists>u. consoleread 0 100 (tty_demo (replicate 28 0) 0) = Slept u \<and> chan (procs u ! 0) = Some ChInput)"
proof -
  let ?s = "tty_demo (replicate 28 0) 0" and ?u = "tty_demo (108 # 115 # 10 # replicate 25 0) 3"
  note S = tty_demo_simps[of "replicate 28 0" 0] and U = tty_demo_simps[of "108 # 115 # 10 # replicate 25 0" 3]
  have i: "in_ok (input ?s)" "both (input ?s) = ([], [])" by (simp_all add: tty_demo_def in_ok_def editing_def committed_def both_def)
  have j: "in_ok (input ?u)" "committed (input ?u) = [108, 115, 10]"
    by (simp_all add: tty_demo_def in_ok_def editing_def committed_def ring_cont_def upt_rec)
  have f: "fold edit [108, 122, 8, 115, 13] ([], []) = ([108, 115, 10], [])" by (simp add: edit_def)
  have c: "cooked (nat (sint (100 :: 32 word))) True [108, 115, 10] = Some ([108, 115, 10], [])" "cooked (nat (sint (100 :: 32 word))) True [] = None" by code_simp+
  have "\<forall>c \<in> set [108, 122, 8, 115, 13 :: 32 word]. c < 256" by simp
  note T = console_line_editor[OF S(2-4) i(1) this]
  have "\<exists>t. consoleintr [108, 122, 8, 115, 13] ?s = Ok () t \<and> both (input t) = ([108, 115, 10], [])"
    using conjunct1[OF T] unfolding i(2) f by auto
  moreover note R = conjunct1[OF conjunct2[OF T], rule_format]
  have "\<exists>v. consoleread 0 100 ?u = Ok (of_nat (length [108, 115, 10 :: byte]), [108, 115, 10]) v \<and> both (input v) = ([], editing (input ?u))"
    using R[of 0 0 ?u 100] U(5-7) j c(1) by auto
  moreover have "\<exists>v. consoleread 0 100 ?s = Slept v \<and> chan (procs v ! 0) = Some ChInput"
    using R[of 0 0 ?s 100] S(5-7) i c(2) by (auto simp: both_def)
  ultimately show ?thesis by (auto simp: both_def)
qed

end
