(* ===== verification/Kbd.thy ===== *)
theory Kbd imports Console
begin

text \<open>
  The PC keyboard, \<open>kbd.c\<close> with the tables of \<open>kbd.h\<close>: a state machine on scan codes whose state is the
  static variable \<open>shift\<close>.  The controller is the list of the scan codes it will deliver; when it is empty
  the status port has \<open>KBS_DIB\<close> clear.
\<close>

unbundle bit_operations_syntax

section \<open>Tables\<close>

text \<open>An array of 256 bytes with positional and designated initialisers.\<close>

definition overlay :: "byte list \<Rightarrow> (nat \<times> byte) list \<Rightarrow> byte list" where
  "overlay xs ds = fold (\<lambda>(i, v) t. t[i := v]) ds (xs @ replicate (256 - length xs) 0)"

abbreviation (input) SHIFT :: "32 word" where "SHIFT \<equiv> 1"
abbreviation (input) CTL :: "32 word" where "CTL \<equiv> 2"
abbreviation (input) ALT :: "32 word" where "ALT \<equiv> 4"
abbreviation (input) CAPSLOCK :: "32 word" where "CAPSLOCK \<equiv> 8"
abbreviation (input) E0ESC :: "32 word" where "E0ESC \<equiv> 64"

definition shiftcode :: "byte list" where
  "shiftcode = overlay [] [(0x1D, 2), (0x2A, 1), (0x36, 1), (0x38, 4), (0x9D, 2), (0xB8, 4)]"

definition togglecode :: "byte list" where
  "togglecode = overlay [] [(0x3A, 8), (0x45, 16), (0x46, 32)]"

definition normalmap :: "byte list" where
  "normalmap = overlay [
     0, 27, 49, 50, 51, 52, 53, 54,
     55, 56, 57, 48, 45, 61, 8, 9,
     113, 119, 101, 114, 116, 121, 117, 105,
     111, 112, 91, 93, 10, 0, 97, 115,
     100, 102, 103, 104, 106, 107, 108, 59,
     39, 96, 0, 92, 122, 120, 99, 118,
     98, 110, 109, 44, 46, 47, 0, 42,
     0, 32, 0, 0, 0, 0, 0, 0,
     0, 0, 0, 0, 0, 0, 0, 55,
     56, 57, 45, 52, 53, 54, 43, 49,
     50, 51, 48, 46, 0, 0, 0, 0]
     [(0x9C, 10), (0xB5, 47), (0xC8, 0xE2), (0xD0, 0xE3), (0xC9, 0xE6), (0xD1, 0xE7), (0xCB, 0xE4), (0xCD, 0xE5), (0x97, 0xE0), (0xCF, 0xE1), (0xD2, 0xE8), (0xD3, 0xE9)]"

definition shiftmap :: "byte list" where
  "shiftmap = overlay [
     0, 27, 33, 64, 35, 36, 37, 94,
     38, 42, 40, 41, 95, 43, 8, 9,
     81, 87, 69, 82, 84, 89, 85, 73,
     79, 80, 123, 125, 10, 0, 65, 83,
     68, 70, 71, 72, 74, 75, 76, 58,
     34, 126, 0, 124, 90, 88, 67, 86,
     66, 78, 77, 60, 62, 63, 0, 42,
     0, 32, 0, 0, 0, 0, 0, 0,
     0, 0, 0, 0, 0, 0, 0, 55,
     56, 57, 45, 52, 53, 54, 43, 49,
     50, 51, 48, 46, 0, 0, 0, 0]
     [(0x9C, 10), (0xB5, 47), (0xC8, 0xE2), (0xD0, 0xE3), (0xC9, 0xE6), (0xD1, 0xE7), (0xCB, 0xE4), (0xCD, 0xE5), (0x97, 0xE0), (0xCF, 0xE1), (0xD2, 0xE8), (0xD3, 0xE9)]"

definition ctlmap :: "byte list" where
  "ctlmap = overlay [
     0, 0, 0, 0, 0, 0, 0, 0,
     0, 0, 0, 0, 0, 0, 0, 0,
     17, 23, 5, 18, 20, 25, 21, 9,
     15, 16, 0, 0, 13, 0, 1, 19,
     4, 6, 7, 8, 10, 11, 12, 0,
     0, 0, 0, 28, 26, 24, 3, 22,
     2, 14, 13, 0, 0, -17, 0, 0]
     [(0x9C, 13), (0xB5, -17), (0xC8, 0xE2), (0xD0, 0xE3), (0xC9, 0xE6), (0xD1, 0xE7), (0xCB, 0xE4), (0xCD, 0xE5), (0x97, 0xE0), (0xCF, 0xE1), (0xD2, 0xE8), (0xD3, 0xE9)]"

section \<open>Scan codes\<close>

text \<open>One call: the result and the new value of \<open>shift\<close>.\<close>

definition charcode :: "32 word \<Rightarrow> byte list" where
  "charcode i = (if i = 0 then normalmap else if i = 1 then shiftmap else ctlmap)"

definition kbd_caps :: "32 word \<Rightarrow> 32 word" where
  "kbd_caps c = (if 97 \<le> c \<and> c \<le> 122 then c - 32 else if 65 \<le> c \<and> c \<le> 90 then c + 32 else c)"

definition kbdgetc :: "32 word \<Rightarrow> byte option \<Rightarrow> 32 word \<times> 32 word" where
  "kbdgetc shift port =
     (case port of None \<Rightarrow> (- 1, shift)
      | Some data \<Rightarrow>
          if data = 0xE0 then (0, shift OR E0ESC)
          else if data AND 0x80 \<noteq> 0 then
            let data = (if shift AND E0ESC \<noteq> 0 then data else data AND 0x7F)
            in (0, shift AND NOT (ucast (shiftcode ! unat data) OR E0ESC))
          else
            let (data, shift) = (if shift AND E0ESC \<noteq> 0 then (data OR 0x80, shift AND NOT E0ESC) else (data, shift));
                shift = shift OR ucast (shiftcode ! unat data);
                shift = shift XOR ucast (togglecode ! unat data);
                c = ucast (charcode (shift AND (CTL OR SHIFT)) ! unat data)
            in (if shift AND CAPSLOCK \<noteq> 0 then kbd_caps c else c, shift))"

text \<open>The calls that \<open>consoleintr\<close> makes until the controller has nothing more.\<close>

primrec kbd_chars :: "32 word \<Rightarrow> byte list \<Rightarrow> 32 word list \<times> 32 word" where
  "kbd_chars shift [] = ([], shift)"
| "kbd_chars shift (d # ds) = (let (c, shift) = kbdgetc shift (Some d); (cs, shift) = kbd_chars shift ds in (c # cs, shift))"

definition kbdintr :: "32 word \<Rightarrow> byte list \<Rightarrow> kernel \<Rightarrow> (32 word) kres" where
  "kbdintr shift codes s =
     (let (cs, shift) = kbd_chars shift codes in bnd (consoleintr cs s) (\<lambda>_ s. Ok shift s))"

section \<open>Letters\<close>

definition letter_keys :: "(byte \<times> byte) list" where
  "letter_keys =
     [(0x10, 113), (0x11, 119), (0x12, 101), (0x13, 114), (0x14, 116), (0x15, 121), (0x16, 117), (0x17, 105), (0x18, 111),
      (0x19, 112), (0x1E, 97), (0x1F, 115), (0x20, 100), (0x21, 102), (0x22, 103), (0x23, 104), (0x24, 106), (0x25, 107),
      (0x26, 108), (0x2C, 122), (0x2D, 120), (0x2E, 99), (0x2F, 118), (0x30, 98), (0x31, 110), (0x32, 109)]"

definition letter_row :: "byte \<times> byte \<Rightarrow> bool" where
  "letter_row = (\<lambda>(k, l). k AND 0x80 = 0 \<and> k \<noteq> 0xE0 \<and> normalmap ! unat k = l \<and> shiftmap ! unat k = l - 32 \<and> ctlmap ! unat k = l - 96
     \<and> shiftcode ! unat k = 0 \<and> togglecode ! unat k = 0 \<and> 97 \<le> l \<and> l \<le> 122)"

lemma overlay_nth: "i < length xs \<Longrightarrow> i \<notin> fst ` set ds \<Longrightarrow> overlay xs ds ! i = xs ! i"
proof -
  assume a: "i < length xs" "i \<notin> fst ` set ds"
  have "fold (\<lambda>(i, v) t. t[i := v]) ds t ! i = t ! i" for t :: "byte list" using a(2) by (induction ds arbitrary: t) (auto simp: case_prod_beta)
  then show ?thesis using a(1) by (simp add: overlay_def nth_append)
qed

lemma overlay_other: "i < 256 \<Longrightarrow> i \<notin> fst ` set ds \<Longrightarrow> overlay [] ds ! i = 0"
proof -
  assume a: "i < 256" "i \<notin> fst ` set ds"
  have "fold (\<lambda>(i, v) t. t[i := v]) ds t ! i = t ! i" for t :: "byte list" using a(2) by (induction ds arbitrary: t) (auto simp: case_prod_beta)
  then show ?thesis using a(1) by (simp add: overlay_def)
qed

lemma letter_rows: "list_all letter_row letter_keys"
  by (simp add: letter_keys_def letter_row_def normalmap_def shiftmap_def ctlmap_def shiftcode_def togglecode_def overlay_nth overlay_other)

text \<open>In every state of the modifiers the key of a letter yields the letter: lower case, upper case when exactly one of shift
  and caps lock is on, and the control character when control is held; the state does not change.\<close>

lemma kbd_letters:
  assumes "(k, l) \<in> set letter_keys" "shift AND E0ESC = 0"
  shows "kbdgetc shift (Some k) =
     (if shift AND CTL \<noteq> 0 then ucast l - 96
      else if (shift AND SHIFT \<noteq> 0) \<noteq> (shift AND CAPSLOCK \<noteq> 0) then ucast l - 32 else ucast l, shift)"
proof -
  have r: "k AND 0x80 = 0" "k \<noteq> 0xE0" "normalmap ! unat k = l" "shiftmap ! unat k = l - 32" "ctlmap ! unat k = l - 96"
     "shiftcode ! unat k = 0" "togglecode ! unat k = 0" "97 \<le> l" "l \<le> 122"
    using letter_rows assms(1) by (auto simp: list_all_iff letter_row_def)
  have lu: "97 \<le> unat l" "unat l \<le> 122" using r(8,9) by (simp_all add: word_le_nat_alt)
  have u: "unat (ucast l :: 32 word) = unat l" using lu(2) by (simp add: unsigned_ucast_eq take_bit_nat_def)
  have s: "unat (l - 32) = unat l - 32" "unat (l - 96) = unat l - 96" using lu by (simp_all add: unat_sub word_le_nat_alt)
  have us: "unat (ucast l - 32 :: 32 word) = unat l - 32" "unat (ucast l - 96 :: 32 word) = unat l - 96"
    using lu u by (simp_all add: unat_sub word_le_nat_alt)
  have w: "ucast (l - 32) = (ucast l - 32 :: 32 word)" "ucast (l - 96) = (ucast l - 96 :: 32 word)"
    using s us lu(2) by (simp_all add: word_unat_eq_iff unsigned_ucast_eq take_bit_nat_def)
  have m: "shift AND 3 = (if shift AND 2 \<noteq> 0 then (if shift AND 1 \<noteq> 0 then 3 else 2) else (if shift AND 1 \<noteq> 0 then 1 else 0))"
  proof -
    have b1: "shift AND 1 = (if bit shift 0 then 1 else 0)" by (rule bit_word_eqI) (auto simp: bit_and_iff bit_1_iff intro!: gr0I)
    have b2: "shift AND 2 = (if bit shift 1 then 2 else 0)" by (rule bit_word_eqI) (auto simp: bit_and_iff bit_2_iff)
    have "shift AND 3 = (shift AND 1) OR (shift AND 2)" by (simp add: bit.conj_disj_distrib[symmetric])
    then show ?thesis unfolding b1 b2 by (cases "bit shift 0"; cases "bit shift 1") simp_all
  qed
  have caps: "kbd_caps (ucast l) = ucast l - 32" "kbd_caps (ucast l - 32) = ucast l" "kbd_caps (ucast l - 96) = ucast l - 96"
    using lu u us by (auto simp: kbd_caps_def word_le_nat_alt)
  show ?thesis using r assms(2) caps by (simp add: kbdgetc_def Let_def m charcode_def w)
qed

end
