(* ===== verification/Mkfs.thy ===== *)
theory Mkfs imports Balloc
begin

text \<open>
  The host program \<open>mkfs.c\<close>, which builds the disk image that the kernel boots from.  The image is
  the list of its blocks; \<open>assert\<close> and the error exits are the outcome \<open>Panic\<close>.  The numbers that
  \<open>xshort\<close> and \<open>xint\<close> bring into Intel byte order are stored by the little-endian \<open>put16\<close> and
  \<open>put32\<close> of the kernel model, and an on-disk inode is the part of the record \<open>inode\<close> that
  \<open>write_dinode\<close> stores.  A file to copy is its name and, if it can be opened, the byte strings
  that the successive reads return.
\<close>

section \<open>Layout\<close>

abbreviation (input) FSSIZE :: nat where "FSSIZE \<equiv> 1000"
abbreviation (input) NINODES :: nat where "NINODES \<equiv> 200"

definition nbitmap :: nat where "nbitmap = FSSIZE div (BSIZE * 8) + 1"
definition ninodeblocks :: nat where "ninodeblocks = NINODES div 8 + 1"
definition nlog :: nat where "nlog = LOGSIZE"
definition nmeta :: nat where "nmeta = 2 + nlog + ninodeblocks + nbitmap"
definition nblocks :: nat where "nblocks = FSSIZE - nmeta"

lemma layout [simp]: "nbitmap = 1" "ninodeblocks = 26" "nlog = 30" "nmeta = 59" "nblocks = 941"
  by (simp_all add: nbitmap_def ninodeblocks_def nlog_def nmeta_def nblocks_def)

definition mkfs_sb :: superblock where
  "mkfs_sb = \<lparr>sb_size = of_nat FSSIZE, sb_nblocks = of_nat nblocks, sb_ninodes = of_nat NINODES, sb_nlog = of_nat nlog,
     sb_logstart = 2, sb_inodestart = of_nat (2 + nlog), sb_bmapstart = of_nat (2 + nlog + ninodeblocks)\<rparr>"

record mkfs =
  img :: "block list"
  freeinode :: "32 word"
  freeblock :: "32 word"

type_synonym 'a mres = "('a, mkfs) outcome"

section \<open>Sectors and inodes\<close>

text \<open>The offset of a sector is computed in 32 bits.  A write behind the end makes the file longer, a read there is short.\<close>

definition sector :: "32 word \<Rightarrow> nat" where
  "sector sec = unat (sec * of_nat BSIZE) div BSIZE"

definition wsect :: "32 word \<Rightarrow> block \<Rightarrow> mkfs \<Rightarrow> unit mres" where
  "wsect sec buf m =
     (let n = sector sec;
          gap = replicate (n + 1 - length (img m)) (replicate BSIZE 0)
      in Ok () (m\<lparr>img := (img m @ gap)[n := buf]\<rparr>))"

definition rsect :: "32 word \<Rightarrow> mkfs \<Rightarrow> block mres" where
  "rsect sec m = (if sector sec < length (img m) then Ok (img m ! sector sec) m else Panic ''read'')"

lemma sect_in:
  assumes "unat sec < length (img m)" "length (img m) = 1000"
  shows "rsect sec m = Ok (img m ! unat sec) m" "wsect sec buf m = Ok () (m\<lparr>img := (img m)[unat sec := buf]\<rparr>)"
proof -
  have "unat (sec * 512) = unat sec * 512" using assms by (simp add: unat_word_ariths)
  then have "sector sec = unat sec" by (simp add: sector_def)
  then show "rsect sec m = Ok (img m ! unat sec) m" "wsect sec buf m = Ok () (m\<lparr>img := (img m)[unat sec := buf]\<rparr>)"
    using assms by (simp_all add: rsect_def wsect_def)
qed

definition dinode0 :: inode where
  "dinode0 = \<lparr>i_dev = 0, i_inum = 0, i_ref = 0, i_lock = sleeplock0, i_valid = False, i_type = 0, i_major = 0, i_minor = 0,
     i_nlink = 0, i_size = 0, i_addrs = replicate 13 0\<rparr>"

definition inode_block :: "32 word \<Rightarrow> 32 word" where
  "inode_block inum = inum div IPB + sb_inodestart mkfs_sb"

definition winode :: "32 word \<Rightarrow> inode \<Rightarrow> mkfs \<Rightarrow> unit mres" where
  "winode inum ip m =
     bnd (rsect (inode_block inum) m) (\<lambda>buf m.
     wsect (inode_block inum) (write_dinode buf (unat (inum mod IPB)) ip) m)"

definition rinode :: "32 word \<Rightarrow> mkfs \<Rightarrow> inode mres" where
  "rinode inum m =
     bnd (rsect (inode_block inum) m) (\<lambda>buf m. Ok (read_dinode buf (unat (inum mod IPB)) dinode0) m)"

definition mkfs_ialloc :: "16 word \<Rightarrow> mkfs \<Rightarrow> (32 word) mres" where
  "mkfs_ialloc ty m =
     (let inum = freeinode m in
      bnd (winode inum (dinode0\<lparr>i_type := ty, i_nlink := 1\<rparr>) (m\<lparr>freeinode := freeinode m + 1\<rparr>)) (\<lambda>_ m. Ok inum m))"

definition mkfs_balloc :: "nat \<Rightarrow> mkfs \<Rightarrow> unit mres" where
  "mkfs_balloc used m =
     (if \<not> used < BSIZE * 8 then Panic ''assert''
      else wsect (sb_bmapstart mkfs_sb) (fold (\<lambda>i buf. set_bit_at buf i) [0..<used] (replicate BSIZE 0)) m)"

section \<open>Appending to a file\<close>

text \<open>The block \<open>x\<close> that holds block \<open>fbn\<close> of the file, allocated if necessary.\<close>

definition new_block :: "mkfs \<Rightarrow> 32 word \<times> mkfs" where
  "new_block m = (freeblock m, m\<lparr>freeblock := freeblock m + 1\<rparr>)"

definition iappend_block :: "inode \<Rightarrow> nat \<Rightarrow> mkfs \<Rightarrow> (inode \<times> 32 word) mres" where
  "iappend_block din fbn m =
     (if fbn < NDIRECT then
        if i_addrs din ! fbn = 0 then
          let (x, m) = new_block m in Ok (din\<lparr>i_addrs := (i_addrs din)[fbn := x]\<rparr>, x) m
        else Ok (din, i_addrs din ! fbn) m
      else
        let (din, m) = (if i_addrs din ! NDIRECT = 0
               then let (x, m) = new_block m in (din\<lparr>i_addrs := (i_addrs din)[NDIRECT := x]\<rparr>, m)
               else (din, m))
        in bnd (rsect (i_addrs din ! NDIRECT) m) (\<lambda>indirect m.
          if get32 indirect (4 * (fbn - NDIRECT)) = 0 then
            let (x, m) = new_block m;
                indirect = put32 indirect (4 * (fbn - NDIRECT)) x
            in bnd (wsect (i_addrs din ! NDIRECT) indirect m) (\<lambda>_ m. Ok (din, x) m)
          else Ok (din, get32 indirect (4 * (fbn - NDIRECT))) m))"

function iappend_loop :: "byte list \<Rightarrow> inode \<Rightarrow> nat \<Rightarrow> mkfs \<Rightarrow> (inode \<times> nat) mres" where
  "iappend_loop p din off m =
     (if p = [] then Ok (din, off) m
      else
        let fbn = off div BSIZE in
        if \<not> fbn < MAXFILE then Panic ''assert''
        else bnd (iappend_block din fbn m) (\<lambda>(din, x) m.
          let n1 = min (length p) ((fbn + 1) * BSIZE - off) in
          bnd (rsect x m) (\<lambda>buf m.
          bnd (wsect x (overwrite (off - fbn * BSIZE) (take n1 p) buf) m) (\<lambda>_ m.
            iappend_loop (drop n1 p) din (off + n1) m))))"
  by pat_completeness auto
termination
proof (relation "measure (\<lambda>(p, din, off, m). length p)", goal_cases)
  case prems: (2 p din off)
  have "off < (off div 512 + 1) * 512" by (simp add: dividend_less_div_times add.commute)
  then show ?case using prems by simp
qed simp

declare iappend_loop.simps [simp del]

definition iappend :: "32 word \<Rightarrow> byte list \<Rightarrow> mkfs \<Rightarrow> unit mres" where
  "iappend inum p m =
     bnd (rinode inum m) (\<lambda>din m.
     bnd (iappend_loop p din (unat (i_size din)) m) (\<lambda>(din, off) m.
     winode inum (din\<lparr>i_size := of_nat off\<rparr>) m))"

section \<open>The mkfs_image\<close>

text \<open>\<open>while((cc = read(fd, buf, sizeof(buf))) > 0) iappend(inum, buf, cc);\<close>\<close>

primrec copy_file :: "32 word \<Rightarrow> byte list list \<Rightarrow> mkfs \<Rightarrow> unit mres" where
  "copy_file inum [] m = Ok () m"
| "copy_file inum (r # rs) m =
     (if r = [] then Ok () m else bnd (iappend inum r m) (\<lambda>_ m. copy_file inum rs m))"

definition skip_underscore :: "byte list \<Rightarrow> byte list" where
  "skip_underscore name = (if name \<noteq> [] \<and> hd name = 95 then tl name else name)"

definition add_file :: "byte list \<times> byte list list option \<Rightarrow> mkfs \<Rightarrow> unit mres" where
  "add_file = (\<lambda>(name, opened) m.
     if slash \<in> set name then Panic ''assert''
     else case opened of None \<Rightarrow> Panic ''open''
     | Some reads \<Rightarrow>
       bnd (mkfs_ialloc T_FILE m) (\<lambda>inum m.
       bnd (iappend 1 (dirent_bytes (ucast inum) (skip_underscore name @ [0])) m) (\<lambda>_ m.
       copy_file inum reads m)))"

primrec add_files :: "(byte list \<times> byte list list option) list \<Rightarrow> mkfs \<Rightarrow> unit mres" where
  "add_files [] m = Ok () m"
| "add_files (f # fs) m = bnd (add_file f m) (\<lambda>_ m. add_files fs m)"

definition fix_root :: "mkfs \<Rightarrow> unit mres" where
  "fix_root m =
     bnd (rinode 1 m) (\<lambda>din m.
     winode 1 (din\<lparr>i_size := (i_size din div of_nat BSIZE + 1) * of_nat BSIZE\<rparr>) m)"

text \<open>The empty image: zeroes and the super block.\<close>

definition sb_block :: block where
  "sb_block = fold (\<lambda>(i, v) d. put32 d i v)
     [(0, sb_size mkfs_sb), (4, sb_nblocks mkfs_sb), (8, sb_ninodes mkfs_sb), (12, sb_nlog mkfs_sb), (16, sb_logstart mkfs_sb),
      (20, sb_inodestart mkfs_sb), (24, sb_bmapstart mkfs_sb)] (replicate BSIZE 0)"

definition blank :: mkfs where
  "blank = \<lparr>img = (replicate FSSIZE (replicate BSIZE 0))[1 := sb_block], freeinode = 1, freeblock = of_nat nmeta\<rparr>"

definition mkfs_main :: "(byte list \<times> byte list list option) list \<Rightarrow> unit mres" where
  "mkfs_main inputs =
     bnd (mkfs_ialloc T_DIR blank) (\<lambda>rootino m.
       if rootino \<noteq> 1 then Panic ''assert''
       else bnd (iappend 1 (dirent_bytes 1 [46, 0]) m) (\<lambda>_ m.
         bnd (iappend 1 (dirent_bytes 1 [46, 46, 0]) m) (\<lambda>_ m.
         bnd (add_files inputs m) (\<lambda>_ m.
         bnd (fix_root m) (\<lambda>_ m.
         mkfs_balloc (unat (freeblock m)) m)))))"

section \<open>The blocks of a file\<close>

abbreviation dsk :: "mkfs \<Rightarrow> 32 word \<Rightarrow> block" where
  "dsk m \<equiv> (\<lambda>b. img m ! unat b)"

abbreviation fb :: "mkfs \<Rightarrow> nat" where
  "fb m \<equiv> unat (freeblock m)"

definition nb :: "nat \<Rightarrow> nat" where
  "nb off = (off + 511) div 512"

text \<open>The blocks a file of \<open>K\<close> data blocks takes, the indirect block included.\<close>

definition taking :: "nat \<Rightarrow> nat" where
  "taking K = (if NDIRECT < K then K + 1 else K)"

definition img_ok :: "mkfs \<Rightarrow> bool" where
  "img_ok m \<longleftrightarrow> length (img m) = FSSIZE \<and> (\<forall>x \<in> set (img m). length x = 512) \<and> 59 \<le> fb m \<and> fb m \<le> FSSIZE
     \<and> (\<forall>b. fb m \<le> b \<and> b < FSSIZE \<longrightarrow> img m ! b = replicate BSIZE 0)"

definition fok :: "inode \<Rightarrow> nat \<Rightarrow> mkfs \<Rightarrow> bool" where
  "fok din K m \<longleftrightarrow> (let F = fblk (dsk m) (i_addrs din); ib = i_addrs din ! NDIRECT in
     K \<le> MAXFILE \<and> length (i_addrs din) = 13 \<and> (\<forall>k < K. 59 \<le> unat (F k) \<and> unat (F k) < fb m) \<and> inj_on F {..<K}
     \<and> (\<forall>k. K \<le> k \<and> k < NDIRECT \<longrightarrow> i_addrs din ! k = 0) \<and> (K \<le> NDIRECT \<longrightarrow> ib = 0)
     \<and> (NDIRECT < K \<longrightarrow> 59 \<le> unat ib \<and> unat ib < fb m \<and> (\<forall>k < K. F k \<noteq> ib) \<and> (\<forall>k. K \<le> k \<and> k < MAXFILE \<longrightarrow> F k = 0)))"

definition owned :: "inode \<Rightarrow> nat \<Rightarrow> mkfs \<Rightarrow> nat set" where
  "owned din K m = (\<lambda>k. unat (fblk (dsk m) (i_addrs din) k)) ` {..<K} \<union> (if NDIRECT < K then {unat (i_addrs din ! NDIRECT)} else {})"

lemma fblk_direct: "k < NDIRECT \<Longrightarrow> fblk v ad k = ad ! k"
  by (simp add: fblk_def)

lemma get32_zeros: "k + 4 \<le> n \<Longrightarrow> get32 (replicate n 0) k = 0"
  by (simp add: get32_def load32_def)

lemma img_okD:
  assumes "img_ok m" "b < 1000"
  shows "length (img m) = 1000" "length (img m ! b) = 512"
  using assms nth_mem[of b "img m"] by (auto simp: img_ok_def)

text \<open>What \<open>iappend_block\<close> gives: block \<open>n\<close> of the file, the last one.\<close>

definition got_block :: "inode \<Rightarrow> nat \<Rightarrow> nat \<Rightarrow> mkfs \<Rightarrow> inode \<Rightarrow> 32 word \<Rightarrow> mkfs \<Rightarrow> bool" where
  "got_block din K n m din' x m' \<longleftrightarrow> din' = din\<lparr>i_addrs := i_addrs din'\<rparr> \<and> fok din' (n + 1) m' \<and> img_ok m' \<and> x = fblk (dsk m') (i_addrs din') n
     \<and> fb m' = fb m + taking (n + 1) - taking K \<and> freeinode m' = freeinode m
     \<and> (\<forall>k < n. fblk (dsk m') (i_addrs din') k = fblk (dsk m) (i_addrs din) k \<and> dsk m' (fblk (dsk m) (i_addrs din) k) = dsk m (fblk (dsk m) (i_addrs din) k))
     \<and> (\<forall>b. b < fb m \<and> b \<notin> owned din K m \<longrightarrow> img m' ! b = img m ! b)
     \<and> owned din' (n + 1) m' \<subseteq> owned din K m \<union> {fb m..<fb m'}"

lemma block_there:
  assumes "fok din K m" "img_ok m" "K = n + 1"
  shows "iappend_block din n m = Ok (din, fblk (dsk m) (i_addrs din) n) m" "got_block din K n m din (fblk (dsk m) (i_addrs din) n) m"
proof -
  let ?x = "fblk (dsk m) (i_addrs din) n"
  have x: "59 \<le> unat ?x" using assms(1,3) by (simp add: fok_def Let_def)
  then have x0: "?x \<noteq> 0" by auto
  show "iappend_block din n m = Ok (din, ?x) m"
  proof (cases "n < 12")
    case True
    then show ?thesis using x0 by (simp add: iappend_block_def fblk_def)
  next
    case False
    then have ib: "59 \<le> unat (i_addrs din ! 12)" "unat (i_addrs din ! 12) < 1000" using assms by (auto simp: fok_def img_ok_def Let_def)
    then have i0: "i_addrs din ! 12 \<noteq> 0" by auto
    have "get32 (img m ! unat (i_addrs din ! 12)) (4 * (n - 12)) = ?x" using False by (simp add: fblk_def)
    then show ?thesis using False x0 i0 ib(2) img_okD(1)[OF assms(2) ib(2)] by (simp add: iappend_block_def sect_in)
  qed
  show "got_block din K n m din ?x m" using assms by (auto simp: got_block_def owned_def)
qed

lemma fokD:
  assumes "fok din K m"
  shows "K \<le> 140" "length (i_addrs din) = 13" "k < K \<Longrightarrow> 59 \<le> unat (fblk (dsk m) (i_addrs din) k)" "k < K \<Longrightarrow> unat (fblk (dsk m) (i_addrs din) k) < fb m"
    "inj_on (fblk (dsk m) (i_addrs din)) {..<K}" "K \<le> k \<Longrightarrow> k < 12 \<Longrightarrow> i_addrs din ! k = 0" "K \<le> 12 \<Longrightarrow> i_addrs din ! 12 = 0"
    "12 < K \<Longrightarrow> 59 \<le> unat (i_addrs din ! 12)" "12 < K \<Longrightarrow> unat (i_addrs din ! 12) < fb m" "12 < K \<Longrightarrow> k < K \<Longrightarrow> fblk (dsk m) (i_addrs din) k \<noteq> i_addrs din ! 12"
    "12 < K \<Longrightarrow> K \<le> k \<Longrightarrow> k < 140 \<Longrightarrow> fblk (dsk m) (i_addrs din) k = 0"
  using assms by (auto simp: fok_def Let_def)

lemma inj_extend: "inj_on f {..<n :: nat} \<Longrightarrow> (\<forall>k < n. g k = f k) \<Longrightarrow> (\<forall>k < n. f k \<noteq> g n) \<Longrightarrow> inj_on g {..<n + 1}"
  by (simp add: lessThan_Suc) (auto simp: inj_on_def)

lemma block_new_direct:
  assumes f: "fok din n m" and i: "img_ok m" and n: "n < 12" and r: "fb m < 1000"
  shows "\<exists>din' x m'. iappend_block din n m = Ok (din', x) m' \<and> got_block din n n m din' x m' \<and> dsk m' x = replicate 512 0"
proof -
  let ?x = "freeblock m"
  define din' where "din' = din\<lparr>i_addrs := (i_addrs din)[n := ?x]\<rparr>"
  define m' where "m' = m\<lparr>freeblock := ?x + 1\<rparr>"
  note d = fokD[OF f]
  have u: "fb m' = fb m + 1" using r by (simp add: m'_def unat_word_ariths)
  have im: "img m' = img m" "freeinode m' = freeinode m" by (simp_all add: m'_def)
  have F: "fblk (dsk m') (i_addrs din') k = fblk (dsk m) (i_addrs din) k" if "k < n" for k
    using that n by (simp add: fblk_def din'_def)
  have Fn: "fblk (dsk m') (i_addrs din') n = ?x" using n d(2) by (simp add: fblk_def din'_def)
  have ap: "iappend_block din n m = Ok (din', ?x) m'" using n d(6)[of n] by (simp add: iappend_block_def new_block_def din'_def m'_def)
  have z: "dsk m' ?x = replicate 512 0" using i r by (simp add: img_ok_def im)
  have iok: "img_ok m'" using i r by (auto simp: img_ok_def im u)
  have ne: "\<forall>k < n. fblk (dsk m) (i_addrs din) k \<noteq> ?x" using d(4) by (metis less_irrefl)
  have inj: "inj_on (fblk (dsk m') (i_addrs din')) {..<n + 1}" by (rule inj_extend[OF d(5)]) (use F Fn ne in auto)
  have rng: "59 \<le> unat (fblk (dsk m') (i_addrs din') k) \<and> unat (fblk (dsk m') (i_addrs din') k) < fb m'" if "k < n + 1" for k
    using that F[of k] Fn d(3,4)[of k] i u by (cases "k = n") (auto simp: img_ok_def)
  have "fok din' (n + 1) m'" unfolding fok_def Let_def
    using n d(2,6,7) inj rng by (auto simp: din'_def)
  moreover have "owned din' (n + 1) m' \<subseteq> owned din n m \<union> {fb m..<fb m'}"
    using F Fn n u by (auto simp: owned_def less_Suc_eq)
  ultimately have "got_block din n n m din' ?x m'" unfolding got_block_def
    using iok Fn F im u n by (auto simp: taking_def din'_def)
  then show ?thesis using ap z by blast
qed

lemma block_new_indirect:
  assumes f: "fok din n m" and i: "img_ok m" and n: "12 \<le> n" "n < 140" and r: "fb m + (if n = 12 then 2 else 1) \<le> 1000"
  shows "\<exists>din' x m'. iappend_block din n m = Ok (din', x) m' \<and> got_block din n n m din' x m' \<and> dsk m' x = replicate 512 0"
proof -
  note d = fokD[OF f]
  define ib where "ib = (if n = 12 then freeblock m else i_addrs din ! 12)"
  define x where "x = (if n = 12 then freeblock m + 1 else freeblock m)"
  define din' where "din' = din\<lparr>i_addrs := (i_addrs din)[12 := ib]\<rparr>"
  define m' where "m' = m\<lparr>freeblock := x + 1, img := (img m)[unat ib := put32 (img m ! unat ib) (4 * (n - 12)) x]\<rparr>"
  have fb1: "59 \<le> fb m" "fb m < 1000" "length (img m) = 1000" using i r by (auto simp: img_ok_def split: if_splits)
  have ux: "unat x = (if n = 12 then fb m + 1 else fb m)" "unat (x + 1) = unat x + 1" using r fb1 by (auto simp: x_def unat_word_ariths)
  have u: "fb m' = unat x + 1" using ux(2) by (simp add: m'_def)
  have ib: "unat ib < 1000" "59 \<le> unat ib" "ib \<noteq> 0" "unat ib < unat x"
    using n d(8,9) fb1 ux(1) by (auto simp: ib_def)
  have a12: "(i_addrs din)[12 := ib] = i_addrs din" if "n \<noteq> 12" using that by (simp add: ib_def)
  have l: "length (img m ! unat ib) = 512" using img_okD(2)[OF i ib(1)] .
  have old: "get32 (img m ! unat ib) (4 * (k - 12)) = (if n = 12 then 0 else fblk (dsk m) (i_addrs din) k)" if "12 \<le> k" "k < 140" for k
  proof (cases "n = 12")
    case True
    then have "img m ! unat ib = replicate 512 0" using i fb1 by (simp add: img_ok_def ib_def)
    then show ?thesis using True that get32_zeros[of "4 * (k - 12)" 512] by simp
  qed (use that in \<open>simp add: ib_def fblk_def\<close>)
  have ap: "iappend_block din n m = Ok (din', x) m'"
  proof (cases "n = 12")
    case True
    then show ?thesis using d(2) d(7) old[of 12] ib(1) fb1 ux
      by (simp add: iappend_block_def new_block_def sect_in din'_def m'_def ib_def x_def)
  next
    case False
    then have "get32 (img m ! unat ib) (4 * (n - 12)) = 0" using old[of n] d(11)[of n] n by simp
    then show ?thesis using False d(2) n ib fb1
      by (simp add: iappend_block_def new_block_def sect_in din'_def m'_def ib_def x_def)
  qed
  have im: "img m' = (img m)[unat ib := put32 (img m ! unat ib) (4 * (n - 12)) x]" "freeinode m' = freeinode m" by (simp_all add: m'_def)
  have ad: "i_addrs din' ! 12 = ib" "k < 12 \<Longrightarrow> i_addrs din' ! k = i_addrs din ! k" "length (i_addrs din') = 13" for k using d(2) by (simp_all add: din'_def)
  have ind: "fblk (dsk m') (i_addrs din') k = (if k = n then x else if n = 12 then 0 else fblk (dsk m) (i_addrs din) k)" if "12 \<le> k" "k < 140" for k
  proof -
    have "img m' ! unat ib = put32 (img m ! unat ib) (4 * (n - 12)) x" using ib(1) fb1 by (simp add: im)
    then have e: "fblk (dsk m') (i_addrs din') k = get32 (put32 (img m ! unat ib) (4 * (n - 12)) x) (4 * (k - 12))" using that by (simp add: fblk_def ad)
    show ?thesis
    proof (cases "k = n")
      case True
      then show ?thesis using e l n by simp
    next
      case False
      have "4 * (n - 12) + 4 \<le> 4 * (k - 12) \<or> 4 * (k - 12) + 4 \<le> 4 * (n - 12)" using False that n by auto
      then show ?thesis using e old[OF that] False by (simp add: get32_put32_other)
    qed
  qed
  have Fn: "fblk (dsk m') (i_addrs din') n = x" using ind[of n] n by simp
  have F: "fblk (dsk m') (i_addrs din') k = fblk (dsk m) (i_addrs din) k" if "k < n" for k
  proof (cases "k < 12")
    case True
    then show ?thesis by (simp add: fblk_def ad)
  next
    case False
    then show ?thesis using ind[of k] that n by auto
  qed
  have Fib: "fblk (dsk m) (i_addrs din) k \<noteq> ib" if "k < n" for k
    using d(10)[of k] d(4)[of k] that n by (auto simp: ib_def)
  have keep: "dsk m' (fblk (dsk m) (i_addrs din) k) = dsk m (fblk (dsk m) (i_addrs din) k)" if "k < n" for k
    using Fib[OF that] by (simp add: im nth_list_update_neq word_unat_eq_iff)
  have xl: "unat x < 1000" using r ux(1) by (auto split: if_splits)
  have xi: "unat x \<noteq> unat ib" using ib(4) by simp
  have z: "dsk m' x = replicate 512 0" using i xl ux(1) xi by (simp add: img_ok_def im)
  have "set (img m') \<subseteq> insert (put32 (img m ! unat ib) (4 * (n - 12)) x) (set (img m))" unfolding im by (rule set_update_subset_insert)
  then have ls: "\<forall>y \<in> set (img m'). length y = 512" using i l by (auto simp: img_ok_def)
  have iok: "img_ok m'" using i ls u ux(1) xl ib(4) fb1 unfolding img_ok_def by (auto simp: im)
  have ne: "\<forall>k < n. fblk (dsk m) (i_addrs din) k \<noteq> x" using d(4) ux(1) by (metis less_irrefl trans_less_add1)
  have inj: "inj_on (fblk (dsk m') (i_addrs din')) {..<n + 1}" by (rule inj_extend[OF d(5)]) (use F Fn ne in auto)
  have rng: "59 \<le> unat (fblk (dsk m') (i_addrs din') k) \<and> unat (fblk (dsk m') (i_addrs din') k) < fb m'" if "k < n + 1" for k
    using that F[of k] Fn d(3,4)[of k] fb1 u ux(1) by (cases "k = n") auto
  have "fok din' (n + 1) m'" unfolding fok_def Let_def
    using n ad inj rng ib u ind F Fn Fib xi d(11) by (auto simp: less_Suc_eq)
  moreover have "(\<lambda>k. unat (fblk (dsk m') (i_addrs din') k)) ` {..<n + 1} = insert (unat x) ((\<lambda>k. unat (fblk (dsk m) (i_addrs din) k)) ` {..<n})"
    using F Fn by (simp add: lessThan_Suc)
  then have "owned din' (n + 1) m' \<subseteq> owned din n m \<union> {fb m..<fb m'}"
    using n u ux(1) ad(1) by (cases "n = 12") (auto simp: owned_def ib_def)
  moreover have "img m' ! b = img m ! b" if "b < fb m" "b \<notin> owned din n m" for b
    using that n by (auto simp: im nth_list_update owned_def ib_def split: if_splits)
  moreover have "fb m' = fb m + taking (n + 1) - taking n" using u ux(1) n by (simp add: taking_def)
  ultimately have "got_block din n n m din' x m'" unfolding got_block_def
    using iok Fn F im keep by (auto simp: din'_def)
  then show ?thesis using ap z by blast
qed

lemma nb_simps: "nb off = (if off mod 512 = 0 then off div 512 else off div 512 + 1)"
  "0 < n \<Longrightarrow> off mod 512 + n \<le> 512 \<Longrightarrow> nb (off + n) = off div 512 + 1"
proof -
  define q r where "q = off div 512" and "r = off mod 512"
  have o: "off = 512 * q + r" "r < 512" by (simp_all add: q_def r_def)
  have "(512 * q + r + 511) div 512 = q + (r + 511) div 512" by (simp add: add.assoc)
  moreover have "(r + 511) div 512 = (if r = 0 then 0 else 1)"
  proof (cases "r = 0")
    case False
    then have "512 \<le> r + 511" "r + 511 < 2 * 512" using o(2) by simp_all
    then have "(r + 511) div 512 = 1" by (simp add: div_nat_eqI)
    then show ?thesis using False by simp
  qed simp
  ultimately show "nb off = (if off mod 512 = 0 then off div 512 else off div 512 + 1)"
    unfolding nb_def q_def[symmetric] r_def[symmetric] using o by simp
  assume n: "0 < n" "off mod 512 + n \<le> 512"
  have "off + n + 511 = 512 * (q + 1) + (r + n - 1)" using o n by (simp add: r_def[symmetric])
  moreover have "r + n - 1 < 512" using n by (simp add: r_def[symmetric])
  ultimately have "(off + n + 511) div 512 = q + 1" by (metis add.commute div_mult_self2 div_less add.right_neutral mult.commute zero_neq_numeral div_mult_self4 add_0)
  then show "nb (off + n) = off div 512 + 1" by (simp add: nb_def q_def)
qed

lemma taking_mono: "j \<le> k \<Longrightarrow> taking j \<le> taking k"
  by (simp add: taking_def)

definition appended :: "inode \<Rightarrow> nat \<Rightarrow> mkfs \<Rightarrow> inode \<Rightarrow> mkfs \<Rightarrow> byte list \<Rightarrow> bool" where
  "appended din off m din' m' q \<longleftrightarrow> (let K = nb off; K' = nb (off + length q) in
     din' = din\<lparr>i_addrs := i_addrs din'\<rparr> \<and> fok din' K' m' \<and> img_ok m' \<and> fb m' + taking K = fb m + taking K' \<and> freeinode m' = freeinode m
     \<and> take (off + length q) (content K' (dsk m') (i_addrs din')) = take off (content K (dsk m) (i_addrs din)) @ q
     \<and> (\<forall>b. b < fb m \<and> b \<notin> owned din K m \<longrightarrow> img m' ! b = img m ! b)
     \<and> owned din' K' m' \<subseteq> owned din K m \<union> {fb m..<fb m'})"

lemma nb_mono: "a \<le> b \<Longrightarrow> nb a \<le> nb b"
  by (simp add: nb_def div_le_mono)

lemma appended_nil: "fok din (nb off) m \<Longrightarrow> img_ok m \<Longrightarrow> appended din off m din m []"
  by (simp add: appended_def)

lemma appended_fb: "appended din off m d1 m1 q \<Longrightarrow> fb m \<le> fb m1"
  using taking_mono[OF nb_mono[of off "off + length q"]] by (auto simp: appended_def Let_def)

lemma appended_trans:
  assumes a: "appended din off m d1 m1 q1" and b: "appended d1 (off + length q1) m1 d2 m2 q2"
  shows "appended din off m d2 m2 (q1 @ q2)"
proof -
  have le: "fb m \<le> fb m1" "fb m1 \<le> fb m2" using appended_fb a b by blast+
  let ?K = "nb off" and ?K1 = "nb (off + length q1)" and ?K2 = "nb (off + length q1 + length q2)"
  have a': "d1 = din\<lparr>i_addrs := i_addrs d1\<rparr>" "fb m1 + taking ?K = fb m + taking ?K1" "freeinode m1 = freeinode m"
     "take (off + length q1) (content ?K1 (dsk m1) (i_addrs d1)) = take off (content ?K (dsk m) (i_addrs din)) @ q1"
     "\<forall>b. b < fb m \<and> b \<notin> owned din ?K m \<longrightarrow> img m1 ! b = img m ! b" "owned d1 ?K1 m1 \<subseteq> owned din ?K m \<union> {fb m..<fb m1}"
    using a by (simp_all add: appended_def Let_def)
  have b': "d2 = d1\<lparr>i_addrs := i_addrs d2\<rparr>" "fok d2 ?K2 m2" "img_ok m2" "fb m2 + taking ?K1 = fb m1 + taking ?K2" "freeinode m2 = freeinode m1"
     "take (off + length q1 + length q2) (content ?K2 (dsk m2) (i_addrs d2)) = take (off + length q1) (content ?K1 (dsk m1) (i_addrs d1)) @ q2"
     "\<forall>b. b < fb m1 \<and> b \<notin> owned d1 ?K1 m1 \<longrightarrow> img m2 ! b = img m1 ! b" "owned d2 ?K2 m2 \<subseteq> owned d1 ?K1 m1 \<union> {fb m1..<fb m2}"
    using b by (simp_all add: appended_def Let_def)
  have d: "d2 = din\<lparr>i_addrs := i_addrs d2\<rparr>" using b'(1) a'(1) by (metis inode.surjective inode.update_convs(11))
  have "img m2 ! b = img m ! b" if "b < fb m" "b \<notin> owned din ?K m" for b
  proof -
    have "b \<notin> owned d1 ?K1 m1" using a'(6) that by auto
    then show ?thesis using a'(5) b'(7) that le by auto
  qed
  moreover have "owned d2 ?K2 m2 \<subseteq> owned din ?K m \<union> {fb m..<fb m2}"
  proof
    fix y assume "y \<in> owned d2 ?K2 m2"
    then have "y \<in> owned din ?K m \<or> y \<in> {fb m..<fb m1} \<or> y \<in> {fb m1..<fb m2}" using b'(8) a'(6) by blast
    then show "y \<in> owned din ?K m \<union> {fb m..<fb m2}" using le by auto
  qed
  ultimately show ?thesis using d b'(2,3) a' b' by (simp add: appended_def Let_def add.assoc)
qed

lemma block_ready:
  assumes f: "fok din (nb off) m" and i: "img_ok m" and n: "off div 512 < 140" and r: "fb m + taking (off div 512 + 1) \<le> 1000 + taking (nb off)"
  shows "\<exists>din' x m'. iappend_block din (off div 512) m = Ok (din', x) m' \<and> got_block din (nb off) (off div 512) m din' x m'
     \<and> (off mod 512 = 0 \<longrightarrow> dsk m' x = replicate 512 0) \<and> (off mod 512 \<noteq> 0 \<longrightarrow> m' = m \<and> din' = din)"
proof (cases "off mod 512 = 0")
  case False
  then have K: "nb off = off div 512 + 1" by (simp add: nb_simps(1))
  show ?thesis using block_there[OF f i K] False by auto
next
  case True
  then have K: "nb off = off div 512" by (simp add: nb_simps(1))
  show ?thesis
  proof (cases "off div 512 < 12")
    case d: True
    then have "fb m < 1000" using r K by (simp add: taking_def)
    then show ?thesis using block_new_direct[of din "off div 512" m] f i d True K by auto
  next
    case d: False
    then have "fb m + (if off div 512 = 12 then 2 else 1) \<le> 1000" using r K by (auto simp: taking_def split: if_splits)
    then show ?thesis using block_new_indirect[of din "off div 512" m] f i d n True K by auto
  qed
qed

lemma content_snoc: "content (Suc n) v ad = content n v ad @ v (fblk v ad n)"
  by (simp add: content_def)

lemma content_length: "(\<forall>k < n. length (v (fblk v ad k)) = 512) \<Longrightarrow> length (content n v ad) = 512 * n"
  by (induction n) (simp_all add: content_snoc, simp add: content_def)

lemma write_block:
  assumes f: "fok din (n + 1) m" and i: "img_ok m" and x: "x = fblk (dsk m) (i_addrs din) n" and l: "length B = 512"
  defines "m' \<equiv> m\<lparr>img := (img m)[unat x := B]\<rparr>"
  shows "wsect x B m = Ok () m'" "fok din (n + 1) m'" "img_ok m'" "owned din (n + 1) m' = owned din (n + 1) m"
    "content (n + 1) (dsk m') (i_addrs din) = content n (dsk m) (i_addrs din) @ B" "unat x \<in> owned din (n + 1) m"
proof -
  note d = fokD[OF f]
  have x': "59 \<le> unat x" "unat x < fb m" "unat x < 1000" "length (img m) = 1000" using d(3,4)[of n] x i by (auto simp: img_ok_def)
  show "wsect x B m = Ok () m'" using x' by (simp add: sect_in m'_def)
  have fbm: "fb m' = fb m" "img m' = (img m)[unat x := B]" by (simp_all add: m'_def)
  have other: "dsk m' y = dsk m y" if "y \<noteq> x" for y using that by (simp add: fbm nth_list_update_neq word_unat_eq_iff)
  have ib: "i_addrs din ! 12 \<noteq> x" if "12 < n + 1" using d(10)[OF that, of n] x by auto
  have F: "fblk (dsk m') (i_addrs din) k = fblk (dsk m) (i_addrs din) k" if "k < 12 \<or> 12 < n + 1" for k
    using that other[OF ib] by (auto simp: fblk_def)
  have F1: "fblk (dsk m') (i_addrs din) k = fblk (dsk m) (i_addrs din) k" if "k < n + 1" for k by (rule F) (use that in auto)
  have inj: "inj_on (fblk (dsk m') (i_addrs din)) {..<n + 1}" using d(5) F1 by (auto simp: inj_on_def)
  show "fok din (n + 1) m'" unfolding fok_def Let_def using d F F1 inj by (auto simp: fbm(1))
  have "set (img m') \<subseteq> insert B (set (img m))" unfolding fbm by (rule set_update_subset_insert)
  then show "img_ok m'" using i x' l unfolding img_ok_def fbm(1) by (auto simp: fbm(2))
  show "owned din (n + 1) m' = owned din (n + 1) m" using F1 by (auto simp: owned_def)
  show "unat x \<in> owned din (n + 1) m" using x by (auto simp: owned_def)
  have "fblk (dsk m) (i_addrs din) k \<noteq> x" if "k < n" for k using d(5) that x by (auto simp: inj_on_def)
  then have "map (\<lambda>k. dsk m' (fblk (dsk m') (i_addrs din) k)) [0..<n] = map (\<lambda>k. dsk m (fblk (dsk m) (i_addrs din) k)) [0..<n]"
    using F1 other by simp
  moreover have "dsk m' (fblk (dsk m') (i_addrs din) n) = B" using F1[of n] x x' by (simp add: fbm(2))
  ultimately show "content (n + 1) (dsk m') (i_addrs din) = content n (dsk m) (i_addrs din) @ B"
    unfolding content_def by (simp only: Suc_eq_plus1[symmetric] upt_Suc_append[OF zero_le] map_append concat_append list.map concat.simps append_Nil2)
qed

lemma append_chunk:
  assumes f: "fok din (nb off) m" and i: "img_ok m" and p: "p \<noteq> []" and n1: "n1 = min (length p) ((off div 512 + 1) * 512 - off)"
    and lim: "off + n1 \<le> 140 * 512" and r: "fb m + taking (nb (off + n1)) \<le> 1000 + taking (nb off)"
  shows "\<exists>din' x m1 m2. iappend_block din (off div 512) m = Ok (din', x) m1 \<and> rsect x m1 = Ok (img m1 ! unat x) m1
     \<and> wsect x (overwrite (off - off div 512 * 512) (take n1 p) (img m1 ! unat x)) m1 = Ok () m2 \<and> appended din off m din' m2 (take n1 p)"
proof -
  let ?n = "off div 512" and ?q = "take n1 p" and ?o = "off mod 512"
  have off: "off = 512 * ?n + ?o" and om: "?o < 512" by simp_all
  have "(q + 1) * 512 - (512 * q + s) = 512 - s" for q s :: nat by simp
  from this[of ?n ?o] have o: "off - ?n * 512 = ?o" "(?n + 1) * 512 - off = 512 - ?o"
    by (simp add: minus_div_mult_eq_mod, simp only: off[symmetric])
  have n1': "0 < n1" "?o + n1 \<le> 512" "length ?q = n1" using n1 p om unfolding o(2) by auto
  have K: "nb (off + n1) = ?n + 1" by (rule nb_simps(2)[OF n1'(1,2)])
  have n140: "?n < 140" using lim n1'(1) by (simp add: div_less_iff_less_mult)
  obtain din' x m1 where b: "iappend_block din ?n m = Ok (din', x) m1" "got_block din (nb off) ?n m din' x m1"
     "?o = 0 \<longrightarrow> dsk m1 x = replicate 512 0" "?o \<noteq> 0 \<longrightarrow> m1 = m \<and> din' = din"
    using block_ready[OF f i n140] r K by auto
  have g: "din' = din\<lparr>i_addrs := i_addrs din'\<rparr>" "fok din' (?n + 1) m1" "img_ok m1" "x = fblk (dsk m1) (i_addrs din') ?n"
     "fb m1 = fb m + taking (?n + 1) - taking (nb off)" "freeinode m1 = freeinode m"
     "\<forall>k < ?n. fblk (dsk m1) (i_addrs din') k = fblk (dsk m) (i_addrs din) k \<and> dsk m1 (fblk (dsk m) (i_addrs din) k) = dsk m (fblk (dsk m) (i_addrs din) k)"
     "\<forall>b. b < fb m \<and> b \<notin> owned din (nb off) m \<longrightarrow> img m1 ! b = img m ! b" "owned din' (?n + 1) m1 \<subseteq> owned din (nb off) m \<union> {fb m..<fb m1}"
    using b(2) unfolding got_block_def by blast+
  have x: "unat x < 1000" "length (img m1 ! unat x) = 512"
    using fokD(4)[OF g(2), of ?n] g(3,4) img_okD(2)[OF g(3)] by (auto simp: img_ok_def)
  define B where "B = overwrite ?o ?q (img m1 ! unat x)"
  have lB: "length B = 512" using x(2) n1' by (simp add: B_def length_overwrite)
  note w = write_block[OF g(2,3,4) lB]
  let ?m2 = "m1\<lparr>img := (img m1)[unat x := B]\<rparr>"
  have cm: "content ?n (dsk m1) (i_addrs din') = content ?n (dsk m) (i_addrs din)" 
    unfolding content_def by (intro arg_cong[where f = concat] map_cong refl) (use g(7) in simp)
  have lc: "length (content ?n (dsk m) (i_addrs din)) = 512 * ?n"
  proof (rule content_length, intro allI impI)
    fix k assume "k < ?n"
    then have "unat (fblk (dsk m) (i_addrs din) k) < 1000" using fokD(4)[OF f, of k] i nb_simps(1)[of off] by (auto simp: img_ok_def split: if_splits)
    then show "length (dsk m (fblk (dsk m) (i_addrs din) k)) = 512" using img_okD(2)[OF i] by simp
  qed
  have old: "take off (content (nb off) (dsk m) (i_addrs din)) = content ?n (dsk m) (i_addrs din) @ take ?o (img m1 ! unat x)"
  proof (cases "?o = 0")
    case True
    then show ?thesis using lc off nb_simps(1)[of off] by simp
  next
    case False
    then have "content (nb off) (dsk m) (i_addrs din) = content ?n (dsk m) (i_addrs din) @ img m1 ! unat x"
      using nb_simps(1)[of off] b(4) g(4) by (simp add: content_snoc)
    then show ?thesis using lc by (simp add: minus_mult_div_eq_mod)
  qed
  have tB: "take (?o + n1) B = take ?o (img m1 ! unat x) @ ?q" using x(2) n1' by (simp add: B_def overwrite_def)
  have "512 * q + s + n1 - 512 * q = s + n1" for q s by simp
  from this[of ?n ?o] have on: "off + n1 - 512 * ?n = ?o + n1" by (simp only: off[symmetric])
  have "take (off + n1) (content (?n + 1) (dsk ?m2) (i_addrs din')) = content ?n (dsk m) (i_addrs din) @ take (?o + n1) B"
    unfolding w(5) cm using lc on by simp
  then have "take (off + n1) (content (?n + 1) (dsk ?m2) (i_addrs din')) = take off (content (nb off) (dsk m) (i_addrs din)) @ ?q"
    using tB old by simp
  moreover have "img ?m2 ! b = img m ! b" if "b < fb m" "b \<notin> owned din (nb off) m" for b
  proof -
    have "b \<noteq> unat x" using w(6) g(9) that by auto
    then show ?thesis using g(8) that by simp
  qed
  moreover have "taking (nb off) \<le> taking (?n + 1)" using K nb_mono[of off "off + n1"] by (intro taking_mono) simp
  ultimately have "appended din off m din' ?m2 ?q" using w(2-4) g(1,5,6,9) K n1'(3) by (simp add: appended_def Let_def)
  moreover have "wsect x (overwrite (off - ?n * 512) ?q (img m1 ! unat x)) m1 = Ok () ?m2" using w(1) unfolding o(1) B_def[symmetric] .
  moreover have "rsect x m1 = Ok (img m1 ! unat x) m1" using sect_in(1)[of x m1] x(1) g(3) by (simp add: img_ok_def)
  ultimately show ?thesis using b(1) by blast
qed

lemma iappend_loop_ok:
  assumes "fok din (nb off) m" "img_ok m" "off + length p \<le> 140 * 512" "fb m + taking (nb (off + length p)) \<le> 1000 + taking (nb off)"
  shows "\<exists>din' m'. iappend_loop p din off m = Ok (din', off + length p) m' \<and> appended din off m din' m' p"
  using assms
proof (induction p din off m rule: iappend_loop.induct)
  case (1 p din off m)
  show ?case
  proof (cases "p = []")
    case True
    then show ?thesis using 1(2,3) appended_nil by (simp add: iappend_loop.simps)
  next
    case False
    define n1 where "n1 = min (length p) ((off div 512 + 1) * 512 - off)"
    have n140: "off div 512 < 140" using 1(4) False by (simp add: div_less_iff_less_mult length_greater_0_conv[symmetric] del: length_greater_0_conv)
    have le: "n1 \<le> length p" by (simp add: n1_def)
    have r1: "fb m + taking (nb (off + n1)) \<le> 1000 + taking (nb off)"
      using 1(5) taking_mono[OF nb_mono[of "off + n1" "off + length p"]] le by simp
    obtain d1 x m1 m2 where c: "iappend_block din (off div 512) m = Ok (d1, x) m1" "rsect x m1 = Ok (img m1 ! unat x) m1"
        "wsect x (overwrite (off - off div 512 * 512) (take n1 p) (img m1 ! unat x)) m1 = Ok () m2" "appended din off m d1 m2 (take n1 p)"
      using append_chunk[OF 1(2,3) False n1_def _ r1] 1(4) le by auto
    have lt: "length (take n1 p) = n1" using le by simp
    have a: "fok d1 (nb (off + n1)) m2" "img_ok m2" "fb m2 + taking (nb off) = fb m + taking (nb (off + n1))"
      using c(4) lt by (simp_all add: appended_def Let_def)
    have "\<exists>d2 m3. iappend_loop (drop n1 p) d1 (off + n1) m2 = Ok (d2, off + n1 + length (drop n1 p)) m3 \<and> appended d1 (off + n1) m2 d2 m3 (drop n1 p)"
    proof (rule 1(1)[OF False refl _ c(1) refl n1_def c(2,3) a(1,2)])
      show "off + n1 + length (drop n1 p) \<le> 140 * 512" using 1(4) le by simp
      have "off + n1 + length (drop n1 p) = off + length p" using le by simp
      then show "fb m2 + taking (nb (off + n1 + length (drop n1 p))) \<le> 1000 + taking (nb (off + n1))" using 1(5) a(3) by simp
    qed (use n140 in simp)
    then obtain d2 m3 where d: "iappend_loop (drop n1 p) d1 (off + n1) m2 = Ok (d2, off + length p) m3" "appended d1 (off + n1) m2 d2 m3 (drop n1 p)"
      using le by auto
    have "appended din off m d2 m3 (take n1 p @ drop n1 p)" by (rule appended_trans[OF c(4)]) (use d(2) lt in simp)
    moreover have "iappend_loop p din off m = iappend_loop (drop n1 p) d1 (off + n1) m2"
      unfolding iappend_loop.simps[of p din off m]
      by (simp only: False n140 if_False if_True not_True_eq_False Let_def c(1) bnd_simps prod.case n1_def[symmetric] c(2,3))
    ultimately show ?thesis using d(1) by auto
  qed
qed

section \<open>The inode table\<close>

definition dino :: "nat \<Rightarrow> mkfs \<Rightarrow> inode" where
  "dino j m = read_dinode (img m ! (32 + j div 8)) (j mod 8) dinode0"

definition on_disk :: "inode \<Rightarrow> inode" where
  "on_disk ip = dinode0\<lparr>i_type := i_type ip, i_major := i_major ip, i_minor := i_minor ip, i_nlink := i_nlink ip, i_size := i_size ip, i_addrs := i_addrs ip\<rparr>"

lemma on_disk_dino: "on_disk (dino j m) = dino j m" "length (i_addrs (dino j m)) = 13"
  by (simp_all add: on_disk_def dino_def read_dinode_def)

lemma inode_block_nat:
  assumes "j < 208"
  shows "unat (inode_block (of_nat j)) = 32 + j div 8" "unat ((of_nat j :: 32 word) mod 8) = j mod 8"
proof -
  have u: "unat (of_nat j :: 32 word) = j" using assms by (simp add: unat_of_nat take_bit_nat_eq_self)
  then show "unat ((of_nat j :: 32 word) mod 8) = j mod 8" by (simp add: unat_mod)
  have "unat ((of_nat j :: 32 word) div 8) = j div 8" using u by (simp add: unat_div)
  moreover have "j div 8 < 26" using assms by simp
  ultimately show "unat (inode_block (of_nat j)) = 32 + j div 8" by (simp add: inode_block_def mkfs_sb_def unat_word_ariths)
qed

lemma rinode_ok: "img_ok m \<Longrightarrow> j < 208 \<Longrightarrow> rinode (of_nat j) m = Ok (dino j m) m"
  using inode_block_nat[of j] by (simp add: rinode_def sect_in dino_def img_ok_def)

lemma winode_ok:
  assumes i: "img_ok m" and j: "j < 208" and l: "length (i_addrs ip) = 13"
  shows "\<exists>m'. winode (of_nat j) ip m = Ok () m' \<and> img_ok m' \<and> freeblock m' = freeblock m \<and> freeinode m' = freeinode m
     \<and> dino j m' = on_disk ip \<and> (\<forall>k < 208. k \<noteq> j \<longrightarrow> dino k m' = dino k m) \<and> (\<forall>b. b \<notin> {32..<58} \<longrightarrow> img m' ! b = img m ! b)"
proof -
  note b = inode_block_nat[OF j]
  let ?b = "32 + j div 8"
  have bl: "?b < 58" using j by simp
  have len: "length (img m) = 1000" "length (img m ! ?b) = 512" using img_okD[OF i, of ?b] bl by simp_all
  let ?B = "write_dinode (img m ! ?b) (j mod 8) ip"
  define m' where "m' = m\<lparr>img := (img m)[?b := ?B]\<rparr>"
  have w: "winode (of_nat j) ip m = Ok () m'" using b len bl by (simp add: winode_def sect_in m'_def)
  have lB: "length ?B = 512" by (rule write_dinode_fields(1)[OF len(2)]) simp
  have "set (img m') \<subseteq> insert ?B (set (img m))" unfolding m'_def by (simp add: set_update_subset_insert)
  then have ok: "img_ok m'" using i lB bl unfolding img_ok_def by (auto simp: m'_def)
  have rt: "read_dinode ?B k dinode0 = (if k = j mod 8 then on_disk ip else read_dinode (img m ! ?b) k dinode0)" if "k < 8" for k
    using dinode_roundtrip[of "img m ! ?b" "j mod 8" ip k dinode0] len(2) l that by (simp add: on_disk_def)
  have "dino j m' = on_disk ip" using rt[of "j mod 8"] len bl by (simp add: dino_def m'_def)
  moreover have "dino k m' = dino k m" if "k < 208" "k \<noteq> j" for k
  proof (cases "k div 8 = j div 8")
    case True
    then have "k mod 8 \<noteq> j mod 8" using that(2) by (metis div_mult_mod_eq)
    then show ?thesis using True rt[of "k mod 8"] len bl by (simp add: dino_def m'_def)
  qed (simp add: dino_def m'_def)
  ultimately show ?thesis using w ok bl by (intro exI[of _ m']) (auto simp: m'_def)
qed

section \<open>Files side by side\<close>

abbreviation fsize :: "nat \<Rightarrow> mkfs \<Rightarrow> nat" where
  "fsize j m \<equiv> unat (i_size (dino j m))"

abbreviation blocks_of :: "nat \<Rightarrow> mkfs \<Rightarrow> nat set" where
  "blocks_of j m \<equiv> owned (dino j m) (nb (fsize j m)) m"

definition fdata :: "nat \<Rightarrow> mkfs \<Rightarrow> byte list" where
  "fdata j m = take (fsize j m) (content (nb (fsize j m)) (dsk m) (i_addrs (dino j m)))"

definition table_ok :: "nat \<Rightarrow> mkfs \<Rightarrow> bool" where
  "table_ok N m \<longleftrightarrow> img_ok m \<and> N \<le> 200 \<and> freeinode m = of_nat N \<and> img m ! 1 = sb_block \<and> (\<forall>b \<in> {2..<32}. img m ! b = replicate BSIZE 0)
     \<and> (\<forall>j. 1 \<le> j \<and> j < N \<longrightarrow> fsize j m \<le> 140 * 512 \<and> fok (dino j m) (nb (fsize j m)) m)
     \<and> (\<forall>i j. 1 \<le> i \<and> i < j \<and> j < N \<longrightarrow> blocks_of i m \<inter> blocks_of j m = {})"

lemma owned_range: "fok d K m \<Longrightarrow> b \<in> owned d K m \<Longrightarrow> 59 \<le> b \<and> b < fb m"
  using fokD(3,4,8,9)[of d K m] by (auto simp: owned_def split: if_splits)

lemma fok_frame:
  assumes f: "fok d K m" and e: "\<forall>b \<in> owned d K m. img m' ! b = img m ! b" and le: "fb m \<le> fb m'"
  shows "fok d K m'" "owned d K m' = owned d K m" "content K (dsk m') (i_addrs d) = content K (dsk m) (i_addrs d)"
proof -
  note D = fokD[OF f]
  have F: "fblk (dsk m') (i_addrs d) k = fblk (dsk m) (i_addrs d) k" if "k < 12 \<or> 12 < K" for k
  proof (cases "k < 12")
    case False
    then have "unat (i_addrs d ! 12) \<in> owned d K m" using that by (auto simp: owned_def)
    then show ?thesis using e by (simp add: fblk_def)
  qed (simp add: fblk_def)
  have F1: "fblk (dsk m') (i_addrs d) k = fblk (dsk m) (i_addrs d) k" if "k < K" for k by (rule F) (use that in auto)
  have inj: "inj_on (fblk (dsk m') (i_addrs d)) {..<K}" using D(5) F1 by (auto simp: inj_on_def)
  have up: "unat (fblk (dsk m) (i_addrs d) k) < fb m'" if "k < K" for k using D(4)[OF that] le by simp
  have up12: "unat (i_addrs d ! 12) < fb m'" if "12 < K" using D(9)[OF that] le by simp
  show "fok d K m'" unfolding fok_def Let_def using D(1-3,6-8,10-) F F1 inj up up12 by auto
  show "owned d K m' = owned d K m" using F1 by (auto simp: owned_def)
  have "dsk m' (fblk (dsk m') (i_addrs d) k) = dsk m (fblk (dsk m) (i_addrs d) k)" if "k < K" for k
  proof -
    have "unat (fblk (dsk m) (i_addrs d) k) \<in> owned d K m" using that by (auto simp: owned_def)
    then show ?thesis using e F1[OF that] by simp
  qed
  then show "content K (dsk m') (i_addrs d) = content K (dsk m) (i_addrs d)"
    unfolding content_def by (intro arg_cong[where f = concat] map_cong refl) simp
qed

lemma blank_table_ok: "table_ok 1 blank"
proof -
  have l: "length sb_block = 512" by (simp add: sb_block_def)
  have "set (img blank) \<subseteq> insert sb_block {replicate 512 0}" unfolding blank_def
    using set_update_subset_insert[of "replicate 1000 (replicate 512 0)" 1 sb_block] by auto
  then have "\<forall>x \<in> set (img blank). length x = 512" using l by auto
  then show ?thesis by (simp add: table_ok_def img_ok_def blank_def)
qed

lemma table_okD:
  assumes "table_ok N m"
  shows "img_ok m" "N \<le> 200" "freeinode m = of_nat N" "img m ! 1 = sb_block" "b \<in> {2..<32} \<Longrightarrow> img m ! b = replicate 512 0"
    "1 \<le> j \<Longrightarrow> j < N \<Longrightarrow> fsize j m \<le> 71680" "1 \<le> j \<Longrightarrow> j < N \<Longrightarrow> fok (dino j m) (nb (fsize j m)) m"
    "1 \<le> i \<Longrightarrow> 1 \<le> j \<Longrightarrow> i < N \<Longrightarrow> j < N \<Longrightarrow> i \<noteq> j \<Longrightarrow> blocks_of i m \<inter> blocks_of j m = {}"
proof -
  show "blocks_of i m \<inter> blocks_of j m = {}" if "1 \<le> i" "1 \<le> j" "i < N" "j < N" "i \<noteq> j"
    using assms that unfolding table_ok_def by (metis inf_commute linorder_neqE_nat)
qed (use assms in \<open>auto simp: table_ok_def\<close>)

definition grown :: "nat \<Rightarrow> nat \<Rightarrow> byte list \<Rightarrow> mkfs \<Rightarrow> mkfs \<Rightarrow> bool" where
  "grown N j p m m' \<longleftrightarrow> table_ok N m' \<and> fdata j m' = fdata j m @ p \<and> fsize j m' = fsize j m + length p
     \<and> i_type (dino j m') = i_type (dino j m) \<and> fb m' + taking (nb (fsize j m)) = fb m + taking (nb (fsize j m + length p))
     \<and> (\<forall>i. 1 \<le> i \<and> i < N \<and> i \<noteq> j \<longrightarrow> dino i m' = dino i m \<and> fdata i m' = fdata i m)"

lemma on_disk_upd: "on_disk (ip\<lparr>i_addrs := a, i_size := z\<rparr>) = (on_disk ip)\<lparr>i_addrs := a, i_size := z\<rparr>"
  by (simp add: on_disk_def)

lemma iappend_ok:
  assumes s: "table_ok N m" and j: "1 \<le> j" "j < N" and lim: "fsize j m + length p \<le> 140 * 512"
    and room: "fb m + taking (nb (fsize j m + length p)) \<le> 1000 + taking (nb (fsize j m))"
  shows "\<exists>m'. iappend (of_nat j) p m = Ok () m' \<and> grown N j p m m'"
proof -
  note S = table_okD[OF s]
  define n where "n = fsize j m"
  define z where "z = (of_nat (n + length p) :: 32 word)"
  let ?K = "nb n" and ?K' = "nb (n + length p)"
  have j8: "j < 208" using S(2) j by simp
  have f: "fok (dino j m) ?K m" using S(7)[OF j] by (simp add: n_def)
  obtain d' m1 where L: "iappend_loop p (dino j m) n m = Ok (d', n + length p) m1" and A: "appended (dino j m) n m d' m1 p"
    using iappend_loop_ok[OF f S(1) lim[folded n_def] room[folded n_def]] by blast
  have A': "d' = (dino j m)\<lparr>i_addrs := i_addrs d'\<rparr>" "fok d' ?K' m1" "img_ok m1" "fb m1 + taking ?K = fb m + taking ?K'" "freeinode m1 = freeinode m"
     "take (n + length p) (content ?K' (dsk m1) (i_addrs d')) = take n (content ?K (dsk m) (i_addrs (dino j m))) @ p"
     "\<And>b. b < fb m \<Longrightarrow> b \<notin> owned (dino j m) ?K m \<Longrightarrow> img m1 ! b = img m ! b" "owned d' ?K' m1 \<subseteq> owned (dino j m) ?K m \<union> {fb m..<fb m1}"
    using A by (simp_all add: appended_def Let_def)
  let ?d = "d'\<lparr>i_size := z\<rparr>"
  have "length (i_addrs ?d) = 13" using fokD(2)[OF A'(2)] by simp
  from winode_ok[OF A'(3) j8 this] obtain m' where W: "winode (of_nat j) ?d m1 = Ok () m'" "img_ok m'" "freeblock m' = freeblock m1" "freeinode m' = freeinode m1"
     "dino j m' = on_disk ?d" "\<forall>k < 208. k \<noteq> j \<longrightarrow> dino k m' = dino k m1" "\<forall>b. b \<notin> {32..<58} \<longrightarrow> img m' ! b = img m1 ! b" by blast
  have dd: "?d = (dino j m)\<lparr>i_addrs := i_addrs d', i_size := z\<rparr>" by (subst A'(1)) simp
  then have st: "on_disk ?d = ?d" by (simp only: on_disk_upd on_disk_dino)
  have sz: "fsize j m' = n + length p" using lim by (simp only: W(5) st) (simp add: z_def n_def[symmetric] unat_of_nat take_bit_nat_eq_self del: of_nat_add)
  have fb: "59 \<le> fb m" "fb m \<le> fb m1" "fb m' = fb m1" using appended_fb[OF A] W(3) S(1) by (simp_all add: img_ok_def)
  have low: "img m1 ! b = img m ! b" if "b < 59" for b using A'(7)[of b] owned_range[OF f, of b] that fb(1) by fastforce
  have eq: "img m' ! b = img m1 ! b" if "59 \<le> b" for b using W(7) that by simp
  have e1: "\<forall>b \<in> owned d' ?K' m1. img m' ! b = img m1 ! b" using owned_range[OF A'(2)] eq by blast
  have o: "owned ?d ?K' m' = owned d' ?K' m'" by (simp add: owned_def)
  note F = fok_frame[OF A'(2) e1, simplified fb(3), OF order_refl]
  have fj: "fok (dino j m') (nb (fsize j m')) m'" "blocks_of j m' = owned d' ?K' m1"
    using F(1,2) by (simp_all add: sz) (simp_all add: W(5) st fok_def o)
  have dj: "fdata j m' = fdata j m @ p" using A'(6) F(3) by (simp add: fdata_def sz n_def[symmetric]) (simp add: W(5) st)
  have other: "dino i m' = dino i m \<and> fok (dino i m) (nb (fsize i m)) m' \<and> blocks_of i m' = blocks_of i m \<and> fdata i m' = fdata i m \<and> blocks_of i m' \<inter> blocks_of j m' = {}"
    if "1 \<le> i" "i < N" "i \<noteq> j" for i
  proof -
    have "32 + i div 8 < 59" using that S(2) by simp
    then have "dino i m1 = dino i m" using low by (simp add: dino_def)
    then have d: "dino i m' = dino i m" using W(6) that S(2) by simp
    note fi = S(7)[OF that(1,2)] and dis = S(8)[OF that(1) j(1) that(2) j(2) that(3)]
    have "img m' ! b = img m ! b" if b: "b \<in> blocks_of i m" for b
    proof -
      have "59 \<le> b" "b < fb m" using owned_range[OF fi b] by simp_all
      moreover have "b \<notin> owned (dino j m) ?K m" using b dis by (auto simp: n_def)
      ultimately show ?thesis using A'(7) eq by simp
    qed
    then have "\<forall>b \<in> blocks_of i m. img m' ! b = img m ! b" by blast
    note G = fok_frame[OF fi this]
    have le: "fb m \<le> fb m'" using fb by simp
    have "b \<notin> owned d' ?K' m1" if b: "b \<in> blocks_of i m" for b
      using A'(8) b dis owned_range[OF fi b] by (auto simp: n_def)
    then have "blocks_of i m \<inter> owned d' ?K' m1 = {}" by blast
    then show ?thesis using d G[OF le] fj(2) by (simp add: fdata_def)
  qed
  have inv: "table_ok N m'" unfolding table_ok_def
  proof (intro conjI allI impI ballI)
    show "img m' ! 1 = sb_block" using low[of 1] W(7) S(4) by simp
    show "img m' ! b = replicate 512 0" if "b \<in> {2..<32}" for b using low[of b] W(7) S(5)[OF that] that by simp
    show "fsize i m' \<le> 140 * 512" if "1 \<le> i \<and> i < N" for i using other[of i] S(6)[of i] that lim[folded n_def] sz by (cases "i = j") auto
    show "fok (dino i m') (nb (fsize i m')) m'" if "1 \<le> i \<and> i < N" for i using other[of i] fj(1) that by (cases "i = j") auto
    show "blocks_of i m' \<inter> blocks_of k m' = {}" if "1 \<le> i \<and> i < k \<and> k < N" for i k
      using other[of i] other[of k] S(8)[of i k] that by (cases "i = j"; cases "k = j") (auto simp: Int_commute)
  qed (use W(2,4) A'(5) S(2,3) in auto)
  have "iappend (of_nat j) p m = Ok () m'" unfolding iappend_def using rinode_ok[OF S(1) j8] L W(1) by (simp add: n_def[symmetric] z_def del: of_nat_add)
  moreover have "i_type (dino j m') = i_type (dino j m)" by (simp only: W(5) st) (simp add: dd)
  ultimately show ?thesis unfolding grown_def n_def[symmetric] using inv dj sz A'(4) fb(3) other by (intro exI[of _ m']) auto
qed

lemma ialloc_table_ok:
  assumes s: "table_ok N m" and N: "1 \<le> N" "N < 200"
  shows "\<exists>m'. mkfs_ialloc ty m = Ok (of_nat N) m' \<and> table_ok (N + 1) m' \<and> fdata N m' = [] \<and> fsize N m' = 0 \<and> i_type (dino N m') = ty \<and> fb m' = fb m
     \<and> (\<forall>i. 1 \<le> i \<and> i < N \<longrightarrow> dino i m' = dino i m \<and> fdata i m' = fdata i m)"
proof -
  note S = table_okD[OF s]
  let ?d = "dinode0\<lparr>i_type := ty, i_nlink := 1\<rparr>" and ?m = "m\<lparr>freeinode := freeinode m + 1\<rparr>"
  have i: "img_ok ?m" using S(1) by (simp add: img_ok_def)
  have l: "length (i_addrs ?d) = 13" by (simp add: dinode0_def)
  have N8: "N < 208" using N by simp
  from winode_ok[OF i N8 l] obtain m' where W: "winode (of_nat N) ?d ?m = Ok () m'" "img_ok m'" "freeblock m' = freeblock m" "freeinode m' = freeinode m + 1"
     "dino N m' = on_disk ?d" "\<forall>k < 208. k \<noteq> N \<longrightarrow> dino k m' = dino k ?m" "\<forall>b. b \<notin> {32..<58} \<longrightarrow> img m' ! b = img m ! b"
    by (simp del: atLeastLessThan_iff) blast
  have dN: "dino N m' = ?d" using W(5) by (simp add: on_disk_def dinode0_def)
  have zero: "i_size ?d = 0" "i_addrs ?d = replicate 13 0" by (simp_all add: dinode0_def)
  have fN: "fok ?d 0 m'" by (simp add: fok_def zero nb_def)
  have other: "dino k m' = dino k m \<and> fok (dino k m) (nb (fsize k m)) m' \<and> blocks_of k m' = blocks_of k m \<and> fdata k m' = fdata k m" if "1 \<le> k" "k < N" for k
  proof -
    have d: "dino k m' = dino k m" using W(6) that N by (simp add: dino_def)
    note fk = S(7)[OF that]
    have "img m' ! b = img m ! b" if b: "b \<in> blocks_of k m" for b using owned_range[OF fk b] W(7) by simp
    then have "\<forall>b \<in> blocks_of k m. img m' ! b = img m ! b" by blast
    from fok_frame[OF fk this] show ?thesis using d W(3) by (simp add: fdata_def)
  qed
  have oN: "blocks_of N m' = {}" by (simp add: dN zero owned_def nb_def)
  have inv: "table_ok (N + 1) m'" unfolding table_ok_def
  proof (intro conjI allI impI ballI)
    show "fsize k m' \<le> 140 * 512" if "1 \<le> k \<and> k < N + 1" for k using other[of k] S(6)[of k] that dN zero by (cases "k = N") auto
    show "fok (dino k m') (nb (fsize k m')) m'" if "1 \<le> k \<and> k < N + 1" for k
      using other[of k] fN dN that zero by (cases "k = N") (auto simp: nb_def)
    show "blocks_of k m' \<inter> blocks_of l m' = {}" if "1 \<le> k \<and> k < l \<and> l < N + 1" for k l
    proof (cases "l = N")
      case True
      then show ?thesis using oN by simp
    next
      case False
      then have kl: "1 \<le> k" "k < N" "1 \<le> l" "l < N" "k \<noteq> l" using that by auto
      have "blocks_of k m' = blocks_of k m" "blocks_of l m' = blocks_of l m" using other[OF kl(1,2)] other[OF kl(3,4)] by blast+
      then show ?thesis using S(8)[OF kl(1,3,2,4,5)] by (simp only:)
    qed
    show "freeinode m' = of_nat (N + 1)" using W(4) S(3) by simp
  qed (use W(2,7) N S(4,5) in auto)
  have "mkfs_ialloc ty m = Ok (of_nat N) m'" using W(1) S(3) by (simp add: mkfs_ialloc_def)
  moreover have "fdata N m' = []" by (simp add: fdata_def dN zero)
  ultimately show ?thesis using inv dN zero W(3) other by (intro exI[of _ m']) auto
qed

lemma grown_nil: "table_ok N m \<Longrightarrow> grown N j [] m m"
  by (simp add: grown_def)

lemma grown_trans: "grown N j p m m1 \<Longrightarrow> grown N j q m1 m2 \<Longrightarrow> grown N j (p @ q) m m2"
  by (auto simp: grown_def add.assoc)

lemma copy_file_ok:
  assumes "table_ok N m" "1 \<le> j" "j < N" "[] \<notin> set rs" "fsize j m + length (concat rs) \<le> 140 * 512"
    "fb m + taking (nb (fsize j m + length (concat rs))) \<le> 1000 + taking (nb (fsize j m))"
  shows "\<exists>m'. copy_file (of_nat j) rs m = Ok () m' \<and> grown N j (concat rs) m m'"
  using assms
proof (induction rs arbitrary: m)
  case Nil
  then show ?case using grown_nil by auto
next
  case (Cons r rs)
  let ?n = "fsize j m"
  have mono: "taking (nb (?n + length r)) \<le> taking (nb (?n + length r + length (concat rs)))" by (intro taking_mono nb_mono) simp
  have p: "?n + length r \<le> 140 * 512" "fb m + taking (nb (?n + length r)) \<le> 1000 + taking (nb ?n)"
    using Cons.prems(5,6) mono by (auto simp: add.assoc)
  from iappend_ok[OF Cons.prems(1-3) p] obtain m1 where m1: "iappend (of_nat j) r m = Ok () m1" "grown N j r m m1" by blast
  then have g: "table_ok N m1" "fsize j m1 = ?n + length r" "fb m1 + taking (nb ?n) = fb m + taking (nb (?n + length r))" by (simp_all add: grown_def)
  have q: "fsize j m1 + length (concat rs) \<le> 140 * 512" "fb m1 + taking (nb (fsize j m1 + length (concat rs))) \<le> 1000 + taking (nb (fsize j m1))" "[] \<notin> set rs"
    using Cons.prems(4-6) g(2,3) by (auto simp: add.assoc)
  from Cons.IH[OF g(1) Cons.prems(2,3) q(3,1,2)] obtain m2 where m2: "copy_file (of_nat j) rs m1 = Ok () m2" "grown N j (concat rs) m1 m2" by blast
  then show ?case using m1 grown_trans[OF m1(2) m2(2)] Cons.prems(4) by auto
qed

lemma fdata_length:
  assumes "table_ok N m" "1 \<le> j" "j < N"
  shows "length (fdata j m) = fsize j m"
proof -
  note S = table_okD[OF assms(1)] and F = fokD[OF table_okD(7)[OF assms]]
  have "length (dsk m (fblk (dsk m) (i_addrs (dino j m)) k)) = 512" if "k < nb (fsize j m)" for k
    using F(4)[OF that] S(1) img_okD(2)[OF S(1)] by (auto simp: img_ok_def)
  then have "length (content (nb (fsize j m)) (dsk m) (i_addrs (dino j m))) = 512 * nb (fsize j m)" by (intro content_length) simp
  moreover have "fsize j m \<le> 512 * nb (fsize j m)" by (simp add: nb_def)
  ultimately show ?thesis by (simp add: fdata_def)
qed

section \<open>The files of an mkfs_image\<close>

type_synonym input_file = "byte list \<times> byte list list option"

abbreviation file_bytes :: "input_file \<Rightarrow> byte list" where
  "file_bytes f \<equiv> concat (the (snd f))"

definition dir_entry :: "nat \<Rightarrow> byte list \<Rightarrow> byte list" where
  "dir_entry j name = dirent_bytes (of_nat j) (name @ [0])"

definition root_bytes :: "input_file list \<Rightarrow> byte list" where
  "root_bytes fs = dir_entry 1 [46] @ dir_entry 1 [46, 46] @ concat (map (\<lambda>i. dir_entry (2 + i) (skip_underscore (fst (fs ! i)))) [0..<length fs])"

definition blocks_needed :: "input_file list \<Rightarrow> nat" where
  "blocks_needed fs = taking (nb (16 * (2 + length fs))) + sum_list (map (\<lambda>f. taking (nb (length (file_bytes f)))) fs)"

definition built :: "input_file list \<Rightarrow> mkfs \<Rightarrow> bool" where
  "built fs m \<longleftrightarrow> table_ok (2 + length fs) m \<and> fdata 1 m = root_bytes fs \<and> i_type (dino 1 m) = T_DIR \<and> fb m = 59 + blocks_needed fs
     \<and> (\<forall>i < length fs. fdata (2 + i) m = file_bytes (fs ! i) \<and> i_type (dino (2 + i) m) = T_FILE)"

definition addable :: "input_file \<Rightarrow> bool" where
  "addable f \<longleftrightarrow> slash \<notin> set (fst f) \<and> snd f \<noteq> None \<and> [] \<notin> set (the (snd f)) \<and> length (file_bytes f) \<le> 140 * 512"

lemma strncpy_loop_length: "length (strncpy_loop t i k) = k"
  by (induction k arbitrary: i) auto

lemma dir_entry_length [simp]: "length (dir_entry j name) = 16"
  by (simp add: dir_entry_def dirent_bytes_def strncpy_def strncpy_loop_length)

lemma root_bytes_snoc: "root_bytes (fs @ [f]) = root_bytes fs @ dir_entry (2 + length fs) (skip_underscore (fst f))"
proof -
  have e: "map (\<lambda>i. dir_entry (2 + i) (skip_underscore (fst ((fs @ [f]) ! i)))) [0..<length fs] = map (\<lambda>i. dir_entry (2 + i) (skip_underscore (fst (fs ! i)))) [0..<length fs]"
    by (rule map_cong) (auto simp: nth_append)
  show ?thesis unfolding root_bytes_def length_append_singleton upt_Suc_append[OF le0] map_append e by simp
qed

lemma root_bytes_length: "length (root_bytes fs) = 16 * (2 + length fs)"
  by (induction fs rule: rev_induct) (simp_all only: root_bytes_snoc length_append dir_entry_length, simp_all add: root_bytes_def)

lemma nb0 [simp]: "nb 0 = 0" "taking 0 = 0"
  by (simp_all add: nb_def taking_def)

lemma blocks_needed_snoc: "blocks_needed (fs @ [f]) + taking (nb (16 * (2 + length fs))) = blocks_needed fs + taking (nb (16 * (3 + length fs))) + taking (nb (length (file_bytes f)))"
  by (simp add: blocks_needed_def)

lemma add_file_ok:
  assumes b: "built fs m" and a: "addable f" and n: "length fs < 198" and r: "59 + blocks_needed (fs @ [f]) \<le> 1000"
  shows "\<exists>m'. add_file f m = Ok () m' \<and> built (fs @ [f]) m'"
proof -
  define N where "N = 2 + length fs"
  have B: "table_ok N m" "fdata 1 m = root_bytes fs" "i_type (dino 1 m) = T_DIR" "fb m = 59 + blocks_needed fs"
     "\<And>i. i < length fs \<Longrightarrow> fdata (2 + i) m = file_bytes (fs ! i) \<and> i_type (dino (2 + i) m) = T_FILE"
    using b by (auto simp: built_def N_def)
  have N: "1 < N" "1 \<le> N" "N < 200" "N < N + 1" "1 < N + 1" "1 \<noteq> N" using n by (simp_all add: N_def)
  let ?e = "dir_entry N (skip_underscore (fst f))"
  have sz: "fsize 1 m = 16 * N" using fdata_length[OF B(1) order_refl N(1)] B(2) root_bytes_length[of fs] by (simp add: N_def)
  have sp: "blocks_needed (fs @ [f]) + taking (nb (16 * N)) = blocks_needed fs + taking (nb (16 * (N + 1))) + taking (nb (length (file_bytes f)))"
    using blocks_needed_snoc[of fs f] by (simp add: N_def)
  from ialloc_table_ok[OF B(1) N(2,3), of T_FILE] obtain m1 where m1: "mkfs_ialloc T_FILE m = Ok (of_nat N) m1" "table_ok (N + 1) m1" "fdata N m1 = []" "fsize N m1 = 0"
     "i_type (dino N m1) = T_FILE" "fb m1 = fb m" "\<And>i. 1 \<le> i \<Longrightarrow> i < N \<Longrightarrow> dino i m1 = dino i m \<and> fdata i m1 = fdata i m" by blast
  have sz1: "fsize 1 m1 = 16 * N" using m1(7)[of 1] N sz by simp
  have "fsize 1 m1 + length ?e \<le> 140 * 512" "fb m1 + taking (nb (fsize 1 m1 + length ?e)) \<le> 1000 + taking (nb (fsize 1 m1))"
    unfolding sz1 dir_entry_length using N sp r m1(6) B(4) by (simp_all add: add.commute)
  from iappend_ok[OF m1(2) order_refl N(5) this] obtain m2 where m2: "iappend 1 ?e m1 = Ok () m2" "grown (N + 1) 1 ?e m1 m2" by auto
  then have g2: "table_ok (N + 1) m2" "fdata 1 m2 = root_bytes (fs @ [f])" "i_type (dino 1 m2) = T_DIR" "fb m2 + taking (nb (16 * N)) = fb m + taking (nb (16 * (N + 1)))"
     "\<And>i. 1 \<le> i \<Longrightarrow> i < N + 1 \<Longrightarrow> i \<noteq> 1 \<Longrightarrow> dino i m2 = dino i m1 \<and> fdata i m2 = fdata i m1"
    using m1(6,7) N B(2,3) sz1 root_bytes_snoc[of fs f, folded N_def] by (simp_all add: grown_def add.commute)
  have dN: "dino N m2 = dino N m1" "fdata N m2 = []" using g2(5)[of N] m1(3) N by simp_all
  have "fsize N m2 + length (file_bytes f) \<le> 140 * 512" "fb m2 + taking (nb (fsize N m2 + length (file_bytes f))) \<le> 1000 + taking (nb (fsize N m2))" "[] \<notin> set (the (snd f))"
    using a sp r g2(4) B(4) m1(4) by (simp_all add: dN addable_def)
  from copy_file_ok[OF g2(1) N(2,4) this(3,1,2)] obtain m3 where m3: "copy_file (of_nat N) (the (snd f)) m2 = Ok () m3" "grown (N + 1) N (file_bytes f) m2 m3" by blast
  then have g3: "table_ok (N + 1) m3" "fdata N m3 = file_bytes f" "i_type (dino N m3) = T_FILE" "fb m3 = fb m2 + taking (nb (length (file_bytes f)))"
     "\<And>i. 1 \<le> i \<Longrightarrow> i < N + 1 \<Longrightarrow> i \<noteq> N \<Longrightarrow> dino i m3 = dino i m2 \<and> fdata i m3 = fdata i m2"
    using dN m1(4,5) by (simp_all add: grown_def)
  have "built (fs @ [f]) m3" unfolding built_def
  proof (intro conjI allI impI)
    fix i assume i: "i < length (fs @ [f])"
    have old: "dino (2 + i) m3 = dino (2 + i) m \<and> fdata (2 + i) m3 = fdata (2 + i) m" if "i < length fs"
      using g3(5)[of "2 + i"] g2(5)[of "2 + i"] m1(7)[of "2 + i"] that by (simp add: N_def)
    have "fdata (2 + i) m3 = file_bytes ((fs @ [f]) ! i) \<and> i_type (dino (2 + i) m3) = T_FILE"
    proof (cases "i < length fs")
      case True
      then show ?thesis using old[OF True] B(5)[OF True] by (simp add: nth_append)
    next
      case False
      then have "2 + i = N" using i by (simp add: N_def)
      then show ?thesis using g3(2,3) False i by (simp add: nth_append N_def)
    qed
    then show "fdata (2 + i) m3 = file_bytes ((fs @ [f]) ! i)" "i_type (dino (2 + i) m3) = T_FILE" by blast+
  next
    show "table_ok (2 + length (fs @ [f])) m3" using g3(1) by (simp add: N_def)
    show "fdata 1 m3 = root_bytes (fs @ [f])" "i_type (dino 1 m3) = T_DIR" using g3(5)[of 1] g2(2,3) N by simp_all
    show "fb m3 = 59 + blocks_needed (fs @ [f])" using g3(4) g2(4) B(4) sp by simp
  qed
  moreover have "add_file f m = Ok () m3" using a m1(1) m2(1) m3(1) N
    by (auto simp: add_file_def addable_def dir_entry_def case_prod_beta unsigned_of_nat take_bit_nat_eq_self)
  ultimately show ?thesis by blast
qed

lemma add_files_ok:
  "built fs m \<Longrightarrow> \<forall>f \<in> set gs. addable f \<Longrightarrow> length fs + length gs \<le> 198 \<Longrightarrow> 59 + blocks_needed (fs @ gs) \<le> 1000 \<Longrightarrow>
     \<exists>m'. add_files gs m = Ok () m' \<and> built (fs @ gs) m'"
proof (induction gs arbitrary: fs m)
  case (Cons g gs)
  have "taking (nb (16 * (2 + length (fs @ [g])))) \<le> taking (nb (16 * (2 + length (fs @ g # gs))))" by (intro taking_mono nb_mono) simp
  then have le: "blocks_needed (fs @ [g]) \<le> blocks_needed (fs @ g # gs)" unfolding blocks_needed_def by simp
  have pre: "addable g" "length fs < 198" "59 + blocks_needed (fs @ [g]) \<le> 1000" using Cons.prems(2-4) le by auto
  from add_file_ok[OF Cons.prems(1) pre] obtain m1 where m1: "add_file g m = Ok () m1" "built (fs @ [g]) m1" by blast
  from Cons.IH[OF m1(2)] Cons.prems(2-4) m1(1) show ?case by auto
qed simp

section \<open>The finished mkfs_image\<close>

lemma fold_bits:
  assumes "n \<le> 4096" "b < 4096"
  shows "length (fold (\<lambda>i buf. set_bit_at buf i) [0..<n] (replicate 512 0)) = 512
    \<and> (bit_clear (fold (\<lambda>i buf. set_bit_at buf i) [0..<n] (replicate 512 0)) b \<longleftrightarrow> n \<le> b)"
  using assms(1)
proof (induction n)
  case 0
  then show ?case using assms(2) by (simp add: bit_clear_def)
next
  case (Suc n)
  then show ?case by (auto simp: less_mult_imp_div_less)
qed

text \<open>
  \<open>mkfs_image fs m\<close>: the image holds the super block, an empty log, a bitmap in which exactly the blocks below
  \<open>freeblock\<close> are taken, the inodes and the blocks of the files \<open>fs\<close>, and a root directory that names
  them.  No block is used twice.
\<close>

definition root_size :: "nat \<Rightarrow> nat" where
  "root_size n = (16 * (2 + n) div 512 + 1) * 512"

definition mkfs_image :: "input_file list \<Rightarrow> mkfs \<Rightarrow> bool" where
  "mkfs_image fs m \<longleftrightarrow> length (img m) = FSSIZE \<and> (\<forall>x \<in> set (img m). length x = 512) \<and> img m ! 1 = sb_block \<and> (\<forall>b \<in> {2..<32}. img m ! b = replicate BSIZE 0)
     \<and> fb m = 59 + blocks_needed fs \<and> (\<forall>b < 4096. bit_clear (img m ! 58) b \<longleftrightarrow> fb m \<le> b)
     \<and> i_type (dino 1 m) = T_DIR \<and> fsize 1 m = root_size (length fs)
     \<and> (let K = nb (16 * (2 + length fs)) in fok (dino 1 m) K m
          \<and> take (16 * (2 + length fs)) (content K (dsk m) (i_addrs (dino 1 m))) = root_bytes fs
          \<and> (\<forall>i < length fs. owned (dino 1 m) K m \<inter> blocks_of (2 + i) m = {}))
     \<and> (\<forall>i < length fs. i_type (dino (2 + i) m) = T_FILE \<and> fok (dino (2 + i) m) (nb (fsize (2 + i) m)) m
          \<and> fsize (2 + i) m = length (file_bytes (fs ! i)) \<and> fdata (2 + i) m = file_bytes (fs ! i))
     \<and> (\<forall>i j. i < j \<and> j < length fs \<longrightarrow> blocks_of (2 + i) m \<inter> blocks_of (2 + j) m = {})"

lemma resized: "fok (d\<lparr>i_size := z\<rparr>) K m \<longleftrightarrow> fok d K m" "owned (d\<lparr>i_size := z\<rparr>) K m = owned d K m" "i_addrs (d\<lparr>i_size := z\<rparr>) = i_addrs d"
  by (simp_all add: fok_def owned_def)

lemma finish_ok:
  assumes b: "built fs m"
  shows "\<exists>m1 m2. fix_root m = Ok () m1 \<and> mkfs_balloc (fb m1) m1 = Ok () m2 \<and> mkfs_image fs m2"
proof -
  define n where "n = length fs"
  have B: "table_ok (2 + n) m" "fdata 1 m = root_bytes fs" "i_type (dino 1 m) = T_DIR" "fb m = 59 + blocks_needed fs"
     "\<And>i. i < n \<Longrightarrow> fdata (2 + i) m = file_bytes (fs ! i) \<and> i_type (dino (2 + i) m) = T_FILE"
    using b by (auto simp: built_def n_def)
  note S = table_okD[OF B(1)]
  have sz: "fsize 1 m = 16 * (2 + n)" using fdata_length[OF B(1), of 1] B(2) root_bytes_length[of fs] by (simp add: n_def)
  let ?z = "(i_size (dino 1 m) div of_nat 512 + 1) * of_nat 512"
  have zn: "unat ?z = root_size n"
  proof -
    have "n \<le> 198" using S(2) by simp
    then have "16 * (2 + n) div 512 \<le> 6" by simp
    then show ?thesis using sz by (simp add: root_size_def unat_word_ariths unat_div)
  qed
  have l13: "length (i_addrs ((dino 1 m)\<lparr>i_size := ?z\<rparr>)) = 13" using on_disk_dino(2)[of 1 m] by simp
  have one: "(1::nat) < 208" by simp
  from winode_ok[OF S(1) one l13] obtain m1 where W: "winode 1 ((dino 1 m)\<lparr>i_size := ?z\<rparr>) m = Ok () m1" "img_ok m1" "freeblock m1 = freeblock m"
     "dino 1 m1 = on_disk ((dino 1 m)\<lparr>i_size := ?z\<rparr>)" "\<forall>k < 208. k \<noteq> 1 \<longrightarrow> dino k m1 = dino k m" "\<forall>b. b \<notin> {32..<58} \<longrightarrow> img m1 ! b = img m ! b" by auto
  have st: "on_disk ((dino 1 m)\<lparr>i_size := ?z\<rparr>) = (dino 1 m)\<lparr>i_size := ?z\<rparr>"
    using on_disk_upd[where ip = "dino 1 m" and a = "i_addrs (dino 1 m)" and z = ?z] by (simp add: on_disk_dino(1))
  have fx: "fix_root m = Ok () m1" using rinode_ok[OF S(1) one] W(1) by (simp add: fix_root_def)
  let ?bm = "fold (\<lambda>i buf. set_bit_at buf i) [0..<fb m1] (replicate 512 0)"
  define m2 where "m2 = m1\<lparr>img := (img m1)[58 := ?bm]\<rparr>"
  have f: "fb m1 = fb m" "fb m \<le> 1000" "length (img m1) = 1000" using W(2,3) by (simp_all add: img_ok_def)
  have ba: "mkfs_balloc (fb m1) m1 = Ok () m2" using f by (simp add: mkfs_balloc_def sect_in mkfs_sb_def m2_def)
  have bits: "length ?bm = 512" "\<And>b. b < 4096 \<Longrightarrow> bit_clear ?bm b \<longleftrightarrow> fb m \<le> b" using fold_bits[of "fb m1" 0] fold_bits[of "fb m1"] f by auto
  have eq: "img m2 ! b = img m ! b" if "b \<notin> {32..<59}" for b using W(6) that by (auto simp: m2_def nth_list_update)
  have d2: "dino k m2 = dino k m1" if "k < 208" for k using that by (simp add: dino_def m2_def nth_list_update)
  have d1: "dino 1 m2 = (dino 1 m)\<lparr>i_size := ?z\<rparr>" using d2[of 1] W(4) st by simp
  have dk: "dino (2 + i) m2 = dino (2 + i) m" if "i < n" for i using d2[of "2 + i"] W(5) that S(2) by simp
  have G: "fok (dino j m) (nb (fsize j m)) m2" "owned (dino j m) (nb (fsize j m)) m2 = blocks_of j m"
     "content (nb (fsize j m)) (dsk m2) (i_addrs (dino j m)) = content (nb (fsize j m)) (dsk m) (i_addrs (dino j m))" if j: "1 \<le> j" "j < 2 + n" for j
  proof -
    have "img m2 ! b = img m ! b" if "b \<in> blocks_of j m" for b using eq owned_range[OF S(7)[OF j] that] by simp
    then have a: "\<forall>b \<in> blocks_of j m. img m2 ! b = img m ! b" by blast
    have "fb m \<le> fb m2" using f by (simp add: m2_def)
    from fok_frame[OF S(7)[OF j] a this]
    show "fok (dino j m) (nb (fsize j m)) m2" "owned (dino j m) (nb (fsize j m)) m2 = blocks_of j m"
     "content (nb (fsize j m)) (dsk m2) (i_addrs (dino j m)) = content (nb (fsize j m)) (dsk m) (i_addrs (dino j m))" .
  qed
  have root: "fok (dino 1 m2) (nb (16 * (2 + n))) m2" "owned (dino 1 m2) (nb (16 * (2 + n))) m2 = blocks_of 1 m"
     "take (16 * (2 + n)) (content (nb (16 * (2 + n))) (dsk m2) (i_addrs (dino 1 m2))) = root_bytes fs"
    using G[of 1] B(2) unfolding d1 sz fdata_def resized by simp_all
  have fl: "i_type (dino (2 + i) m2) = T_FILE \<and> fok (dino (2 + i) m2) (nb (fsize (2 + i) m2)) m2 \<and> fsize (2 + i) m2 = length (file_bytes (fs ! i))
       \<and> fdata (2 + i) m2 = file_bytes (fs ! i)" "blocks_of (2 + i) m2 = blocks_of (2 + i) m" if i: "i < n" for i
    using G[of "2 + i"] B(5)[OF i] fdata_length[OF B(1), of "2 + i"] i unfolding fdata_def dk[OF i] by simp_all
  show ?thesis
  proof (intro exI conjI)
    show "mkfs_image fs m2" unfolding mkfs_image_def Let_def n_def[symmetric]
    proof (intro conjI allI impI ballI)
      show "length (img m2) = 1000" using f by (simp add: m2_def)
      have "set (img m2) \<subseteq> insert ?bm (set (img m1))" unfolding m2_def by (simp add: set_update_subset_insert)
      then show "length x = 512" if "x \<in> set (img m2)" for x using bits(1) W(2) that unfolding img_ok_def by auto
      show "img m2 ! 1 = sb_block" using eq[of 1] S(4) by simp
      show "img m2 ! b = replicate 512 0" if "b \<in> {2..<32}" for b using eq[of b] S(5)[OF that] that by simp
      show "fb m2 = 59 + blocks_needed fs" using f B(4) by (simp add: m2_def)
      show "bit_clear (img m2 ! 58) b \<longleftrightarrow> fb m2 \<le> b" if "b < 4096" for b using bits(2)[OF that] f by (simp add: m2_def)
      show "i_type (dino 1 m2) = T_DIR" "fsize 1 m2 = root_size n" using B(3) zn unfolding d1 by simp_all
      show "owned (dino 1 m2) (nb (16 * (2 + n))) m2 \<inter> blocks_of (2 + i) m2 = {}" if "i < n" for i
        unfolding root(2) fl(2)[OF that] using S(8)[of 1 "2 + i"] that by simp
      show "blocks_of (2 + i) m2 \<inter> blocks_of (2 + j) m2 = {}" if "i < j \<and> j < n" for i j
      proof -
        have ij: "i < n" "j < n" using that by auto
        show ?thesis unfolding fl(2)[OF ij(1)] fl(2)[OF ij(2)] using S(8)[of "2 + i" "2 + j"] that by simp
      qed
    qed (use root fl(1) in blast)+
  qed (use fx ba in simp_all)
qed

lemma mkfs_main_ok:
  assumes "\<forall>f \<in> set fs. addable f" "length fs \<le> 198" "blocks_needed fs \<le> 941"
  shows "\<exists>m. mkfs_main fs = Ok () m \<and> mkfs_image fs m"
proof -
  have t1: "taking (nb 16) = 1" "taking (nb 32) = 1" by (simp_all add: nb_def taking_def)
  have one: "(1::nat) \<le> 1" "(1::nat) < 200" "(1::nat) < 2" by simp_all
  have fb0: "fb blank = 59" by (simp add: blank_def)
  from ialloc_table_ok[OF blank_table_ok one(1,2), of T_DIR] obtain m1 where m1: "mkfs_ialloc T_DIR blank = Ok 1 m1" "table_ok 2 m1" "fdata 1 m1 = []" "fsize 1 m1 = 0"
     "i_type (dino 1 m1) = T_DIR" "fb m1 = 59" by (auto simp: fb0 numeral_2_eq_2)
  have "fsize 1 m1 + length (dir_entry 1 [46]) \<le> 140 * 512" "fb m1 + taking (nb (fsize 1 m1 + length (dir_entry 1 [46]))) \<le> 1000 + taking (nb (fsize 1 m1))"
    unfolding dir_entry_length using m1 t1 by simp_all
  from iappend_ok[OF m1(2) one(1,3) this] obtain m2 where m2: "iappend 1 (dir_entry 1 [46]) m1 = Ok () m2" "grown 2 1 (dir_entry 1 [46]) m1 m2" by auto
  then have g2: "table_ok 2 m2" "fdata 1 m2 = dir_entry 1 [46]" "fsize 1 m2 = 16" "i_type (dino 1 m2) = T_DIR" "fb m2 = 60"
    using m1 t1 by (simp_all add: grown_def)
  have "fsize 1 m2 + length (dir_entry 1 [46, 46]) \<le> 140 * 512" "fb m2 + taking (nb (fsize 1 m2 + length (dir_entry 1 [46, 46]))) \<le> 1000 + taking (nb (fsize 1 m2))"
    unfolding dir_entry_length using g2 t1 by simp_all
  from iappend_ok[OF g2(1) one(1,3) this] obtain m3 where m3: "iappend 1 (dir_entry 1 [46, 46]) m2 = Ok () m3" "grown 2 1 (dir_entry 1 [46, 46]) m2 m3" by auto
  then have "built [] m3" using g2 t1 by (simp add: grown_def built_def root_bytes_def blocks_needed_def)
  from add_files_ok[OF this, of fs] obtain m4 where m4: "add_files fs m3 = Ok () m4" "built fs m4" using assms by auto
  from finish_ok[OF m4(2)] obtain m5 m6 where m6: "fix_root m4 = Ok () m5" "mkfs_balloc (fb m5) m5 = Ok () m6" "mkfs_image fs m6" by blast
  have "mkfs_main fs = Ok () m6" unfolding mkfs_main_def
    using m1(1) m2(1) m3(1) m4(1) m6(1,2) by (simp add: dir_entry_def)
  then show ?thesis using m6(3) by blast
qed

section \<open>The kernel on such an mkfs_image\<close>

lemma sb_block_sb: "sb_of sb_block = mkfs_sb"
  by (simp add: sb_of_def sb_block_def mkfs_sb_def get32_put32_other)

lemma has_block_inode: "has_block s n a u \<Longrightarrow> has_block (upd_inode ip f s) n a (upd_inode ip f u)"
proof -
  assume h: "has_block s n a u"
  then have f: "frame s u" by (simp add: has_block_def)
  have "rest (upd_inode ip f x) = (rest x)\<lparr>inodes := (inodes x)[ip := f (inodes x ! ip)]\<rparr>" for x by (simp add: rest_def upd_inode_def)
  then have "frame (upd_inode ip f s) (upd_inode ip f u)" using f frameD(6)[OF f] by (simp add: frame_def) (simp add: upd_inode_def)
  moreover have "bufs (upd_inode ip f x) = bufs x" for x by (simp add: upd_inode_def)
  ultimately show ?thesis using h by (simp add: has_block_def)
qed

lemma upd_inode_nth [simp]: "ip < length (inodes s) \<Longrightarrow> inodes (upd_inode ip f s) ! ip = f (inodes s ! ip)" "length (inodes (upd_inode ip f s)) = length (inodes s)"
  by (simp_all add: upd_inode_def)

lemma ilock_reads:
  assumes bc: "bc_ok {} s" and c: "card (dirty s) < 30" and ip: "ip < length (inodes s)" and ref: "i_ref (inodes s ! ip) = 1"
    and un: "\<not> sl_locked (i_lock (inodes s ! ip))" and inv: "\<not> i_valid (inodes s ! ip)" and dev: "i_dev (inodes s ! ip) = 1"
    and b: "unat (IBLOCK (i_inum (inodes s ! ip)) s) < length (disk s)"
  defines "d \<equiv> read_dinode (cval s (IBLOCK (i_inum (inodes s ! ip)) s)) (unat (i_inum (inodes s ! ip) mod 8)) dinode0"
  assumes ty: "i_type d \<noteq> 0"
  shows "\<exists>t. ilock (Some ip) s = Ok () t \<and> put_blocks [] s t \<and> i_dev (inodes t ! ip) = 1 \<and> i_type (inodes t ! ip) = i_type d
     \<and> i_size (inodes t ! ip) = i_size d \<and> i_addrs (inodes t ! ip) = i_addrs d \<and> logs t = logs s \<and> fsb t = fsb s"
proof -
  obtain p where p: "running s = Some p" using bc by (auto simp: bc_ok_def)
  define s1 where "s1 = upd_inode ip (\<lambda>k. k\<lparr>i_lock := (i_lock k)\<lparr>sl_locked := True, sl_pid := pid (procs s ! p)\<rparr>\<rparr>) s"
  have sl: "acquiresleep (InodeSl ip) s = Ok () s1"
    using acquiresleep_ok[OF bc_ok_quiet[OF bc] p, of "InodeSl ip"] un ip by (simp add: sl_valid_def s1_def upd_inode_def)
  let ?x = "i_inum (inodes s ! ip)" let ?n = "IBLOCK ?x s"
  have v1: "bc_ok {} s1" "cval s1 = cval s" "dirty s1 = dirty s" "disk s1 = disk s" "IBLOCK i s1 = IBLOCK i s" "length (inodes s1) = length (inodes s)"
     "i_inum (inodes s1 ! ip) = ?x" "i_dev (inodes s1 ! ip) = 1" "\<not> i_valid (inodes s1 ! ip)" "dwrites s1 = dwrites s" for i
    using bc ip dev inv by (simp_all add: s1_def)
  obtain a u where u: "bread 1 ?n s1 = Ok a u" "has_block s1 ?n a u" using read_block[OF v1(1), of ?n] c b by (auto simp: v1)
  let ?f = "read_dinode (cval s ?n) (unat (?x mod 8))"
  have iu: "inodes u = inodes s1" "b_data (bufs u ! a) = cval s ?n" using u(2) frameD(6)[of s1 u] by (simp_all add: has_block_def v1)
  have bf: "bc_ok {} (upd_inode ip ?f s1)" using v1(1) by simp
  obtain t where t: "brelse a (upd_inode ip ?f u) = Ok () t" "frame (upd_inode ip ?f s1) t" "put_blocks [] (upd_inode ip ?f s1) t"
    using release_block[OF bf has_block_inode[OF u(2)]] by blast
  let ?t = "upd_inode ip (\<lambda>k. k\<lparr>i_valid := True\<rparr>) t"
  have it: "inodes t = inodes (upd_inode ip ?f s1)" using frameD(6)[OF t(2)] .
  have fields: "i_type (?f k) = i_type d" "i_size (?f k) = i_size d" "i_addrs (?f k) = i_addrs d" "i_dev (?f k) = i_dev k" for k
    by (simp_all add: d_def read_dinode_def)
  have nt: "inodes ?t ! ip = (?f (inodes s1 ! ip))\<lparr>i_valid := True\<rparr>" using ip by (simp add: it v1)
  have "ilock (Some ip) s = Ok () ?t"
    using sl u(1) t(1) ref v1 ty nt by (simp add: ilock_def Let_def iu s_lt_def fields)
  moreover have "put_blocks [] s ?t" using t(3) by (simp add: put_blocks_def v1)
  moreover have "logs ?t = logs s" "fsb ?t = fsb s" using frameD(2,5)[OF t(2)] by (simp_all add: s1_def)
  ultimately show ?thesis using nt v1(8) fields by (intro exI[of _ ?t]) simp
qed

lemma iget_fresh:
  assumes q: "quiet s" and z: "\<forall>k \<in> set (inodes s). i_ref k = 0" and n: "inodes s \<noteq> []"
  shows "iget dev inum s = Ok 0 (upd_inode 0 (\<lambda>ip. ip\<lparr>i_dev := dev, i_inum := inum, i_ref := 1, i_valid := False\<rparr>) s)"
proof -
  have "first_idx (\<lambda>ip. s_lt 0 (i_ref ip) \<and> i_dev ip = dev \<and> i_inum ip = inum) (inodes s) = None"
    unfolding first_idx_None using z by (auto simp: s_lt_def)
  moreover have "first_idx (\<lambda>ip. i_ref ip = 0) (inodes s) = Some 0" unfolding first_idx_Some using z n by simp
  ultimately show ?thesis using q krelease_quiet[where m = "mach s"]
    by (simp add: iget_def kacquire_quiet) (simp add: upd_inode_def quietD)
qed

lemma fok_view:
  assumes f: "fok d K m" and e: "\<forall>x. 59 \<le> unat x \<and> unat x < fb m \<longrightarrow> v x = img m ! unat x"
  shows "k < K \<Longrightarrow> fblk v (i_addrs d) k = fblk (dsk m) (i_addrs d) k" "content K v (i_addrs d) = content K (dsk m) (i_addrs d)"
proof -
  note D = fokD[OF f]
  have F: "fblk v (i_addrs d) k = fblk (dsk m) (i_addrs d) k" if "k < K" for k
  proof (cases "k < 12")
    case False
    then have "12 < K" using that by simp
    then show ?thesis using e D(8,9) by (simp add: fblk_def)
  qed (simp add: fblk_def)
  then show "k < K \<Longrightarrow> fblk v (i_addrs d) k = fblk (dsk m) (i_addrs d) k" .
  have "v (fblk v (i_addrs d) k) = dsk m (fblk (dsk m) (i_addrs d) k)" if "k < K" for k
    using F[OF that] e D(3)[OF that] D(4)[OF that] by simp
  then show "content K v (i_addrs d) = content K (dsk m) (i_addrs d)"
    unfolding content_def by (intro arg_cong[where f = concat] map_cong refl) simp
qed

lemma boot_inodes: "inodes (boot_on D) = inodes boot_kernel"
proof -
  have a: "inodes (set_next b v s) = inodes s" "inodes (set_prev b v s) = inodes s" for b v s by (simp_all add: set_next_def set_prev_def upd_buf_def)
  have "inodes (binit_step b s) = inodes s" for b s by (simp add: binit_step_def Let_def a initsleeplock_def)
  then have "inodes (fold binit_step bs s) = inodes s" for bs s by (induction bs arbitrary: s) simp_all
  then show ?thesis by (simp add: boot_on_def binit_def Let_def) (simp add: calm_def one_running_def)
qed

lemma open_inode:
  assumes bc: "bc_ok {} t" and dt: "dirty t = {}" and ino: "inodes t = inodes boot_kernel" and sb: "fsb t = mkfs_sb" and len: "length (disk t) = 1000"
    and view: "\<And>x. 32 \<le> unat x \<Longrightarrow> unat x < 1000 \<Longrightarrow> cval t x = img m ! unat x" and j: "j < 208" and ty: "i_type (dino j m) \<noteq> 0"
  shows "\<exists>s1 s2. iget 1 (of_nat j) t = Ok 0 s1 \<and> ilock (Some 0) s1 = Ok () s2 \<and> bc_ok {} s2 \<and> dirty s2 = {} \<and> disk s2 = disk t
     \<and> (\<forall>x. 32 \<le> unat x \<and> unat x < 1000 \<longrightarrow> cval s2 x = img m ! unat x) \<and> i_dev (inodes s2 ! 0) = 1 \<and> i_type (inodes s2 ! 0) = i_type (dino j m)
     \<and> i_size (inodes s2 ! 0) = i_size (dino j m) \<and> i_addrs (inodes s2 ! 0) = i_addrs (dino j m) \<and> logs s2 = logs t \<and> fsb s2 = mkfs_sb"
proof -
  define s1 where "s1 = upd_inode 0 (\<lambda>ip. ip\<lparr>i_dev := 1, i_inum := of_nat j, i_ref := 1, i_valid := False\<rparr>) t"
  have i0: "\<forall>k \<in> set (inodes t). i_ref k = 0" "inodes t \<noteq> []" "0 < length (inodes t)" "\<not> sl_locked (i_lock (inodes t ! 0))"
    by (simp_all add: ino boot_kernel_def sleeplock0_def)
  have g: "iget 1 (of_nat j) t = Ok 0 s1" using iget_fresh[OF bc_ok_quiet[OF bc] i0(1,2)] by (simp add: s1_def)
  have n0: "inodes s1 ! 0 = (inodes t ! 0)\<lparr>i_dev := 1, i_inum := of_nat j, i_ref := 1, i_valid := False\<rparr>" using i0(3) by (simp add: s1_def)
  have v1: "bc_ok {} s1" "cval s1 = cval t" "dirty s1 = {}" "disk s1 = disk t" "IBLOCK i s1 = IBLOCK i t" "0 < length (inodes s1)" for i
    using bc dt i0(3) by (simp_all add: s1_def)
  have ib: "IBLOCK (of_nat j) t = inode_block (of_nat j)" by (simp add: IBLOCK_def inode_block_def sb)
  note u = inode_block_nat[OF j]
  have bl: "32 + j div 8 < 58" using j by simp
  have d: "read_dinode (cval t (IBLOCK (of_nat j) t)) (unat ((of_nat j :: 32 word) mod 8)) dinode0 = dino j m"
    using view[of "inode_block (of_nat j)"] u bl by (simp add: ib dino_def)
  have "\<exists>s2. ilock (Some 0) s1 = Ok () s2 \<and> put_blocks [] s1 s2 \<and> i_dev (inodes s2 ! 0) = 1 \<and> i_type (inodes s2 ! 0) = i_type (dino j m)
     \<and> i_size (inodes s2 ! 0) = i_size (dino j m) \<and> i_addrs (inodes s2 ! 0) = i_addrs (dino j m) \<and> logs s2 = logs s1 \<and> fsb s2 = fsb s1"
    using ilock_reads[OF v1(1) _ v1(6)] i0(4) d u bl ty by (simp add: n0 v1 ib len)
  then obtain s2 where s2: "ilock (Some 0) s1 = Ok () s2" "put_blocks [] s1 s2" "i_dev (inodes s2 ! 0) = 1" "i_type (inodes s2 ! 0) = i_type (dino j m)"
     "i_size (inodes s2 ! 0) = i_size (dino j m)" "i_addrs (inodes s2 ! 0) = i_addrs (dino j m)" "logs s2 = logs t" "fsb s2 = mkfs_sb"
    using sb by (auto simp: s1_def)
  have "cval s2 x = img m ! unat x" if "32 \<le> unat x" "unat x < 1000" for x
    using put_blocks_view[OF s2(2), of x] view[OF that] that(2) by (simp add: v1 len)
  moreover have "bc_ok {} s2" "dirty s2 = {}" "disk s2 = disk t" using s2(2) v1 by (simp_all add: put_blocks_def)
  ultimately show ?thesis using g s2 by blast
qed

lemma open_read:
  assumes s2: "bc_ok {} s2" "dirty s2 = {}" "length (disk s2) = 1000" "i_dev (inodes s2 ! 0) = 1" "i_type (inodes s2 ! 0) = T_FILE"
     "i_size (inodes s2 ! 0) = i_size (dino j m)" "i_addrs (inodes s2 ! 0) = i_addrs (dino j m)"
    and view: "\<forall>x. 32 \<le> unat x \<and> unat x < 1000 \<longrightarrow> cval s2 x = img m ! unat x" and fbm: "fb m \<le> 1000"
    and f: "fok (dino j m) (nb (fsize j m)) m"
  shows "\<exists>s3. readi 0 0 (of_nat (fsize j m)) s2 = Ok (of_nat (fsize j m), fdata j m) s3"
proof -
  let ?K = "nb (fsize j m)" and ?ad = "i_addrs (dino j m)"
  have cv: "\<forall>x. 59 \<le> unat x \<and> unat x < fb m \<longrightarrow> cval s2 x = img m ! unat x" using view fbm by simp
  note F = fokD[OF f] and V = fok_view[OF f cv]
  have nz: "w \<noteq> 0" if "59 \<le> unat w" for w :: "32 word" using that by auto
  have al: "allocated ?K s2 ?ad" unfolding allocated_def s2(3)
  proof (intro conjI allI impI)
    fix k assume k: "k < ?K"
    show "fblk (cval s2) ?ad k \<noteq> 0" "unat (fblk (cval s2) ?ad k) < 1000" using V(1)[OF k] F(3)[OF k] F(4)[OF k] nz fbm by auto
  qed (use F(1,2,8,9) nz fbm in auto)
  have sz: "unat (of_nat (fsize j m) :: 32 word) = fsize j m" "fsize j m \<le> 512 * ?K" "fsize j m < 2 ^ 32" using unat_lt32[of "i_size (dino j m)"] by (simp_all add: nb_def)
  have ld: "length (content ?K (dsk m) ?ad) = length (content ?K (cval s2) ?ad)" by (simp add: V(2))
  let ?c = "take (fsize j m) (content ?K (cval s2) ?ad)"
  have "length (content ?K (cval s2) ?ad) = 512 * ?K"
  proof (rule content_length, intro allI impI)
    fix k assume k: "k < ?K"
    then have "unat (fblk (cval s2) ?ad k) < length (disk s2)" using al by (simp add: allocated_def)
    then show "length (cval s2 (fblk (cval s2) ?ad k)) = 512" using bread_length[OF s2(1)] by simp
  qed
  then have lc: "length ?c = fsize j m" using sz(2) by simp
  have dc: "?c = fdata j m" by (simp add: fdata_def V(2))
  have "\<exists>s3. readi 0 0 (of_nat (fsize j m)) s2 = Ok (of_nat (length (take (fsize j m) ?c)), take (fsize j m) ?c) s3"
    using readi_ok[OF s2(1), of ?K 0 0 "of_nat (fsize j m)"] s2(2) al s2(4-7) sz by auto
  then obtain s3 where "readi 0 0 (of_nat (fsize j m)) s2 = Ok (of_nat (fsize j m), fdata j m) s3" using lc dc by auto
  then show ?thesis by blast
qed

lemma image_boots:
  assumes m: "mkfs_image fs m"
  shows "\<exists>s0 t. readsb 1 (boot_on (img m)) = Ok mkfs_sb s0 \<and> initlog 1 (s0\<lparr>fsb := mkfs_sb\<rparr>) = Ok () t \<and> idle t \<and> length (disk t) = 1000
     \<and> inodes t = inodes boot_kernel \<and> fsb t = mkfs_sb \<and> (\<forall>x. 32 \<le> unat x \<and> unat x < 1000 \<longrightarrow> cval t x = img m ! unat x) \<and> dirty t = {}"
proof -
  have I: "length (img m) = 1000" "\<And>x. x \<in> set (img m) \<Longrightarrow> length x = 512" "img m ! 1 = sb_block" "img m ! 2 = replicate 512 0"
    using m by (auto simp: mkfs_image_def)
  note B = boot_on_booted[of "img m", OF I(2)] and O = boot_on_ok[of "img m", OF I(2)]
  have bc: "bc_ok {} (boot_on (img m))" "dirty (boot_on (img m)) = {}" "length (lh_block (logs (boot_on (img m)))) = 30" using B(1) by (simp_all add: booted_def)
  obtain s0 where s0: "readsb 1 (boot_on (img m)) = Ok mkfs_sb s0" "frame (boot_on (img m)) s0" "put_blocks [] (boot_on (img m)) s0"
    using readsb_current[OF bc(1)] bc(2) O(3)[where n = 1] B(2) I(1,3) by (auto simp: sb_block_sb)
  let ?r = "s0\<lparr>fsb := mkfs_sb\<rparr>"
  have r: "booted ?r" "disk ?r = img m" "logs ?r = logs (boot_on (img m))" "inodes ?r = inodes boot_kernel"
    using s0(3) bc same_cache[of ?r s0] frameD(2,6)[OF s0(2)] B(2) boot_inodes by (simp_all add: booted_def put_blocks_def)
  have z: "get32 (img m ! 2) 0 = 0" by (simp add: I(4) get32_zeros)
  have im: "image_ok 2 30 (img m)" "replay 2 (img m) = []" using image_empty[OF z, of 30] I(1,2) by simp_all
  have sl: "sb_log (img m) = (2, 30)" using arg_cong[OF sb_block_sb, of sb_logstart] arg_cong[OF sb_block_sb, of sb_nlog] I(3)
    by (simp add: sb_log_def sb_of_def) (simp add: mkfs_sb_def)
  obtain t where t: "initlog 1 ?r = Ok () t" "idle t" "home_eq 2 30 (disk t) (img m)" "inodes t = inodes boot_kernel" "fsb t = mkfs_sb"
    using initlog_idle[OF r(1), of 2 30] sl im r B(3,4) by auto
  have ids: "bc_ok {} t" "dirty t = {}" using t(2) by (auto simp: idle_def log_ok_def logged_def log_n_def)
  have "cval t x = img m ! unat x" if "32 \<le> unat x" "unat x < 1000" for x
    using cval_clean[OF ids(1), of x] that t(3) I(1) by (simp add: ids home_eq_def)
  moreover have "length (disk t) = 1000" using t(3) I(1) by (simp add: home_eq_def)
  ultimately show ?thesis using s0(1) t ids(2) by blast
qed

text \<open>(C9) \<open>mkfs\<close> builds the image it is asked for.  For at most 198 files, none of which is longer than the
  largest file, and which fit on the disk together with the root directory, it returns, and the image has: the super block, an
  empty log, a bitmap in which exactly the blocks in use are marked, the root directory with an entry for \<open>.\<close>,
  \<open>..\<close> and each file, and for each file an inode of its size whose blocks hold exactly its bytes.  No block belongs to
  two files.\<close>

theorem mkfs_builds:
  assumes "\<forall>f \<in> set fs. addable f" "length fs \<le> 198" "blocks_needed fs \<le> 941"
  shows "\<exists>m. mkfs_main fs = Ok () m \<and> mkfs_image fs m"
  using mkfs_main_ok[OF assms] .

text \<open>(C8) \<open>mkfs\<close> and the kernel agree on the format: the kernel that boots from an image of \<open>mkfs\<close> reads the super
  block \<open>mkfs\<close> has computed, finds the log empty and ready, and \<open>iget\<close>, \<open>ilock\<close> and \<open>readi\<close> on the inode number of the
  \<open>i\<close>-th file return exactly the bytes that file had on the host.\<close>

theorem mkfs_boot_read:
  assumes "\<forall>f \<in> set fs. addable f" "length fs \<le> 198" "blocks_needed fs \<le> 941" "i < length fs"
  shows "\<exists>m s0 t s1 s2 s3. mkfs_main fs = Ok () m \<and> readsb 1 (boot_on (img m)) = Ok mkfs_sb s0
     \<and> initlog 1 (s0\<lparr>fsb := mkfs_sb\<rparr>) = Ok () t \<and> idle t
     \<and> iget 1 (of_nat (2 + i)) t = Ok 0 s1 \<and> ilock (Some 0) s1 = Ok () s2
     \<and> readi 0 0 (of_nat (length (file_bytes (fs ! i)))) s2 = Ok (of_nat (length (file_bytes (fs ! i))), file_bytes (fs ! i)) s3"
proof -
  obtain m where m: "mkfs_main fs = Ok () m" "mkfs_image fs m" using mkfs_main_ok[OF assms(1-3)] by blast
  have I: "fb m \<le> 1000" "i_type (dino (2 + i) m) = T_FILE" "fok (dino (2 + i) m) (nb (fsize (2 + i) m)) m" "fsize (2 + i) m = length (file_bytes (fs ! i))"
     "fdata (2 + i) m = file_bytes (fs ! i)" using m(2) assms(3,4) by (auto simp: mkfs_image_def)
  obtain s0 t where t: "readsb 1 (boot_on (img m)) = Ok mkfs_sb s0" "initlog 1 (s0\<lparr>fsb := mkfs_sb\<rparr>) = Ok () t" "idle t" "length (disk t) = 1000"
     "inodes t = inodes boot_kernel" "fsb t = mkfs_sb" "\<forall>x. 32 \<le> unat x \<and> unat x < 1000 \<longrightarrow> cval t x = img m ! unat x" "dirty t = {}"
    using image_boots[OF m(2)] by blast
  have bc: "bc_ok {} t" using t(3) by (simp add: idle_def)
  have j: "2 + i < 208" "i_type (dino (2 + i) m) \<noteq> 0" using assms(2,4) I(2) by simp_all
  obtain s1 s2 where s2: "iget 1 (of_nat (2 + i)) t = Ok 0 s1" "ilock (Some 0) s1 = Ok () s2" "bc_ok {} s2" "dirty s2 = {}" "disk s2 = disk t"
     "\<forall>x. 32 \<le> unat x \<and> unat x < 1000 \<longrightarrow> cval s2 x = img m ! unat x" "i_dev (inodes s2 ! 0) = 1" "i_type (inodes s2 ! 0) = T_FILE"
     "i_size (inodes s2 ! 0) = i_size (dino (2 + i) m)" "i_addrs (inodes s2 ! 0) = i_addrs (dino (2 + i) m)"
    using open_inode[OF bc t(8,5,6,4) _ j] t(7) I(2) by auto
  obtain s3 where "readi 0 0 (of_nat (fsize (2 + i) m)) s2 = Ok (of_nat (fsize (2 + i) m), fdata (2 + i) m) s3"
    using open_read[OF s2(3,4) _ s2(7-10,6) I(1,3)] s2(5) t(4) by auto
  then show ?thesis unfolding I(4,5) using m(1) t(1-3) s2(1,2) by blast
qed

definition mkfs_demo :: "input_file list" where
  "mkfs_demo = [([95, 99, 97, 116], Some [replicate 512 7, replicate 100 9]), ([82, 69, 65, 68, 77, 69], Some [[104, 105]])]"

lemma mkfs_demo_ok: "\<forall>f \<in> set mkfs_demo. addable f" "length mkfs_demo \<le> 198" "blocks_needed mkfs_demo \<le> 941"
  by (simp_all add: mkfs_demo_def addable_def blocks_needed_def nb_def taking_def)

theorem mkfs_builds_witness: "\<exists>m. mkfs_main mkfs_demo = Ok () m \<and> mkfs_image mkfs_demo m"
  by (rule mkfs_builds[OF mkfs_demo_ok])

theorem mkfs_boot_read_witness:
  "\<exists>m s0 t s1 s2 s3. mkfs_main mkfs_demo = Ok () m \<and> readsb 1 (boot_on (img m)) = Ok mkfs_sb s0 \<and> initlog 1 (s0\<lparr>fsb := mkfs_sb\<rparr>) = Ok () t
     \<and> iget 1 3 t = Ok 0 s1 \<and> ilock (Some 0) s1 = Ok () s2 \<and> readi 0 0 2 s2 = Ok (2, [104, 105]) s3"
  using mkfs_boot_read[OF mkfs_demo_ok, of 1] by (auto simp: mkfs_demo_def)

lemma balloc_outside:
  assumes bc: "bc_ok {} s" "dirty s = {}" and sb: "fsb s = mkfs_sb" "length (disk s) = 1000" and l: "lh_n (logs s) = 0" "l_outstanding (logs s) = 0" "10 < unat (l_size (logs s))" "unat (l_size (logs s)) < 2 ^ 31"
    and free: "b < 1000" "bit_clear (cval s 58) b"
  shows "balloc 1 s = Panic ''log_write outside of trans''"
proof -
  have z: "sb_size (fsb s) = 1000" "BBLOCK 0 s = 58" by (simp_all add: sb mkfs_sb_def BBLOCK_def)
  obtain a u where u: "bread 1 58 s = Ok a u" "has_block s 58 a u" using read_block[OF bc(1), of 58] bc(2) sb(2) by auto
  have f: "logs u = logs s" "fsb u = fsb s" "b_data (bufs u ! a) = cval s 58" using u(2) frameD(2,5)[of s u] by (simp_all add: has_block_def)
  obtain i where i: "first_idx (bit_clear (cval s 58)) [0..<1000] = Some i"
    using free first_idx_None[of "bit_clear (cval s 58)" "[0..<1000]"] by (cases "first_idx (bit_clear (cval s 58)) [0..<1000]") auto
  have u1: "unat (l_size (logs s) - 1) = unat (l_size (logs s)) - 1" using l(3) by (simp add: unat_sub_if' word_le_nat_alt)
  then have "sint (l_size (logs s) - 1) = int (unat (l_size (logs s)) - 1)" using sint_eq_unat[of "l_size (logs s) - 1"] l(4) by simp
  then have "0 < sint (l_size (logs s) - 1)" using l(3) by linarith
  then have lw: "log_write a x = Panic ''log_write outside of trans''" if "logs x = logs s" for x
    using l that by (simp add: log_write_def s_le_def s_lt_def)
  show ?thesis unfolding balloc_def balloc_from.simps[of 1 0 s]
    using u(1) z i by (simp add: f) (subst lw, simp_all add: f upd_buf_def)
qed

text \<open>(C38) With 30 files (or 62, 94, \<dots>) the root directory fills its last block exactly, and \<open>mkfs\<close> still rounds its size up by one
  block that it does not allocate.  On that image the kernel panics as soon as somebody reads the directory to its end outside a transaction, as
  \<open>fileread\<close> does: \<open>readi\<close> asks \<open>bmap\<close> for the missing block, which calls \<open>balloc\<close> and \<open>log_write\<close>.\<close>

theorem root_read_panics:
  assumes "\<forall>f \<in> set fs. addable f" "length fs \<le> 198" "blocks_needed fs < 941" "(2 + length fs) mod 32 = 0"
  shows "\<exists>m s0 t s1 s2. mkfs_main fs = Ok () m \<and> readsb 1 (boot_on (img m)) = Ok mkfs_sb s0
     \<and> initlog 1 (s0\<lparr>fsb := mkfs_sb\<rparr>) = Ok () t \<and> idle t \<and> iget 1 1 t = Ok 0 s1 \<and> ilock (Some 0) s1 = Ok () s2
     \<and> readi 0 (of_nat (16 * (2 + length fs))) 16 s2 = Panic ''log_write outside of trans''"
proof -
  obtain m where m: "mkfs_main fs = Ok () m" "mkfs_image fs m" using mkfs_main_ok[OF assms(1,2)] assms(3) by auto
  define K where "K = (2 + length fs) div 32"
  have K: "2 + length fs = 32 * K" "K \<le> 6" "nb (16 * (2 + length fs)) = K" "root_size (length fs) = 512 * (K + 1)"
  proof -
    show 1: "2 + length fs = 32 * K" using assms(4) by (simp add: K_def mult.commute[of 32] mod_0_imp_dvd)
    show "K \<le> 6" using assms(2) 1 by simp
    show "nb (16 * (2 + length fs)) = K" "root_size (length fs) = 512 * (K + 1)" unfolding nb_def root_size_def 1 by simp_all
  qed
  have I: "fb m = 59 + blocks_needed fs" "\<forall>b < 4096. bit_clear (img m ! 58) b \<longleftrightarrow> fb m \<le> b" "i_type (dino 1 m) = T_DIR" "fsize 1 m = 512 * (K + 1)" "fok (dino 1 m) K m"
    using m(2) K(3,4) by (simp_all add: mkfs_image_def Let_def)
  obtain s0 t where t: "readsb 1 (boot_on (img m)) = Ok mkfs_sb s0" "initlog 1 (s0\<lparr>fsb := mkfs_sb\<rparr>) = Ok () t" "idle t" "length (disk t) = 1000"
     "inodes t = inodes boot_kernel" "fsb t = mkfs_sb" "\<forall>x. 32 \<le> unat x \<and> unat x < 1000 \<longrightarrow> cval t x = img m ! unat x" "dirty t = {}"
    using image_boots[OF m(2)] by blast
  have bc: "bc_ok {} t" using t(3) by (simp add: idle_def)
  have j: "(1::nat) < 208" "i_type (dino 1 m) \<noteq> 0" using I(3) by simp_all
  obtain s1 s2 where s2: "iget 1 1 t = Ok 0 s1" "ilock (Some 0) s1 = Ok () s2" "bc_ok {} s2" "dirty s2 = {}" "disk s2 = disk t"
     "\<forall>x. 32 \<le> unat x \<and> unat x < 1000 \<longrightarrow> cval s2 x = img m ! unat x" "i_dev (inodes s2 ! 0) = 1" "i_type (inodes s2 ! 0) = T_DIR"
     "i_size (inodes s2 ! 0) = i_size (dino 1 m)" "i_addrs (inodes s2 ! 0) = i_addrs (dino 1 m)" "logs s2 = logs t" "fsb s2 = mkfs_sb"
    using open_inode[OF bc t(8,5,6,4) _ j] t(7) I(3) by auto
  have lg: "lh_n (logs s2) = 0" "l_outstanding (logs s2) = 0" "10 < unat (l_size (logs s2))" "unat (l_size (logs s2)) < 2 ^ 31"
    using t(3) unfolding s2(11) idle_def by auto
  have "fb m < 1000" "bit_clear (cval s2 58) (fb m)" using I(1,2) assms(3) s2(6) by auto
  then have ba: "balloc 1 s2 = Panic ''log_write outside of trans''"
    using balloc_outside[OF s2(3,4,12) _ lg, of "fb m"] s2(5) t(4) by simp
  let ?o = "of_nat (512 * K) :: 32 word"
  have uo: "unat ?o = 512 * K" "?o div 512 = of_nat K" "unat (of_nat K :: 32 word) = K" "(of_nat K :: 32 word) < 12"
  proof -
    show "unat (of_nat K :: 32 word) = K" using K(2) by (simp add: unat_of_nat take_bit_nat_eq_self)
    then show "(of_nat K :: 32 word) < 12" using K(2) by (simp add: word_less_nat_alt)
    show u: "unat ?o = 512 * K" using K(2) by (simp add: unat_of_nat take_bit_nat_eq_self del: of_nat_mult)
    have "unat (?o div 512) = K" unfolding unat_div u by simp
    then show "?o div 512 = of_nat K" using word_unat_eq_iff[of "?o div 512" "of_nat K"] \<open>unat (of_nat K :: 32 word) = K\<close> by simp
  qed
  have a0: "i_addrs (inodes s2 ! 0) ! K = 0" using fokD(6)[OF I(5), of K] K(2) by (simp add: s2(10))
  have "bmap 0 (of_nat K) s2 = Panic ''log_write outside of trans''" using uo a0 ba s2(7) by (simp add: bmap_def)
  then have "readi_loop 0 ?o 16 [] s2 = Panic ''log_write outside of trans''" by (subst readi_loop.simps) (simp add: uo(2) del: of_nat_mult)
  moreover have "\<not> ?o > i_size (dino 1 m)" "\<not> ?o + 16 < ?o" "\<not> ?o + 16 > i_size (dino 1 m)"
  proof -
    have "unat (?o + 16) = 512 * K + 16" using K(2) by (simp only: unat_word_ariths uo(1)) simp
    then show "\<not> ?o > i_size (dino 1 m)" "\<not> ?o + 16 < ?o" "\<not> ?o + 16 > i_size (dino 1 m)" unfolding word_less_nat_alt uo(1) I(4) by simp_all
  qed
  ultimately have "readi 0 ?o 16 s2 = Panic ''log_write outside of trans''" using s2(8) unfolding readi_def Let_def s2(9) by (simp del: of_nat_mult)
  moreover have "16 * (2 + length fs) = 512 * K" using K(1) by simp
  ultimately have "readi 0 (of_nat (16 * (2 + length fs))) 16 s2 = Panic ''log_write outside of trans''" by (simp only:)
  then show ?thesis using m(1) t(1-3) s2(1,2) by blast
qed

definition full_root_demo :: "input_file list" where
  "full_root_demo = replicate 30 ([97], Some [])"

theorem root_read_panics_witness:
  "\<exists>m s0 t s1 s2. mkfs_main full_root_demo = Ok () m \<and> readsb 1 (boot_on (img m)) = Ok mkfs_sb s0 \<and> initlog 1 (s0\<lparr>fsb := mkfs_sb\<rparr>) = Ok () t
     \<and> iget 1 1 t = Ok 0 s1 \<and> ilock (Some 0) s1 = Ok () s2 \<and> readi 0 512 16 s2 = Panic ''log_write outside of trans''"
  using root_read_panics[of full_root_demo] by (auto simp: full_root_demo_def addable_def blocks_needed_def nb_def taking_def sum_list_replicate)

end
