(* ===== verification/Vmap.thy ===== *)
theory Vmap
  imports Uaccess
begin

text \<open>
  What the page tables of \<open>vm.c\<close> mean.  A page directory of the model is a page of \<open>mem\<close> whose present entries point to page tables,
  which are again pages of \<open>mem\<close>; \<open>vmap\<close> reads off the entry that maps an address, and the hardware's walk \<open>mmu\<close> (theory
  \<open>Uaccess\<close>) agrees with it.  \<open>pt_ok\<close> is the invariant of one directory beside the free list of the page allocator, \<open>space_ok\<close> adds
  that the frames of the user part are pages of their own.  The lemmas say what each operation does to the mapping, which pages it takes
  or gives back, and that it touches no other page: \<open>walkpgdir\<close>, \<open>mappages\<close>, \<open>setupkvm\<close>, \<open>allocuvm\<close>, \<open>deallocuvm\<close>, \<open>freevm\<close> and
  \<open>copyuvm\<close>.  Theory \<open>Vspace\<close> builds the properties of processes on them.
\<close>

section \<open>Pages and entries\<close>

definition in_page :: "addr \<Rightarrow> addr \<Rightarrow> bool" where
  "in_page p x \<longleftrightarrow> unat (x - p) < 4096"

definition ent :: "memory \<Rightarrow> addr \<Rightarrow> nat \<Rightarrow> 32 word" where
  "ent m p i = load32 m (p + 4 * of_nat i)"

definition pdx :: "addr \<Rightarrow> nat" where
  "pdx va = unat (PDX va)"

definition ptx :: "addr \<Rightarrow> nat" where
  "ptx va = unat (PTX va)"

lemma pdx_val: "pdx va = unat va div 2 ^ 22"
proof -
  have "drop_bit 22 va AND 0x3FF = take_bit 10 (drop_bit 22 va)" by (simp add: take_bit_eq_mask mask_eq_decr_exp)
  also have "\<dots> = drop_bit 22 va" by (rule bit_word_eqI) (auto simp: bit_simps dest: bit_imp_le_length)
  finally have "drop_bit 22 va AND 0x3FF = drop_bit 22 va" .
  then show ?thesis by (simp add: pdx_def PDX_def drop_bit_eq_div unat_div)
qed

lemma ptx_val: "ptx va = unat va div 4096 mod 1024"
proof -
  have "drop_bit 12 va AND 0x3FF = take_bit 10 (drop_bit 12 va)"
    by (simp add: take_bit_eq_mask mask_eq_decr_exp)
  then show ?thesis by (simp add: ptx_def PTX_def drop_bit_eq_div take_bit_eq_mod unat_mod unat_div)
qed

lemma px_less [simp]: "pdx va < 1024" "ptx va < 1024"
  using unat_lt32[of va] by (simp_all add: pdx_val ptx_val)

lemma PDX_nat: "PDX va = of_nat (pdx va)" "PTX va = of_nat (ptx va)"
  by (simp_all add: pdx_def ptx_def)

lemma same_page: "pdx va = pdx vb \<and> ptx va = ptx vb \<longleftrightarrow> unat va div 4096 = unat vb div 4096"
proof -
  have "n div 2 ^ 22 = n div 4096 div 1024" for n :: nat by (simp add: div_mult2_eq[symmetric])
  then show ?thesis unfolding pdx_val ptx_val by (metis div_mult_mod_eq)
qed

lemma page_disjoint:
  assumes "p mod PGSIZE = 0" "q mod PGSIZE = 0" "in_page p x" "in_page q x"
  shows "p = q"
proof (rule ccontr)
  assume "p \<noteq> q"
  then have "4096 \<le> unat (q + of_nat (unat (x - q)) - p)" by (rule page_offset[OF assms(1,2)]) (use assms(4) in \<open>simp add: in_page_def\<close>)
  then show False using assms(3) by (simp add: in_page_def)
qed

lemma ent_offset: "i < 1024 \<Longrightarrow> unat (4 * of_nat i :: addr) = 4 * i"
  by (simp add: unat_word_ariths unat_of_nat take_bit_nat_eq_self)

lemma ent_in_page: "i < 1024 \<Longrightarrow> k < 4 \<Longrightarrow> in_page p (p + 4 * of_nat i + of_nat k)"
proof -
  assume "i < 1024" "k < 4"
  then have "unat (4 * of_nat i + of_nat k :: addr) = 4 * i + k" using ent_offset[of i] by (simp add: unat_word_ariths unat_of_nat take_bit_nat_eq_self)
  then show ?thesis using \<open>i < 1024\<close> \<open>k < 4\<close> by (simp add: in_page_def add.assoc)
qed

lemma ent_cong: "i < 1024 \<Longrightarrow> (\<And>x. in_page p x \<Longrightarrow> m x = m' x) \<Longrightarrow> ent m p i = ent m' p i"
  unfolding ent_def by (rule load32_cong) (simp add: ent_in_page)

lemma store_ent_other: "i < 1024 \<Longrightarrow> \<not> in_page p x \<Longrightarrow> store32 (p + 4 * of_nat i) w m x = m x"
proof -
  assume i: "i < 1024" and n: "\<not> in_page p x"
  have "\<not> unat (x - (p + 4 * of_nat i)) < 4"
  proof
    assume l: "unat (x - (p + 4 * of_nat i)) < 4"
    have "in_page p (p + 4 * of_nat i + of_nat (unat (x - (p + 4 * of_nat i))))" by (rule ent_in_page[OF i l])
    then show False using n by simp
  qed
  then show ?thesis by (simp add: store32_spec)
qed

lemma ent_store:
  assumes "p mod PGSIZE = 0" "q mod PGSIZE = 0" "i < 1024" "j < 1024"
  shows "ent (store32 (p + 4 * of_nat i) w m) q j = (if p = q \<and> i = j then w else ent m q j)"
proof (cases "p = q")
  case False
  then show ?thesis using page_disjoint[OF assms(1,2)] by (auto intro!: ent_cong assms(4) store_ent_other[OF assms(3)])
next
  case True
  show ?thesis
  proof (cases "i = j")
    case False
    have u: "unat (4 * of_nat j - 4 * of_nat i :: addr) = (if i \<le> j then 4 * j - 4 * i else 2 ^ 32 + 4 * j - 4 * i)"
      "unat (4 * of_nat i - 4 * of_nat j :: addr) = (if j \<le> i then 4 * i - 4 * j else 2 ^ 32 + 4 * i - 4 * j)"
      using ent_offset[OF assms(3)] ent_offset[OF assms(4)] by (auto simp: unat_sub_if')
    have "4 \<le> unat (4 * of_nat j - 4 * of_nat i :: addr)" "4 \<le> unat (4 * of_nat i - 4 * of_nat j :: addr)"
      unfolding u using False assms(3,4) by auto
    then show ?thesis using True False by (simp add: ent_def load32_store32_other)
  qed (use True in \<open>simp add: ent_def\<close>)
qed

lemma ent_memset:
  assumes "p mod PGSIZE = 0" "q mod PGSIZE = 0" "j < 1024"
  shows "ent (memset p 0 PGSIZE m) q j = (if p = q then 0 else ent m q j)"
proof (cases "p = q")
  case True
  have "ent (memset p 0 PGSIZE m) q j = ent (\<lambda>_. 0) q j"
    by (rule ent_cong[OF assms(3)]) (simp add: memset_spec True in_page_def)
  then show ?thesis using True by (simp add: ent_def load32_def)
next
  case False
  have "memset p 0 PGSIZE m x = m x" if "in_page q x" for x using page_disjoint[OF assms(1,2) _ that] False by (auto simp: memset_spec in_page_def)
  then have "ent (memset p 0 PGSIZE m) q j = ent m q j" by (intro ent_cong assms(3))
  then show ?thesis using False by simp
qed

definition present :: "32 word \<Rightarrow> bool" where
  "present e \<longleftrightarrow> e AND PTE_P \<noteq> 0"

definition tbl :: "memory \<Rightarrow> addr \<Rightarrow> nat \<Rightarrow> addr" where
  "tbl m pd i = P2V (PTE_ADDR (ent m pd i))"

text \<open>The indices of the page tables of a directory, the pages it and its tables take together with the free
  pages, the number of tables it lacks, and the entry that maps an address.\<close>

definition tables :: "memory \<Rightarrow> addr \<Rightarrow> nat set" where
  "tables m pd = {i. i < 1024 \<and> present (ent m pd i)}"

definition foot :: "kernel \<Rightarrow> addr list \<Rightarrow> addr \<Rightarrow> addr set" where
  "foot s xs pd = insert pd (set xs \<union> tbl (mem s) pd ` tables (mem s) pd)"

definition missing :: "kernel \<Rightarrow> addr \<Rightarrow> nat" where
  "missing s pd = card ({..<1024} - tables (mem s) pd)"

definition vmap :: "memory \<Rightarrow> addr \<Rightarrow> addr \<Rightarrow> 32 word option" where
  "vmap m pd va =
     (let e = ent m (tbl m pd (pdx va)) (ptx va) in if pdx va \<in> tables m pd \<and> present e then Some e else None)"

definition pt_ok :: "kernel \<Rightarrow> addr list \<Rightarrow> addr \<Rightarrow> bool" where
  "pt_ok s xs pd \<longleftrightarrow> kmem_inv s xs \<and> page_ok s pd \<and> pd \<notin> set xs \<and> inj_on (tbl (mem s) pd) (tables (mem s) pd)
     \<and> (\<forall>i \<in> tables (mem s) pd. page_ok s (tbl (mem s) pd i) \<and> tbl (mem s) pd i \<notin> insert pd (set xs)
          \<and> ent (mem s) pd i AND (PTE_W OR PTE_U) = PTE_W OR PTE_U)"

text \<open>What an operation on the directory \<open>pd\<close> may do that takes \<open>k\<close> pages from the free list \<open>xs\<close> for other uses than page tables.\<close>

definition vm_step :: "nat \<Rightarrow> addr \<Rightarrow> kernel \<Rightarrow> addr list \<Rightarrow> kernel \<Rightarrow> addr list \<Rightarrow> bool" where
  "vm_step k pd s xs s' xs' \<longleftrightarrow> pt_ok s' xs' pd \<and> foot s' xs' pd \<subseteq> foot s xs pd \<and> set xs' \<subseteq> set xs
     \<and> (\<forall>x. (\<forall>q \<in> foot s xs pd. \<not> in_page q x) \<longrightarrow> mem s' x = mem s x)
     \<and> length xs' + k + missing s pd = length xs + missing s' pd
     \<and> s' = s\<lparr>mem := mem s', freelist := freelist s', mach := mach s'\<rparr>"

abbreviation pt_step :: "addr \<Rightarrow> kernel \<Rightarrow> addr list \<Rightarrow> kernel \<Rightarrow> addr list \<Rightarrow> bool" where
  "pt_step \<equiv> vm_step 0"

lemma vm_stepD:
  assumes "vm_step k pd s xs s' xs'"
  shows "pt_ok s' xs' pd" "foot s' xs' pd \<subseteq> foot s xs pd" "set xs' \<subseteq> set xs" "\<forall>q \<in> foot s xs pd. \<not> in_page q x \<Longrightarrow> mem s' x = mem s x"
    "length xs' + k + missing s pd = length xs + missing s' pd" "s' = s\<lparr>mem := mem s', freelist := freelist s', mach := mach s'\<rparr>"
  using assms unfolding vm_step_def by blast+

lemma vm_step_trans:
  assumes "vm_step k pd s xs s' xs'" "vm_step l pd s' xs' s'' xs''"
  shows "vm_step (k + l) pd s xs s'' xs''"
proof -
  note a = vm_stepD[OF assms(1)] and b = vm_stepD[OF assms(2)]
  have "mem s'' x = mem s x" if "\<forall>q \<in> foot s xs pd. \<not> in_page q x" for x using a(2) a(4)[OF that] b(4)[of x] that by (metis subsetD)
  moreover have "s'' = s\<lparr>mem := mem s'', freelist := freelist s'', mach := mach s''\<rparr>" by (subst b(6), subst a(6)) simp
  ultimately show ?thesis using b(1) a(2,3,5) b(2,3,5) unfolding vm_step_def by auto
qed

lemma pt_stepD:
  assumes "pt_step pd s xs s' xs'"
  shows "pt_ok s' xs' pd" "foot s' xs' pd \<subseteq> foot s xs pd" "set xs' \<subseteq> set xs" "\<forall>q \<in> foot s xs pd. \<not> in_page q x \<Longrightarrow> mem s' x = mem s x"
    "length xs' + missing s pd = length xs + missing s' pd" "s' = s\<lparr>mem := mem s', freelist := freelist s', mach := mach s'\<rparr>"
    "missing s pd + k \<le> length xs \<Longrightarrow> missing s' pd + k \<le> length xs'" "missing s pd \<le> length xs \<Longrightarrow> missing s' pd \<le> length xs'" "page_ok s' = page_ok s"
proof -
  show a: "pt_ok s' xs' pd" "foot s' xs' pd \<subseteq> foot s xs pd" "set xs' \<subseteq> set xs" "\<forall>q \<in> foot s xs pd. \<not> in_page q x \<Longrightarrow> mem s' x = mem s x"
    "length xs' + missing s pd = length xs + missing s' pd" "s' = s\<lparr>mem := mem s', freelist := freelist s', mach := mach s'\<rparr>"
    using vm_stepD[OF assms] by simp_all
  show "missing s pd + k \<le> length xs \<Longrightarrow> missing s' pd + k \<le> length xs'" "missing s pd \<le> length xs \<Longrightarrow> missing s' pd \<le> length xs'" using a(5) by linarith+
  show "page_ok s' = page_ok s" by (rule page_ok_cong) (subst a(6), simp)
qed

lemma pt_step_refl: "pt_ok s xs pd \<Longrightarrow> pt_step pd s xs s xs"
  by (simp add: vm_step_def)

lemma pt_step_trans: "pt_step pd s xs s' xs' \<Longrightarrow> pt_step pd s' xs' s'' xs'' \<Longrightarrow> pt_step pd s xs s'' xs''"
  using vm_step_trans[of 0 pd s xs s' xs' 0] by simp

lemma PTE_parts:
  assumes "a mod PGSIZE = 0" "unat f < 4096"
  shows "PTE_ADDR (a OR f) = a" "PTE_FLAGS (a OR f) = f"
proof -
  have a: "take_bit 12 a = 0" using assms(1) by (simp add: take_bit_eq_mod)
  have "f < 2 ^ 12" using assms(2) by (simp add: word_less_nat_alt)
  then have f: "take_bit 12 f = f" by (simp add: take_bit_eq_mod word_mod_less_divisor word_less_nat_alt unat_mod word_unat_eq_iff)
  have m: "(0xFFF :: 32 word) = mask 12" by (simp add: mask_eq_decr_exp)
  have "take_bit 12 (a OR f) = f" using a f by (simp add: take_bit_or)
  then show "PTE_FLAGS (a OR f) = f" by (simp add: PTE_FLAGS_def m take_bit_eq_mask)
  have "bit (a AND NOT (mask 12)) n = bit a n" "bit (f AND NOT (mask 12)) n = False" for n
    using arg_cong[OF a, of "\<lambda>w. bit w n"] arg_cong[OF f, of "\<lambda>w. bit w n"] by (auto simp: bit_simps dest: bit_imp_le_length)
  then show "PTE_ADDR (a OR f) = a" unfolding PTE_ADDR_def m by (intro bit_word_eqI) (auto simp: bit_simps dest: bit_imp_le_length)
qed

lemma page_okD: "page_ok s p \<Longrightarrow> p mod PGSIZE = 0" "page_ok s p \<Longrightarrow> V2P p mod PGSIZE = 0" "page_ok s p \<Longrightarrow> p \<noteq> 0" "page_ok s p \<Longrightarrow> unat (V2P p) < 0xE000000"
proof -
  assume p: "page_ok s p"
  then show m: "p mod PGSIZE = 0" and "p \<noteq> 0" using page_nonzero[OF p] by (simp_all add: page_ok_def)
  show "unat (V2P p) < 0xE000000" using p by (simp add: page_ok_def word_less_nat_alt)
  have "4096 dvd unat p" using m by (simp flip: unat_0_iff add: unat_mod dvd_eq_mod_eq_0)
  then have "4096 dvd unat (V2P p)" unfolding V2P_def by (auto simp: unat_sub_if' intro!: dvd_diff_nat dvd_add)
  then show "V2P p mod PGSIZE = 0" by (simp flip: unat_0_iff add: unat_mod)
qed

lemma P2V_V2P [simp]: "P2V (V2P a) = a" "V2P (P2V a) = a"
  by (simp_all add: P2V_def V2P_def)

lemma kmem_inv_mem:
  assumes "kmem_inv s xs" "\<And>x y. x \<in> set xs \<Longrightarrow> in_page x y \<Longrightarrow> m' y = mem s y"
  shows "kmem_inv (s\<lparr>mem := m'\<rparr>) xs"
proof -
  have "load32 m' x = load32 (mem s) x" if "x \<in> set xs" for x
    by (rule load32_cong) (use assms(2)[OF that] ent_in_page[of 0 _ x] in simp)
  then have "fchain m' (freelist s) xs" using assms(1) fchain_cong[of xs m' "mem s"] by (simp add: kmem_inv_def)
  moreover have "page_ok (s\<lparr>mem := m'\<rparr>) = page_ok s" by (rule page_ok_cong) simp
  ultimately show ?thesis using assms(1) by (simp add: kmem_inv_def)
qed

lemma pt_okD:
  assumes "pt_ok s xs pd"
  shows "kmem_inv s xs" "page_ok s pd" "pd \<notin> set xs" "inj_on (tbl (mem s) pd) (tables (mem s) pd)"
    "i \<in> tables (mem s) pd \<Longrightarrow> page_ok s (tbl (mem s) pd i)" "i \<in> tables (mem s) pd \<Longrightarrow> tbl (mem s) pd i \<noteq> pd"
    "i \<in> tables (mem s) pd \<Longrightarrow> tbl (mem s) pd i \<notin> set xs" "i \<in> tables (mem s) pd \<Longrightarrow> ent (mem s) pd i AND (PTE_W OR PTE_U) = PTE_W OR PTE_U"
    "mach_ok (mach s)" "lk_free KmemLk (mach s)" "x \<in> set xs \<Longrightarrow> page_ok s x" "distinct xs"
  using assms by (auto simp: pt_ok_def kmem_inv_def list_all_iff)

lemma walk_present:
  assumes "pdx va \<in> tables (mem s) pd"
  shows "walkpgdir pd va al s = Ok (tbl (mem s) pd (pdx va) + 4 * of_nat (ptx va)) s"
  using assms by (simp add: walkpgdir_def tables_def present_def ent_def tbl_def PDX_nat Let_def)

lemma walk_absent: "pdx va \<notin> tables (mem s) pd \<Longrightarrow> walkpgdir pd va False s = Ok 0 s"
  by (simp add: walkpgdir_def tables_def present_def ent_def PDX_nat Let_def)

lemma walk_new:
  assumes pt: "pt_ok s xs pd" and na: "pdx va \<notin> tables (mem s) pd" and xs: "xs = t # ys"
  shows "\<exists>s'. walkpgdir pd va True s = Ok (tbl (mem s') pd (pdx va) + 4 * of_nat (ptx va)) s' \<and> pt_step pd s xs s' ys
     \<and> tables (mem s') pd = insert (pdx va) (tables (mem s) pd) \<and> vmap (mem s') pd = vmap (mem s) pd"
proof -
  note D = pt_okD[OF pt]
  have t: "page_ok s t" "t \<noteq> 0" "t mod PGSIZE = 0" "V2P t mod PGSIZE = 0" "pd mod PGSIZE = 0" "t \<noteq> pd" "t \<notin> set ys"
    using D(11)[of t] D(2,3,12) page_okD[of s] xs by auto
  obtain s1 where s1: "kalloc s = Ok t s1" "kmem_inv s1 ys" "mem s1 = mem s" "kend s1 = kend s" "s1 = s\<lparr>freelist := freelist s1, mach := mach s1\<rparr>"
    using kalloc_inv[OF D(1)] kalloc_ok[OF D(9,10)] by (auto simp: xs)
  let ?e = "V2P t OR (PTE_P OR PTE_W OR PTE_U)" and ?i = "pdx va"
  define m where "m = store32 (pd + 4 * of_nat ?i) ?e (memset t 0 PGSIZE (mem s))"
  define s' where "s' = s1\<lparr>mem := m\<rparr>"
  have E: "ent m p j = (if p = pd \<and> j = ?i then ?e else if p = t then 0 else ent (mem s) p j)" if "p mod PGSIZE = 0" "j < 1024" for p j
    unfolding m_def using ent_store[OF t(5) that(1) px_less(1)[of va] that(2)] ent_memset[OF t(3) that] by auto
  have e: "PTE_ADDR ?e = V2P t" "present ?e" "?e AND (PTE_W OR PTE_U) = PTE_W OR PTE_U"
  proof -
    show "PTE_ADDR ?e = V2P t" by (rule PTE_parts(1)[OF t(4)]) simp
    have "bit ?e 0" by (simp add: bit_simps)
    then show "present ?e" by (simp add: present_def and_one_eq odd_iff_mod_2_eq_one[symmetric] bit_0 even_iff_mod_2_eq_zero[symmetric])
    have "(7 :: 32 word) AND 6 = 6" by simp
    then have "bit (7 :: 32 word) n" if "bit (6 :: 32 word) n" for n using that by (metis bit_and_iff)
    then show "?e AND (PTE_W OR PTE_U) = PTE_W OR PTE_U" by (intro bit_word_eqI) (auto simp: bit_simps)
  qed
  have tb: "tables m pd = insert ?i (tables (mem s) pd)" using e(2) E[OF t(5)] t(6) by (auto simp: tables_def split: if_splits)
  have tl: "tbl m pd ?i = t" "j \<in> tables (mem s) pd \<Longrightarrow> tbl m pd j = tbl (mem s) pd j" for j
    using E[OF t(5)] t(6) e(1) na by (auto simp: tbl_def tables_def)
  have tn: "tbl (mem s) pd j \<noteq> t" if "j \<in> tables (mem s) pd" for j using D(7)[OF that] by (auto simp: xs)
  have chg: "m x = mem s x" if "\<not> in_page pd x" "\<not> in_page t x" for x
    using store_ent_other[OF px_less(1) that(1)] that(2) by (simp add: m_def memset_spec in_page_def)
  have km: "kmem_inv s' ys" unfolding s'_def
  proof (rule kmem_inv_mem[OF s1(2)])
    fix x y assume x: "x \<in> set ys" and y: "in_page x y"
    have "x mod PGSIZE = 0" "x \<noteq> pd" "x \<noteq> t" using D(3) D(11)[of x] page_okD(1)[of s x] x t(7) by (auto simp: xs)
    then have "\<not> in_page pd y" "\<not> in_page t y" using page_disjoint[OF _ _ y, of pd] page_disjoint[OF _ _ y, of t] t(3,5) by auto
    then show "m y = mem s1 y" by (simp add: chg s1(3))
  qed
  have po: "page_ok s' = page_ok s" using s1(4) by (intro page_ok_cong) (simp add: s'_def)
  have ms: "mem s' = m" by (simp add: s'_def)
  have "inj_on (tbl m pd) (tables (mem s) pd)" using D(4) tl(2) by (simp add: inj_on_def)
  moreover have "tbl m pd ?i \<notin> tbl m pd ` tables (mem s) pd" using tl tn by fastforce
  ultimately have inj: "inj_on (tbl m pd) (tables m pd)" unfolding tb using na by (simp add: inj_on_insert)
  have pt': "pt_ok s' ys pd" unfolding pt_ok_def po ms
  proof (intro conjI ballI)
    fix j assume j: "j \<in> tables m pd"
    show "page_ok s (tbl m pd j)" "tbl m pd j \<notin> insert pd (set ys)" "ent m pd j AND (PTE_W OR PTE_U) = PTE_W OR PTE_U"
    proof -
      consider "j = ?i" | "j \<in> tables (mem s) pd" "j \<noteq> ?i" using j na unfolding tb by auto
      then have "page_ok s (tbl m pd j) \<and> tbl m pd j \<notin> insert pd (set ys) \<and> ent m pd j AND (PTE_W OR PTE_U) = PTE_W OR PTE_U"
      proof cases
        case 1
        then show ?thesis using tl(1) t e(3) E[OF t(5), of j] by simp
      next
        case 2
        have "ent m pd j = ent (mem s) pd j" using E[OF t(5), of j] 2 t(6) by (auto simp: tables_def)
        then show ?thesis using D(5-8)[OF 2(1)] tl(2)[OF 2(1)] by (simp add: xs)
      qed
      then show "page_ok s (tbl m pd j)" "tbl m pd j \<notin> insert pd (set ys)" "ent m pd j AND (PTE_W OR PTE_U) = PTE_W OR PTE_U" by blast+
    qed
  qed (use km D(2,3) inj in \<open>simp_all add: xs\<close>)
  have ft: "foot s' ys pd \<subseteq> foot s xs pd" unfolding foot_def ms tb using tl by (auto simp: xs)
  have fin: "finite (tables (mem s) pd)" "?i \<in> {..<1024} - tables (mem s) pd" using na by (auto simp: tables_def)
  then have "missing s pd = Suc (missing s' pd)" unfolding missing_def ms tb
    by (metis Diff_insert card.remove finite_Diff finite_lessThan)
  then have len: "length ys + missing s pd = length xs + missing s' pd" by (simp add: xs)
  have fr: "mem s' x = mem s x" if "\<forall>q \<in> foot s xs pd. \<not> in_page q x" for x using that chg by (auto simp: ms foot_def xs)
  have "s' = s\<lparr>mem := mem s', freelist := freelist s', mach := mach s'\<rparr>" unfolding s'_def by (subst s1(5)) simp
  then have st: "pt_step pd s xs s' ys" using pt' ft len fr by (auto simp: vm_step_def xs)
  have "vmap m pd vb = vmap (mem s) pd vb" for vb
  proof (cases "pdx vb = ?i")
    case True
    then show ?thesis using na E[OF t(3), of "ptx vb"] t(6) tl(1) by (simp add: vmap_def present_def)
  next
    case False
    have "ent m (tbl (mem s) pd (pdx vb)) (ptx vb) = ent (mem s) (tbl (mem s) pd (pdx vb)) (ptx vb)" if "pdx vb \<in> tables (mem s) pd"
      using E[of "tbl (mem s) pd (pdx vb)" "ptx vb"] D(5,6)[OF that] tn[OF that] page_okD(1) by auto
    then show ?thesis using False tl(2)[of "pdx vb"] by (auto simp: vmap_def tb Let_def)
  qed
  moreover have "walkpgdir pd va True s = Ok (tbl m pd ?i + 4 * of_nat (ptx va)) s'"
    using na s1(1,3) t(2) by (simp add: walkpgdir_def tables_def present_def ent_def PDX_nat Let_def tl(1)) (simp add: s'_def m_def or.assoc)
  ultimately show ?thesis using st tb by (intro exI[of _ s']) (auto simp: ms)
qed

lemma walk_alloc:
  assumes pt: "pt_ok s xs pd" and r: "missing s pd \<le> length xs"
  shows "\<exists>s' xs'. walkpgdir pd va True s = Ok (tbl (mem s') pd (pdx va) + 4 * of_nat (ptx va)) s' \<and> pt_step pd s xs s' xs'
     \<and> pdx va \<in> tables (mem s') pd \<and> vmap (mem s') pd = vmap (mem s) pd"
proof (cases "pdx va \<in> tables (mem s) pd")
  case True
  then show ?thesis using walk_present pt_step_refl[OF pt] by blast
next
  case False
  then have "pdx va \<in> {..<1024} - tables (mem s) pd" by simp
  then have "0 < missing s pd" unfolding missing_def by (metis card_gt_0_iff empty_iff finite_Diff finite_lessThan)
  then obtain t ys where "xs = t # ys" using r by (cases xs) auto
  then show ?thesis using walk_new[OF pt False] by blast
qed

lemma entry_addr_nonzero: "page_ok s p \<Longrightarrow> i < 1024 \<Longrightarrow> p + 4 * of_nat i \<noteq> 0"
proof
  assume p: "page_ok s p" "i < 1024" and z: "p + 4 * of_nat i = 0"
  have "in_page p 0" using ent_in_page[OF p(2), of 0 p] z by simp
  then have "p = 0" using page_disjoint[of p 0 0] page_okD(1)[OF p(1)] by (simp add: in_page_def)
  then show False using page_okD(3)[OF p(1)] by simp
qed

lemma set_entry:
  fixes e :: "32 word"
  assumes pt: "pt_ok s xs pd" and i: "pdx a \<in> tables (mem s) pd"
  defines "s' \<equiv> s\<lparr>mem := store32 (tbl (mem s) pd (pdx a) + 4 * of_nat (ptx a)) e (mem s)\<rparr>"
  shows "pt_step pd s xs s' xs" "vmap (mem s') pd vb = (if unat vb div 4096 = unat a div 4096 then if present e then Some e else None else vmap (mem s) pd vb)"
    "tables (mem s') pd = tables (mem s) pd"
proof -
  note D = pt_okD[OF pt]
  let ?t = "tbl (mem s) pd (pdx a)"
  have al: "?t mod PGSIZE = 0" "pd mod PGSIZE = 0" "?t \<noteq> pd" using page_okD(1) D(2) D(5,6)[OF i] by blast+
  have E: "ent (mem s') p j = (if p = ?t \<and> j = ptx a then e else ent (mem s) p j)" if "p mod PGSIZE = 0" "j < 1024" for p j
    unfolding s'_def using ent_store[OF al(1) that(1) px_less(2)[of a] that(2)] by auto
  have Ed: "ent (mem s') pd j = ent (mem s) pd j" if "j < 1024" for j using E[OF al(2) that] al(3) by auto
  show tb: "tables (mem s') pd = tables (mem s) pd" using Ed by (auto simp: tables_def)
  have tl: "tbl (mem s') pd j = tbl (mem s) pd j" if "j < 1024" for j using Ed[OF that] by (simp add: tbl_def)
  have chg: "mem s' x = mem s x" if "\<not> in_page ?t x" for x using store_ent_other[OF px_less(2) that] by (simp add: s'_def)
  have km: "kmem_inv s' xs" unfolding s'_def
  proof (rule kmem_inv_mem[OF D(1)])
    fix x y assume x: "x \<in> set xs" and y: "in_page x y"
    have "x \<noteq> ?t" "x mod PGSIZE = 0" using D(7)[OF i] x page_okD(1)[OF D(11)[OF x]] by auto
    then have "\<not> in_page ?t y" using page_disjoint[OF _ al(1) y] by auto
    then show "store32 (?t + 4 * of_nat (ptx a)) e (mem s) y = mem s y" using store_ent_other[OF px_less(2)] by simp
  qed
  have po: "page_ok s' = page_ok s" by (rule page_ok_cong) (simp add: s'_def)
  have lt: "j < 1024" if "j \<in> tables (mem s) pd" for j using that by (simp add: tables_def)
  have "inj_on (tbl (mem s') pd) (tables (mem s) pd)" using D(4) tl lt by (simp add: inj_on_def)
  then have pt': "pt_ok s' xs pd" unfolding pt_ok_def tb po using km D(2,3,5-8) tl Ed lt by simp
  have "foot s' xs pd = foot s xs pd" unfolding foot_def tb using tl lt by auto
  moreover have "mem s' x = mem s x" if "\<forall>q \<in> foot s xs pd. \<not> in_page q x" for x using that i by (intro chg) (auto simp: foot_def)
  ultimately show "pt_step pd s xs s' xs" using pt' by (simp add: vm_step_def missing_def tb) (simp add: s'_def)
  have iff: "?t = tbl (mem s) pd (pdx vb) \<and> ptx a = ptx vb \<longleftrightarrow> unat vb div 4096 = unat a div 4096" if "pdx vb \<in> tables (mem s) pd"
    using same_page[of vb a] inj_onD[OF D(4) _ i that] by auto
  show "vmap (mem s') pd vb = (if unat vb div 4096 = unat a div 4096 then if present e then Some e else None else vmap (mem s) pd vb)"
  proof (cases "pdx vb \<in> tables (mem s) pd")
    case True
    have "ent (mem s') (tbl (mem s) pd (pdx vb)) (ptx vb) = (if unat vb div 4096 = unat a div 4096 then e else ent (mem s) (tbl (mem s) pd (pdx vb)) (ptx vb))"
      using E[of "tbl (mem s) pd (pdx vb)" "ptx vb"] page_okD(1)[OF D(5)[OF True]] iff[OF True] by auto
    then show ?thesis using True by (simp add: vmap_def tb tl)
  next
    case False
    then have "unat vb div 4096 \<noteq> unat a div 4096" using same_page[of vb a] i by metis
    then show ?thesis using False by (simp add: vmap_def tb)
  qed
qed

lemma present_P [simp]: "present (x OR y OR PTE_P)"
proof -
  have "bit (x OR y OR 1 :: 32 word) 0" by (simp add: bit_simps)
  then show ?thesis by (simp add: present_def and_one_eq odd_iff_mod_2_eq_one[symmetric] bit_0 even_iff_mod_2_eq_zero[symmetric])
qed

lemma mappages_loop_ok:
  assumes "pt_ok s xs pd" "missing s pd \<le> length xs" "0 < n" "unat a mod 4096 = 0" "unat a + 4096 * n \<le> 2 ^ 32" "l = a + of_nat (4096 * (n - 1))"
    "\<forall>vb. unat a \<le> unat vb \<and> unat vb < unat a + 4096 * n \<longrightarrow> vmap (mem s) pd vb = None"
  shows "\<exists>s' xs'. mappages_loop pd a l pa perm s = Ok 0 s' \<and> pt_step pd s xs s' xs'
     \<and> (\<forall>vb. vmap (mem s') pd vb = (if unat a \<le> unat vb \<and> unat vb < unat a + 4096 * n
           then Some ((pa + of_nat (4096 * ((unat vb - unat a) div 4096))) OR perm OR PTE_P) else vmap (mem s) pd vb))"
  using assms
proof (induction n arbitrary: a pa s xs)
  case (Suc n)
  obtain s1 xs1 where w: "walkpgdir pd a True s = Ok (tbl (mem s1) pd (pdx a) + 4 * of_nat (ptx a)) s1" "pt_step pd s xs s1 xs1"
     "pdx a \<in> tables (mem s1) pd" "vmap (mem s1) pd = vmap (mem s) pd" using walk_alloc[OF Suc.prems(1,2)] by blast
  have pt1: "pt_ok s1 xs1 pd" using w(2) by (simp add: vm_step_def)
  let ?p = "tbl (mem s1) pd (pdx a) + 4 * of_nat (ptx a)" and ?e = "pa OR perm OR PTE_P"
  have p0: "?p \<noteq> 0" using entry_addr_nonzero[OF pt_okD(5)[OF pt1 w(3)] px_less(2)] by blast
  have "vmap (mem s1) pd a = None" using Suc.prems(7) w(4) by simp
  then have np: "load32 (mem s1) ?p AND PTE_P = 0" using w(3) by (auto simp: vmap_def Let_def present_def ent_def split: if_splits)
  let ?s2 = "s1\<lparr>mem := store32 ?p ?e (mem s1)\<rparr>"
  note se = set_entry[OF pt1 w(3), of ?e]
  have st: "pt_step pd s xs ?s2 xs1" by (rule pt_step_trans[OF w(2) se(1)])
  have pg: "unat vb div 4096 = unat a div 4096 \<longleftrightarrow> unat a \<le> unat vb \<and> unat vb < unat a + 4096" for vb
  proof -
    obtain q where "unat a = 4096 * q" using Suc.prems(4) by (metis mod_0_imp_dvd dvdE)
    then show ?thesis by (simp add: div_nat_eqI) linarith
  qed
  have v2: "vmap (mem ?s2) pd vb = (if unat a \<le> unat vb \<and> unat vb < unat a + 4096 then Some ?e else vmap (mem s) pd vb)" for vb
    using se(2)[of vb] by (simp add: pg w(4) present_P)
  show ?case
  proof (cases "n = 0")
    case True
    then have "mappages_loop pd a l pa perm s = Ok 0 ?s2" using Suc.prems(6) w(1) p0 np by (simp add: mappages_loop.simps[of pd a])
    moreover have "vmap (mem ?s2) pd vb = (if unat a \<le> unat vb \<and> unat vb < unat a + 4096 * Suc n
           then Some ((pa + of_nat (4096 * ((unat vb - unat a) div 4096))) OR perm OR PTE_P) else vmap (mem s) pd vb)" for vb
      using v2[of vb] True by auto
    ultimately show ?thesis using st by blast
  next
    case False
    have ua: "unat (a + PGSIZE) = unat a + 4096" using Suc.prems(5) False by (simp add: unat_word_ariths)
    have dl: "l - a = of_nat (4096 * n)" using Suc.prems(6) by simp
    have un: "unat (of_nat (4096 * n) :: addr) = 4096 * n" using Suc.prems(5) by (intro unat_of_nat32) simp
    have ul: "unat (l - a) = 4096 * n" unfolding dl by (rule un)
    then have la: "a \<noteq> l" "\<not> l - a < PGSIZE" using False by (auto simp: word_less_nat_alt)
    have m2: "missing ?s2 pd \<le> length xs1" by (rule pt_stepD(8)[OF st Suc.prems(2)])
    have free: "\<forall>vb. unat (a + PGSIZE) \<le> unat vb \<and> unat vb < unat (a + PGSIZE) + 4096 * n \<longrightarrow> vmap (mem ?s2) pd vb = None"
      using Suc.prems(7) v2 ua by auto
    have l': "l = a + PGSIZE + of_nat (4096 * (n - 1))" using Suc.prems(6) False by (cases n) simp_all
    have pt2: "pt_ok ?s2 xs1 pd" by (rule pt_stepD(1)[OF st])
    obtain s3 xs3 where r: "mappages_loop pd (a + PGSIZE) l (pa + PGSIZE) perm ?s2 = Ok 0 s3" "pt_step pd ?s2 xs1 s3 xs3"
      "\<forall>vb. vmap (mem s3) pd vb = (if unat (a + PGSIZE) \<le> unat vb \<and> unat vb < unat (a + PGSIZE) + 4096 * n
           then Some ((pa + PGSIZE + of_nat (4096 * ((unat vb - unat (a + PGSIZE)) div 4096))) OR perm OR PTE_P) else vmap (mem ?s2) pd vb)"
      using Suc.IH[OF pt2 m2 _ _ _ l' free, of "pa + PGSIZE"] False Suc.prems(4,5) ua by auto
    have "mappages_loop pd a l pa perm s = Ok 0 s3" using w(1) p0 np la r(1) by (simp add: mappages_loop.simps[of pd a])
    moreover have "vmap (mem s3) pd vb = (if unat a \<le> unat vb \<and> unat vb < unat a + 4096 * Suc n
           then Some ((pa + of_nat (4096 * ((unat vb - unat a) div 4096))) OR perm OR PTE_P) else vmap (mem s) pd vb)" for vb
    proof (cases "unat a + 4096 \<le> unat vb")
      case True
      then have "(unat vb - unat a) div 4096 = Suc ((unat vb - (unat a + 4096)) div 4096)" by (simp add: le_div_geq)
      then show ?thesis using r(3) v2[of vb] True by (simp add: ua algebra_simps)
    next
      case False
      then show ?thesis using r(3) v2[of vb] by (auto simp: ua)
    qed
    ultimately show ?thesis using pt_step_trans[OF st r(2)] by blast
  qed
qed simp

lemma PGROUNDDOWN_nat: "unat (PGROUNDDOWN a) = unat a div 4096 * 4096"
proof -
  have m: "unat (take_bit 12 a) = unat a mod 4096" by (simp add: take_bit_eq_mod unat_mod)
  have "PGROUNDDOWN a = a - take_bit 12 a" using page_part[of a] by (simp add: algebra_simps)
  moreover have "unat (a - take_bit 12 a) = unat a - unat a mod 4096" using m by (simp add: unat_sub_if')
  ultimately show ?thesis by (simp add: minus_mod_eq_div_mult)
qed

lemma mappages_ok:
  assumes pt: "pt_ok s xs pd" "missing s pd \<le> length xs" and n: "0 < n" and va: "unat va mod 4096 = 0" "unat va + 4096 * n \<le> 2 ^ 32"
    and z: "z = of_nat (4096 * n)" and free: "\<forall>vb. unat va \<le> unat vb \<and> unat vb < unat va + 4096 * n \<longrightarrow> vmap (mem s) pd vb = None"
  shows "\<exists>s' xs'. mappages pd va z pa perm s = Ok 0 s' \<and> pt_step pd s xs s' xs'
     \<and> (\<forall>vb. vmap (mem s') pd vb = (if unat va \<le> unat vb \<and> unat vb < unat va + 4096 * n
           then Some ((pa + of_nat (4096 * ((unat vb - unat va) div 4096))) OR perm OR PTE_P) else vmap (mem s) pd vb))"
proof -
  have a: "PGROUNDDOWN va = va" using va(1) PGROUNDDOWN_nat[of va] by (simp add: word_unat_eq_iff div_mod_decomp) (metis add.right_neutral div_mult_mod_eq)
  obtain q where q: "unat va = 4096 * q" using va(1) by (metis mod_0_imp_dvd dvdE)
  have e: "va + z - 1 = va + of_nat (4096 * n - 1)" using n by (simp add: z of_nat_diff)
  have "unat (va + of_nat (4096 * n - 1)) = unat va + (4096 * n - 1)"
    using va(2) n unat_of_nat32[of "4096 * n - 1"] by (simp add: unat_word_ariths)
  then have "unat (PGROUNDDOWN (va + z - 1)) = (4096 * q + (4096 * n - 1)) div 4096 * 4096" by (simp add: PGROUNDDOWN_nat e q)
  also have "(4096 * q + (4096 * n - 1)) div 4096 = q + (n - 1)"
    using n by (cases n) simp_all
  finally have u: "unat (PGROUNDDOWN (va + z - 1)) = unat va + 4096 * (n - 1)" by (simp add: q algebra_simps)
  have "unat (va + of_nat (4096 * (n - 1))) = unat va + 4096 * (n - 1)"
    using va(2) n unat_of_nat32[of "4096 * (n - 1)"] by (cases n) (simp_all add: unat_word_ariths)
  then have l: "PGROUNDDOWN (va + z - 1) = va + of_nat (4096 * (n - 1))" using u word_unat_eq_iff by metis
  show ?thesis unfolding mappages_def a using mappages_loop_ok[OF pt n va l free] .
qed

lemma map_page:
  assumes pt: "pt_ok s xs pd" "missing s pd \<le> length xs" and va: "unat va mod 4096 = 0"
    and free: "\<forall>vb. unat vb div 4096 = unat va div 4096 \<longrightarrow> vmap (mem s) pd vb = None"
  shows "\<exists>s' xs'. mappages pd va PGSIZE pa perm s = Ok 0 s' \<and> pt_step pd s xs s' xs'
     \<and> (\<forall>vb. vmap (mem s') pd vb = (if unat vb div 4096 = unat va div 4096 then Some (pa OR perm OR PTE_P) else vmap (mem s) pd vb))"
proof -
  obtain q where q: "unat va = 4096 * q" using va by (metis mod_0_imp_dvd dvdE)
  have pg: "unat vb div 4096 = unat va div 4096 \<longleftrightarrow> unat va \<le> unat vb \<and> unat vb < unat va + 4096 * 1" for vb
    unfolding q by (simp add: div_nat_eqI) linarith
  have lim: "unat va + 4096 * 1 \<le> 2 ^ 32" using unat_lt32[of va] unfolding q by simp
  obtain s' xs' where r: "mappages pd va PGSIZE pa perm s = Ok 0 s'" "pt_step pd s xs s' xs'"
      "\<And>vb. vmap (mem s') pd vb = (if unat va \<le> unat vb \<and> unat vb < unat va + 4096 * 1
           then Some ((pa + of_nat (4096 * ((unat vb - unat va) div 4096))) OR perm OR PTE_P) else vmap (mem s) pd vb)"
    using mappages_ok[OF pt zero_less_one va lim _ free[unfolded pg], of PGSIZE pa perm] by auto
  have "vmap (mem s') pd vb = (if unat vb div 4096 = unat va div 4096 then Some (pa OR perm OR PTE_P) else vmap (mem s) pd vb)" for vb
    unfolding pg using r(3)[of vb] by auto
  then show ?thesis using r(1,2) by blast
qed

section \<open>The kernel part of an address space\<close>

type_synonym kseg = "addr \<times> addr \<times> addr \<times> 32 word"

fun seg_ok :: "kseg \<Rightarrow> bool" where
  "seg_ok (virt, lo, hi, perm) \<longleftrightarrow> unat virt mod 4096 = 0 \<and> unat (hi - lo) mod 4096 = 0 \<and> 0 < unat (hi - lo) \<and> unat virt + unat (hi - lo) \<le> 2 ^ 32"

fun covers :: "kseg \<Rightarrow> addr \<Rightarrow> bool" where
  "covers (virt, lo, hi, perm) va \<longleftrightarrow> unat virt \<le> unat va \<and> unat va < unat virt + unat (hi - lo)"

fun seg_entry :: "kseg \<Rightarrow> addr \<Rightarrow> 32 word" where
  "seg_entry (virt, lo, hi, perm) va = (lo + of_nat (4096 * ((unat va - unat virt) div 4096))) OR perm OR PTE_P"

definition seg_map :: "kseg list \<Rightarrow> addr \<Rightarrow> 32 word option" where
  "seg_map ks va = map_option (\<lambda>k. seg_entry k va) (find (\<lambda>k. covers k va) ks)"

lemma setupkvm_loop_ok:
  assumes "pt_ok s xs pd" "missing s pd \<le> length xs" "\<forall>k \<in> set ks. seg_ok k" "\<forall>va. \<forall>k \<in> set ks. covers k va \<longrightarrow> vmap (mem s) pd va = None"
    "sorted_wrt (\<lambda>k l. \<forall>va. \<not> (covers k va \<and> covers l va)) ks"
  shows "\<exists>s' xs'. setupkvm_loop pd ks s = Ok pd s' \<and> pt_step pd s xs s' xs'
     \<and> (\<forall>va. vmap (mem s') pd va = (case seg_map ks va of None \<Rightarrow> vmap (mem s) pd va | Some e \<Rightarrow> Some e))"
  using assms
proof (induction ks arbitrary: s xs)
  case Nil
  then show ?case using pt_step_refl by (auto simp: seg_map_def)
next
  case (Cons k ks)
  obtain virt lo hi perm where k: "k = (virt, lo, hi, perm)" by (cases k) auto
  define n where "n = unat (hi - lo) div 4096"
  have ok: "unat virt mod 4096 = 0" "unat (hi - lo) = 4096 * n" "0 < n" "unat virt + 4096 * n \<le> 2 ^ 32"
    using Cons.prems(3) by (auto simp: k n_def)
  have "hi - lo = of_nat (unat (hi - lo))" by simp
  then have z: "hi - lo = of_nat (4096 * n)" by (simp only: ok(2))
  have fr: "\<forall>vb. unat virt \<le> unat vb \<and> unat vb < unat virt + 4096 * n \<longrightarrow> vmap (mem s) pd vb = None"
    using Cons.prems(4) ok(2) by (auto simp: k)
  obtain s1 xs1 where m: "mappages pd virt (hi - lo) lo perm s = Ok 0 s1" "pt_step pd s xs s1 xs1"
     "\<And>va. vmap (mem s1) pd va = (if covers k va then Some (seg_entry k va) else vmap (mem s) pd va)"
    using mappages_ok[OF Cons.prems(1,2) ok(3,1,4) z fr, of lo perm] ok(2) by (auto simp: k)
  have fr1: "\<forall>va. \<forall>l \<in> set ks. covers l va \<longrightarrow> vmap (mem s1) pd va = None" using m(3) Cons.prems(4,5) by fastforce
  obtain s2 xs2 where r: "setupkvm_loop pd ks s1 = Ok pd s2" "pt_step pd s1 xs1 s2 xs2"
     "\<And>va. vmap (mem s2) pd va = (case seg_map ks va of None \<Rightarrow> vmap (mem s1) pd va | Some e \<Rightarrow> Some e)"
    using Cons.IH[OF pt_stepD(1)[OF m(2)] pt_stepD(8)[OF m(2) Cons.prems(2)] _ fr1] Cons.prems(3,5) by auto
  have "vmap (mem s2) pd va = (case seg_map (k # ks) va of None \<Rightarrow> vmap (mem s) pd va | Some e \<Rightarrow> Some e)" for va
  proof (cases "covers k va")
    case True
    then have "find (\<lambda>k. covers k va) ks = None" using Cons.prems(5) by (auto simp: find_None_iff)
    then show ?thesis using True m(3)[of va] r(3)[of va] by (simp add: seg_map_def)
  next
    case False
    then show ?thesis using m(3)[of va] r(3)[of va] by (simp add: seg_map_def split: option.splits)
  qed
  moreover have "setupkvm_loop pd (k # ks) s = Ok pd s2" using m(1) r(1) by (simp add: k s_lt_def)
  ultimately show ?case using pt_step_trans[OF m(2) r(2)] by blast
qed

text \<open>What the linker script guarantees of the symbol \<open>data\<close>.\<close>

definition data_ok :: "kernel \<Rightarrow> bool" where
  "data_ok s \<longleftrightarrow> unat (kdata s) mod 4096 = 0 \<and> 0x80100000 < unat (kdata s) \<and> unat (kdata s) < 0x8E000000"

lemma page_of:
  assumes "unat virt mod 4096 = 0" "unat virt \<le> unat va"
  shows "virt + of_nat (4096 * ((unat va - unat virt) div 4096)) = PGROUNDDOWN va"
proof -
  obtain q where q: "unat virt = 4096 * q" using assms(1) by (metis mod_0_imp_dvd dvdE)
  have "4096 * ((unat va - unat virt) div 4096) \<le> unat va - unat virt" by simp
  then have "unat (virt + of_nat (4096 * ((unat va - unat virt) div 4096))) = unat virt + 4096 * ((unat va - unat virt) div 4096)"
    using assms(2) unat_lt32[of va] unat_of_nat32[of "4096 * ((unat va - unat virt) div 4096)"] by (simp add: unat_word_ariths)
  also obtain r where r: "unat va = 4096 * q + r" using assms(2) q le_Suc_ex by metis
  have "unat virt + 4096 * ((unat va - unat virt) div 4096) = unat va div 4096 * 4096" unfolding q r by simp
  finally show ?thesis by (simp add: word_unat_eq_iff PGROUNDDOWN_nat)
qed

lemma kmap_ok:
  assumes "data_ok s"
  shows "\<forall>k \<in> set (kmap s). seg_ok k" "sorted_wrt (\<lambda>k l. \<forall>va. \<not> (covers k va \<and> covers l va)) (kmap s)"
    "seg_map (kmap s) va = (if unat va < 0x80000000 then None
       else if unat va < 0x80100000 then Some (V2P (PGROUNDDOWN va) OR PTE_W OR PTE_P)
       else if unat va < unat (kdata s) then Some (V2P (PGROUNDDOWN va) OR 0 OR PTE_P)
       else if unat va < 0x8E000000 then Some (V2P (PGROUNDDOWN va) OR PTE_W OR PTE_P)
       else if unat va < 0xFE000000 then None
       else Some (PGROUNDDOWN va OR PTE_W OR PTE_P))"
proof -
  have d: "unat (kdata s) mod 4096 = 0" "0x80100000 < unat (kdata s)" "unat (kdata s) < 0x8E000000" using assms by (simp_all add: data_ok_def)
  have l: "unat (kdata s - KERNLINK) = unat (kdata s) - 0x80100000" "unat (0x8E000000 - kdata s) = 0x8E000000 - unat (kdata s)"
    using d by (simp_all add: unat_sub_if')
  have e: "V2P (kdata s) - V2P KERNLINK = kdata s - KERNLINK" "PHYSTOP - V2P (kdata s) = 0x8E000000 - kdata s" by (simp_all add: V2P_def algebra_simps)
  obtain q where q: "unat (kdata s) = 4096 * q" using d(1) by (metis mod_0_imp_dvd dvdE)
  have m: "(unat (kdata s) - 0x80100000) mod 4096 = 0" "(0x8E000000 - unat (kdata s)) mod 4096 = 0"
    using d unfolding q by (simp_all add: mod_eq_0_iff_dvd dvd_diff_nat)
  have k: "kmap s = [(KERNBASE, V2P KERNBASE, EXTMEM, PTE_W), (KERNLINK, V2P KERNLINK, V2P (kdata s), 0), (kdata s, V2P (kdata s), PHYSTOP, PTE_W), (DEVSPACE, DEVSPACE, 0, PTE_W)]"
    by (simp add: kmap_def V2P_def)
  have z: "V2P KERNBASE = 0" by (simp add: V2P_def)
  show "\<forall>k \<in> set (kmap s). seg_ok k" using d m by (simp add: k e l z)
  show "sorted_wrt (\<lambda>k l. \<forall>va. \<not> (covers k va \<and> covers l va)) (kmap s)" using d by (auto simp: k e l z)
  have ent: "V2P v + of_nat (4096 * ((unat va - unat v) div 4096)) = V2P (PGROUNDDOWN va)" if "unat v mod 4096 = 0" "unat v \<le> unat va" for v
    using page_of[OF that] by (simp add: V2P_def algebra_simps)
  have e1: "0x80000000 \<le> unat va \<Longrightarrow> seg_entry (KERNBASE, V2P KERNBASE, EXTMEM, PTE_W) va = V2P (PGROUNDDOWN va) OR PTE_W OR PTE_P"
    using ent[of KERNBASE] by simp
  have e2: "0x80100000 \<le> unat va \<Longrightarrow> seg_entry (KERNLINK, V2P KERNLINK, V2P (kdata s), 0) va = V2P (PGROUNDDOWN va) OR 0 OR PTE_P"
    using ent[of KERNLINK] by simp
  have e3: "unat (kdata s) \<le> unat va \<Longrightarrow> seg_entry (kdata s, V2P (kdata s), PHYSTOP, PTE_W) va = V2P (PGROUNDDOWN va) OR PTE_W OR PTE_P"
    using ent[of "kdata s"] d(1) by simp
  have e4: "0xFE000000 \<le> unat va \<Longrightarrow> seg_entry (DEVSPACE, DEVSPACE, 0, PTE_W) va = PGROUNDDOWN va OR PTE_W OR PTE_P"
    using page_of[of DEVSPACE va] by simp
  have c: "covers (KERNBASE, V2P KERNBASE, EXTMEM, PTE_W) va \<longleftrightarrow> 0x80000000 \<le> unat va \<and> unat va < 0x80100000"
    "covers (KERNLINK, V2P KERNLINK, V2P (kdata s), 0) va \<longleftrightarrow> 0x80100000 \<le> unat va \<and> unat va < unat (kdata s)"
    "covers (kdata s, V2P (kdata s), PHYSTOP, PTE_W) va \<longleftrightarrow> unat (kdata s) \<le> unat va \<and> unat va < 0x8E000000"
    "covers (DEVSPACE, DEVSPACE, 0, PTE_W) va \<longleftrightarrow> 0xFE000000 \<le> unat va"
    using d unat_lt32[of va] by (simp_all add: e l z)
  show "seg_map (kmap s) va = (if unat va < 0x80000000 then None
       else if unat va < 0x80100000 then Some (V2P (PGROUNDDOWN va) OR PTE_W OR PTE_P)
       else if unat va < unat (kdata s) then Some (V2P (PGROUNDDOWN va) OR 0 OR PTE_P)
       else if unat va < 0x8E000000 then Some (V2P (PGROUNDDOWN va) OR PTE_W OR PTE_P)
       else if unat va < 0xFE000000 then None
       else Some (PGROUNDDOWN va OR PTE_W OR PTE_P))"
    unfolding seg_map_def k find.simps c using d e1 e2 e3 e4 by (simp del: seg_entry.simps)
qed

lemma foot_aligned: "pt_ok s xs pd \<Longrightarrow> q \<in> foot s xs pd \<Longrightarrow> q mod PGSIZE = 0"
proof -
  assume "pt_ok s xs pd" "q \<in> foot s xs pd"
  then have "page_ok s q" using pt_okD(2,5,11)[of s xs pd] by (auto simp: foot_def)
  then show ?thesis by (rule page_okD(1))
qed

lemma off_page:
  assumes "pt_ok s xs pd" "p mod PGSIZE = 0" "p \<notin> foot s xs pd" "in_page p x"
  shows "\<forall>q \<in> foot s xs pd. \<not> in_page q x"
  using assms page_disjoint[OF foot_aligned[OF assms(1)] assms(2) _ assms(4)] by auto

text \<open>Nothing changes for a directory when memory outside its pages and the free pages changes.\<close>

lemma pt_ok_mem:
  assumes pt: "pt_ok s xs pd" and m: "\<forall>q \<in> foot s xs pd. \<forall>x. in_page q x \<longrightarrow> m' x = mem s x"
  shows "pt_ok (s\<lparr>mem := m'\<rparr>) xs pd" "foot (s\<lparr>mem := m'\<rparr>) xs pd = foot s xs pd" "tables m' pd = tables (mem s) pd" "vmap m' pd = vmap (mem s) pd"
    "missing (s\<lparr>mem := m'\<rparr>) pd = missing s pd"
proof -
  note D = pt_okD[OF pt]
  have E: "ent m' q j = ent (mem s) q j" if "q \<in> foot s xs pd" "j < 1024" for q j by (rule ent_cong[OF that(2)]) (use m that(1) in blast)
  have pd: "pd \<in> foot s xs pd" by (simp add: foot_def)
  show tb: "tables m' pd = tables (mem s) pd" using E[OF pd] by (auto simp: tables_def)
  have tl: "tbl m' pd j = tbl (mem s) pd j" if "j < 1024" for j using E[OF pd that] by (simp add: tbl_def)
  have lt: "j < 1024" if "j \<in> tables (mem s) pd" for j using that by (simp add: tables_def)
  show ft: "foot (s\<lparr>mem := m'\<rparr>) xs pd = foot s xs pd" unfolding foot_def using tl lt by (auto simp: tb)
  show "missing (s\<lparr>mem := m'\<rparr>) pd = missing s pd" by (simp add: missing_def tb)
  have km: "kmem_inv (s\<lparr>mem := m'\<rparr>) xs" by (rule kmem_inv_mem[OF D(1)]) (use m in \<open>auto simp: foot_def\<close>)
  have po: "page_ok (s\<lparr>mem := m'\<rparr>) = page_ok s" by (rule page_ok_cong) simp
  have "inj_on (tbl m' pd) (tables (mem s) pd)" using D(4) tl lt by (simp add: inj_on_def)
  then show "pt_ok (s\<lparr>mem := m'\<rparr>) xs pd" using km D(2,3,5-8) tl E[OF pd] lt by (simp add: pt_ok_def tb po)
  have "vmap m' pd va = vmap (mem s) pd va" for va
  proof (cases "pdx va \<in> tables (mem s) pd")
    case True
    then have "ent m' (tbl (mem s) pd (pdx va)) (ptx va) = ent (mem s) (tbl (mem s) pd (pdx va)) (ptx va)" by (intro E) (auto simp: foot_def)
    then show ?thesis using True by (simp add: vmap_def tb tl)
  qed (simp add: vmap_def tb)
  then show "vmap m' pd = vmap (mem s) pd" ..
qed

lemma setupkvm_fresh:
  assumes km: "kmem_inv s (pd # ys)" and d: "data_ok s" and len: "1024 \<le> length ys"
  shows "\<exists>s' xs'. setupkvm s = Ok pd s' \<and> pt_ok s' xs' pd \<and> foot s' xs' pd \<subseteq> insert pd (set ys) \<and> set xs' \<subseteq> set ys
     \<and> (\<forall>x. (\<forall>q \<in> insert pd (set ys). \<not> in_page q x) \<longrightarrow> mem s' x = mem s x) \<and> length xs' + 1024 = length ys + missing s' pd
     \<and> (\<forall>va. vmap (mem s') pd va = seg_map (kmap s) va) \<and> s' = s\<lparr>mem := mem s', freelist := freelist s', mach := mach s'\<rparr>"
proof -
  have k: "mach_ok (mach s)" "lk_free KmemLk (mach s)" "page_ok s pd" "pd \<notin> set ys" "\<forall>x \<in> set ys. page_ok s x" using km by (auto simp: kmem_inv_def list_all_iff)
  obtain s1 where s1: "kalloc s = Ok pd s1" "kmem_inv s1 ys" "mem s1 = mem s" "kend s1 = kend s" "s1 = s\<lparr>freelist := freelist s1, mach := mach s1\<rparr>"
    using kalloc_inv[OF km] kalloc_ok[OF k(1,2)] by auto
  define s2 where "s2 = s1\<lparr>mem := memset pd 0 PGSIZE (mem s)\<rparr>"
  have al: "pd mod PGSIZE = 0" by (rule page_okD(1)[OF k(3)])
  have po: "page_ok s2 = page_ok s" by (rule page_ok_cong) (simp add: s2_def s1(4))
  have km2: "kmem_inv s2 ys" unfolding s2_def
  proof (rule kmem_inv_mem[OF s1(2)])
    fix x y assume x: "x \<in> set ys" and y: "in_page x y"
    have "x mod PGSIZE = 0" "x \<noteq> pd" using k(4,5) x page_okD(1) by auto
    then have "\<not> in_page pd y" using page_disjoint[OF _ al y] by auto
    then show "memset pd 0 PGSIZE (mem s) y = mem s1 y" by (simp add: s1(3) memset_spec in_page_def)
  qed
  have "ent (mem s2) pd j = 0" if "j < 1024" for j using ent_memset[OF al al that] by (simp add: s2_def)
  then have tb: "tables (mem s2) pd = {}" by (auto simp: tables_def present_def)
  have pt2: "pt_ok s2 ys pd" using km2 k(3,4) by (simp add: pt_ok_def tb po)
  have mi: "missing s2 pd = 1024" by (simp add: missing_def tb)
  have vm: "vmap (mem s2) pd va = None" for va by (simp add: vmap_def tb)
  have kd: "kdata s2 = kdata s" unfolding s2_def by (subst s1(5)) simp
  then have km: "kmap s2 = kmap s" by (simp add: kmap_def)
  have d2: "data_ok s2" using d by (simp add: data_ok_def kd)
  obtain s' xs' where r: "setupkvm_loop pd (kmap s) s2 = Ok pd s'" "pt_step pd s2 ys s' xs'"
      "\<And>va. vmap (mem s') pd va = (case seg_map (kmap s) va of None \<Rightarrow> vmap (mem s2) pd va | Some e \<Rightarrow> Some e)"
    using setupkvm_loop_ok[OF pt2 _ kmap_ok(1)[OF d2] _ kmap_ok(2)[OF d2]] len by (auto simp: mi vm km)
  have ft: "foot s2 ys pd = insert pd (set ys)" by (simp add: foot_def tb)
  have "mem s' x = mem s x" if "\<forall>q \<in> insert pd (set ys). \<not> in_page q x" for x
    using pt_stepD(4)[OF r(2), of x] that by (simp add: ft) (simp add: s2_def memset_spec in_page_def)
  moreover have "vmap (mem s') pd va = seg_map (kmap s) va" for va using r(3)[of va] by (simp add: vm split: option.splits)
  moreover have "s' = s\<lparr>mem := mem s', freelist := freelist s', mach := mach s'\<rparr>" by (subst pt_stepD(6)[OF r(2)], unfold s2_def, subst s1(5)) simp
  moreover have "setupkvm s = Ok pd s'" using s1(1,3) r(1) km page_okD(3)[OF k(3)] by (simp add: setupkvm_def Let_def P2V_def) (simp add: s2_def)
  ultimately show ?thesis using pt_stepD(1,2,3,5)[OF r(2)] by (intro exI[of _ s'] exI[of _ xs']) (simp add: ft mi)
qed

section \<open>Copying an address space\<close>

text \<open>The pages \<open>j..<n\<close> of the directory \<open>p\<close> are mapped, by tables and to frames outside \<open>F\<close>.\<close>

definition user_ok :: "memory \<Rightarrow> addr \<Rightarrow> addr set \<Rightarrow> nat \<Rightarrow> nat \<Rightarrow> bool" where
  "user_ok m p F j n \<longleftrightarrow> p mod PGSIZE = 0 \<and> p \<notin> F \<and> (\<forall>va. 4096 * j \<le> unat va \<and> unat va < 4096 * n \<longrightarrow>
     tbl m p (pdx va) \<noteq> 0 \<and> tbl m p (pdx va) mod PGSIZE = 0 \<and> tbl m p (pdx va) \<notin> F \<and>
     (\<exists>e. vmap m p va = Some e \<and> P2V (PTE_ADDR e) mod PGSIZE = 0 \<and> P2V (PTE_ADDR e) \<notin> F \<and> unat (P2V (PTE_ADDR e)) + 4096 < 2 ^ 32))"

lemma user_okD:
  assumes "user_ok m p F j n" "4096 * j \<le> unat va" "unat va < 4096 * n"
  shows "\<exists>e. vmap m p va = Some e \<and> P2V (PTE_ADDR e) mod PGSIZE = 0 \<and> P2V (PTE_ADDR e) \<notin> F \<and> unat (P2V (PTE_ADDR e)) + 4096 < 2 ^ 32
     \<and> tbl m p (pdx va) mod PGSIZE = 0 \<and> tbl m p (pdx va) \<notin> F \<and> tbl m p (pdx va) \<noteq> 0"
  using assms by (auto simp: user_ok_def)

lemma user_ok_cong:
  assumes u: "user_ok m p F j n" and al: "\<forall>q \<in> F. q mod PGSIZE = 0" and m: "\<forall>x. (\<forall>q \<in> F. \<not> in_page q x) \<longrightarrow> m' x = m x"
  shows "4096 * j \<le> unat va \<Longrightarrow> unat va < 4096 * n \<Longrightarrow> vmap m' p va = vmap m p va" "user_ok m' p F j n"
proof -
  have E: "ent m' q i = ent m q i" if "q mod PGSIZE = 0" "q \<notin> F" "i < 1024" for q i
    by (rule ent_cong[OF that(3)]) (use m al page_disjoint[OF that(1)] that(2) in metis)
  have p: "p mod PGSIZE = 0" "p \<notin> F" using u by (simp_all add: user_ok_def)
  have tb: "tables m' p = tables m p" "tbl m' p i = tbl m p i" if "i < 1024" for i using E[OF p] that by (auto simp: tables_def tbl_def)
  have v: "vmap m' p va = vmap m p va" if "4096 * j \<le> unat va" "unat va < 4096 * n" for va
    using E[of "tbl m p (pdx va)" "ptx va"] u that tb(1)[of 0] tb(2)[of "pdx va"] by (simp add: vmap_def user_ok_def)
  then show "4096 * j \<le> unat va \<Longrightarrow> unat va < 4096 * n \<Longrightarrow> vmap m' p va = vmap m p va" .
  show "user_ok m' p F j n" using u v tb(2) by (simp add: user_ok_def)
qed

lemma user_ok_mono: "user_ok m p F j n \<Longrightarrow> F' \<subseteq> F \<Longrightarrow> j \<le> j' \<Longrightarrow> user_ok m p F' j' n"
  unfolding user_ok_def by (meson le_trans mult_le_mono2 subsetD)

text \<open>Page \<open>i\<close> of \<open>d\<close> is a copy, in the frame \<open>g\<close>, of page \<open>i\<close> of \<open>p\<close> in the memory \<open>m\<close>.\<close>

definition copy_of :: "memory \<Rightarrow> addr \<Rightarrow> memory \<Rightarrow> addr \<Rightarrow> nat \<Rightarrow> addr \<Rightarrow> bool" where
  "copy_of m p m' d i g \<longleftrightarrow> (\<forall>va. unat va div 4096 = i \<longrightarrow> (\<exists>e. vmap m p va = Some e
     \<and> vmap m' d va = Some (V2P g OR PTE_FLAGS e OR PTE_P) \<and> (\<forall>k < 4096. m' (g + of_nat k) = m (P2V (PTE_ADDR e) + of_nat k))))"

lemma take_page:
  assumes pt: "pt_ok s (g # ys) pd"
  shows "\<exists>s'. kalloc s = Ok g s' \<and> vm_step 1 pd s (g # ys) s' ys \<and> mem s' = mem s \<and> page_ok s g \<and> g \<notin> foot s' ys pd"
proof -
  note D = pt_okD[OF pt]
  obtain s' where s': "kalloc s = Ok g s'" "kmem_inv s' ys" "mem s' = mem s" "kend s' = kend s" "s' = s\<lparr>freelist := freelist s', mach := mach s'\<rparr>"
    using kalloc_inv[OF D(1)] kalloc_ok[OF D(9,10)] by auto
  have po: "page_ok s' = page_ok s" by (rule page_ok_cong[OF s'(4)])
  have pt': "pt_ok s' ys pd" using pt s'(2) by (simp add: pt_ok_def s'(3) po)
  have "s' = s\<lparr>mem := mem s', freelist := freelist s', mach := mach s'\<rparr>" unfolding s'(3) by (subst s'(5)) simp
  then have "vm_step 1 pd s (g # ys) s' ys" using pt' by (auto simp: vm_step_def foot_def missing_def s'(3))
  moreover have "g \<notin> foot s' ys pd" using D(3,7,12) by (auto simp: foot_def s'(3))
  ultimately show ?thesis using s'(1,3) D(11)[of g] by auto
qed

text \<open>A new page: the allocator gives the frame \<open>g\<close>, \<open>fill\<close> sets its contents, and it is mapped at \<open>a\<close>.\<close>

lemma new_page:
  assumes pt: "pt_ok s xs d" and room: "missing s d + 1 \<le> length xs" and a: "unat a mod 4096 = 0"
    and free: "\<forall>va. unat va div 4096 = unat a div 4096 \<longrightarrow> vmap (mem s) d va = None"
    and fill: "\<forall>g x. page_ok s g \<and> \<not> in_page g x \<longrightarrow> fill g (mem s) x = mem s x"
  shows "\<exists>g s2 s3 ys. kalloc s = Ok g s2 \<and> g \<noteq> 0 \<and> mem s2 = mem s \<and> mappages d a PGSIZE (V2P g) perm (s2\<lparr>mem := fill g (mem s2)\<rparr>) = Ok 0 s3
     \<and> vm_step 1 d s xs s3 ys \<and> g \<in> set xs \<and> g \<notin> foot s3 ys d \<and> page_ok s g \<and> (\<forall>x. in_page g x \<longrightarrow> mem s3 x = fill g (mem s) x)
     \<and> (\<forall>va. vmap (mem s3) d va = (if unat va div 4096 = unat a div 4096 then Some (V2P g OR perm OR PTE_P) else vmap (mem s) d va))"
proof -
  obtain g ys0 where xs: "xs = g # ys0" using room by (cases xs) auto
  obtain s2 where s2: "kalloc s = Ok g s2" "vm_step 1 d s xs s2 ys0" "mem s2 = mem s" "page_ok s g" "g \<notin> foot s2 ys0 d"
    using take_page pt unfolding xs by blast
  have gp: "g mod PGSIZE = 0" "g \<noteq> 0" "g \<in> foot s xs d" using page_okD(1,3)[OF s2(4)] by (simp_all add: foot_def xs)
  define m2 where "m2 = fill g (mem s)"
  have mm: "m2 x = mem s x" if "\<not> in_page g x" for x using fill s2(4) that by (simp add: m2_def)
  note pt2 = vm_stepD(1)[OF s2(2)]
  have "m2 x = mem s2 x" if "q \<in> foot s2 ys0 d" "in_page q x" for q x
  proof -
    have "q \<noteq> g" using that(1) s2(5) by auto
    then have "\<not> in_page g x" using page_disjoint[OF foot_aligned[OF pt2 that(1)] gp(1) that(2)] by auto
    then show ?thesis by (simp add: mm s2(3))
  qed
  then have keep: "\<forall>q \<in> foot s2 ys0 d. \<forall>x. in_page q x \<longrightarrow> m2 x = mem s2 x" by blast
  note P = pt_ok_mem[OF pt2 keep]
  let ?s2 = "s2\<lparr>mem := m2\<rparr>"
  have room2: "missing ?s2 d \<le> length ys0" using vm_stepD(5)[OF s2(2)] room P(5) by simp
  have fr: "\<forall>vb. unat vb div 4096 = unat a div 4096 \<longrightarrow> vmap (mem ?s2) d vb = None" using free by (simp add: P(4) s2(3))
  obtain s3 ys where s3: "mappages d a PGSIZE (V2P g) perm ?s2 = Ok 0 s3" "pt_step d ?s2 ys0 s3 ys"
     "\<forall>vb. vmap (mem s3) d vb = (if unat vb div 4096 = unat a div 4096 then Some (V2P g OR perm OR PTE_P) else vmap (mem s) d vb)"
    using map_page[OF P(1) room2 a fr, of "V2P g" perm] by (auto simp: P(4) s2(3))
  note st = pt_stepD[OF s3(2)] and st2 = vm_stepD[OF s2(2)]
  have mem3: "mem s3 x = m2 x" if "\<forall>q \<in> foot s2 ys0 d. \<not> in_page q x" for x using st(4)[of x] that by (simp add: P(2))
  have g3: "\<forall>x. in_page g x \<longrightarrow> mem s3 x = fill g (mem s) x" using mem3 off_page[OF pt2 gp(1) s2(5)] by (simp add: m2_def)
  have vs: "vm_step 1 d s xs s3 ys" unfolding vm_step_def
  proof (intro conjI allI impI)
    show "foot s3 ys d \<subseteq> foot s xs d" using st(2) st2(2) by (simp add: P(2))
    show "set ys \<subseteq> set xs" using st(3) st2(3) by blast
    show "length ys + 1 + missing s d = length xs + missing s3 d" using st(5) st2(5) by (simp add: P(5))
    show "s3 = s\<lparr>mem := mem s3, freelist := freelist s3, mach := mach s3\<rparr>" by (subst st(6), subst st2(6)) simp
    show "mem s3 x = mem s x" if x: "\<forall>q \<in> foot s xs d. \<not> in_page q x" for x
    proof -
      have "\<forall>q \<in> foot s2 ys0 d. \<not> in_page q x" "\<not> in_page g x" using x st2(2) gp(3) by blast+
      then show ?thesis using mem3[of x] by (simp add: mm)
    qed
  qed (rule st(1))
  have gn: "g \<notin> foot s3 ys d" using st(2) s2(5) by (auto simp: P(2))
  have "g \<in> set xs" by (simp add: xs)
  then show ?thesis using s2(1,3,4) gp(2) s3(1,3) vs gn g3 unfolding m2_def
    by (intro exI[of _ g] exI[of _ s2] exI[of _ s3] exI[of _ ys]) simp
qed

text \<open>One turn of the loop of \<open>copyuvm\<close>: page \<open>j\<close> is copied to a new frame and mapped.\<close>

lemma copy_page:
  assumes pt: "pt_ok s xs d" and room: "missing s d + 1 \<le> length xs" and j: "j < n" "n \<le> 0x80000"
    and u: "user_ok (mem s) p (foot s xs d) j n" and free: "\<forall>va. unat va div 4096 = j \<longrightarrow> vmap (mem s) d va = None"
    and ua: "unat a = 4096 * j"
  shows "\<exists>e g s2 s3 ys. walkpgdir p a False s = Ok (tbl (mem s) p (pdx a) + 4 * of_nat (ptx a)) s
     \<and> tbl (mem s) p (pdx a) + 4 * of_nat (ptx a) \<noteq> 0
     \<and> load32 (mem s) (tbl (mem s) p (pdx a) + 4 * of_nat (ptx a)) = e \<and> e AND PTE_P \<noteq> 0
     \<and> kalloc s = Ok g s2 \<and> g \<noteq> 0
     \<and> mappages d a PGSIZE (V2P g) (PTE_FLAGS e) (s2\<lparr>mem := memmove g (P2V (PTE_ADDR e)) PGSIZE (mem s2)\<rparr>) = Ok 0 s3
     \<and> vm_step 1 d s xs s3 ys \<and> g \<in> set xs \<and> g \<notin> foot s3 ys d \<and> page_ok s g \<and> copy_of (mem s) p (mem s3) d j g
     \<and> (\<forall>va. unat va div 4096 \<noteq> j \<longrightarrow> vmap (mem s3) d va = vmap (mem s) d va)"
proof -
  have rng: "4096 * j \<le> unat a" "unat a < 4096 * n" using j by (simp_all add: ua)
  let ?t = "tbl (mem s) p (pdx a)"
  obtain e where e: "vmap (mem s) p a = Some e" "unat (P2V (PTE_ADDR e)) + 4096 < 2 ^ 32" "?t mod PGSIZE = 0" "?t \<noteq> 0"
    using user_okD[OF u rng] by (elim exE conjE) (rule that, assumption+)
  have et: "pdx a \<in> tables (mem s) p" "present e" "e = ent (mem s) ?t (ptx a)" using e(1) by (auto simp: vmap_def Let_def split: if_splits)
  let ?f = "P2V (PTE_ADDR e)"
  have mm: "memmove g ?f PGSIZE (mem s) x = (if in_page g x then mem s (?f + (x - g)) else mem s x)" if "page_ok s g" for g x
  proof -
    have "unat g < 0x8E000000" using that by (auto simp: page_ok_def V2P_def word_less_nat_alt unat_sub_if' split: if_splits)
    then show ?thesis unfolding in_page_def using memmove_spec[of ?f PGSIZE g "mem s" x] e(2) by simp
  qed
  have fl: "\<forall>g x. page_ok s g \<and> \<not> in_page g x \<longrightarrow> memmove g ?f PGSIZE (mem s) x = mem s x" using mm by simp
  have aj: "unat a mod 4096 = 0" "unat a div 4096 = j" by (simp_all add: ua)
  obtain g s2 s3 ys where n: "kalloc s = Ok g s2" "g \<noteq> 0" "mem s2 = mem s" "mappages d a PGSIZE (V2P g) (PTE_FLAGS e) (s2\<lparr>mem := memmove g ?f PGSIZE (mem s2)\<rparr>) = Ok 0 s3"
     "vm_step 1 d s xs s3 ys" "g \<in> set xs" "g \<notin> foot s3 ys d" "page_ok s g" "\<forall>x. in_page g x \<longrightarrow> mem s3 x = memmove g ?f PGSIZE (mem s) x"
     "\<forall>va. vmap (mem s3) d va = (if unat va div 4096 = j then Some (V2P g OR PTE_FLAGS e OR PTE_P) else vmap (mem s) d va)"
    using new_page[where fill = "\<lambda>g. memmove g ?f PGSIZE" and perm = "PTE_FLAGS e", OF pt room aj(1) free[folded aj(2)] fl] unfolding aj(2) by (elim exE conjE) (rule that, assumption+)
  have cp: "copy_of (mem s) p (mem s3) d j g" unfolding copy_of_def
  proof (intro allI impI)
    fix va :: addr assume va: "unat va div 4096 = j"
    have same: "pdx va = pdx a \<and> ptx va = ptx a" using same_page[of va a] va aj(2) by simp
    have v: "vmap (mem s) p va = Some e" using e(1) same by (simp add: vmap_def)
    have "mem s3 (g + of_nat k) = mem s (?f + of_nat k)" if "k < 4096" for k
      using n(9) mm[OF n(8), of "g + of_nat k"] that unat_of_nat32[of k] by (simp add: in_page_def)
    then show "\<exists>e. vmap (mem s) p va = Some e \<and> vmap (mem s3) d va = Some (V2P g OR PTE_FLAGS e OR PTE_P)
        \<and> (\<forall>k < 4096. mem s3 (g + of_nat k) = mem s (P2V (PTE_ADDR e) + of_nat k))" using v n(10) va by simp
  qed
  have nz: "?t + 4 * of_nat (ptx a) \<noteq> 0"
  proof
    assume "?t + 4 * of_nat (ptx a) = 0"
    then have "in_page ?t 0" using ent_in_page[OF px_less(2), of 0 ?t a] by simp
    then have "?t = 0" using page_disjoint[of ?t 0 0] e(3) by (simp add: in_page_def)
    then show False using e(4) by simp
  qed
  show ?thesis
    using walk_present[OF et(1), of False] nz et(2,3) n cp
    by (intro exI[of _ e] exI[of _ g] exI[of _ s2] exI[of _ s3] exI[of _ ys]) (simp add: present_def ent_def)
qed

lemma copyuvm_loop_ok:
  assumes "pt_ok s xs d" "missing s d + k \<le> length xs" "j + k = n" "n \<le> 0x80000" "\<forall>i. i < n \<longleftrightarrow> 4096 * i < unat len"
    "user_ok (mem s) p (foot s xs d) j n" "\<forall>va. j \<le> unat va div 4096 \<and> unat va div 4096 < n \<longrightarrow> vmap (mem s) d va = None" "unat a = 4096 * j"
  shows "\<exists>s' xs' g. copyuvm_loop p d a len s = Ok d s' \<and> vm_step k d s xs s' xs' \<and> inj_on g {j..<n}
     \<and> (\<forall>i \<in> {j..<n}. g i \<in> set xs \<and> g i \<notin> foot s' xs' d \<and> copy_of (mem s) p (mem s') d i (g i))
     \<and> (\<forall>va. unat va div 4096 \<notin> {j..<n} \<longrightarrow> vmap (mem s') d va = vmap (mem s) d va)"
  using assms
proof (induction k arbitrary: j a s xs)
  case 0
  have "\<not> a < len" using spec[OF 0(5), of j] 0(3,8) by (simp add: word_less_nat_alt)
  then have "copyuvm_loop p d a len s = Ok d s" by (simp add: copyuvm_loop.simps[of p d a])
  then show ?case using 0(1,3) pt_step_refl[OF 0(1)] by auto
next
  case (Suc k)
  let ?F = "foot s xs d"
  have j: "j < n" and ua: "unat a = 4096 * j" using Suc.prems(3,8) by simp_all
  have al: "a < len" using spec[OF Suc.prems(5), of j] j ua by (simp add: word_less_nat_alt)
  have room: "missing s d + 1 \<le> length xs" using Suc.prems(2) by simp
  have free: "\<forall>va. unat va div 4096 = j \<longrightarrow> vmap (mem s) d va = None" using Suc.prems(7) j by simp
  obtain e g s2 s3 ys where c: "walkpgdir p a False s = Ok (tbl (mem s) p (pdx a) + 4 * of_nat (ptx a)) s"
     "tbl (mem s) p (pdx a) + 4 * of_nat (ptx a) \<noteq> 0" "load32 (mem s) (tbl (mem s) p (pdx a) + 4 * of_nat (ptx a)) = e" "e AND PTE_P \<noteq> 0"
     "kalloc s = Ok g s2" "g \<noteq> 0" "mappages d a PGSIZE (V2P g) (PTE_FLAGS e) (s2\<lparr>mem := memmove g (P2V (PTE_ADDR e)) PGSIZE (mem s2)\<rparr>) = Ok 0 s3"
     "vm_step 1 d s xs s3 ys" "g \<in> set xs" "g \<notin> foot s3 ys d" "page_ok s g" "copy_of (mem s) p (mem s3) d j g"
     "\<forall>va. unat va div 4096 \<noteq> j \<longrightarrow> vmap (mem s3) d va = vmap (mem s) d va"
    using copy_page[OF Suc.prems(1) room j Suc.prems(4,6) free ua] by (elim exE conjE) (rule that, assumption+)
  note st = vm_stepD[OF c(8)]
  have off: "\<forall>x. (\<forall>q \<in> ?F. \<not> in_page q x) \<longrightarrow> mem s3 x = mem s x" using st(4) by blast
  have alF: "\<forall>q \<in> ?F. q mod PGSIZE = 0" using foot_aligned[OF Suc.prems(1)] by blast
  note uc = user_ok_cong[OF Suc.prems(6) alF off]
  have u3: "user_ok (mem s3) p (foot s3 ys d) (Suc j) n" by (rule user_ok_mono[OF uc(2) st(2)]) simp
  have a': "unat (a + PGSIZE) = 4096 * Suc j" using ua j Suc.prems(4) by (simp add: unat_word_ariths)
  then have "\<not> a + PGSIZE \<le> a" using ua by (simp add: word_le_nat_alt)
  then have loop: "copyuvm_loop p d a len s = copyuvm_loop p d (a + PGSIZE) len s3"
    using al c(1-7) by (simp add: copyuvm_loop.simps[of p d a] Let_def s_lt_def)
  have r3: "missing s3 d + k \<le> length ys" using st(5) Suc.prems(2) by simp
  have f3: "\<forall>va. Suc j \<le> unat va div 4096 \<and> unat va div 4096 < n \<longrightarrow> vmap (mem s3) d va = None" using c(13) Suc.prems(7) by simp
  have jk: "Suc j + k = n" using Suc.prems(3) by simp
  obtain s' xs' h where r: "copyuvm_loop p d (a + PGSIZE) len s3 = Ok d s'" "vm_step k d s3 ys s' xs'" "inj_on h {Suc j..<n}"
     "\<forall>i \<in> {Suc j..<n}. h i \<in> set ys \<and> h i \<notin> foot s' xs' d \<and> copy_of (mem s3) p (mem s') d i (h i)"
     "\<forall>va. unat va div 4096 \<notin> {Suc j..<n} \<longrightarrow> vmap (mem s') d va = vmap (mem s3) d va"
    using Suc.IH[OF st(1) r3 jk Suc.prems(4,5) u3 f3 a'] by (elim exE conjE) (rule that, assumption+)
  note st' = vm_stepD[OF r(2)]
  have tail: "copy_of (mem s) p (mem s') d i (h i)" if i: "i \<in> {Suc j..<n}" for i unfolding copy_of_def
  proof (intro allI impI)
    fix va :: addr assume va: "unat va div 4096 = i"
    then have rg: "4096 * j \<le> unat va" "unat va < 4096 * n" using i by (auto simp: less_eq_div_iff_mult_less_eq div_less_iff_less_mult mult.commute)
    obtain f where f: "vmap (mem s3) p va = Some f" "vmap (mem s') d va = Some (V2P (h i) OR PTE_FLAGS f OR PTE_P)"
       "\<forall>k < 4096. mem s' (h i + of_nat k) = mem s3 (P2V (PTE_ADDR f) + of_nat k)" using r(4) i va unfolding copy_of_def by blast
    have fs: "vmap (mem s) p va = Some f" using f(1) uc(1)[OF rg] by simp
    obtain f' where f': "vmap (mem s) p va = Some f'" "P2V (PTE_ADDR f') mod PGSIZE = 0" "P2V (PTE_ADDR f') \<notin> ?F"
      using user_okD[OF Suc.prems(6) rg] by (elim exE conjE) (rule that, assumption+)
    have "mem s3 (P2V (PTE_ADDR f) + of_nat k) = mem s (P2V (PTE_ADDR f) + of_nat k)" if "k < 4096" for k
    proof -
      have "in_page (P2V (PTE_ADDR f)) (P2V (PTE_ADDR f) + of_nat k)" using that unat_of_nat32[of k] by (simp add: in_page_def)
      then show ?thesis using st(4)[OF off_page[OF Suc.prems(1)]] f' fs by simp
    qed
    then show "\<exists>e. vmap (mem s) p va = Some e \<and> vmap (mem s') d va = Some (V2P (h i) OR PTE_FLAGS e OR PTE_P)
        \<and> (\<forall>k < 4096. mem s' (h i + of_nat k) = mem s (P2V (PTE_ADDR e) + of_nat k))" using fs f(2,3) by simp
  qed
  have head: "copy_of (mem s) p (mem s') d j g" unfolding copy_of_def
  proof (intro allI impI)
    fix va :: addr assume va: "unat va div 4096 = j"
    obtain f where f: "vmap (mem s) p va = Some f" "vmap (mem s3) d va = Some (V2P g OR PTE_FLAGS f OR PTE_P)"
       "\<forall>k < 4096. mem s3 (g + of_nat k) = mem s (P2V (PTE_ADDR f) + of_nat k)" using c(12) va unfolding copy_of_def by blast
    have "mem s' (g + of_nat k) = mem s3 (g + of_nat k)" if "k < 4096" for k
    proof -
      have "in_page g (g + of_nat k)" using that unat_of_nat32[of k] by (simp add: in_page_def)
      then show ?thesis using st'(4)[OF off_page[OF st(1) page_okD(1)[OF c(11)] c(10)]] by simp
    qed
    moreover have "vmap (mem s') d va = vmap (mem s3) d va" using r(5) va by simp
    ultimately show "\<exists>e. vmap (mem s) p va = Some e \<and> vmap (mem s') d va = Some (V2P g OR PTE_FLAGS e OR PTE_P)
        \<and> (\<forall>k < 4096. mem s' (g + of_nat k) = mem s (P2V (PTE_ADDR e) + of_nat k))" using f by simp
  qed
  have gy: "g \<notin> set ys" "g \<notin> foot s' xs' d" using c(10) st'(2) by (auto simp: foot_def)
  define G where "G = h(j := g)"
  have rng: "{j..<n} = insert j {Suc j..<n}" using j by auto
  have "inj_on G {j..<n}" unfolding rng G_def using r(3,4) gy(1) by (auto simp: inj_on_def)
  moreover have "\<forall>i \<in> {j..<n}. G i \<in> set xs \<and> G i \<notin> foot s' xs' d \<and> copy_of (mem s) p (mem s') d i (G i)"
    unfolding rng G_def using head tail r(4) c(9) gy(2) st(3) by auto
  moreover have "vmap (mem s') d va = vmap (mem s) d va" if "unat va div 4096 \<notin> {j..<n}" for va
    using r(5) c(13) that by (auto simp: rng)
  moreover have "vm_step (Suc k) d s xs s' xs'" using vm_step_trans[OF c(8) r(2)] by simp
  ultimately show ?case unfolding loop using r(1) by blast
qed

lemma V2P_aligned: "p mod PGSIZE = 0 \<Longrightarrow> V2P p mod PGSIZE = 0"
proof -
  assume "p mod PGSIZE = 0"
  then have "4096 dvd unat p" by (simp flip: unat_0_iff add: unat_mod dvd_eq_mod_eq_0)
  then have "4096 dvd unat (V2P p)" unfolding V2P_def by (auto simp: unat_sub_if' intro!: dvd_diff_nat dvd_add)
  then show "V2P p mod PGSIZE = 0" by (simp flip: unat_0_iff add: unat_mod)
qed

lemma mmu_vmap:
  assumes "pd mod PGSIZE = 0"
  shows "mmu False (s\<lparr>cr3 := V2P pd\<rparr>) va = map_option (\<lambda>e. P2V (PTE_ADDR e) + (va AND 0xFFF)) (vmap (mem s) pd va)"
proof -
  have "PTE_ADDR (V2P pd) = V2P pd" using PTE_parts(1)[OF V2P_aligned[OF assms], of 0] by simp
  then show ?thesis
    by (simp add: mmu_def vmap_def tables_def tbl_def ent_def present_def PDX_nat Let_def)
qed

lemma page_offset_less: "unat (va AND 0xFFF :: addr) < 4096"
proof -
  have "va AND 0xFFF = take_bit 12 va" by (simp add: take_bit_eq_mask mask_eq_decr_exp)
  then show ?thesis by (simp add: take_bit_eq_mod unat_mod)
qed

lemma in_page_off: "in_page p (p + (va AND 0xFFF))"
  using page_offset_less[of va] by (simp add: in_page_def)

lemma copy_entry:
  assumes "page_ok s g" "present e"
  shows "P2V (PTE_ADDR (V2P g OR PTE_FLAGS e OR PTE_P)) = g"
proof -
  have m: "(0xFFF :: 32 word) = mask 12" by (simp add: mask_eq_decr_exp)
  have "PTE_FLAGS e OR PTE_P = take_bit 12 (e OR 1)" by (simp add: PTE_FLAGS_def m take_bit_eq_mask[symmetric] take_bit_or)
  then have "unat (PTE_FLAGS e OR PTE_P) < 4096" by (simp add: take_bit_eq_mod unat_mod)
  from PTE_parts(1)[OF page_okD(2)[OF assms(1)] this] show ?thesis by simp
qed

section \<open>Growing an address space\<close>

abbreviation (input) user_perm :: "32 word" where "user_perm \<equiv> PTE_W OR PTE_U"

lemma zeroed: "\<forall>g x. page_ok s g \<and> \<not> in_page g x \<longrightarrow> memset g 0 PGSIZE m x = m x" "in_page g x \<Longrightarrow> memset g 0 PGSIZE m x = 0"
  by (simp_all add: memset_spec in_page_def)

lemma allocuvm_loop_ok:
  assumes "pt_ok s xs pd" "missing s pd + k \<le> length xs" "j + k = n" "n \<le> 0x80000" "\<forall>i. i < n \<longleftrightarrow> 4096 * i < unat newsz"
    "\<forall>va. j \<le> unat va div 4096 \<and> unat va div 4096 < n \<longrightarrow> vmap (mem s) pd va = None" "unat a = 4096 * j"
  shows "\<exists>s' xs' g. allocuvm_loop pd a oldsz newsz s = Ok newsz s' \<and> vm_step k pd s xs s' xs' \<and> inj_on g {j..<n}
     \<and> (\<forall>i \<in> {j..<n}. g i \<in> set xs \<and> g i \<notin> foot s' xs' pd \<and> page_ok s (g i) \<and> (\<forall>x. in_page (g i) x \<longrightarrow> mem s' x = 0)
          \<and> (\<forall>va. unat va div 4096 = i \<longrightarrow> vmap (mem s') pd va = Some (V2P (g i) OR user_perm OR PTE_P)))
     \<and> (\<forall>va. unat va div 4096 \<notin> {j..<n} \<longrightarrow> vmap (mem s') pd va = vmap (mem s) pd va)"
  using assms
proof (induction k arbitrary: j a s xs)
  case 0
  have "\<not> a < newsz" using spec[OF 0(5), of j] 0(3,7) by (simp add: word_less_nat_alt)
  then have "allocuvm_loop pd a oldsz newsz s = Ok newsz s" by (simp add: allocuvm_loop.simps[of pd a])
  then show ?case using 0(1,3) pt_step_refl[OF 0(1)] by auto
next
  case (Suc k)
  have j: "j < n" and ua: "unat a = 4096 * j" using Suc.prems(3,7) by simp_all
  have al: "a < newsz" using spec[OF Suc.prems(5), of j] j ua by (simp add: word_less_nat_alt)
  have room: "missing s pd + 1 \<le> length xs" using Suc.prems(2) by simp
  have aj: "unat a mod 4096 = 0" "unat a div 4096 = j" by (simp_all add: ua)
  have free: "\<forall>va. unat va div 4096 = unat a div 4096 \<longrightarrow> vmap (mem s) pd va = None" using Suc.prems(6) j by (simp add: aj)
  obtain g s2 s3 ys where c: "kalloc s = Ok g s2" "g \<noteq> 0" "mem s2 = mem s" "mappages pd a PGSIZE (V2P g) user_perm (s2\<lparr>mem := memset g 0 PGSIZE (mem s2)\<rparr>) = Ok 0 s3"
     "vm_step 1 pd s xs s3 ys" "g \<in> set xs" "g \<notin> foot s3 ys pd" "page_ok s g" "\<forall>x. in_page g x \<longrightarrow> mem s3 x = memset g 0 PGSIZE (mem s) x"
     "\<forall>va. vmap (mem s3) pd va = (if unat va div 4096 = j then Some (V2P g OR user_perm OR PTE_P) else vmap (mem s) pd va)"
    using new_page[where fill = "\<lambda>g. memset g 0 PGSIZE" and perm = user_perm, OF Suc.prems(1) room aj(1) free zeroed(1)] unfolding aj(2)
    by (elim exE conjE) (rule that, assumption+)
  note st = vm_stepD[OF c(5)]
  have a': "unat (a + PGSIZE) = 4096 * Suc j" using ua j Suc.prems(4) by (simp add: unat_word_ariths)
  then have "\<not> a + PGSIZE \<le> a" using ua by (simp add: word_le_nat_alt)
  then have loop: "allocuvm_loop pd a oldsz newsz s = allocuvm_loop pd (a + PGSIZE) oldsz newsz s3"
    using al c(1,2,4) by (simp add: allocuvm_loop.simps[of pd a] Let_def s_lt_def)
  have r3: "missing s3 pd + k \<le> length ys" using st(5) Suc.prems(2) by simp
  have f3: "\<forall>va. Suc j \<le> unat va div 4096 \<and> unat va div 4096 < n \<longrightarrow> vmap (mem s3) pd va = None" using c(10) Suc.prems(6) by simp
  have jk: "Suc j + k = n" using Suc.prems(3) by simp
  obtain s' xs' h where r: "allocuvm_loop pd (a + PGSIZE) oldsz newsz s3 = Ok newsz s'" "vm_step k pd s3 ys s' xs'" "inj_on h {Suc j..<n}"
     "\<forall>i \<in> {Suc j..<n}. h i \<in> set ys \<and> h i \<notin> foot s' xs' pd \<and> page_ok s3 (h i) \<and> (\<forall>x. in_page (h i) x \<longrightarrow> mem s' x = 0)
          \<and> (\<forall>va. unat va div 4096 = i \<longrightarrow> vmap (mem s') pd va = Some (V2P (h i) OR user_perm OR PTE_P))"
     "\<forall>va. unat va div 4096 \<notin> {Suc j..<n} \<longrightarrow> vmap (mem s') pd va = vmap (mem s3) pd va"
    using Suc.IH[OF st(1) r3 jk Suc.prems(4,5) f3 a'] by (elim exE conjE) (rule that, assumption+)
  note st' = vm_stepD[OF r(2)]
  have po: "page_ok s3 = page_ok s" by (rule page_ok_cong) (subst st(6), simp)
  have gy: "g \<notin> set ys" "g \<notin> foot s' xs' pd" using c(7) st'(2) by (auto simp: foot_def)
  have g0: "\<forall>x. in_page g x \<longrightarrow> mem s' x = 0"
    using st'(4)[OF off_page[OF st(1) page_okD(1)[OF c(8)] c(7)]] c(9) zeroed(2)[of g] by simp
  have gv: "\<forall>va. unat va div 4096 = j \<longrightarrow> vmap (mem s') pd va = Some (V2P g OR user_perm OR PTE_P)" using r(5) c(10) by simp
  define G where "G = h(j := g)"
  have rng: "{j..<n} = insert j {Suc j..<n}" using j by auto
  have "inj_on G {j..<n}" unfolding rng G_def using r(3,4) gy(1) by (auto simp: inj_on_def)
  moreover have "\<forall>i \<in> {j..<n}. G i \<in> set xs \<and> G i \<notin> foot s' xs' pd \<and> page_ok s (G i) \<and> (\<forall>x. in_page (G i) x \<longrightarrow> mem s' x = 0)
          \<and> (\<forall>va. unat va div 4096 = i \<longrightarrow> vmap (mem s') pd va = Some (V2P (G i) OR user_perm OR PTE_P))"
    unfolding rng G_def using r(4) c(6,8) gy(2) g0 gv st(3) po by auto
  moreover have "vmap (mem s') pd va = vmap (mem s) pd va" if "unat va div 4096 \<notin> {j..<n}" for va
    using r(5) c(10) that by (auto simp: rng)
  moreover have "vm_step (Suc k) pd s xs s' xs'" using vm_step_trans[OF c(5) r(2)] by simp
  ultimately show ?case unfolding loop using r(1) by blast
qed

lemma PGROUNDUP_nat: "unat a \<le> 0x80000000 \<Longrightarrow> unat (PGROUNDUP a) = 4096 * ((unat a + 4095) div 4096)"
proof -
  assume a: "unat a \<le> 0x80000000"
  have "PGROUNDUP a = PGROUNDDOWN (a + 4095)" by (simp add: PGROUNDUP_def PGROUNDDOWN_def add.commute)
  moreover have "unat (a + 4095) = unat a + 4095" using a by (simp add: unat_word_ariths)
  ultimately show ?thesis by (simp add: PGROUNDDOWN_nat)
qed

lemma mmu_write:
  assumes pt: "pt_ok s xs pd" and v: "vmap (mem s) pd va = Some (V2P g OR user_perm OR PTE_P)" and g: "page_ok s g"
  shows "mmu True (s\<lparr>cr3 := V2P pd\<rparr>) va = Some (g + (va AND 0xFFF))"
proof -
  have al: "PTE_ADDR (V2P pd) = V2P pd" using PTE_parts(1)[OF page_okD(2)[OF pt_okD(2)[OF pt]], of 0] by simp
  let ?e = "V2P g OR user_perm OR PTE_P"
  have i: "pdx va \<in> tables (mem s) pd" "ent (mem s) (tbl (mem s) pd (pdx va)) (ptx va) = ?e" "present ?e"
    using v by (auto simp: vmap_def Let_def split: if_splits)
  have w: "ent (mem s) pd (pdx va) AND PTE_W \<noteq> 0"
  proof -
    have "bit (ent (mem s) pd (pdx va) AND 6) 1" using pt_okD(8)[OF pt i(1)] by simp
    then have "bit (ent (mem s) pd (pdx va)) 1" by (simp add: bit_and_iff)
    then have "bit (ent (mem s) pd (pdx va) AND 2) 1" by (simp add: bit_and_iff)
    then show ?thesis by (metis bit_0_eq bot_apply bot_bool_def)
  qed
  have ew: "?e AND PTE_W \<noteq> 0"
  proof -
    have "bit (?e AND 2) 1" by (simp add: bit_and_iff bit_or_iff)
    then show ?thesis by (metis bit_0_eq bot_apply bot_bool_def)
  qed
  have "PTE_ADDR ?e = V2P g" using PTE_parts(1)[OF page_okD(2)[OF g], of "user_perm OR PTE_P"] by (simp add: or.assoc)
  then show ?thesis using i w ew al
    by (simp add: mmu_def tables_def tbl_def ent_def present_def PDX_nat Let_def)
qed

section \<open>Freeing an address space\<close>

text \<open>The frames below \<open>KERNBASE\<close> are pages of their own, each mapped once, and belong neither to the free list nor to the
  tables of the directory.\<close>

definition space_ok :: "kernel \<Rightarrow> addr list \<Rightarrow> addr \<Rightarrow> bool" where
  "space_ok s xs pd \<longleftrightarrow> pt_ok s xs pd \<and> KERNBASE < kend s
     \<and> (\<forall>va e. unat va < 0x80000000 \<and> vmap (mem s) pd va = Some e \<longrightarrow> page_ok s (P2V (PTE_ADDR e)) \<and> P2V (PTE_ADDR e) \<notin> foot s xs pd)
     \<and> (\<forall>va vb e f. unat va < 0x80000000 \<and> unat vb < 0x80000000 \<and> vmap (mem s) pd va = Some e \<and> vmap (mem s) pd vb = Some f
          \<and> PTE_ADDR e = PTE_ADDR f \<longrightarrow> unat va div 4096 = unat vb div 4096)"

definition frames :: "memory \<Rightarrow> addr \<Rightarrow> nat \<Rightarrow> nat \<Rightarrow> addr set" where
  "frames m pd j n = {P2V (PTE_ADDR e) | va e. j \<le> unat (va :: addr) div 4096 \<and> unat va div 4096 < n \<and> vmap m pd va = Some e}"

definition pages_of :: "memory \<Rightarrow> addr \<Rightarrow> addr set" where
  "pages_of m pd = insert pd (tbl m pd ` tables m pd \<union> frames m pd 0 0x80000)"

lemma kfree_page:
  assumes km: "kmem_inv s xs" and v: "page_ok s v" "v \<notin> set xs"
  shows "\<exists>s'. kfree v s = Ok () s' \<and> kmem_inv s' (v # xs) \<and> (\<forall>x. \<not> in_page v x \<longrightarrow> mem s' x = mem s x)
     \<and> s' = s\<lparr>mem := mem s', freelist := freelist s', mach := mach s'\<rparr>"
proof -
  obtain s' where s': "kfree v s = Ok () s'" "kmem_inv s' (v # xs)" using kfree_inv[OF assms] by blast
  have "mach_ok (mach s)" "lk_free KmemLk (mach s)" using km by (simp_all add: kmem_inv_def)
  from kfree_ok[OF v(1) this] s'(1)
  have e: "s' = s\<lparr>mem := store32 v (freelist s) (memset v 1 PGSIZE (mem s)), freelist := v, mach := kmem_mach s\<rparr>" by simp
  have "mem s' x = mem s x" if "\<not> in_page v x" for x using kfree_mem_other[of x v] that by (simp add: e in_page_def not_less)
  then show ?thesis using s' e by auto
qed

lemma pt_ok_free:
  assumes pt: "pt_ok s xs pd" and v: "page_ok s v" "v \<notin> foot s xs pd"
  shows "\<exists>s'. kfree v s = Ok () s' \<and> pt_ok s' (v # xs) pd \<and> vmap (mem s') pd = vmap (mem s) pd \<and> tables (mem s') pd = tables (mem s) pd
     \<and> (\<forall>i \<in> tables (mem s) pd. tbl (mem s') pd i = tbl (mem s) pd i) \<and> foot s' (v # xs) pd = insert v (foot s xs pd)
     \<and> s' = s\<lparr>mem := mem s', freelist := freelist s', mach := mach s'\<rparr> \<and> (\<forall>x. \<not> in_page v x \<longrightarrow> mem s' x = mem s x)"
proof -
  note D = pt_okD[OF pt]
  have "v \<notin> set xs" using v(2) by (simp add: foot_def)
  from kfree_page[OF D(1) v(1) this] obtain s' where s': "kfree v s = Ok () s'" "kmem_inv s' (v # xs)" "\<forall>x. \<not> in_page v x \<longrightarrow> mem s' x = mem s x"
     "s' = s\<lparr>mem := mem s', freelist := freelist s', mach := mach s'\<rparr>" by blast
  have keep: "\<forall>q \<in> foot s xs pd. \<forall>x. in_page q x \<longrightarrow> mem s' x = mem s x"
  proof (intro ballI allI impI)
    fix q x assume q: "q \<in> foot s xs pd" "in_page q x"
    then have "\<not> in_page v x" using page_disjoint[OF foot_aligned[OF pt q(1)] page_okD(1)[OF v(1)] q(2)] v(2) by auto
    then show "mem s' x = mem s x" using s'(3) by simp
  qed
  note P = pt_ok_mem[OF pt keep]
  have po: "page_ok s' = page_ok s" by (rule page_ok_cong) (subst s'(4), simp)
  have tl: "\<forall>i \<in> tables (mem s) pd. tbl (mem s') pd i = tbl (mem s) pd i"
  proof
    fix i assume "i \<in> tables (mem s) pd"
    then have "ent (mem s') pd i = ent (mem s) pd i" using keep by (intro ent_cong) (auto simp: tables_def foot_def)
    then show "tbl (mem s') pd i = tbl (mem s) pd i" by (simp add: tbl_def)
  qed
  have Q: "pt_ok (s\<lparr>mem := mem s'\<rparr>) xs pd" by (rule P(1))
  have po2: "page_ok (s\<lparr>mem := mem s'\<rparr>) = page_ok s" by (rule page_ok_cong) simp
  have "pt_ok s' (v # xs) pd" using Q s'(2) v(2) tl by (auto simp: pt_ok_def po po2 P(3) foot_def image_iff)
  moreover have "foot s' (v # xs) pd = insert v (foot s xs pd)" using tl by (auto simp: foot_def P(3))
  ultimately show ?thesis using s'(1,3,4) P(3,4) tl by (intro exI[of _ s']) simp
qed

lemma space_okD:
  assumes "space_ok s xs pd" "unat va < 0x80000000" "vmap (mem s) pd va = Some e"
  shows "page_ok s (P2V (PTE_ADDR e))" "P2V (PTE_ADDR e) \<notin> foot s xs pd" "PTE_ADDR e \<noteq> 0"
    "unat vb < 0x80000000 \<Longrightarrow> vmap (mem s) pd vb = Some f \<Longrightarrow> PTE_ADDR e = PTE_ADDR f \<Longrightarrow> unat va div 4096 = unat vb div 4096"
proof -
  show p: "page_ok s (P2V (PTE_ADDR e))" "P2V (PTE_ADDR e) \<notin> foot s xs pd" using assms unfolding space_ok_def by blast+
  have "KERNBASE < kend s" using assms(1) by (simp add: space_ok_def)
  then show "PTE_ADDR e \<noteq> 0" using p(1) by (auto simp: page_ok_def P2V_def)
  show "unat vb < 0x80000000 \<Longrightarrow> vmap (mem s) pd vb = Some f \<Longrightarrow> PTE_ADDR e = PTE_ADDR f \<Longrightarrow> unat va div 4096 = unat vb div 4096"
    using assms unfolding space_ok_def by metis
qed

text \<open>One page of \<open>deallocuvm\<close>.\<close>

lemma free_frame:
  assumes sp: "space_ok s xs pd" and a: "unat a < 0x80000000" and v: "vmap (mem s) pd a = Some e"
  defines "p \<equiv> tbl (mem s) pd (pdx a) + 4 * of_nat (ptx a)"
  shows "\<exists>s1. kfree (P2V (PTE_ADDR e)) s = Ok () s1 \<and> space_ok (s1\<lparr>mem := store32 p 0 (mem s1)\<rparr>) (P2V (PTE_ADDR e) # xs) pd
     \<and> (\<forall>vb. vmap (store32 p 0 (mem s1)) pd vb = (if unat vb div 4096 = unat a div 4096 then None else vmap (mem s) pd vb))
     \<and> tables (store32 p 0 (mem s1)) pd = tables (mem s) pd \<and> tbl (store32 p 0 (mem s1)) pd ` tables (mem s) pd = tbl (mem s) pd ` tables (mem s) pd
     \<and> s1 = s\<lparr>mem := mem s1, freelist := freelist s1, mach := mach s1\<rparr>
     \<and> (\<forall>x. \<not> in_page (P2V (PTE_ADDR e)) x \<and> \<not> in_page (tbl (mem s) pd (pdx a)) x \<longrightarrow> store32 p 0 (mem s1) x = mem s x)"
proof -
  have pt: "pt_ok s xs pd" using sp by (simp add: space_ok_def)
  let ?v = "P2V (PTE_ADDR e)"
  note S = space_okD[OF sp a v]
  obtain s1 where s1: "kfree ?v s = Ok () s1" "pt_ok s1 (?v # xs) pd" "vmap (mem s1) pd = vmap (mem s) pd" "tables (mem s1) pd = tables (mem s) pd"
     "\<forall>i \<in> tables (mem s) pd. tbl (mem s1) pd i = tbl (mem s) pd i" "foot s1 (?v # xs) pd = insert ?v (foot s xs pd)"
     "s1 = s\<lparr>mem := mem s1, freelist := freelist s1, mach := mach s1\<rparr>" "\<forall>x. \<not> in_page ?v x \<longrightarrow> mem s1 x = mem s x"
    using pt_ok_free[OF pt S(1,2)] by (elim exE conjE) (rule that, assumption+)
  have i: "pdx a \<in> tables (mem s) pd" using v by (auto simp: vmap_def Let_def split: if_splits)
  then have p: "p = tbl (mem s1) pd (pdx a) + 4 * of_nat (ptx a)" using s1(5) by (simp add: p_def)
  have i1: "pdx a \<in> tables (mem s1) pd" using i by (simp add: s1(4))
  let ?s2 = "s1\<lparr>mem := store32 p 0 (mem s1)\<rparr>"
  note se = set_entry[OF s1(2) i1, of 0, folded p]
  have np: "\<not> present 0" by (simp add: present_def)
  have vm: "\<forall>vb. vmap (mem ?s2) pd vb = (if unat vb div 4096 = unat a div 4096 then None else vmap (mem s) pd vb)"
    using se(2) np by (simp add: s1(3))
  note st = pt_stepD[OF se(1)]
  have tb: "tbl (mem ?s2) pd j = tbl (mem s) pd j" if "j \<in> tables (mem s) pd" for j
  proof -
    have "tbl (mem s1) pd (pdx a) \<noteq> pd" "pd mod PGSIZE = 0" "tbl (mem s1) pd (pdx a) mod PGSIZE = 0" "j < 1024"
      using pt_okD(6)[OF s1(2) i1] page_okD(1)[OF pt_okD(2)[OF s1(2)]] page_okD(1)[OF pt_okD(5)[OF s1(2) i1]] that by (simp_all add: tables_def)
    then have "ent (mem ?s2) pd j = ent (mem s1) pd j" using ent_store[of "tbl (mem s1) pd (pdx a)" pd "ptx a" j 0 "mem s1"] by (auto simp: p)
    then show ?thesis using s1(5) that by (simp add: tbl_def)
  qed
  have ft: "foot ?s2 (?v # xs) pd = insert ?v (foot s xs pd)" unfolding foot_def using tb se(3) s1(4) by auto
  have ke: "kend ?s2 = kend s" by (subst s1(7)) simp
  have po: "page_ok ?s2 = page_ok s" by (rule page_ok_cong[OF ke])
  have "space_ok ?s2 (?v # xs) pd" unfolding space_ok_def ft po ke
  proof (intro conjI allI impI)
    show "pt_ok ?s2 (?v # xs) pd" by (rule st(1))
    show "KERNBASE < kend s" using sp by (simp add: space_ok_def)
    fix va f assume H: "unat va < 0x80000000 \<and> vmap (mem ?s2) pd va = Some f"
    then have H': "unat va < 0x80000000" "vmap (mem s) pd va = Some f" "unat va div 4096 \<noteq> unat a div 4096" using vm by (auto split: if_splits)
    show "page_ok s (P2V (PTE_ADDR f))" by (rule space_okD(1)[OF sp H'(1,2)])
    have "PTE_ADDR f \<noteq> PTE_ADDR e" using space_okD(4)[OF sp H'(1,2) a v] H'(3) by auto
    then show "P2V (PTE_ADDR f) \<notin> insert ?v (foot s xs pd)" using space_okD(2)[OF sp H'(1,2)] by (simp add: P2V_def)
  next
    fix va vb f g assume "unat va < 0x80000000 \<and> unat vb < 0x80000000 \<and> vmap (mem ?s2) pd va = Some f \<and> vmap (mem ?s2) pd vb = Some g \<and> PTE_ADDR f = PTE_ADDR g"
    then show "unat va div 4096 = unat vb div 4096" using vm space_okD(4)[OF sp, of va f vb g] by (auto split: if_splits)
  qed
  moreover have "tbl (mem ?s2) pd ` tables (mem s) pd = tbl (mem s) pd ` tables (mem s) pd" using tb by (intro image_cong) simp_all
  moreover have "store32 p 0 (mem s1) x = mem s x" if "\<not> in_page ?v x" "\<not> in_page (tbl (mem s) pd (pdx a)) x" for x
    using store_ent_other[of "ptx a" "tbl (mem s) pd (pdx a)" x 0 "mem s1"] that s1(8) by (simp add: p_def)
  ultimately show ?thesis using s1(1,7) vm se(3) s1(4) by (intro exI[of _ s1] conjI allI impI) simp_all
qed

lemma next_table:
  assumes "unat a < 0x80000000"
  shows "unat (PGADDR (PDX a + 1) 0 0) = (pdx a + 1) * 2 ^ 22"
proof -
  have p: "pdx a < 512" using assms by (simp add: pdx_val)
  then have u: "unat (PDX a + 1) = pdx a + 1" by (simp add: pdx_def unat_word_ariths)
  have "PGADDR (PDX a + 1) 0 0 = (PDX a + 1) * 2 ^ 22" by (simp add: PGADDR_def push_bit_eq_mult)
  then show ?thesis using p by (simp add: pdx_def unat_word_ariths)
qed

lemma framesE:
  assumes "x \<in> frames m pd j n"
  obtains va e where "x = P2V (PTE_ADDR e)" "j \<le> unat va div 4096" "unat va div 4096 < n" "vmap m pd va = Some e"
  using assms by (auto simp: frames_def)

lemma framesI: "j \<le> unat va div 4096 \<Longrightarrow> unat va div 4096 < n \<Longrightarrow> vmap m pd va = Some e \<Longrightarrow> P2V (PTE_ADDR e) \<in> frames m pd j n"
  by (auto simp: frames_def)

lemma frames_sub:
  assumes "\<forall>va. j \<le> unat va div 4096 \<and> unat va div 4096 < n \<longrightarrow> vmap m' pd va = vmap m pd va"
  shows "frames m pd j n \<subseteq> frames m' pd j n"
proof
  fix x assume "x \<in> frames m pd j n"
  then obtain va e where v: "x = P2V (PTE_ADDR e)" "j \<le> unat va div 4096" "unat va div 4096 < n" "vmap m pd va = Some e" by (rule framesE)
  then show "x \<in> frames m' pd j n" using assms by (simp add: framesI)
qed

lemma frames_cong: "\<forall>va. j \<le> unat va div 4096 \<and> unat va div 4096 < n \<longrightarrow> vmap m' pd va = vmap m pd va \<Longrightarrow> frames m' pd j n = frames m pd j n"
  by (intro equalityI frames_sub) simp_all

lemma frames_Suc:
  assumes "\<forall>va. unat va div 4096 = j \<longrightarrow> vmap m pd va = Some e" "unat (a :: addr) div 4096 = j" "j < n"
  shows "frames m pd j n = insert (P2V (PTE_ADDR e)) (frames m pd (Suc j) n)"
proof (intro equalityI subsetI)
  fix x assume "x \<in> frames m pd j n"
  then obtain va f where v: "x = P2V (PTE_ADDR f)" "j \<le> unat va div 4096" "unat va div 4096 < n" "vmap m pd va = Some f" by (rule framesE)
  show "x \<in> insert (P2V (PTE_ADDR e)) (frames m pd (Suc j) n)"
  proof (cases "unat va div 4096 = j")
    case True
    then show ?thesis using assms(1) v(1,4) by simp
  next
    case False
    then show ?thesis using v framesI[of "Suc j" va n m pd f] by simp
  qed
next
  fix x assume x: "x \<in> insert (P2V (PTE_ADDR e)) (frames m pd (Suc j) n)"
  show "x \<in> frames m pd j n"
  proof (cases "x = P2V (PTE_ADDR e)")
    case True
    then show ?thesis using framesI[of j a n m pd e] assms by simp
  next
    case False
    then obtain va f where v: "x = P2V (PTE_ADDR f)" "Suc j \<le> unat va div 4096" "unat va div 4096 < n" "vmap m pd va = Some f"
      using x by (auto elim: framesE)
    then show ?thesis using framesI[of j va n m pd f] by simp
  qed
qed

lemma frames_skip:
  assumes "\<forall>va. j \<le> unat va div 4096 \<and> unat va div 4096 < j' \<longrightarrow> vmap m pd va = None" "j \<le> j'"
  shows "frames m pd j n = frames m pd j' n"
proof (intro equalityI subsetI)
  fix x assume "x \<in> frames m pd j n"
  then obtain va e where v: "x = P2V (PTE_ADDR e)" "j \<le> unat va div 4096" "unat va div 4096 < n" "vmap m pd va = Some e" by (rule framesE)
  then have "j' \<le> unat va div 4096" using spec[OF assms(1), of va] by (cases "unat va div 4096 < j'") auto
  then show "x \<in> frames m pd j' n" using v framesI by blast
next
  fix x assume "x \<in> frames m pd j' n"
  then obtain va e where v: "x = P2V (PTE_ADDR e)" "j' \<le> unat va div 4096" "unat va div 4096 < n" "vmap m pd va = Some e" by (rule framesE)
  then have "j \<le> unat va div 4096" using assms(2) by simp
  then show "x \<in> frames m pd j n" using v framesI by blast
qed

lemma no_table:
  assumes "pdx a \<notin> tables m pd" "unat a div 4096 \<le> unat va div 4096" "unat va div 4096 < (pdx a + 1) * 1024"
  shows "vmap m pd va = None"
proof -
  have px: "pdx v = unat v div 4096 div 1024" for v by (simp add: pdx_val div_mult2_eq[symmetric])
  have "unat va div 4096 div 1024 = unat a div 4096 div 1024"
  proof (rule div_nat_eqI)
    show "1024 * (unat a div 4096 div 1024) \<le> unat va div 4096" by (rule order_trans[OF times_div_less_eq_dividend assms(2)])
    show "unat va div 4096 < 1024 * Suc (unat a div 4096 div 1024)" using assms(3) px[of a] by (simp add: algebra_simps)
  qed
  then have "pdx va = pdx a" using px[of va] px[of a] by simp
  then show ?thesis using assms(1) by (simp add: vmap_def)
qed

lemma deallocuvm_loop_ok:
  assumes "space_ok s xs pd" "\<forall>i. i < n \<longleftrightarrow> 4096 * i < unat oldsz" "n \<le> 0x80000" "unat a = 4096 * j"
  shows "\<exists>s' xs'. deallocuvm_loop pd a oldsz s = Ok () s' \<and> space_ok s' xs' pd \<and> set xs' = set xs \<union> frames (mem s) pd j n
     \<and> (\<forall>vb. vmap (mem s') pd vb = (if j \<le> unat vb div 4096 \<and> unat vb div 4096 < n then None else vmap (mem s) pd vb))
     \<and> tables (mem s') pd = tables (mem s) pd \<and> tbl (mem s') pd ` tables (mem s) pd = tbl (mem s) pd ` tables (mem s) pd
     \<and> s' = s\<lparr>mem := mem s', freelist := freelist s', mach := mach s'\<rparr>
     \<and> (\<forall>x. (\<forall>q \<in> tbl (mem s) pd ` tables (mem s) pd \<union> frames (mem s) pd j n. \<not> in_page q x) \<longrightarrow> mem s' x = mem s x)"
  using assms
proof (induction "n - j" arbitrary: j a s xs rule: less_induct)
  case less
  note sp = less.prems(1) and ol = less.prems(2) and n8 = less.prems(3) and ua = less.prems(4)
  show ?case
  proof (cases "j < n")
    case False
    then have "\<not> a < oldsz" using spec[OF ol, of j] ua by (simp add: word_less_nat_alt)
    then have "deallocuvm_loop pd a oldsz s = Ok () s" by (simp add: deallocuvm_loop.simps[of pd a])
    moreover have "frames (mem s) pd j n = {}" using False by (auto simp: frames_def)
    ultimately show ?thesis using sp False by (intro exI[of _ s] exI[of _ xs]) auto
  next
    case True
    have al: "a < oldsz" using spec[OF ol, of j] True ua by (simp add: word_less_nat_alt)
    have ab: "unat a < 0x80000000" using True n8 ua by simp
    have pj: "unat a div 4096 = j" by (simp add: ua)
    have step: "unat (a + PGSIZE) = 4096 * Suc j" "\<not> a + PGSIZE \<le> a" "n - Suc j < n - j" using ua ab True by (simp_all add: unat_word_ariths word_le_nat_alt)
    consider (notab) "pdx a \<notin> tables (mem s) pd" | (free) "pdx a \<in> tables (mem s) pd" "vmap (mem s) pd a = None" | (used) e where "vmap (mem s) pd a = Some e"
      by (cases "vmap (mem s) pd a") auto
    then show ?thesis
    proof cases
      case notab
      let ?a = "PGADDR (PDX a + 1) 0 0" and ?j = "(pdx a + 1) * 1024"
      have u': "unat ?a = 4096 * ?j" using next_table[OF ab] by simp
      have jj: "j < ?j" using ua ab by (simp add: pdx_val) 
      have "\<not> ?a \<le> a" using jj u' ua by (simp add: word_le_nat_alt)
      then have loop: "deallocuvm_loop pd a oldsz s = deallocuvm_loop pd ?a oldsz s"
        using al walk_absent[OF notab] by (simp add: deallocuvm_loop.simps[of pd a] Let_def)
      have none: "vmap (mem s) pd va = None" if "j \<le> unat va div 4096" "unat va div 4096 < ?j" for va
        using no_table[OF notab] that by (simp add: pj)
      have fr: "frames (mem s) pd ?j n = frames (mem s) pd j n" using frames_skip[of j ?j "mem s" pd n] none jj by simp
      have "n - ?j < n - j" using True jj by simp
      from less.hyps[OF this sp ol n8 u'] obtain s' xs' where r: "deallocuvm_loop pd ?a oldsz s = Ok () s'" "space_ok s' xs' pd" "set xs' = set xs \<union> frames (mem s) pd j n"
         "\<forall>vb. vmap (mem s') pd vb = (if ?j \<le> unat vb div 4096 \<and> unat vb div 4096 < n then None else vmap (mem s) pd vb)"
         "tables (mem s') pd = tables (mem s) pd" "tbl (mem s') pd ` tables (mem s) pd = tbl (mem s) pd ` tables (mem s) pd"
         "s' = s\<lparr>mem := mem s', freelist := freelist s', mach := mach s'\<rparr>"
         "\<forall>x. (\<forall>q \<in> tbl (mem s) pd ` tables (mem s) pd \<union> frames (mem s) pd j n. \<not> in_page q x) \<longrightarrow> mem s' x = mem s x" unfolding fr by (elim exE conjE) (rule that, assumption+)
      have "vmap (mem s') pd vb = (if j \<le> unat vb div 4096 \<and> unat vb div 4096 < n then None else vmap (mem s) pd vb)" for vb
        using r(4) none[of vb] jj by (cases "unat vb div 4096 < ?j") auto
      then show ?thesis unfolding loop using r(1-3,5-8) by (intro exI[of _ s'] exI[of _ xs'] conjI allI) fast+
    next
      case free
      let ?p = "tbl (mem s) pd (pdx a) + 4 * of_nat (ptx a)"
      have pt: "pt_ok s xs pd" using sp by (simp add: space_ok_def)
      have p0: "?p \<noteq> 0" using entry_addr_nonzero[OF pt_okD(5)[OF pt free(1)] px_less(2)] by blast
      have np: "load32 (mem s) ?p AND PTE_P = 0" using free by (auto simp: vmap_def Let_def present_def ent_def split: if_splits)
      have loop: "deallocuvm_loop pd a oldsz s = deallocuvm_loop pd (a + PGSIZE) oldsz s"
        using al walk_present[OF free(1)] p0 np step(2) by (simp add: deallocuvm_loop.simps[of pd a] Let_def)
      have none: "vmap (mem s) pd va = None" if "unat va div 4096 = j" for va
        using free(2) same_page[of va a] that pj by (simp add: vmap_def)
      have fr: "frames (mem s) pd (Suc j) n = frames (mem s) pd j n" using frames_skip[of j "Suc j" "mem s" pd n] none by (simp add: less_Suc_eq_le)
      from less.hyps[OF step(3) sp ol n8 step(1)] obtain s' xs' where r: "deallocuvm_loop pd (a + PGSIZE) oldsz s = Ok () s'" "space_ok s' xs' pd" "set xs' = set xs \<union> frames (mem s) pd j n"
         "\<forall>vb. vmap (mem s') pd vb = (if Suc j \<le> unat vb div 4096 \<and> unat vb div 4096 < n then None else vmap (mem s) pd vb)"
         "tables (mem s') pd = tables (mem s) pd" "tbl (mem s') pd ` tables (mem s) pd = tbl (mem s) pd ` tables (mem s) pd"
         "s' = s\<lparr>mem := mem s', freelist := freelist s', mach := mach s'\<rparr>"
         "\<forall>x. (\<forall>q \<in> tbl (mem s) pd ` tables (mem s) pd \<union> frames (mem s) pd j n. \<not> in_page q x) \<longrightarrow> mem s' x = mem s x" unfolding fr by (elim exE conjE) (rule that, assumption+)
      have "vmap (mem s') pd vb = (if j \<le> unat vb div 4096 \<and> unat vb div 4096 < n then None else vmap (mem s) pd vb)" for vb
        using r(4) none[of vb] by (cases "unat vb div 4096 = j") auto
      then show ?thesis unfolding loop using r(1-3,5-8) by (intro exI[of _ s'] exI[of _ xs'] conjI allI) fast+
    next
      case used
      let ?p = "tbl (mem s) pd (pdx a) + 4 * of_nat (ptx a)" and ?v = "P2V (PTE_ADDR e)"
      have pt: "pt_ok s xs pd" using sp by (simp add: space_ok_def)
      have i: "pdx a \<in> tables (mem s) pd" and e: "load32 (mem s) ?p = e" "e AND PTE_P \<noteq> 0" using used by (auto simp: vmap_def Let_def present_def ent_def split: if_splits)
      have p0: "?p \<noteq> 0" using entry_addr_nonzero[OF pt_okD(5)[OF pt i] px_less(2)] by blast
      obtain s1 where s1: "kfree ?v s = Ok () s1" "space_ok (s1\<lparr>mem := store32 ?p 0 (mem s1)\<rparr>) (?v # xs) pd"
         "\<forall>vb. vmap (store32 ?p 0 (mem s1)) pd vb = (if unat vb div 4096 = unat a div 4096 then None else vmap (mem s) pd vb)"
         "tables (store32 ?p 0 (mem s1)) pd = tables (mem s) pd" "tbl (store32 ?p 0 (mem s1)) pd ` tables (mem s) pd = tbl (mem s) pd ` tables (mem s) pd"
         "s1 = s\<lparr>mem := mem s1, freelist := freelist s1, mach := mach s1\<rparr>"
         "\<forall>x. \<not> in_page ?v x \<and> \<not> in_page (tbl (mem s) pd (pdx a)) x \<longrightarrow> store32 ?p 0 (mem s1) x = mem s x"
        using free_frame[OF sp ab used] by (elim exE conjE) (rule that, assumption+)
      let ?s2 = "s1\<lparr>mem := store32 ?p 0 (mem s1)\<rparr>"
      have loop: "deallocuvm_loop pd a oldsz s = deallocuvm_loop pd (a + PGSIZE) oldsz ?s2"
        using al walk_present[OF i] p0 e step(2) s1(1) space_okD(3)[OF sp ab used] by (simp add: deallocuvm_loop.simps[of pd a] Let_def)
      obtain s' xs' where r: "deallocuvm_loop pd (a + PGSIZE) oldsz ?s2 = Ok () s'" "space_ok s' xs' pd" "set xs' = set (?v # xs) \<union> frames (mem ?s2) pd (Suc j) n"
         "\<forall>vb. vmap (mem s') pd vb = (if Suc j \<le> unat vb div 4096 \<and> unat vb div 4096 < n then None else vmap (mem ?s2) pd vb)"
         "tables (mem s') pd = tables (mem ?s2) pd" "tbl (mem s') pd ` tables (mem ?s2) pd = tbl (mem ?s2) pd ` tables (mem ?s2) pd"
         "s' = ?s2\<lparr>mem := mem s', freelist := freelist s', mach := mach s'\<rparr>"
         "\<forall>x. (\<forall>q \<in> tbl (mem ?s2) pd ` tables (mem ?s2) pd \<union> frames (mem ?s2) pd (Suc j) n. \<not> in_page q x) \<longrightarrow> mem s' x = mem ?s2 x"
        using less.hyps[OF step(3) s1(2) ol n8 step(1)] by (elim exE conjE) (rule that, assumption+)
      have v2: "vmap (mem ?s2) pd vb = (if unat vb div 4096 = j then None else vmap (mem s) pd vb)" for vb using s1(3) pj by simp
      have "vmap (mem s') pd vb = (if j \<le> unat vb div 4096 \<and> unat vb div 4096 < n then None else vmap (mem s) pd vb)" for vb
        using r(4) v2[of vb] True by auto
      moreover have fr: "frames (mem s) pd j n = insert ?v (frames (mem ?s2) pd (Suc j) n)"
      proof -
        have one: "\<forall>va. unat va div 4096 = j \<longrightarrow> vmap (mem s) pd va = Some e"
        proof (intro allI impI)
          fix va :: addr assume "unat va div 4096 = j"
          then show "vmap (mem s) pd va = Some e" using used same_page[of va a] pj by (simp add: vmap_def)
        qed
        have "frames (mem ?s2) pd (Suc j) n = frames (mem s) pd (Suc j) n" by (rule frames_cong) (use v2 in auto)
        moreover have "frames (mem s) pd j n = insert ?v (frames (mem s) pd (Suc j) n)" by (rule frames_Suc[OF one pj True])
        ultimately show ?thesis by simp
      qed
      moreover have "s' = s\<lparr>mem := mem s', freelist := freelist s', mach := mach s'\<rparr>" by (subst r(7), subst s1(6)) simp
      moreover have "mem s' x = mem s x" if "\<forall>q \<in> tbl (mem s) pd ` tables (mem s) pd \<union> frames (mem s) pd j n. \<not> in_page q x" for x
      proof -
        have t2: "tbl (mem ?s2) pd ` tables (mem ?s2) pd = tbl (mem s) pd ` tables (mem s) pd" using s1(4,5) by simp
        have "\<forall>q \<in> tbl (mem ?s2) pd ` tables (mem ?s2) pd \<union> frames (mem ?s2) pd (Suc j) n. \<not> in_page q x" using that unfolding fr t2 by blast
        then have "mem s' x = mem ?s2 x" using r(8) by blast
        moreover have "\<not> in_page ?v x" "\<not> in_page (tbl (mem s) pd (pdx a)) x" using that i unfolding fr by blast+
        ultimately show ?thesis using s1(7) by simp
      qed
      ultimately show ?thesis unfolding loop using r(1,2,3,5,6) s1(4,5) by (intro exI[of _ s'] exI[of _ xs']) simp
    qed
  qed
qed

lemma freevm_tables_ok:
  assumes "kmem_inv s xs" "page_ok s pd" "pd \<notin> set xs" "distinct is" "\<forall>i \<in> set is. i < 1024" "inj_on (tbl (mem s) pd) (set is \<inter> tables (mem s) pd)"
    "\<forall>i \<in> set is \<inter> tables (mem s) pd. page_ok s (tbl (mem s) pd i) \<and> tbl (mem s) pd i \<notin> insert pd (set xs)"
  shows "\<exists>s' xs'. freevm_tables pd is s = Ok () s' \<and> kmem_inv s' xs' \<and> set xs' = set xs \<union> tbl (mem s) pd ` (set is \<inter> tables (mem s) pd) \<and> kend s' = kend s
     \<and> (\<forall>x. (\<forall>q \<in> tbl (mem s) pd ` (set is \<inter> tables (mem s) pd). \<not> in_page q x) \<longrightarrow> mem s' x = mem s x)"
  using assms
proof (induction "is" arbitrary: s xs)
  case Nil
  then show ?case by auto
next
  case (Cons i "is")
  let ?t = "tbl (mem s) pd i"
  have i: "i < 1024" "i \<notin> set is" "distinct is" "\<forall>i \<in> set is. i < 1024" using Cons.prems(4,5) by simp_all
  show ?case
  proof (cases "i \<in> tables (mem s) pd")
    case False
    then have eq: "set (i # is) \<inter> tables (mem s) pd = set is \<inter> tables (mem s) pd" by auto
    have "load32 (mem s) (pd + 4 * of_nat i) AND PTE_P = 0" using False i(1) by (simp add: tables_def present_def ent_def)
    then have "freevm_tables pd (i # is) s = freevm_tables pd is s" by (simp add: Let_def)
    then show ?thesis using Cons.IH[OF Cons.prems(1-3) i(3,4) Cons.prems(6,7)[unfolded eq]] unfolding eq by simp
  next
    case True
    have t: "page_ok s ?t" "?t \<noteq> pd" "?t \<notin> set xs" using bspec[OF Cons.prems(7), of i] True by simp_all
    from kfree_page[OF Cons.prems(1) t(1,3)] obtain s1 where s1: "kfree ?t s = Ok () s1" "kmem_inv s1 (?t # xs)" "\<forall>x. \<not> in_page ?t x \<longrightarrow> mem s1 x = mem s x"
      "s1 = s\<lparr>mem := mem s1, freelist := freelist s1, mach := mach s1\<rparr>" by (elim exE conjE) (rule that, assumption+)
    have ke: "kend s1 = kend s" by (subst s1(4)) simp
    have po: "page_ok s1 = page_ok s" by (rule page_ok_cong[OF ke])
    have E: "ent (mem s1) pd k = ent (mem s) pd k" if "k < 1024" for k
      using that s1(3) page_disjoint[OF page_okD(1)[OF Cons.prems(2)] page_okD(1)[OF t(1)]] t(2) by (intro ent_cong) metis+
    have tb: "tables (mem s1) pd = tables (mem s) pd" using E by (auto simp: tables_def)
    have tl: "tbl (mem s1) pd k = tbl (mem s) pd k" if "k \<in> set is \<inter> tables (mem s) pd" for k using E that by (simp add: tables_def tbl_def)
    have "load32 (mem s) (pd + 4 * of_nat i) AND PTE_P \<noteq> 0" using True by (simp add: tables_def present_def ent_def)
    then have loop: "freevm_tables pd (i # is) s = freevm_tables pd is s1" using s1(1) by (simp add: Let_def tbl_def ent_def)
    have im: "tbl (mem s1) pd ` (set is \<inter> tables (mem s) pd) = tbl (mem s) pd ` (set is \<inter> tables (mem s) pd)" using tl by (intro image_cong) simp_all
    have inj: "inj_on (tbl (mem s1) pd) (set is \<inter> tables (mem s1) pd)"
      unfolding tb by (subst inj_on_cong[OF tl]) (simp_all, rule inj_on_subset[OF Cons.prems(6)], auto)
    have ne: "tbl (mem s) pd k \<noteq> ?t" if "k \<in> set is \<inter> tables (mem s) pd" for k
      using inj_onD[OF Cons.prems(6), of k i] that True i(2) by auto
    have pages: "\<forall>k \<in> set is \<inter> tables (mem s1) pd. page_ok s1 (tbl (mem s1) pd k) \<and> tbl (mem s1) pd k \<notin> insert pd (set (?t # xs))"
    proof
      fix k assume "k \<in> set is \<inter> tables (mem s1) pd"
      then have k: "k \<in> set is \<inter> tables (mem s) pd" by (simp add: tb)
      then show "page_ok s1 (tbl (mem s1) pd k) \<and> tbl (mem s1) pd k \<notin> insert pd (set (?t # xs))"
        using bspec[OF Cons.prems(7), of k] ne[OF k] tl[OF k] by (simp add: po)
    qed
    have pd: "page_ok s1 pd" "pd \<notin> set (?t # xs)" using Cons.prems(2,3) t(2) po by simp_all
    from Cons.IH[OF s1(2) pd i(3,4) inj pages] obtain s' xs' where
      r: "freevm_tables pd is s1 = Ok () s'" "kmem_inv s' xs'" "set xs' = set (?t # xs) \<union> tbl (mem s) pd ` (set is \<inter> tables (mem s) pd)" "kend s' = kend s1"
      "\<forall>x. (\<forall>q \<in> tbl (mem s) pd ` (set is \<inter> tables (mem s) pd). \<not> in_page q x) \<longrightarrow> mem s' x = mem s1 x"
      unfolding tb im by (elim exE conjE) (rule that, assumption+)
    have "set xs' = set xs \<union> tbl (mem s) pd ` (set (i # is) \<inter> tables (mem s) pd)" using r(3) True by auto
    moreover have "mem s' x = mem s x" if "\<forall>q \<in> tbl (mem s) pd ` (set (i # is) \<inter> tables (mem s) pd). \<not> in_page q x" for x
      using r(5) s1(3) that True by simp
    ultimately show ?thesis unfolding loop using r(1,2,4) ke by (intro exI[of _ s'] exI[of _ xs']) simp
  qed
qed

lemma freevm_ok:
  assumes sp: "space_ok s xs pd"
  shows "\<exists>s' xs'. freevm pd s = Ok () s' \<and> kmem_inv s' xs' \<and> set xs' = set xs \<union> pages_of (mem s) pd \<and> kend s' = kend s
     \<and> (\<forall>x. (\<forall>q \<in> pages_of (mem s) pd. \<not> in_page q x) \<longrightarrow> mem s' x = mem s x)"
proof -
  have ol: "\<forall>i. i < (0x80000 :: nat) \<longleftrightarrow> 4096 * i < unat KERNBASE" by auto
  have z: "unat (0 :: addr) = 4096 * 0" by simp
  obtain s1 xs1 where s1: "deallocuvm_loop pd 0 KERNBASE s = Ok () s1" "space_ok s1 xs1 pd" "set xs1 = set xs \<union> frames (mem s) pd 0 0x80000"
     "tables (mem s1) pd = tables (mem s) pd" "tbl (mem s1) pd ` tables (mem s) pd = tbl (mem s) pd ` tables (mem s) pd"
     "\<forall>x. (\<forall>q \<in> tbl (mem s) pd ` tables (mem s) pd \<union> frames (mem s) pd 0 0x80000. \<not> in_page q x) \<longrightarrow> mem s1 x = mem s x"
     "s1 = s\<lparr>mem := mem s1, freelist := freelist s1, mach := mach s1\<rparr>"
    using deallocuvm_loop_ok[OF sp ol order_refl z] by (elim exE conjE) (rule that, assumption+)
  have de: "deallocuvm pd KERNBASE 0 s = Ok 0 s1" using s1(1) by (simp add: deallocuvm_def PGROUNDUP_def)
  have pt: "pt_ok s1 xs1 pd" using s1(2) by (simp add: space_ok_def)
  note D = pt_okD[OF pt]
  have ts: "set [0..<1024] \<inter> tables (mem s1) pd = tables (mem s1) pd" by (auto simp: tables_def)
  have tp: "\<forall>i \<in> set [0..<1024] \<inter> tables (mem s1) pd. page_ok s1 (tbl (mem s1) pd i) \<and> tbl (mem s1) pd i \<notin> insert pd (set xs1)"
    unfolding ts using D(5-7) by blast
  have rg: "\<forall>i \<in> set [0..<1024]. i < (1024 :: nat)" by simp
  have inj: "inj_on (tbl (mem s1) pd) (set [0..<1024] \<inter> tables (mem s1) pd)" unfolding ts by (rule D(4))
  obtain s2 xs2 where s2: "freevm_tables pd [0..<1024] s1 = Ok () s2" "kmem_inv s2 xs2" "set xs2 = set xs1 \<union> tbl (mem s1) pd ` tables (mem s1) pd" "kend s2 = kend s1"
     "\<forall>x. (\<forall>q \<in> tbl (mem s1) pd ` tables (mem s1) pd. \<not> in_page q x) \<longrightarrow> mem s2 x = mem s1 x"
    using freevm_tables_ok[OF D(1,2,3) distinct_upt rg inj tp] unfolding ts by (elim exE conjE) (rule that, assumption+)
  have pd: "page_ok s2 pd" "pd \<notin> set xs2" using D(2,3) page_ok_cong[OF s2(4)] s2(3) by (auto dest: D(6)[OF _, symmetric])
  obtain s' where s': "kfree pd s2 = Ok () s'" "kmem_inv s' (pd # xs2)" "\<forall>x. \<not> in_page pd x \<longrightarrow> mem s' x = mem s2 x"
     "s' = s2\<lparr>mem := mem s', freelist := freelist s', mach := mach s'\<rparr>" using kfree_page[OF s2(2) pd] by blast
  have "set (pd # xs2) = set xs \<union> pages_of (mem s) pd" using s2(3) s1(3,4,5) by (auto simp: pages_of_def)
  moreover have "freevm pd s = Ok () s'" using de s2(1) s'(1) page_okD(3)[OF D(2)] by (simp add: freevm_def)
  moreover have "kend s' = kend s" by (subst s'(4), simp add: s2(4), subst s1(7), simp)
  moreover have "mem s' x = mem s x" if "\<forall>q \<in> pages_of (mem s) pd. \<not> in_page q x" for x
    using that s'(3) s2(5) s1(6) by (simp add: pages_of_def s1(4,5) ball_Un)
  ultimately show ?thesis using s'(2) by (intro exI[of _ s'] exI[of _ "pd # xs2"] conjI allI impI) simp_all
qed

lemma space_grow:
  assumes sp: "space_ok s xs pd" and pt: "pt_ok s' xs' pd" and ft: "foot s' xs' pd \<subseteq> foot s xs pd" and ke: "kend s' = kend s"
    and inj: "inj_on g {j..<n}" and new: "\<forall>i \<in> {j..<n}. g i \<in> set xs \<and> g i \<notin> foot s' xs' pd"
    and vm: "\<forall>va. unat va div 4096 \<in> {j..<n} \<longrightarrow> (\<exists>e. vmap (mem s') pd va = Some e \<and> P2V (PTE_ADDR e) = g (unat va div 4096))"
    and old: "\<forall>va. unat va div 4096 \<notin> {j..<n} \<longrightarrow> vmap (mem s') pd va = vmap (mem s) pd va"
  shows "space_ok s' xs' pd"
proof -
  have po: "page_ok s' = page_ok s" by (rule page_ok_cong[OF ke])
  have sf: "set xs \<subseteq> foot s xs pd" by (auto simp: foot_def)
  have pt0: "pt_ok s xs pd" using sp by (simp add: space_ok_def)
  have F: "(unat va div 4096 \<in> {j..<n} \<and> P2V (PTE_ADDR e) = g (unat va div 4096)) \<or> (unat va div 4096 \<notin> {j..<n} \<and> vmap (mem s) pd va = Some e)"
    if "vmap (mem s') pd va = Some e" for va e
    using that spec[OF vm, of va] spec[OF old, of va] by (cases "unat va div 4096 \<in> {j..<n}") auto
  show ?thesis unfolding space_ok_def ke po
  proof (intro conjI allI impI)
    show "pt_ok s' xs' pd" by (rule pt)
    show "KERNBASE < kend s" using sp by (simp add: space_ok_def)
    fix va e assume H: "unat va < 0x80000000 \<and> vmap (mem s') pd va = Some e"
    show "page_ok s (P2V (PTE_ADDR e))" using F[of va e] H new pt_okD(11)[OF pt0] space_okD(1)[OF sp, of va e] by auto
    show "P2V (PTE_ADDR e) \<notin> foot s' xs' pd" using F[of va e] H new space_okD(2)[OF sp, of va e] ft by auto
  next
    fix va vb e f
    assume H: "unat va < 0x80000000 \<and> unat vb < 0x80000000 \<and> vmap (mem s') pd va = Some e \<and> vmap (mem s') pd vb = Some f \<and> PTE_ADDR e = PTE_ADDR f"
    have N: "P2V (PTE_ADDR e) \<notin> set xs" if "vmap (mem s) pd v = Some e" "unat v < 0x80000000" for v e using space_okD(2)[OF sp that(2,1)] sf by blast
    show "unat va div 4096 = unat vb div 4096"
    proof (cases "unat va div 4096 \<in> {j..<n}")
      case True
      then have "P2V (PTE_ADDR e) \<in> set xs" using F[of va e] H new by auto
      then have b: "unat vb div 4096 \<in> {j..<n}" "P2V (PTE_ADDR e) = g (unat vb div 4096)" using F[of vb f] H N[of vb f] by auto
      then have "g (unat va div 4096) = g (unat vb div 4096)" using F[of va e] H True by auto
      then show ?thesis using inj_onD[OF inj] True b(1) by blast
    next
      case False
      then have a: "vmap (mem s) pd va = Some e" using F[of va e] H by blast
      then have "P2V (PTE_ADDR f) \<notin> set xs" using N[of va e] H by simp
      then have "vmap (mem s) pd vb = Some f" using F[of vb f] H new by auto
      then show ?thesis using space_okD(4)[OF sp _ a, of vb f] H by simp
    qed
  qed
qed

text \<open>Operations on other pages leave an address space as it is.\<close>

lemma space_keep:
  assumes sp: "space_ok s xs p" and km: "kmem_inv s' ys" and ys: "set ys \<subseteq> set xs" and ke: "kend s' = kend s"
    and off: "\<forall>x. (\<forall>q \<in> set xs. \<not> in_page q x) \<longrightarrow> mem s' x = mem s x"
  shows "space_ok s' ys p" "vmap (mem s') p = vmap (mem s) p" "pages_of (mem s') p = pages_of (mem s) p"
    "unat va < 0x80000000 \<Longrightarrow> vmap (mem s) p va = Some e \<Longrightarrow> in_page (P2V (PTE_ADDR e)) x \<Longrightarrow> mem s' x = mem s x"
proof -
  have pt: "pt_ok s xs p" using sp by (simp add: space_ok_def)
  note D = pt_okD[OF pt]
  have po: "page_ok s' = page_ok s" by (rule page_ok_cong[OF ke])
  have al: "q mod PGSIZE = 0" if "q \<in> set xs" for q using page_okD(1)[OF D(11)[OF that]] .
  have K: "mem s' x = mem s x" if "q mod PGSIZE = 0" "q \<notin> set xs" "in_page q x" for q x
    using off page_disjoint[OF al that(1) _ that(3)] that(2) by blast
  have E: "ent (mem s') q i = ent (mem s) q i" if "q mod PGSIZE = 0" "q \<notin> set xs" "i < 1024" for q i
    by (rule ent_cong[OF that(3)]) (use K[OF that(1,2)] in blast)
  have EP: "ent (mem s') p i = ent (mem s) p i" if "i < 1024" for i by (rule E[OF page_okD(1)[OF D(2)] D(3) that])
  have tb: "tables (mem s') p = tables (mem s) p" using EP by (auto simp: tables_def)
  have tl: "tbl (mem s') p i = tbl (mem s) p i" if "i \<in> tables (mem s) p" for i using EP that by (simp add: tables_def tbl_def)
  have v: "vmap (mem s') p va = vmap (mem s) p va" for va
  proof (cases "pdx va \<in> tables (mem s) p")
    case True
    have "ent (mem s') (tbl (mem s) p (pdx va)) (ptx va) = ent (mem s) (tbl (mem s) p (pdx va)) (ptx va)"
      by (rule E[OF page_okD(1)[OF D(5)[OF True]] D(7)[OF True] px_less(2)])
    then show ?thesis by (simp add: vmap_def tb tl[OF True])
  qed (simp add: vmap_def tb)
  then show vm: "vmap (mem s') p = vmap (mem s) p" ..
  show "pages_of (mem s') p = pages_of (mem s) p" using tl by (simp add: pages_of_def frames_def vm tb)
  have im: "tbl (mem s') p ` tables (mem s) p = tbl (mem s) p ` tables (mem s) p" using tl by (intro image_cong) simp_all
  have ft: "foot s' ys p \<subseteq> foot s xs p" using ys by (auto simp: foot_def tb im)
  have inj: "inj_on (tbl (mem s') p) (tables (mem s) p)" using D(4) tl by (simp add: inj_on_def)
  have "ent (mem s') p i AND (PTE_W OR PTE_U) = PTE_W OR PTE_U" if "i \<in> tables (mem s) p" for i
    using D(8)[OF that] EP that by (simp add: tables_def)
  then have "pt_ok s' ys p" using km D(2,3,5-7) inj tl ys by (auto simp: pt_ok_def tb po)
  then show "space_ok s' ys p" using sp ft unfolding space_ok_def vm po ke by (meson subsetD)
  assume e: "unat va < 0x80000000" "vmap (mem s) p va = Some e" "in_page (P2V (PTE_ADDR e)) x"
  have "P2V (PTE_ADDR e) \<notin> set xs" using space_okD(2)[OF sp e(1,2)] by (simp add: foot_def)
  then show "mem s' x = mem s x" using K[OF page_okD(1)[OF space_okD(1)[OF sp e(1,2)]] _ e(3)] by blast
qed

lemma space_user:
  assumes sp: "space_ok s xs p" and n: "n \<le> 0x80000" and mp: "\<forall>va. unat va < 4096 * n \<longrightarrow> vmap (mem s) p va \<noteq> None"
  shows "user_ok (mem s) p (set xs) 0 n"
proof -
  have pt: "pt_ok s xs p" using sp by (simp add: space_ok_def)
  note D = pt_okD[OF pt]
  have each: "tbl (mem s) p (pdx va) \<noteq> 0 \<and> tbl (mem s) p (pdx va) mod PGSIZE = 0 \<and> tbl (mem s) p (pdx va) \<notin> set xs \<and>
     (\<exists>e. vmap (mem s) p va = Some e \<and> P2V (PTE_ADDR e) mod PGSIZE = 0 \<and> P2V (PTE_ADDR e) \<notin> set xs \<and> unat (P2V (PTE_ADDR e)) + 4096 < 2 ^ 32)"
    if va: "unat va < 4096 * n" for va
  proof -
    obtain e where e: "vmap (mem s) p va = Some e" using mp va by auto
    have lt: "unat va < 0x80000000" using va n by simp
    have i: "pdx va \<in> tables (mem s) p" using e by (auto simp: vmap_def Let_def split: if_splits)
    note S = space_okD[OF sp lt e] and T = D(5)[OF i]
    have "unat (P2V (PTE_ADDR e)) < 0x80000000 + 0xE000000" using page_okD(4)[OF S(1)] by (simp add: P2V_def V2P_def unat_word_ariths)
    then show ?thesis using e page_okD(1)[OF S(1)] S(2) page_okD(1,3)[OF T] D(7)[OF i] by (simp add: foot_def)
  qed
  then show ?thesis using page_okD(1)[OF D(2)] D(3) by (simp add: user_ok_def)
qed

lemma setup_space:
  assumes km: "kmem_inv s (pd # ys)" and d: "data_ok s" and ke: "KERNBASE < kend s" and len: "1024 \<le> length ys"
  shows "\<exists>s' xs'. setupkvm s = Ok pd s' \<and> space_ok s' xs' pd \<and> foot s' xs' pd \<subseteq> insert pd (set ys) \<and> set xs' \<subseteq> set ys
     \<and> (\<forall>x. (\<forall>q \<in> insert pd (set ys). \<not> in_page q x) \<longrightarrow> mem s' x = mem s x) \<and> length xs' + 1024 = length ys + missing s' pd
     \<and> (\<forall>va. vmap (mem s') pd va = seg_map (kmap s) va) \<and> s' = s\<lparr>mem := mem s', freelist := freelist s', mach := mach s'\<rparr>"
proof -
  obtain s' xs' where r: "setupkvm s = Ok pd s'" "pt_ok s' xs' pd" "foot s' xs' pd \<subseteq> insert pd (set ys)" "set xs' \<subseteq> set ys"
     "\<forall>x. (\<forall>q \<in> insert pd (set ys). \<not> in_page q x) \<longrightarrow> mem s' x = mem s x" "length xs' + 1024 = length ys + missing s' pd"
     "\<forall>va. vmap (mem s') pd va = seg_map (kmap s) va" "s' = s\<lparr>mem := mem s', freelist := freelist s', mach := mach s'\<rparr>"
    using setupkvm_fresh[OF km d len] by (elim exE conjE) (rule that, assumption+)
  have "kend s' = kend s" by (subst r(8)) simp
  then have "space_ok s' xs' pd" using r(2,7) kmap_ok(3)[OF d] ke by (simp add: space_ok_def)
  then show ?thesis using r by blast
qed

lemma upto_pages: "\<forall>i. i < (unat len + 4095) div 4096 \<longleftrightarrow> 4096 * i < unat (len :: 32 word)"
  unfolding Suc_le_eq[symmetric] less_eq_div_iff_mult_less_eq[of 4096, simplified] by (auto simp: Suc_le_eq)

lemma page_range: "4096 * j \<le> unat va \<and> unat va < 4096 * n \<longleftrightarrow> unat (va :: addr) div 4096 \<in> {j..<n}"
  by (auto simp: div_less_iff_less_mult less_eq_div_iff_mult_less_eq mult.commute)

lemma user_entry:
  assumes "page_ok s g" shows "P2V (PTE_ADDR (V2P g OR user_perm OR PTE_P)) = g"
  using PTE_parts(1)[OF page_okD(2)[OF assms], of "user_perm OR PTE_P"] by (simp add: or.assoc)

lemma page_offset_nat: "unat (va AND 0xFFF :: addr) = unat va mod 4096"
proof -
  have "va AND 0xFFF = take_bit 12 va" by (simp add: take_bit_eq_mask mask_eq_decr_exp)
  then show ?thesis by (simp add: take_bit_eq_mod unat_mod)
qed

lemma same_frame:
  assumes "p mod PGSIZE = 0" "q mod PGSIZE = 0" "p + (va AND 0xFFF) = q + (vb AND 0xFFF)"
  shows "p = q"
  using page_disjoint[OF assms(1,2), of "p + (va AND 0xFFF)"] in_page_off[of p va] in_page_off[of q vb] assms(3) by simp

lemma allocuvm_ok:
  assumes sp: "space_ok s xs pd" and ord: "oldsz \<le> newsz" "newsz < KERNBASE"
    and j: "j = (unat oldsz + 4095) div 4096" and n: "n = (unat newsz + 4095) div 4096"
    and free: "\<forall>va. 4096 * j \<le> unat va \<and> unat va < 4096 * n \<longrightarrow> vmap (mem s) pd va = None"
    and room: "missing s pd + (n - j) \<le> length xs"
  shows "\<exists>s' xs'. allocuvm pd oldsz newsz s = Ok newsz s' \<and> space_ok s' xs' pd \<and> vm_step (n - j) pd s xs s' xs' \<and> set xs' \<union> pages_of (mem s') pd \<subseteq> set xs \<union> pages_of (mem s) pd
     \<and> (\<forall>va. 4096 * j \<le> unat va \<and> unat va < 4096 * n \<longrightarrow> (\<exists>a. mmu True (s'\<lparr>cr3 := V2P pd\<rparr>) va = Some a \<and> mem s' a = 0))
     \<and> (\<forall>va vb a. 4096 * j \<le> unat va \<and> unat va < 4096 * n \<and> unat vb < 0x80000000 \<and> mmu False (s'\<lparr>cr3 := V2P pd\<rparr>) va = Some a
          \<and> mmu False (s'\<lparr>cr3 := V2P pd\<rparr>) vb = Some a \<longrightarrow> va = vb)
     \<and> (\<forall>va. \<not> (4096 * j \<le> unat va \<and> unat va < 4096 * n) \<longrightarrow> vmap (mem s') pd va = vmap (mem s) pd va)
     \<and> (\<forall>va a. unat va < 0x80000000 \<and> mmu False (s\<lparr>cr3 := V2P pd\<rparr>) va = Some a \<longrightarrow> mem s' a = mem s a)"
proof -
  have pt: "pt_ok s xs pd" using sp by (simp add: space_ok_def)
  have pal: "pd mod PGSIZE = 0" by (rule page_okD(1)[OF pt_okD(2)[OF pt]])
  have un: "unat oldsz \<le> unat newsz" "unat newsz < 0x80000000" using ord by (simp_all add: word_le_nat_alt word_less_nat_alt)
  have jn: "j \<le> n" "n \<le> 0x80000" using un by (simp_all add: j n div_le_mono)
  have nl: "\<forall>i. i < n \<longleftrightarrow> 4096 * i < unat newsz" unfolding n by (rule upto_pages)
  have a0: "unat (PGROUNDUP oldsz) = 4096 * j" using PGROUNDUP_nat[of oldsz] un by (simp add: j)
  have jk: "j + (n - j) = n" using jn by simp
  have fr: "\<forall>va. j \<le> unat va div 4096 \<and> unat va div 4096 < n \<longrightarrow> vmap (mem s) pd va = None" using free unfolding page_range by simp
  obtain s' xs' g where r: "allocuvm_loop pd (PGROUNDUP oldsz) oldsz newsz s = Ok newsz s'" "vm_step (n - j) pd s xs s' xs'" "inj_on g {j..<n}"
     "\<forall>i \<in> {j..<n}. g i \<in> set xs \<and> g i \<notin> foot s' xs' pd \<and> page_ok s (g i) \<and> (\<forall>x. in_page (g i) x \<longrightarrow> mem s' x = 0)
          \<and> (\<forall>va. unat va div 4096 = i \<longrightarrow> vmap (mem s') pd va = Some (V2P (g i) OR user_perm OR PTE_P))"
     "\<forall>va. unat va div 4096 \<notin> {j..<n} \<longrightarrow> vmap (mem s') pd va = vmap (mem s) pd va"
    using allocuvm_loop_ok[where oldsz = oldsz, OF pt room jk jn(2) nl fr a0] by (elim exE conjE) (rule that, assumption+)
  note st = vm_stepD[OF r(2)]
  have ke: "kend s' = kend s" by (subst st(6)) simp
  have po: "page_ok s' = page_ok s" by (rule page_ok_cong[OF ke])
  have new: "vmap (mem s') pd va = Some (V2P (g (unat va div 4096)) OR user_perm OR PTE_P)" "page_ok s (g (unat va div 4096))"
    if "unat va div 4096 \<in> {j..<n}" for va using bspec[OF r(4) that] by blast+
  have vm: "\<forall>va. unat va div 4096 \<in> {j..<n} \<longrightarrow> (\<exists>e. vmap (mem s') pd va = Some e \<and> P2V (PTE_ADDR e) = g (unat va div 4096))"
    using new user_entry by blast
  have pg: "\<forall>i \<in> {j..<n}. g i \<in> set xs \<and> g i \<notin> foot s' xs' pd" using r(4) by blast
  have own: "set xs' \<union> pages_of (mem s') pd \<subseteq> set xs \<union> pages_of (mem s) pd"
  proof -
    have "frames (mem s') pd 0 0x80000 \<subseteq> set xs \<union> frames (mem s) pd 0 0x80000"
    proof
      fix x assume "x \<in> frames (mem s') pd 0 0x80000"
      then obtain va e where v: "x = P2V (PTE_ADDR e)" "0 \<le> unat va div 4096" "unat va div 4096 < 0x80000" "vmap (mem s') pd va = Some e" by (rule framesE)
      show "x \<in> set xs \<union> frames (mem s) pd 0 0x80000"
      proof (cases "unat va div 4096 \<in> {j..<n}")
        case True
        then show ?thesis using spec[OF vm, of va] bspec[OF pg True] v(1,4) by auto
      next
        case False
        then have "vmap (mem s) pd va = Some e" using r(5) v(4) by simp
        then show ?thesis using framesI[OF v(2,3)] v(1) by simp
      qed
    qed
    moreover have "set xs' \<union> pages_of (mem s') pd = foot s' xs' pd \<union> frames (mem s') pd 0 0x80000" "set xs \<union> pages_of (mem s) pd = foot s xs pd \<union> frames (mem s) pd 0 0x80000"
      by (auto simp: pages_of_def foot_def)
    moreover have "set xs \<subseteq> foot s xs pd" by (auto simp: foot_def)
    ultimately show ?thesis using st(2) by blast
  qed
  have sp': "space_ok s' xs' pd" by (rule space_grow[OF sp st(1,2) ke r(3) pg vm r(5)])
  have w: "\<exists>a. mmu True (s'\<lparr>cr3 := V2P pd\<rparr>) va = Some a \<and> mem s' a = 0" if "unat va div 4096 \<in> {j..<n}" for va
    using mmu_write[OF st(1) new(1)[OF that]] new(2)[OF that] bspec[OF r(4) that] in_page_off by (auto simp: po)
  have dis: "va = vb" if H: "unat va div 4096 \<in> {j..<n}" "unat vb < 0x80000000" "mmu False (s'\<lparr>cr3 := V2P pd\<rparr>) va = Some a" "mmu False (s'\<lparr>cr3 := V2P pd\<rparr>) vb = Some a"
    for va vb a
  proof -
    have va: "unat va < 0x80000000" using H(1) jn(2) by (simp add: div_less_iff_less_mult)
    obtain e f where ef: "vmap (mem s') pd va = Some e" "vmap (mem s') pd vb = Some f" "P2V (PTE_ADDR e) + (va AND 0xFFF) = a" "P2V (PTE_ADDR f) + (vb AND 0xFFF) = a"
      using H(3,4) by (auto simp: mmu_vmap[OF pal])
    have eq: "P2V (PTE_ADDR e) = P2V (PTE_ADDR f)"
      using same_frame[OF page_okD(1)[OF space_okD(1)[OF sp' va ef(1)]] page_okD(1)[OF space_okD(1)[OF sp' H(2) ef(2)]], of va vb] ef(3,4) by simp
    then have "unat va div 4096 = unat vb div 4096" using space_okD(4)[OF sp' va ef(1) H(2) ef(2)] by (simp add: P2V_def)
    moreover have "va AND 0xFFF = vb AND 0xFFF" using ef(3) ef(4)[symmetric] unfolding eq by simp
    then have "unat va mod 4096 = unat vb mod 4096" using page_offset_nat[of va] page_offset_nat[of vb] by simp
    ultimately have "unat va = unat vb" by (metis div_mult_mod_eq)
    then show ?thesis by (simp add: word_unat_eq_iff)
  qed
  have keep: "mem s' a = mem s a" if H: "unat va < 0x80000000" "mmu False (s\<lparr>cr3 := V2P pd\<rparr>) va = Some a" for va a
  proof -
    obtain e where e: "vmap (mem s) pd va = Some e" "a = P2V (PTE_ADDR e) + (va AND 0xFFF)" using H(2) by (auto simp: mmu_vmap[OF pal])
    note S = space_okD[OF sp H(1) e(1)]
    show ?thesis unfolding e(2) by (rule st(4)[OF off_page[OF pt page_okD(1)[OF S(1)] S(2) in_page_off]])
  qed
  have top: "allocuvm pd oldsz newsz s = Ok newsz s'" using r(1) un by (simp add: allocuvm_def word_le_nat_alt word_less_nat_alt)
  show ?thesis unfolding page_range conj_assoc[symmetric]
  proof (rule exI[of _ s'], rule exI[of _ xs'], intro conjI allI impI)
  qed (use top sp' r(2) own w dis r(5) keep page_range in blast)+
qed

section \<open>Copying an address space, and giving it back\<close>

lemma frames_image:
  assumes n: "n \<le> k" "k \<le> 0x80000" and m: "\<forall>va. unat va div 4096 \<in> {0..<n} \<longrightarrow> (\<exists>e. vmap m pd va = Some e \<and> P2V (PTE_ADDR e) = g (unat va div 4096))"
    and z: "\<forall>va. unat va div 4096 \<notin> {0..<n} \<and> unat va div 4096 < k \<longrightarrow> vmap m pd va = None"
  shows "frames m pd 0 k = g ` {0..<n}"
proof (intro equalityI subsetI)
  fix x assume "x \<in> frames m pd 0 k"
  then obtain va e where v: "x = P2V (PTE_ADDR e)" "unat va div 4096 < k" "vmap m pd va = Some e" by (rule framesE)
  then have "unat va div 4096 \<in> {0..<n}" using spec[OF z, of va] by (cases "unat va div 4096 \<in> {0..<n}") simp_all
  then show "x \<in> g ` {0..<n}" using spec[OF m, of va] v(1,3) by auto
next
  fix x assume "x \<in> g ` {0..<n}"
  then obtain i where i: "x = g i" "i < n" by auto
  let ?va = "of_nat (4096 * i) :: addr"
  have u: "unat ?va div 4096 = i" using i(2) n by (subst unat_of_nat32) simp_all
  then obtain e where e: "vmap m pd ?va = Some e" "P2V (PTE_ADDR e) = g i" using spec[OF m, of ?va] i(2) by auto
  then show "x \<in> frames m pd 0 k" using framesI[of 0 ?va k m pd e] u i n(1) by simp
qed

lemma pages_count:
  assumes sp: "space_ok s xs pd" and fr: "frames (mem s) pd 0 0x80000 = g ` {0..<n}" and inj: "inj_on g {0..<n}"
  shows "card (set xs \<union> pages_of (mem s) pd) + missing s pd = length xs + 1025 + n"
proof -
  have pt: "pt_ok s xs pd" using sp by (simp add: space_ok_def)
  note D = pt_okD[OF pt]
  let ?T = "tables (mem s) pd" and ?F = "frames (mem s) pd 0 0x80000"
  have T: "finite ?T" "?T \<subseteq> {..<1024}" by (auto simp: tables_def)
  have ct: "card (tbl (mem s) pd ` ?T) = card ?T" by (rule card_image[OF D(4)])
  have cf: "card ?F = n" "finite ?F" using card_image[OF inj] by (simp_all add: fr)
  have ff: "?F \<inter> foot s xs pd = {}"
  proof (intro equals0I)
    fix x assume x: "x \<in> ?F \<inter> foot s xs pd"
    then obtain va e where v: "x = P2V (PTE_ADDR e)" "unat va div 4096 < 0x80000" "vmap (mem s) pd va = Some e" by (auto elim: framesE)
    then have "unat va < 0x80000000" by (simp add: div_less_iff_less_mult)
    then show False using space_okD(2)[OF sp _ v(3)] x v(1) by simp
  qed
  have eq: "set xs \<union> pages_of (mem s) pd = foot s xs pd \<union> ?F" by (auto simp: pages_of_def foot_def)
  have "card (foot s xs pd) = 1 + length xs + card ?T"
  proof -
    have "set xs \<inter> tbl (mem s) pd ` ?T = {}" using D(7) by blast
    then have "card (set xs \<union> tbl (mem s) pd ` ?T) = length xs + card ?T" using ct T(1) distinct_card[OF D(12)] by (simp add: card_Un_disjoint)
    moreover have "pd \<notin> set xs \<union> tbl (mem s) pd ` ?T" using D(3) by (auto dest: D(6)[OF _, symmetric])
    ultimately show ?thesis using T(1) by (simp add: foot_def)
  qed
  moreover have "missing s pd + card ?T = 1024" using card_Diff_subset[OF T] card_mono[OF _ T(2)] by (simp add: missing_def)
  moreover have "card (foot s xs pd \<union> ?F) = card (foot s xs pd) + n"
    using ff cf T(1) by (subst card_Un_disjoint) (auto simp: foot_def)
  ultimately show ?thesis unfolding eq by simp
qed

text \<open>What \<open>copyuvm\<close> does, with an account of the pages: the free pages and those of the copy are the pages that were free.\<close>

lemma copyuvm_ok:
  assumes sp: "space_ok s xs p" and d: "data_ok s" and len: "unat len \<le> 0x80000000" and n: "n = (unat len + 4095) div 4096"
    and mp: "\<forall>va. unat va < 4096 * n \<longrightarrow> vmap (mem s) p va \<noteq> None" and room: "1025 + n \<le> length xs"
  shows "\<exists>d s' xs' g. copyuvm p len s = Ok d s' \<and> space_ok s' xs' d \<and> set xs = set xs' \<union> pages_of (mem s') d
     \<and> (\<forall>x. (\<forall>q \<in> set xs. \<not> in_page q x) \<longrightarrow> mem s' x = mem s x)
     \<and> (\<forall>va. unat va < 4096 * n \<longrightarrow> (\<exists>e. vmap (mem s) p va = Some e \<and> vmap (mem s') d va = Some (V2P (g (unat va div 4096)) OR PTE_FLAGS e OR PTE_P)
           \<and> g (unat va div 4096) \<in> set xs \<and> P2V (PTE_ADDR (V2P (g (unat va div 4096)) OR PTE_FLAGS e OR PTE_P)) = g (unat va div 4096)
           \<and> mem s' (g (unat va div 4096) + (va AND 0xFFF)) = mem s (P2V (PTE_ADDR e) + (va AND 0xFFF))))
     \<and> (\<forall>va. 4096 * n \<le> unat va \<longrightarrow> vmap (mem s') d va = seg_map (kmap s) va) \<and> s' = s\<lparr>mem := mem s', freelist := freelist s', mach := mach s'\<rparr>"
proof -
  have n80: "n \<le> 0x80000" using len by (simp add: n)
  have u: "user_ok (mem s) p (set xs) 0 n" by (rule space_user[OF sp n80 mp])
  have km: "kmem_inv s xs" and kb: "KERNBASE < kend s" using sp by (simp_all add: space_ok_def pt_ok_def)
  obtain d ys where xs: "xs = d # ys" using room by (cases xs) auto
  have sx: "set xs = insert d (set ys)" by (simp add: xs)
  have ly: "1024 \<le> length ys" "1024 + n \<le> length ys" using room by (simp_all add: xs)
  obtain s1 zs where s1: "setupkvm s = Ok d s1" "space_ok s1 zs d" "foot s1 zs d \<subseteq> set xs" "set zs \<subseteq> set ys"
     "\<forall>x. (\<forall>q \<in> set xs. \<not> in_page q x) \<longrightarrow> mem s1 x = mem s x" "length zs + 1024 = length ys + missing s1 d"
     "\<forall>va. vmap (mem s1) d va = seg_map (kmap s) va" "s1 = s\<lparr>mem := mem s1, freelist := freelist s1, mach := mach s1\<rparr>"
    using setup_space[OF km[unfolded xs] d kb ly(1), folded sx] by (elim exE conjE) (rule that, assumption+)
  have pt1: "pt_ok s1 zs d" using s1(2) by (simp add: space_ok_def)
  have alx: "\<forall>q \<in> set xs. q mod PGSIZE = 0" using km page_okD(1) by (auto simp: kmem_inv_def list_all_iff)
  have dal: "d mod PGSIZE = 0" "d \<noteq> 0" using page_okD(1,3)[OF pt_okD(2)[OF pt1]] .
  note uc = user_ok_cong[OF u alx s1(5)]
  have u1: "user_ok (mem s1) p (foot s1 zs d) 0 n" by (rule user_ok_mono[OF uc(2) s1(3)]) simp
  have nl: "\<forall>i. i < n \<longleftrightarrow> 4096 * i < unat len" unfolding n by (rule upto_pages)
  have low: "vmap (mem s1) d va = None" if "unat va div 4096 < 0x80000" for va
    using s1(7) kmap_ok(3)[OF d, of va] that by (simp add: div_less_iff_less_mult)
  have fr: "\<forall>va. 0 \<le> unat va div 4096 \<and> unat va div 4096 < n \<longrightarrow> vmap (mem s1) d va = None" using low n80 by simp
  have r1: "missing s1 d + n \<le> length zs" using s1(6) ly(2) by simp
  have z: "unat (0 :: addr) = 4096 * 0" "0 + n = n" by simp_all
  obtain s' xs' g where c: "copyuvm_loop p d 0 len s1 = Ok d s'" "vm_step n d s1 zs s' xs'" "inj_on g {0..<n}"
     "\<forall>i \<in> {0..<n}. g i \<in> set zs \<and> g i \<notin> foot s' xs' d \<and> copy_of (mem s1) p (mem s') d i (g i)"
     "\<forall>va. unat va div 4096 \<notin> {0..<n} \<longrightarrow> vmap (mem s') d va = vmap (mem s1) d va"
    using copyuvm_loop_ok[OF pt1 r1 z(2) n80 nl u1 fr z(1)] by (elim exE conjE) (rule that, assumption+)
  note st = vm_stepD[OF c(2)]
  have off: "\<forall>x. (\<forall>q \<in> set xs. \<not> in_page q x) \<longrightarrow> mem s' x = mem s x" using s1(3,5) st(4) by (metis subsetD)
  have each: "\<exists>e. vmap (mem s) p va = Some e \<and> vmap (mem s') d va = Some (V2P (g (unat va div 4096)) OR PTE_FLAGS e OR PTE_P)
           \<and> g (unat va div 4096) \<in> set xs \<and> P2V (PTE_ADDR (V2P (g (unat va div 4096)) OR PTE_FLAGS e OR PTE_P)) = g (unat va div 4096)
           \<and> mem s' (g (unat va div 4096) + (va AND 0xFFF)) = mem s (P2V (PTE_ADDR e) + (va AND 0xFFF))" if va: "unat va < 4096 * n" for va
  proof -
    let ?i = "unat va div 4096"
    have zl: "4096 * 0 \<le> unat va" by simp
    have i: "?i \<in> {0..<n}" using va by (simp add: div_less_iff_less_mult mult.commute)
    obtain e where e: "vmap (mem s) p va = Some e" "P2V (PTE_ADDR e) mod PGSIZE = 0" "P2V (PTE_ADDR e) \<notin> set xs"
      using user_okD[OF u zl va] by (elim exE conjE) (rule that, assumption+)
    have v: "vmap (mem s1) p va = Some e" using uc(1)[of va] va e(1) by simp
    have gi: "g ?i \<in> set zs" "copy_of (mem s1) p (mem s') d ?i (g ?i)" using c(4) i by blast+
    then have cp: "vmap (mem s') d va = Some (V2P (g ?i) OR PTE_FLAGS e OR PTE_P)" "\<forall>k < 4096. mem s' (g ?i + of_nat k) = mem s1 (P2V (PTE_ADDR e) + of_nat k)"
      using v(1) unfolding copy_of_def by fastforce+
    have gp: "page_ok s1 (g ?i)" "g ?i \<in> set xs" using pt_okD(11)[OF pt1 gi(1)] gi(1) s1(4) by (auto simp: xs)
    have pe: "present e" using e(1) by (auto simp: vmap_def Let_def split: if_splits)
    have "mem s' (g ?i + of_nat (unat (va AND 0xFFF))) = mem s1 (P2V (PTE_ADDR e) + of_nat (unat (va AND 0xFFF)))"
      using cp(2) page_offset_less[of va] by blast
    moreover have "mem s1 (P2V (PTE_ADDR e) + (va AND 0xFFF)) = mem s (P2V (PTE_ADDR e) + (va AND 0xFFF))"
      using s1(5) page_disjoint[OF _ e(2) _ in_page_off] alx e(3) by blast
    ultimately show ?thesis using e(1) cp(1) copy_entry[OF gp(1) pe] gp(2) by simp
  qed
  have gv: "\<forall>va. unat va div 4096 \<in> {0..<n} \<longrightarrow> (\<exists>e. vmap (mem s') d va = Some e \<and> P2V (PTE_ADDR e) = g (unat va div 4096))"
    using each page_range[of 0 _ n] by fastforce
  have gn: "\<forall>i \<in> {0..<n}. g i \<in> set zs \<and> g i \<notin> foot s' xs' d" using c(4) by blast
  have ke: "kend s' = kend s1" by (subst st(6)) simp
  have sp': "space_ok s' xs' d" by (rule space_grow[OF s1(2) st(1,2) ke c(3) gn gv c(5)])
  have fi: "frames (mem s') d 0 0x80000 = g ` {0..<n}"
    by (rule frames_image[OF n80 order_refl gv]) (use c(5) low in simp)
  have "foot s' xs' d \<subseteq> set xs" using s1(3) st(2) by (rule order_trans[rotated])
  moreover have "g ` {0..<n} \<subseteq> set xs" using gn s1(4) by (auto simp: sx)
  ultimately have "set xs' \<union> pages_of (mem s') d \<subseteq> set xs" unfolding pages_of_def fi foot_def by blast
  moreover have "card (set xs' \<union> pages_of (mem s') d) = card (set xs)"
  proof -
    have "card (set xs) = length xs" using km distinct_card unfolding kmem_inv_def by blast
    then show ?thesis using pages_count[OF sp' fi c(3)] st(5) s1(6) by (simp add: xs)
  qed
  ultimately have acc: "set xs = set xs' \<union> pages_of (mem s') d" using card_subset_eq[OF finite_set] by metis
  have top: "copyuvm p len s = Ok d s'" using s1(1) c(1) dal(2) by (simp add: copyuvm_def)
  have hi: "\<forall>va. 4096 * n \<le> unat va \<longrightarrow> vmap (mem s') d va = seg_map (kmap s) va"
    using c(5) s1(7) by (simp add: div_less_iff_less_mult mult.commute)
  have rc: "s' = s\<lparr>mem := mem s', freelist := freelist s', mach := mach s'\<rparr>" by (subst st(6), subst s1(8)) simp
  show ?thesis by (rule exI[of _ d], rule exI[of _ s'], rule exI[of _ xs'], rule exI[of _ g]) (intro conjI top sp' acc off hi rc allI impI each)
qed

end
