(* ===== verification/Vspace.thy ===== *)
theory Vspace
  imports Vmap Proc_Life
begin

text \<open>
  The memory of a process: \<open>fork\<close>, which copies it, \<open>growproc\<close>, which \<open>sbrk\<close> uses to grow and to shrink it, and \<open>freevm\<close>, with which
  \<open>wait\<close> gives it back.  \<open>process_ok\<close> is the invariant that relates a slot of the process table to its address space.
\<close>

section \<open>The lock state\<close>

text \<open>Started with no lock held, these operations leave the lock state as they found it.\<close>

named_theorems quiet_keep

lemma kalloc_mach [quiet_keep]: "kalloc s = Ok r s' \<Longrightarrow> quiet s \<Longrightarrow> mach s' = mach s"
  using kalloc_ok[of s] quietD[of s] by (auto split: if_splits)

lemma kfree_mach [quiet_keep]: "kfree v s = Ok r s' \<Longrightarrow> quiet s \<Longrightarrow> mach s' = mach s"
proof -
  assume q: "quiet s" and k: "kfree v s = Ok r s'"
  then have "page_ok s v" by (auto simp: kfree_def page_ok_def not_le not_less split: if_splits)
  then show ?thesis using kfree_ok[of s v] quietD[OF q] k by (auto split: if_splits)
qed

lemma quiet_mem [simp]: "quiet (s\<lparr>mem := m\<rparr>) = quiet s"
  by (rule quiet_cong) simp

lemma walkpgdir_mach [quiet_keep]: "walkpgdir pd va al s = Ok r s' \<Longrightarrow> quiet s \<Longrightarrow> mach s' = mach s"
  by (auto simp: walkpgdir_def Let_def ok_iff split: if_splits dest: kalloc_mach)

lemma mappages_loop_mach [quiet_keep]: "mappages_loop pd a l pa perm s = Ok r s' \<Longrightarrow> quiet s \<Longrightarrow> mach s' = mach s"
proof (induction pd a l pa perm s arbitrary: r s' rule: mappages_loop.induct)
  case (1 pd a l pa perm s)
  obtain pte t where w: "walkpgdir pd a True s = Ok pte t" using "1.prems"(1) by (subst (asm) mappages_loop.simps) (auto simp: ok_iff)
  have m: "mach t = mach s" by (rule walkpgdir_mach[OF w "1.prems"(2)])
  then have q: "quiet (t\<lparr>mem := u\<rparr>)" for u using "1.prems"(2) quiet_cong[of t s] by simp
  show ?case using "1.prems"(1) "1.IH"[OF w _ _ refl _ _ _ q] m w
    by (subst (asm) mappages_loop.simps) (auto simp: Let_def split: if_splits)
qed

lemma mappages_mach [quiet_keep]: "mappages pd va n pa perm s = Ok r s' \<Longrightarrow> quiet s \<Longrightarrow> mach s' = mach s"
  unfolding mappages_def by (rule mappages_loop_mach)

lemma deallocuvm_loop_mach [quiet_keep]: "deallocuvm_loop pd a oldsz s = Ok r s' \<Longrightarrow> quiet s \<Longrightarrow> mach s' = mach s"
proof (induction pd a oldsz s arbitrary: r s' rule: deallocuvm_loop.induct)
  case (1 pd a oldsz s)
  show ?case
  proof (cases "a < oldsz")
    case False
    then show ?thesis using "1.prems"(1) by (subst (asm) deallocuvm_loop.simps) auto
  next
    case True
    then obtain pte t u where w: "walkpgdir pd a False s = Ok pte t"
      and k: "(if pte = 0 \<or> load32 (mem t) pte AND PTE_P = 0 then Ok () t
             else let pa = PTE_ADDR (load32 (mem t) pte) in
               if pa = 0 then Panic ''kfree''
               else bnd (kfree (P2V pa) t) (\<lambda>_ s. Ok () (s\<lparr>mem := store32 pte 0 (mem s)\<rparr>))) = Ok () u"
      using "1.prems"(1) by (subst (asm) deallocuvm_loop.simps) (auto simp: ok_iff Let_def)
    have m: "mach t = mach s" by (rule walkpgdir_mach[OF w "1.prems"(2)])
    then have q: "quiet t" using "1.prems"(2) quiet_cong[of t s] by simp
    have "mach u = mach t" using k q by (auto simp: ok_iff Let_def split: if_splits dest: kfree_mach)
    then have u: "mach u = mach s" "quiet u" using m "1.prems"(2) quiet_cong[of u s] by simp_all
    let ?a = "(if pte = 0 then PGADDR (PDX a + 1) 0 0 - PGSIZE else a) + PGSIZE"
    have "deallocuvm_loop pd a oldsz s = (if ?a \<le> a then Spin else deallocuvm_loop pd ?a oldsz u)"
      using True w k by (subst deallocuvm_loop.simps) (simp add: Let_def)
    then have "\<not> ?a \<le> a" "deallocuvm_loop pd ?a oldsz u = Ok r s'" using "1.prems"(1) by (auto split: if_splits)
    then show ?thesis using "1.IH"[OF _ w refl _ _ _ u(2)] True k u(1) by simp
  qed
qed

lemma freevm_tables_mach [quiet_keep]: "freevm_tables pd is s = Ok r s' \<Longrightarrow> quiet s \<Longrightarrow> mach s' = mach s"
proof (induction "is" arbitrary: s)
  case (Cons i "is")
  obtain t where k: "(if load32 (mem s) (pd + 4 * of_nat i) AND PTE_P \<noteq> 0 then kfree (P2V (PTE_ADDR (load32 (mem s) (pd + 4 * of_nat i)))) s else Ok () s) = Ok () t"
     "freevm_tables pd is t = Ok r s'" using Cons.prems(1) by (auto simp: Let_def ok_iff)
  have m: "mach t = mach s" using k(1) Cons.prems(2) by (auto split: if_splits dest: kfree_mach)
  then show ?case using Cons.IH[OF k(2)] Cons.prems(2) quiet_cong[of t s] by simp
qed simp

lemma freevm_mach [quiet_keep]: "freevm pd s = Ok r s' \<Longrightarrow> quiet s \<Longrightarrow> mach s' = mach s"
  by (auto simp: freevm_def deallocuvm_def ok_iff split: if_splits dest!: quiet_keep) (metis quiet_cong kfree_mach freevm_tables_mach deallocuvm_loop_mach)+

lemma setupkvm_loop_mach [quiet_keep]: "setupkvm_loop pd ks s = Ok r s' \<Longrightarrow> quiet s \<Longrightarrow> mach s' = mach s"
proof (induction ks arbitrary: s)
  case (Cons k ks)
  obtain a b c d where k: "k = (a, b, c, d)" by (cases k)
  obtain x t where t: "mappages pd a (c - b) b d s = Ok x t" "(if s_lt x 0 then bnd (freevm pd t) (\<lambda>_ s. Ok 0 s) else setupkvm_loop pd ks t) = Ok r s'"
    using Cons.prems(1) by (auto simp: k ok_iff)
  have m: "mach t = mach s" by (rule mappages_mach[OF t(1) Cons.prems(2)])
  then have q: "quiet t" using Cons.prems(2) quiet_cong[of t s] by simp
  show ?case using t(2) Cons.IH[OF _ q] freevm_mach[OF _ q] m by (auto simp: ok_iff split: if_splits)
qed simp

lemma setupkvm_mach [quiet_keep]: "setupkvm s = Ok r s' \<Longrightarrow> quiet s \<Longrightarrow> mach s' = mach s"
proof -
  assume q: "quiet s" and "setupkvm s = Ok r s'"
  then obtain pd t where t: "kalloc s = Ok pd t" "pd = 0 \<and> s' = t \<or> setupkvm_loop pd (kmap (t\<lparr>mem := memset pd 0 PGSIZE (mem t)\<rparr>)) (t\<lparr>mem := memset pd 0 PGSIZE (mem t)\<rparr>) = Ok r s'"
    by (auto simp: setupkvm_def ok_iff Let_def split: if_splits)
  have m: "mach t = mach s" by (rule kalloc_mach[OF t(1) q])
  then have "quiet t" using q quiet_cong[of t s] by simp
  then show ?thesis using t(2) m setupkvm_loop_mach by fastforce
qed

lemma copyuvm_loop_mach [quiet_keep]: "copyuvm_loop pd d i len s = Ok r s' \<Longrightarrow> quiet s \<Longrightarrow> mach s' = mach s"
proof (induction pd d i len s arbitrary: r s' rule: copyuvm_loop.induct)
  case (1 pd d i len s)
  note q = "1.prems"(2)
  show ?case
  proof (cases "i < len")
    case False
    then show ?thesis using "1.prems"(1) by (subst (asm) copyuvm_loop.simps) auto
  next
    case True
    then obtain pte t where w: "walkpgdir pd i False s = Ok pte t" "pte \<noteq> 0" "load32 (mem t) pte AND PTE_P \<noteq> 0"
      using "1.prems"(1) by (subst (asm) copyuvm_loop.simps) (auto simp: ok_iff Let_def split: if_splits)
    have t: "mach t = mach s" "quiet t" using walkpgdir_mach[OF w(1) q] quiet_cong[of t s] q by simp_all
    obtain pg u where u0: "kalloc t = Ok pg u" using True w "1.prems"(1) by (subst (asm) copyuvm_loop.simps) (auto simp: ok_iff Let_def)
    have u: "mach u = mach s" "quiet u" using kalloc_mach[OF u0 t(2)] t quiet_cong[of u s] q by simp_all
    let ?e = "load32 (mem t) pte"
    let ?u = "u\<lparr>mem := memmove pg (P2V (PTE_ADDR ?e)) PGSIZE (mem u)\<rparr>"
    show ?thesis
    proof (cases "pg = 0")
      case z: True
      then have "bnd (freevm d u) (\<lambda>_ s. Ok 0 s) = Ok r s'" using True w u0 "1.prems"(1) by (subst (asm) copyuvm_loop.simps) (simp add: Let_def)
      then show ?thesis using freevm_mach[OF _ u(2)] u(1) by (auto simp: ok_iff)
    next
      case nz: False
      obtain x v where v: "mappages d i PGSIZE (V2P pg) (PTE_FLAGS ?e) ?u = Ok x v"
        using True w u0 nz "1.prems"(1) by (subst (asm) copyuvm_loop.simps) (auto simp: ok_iff Let_def)
      have vm: "mach v = mach s" "quiet v" using mappages_mach[OF v] u quiet_cong[of v s] q by simp_all
      have e: "(if s_lt x 0 then bnd (kfree pg v) (\<lambda>_ s. bnd (freevm d s) (\<lambda>_ s. Ok 0 s)) else if i + PGSIZE \<le> i then Spin
           else copyuvm_loop pd d (i + PGSIZE) len v) = Ok r s'" using True w u0 nz v "1.prems"(1) by (subst (asm) copyuvm_loop.simps) (simp add: Let_def)
      show ?thesis
      proof (cases "s_lt x 0")
        case True
        then obtain y where y: "kfree pg v = Ok () y" "freevm d y = Ok () s'" using e by (auto simp: ok_iff)
        have "mach y = mach s" using kfree_mach[OF y(1) vm(2)] vm(1) by simp
        then show ?thesis using freevm_mach[OF y(2)] quiet_cong[of y s] q by simp
      next
        case False
        then have "\<not> i + PGSIZE \<le> i" "copyuvm_loop pd d (i + PGSIZE) len v = Ok r s'" using e by (auto split: if_splits)
        then show ?thesis using "1.IH"[OF _ w(1) w(2) refl w(3) u0 nz refl v False _ _ vm(2)] True vm(1) by simp
      qed
    qed
  qed
qed

lemma copyuvm_mach [quiet_keep]: "copyuvm pd len s = Ok r s' \<Longrightarrow> quiet s \<Longrightarrow> mach s' = mach s"
proof -
  assume q: "quiet s" and "copyuvm pd len s = Ok r s'"
  then obtain d t where t: "setupkvm s = Ok d t" "d = 0 \<and> s' = t \<or> copyuvm_loop pd d 0 len t = Ok r s'"
    by (auto simp: copyuvm_def ok_iff split: if_splits)
  have m: "mach t = mach s" by (rule setupkvm_mach[OF t(1) q])
  then have "quiet t" using q quiet_cong[of t s] by simp
  then show ?thesis using t(2) m copyuvm_loop_mach[of pd d 0 len t r s'] by auto
qed

section \<open>fork\<close>

lemma space_cong:
  assumes "space_ok s xs pd" "mem s' = mem s" "freelist s' = freelist s" "kend s' = kend s" "mach_ok (mach s')" "lk_free KmemLk (mach s')"
  shows "space_ok s' xs pd"
proof -
  have "page_ok s' = page_ok s" by (rule page_ok_cong[OF assms(4)])
  then show ?thesis using assms by (simp add: space_ok_def pt_ok_def kmem_inv_def foot_def)
qed

lemma filedup_ok:
  assumes "quiet s" "\<not> s_lt (f_ref (files s ! f)) 1"
  shows "filedup f s = Ok f (upd_file f (\<lambda>k. k\<lparr>f_ref := f_ref k + 1\<rparr>) s)"
proof -
  let ?t = "upd_file f (\<lambda>k. k\<lparr>f_ref := f_ref k + 1\<rparr>) (s\<lparr>mach := hold FtableLk (mach s)\<rparr>)"
  have "krelease FtableLk ?t = Ok () (?t\<lparr>mach := mach s\<rparr>)"
    using quietD[OF assms(1)] by (intro krelease_quiet) (simp_all add: upd_file_def)
  then show ?thesis using assms(2) by (simp add: filedup_def kacquire_quiet[OF assms(1)] upd_file_def)
qed

lemma idup_ok:
  assumes "quiet s"
  shows "idup d s = Ok d (upd_inode d (\<lambda>k. k\<lparr>i_ref := i_ref k + 1\<rparr>) s)"
proof -
  let ?t = "upd_inode d (\<lambda>k. k\<lparr>i_ref := i_ref k + 1\<rparr>) (s\<lparr>mach := hold IcacheLk (mach s)\<rparr>)"
  have "krelease IcacheLk ?t = Ok () (?t\<lparr>mach := mach s\<rparr>)"
    using quietD[OF assms(1)] by (intro krelease_quiet) (simp_all add: upd_inode_def)
  then show ?thesis by (simp add: idup_def kacquire_quiet[OF assms] upd_inode_def)
qed

text \<open>The reference counts after a descriptor table has been duplicated.\<close>

definition dup_refs :: "nat option list \<Rightarrow> kfile list \<Rightarrow> kfile list" where
  "dup_refs os fs = map (\<lambda>f. (fs ! f)\<lparr>f_ref := f_ref (fs ! f) + of_nat (count_list os (Some f))\<rparr>) [0..<length fs]"

lemma dup_refs_Nil [simp]: "dup_refs [] fs = fs"
  by (rule nth_equalityI) (simp_all add: dup_refs_def)

lemma dup_refs_None [simp]: "dup_refs (None # os) fs = dup_refs os fs"
  by (simp add: dup_refs_def)

lemma dup_refs_Some:
  "f < length fs \<Longrightarrow> dup_refs (Some f # os) fs = dup_refs os (fs[f := (fs ! f)\<lparr>f_ref := f_ref (fs ! f) + 1\<rparr>])"
  by (rule nth_equalityI) (simp_all add: dup_refs_def nth_list_update add.assoc)

definition refs_ok :: "nat option list \<Rightarrow> kfile list \<Rightarrow> nat \<Rightarrow> bool" where
  "refs_ok os fs b \<longleftrightarrow> (\<forall>f. Some f \<in> set os \<longrightarrow> f < length fs \<and> 0 < unat (f_ref (fs ! f)) \<and> unat (f_ref (fs ! f)) + b < 2 ^ 31)"

lemma refs_ok_next:
  assumes r: "refs_ok os fs (Suc b)" and f: "Some f \<in> set os"
  shows "\<not> s_lt (f_ref (fs ! f)) 1" "refs_ok os (fs[f := (fs ! f)\<lparr>f_ref := f_ref (fs ! f) + 1\<rparr>]) b"
proof -
  have b: "f < length fs" "0 < unat (f_ref (fs ! f))" "unat (f_ref (fs ! f)) + Suc b < 2 ^ 31" using assms unfolding refs_ok_def by blast+
  have "sint (f_ref (fs ! f)) = int (unat (f_ref (fs ! f)))" using b(3) by (intro sint_eq_unat) simp
  moreover have "sint (1 :: 32 word) = 1" by simp
  ultimately show "\<not> s_lt (f_ref (fs ! f)) 1" unfolding s_lt_def using b(2) by linarith
  have "unat (f_ref (fs ! f) + 1) = unat (f_ref (fs ! f)) + 1" using b(3) by (simp add: unat_word_ariths)
  then show "refs_ok os (fs[f := (fs ! f)\<lparr>f_ref := f_ref (fs ! f) + 1\<rparr>]) b"
    using r b unfolding refs_ok_def by (fastforce simp add: nth_list_update)
qed

lemma fork_files_ok:
  assumes "quiet s" "i \<noteq> np" "i < length (procs s)" "np < length (procs s)"
    "refs_ok (ofile (procs s ! i)) (files s) (length fds)" "\<forall>fd \<in> set fds. fd < length (ofile (procs s ! i))" "distinct fds"
  shows "\<exists>os. fork_files fds i np s = Ok () ((upd_proc np (\<lambda>p. p\<lparr>ofile := os\<rparr>) s)\<lparr>files := dup_refs (map ((!) (ofile (procs s ! i))) fds) (files s)\<rparr>)
     \<and> length os = length (ofile (procs s ! np)) \<and> (\<forall>k < length os. os ! k = (if k \<in> set fds \<and> ofile (procs s ! i) ! k \<noteq> None then ofile (procs s ! i) ! k else ofile (procs s ! np) ! k))"
  using assms
proof (induction fds arbitrary: s)
  case Nil
  then show ?case by (intro exI[of _ "ofile (procs s ! np)"]) (simp add: upd_proc_def)
next
  case (Cons fd fds)
  let ?os = "ofile (procs s ! i)"
  have fd: "fd < length ?os" "fd \<notin> set fds" "distinct fds" "\<forall>fd \<in> set fds. fd < length ?os" using Cons.prems(6,7) by simp_all
  show ?case
  proof (cases "?os ! fd")
    case None
    have "refs_ok ?os (files s) (length fds)" using Cons.prems(5) unfolding refs_ok_def by auto
    from Cons.IH[OF Cons.prems(1-4) this fd(4,3)] obtain os where
      o: "fork_files fds i np s = Ok () ((upd_proc np (\<lambda>p. p\<lparr>ofile := os\<rparr>) s)\<lparr>files := dup_refs (map ((!) ?os) fds) (files s)\<rparr>)"
      "length os = length (ofile (procs s ! np))" "\<forall>k < length os. os ! k = (if k \<in> set fds \<and> ?os ! k \<noteq> None then ?os ! k else ofile (procs s ! np) ! k)" by blast
    then show ?thesis using None by (intro exI[of _ os]) auto
  next
    case (Some f)
    then have f: "Some f \<in> set ?os" using fd(1) by (metis nth_mem)
    note R = refs_ok_next[OF Cons.prems(5)[simplified] f]
    let ?t = "upd_file f (\<lambda>k. k\<lparr>f_ref := f_ref k + 1\<rparr>) s"
    let ?u = "upd_proc np (\<lambda>p. p\<lparr>ofile := (ofile p)[fd := Some f]\<rparr>) ?t"
    have u: "procs ?u ! i = procs s ! i" "length (procs ?u) = length (procs s)" "files ?u = (files s)[f := (files s ! f)\<lparr>f_ref := f_ref (files s ! f) + 1\<rparr>]"
      "mach ?u = mach s" using Cons.prems(2) by (simp_all add: upd_proc_def upd_file_def)
    have un: "ofile (procs ?u ! np) = (ofile (procs s ! np))[fd := Some f]" using Cons.prems(4) by (simp add: upd_proc_def upd_file_def)
    have q: "quiet ?u" using Cons.prems(1) quiet_cong[OF u(4)] by simp
    have fl: "f < length (files s)" using Cons.prems(5) f unfolding refs_ok_def by blast
    have ff: "fork_files (fd # fds) i np s = fork_files fds i np ?u" using Some filedup_ok[OF Cons.prems(1) R(1)] by simp
    obtain os where o: "fork_files fds i np ?u = Ok () ((upd_proc np (\<lambda>p. p\<lparr>ofile := os\<rparr>) ?u)\<lparr>files := dup_refs (map ((!) ?os) fds) (files ?u)\<rparr>)"
      "length os = length (ofile (procs ?u ! np))" "\<forall>k < length os. os ! k = (if k \<in> set fds \<and> ?os ! k \<noteq> None then ?os ! k else ofile (procs ?u ! np) ! k)"
      using Cons.IH[OF q Cons.prems(2), unfolded u(1,2,3), OF Cons.prems(3,4) R(2) fd(4,3)] unfolding u(3) by blast
    have st: "(upd_proc np (\<lambda>p. p\<lparr>ofile := os\<rparr>) ?u)\<lparr>files := dup_refs (map ((!) ?os) fds) (files ?u)\<rparr>
        = (upd_proc np (\<lambda>p. p\<lparr>ofile := os\<rparr>) s)\<lparr>files := dup_refs (map ((!) ?os) (fd # fds)) (files s)\<rparr>"
      using Some Cons.prems(4) dup_refs_Some[OF fl] by (simp add: u(3)) (simp add: upd_proc_def upd_file_def)
    have "os ! k = (if k \<in> set (fd # fds) \<and> ?os ! k \<noteq> None then ?os ! k else ofile (procs s ! np) ! k)" if k: "k < length os" for k
      using spec[OF o(3), of k] k o(2) Some fd(2) unfolding un by (cases "k = fd") auto
    then show ?thesis unfolding ff o(1) st using o(2) unfolding un by (intro exI[of _ os]) simp
  qed
qed

lemma allocproc_space:
  assumes q: "quiet s" and u: "first_idx (\<lambda>p. pstate p = UNUSED) (procs s) = Some np" and sp: "space_ok s (k # ys) pd"
  shows "\<exists>a. allocproc s = Ok (Some np) a \<and> space_ok a ys pd \<and> (\<forall>x. (\<forall>q \<in> set (k # ys). \<not> in_page q x) \<longrightarrow> mem a x = mem s x)
     \<and> a = s\<lparr>mem := mem a, freelist := freelist a, ctxs := (ctxs s)(k + 0xF9C := kcontext0\<lparr>cx_eip := a_forkret s\<rparr>), nextpid := nextpid s + 1,
           procs := (procs s)[np := (procs s ! np)\<lparr>pstate := EMBRYO, pid := nextpid s, kstack := k, tf := k + 0xFB4, ctx := k + 0xF9C\<rparr>]\<rparr>"
proof -
  have np: "np < length (procs s)" using first_idx_SomeD[OF u] by simp
  have pt: "pt_ok s (k # ys) pd" using sp by (simp add: space_ok_def)
  note D = pt_okD[OF pt]
  let ?P = "(procs s ! np)\<lparr>pstate := EMBRYO, pid := nextpid s\<rparr>"
  let ?t = "(upd_proc np (\<lambda>p. p\<lparr>pstate := EMBRYO, pid := nextpid s\<rparr>) s)\<lparr>nextpid := nextpid s + 1\<rparr>"
  have t: "mem ?t = mem s" "freelist ?t = freelist s" "kend ?t = kend s" "mach ?t = mach s" by (simp_all add: upd_proc_def)
  have po: "page_ok ?t = page_ok s" by (rule page_ok_cong[OF t(3)])
  have kt: "kmem_inv ?t (k # ys)" using D(1) unfolding kmem_inv_def t po .
  have k: "freelist s = k" "k \<noteq> 0" "page_ok s k" "k \<notin> set ys" "k mod PGSIZE = 0"
    using D(1) D(11)[of k] page_okD(1,3)[of s k] by (auto simp: kmem_inv_def)
  let ?u = "?t\<lparr>freelist := load32 (mem s) k\<rparr>"
  have ka: "kalloc ?t = Ok k ?u"
    using kalloc_ok[of ?t] quietD[OF q] t k(1,2) by simp
  have ku: "kmem_inv ?u ys" using kalloc_inv[OF kt] unfolding ka by simp
  define a where "a = ?u\<lparr>mem := store32 (k + 0xFB0) (a_trapret s) (mem s),
     procs := (procs s)[np := ?P\<lparr>kstack := k, tf := k + 0xFB4, ctx := k + 0xF9C\<rparr>], ctxs := (ctxs s)(k + 0xF9C := kcontext0\<lparr>cx_eip := a_forkret s\<rparr>)\<rparr>"
  have al: "allocproc s = Ok (Some np) a"
    using np k(2) by (simp add: allocproc_ok[OF q] u alloc_kstack_def ka Let_def a_def) (simp add: upd_proc_def add.commute)
  have stk: "mem a x = mem s x" if "\<not> in_page k x" for x using store_ent_other[of 1004 k x "a_trapret s" "mem s"] that by (simp add: a_def)
  have am: "a = (?u\<lparr>mem := mem a\<rparr>)\<lparr>procs := procs a, ctxs := ctxs a\<rparr>" by (simp add: a_def)
  have km: "kmem_inv (?u\<lparr>mem := mem a\<rparr>) ys"
  proof (rule kmem_inv_mem[OF ku])
    fix x y assume x: "x \<in> set ys" "in_page x y"
    have "x mod PGSIZE = 0" using page_okD(1)[OF D(11)] x(1) by simp
    then have "\<not> in_page k y" using page_disjoint[OF _ k(5) x(2)] k(4) x(1) by auto
    then show "mem a y = mem ?u y" using stk t(1) by simp
  qed
  have pa: "page_ok a = page_ok (?u\<lparr>mem := mem a\<rparr>)" by (rule page_ok_cong) (simp add: a_def)
  have af: "freelist a = freelist (?u\<lparr>mem := mem a\<rparr>)" "mach a = mach (?u\<lparr>mem := mem a\<rparr>)" by (simp_all add: a_def)
  have ka2: "kmem_inv a ys" using km unfolding kmem_inv_def pa af by simp
  have ke: "kend a = kend s" by (simp add: a_def upd_proc_def)
  have off: "\<forall>x. (\<forall>q \<in> set (k # ys). \<not> in_page q x) \<longrightarrow> mem a x = mem s x" using stk by simp
  have "set ys \<subseteq> set (k # ys)" by auto
  note spa = space_keep(1)[OF sp ka2 this ke off]
  show ?thesis using al spa off by (intro exI[of _ a]) (simp add: a_def upd_proc_def)
qed

text \<open>The entry that \<open>fork\<close> makes in the process table, given the slot \<open>c\<close> that \<open>allocproc\<close> filled.\<close>

definition child_of :: "nat \<Rightarrow> proc \<Rightarrow> addr \<Rightarrow> proc \<Rightarrow> proc" where
  "child_of i p d c = c\<lparr>pgdir := d, sz := sz p, parent := Some i, pticks := 0, tickets := fork_tickets (tickets p), ofile := ofile p,
     cwd := cwd p, pname := over (pname c) (safestrcpy (seq_of (pname p)) 16), pstate := RUNNABLE\<rparr>"

lemma fork_ok:
  assumes cur: "curproc s = Ok i s" and al: "allocproc s = Ok (Some np) a"
    and cp: "copyuvm (pgdir (procs a ! i)) (sz (procs a ! i)) a = Ok d b" and d: "d \<noteq> 0"
    and b: "quiet b" "procs b = procs a" and i: "i \<noteq> np" "i < length (procs a)" "np < length (procs a)"
    and fs: "refs_ok (ofile (procs a ! i)) (files b) 16" "length (ofile (procs a ! i)) = 16" "ofile (procs a ! np) = replicate 16 None"
    and cw: "cwd (procs a ! i) = Some e"
  shows "fork s = Ok (pid (procs a ! np)) (b\<lparr>procs := (procs a)[np := child_of i (procs a ! i) d (procs a ! np)],
      tfs := (tfs b)(tf (procs a ! np) := (tfs b (tf (procs a ! i)))\<lparr>tf_eax := 0\<rparr>), files := dup_refs (ofile (procs a ! i)) (files b),
      inodes := (inodes b)[e := (inodes b ! e)\<lparr>i_ref := i_ref (inodes b ! e) + 1\<rparr>]\<rparr>)"
proof -
  let ?p = "procs a ! i" and ?c = "procs a ! np"
  let ?c1 = "?c\<lparr>pgdir := d, sz := sz ?p, parent := Some i, pticks := 0, tickets := fork_tickets (tickets ?p)\<rparr>"
  define s1 where "s1 = b\<lparr>procs := (procs a)[np := ?c1], tfs := (tfs b)(tf ?c := (tfs b (tf ?p))\<lparr>tf_eax := 0\<rparr>)\<rparr>"
  have p1: "procs s1 ! i = ?p" "procs s1 ! np = ?c1" "length (procs s1) = length (procs a)" "files s1 = files b" "mach s1 = mach b" using i by (simp_all add: s1_def)
  have q1: "quiet s1" using b(1) quiet_cong[OF p1(5)] by simp
  have r1: "refs_ok (ofile (procs s1 ! i)) (files s1) (length [0..<NOFILE])" using fs(1) by (simp add: p1)
  have in1: "\<forall>fd \<in> set [0..<NOFILE]. fd < length (ofile (procs s1 ! i))" using fs(2) by (simp add: p1)
  have l1: "i < length (procs s1)" "np < length (procs s1)" using i by (simp_all add: p1)
  obtain os where o: "fork_files [0..<NOFILE] i np s1 = Ok () ((upd_proc np (\<lambda>p. p\<lparr>ofile := os\<rparr>) s1)\<lparr>files := dup_refs (map ((!) (ofile (procs s1 ! i))) [0..<NOFILE]) (files s1)\<rparr>)"
     "length os = length (ofile (procs s1 ! np))"
     "\<forall>k < length os. os ! k = (if k \<in> set [0..<NOFILE] \<and> ofile (procs s1 ! i) ! k \<noteq> None then ofile (procs s1 ! i) ! k else ofile (procs s1 ! np) ! k)"
    using fork_files_ok[OF q1 i(1) l1 r1 in1 distinct_upt] by (elim exE conjE) (rule that, assumption+)
  have os: "os = ofile ?p"
  proof (rule nth_equalityI)
    show l: "length os = length (ofile ?p)" using o(2) fs(2,3) by (simp add: p1)
    fix k assume "k < length os"
    then show "os ! k = ofile ?p ! k" using o(3) l fs(2,3) by (simp add: p1 split: if_splits)
  qed
  have mp: "map ((!) (ofile ?p)) [0..<NOFILE] = ofile ?p" using map_nth[of "ofile ?p"] fs(2) by simp
  define s2 where "s2 = (upd_proc np (\<lambda>p. p\<lparr>ofile := ofile ?p\<rparr>) s1)\<lparr>files := dup_refs (ofile ?p) (files b)\<rparr>"
  have ff: "fork_files [0..<NOFILE] i np s1 = Ok () s2" unfolding o(1) os p1 mp s2_def ..
  have m2: "mach s2 = mach b" "procs s2 = (procs a)[np := ?c1\<lparr>ofile := ofile ?p\<rparr>]" using i by (simp_all add: s2_def s1_def upd_proc_def)
  have q2: "quiet s2" using b(1) quiet_cong[OF m2(1)] by simp
  define s3 where "s3 = upd_inode e (\<lambda>k. k\<lparr>i_ref := i_ref k + 1\<rparr>) s2"
  have id: "idup e s2 = Ok e s3" unfolding s3_def by (rule idup_ok[OF q2])
  define s4 where "s4 = upd_proc np (\<lambda>p. p\<lparr>cwd := Some e, pname := over (pname p) (safestrcpy (seq_of (pname ?p)) 16)\<rparr>) s3"
  have m4: "mach s4 = mach b" "pid (procs s4 ! np) = pid ?c" using i m2 by (simp_all add: s4_def s3_def upd_inode_def upd_proc_def)
  have q4: "quiet s4" using b(1) quiet_cong[OF m4(1)] by simp
  let ?t = "upd_proc np (\<lambda>p. p\<lparr>pstate := RUNNABLE\<rparr>) (s4\<lparr>mach := hold PtableLk (mach s4)\<rparr>)"
  have rel: "krelease PtableLk ?t = Ok () (?t\<lparr>mach := mach s4\<rparr>)" using quietD[OF q4] by (intro krelease_quiet) simp_all
  have "fork s = Ok (pid ?c) (?t\<lparr>mach := mach s4\<rparr>)"
  proof -
    have e1: "upd_proc np (\<lambda>p. p\<lparr>pname := over (pname p) (safestrcpy (seq_of (pname (procs (upd_proc np (\<lambda>p. p\<lparr>cwd := Some e\<rparr>) s3) ! i))) 16)\<rparr>) (upd_proc np (\<lambda>p. p\<lparr>cwd := Some e\<rparr>) s3) = s4"
      using i m2 by (simp add: s4_def s3_def upd_inode_def upd_proc_def)
    have e0: "cwd (procs s2 ! i) = Some e" using i m2 cw by simp
    have e2: "(let s = upd_proc np (\<lambda>p. p\<lparr>pgdir := d\<rparr>) b;
               s = upd_proc np (\<lambda>p. p\<lparr>sz := sz (procs s ! i), parent := Some i\<rparr>) s;
               s = s\<lparr>tfs := (tfs s)(tf (procs s ! np) := tfs s (tf (procs s ! i)))\<rparr>;
               s = upd_proc np (\<lambda>p. p\<lparr>pticks := 0, tickets := fork_tickets (tickets (procs s ! i))\<rparr>) s;
               x = tf (procs s ! np) in s\<lparr>tfs := (tfs s)(x := (tfs s x)\<lparr>tf_eax := 0\<rparr>)\<rparr>) = s1"
      using i b(2) by (simp add: s1_def upd_proc_def Let_def)
    show ?thesis unfolding fork_def cur al cp bnd_simps option.simps Let_def if_not_P[OF d] e2[unfolded Let_def] ff e0 id e1 kacquire_quiet[OF q4] rel m4(2) ..
  qed
  moreover have "?t\<lparr>mach := mach s4\<rparr> = b\<lparr>procs := (procs a)[np := child_of i ?p d ?c],
      tfs := (tfs b)(tf ?c := (tfs b (tf ?p))\<lparr>tf_eax := 0\<rparr>), files := dup_refs (ofile ?p) (files b),
      inodes := (inodes b)[e := (inodes b ! e)\<lparr>i_ref := i_ref (inodes b ! e) + 1\<rparr>]\<rparr>"
    using i m2 cw by (simp add: s4_def s3_def s2_def s1_def upd_inode_def upd_proc_def child_of_def)
  ultimately show ?thesis by simp
qed

text \<open>A process in the table whose address space is well formed, with exactly the pages below its size mapped, whose trap frame is in neither a
  free page nor a page of the address space, and which has a descriptor table and a current directory.\<close>

definition process_ok :: "kernel \<Rightarrow> addr list \<Rightarrow> nat \<Rightarrow> bool" where
  "process_ok s xs i \<longleftrightarrow> i < length (procs s) \<and> pstate (procs s ! i) \<noteq> UNUSED \<and> kstack (procs s ! i) \<noteq> 0
     \<and> space_ok s xs (pgdir (procs s ! i)) \<and> unat (sz (procs s ! i)) \<le> 0x80000000
     \<and> (\<forall>va. unat va < 0x80000000 \<longrightarrow> (vmap (mem s) (pgdir (procs s ! i)) va \<noteq> None \<longleftrightarrow> unat va div 4096 < (unat (sz (procs s ! i)) + 4095) div 4096))
     \<and> (\<forall>q \<in> set xs \<union> pages_of (mem s) (pgdir (procs s ! i)). \<not> in_page q (tf (procs s ! i))) \<and> length (ofile (procs s ! i)) = 16 \<and> cwd (procs s ! i) \<noteq> None"

lemma process_okD:
  assumes "process_ok s xs i"
  shows "i < length (procs s)" "pstate (procs s ! i) \<noteq> UNUSED" "kstack (procs s ! i) \<noteq> 0" "space_ok s xs (pgdir (procs s ! i))"
    "unat (sz (procs s ! i)) \<le> 0x80000000" "\<forall>q \<in> set xs \<union> pages_of (mem s) (pgdir (procs s ! i)). \<not> in_page q (tf (procs s ! i))" "length (ofile (procs s ! i)) = 16" "cwd (procs s ! i) \<noteq> None"
    "unat va < 0x80000000 \<Longrightarrow> vmap (mem s) (pgdir (procs s ! i)) va \<noteq> None \<longleftrightarrow> unat va div 4096 < (unat (sz (procs s ! i)) + 4095) div 4096"
    "page_ok s (pgdir (procs s ! i))" "kmem_inv s xs"
  using assms unfolding process_ok_def space_ok_def pt_ok_def by blast+

text \<open>The user addresses of the directory \<open>p\<close> in \<open>s\<close> hold the same bytes as those of \<open>d\<close> in \<open>s'\<close>; the user memories of two directories
  have no physical address in common.\<close>

definition same_memory :: "kernel \<Rightarrow> addr \<Rightarrow> kernel \<Rightarrow> addr \<Rightarrow> bool" where
  "same_memory s p s' d \<longleftrightarrow> (\<forall>va. unat va < 0x80000000 \<longrightarrow>
     rel_option (\<lambda>a a'. mem s' a' = mem s a) (mmu False (s\<lparr>cr3 := V2P p\<rparr>) va) (mmu False (s'\<lparr>cr3 := V2P d\<rparr>) va))"

definition separate :: "kernel \<Rightarrow> addr \<Rightarrow> addr \<Rightarrow> bool" where
  "separate s p d \<longleftrightarrow> (\<forall>va vb a. unat va < 0x80000000 \<and> unat vb < 0x80000000 \<and> mmu False (s\<lparr>cr3 := V2P d\<rparr>) va = Some a
     \<longrightarrow> mmu False (s\<lparr>cr3 := V2P p\<rparr>) vb \<noteq> Some a)"

lemma same_memoryI:
  assumes "p mod PGSIZE = 0" "d mod PGSIZE = 0"
    "\<And>va. unat va < 0x80000000 \<Longrightarrow> rel_option (\<lambda>e f. mem s' (P2V (PTE_ADDR f) + (va AND 0xFFF)) = mem s (P2V (PTE_ADDR e) + (va AND 0xFFF))) (vmap (mem s) p va) (vmap (mem s') d va)"
  shows "same_memory s p s' d"
  unfolding same_memory_def mmu_vmap[OF assms(1)] mmu_vmap[OF assms(2)] using assms(3) by (simp add: option.rel_map)

lemma separateI:
  assumes p: "space_ok s xs p" and d: "space_ok s xs d" and dis: "\<And>va vb e f. unat va < 0x80000000 \<Longrightarrow> unat vb < 0x80000000 \<Longrightarrow> vmap (mem s) d va = Some e
     \<Longrightarrow> vmap (mem s) p vb = Some f \<Longrightarrow> P2V (PTE_ADDR e) \<noteq> P2V (PTE_ADDR f)"
  shows "separate s p d"
  unfolding separate_def
proof (intro allI impI notI)
  fix va vb a assume H: "unat va < 0x80000000 \<and> unat vb < 0x80000000 \<and> mmu False (s\<lparr>cr3 := V2P d\<rparr>) va = Some a" and b: "mmu False (s\<lparr>cr3 := V2P p\<rparr>) vb = Some a"
  have al: "p mod PGSIZE = 0" "d mod PGSIZE = 0" using p d page_okD(1) pt_okD(2) unfolding space_ok_def by blast+
  obtain e f where ef: "vmap (mem s) d va = Some e" "vmap (mem s) p vb = Some f" "P2V (PTE_ADDR e) + (va AND 0xFFF) = P2V (PTE_ADDR f) + (vb AND 0xFFF)"
    using H b by (auto simp: mmu_vmap[OF al(1)] mmu_vmap[OF al(2)])
  have lt: "unat va < 0x80000000" "unat vb < 0x80000000" using H by blast+
  have "P2V (PTE_ADDR e) = P2V (PTE_ADDR f)"
    by (rule same_frame[OF page_okD(1)[OF space_okD(1)[OF d lt(1) ef(1)]] page_okD(1)[OF space_okD(1)[OF p lt(2) ef(2)]] ef(3)])
  then show False using dis[OF lt ef(1,2)] by blast
qed

lemma mmu_cong: "mem s' = mem s \<Longrightarrow> mmu wr (s'\<lparr>cr3 := c\<rparr>) = mmu wr (s\<lparr>cr3 := c\<rparr>)"
  by (rule ext) (simp add: mmu_def Let_def)

lemma same_memory_trans: "same_memory s p t q \<Longrightarrow> same_memory t q u r \<Longrightarrow> same_memory s p u r"
  unfolding same_memory_def by (fastforce simp: option.rel_sel)

lemma memory_cong:
  assumes "mem t' = mem t"
  shows "same_memory s p t' d = same_memory s p t d" "separate t' p d = separate t p d"
  by (simp_all add: same_memory_def separate_def mmu_cong[OF assms] assms)

lemma space_keep_memory:
  assumes "space_ok s xs p" "kmem_inv s' ys" "set ys \<subseteq> set xs" "kend s' = kend s" "\<forall>x. (\<forall>q \<in> set xs. \<not> in_page q x) \<longrightarrow> mem s' x = mem s x"
  shows "same_memory s p s' p"
proof -
  note K = space_keep[OF assms]
  have al: "p mod PGSIZE = 0" using assms(1) page_okD(1) pt_okD(2) unfolding space_ok_def by blast
  show ?thesis
  proof (rule same_memoryI[OF al al])
    fix va :: addr assume va: "unat va < 0x80000000"
    show "rel_option (\<lambda>e f. mem s' (P2V (PTE_ADDR f) + (va AND 0xFFF)) = mem s (P2V (PTE_ADDR e) + (va AND 0xFFF))) (vmap (mem s) p va) (vmap (mem s') p va)"
      using K(4)[OF va _ in_page_off] by (cases "vmap (mem s) p va") (simp_all add: K(2))
  qed
qed

lemma copyuvm_space:
  assumes sp: "space_ok s xs p" and d: "data_ok s" and len: "unat len \<le> 0x80000000" and n: "n = (unat len + 4095) div 4096"
    and ex: "\<forall>va. unat va < 0x80000000 \<longrightarrow> (vmap (mem s) p va \<noteq> None \<longleftrightarrow> unat va div 4096 < n)" and room: "1025 + n \<le> length xs"
  shows "\<exists>d s' xs'. copyuvm p len s = Ok d s' \<and> space_ok s' xs' d \<and> space_ok s' xs' p \<and> set xs = set xs' \<union> pages_of (mem s') d
     \<and> same_memory s p s' d \<and> same_memory s p s' p \<and> separate s' p d \<and> vmap (mem s') p = vmap (mem s) p \<and> pages_of (mem s') p = pages_of (mem s) p
     \<and> (\<forall>va. unat va < 0x80000000 \<longrightarrow> (vmap (mem s') d va \<noteq> None \<longleftrightarrow> unat va div 4096 < n))
     \<and> s' = s\<lparr>mem := mem s', freelist := freelist s', mach := mach s'\<rparr> \<and> (\<forall>x. (\<forall>q \<in> set xs. \<not> in_page q x) \<longrightarrow> mem s' x = mem s x)"
proof -
  have n80: "n \<le> 0x80000" using len by (simp add: n)
  have mp: "\<forall>va. unat va < 4096 * n \<longrightarrow> vmap (mem s) p va \<noteq> None" using ex n80 by (simp add: div_less_iff_less_mult mult.commute)
  obtain d' s' xs' g where c: "copyuvm p len s = Ok d' s'" "space_ok s' xs' d'" "set xs = set xs' \<union> pages_of (mem s') d'"
     "\<forall>x. (\<forall>q \<in> set xs. \<not> in_page q x) \<longrightarrow> mem s' x = mem s x"
     "\<forall>va. unat va < 4096 * n \<longrightarrow> (\<exists>e. vmap (mem s) p va = Some e \<and> vmap (mem s') d' va = Some (V2P (g (unat va div 4096)) OR PTE_FLAGS e OR PTE_P)
           \<and> g (unat va div 4096) \<in> set xs \<and> P2V (PTE_ADDR (V2P (g (unat va div 4096)) OR PTE_FLAGS e OR PTE_P)) = g (unat va div 4096)
           \<and> mem s' (g (unat va div 4096) + (va AND 0xFFF)) = mem s (P2V (PTE_ADDR e) + (va AND 0xFFF)))"
     "\<forall>va. 4096 * n \<le> unat va \<longrightarrow> vmap (mem s') d' va = seg_map (kmap s) va" "s' = s\<lparr>mem := mem s', freelist := freelist s', mach := mach s'\<rparr>"
    using copyuvm_ok[OF sp d len n mp room] by (elim exE conjE) (rule that, assumption+)
  have ke: "kend s' = kend s" by (subst c(7)) simp
  have pd: "pt_ok s' xs' d'" "pt_ok s xs p" using c(2) sp by (simp_all add: space_ok_def)
  have al: "d' mod PGSIZE = 0" "p mod PGSIZE = 0" using page_okD(1)[OF pt_okD(2)[OF pd(1)]] page_okD(1)[OF pt_okD(2)[OF pd(2)]] .
  have sub: "set xs' \<subseteq> set xs" using c(3) by blast
  note K = space_keep[OF sp pt_okD(1)[OF pd(1)] sub ke c(4)]
  have lo: "vmap (mem s) p va = None \<and> vmap (mem s') d' va = None" if "unat va < 0x80000000" "\<not> unat va < 4096 * n" for va
    using ex c(6) kmap_ok(3)[OF d, of va] that by (auto simp: div_less_iff_less_mult mult.commute)
  have rel: "rel_option (\<lambda>e f. mem s' (P2V (PTE_ADDR f) + (va AND 0xFFF)) = mem s (P2V (PTE_ADDR e) + (va AND 0xFFF))) (vmap (mem s) p va) (vmap (mem s') d' va)"
    if "unat va < 0x80000000" for va using c(5) lo[OF that] by (cases "unat va < 4096 * n") fastforce+
  have same: "same_memory s p s' d'" by (rule same_memoryI[OF al(2,1) rel])
  have self: "same_memory s p s' p" by (rule space_keep_memory[OF sp pt_okD(1)[OF pd(1)] sub ke c(4)])
  have sep: "separate s' p d'"
  proof (rule separateI[OF K(1) c(2)])
    fix va vb e f assume H: "unat va < 0x80000000" "unat vb < 0x80000000" "vmap (mem s') d' va = Some e" "vmap (mem s') p vb = Some f"
    have "P2V (PTE_ADDR f) \<notin> set xs" using space_okD(2)[OF sp H(2)] H(4) by (simp add: K(2) foot_def)
    moreover have "unat va < 4096 * n" using lo[OF H(1)] H(3) by (cases "unat va < 4096 * n") simp_all
    then have "P2V (PTE_ADDR e) \<in> set xs" using c(5) H(3) by fastforce
    ultimately show "P2V (PTE_ADDR e) \<noteq> P2V (PTE_ADDR f)" by auto
  qed
  have exd: "vmap (mem s') d' va \<noteq> None \<longleftrightarrow> unat va div 4096 < n" if "unat va < 0x80000000" for va
    using rel[OF that] ex that by (cases "vmap (mem s) p va"; cases "vmap (mem s') d' va") auto
  show ?thesis by (rule exI[of _ d'], rule exI[of _ s'], rule exI[of _ xs']) (intro conjI allI impI c(1) c(2) K(1) c(3) same self sep K(2) K(3) exd c(7) c(4)[rule_format]; blast)
qed

text \<open>The state that \<open>fork\<close> leaves, up to the memory and the head of the free list.\<close>

definition fork_effect :: "kernel \<Rightarrow> nat \<Rightarrow> nat \<Rightarrow> nat \<Rightarrow> addr \<Rightarrow> addr \<Rightarrow> kernel \<Rightarrow> kernel" where
  "fork_effect s i np e dir k s' = s\<lparr>mem := mem s', freelist := freelist s', nextpid := nextpid s + 1,
     procs := (procs s)[np := child_of i (procs s ! i) dir ((procs s ! np)\<lparr>pid := nextpid s, kstack := k, tf := k + 0xFB4, ctx := k + 0xF9C\<rparr>)],
     tfs := (tfs s)(k + 0xFB4 := (tfs s (tf (procs s ! i)))\<lparr>tf_eax := 0\<rparr>), ctxs := (ctxs s)(k + 0xF9C := kcontext0\<lparr>cx_eip := a_forkret s\<rparr>),
     files := dup_refs (ofile (procs s ! i)) (files s), inodes := (inodes s)[e := (inodes s ! e)\<lparr>i_ref := i_ref (inodes s ! e) + 1\<rparr>]\<rparr>"

text \<open>(C10) \<open>fork\<close> makes a process like its parent.  For a process with a well-formed address space, and enough free pages, it returns the
  next process identifier; the child is in the slot that \<open>allocproc\<close> found, runnable, a process with the size, the directory and the
  descriptors of its parent, the registers of its parent except for a zero return value, at least ten tickets, and a memory that has the
  same bytes at every user address and shares no physical address with that of the parent, whose memory stays as it is.  The other effects are these:
  the next process identifier grows by one, the child starts in \<open>forkret\<close>, the reference counts of the open files grow by the
  number of descriptors that refer to them and that of the current directory by one, the kernel stack and the address space of the child come from
  the free list, and the bytes of no other page change.  The rest of the kernel state is the same.\<close>

theorem fork_child:
  assumes q: "quiet s" and cur: "running s = Some i" and ok: "process_ok s xs i" and un: "first_idx (\<lambda>p. pstate p = UNUSED) (procs s) = Some np"
    and nf: "ofile (procs s ! np) = replicate 16 None" and rf: "refs_ok (ofile (procs s ! i)) (files s) 16" and d: "data_ok s"
    and room: "1026 + (unat (sz (procs s ! i)) + 4095) div 4096 \<le> length xs" and e: "cwd (procs s ! i) = Some e"
  shows "\<exists>s' xs' dir k. fork s = Ok (nextpid s) s' \<and> s' = fork_effect s i np e dir k s' \<and> process_ok s' xs' np \<and> process_ok s' xs' i
     \<and> set xs = insert k (set xs' \<union> pages_of (mem s') dir) \<and> (\<forall>x. (\<forall>q \<in> set xs. \<not> in_page q x) \<longrightarrow> mem s' x = mem s x)
     \<and> same_memory s (pgdir (procs s ! i)) s' dir \<and> same_memory s (pgdir (procs s ! i)) s' (pgdir (procs s ! i))
     \<and> separate s' (pgdir (procs s ! i)) dir \<and> tfs s' (tf (procs s ! i)) = tfs s (tf (procs s ! i))"
proof -
  let ?p = "procs s ! i" and ?n = "(unat (sz (procs s ! i)) + 4095) div 4096"
  note P = process_okD[OF ok]
  obtain k ys where xs: "xs = k # ys" using room by (cases xs) auto
  have np: "np < length (procs s)" "pstate (procs s ! np) = UNUSED" using first_idx_SomeD[OF un] by simp_all
  have ne: "i \<noteq> np" using np(2) P(2) by auto
  obtain a where a: "allocproc s = Ok (Some np) a" "space_ok a ys (pgdir ?p)" "\<forall>x. (\<forall>q \<in> set xs. \<not> in_page q x) \<longrightarrow> mem a x = mem s x"
     "a = s\<lparr>mem := mem a, freelist := freelist a, ctxs := (ctxs s)(k + 0xF9C := kcontext0\<lparr>cx_eip := a_forkret s\<rparr>), nextpid := nextpid s + 1,
           procs := (procs s)[np := (procs s ! np)\<lparr>pstate := EMBRYO, pid := nextpid s, kstack := k, tf := k + 0xFB4, ctx := k + 0xF9C\<rparr>]\<rparr>"
    using allocproc_space[OF q un P(4)[unfolded xs], folded xs] by (elim exE conjE) (rule that, assumption+)
  let ?c = "(procs s ! np)\<lparr>pstate := EMBRYO, pid := nextpid s, kstack := k, tf := k + 0xFB4, ctx := k + 0xF9C\<rparr>"
  have A: "procs a = (procs s)[np := ?c]" "mach a = mach s" "tfs a = tfs s" "files a = files s" "kdata a = kdata s" "kend a = kend s" by (subst a(4), simp)+
  have ai: "procs a ! i = ?p" "procs a ! np = ?c" "length (procs a) = length (procs s)" using ne np(1) by (simp_all add: A(1))
  have qa: "quiet a" using q quiet_cong[OF A(2)] by simp
  have da: "data_ok a" using d by (simp add: data_ok_def A(5))
  have sub: "set ys \<subseteq> set xs" by (auto simp: xs)
  have kma: "kmem_inv a ys" using a(2) by (simp add: space_ok_def pt_ok_def)
  note KA = space_keep[OF P(4) kma sub A(6) a(3)]
  have exa: "\<forall>va. unat va < 0x80000000 \<longrightarrow> (vmap (mem a) (pgdir ?p) va \<noteq> None \<longleftrightarrow> unat va div 4096 < ?n)" using P(9) by (simp add: KA(2))
  have rm: "1025 + ?n \<le> length ys" using room by (simp add: xs)
  obtain dir b zs where b: "copyuvm (pgdir ?p) (sz ?p) a = Ok dir b" "space_ok b zs dir" "space_ok b zs (pgdir ?p)" "set ys = set zs \<union> pages_of (mem b) dir"
     "same_memory a (pgdir ?p) b dir" "same_memory a (pgdir ?p) b (pgdir ?p)" "separate b (pgdir ?p) dir" "vmap (mem b) (pgdir ?p) = vmap (mem a) (pgdir ?p)" "pages_of (mem b) (pgdir ?p) = pages_of (mem a) (pgdir ?p)"
     "\<forall>va. unat va < 0x80000000 \<longrightarrow> (vmap (mem b) dir va \<noteq> None \<longleftrightarrow> unat va div 4096 < ?n)" "b = a\<lparr>mem := mem b, freelist := freelist b, mach := mach b\<rparr>" "\<forall>x. (\<forall>q \<in> set ys. \<not> in_page q x) \<longrightarrow> mem b x = mem a x"
    using copyuvm_space[OF a(2) da P(5) refl exa rm] by (elim exE conjE) (rule that, assumption+)
  have mb: "mach b = mach s" using copyuvm_mach[OF b(1) qa] A(2) by simp
  have qb: "quiet b" using q quiet_cong[OF mb] by simp
  have B: "procs b = procs a" "tfs b = tfs s" "files b = files s" by (subst b(11), simp add: A)+
  have dir0: "dir \<noteq> 0" using b(2) page_okD(3) pt_okD(2) unfolding space_ok_def by blast
  have cr: "curproc s = Ok i s" using curproc_ok[OF _ cur] quietD(1,2)[OF q] by simp
  have il: "i < length (procs a)" "np < length (procs a)" using P(1) np(1) ai(3) by simp_all
  define s' where "s' = b\<lparr>procs := (procs a)[np := child_of i ?p dir ?c], tfs := (tfs s)(tf ?c := (tfs s (tf ?p))\<lparr>tf_eax := 0\<rparr>),
     files := dup_refs (ofile ?p) (files s), inodes := (inodes b)[e := (inodes b ! e)\<lparr>i_ref := i_ref (inodes b ! e) + 1\<rparr>]\<rparr>"
  have fk: "fork s = Ok (nextpid s) s'"
    using fork_ok[OF cr a(1) _ dir0 qb B(1) ne il, of e, unfolded ai B(2,3)] b(1) rf P(7) nf e by (simp add: s'_def)
  have S: "mem s' = mem b" "freelist s' = freelist b" "kend s' = kend b" "mach s' = mach b" "procs s' = (procs s)[np := child_of i ?p dir ?c]"
     "files s' = dup_refs (ofile ?p) (files s)" "tfs s' = (tfs s)(tf ?c := (tfs s (tf ?p))\<lparr>tf_eax := 0\<rparr>)" by (simp_all add: s'_def A(1))
  have si: "procs s' ! i = ?p" "procs s' ! np = child_of i ?p dir ?c" "length (procs s') = length (procs s)" using ne np(1) by (simp_all add: S(5))
  have mo: "mach_ok (mach s')" "lk_free KmemLk (mach s')" using quietD[OF qb] by (simp_all add: S(4))
  have sp': "space_ok s' zs dir" "space_ok s' zs (pgdir ?p)" by (rule space_cong[OF b(2) S(1-3) mo], rule space_cong[OF b(3) S(1-3) mo])
  have kpg: "page_ok s k" "k \<notin> set ys" using pt_okD(11,12)[of s xs "pgdir ?p"] P(4) by (auto simp: space_ok_def xs)
  have zy: "set zs \<subseteq> set ys" using b(4) by blast
  have ktf: "in_page k (k + 0xFB4)" by (simp add: in_page_def)
  have tfk: "\<forall>q \<in> set zs \<union> pages_of (mem b) dir. \<not> in_page q (k + 0xFB4)" unfolding b(4)[symmetric]
  proof (intro ballI notI)
    fix x assume x: "x \<in> set ys" "in_page x (k + 0xFB4)"
    have "x \<in> set xs" using x(1) sub by blast
    then have "x mod PGSIZE = 0" using page_okD(1) P(11) unfolding kmem_inv_def list_all_iff by blast
    then show False using page_disjoint[OF _ page_okD(1)[OF kpg(1)] x(2) ktf] x(1) kpg(2) by auto
  qed
  have ti: "tf ?c \<noteq> tf ?p" using P(6) ktf by (auto simp: xs)
  have pc: "process_ok s' zs np" unfolding process_ok_def si(2,3) S(1)
    using sp'(1) b(10) P(5,7,8) np(1) page_okD(3)[OF kpg(1)] tfk by (simp add: child_of_def)
  have pi: "process_ok s' zs i" unfolding process_ok_def si(1,3) S(1) b(8,9) KA(2,3) using P sp'(2) zy sub by blast
  have m0: "same_memory s (pgdir ?p) a (pgdir ?p)" by (rule space_keep_memory[OF P(4) kma sub A(6) a(3)])
  have m1: "same_memory s (pgdir ?p) s' dir" "same_memory s (pgdir ?p) s' (pgdir ?p)" "separate s' (pgdir ?p) dir"
    unfolding memory_cong[OF S(1)] by (rule same_memory_trans[OF m0 b(5)], rule same_memory_trans[OF m0 b(6)], rule b(7))
  have cd: "pgdir (procs s' ! np) = dir" "tf (procs s' ! np) = tf ?c" by (simp_all add: si(2) child_of_def)
  have ch: "procs s' ! np = child_of i ?p dir ((procs s ! np)\<lparr>pid := nextpid s, kstack := k, tf := k + 0xFB4, ctx := k + 0xF9C\<rparr>)"
    by (simp add: si(2) child_of_def)
  obtain M F where bm: "b = a\<lparr>mem := M, freelist := F, mach := mach s\<rparr>" using b(11) unfolding mb by blast
  obtain M' F' where am: "a = s\<lparr>mem := M', freelist := F', ctxs := (ctxs s)(k + 0xF9C := kcontext0\<lparr>cx_eip := a_forkret s\<rparr>), nextpid := nextpid s + 1,
     procs := (procs s)[np := ?c]\<rparr>" using a(4) by blast
  have eff: "s' = fork_effect s i np e dir k s'"
    unfolding s'_def bm am fork_effect_def child_of_def by (cases s) simp
  have pg: "set xs = insert k (set zs \<union> pages_of (mem s') dir)" using b(4) by (simp add: xs S(1))
  have out: "mem s' x = mem s x" if "\<forall>q \<in> set xs. \<not> in_page q x" for x
  proof -
    have "\<forall>q \<in> set ys. \<not> in_page q x" using that sub by blast
    then show ?thesis using b(12) a(3) that by (simp add: S(1))
  qed
  have tp: "tfs s' (tf ?p) = tfs s (tf ?p)" unfolding S(7) using ti by simp
  show ?thesis
    by (rule exI[of _ s'], rule exI[of _ zs], rule exI[of _ dir], rule exI[of _ k]) (intro conjI allI impI fk eff pc pi pg out m1 tp; assumption)
qed

section \<open>Growing and shrinking a process\<close>

lemma load_tss_ok: "mach_ok m \<Longrightarrow> mach_ok (load_tss a m)" "lk_free L (load_tss a m) = lk_free L m"
  using cpu_ix_upd_cpu by (simp_all add: load_tss_def)

lemma process_switch:
  assumes i: "i < length (procs t)" and ks: "kstack (procs t ! i) \<noteq> 0" and sp: "space_ok t xs (pgdir (procs t ! i))"
  shows "\<exists>u. switchuvm (Some i) (upd_proc i (\<lambda>p. p\<lparr>sz := z\<rparr>) t) = Ok () u \<and> space_ok u xs (pgdir (procs t ! i)) \<and> mem u = mem t
     \<and> cr3 u = V2P (pgdir (procs t ! i)) \<and> procs u = (procs t)[i := (procs t ! i)\<lparr>sz := z\<rparr>]"
proof -
  have pt: "pt_ok t xs (pgdir (procs t ! i))" using sp by (simp add: space_ok_def)
  let ?t = "upd_proc i (\<lambda>p. p\<lparr>sz := z\<rparr>) t"
  have P: "procs ?t ! i = (procs t ! i)\<lparr>sz := z\<rparr>" "length (procs ?t) = length (procs t)" using i by (simp_all add: upd_proc_def)
  let ?u = "?t\<lparr>mach := load_tss (kstack (procs t ! i) + KSTACKSIZE) (touch (mach t)), cr3 := V2P (pgdir (procs t ! i))\<rparr>"
  have "switchuvm (Some i) ?t = Ok () ?u"
    using switchuvm_ok[of ?t i] pt_okD(9)[OF pt] i ks page_okD(3)[OF pt_okD(2)[OF pt]] by (simp add: P)
  moreover have "space_ok ?u xs (pgdir (procs t ! i))"
    by (rule space_cong[OF sp]) (use pt_okD(9,10)[OF pt] in \<open>simp_all add: upd_proc_def load_tss_ok\<close>)
  ultimately show ?thesis by (intro exI[of _ ?u]) (simp add: upd_proc_def)
qed

lemma mmu_weaken: "mmu True s va = Some a \<Longrightarrow> mmu False s va = Some a"
  by (auto simp: mmu_def Let_def split: if_splits)

text \<open>(C11) \<open>growproc\<close> with a positive argument, which is \<open>sbrk\<close>: if the new size stays below \<open>KERNBASE\<close> and there are enough free pages,
  the process gets the new size and stays well formed; every address in the new pages can be written at once and reads zero; and every
  address that was mapped keeps its physical address and its contents.\<close>

theorem growproc_grows:
  assumes q: "quiet s" and cur: "running s = Some i" and ok: "process_ok s xs i" and z: "z = sz (procs s ! i)"
    and n: "s_lt 0 n" "unat z + unat n < 0x80000000" and j: "j = (unat z + 4095) div 4096" "k = (unat z + unat n + 4095) div 4096"
    and room: "missing s (pgdir (procs s ! i)) + (k - j) \<le> length xs"
  shows "\<exists>s' xs'. growproc n s = Ok 0 s' \<and> process_ok s' xs' i \<and> sz (procs s' ! i) = z + n
     \<and> (\<forall>va. 4096 * j \<le> unat va \<and> unat va < 4096 * k \<longrightarrow> (\<exists>a. mmu True s' va = Some a \<and> mem s' a = 0))
     \<and> (\<forall>va a. unat va < 0x80000000 \<and> mmu False (s\<lparr>cr3 := V2P (pgdir (procs s ! i))\<rparr>) va = Some a \<longrightarrow> mmu False s' va = Some a \<and> mem s' a = mem s a)
     \<and> (\<forall>l. l \<noteq> i \<longrightarrow> procs s' ! l = procs s ! l)"
proof -
  let ?p = "procs s ! i" and ?pd = "pgdir (procs s ! i)"
  note P = process_okD[OF ok]
  have cr: "curproc s = Ok i s" using curproc_ok[OF _ cur] quietD(1,2)[OF q] by simp
  have uz: "unat (z + n) = unat z + unat n" using n(2) by (simp add: unat_word_ariths)
  have ord: "z \<le> z + n" "z + n < KERNBASE" using n(2) by (simp_all add: word_le_nat_alt word_less_nat_alt uz)
  have k: "k = (unat (z + n) + 4095) div 4096" by (simp add: j(2) uz)
  have k80: "k \<le> 0x80000" using n(2) by (simp add: j(2))
  have fr: "\<forall>va. 4096 * j \<le> unat va \<and> unat va < 4096 * k \<longrightarrow> vmap (mem s) ?pd va = None"
  proof (intro allI impI)
    fix va :: addr assume va: "4096 * j \<le> unat va \<and> unat va < 4096 * k"
    then have "unat va < 0x80000000" "\<not> unat va div 4096 < j" using k80 by (auto simp: div_less_iff_less_mult)
    then show "vmap (mem s) ?pd va = None" using P(9)[of va] z j(1) by simp
  qed
  obtain t ys where t: "allocuvm ?pd z (z + n) s = Ok (z + n) t" "space_ok t ys ?pd" "vm_step (k - j) ?pd s xs t ys" "set ys \<union> pages_of (mem t) ?pd \<subseteq> set xs \<union> pages_of (mem s) ?pd"
     "\<forall>va. 4096 * j \<le> unat va \<and> unat va < 4096 * k \<longrightarrow> (\<exists>a. mmu True (t\<lparr>cr3 := V2P ?pd\<rparr>) va = Some a \<and> mem t a = 0)"
     "\<forall>va. \<not> (4096 * j \<le> unat va \<and> unat va < 4096 * k) \<longrightarrow> vmap (mem t) ?pd va = vmap (mem s) ?pd va"
     "\<forall>va a. unat va < 0x80000000 \<and> mmu False (s\<lparr>cr3 := V2P ?pd\<rparr>) va = Some a \<longrightarrow> mem t a = mem s a"
    using allocuvm_ok[OF P(4) ord j(1) k fr room] by (elim exE conjE) (rule that, assumption+)
  note st = vm_stepD[OF t(3)]
  have T: "procs t = procs s" by (subst st(6)) simp
  obtain u where u: "switchuvm (Some i) (upd_proc i (\<lambda>p. p\<lparr>sz := z + n\<rparr>) t) = Ok () u" "space_ok u ys ?pd" "mem u = mem t" "cr3 u = V2P ?pd"
     "procs u = (procs s)[i := ?p\<lparr>sz := z + n\<rparr>]"
    using process_switch[of i t ys "z + n", unfolded T, OF P(1,3) t(2)] by (elim exE conjE) (rule that, assumption+)
  have "z + n \<noteq> 0"
  proof
    assume "z + n = 0"
    then have "unat n = 0" using uz by (metis add_is_0 unat_0)
    then have "n = 0" by (simp add: unat_0_iff)
    then show False using n(1) by (simp add: s_lt_def)
  qed
  then have g: "growproc n s = Ok 0 u" using t(1) u(1) n(1) by (simp add: growproc_def cr Let_def z[symmetric])
  have ui: "procs u ! i = ?p\<lparr>sz := z + n\<rparr>" "length (procs u) = length (procs s)" using P(1) by (simp_all add: u(5))
  have mu: "mmu wr u = mmu wr (t\<lparr>cr3 := V2P ?pd\<rparr>)" for wr 
  proof -
    have "u\<lparr>cr3 := V2P ?pd\<rparr> = u" unfolding u(4)[symmetric] by (cases u) simp
    then show ?thesis using mmu_cong[OF u(3), of wr "V2P ?pd"] by simp
  qed
  have jk: "j \<le> k" by (simp add: j div_le_mono)
  have pal: "?pd mod PGSIZE = 0" by (rule page_okD(1)[OF P(10)])
  have ex: "vmap (mem t) ?pd va \<noteq> None \<longleftrightarrow> unat va div 4096 < k" if va: "unat va < 0x80000000" for va
  proof (cases "4096 * j \<le> unat va \<and> unat va < 4096 * k")
    case True
    then obtain a where "mmu False (t\<lparr>cr3 := V2P ?pd\<rparr>) va = Some a" using t(5) mmu_weaken by blast
    then show ?thesis using True by (auto simp: mmu_vmap[OF pal] div_less_iff_less_mult mult.commute)
  next
    case False
    then have "unat va div 4096 < j \<longleftrightarrow> unat va div 4096 < k" using jk by (auto simp: div_less_iff_less_mult mult.commute)
    then show ?thesis using False t(6) P(9)[OF va] z j(1) by simp
  qed
  have pu: "process_ok u ys i" unfolding process_ok_def ui u(3) using P(1,2,3,6,7,8) u(2) ex n(2) t(4) k by (auto simp: uz)
  have keep: "mmu False u va = Some a \<and> mem u a = mem s a" if H: "unat va < 0x80000000" "mmu False (s\<lparr>cr3 := V2P ?pd\<rparr>) va = Some a" for va a
  proof -
    have "vmap (mem s) ?pd va \<noteq> None" using H(2) by (auto simp: mmu_vmap[OF pal])
    then have "vmap (mem t) ?pd va = vmap (mem s) ?pd va" using spec[OF fr, of va] spec[OF t(6), of va] by (cases "4096 * j \<le> unat va \<and> unat va < 4096 * k") simp_all
    then have "mmu False u va = Some a" using H(2) unfolding mu mmu_vmap[OF pal] by simp
    then show ?thesis using t(7) H u(3) by simp
  qed
  have zero: "\<exists>a. mmu True u va = Some a \<and> mem u a = 0" if "4096 * j \<le> unat va \<and> unat va < 4096 * k" for va using mp[OF spec[OF t(5), of va] that] by (simp add: mu u(3))
  show ?thesis
  proof (rule exI[of _ u], rule exI[of _ ys], intro conjI allI impI g pu zero)
    fix va a assume "unat va < 0x80000000 \<and> mmu False (s\<lparr>cr3 := V2P ?pd\<rparr>) va = Some a"
    then show "mmu False u va = Some a" "mem u a = mem s a" using keep by blast+
  qed (use ui(1) u(5) in simp_all)
qed

lemma frames_mono:
  assumes "j' \<le> j" "n \<le> n'" "\<forall>va e. vmap m pd va = Some e \<longrightarrow> vmap m' pd va = Some e"
  shows "frames m pd j n \<subseteq> frames m' pd j' n'"
proof
  fix x assume "x \<in> frames m pd j n"
  then obtain va e where v: "x = P2V (PTE_ADDR e)" "j \<le> unat va div 4096" "unat va div 4096 < n" "vmap m pd va = Some e" by (rule framesE)
  then have "vmap m' pd va = Some e" "j' \<le> unat va div 4096" "unat va div 4096 < n'" using assms by simp_all
  then show "x \<in> frames m' pd j' n'" unfolding v(1) by (intro framesI)
qed

lemma deallocuvm_ok:
  assumes sp: "space_ok s xs pd" and lt: "newsz < oldsz" "unat oldsz \<le> 0x80000000"
    and j: "j = (unat newsz + 4095) div 4096" and k: "k = (unat oldsz + 4095) div 4096"
  shows "\<exists>s' xs'. deallocuvm pd oldsz newsz s = Ok newsz s' \<and> space_ok s' xs' pd \<and> set xs' = set xs \<union> frames (mem s) pd j k
     \<and> set xs' \<union> pages_of (mem s') pd \<subseteq> set xs \<union> pages_of (mem s) pd
     \<and> (\<forall>va. vmap (mem s') pd va = (if j \<le> unat va div 4096 \<and> unat va div 4096 < k then None else vmap (mem s) pd va))
     \<and> (\<forall>va e x. unat va < 4096 * j \<and> vmap (mem s) pd va = Some e \<and> in_page (P2V (PTE_ADDR e)) x \<longrightarrow> mem s' x = mem s x)
     \<and> s' = s\<lparr>mem := mem s', freelist := freelist s', mach := mach s'\<rparr>"
proof -
  have pt: "pt_ok s xs pd" using sp by (simp add: space_ok_def)
  have un: "unat newsz < unat oldsz" using lt(1) by (simp add: word_less_nat_alt)
  have a0: "unat (PGROUNDUP newsz) = 4096 * j" using PGROUNDUP_nat[of newsz] un lt(2) by (simp add: j)
  have ol: "\<forall>i. i < k \<longleftrightarrow> 4096 * i < unat oldsz" unfolding k by (rule upto_pages)
  have k80: "k \<le> 0x80000" using lt(2) by (simp add: k)
  have jk: "j \<le> k" using un by (simp add: j k div_le_mono)
  obtain s' xs' where r: "deallocuvm_loop pd (PGROUNDUP newsz) oldsz s = Ok () s'" "space_ok s' xs' pd" "set xs' = set xs \<union> frames (mem s) pd j k"
     "\<forall>vb. vmap (mem s') pd vb = (if j \<le> unat vb div 4096 \<and> unat vb div 4096 < k then None else vmap (mem s) pd vb)"
     "s' = s\<lparr>mem := mem s', freelist := freelist s', mach := mach s'\<rparr>"
     "\<forall>x. (\<forall>q \<in> tbl (mem s) pd ` tables (mem s) pd \<union> frames (mem s) pd j k. \<not> in_page q x) \<longrightarrow> mem s' x = mem s x"
     "tables (mem s') pd = tables (mem s) pd" "tbl (mem s') pd ` tables (mem s) pd = tbl (mem s) pd ` tables (mem s) pd"
    using deallocuvm_loop_ok[OF sp ol k80 a0] by (elim exE conjE) (rule that, assumption+)
  have keep: "mem s' x = mem s x" if H: "unat va < 4096 * j" "vmap (mem s) pd va = Some e" "in_page (P2V (PTE_ADDR e)) x" for va e x
  proof -
    have va: "unat va < 0x80000000" "unat va div 4096 < j" using H(1) jk k80 by (simp_all add: div_less_iff_less_mult mult.commute)
    note S = space_okD[OF sp va(1) H(2)]
    have "\<not> in_page q x" if q: "q \<in> tbl (mem s) pd ` tables (mem s) pd \<union> frames (mem s) pd j k" for q
    proof (cases "q \<in> foot s xs pd")
      case True
      then show ?thesis using off_page[OF pt page_okD(1)[OF S(1)] S(2) H(3)] by blast
    next
      case False
      then have "q \<in> frames (mem s) pd j k" using q by (auto simp: foot_def)
      then obtain vb f where f: "q = P2V (PTE_ADDR f)" "j \<le> unat vb div 4096" "unat vb div 4096 < k" "vmap (mem s) pd vb = Some f" by (rule framesE)
      have vb: "unat vb < 0x80000000" using f(3) k80 by (simp add: div_less_iff_less_mult)
      have ne: "P2V (PTE_ADDR e) \<noteq> q" using S(4)[OF vb f(4)] f(1,2) va(2) by (auto simp: P2V_def)
      show ?thesis using page_disjoint[OF page_okD(1)[OF S(1)] _ H(3), of q] page_okD(1)[OF space_okD(1)[OF sp vb f(4)]] ne f(1) by auto
    qed
    then show ?thesis using r(6) by blast
  qed
  have own: "set xs' \<union> pages_of (mem s') pd \<subseteq> set xs \<union> pages_of (mem s) pd"
  proof -
    have v: "vmap (mem s) pd va = Some e" if "vmap (mem s') pd va = Some e" for va e using spec[OF r(4), of va] that by (cases "j \<le> unat va div 4096 \<and> unat va div 4096 < k") simp_all
    have "frames (mem s') pd 0 0x80000 \<subseteq> frames (mem s) pd 0 0x80000" "frames (mem s) pd j k \<subseteq> frames (mem s) pd 0 0x80000"
      using frames_mono[of 0 0 "0x80000" "0x80000" "mem s'" pd "mem s"] frames_mono[of 0 j k "0x80000" "mem s" pd "mem s"] v k80 by simp_all
    then show ?thesis by (auto simp: pages_of_def r(3,7,8))
  qed
  have de: "deallocuvm pd oldsz newsz s = Ok newsz s'" using r(1) un by (simp add: deallocuvm_def word_le_nat_alt)
  show ?thesis
  proof (rule exI[of _ s'], rule exI[of _ xs'], intro conjI allI impI de r(2) r(3) own r(5))
    fix va e x assume "unat va < 4096 * j \<and> vmap (mem s) pd va = Some e \<and> in_page (P2V (PTE_ADDR e)) x"
    then show "mem s' x = mem s x" by (elim conjE) (rule keep)
  qed (use r(4) in simp)
qed

lemma record_cr3: "cr3 u = c \<Longrightarrow> u\<lparr>cr3 := c\<rparr> = u"
  by (cases u) simp

lemma shrink_step:
  assumes ok: "process_ok s xs i" and z: "z = sz (procs s ! i)" and n: "s_lt n 0" "unat (- n) \<le> unat z"
    and j: "j = (unat z - unat (- n) + 4095) div 4096"
  shows "unat (z + n) = unat z - unat (- n)"
    "\<exists>t ys. deallocuvm (pgdir (procs s ! i)) z (z + n) s = Ok (z + n) t \<and> space_ok t ys (pgdir (procs s ! i)) \<and> procs t = procs s
     \<and> set ys = set xs \<union> frames (mem s) (pgdir (procs s ! i)) j ((unat z + 4095) div 4096)
     \<and> set ys \<union> pages_of (mem t) (pgdir (procs s ! i)) \<subseteq> set xs \<union> pages_of (mem s) (pgdir (procs s ! i))
     \<and> (\<forall>va. unat va < 0x80000000 \<longrightarrow> vmap (mem t) (pgdir (procs s ! i)) va = (if unat va < 4096 * j then vmap (mem s) (pgdir (procs s ! i)) va else None))
     \<and> (\<forall>va e x. unat va < 4096 * j \<and> vmap (mem s) (pgdir (procs s ! i)) va = Some e \<and> in_page (P2V (PTE_ADDR e)) x \<longrightarrow> mem t x = mem s x)"
proof -
  let ?pd = "pgdir (procs s ! i)" and ?k = "(unat z + 4095) div 4096"
  note P = process_okD[OF ok]
  have n0: "unat (- n) \<noteq> 0" using n(1) by (auto simp: unat_0_iff s_lt_def)
  show uz: "unat (z + n) = unat z - unat (- n)" using unat_sub_if'[of z "- n"] n(2) by simp
  have "unat (z + n) < unat z" using n(2) n0 uz by linarith
  then have lt: "z + n < z" "unat z \<le> 0x80000000" using P(5) z by (simp_all add: word_less_nat_alt)
  have jz: "j = (unat (z + n) + 4095) div 4096" by (simp add: j uz)
  obtain t ys where t: "deallocuvm ?pd z (z + n) s = Ok (z + n) t" "space_ok t ys ?pd" "set ys = set xs \<union> frames (mem s) ?pd j ?k"
     "set ys \<union> pages_of (mem t) ?pd \<subseteq> set xs \<union> pages_of (mem s) ?pd"
     "\<forall>va. vmap (mem t) ?pd va = (if j \<le> unat va div 4096 \<and> unat va div 4096 < ?k then None else vmap (mem s) ?pd va)"
     "\<forall>va e x. unat va < 4096 * j \<and> vmap (mem s) ?pd va = Some e \<and> in_page (P2V (PTE_ADDR e)) x \<longrightarrow> mem t x = mem s x"
     "t = s\<lparr>mem := mem t, freelist := freelist t, mach := mach t\<rparr>"
    using deallocuvm_ok[OF P(4) lt jz refl] by (elim exE conjE) (rule that, assumption+)
  have "procs t = procs s" by (subst t(7)) simp
  moreover have "vmap (mem t) ?pd va = (if unat va < 4096 * j then vmap (mem s) ?pd va else None)" if va: "unat va < 0x80000000" for va
    using spec[OF t(5), of va] P(9)[OF va] by (auto simp: z[symmetric] div_less_iff_less_mult mult.commute not_less)
  ultimately show "\<exists>t ys. deallocuvm ?pd z (z + n) s = Ok (z + n) t \<and> space_ok t ys ?pd \<and> procs t = procs s \<and> set ys = set xs \<union> frames (mem s) ?pd j ?k
     \<and> set ys \<union> pages_of (mem t) ?pd \<subseteq> set xs \<union> pages_of (mem s) ?pd
     \<and> (\<forall>va. unat va < 0x80000000 \<longrightarrow> vmap (mem t) ?pd va = (if unat va < 4096 * j then vmap (mem s) ?pd va else None))
     \<and> (\<forall>va e x. unat va < 4096 * j \<and> vmap (mem s) ?pd va = Some e \<and> in_page (P2V (PTE_ADDR e)) x \<longrightarrow> mem t x = mem s x)"
    using t(1,2,3,4,6) by blast
qed

text \<open>(C27) \<open>growproc\<close> with a negative argument smaller than the size: the process gets the new size and stays well formed, the frames of
  the pages above it go back to the free list and no others, and the remaining pages keep their place and their contents.\<close>

theorem growproc_shrinks:
  assumes q: "quiet s" and cur: "running s = Some i" and ok: "process_ok s xs i" and z: "z = sz (procs s ! i)"
    and n: "s_lt n 0" "unat (- n) < unat z" and j: "j = (unat z - unat (- n) + 4095) div 4096"
  shows "\<exists>s' xs'. growproc n s = Ok 0 s' \<and> process_ok s' xs' i \<and> sz (procs s' ! i) = z + n
     \<and> set xs' = set xs \<union> frames (mem s) (pgdir (procs s ! i)) j ((unat z + 4095) div 4096)
     \<and> (\<forall>va a. unat va < 4096 * j \<and> mmu False (s\<lparr>cr3 := V2P (pgdir (procs s ! i))\<rparr>) va = Some a \<longrightarrow> mmu False s' va = Some a \<and> mem s' a = mem s a)
     \<and> (\<forall>l. l \<noteq> i \<longrightarrow> procs s' ! l = procs s ! l)"
proof -
  let ?p = "procs s ! i" and ?pd = "pgdir (procs s ! i)" and ?k = "(unat z + 4095) div 4096"
  note P = process_okD[OF ok]
  have cr: "curproc s = Ok i s" using curproc_ok[OF _ cur] quietD(1,2)[OF q] by simp
  note S = shrink_step[OF ok z n(1) less_imp_le[OF n(2)] j]
  obtain t ys where t: "deallocuvm ?pd z (z + n) s = Ok (z + n) t" "space_ok t ys ?pd" "procs t = procs s" "set ys = set xs \<union> frames (mem s) ?pd j ?k"
     "set ys \<union> pages_of (mem t) ?pd \<subseteq> set xs \<union> pages_of (mem s) ?pd"
     "\<forall>va. unat va < 0x80000000 \<longrightarrow> vmap (mem t) ?pd va = (if unat va < 4096 * j then vmap (mem s) ?pd va else None)"
     "\<forall>va e x. unat va < 4096 * j \<and> vmap (mem s) ?pd va = Some e \<and> in_page (P2V (PTE_ADDR e)) x \<longrightarrow> mem t x = mem s x"
    using S(2) by (elim exE conjE) (rule that, assumption+)
  obtain u where u: "switchuvm (Some i) (upd_proc i (\<lambda>p. p\<lparr>sz := z + n\<rparr>) t) = Ok () u" "space_ok u ys ?pd" "mem u = mem t" "cr3 u = V2P ?pd"
     "procs u = (procs s)[i := ?p\<lparr>sz := z + n\<rparr>]"
    using process_switch[of i t ys "z + n", unfolded t(3), OF P(1,3) t(2)] by (elim exE conjE) (rule that, assumption+)
  have "z + n \<noteq> 0" using S(1) n(2) by (metis diff_is_0_eq not_less unat_0)
  moreover have "\<not> s_lt 0 n" using n(1) by (simp add: s_lt_def)
  ultimately have g: "growproc n s = Ok 0 u" using t(1) u(1) n(1) by (simp add: growproc_def cr Let_def z[symmetric])
  have ui: "procs u ! i = ?p\<lparr>sz := z + n\<rparr>" "length (procs u) = length (procs s)" using P(1) by (simp_all add: u(5))
  have jz: "j = (unat (z + n) + 4095) div 4096" by (simp add: j S(1))
  have jk: "j \<le> ?k" "?k \<le> 0x80000" using P(5) z by (simp_all add: j div_le_mono)
  have pal: "?pd mod PGSIZE = 0" by (rule page_okD(1)[OF P(10)])
  have ex: "vmap (mem t) ?pd va \<noteq> None \<longleftrightarrow> unat va div 4096 < j" if va: "unat va < 0x80000000" for va
    using mp[OF spec[OF t(6), of va] va] P(9)[OF va] jk(1) by (auto simp: z[symmetric] div_less_iff_less_mult mult.commute)
  have mu: "mmu False u va = mmu False (t\<lparr>cr3 := V2P ?pd\<rparr>) va" for va
    using mmu_cong[OF u(3), of False "V2P ?pd"] record_cr3[OF u(4)] by simp
  have keep: "mmu False u va = Some a \<and> mem u a = mem s a" if H: "unat va < 4096 * j \<and> mmu False (s\<lparr>cr3 := V2P ?pd\<rparr>) va = Some a" for va a
  proof -
    obtain e where e: "vmap (mem s) ?pd va = Some e" "a = P2V (PTE_ADDR e) + (va AND 0xFFF)" using H by (auto simp: mmu_vmap[OF pal])
    have va: "unat va < 0x80000000" using H jk by linarith
    then have "vmap (mem t) ?pd va = Some e" using mp[OF spec[OF t(6), of va] va] H e(1) by simp
    then have "mmu False u va = Some a" by (simp add: mu mmu_vmap[OF pal] e(2))
    moreover have "mem t a = mem s a" using t(7) H e(1) in_page_off unfolding e(2) by blast
    ultimately show ?thesis by (simp add: u(3))
  qed
  have pu: "process_ok u ys i" unfolding process_ok_def ui u(3) using P(1,2,3,5,6,7,8) u(2) ex t(5) jz S(1) z by auto
  show ?thesis
  proof (rule exI[of _ u], rule exI[of _ ys], intro conjI allI impI g pu t(4))
    fix va a assume "unat va < 4096 * j \<and> mmu False (s\<lparr>cr3 := V2P ?pd\<rparr>) va = Some a"
    then show "mmu False u va = Some a" "mem u a = mem s a" using keep by blast+
  qed (use ui(1) u(5) in simp_all)
qed

text \<open>(C37) Shrinking a process to nothing goes wrong: \<open>growproc\<close> takes the new size \<open>0\<close> for the error value of \<open>deallocuvm\<close>.  When the argument
  is minus the size, it reports failure after all user memory has been unmapped and its frames freed, and leaves the old size in the
  process, so that the size no longer describes the address space.\<close>

theorem growproc_all_fails:
  assumes q: "quiet s" and cur: "running s = Some i" and ok: "process_ok s xs i" and z: "z = sz (procs s ! i)" and n: "s_lt n 0" "z + n = 0"
  shows "\<exists>s' xs'. growproc n s = Ok (- 1) s' \<and> procs s' = procs s \<and> space_ok s' xs' (pgdir (procs s ! i))
     \<and> set xs' = set xs \<union> frames (mem s) (pgdir (procs s ! i)) 0 ((unat z + 4095) div 4096)
     \<and> (\<forall>va. unat va < 0x80000000 \<longrightarrow> mmu False (s'\<lparr>cr3 := V2P (pgdir (procs s ! i))\<rparr>) va = None) \<and> \<not> process_ok s' xs' i"
proof -
  let ?pd = "pgdir (procs s ! i)"
  note P = process_okD[OF ok]
  have cr: "curproc s = Ok i s" using curproc_ok[OF _ cur] quietD(1,2)[OF q] by simp
  have nz: "- n = z" using n(2) by (metis eq_neg_iff_add_eq_0)
  have j0: "0 = (unat z - unat (- n) + 4095) div 4096" by (simp add: nz)
  obtain t ys where t: "deallocuvm ?pd z (z + n) s = Ok (z + n) t" "space_ok t ys ?pd" "procs t = procs s" "set ys = set xs \<union> frames (mem s) ?pd 0 ((unat z + 4095) div 4096)"
     "\<forall>va. unat va < 0x80000000 \<longrightarrow> vmap (mem t) ?pd va = None"
    using shrink_step(2)[OF ok z n(1) eq_imp_le j0] nz by simp (elim exE conjE, rule that, assumption+)
  have "\<not> s_lt 0 n" using n(1) by (simp add: s_lt_def)
  then have g: "growproc n s = Ok (- 1) t" using t(1) n by (simp add: growproc_def cr Let_def z[symmetric])
  have pal: "?pd mod PGSIZE = 0" by (rule page_okD(1)[OF P(10)])
  have "z \<noteq> 0" using n by (auto simp: s_lt_def)
  then have "0 < (unat z + 4095) div 4096" by (simp add: div_greater_zero_iff unat_gt_0 Suc_le_eq)
  then have "\<not> process_ok t ys i" using process_okD(9)[of t ys i 0] spec[OF t(5), of 0] by (auto simp: t(3) z[symmetric])
  then show ?thesis using g t(2,3,4,5) by (intro exI[of _ t] exI[of _ ys]) (simp add: mmu_vmap[OF pal])
qed

text \<open>(C12) \<open>freevm\<close> gives back exactly the pages of an address space: it does not panic, and afterwards the free list holds, besides what it
  held, the page directory, each of its page tables and each frame mapped below \<open>KERNBASE\<close>, once each.\<close>

theorem freevm_returns_pages:
  assumes "space_ok s xs pd"
  shows "\<exists>s' xs'. freevm pd s = Ok () s' \<and> kmem_inv s' xs' \<and> distinct xs' \<and> set xs' = set xs \<union> pages_of (mem s) pd"
  using freevm_ok[OF assms] unfolding kmem_inv_def by blast

section \<open>A process to run the theorems on\<close>

lemma below_kend:
  assumes "page_ok s q" "unat x < unat (kend s)" "KERNBASE < kend s"
  shows "\<not> in_page q x"
proof -
  have q: "unat (kend s) \<le> unat q" "unat (V2P q) < 0xE000000" using assms(1) page_okD(4)[OF assms(1)] by (simp_all add: page_ok_def word_le_nat_alt not_less)
  have "unat q < 0x8E000000" "0x80000000 < unat (kend s)" using q assms(3) by (auto simp: V2P_def unat_sub_if' word_less_nat_alt split: if_splits)
  moreover have "unat (x - q) = 2 ^ 32 + unat x - unat q" using q(1) assms(2) by (simp add: unat_sub_if')
  ultimately show ?thesis using assms(2) q(1) by (simp add: in_page_def)
qed

lemma space_pages:
  assumes sp: "space_ok s xs pd" and q: "q \<in> set xs \<union> pages_of (mem s) pd"
  shows "page_ok s q"
proof -
  have pt: "pt_ok s xs pd" using sp by (simp add: space_ok_def)
  note D = pt_okD[OF pt]
  consider "q \<in> set xs" | "q = pd" | i where "i \<in> tables (mem s) pd" "q = tbl (mem s) pd i" | "q \<in> frames (mem s) pd 0 0x80000"
    using q by (auto simp: pages_of_def)
  then show ?thesis
  proof cases
    case 4
    then obtain va e where v: "q = P2V (PTE_ADDR e)" "unat va div 4096 < 0x80000" "vmap (mem s) pd va = Some e" by (rule framesE)
    then have "unat va < 0x80000000" by (simp add: div_less_iff_less_mult)
    then show ?thesis using space_okD(1)[OF sp _ v(3)] v(1) by simp
  qed (use D(2,5,11) in auto)
qed

lemma free_pages: "\<exists>m f xs. kmem_inv (calm\<lparr>mem := m, freelist := f\<rparr>) xs \<and> length xs = 8000"
proof -
  have k0: "kmem_inv boot_kernel []" by (simp add: kmem_inv_def boot_kernel_def)
  let ?p = "0x80400000 :: addr" and ?e = "0x82340000 :: addr"
  have p: "PGROUNDUP ?p = ?p" by (simp add: PGROUNDUP_def)
  obtain s where s: "kmem_inv s (rev (pages_in ?p ?e) @ [])" "kend s = kend boot_kernel"
    using freerange_pages[OF k0, of ?p ?e] unfolding p by (auto simp: boot_kernel_def)
  let ?t = "calm\<lparr>mem := mem s, freelist := freelist s\<rparr>"
  have "kend ?t = kend s" by (simp add: s(2) calm_def one_running_def)
  then have "page_ok ?t = page_ok s" by (rule page_ok_cong)
  then have "kmem_inv ?t (rev (pages_in ?p ?e))" using s(1) calm_mach by (simp add: kmem_inv_def)
  moreover have "length (rev (pages_in ?p ?e)) = 8000" by (simp add: pages_in_def)
  ultimately show ?thesis by blast
qed

definition demo_process :: "memory \<Rightarrow> addr \<Rightarrow> addr \<Rightarrow> kernel" where
  "demo_process m f pd = calm\<lparr>mem := m, freelist := f, nextpid := 2, files := (files calm)[0 := (files calm ! 0)\<lparr>f_ref := 1\<rparr>],
     procs := (proc0\<lparr>pstate := RUNNING, pid := 1, sz := 8000, pgdir := pd, kstack := 0x80110000, tf := 0x80110FB4,
       ofile := Some 0 # replicate 15 None, cwd := Some 0\<rparr>) # replicate 63 proc0\<rparr>"

lemma demo_process_simps:
  "quiet (demo_process m f pd)" "running (demo_process m f pd) = Some 0" "data_ok (demo_process m f pd)" "kend (demo_process m f pd) = 0x80115000"
  "first_idx (\<lambda>p. pstate p = UNUSED) (procs (demo_process m f pd)) = Some 1" "ofile (procs (demo_process m f pd) ! 1) = replicate 16 None"
  "refs_ok (ofile (procs (demo_process m f pd) ! 0)) (files (demo_process m f pd)) 16" "sz (procs (demo_process m f pd) ! 0) = 8000"
  "pgdir (procs (demo_process m f pd) ! 0) = pd" "nextpid (demo_process m f pd) = 2"
proof -
  have "mach (demo_process m f pd) = mach calm" by (simp add: demo_process_def)
  from quiet_frame[OF this] show "quiet (demo_process m f pd)" "running (demo_process m f pd) = Some 0" by blast+
  show "data_ok (demo_process m f pd)" "kend (demo_process m f pd) = 0x80115000" "sz (procs (demo_process m f pd) ! 0) = 8000"
    "pgdir (procs (demo_process m f pd) ! 0) = pd" "nextpid (demo_process m f pd) = 2"
    by (simp_all add: demo_process_def data_ok_def calm_def one_running_def boot_kernel_def)
  show "first_idx (\<lambda>p. pstate p = UNUSED) (procs (demo_process m f pd)) = Some 1" "ofile (procs (demo_process m f pd) ! 1) = replicate 16 None"
    by (simp_all add: demo_process_def numeral_eq_Suc proc0_def)
  show "refs_ok (ofile (procs (demo_process m f pd) ! 0)) (files (demo_process m f pd)) 16"
    by (simp add: demo_process_def refs_ok_def calm_def one_running_def boot_kernel_def)
qed

lemma demo_process_ok: "\<exists>m f pd xs. process_ok (demo_process m f pd) xs 0 \<and> 4000 \<le> length xs"
proof -
  obtain m f xs where k: "kmem_inv (calm\<lparr>mem := m, freelist := f\<rparr>) xs" "length xs = 8000" using free_pages by blast
  obtain pd ys where xs: "xs = pd # ys" using k(2) by (cases xs) auto
  let ?s = "calm\<lparr>mem := m, freelist := f\<rparr>"
  have s: "data_ok ?s" "KERNBASE < kend ?s" "1024 \<le> length ys" using k(2) by (simp_all add: xs data_ok_def calm_def one_running_def boot_kernel_def)
  obtain t zs where t: "space_ok t zs pd" "length zs + 1024 = length ys + missing t pd" "\<forall>va. vmap (mem t) pd va = seg_map (kmap ?s) va"
     "t = ?s\<lparr>mem := mem t, freelist := freelist t, mach := mach t\<rparr>"
    using setup_space[OF k(1)[unfolded xs] s] by (elim exE conjE) (rule that, assumption+)
  have fr: "\<forall>va. 4096 * 0 \<le> unat va \<and> unat va < 4096 * 2 \<longrightarrow> vmap (mem t) pd va = None" using t(3) kmap_ok(3)[OF s(1)] by simp
  have jn: "0 = (unat (0 :: 32 word) + 4095) div 4096" "2 = (unat (8000 :: 32 word) + 4095) div 4096" by simp_all
  have room: "missing t pd + (2 - 0) \<le> length zs" using t(2) k(2) by (simp add: xs)
  have mi: "missing t pd \<le> 1024" using card_mono[of "{..<1024}" "{..<1024} - tables (mem t) pd"] by (simp add: missing_def)
  obtain u ws where u: "space_ok u ws pd" "vm_step 2 pd t zs u ws"
     "\<forall>va. unat va < 8192 \<longrightarrow> (\<exists>a. mmu True (u\<lparr>cr3 := V2P pd\<rparr>) va = Some a \<and> mem u a = 0)"
     "\<forall>va. \<not> unat va < 8192 \<longrightarrow> vmap (mem u) pd va = vmap (mem t) pd va"
    using allocuvm_ok[OF t(1) _ _ jn fr room] by simp (elim exE conjE, rule that, assumption+)
  note st = vm_stepD[OF u(2)]
  let ?d = "demo_process (mem u) (freelist u) pd"
  have ke: "kend u = 0x80115000" by (subst st(6), simp, subst t(4), simp add: calm_def one_running_def boot_kernel_def)
  have D: "mem ?d = mem u" "freelist ?d = freelist u" "kend ?d = kend u" "mach ?d = mach calm" "procs ?d ! 0 = proc0\<lparr>pstate := RUNNING, pid := 1, sz := 8000, pgdir := pd,
       kstack := 0x80110000, tf := 0x80110FB4, ofile := Some 0 # replicate 15 None, cwd := Some 0\<rparr>" "length (procs ?d) = 64"
    by (simp_all add: ke demo_process_simps(4)) (simp_all add: demo_process_def)
  have sp: "space_ok ?d ws pd" by (rule space_cong[OF u(1) D(1-3)]) (simp_all add: D(4) calm_mach)
  have pal: "pd mod PGSIZE = 0" using u(1) page_okD(1) pt_okD(2) unfolding space_ok_def by blast
  have ex: "vmap (mem u) pd va \<noteq> None \<longleftrightarrow> unat va div 4096 < 2" if va: "unat va < 0x80000000" for va
  proof (cases "unat va < 8192")
    case True
    then obtain a where "mmu False (u\<lparr>cr3 := V2P pd\<rparr>) va = Some a" using u(3) mmu_weaken by blast
    then show ?thesis using True by (auto simp: mmu_vmap[OF pal] div_less_iff_less_mult)
  next
    case False
    then show ?thesis using u(4) t(3) kmap_ok(3)[OF s(1), of va] va by (simp add: div_less_iff_less_mult)
  qed
  have tf: "\<forall>q \<in> set ws \<union> pages_of (mem u) pd. \<not> in_page q 0x80110FB4"
    using space_pages[OF u(1)] below_kend[of u _ "0x80110FB4"] by (auto simp: ke)
  have "process_ok ?d ws 0" unfolding process_ok_def D(1,5,6) using sp ex tf by simp
  moreover have "4000 \<le> length ws" using st(5) t(2) k(2) mi by (simp add: xs)
  ultimately show ?thesis by blast
qed

theorem fork_child_witness:
  "\<exists>m f pd s' dir. fork (demo_process m f pd) = Ok 2 s' \<and> pstate (procs s' ! 1) = RUNNABLE \<and> sz (procs s' ! 1) = 8000 \<and> pgdir (procs s' ! 1) = dir
     \<and> i_ref (inodes s' ! 0) = i_ref (inodes (demo_process m f pd) ! 0) + 1 \<and> nextpid s' = 3
     \<and> same_memory (demo_process m f pd) pd s' dir \<and> separate s' pd dir"
proof -
  obtain m f pd xs where d: "process_ok (demo_process m f pd) xs 0" "4000 \<le> length xs" using demo_process_ok by blast
  let ?d = "demo_process m f pd"
  note S = demo_process_simps[of m f pd]
  have room: "1026 + (unat (sz (procs ?d ! 0)) + 4095) div 4096 \<le> length xs" using d(2) by (simp add: S(8))
  have D: "cwd (procs ?d ! 0) = Some 0" "length (procs ?d) = 64" "length (inodes ?d) = 50" by (simp_all add: demo_process_def calm_def one_running_def boot_kernel_def)
  from fork_child[OF S(1,2) d(1) S(5,6,7,3) room D(1)] obtain s' dir k where s': "fork ?d = Ok 2 s'" "s' = fork_effect ?d 0 1 0 dir k s'"
     "same_memory ?d pd s' dir" "separate s' pd dir"
    unfolding S(9,10) by (elim exE conjE) (rule that, assumption+)
  have "procs s' = procs (fork_effect ?d 0 1 0 dir k s')" "inodes s' = inodes (fork_effect ?d 0 1 0 dir k s')" "nextpid s' = nextpid (fork_effect ?d 0 1 0 dir k s')"
    using s'(2) by simp_all
  then have "pstate (procs s' ! 1) = RUNNABLE \<and> sz (procs s' ! 1) = 8000 \<and> pgdir (procs s' ! 1) = dir \<and> i_ref (inodes s' ! 0) = i_ref (inodes ?d ! 0) + 1 \<and> nextpid s' = 3"
    by (simp add: fork_effect_def child_of_def D S(8,10))
  then show ?thesis using s'(1,3,4) by blast
qed

theorem growproc_grows_witness:
  "\<exists>m f pd s'. growproc 5000 (demo_process m f pd) = Ok 0 s' \<and> sz (procs s' ! 0) = 13000
     \<and> (\<forall>va. 8192 \<le> unat va \<and> unat va < 16384 \<longrightarrow> (\<exists>a. mmu True s' va = Some a \<and> mem s' a = 0))"
proof -
  obtain m f pd xs where d: "process_ok (demo_process m f pd) xs 0" "4000 \<le> length xs" using demo_process_ok by blast
  let ?s = "demo_process m f pd"
  note S = demo_process_simps[of m f pd]
  have "missing ?s pd \<le> 1024" using card_mono[of "{..<1024}" "{..<1024} - tables (mem ?s) pd"] by (simp add: missing_def)
  then have room: "missing ?s pd + (4 - 2) \<le> length xs" using d(2) by simp
  have n: "s_lt 0 5000" "unat (8000 :: 32 word) + unat (5000 :: 32 word) < 0x80000000" "2 = (unat (8000 :: 32 word) + 4095) div 4096"
    "4 = (unat (8000 :: 32 word) + unat (5000 :: 32 word) + 4095) div 4096" by (simp_all add: s_lt_def)
  from growproc_grows[OF S(1,2) d(1) S(8)[symmetric] n, unfolded S(9), OF room] obtain s' where s': "growproc 5000 ?s = Ok 0 s'" "sz (procs s' ! 0) = 8000 + 5000"
     "\<forall>va. 4096 * 2 \<le> unat va \<and> unat va < 4096 * 4 \<longrightarrow> (\<exists>a. mmu True s' va = Some a \<and> mem s' a = 0)" by (elim exE conjE) (rule that, assumption+)
  then show ?thesis by (intro exI[of _ m] exI[of _ f] exI[of _ pd] exI[of _ s']) simp
qed

theorem growproc_shrinks_witness:
  "\<exists>m f pd s'. growproc (- 5000) (demo_process m f pd) = Ok 0 s' \<and> sz (procs s' ! 0) = 3000"
proof -
  obtain m f pd xs where d: "process_ok (demo_process m f pd) xs 0" using demo_process_ok by blast
  note S = demo_process_simps[of m f pd]
  have n: "s_lt (- 5000) 0" "unat (- (- 5000) :: 32 word) < unat (8000 :: 32 word)" by (simp_all add: s_lt_def)
  from growproc_shrinks[OF S(1,2) d S(8)[symmetric] n refl] obtain s' where "growproc (- 5000) (demo_process m f pd) = Ok 0 s'" "sz (procs s' ! 0) = 8000 + - 5000"
    by (elim exE conjE) (rule that, assumption+)
  then show ?thesis by (intro exI[of _ m] exI[of _ f] exI[of _ pd] exI[of _ s']) simp
qed

theorem growproc_all_fails_witness:
  "\<exists>m f pd s'. growproc (- 8000) (demo_process m f pd) = Ok (- 1) s' \<and> sz (procs s' ! 0) = 8000
     \<and> (\<forall>va. unat va < 0x80000000 \<longrightarrow> mmu False (s'\<lparr>cr3 := V2P pd\<rparr>) va = None)"
proof -
  obtain m f pd xs where d: "process_ok (demo_process m f pd) xs 0" using demo_process_ok by blast
  note S = demo_process_simps[of m f pd]
  have n: "s_lt (- 8000) 0" "(8000 :: 32 word) + - 8000 = 0" by (simp_all add: s_lt_def)
  from growproc_all_fails[OF S(1,2) d S(8)[symmetric] n] obtain s' where "growproc (- 8000) (demo_process m f pd) = Ok (- 1) s'"
     "procs s' = procs (demo_process m f pd)" "\<forall>va. unat va < 0x80000000 \<longrightarrow> mmu False (s'\<lparr>cr3 := V2P pd\<rparr>) va = None"
    unfolding S(9) by (elim exE conjE) (rule that, assumption+)
  then show ?thesis using S(8) by (intro exI[of _ m] exI[of _ f] exI[of _ pd] exI[of _ s']) simp
qed

theorem freevm_returns_pages_witness:
  "\<exists>m f pd xs. space_ok (demo_process m f pd) xs pd \<and>
     (\<exists>s' xs'. freevm pd (demo_process m f pd) = Ok () s' \<and> distinct xs' \<and> set xs' = set xs \<union> pages_of (mem (demo_process m f pd)) pd)"
proof -
  obtain m f pd xs where d: "process_ok (demo_process m f pd) xs 0" using demo_process_ok by blast
  have sp: "space_ok (demo_process m f pd) xs pd" using process_okD(4)[OF d] unfolding demo_process_simps(9) .
  from freevm_returns_pages[OF sp] show ?thesis using sp by blast
qed

end
