(* ===== verification/Umalloc.thy ===== *)
theory Umalloc
  imports Prelude
begin

text \<open>
  The memory allocator of the user library: \<open>umalloc.c\<close>.  The free list is a ring of headers in the order of their addresses;
  \<open>heap_ok\<close> is its invariant, \<open>free_units\<close> the memory in it.  \<open>free\<close> puts a block where it belongs and merges it with its neighbours,
  \<open>malloc\<close> takes the first block that is large enough or extends the process.  Both loops are shown to end: they run once round the ring.
\<close>

section \<open>The allocator\<close>

text \<open>The memory the allocator looks at: the two words of the header at each address, its variable \<open>freep\<close>, and the end of the process.\<close>

record uheap =
  h_ptr :: "addr \<Rightarrow> addr"
  h_size :: "addr \<Rightarrow> 32 word"
  h_freep :: addr
  h_brk :: addr

text \<open>The system call \<open>sbrk\<close> as a process sees it (\<open>sys_sbrk\<close> and \<open>growproc\<close>): the old size on success; \<open>room\<close> says whether the kernel finds the
  pages for a new size.\<close>

definition sbrk :: "(addr \<Rightarrow> bool) \<Rightarrow> 32 word \<Rightarrow> uheap \<Rightarrow> addr \<times> uheap" where
  "sbrk room n h =
     (let z = h_brk h in
      if s_lt 0 n then
        if z + n \<ge> 0x80000000 then (- 1, h)
        else if z + n < z then (z, h)
        else if room (z + n) then (z, h\<lparr>h_brk := z + n\<rparr>) else (- 1, h)
      else if s_lt n 0 then
        if z + n \<ge> z then (z, h) else if z + n = 0 then (- 1, h) else (z, h\<lparr>h_brk := z + n\<rparr>)
      else (z, h))"

text \<open>Pointers count in units of 8 bytes, the size of a header.  A call that does not return is \<open>None\<close>.\<close>

partial_function (option) free_loop :: "addr \<Rightarrow> addr \<Rightarrow> uheap \<Rightarrow> addr option" where
  "free_loop bp p h =
     (if p < bp \<and> bp < h_ptr h p then Some p
      else if p \<ge> h_ptr h p \<and> (bp > p \<or> bp < h_ptr h p) then Some p
      else free_loop bp (h_ptr h p) h)"

definition free :: "addr \<Rightarrow> uheap \<Rightarrow> uheap option" where
  "free ap h =
     (let bp = ap - 8 in
      Option.bind (free_loop bp (h_freep h) h) (\<lambda>p.
        let h = (if bp + 8 * h_size h bp = h_ptr h p
                 then h\<lparr>h_size := (h_size h)(bp := h_size h bp + h_size h (h_ptr h p)), h_ptr := (h_ptr h)(bp := h_ptr h (h_ptr h p))\<rparr>
                 else h\<lparr>h_ptr := (h_ptr h)(bp := h_ptr h p)\<rparr>);
            h = (if p + 8 * h_size h p = bp
                 then h\<lparr>h_size := (h_size h)(p := h_size h p + h_size h bp), h_ptr := (h_ptr h)(p := h_ptr h bp)\<rparr>
                 else h\<lparr>h_ptr := (h_ptr h)(p := bp)\<rparr>)
        in Some (h\<lparr>h_freep := p\<rparr>)))"

definition morecore :: "(addr \<Rightarrow> bool) \<Rightarrow> 32 word \<Rightarrow> uheap \<Rightarrow> (addr \<times> uheap) option" where
  "morecore room nu h =
     (let nu = (if nu < 4096 then 4096 else nu);
          (p, h) = sbrk room (nu * 8) h
      in if p = - 1 then Some (0, h)
         else map_option (\<lambda>h. (h_freep h, h)) (free (p + 8) (h\<lparr>h_size := (h_size h)(p := nu)\<rparr>)))"

partial_function (option) malloc_loop :: "(addr \<Rightarrow> bool) \<Rightarrow> 32 word \<Rightarrow> addr \<Rightarrow> addr \<Rightarrow> uheap \<Rightarrow> (addr \<times> uheap) option" where
  "malloc_loop room nunits prevp p h =
     (if h_size h p \<ge> nunits then
        if h_size h p = nunits then Some (p + 8, h\<lparr>h_ptr := (h_ptr h)(prevp := h_ptr h p), h_freep := prevp\<rparr>)
        else let n = h_size h p - nunits; q = p + 8 * n in
          Some (q + 8, h\<lparr>h_size := (h_size h)(p := n, q := nunits), h_freep := prevp\<rparr>)
      else if p = h_freep h then
        Option.bind (morecore room nunits h) (\<lambda>(p, h). if p = 0 then Some (0, h) else malloc_loop room nunits p (h_ptr h p) h)
      else malloc_loop room nunits p (h_ptr h p) h)"

text \<open>\<open>base\<close> is the address of the variable \<open>base\<close>, which holds the first header.\<close>

definition malloc :: "addr \<Rightarrow> (addr \<Rightarrow> bool) \<Rightarrow> 32 word \<Rightarrow> uheap \<Rightarrow> (addr \<times> uheap) option" where
  "malloc base room nbytes h =
     (let nunits = (nbytes + 8 - 1) div 8 + 1;
          h = (if h_freep h = 0 then h\<lparr>h_ptr := (h_ptr h)(base := base), h_freep := base, h_size := (h_size h)(base := 0)\<rparr> else h);
          prevp = h_freep h
      in malloc_loop room nunits prevp (h_ptr h prevp) h)"

section \<open>The free list\<close>

fun links :: "(addr \<Rightarrow> addr) \<Rightarrow> addr list \<Rightarrow> bool" where
  "links f (x # y # zs) \<longleftrightarrow> f x = y \<and> links f (y # zs)"
| "links f zs \<longleftrightarrow> True"

lemma links_split: "links f (xs @ y # zs) \<longleftrightarrow> links f (xs @ [y]) \<and> links f (y # zs)"
  by (induction f "xs @ [y]" arbitrary: xs rule: links.induct) (auto simp: Cons_eq_append_conv append_eq_Cons_conv)

lemma links_prefix: "links f (xs @ ys) \<Longrightarrow> links f xs"
  by (induction f xs rule: links.induct) auto

lemma links_cong: "(\<And>x. x \<in> set (butlast zs) \<Longrightarrow> f x = g x) \<Longrightarrow> links f zs = links g zs"
  by (induction f zs rule: links.induct) auto

definition extent :: "(addr \<Rightarrow> 32 word) \<Rightarrow> addr \<Rightarrow> nat" where
  "extent s x = unat x + 8 * unat (s x)"

text \<open>Blocks in the order of their addresses, none empty, with a gap between any two, above \<open>lo\<close> and up to \<open>hi\<close>.\<close>

fun spaced :: "(addr \<Rightarrow> 32 word) \<Rightarrow> nat \<Rightarrow> addr list \<Rightarrow> nat \<Rightarrow> bool" where
  "spaced s lo [] hi \<longleftrightarrow> lo \<le> hi"
| "spaced s lo (x # xs) hi \<longleftrightarrow> lo < unat x \<and> 0 < unat (s x) \<and> spaced s (extent s x) xs hi"

lemma spaced_cong: "(\<And>x. x \<in> set xs \<Longrightarrow> s x = t x) \<Longrightarrow> spaced s lo xs hi = spaced t lo xs hi"
  by (induction xs arbitrary: lo) (simp_all add: extent_def)

lemma spaced_bounds:
  "spaced s lo xs hi \<Longrightarrow> lo \<le> hi \<and> (\<forall>x \<in> set xs. lo < unat x \<and> 0 < unat (s x) \<and> extent s x \<le> hi)"
proof (induction xs arbitrary: lo)
  case (Cons x xs)
  have "extent s x \<le> hi \<and> (\<forall>y \<in> set xs. extent s x < unat y \<and> 0 < unat (s y) \<and> extent s y \<le> hi)" "lo < unat x" "0 < unat (s x)"
    using Cons.IH[of "extent s x"] Cons.prems by auto
  moreover have "unat x \<le> extent s x" by (simp add: extent_def)
  ultimately show ?case by fastforce
qed simp

definition last_end :: "(addr \<Rightarrow> 32 word) \<Rightarrow> nat \<Rightarrow> addr list \<Rightarrow> nat" where
  "last_end s lo xs = (if xs = [] then lo else extent s (last xs))"

lemma spaced_append: "spaced s lo (xs @ ys) hi \<longleftrightarrow> spaced s lo xs (last_end s lo xs) \<and> spaced s (last_end s lo xs) ys hi"
  by (induction xs arbitrary: lo) (auto simp: last_end_def)

definition stop :: "addr \<Rightarrow> addr \<Rightarrow> uheap \<Rightarrow> bool" where
  "stop bp p h \<longleftrightarrow> p < bp \<and> bp < h_ptr h p \<or> p \<ge> h_ptr h p \<and> (bp > p \<or> bp < h_ptr h p)"

lemma free_loop_stop: "stop bp p h \<Longrightarrow> free_loop bp p h = Some p"
  by (subst free_loop.simps) (auto simp: stop_def)

lemma free_loop_next: "\<not> stop bp p h \<Longrightarrow> free_loop bp p h = free_loop bp (h_ptr h p) h"
  by (subst free_loop.simps) (auto simp: stop_def)

text \<open>The elements of a ring that are passed from \<open>q\<close> on, up to and including \<open>p\<close>.\<close>

lemma ring_path:
  assumes l: "links f (zs @ [hd zs])" and q: "q \<in> set zs" and p: "p \<in> set zs"
  obtains as where "links f (as @ [p])" "hd (as @ [p]) = q" "set as \<subseteq> set zs" "p \<notin> set as"
proof -
  obtain us ws where zs: "zs = us @ q # ws" using q by (auto simp: in_set_conv_decomp)
  have l1: "links f (q # ws @ [hd zs])" using l links_split[of f us q "ws @ [hd zs]"] by (simp add: zs)
  have zc: "hd zs # tl zs = zs" using q by (cases zs) auto
  then have "links f (hd zs # tl zs)" using links_prefix[OF l] by simp
  then have path: "links f (q # ws @ zs)" using links_split[of f "q # ws" "hd zs" "tl zs"] l1 by (simp add: zc)
  have "p \<in> set (q # ws @ zs)" using p by simp
  then obtain as bs where as: "q # ws @ zs = as @ p # bs" "p \<notin> set as" by (meson split_list_first)
  have "links f (as @ [p])" using path unfolding as(1) using links_split[of f as p bs] by simp
  moreover have "hd (as @ [p]) = q" using as(1) by (cases as) auto
  moreover have "set as \<subseteq> set zs"
  proof
    fix x assume "x \<in> set as"
    then have "x \<in> set (q # ws @ zs)" unfolding as(1) by simp
    then show "x \<in> set zs" by (auto simp: zs)
  qed
  ultimately show ?thesis using that as(2) by blast
qed

lemma free_loop_walk: "links (h_ptr h) (as @ [p]) \<Longrightarrow> \<forall>x \<in> set as. \<not> stop bp x h \<Longrightarrow> free_loop bp (hd (as @ [p])) h = free_loop bp p h"
proof (induction as)
  case (Cons x as)
  then have "links (h_ptr h) (as @ [p])" "h_ptr h x = hd (as @ [p])" by (cases as; simp)+
  then show ?case using Cons free_loop_next[of bp x h] by simp
qed simp

lemma free_loop_finds:
  assumes "links (h_ptr h) (zs @ [hd zs])" "q \<in> set zs" "p \<in> set zs" "\<forall>x \<in> set zs. stop bp x h \<longleftrightarrow> x = p"
  shows "free_loop bp q h = Some p"
proof -
  obtain as where as: "links (h_ptr h) (as @ [p])" "hd (as @ [p]) = q" "set as \<subseteq> set zs" "p \<notin> set as" using ring_path[OF assms(1-3)] by blast
  have "\<forall>x \<in> set as. \<not> stop bp x h" using as(3,4) assms(4) by (metis subsetD)
  then have "free_loop bp q h = free_loop bp p h" using free_loop_walk[OF as(1), of bp] as(2) by simp
  then show ?thesis using free_loop_stop assms(3,4) by simp
qed

text \<open>In a ring in the order of addresses the loop stops at the last element below \<open>bp\<close>.\<close>

lemma sorted_last: "sorted_wrt (<) (xs :: addr list) \<Longrightarrow> x \<in> set xs \<Longrightarrow> x \<le> last xs"
  by (induction xs) (auto simp: less_imp_le)

lemma sorted_hd: "sorted_wrt (<) (xs :: addr list) \<Longrightarrow> x \<in> set xs \<Longrightarrow> hd xs \<le> x"
  by (cases xs) (auto simp: less_imp_le)

lemma stop_iff:
  assumes l: "links (h_ptr h) ((ls @ vs) @ [base])" and so: "sorted_wrt (<) (ls @ vs)" and b: "hd ls = base" "ls \<noteq> []"
    and lt: "\<forall>x \<in> set ls. x < bp" "\<forall>x \<in> set vs. bp < x" and x: "x \<in> set (ls @ vs)"
  shows "stop bp x h \<longleftrightarrow> x = last ls"
proof -
  obtain us ws where e: "ls @ vs = us @ x # ws" using x by (meson split_list)
  have nx: "h_ptr h x = hd (ws @ [base])"
    using l unfolding e using links_split[of "h_ptr h" us x "ws @ [base]"] by (cases ws) auto
  have sw: "sorted_wrt (<) ws" "\<forall>y \<in> set us. y < x" "\<forall>y \<in> set ws. x < y" using so unfolding e by (auto simp: sorted_wrt_append)
  have so': "sorted_wrt (<) ls" using so by (simp add: sorted_wrt_append)
  have ll: "last ls \<in> set ls" "last ls < bp" "\<forall>z \<in> set ls. z \<le> last ls" using b(2) lt(1) sorted_last[OF so'] by auto
  have bx: "base \<le> x" using sorted_hd[OF so x] b by simp
  have bb: "base < bp" using b lt(1) by (metis hd_in_set)
  have inl: "x \<in> set ls \<longleftrightarrow> x < bp" using x lt by (auto dest: less_not_sym)
  have ws: "z \<in> set ws" if "z \<in> set (ls @ vs)" "x < z" for z using that sw(2) unfolding e by (auto dest: less_not_sym)
  show ?thesis
  proof (cases ws)
    case Nil
    then have "h_ptr h x = base" using nx by simp
    then have "stop bp x h \<longleftrightarrow> x < bp" using bx bb by (auto simp: stop_def)
    moreover have "x = last ls" if "x < bp"
    proof -
      have "\<not> x < last ls" using ws[of "last ls"] ll(1) Nil by auto
      moreover have "x \<le> last ls" using ll(3) inl that by blast
      ultimately show ?thesis by simp
    qed
    ultimately show ?thesis using ll(2) by auto
  next
    case (Cons y ws')
    then have y: "h_ptr h x = y" "x < y" "y \<in> set (ls @ vs)" using nx sw(3) unfolding e by auto
    then have "stop bp x h \<longleftrightarrow> x < bp \<and> bp < y" by (auto simp: stop_def)
    moreover have "bp < y" if "x = last ls" using y(2,3) ll(3) lt(2) that by (auto simp: not_le[symmetric])
    moreover have "x = last ls" if "x < bp" "bp < y"
    proof (rule ccontr)
      assume "x \<noteq> last ls"
      then have "x < last ls" using ll(3) inl that(1) by (metis le_neq_trans)
      then have "y \<le> last ls" using ws[of "last ls"] ll(1) sorted_hd[OF sw(1)] Cons by auto
      then show False using ll(2) that(2) by simp
    qed
    ultimately show ?thesis using ll(2) by auto
  qed
qed

definition units :: "(addr \<Rightarrow> 32 word) \<Rightarrow> addr \<Rightarrow> nat set" where
  "units s x = {unat x..<extent s x}"

definition free_units :: "(addr \<Rightarrow> 32 word) \<Rightarrow> addr list \<Rightarrow> nat set" where
  "free_units s xs = (\<Union>x \<in> set xs. units s x)"

text \<open>The invariant: from the variable \<open>base\<close>, whose size stays zero, the pointers run through the free blocks in the order of their
  addresses and back; the blocks lie between \<open>base\<close> and the break, and adjacent blocks have been merged.\<close>

definition heap_ok :: "addr \<Rightarrow> uheap \<Rightarrow> addr list \<Rightarrow> bool" where
  "heap_ok base h xs \<longleftrightarrow> base \<noteq> 0 \<and> h_size h base = 0 \<and> h_freep h \<in> set (base # xs) \<and> links (h_ptr h) (base # xs @ [base])
     \<and> spaced (h_size h) (unat base + 7) xs (unat (h_brk h)) \<and> unat base + 7 < unat (h_brk h) \<and> unat (h_brk h) \<le> 0x80000000"

definition block_ok :: "addr \<Rightarrow> uheap \<Rightarrow> addr list \<Rightarrow> addr \<Rightarrow> bool" where
  "block_ok base h xs a \<longleftrightarrow> unat base + 7 < unat a \<and> 0 < unat (h_size h a) \<and> extent (h_size h) a \<le> unat (h_brk h)
     \<and> units (h_size h) a \<inter> free_units (h_size h) xs = {}"

lemma links_join:
  "links f (us @ [p]) \<Longrightarrow> f p = hd (ws @ [b]) \<Longrightarrow> links f (ws @ [b]) \<Longrightarrow> links f (us @ p # ws @ [b])"
  using links_split[of f us p "ws @ [b]"] by (cases ws) auto

lemma spaced_sorted: "spaced s lo xs hi \<Longrightarrow> sorted_wrt (<) xs"
proof (induction xs arbitrary: lo)
  case (Cons x xs)
  then have "spaced s (extent s x) xs hi" by simp
  note b = spaced_bounds[OF this] and ih = Cons.IH[OF this]
  have "x < y" if "y \<in> set xs" for y
  proof -
    have "extent s x < unat y" using b that by blast
    moreover have "unat x \<le> extent s x" by (simp add: extent_def)
    ultimately show ?thesis by (simp add: word_less_nat_alt)
  qed
  then show ?case using ih by simp
qed simp

lemma units_disjoint:
  assumes "units s x \<inter> units s y = {}" "unat x < unat y" "0 < unat (s x)" "0 < unat (s y)"
  shows "extent s x \<le> unat y"
proof (rule ccontr)
  assume "\<not> extent s x \<le> unat y"
  then have "unat y \<in> units s x \<inter> units s y" using assms(2-4) by (simp add: units_def extent_def)
  then show False using assms(1) by simp
qed

lemma extent_word: "extent s x < 2 ^ 32 \<Longrightarrow> unat (x + 8 * s x) = extent s x"
  unfolding extent_def by (simp add: unat_word_ariths)

lemma size_add:
  assumes "extent s x \<le> 0x80000000" "extent s y \<le> 0x80000000"
  shows "unat (s x + s y) = unat (s x) + unat (s y)"
proof -
  have "8 * unat (s x) \<le> 0x80000000" "8 * unat (s y) \<le> 0x80000000" using assms by (simp_all add: extent_def)
  then show ?thesis by (simp add: unat_word_ariths)
qed

text \<open>Where a block lies in the list.\<close>

lemma block_place:
  assumes ok: "heap_ok base h xs" and b: "block_ok base h xs a"
  obtains ls vs where "xs = ls @ vs" "\<forall>x \<in> set (base # ls). x < a" "\<forall>x \<in> set vs. a < x" "last_end (h_size h) (unat base + 7) ls \<le> unat a"
    "\<forall>x \<in> set vs. extent (h_size h) a \<le> unat x"
proof -
  let ?s = "h_size h"
  have sp: "spaced ?s (unat base + 7) xs (unat (h_brk h))" using ok by (simp add: heap_ok_def)
  note B = spaced_bounds[OF sp]
  have a: "unat base + 7 < unat a" "0 < unat (?s a)" "units ?s a \<inter> free_units ?s xs = {}" using b by (simp_all add: block_ok_def)
  have dis: "units ?s a \<inter> units ?s x = {}" "units ?s x \<inter> units ?s a = {}" "0 < unat (?s x)" if "x \<in> set xs" for x
    using a(3) that B by (auto simp: free_units_def)
  have ne: "a \<notin> set xs" using dis(1)[of a] a(2) by (auto simp: units_def extent_def)
  define ls where "ls = takeWhile (\<lambda>x. x < a) xs"
  define vs where "vs = dropWhile (\<lambda>x. x < a) xs"
  have xs: "xs = ls @ vs" by (simp add: ls_def vs_def)
  have so: "sorted_wrt (<) (ls @ vs)" using spaced_sorted[OF sp] by (simp add: xs)
  have l: "\<forall>x \<in> set ls. x < a" by (auto simp: ls_def dest: set_takeWhileD)
  have v: "\<forall>x \<in> set vs. a < x"
  proof
    fix x assume x: "x \<in> set vs"
    then have "\<not> hd vs < a" unfolding vs_def by (metis empty_iff empty_set hd_dropWhile)
    moreover have "hd vs \<le> x" using sorted_hd[of vs] so x by (simp add: sorted_wrt_append)
    moreover have "x \<noteq> a" using ne x by (auto simp: xs)
    ultimately show "a < x" by simp
  qed
  have "last_end ?s (unat base + 7) ls \<le> unat a"
  proof (cases "ls = []")
    case False
    then have "last ls \<in> set ls" by simp
    then have "unat (last ls) < unat a" "last ls \<in> set xs" using l by (simp_all add: xs word_less_nat_alt)
    then show ?thesis using units_disjoint[OF dis(2), of "last ls"] dis(3) a(2) False by (simp add: last_end_def)
  qed (use a(1) in \<open>simp add: last_end_def\<close>)
  moreover have "extent ?s a \<le> unat x" if "x \<in> set vs" for x
    using units_disjoint[OF dis(1), of x] dis(3)[of x] a(2) v that by (simp add: xs word_less_nat_alt)
  moreover have "\<forall>x \<in> set (base # ls). x < a" using l a(1) by (simp add: word_less_nat_alt)
  ultimately show ?thesis using that xs v by blast
qed

lemma free_units_simps [simp]:
  "free_units s [] = {}" "free_units s (x # xs) = units s x \<union> free_units s xs" "free_units s (xs @ ys) = free_units s xs \<union> free_units s ys"
  by (auto simp: free_units_def)

lemma free_units_cong: "(\<And>x. x \<in> set xs \<Longrightarrow> s x = t x) \<Longrightarrow> free_units s xs = free_units t xs"
  by (simp add: free_units_def units_def extent_def)

lemma units_join: "extent s x = unat y \<Longrightarrow> unat (t x) = unat (s x) + unat (s y) \<Longrightarrow> extent t x = extent s y \<and> units t x = units s x \<union> units s y"
  by (auto simp: units_def extent_def)

text \<open>Merging a block with the block above it, and with the block below it.\<close>

lemma merge_next:
  assumes sp: "spaced s lo (v # vs) hi" and hi: "hi \<le> 0x80000000" and a: "extent s a = unat v" "a \<notin> set (v # vs)"
  defines "t \<equiv> s(a := s a + s v)"
  shows "spaced t (extent t a) vs hi" "extent t a = extent s v" "units t a \<union> free_units t vs = units s a \<union> free_units s (v # vs)"
    "unat (t a) = unat (s a) + unat (s v)"
proof -
  note B = spaced_bounds[OF sp]
  have v: "extent s v \<le> hi" "unat v \<le> extent s v" using B by (simp_all add: extent_def)
  show n: "unat (t a) = unat (s a) + unat (s v)" using size_add[of s a v] a(1) v hi by (simp add: t_def)
  note J = units_join[of s a v t, OF a(1) n]
  show "extent t a = extent s v" using J by blast
  moreover have tc: "t x = s x" if "x \<in> set vs" for x using a(2) that by (auto simp: t_def)
  ultimately show "spaced t (extent t a) vs hi" using sp spaced_cong[of vs t s] by simp
  show "units t a \<union> free_units t vs = units s a \<union> free_units s (v # vs)" using J free_units_cong[of vs t s] tc by auto
qed

lemma merge_prev:
  assumes sp: "spaced s lo (ls @ [p]) (extent s p)" and vs: "spaced s (extent s a) vs hi" and hi: "hi \<le> 0x80000000"
    and a: "extent s p = unat a" and d: "p \<notin> set ls" "p \<notin> set vs" "p \<noteq> a"
  defines "t \<equiv> s(p := s p + s a)"
  shows "spaced t lo (ls @ p # vs) hi" "free_units t (ls @ p # vs) = free_units s (ls @ [p]) \<union> units s a \<union> free_units s vs"
proof -
  have e: "extent s a \<le> hi" "extent s p \<le> extent s a" using spaced_bounds[OF vs] a by (simp_all add: extent_def)
  have n: "unat (t p) = unat (s p) + unat (s a)" using size_add[of s p a] e hi by (simp add: t_def)
  note J = units_join[of s p a t, OF a n]
  have tc: "t x = s x" if "x \<in> set ls \<union> set vs" for x using d that by (auto simp: t_def)
  have le: "last_end t lo ls = last_end s lo ls" using tc by (auto simp: last_end_def extent_def)
  have s0: "spaced s lo ls (last_end s lo ls)" "last_end s lo ls < unat p" "0 < unat (s p)" using sp by (simp_all add: spaced_append)
  show "spaced t lo (ls @ p # vs) hi"
    using s0 vs J n spaced_cong[of ls t s] spaced_cong[of vs t s] tc by (simp add: spaced_append le)
  show "free_units t (ls @ p # vs) = free_units s (ls @ [p]) \<union> units s a \<union> free_units s vs"
    using J free_units_cong[of ls t s] free_units_cong[of vs t s] tc by auto
qed

lemma merge_none:
  assumes sp: "spaced s lo ls (last_end s lo ls)" and vs: "spaced s (extent s a) vs hi" and a: "last_end s lo ls < unat a" "0 < unat (s a)"
  shows "spaced s lo (ls @ a # vs) hi"
  using assms by (simp add: spaced_append)

text \<open>The first half of \<open>free\<close>, on the list above the block.\<close>

lemma insert_above:
  assumes sp: "spaced s lo vs hi" and hi: "hi \<le> 0x80000000" and a: "extent s a \<le> hi" "\<forall>x \<in> set vs. extent s a \<le> unat x" "a \<notin> set vs"
  defines "m \<equiv> vs \<noteq> [] \<and> extent s a = unat (hd vs)"
  defines "t \<equiv> if m then s(a := s a + s (hd vs)) else s" and "us \<equiv> if m then tl vs else vs"
  shows "spaced t (extent t a) us hi" "units t a \<union> free_units t us = units s a \<union> free_units s vs" "unat (s a) \<le> unat (t a)" "extent t a \<le> hi"
proof -
  have "spaced t (extent t a) us hi \<and> units t a \<union> free_units t us = units s a \<union> free_units s vs \<and> unat (s a) \<le> unat (t a)"
  proof (cases m)
    case True
    then obtain v ws where v: "vs = v # ws" "extent s a = unat v" by (cases vs) (auto simp: m_def)
    show ?thesis using merge_next[OF sp[unfolded v(1)] hi v(2) a(3)[unfolded v(1)]] True by (simp add: t_def us_def v(1))
  next
    case False
    then have "spaced s (extent s a) vs hi" using sp a(1,2) by (cases vs) (auto simp: m_def)
    then show ?thesis using False by (simp add: t_def us_def)
  qed
  then show "spaced t (extent t a) us hi" "units t a \<union> free_units t us = units s a \<union> free_units s vs" "unat (s a) \<le> unat (t a)" by blast+
  then show "extent t a \<le> hi" using spaced_bounds by blast
qed

lemma links_upd: "x \<notin> set (butlast zs) \<Longrightarrow> links (f(x := y)) zs = links f zs"
  by (rule links_cong) auto

lemma links_nth: "links f (us @ p # ws @ [b]) \<Longrightarrow> f p = hd (ws @ [b]) \<and> links f (ws @ [b]) \<and> links f (us @ [p])"
  using links_split[of f us p "ws @ [b]"] by (cases ws) auto

lemma free_ok:
  assumes ok: "heap_ok base h xs" and b: "block_ok base h xs a"
  shows "\<exists>h' xs'. free (a + 8) h = Some h' \<and> heap_ok base h' xs' \<and> free_units (h_size h') xs' = free_units (h_size h) xs \<union> units (h_size h) a
     \<and> h_brk h' = h_brk h \<and> (\<forall>x. x \<notin> set (a # xs) \<longrightarrow> h_size h' x = h_size h x)"
proof -
  let ?s = "h_size h" and ?f = "h_ptr h" and ?lo = "unat base + 7" and ?hi = "unat (h_brk h)"
  obtain ls vs where p: "xs = ls @ vs" "\<forall>x \<in> set (base # ls). x < a" "\<forall>x \<in> set vs. a < x" "last_end ?s ?lo ls \<le> unat a" "\<forall>x \<in> set vs. extent ?s a \<le> unat x"
    using block_place[OF ok b] by blast
  have H: "base \<noteq> 0" "?s base = 0" "h_freep h \<in> set (base # xs)" "links ?f (base # xs @ [base])" "spaced ?s ?lo xs ?hi" "?hi \<le> 0x80000000" "?lo < ?hi"
    using ok by (simp_all add: heap_ok_def)
  have A: "?lo < unat a" "0 < unat (?s a)" "extent ?s a \<le> ?hi" using b by (simp_all add: block_ok_def)
  have bx: "base < x" if "x \<in> set xs" for x using spaced_bounds[OF H(5)] that by (auto simp: word_less_nat_alt)
  have so: "sorted_wrt (<) ((base # ls) @ vs)" using spaced_sorted[OF H(5)] bx by (auto simp: p(1))
  define q where "q = last (base # ls)"
  define us where "us = butlast (base # ls)"
  have Z: "base # ls = us @ [q]" by (simp add: q_def us_def)
  have nota: "a \<notin> set (base # ls)" "a \<notin> set vs" "q \<noteq> a" using p(2,3) unfolding Z by auto
  have notq: "q \<notin> set us" "q \<notin> set vs" using so unfolding Z by (auto simp: sorted_wrt_append)
  have eq: "base # xs @ [base] = us @ q # vs @ [base]"
  proof -
    have "base # xs @ [base] = (base # ls) @ vs @ [base]" by (simp add: p(1))
    then show ?thesis unfolding Z by simp
  qed
  have L: "links ?f (us @ q # vs @ [base])" using H(4) unfolding eq .
  note N = links_nth[OF L]
  have "free_loop a (h_freep h) h = Some q"
  proof (rule free_loop_finds)
    show "links ?f (((base # ls) @ vs) @ [hd ((base # ls) @ vs)])" using H(4) by (simp add: p(1))
    show "h_freep h \<in> set ((base # ls) @ vs)" using H(3) by (simp add: p(1))
    show "q \<in> set ((base # ls) @ vs)" unfolding Z by simp
    show "\<forall>x \<in> set ((base # ls) @ vs). stop a x h \<longleftrightarrow> x = q"
      unfolding q_def using stop_iff[of h "base # ls" vs base a] H(4) so p(2,3) by (simp add: p(1))
  qed
  define m where "m \<longleftrightarrow> vs \<noteq> [] \<and> extent ?s a = unat (hd vs)"
  define t where "t = (if m then ?s(a := ?s a + ?s (hd vs)) else ?s)"
  define ws where "ws = (if m then tl vs else vs)"
  have "spaced ?s (last_end ?s ?lo ls) vs ?hi" and sl: "spaced ?s ?lo ls (last_end ?s ?lo ls)" using H(5) by (simp_all add: p(1) spaced_append)
  note I = insert_above[OF this(1) H(6) A(3) p(5) nota(2), folded m_def, folded t_def ws_def]
  have fa: "a + 8 * ?s a = ?f q \<longleftrightarrow> m"
  proof -
    have "a + 8 * ?s a = ?f q \<longleftrightarrow> extent ?s a = unat (?f q)" using extent_word[of ?s a] A(3) H(6) by (simp add: word_unat_eq_iff)
    moreover have "extent ?s a \<noteq> unat base" using A(1) by (simp add: extent_def)
    ultimately show ?thesis using N by (cases vs) (simp_all add: m_def)
  qed
  define h1 where "h1 = h\<lparr>h_size := t, h_ptr := ?f(a := hd (ws @ [base]))\<rparr>"
  have fv: "m \<Longrightarrow> ?f (hd vs) = hd (tl vs @ [base])" using N by (cases vs; cases "tl vs") (auto simp: m_def)
  have e1: "(if a + 8 * ?s a = ?f q
                 then h\<lparr>h_size := ?s(a := ?s a + ?s (?f q)), h_ptr := ?f(a := ?f (?f q))\<rparr>
                 else h\<lparr>h_ptr := ?f(a := ?f q)\<rparr>) = h1"
    unfolding fa using N fv by (cases vs) (auto simp: h1_def t_def ws_def m_def)
  define k where "k \<longleftrightarrow> q + 8 * t q = a"
  define h2 where "h2 = (if k then h1\<lparr>h_size := t(q := t q + t a), h_ptr := (h_ptr h1)(q := hd (ws @ [base]))\<rparr> else h1\<lparr>h_ptr := (h_ptr h1)(q := a)\<rparr>)"
  have fr: "free (a + 8) h = Some (h2\<lparr>h_freep := q\<rparr>)"
    using \<open>free_loop a (h_freep h) h = Some q\<close> by (simp add: free_def Let_def e1) (simp add: h2_def k_def h1_def)
  have tq: "t q = ?s q" "t base = ?s base" using nota by (auto simp: t_def)
  have tl: "t x = ?s x" if "x \<noteq> a" for x using that by (simp add: t_def)
  have wv: "set ws \<subseteq> set vs" unfolding ws_def by (cases vs) auto
  have aw: "a \<notin> set ws" "q \<notin> set ws" using wv nota(2) notq(2) by auto
  have lw: "links ?f (ws @ [base])" using N unfolding ws_def by (cases vs; cases "tl vs") auto
  have kk: "k \<longleftrightarrow> ls \<noteq> [] \<and> extent ?s (last ls) = unat a"
  proof (cases "ls = []")
    case True
    then show ?thesis using H(2) nota(1) by (simp add: k_def tq q_def)
  next
    case False
    then have "q \<in> set xs" "q = last ls" by (simp_all add: q_def p(1))
    then have "extent ?s q < 2 ^ 32" using spaced_bounds[OF H(5)] H(6) by fastforce
    moreover have "k \<longleftrightarrow> unat (q + 8 * ?s q) = unat a" by (simp add: k_def tq word_unat_eq_iff)
    ultimately show ?thesis using extent_word[of ?s q] False \<open>q = last ls\<close> by simp
  qed
  have tls: "t x = ?s x" if "x \<in> set ls" for x using that nota(1) tl[of x] by auto
  have st: "spaced t ?lo ls (last_end ?s ?lo ls)" using sl spaced_cong[of ls t ?s, OF tls] by simp
  have ft: "free_units t ls = free_units ?s ls" by (rule free_units_cong[OF tls])
  define xs' where "xs' = (if k then ls @ ws else ls @ a # ws)"
  have main: "spaced (h_size h2) ?lo xs' ?hi \<and> free_units (h_size h2) xs' = free_units ?s xs \<union> units ?s a \<and> links (h_ptr h2) (base # xs' @ [base]) \<and> h_size h2 base = 0
     \<and> q \<in> set (base # xs') \<and> (\<forall>x. x \<notin> set (a # xs) \<longrightarrow> h_size h2 x = ?s x)"
  proof (cases k)
    case True
    then obtain l0 where l0: "ls = l0 @ [q]" using kk by (metis append_butlast_last_id last_ConsR q_def)
    have us: "us = base # l0" using Z by (simp add: l0)
    have e: "extent t q = unat a" "last_end ?s ?lo ls = extent t q" using True kk tq(1) by (auto simp: extent_def last_end_def l0)
    have d: "q \<notin> set l0" "q \<notin> set ws" using notq wv us by auto
    have st': "spaced t ?lo (l0 @ [q]) (extent t q)" using st unfolding e(2) unfolding l0 .
    note M = merge_prev[OF st' I(1) H(6) e(1) d nota(3)]
    have x': "xs' = l0 @ q # ws" using True by (simp add: xs'_def l0)
    let ?g = "?f(a := hd (ws @ [base]), q := hd (ws @ [base]))"
    have "links ?g (us @ q # ws @ [base])"
    proof (rule links_join)
      show "links ?g (us @ [q])" using N notq(1) nota(1) Z by (simp add: links_upd)
      show "links ?g (ws @ [base])" using lw aw by (simp add: links_upd)
    qed simp
    then have "links ?g (base # xs' @ [base])" by (simp add: x' us)
    moreover have "free_units (t(q := t q + t a)) xs' = free_units ?s xs \<union> units ?s a" unfolding x' M(2) using I(2) ft by (auto simp: p(1) l0)
    moreover have "q \<noteq> base" using so by (auto simp: l0)
    ultimately show ?thesis using M(1) True H(2) nota(1) tl unfolding x' by (auto simp: h2_def h1_def tq p(1) l0)
  next
    case False
    have lt: "last_end t ?lo ls < unat a" "last_end t ?lo ls = last_end ?s ?lo ls"
    proof -
      show "last_end t ?lo ls = last_end ?s ?lo ls" using tls[of "last ls"] by (simp add: last_end_def extent_def)
      then show "last_end t ?lo ls < unat a" using False kk p(4) A(1) by (cases "ls = []") (auto simp: last_end_def)
    qed
    have ta: "0 < unat (t a)" using I(3) A(2) by linarith
    note M = merge_none[OF st[folded lt(2)] I(1) lt(1) ta]
    have x': "xs' = ls @ a # ws" using False by (simp add: xs'_def)
    let ?g = "?f(a := hd (ws @ [base]), q := a)"
    have lk: "links ?g (us @ q # (a # ws) @ [base])"
    proof (rule links_join)
      show "links ?g (us @ [q])" using N notq(1) nota(1) Z by (simp add: links_upd)
      have "links ?g (ws @ [base])" using lw aw by (simp add: links_upd)
      then show "links ?g ((a # ws) @ [base])" using nota(3) links_join[of ?g "[]" a ws base] by simp
    qed simp
    have eq': "base # xs' @ [base] = us @ q # (a # ws) @ [base]" unfolding x' using Z by (metis append.assoc append_Cons append_Nil)
    have "links ?g (base # xs' @ [base])" unfolding eq' by (rule lk)
    moreover have "free_units t xs' = free_units ?s xs \<union> units ?s a" unfolding x' using I(2) ft by (auto simp: p(1))
    moreover have "q \<in> set (base # xs')" unfolding x' using Z by (metis Un_iff list.set_intros(1) set_append append_Cons)
    ultimately show ?thesis using M False H(2) nota(1) tl unfolding x' by (auto simp: h2_def h1_def tq p(1))
  qed
  have "h_brk h2 = h_brk h" by (simp add: h2_def h1_def)
  then show ?thesis using fr main H(1,6,7) by (intro exI[of _ "h2\<lparr>h_freep := q\<rparr>"] exI[of _ xs']) (simp add: heap_ok_def)
qed

lemma spaced_weaken: "spaced s lo xs hi \<Longrightarrow> lo' \<le> lo \<Longrightarrow> hi \<le> hi' \<Longrightarrow> spaced s lo' xs hi'"
  by (induction xs arbitrary: lo lo') auto

lemma malloc_walk:
  assumes "links (h_ptr h) (q # as @ [p])" "\<forall>x \<in> set as. h_size h x < n \<and> x \<noteq> h_freep h"
  shows "malloc_loop room n q (hd (as @ [p])) h = malloc_loop room n (last (q # as)) p h"
  using assms
proof (induction as arbitrary: q)
  case (Cons x as)
  then have l: "links (h_ptr h) (x # as @ [p])" and nx: "h_ptr h x = hd (as @ [p])" by (cases as; auto)+
  have "\<not> n \<le> h_size h x" "x \<noteq> h_freep h" using Cons.prems(2) by auto
  then have "malloc_loop room n q x h = malloc_loop room n x (hd (as @ [p])) h" by (subst malloc_loop.simps) (simp add: nx)
  then show ?case using Cons.IH[OF l] Cons.prems(2) by simp
qed simp

text \<open>The elements of the ring after \<open>q\<close>, in the order in which \<open>malloc\<close> visits them.\<close>

lemma ring_after:
  assumes l: "links f (zs @ [hd zs])" and q: "q \<in> set zs" and d: "distinct zs"
  obtains rs where "links f (q # rs @ [q])" "set rs = set zs - {q}"
proof -
  obtain us ws where zs: "zs = us @ q # ws" using q by (auto simp: in_set_conv_decomp)
  have l1: "links f (q # ws @ [hd zs])" using l links_split[of f us q "ws @ [hd zs]"] by (simp add: zs)
  have "links f zs" by (rule links_prefix[OF l])
  then have l2: "links f (us @ [q])" using links_split[of f us q ws] by (simp add: zs)
  have "hd zs # tl (us @ [q]) = us @ [q]" using zs by (cases us) auto
  then have "links f ((q # ws) @ us @ [q])" using links_split[of f "q # ws" "hd zs" "tl (us @ [q])"] l1 l2 by simp
  moreover have "set (ws @ us) = set zs - {q}" using d by (auto simp: zs)
  ultimately show ?thesis using that[of "ws @ us"] by simp
qed

lemma ring_pred:
  assumes l: "links f (zs @ [base])" and d: "distinct zs" and z: "z \<in> set zs" "f z = p" "p \<noteq> base" and s: "zs = us @ q # p # ws"
  shows "z = q"
proof -
  obtain as bs where zs: "zs = as @ z # bs" using z(1) by (auto simp: in_set_conv_decomp)
  have "f z = hd (bs @ [base])" using l links_nth[of f as z bs base] by (simp add: zs)
  then obtain cs where cs: "bs = p # cs" using z(2,3) by (cases bs) auto
  have "(us @ [q]) @ p # ws = (as @ [z]) @ p # cs" using s zs cs by simp
  moreover have "p \<notin> set (us @ [q])" "p \<notin> set ws" using d unfolding s by auto
  ultimately have "us @ [q] = as @ [z]" using append_Cons_eq_iff[of p "us @ [q]" ws "as @ [z]" cs] by simp
  then show ?thesis by simp
qed

lemma spaced_apart:
  assumes "spaced s lo (l1 @ p # l2) hi"
  shows "units s p \<inter> free_units s (l1 @ l2) = {}" "\<forall>x \<in> set (l1 @ l2). unat x \<notin> units s p"
proof -
  have a: "spaced s lo l1 (last_end s lo l1)" "last_end s lo l1 < unat p" "spaced s (extent s p) l2 hi" using assms by (simp_all add: spaced_append)
  note b1 = spaced_bounds[OF a(1)] and b2 = spaced_bounds[OF a(3)]
  have 1: "\<forall>x \<in> set l1. 0 < unat (s x) \<and> extent s x < unat p" using b1 a(2) by (meson le_less_trans)
  then show "units s p \<inter> free_units s (l1 @ l2) = {}" using b2 by (fastforce simp: units_def free_units_def)
  show "\<forall>x \<in> set (l1 @ l2). unat x \<notin> units s p" using 1 b2 by (fastforce simp: units_def extent_def)
qed

lemma spaced_drop:
  assumes "spaced s lo (l1 @ p # l2) hi"
  shows "spaced s lo (l1 @ l2) hi"
proof -
  have a: "spaced s lo l1 (last_end s lo l1)" "last_end s lo l1 < unat p" "spaced s (extent s p) l2 hi" using assms by (simp_all add: spaced_append)
  then have "spaced s (last_end s lo l1) l2 hi" using spaced_weaken[OF a(3), of "last_end s lo l1" hi] by (simp add: extent_def)
  then show ?thesis using a(1) by (simp add: spaced_append)
qed

lemma heap_okD:
  assumes "heap_ok base h xs"
  shows "base \<noteq> 0" "h_size h base = 0" "h_freep h \<in> set (base # xs)" "links (h_ptr h) (base # xs @ [base])" "spaced (h_size h) (unat base + 7) xs (unat (h_brk h))"
    "unat base + 7 < unat (h_brk h)" "unat (h_brk h) \<le> 0x80000000" "sorted_wrt (<) (base # xs)" "distinct (base # xs)"
    "x \<in> set xs \<Longrightarrow> unat base + 7 < unat x \<and> 0 < unat (h_size h x) \<and> extent (h_size h) x \<le> unat (h_brk h)"
proof -
  show H: "base \<noteq> 0" "h_size h base = 0" "h_freep h \<in> set (base # xs)" "links (h_ptr h) (base # xs @ [base])" "spaced (h_size h) (unat base + 7) xs (unat (h_brk h))"
    "unat base + 7 < unat (h_brk h)" "unat (h_brk h) \<le> 0x80000000" using assms by (simp_all add: heap_ok_def)
  note B = spaced_bounds[OF H(5)]
  show "x \<in> set xs \<Longrightarrow> unat base + 7 < unat x \<and> 0 < unat (h_size h x) \<and> extent (h_size h) x \<le> unat (h_brk h)" using B by blast
  show so: "sorted_wrt (<) (base # xs)" using spaced_sorted[OF H(5)] B by (auto simp: word_less_nat_alt)
  show "distinct (base # xs)" using so strict_sorted_iff[of "base # xs"] by blast
qed

lemma malloc_take:
  assumes ok: "heap_ok base h xs" and p: "p \<in> set xs" and q: "q \<in> set (base # xs)" "h_ptr h q = p" and n: "n \<le> h_size h p" "0 < unat n"
  shows "\<exists>a h' xs'. malloc_loop room n q p h = Some (a + 8, h') \<and> heap_ok base h' xs' \<and> h_size h' a = n \<and> block_ok base h' xs' a
     \<and> units (h_size h') a \<subseteq> free_units (h_size h) xs \<and> free_units (h_size h') xs' = free_units (h_size h) xs - units (h_size h') a
     \<and> h_brk h' = h_brk h \<and> (\<forall>x. unat x \<notin> free_units (h_size h) xs \<longrightarrow> h_size h' x = h_size h x)"
proof -
  let ?s = "h_size h" and ?f = "h_ptr h" and ?lo = "unat base + 7" and ?hi = "unat (h_brk h)"
  note D = heap_okD[OF ok]
  obtain l1 l2 where xs: "xs = l1 @ p # l2" using p by (meson split_list)
  define us where "us = butlast (base # l1)"
  have Z: "base # l1 = us @ [last (base # l1)]" by (simp add: us_def)
  have zs: "base # xs = us @ last (base # l1) # p # l2" unfolding xs using Z by (metis append.assoc append_Cons append_Nil)
  have pb: "p \<noteq> base" "unat base + 7 < unat p" "0 < unat (?s p)" "extent ?s p \<le> ?hi" using D(10)[OF p] by auto
  have l': "links ?f ((base # xs) @ [base])" using D(4) by simp
  have ql: "q = last (base # l1)" by (rule ring_pred[OF l' D(9) q pb(1) zs])
  have L: "links ?f (us @ q # (p # l2) @ [base])" using D(4) zs ql by (metis append.assoc append_Cons)
  note N = links_nth[OF L]
  have N2: "?f p = hd (l2 @ [base])" "links ?f (l2 @ [base])" using N by (cases l2; auto)+
  have sp: "spaced ?s ?lo (l1 @ p # l2) ?hi" using D(5) by (simp add: xs)
  note ap = spaced_apart[OF sp]
  have dz: "distinct (us @ q # p # l2)" using D(9) zs ql by simp
  show ?thesis
  proof (cases "?s p = n")
    case True
    let ?h = "h\<lparr>h_ptr := ?f(q := ?f p), h_freep := q\<rparr>"
    have r: "malloc_loop room n q p h = Some (p + 8, ?h)" using True by (subst malloc_loop.simps) simp
    have "links (?f(q := ?f p)) (us @ q # l2 @ [base])"
    proof (rule links_join)
      show "links (?f(q := ?f p)) (us @ [q])" using N dz by (simp add: links_upd)
      show "links (?f(q := ?f p)) (l2 @ [base])" using N2 dz by (simp add: links_upd)
    qed (use N2 in simp)
    moreover have "us @ q # l2 @ [base] = base # (l1 @ l2) @ [base]" using Z ql by (metis append.assoc append_Cons append_Nil)
    moreover have "q \<in> set (base # l1 @ l2)" using ql by (cases l1) auto
    ultimately have ok': "heap_ok base ?h (l1 @ l2)" using D spaced_drop[OF sp] by (simp add: heap_ok_def)
    have fu: "free_units ?s (l1 @ l2) = free_units ?s xs - units ?s p" using ap(1) by (auto simp: xs)
    have "block_ok base ?h (l1 @ l2) p" using pb ap(1) by (simp add: block_ok_def)
    then show ?thesis using r ok' fu True by (intro exI[of _ p] exI[of _ ?h] exI[of _ "l1 @ l2"]) (auto simp: xs)
  next
    case False
    define k where "k = ?s p - n"
    define a where "a = p + 8 * k"
    have uk: "unat k = unat (?s p) - unat n" "unat n < unat (?s p)" using n(1) False by (auto simp: k_def unat_sub word_le_nat_alt word_less_nat_alt le_less word_unat_eq_iff)
    have ua: "unat a = unat p + 8 * unat k"
    proof -
      have "unat p + 8 * unat k < 2 ^ 32" using uk pb(4) D(7) by (simp add: extent_def)
      then show ?thesis by (simp add: a_def unat_word_ariths)
    qed
    have k0: "0 < unat k" using uk by simp
    have an: "a \<notin> set (base # xs)" "a \<noteq> p"
    proof -
      have "unat a \<in> units ?s p" using ua uk n(2) by (simp add: units_def extent_def)
      moreover show "a \<noteq> p" using ua k0 by auto
      moreover have "a \<noteq> base" using ua pb(2) by auto
      ultimately show "a \<notin> set (base # xs)" using ap(2) by (auto simp: xs)
    qed
    let ?t = "?s(p := k, a := n)"
    let ?h = "h\<lparr>h_size := ?t, h_freep := q\<rparr>"
    have r: "malloc_loop room n q p h = Some (a + 8, ?h)" using False n(1) by (subst malloc_loop.simps) (simp add: Let_def k_def a_def)
    have ext: "extent ?t p = unat a" "extent ?t a = extent ?s p" using an ua uk by (simp_all add: extent_def)
    have tc: "?t x = ?s x" if "x \<in> set l1 \<union> set l2" for x using that D(9) an by (auto simp: xs)
    have cut: "units ?s p = units ?t p \<union> units ?t a" "units ?t p \<inter> units ?t a = {}"
      using ext ua uk by (auto simp: units_def extent_def)
    have "last_end ?t ?lo l1 = last_end ?s ?lo l1" using tc[of "last l1"] by (auto simp: last_end_def extent_def)
    moreover have "spaced ?t (unat a) l2 ?hi"
    proof -
      have "spaced ?s (extent ?s p) l2 ?hi" using sp by (simp add: spaced_append)
      then have "spaced ?s (unat a) l2 ?hi" by (rule spaced_weaken) (use ua uk in \<open>simp_all add: extent_def\<close>)
      then show ?thesis using spaced_cong[of l2 ?t ?s] tc by blast
    qed
    ultimately have st: "spaced ?t ?lo (l1 @ p # l2) ?hi"
      using sp spaced_cong[of l1 ?t ?s] tc ext(1) k0 an(2) by (simp add: spaced_append)
    have fl: "free_units ?t l1 = free_units ?s l1" "free_units ?t l2 = free_units ?s l2" using tc by (auto intro!: free_units_cong)
    have fu: "free_units ?t xs = free_units ?s xs - units ?t a" using fl cut ap(1) by (auto simp: xs)
    have ua': "unat a \<in> units ?s p" "unat p \<in> units ?s p" using ua uk n(2) pb(3) by (simp_all add: units_def extent_def)
    have ok': "heap_ok base ?h xs" using D(1-7) q(1) st an pb(1) by (auto simp: heap_ok_def xs)
    have bl: "block_ok base ?h xs a" using pb ua n(2) fu ext(2) by (auto simp: block_ok_def)
    have "\<forall>x. unat x \<notin> free_units ?s xs \<longrightarrow> ?t x = ?s x" using ua' by (auto simp: xs)
    then show ?thesis using r ok' bl fu cut by (intro exI[of _ a] exI[of _ ?h] exI[of _ xs]) (auto simp: xs)
  qed
qed

lemma links_last: "links f (xs @ [y, p]) \<Longrightarrow> f y = p"
  using links_split[of f xs y "[p]"] by simp

lemma prefix_of_snoc: "as @ p # bs = rs @ [q] \<Longrightarrow> set as \<subseteq> set rs"
  by (cases bs rule: rev_cases) auto

lemma malloc_search:
  assumes ok: "heap_ok base h xs" and n: "0 < unat n" and e: "x \<in> set xs" "n \<le> h_size h x"
  shows "\<exists>a h' xs'. malloc_loop room n (h_freep h) (h_ptr h (h_freep h)) h = Some (a + 8, h') \<and> heap_ok base h' xs' \<and> h_size h' a = n \<and> block_ok base h' xs' a
     \<and> units (h_size h') a \<subseteq> free_units (h_size h) xs \<and> free_units (h_size h') xs' = free_units (h_size h) xs - units (h_size h') a
     \<and> h_brk h' = h_brk h \<and> (\<forall>x. unat x \<notin> free_units (h_size h) xs \<longrightarrow> h_size h' x = h_size h x)"
proof -
  let ?q = "h_freep h"
  note D = heap_okD[OF ok]
  have l: "links (h_ptr h) ((base # xs) @ [hd (base # xs)])" using D(4) by simp
  obtain rs where rs: "links (h_ptr h) (?q # rs @ [?q])" "set rs = set (base # xs) - {?q}" using ring_after[OF l D(3,9)] by blast
  have ex: "\<exists>y \<in> set (rs @ [?q]). n \<le> h_size h y" using e rs(2) by auto
  obtain as p bs where sp: "rs @ [?q] = as @ p # bs" "n \<le> h_size h p" "\<forall>y \<in> set as. \<not> n \<le> h_size h y" using split_list_first_prop[OF ex] by blast
  have sub: "set as \<subseteq> set rs" by (rule prefix_of_snoc[OF sp(1)[symmetric]])
  have la: "links (h_ptr h) (?q # as @ [p])" using rs(1) links_prefix[of "h_ptr h" "?q # as @ [p]" bs] by (simp add: sp(1))
  have nf: "\<forall>y \<in> set as. h_size h y < n \<and> y \<noteq> ?q" using sp(3) sub rs(2) by (auto simp: not_le)
  note w = malloc_walk[OF la nf, of room]
  have hp: "h_ptr h ?q = hd (as @ [p])" using la by (cases as) auto
  have "p \<in> set (rs @ [?q])" unfolding sp(1) by simp
  then have "p \<in> set (base # xs)" using rs(2) D(3) by auto
  moreover have "p \<noteq> base" using sp(2) n D(2) by (auto simp: word_le_nat_alt)
  ultimately have p: "p \<in> set xs" by simp
  have lq: "last (?q # as) \<in> set (base # xs)" using sub rs(2) D(3) last_in_set[of "?q # as"] by auto
  have "?q # as @ [p] = butlast (?q # as) @ [last (?q # as), p]" by (metis append.assoc append_Cons append_Nil append_butlast_last_id list.distinct(1))
  then have "h_ptr h (last (?q # as)) = p" using la links_last by metis
  from malloc_take[OF ok p lq this sp(2) n, of room] show ?thesis unfolding hp w .
qed

lemma malloc_full:
  assumes ok: "heap_ok base h xs" and n: "0 < unat n" and e: "\<forall>x \<in> set xs. h_size h x < n"
  shows "malloc_loop room n (h_freep h) (h_ptr h (h_freep h)) h =
     Option.bind (morecore room n h) (\<lambda>(p, h). if p = 0 then Some (0, h) else malloc_loop room n p (h_ptr h p) h)"
proof -
  let ?q = "h_freep h"
  note D = heap_okD[OF ok]
  have l: "links (h_ptr h) ((base # xs) @ [hd (base # xs)])" using D(4) by simp
  obtain rs where rs: "links (h_ptr h) (?q # rs @ [?q])" "set rs = set (base # xs) - {?q}" using ring_after[OF l D(3,9)] by blast
  have all: "h_size h y < n" if "y \<in> set (base # xs)" for y using that e D(2) n by (auto simp: word_less_nat_alt)
  have nf: "\<forall>y \<in> set rs. h_size h y < n \<and> y \<noteq> ?q" using all rs(2) by auto
  have hp: "h_ptr h ?q = hd (rs @ [?q])" using rs(1) by (cases rs) auto
  have "\<not> n \<le> h_size h ?q" using all[OF D(3)] by simp
  then show ?thesis unfolding hp malloc_walk[OF rs(1) nf] by (subst malloc_loop.simps) simp
qed

text \<open>An interval of free units lies in one block, because no two blocks touch.\<close>

lemma one_block:
  assumes sp: "spaced s lo xs hi" and i: "{u..<v} \<subseteq> free_units s xs" "u < v"
  shows "\<exists>x \<in> set xs. unat x \<le> u \<and> v \<le> extent s x"
  using assms
proof (induction xs arbitrary: lo)
  case (Cons x xs)
  have sx: "spaced s (extent s x) xs hi" using Cons.prems(1) by simp
  note B = spaced_bounds[OF sx]
  have above: "extent s x < w" if "w \<in> free_units s xs" for w using that B by (fastforce simp: free_units_def units_def)
  have u: "u \<in> units s x \<union> free_units s xs" using Cons.prems(2,3) by auto
  show ?case
  proof (cases "u \<in> units s x")
    case True
    have "v \<le> extent s x"
    proof (rule ccontr)
      assume "\<not> v \<le> extent s x"
      then have "extent s x \<in> {u..<v}" using True by (auto simp: units_def)
      then have "extent s x \<in> free_units s xs" using Cons.prems(2) by (auto simp: units_def)
      then show False using above by blast
    qed
    then show ?thesis using True by (auto simp: units_def)
  next
    case False
    then have "extent s x < u" using u above by blast
    then have "{u..<v} \<subseteq> free_units s xs" using Cons.prems(2) by (auto simp: units_def)
    then show ?thesis using Cons.IH[OF sx _ Cons.prems(3)] by auto
  qed
qed auto

lemma morecore_ok:
  assumes ok: "heap_ok base h xs" and n: "0 < unat n" "unat n < 0xF000000"
  defines "z \<equiv> unat (h_brk h)" and "k \<equiv> 8 * max 4096 (unat n)"
  shows "if z + k < 0x80000000 \<and> room (h_brk h + of_nat k)
     then \<exists>h' xs'. morecore room n h = Some (h_freep h', h') \<and> heap_ok base h' xs' \<and> unat (h_brk h') = z + k
       \<and> free_units (h_size h') xs' = free_units (h_size h) xs \<union> {z..<z + k} \<and> (\<exists>x \<in> set xs'. n \<le> h_size h' x)
       \<and> (\<forall>x. unat x \<notin> free_units (h_size h) xs \<union> {z..<z + k} \<longrightarrow> h_size h' x = h_size h x)
     else morecore room n h = Some (0, h)"
proof -
  note D = heap_okD[OF ok]
  define nu where "nu = (if n < 4096 then 4096 else n)"
  have un: "unat nu = max 4096 (unat n)" "unat nu < 0xF000000" using n by (auto simp: nu_def word_less_nat_alt max_def)
  have u8: "unat (nu * 8) = k" "nu * 8 = of_nat k" "k < 0x78000000" using un by (simp_all add: k_def unat_word_ariths max_def word_unat_eq_iff unat_of_nat split: if_splits)
  have kp: "0 < k" "unat nu * 8 = k" "unat n \<le> unat nu" using un(1) by (simp_all add: k_def)
  have "sint (nu * 8) = int (unat (nu * 8))" by (rule sint_eq_unat) (use u8(1,3) in simp)
  then have pos: "s_lt 0 (nu * 8)" unfolding s_lt_def u8(1) using kp(1) by simp
  have zk: "unat (h_brk h + nu * 8) = z + k" using u8 D(7) by (simp add: unat_word_ariths z_def)
  have ge: "h_brk h + nu * 8 \<ge> 0x80000000 \<longleftrightarrow> \<not> z + k < 0x80000000" by (simp add: word_le_nat_alt zk not_less)
  have nlt: "\<not> h_brk h + nu * 8 < h_brk h" by (simp add: word_less_nat_alt zk z_def)
  have "unat (- 1 :: 32 word) = 2 ^ 32 - 1" by (simp add: unsigned_minus_1_eq_mask mask_eq_exp_minus_1)
  then have m1: "h_brk h \<noteq> - 1" using D(7) by auto
  show ?thesis
  proof (cases "z + k < 0x80000000 \<and> room (h_brk h + of_nat k)")
    case False
    then have "sbrk room (nu * 8) h = (- 1, h)" using pos ge nlt u8(2) by (auto simp: sbrk_def Let_def)
    then have "morecore room n h = Some (0, h)" unfolding morecore_def nu_def[symmetric] by simp
    then show ?thesis unfolding if_not_P[OF False] .
  next
    case True
    let ?a = "h_brk h"
    let ?h = "h\<lparr>h_brk := ?a + nu * 8, h_size := (h_size h)(?a := nu)\<rparr>"
    have sb: "sbrk room (nu * 8) h = (?a, h\<lparr>h_brk := ?a + nu * 8\<rparr>)" using True pos ge nlt u8(2) by (simp add: sbrk_def Let_def)
    have an: "?a \<notin> set (base # xs)" using D(6,10) by (fastforce simp: extent_def)
    have same: "((h_size h)(?a := nu)) x = h_size h x" if "x \<in> set xs" for x using that an by auto
    have fx: "free_units ((h_size h)(?a := nu)) xs = free_units (h_size h) xs" by (rule free_units_cong) (rule same)
    have sp: "spaced ((h_size h)(?a := nu)) (unat base + 7) xs (z + k)"
      using spaced_weaken[OF D(5), of "unat base + 7" "z + k"] spaced_cong[of xs "(h_size h)(?a := nu)" "h_size h", OF same] by (simp add: z_def)
    have ok1: "heap_ok base ?h xs" using D(1-6) an sp True zk by (auto simp: heap_ok_def z_def)
    have ua: "units ((h_size h)(?a := nu)) ?a = {z..<z + k}" "extent ((h_size h)(?a := nu)) ?a = z + k" using kp by (simp_all add: units_def extent_def z_def mult.commute)
    have below: "w < z" if "w \<in> free_units (h_size h) xs" for w using that D(10) by (fastforce simp: free_units_def units_def z_def)
    have bl: "block_ok base ?h xs ?a" using D(6) un ua zk fx below by (fastforce simp: block_ok_def z_def)
    obtain h' xs' where r: "free (?a + 8) ?h = Some h'" "heap_ok base h' xs'" "free_units (h_size h') xs' = free_units (h_size h) xs \<union> {z..<z + k}"
       "h_brk h' = ?a + nu * 8" "\<forall>x. x \<notin> set (?a # xs) \<longrightarrow> h_size h' x = ((h_size h)(?a := nu)) x"
      using free_ok[OF ok1 bl] fx ua(1) by auto
    have mc: "morecore room n h = Some (h_freep h', h')" unfolding morecore_def nu_def[symmetric] using sb r(1) m1 by simp
    have "\<exists>x \<in> set xs'. unat x \<le> z \<and> z + k \<le> extent (h_size h') x"
      by (rule one_block[OF heap_okD(5)[OF r(2)]]) (use r(3) kp in auto)
    then obtain x where x: "x \<in> set xs'" "unat x \<le> z" "z + k \<le> unat x + 8 * unat (h_size h' x)" by (auto simp: extent_def)
    then have "n \<le> h_size h' x" using kp(2,3) by (simp add: word_le_nat_alt)
    moreover have "h_size h' x = h_size h x" if "unat x \<notin> free_units (h_size h) xs \<union> {z..<z + k}" for x
    proof -
      have "x \<noteq> ?a" using that kp(1) by (auto simp: z_def)
      moreover have "x \<notin> set xs" using that D(10) by (fastforce simp: free_units_def units_def extent_def)
      ultimately show ?thesis using r(5) by simp
    qed
    ultimately show ?thesis unfolding if_P[OF True] using mc r(2,3,4) x(1) zk by (intro exI[of _ h'] exI[of _ xs']) auto
  qed
qed

section \<open>malloc and free\<close>

text \<open>A heap with the free blocks \<open>xs\<close> and the blocks \<open>A\<close> that are in use; before the first call \<open>freep\<close> is null.\<close>

definition heap_state :: "addr \<Rightarrow> uheap \<Rightarrow> addr list \<Rightarrow> addr set \<Rightarrow> bool" where
  "heap_state base h xs A \<longleftrightarrow>
     (heap_ok base h xs \<or> h_freep h = 0 \<and> xs = [] \<and> base \<noteq> 0 \<and> unat base + 7 < unat (h_brk h) \<and> unat (h_brk h) \<le> 0x80000000)
     \<and> (\<forall>a \<in> A. block_ok base h xs a) \<and> (\<forall>a \<in> A. \<forall>b \<in> A. a \<noteq> b \<longrightarrow> units (h_size h) a \<inter> units (h_size h) b = {})"

lemma freep_nonzero: "heap_ok base h xs \<Longrightarrow> h_freep h \<noteq> 0"
  using heap_okD(1,3)[of base h xs] heap_okD(10)[of base h xs 0] by auto

lemma units_cong: "s a = t a \<Longrightarrow> units s a = units t a" "s a = t a \<Longrightarrow> extent s a = extent t a"
  by (simp_all add: units_def extent_def)

lemma block_units: "block_ok base h xs a \<Longrightarrow> unat a \<in> units (h_size h) a" "block_ok base h xs a \<Longrightarrow> units (h_size h) a \<subseteq> {..<unat (h_brk h)}"
  by (auto simp: block_ok_def units_def extent_def)

lemma block_data_nonzero:
  assumes "heap_ok base h xs" "block_ok base h xs a"
  shows "a + 8 \<noteq> 0"
proof -
  have "unat a + 8 < 2 ^ 32" using block_units[OF assms(2)] heap_okD(7)[OF assms(1)] by (fastforce simp: subset_eq)
  then have "unat (a + 8) = unat a + 8" by (simp add: unat_word_ariths)
  then show ?thesis by (metis add_is_0 unat_0 zero_neq_numeral)
qed

lemma blocks_keep:
  assumes a: "block_ok base h xs a" and s: "h_size h' a = h_size h a" and b: "unat (h_brk h) \<le> unat (h_brk h')"
    and d: "units (h_size h) a \<inter> free_units (h_size h') xs' = {}"
  shows "block_ok base h' xs' a"
  using assms units_cong[of "h_size h'" a "h_size h"] by (simp add: block_ok_def)

text \<open>(C18) \<open>free\<close> returns, for a block in use; the heap stays well formed, the block is free, merged with its neighbours where they are free,
  and the other blocks in use keep their place and their size.\<close>

theorem free_releases:
  assumes st: "heap_state base h xs A" and ok: "heap_ok base h xs" and a: "a \<in> A"
  shows "\<exists>h' xs'. free (a + 8) h = Some h' \<and> heap_ok base h' xs' \<and> heap_state base h' xs' (A - {a}) \<and> (\<forall>b \<in> A - {a}. h_size h' b = h_size h b)
     \<and> free_units (h_size h') xs' = free_units (h_size h) xs \<union> units (h_size h) a \<and> h_brk h' = h_brk h"
proof -
  have A: "\<forall>a \<in> A. block_ok base h xs a" "\<forall>a \<in> A. \<forall>b \<in> A. a \<noteq> b \<longrightarrow> units (h_size h) a \<inter> units (h_size h) b = {}" using st by (simp_all add: heap_state_def)
  obtain h' xs' where r: "free (a + 8) h = Some h'" "heap_ok base h' xs'" "free_units (h_size h') xs' = free_units (h_size h) xs \<union> units (h_size h) a"
     "h_brk h' = h_brk h" "\<forall>x. x \<notin> set (a # xs) \<longrightarrow> h_size h' x = h_size h x"
    using free_ok[OF ok bspec[OF A(1) a]] by (elim exE conjE) (rule that, assumption+)
  have keep: "h_size h' b = h_size h b" if "b \<in> A - {a}" for b
  proof -
    have "b \<notin> set xs"
    proof
      assume "b \<in> set xs"
      then have "unat b \<in> free_units (h_size h) xs" using heap_okD(10)[OF ok, of b] by (auto simp: free_units_def units_def extent_def)
      then show False using A(1) that block_units(1)[of base h xs b] by (auto simp: block_ok_def)
    qed
    then show ?thesis using r(5) that by simp
  qed
  have "block_ok base h' xs' b" if b: "b \<in> A - {a}" for b
  proof (rule blocks_keep)
    show "block_ok base h xs b" using A(1) b by blast
    then show "units (h_size h) b \<inter> free_units (h_size h') xs' = {}" using A(2) a b unfolding r(3) by (auto simp: block_ok_def)
  qed (use keep[OF b] r(4) in simp_all)
  moreover have "units (h_size h') b = units (h_size h) b" if "b \<in> A - {a}" for b by (rule units_cong(1)) (rule keep[OF that])
  ultimately have "heap_state base h' xs' (A - {a})" using r(2) A(2) by (auto simp: heap_state_def)
  then show ?thesis using r keep by blast
qed

lemma nunits_val: "unat nbytes \<le> 0x70000000 \<Longrightarrow> unat ((nbytes + 8 - 1) div 8 + 1 :: 32 word) = (unat nbytes + 7) div 8 + 1"
proof -
  assume b: "unat nbytes \<le> 0x70000000"
  have "unat (nbytes + 8 - 1) = unat nbytes + 7" using b by (simp add: unat_word_ariths)
  then have "unat ((nbytes + 8 - 1) div 8) = (unat nbytes + 7) div 8" by (simp add: unat_div)
  then show ?thesis using b by (simp add: unat_word_ariths)
qed

text \<open>One call on a heap that is initialised; \<open>r = 0\<close> exactly when no block is large enough and the system gives no more memory.\<close>

lemma malloc_loop_ok:
  assumes ok: "heap_ok base h xs" and n: "0 < unat n" "unat n < 0xF000000"
  defines "z \<equiv> unat (h_brk h)" and "k \<equiv> 8 * max 4096 (unat n)"
  shows "(\<forall>x \<in> set xs. h_size h x < n) \<and> \<not> (z + k < 0x80000000 \<and> room (h_brk h + of_nat k)) \<and> malloc_loop room n (h_freep h) (h_ptr h (h_freep h)) h = Some (0, h)
     \<or> (\<exists>a h' xs'. malloc_loop room n (h_freep h) (h_ptr h (h_freep h)) h = Some (a + 8, h') \<and> heap_ok base h' xs' \<and> h_size h' a = n \<and> block_ok base h' xs' a
         \<and> z \<le> unat (h_brk h') \<and> units (h_size h') a \<subseteq> free_units (h_size h) xs \<union> {z..<unat (h_brk h')}
         \<and> free_units (h_size h') xs' = free_units (h_size h) xs \<union> {z..<unat (h_brk h')} - units (h_size h') a
         \<and> (\<forall>x. unat x \<notin> free_units (h_size h) xs \<union> {z..<unat (h_brk h')} \<longrightarrow> h_size h' x = h_size h x))"
proof (cases "\<exists>x \<in> set xs. n \<le> h_size h x")
  case True
  then obtain x where x: "x \<in> set xs" "n \<le> h_size h x" by blast
  obtain a h' xs' where r: "malloc_loop room n (h_freep h) (h_ptr h (h_freep h)) h = Some (a + 8, h')" "heap_ok base h' xs'" "h_size h' a = n" "block_ok base h' xs' a"
     "units (h_size h') a \<subseteq> free_units (h_size h) xs" "free_units (h_size h') xs' = free_units (h_size h) xs - units (h_size h') a"
     "h_brk h' = h_brk h" "\<forall>x. unat x \<notin> free_units (h_size h) xs \<longrightarrow> h_size h' x = h_size h x"
    using malloc_search[OF ok n(1) x, of room] by (elim exE conjE) (rule that, assumption+)
  show ?thesis by (rule disjI2, rule exI[of _ a], rule exI[of _ h'], rule exI[of _ xs']) (use r in \<open>simp add: z_def\<close>)
next
  case False
  then have sm: "\<forall>x \<in> set xs. h_size h x < n" by (simp add: not_le)
  note full = malloc_full[OF ok n(1) sm, of room]
  note mc = morecore_ok[OF ok n, of room, folded z_def k_def]
  show ?thesis
  proof (cases "z + k < 0x80000000 \<and> room (h_brk h + of_nat k)")
    case no: False
    then show ?thesis using mc full sm by auto
  next
    case True
    obtain h1 ys where h1: "morecore room n h = Some (h_freep h1, h1)" "heap_ok base h1 ys" "unat (h_brk h1) = z + k"
       "free_units (h_size h1) ys = free_units (h_size h) xs \<union> {z..<z + k}" "\<exists>x \<in> set ys. n \<le> h_size h1 x"
       "\<forall>x. unat x \<notin> free_units (h_size h) xs \<union> {z..<z + k} \<longrightarrow> h_size h1 x = h_size h x"
      using mc unfolding if_P[OF True] by (elim exE conjE) (rule that, assumption+)
    obtain x where x: "x \<in> set ys" "n \<le> h_size h1 x" using h1(5) by blast
    obtain a h' xs' where r: "malloc_loop room n (h_freep h1) (h_ptr h1 (h_freep h1)) h1 = Some (a + 8, h')" "heap_ok base h' xs'" "h_size h' a = n" "block_ok base h' xs' a"
       "units (h_size h') a \<subseteq> free_units (h_size h1) ys" "free_units (h_size h') xs' = free_units (h_size h1) ys - units (h_size h') a"
       "h_brk h' = h_brk h1" "\<forall>x. unat x \<notin> free_units (h_size h1) ys \<longrightarrow> h_size h' x = h_size h1 x"
      using malloc_search[OF h1(2) n(1) x, of room] by (elim exE conjE) (rule that, assumption+)
    have "malloc_loop room n (h_freep h) (h_ptr h (h_freep h)) h = Some (a + 8, h')" unfolding full using h1(1) freep_nonzero[OF h1(2)] r(1) by simp
    then show ?thesis using r(2-8) h1(3,4,6) by (intro disjI2 exI[of _ a] exI[of _ h'] exI[of _ xs']) auto
  qed
qed

text \<open>(C17) \<open>malloc\<close> returns: it gives a block with room for the bytes asked for, apart from every block in use, or null when no free block is
  large enough and the system gives no more memory.  The heap stays well formed, and the blocks in use keep their place and their size.\<close>

theorem malloc_allocates:
  assumes st: "heap_state base h xs A" and nb: "unat nbytes \<le> 0x70000000" and n: "n = (unat nbytes + 7) div 8 + 1"
  shows "\<exists>r h' xs'. malloc base room nbytes h = Some (r, h') \<and> heap_ok base h' xs' \<and> (\<forall>a \<in> A. h_size h' a = h_size h a)
     \<and> (if r = 0 then heap_state base h' xs' A \<and> (\<forall>x \<in> set xs. unat (h_size h x) < n)
            \<and> \<not> (unat (h_brk h) + 8 * max 4096 n < 0x80000000 \<and> room (h_brk h + of_nat (8 * max 4096 n)))
        else r - 8 \<notin> A \<and> heap_state base h' xs' (insert (r - 8) A) \<and> unat (h_size h' (r - 8)) = n)"
proof -
  let ?n = "(nbytes + 8 - 1) div 8 + 1 :: 32 word"
  have un: "unat ?n = n" "0 < unat ?n" "unat ?n < 0xF000000" using nunits_val[OF nb] nb by (simp_all add: n)
  define g where "g = (if h_freep h = 0 then h\<lparr>h_ptr := (h_ptr h)(base := base), h_freep := base, h_size := (h_size h)(base := 0)\<rparr> else h)"
  have A: "\<forall>a \<in> A. block_ok base h xs a" "\<forall>a \<in> A. \<forall>b \<in> A. a \<noteq> b \<longrightarrow> units (h_size h) a \<inter> units (h_size h) b = {}" using st by (simp_all add: heap_state_def)
  have ok: "heap_ok base g xs" and gb: "h_brk g = h_brk h" "x \<noteq> base \<Longrightarrow> h_size g x = h_size h x" for x
  proof -
    show "heap_ok base g xs" using st freep_nonzero[of base h xs] by (auto simp: heap_state_def g_def heap_ok_def)
    show "h_brk g = h_brk h" "x \<noteq> base \<Longrightarrow> h_size g x = h_size h x" for x by (simp_all add: g_def)
  qed
  have m: "malloc base room nbytes h = malloc_loop room ?n (h_freep g) (h_ptr g (h_freep g)) g" by (simp add: malloc_def Let_def g_def)
  have sx: "h_size g x = h_size h x" if "x \<in> set xs" for x using heap_okD(9)[OF ok] that gb(2)[of x] by auto
  have ga: "h_size g a = h_size h a" "units (h_size g) a = units (h_size h) a" "block_ok base g xs a" if "a \<in> A" for a
  proof -
    have ab: "block_ok base h xs a" "a \<noteq> base" using A(1) that by (auto simp: block_ok_def)
    show e: "h_size g a = h_size h a" by (rule gb(2)[OF ab(2)])
    then show "units (h_size g) a = units (h_size h) a" by (rule units_cong(1))
    have "free_units (h_size g) xs = free_units (h_size h) xs" by (rule free_units_cong) (rule sx)
    then show "block_ok base g xs a" using ab(1) by (intro blocks_keep[OF ab(1) e]) (auto simp: gb block_ok_def)
  qed
  from malloc_loop_ok[OF ok un(2,3), of room] show ?thesis
  proof (elim disjE exE conjE)
    assume r: "\<forall>x \<in> set xs. h_size g x < ?n" "\<not> (unat (h_brk g) + 8 * max 4096 (unat ?n) < 0x80000000 \<and> room (h_brk g + of_nat (8 * max 4096 (unat ?n))))"
      "malloc_loop room ?n (h_freep g) (h_ptr g (h_freep g)) g = Some (0, g)"
    have "heap_state base g xs A" using ok ga A(2) by (simp add: heap_state_def)
    moreover have "\<forall>x \<in> set xs. unat (h_size h x) < n" using r(1) sx un(1) by (auto simp: word_less_nat_alt)
    ultimately show ?thesis using r(2,3) ok ga(1) unfolding m gb(1) un(1) by (intro exI[of _ 0] exI[of _ g] exI[of _ xs]) simp
  next
    fix a h' xs'
    assume r: "malloc_loop room ?n (h_freep g) (h_ptr g (h_freep g)) g = Some (a + 8, h')" "heap_ok base h' xs'" "h_size h' a = ?n" "block_ok base h' xs' a"
         "unat (h_brk g) \<le> unat (h_brk h')" "units (h_size h') a \<subseteq> free_units (h_size g) xs \<union> {unat (h_brk g)..<unat (h_brk h')}"
         "free_units (h_size h') xs' = free_units (h_size g) xs \<union> {unat (h_brk g)..<unat (h_brk h')} - units (h_size h') a"
         "\<forall>x. unat x \<notin> free_units (h_size g) xs \<union> {unat (h_brk g)..<unat (h_brk h')} \<longrightarrow> h_size h' x = h_size g x"
    let ?F = "free_units (h_size g) xs \<union> {unat (h_brk g)..<unat (h_brk h')}"
    have off: "units (h_size g) b \<inter> ?F = {}" if "b \<in> A" for b
      using block_units(2)[OF ga(3)[OF that]] ga(3)[OF that] by (fastforce simp: block_ok_def)
    have sz: "h_size h' b = h_size g b" if "b \<in> A" for b using r(8) off[OF that] block_units(1)[OF ga(3)[OF that]] by blast
    have ub: "units (h_size h') b = units (h_size g) b" if "b \<in> A" for b by (rule units_cong(1)) (rule sz[OF that])
    have bl: "block_ok base h' xs' b" if "b \<in> A" for b
      by (rule blocks_keep[OF ga(3)[OF that] sz[OF that] r(5)]) (use off[OF that] r(7) in blast)
    have dis: "units (h_size h') a \<inter> units (h_size h') b = {}" if "b \<in> A" for b using off[OF that] r(6) ub[OF that] by blast
    have na: "a \<notin> A" using dis[of a] block_units(1)[OF r(4)] by blast
    have a0: "a + 8 \<noteq> 0" by (rule block_data_nonzero[OF r(2,4)])
    have "heap_state base h' xs' (insert a A)" using r(2,4) bl dis ub ga(2) A(2) by (fastforce simp: heap_state_def)
    moreover have "unat (h_size h' a) = n" unfolding r(3) by (rule un(1))
    ultimately show ?thesis using r(1,2) na a0 sz ga(1) unfolding m by (intro exI[of _ "a + 8"] exI[of _ h'] exI[of _ xs']) simp
  qed
qed

definition demo_heap :: "addr \<Rightarrow> uheap" where
  "demo_heap fp = \<lparr>h_ptr = (\<lambda>x. if x = 0x2000 then 0x3000 else 0x2000), h_size = (\<lambda>x. if x = 0x3000 then 4 else if x = 0x3040 then 2 else 0), h_freep = fp, h_brk = 0x4000\<rparr>"

lemma demo_heap_ok: "heap_ok 0x2000 (demo_heap 0x2000) [0x3000]"
  by (simp add: heap_ok_def demo_heap_def extent_def)

theorem free_releases_witness:
  "\<exists>h' xs'. free (0x3040 + 8) (demo_heap 0x2000) = Some h' \<and> heap_ok 0x2000 h' xs' \<and> free_units (h_size h') xs' = {0x3000..<0x3020} \<union> {0x3040..<0x3050}"
proof -
  have st: "heap_state 0x2000 (demo_heap 0x2000) [0x3000] {0x3040}"
    using demo_heap_ok by (simp add: heap_state_def block_ok_def units_def extent_def) (simp add: demo_heap_def)
  from free_releases[OF st demo_heap_ok, of "0x3040"] show ?thesis by (auto simp: units_def extent_def demo_heap_def)
qed

theorem malloc_allocates_witness:
  "\<exists>r h' xs'. malloc 0x2000 (\<lambda>_. True) 100 (demo_heap 0) = Some (r, h') \<and> r \<noteq> 0 \<and> heap_state 0x2000 h' xs' {r - 8, 0x3040} \<and> unat (h_size h' (r - 8)) = 14"
proof -
  have st: "heap_state 0x2000 (demo_heap 0) [] {0x3040}" by (simp add: heap_state_def block_ok_def units_def extent_def) (simp add: demo_heap_def)
  have n: "unat (100 :: 32 word) \<le> 0x70000000" "14 = (unat (100 :: 32 word) + 7) div 8 + 1" by simp_all
  from malloc_allocates[OF st n, of "\<lambda>_. True"] obtain r h' xs' where r: "malloc 0x2000 (\<lambda>_. True) 100 (demo_heap 0) = Some (r, h')"
     "if r = 0 then heap_state 0x2000 h' xs' {0x3040} \<and> (\<forall>x \<in> set []. unat (h_size (demo_heap 0) x) < 14)
            \<and> \<not> (unat (h_brk (demo_heap 0)) + 8 * max 4096 14 < 0x80000000 \<and> True)
        else r - 8 \<notin> {0x3040} \<and> heap_state 0x2000 h' xs' (insert (r - 8) {0x3040}) \<and> unat (h_size h' (r - 8)) = 14" by (elim exE conjE) (rule that, assumption+)
  have "r \<noteq> 0" using r(2) by (simp add: demo_heap_def split: if_splits)
  then show ?thesis using r by (intro exI[of _ r] exI[of _ h'] exI[of _ xs']) simp
qed

text \<open>The size of a request is not checked for wrap-around: a request for \<open>2^32 - 7\<close> bytes or more is rounded to a single unit, and when
  there is a free block, \<open>malloc\<close> returns a block with no room for data at all.\<close>

lemma malloc_wraps:
  assumes ok: "heap_ok base h xs" and ne: "xs \<noteq> []" and nb: "0xFFFFFFF9 \<le> nbytes"
  shows "\<exists>r h' xs'. malloc base room nbytes h = Some (r, h') \<and> r \<noteq> 0 \<and> heap_ok base h' xs' \<and> block_ok base h' xs' (r - 8) \<and> h_size h' (r - 8) = 1"
proof -
  have "unat (nbytes + 8 - 1) < 8"
  proof -
    have "0xFFFFFFF9 \<le> unat nbytes" using nb by (simp add: word_le_nat_alt)
    then have "unat (nbytes + 7) = unat nbytes + 7 - 2 ^ 32" using unat_lt32[of nbytes] by (simp add: unat_word_ariths mod_if)
    then show ?thesis using unat_lt32[of nbytes] by (simp add: add.commute)
  qed
  then have "unat ((nbytes + 8 - 1) div 8) = 0" by (simp add: unat_div)
  then have n: "(nbytes + 8 - 1) div 8 + 1 = (1 :: 32 word)" by (simp add: unat_0_iff)
  obtain x where x: "x \<in> set xs" using ne by (cases xs) auto
  have "(1 :: 32 word) \<le> h_size h x" using heap_okD(10)[OF ok x] by (simp add: word_le_nat_alt Suc_le_eq)
  from malloc_search[OF ok _ x this, of room] obtain a h' xs' where r: "malloc_loop room 1 (h_freep h) (h_ptr h (h_freep h)) h = Some (a + 8, h')" "heap_ok base h' xs'"
     "h_size h' a = 1" "block_ok base h' xs' a" by auto
  have "malloc base room nbytes h = Some (a + 8, h')" unfolding malloc_def Let_def n using r(1) freep_nonzero[OF ok] by simp
  moreover have "a + 8 \<noteq> 0" by (rule block_data_nonzero[OF r(2,4)])
  ultimately show ?thesis using r(2-4) by (intro exI[of _ "a + 8"] exI[of _ h'] exI[of _ xs']) simp
qed

lemma malloc_wraps_demo:
  "\<exists>r h'. malloc 0x2000 (\<lambda>_. True) 0xFFFFFFFF (demo_heap 0x2000) = Some (r, h') \<and> r \<noteq> 0 \<and> h_size h' (r - 8) = 1"
  using malloc_wraps[OF demo_heap_ok, of "0xFFFFFFFF" "\<lambda>_. True"] by auto

end
