(* ===== verification/Ide.thy ===== *)
theory Ide
  imports Bcache "HOL-Library.While_Combinator"
begin

text \<open>
  The driver of the disk (ide.c) and the interrupt controller it enables (ioapic.c).  The controller chip of the drive is not part of the
  program: its ports are operations of a parameter of type \<open>ide_dev\<close>, and \<open>ata_ok\<close> states what the driver relies on, in terms
  of the registers, the pending command and the sectors of an ATA drive.  The queue of requests is the list that starts at \<open>idequeue\<close>
  and goes on through \<open>qnext\<close>; \<open>ide_inv\<close> relates it to the drive, which always works on the first request.
  The loop on the status port ends only if the drive becomes ready, so it is a \<open>while_option\<close> whose \<open>None\<close> is \<open>Spin\<close>.
  \<open>iderw\<close> is \<open>ide_iderw\<close> up to the first \<open>sleep\<close>, and \<open>ide_iderw_back\<close> from each return of \<open>sleep\<close> on.
\<close>

section \<open>The state of the driver\<close>

text \<open>The ports of the disk controller are operations of a device whose state has type \<open>'d\<close>: a byte in, a byte out, and the transfer of a
  number of bytes through the data port.\<close>

record 'd ide_dev =
  d_inb :: "16 word \<Rightarrow> 'd \<Rightarrow> byte \<times> 'd"
  d_outb :: "16 word \<Rightarrow> byte \<Rightarrow> 'd \<Rightarrow> 'd"
  d_insl :: "16 word \<Rightarrow> nat \<Rightarrow> 'd \<Rightarrow> byte list \<times> 'd"
  d_outsl :: "16 word \<Rightarrow> byte list \<Rightarrow> 'd \<Rightarrow> 'd"

record 'd ide =
  ikern :: kernel
  idequeue :: "nat option"
  qnext :: "nat \<Rightarrow> nat option"
  havedisk1 :: bool
  ioapic :: "32 word \<Rightarrow> 32 word"     \<comment> \<open>the registers of the interrupt controller\<close>
  hw :: 'd

type_synonym ('a, 'd) ires = "('a, 'd ide) outcome"

definition on_kern :: "(kernel \<Rightarrow> 'a kres) \<Rightarrow> 'd ide \<Rightarrow> ('a, 'd) ires" where
  "on_kern f s = (case f (ikern s) of Ok x k \<Rightarrow> Ok x (s\<lparr>ikern := k\<rparr>) | Panic e \<Rightarrow> Panic e
     | Fault \<Rightarrow> Fault | Spin \<Rightarrow> Spin | Slept k \<Rightarrow> Slept (s\<lparr>ikern := k\<rparr>))"

section \<open>The interrupt controller (ioapic.c)\<close>

definition ioapicread :: "32 word \<Rightarrow> 'd ide \<Rightarrow> 32 word" where
  "ioapicread r s = ioapic s r"

definition ioapicwrite :: "32 word \<Rightarrow> 32 word \<Rightarrow> 'd ide \<Rightarrow> 'd ide" where
  "ioapicwrite r v s = s\<lparr>ioapic := (ioapic s)(r := v)\<rparr>"

definition ioapicinit :: "32 word \<Rightarrow> 'd ide \<Rightarrow> (unit, 'd) ires" where
  "ioapicinit ioapicid s =
     (let maxintr = drop_bit 16 (ioapicread 1 s) AND 0xFF; i = drop_bit 24 (ioapicread 0 s) in
      bnd (if i \<noteq> ioapicid
           then on_kern (cprintf (Some (bytes_of ''ioapicinit: id isn't equal to ioapicid; not a MP'' @ [10])) []) s
           else Ok () s) (\<lambda>_ s.
        Ok () (fold (\<lambda>i. ioapicwrite (0x10 + 2 * of_nat i + 1) 0 \<circ> ioapicwrite (0x10 + 2 * of_nat i) (0x10000 OR (32 + of_nat i)))
          [0..<unat maxintr + 1] s)))"

definition ioapicenable :: "32 word \<Rightarrow> 32 word \<Rightarrow> 'd ide \<Rightarrow> 'd ide" where
  "ioapicenable irq cpunum s = ioapicwrite (0x10 + 2 * irq + 1) (push_bit 24 cpunum) (ioapicwrite (0x10 + 2 * irq) (32 + irq) s)"

lemma ioapicenable_routes:
  "ioapicread (0x10 + 2 * irq) (ioapicenable irq c s) = 32 + irq"
  "ioapicread (0x10 + 2 * irq + 1) (ioapicenable irq c s) = push_bit 24 c"
  "r \<noteq> 0x10 + 2 * irq \<Longrightarrow> r \<noteq> 0x10 + 2 * irq + 1 \<Longrightarrow> ioapicread r (ioapicenable irq c s) = ioapicread r s"
  by (simp_all add: ioapicenable_def ioapicwrite_def ioapicread_def)

section \<open>The disk (ide.c)\<close>

definition poll :: "'d ide_dev \<Rightarrow> 'd \<Rightarrow> (byte \<times> 'd) option" where
  "poll D h = while_option (\<lambda>(r, h). r AND 0xC0 \<noteq> 0x40) (\<lambda>(r, h). d_inb D 0x1F7 h) (d_inb D 0x1F7 h)"

definition idewait :: "'d ide_dev \<Rightarrow> bool \<Rightarrow> 'd ide \<Rightarrow> (32 word, 'd) ires" where
  "idewait D checkerr s =
     (case poll D (hw s) of None \<Rightarrow> Spin
      | Some (r, h) \<Rightarrow> Ok (if checkerr \<and> r AND 0x21 \<noteq> 0 then - 1 else 0) (s\<lparr>hw := h\<rparr>))"

definition outb :: "'d ide_dev \<Rightarrow> 16 word \<Rightarrow> byte \<Rightarrow> 'd ide \<Rightarrow> 'd ide" where
  "outb D p v s = s\<lparr>hw := d_outb D p v (hw s)\<rparr>"

primrec probe_disk1 :: "'d ide_dev \<Rightarrow> nat \<Rightarrow> 'd ide \<Rightarrow> 'd ide" where
  "probe_disk1 D 0 s = s"
| "probe_disk1 D (Suc n) s =
     (case d_inb D 0x1F7 (hw s) of (v, h) \<Rightarrow>
        if v \<noteq> 0 then s\<lparr>hw := h, havedisk1 := True\<rparr> else probe_disk1 D n (s\<lparr>hw := h\<rparr>))"

definition ide_ideinit :: "'d ide_dev \<Rightarrow> 'd ide \<Rightarrow> (unit, 'd) ires" where
  "ide_ideinit D s =
     (let s = s\<lparr>ikern := (ikern s)\<lparr>mach := initlock IdeLk ''ide'' (mach (ikern s))\<rparr>\<rparr>;
          s = ioapicenable 14 (of_nat (ncpu (mach (ikern s))) - 1) s
      in bnd (idewait D False s) (\<lambda>_ s.
         let s = outb D 0x1F6 (0xE0 OR push_bit 4 1) s;
             s = probe_disk1 D 1000 s
         in Ok () (outb D 0x1F6 (0xE0 OR push_bit 4 0) s)))"

text \<open>With blocks of one sector, \<open>sector_per_block\<close> is 1.\<close>

definition idestart :: "'d ide_dev \<Rightarrow> nat option \<Rightarrow> 'd ide \<Rightarrow> (unit, 'd) ires" where
  "idestart D b s =
     (case b of None \<Rightarrow> Panic ''idestart''
      | Some b \<Rightarrow>
        let k = bufs (ikern s) ! b in
        if b_blockno k \<ge> 1000 then Panic ''incorrect blockno''
        else let sector = b_blockno k * 1 in
          bnd (idewait D False s) (\<lambda>_ s.
            let s = outb D 0x3F6 0 s;
                s = outb D 0x1F2 1 s;
                s = outb D 0x1F3 (ucast (sector AND 0xFF)) s;
                s = outb D 0x1F4 (ucast (drop_bit 8 sector AND 0xFF)) s;
                s = outb D 0x1F5 (ucast (drop_bit 16 sector AND 0xFF)) s;
                s = outb D 0x1F6 (ucast (0xE0 OR push_bit 4 (b_dev k AND 1) OR drop_bit 24 sector AND 0x0F)) s
            in if b_dirty k
               then let s = outb D 0x1F7 0x30 s in Ok () (s\<lparr>hw := d_outsl D 0x1F0 (b_data k) (hw s)\<rparr>)
               else Ok () (outb D 0x1F7 0x20 s)))"

definition upd_ibuf :: "nat \<Rightarrow> (buf \<Rightarrow> buf) \<Rightarrow> 'd ide \<Rightarrow> 'd ide" where
  "upd_ibuf b f s = s\<lparr>ikern := upd_buf b f (ikern s)\<rparr>"

text \<open>The transfer of the finished request: \<open>if(!(b->flags & B_DIRTY) && idewait(1) >= 0) insl(0x1f0, b->data, BSIZE/4)\<close>.\<close>

definition transfer :: "'d ide_dev \<Rightarrow> nat \<Rightarrow> 'd ide \<Rightarrow> (unit, 'd) ires" where
  "transfer D b s =
     (if b_dirty (bufs (ikern s) ! b) then Ok () s
      else bnd (idewait D True s) (\<lambda>r s.
        if s_lt r 0 then Ok () s
        else case d_insl D 0x1F0 512 (hw s) of (bs, h) \<Rightarrow> Ok () (upd_ibuf b (\<lambda>k. k\<lparr>b_data := bs\<rparr>) (s\<lparr>hw := h\<rparr>))))"

definition ideintr :: "'d ide_dev \<Rightarrow> 'd ide \<Rightarrow> (unit, 'd) ires" where
  "ideintr D s =
     bnd (on_kern (kacquire IdeLk) s) (\<lambda>_ s.
     case idequeue s of None \<Rightarrow> on_kern (krelease IdeLk) s
     | Some b \<Rightarrow>
       let s = s\<lparr>idequeue := qnext s b\<rparr> in
       bnd (transfer D b s) (\<lambda>_ s.
       let s = upd_ibuf b (\<lambda>k. k\<lparr>b_valid := True\<rparr>) s;
           s = upd_ibuf b (\<lambda>k. k\<lparr>b_dirty := False\<rparr>) s
       in bnd (on_kern (wakeup (ChBuf b)) s) (\<lambda>_ s.
          bnd (if idequeue s \<noteq> None then idestart D (idequeue s) s else Ok () s) (\<lambda>_ s.
          on_kern (krelease IdeLk) s))))"

text \<open>\<open>for(pp=&idequeue; *pp; pp=&(*pp)->qnext)\<close> followed by the store: the last buffer of the queue points to the new one.\<close>

definition append_buf :: "nat \<Rightarrow> 'd ide \<Rightarrow> (unit, 'd) ires" where
  "append_buf b s =
     (case idequeue s of None \<Rightarrow> Ok () (s\<lparr>idequeue := Some b\<rparr>)
      | Some x \<Rightarrow> (case while_option (\<lambda>x. qnext s x \<noteq> None) (\<lambda>x. the (qnext s x)) x of
            None \<Rightarrow> Spin
          | Some y \<Rightarrow> Ok () (s\<lparr>qnext := (qnext s)(y := Some b)\<rparr>)))"

definition iderw_start :: "'d ide_dev \<Rightarrow> nat \<Rightarrow> 'd ide \<Rightarrow> (unit, 'd) ires" where
  "iderw_start D b s =
     bnd (on_kern (holdingsleep (BufSl b)) s) (\<lambda>h s.
       let k = bufs (ikern s) ! b in
       if \<not> h then Panic ''iderw: buf not locked''
       else if b_valid k \<and> \<not> b_dirty k then Panic ''iderw: nothing to do''
       else if b_dev k \<noteq> 0 \<and> \<not> havedisk1 s then Panic ''iderw: ide disk 1 not present''
       else bnd (on_kern (kacquire IdeLk) s) (\<lambda>_ s.
         bnd (append_buf b (s\<lparr>qnext := (qnext s)(b := None)\<rparr>)) (\<lambda>_ s.
         if idequeue s = Some b then idestart D (Some b) s else Ok () s)))"

definition iderw_wait :: "nat \<Rightarrow> 'd ide \<Rightarrow> (unit, 'd) ires" where
  "iderw_wait b s =
     (let k = bufs (ikern s) ! b in
      if b_valid k \<and> \<not> b_dirty k then on_kern (krelease IdeLk) s
      else on_kern (sleep (ChBuf b) (Some IdeLk)) s)"

definition ide_iderw :: "'d ide_dev \<Rightarrow> nat \<Rightarrow> 'd ide \<Rightarrow> (unit, 'd) ires" where
  "ide_iderw D b s = bnd (iderw_start D b s) (\<lambda>_ s. iderw_wait b s)"

text \<open>The rest of the call when the process \<open>i\<close> runs again: \<open>sleep\<close> returns and the test is repeated.\<close>

definition ide_iderw_back :: "nat \<Rightarrow> bool \<Rightarrow> nat \<Rightarrow> 'd ide \<Rightarrow> (unit, 'd) ires" where
  "ide_iderw_back i ie b s = bnd (on_kern (sleep_back i IdeLk ie) s) (\<lambda>_ s. iderw_wait b s)"

section \<open>What the driver expects of a drive\<close>

text \<open>The drive as its documentation describes it: the registers that were written, the sectors of the two disks, those that cannot be
  read, and the command that is pending.\<close>

datatype ata_cmd = Idle | Reading bool "32 word" | Writing bool "32 word"

record ata =
  a_reg :: "16 word \<Rightarrow> byte"
  a_sector :: "bool \<Rightarrow> 32 word \<Rightarrow> byte list"
  a_bad :: "bool \<Rightarrow> 32 word \<Rightarrow> bool"
  a_cmd :: ata_cmd

definition lba :: "ata \<Rightarrow> 32 word" where
  "lba a = ucast (a_reg a 0x1F3) OR push_bit 8 (ucast (a_reg a 0x1F4)) OR push_bit 16 (ucast (a_reg a 0x1F5))
     OR push_bit 24 (ucast (a_reg a 0x1F6) AND 0x0F)"

definition drive :: "ata \<Rightarrow> bool" where
  "drive a = bit (a_reg a 0x1F6) 4"

definition ata_command :: "byte \<Rightarrow> ata \<Rightarrow> ata" where
  "ata_command v a = a\<lparr>a_cmd := if v = 0x20 then Reading (drive a) (lba a)
     else if v = 0x30 then Writing (drive a) (lba a) else a_cmd a\<rparr>"

definition failing :: "ata \<Rightarrow> bool" where
  "failing a = (case a_cmd a of Reading d n \<Rightarrow> a_bad a d n | _ \<Rightarrow> False)"

text \<open>The drive becomes ready, with an error in its status exactly when the pending read fails; registers are kept; a command is taken with
  the address in the registers; a read delivers the sector, and the data of a write, accepted right after the command, replaces it.\<close>

definition ata_ok :: "'d ide_dev \<Rightarrow> ('d \<Rightarrow> ata) \<Rightarrow> bool" where
  "ata_ok D view \<longleftrightarrow>
     (\<forall>h. \<exists>r h'. poll D h = Some (r, h') \<and> view h' = view h \<and> (r AND 0x21 \<noteq> 0) = failing (view h))
   \<and> (\<forall>p v h. p \<in> {0x3F6, 0x1F2, 0x1F3, 0x1F4, 0x1F5, 0x1F6} \<longrightarrow>
        view (d_outb D p v h) = (view h)\<lparr>a_reg := (a_reg (view h))(p := v)\<rparr>)
   \<and> (\<forall>v h. view (d_outb D 0x1F7 v h) = ata_command v (view h))
   \<and> (\<forall>h d n. a_cmd (view h) = Reading d n \<and> \<not> a_bad (view h) d n \<longrightarrow>
        (\<exists>h'. d_insl D 0x1F0 512 h = (a_sector (view h) d n, h') \<and> view h' = (view h)\<lparr>a_cmd := Idle\<rparr>))
   \<and> (\<forall>h d n bs. a_cmd (view h) = Writing d n \<and> length bs = 512 \<longrightarrow>
        view (d_outsl D 0x1F0 bs h) =
          (view h)\<lparr>a_sector := (a_sector (view h))(d := (a_sector (view h) d)(n := bs)), a_cmd := Idle\<rparr>)"

text \<open>What a request does to the sectors when it is started: the data of a write is sent at once.\<close>

definition b_drive :: "buf \<Rightarrow> bool" where
  "b_drive k = bit (b_dev k) 0"

definition put_sector :: "buf \<Rightarrow> (bool \<Rightarrow> 32 word \<Rightarrow> byte list) \<Rightarrow> bool \<Rightarrow> 32 word \<Rightarrow> byte list" where
  "put_sector k f = (if b_dirty k then f(b_drive k := (f (b_drive k))(b_blockno k := b_data k)) else f)"

definition started :: "buf \<Rightarrow> ata \<Rightarrow> ata \<Rightarrow> bool" where
  "started k a a' \<longleftrightarrow> a_sector a' = put_sector k (a_sector a) \<and> a_bad a' = a_bad a
     \<and> a_cmd a' = (if b_dirty k then Idle else Reading (b_drive k) (b_blockno k))"

lemma bit_low:
  assumes "unat (w :: 'a::len word) < 2 ^ k" "k \<le> n"
  shows "\<not> bit w n"
proof -
  have "(2::nat) ^ k \<le> 2 ^ n" using assms by (intro power_increasing) auto
  then have "unat w < 2 ^ n" using assms(1) by (rule order_less_le_trans[rotated])
  then have "drop_bit n w = 0" using unat_drop_bit_eq[of n w] by (simp only: word_unat_eq_iff drop_bit_eq_div[of n "unat w"] div_less unat_0)
  then show ?thesis by (simp add: bit_iff_odd_drop_bit)
qed

lemma byte_part:
  "ucast (ucast (w AND 0xFF) :: byte) = (w AND mask 8 :: 32 word)"
proof -
  have m: "(0xFF::32 word) = mask 8" by (simp add: mask_eq_exp_minus_1)
  show ?thesis unfolding m by (intro bit_word_eqI) (auto simp: bit_simps)
qed

lemma drive_part:
  "ucast (ucast (0xE0 OR push_bit 4 ((d :: 32 word) AND 1)) :: byte) AND 0x0F = (0 :: 32 word)"
proof -
  have m: "(0x0F::32 word) = mask 4" "(0xE0::32 word) = push_bit 5 (mask 3)"
    by (simp_all add: mask_eq_exp_minus_1 push_bit_eq_mult)
  show ?thesis unfolding m by (rule bit_word_eqI) (auto simp: bit_simps)
qed

lemma lba_parts:
  assumes "(w :: 32 word) < 1000"
  shows "ucast (ucast (w AND 0xFF) :: byte) OR push_bit 8 (ucast (ucast (drop_bit 8 w AND 0xFF) :: byte))
     OR push_bit 16 (ucast (ucast (drop_bit 16 w AND 0xFF) :: byte))
     OR push_bit 24 (ucast (ucast (0xE0 OR push_bit 4 ((d :: 32 word) AND 1) OR drop_bit 24 w AND 0x0F) :: byte) AND 0x0F) = w"
proof -
  have "unat w < 2 ^ 10" using assms by (simp add: word_less_nat_alt)
  note b = bit_low[OF this]
  have b': "n < 10" if "bit w n" for n using b[of n] that by (meson not_less)
  have z: "drop_bit 16 w = 0" "drop_bit 24 w = 0" by (rule bit_word_eqI, simp add: bit_simps b)+
  have "w AND mask 8 OR push_bit 8 (drop_bit 8 w AND mask 8) = w"
  proof (rule bit_word_eqI)
    fix n
    show "bit (w AND mask 8 OR push_bit 8 (drop_bit 8 w AND mask 8)) n = bit w n"
      using b'[of n] by (cases "n < 8") (auto simp: bit_simps)
  qed
  then show ?thesis by (simp only: byte_part z and_zero_eq zero_and_eq or.right_neutral push_bit_of_0 drive_part unsigned_0)
qed

lemma drive_bit:
  assumes "(w :: 32 word) < 1000"
  shows "bit (ucast (0xE0 OR push_bit 4 ((d :: 32 word) AND 1) OR drop_bit 24 w AND 0x0F) :: byte) 4 = bit d 0"
proof -
  have "unat w < 2 ^ 10" using assms by (simp add: word_less_nat_alt)
  note b = bit_low[OF this]
  have "drop_bit 24 w = 0" by (rule bit_word_eqI) (simp add: bit_simps b)
  moreover have "(0xE0::32 word) = push_bit 5 (mask 3)" by (simp add: mask_eq_exp_minus_1 push_bit_eq_mult)
  ultimately show ?thesis by (simp only:) (simp add: bit_simps)
qed

lemma ata_poll:
  assumes "ata_ok D view"
  obtains r h' where "poll D h = Some (r, h')" "view h' = view h" "(r AND 0x21 \<noteq> 0) = failing (view h)"
  using assms unfolding ata_ok_def by blast

lemma ata_out:
  assumes "ata_ok D view" "p \<in> {0x3F6, 0x1F2, 0x1F3, 0x1F4, 0x1F5, 0x1F6}"
  shows "view (d_outb D p v h) = (view h)\<lparr>a_reg := (a_reg (view h))(p := v)\<rparr>"
  using assms unfolding ata_ok_def by blast

lemma ata_cmd:
  assumes "ata_ok D view"
  shows "view (d_outb D 0x1F7 v h) = ata_command v (view h)"
  using assms unfolding ata_ok_def by blast

lemma ata_in:
  assumes "ata_ok D view" "a_cmd (view h) = Reading d n" "\<not> a_bad (view h) d n"
  obtains h' where "d_insl D 0x1F0 512 h = (a_sector (view h) d n, h')" "view h' = (view h)\<lparr>a_cmd := Idle\<rparr>"
  using assms unfolding ata_ok_def by blast

lemma ata_data:
  assumes "ata_ok D view" "a_cmd (view h) = Writing d n" "length bs = 512"
  shows "view (d_outsl D 0x1F0 bs h) =
    (view h)\<lparr>a_sector := (a_sector (view h))(d := (a_sector (view h) d)(n := bs)), a_cmd := Idle\<rparr>"
  using assms unfolding ata_ok_def by blast

lemma idestart_ok:
  assumes D: "ata_ok D view" and k: "k = bufs (ikern s) ! b" and n: "b_blockno k < 1000" and l: "length (b_data k) = 512"
  obtains h where "idestart D (Some b) s = Ok () (s\<lparr>hw := h\<rparr>)" "started k (view (hw s)) (view h)"
proof -
  obtain r h0 where h0: "poll D (hw s) = Some (r, h0)" "view h0 = view (hw s)" using ata_poll[OF D] by metis
  let ?w = "b_blockno k" let ?r6 = "ucast (0xE0 OR push_bit 4 (b_dev k AND 1) OR drop_bit 24 ?w AND 0x0F) :: byte"
  define h1 where "h1 = d_outb D 0x1F6 ?r6 (d_outb D 0x1F5 (ucast (drop_bit 16 ?w AND 0xFF)) (d_outb D 0x1F4 (ucast (drop_bit 8 ?w AND 0xFF))
    (d_outb D 0x1F3 (ucast (?w AND 0xFF)) (d_outb D 0x1F2 1 (d_outb D 0x3F6 0 h0)))))"
  have v: "lba (view h1) = ?w" "drive (view h1) = b_drive k" "a_sector (view h1) = a_sector (view (hw s))" "a_bad (view h1) = a_bad (view (hw s))"
    using lba_parts[OF n, of "b_dev k"] drive_bit[OF n, of "b_dev k"]
    by (simp_all add: h1_def ata_out[OF D] lba_def drive_def b_drive_def h0(2))
  let ?h = "if b_dirty k then d_outsl D 0x1F0 (b_data k) (d_outb D 0x1F7 0x30 h1) else d_outb D 0x1F7 0x20 h1"
  have "idestart D (Some b) s = Ok () (s\<lparr>hw := ?h\<rparr>)"
    using n by (simp add: idestart_def idewait_def h0(1) Let_def outb_def h1_def flip: k)
  moreover have "started k (view (hw s)) (view ?h)"
    by (simp add: started_def put_sector_def ata_cmd[OF D] ata_command_def v ata_data[OF D _ l])
  ultimately show ?thesis by (rule that)
qed

section \<open>The queue of requests\<close>

primrec queued :: "(nat \<Rightarrow> nat option) \<Rightarrow> nat option \<Rightarrow> nat list \<Rightarrow> bool" where
  "queued f x [] = (x = None)"
| "queued f x (b # bs) = (x = Some b \<and> queued f (f b) bs)"

definition place :: "buf \<Rightarrow> bool \<times> 32 word" where
  "place k = (b_drive k, b_blockno k)"

text \<open>The drive works on the request: a write is already transferred, a read is pending.\<close>

definition in_progress :: "buf \<Rightarrow> ata \<Rightarrow> bool" where
  "in_progress k a \<longleftrightarrow> (if b_dirty k then a_sector a (b_drive k) (b_blockno k) = b_data k
     else a_cmd a = Reading (b_drive k) (b_blockno k))"

definition request :: "buf \<Rightarrow> bool" where
  "request k \<longleftrightarrow> b_blockno k < 1000 \<and> length (b_data k) = 512 \<and> (b_valid k \<longrightarrow> b_dirty k)"

definition ide_inv :: "('d \<Rightarrow> ata) \<Rightarrow> 'd ide \<Rightarrow> nat list \<Rightarrow> bool" where
  "ide_inv view s bs \<longleftrightarrow> queued (qnext s) (idequeue s) bs \<and> distinct bs
     \<and> distinct (map (\<lambda>b. place (bufs (ikern s) ! b)) bs)
     \<and> (\<forall>b \<in> set bs. b < length (bufs (ikern s)) \<and> request (bufs (ikern s) ! b))
     \<and> (bs \<noteq> [] \<longrightarrow> in_progress (bufs (ikern s) ! hd bs) (view (hw s)))"

text \<open>The buffer after the interrupt of its request.\<close>

definition done_buf :: "ata \<Rightarrow> buf \<Rightarrow> buf" where
  "done_buf a k = k\<lparr>b_valid := True, b_dirty := False,
     b_data := if b_dirty k \<or> a_bad a (b_drive k) (b_blockno k) then b_data k else a_sector a (b_drive k) (b_blockno k)\<rparr>"

definition next_started :: "buf list \<Rightarrow> nat list \<Rightarrow> ata \<Rightarrow> ata \<Rightarrow> bool" where
  "next_started ks bs a a' \<longleftrightarrow> (case bs of [] \<Rightarrow> a_sector a' = a_sector a \<and> a_bad a' = a_bad a
     | c # _ \<Rightarrow> started (ks ! c) a a')"

lemma on_kern_ok: "f (ikern s) = Ok x k \<Longrightarrow> on_kern f s = Ok x (s\<lparr>ikern := k\<rparr>)"
  by (simp add: on_kern_def)

lemma started_progress: "started k a a' \<Longrightarrow> in_progress k a'"
  by (simp add: started_def in_progress_def put_sector_def)

lemma transfer_ok:
  assumes D: "ata_ok D view" and k: "k = bufs (ikern s) ! b" and p: "in_progress k (view (hw s))" and b: "b < length (bufs (ikern s))"
  obtains h where "transfer D b s = Ok () (upd_ibuf b (\<lambda>k. k\<lparr>b_data := b_data (done_buf (view (hw s)) k)\<rparr>) (s\<lparr>hw := h\<rparr>))"
    "a_sector (view h) = a_sector (view (hw s))" "a_bad (view h) = a_bad (view (hw s))"
proof (cases "b_dirty k")
  case True
  then have "transfer D b s = Ok () (upd_ibuf b (\<lambda>k. k\<lparr>b_data := b_data (done_buf (view (hw s)) k)\<rparr>) (s\<lparr>hw := hw s\<rparr>))"
    using b by (simp add: transfer_def upd_ibuf_def upd_buf_def done_buf_def flip: k) (simp add: k)
  then show ?thesis by (rule that) simp_all
next
  case False
  obtain r h0 where h0: "poll D (hw s) = Some (r, h0)" "view h0 = view (hw s)" "(r AND 0x21 \<noteq> 0) = failing (view (hw s))"
    using ata_poll[OF D] by metis
  have c: "a_cmd (view h0) = Reading (b_drive k) (b_blockno k)" using p False h0(2) by (simp add: in_progress_def)
  then have f: "failing (view (hw s)) = a_bad (view h0) (b_drive k) (b_blockno k)" by (simp add: failing_def h0(2))
  show ?thesis
  proof (cases "a_bad (view h0) (b_drive k) (b_blockno k)")
    case True
    then have "transfer D b s = Ok () (upd_ibuf b (\<lambda>k. k\<lparr>b_data := b_data (done_buf (view (hw s)) k)\<rparr>) (s\<lparr>hw := h0\<rparr>))"
      using b False h0 f by (simp add: transfer_def idewait_def upd_ibuf_def upd_buf_def done_buf_def s_lt_def flip: k) (simp add: k)
    then show ?thesis by (rule that) (simp_all add: h0)
  next
    case good: False
    obtain h1 where h1: "d_insl D 0x1F0 512 h0 = (a_sector (view h0) (b_drive k) (b_blockno k), h1)" "view h1 = (view h0)\<lparr>a_cmd := Idle\<rparr>"
      using ata_in[OF D c good] by metis
    have "transfer D b s = Ok () (upd_ibuf b (\<lambda>k. k\<lparr>b_data := b_data (done_buf (view (hw s)) k)\<rparr>) (s\<lparr>hw := h1\<rparr>))"
      using b False h0 f good h1 by (simp add: transfer_def idewait_def upd_ibuf_def upd_buf_def done_buf_def s_lt_def flip: k)
    then show ?thesis by (rule that) (simp_all add: h0 h1)
  qed
qed

lemma ideintr_ok:
  assumes D: "ata_ok D view" and q: "quiet (ikern s)" and I: "ide_inv view s (b # bs)"
  obtains h where "ideintr D s = Ok () (s\<lparr>idequeue := qnext s b, hw := h,
      ikern := wakeup1 (Some (ChBuf b)) (upd_buf b (done_buf (view (hw s))) (ikern s))\<rparr>)"
    "next_started (bufs (ikern s)) bs (view (hw s)) (view h)"
proof -
  let ?m = "mach (ikern s)" let ?k = "bufs (ikern s) ! b" let ?a = "view (hw s)"
  let ?s1 = "s\<lparr>ikern := (ikern s)\<lparr>mach := hold IdeLk ?m\<rparr>, idequeue := qnext s b\<rparr>"
  note m = quietD[OF q]
  have i: "idequeue s = Some b" "queued (qnext s) (qnext s b) bs" "b < length (bufs (ikern s))" "in_progress ?k ?a"
    "b \<notin> set bs" "\<forall>c \<in> set bs. c < length (bufs (ikern s)) \<and> request (bufs (ikern s) ! c)"
    using I by (auto simp: ide_inv_def)
  obtain h1 where h1: "transfer D b ?s1 = Ok () (upd_ibuf b (\<lambda>k. k\<lparr>b_data := b_data (done_buf ?a k)\<rparr>) (?s1\<lparr>hw := h1\<rparr>))"
    "a_sector (view h1) = a_sector ?a" "a_bad (view h1) = a_bad ?a"
    using transfer_ok[OF D, of ?k ?s1 b] i by auto
  let ?k2 = "upd_buf b (done_buf ?a) ((ikern s)\<lparr>mach := hold IdeLk ?m\<rparr>)"
  let ?k3 = "wakeup1 (Some (ChBuf b)) ?k2"
  have u: "upd_buf b (\<lambda>k. k\<lparr>b_dirty := False\<rparr>) (upd_buf b (\<lambda>k. k\<lparr>b_valid := True\<rparr>)
      (upd_buf b (\<lambda>k. k\<lparr>b_data := b_data (done_buf ?a k)\<rparr>) ((ikern s)\<lparr>mach := hold IdeLk ?m\<rparr>))) = ?k2"
    unfolding upd_buf_twice by (rule arg_cong[where f = "\<lambda>f. upd_buf b f _"]) (simp add: done_buf_def fun_eq_iff)
  have w: "wakeup (ChBuf b) ?k2 = Ok () ?k3" using m by (intro wakeup_held) simp_all
  have r: "krelease IdeLk ?k3 = Ok () (?k3\<lparr>mach := ?m\<rparr>)" using m by (intro krelease_quiet) simp_all
  have e: "?k3\<lparr>mach := ?m\<rparr> = wakeup1 (Some (ChBuf b)) (upd_buf b (done_buf ?a) (ikern s))"
    by (simp add: wakeup1_def upd_buf_def)
  let ?s3 = "s\<lparr>idequeue := qnext s b, hw := h1, ikern := ?k3\<rparr>"
  have go: "ideintr D s = bnd (if qnext s b \<noteq> None then idestart D (qnext s b) ?s3 else Ok () ?s3) (\<lambda>_ s. on_kern (krelease IdeLk) s)"
    using h1(1) i(1) by (simp add: ideintr_def on_kern_ok kacquire_quiet[OF q] Let_def upd_ibuf_def u w)
  show ?thesis
  proof (cases bs)
    case Nil
    then have "qnext s b = None" using i(2) by simp
    then have "ideintr D s = Ok () (s\<lparr>idequeue := qnext s b, hw := h1, ikern := wakeup1 (Some (ChBuf b)) (upd_buf b (done_buf ?a) (ikern s))\<rparr>)"
      using go by (simp add: on_kern_ok r e)
    then show ?thesis by (rule that) (simp add: next_started_def Nil h1)
  next
    case (Cons c cs)
    then have n: "qnext s b = Some c" "c \<noteq> b" "request (bufs (ikern s) ! c)" using i by auto
    then have kc: "bufs (ikern s) ! c = bufs (ikern ?s3) ! c" by (simp add: upd_buf_def)
    obtain h where h: "idestart D (Some c) ?s3 = Ok () (?s3\<lparr>hw := h\<rparr>)" "started (bufs (ikern s) ! c) (view (hw ?s3)) (view h)"
      using idestart_ok[OF D kc] n(3) unfolding request_def by metis
    have "ideintr D s = Ok () (s\<lparr>idequeue := qnext s b, hw := h, ikern := wakeup1 (Some (ChBuf b)) (upd_buf b (done_buf ?a) (ikern s))\<rparr>)"
      using go n h(1) by (simp add: on_kern_ok r e)
    then show ?thesis by (rule that) (use h(2) h1 in \<open>simp add: next_started_def Cons started_def\<close>)
  qed
qed

section \<open>Completion of requests\<close>

lemma done_place [simp]: "place (done_buf a k) = place k" "b_drive (done_buf a k) = b_drive k" "b_blockno (done_buf a k) = b_blockno k"
  by (simp_all add: done_buf_def place_def b_drive_def)

lemma ideintr_step:
  assumes D: "ata_ok D view" and q: "quiet (ikern s)" and I: "ide_inv view s (b # bs)"
  obtains t where "ideintr D s = Ok () t" "quiet (ikern t)" "ide_inv view t bs"
    "bufs (ikern t) = (bufs (ikern s))[b := done_buf (view (hw s)) (bufs (ikern s) ! b)]"
    "procs (ikern t) = procs (wakeup1 (Some (ChBuf b)) (ikern s))"
    "next_started (bufs (ikern s)) bs (view (hw s)) (view (hw t))"
proof -
  obtain h where h: "ideintr D s = Ok () (s\<lparr>idequeue := qnext s b, hw := h,
      ikern := wakeup1 (Some (ChBuf b)) (upd_buf b (done_buf (view (hw s))) (ikern s))\<rparr>)"
    "next_started (bufs (ikern s)) bs (view (hw s)) (view h)"
    using ideintr_ok[OF D q I] .
  let ?t = "s\<lparr>idequeue := qnext s b, hw := h, ikern := wakeup1 (Some (ChBuf b)) (upd_buf b (done_buf (view (hw s))) (ikern s))\<rparr>"
  have nb: "b \<notin> set bs" using I by (simp add: ide_inv_def)
  then have same: "bufs (ikern ?t) ! c = bufs (ikern s) ! c" if "c \<in> set bs" for c
    using that by (cases "c = b") (simp_all add: upd_buf_def)
  have "map (\<lambda>c. place (bufs (ikern ?t) ! c)) bs = map (\<lambda>c. place (bufs (ikern s) ! c)) bs" using same by auto
  then have "distinct (map (\<lambda>c. place (bufs (ikern ?t) ! c)) bs)" using I by (simp only: ide_inv_def list.map distinct.simps)
  moreover have "bs \<noteq> [] \<longrightarrow> in_progress (bufs (ikern ?t) ! hd bs) (view h)"
    using h(2) same[of "hd bs"] by (cases bs) (simp_all add: next_started_def started_progress)
  moreover have "\<forall>c \<in> set bs. c < length (bufs (ikern ?t)) \<and> request (bufs (ikern ?t) ! c)"
    using I same by (simp add: ide_inv_def)
  ultimately have "ide_inv view ?t bs" using I unfolding ide_inv_def by simp
  moreover have "quiet (ikern ?t)" using q by (simp add: quiet_def)
  ultimately show ?thesis using h by (intro that[of ?t]) (simp_all add: upd_buf_def wakeup1_def)
qed

text \<open>A number of completion interrupts in a row.\<close>

primrec serve :: "'d ide_dev \<Rightarrow> nat \<Rightarrow> 'd ide \<Rightarrow> (unit, 'd) ires" where
  "serve D 0 s = Ok () s"
| "serve D (Suc n) s = bnd (ideintr D s) (\<lambda>_ s. serve D n s)"

definition finished :: "buf \<Rightarrow> ata \<Rightarrow> buf \<Rightarrow> ata \<Rightarrow> bool" where
  "finished k a k' a' \<longleftrightarrow> k' = k\<lparr>b_valid := True, b_dirty := False, b_data := b_data k'\<rparr>
     \<and> b_data k' = (if b_dirty k then b_data k else a_sector a (b_drive k) (b_blockno k))
     \<and> a_sector a' (b_drive k) (b_blockno k) = b_data k'"

lemma put_sector_other: "place k \<noteq> (d, n) \<Longrightarrow> put_sector k f d n = f d n"
  by (auto simp: put_sector_def place_def)

lemma next_other:
  assumes "next_started ks bs a a'" "\<forall>c \<in> set (take 1 bs). place (ks ! c) \<noteq> (d, n)"
  shows "a_sector a' d n = a_sector a d n" "a_bad a' = a_bad a"
  using assms by (auto simp: next_started_def started_def put_sector_other split: list.splits)

lemma ide_inv_other:
  assumes "ide_inv view s (xs @ b # ys)" "c \<in> set xs \<union> set ys"
  shows "place (bufs (ikern s) ! c) \<noteq> place (bufs (ikern s) ! b)" "c \<noteq> b"
proof -
  let ?p = "\<lambda>b. place (bufs (ikern s) ! b)"
  have "?p b \<notin> ?p ` set xs" "?p b \<notin> ?p ` set ys" using assms(1) by (simp_all add: ide_inv_def)
  then have "?p b \<notin> ?p ` (set xs \<union> set ys)" by (simp add: image_Un)
  then show "?p c \<noteq> ?p b" using assms(2) by (metis imageI)
  then show "c \<noteq> b" by metis
qed

lemma serve_finishes:
  assumes D: "ata_ok D view"
  shows "quiet (ikern s) \<Longrightarrow> ide_inv view s (xs @ b # ys) \<Longrightarrow> k = bufs (ikern s) ! b \<Longrightarrow>
    b_dirty k \<or> \<not> a_bad (view (hw s)) (b_drive k) (b_blockno k) \<Longrightarrow>
    \<exists>t. serve D (Suc (length xs)) s = Ok () t \<and> quiet (ikern t) \<and> ide_inv view t ys
      \<and> finished k (view (hw s)) (bufs (ikern t) ! b) (view (hw t))"
proof (induction xs arbitrary: s)
  case Nil
  then have I: "ide_inv view s (b # ys)" by simp
  obtain t where t: "ideintr D s = Ok () t" "quiet (ikern t)" "ide_inv view t ys"
    "bufs (ikern t) = (bufs (ikern s))[b := done_buf (view (hw s)) (bufs (ikern s) ! b)]"
    "next_started (bufs (ikern s)) ys (view (hw s)) (view (hw t))"
    using ideintr_step[OF D Nil(1) I] by metis
  have bl: "b < length (bufs (ikern s))" "in_progress k (view (hw s))" using I Nil(3) by (simp_all add: ide_inv_def)
  have other: "place (bufs (ikern s) ! c) \<noteq> place k" if "c \<in> set ys" for c
    using ide_inv_other(1)[of view s "[]" b ys c] I Nil(3) that by simp
  have "\<forall>c \<in> set (take 1 ys). place (bufs (ikern s) ! c) \<noteq> (b_drive k, b_blockno k)"
    using other by (auto simp: place_def dest: in_set_takeD)
  then have "a_sector (view (hw t)) (b_drive k) (b_blockno k) = a_sector (view (hw s)) (b_drive k) (b_blockno k)"
    using next_other(1)[OF t(5)] by simp
  moreover have "bufs (ikern t) ! b = done_buf (view (hw s)) k" using t(4) bl Nil(3) by simp
  ultimately have "finished k (view (hw s)) (bufs (ikern t) ! b) (view (hw t))"
    using bl(2) Nil(4) by (auto simp: finished_def done_buf_def in_progress_def)
  then show ?case using t by auto
next
  case (Cons x xs)
  then have I: "ide_inv view s (x # (xs @ b # ys))" by simp
  obtain t where t: "ideintr D s = Ok () t" "quiet (ikern t)" "ide_inv view t (xs @ b # ys)"
    "bufs (ikern t) = (bufs (ikern s))[x := done_buf (view (hw s)) (bufs (ikern s) ! x)]"
    "next_started (bufs (ikern s)) (xs @ b # ys) (view (hw s)) (view (hw t))"
    using ideintr_step[OF D Cons(2) I] by metis
  have ne: "c \<noteq> b \<and> place (bufs (ikern s) ! c) \<noteq> place k" if "c \<in> set (x # xs)" for c
    using ide_inv_other[of view s "x # xs" b ys c] I Cons(4) that by auto
  have k: "k = bufs (ikern t) ! b" using ne[of x] t(4) Cons(4) by simp
  have bad: "a_bad (view (hw t)) = a_bad (view (hw s))" using t(5) by (auto simp: next_started_def started_def split: list.splits)
  have sec: "b_dirty k \<or> a_sector (view (hw t)) (b_drive k) (b_blockno k) = a_sector (view (hw s)) (b_drive k) (b_blockno k)"
  proof (cases xs)
    case Nil
    then show ?thesis using t(5) Cons(4) by (auto simp: next_started_def started_def put_sector_def)
  next
    case (Cons c cs)
    then have "\<forall>c \<in> set (take 1 (xs @ b # ys)). place (bufs (ikern s) ! c) \<noteq> (b_drive k, b_blockno k)" using ne[of c] by (simp add: place_def)
    then show ?thesis using next_other(1)[OF t(5)] by simp
  qed
  obtain u where u: "serve D (Suc (length xs)) t = Ok () u" "quiet (ikern u)" "ide_inv view u ys"
    "finished k (view (hw t)) (bufs (ikern u) ! b) (view (hw u))"
    using Cons.IH[OF t(2,3) k] Cons(5) bad by auto
  have "finished k (view (hw s)) (bufs (ikern u) ! b) (view (hw u))" using u(4) sec by (auto simp: finished_def)
  then show ?case using t(1) u by (intro exI[of _ u]) simp
qed

section \<open>Queueing a request\<close>

lemma queue_end:
  "queued f (Some x) (x # xs) \<Longrightarrow> while_option (\<lambda>x. f x \<noteq> None) (\<lambda>x. the (f x)) x = Some (last (x # xs))"
proof (induction xs arbitrary: x)
  case Nil
  then show ?case by (subst while_option_unfold) simp
next
  case (Cons y ys)
  then have "f x = Some y" "queued f (Some y) (y # ys)" by auto
  then show ?case using Cons.IH[of y] by (subst while_option_unfold) simp
qed

lemma queued_frame: "b \<notin> set bs \<Longrightarrow> queued (f(b := v)) x bs = queued f x bs"
  by (induction bs arbitrary: x) auto

lemma queued_snoc:
  "queued f x bs \<Longrightarrow> distinct (bs @ [b]) \<Longrightarrow> f b = None \<Longrightarrow> bs \<noteq> [] \<Longrightarrow> queued (f(last bs := Some b)) x (bs @ [b])"
proof (induction bs arbitrary: x)
  case (Cons c cs)
  then show ?case by (cases "cs = []") auto
qed simp

lemma append_buf_ok:
  assumes "queued (qnext s) (idequeue s) bs" "distinct (bs @ [b])" "qnext s b = None"
  obtains f where "append_buf b s = Ok () (s\<lparr>idequeue := Some (hd (bs @ [b])), qnext := f\<rparr>)" "queued f (Some (hd (bs @ [b]))) (bs @ [b])"
proof (cases bs)
  case Nil
  then have "append_buf b s = Ok () (s\<lparr>idequeue := Some (hd (bs @ [b])), qnext := qnext s\<rparr>)" using assms by (simp add: append_buf_def)
  then show ?thesis by (rule that) (use Nil assms in simp)
next
  case (Cons c cs)
  then have i: "idequeue s = Some c" "queued (qnext s) (Some c) (c # cs)" using assms by auto
  then have "append_buf b s = Ok () (s\<lparr>idequeue := Some (hd (bs @ [b])), qnext := (qnext s)(last bs := Some b)\<rparr>)"
    using queue_end[OF i(2)] Cons by (simp add: append_buf_def) 
  moreover have "queued ((qnext s)(last bs := Some b)) (Some (hd (bs @ [b]))) (bs @ [b])"
    using queued_snoc[of "qnext s" "Some c" bs b] assms i Cons by simp
  ultimately show ?thesis by (rule that)
qed

definition requested :: "nat \<Rightarrow> nat \<Rightarrow> 'd ide \<Rightarrow> nat list \<Rightarrow> bool" where
  "requested i b s bs \<longleftrightarrow> b < length (bufs (ikern s)) \<and> b \<notin> set bs \<and> request (bufs (ikern s) ! b)
     \<and> place (bufs (ikern s) ! b) \<notin> (\<lambda>c. place (bufs (ikern s) ! c)) ` set bs
     \<and> sl_locked (b_lock (bufs (ikern s) ! b)) \<and> sl_pid (b_lock (bufs (ikern s) ! b)) = pid (procs (ikern s) ! i)
     \<and> (b_dev (bufs (ikern s) ! b) = 0 \<or> havedisk1 s)"

lemma iderw_ok:
  assumes D: "ata_ok D view" and q: "quiet (ikern s)" "ncli (curcpu (mach (ikern s))) = 0" "running (ikern s) = Some i" "i < length (procs (ikern s))"
    and I: "ide_inv view s bs" and r: "requested i b s bs"
  shows "\<exists>t. ide_iderw D b s = Slept t \<and> ide_inv view t (bs @ [b]) \<and> bufs (ikern t) = bufs (ikern s)
    \<and> chan (procs (ikern t) ! i) = Some (ChBuf b) \<and> pstate (procs (ikern t) ! i) = SLEEPING
    \<and> mach (ikern t) = hold PtableLk (mach (ikern s))"
proof -
  let ?m = "mach (ikern s)" let ?k = "bufs (ikern s) ! b"
  let ?k1 = "(ikern s)\<lparr>mach := hold IdeLk ?m\<rparr>"
  let ?s1 = "s\<lparr>ikern := ?k1, qnext := (qnext s)(b := None)\<rparr>"
  note m = quietD[OF q(1)]
  have rb: "b < length (bufs (ikern s))" "b \<notin> set bs" "request ?k" "b_dev ?k = 0 \<or> havedisk1 s" using r by (auto simp: requested_def)
  have hs: "holdingsleep (BufSl b) (ikern s) = Ok True (ikern s)"
    using holdingsleep_ok[OF q(1,3), of "BufSl b"] r by (simp add: requested_def)
  have dist: "distinct (bs @ [b])" "queued (qnext ?s1) (idequeue ?s1) bs" using I rb by (auto simp: ide_inv_def queued_frame)
  obtain f where f: "append_buf b ?s1 = Ok () (?s1\<lparr>idequeue := Some (hd (bs @ [b])), qnext := f\<rparr>)" "queued f (Some (hd (bs @ [b]))) (bs @ [b])"
    using append_buf_ok[OF dist(2,1)] by auto
  let ?s2 = "?s1\<lparr>idequeue := Some (hd (bs @ [b])), qnext := f\<rparr>"
  have nv: "b_valid ?k \<longrightarrow> b_dirty ?k" using rb(3) by (simp add: request_def)
  have st: "iderw_start D b s = (if hd (bs @ [b]) = b then idestart D (Some b) ?s2 else Ok () ?s2)"
    using hs f(1) rb(4) nv by (auto simp: iderw_start_def on_kern_ok kacquire_quiet[OF q(1)] Let_def)
  obtain h where h: "iderw_start D b s = Ok () (?s2\<lparr>hw := h\<rparr>)" "in_progress (bufs (ikern s) ! hd (bs @ [b])) (view h)"
  proof (cases bs)
    case Nil
    have kk: "?k = bufs (ikern ?s2) ! b" by simp
    obtain h where "idestart D (Some b) ?s2 = Ok () (?s2\<lparr>hw := h\<rparr>)" "started ?k (view (hw ?s2)) (view h)"
      using idestart_ok[OF D kk] rb(3) unfolding request_def by metis
    then show ?thesis using that[of h] st Nil by (simp add: started_progress)
  next
    case (Cons c cs)
    then show ?thesis using that[of "hw s"] st I rb(2) by (auto simp: ide_inv_def)
  qed
  let ?s3 = "?s2\<lparr>hw := h\<rparr>"
  let ?k3 = "upd_proc i (\<lambda>p. p\<lparr>chan := Some (ChBuf b), pstate := SLEEPING\<rparr>) ((ikern s)\<lparr>mach := hold PtableLk ?m\<rparr>)"
  have run: "running ?k1 = Some i" using q(3) m by simp
  have sl: "sleep (ChBuf b) (Some IdeLk) ?k1 = Slept ?k3"
    using sleep_ok[of ?k1 IdeLk ?m i "ChBuf b"] m q run by simp
  have e: "ide_iderw D b s = Slept (?s3\<lparr>ikern := ?k3\<rparr>)"
    using h(1) nv sl by (auto simp: ide_iderw_def iderw_wait_def Let_def on_kern_def)
  have "place (bufs (ikern s) ! b) \<notin> (\<lambda>c. place (bufs (ikern s) ! c)) ` set bs" using r by (simp add: requested_def)
  then have "ide_inv view (?s3\<lparr>ikern := ?k3\<rparr>) (bs @ [b])"
    using I f(2) h(2) dist(1) rb by (auto simp: ide_inv_def upd_proc_def)
  then show ?thesis using e q(4) by (simp add: upd_proc_def)
qed

section \<open>A simulated drive\<close>

lemma iderw_back_ok:
  assumes "mach (ikern s) = hold PtableLk m" "mach_ok m" "touch m = m" "ncli (curcpu m) = 0" "\<And>L. lk_free L m"
    "b_valid (bufs (ikern s) ! b)" "\<not> b_dirty (bufs (ikern s) ! b)"
  shows "\<exists>t. ide_iderw_back i (if_flag m) b s = Ok () t \<and> mach (ikern t) = m \<and> bufs (ikern t) = bufs (ikern s)"
proof -
  have f: "m\<lparr>if_flag := if_flag m\<rparr> = m" by simp
  let ?k = "upd_proc i (\<lambda>p. p\<lparr>chan := None\<rparr>) ((ikern s)\<lparr>mach := hold IdeLk m\<rparr>)"
  have "sleep_back i IdeLk (if_flag m) (ikern s) = Ok () ?k"
    using sleep_back_ok[of "ikern s" m IdeLk i "if_flag m"] assms by (simp add: f)
  moreover have "krelease IdeLk ?k = Ok () (?k\<lparr>mach := m\<rparr>)"
    using assms by (intro krelease_quiet) (simp_all add: upd_proc_def)
  ultimately show ?thesis using assms by (simp add: ide_iderw_back_def iderw_wait_def on_kern_ok upd_proc_def Let_def)
qed

text \<open>A drive that answers busy for two polls after each command.\<close>

definition sim_drive :: "(ata \<times> nat) ide_dev" where
  "sim_drive = \<lparr>
     d_inb = (\<lambda>p (a, n). if n = 0 then (if failing a then 0x41 else 0x40, (a, 0)) else (0x80, (a, n - 1))),
     d_outb = (\<lambda>p v (a, n). if p = 0x1F7 then (ata_command v a, 2) else (a\<lparr>a_reg := (a_reg a)(p := v)\<rparr>, n)),
     d_insl = (\<lambda>p l (a, n). case a_cmd a of Reading d m \<Rightarrow> (a_sector a d m, (a\<lparr>a_cmd := Idle\<rparr>, n)) | _ \<Rightarrow> ([], (a, n))),
     d_outsl = (\<lambda>p bs (a, n). case a_cmd a of
         Writing d m \<Rightarrow> (a\<lparr>a_sector := (a_sector a)(d := (a_sector a d)(m := bs)), a_cmd := Idle\<rparr>, n) | _ \<Rightarrow> (a, n))\<rparr>"

lemma poll_ready: "d_inb D 0x1F7 h = (r, h') \<Longrightarrow> r AND 0xC0 = 0x40 \<Longrightarrow> poll D h = Some (r, h')"
  by (simp add: poll_def while_option_unfold[of _ _ "(r, h')"])

lemma poll_busy: "d_inb D 0x1F7 h = (r, h') \<Longrightarrow> r AND 0xC0 \<noteq> 0x40 \<Longrightarrow> poll D h = poll D h'"
  by (simp add: poll_def while_option_unfold[of _ _ "(r, h')"])

lemma sim_poll: "poll sim_drive (a, n) = Some (if failing a then 0x41 else 0x40, (a, 0))"
proof (induction n)
  case 0
  show ?case by (rule poll_ready) (simp_all add: sim_drive_def)
next
  case (Suc n)
  have "poll sim_drive (a, Suc n) = poll sim_drive (a, n)" by (rule poll_busy[of _ _ "0x80"]) (simp_all add: sim_drive_def)
  then show ?case using Suc by simp
qed

lemma sim_ok: "ata_ok sim_drive fst"
proof -
  have "\<exists>r h'. poll sim_drive h = Some (r, h') \<and> fst h' = fst h \<and> (r AND 0x21 \<noteq> 0) = failing (fst h)" for h
    by (cases h) (simp add: sim_poll)
  then show ?thesis unfolding ata_ok_def by (auto simp: sim_drive_def)
qed

definition demo_buf :: "32 word \<Rightarrow> bool \<Rightarrow> byte \<Rightarrow> buf" where
  "demo_buf n w v = \<lparr>b_valid = w, b_dirty = w, b_dev = 0, b_blockno = n,
     b_lock = \<lparr>sl_locked = True, sl_name = [], sl_pid = 1\<rparr>, b_refcnt = 1, b_prev = 0, b_next = 0, b_data = replicate 512 v\<rparr>"

definition demo_ata :: "(32 word \<Rightarrow> bool) \<Rightarrow> ata" where
  "demo_ata bad = \<lparr>a_reg = (\<lambda>_. 0), a_sector = (\<lambda>d n. replicate 512 (if n = 5 then 7 else 3)), a_bad = (\<lambda>d. bad), a_cmd = Reading False 9\<rparr>"

definition demo_ide :: "nat list \<Rightarrow> (32 word \<Rightarrow> bool) \<Rightarrow> (ata \<times> nat) ide" where
  "demo_ide q bad = \<lparr>ikern = calm\<lparr>bufs := [demo_buf 5 True 7, demo_buf 9 False 0]\<rparr>,
     idequeue = (if q = [] then None else Some (hd q)), qnext = (\<lambda>b. if q = [0, 1] \<and> b = 0 then Some 1 else None), havedisk1 = False,
     ioapic = (\<lambda>_. 0), hw = (demo_ata bad, 1)\<rparr>"

lemma demo_kern [simp]:
  "quiet (ikern (demo_ide q bad))" "running (ikern (demo_ide q bad)) = Some 0" "ncli (curcpu (mach (ikern (demo_ide q bad)))) = 0"
  "length (procs (ikern (demo_ide q bad))) = 64" "pid (procs (ikern (demo_ide q bad)) ! 0) = 1"
  using quiet_frame[of "calm\<lparr>bufs := [demo_buf 5 True 7, demo_buf 9 False 0]\<rparr>"] by (simp_all add: demo_ide_def)

lemma demo_inv:
  "ide_inv fst (demo_ide [] bad) []" "ide_inv fst (demo_ide [0, 1] bad) [0, 1]" "ide_inv fst (demo_ide [1] bad) [1]"
  by (simp_all add: ide_inv_def demo_ide_def demo_buf_def place_def b_drive_def request_def in_progress_def demo_ata_def)

section \<open>Properties\<close>

text \<open>(C19) The requests of the disk are served in the order in which they were queued, each by one interrupt: with \<open>xs\<close> queued
  before the buffer \<open>b\<close>, after \<open>length xs + 1\<close> interrupts \<open>b\<close> is valid and clean, it and its sector hold the same bytes
  (those of the buffer for a write, those of the sector for a read, whatever was written for other requests in between), and the
  drive works on the rest of the queue.\<close>

theorem ide_serves_in_order:
  assumes "ata_ok D view" "quiet (ikern s)" "ide_inv view s (xs @ b # ys)" "k = bufs (ikern s) ! b"
    "b_dirty k \<or> \<not> a_bad (view (hw s)) (b_drive k) (b_blockno k)"
  shows "\<exists>t. serve D (Suc (length xs)) s = Ok () t \<and> quiet (ikern t) \<and> ide_inv view t ys
      \<and> finished k (view (hw s)) (bufs (ikern t) ! b) (view (hw t))"
  using serve_finishes assms by blast

theorem ide_serves_in_order_witness:
  "\<exists>t. serve sim_drive 2 (demo_ide [0, 1] (\<lambda>_. False)) = Ok () t \<and> ide_inv fst t [] \<and> b_data (bufs (ikern t) ! 1) = replicate 512 3
     \<and> b_valid (bufs (ikern t) ! 1)"
proof -
  let ?s = "demo_ide [0, 1] (\<lambda>_. False)"
  have k: "bufs (ikern ?s) ! 1 = demo_buf 9 False 0" by (simp add: demo_ide_def)
  have "ide_inv fst ?s ([0] @ 1 # [])" using demo_inv(2) by simp
  from ide_serves_in_order[OF sim_ok demo_kern(1) this k[symmetric]]
  obtain t where t: "serve sim_drive (Suc (length [0::nat])) ?s = Ok () t" "ide_inv fst t []"
    "finished (demo_buf 9 False 0) (fst (hw ?s)) (bufs (ikern t) ! 1) (fst (hw t))"
    by (auto simp: demo_ide_def demo_ata_def)
  have "b_valid (bufs (ikern t) ! 1) = b_valid ((demo_buf 9 False 0)\<lparr>b_valid := True, b_dirty := False, b_data := b_data (bufs (ikern t) ! 1)\<rparr>)"
    using t(3) unfolding finished_def by (intro arg_cong[where f = b_valid]) (rule conjunct1)
  then have v: "b_valid (bufs (ikern t) ! 1)" by simp
  have "b_data (bufs (ikern t) ! 1) = replicate 512 3"
    using t(3) by (simp add: finished_def demo_buf_def demo_ide_def demo_ata_def)
  then show ?thesis using t(1,2) v by (auto simp: numeral_2_eq_2)
qed

text \<open>(C20) \<open>iderw\<close> puts the buffer at the end of the queue, starts the drive on it when the queue was empty, and sleeps on the buffer with
  the lock of the driver released; nothing else changes.\<close>

theorem iderw_queues:
  assumes "ata_ok D view" "quiet (ikern s)" "ncli (curcpu (mach (ikern s))) = 0" "running (ikern s) = Some i" "i < length (procs (ikern s))"
    "ide_inv view s bs" "requested i b s bs"
  shows "\<exists>t. ide_iderw D b s = Slept t \<and> ide_inv view t (bs @ [b]) \<and> bufs (ikern t) = bufs (ikern s)
    \<and> chan (procs (ikern t) ! i) = Some (ChBuf b) \<and> pstate (procs (ikern t) ! i) = SLEEPING
    \<and> mach (ikern t) = hold PtableLk (mach (ikern s))"
  using assms by (rule iderw_ok)

theorem iderw_queues_witness:
  "\<exists>t. ide_iderw sim_drive 0 (demo_ide [1] (\<lambda>_. False)) = Slept t \<and> ide_inv fst t [1, 0]"
proof -
  have "requested 0 0 (demo_ide [1] (\<lambda>_. False)) [1]"
    by (simp add: requested_def demo_ide_def demo_buf_def request_def place_def)
  from iderw_queues[OF sim_ok demo_kern(1,3,2) _ demo_inv(3) this] show ?thesis by auto
qed

text \<open>When a read fails the buffer is marked valid all the same, with the bytes it had before.\<close>

lemma ide_read_error:
  assumes "ata_ok D view" "quiet (ikern s)" "ide_inv view s (b # bs)" "k = bufs (ikern s) ! b"
    "\<not> b_dirty k" "a_bad (view (hw s)) (b_drive k) (b_blockno k)"
  shows "\<exists>t. ideintr D s = Ok () t \<and> bufs (ikern t) ! b = k\<lparr>b_valid := True\<rparr>"
proof -
  obtain t where t: "ideintr D s = Ok () t" "bufs (ikern t) = (bufs (ikern s))[b := done_buf (view (hw s)) (bufs (ikern s) ! b)]"
    using ideintr_step[OF assms(1-3)] by metis
  have "b < length (bufs (ikern s))" using assms(3) by (simp add: ide_inv_def)
  then have "bufs (ikern t) ! b = k\<lparr>b_valid := True\<rparr>" using t(2) assms(4-6) by (simp add: done_buf_def)
  then show ?thesis using t(1) by blast
qed

lemma ide_read_error_demo:
  "\<exists>t. ideintr sim_drive (demo_ide [1] (\<lambda>_. True)) = Ok () t \<and> bufs (ikern t) ! 1 = (demo_buf 9 False 0)\<lparr>b_valid := True\<rparr>"
proof -
  have k: "demo_buf 9 False 0 = bufs (ikern (demo_ide [1] (\<lambda>_. True))) ! 1" by (simp add: demo_ide_def)
  show ?thesis by (rule ide_read_error[OF sim_ok demo_kern(1) demo_inv(3) k]) (simp_all add: demo_ide_def demo_ata_def demo_buf_def)
qed

end
