(* ===== verification/Mp.thy ===== *)
theory Mp
  imports CString Kernel_State "HOL-Library.While_Combinator"
begin

text \<open>
  The search for the description of the processors that the BIOS leaves in memory (mp.c).  The functions read a memory and return the
  address of the structure found; \<open>mpinit\<close> enters the processors into the array \<open>cpus\<close> of the machine, where \<open>mycpu\<close> looks
  them up.  The loops advance a pointer and are \<open>while_option\<close>: for the searches and for tables of known entries they are shown to end,
  and for a table with an entry of unknown type the loop of \<open>mpinit\<close> is shown not to.
\<close>

section \<open>Finding the tables\<close>

definition at :: "memory \<Rightarrow> addr \<Rightarrow> bseq" where
  "at m a = (\<lambda>i. m (a + of_nat i))"

definition load16 :: "memory \<Rightarrow> addr \<Rightarrow> 16 word" where
  "load16 m a = ucast (m a) OR push_bit 8 (ucast (m (a + 1)))"

text \<open>\<open>sum\<close> adds in an \<open>int\<close> and returns the low byte.\<close>

definition mp_sum :: "memory \<Rightarrow> addr \<Rightarrow> nat \<Rightarrow> byte" where
  "mp_sum m a n = ucast (fold (\<lambda>i acc. acc + ucast (m (a + of_nat i))) [0..<n] (0 :: 32 word))"

definition is_mp :: "memory \<Rightarrow> addr \<Rightarrow> bool" where
  "is_mp m p \<longleftrightarrow> memcmp (at m p) (\<lambda>i. bytes_of ''_MP_'' ! i) 4 = 0 \<and> mp_sum m p 16 = 0"

text \<open>The outer \<open>option\<close> of the searches is \<open>None\<close> for a loop that does not end, the inner one is the null pointer.\<close>

definition mpsearch1 :: "memory \<Rightarrow> 32 word \<Rightarrow> 32 word \<Rightarrow> addr option option" where
  "mpsearch1 m a len =
     (let addr = P2V a; e = addr + len in
      map_option (\<lambda>p. if p < e then Some p else None) (while_option (\<lambda>p. p < e \<and> \<not> is_mp m p) (\<lambda>p. p + 16) addr))"

definition mpsearch :: "memory \<Rightarrow> addr option option" where
  "mpsearch m =
     (let bda = P2V 0x400; last = mpsearch1 m 0xF0000 0x10000;
          p = push_bit 4 (push_bit 8 (ucast (m (bda + 0x0F))) OR ucast (m (bda + 0x0E))) :: 32 word
      in if p \<noteq> 0
         then (case mpsearch1 m p 1024 of Some None \<Rightarrow> last | r \<Rightarrow> r)
         else let p = (push_bit 8 (ucast (m (bda + 0x14))) OR ucast (m (bda + 0x13))) * 1024 in
           (case mpsearch1 m (p - 1024) 1024 of Some None \<Rightarrow> last | r \<Rightarrow> r))"

definition mpconfig :: "memory \<Rightarrow> (addr \<times> addr) option option" where
  "mpconfig m =
     map_option (\<lambda>r. case r of None \<Rightarrow> None
       | Some mp \<Rightarrow>
         if load32 m (mp + 4) = 0 then None
         else let conf = P2V (load32 m (mp + 4)) in
           if memcmp (at m conf) (\<lambda>i. bytes_of ''PCMP'' ! i) 4 \<noteq> 0 then None
           else if m (conf + 6) \<noteq> 1 \<and> m (conf + 6) \<noteq> 4 then None
           else if mp_sum m conf (unat (load16 m (conf + 4))) \<noteq> 0 then None
           else Some (mp, conf)) (mpsearch m)"

section \<open>Reading the configuration\<close>

abbreviation NCPU :: nat where
  "NCPU \<equiv> 8"

record mp_state =
  mp_mach :: machine
  mp_ioapicid :: byte
  mp_lapic :: "32 word"
  mp_ports :: "(16 word \<times> byte) list"     \<comment> \<open>the bytes written to ports\<close>

type_synonym scan = "addr \<times> bool \<times> mp_state"

text \<open>One pass of the loop; the \<open>break\<close> of the default case leaves only the \<open>switch\<close>.\<close>

definition mp_entry :: "memory \<Rightarrow> scan \<Rightarrow> scan" where
  "mp_entry m = (\<lambda>(p, ismp, s).
     if m p = 0 then
       (p + 20, ismp, if ncpu (mp_mach s) < NCPU
          then s\<lparr>mp_mach := (upd_cpu (ncpu (mp_mach s)) (\<lambda>c. c\<lparr>apicid := m (p + 1)\<rparr>) (mp_mach s))\<lparr>ncpu := ncpu (mp_mach s) + 1\<rparr>\<rparr>
          else s)
     else if m p = 2 then (p + 8, ismp, s\<lparr>mp_ioapicid := m (p + 1)\<rparr>)
     else if m p = 1 \<or> m p = 3 \<or> m p = 4 then (p + 8, ismp, s)
     else (p, False, s))"

definition mpscan :: "memory \<Rightarrow> addr \<Rightarrow> scan \<Rightarrow> scan option" where
  "mpscan m e = while_option (\<lambda>(p, _). p < e) (mp_entry m)"

text \<open>The byte read from port 0x23 is a parameter.\<close>

definition mpinit :: "memory \<Rightarrow> byte \<Rightarrow> mp_state \<Rightarrow> (unit, mp_state) outcome" where
  "mpinit m imcr s =
     (case mpconfig m of None \<Rightarrow> Spin
      | Some None \<Rightarrow> Panic ''Expect to run on an SMP''
      | Some (Some (mp, conf)) \<Rightarrow>
        (case mpscan m (conf + ucast (load16 m (conf + 4))) (conf + 44, True, s\<lparr>mp_lapic := load32 m (conf + 36)\<rparr>) of
           None \<Rightarrow> Spin
         | Some (_, ismp, s) \<Rightarrow>
           if \<not> ismp then Panic ''Didn't find a suitable machine''
           else if m (mp + 12) \<noteq> 0 then Ok () (s\<lparr>mp_ports := mp_ports s @ [(0x22, 0x70), (0x23, imcr OR 1)]\<rparr>)
           else Ok () s))"

section \<open>Tables\<close>

text \<open>The entries of a table and their bytes.\<close>

datatype mp_ent = ProcEnt byte "byte list" | IoEnt byte "byte list" | OtherEnt byte "byte list"

fun ent_bytes :: "mp_ent \<Rightarrow> byte list" where
  "ent_bytes (ProcEnt i r) = 0 # i # r"
| "ent_bytes (IoEnt i r) = 2 # i # r"
| "ent_bytes (OtherEnt t r) = t # r"

fun ent_ok :: "mp_ent \<Rightarrow> bool" where
  "ent_ok (ProcEnt i r) = (length r = 18)"
| "ent_ok (IoEnt i r) = (length r = 6)"
| "ent_ok (OtherEnt t r) = (t \<in> {1, 3, 4} \<and> length r = 7)"

fun ent_id :: "mp_ent \<Rightarrow> byte option" where
  "ent_id (ProcEnt i r) = Some i"
| "ent_id _ = None"

fun add_ent :: "mp_ent \<Rightarrow> mp_state \<Rightarrow> mp_state" where
  "add_ent (ProcEnt i r) s = (if ncpu (mp_mach s) < NCPU
     then s\<lparr>mp_mach := (upd_cpu (ncpu (mp_mach s)) (\<lambda>c. c\<lparr>apicid := i\<rparr>) (mp_mach s))\<lparr>ncpu := ncpu (mp_mach s) + 1\<rparr>\<rparr> else s)"
| "add_ent (IoEnt i r) s = s\<lparr>mp_ioapicid := i\<rparr>"
| "add_ent (OtherEnt t r) s = s"

definition holds :: "memory \<Rightarrow> addr \<Rightarrow> byte list \<Rightarrow> bool" where
  "holds m a bs \<longleftrightarrow> (\<forall>i < length bs. m (a + of_nat i) = bs ! i)"

lemma holds_append: "holds m a (xs @ ys) \<longleftrightarrow> holds m a xs \<and> holds m (a + of_nat (length xs)) ys"
proof
  assume h: "holds m a (xs @ ys)"
  have "m (a + of_nat (length xs) + of_nat i) = ys ! i" if "i < length ys" for i
    using h[unfolded holds_def, rule_format, of "length xs + i"] that by (simp add: add.assoc)
  moreover have "m (a + of_nat i) = xs ! i" if "i < length xs" for i
    using h[unfolded holds_def, rule_format, of i] that by (simp add: nth_append)
  ultimately show "holds m a xs \<and> holds m (a + of_nat (length xs)) ys" by (simp add: holds_def)
next
  assume h: "holds m a xs \<and> holds m (a + of_nat (length xs)) ys"
  have "m (a + of_nat i) = (xs @ ys) ! i" if "i < length xs + length ys" for i
  proof (cases "i < length xs")
    case False
    then obtain j where j: "i = length xs + j" by (metis le_add_diff_inverse not_less)
    have "m (a + of_nat (length xs) + of_nat j) = ys ! j" using h that j by (simp add: holds_def)
    then show ?thesis by (simp add: j add.assoc)
  qed (use h in \<open>simp add: holds_def nth_append\<close>)
  then show "holds m a (xs @ ys)" by (simp add: holds_def)
qed

lemma entry_step:
  assumes "ent_ok x" "holds m p (ent_bytes x)"
  shows "mp_entry m (p, b, s) = (p + of_nat (length (ent_bytes x)), b, add_ent x s)"
proof -
  have h: "m (p + of_nat i) = ent_bytes x ! i" if "i < length (ent_bytes x)" for i using assms(2) that by (simp add: holds_def)
  show ?thesis
  proof (cases x)
    case (ProcEnt i r)
    then show ?thesis using h[of 0] h[of 1] assms(1) by (simp add: mp_entry_def)
  next
    case (IoEnt i r)
    then show ?thesis using h[of 0] h[of 1] assms(1) by (simp add: mp_entry_def)
  next
    case (OtherEnt t r)
    then show ?thesis using h[of 0] assms(1) by (auto simp: mp_entry_def)
  qed
qed

lemma unat_plus: "unat (p :: addr) + n < 2 ^ 32 \<Longrightarrow> unat (p + of_nat n) = unat p + n"
  by (simp add: unat_word_ariths unat_of_nat)

lemma below:
  assumes "unat (p :: addr) + n < 2 ^ 32" "0 < k" "k \<le> n"
  shows "p < p + of_nat n" "unat (p + of_nat k) + (n - k) = unat p + n" "p + of_nat k + of_nat (n - k) = p + of_nat n"
proof -
  have u: "unat (p + of_nat j) = unat p + j" if "j \<le> n" for j
    using assms(1) that by (intro unat_plus) simp
  show "p < p + of_nat n" using u[of n] assms by (simp add: word_less_nat_alt)
  show "unat (p + of_nat k) + (n - k) = unat p + n" using u[of k] assms by simp
  show "p + of_nat k + of_nat (n - k) = p + of_nat n" using assms by (simp add: of_nat_diff)
qed

lemma mpscan_entries:
  "\<forall>x \<in> set es. ent_ok x \<Longrightarrow> holds m p (concat (map ent_bytes es)) \<Longrightarrow>
   unat p + (length (concat (map ent_bytes es)) + k) < 2 ^ 32 \<Longrightarrow> n = length (concat (map ent_bytes es)) + k \<Longrightarrow>
   mpscan m (p + of_nat n) (p, b, s) = mpscan m (p + of_nat n) (p + of_nat (length (concat (map ent_bytes es))), b, fold add_ent es s)"
proof (induction es arbitrary: p s n)
  case (Cons x es)
  let ?j = "length (ent_bytes x)" let ?n = "length (concat (map ent_bytes es)) + k"
  have ok: "ent_ok x" "holds m p (ent_bytes x)" "holds m (p + of_nat ?j) (concat (map ent_bytes es))"
    using Cons.prems by (simp_all add: holds_append)
  have j: "0 < ?j" by (cases x) simp_all
  have b: "p < p + of_nat n" "unat (p + of_nat ?j) + ?n = unat p + n" "p + of_nat ?j + of_nat ?n = p + of_nat n"
    using below[of p n ?j] Cons.prems j by (simp_all add: algebra_simps)
  have "mpscan m (p + of_nat n) (p, b, s) = mpscan m (p + of_nat n) (p + of_nat ?j, b, add_ent x s)"
    unfolding mpscan_def using b(1) by (subst while_option_unfold) (simp add: entry_step[OF ok(1,2)])
  also have "\<dots> = mpscan m (p + of_nat ?j + of_nat ?n) (p + of_nat ?j + of_nat (length (concat (map ent_bytes es))), b, fold add_ent es (add_ent x s))"
  proof -
    have "unat (p + of_nat ?j) + ?n < 2 ^ 32" using b(2) Cons.prems(3,4) by (simp add: add.assoc)
    then show ?thesis unfolding b(3)[symmetric] using Cons.prems(1) ok(3) by (intro Cons.IH) simp_all
  qed
  finally show ?case using b(3) by (simp add: algebra_simps)
qed simp

lemma mpscan_end: "mpscan m e (e, b, s) = Some (e, b, s)"
  unfolding mpscan_def by (subst while_option_unfold) simp

lemma mpscan_stuck:
  assumes "p < e" "m p > 4"
  shows "mpscan m e (p, b, s) = None"
proof (rule ccontr)
  assume "mpscan m e (p, b, s) \<noteq> None"
  then obtain t where t: "while_option (\<lambda>(p, _). p < e) (mp_entry m) (p, b, s) = Some t" by (auto simp: mpscan_def)
  have ne: "m p \<noteq> 0" "m p \<noteq> 1" "m p \<noteq> 2" "m p \<noteq> 3" "m p \<noteq> 4" using assms(2) by auto
  have "fst t = p" by (rule while_option_rule[where P = "\<lambda>x. fst x = p", OF _ t]) (auto simp: mp_entry_def ne)
  then show False using while_option_stop[OF t] assms(1) by (cases t) simp
qed

lemma cpus_found:
  "length (cpus (mp_mach s)) = NCPU \<Longrightarrow> ncpu (mp_mach s) \<le> NCPU \<Longrightarrow>
   map apicid (take (ncpu (mp_mach (fold add_ent es s))) (cpus (mp_mach (fold add_ent es s)))) =
     take NCPU (map apicid (take (ncpu (mp_mach s)) (cpus (mp_mach s))) @ List.map_filter ent_id es)
   \<and> ncpu (mp_mach (fold add_ent es s)) = min NCPU (ncpu (mp_mach s) + length (List.map_filter ent_id es))"
proof (induction es arbitrary: s)
  case (Cons x es)
  show ?case
  proof (cases x)
    case (ProcEnt i r)
    show ?thesis
    proof (cases "ncpu (mp_mach s) < NCPU")
      case True
      define t where "t = add_ent x s"
      have t: "ncpu (mp_mach t) = Suc (ncpu (mp_mach s))" "length (cpus (mp_mach t)) = NCPU"
        "map apicid (take (ncpu (mp_mach t)) (cpus (mp_mach t))) = map apicid (take (ncpu (mp_mach s)) (cpus (mp_mach s))) @ [i]"
        using True Cons.prems ProcEnt by (simp_all add: t_def upd_cpu_def take_Suc_conv_app_nth)
      have eq: "fold add_ent (x # es) s = fold add_ent es t" "List.map_filter ent_id (x # es) = i # List.map_filter ent_id es"
        by (simp_all add: t_def ProcEnt List.map_filter_simps)
      have "ncpu (mp_mach t) \<le> NCPU" using t(1) True by simp
      from Cons.IH[OF t(2) this] show ?thesis
        unfolding eq t(3) unfolding t(1) append_assoc append.simps list.size add_Suc add_Suc_right add_0_right .
    next
      case False
      then show ?thesis using Cons.IH[of s] Cons.prems ProcEnt by (auto simp: List.map_filter_simps)
    qed
  next
    case (IoEnt i r)
    have eq: "fold add_ent (x # es) s = fold add_ent es (s\<lparr>mp_ioapicid := i\<rparr>)" "List.map_filter ent_id (x # es) = List.map_filter ent_id es"
      by (simp_all add: IoEnt List.map_filter_simps)
    have f: "mp_mach (s\<lparr>mp_ioapicid := i\<rparr>) = mp_mach s" by simp
    show ?thesis using Cons.IH[of "s\<lparr>mp_ioapicid := i\<rparr>", unfolded f, OF Cons.prems] unfolding eq .
  next
    case (OtherEnt t r)
    have eq: "fold add_ent (x # es) s = fold add_ent es s" "List.map_filter ent_id (x # es) = List.map_filter ent_id es"
      by (simp_all add: OtherEnt List.map_filter_simps)
    show ?thesis using Cons.IH[OF Cons.prems] unfolding eq .
  qed
qed (simp add: List.map_filter_simps)

section \<open>The searches and the whole table\<close>

lemma search_from:
  "unat p + 16 * k < 2 ^ 32 \<Longrightarrow> e = p + of_nat (16 * k) \<Longrightarrow>
   while_option (\<lambda>p. p < e \<and> \<not> is_mp m p) (\<lambda>p. p + 16) p =
     Some (case find (is_mp m) (map (\<lambda>i. p + of_nat (16 * i)) [0..<k]) of None \<Rightarrow> e | Some q \<Rightarrow> q)"
proof (induction k arbitrary: p)
  case 0
  then show ?case by (subst while_option_unfold) simp
next
  case (Suc k)
  have b: "p < e" "unat (p + 16) + 16 * k < 2 ^ 32" "e = p + 16 + of_nat (16 * k)"
    using below[of p "16 * Suc k" 16] Suc.prems by (simp_all add: algebra_simps)
  have l: "map (\<lambda>i. p + of_nat (16 * i)) [0..<Suc k] = p # map (\<lambda>i. p + 16 + of_nat (16 * i)) [0..<k]"
    by (simp add: upt_rec[of 0] map_Suc_upt[symmetric] algebra_simps del: upt_Suc)
  show ?case
  proof (cases "is_mp m p")
    case True
    then show ?thesis unfolding l by (subst while_option_unfold) simp
  next
    case False
    then show ?thesis unfolding l using Suc.IH[OF b(2,3)] b(1) by (subst while_option_unfold) simp
  qed
qed

lemma mpsearch1_first:
  assumes "unat (P2V a) + 16 * k < 2 ^ 32"
  shows "mpsearch1 m a (of_nat (16 * k)) = Some (find (is_mp m) (map (\<lambda>i. P2V a + of_nat (16 * i)) [0..<k]))"
proof (cases "find (is_mp m) (map (\<lambda>i. P2V a + of_nat (16 * i)) [0..<k])")
  case None
  then show ?thesis using search_from[OF assms refl] by (simp add: mpsearch1_def Let_def)
next
  case (Some q)
  then obtain i where i: "i < k" "q = P2V a + of_nat (16 * i)" by (auto simp: find_Some_iff)
  have "q < P2V a + of_nat (16 * k)"
    using i assms by (simp add: word_less_nat_alt unat_word_ariths unat_of_nat)
  then show ?thesis using search_from[OF assms refl] Some by (simp add: mpsearch1_def Let_def)
qed

definition mp_result :: "memory \<Rightarrow> addr \<Rightarrow> byte \<Rightarrow> mp_state \<Rightarrow> mp_state" where
  "mp_result m mp imcr s = (if m (mp + 12) \<noteq> 0 then s\<lparr>mp_ports := mp_ports s @ [(0x22, 0x70), (0x23, imcr OR 1)]\<rparr> else s)"

lemma mpinit_ok:
  assumes c: "mpconfig m = Some (Some (mp, conf))" and es: "\<forall>x \<in> set es. ent_ok x"
    and h: "holds m (conf + 44) (concat (map ent_bytes es) @ rest)" and r: "rest \<noteq> [] \<longrightarrow> hd rest > 4"
    and n: "unat (load16 m (conf + 4)) = 44 + length (concat (map ent_bytes es) @ rest)" and w: "unat conf + unat (load16 m (conf + 4)) < 2 ^ 32"
  shows "mpinit m imcr s = (if rest = [] then Ok () (mp_result m mp imcr (fold add_ent es (s\<lparr>mp_lapic := load32 m (conf + 36)\<rparr>))) else Spin)"
proof -
  let ?j = "length (concat (map ent_bytes es))" let ?n = "?j + length rest" let ?p = "conf + 44"
  let ?s = "s\<lparr>mp_lapic := load32 m (conf + 36)\<rparr>"
  have u: "unat ?p = unat conf + 44" using w n by (simp add: unat_word_ariths)
  have e: "conf + ucast (load16 m (conf + 4)) = ?p + of_nat ?n"
  proof -
    have "ucast (load16 m (conf + 4)) = (of_nat (44 + ?n) :: 32 word)"
      unfolding n[unfolded length_append, symmetric] by simp
    then show ?thesis by (simp add: algebra_simps)
  qed
  have b: "unat ?p + (?j + length rest) < 2 ^ 32" using u w n by simp
  have sc: "mpscan m (?p + of_nat ?n) (?p, True, ?s) = mpscan m (?p + of_nat ?n) (?p + of_nat ?j, True, fold add_ent es ?s)"
    using mpscan_entries[OF es _ b refl] h by (simp add: holds_append)
  show ?thesis
  proof (cases rest)
    case Nil
    then have "mpscan m (?p + of_nat ?n) (?p, True, ?s) = Some (?p + of_nat ?n, True, fold add_ent es ?s)"
      using sc mpscan_end[of m "?p + of_nat ?j"] by simp
    then show ?thesis by (simp only: mpinit_def c e option.case prod.case) (simp add: mp_result_def Nil)
  next
    case (Cons t ts)
    have lt: "?p + of_nat ?j < ?p + of_nat ?n"
      using unat_plus[of ?p ?j] unat_plus[OF b] b Cons unfolding word_less_nat_alt by simp
    have "holds m (?p + of_nat ?j) (t # ts)" using h Cons unfolding holds_append by simp
    from this[unfolded holds_def, rule_format, of 0] have "m (?p + of_nat ?j) = t" by simp
    then have "m (?p + of_nat ?j) > 4" using r Cons by simp
    from mpscan_stuck[where m = m, OF lt this] have "mpscan m (?p + of_nat ?n) (?p, True, ?s) = None" using sc by simp
    then show ?thesis by (simp only: mpinit_def c e option.case prod.case) (simp add: Cons)
  qed
qed

section \<open>A concrete machine\<close>

lemma ucast_plus: "ucast (x + ucast (y :: byte) :: 32 word) = (ucast x + y :: byte)"
proof -
  have "(256::nat) dvd 4294967296" by simp
  then show ?thesis
    by (simp add: word_unat_eq_iff unsigned_ucast_eq take_bit_eq_mod unat_word_ariths mod_mod_cancel mod_simps)
qed

lemma mp_sum_holds:
  assumes "holds m a bs"
  shows "mp_sum m a (length bs) = sum_list bs"
proof -
  have f: "ucast (fold (\<lambda>i acc. acc + ucast (m (a + of_nat i))) is (x :: 32 word)) = (ucast x + sum_list (map (\<lambda>i. m (a + of_nat i)) is) :: byte)" for "is" x
  proof (induction "is" arbitrary: x)
    case (Cons i js)
    have "ucast (x + ucast (m (a + of_nat i)) :: 32 word) = (ucast x + m (a + of_nat i) :: byte)"
      by (rule ucast_plus)
    then show ?case using Cons by (simp add: add.assoc)
  qed simp
  have "map (\<lambda>i. m (a + of_nat i)) [0..<length bs] = bs"
    using assms by (intro nth_equalityI) (simp_all add: holds_def)
  then show ?thesis using f[of "[0..<length bs]" 0] by (simp add: mp_sum_def)
qed

definition rom :: "byte list \<Rightarrow> addr \<Rightarrow> memory \<Rightarrow> memory" where
  "rom bs a m x = (if unat (x - a) < length bs then bs ! unat (x - a) else m x)"

lemma holds_rom: "length bs < 2 ^ 32 \<Longrightarrow> holds (rom bs a m) a bs"
  by (simp add: holds_def rom_def unat_of_nat)

lemma holds_below:
  assumes "holds m a cs" "length bs \<le> unat (a - b)" "unat (a - b) + length cs < 2 ^ 32"
  shows "holds (rom bs b m) a cs"
proof -
  have "unat (a + of_nat i - b) = unat (a - b) + i" if "i < length cs" for i
    using unat_plus[of "a - b" i] assms(3) that by (simp add: algebra_simps)
  then show ?thesis using assms by (simp add: holds_def rom_def)
qed

definition demo_table :: "byte list \<Rightarrow> byte list" where
  "demo_table rest = concat (map ent_bytes [ProcEnt 3 (replicate 18 0), ProcEnt 5 (replicate 18 0), IoEnt 7 (replicate 6 0)]) @ rest"

definition demo_conf :: "byte list \<Rightarrow> byte list" where
  "demo_conf rest = (let h = [80, 67, 77, 80, of_nat (44 + length (demo_table rest)), 0, 4];
      t = replicate 28 0 @ [0, 0, 0xE0, 0xFE] @ replicate 4 0 @ demo_table rest
    in h @ [- sum_list h - sum_list t] @ t)"

definition demo_mp :: "byte list" where
  "demo_mp = [95, 77, 80, 95, 0, 0, 0x20, 0, 1, 4, 0x80, 0, 0, 0, 0, 0]"

text \<open>The words of the BIOS data area name the extended area, which starts with the floating pointer; it names the table.\<close>

definition demo_rom :: "byte list \<Rightarrow> memory" where
  "demo_rom rest = rom (demo_conf rest) (P2V 0x200000) (rom demo_mp (P2V 0x9FC00) (rom [0xC0, 0x9F] (P2V 0x40E) (\<lambda>_. 0)))"

lemma demo_len: "length (demo_conf rest) = 92 + length rest" "length demo_mp = 16"
  by (simp_all add: demo_conf_def demo_table_def demo_mp_def Let_def)

lemma demo_holds:
  assumes "length rest < 100"
  shows "holds (demo_rom rest) (P2V 0x200000) (demo_conf rest)" "holds (demo_rom rest) (P2V 0x9FC00) demo_mp"
    "holds (demo_rom rest) (P2V 0x40E) [0xC0, 0x9F]"
  using assms unfolding demo_rom_def by (auto intro!: holds_rom holds_below simp: demo_len P2V_def)

lemma demo_sums: "sum_list demo_mp = 0" "sum_list (demo_conf rest) = 0"
proof -
  show "sum_list demo_mp = 0" by code_simp
qed (simp add: demo_conf_def Let_def)

lemma holdsD: "holds m a bs \<Longrightarrow> i < length bs \<Longrightarrow> m (a + of_nat i) = bs ! i"
  by (simp add: holds_def)

lemma signature:
  assumes "holds m a bs" "take 4 bs = bytes_of w" "length w = 4"
  shows "memcmp (at m a) (\<lambda>i. bytes_of w ! i) 4 = 0"
proof -
  have l: "4 \<le> length bs" using assms(2,3) by (metis bytes_of_def length_map length_take min.bounded_iff order_refl)
  have "m (a + of_nat i) = bytes_of w ! i" if "i < 4" for i
    using holdsD[OF assms(1), of i] assms(2)[symmetric] l that by simp
  then have "at m a i = bytes_of w ! i" if "i < 4" for i using that by (simp add: at_def)
  then have "memcmp_loop (at m a) (\<lambda>i. bytes_of w ! i) 0 (Suc (Suc (Suc (Suc 0)))) = 0" by simp
  moreover have "unat (4 :: 32 word) = Suc (Suc (Suc (Suc 0)))" by simp
  ultimately show ?thesis unfolding memcmp_def by (simp only:)
qed

lemma demo_fields:
  assumes r: "length rest < 100"
  shows "load16 (demo_rom rest) (P2V 0x200000 + 4) = of_nat (92 + length rest)" "demo_rom rest (P2V 0x200000 + 6) = 4"
proof -
  let ?m = "demo_rom rest"
  note h = demo_holds[OF r]
  have "?m (P2V 0x200000 + 4) = of_nat (92 + length rest)" and b: "?m (P2V 0x200000 + 5) = 0" "?m (P2V 0x200000 + 6) = 4"
    using holdsD[OF h(1), of 4] holdsD[OF h(1), of 5] holdsD[OF h(1), of 6]
    by (simp_all add: demo_len) (simp_all add: demo_conf_def demo_table_def Let_def)
  moreover have "ucast (of_nat (92 + length rest) :: byte) = (of_nat (92 + length rest) :: 16 word)"
    unfolding word_unat_eq_iff using r by (simp add: unsigned_ucast_eq take_bit_eq_mod unat_of_nat del: of_nat_add)
  ultimately show "load16 ?m (P2V 0x200000 + 4) = of_nat (92 + length rest)" by (simp add: load16_def add.assoc)
  show "?m (P2V 0x200000 + 6) = 4" by (rule b(2))
qed

lemma demo_length: "length rest < 100 \<Longrightarrow> unat (load16 (demo_rom rest) (P2V 0x200000 + 4)) = 92 + length rest"
  using demo_fields(1)[of rest] by (simp add: unat_of_nat del: of_nat_add)

lemma demo_config:
  assumes r: "length rest < 100"
  shows "mpconfig (demo_rom rest) = Some (Some (P2V 0x9FC00, P2V 0x200000))"
proof -
  let ?m = "demo_rom rest"
  note h = demo_holds[OF r]
  have mp: "is_mp ?m (P2V 0x9FC00)"
    using signature[OF h(2), of "''_MP_''"] mp_sum_holds[OF h(2)] by (simp add: is_mp_def demo_len demo_sums) (simp add: demo_mp_def bytes_of_def)
  have "mpsearch1 ?m 0x9FC00 1024 = Some (Some (P2V 0x9FC00))"
    using mp by (simp add: mpsearch1_def Let_def while_option_unfold[of _ _ "P2V 0x9FC00"]) (simp add: P2V_def)
  moreover have "?m (P2V 0x400 + 0x0E) = 0xC0" "?m (P2V 0x400 + 0x0F) = 0x9F"
    using holdsD[OF h(3), of 0] holdsD[OF h(3), of 1] by (simp_all add: P2V_def)
  ultimately have se: "mpsearch ?m = Some (Some (P2V 0x9FC00))" by (simp add: mpsearch_def Let_def)
  have ld: "load32 ?m (P2V 0x9FC00 + 4) = 0x200000"
    using holdsD[OF h(2), of 4] holdsD[OF h(2), of 5] holdsD[OF h(2), of 6] holdsD[OF h(2), of 7]
    by (simp add: load32_def demo_len add.assoc) (simp add: demo_mp_def)
  have "mp_sum ?m (P2V 0x200000) (92 + length rest) = 0"
    using mp_sum_holds[OF h(1)] by (simp add: demo_len demo_sums)
  moreover have "memcmp (at ?m (P2V 0x200000)) (\<lambda>i. bytes_of ''PCMP'' ! i) 4 = 0"
    by (rule signature[OF h(1)]) (simp_all add: demo_conf_def Let_def bytes_of_def)
  ultimately show ?thesis using r se ld demo_fields[OF r] by (simp add: mpconfig_def Let_def unat_of_nat del: of_nat_add)
qed

section \<open>Properties\<close>

fun io_id :: "mp_ent \<Rightarrow> byte option" where
  "io_id (IoEnt i r) = Some i"
| "io_id _ = None"

lemma add_ent_frame: "mp_lapic (fold add_ent es s) = mp_lapic s"
proof (induction es arbitrary: s)
  case (Cons x es)
  then show ?case by (cases x) simp_all
qed simp

lemma io_found: "mp_ioapicid (fold add_ent es s) = last (mp_ioapicid s # List.map_filter io_id es)"
proof (induction es arbitrary: s)
  case (Cons x es)
  then show ?case by (cases x) (simp_all add: List.map_filter_simps)
qed (simp add: List.map_filter_simps)

lemma mp_result_frame [simp]:
  "mp_mach (mp_result m p i s) = mp_mach s" "mp_ioapicid (mp_result m p i s) = mp_ioapicid s" "mp_lapic (mp_result m p i s) = mp_lapic s"
  by (simp_all add: mp_result_def)

text \<open>(C21) From a configuration table with entries of known types \<open>mpinit\<close> takes the identifiers of the first eight processors, in order,
  the one of the last I/O APIC, and the address of the local APIC.  When an entry of unknown type follows, the
  pointer no longer moves and \<open>mpinit\<close> runs for ever: the panic after the loop is not reached.\<close>

theorem mpinit_table:
  assumes "mpconfig m = Some (Some (mp, conf))" "\<forall>x \<in> set es. ent_ok x"
    "holds m (conf + 44) (concat (map ent_bytes es) @ rest)" "rest \<noteq> [] \<longrightarrow> hd rest > 4"
    "unat (load16 m (conf + 4)) = 44 + length (concat (map ent_bytes es) @ rest)" "unat conf + unat (load16 m (conf + 4)) < 2 ^ 32"
    "length (cpus (mp_mach s)) = NCPU" "ncpu (mp_mach s) = 0"
  shows "if rest = []
    then \<exists>t. mpinit m imcr s = Ok () t
      \<and> ncpu (mp_mach t) = min NCPU (length (List.map_filter ent_id es))
      \<and> map apicid (take (ncpu (mp_mach t)) (cpus (mp_mach t))) = take NCPU (List.map_filter ent_id es)
      \<and> mp_ioapicid t = last (mp_ioapicid s # List.map_filter io_id es) \<and> mp_lapic t = load32 m (conf + 36)
    else mpinit m imcr s = Spin"
proof -
  let ?s = "s\<lparr>mp_lapic := load32 m (conf + 36)\<rparr>"
  let ?t = "mp_result m mp imcr (fold add_ent es ?s)"
  have z: "ncpu (mp_mach ?s) = 0" using assms(8) by simp
  have "length (cpus (mp_mach ?s)) = NCPU" "ncpu (mp_mach ?s) \<le> NCPU" using assms(7,8) by simp_all
  note f = cpus_found[OF this, of es, unfolded z take_0 list.map append_Nil add_0]
  have c: "map apicid (take (ncpu (mp_mach ?t)) (cpus (mp_mach ?t))) = take NCPU (List.map_filter ent_id es)"
    "ncpu (mp_mach ?t) = min NCPU (length (List.map_filter ent_id es))"
    unfolding mp_result_frame by (rule conjunct1[OF f], rule conjunct2[OF f])
  show ?thesis
  proof (cases "rest = []")
    case True
    then have "mpinit m imcr s = Ok () ?t" using mpinit_ok[OF assms(1-6), of imcr s] by simp
    moreover have "mp_ioapicid ?t = last (mp_ioapicid s # List.map_filter io_id es)" "mp_lapic ?t = load32 m (conf + 36)"
      by (simp_all add: add_ent_frame io_found)
    ultimately show ?thesis unfolding if_P[OF True] using c by blast
  qed (use mpinit_ok[OF assms(1-6), of imcr s] in simp)
qed

definition demo_mps :: mp_state where
  "demo_mps = \<lparr>mp_mach = machine0\<lparr>cpus := replicate 8 cpu0, ncpu := 0\<rparr>, mp_ioapicid = 0, mp_lapic = 0, mp_ports = []\<rparr>"

theorem mpinit_table_witness:
  "(\<exists>t. mpinit (demo_rom []) 0 demo_mps = Ok () t \<and> map apicid (take (ncpu (mp_mach t)) (cpus (mp_mach t))) = [3, 5] \<and> mp_ioapicid t = 7)
   \<and> mpinit (demo_rom [9]) 0 demo_mps = Spin"
proof -
  let ?es = "[ProcEnt 3 (replicate 18 0), ProcEnt 5 (replicate 18 0), IoEnt 7 (replicate 6 0)]"
  have t: "holds (demo_rom r) (P2V 0x200000 + 44) (concat (map ent_bytes ?es) @ r)" if "length r < 100" for r
  proof -
    have "demo_conf r = take 44 (demo_conf r) @ (concat (map ent_bytes ?es) @ r)" "length (take 44 (demo_conf r)) = 44"
      by (simp_all add: demo_conf_def demo_table_def Let_def)
    then show ?thesis using demo_holds(1)[OF that] by (metis holds_append of_nat_numeral)
  qed
  have n: "unat (load16 (demo_rom r) (P2V 0x200000 + 4)) = 44 + length (concat (map ent_bytes ?es) @ r)" if "length r < 100" for r
    using demo_length[OF that] by simp
  have s: "length (cpus (mp_mach demo_mps)) = NCPU" "ncpu (mp_mach demo_mps) = 0" by (simp_all add: demo_mps_def)
  have w: "unat (P2V 0x200000) + unat (load16 (demo_rom r) (P2V 0x200000 + 4)) < 2 ^ 32" if "length r < 100" for r
    using n[OF that] that by (simp add: P2V_def)
  have "\<exists>t. mpinit (demo_rom []) 0 demo_mps = Ok () t \<and> map apicid (take (ncpu (mp_mach t)) (cpus (mp_mach t))) = [3, 5] \<and> mp_ioapicid t = 7"
    using mpinit_table[OF demo_config[of "[]"] _ t _ n w s, of 0] by (auto simp: List.map_filter_simps)
  moreover have "mpinit (demo_rom [9]) 0 demo_mps = Spin"
    using mpinit_table[OF demo_config[of "[9]"] _ t _ n w s, of 0] by simp
  ultimately show ?thesis by blast
qed

end
