(* ===== verification/Wc.thy ===== *)
theory Wc imports Cprintf
begin

text \<open>
  The user programs \<open>wc.c\<close> and \<open>cat.c\<close>.  An open file is the list of the byte strings that the successive calls of \<open>read\<close> return, up to
  an empty one, and whether the read that follows them fails.  A function that may call \<open>exit\<close> returns what is written so far and whether the
  process goes on.  The counters of \<open>wc\<close> wrap at 32 bits; the state of the scan is carried from one buffer to the next, and the
  counts are shown to be those of the whole file, however the reads cut it.
\<close>

type_synonym ufile = "byte list list \<times> bool"

record counts =
  c_lines :: "32 word"
  c_words :: "32 word"
  c_chars :: "32 word"
  inword :: bool

section \<open>wc\<close>

definition wc_sep :: "byte \<Rightarrow> bool" where
  "wc_sep b \<longleftrightarrow> (case strchr (seq_of [32, 13, 9, 10, 11, 0]) b of Some (Some _) \<Rightarrow> True | _ \<Rightarrow> False)"

definition wc_byte :: "byte \<Rightarrow> counts \<Rightarrow> counts" where
  "wc_byte b k =
     (let k = k\<lparr>c_chars := c_chars k + 1\<rparr>;
          k = (if b = 10 then k\<lparr>c_lines := c_lines k + 1\<rparr> else k)
      in if wc_sep b then k\<lparr>inword := False\<rparr>
         else if \<not> inword k then k\<lparr>c_words := c_words k + 1, inword := True\<rparr> else k)"

primrec wc_loop :: "byte list list \<Rightarrow> counts \<Rightarrow> counts" where
  "wc_loop [] k = k"
| "wc_loop (r # rs) k = (if r = [] then k else wc_loop rs (fold wc_byte r k))"

definition say :: "byte list \<Rightarrow> parg list \<Rightarrow> byte list" where
  "say fmt args = (case printf fmt args [] of Ok _ out \<Rightarrow> out | _ \<Rightarrow> [])"

definition wc :: "ufile \<Rightarrow> byte list \<Rightarrow> byte list \<times> bool" where
  "wc f name =
     (let k = wc_loop (fst f) \<lparr>c_lines = 0, c_words = 0, c_chars = 0, inword = False\<rparr> in
      if snd f then (say (bytes_of ''wc: read error'' @ [10]) [], False)
      else (say (bytes_of ''%d %d %d %s'' @ [10]) [PInt (c_lines k), PInt (c_words k), PInt (c_chars k), PStr name], True))"

primrec wc_files :: "(byte list \<Rightarrow> ufile option) \<Rightarrow> byte list list \<Rightarrow> byte list" where
  "wc_files fs [] = []"
| "wc_files fs (a # args) =
     (case fs a of None \<Rightarrow> say (bytes_of ''wc: cannot open %s'' @ [10]) [PStr a]
      | Some f \<Rightarrow> (case wc f a of (out, on) \<Rightarrow> out @ (if on then wc_files fs args else [])))"

definition wc_main :: "(byte list \<Rightarrow> ufile option) \<Rightarrow> ufile \<Rightarrow> byte list list \<Rightarrow> byte list" where
  "wc_main fs stdin argv = (if length argv \<le> 1 then fst (wc stdin []) else wc_files fs (drop 1 argv))"

section \<open>cat\<close>

text \<open>The result of \<open>write\<close> is a parameter: the number of bytes that are accepted.\<close>

primrec cat_loop :: "(byte list \<Rightarrow> nat) \<Rightarrow> byte list list \<Rightarrow> byte list \<times> bool" where
  "cat_loop wr [] = ([], True)"
| "cat_loop wr (r # rs) =
     (if r = [] then ([], True)
      else if wr r \<noteq> length r then (take (wr r) r @ say (bytes_of ''cat: write error'' @ [10]) [], False)
      else case cat_loop wr rs of (out, on) \<Rightarrow> (r @ out, on))"

definition cat :: "(byte list \<Rightarrow> nat) \<Rightarrow> ufile \<Rightarrow> byte list \<times> bool" where
  "cat wr f =
     (case cat_loop wr (fst f) of (out, on) \<Rightarrow>
        if on \<and> snd f then (out @ say (bytes_of ''cat: read error'' @ [10]) [], False) else (out, on))"

primrec cat_files :: "(byte list \<Rightarrow> nat) \<Rightarrow> (byte list \<Rightarrow> ufile option) \<Rightarrow> byte list list \<Rightarrow> byte list" where
  "cat_files wr fs [] = []"
| "cat_files wr fs (a # args) =
     (case fs a of None \<Rightarrow> say (bytes_of ''cat: cannot open %s'' @ [10]) [PStr a]
      | Some f \<Rightarrow> (case cat wr f of (out, on) \<Rightarrow> out @ (if on then cat_files wr fs args else [])))"

definition cat_main :: "(byte list \<Rightarrow> nat) \<Rightarrow> (byte list \<Rightarrow> ufile option) \<Rightarrow> ufile \<Rightarrow> byte list list \<Rightarrow> byte list" where
  "cat_main wr fs stdin argv = (if length argv \<le> 1 then fst (cat wr stdin) else cat_files wr fs (drop 1 argv))"

section \<open>What is counted\<close>

lemma wc_sep_iff: "wc_sep b \<longleftrightarrow> b \<in> {32, 13, 9, 10, 11}"
  by (auto simp: wc_sep_def strchr_def strchr_from.simps)

text \<open>A word starts at a byte that is no separator and does not follow one that is none.\<close>

primrec words_after :: "bool \<Rightarrow> byte list \<Rightarrow> nat" where
  "words_after w [] = 0"
| "words_after w (b # bs) = (if wc_sep b then words_after False bs else (if w then 0 else 1) + words_after True bs)"

lemma wc_bytes:
  "c_lines (fold wc_byte bs k) = c_lines k + of_nat (length (filter (\<lambda>b. b = 10) bs))"
  "c_words (fold wc_byte bs k) = c_words k + of_nat (words_after (inword k) bs)"
  "c_chars (fold wc_byte bs k) = c_chars k + of_nat (length bs)"
  by (induction bs arbitrary: k) (simp_all add: wc_byte_def Let_def)

lemma wc_loop_concat: "\<forall>r \<in> set rs. r \<noteq> [] \<Longrightarrow> wc_loop rs k = fold wc_byte (concat rs) k"
  by (induction rs arbitrary: k) simp_all

lemma wc_counts:
  assumes "\<forall>r \<in> set rs. r \<noteq> []"
  shows "wc (rs, False) name = (say (bytes_of ''%d %d %d %s'' @ [10])
    [PInt (of_nat (length (filter (\<lambda>b. b = 10) (concat rs)))), PInt (of_nat (words_after False (concat rs))),
     PInt (of_nat (length (concat rs))), PStr name], True)"
  by (simp add: wc_def wc_loop_concat[OF assms] wc_bytes Let_def)

lemma cat_copies:
  assumes "\<forall>r \<in> set rs. r \<noteq> [] \<and> wr r = length r"
  shows "cat wr (rs, False) = (concat rs, True)"
proof -
  have "cat_loop wr rs = (concat rs, True)" using assms by (induction rs) simp_all
  then show ?thesis by (simp add: cat_def)
qed

end
