(* ===== verification/Smp.thy ===== *)
theory Smp
  imports Proc
begin

text \<open>
  Several processors.  The other theories follow one processor at a time; here the steps of \<open>sleep\<close> and \<open>wakeup\<close> (theory \<open>Proc\<close>) run on different
  processors and interleave in every order that the locks allow.  A state of the system is the kernel, the steps each processor still has
  to make, and its interrupt flag; in a step one processor executes its next one, and a processor that would spin on a lock makes none.
  An \<open>acquire\<close> or \<open>release\<close> is one step.  The theorem is that a \<open>wakeup\<close> made under the lock that is passed to \<open>sleep\<close> is never lost.
\<close>

section \<open>Processors that take turns\<close>

record smp =
  kern :: kernel
  code :: "nat \<Rightarrow> (kernel \<Rightarrow> unit kres) list"
  iflag :: "nat \<Rightarrow> bool"

definition on_cpu :: "nat \<Rightarrow> bool \<Rightarrow> kernel \<Rightarrow> kernel" where
  "on_cpu c ie s = s\<lparr>mach := (mach s)\<lparr>lapicid := apicid (cpus (mach s) ! c), if_flag := ie\<rparr>\<rparr>"

inductive smp_step :: "smp \<Rightarrow> smp \<Rightarrow> bool" where
  step: "code x c = f # fs \<Longrightarrow> f (on_cpu c (iflag x c) (kern x)) = Ok () t \<or> f (on_cpu c (iflag x c) (kern x)) = Slept t
    \<Longrightarrow> smp_step x (x\<lparr>kern := t, code := (code x)(c := fs), iflag := (iflag x)(c := if_flag (mach t))\<rparr>)"

section \<open>Lock operations of one processor\<close>

definition nclis :: "kernel \<Rightarrow> int list" where "nclis s = map ncli (cpus (mach s))"
definition cprocs :: "kernel \<Rightarrow> nat option list" where "cprocs s = map cpu_proc (cpus (mach s))"

definition ids_ok :: "kernel \<Rightarrow> bool" where
  "ids_ok s \<longleftrightarrow> distinct (map apicid (cpus (mach s))) \<and> ncpu (mach s) = length (cpus (mach s))"

text \<open>The lock \<open>L\<close> is free, or held by a processor.\<close>

definition lock_is :: "lockid \<Rightarrow> nat option \<Rightarrow> kernel \<Rightarrow> bool" where
  "lock_is L w s \<longleftrightarrow> locked (locks (mach s) L) = (w \<noteq> None) \<and> lk_cpu (locks (mach s) L) = w"

lemma on_cpu_ix:
  assumes "ids_ok s" "c < length (cpus (mach s))"
  shows "cpu_ix (mach (on_cpu c ie s)) = Some c"
proof -
  have "apicid (cpus (mach s) ! j) \<noteq> apicid (cpus (mach s) ! c)" if "j < c" for j
    using assms that nth_eq_iff_index_eq[of "map apicid (cpus (mach s))" j c] by (simp add: ids_ok_def)
  then show ?thesis using assms by (simp add: cpu_ix_def first_idx_Some on_cpu_def ids_ok_def)
qed

lemma on_cpu_frame [simp]:
  "cpus (mach (on_cpu c ie s)) = cpus (mach s)" "locks (mach (on_cpu c ie s)) = locks (mach s)" "if_flag (mach (on_cpu c ie s)) = ie"
  "procs (on_cpu c ie s) = procs s" "ncpu (mach (on_cpu c ie s)) = ncpu (mach s)"
  "nclis (on_cpu c ie s) = nclis s" "cprocs (on_cpu c ie s) = cprocs s" "ids_ok (on_cpu c ie s) = ids_ok s"
  "lock_is L w (on_cpu c ie s) = lock_is L w s"
  by (simp_all add: on_cpu_def nclis_def cprocs_def ids_ok_def lock_is_def)

definition cpu_ok :: "nat \<Rightarrow> bool \<Rightarrow> kernel \<Rightarrow> bool" where
  "cpu_ok c ie s \<longleftrightarrow> ids_ok s \<and> c < length (cpus (mach s)) \<and> 0 \<le> nclis s ! c \<and> (0 < nclis s ! c \<longrightarrow> \<not> ie)"

lemma cpu_ok_mach: "cpu_ok c ie s \<Longrightarrow> mach_ok (mach (on_cpu c ie s)) \<and> this_cpu (mach (on_cpu c ie s)) = c"
  using on_cpu_ix[of s c ie] by (auto simp: cpu_ok_def mach_ok_def this_cpu_def nclis_def)

text \<open>What the other processors can see of a step: the locks, the nesting depths, the current processes.\<close>

definition sees :: "nat \<Rightarrow> kernel \<Rightarrow> lockid \<Rightarrow> nat option \<Rightarrow> int \<Rightarrow> kernel \<Rightarrow> bool" where
  "sees c s L w d t \<longleftrightarrow> procs t = procs s \<and> ids_ok t \<and> length (cpus (mach t)) = length (cpus (mach s))
     \<and> nclis t = (nclis s)[c := nclis s ! c + d] \<and> cprocs t = cprocs s \<and> (0 < nclis t ! c \<longrightarrow> \<not> if_flag (mach t))
     \<and> lock_is L w t \<and> (\<forall>L' v. L' \<noteq> L \<longrightarrow> lock_is L' v t = lock_is L' v s)"

lemma acquire_view:
  assumes "cpu_ok c ie s" "lock_is L None s"
  shows "\<exists>t. kacquire L (on_cpu c ie s) = Ok () t \<and> sees c s L (Some c) 1 t"
proof -
  let ?s = "on_cpu c ie s" let ?t = "?s\<lparr>mach := hold L (mach ?s)\<rparr>"
  have m: "mach_ok (mach ?s)" "this_cpu (mach ?s) = c" "c < length (cpus (mach s))" "ids_ok s" using cpu_ok_mach[OF assms(1)] assms(1) by (simp_all add: cpu_ok_def)
  have e: "kacquire L ?s = Ok () ?t" using m(1) assms(2) by (simp add: kacquire_ok lk_free_def lock_is_def)
  have cp: "cpus (mach ?t) = (cpus (mach s))[c := (cpus (mach s) ! c)\<lparr>intena := (if ncli (cpus (mach s) ! c) = 0 then ie else intena (cpus (mach s) ! c)),
      ncli := ncli (cpus (mach s) ! c) + 1\<rparr>]"
    using m(2,3) by (simp add: hold_def push_def cli_def touch_def upd_cpu_def)
  have n: "ncpu (mach ?t) = ncpu (mach s)" by (simp add: hold_def push_def cli_def touch_def)
  have "ids_ok ?t" using m(4) unfolding ids_ok_def cp n by (simp add: map_update_keep)
  moreover have "nclis ?t = (nclis s)[c := nclis s ! c + 1]" "cprocs ?t = cprocs s"
    using m(3) unfolding nclis_def cprocs_def cp by (simp_all add: map_update list_update_same_conv)
  ultimately show ?thesis unfolding sees_def using e cp m(2) by (intro exI[of _ ?t]) (simp add: lock_is_def hold_def)
qed

lemma acquire_waits:
  assumes "cpu_ok c ie s" "lock_is L (Some d) s" "d \<noteq> c"
  shows "kacquire L (on_cpu c ie s) = Spin"
  using cpu_ok_mach[OF assms(1)] assms(2,3)
  by (simp add: kacquire_def on_mach_def acquire_def pushcli_ok holding_ok lock_is_def)

lemma release_view:
  assumes "cpu_ok c ie s" "lock_is L (Some c) s" "0 < nclis s ! c"
  shows "\<exists>t. krelease L (on_cpu c ie s) = Ok () t \<and> sees c s L None (- 1) t"
proof -
  let ?s = "on_cpu c ie s" let ?m = "mach ?s" let ?l = "(locks ?m)(L := (locks ?m L)\<lparr>lk_cpu := None, locked := False\<rparr>)"
  have m: "mach_ok ?m" "this_cpu ?m = c" "c < length (cpus (mach s))" "ids_ok s" "\<not> ie" "cpu_ix ?m \<noteq> None"
    using cpu_ok_mach[OF assms(1)] assms(1,3) by (auto simp: cpu_ok_def mach_ok_def)
  have tm: "touch ?m = ?m" using assms(3) m(2,3) by (simp add: touch_def nclis_def)
  let ?u = "upd_cpu c (\<lambda>k. k\<lparr>ncli := ncli k - 1\<rparr>) (?m\<lparr>locks := ?l\<rparr>)"
  let ?v = "if ncli (cpus ?u ! c) = 0 \<and> intena (cpus ?u ! c) then sti ?u else ?u"
  have my: "mycpu (?m\<lparr>locks := ?l\<rparr>) = Ok c (?m\<lparr>locks := ?l\<rparr>)" using m(2,5,6) mycpu_ok[of "?m\<lparr>locks := ?l\<rparr>"] by simp
  have nn: "\<not> ncli (cpus ?u ! c) < 0" using assms(3) m(3) by (simp add: upd_cpu_def nclis_def)
  have pop: "popcli (?m\<lparr>locks := ?l\<rparr>) = Ok () ?v" using m(5) my nn by (simp add: popcli_def Let_def)
  have rl: "release L ?m = Ok () ?v"
    using m(1,2) assms(2) pop by (simp add: release_def holding_ok tm lock_is_def)
  let ?t = "?s\<lparr>mach := ?v\<rparr>"
  have e: "krelease L ?s = Ok () ?t" by (simp only: krelease_def on_mach_def rl outcome.case)
  have cp: "cpus (mach ?t) = (cpus (mach s))[c := (cpus (mach s) ! c)\<lparr>ncli := ncli (cpus (mach s) ! c) - 1\<rparr>]" by (simp add: upd_cpu_def)
  have n: "ncpu (mach ?t) = ncpu (mach s)" "locks (mach ?t) = ?l" by (simp_all add: sti_def)
  have "ids_ok ?t" using m(4) unfolding ids_ok_def cp n by (simp add: map_update_keep)
  moreover have nc: "nclis ?t = (nclis s)[c := nclis s ! c + - 1]" "cprocs ?t = cprocs s"
    using m(3) unfolding nclis_def cprocs_def cp by (simp_all add: map_update list_update_same_conv)
  moreover have "0 < nclis ?t ! c \<longrightarrow> \<not> if_flag (mach ?t)"
    using m(3,5) by (auto simp: nclis_def upd_cpu_def sti_def)
  moreover have "lock_is L None ?t" "\<forall>L' v. L' \<noteq> L \<longrightarrow> lock_is L' v ?t = lock_is L' v s" unfolding lock_is_def n by simp_all
  moreover have "length (cpus (mach ?t)) = length (cpus (mach s))" "procs ?t = procs s" unfolding cp by simp_all
  ultimately have "sees c s L None (- 1) ?t" unfolding sees_def by blast
  then show ?thesis using e by blast
qed

lemma sched_view:
  assumes "cpu_ok c ie s" "lock_is PtableLk (Some c) s" "nclis s ! c = 1" "cprocs s ! c = Some i" "pstate (procs s ! i) \<noteq> RUNNING"
  shows "sched (on_cpu c ie s) = Slept (on_cpu c ie s)"
proof -
  let ?s = "on_cpu c ie s" let ?m = "mach ?s"
  have m: "mach_ok ?m" "this_cpu ?m = c" "c < length (cpus (mach s))" "\<not> ie" "cpu_ix ?m \<noteq> None"
    using cpu_ok_mach[OF assms(1)] assms(1,3) by (auto simp: cpu_ok_def mach_ok_def)
  have n1: "ncli (cpus (mach s) ! c) = 1" "cpu_proc (cpus (mach s) ! c) = Some i" using assms(3,4) m(3) by (simp_all add: nclis_def cprocs_def)
  have tm: "touch ?m = ?m" using n1 m(2) by (simp add: touch_def)
  have "myproc ?m = Ok (Some i) ?m" using myproc_ok[OF m(1)] unfolding tm m(2) on_cpu_frame n1 .
  moreover have "holding PtableLk ?m = Ok True ?m"
    using holding_ok[OF m(1), of PtableLk] assms(2) unfolding tm m(2) lock_is_def by simp
  moreover have "mycpu ?m = Ok c ?m" using mycpu_ok[OF m(5)] m(2,4) by simp
  ultimately show ?thesis using m(4) n1 assms(5) by (simp add: sched_def kmyproc_def on_mach_def)
qed

section \<open>A sleeper and a waker\<close>

text \<open>The code of the processor \<open>a\<close> that runs process \<open>i\<close>, which has called \<open>sleep\<close>: the switch leads to the scheduler, which releases
  \<open>ptable.lock\<close>.  The other processor takes the lock, makes the condition true (an update \<open>g\<close> outside the process table), calls \<open>wakeup\<close>, and
  releases the lock.\<close>

definition sleeper :: "nat \<Rightarrow> nat \<Rightarrow> chan \<Rightarrow> lockid \<Rightarrow> (kernel \<Rightarrow> unit kres) list" where
  "sleeper a i ch L = sleep_steps i ch L @ [scheduler_back a i]"

definition waker :: "(kernel \<Rightarrow> kernel) \<Rightarrow> chan \<Rightarrow> lockid \<Rightarrow> (kernel \<Rightarrow> unit kres) list" where
  "waker g ch L = [kacquire L, \<lambda>s. Ok () (g s)] @ wakeup_steps ch @ [krelease L]"

definition quiet_update :: "(kernel \<Rightarrow> kernel) \<Rightarrow> bool" where
  "quiet_update g \<longleftrightarrow> (\<forall>s. procs (g s) = procs s \<and> mach (g s) = mach s)"

text \<open>The invariant: the first processor has made \<open>pa\<close> of its six steps and the second \<open>pb\<close>.\<close>

definition depth_a :: "nat \<Rightarrow> int" where "depth_a p = [1, 2, 1, 1, 1, 1, 0] ! p"
definition depth_b :: "nat \<Rightarrow> int" where "depth_b p = [0, 1, 1, 2, 2, 1, 0] ! p"

definition race_inv :: "nat \<Rightarrow> nat \<Rightarrow> nat \<Rightarrow> chan \<Rightarrow> lockid \<Rightarrow> (kernel \<Rightarrow> kernel) \<Rightarrow> nat \<Rightarrow> nat \<Rightarrow> smp \<Rightarrow> bool" where
  "race_inv a b i ch L g pa pb x \<longleftrightarrow>
     code x = (\<lambda>_. [])(a := drop pa (sleeper a i ch L), b := drop pb (waker g ch L))
   \<and> pa \<le> 6 \<and> pb \<le> 6 \<and> (pa < 2 \<longrightarrow> pb = 0) \<and> (pa < 6 \<longrightarrow> pb \<le> 2)
   \<and> cpu_ok a (iflag x a) (kern x) \<and> cpu_ok b (iflag x b) (kern x)
   \<and> nclis (kern x) ! a = depth_a pa \<and> nclis (kern x) ! b = depth_b pb \<and> (pa < 6 \<longrightarrow> cprocs (kern x) ! a = Some i)
   \<and> lock_is L (if pa < 2 then Some a else if pb \<in> {1..5} then Some b else None) (kern x)
   \<and> lock_is PtableLk (if pa \<in> {1..5} then Some a else if pb \<in> {3, 4} then Some b else None) (kern x)
   \<and> i < length (procs (kern x)) \<and> (3 \<le> pa \<longrightarrow> chan (procs (kern x) ! i) = Some ch)
   \<and> (4 \<le> pa \<and> pb < 4 \<longrightarrow> pstate (procs (kern x) ! i) = SLEEPING) \<and> (4 \<le> pb \<longrightarrow> pstate (procs (kern x) ! i) = RUNNABLE)"

lemma sleeper_code:
  assumes "L \<noteq> PtableLk"
  shows "sleeper a i ch L = [kacquire PtableLk, krelease L, \<lambda>s. Ok () (upd_proc i (\<lambda>p. p\<lparr>chan := Some ch\<rparr>) s),
     \<lambda>s. Ok () (upd_proc i (\<lambda>p. p\<lparr>pstate := SLEEPING\<rparr>) s), sched, scheduler_back a i]"
  using assms by (simp add: sleeper_def sleep_steps_def)

lemma waker_code:
  "waker g ch L = [kacquire L, \<lambda>s. Ok () (g s), kacquire PtableLk, \<lambda>s. Ok () (wakeup1 (Some ch) s), krelease PtableLk, krelease L]"
  by (simp add: waker_def wakeup_steps_def)

definition moved :: "nat \<Rightarrow> kernel \<Rightarrow> smp \<Rightarrow> smp" where
  "moved c t x = x\<lparr>kern := t, code := (code x)(c := tl (code x c)), iflag := (iflag x)(c := if_flag (mach t))\<rparr>"

lemma moved_simps [simp]:
  "kern (moved c t x) = t" "code (moved c t x) = (code x)(c := tl (code x c))" "iflag (moved c t x) = (iflag x)(c := if_flag (mach t))"
  by (simp_all add: moved_def)

lemma sees_cpu_ok:
  assumes "sees c s L w d t" "cpu_ok c ie s" "0 \<le> nclis s ! c + d"
  shows "cpu_ok c (if_flag (mach t)) t" "nclis t ! c = nclis s ! c + d" "e \<noteq> c \<Longrightarrow> cpu_ok e ie' s \<Longrightarrow> cpu_ok e ie' t"
    "e \<noteq> c \<Longrightarrow> nclis t ! e = nclis s ! e"
proof -
  have l: "length (nclis s) = length (cpus (mach s))" by (simp add: nclis_def)
  show "nclis t ! c = nclis s ! c + d" using assms l by (simp add: sees_def cpu_ok_def)
  then show "cpu_ok c (if_flag (mach t)) t" using assms by (auto simp: sees_def cpu_ok_def)
  show n: "e \<noteq> c \<Longrightarrow> nclis t ! e = nclis s ! e" using assms by (simp add: sees_def)
  show "e \<noteq> c \<Longrightarrow> cpu_ok e ie' s \<Longrightarrow> cpu_ok e ie' t" using n assms(1) by (simp add: sees_def cpu_ok_def)
qed

lemma seesD:
  assumes "sees c s L w d t"
  shows "procs t = procs s" "cprocs t = cprocs s" "lock_is L w t" "L' \<noteq> L \<Longrightarrow> lock_is L' v t = lock_is L' v s"
  using assms by (simp_all add: sees_def)

text \<open>A step that changes the process table only.\<close>

lemma table_view:
  assumes "cpu_ok c ie s" "mach t = mach (on_cpu c ie s)"
  shows "cpu_ok c (if_flag (mach t)) t" "cpu_ok e ie' t = cpu_ok e ie' s" "nclis t = nclis s" "cprocs t = cprocs s" "lock_is L w t = lock_is L w s"
    "if_flag (mach t) = ie"
proof -
  have m: "cpus (mach t) = cpus (mach s)" "ncpu (mach t) = ncpu (mach s)" "locks (mach t) = locks (mach s)" "if_flag (mach t) = ie"
    using assms(2) by simp_all
  show "cpu_ok c (if_flag (mach t)) t" "cpu_ok e ie' t = cpu_ok e ie' s" "nclis t = nclis s" "cprocs t = cprocs s" "lock_is L w t = lock_is L w s" "if_flag (mach t) = ie"
    using assms(1) unfolding m(4) by (auto simp: cpu_ok_def ids_ok_def nclis_def cprocs_def lock_is_def m)
qed

definition steps_to :: "nat \<Rightarrow> smp \<Rightarrow> kernel \<Rightarrow> bool" where
  "steps_to c x t \<longleftrightarrow> code x c \<noteq> [] \<and> (hd (code x c) (on_cpu c (iflag x c) (kern x)) = Ok () t \<or> hd (code x c) (on_cpu c (iflag x c) (kern x)) = Slept t)"

lemma smp_step_iff: "smp_step x y \<longleftrightarrow> (\<exists>c t. steps_to c x t \<and> y = moved c t x)"
proof
  assume "smp_step x y"
  then show "\<exists>c t. steps_to c x t \<and> y = moved c t x"
  proof cases
    case (step c f fs t)
    then show ?thesis by (intro exI[of _ c] exI[of _ t]) (simp add: steps_to_def moved_def)
  qed
next
  assume "\<exists>c t. steps_to c x t \<and> y = moved c t x"
  then obtain c t where "steps_to c x t" "y = moved c t x" by blast
  moreover from this(1) obtain f fs where "code x c = f # fs" by (auto simp: steps_to_def neq_Nil_conv)
  ultimately show "smp_step x y" using smp_step.step[of x c f fs t] by (simp add: steps_to_def moved_def)
qed

lemma steps_to_unique: "steps_to c x t \<Longrightarrow> steps_to c x u \<Longrightarrow> t = u"
  by (auto simp: steps_to_def)

lemma race_a:
  assumes L: "L \<noteq> PtableLk" and ab: "a \<noteq> b" and I: "race_inv a b i ch L g pa pb x" and p: "pa < 6"
  shows "\<exists>t. steps_to a x t \<and> race_inv a b i ch L g (Suc pa) pb (moved a t x)"
proof -
  note I' = I[unfolded race_inv_def]
  let ?s = "kern x" and ?ie = "iflag x a"
  have ok: "cpu_ok a ?ie ?s" "cpu_ok b (iflag x b) ?s" and nc: "nclis ?s ! a = depth_a pa" "nclis ?s ! b = depth_b pb" using I' by blast+
  have il: "i < length (procs ?s)" "cprocs ?s ! a = Some i" using I' p by blast+
  have cd: "code x a = drop pa (sleeper a i ch L)" "code x b = drop pb (waker g ch L)" using I' ab by auto
  have pb: "pb \<le> 2" "pa < 2 \<longrightarrow> pb = 0" using I' p by blast+
  have lk: "lock_is L (if pa < 2 then Some a else if pb \<in> {1..5} then Some b else None) ?s"
    "lock_is PtableLk (if pa \<in> {1..5} then Some a else None) ?s" using I' pb(1) by (auto split: if_splits)
  have pr: "3 \<le> pa \<longrightarrow> chan (procs ?s ! i) = Some ch" "4 \<le> pa \<longrightarrow> pstate (procs ?s ! i) = SLEEPING" using I' pb(1) by auto
  have al: "a < length (cpus (mach ?s))" using ok(1) by (simp add: cpu_ok_def)
  consider "pa = 0" | "pa = 1" | "pa = 2" | "pa = 3" | "pa = 4" | "pa = 5" using p by linarith
  then show ?thesis
  proof cases
    case 1
    then have "lock_is PtableLk None ?s" using lk by simp
    then obtain t where t: "kacquire PtableLk (on_cpu a ?ie ?s) = Ok () t" "sees a ?s PtableLk (Some a) 1 t" using acquire_view[OF ok(1)] by blast
    have "0 \<le> nclis ?s ! a + 1" using nc 1 by (simp add: depth_a_def)
    note k = sees_cpu_ok[OF t(2) ok(1) this] seesD[OF t(2)]
    have "steps_to a x t" using t(1) cd(1) 1 by (simp add: steps_to_def sleeper_code[OF L])
    moreover have "race_inv a b i ch L g (Suc pa) pb (moved a t x)"
      using I' lk pb il pr ok ab L 1 cd k nc by (auto simp: race_inv_def depth_a_def sleeper_code[OF L])
    ultimately show ?thesis by blast
  next
    case 2
    then have "lock_is L (Some a) ?s" "0 < nclis ?s ! a" using lk nc by (simp_all add: depth_a_def)
    then obtain t where t: "krelease L (on_cpu a ?ie ?s) = Ok () t" "sees a ?s L None (- 1) t" using release_view[OF ok(1)] by blast
    have "0 \<le> nclis ?s ! a + - 1" using nc 2 by (simp add: depth_a_def)
    note k = sees_cpu_ok[OF t(2) ok(1) this] seesD[OF t(2)]
    have "steps_to a x t" using t(1) cd(1) 2 by (simp add: steps_to_def sleeper_code[OF L])
    moreover have "race_inv a b i ch L g (Suc pa) pb (moved a t x)"
      using I' lk pb il pr ok ab L 2 cd k nc by (auto simp: race_inv_def depth_a_def sleeper_code[OF L])
    ultimately show ?thesis by blast
  next
    case 3
    let ?t = "upd_proc i (\<lambda>p. p\<lparr>chan := Some ch\<rparr>) (on_cpu a ?ie ?s)"
    have v: "mach ?t = mach (on_cpu a ?ie ?s)" by (simp add: upd_proc_def)
    note k = table_view[OF ok(1) v]
    have "steps_to a x ?t" using cd(1) 3 by (simp add: steps_to_def sleeper_code[OF L] numeral_2_eq_2)
    moreover have "race_inv a b i ch L g (Suc pa) pb (moved a ?t x)"
      using I' lk pb il pr ok ab L 3 cd k nc by (auto simp: race_inv_def depth_a_def sleeper_code[OF L] numeral_2_eq_2 numeral_3_eq_3 upd_proc_def)
    ultimately show ?thesis by blast
  next
    case 4
    let ?t = "upd_proc i (\<lambda>p. p\<lparr>pstate := SLEEPING\<rparr>) (on_cpu a ?ie ?s)"
    have v: "mach ?t = mach (on_cpu a ?ie ?s)" by (simp add: upd_proc_def)
    note k = table_view[OF ok(1) v]
    have "steps_to a x ?t" using cd(1) 4 by (simp add: steps_to_def sleeper_code[OF L] numeral_3_eq_3)
    moreover have "race_inv a b i ch L g (Suc pa) pb (moved a ?t x)"
      using I' lk pb il pr ok ab L 4 cd k nc by (auto simp: race_inv_def depth_a_def sleeper_code[OF L] upd_proc_def)
    ultimately show ?thesis by blast
  next
    case 5
    let ?t = "on_cpu a ?ie ?s"
    note k = table_view[OF ok(1) refl]
    have "sched ?t = Slept ?t" using lk nc pr 5 il by (intro sched_view[OF ok(1)]) (auto simp: depth_a_def)
    then have "steps_to a x ?t" using cd(1) 5 by (simp add: steps_to_def sleeper_code[OF L])
    moreover have "race_inv a b i ch L g (Suc pa) pb (moved a ?t x)"
      using I' lk pb il pr ok ab L 5 cd k nc by (auto simp: race_inv_def depth_a_def sleeper_code[OF L])
    ultimately show ?thesis by blast
  next
    case 6
    let ?u = "upd_proc i (\<lambda>p. p\<lparr>pticks := pticks p + 1\<rparr>) (set_cpu_proc None a (switchkvm ?s))"
    let ?v = "upd_proc i (\<lambda>p. p\<lparr>pticks := pticks p + 1\<rparr>) (set_cpu_proc None a (switchkvm (on_cpu a ?ie ?s)))"
    have cp: "map apicid (cpus (mach ?u)) = map apicid (cpus (mach ?s))" "nclis ?u = nclis ?s"
      by (simp_all add: nclis_def upd_proc_def set_cpu_proc_def switchkvm_def upd_cpu_def map_update_keep)
    have ml: "length (cpus (mach ?u)) = length (cpus (mach ?s))" "ncpu (mach ?u) = ncpu (mach ?s)" "locks (mach ?u) = locks (mach ?s)"
      by (simp_all add: upd_proc_def set_cpu_proc_def switchkvm_def)
    have idu: "ids_ok ?u" using ok(1) unfolding cpu_ok_def ids_ok_def cp ml by blast
    have uv: "?v = on_cpu a ?ie ?u"
      using al by (simp add: upd_proc_def set_cpu_proc_def switchkvm_def on_cpu_def upd_cpu_def)
    have oku: "cpu_ok e ie' ?u = cpu_ok e ie' ?s" for e ie' unfolding cpu_ok_def cp(2) ml using idu ok(1) by (simp add: cpu_ok_def)
    have lku: "lock_is K w ?u = lock_is K w ?s" for K w unfolding lock_is_def ml ..
    have "lock_is PtableLk (Some a) ?u" "0 < nclis ?u ! a" using lk nc 6 by (simp_all add: lku cp depth_a_def)
    then obtain t where t: "krelease PtableLk (on_cpu a ?ie ?u) = Ok () t" "sees a ?u PtableLk None (- 1) t"
      using release_view[of a ?ie ?u] ok(1) oku by blast
    have "0 \<le> nclis ?u ! a + - 1" using nc 6 by (simp add: depth_a_def cp)
    note k = sees_cpu_ok[OF t(2) ok(1)[folded oku] this, unfolded oku cp(2)] seesD[OF t(2), unfolded lku]
    have "steps_to a x t" using t(1) cd(1) 6 unfolding uv[symmetric] by (simp add: steps_to_def sleeper_code[OF L] scheduler_back_def Let_def)
    moreover have "procs t = (procs ?s)[i := (procs ?s ! i)\<lparr>pticks := pticks (procs ?s ! i) + 1\<rparr>]"
      using k(5) by (simp add: upd_proc_def set_cpu_proc_def switchkvm_def)
    then have "race_inv a b i ch L g (Suc pa) pb (moved a t x)"
      using I' lk pb il pr ok ab L 6 cd k nc by (auto simp: race_inv_def depth_a_def sleeper_code[OF L])
    ultimately show ?thesis by blast
  qed
qed

lemma race_b:
  assumes L: "L \<noteq> PtableLk" and ab: "a \<noteq> b" and g: "quiet_update g" and I: "race_inv a b i ch L g pa pb x" and p: "pb < 6"
  shows "(pa < 6 \<and> (\<forall>t. \<not> steps_to b x t)) \<or> (\<exists>t. steps_to b x t \<and> race_inv a b i ch L g pa (Suc pb) (moved b t x))"
proof -
  note I' = I[unfolded race_inv_def]
  let ?s = "kern x" and ?ie = "iflag x b"
  have ok: "cpu_ok a (iflag x a) ?s" "cpu_ok b ?ie ?s" and nc: "nclis ?s ! a = depth_a pa" "nclis ?s ! b = depth_b pb" using I' by blast+
  have pa: "pa \<le> 6" "pa < 2 \<longrightarrow> pb = 0" "pa < 6 \<longrightarrow> pb \<le> 2" using I' by blast+
  have cd: "code x b = drop pb (waker g ch L)" using I' ab by auto
  have lk: "lock_is L (if pa < 2 then Some a else if pb \<in> {1..5} then Some b else None) ?s"
    "lock_is PtableLk (if pa \<in> {1..5} then Some a else if pb \<in> {3, 4} then Some b else None) ?s" using I' by blast+
  have il: "i < length (procs ?s)" "3 \<le> pa \<longrightarrow> chan (procs ?s ! i) = Some ch" "4 \<le> pa \<and> pb < 4 \<longrightarrow> pstate (procs ?s ! i) = SLEEPING"
    "4 \<le> pb \<longrightarrow> pstate (procs ?s ! i) = RUNNABLE" using I' by blast+
  consider "pb = 0" "pa < 2" | "pb = 0" "2 \<le> pa" | "pb = 1" | "pb = 2" "pa < 6" | "pb = 2" "pa = 6" | "pb = 3" | "pb = 4" | "pb = 5" using p pa(1) by linarith
  then show ?thesis
  proof cases
    case 1
    then have "kacquire L (on_cpu b ?ie ?s) = Spin" using lk(1) ab by (intro acquire_waits[OF ok(2), of _ a]) simp_all
    then show ?thesis using 1 cd by (simp add: steps_to_def waker_code)
  next
    case 2
    then have "lock_is L None ?s" using lk(1) by simp
    then obtain t where t: "kacquire L (on_cpu b ?ie ?s) = Ok () t" "sees b ?s L (Some b) 1 t" using acquire_view[OF ok(2)] by blast
    have "0 \<le> nclis ?s ! b + 1" using nc 2 by (simp add: depth_b_def)
    note k = sees_cpu_ok[OF t(2) ok(2) this] seesD[OF t(2)]
    have "steps_to b x t" using t(1) cd 2 by (simp add: steps_to_def waker_code)
    moreover have "race_inv a b i ch L g pa (Suc pb) (moved b t x)"
      using I' ab L 2 cd k nc lk il ok pa by (auto simp: race_inv_def depth_b_def waker_code)
    ultimately show ?thesis by blast
  next
    case 3
    let ?t = "g (on_cpu b ?ie ?s)"
    have v: "mach ?t = mach (on_cpu b ?ie ?s)" "procs ?t = procs ?s" using g by (simp_all add: quiet_update_def)
    note k = table_view[OF ok(2) v(1)]
    have "steps_to b x ?t" using cd 3 by (simp add: steps_to_def waker_code)
    moreover have "race_inv a b i ch L g pa (Suc pb) (moved b ?t x)"
      using I' ab L 3 cd k nc lk il ok pa v(2) by (auto simp: race_inv_def depth_b_def waker_code numeral_2_eq_2)
    ultimately show ?thesis by blast
  next
    case 4
    then have "kacquire PtableLk (on_cpu b ?ie ?s) = Spin" using lk(2) ab pa by (intro acquire_waits[OF ok(2), of _ a]) (simp_all split: if_splits)
    then show ?thesis using 4 cd by (simp add: steps_to_def waker_code numeral_2_eq_2)
  next
    case 5
    then have "lock_is PtableLk None ?s" using lk(2) by simp
    then obtain t where t: "kacquire PtableLk (on_cpu b ?ie ?s) = Ok () t" "sees b ?s PtableLk (Some b) 1 t" using acquire_view[OF ok(2)] by blast
    have "0 \<le> nclis ?s ! b + 1" using nc 5 by (simp add: depth_b_def numeral_2_eq_2)
    note k = sees_cpu_ok[OF t(2) ok(2) this] seesD[OF t(2)]
    have "steps_to b x t" using t(1) cd 5 by (simp add: steps_to_def waker_code numeral_2_eq_2)
    moreover have "race_inv a b i ch L g pa (Suc pb) (moved b t x)"
      using I' ab L 5 cd k nc lk il ok pa by (auto simp: race_inv_def depth_b_def waker_code numeral_2_eq_2)
    ultimately show ?thesis by blast
  next
    case 6
    then have p6: "pa = 6" using pa by linarith
    let ?t = "wakeup1 (Some ch) (on_cpu b ?ie ?s)"
    have v: "mach ?t = mach (on_cpu b ?ie ?s)" by (simp add: wakeup1_def)
    have w: "pstate (procs ?t ! i) = RUNNABLE" "chan (procs ?t ! i) = Some ch" "length (procs ?t) = length (procs ?s)"
      using il p6 6 by (simp_all add: wakeup1_def)
    note k = table_view[OF ok(2) v(1)]
    have "steps_to b x ?t" using cd 6 by (simp add: steps_to_def waker_code numeral_3_eq_3)
    moreover have "race_inv a b i ch L g pa (Suc pb) (moved b ?t x)"
      using I' ab L 6 cd k nc lk il ok pa w by (auto simp: race_inv_def depth_b_def waker_code numeral_3_eq_3)
    ultimately show ?thesis by blast
  next
    case 7
    then have p6: "pa = 6" using pa by linarith
    then have "lock_is PtableLk (Some b) ?s" "0 < nclis ?s ! b" using lk nc 7 by (simp_all add: depth_b_def)
    then obtain t where t: "krelease PtableLk (on_cpu b ?ie ?s) = Ok () t" "sees b ?s PtableLk None (- 1) t" using release_view[OF ok(2)] by blast
    have "0 \<le> nclis ?s ! b + - 1" using nc 7 by (simp add: depth_b_def)
    note k = sees_cpu_ok[OF t(2) ok(2) this] seesD[OF t(2)]
    have "steps_to b x t" using t(1) cd 7 by (simp add: steps_to_def waker_code)
    moreover have "race_inv a b i ch L g pa (Suc pb) (moved b t x)"
      using I' ab L 7 p6 cd k nc lk il ok pa by (auto simp: race_inv_def depth_b_def waker_code)
    ultimately show ?thesis by blast
  next
    case 8
    then have p6: "pa = 6" using pa by linarith
    then have "lock_is L (Some b) ?s" "0 < nclis ?s ! b" using lk nc 8 by (simp_all add: depth_b_def)
    then obtain t where t: "krelease L (on_cpu b ?ie ?s) = Ok () t" "sees b ?s L None (- 1) t" using release_view[OF ok(2)] by blast
    have "0 \<le> nclis ?s ! b + - 1" using nc 8 by (simp add: depth_b_def)
    note k = sees_cpu_ok[OF t(2) ok(2) this] seesD[OF t(2)]
    have "steps_to b x t" using t(1) cd 8 by (simp add: steps_to_def waker_code)
    moreover have "race_inv a b i ch L g pa (Suc pb) (moved b t x)"
      using I' ab L 8 p6 cd k nc lk il ok pa by (auto simp: race_inv_def depth_b_def waker_code)
    ultimately show ?thesis by blast
  qed
qed

lemma race_step:
  assumes L: "L \<noteq> PtableLk" and ab: "a \<noteq> b" and g: "quiet_update g" and I: "race_inv a b i ch L g pa pb x" and y: "smp_step x y"
  shows "\<exists>pa' pb'. race_inv a b i ch L g pa' pb' y"
proof -
  obtain c t where c: "steps_to c x t" "y = moved c t x" using y by (auto simp: smp_step_iff)
  have cd: "code x = (\<lambda>_. [])(a := drop pa (sleeper a i ch L), b := drop pb (waker g ch L))" "pa \<le> 6" "pb \<le> 6" using I by (simp_all add: race_inv_def)
  have "code x c \<noteq> []" using c(1) by (simp add: steps_to_def)
  then consider "c = a" "pa < 6" | "c = b" "pb < 6"
    using cd ab by (auto simp: sleeper_code[OF L] waker_code split: if_splits)
  then show ?thesis
  proof cases
    case 1
    then show ?thesis using race_a[OF L ab I] c steps_to_unique by blast
  next
    case 2
    then show ?thesis using race_b[OF L ab g I] c steps_to_unique by blast
  qed
qed

lemma race_reach:
  assumes "smp_step\<^sup>*\<^sup>* x y" "L \<noteq> PtableLk" "a \<noteq> b" "quiet_update g" "race_inv a b i ch L g 0 0 x"
  shows "\<exists>pa pb. race_inv a b i ch L g pa pb y"
  using assms(1)
proof (induction rule: rtranclp_induct)
  case base
  then show ?case using assms(5) by blast
next
  case (step y z)
  then show ?case using race_step[OF assms(2-4)] by blast
qed

lemma race_done:
  assumes L: "L \<noteq> PtableLk" and ab: "a \<noteq> b" and g: "quiet_update g" and I: "race_inv a b i ch L g pa pb x"
  shows "if code x a = [] \<and> code x b = [] then pstate (procs (kern x) ! i) = RUNNABLE \<and> lock_is L None (kern x) \<and> lock_is PtableLk None (kern x)
    else \<exists>y. smp_step x y"
proof -
  have cd: "code x a = drop pa (sleeper a i ch L)" "code x b = drop pb (waker g ch L)" "pa \<le> 6" "pb \<le> 6" using I ab by (simp_all add: race_inv_def)
  have len: "length (sleeper a i ch L) = 6" "length (waker g ch L) = 6" by (simp_all add: sleeper_code[OF L] waker_code)
  show ?thesis
  proof (cases "pa < 6")
    case True
    then have "\<exists>y. smp_step x y" using race_a[OF L ab I] smp_step_iff by blast
    moreover have "code x a \<noteq> []" using True cd(1) len by simp
    ultimately show ?thesis by simp
  next
    case p: False
    show ?thesis
    proof (cases "pb < 6")
      case True
      then have "\<exists>y. smp_step x y" using race_b[OF L ab g I] p smp_step_iff by blast
      moreover have "code x b \<noteq> []" using True cd(2) len by simp
      ultimately show ?thesis by simp
    next
      case False
      then have "pa = 6" "pb = 6" using p cd by simp_all
      then show ?thesis using I cd len by (simp add: race_inv_def)
    qed
  qed
qed

lemma race_completes:
  assumes L: "L \<noteq> PtableLk" and ab: "a \<noteq> b" and g: "quiet_update g"
  shows "race_inv a b i ch L g pa pb x \<Longrightarrow> n = (6 - pa) + (6 - pb) \<Longrightarrow> \<exists>y. smp_step\<^sup>*\<^sup>* x y \<and> code y a = [] \<and> code y b = []"
proof (induction n arbitrary: pa pb x)
  case 0
  then have "pa = 6" "pb = 6" by (auto simp: race_inv_def)
  then have "code x a = []" "code x b = []" using 0 ab by (simp_all add: race_inv_def sleeper_code[OF L] waker_code)
  then show ?case by blast
next
  case (Suc n)
  have p: "pa \<le> 6" "pb \<le> 6" using Suc.prems(1) by (simp_all add: race_inv_def)
  obtain t c pa' pb' where t: "steps_to c x t" "race_inv a b i ch L g pa' pb' (moved c t x)" "n = (6 - pa') + (6 - pb')"
  proof (cases "pa < 6")
    case True
    then obtain t where "steps_to a x t" "race_inv a b i ch L g (Suc pa) pb (moved a t x)" using race_a[OF L ab Suc.prems(1)] by blast
    then show ?thesis using that True Suc.prems(2) by force
  next
    case False
    then have "pb < 6" using Suc.prems(2) p by linarith
    then obtain t where "steps_to b x t" "race_inv a b i ch L g pa (Suc pb) (moved b t x)" using race_b[OF L ab g Suc.prems(1)] False by blast
    then show ?thesis using that False \<open>pb < 6\<close> Suc.prems(2) by force
  qed
  obtain y where "smp_step\<^sup>*\<^sup>* (moved c t x) y" "code y a = []" "code y b = []" using Suc.IH[OF t(2,3)] by blast
  moreover have "smp_step x (moved c t x)" using t(1) smp_step_iff by blast
  ultimately show ?case by (meson converse_rtranclp_into_rtranclp)
qed

text \<open>Process \<open>i\<close> runs on processor \<open>a\<close>, which holds \<open>L\<close> and no other lock; \<open>b\<close> holds none.\<close>

definition race_start :: "nat \<Rightarrow> nat \<Rightarrow> nat \<Rightarrow> chan \<Rightarrow> lockid \<Rightarrow> (kernel \<Rightarrow> kernel) \<Rightarrow> smp \<Rightarrow> bool" where
  "race_start a b i ch L g x \<longleftrightarrow> a \<noteq> b \<and> code x = (\<lambda>_. [])(a := sleeper a i ch L, b := waker g ch L)
     \<and> cpu_ok a (iflag x a) (kern x) \<and> nclis (kern x) ! a = 1 \<and> cprocs (kern x) ! a = Some i \<and> i < length (procs (kern x))
     \<and> cpu_ok b (iflag x b) (kern x) \<and> nclis (kern x) ! b = 0
     \<and> lock_is L (Some a) (kern x) \<and> lock_is PtableLk None (kern x)"

lemma race_start_inv: "race_start a b i ch L g x \<Longrightarrow> race_inv a b i ch L g 0 0 x"
  by (simp add: race_start_def race_inv_def depth_a_def depth_b_def)

text \<open>(C14) No wakeup is lost.  A process that holds the lock \<open>L\<close> calls \<open>sleep\<close>, and another processor will take \<open>L\<close>, make the
  condition true, call \<open>wakeup\<close> and release \<open>L\<close>.  In every interleaving of the two, when both are done the process is \<open>RUNNABLE\<close> and the locks are free,
  and until then one of them can make a step: there is no deadlock and no panic.  (Were \<open>L\<close> released before \<open>ptable.lock\<close> is taken, the \<open>wakeup\<close> could
  come before the process is \<open>SLEEPING\<close>, and it would sleep on.)\<close>

theorem sleep_no_lost_wakeup:
  assumes "L \<noteq> PtableLk" "quiet_update g" "race_start a b i ch L g x" "smp_step\<^sup>*\<^sup>* x y"
  shows "if code y a = [] \<and> code y b = []
    then pstate (procs (kern y) ! i) = RUNNABLE \<and> lock_is L None (kern y) \<and> lock_is PtableLk None (kern y)
    else \<exists>z. smp_step y z"
proof -
  have ab: "a \<noteq> b" using assms(3) by (simp add: race_start_def)
  obtain pa pb where "race_inv a b i ch L g pa pb y" using race_reach[OF assms(4,1) ab assms(2) race_start_inv[OF assms(3)]] by blast
  then show ?thesis by (rule race_done[OF assms(1) ab assms(2)])
qed

text \<open>The clock tick comes on processor 1 while process 0 goes to sleep on processor 0.\<close>

definition two_cpus :: smp where
  "two_cpus = \<lparr>kern = one_running\<lparr>mach := machine0\<lparr>cpus := [cpu0\<lparr>cpu_proc := Some 0, ncli := 1, intena := True\<rparr>, cpu0\<lparr>apicid := 1\<rparr>], ncpu := 2,
       locks := (locks machine0)(TicksLk := (locks machine0 TicksLk)\<lparr>locked := True, lk_cpu := Some 0\<rparr>)\<rparr>\<rparr>,
     code = (\<lambda>_. [])(0 := sleeper 0 0 ChTicks TicksLk, 1 := waker (\<lambda>s. s\<lparr>uticks := uticks s + 1\<rparr>) ChTicks TicksLk),
     iflag = (\<lambda>c. c = 1)\<rparr>"

lemma two_cpus_start: "race_start 0 1 0 ChTicks TicksLk (\<lambda>s. s\<lparr>uticks := uticks s + 1\<rparr>) two_cpus"
  by (simp add: race_start_def two_cpus_def cpu_ok_def ids_ok_def nclis_def cprocs_def lock_is_def one_running_def machine0_def cpu0_def)

theorem sleep_no_lost_wakeup_witness:
  "\<exists>y. smp_step\<^sup>*\<^sup>* two_cpus y \<and> code y 0 = [] \<and> code y 1 = [] \<and> pstate (procs (kern y) ! 0) = RUNNABLE"
proof -
  have g: "quiet_update (\<lambda>s. s\<lparr>uticks := uticks s + 1\<rparr>)" by (simp add: quiet_update_def)
  obtain y where y: "smp_step\<^sup>*\<^sup>* two_cpus y" "code y 0 = []" "code y 1 = []"
    using race_completes[OF _ _ g race_start_inv[OF two_cpus_start] refl] by auto
  then show ?thesis using sleep_no_lost_wakeup[OF _ g two_cpus_start y(1)] by auto
qed

end
