(* ===== verification/Spec2Isabelle.thy ===== *)
theory Spec2Isabelle
  imports Prelude CString Spinlock Kernel_State Kalloc Cprintf Vm Proc Lottery Trap Balloc Grep Sh Tty Kbd Mkfs Vspace Umalloc Ide Mp Wc Smp
begin

text \<open>
  \<^bold>\<open>xv6 with a lottery scheduler.\<close>  This library models the kernel of this repository (x86, C), the program that builds its disk
  image, and the larger user programs, and proves that they do what they are meant to.  Files are named as under \<open>src/\<close>.

  \<^bold>\<open>The program and its state.\<close>  A trap enters the kernel in \<open>trap\<close> (trap.c), which calls \<open>syscall\<close> or serves an interrupt.  System calls
  (sysproc.c, sysfile.c) act on processes (proc.c), address spaces (vm.c, over the page allocator kalloc.c), open files and pipes (file.c,
  pipe.c), and inodes and directories (fs.c).  These go through the log (log.c) to the buffer cache (bio.c) and the disk (ide.c or memide.c).
  Everything is protected by spin locks and sleep locks and gives up the processor through \<open>sleep\<close> and \<open>sched\<close>; the scheduler
  draws the next process by lottery.  The record \<open>kernel\<close> (theory \<open>Kernel_State\<close>) holds the global variables of the C files: tables are lists,
  pointers into them indices, null is \<open>None\<close>, and the pages that \<open>kalloc\<close> hands out are bytes of a 32-bit memory.  The processors and
  their locks are the record \<open>machine\<close> in it.  Integers of C are words of their width, so wrap-around is that of the program; signed
  overflow (the sum of the tickets, the generator), which C leaves undefined, is taken to wrap around as in the compiled code.

  \<^bold>\<open>How code is translated.\<close>  A kernel function is a function of its arguments and a \<open>kernel\<close>, with a result of type \<open>outcome\<close>
  (theory \<open>Prelude\<close>): \<open>Ok\<close> with the value and the new state, \<open>Panic\<close>, \<open>Fault\<close> for behaviour that C or the processor does not
  define here, \<open>Spin\<close> for a loop or lock that never ends, and \<open>Slept\<close> for a switch to the scheduler.  What follows such a switch is a second
  definition, with suffix \<open>_back\<close>, that takes the live local variables.  Definitions keep the names of the C functions; a loop or a part of
  a function has a name of its own, such as \<open>fetchstr_loop\<close>.

  \<^bold>\<open>The theories.\<close>
  \<^item> \<open>Prelude\<close>, \<open>CString\<close> (string.c, ulib.c), \<open>Spinlock\<close> (spinlock.c), \<open>Kernel_State\<close> (the headers): vocabulary, memory and string
    routines, nesting of interrupt disabling, and the symbolic evaluation of critical sections (\<open>hold\<close>, \<open>touch\<close>).
  \<^item> \<open>Kalloc\<close> (kalloc.c): the free list is a list of distinct pages; the locale \<open>page_allocator\<close> is its contract.
  \<^item> \<open>Cprintf\<close> (console.c, uart.c, printf.c), \<open>Console\<close>, \<open>Tty\<close>, \<open>Kbd\<close> (console.c, kbd.c): on formats without \<open>%x\<close>, \<open>%p\<close> and \<open>%c\<close>
    \<open>cprintf\<close> writes what \<open>printf\<close> writes, and console input is a line editor from which \<open>consoleread\<close> takes whole lines.
  \<^item> \<open>Vm\<close> (vm.c), \<open>Vmap\<close>, \<open>Vspace\<close>: page tables, what they map, and the memory of a process: \<open>fork\<close> copies it, \<open>growproc\<close> grows and
    shrinks it, \<open>freevm\<close> returns every page once.
  \<^item> \<open>Proc\<close>, \<open>Proc_Life\<close>, \<open>Lottery\<close>, \<open>Smp\<close> (proc.c): in every interleaving of \<open>sleep\<close> on one processor with \<open>wakeup\<close> on another
    no wake-up is lost (\<open>Smp\<close>), an exiting process meets its waiting parent, and every runnable process
    wins in proportion to its tickets over the period of the generator.
  \<^item> \<open>Sleeplock\<close>, \<open>Bio\<close>, \<open>Bcache\<close> (sleeplock.c, bio.c, memide.c): the cache is coherent with the disk.
  \<^item> \<open>Ide\<close> (ide.c, ioapic.c): requests are queued by \<open>iderw\<close> and served in order by \<open>ideintr\<close>.
  \<^item> \<open>Log\<close>, \<open>Commit\<close>, \<open>Crash\<close> (log.c): a transaction is durable, and atomic under crashes at any block write, also during recovery.
  \<^item> \<open>Inode\<close>, \<open>Fs\<close>, \<open>Content\<close>, \<open>Balloc\<close> (fs.c): files are arrays of bytes, and the bitmap allocates the lowest free block.
  \<^item> \<open>Ring\<close>, \<open>Pipe\<close>, \<open>File\<close> (pipe.c, file.c): a pipe is a bounded queue for all histories of calls; the locale \<open>byte_fifo\<close> is that contract.
  \<^item> \<open>Uaccess\<close>, \<open>Exec\<close>, \<open>Sysproc\<close>, \<open>Sysfile\<close>, \<open>Trap\<close> (syscall.c, exec.c, sysproc.c, sysfile.c, trap.c): arguments stay inside
    the process, \<open>trap\<close> does not take a killed process back to user mode, and \<open>sleep\<close> waits for its ticks.
  \<^item> \<open>Mp\<close> (mp.c): the table of the processors.
  \<^item> \<open>Mkfs\<close> (mkfs.c): the kernel that boots from an image reads back every file put into it.
  \<^item> \<open>Sh\<close>, \<open>Grep\<close>, \<open>Wc\<close> (sh.c, grep.c, wc.c, cat.c), \<open>Umalloc\<close> (umalloc.c): the parser is total and inverts printing, pipelines are wired
    with one end on each side, the matcher decides the language of the pattern, and the allocator hands out disjoint blocks.

  \<^bold>\<open>Loops and bounds.\<close>  Structural recursion and \<open>function\<close> with a measure are used where a loop ends.  Loops that may not end are
  \<open>partial_function (option)\<close> (strings without NUL, the ring of \<open>Umalloc\<close>) or \<open>while_option\<close> (the status port and the queue in \<open>Ide\<close>,
  the searches of \<open>Mp\<close>); where the code relies on their end, it is proved.  The parser of the shell runs on fuel of four units
  for every byte and four more, which \<open>Sh\<close> shows to be enough; a walk of the buffer list has \<open>NBUF + 1\<close> steps, enough for the ring that
  \<open>Bcache\<close> maintains.

  \<^bold>\<open>Parameters.\<close>  The disk drive of \<open>Ide\<close> is a parameter with the laws \<open>ata_ok\<close>, satisfied by a simulated drive.  The decision of the
  kernel on \<open>sbrk\<close> (\<open>Umalloc\<close>), the results of \<open>read\<close> in the user programs, the image of initcode, and the values that
  ports deliver are arguments.  A block write is taken to be atomic.

  \<^bold>\<open>Behaviour that differs from what is meant.\<close>  Tickets whose sum modulo \<open>2^32\<close> is zero or at least \<open>2^31\<close> stop the scheduler; \<open>begin_op\<close> admits more blocks than the log
  holds; \<open>kill(0)\<close> marks a free slot, and the process created there first enters user mode through
  \<open>forkret\<close>, which does not look at the mark; \<open>sbrk\<close> by minus the size frees the memory and reports failure; grep drops long lines; mkfs gives a
  full root directory a wrong size; \<open>mpinit\<close> loops on an unknown entry; a failed disk read leaves a buffer marked valid; and
  \<open>malloc\<close> wraps around for sizes near \<open>2^32\<close>.

  \<^bold>\<open>Not modelled.\<close>  Assembly code (boot sector, entry, \<open>swtch\<close>, trap entry, system call stubs) and the boot loader, which act below C; the
  local APIC, the legacy interrupt controller, the set-up of the serial port and of the segment descriptors (\<open>seginit\<close>), which only write device
  or processor registers; the order of initialisation in main.c; init and the user programs that make one system call; and the
  test programs.  Interleaving is modelled at the points where the kernel gives up the processor or takes a lock, and step by step for
  \<open>sleep\<close> and \<open>wakeup\<close>; data races between processors outside locks are not.  In \<open>trap\<close> the acknowledgement of an interrupt (\<open>lapiceoi\<close>) is left out, and a disk interrupt does nothing,
  because the cache is modelled over memide.c, whose transfers are synchronous; the interrupt handler of ide.c is in \<open>Ide\<close>.  \<open>switchuvm\<close> leaves out the task state segment.  The \<open>pcs\<close> trace of a lock and the messages of mkfs are left out.
\<close>

end
